(* ===== verification/Prelude.thy ===== *)
theory Prelude
  imports Main "HOL-Library.Word"
begin

text \<open>
  The vocabulary shared by every component theory: the machine integers of
  \<^verbatim>\<open>kernel/types.h\<close>, the byte-addressed physical memory, the outcome type of kernel
  code (a value, or a fault that stops the current thread), little-endian words, and the
  generic facts on words and lists that the component proofs use.
\<close>

unbundle bit_operations_syntax

section \<open>Machine integers and memory\<close>

text \<open>\<^verbatim>\<open>kernel/types.h\<close>: the unsigned integers at their width on rv32.\<close>

type_synonym u8 = "8 word"
type_synonym u16 = "16 word"
type_synonym u32 = "32 word"

text \<open>
  Physical memory is a total map from 32-bit addresses to bytes; a pointer is a \<^typ>\<open>u32\<close>
  and pointer arithmetic wraps as the hardware's does.
\<close>

type_synonym mem = "u32 \<Rightarrow> u8"

section \<open>Outcomes of kernel code\<close>

text \<open>
  Kernel code either produces a value or stops: \<open>Panic\<close> is a call of \<^verbatim>\<open>panic()\<close> with its
  message, \<open>Blocked\<close> is a call of \<^verbatim>\<open>sleep()\<close> or \<^verbatim>\<open>acquire()\<close> that waits, \<open>Diverges\<close> is a loop of the
  source that ran past the bound the model gives it, and \<open>Overrun\<close> is a write outside the object that it
  is meant for, after which C leaves open what happens.
\<close>

datatype fault = Panic string | Blocked | Diverges | Overrun

type_synonym 'a res = "fault + 'a"

definition ebind :: "'a res \<Rightarrow> ('a \<Rightarrow> 'b res) \<Rightarrow> 'b res" where
  "ebind r f = (case r of Inl e \<Rightarrow> Inl e | Inr x \<Rightarrow> f x)"

lemma ebind_Inl [simp]: "ebind (Inl e) f = Inl e"
  by (simp add: ebind_def)

lemma ebind_Inr [simp]: "ebind (Inr x) f = f x"
  by (simp add: ebind_def)

lemma ebind_eq_Inr [simp]: "ebind r f = Inr y \<longleftrightarrow> (\<exists>x. r = Inr x \<and> f x = Inr y)"
  by (cases r) auto

lemma ebind_eq_Inl: "ebind r f = Inl e \<longleftrightarrow> r = Inl e \<or> (\<exists>x. r = Inr x \<and> f x = Inl e)"
  by (cases r) auto

lemma ebind_cong [fundef_cong]:
  "r = r' \<Longrightarrow> (\<And>x. r' = Inr x \<Longrightarrow> f x = g x) \<Longrightarrow> ebind r f = ebind r' g"
  by (cases r') auto

text \<open>The definitions of a component's operations, for proofs that unfold them.\<close>

named_theorems kdefs "definitions of kernel operations"

section \<open>Words\<close>

lemma unat_Suc_step: "(i :: 'a :: len word) < n \<Longrightarrow> unat (i + 1) = Suc (unat i)"
  by unat_arith

lemma unat_pred_step: "(0 :: 'a :: len word) < n \<Longrightarrow> unat n = Suc (unat (n - 1))"
  by unat_arith

lemma unat_u32_lt [simp]: "unat (a :: u32) < 4294967296"
  using unsigned_less [of a] by simp

lemma unat_minus_1_u32: "unat (- 1 :: u32) = 4294967295"
  by (simp add: unsigned_minus_1_eq_mask mask_eq_exp_minus_1)

text \<open>
  Distances between addresses: \<open>unat (b - a)\<close> is how far \<open>b\<close> lies above \<open>a\<close>, modulo the
  address space. The regions an operation touches are described by such distances.
\<close>

lemma dist_add: "unat ((b :: u32) + i - a) = (unat (b - a) + unat i) mod 4294967296"
proof -
  have "b + i - a = (b - a) + i" by simp
  then show ?thesis by (simp only: unat_word_ariths(1)) simp
qed

lemma dist_swap: "(a :: u32) \<noteq> b \<Longrightarrow> unat (a - b) = 4294967296 - unat (b - a)"
  using unat_u32_lt [of a] unat_u32_lt [of b]
  by (auto simp: unat_sub_if' word_unat_eq_iff simp del: unat_u32_lt)

lemma dist_base: "unat (a :: u32) \<le> unat b \<Longrightarrow> unat (b - a) = unat b - unat a"
  by (simp add: unat_sub_if')

lemma dist_below: "unat (b :: u32) < unat a \<Longrightarrow> unat (b - a) = unat b + 4294967296 - unat a"
  by (simp add: unat_sub_if')

lemma offset_eq_iff: "(a :: u32) = d + i \<longleftrightarrow> unat (a - d) = unat i"
  by (metis add_diff_cancel_left' diff_add_cancel add.commute word_unat_eq_iff)

section \<open>Little-endian words in memory\<close>

text \<open>
  rv32 is little-endian: \<open>le32\<close> is the 32-bit value of four consecutive bytes, \<open>byte32 k\<close>
  the \<open>k\<close>-th byte of a value, \<open>load32\<close> and \<open>store32\<close> the accesses of the C code to a
  \<^verbatim>\<open>uint32\<close> object in physical memory.
\<close>

definition le32 :: "u8 \<Rightarrow> u8 \<Rightarrow> u8 \<Rightarrow> u8 \<Rightarrow> u32" where
  "le32 b0 b1 b2 b3 =
     ucast b0 OR push_bit 8 (ucast b1) OR push_bit 16 (ucast b2) OR push_bit 24 (ucast b3)"

definition byte32 :: "nat \<Rightarrow> u32 \<Rightarrow> u8" where
  "byte32 k w = ucast (drop_bit (8 * k) w)"

definition load32 :: "mem \<Rightarrow> u32 \<Rightarrow> u32" where
  "load32 m a = le32 (m a) (m (a + 1)) (m (a + 2)) (m (a + 3))"

definition store32 :: "mem \<Rightarrow> u32 \<Rightarrow> u32 \<Rightarrow> mem" where
  "store32 m a v =
     m(a := byte32 0 v, a + 1 := byte32 1 v, a + 2 := byte32 2 v, a + 3 := byte32 3 v)"

lemma le32_byte32 [simp]:
  "le32 (byte32 0 w) (byte32 (Suc 0) w) (byte32 2 w) (byte32 3 w) = w"
proof (rule bit_word_eqI)
  fix n assume n: "n < LENGTH(32)"
  then consider "n < 8" | "8 \<le> n" "n < 16" | "16 \<le> n" "n < 24" | "24 \<le> n" "n < 32"
    by fastforce
  then show "bit (le32 (byte32 0 w) (byte32 (Suc 0) w) (byte32 2 w) (byte32 3 w)) n = bit w n"
    by cases (auto simp: le32_def byte32_def bit_or_iff bit_push_bit_iff bit_unsigned_iff
        bit_drop_bit_eq)
qed

lemma byte32_le32 [simp]:
  "byte32 0 (le32 b0 b1 b2 b3) = b0" "byte32 (Suc 0) (le32 b0 b1 b2 b3) = b1"
  "byte32 2 (le32 b0 b1 b2 b3) = b2" "byte32 3 (le32 b0 b1 b2 b3) = b3"
  by (rule bit_word_eqI; auto simp: le32_def byte32_def bit_or_iff bit_push_bit_iff
      bit_unsigned_iff bit_drop_bit_eq dest: bit_imp_le_length)+

lemma load32_store32 [simp]: "load32 (store32 m a v) a = v"
  by (simp add: load32_def store32_def)

lemma small_dist_cases: "unat (d :: u32) < 4 \<Longrightarrow> d = 0 \<or> d = 1 \<or> d = 2 \<or> d = 3"
  by unat_arith

lemma store32_apply:
  "store32 m a v b = (if unat (b - a) < 4 then byte32 (unat (b - a)) v else m b)"
proof -
  define d where "d = b - a"
  have b: "b = a + d" by (simp add: d_def)
  have "4 \<le> unat d \<Longrightarrow> d \<noteq> 0 \<and> d \<noteq> 1 \<and> d \<noteq> 2 \<and> d \<noteq> 3"
    by auto
  then show ?thesis
    using small_dist_cases [of d] by (cases "unat d < 4") (auto simp: store32_def b)
qed

lemma load32_cong:
  "(\<And>i. unat i < 4 \<Longrightarrow> m (a + i) = m' (a + i)) \<Longrightarrow> load32 m a = load32 m' a"
proof -
  assume eq: "\<And>i. unat i < 4 \<Longrightarrow> m (a + i) = m' (a + i)"
  show "load32 m a = load32 m' a"
    using eq [of 0] eq [of 1] eq [of 2] eq [of 3] by (simp add: load32_def)
qed

lemma dist_disjoint4:
  fixes a b :: u32
  assumes "4 \<le> unat (b - a)" "4 \<le> unat (a - b)" "unat i < 4"
  shows "4 \<le> unat (b + i - a)"
proof -
  have "a \<noteq> b" using assms by auto
  then have "unat (b - a) + unat i < 4294967296"
    using assms dist_swap [of a b] by simp
  then show ?thesis using assms by (simp add: dist_add)
qed

lemma load32_store32_disjoint:
  "4 \<le> unat (b - a) \<Longrightarrow> 4 \<le> unat (a - b) \<Longrightarrow> load32 (store32 m a v) b = load32 m b"
  by (rule load32_cong) (use dist_disjoint4 in \<open>fastforce simp: store32_apply\<close>)

end
