(* ===== verification/Utils.thy ===== *)
theory Utils
  imports Prelude
begin

text \<open>
  \<^verbatim>\<open>kernel/utils.c\<close>: the byte-order conversions of the network stack, the seconds clock and
  the pseudo-random generator that TCP takes its initial sequence numbers from.
\<close>

section \<open>Definitions\<close>

definition toggle_endian16 :: "u16 \<Rightarrow> u16" where
  "toggle_endian16 v = push_bit 8 (0xff AND v) OR drop_bit 8 (0xff00 AND v)"

definition toggle_endian32 :: "u32 \<Rightarrow> u32" where
  "toggle_endian32 v =
    push_bit 24 (v AND 0xff) OR push_bit 8 (v AND 0xff00) OR
    drop_bit 8 (v AND 0xff0000) OR drop_bit 24 (v AND 0xff000000)"

text \<open>
  \<^verbatim>\<open>time\<close> reads the tick counter, of which there are 100 a second. The caller may pass a null
  pointer \<open>t\<close>; otherwise the result is stored there as well.
\<close>

definition time :: "u32 \<Rightarrow> mem \<Rightarrow> u32 \<Rightarrow> u32 \<times> mem" where
  "time ticks m t =
    (let tmp = ticks div 100
     in (tmp, if t \<noteq> 0 then store32 m t tmp else m))"

text \<open>
  \<^verbatim>\<open>do_rand\<close> computes on \<^verbatim>\<open>long\<close>, which is 32 bits wide. The intermediate values are
  mathematical integers here; \<open>do_rand_steps\<close> lists them so that the absence of signed
  overflow is a statement. The C operators \<^verbatim>\<open>/\<close> and \<^verbatim>\<open>%\<close> are applied to positive operands
  only, where they agree with \<open>div\<close> and \<open>mod\<close>.
\<close>

definition do_rand :: "u32 \<Rightarrow> int \<times> u32" where
  "do_rand ctx =
    (let x = int (unat ctx mod 0x7ffffffe) + 1;
         hi = x div 127773;
         lo = x mod 127773;
         x = 16807 * lo - 2836 * hi;
         x = (if x < 0 then x + 0x7fffffff else x);
         x = x - 1
     in (x, word_of_int x))"

definition do_rand_steps :: "u32 \<Rightarrow> int list" where
  "do_rand_steps ctx =
    (let x = int (unat ctx mod 0x7ffffffe) + 1;
         hi = x div 127773;
         lo = x mod 127773;
         y = 16807 * lo - 2836 * hi
     in [x, hi, lo, 16807 * lo, 2836 * hi, y, (if y < 0 then y + 0x7fffffff else y),
         (if y < 0 then y + 0x7fffffff else y) - 1])"

text \<open>\<^verbatim>\<open>rand\<close>: the generator's state is the global \<^verbatim>\<open>rand_next\<close>, initially 1.\<close>

definition rand_next_init :: u32 where
  "rand_next_init = 1"

definition rand :: "u32 \<Rightarrow> int \<times> u32" where
  "rand rand_next = do_rand rand_next"

section \<open>Byte order\<close>

lemma byte_masks:
  "(0xff :: 'a :: len word) = mask 8" "(0xff00 :: 'a word) = push_bit 8 (mask 8)"
  "(0xff0000 :: 'a word) = push_bit 16 (mask 8)" "(0xff000000 :: 'a word) = push_bit 24 (mask 8)"
  by (simp_all add: mask_eq_exp_minus_1 push_bit_eq_mult)

lemma toggle_endian32_bytes:
  "toggle_endian32 v = le32 (byte32 3 v) (byte32 2 v) (byte32 1 v) (byte32 0 v)"
  unfolding toggle_endian32_def byte_masks
proof (rule bit_word_eqI)
  fix n
  assume "n < LENGTH(32)"
  then consider "n < 8" | "8 \<le> n" "n < 16" | "16 \<le> n" "n < 24" | "24 \<le> n" "n < 32"
    by force
  then show "bit (push_bit 24 (v AND mask 8) OR push_bit 8 (v AND push_bit 8 (mask 8)) OR
      drop_bit 8 (v AND push_bit 16 (mask 8)) OR drop_bit 24 (v AND push_bit 24 (mask 8))) n =
    bit (le32 (byte32 3 v) (byte32 2 v) (byte32 1 v) (byte32 0 v)) n"
    by cases (auto simp: le32_def byte32_def bit_or_iff bit_and_iff bit_push_bit_iff
        bit_drop_bit_eq bit_unsigned_iff bit_mask_iff)
qed

lemma toggle_endian16_bit:
  "bit (toggle_endian16 v) n \<longleftrightarrow> n < 16 \<and> bit v (if n < 8 then 8 + n else n - 8)"
  unfolding toggle_endian16_def byte_masks
  by (auto simp: bit_or_iff bit_and_iff bit_push_bit_iff bit_drop_bit_eq bit_mask_iff
      dest: bit_imp_le_length)

lemma toggle_endian16_involution [simp]: "toggle_endian16 (toggle_endian16 v) = v"
  by (rule bit_word_eqI) (auto simp: toggle_endian16_bit)

lemma toggle_endian32_involution [simp]: "toggle_endian32 (toggle_endian32 v) = v"
  using le32_byte32 [of v] by (simp add: toggle_endian32_bytes)

lemma toggle_endian16_low: "(ucast (toggle_endian16 w) :: u8) = ucast (drop_bit 8 w)"
  by (rule bit_word_eqI) (simp add: bit_unsigned_iff bit_drop_bit_eq toggle_endian16_bit)

lemma toggle_endian16_high: "(ucast (drop_bit 8 (toggle_endian16 w)) :: u8) = ucast w"
  by (rule bit_word_eqI) (simp add: bit_unsigned_iff bit_drop_bit_eq toggle_endian16_bit)

section \<open>The random generator\<close>

lemma do_rand_parts:
  fixes x :: int
  assumes "1 \<le> x" "x < 0x7fffffff"
  shows "0 \<le> x mod 127773" "x mod 127773 < 127773" "0 \<le> x div 127773" "x div 127773 \<le> 16807"
  using assms zdiv_mono1 [of x "16807 * 127773 + 2836" 127773]
  by (auto simp: pos_imp_zdiv_nonneg_iff)

lemma rand_schrage:
  fixes x q r :: int
  shows "x = 127773 * q + r \<Longrightarrow> 16807 * r - 2836 * q = 16807 * x - 0x7fffffff * q"
  by simp

lemma do_rand_range:
  fixes x :: int
  assumes x: "1 \<le> x" "x < 0x7fffffff"
  defines "y \<equiv> 16807 * (x mod 127773) - 2836 * (x div 127773)"
  shows "- 0x7fffffff < y" "y < 0x7fffffff"
    "y = 16807 * x - 0x7fffffff * (x div 127773)"
proof -
  show "- 0x7fffffff < y" "y < 0x7fffffff" using do_rand_parts [OF x] by (auto simp: y_def)
  show "y = 16807 * x - 0x7fffffff * (x div 127773)"
    unfolding y_def by (rule rand_schrage) (rule mult_div_mod_eq [symmetric])
qed

text \<open>16807 is invertible modulo \<open>2 ^ 31 - 1\<close>, so no step of the generator reaches 0.\<close>

lemma do_rand_nonzero:
  fixes x q :: int
  assumes "1 \<le> x" "x < 0x7fffffff"
  shows "16807 * x \<noteq> 0x7fffffff * q"
proof
  assume *: "16807 * x = 0x7fffffff * q"
  have "1407677000 * (16807 * x) = 1407677000 * (0x7fffffff * q)" using * by (rule arg_cong)
  then have "x = 0x7fffffff * (1407677000 * q - 11017 * x)" by (simp add: algebra_simps)
  then have "0x7fffffff dvd x" by (metis dvd_triv_left)
  then show False using assms zdvd_not_zless [of x "0x7fffffff"] by linarith
qed

lemma mod_unique_range:
  fixes a :: int
  shows "0 < y \<Longrightarrow> y < p \<Longrightarrow> y = a - p * q \<Longrightarrow> a mod p = y"
  by (metis diff_add_cancel mod_mult_self2 mod_pos_pos_trivial order_less_imp_le)

lemma do_rand_park_miller:
  fixes ctx
  defines "x \<equiv> int (unat ctx mod 0x7ffffffe) + 1"
  shows "fst (do_rand ctx) = (16807 * x) mod 0x7fffffff - 1" "0 \<le> fst (do_rand ctx)"
    "fst (do_rand ctx) < 0x7ffffffe"
proof -
  let ?y = "16807 * (x mod 127773) - 2836 * (x div 127773)"
  let ?z = "if ?y < 0 then ?y + 0x7fffffff else ?y"
  have x: "1 \<le> x" "x < 0x7fffffff"
    using mod_less_divisor [of "0x7ffffffe" "unat ctx"] unfolding x_def by linarith+
  note r = do_rand_range [OF x]
  have "16807 * x \<noteq> 0x7fffffff * (x div 127773)" by (rule do_rand_nonzero [OF x])
  then have "?y \<noteq> 0" using r(3) by linarith
  then have z: "0 < ?z" "?z < 0x7fffffff" using r(1,2) by auto
  have "?z = 16807 * x - 0x7fffffff * (if ?y < 0 then x div 127773 - 1 else x div 127773)"
    by (simp only: r(3)) (simp add: algebra_simps)
  then have "(16807 * x) mod 0x7fffffff = ?z" by (rule mod_unique_range [OF z])
  moreover have "fst (do_rand ctx) = ?z - 1"
    by (simp add: do_rand_def Let_def x_def)
  ultimately show "fst (do_rand ctx) = (16807 * x) mod 0x7fffffff - 1"
    "0 \<le> fst (do_rand ctx)" "fst (do_rand ctx) < 0x7ffffffe"
    using z by linarith+
qed

lemma do_rand_state: "uint (snd (do_rand ctx)) = fst (do_rand ctx)"
proof -
  have "snd (do_rand ctx) = word_of_int (fst (do_rand ctx))"
    by (simp add: do_rand_def Let_def)
  moreover have "0 \<le> fst (do_rand ctx)" "fst (do_rand ctx) < 2 ^ 32"
    using do_rand_park_miller(2,3) [of ctx] by simp_all
  ultimately show ?thesis by (simp add: uint_word_of_int_eq take_bit_int_eq_self)
qed

lemma rand_step_bounds:
  fixes q r :: int
  shows "0 \<le> r \<Longrightarrow> r < 127773 \<Longrightarrow> 0 \<le> q \<Longrightarrow> q \<le> 16807 \<Longrightarrow>
    0 \<le> 16807 * r \<and> 16807 * r < 2 ^ 31 \<and> 0 \<le> 2836 * q \<and> 2836 * q < 2 ^ 31"
  by simp

lemma do_rand_steps_bounded:
  "list_all (\<lambda>v. - (2 ^ 31) \<le> v \<and> v < 2 ^ 31) (do_rand_steps ctx)"
proof -
  define x where "x = int (unat ctx mod 0x7ffffffe) + 1"
  define q r y where "q = x div 127773" and "r = x mod 127773" and "y = 16807 * r - 2836 * q"
  have x: "1 \<le> x" "x < 0x7fffffff"
    using mod_less_divisor [of "0x7ffffffe" "unat ctx"] unfolding x_def by linarith+
  have p: "0 \<le> r" "r < 127773" "0 \<le> q" "q \<le> 16807"
    unfolding q_def r_def by (rule do_rand_parts [OF x])+
  have y: "- 0x7fffffff < y" "y < 0x7fffffff"
    using do_rand_range(1,2) [OF x] by (simp_all only: y_def q_def r_def)
  have "do_rand_steps ctx = [x, q, r, 16807 * r, 2836 * q, y,
      if y < 0 then y + 0x7fffffff else y, (if y < 0 then y + 0x7fffffff else y) - 1]"
    by (simp only: do_rand_steps_def Let_def x_def q_def r_def y_def)
  then show ?thesis using x p y rand_step_bounds [OF p] by simp
qed

section \<open>Properties\<close>

text \<open>The byte-order conversions of the network stack put the most significant byte first:
  the \<open>i\<close>-th byte in memory of the converted 32-bit value is the \<open>(3 - i)\<close>-th of the original, the
  two bytes of a 16-bit value are exchanged, and both conversions are their own inverse, so that
  what one host converts to network order the other converts back.\<close>

lemma toggle_endian_network_order:
  "(let m' = store32 m a (toggle_endian32 v)
    in m' a = byte32 3 v \<and> m' (a + 1) = byte32 2 v \<and> m' (a + 2) = byte32 1 v \<and>
       m' (a + 3) = byte32 0 v) \<and>
   toggle_endian32 (toggle_endian32 v) = v \<and>
   (ucast (toggle_endian16 w) :: u8) = ucast (drop_bit 8 w) \<and>
   (ucast (drop_bit 8 (toggle_endian16 w)) :: u8) = ucast w \<and>
   toggle_endian16 (toggle_endian16 w) = w"
  by (simp add: Let_def store32_apply toggle_endian32_bytes toggle_endian16_low
      toggle_endian16_high)

text \<open>\<^verbatim>\<open>do_rand\<close> is the Park and Miller generator: with \<open>x\<close> the state moved to
  \<open>1 \<dots> 2 ^ 31 - 2\<close>, the result is \<open>7 ^ 5 * x mod (2 ^ 31 - 1)\<close> moved back to
  \<open>0 \<dots> 2 ^ 31 - 3\<close>, the new state is the result, and no intermediate value leaves the
  range of a 32-bit signed integer.\<close>

lemma rand_is_park_miller:
  "fst (rand s) = (7 ^ 5 * (int (unat s mod (2 ^ 31 - 2)) + 1)) mod (2 ^ 31 - 1) - 1 \<and>
   0 \<le> fst (rand s) \<and> fst (rand s) < 2 ^ 31 - 2 \<and>
   uint (snd (rand s)) = fst (rand s) \<and>
   list_all (\<lambda>v. - (2 ^ 31) \<le> v \<and> v < 2 ^ 31) (do_rand_steps s)"
  using do_rand_park_miller [of s] do_rand_steps_bounded [of s] do_rand_state [of s]
  by (simp add: rand_def)

end
