(* ===== verification/Kstring.thy ===== *)
theory Kstring
  imports Prelude
begin

text \<open>
  \<^verbatim>\<open>kernel/string.c\<close>: the byte and string routines over physical memory. Every loop of the
  source is a recursive function with the same guard and the same order of effects; the
  lemmas replace each loop by the region of memory it reads or writes.
\<close>

section \<open>The routines\<close>

text \<open>\<^verbatim>\<open>memset\<close>: the counter is compared with the unsigned length.\<close>

function memset_loop :: "mem \<Rightarrow> u32 \<Rightarrow> u8 \<Rightarrow> u32 \<Rightarrow> u32 \<Rightarrow> mem" where
  "memset_loop m dst c n i =
     (if i < n then memset_loop (m(dst + i := c)) dst c n (i + 1) else m)"
  by pat_completeness auto
termination
  by (relation "measure (\<lambda>(m, dst, c, n, i). unat n - unat i)")
    (auto simp: unat_Suc_step word_less_nat_alt)

definition memset :: "mem \<Rightarrow> u32 \<Rightarrow> u32 \<Rightarrow> u32 \<Rightarrow> mem" where
  "memset m dst c n = memset_loop m dst (ucast c) n 0"

function memcmp :: "mem \<Rightarrow> u32 \<Rightarrow> u32 \<Rightarrow> u32 \<Rightarrow> int" where
  "memcmp m s1 s2 n =
     (if 0 < n
      then if m s1 \<noteq> m s2 then uint (m s1) - uint (m s2)
           else memcmp m (s1 + 1) (s2 + 1) (n - 1)
      else 0)"
  by pat_completeness auto
termination
  by (relation "measure (\<lambda>(m, s1, s2, n). unat n)") (auto simp: unat_pred_step)

text \<open>\<^verbatim>\<open>memmove\<close>: backwards when the destination starts inside the source, else forwards.\<close>

function memmove_fwd :: "mem \<Rightarrow> u32 \<Rightarrow> u32 \<Rightarrow> u32 \<Rightarrow> mem" where
  "memmove_fwd m d s n =
     (if 0 < n then memmove_fwd (m(d := m s)) (d + 1) (s + 1) (n - 1) else m)"
  by pat_completeness auto
termination
  by (relation "measure (\<lambda>(m, d, s, n). unat n)") (auto simp: unat_pred_step)

function memmove_bwd :: "mem \<Rightarrow> u32 \<Rightarrow> u32 \<Rightarrow> u32 \<Rightarrow> mem" where
  "memmove_bwd m d s n =
     (if 0 < n then memmove_bwd (m(d - 1 := m (s - 1))) (d - 1) (s - 1) (n - 1) else m)"
  by pat_completeness auto
termination
  by (relation "measure (\<lambda>(m, d, s, n). unat n)") (auto simp: unat_pred_step)

definition memmove :: "mem \<Rightarrow> u32 \<Rightarrow> u32 \<Rightarrow> u32 \<Rightarrow> mem" where
  "memmove m dst src n =
     (if src < dst \<and> src + n > dst
      then memmove_bwd m (dst + n) (src + n) n
      else memmove_fwd m dst src n)"

definition memcpy :: "mem \<Rightarrow> u32 \<Rightarrow> u32 \<Rightarrow> u32 \<Rightarrow> mem" where
  "memcpy m dst src n = memmove m dst src n"

function strncmp :: "mem \<Rightarrow> u32 \<Rightarrow> u32 \<Rightarrow> u32 \<Rightarrow> int" where
  "strncmp m p q n =
     (if 0 < n \<and> m p \<noteq> 0 \<and> m p = m q then strncmp m (p + 1) (q + 1) (n - 1)
      else if n = 0 then 0
      else uint (m p) - uint (m q))"
  by pat_completeness auto
termination
  by (relation "measure (\<lambda>(m, p, q, n). unat n)") (auto simp: unat_pred_step)

text \<open>
  \<^verbatim>\<open>strncpy\<close> has a signed count: the first loop copies up to and including a NUL, the second
  pads with NULs. The first loop hands on the memory, the cursor \<^verbatim>\<open>s\<close> and the count left.
\<close>

function strncpy_copy :: "mem \<Rightarrow> u32 \<Rightarrow> u32 \<Rightarrow> int \<Rightarrow> mem \<times> u32 \<times> int" where
  "strncpy_copy m s t n =
     (if n > 0
      then let m' = m(s := m t)
           in if m' s \<noteq> 0 then strncpy_copy m' (s + 1) (t + 1) (n - 1) else (m', s + 1, n - 1)
      else (m, s, n - 1))"
  by pat_completeness auto
termination
  by (relation "measure (\<lambda>(m, s, t, n). nat n)") auto

function strncpy_pad :: "mem \<Rightarrow> u32 \<Rightarrow> int \<Rightarrow> mem" where
  "strncpy_pad m s n = (if n > 0 then strncpy_pad (m(s := 0)) (s + 1) (n - 1) else m)"
  by pat_completeness auto
termination
  by (relation "measure (\<lambda>(m, s, n). nat n)") auto

definition strncpy :: "mem \<Rightarrow> u32 \<Rightarrow> u32 \<Rightarrow> int \<Rightarrow> mem" where
  "strncpy m s t n = (case strncpy_copy m s t n of (m', s', n') \<Rightarrow> strncpy_pad m' s' n')"

function safestrcpy_copy :: "mem \<Rightarrow> u32 \<Rightarrow> u32 \<Rightarrow> int \<Rightarrow> mem \<times> u32" where
  "safestrcpy_copy m s t n =
     (if n - 1 > 0
      then let m' = m(s := m t)
           in if m' s \<noteq> 0 then safestrcpy_copy m' (s + 1) (t + 1) (n - 1) else (m', s + 1)
      else (m, s))"
  by pat_completeness auto
termination
  by (relation "measure (\<lambda>(m, s, t, n). nat n)") auto

definition safestrcpy :: "mem \<Rightarrow> u32 \<Rightarrow> u32 \<Rightarrow> int \<Rightarrow> mem" where
  "safestrcpy m s t n =
     (if n \<le> 0 then m
      else case safestrcpy_copy m s t n of (m', s') \<Rightarrow> m'(s' := 0))"

text \<open>\<^verbatim>\<open>strlen\<close> does not return when no NUL follows: then its value is \<^term>\<open>None\<close>.\<close>

partial_function (option) strlen_loop :: "mem \<Rightarrow> u32 \<Rightarrow> u32 \<Rightarrow> u32 option" where
  "strlen_loop m s n = (if m (s + n) \<noteq> 0 then strlen_loop m s (n + 1) else Some n)"

definition strlen :: "mem \<Rightarrow> u32 \<Rightarrow> u32 option" where
  "strlen m s = strlen_loop m s 0"

declare memset_loop.simps [simp del] memcmp.simps [simp del] memmove_fwd.simps [simp del]
  memmove_bwd.simps [simp del] strncmp.simps [simp del] strncpy_copy.simps [simp del]
  strncpy_pad.simps [simp del] safestrcpy_copy.simps [simp del]

text \<open>
  \<open>cstr m p xs\<close>: the NUL-terminated string at \<open>p\<close> is \<open>xs\<close>. \<open>apart s n t l\<close>: the \<open>n\<close> bytes from
  \<open>s\<close> and the \<open>l + 1\<close> bytes from \<open>t\<close> (a string of length \<open>l\<close> with its NUL) do not overlap.
\<close>

primrec cstr :: "mem \<Rightarrow> u32 \<Rightarrow> u8 list \<Rightarrow> bool" where
  "cstr m p [] = (m p = 0)"
| "cstr m p (x # xs) = (m p = x \<and> x \<noteq> 0 \<and> cstr m (p + 1) xs)"

definition apart :: "u32 \<Rightarrow> int \<Rightarrow> u32 \<Rightarrow> nat \<Rightarrow> bool" where
  "apart s n t l \<longleftrightarrow> (\<forall>i j. int i < n \<and> j \<le> l \<longrightarrow> s + of_nat i \<noteq> t + of_nat j)"

section \<open>What the loops compute\<close>

lemma memset_loop_apply:
  "memset_loop m dst c n i a =
     (if unat i \<le> unat (a - dst) \<and> unat (a - dst) < unat n then c else m a)"
proof (induction m dst c n i rule: memset_loop.induct)
  case (1 m dst c n i)
  show ?case
  proof (cases "i < n")
    case True
    then have "memset_loop m dst c n i a = memset_loop (m(dst + i := c)) dst c n (i + 1) a"
      by (simp add: memset_loop.simps [of m dst c n i])
    then show ?thesis
      using True "1.IH" [OF True] by (auto simp: offset_eq_iff unat_Suc_step word_less_nat_alt)
  next
    case False
    then show ?thesis by (auto simp: memset_loop.simps [of m dst c n i] word_less_nat_alt)
  qed
qed

lemma memmove_fwd_offset:
  "d = s \<or> unat n \<le> unat (d - s) \<Longrightarrow>
     memmove_fwd m d s n (d + k) = (if unat k < unat n then m (s + k) else m (d + k))"
proof (induction m d s n arbitrary: k rule: memmove_fwd.induct)
  case (1 m d s n)
  show ?case
  proof (cases "0 < n")
    case True
    then have n: "unat n = Suc (unat (n - 1))"
      by (rule unat_pred_step)
    let ?m = "m(d := m s)"
    have "d + 1 = s + 1 \<or> unat (n - 1) \<le> unat (d + 1 - (s + 1))"
      using "1.prems" n by auto
    then have IH: "memmove_fwd ?m (d + 1) (s + 1) (n - 1) (d + 1 + (k - 1)) =
        (if unat (k - 1) < unat (n - 1) then ?m (s + 1 + (k - 1)) else ?m (d + 1 + (k - 1)))"
      by (rule "1.IH" [OF True])
    have "memmove_fwd m d s n = memmove_fwd ?m (d + 1) (s + 1) (n - 1)"
      using True by (subst memmove_fwd.simps) simp
    moreover have "d + 1 + (k - 1) = d + k" and "s + 1 + (k - 1) = s + k"
      by simp_all
    ultimately have step: "memmove_fwd m d s n (d + k) =
        (if unat (k - 1) < unat (n - 1) then ?m (s + k) else ?m (d + k))"
      using IH by (simp only:)
    show ?thesis
    proof (cases "k = 0")
      case True
      then show ?thesis
        using n unat_u32_lt [of n] step by (simp add: unat_minus_1_u32)
    next
      case False
      then have "unat k = Suc (unat (k - 1))"
        by (simp add: unat_pred_step word_gt_0)
      moreover have "d - s = k" if "s + k = d"
        using that by auto
      ultimately show ?thesis using "1.prems" False n by (auto simp: step)
    qed
  next
    case False
    then show ?thesis by (subst memmove_fwd.simps) (simp add: word_gt_0)
  qed
qed

lemma memmove_bwd_offset:
  "d = s \<or> unat n \<le> unat (s - d) \<Longrightarrow>
     memmove_bwd m (d + n) (s + n) n (d + k) = (if unat k < unat n then m (s + k) else m (d + k))"
proof (induction "unat n" arbitrary: m n)
  case 0
  then show ?case by (subst memmove_bwd.simps) (simp add: unat_eq_zero)
next
  case (Suc j)
  then have n0: "0 < n" by (simp add: word_less_nat_alt)
  then have n: "unat n = Suc (unat (n - 1))"
    by (rule unat_pred_step)
  let ?m = "m(d + (n - 1) := m (s + (n - 1)))"
  have prem: "d = s \<or> unat (n - 1) \<le> unat (s - d)"
    using Suc.prems n by auto
  have j: "j = unat (n - 1)"
    using Suc.hyps(2) n by simp
  have IH: "memmove_bwd ?m (d + (n - 1)) (s + (n - 1)) (n - 1) (d + k) =
      (if unat k < unat (n - 1) then ?m (s + k) else ?m (d + k))"
    by (rule Suc.hyps(1) [OF j prem])
  have "memmove_bwd m (d + n) (s + n) n (d + k) =
      memmove_bwd ?m (d + (n - 1)) (s + (n - 1)) (n - 1) (d + k)"
    using n0 by (subst memmove_bwd.simps) (simp add: add_diff_eq)
  then have step: "memmove_bwd m (d + n) (s + n) n (d + k) =
      (if unat k < unat (n - 1) then ?m (s + k) else ?m (d + k))"
    by (simp only: IH)
  show ?case
  proof (cases "unat k < unat (n - 1)")
    case True
    have "s + k \<noteq> d + (n - 1)" if "d \<noteq> s"
    proof
      assume eq: "s + k = d + (n - 1)"
      have "s - d = (s + k) - (d + k)" by simp
      also have "\<dots> = n - 1 - k" by (simp add: eq)
      finally have "s - d = n - 1 - k" .
      moreover have "unat (n - 1 - k) = unat (n - 1) - unat k"
        by (rule unat_sub) (use True in \<open>simp add: word_le_nat_alt\<close>)
      ultimately show False using Suc.prems that n by simp
    qed
    moreover have "k \<noteq> n - 1" using True by auto
    ultimately show ?thesis using True n step by (cases "d = s") simp_all
  next
    case False
    moreover have "k = n - 1 \<longleftrightarrow> unat k = unat (n - 1)"
      by (simp only: word_unat_eq_iff)
    ultimately show ?thesis using n by (auto simp: step less_Suc_eq)
  qed
qed

lemma memset_apply: "memset m dst c n a = (if unat (a - dst) < unat n then ucast c else m a)"
  by (simp add: memset_def memset_loop_apply)

lemma memmove_apply:
  assumes "unat src + unat n < 4294967296" "unat dst + unat n < 4294967296"
  shows "memmove m dst src n a = (if unat (a - dst) < unat n then m (src + (a - dst)) else m a)"
proof -
  have plus: "unat (src + n) = unat src + unat n"
    using assms by (simp add: unat_plus_if')
  show ?thesis
  proof (cases "src < dst \<and> src + n > dst")
    case True
    then have "unat n \<le> unat (src - dst)"
      using assms by (simp add: dist_below word_less_nat_alt)
    then show ?thesis
      using True memmove_bwd_offset [of dst src n m "a - dst"] by (simp add: memmove_def)
  next
    case False
    then have "dst = src \<or> unat n \<le> unat (dst - src)"
      using assms plus
      by (cases "unat src" "unat dst" rule: linorder_cases)
        (auto simp: dist_below dist_base word_less_nat_alt word_unat_eq_iff)
    then show ?thesis
      using memmove_fwd_offset [of dst src n m "a - dst"]
      by (simp add: memmove_def if_not_P [OF False])
  qed
qed

lemma memcmp_eq_0_iff:
  "memcmp m s1 s2 n = 0 \<longleftrightarrow> (\<forall>i. unat i < unat n \<longrightarrow> m (s1 + i) = m (s2 + i))"
proof (induction m s1 s2 n rule: memcmp.induct)
  case (1 m s1 s2 n)
  show ?case
  proof (cases "0 < n \<and> m s1 = m s2")
    case True
    then have n: "unat n = Suc (unat (n - 1))"
      using unat_pred_step by blast
    have "memcmp m s1 s2 n = 0 \<longleftrightarrow>
        (\<forall>i. unat i < unat (n - 1) \<longrightarrow> m (s1 + 1 + i) = m (s2 + 1 + i))"
      using True "1.IH" by (subst memcmp.simps) simp
    also have "\<dots> \<longleftrightarrow> (\<forall>i. unat i < unat n \<longrightarrow> m (s1 + i) = m (s2 + i))" (is "?L = ?R")
    proof
      assume L: ?L
      show ?R
      proof (intro allI impI)
        fix i :: u32
        assume i: "unat i < unat n"
        show "m (s1 + i) = m (s2 + i)"
        proof (cases "i = 0")
          case False
          then have "unat (i - 1) < unat (n - 1)"
            using i n unat_pred_step [of i] by (simp add: word_gt_0)
          then have "m (s1 + 1 + (i - 1)) = m (s2 + 1 + (i - 1))"
            using L by blast
          then show ?thesis by simp
        qed (use True in simp)
      qed
    next
      assume R: ?R
      show ?L
      proof (intro allI impI)
        fix i :: u32
        assume "unat i < unat (n - 1)"
        then have "unat (i + 1) < unat n"
          using n unat_u32_lt [of n] by (simp add: unat_plus_if')
        then have "m (s1 + (i + 1)) = m (s2 + (i + 1))"
          using R by blast
        then show "m (s1 + 1 + i) = m (s2 + 1 + i)"
          by (simp add: add.assoc add.commute [of 1])
      qed
    qed
    finally show ?thesis .
  next
    case False
    then show ?thesis
      by (subst memcmp.simps) (auto simp: word_less_nat_alt word_uint_eq_iff intro!: exI [of _ 0])
  qed
qed


lemma cstr_nonzeroE:
  assumes "cstr m p xs" "m p \<noteq> 0"
  obtains ys where "xs = m p # ys" "cstr m (p + 1) ys"
  using assms by (cases xs) auto

lemma strncmp_eq_0_iff:
  "cstr m p xs \<Longrightarrow> cstr m q ys \<Longrightarrow>
     strncmp m p q n = 0 \<longleftrightarrow> take (unat n) xs = take (unat n) ys"
proof (induction m p q n arbitrary: xs ys rule: strncmp.induct)
  case (1 m p q n)
  show ?case
  proof (cases "0 < n \<and> m p \<noteq> 0 \<and> m p = m q")
    case True
    obtain xs' where xs: "xs = m p # xs'" "cstr m (p + 1) xs'"
      using "1.prems"(1) True by (blast elim: cstr_nonzeroE)
    obtain ys' where ys: "ys = m q # ys'" "cstr m (q + 1) ys'"
      using "1.prems"(2) True by (metis cstr_nonzeroE)
    have "strncmp m (p + 1) (q + 1) (n - 1) = 0 \<longleftrightarrow>
        take (unat (n - 1)) xs' = take (unat (n - 1)) ys'"
      by (rule "1.IH" [OF True xs(2) ys(2)])
    moreover have "strncmp m p q n = strncmp m (p + 1) (q + 1) (n - 1)"
      by (simp only: strncmp.simps [of m p q n] if_P [OF True])
    ultimately show ?thesis
      using True unat_pred_step [of n] by (simp add: xs ys)
  next
    case False
    have s: "strncmp m p q n = (if n = 0 then 0 else uint (m p) - uint (m q))"
      by (simp only: strncmp.simps [of m p q n] if_not_P [OF False])
    show ?thesis
    proof (cases "n = 0")
      case True
      then show ?thesis using s by simp
    next
      case n: False
      then obtain k where "unat n = Suc k"
        using unat_pred_step [of n] by (auto simp: word_gt_0)
      moreover have "strncmp m p q n = 0 \<longleftrightarrow> m p = m q"
        using n by (simp add: s word_uint_eq_iff)
      ultimately show ?thesis
        using "1.prems" False n by (cases xs; cases ys) (auto simp: word_gt_0)
    qed
  qed
qed

lemma strlen_loop_cstr: "cstr m (s + n) xs \<Longrightarrow> strlen_loop m s n = Some (n + of_nat (length xs))"
proof (induction xs arbitrary: n)
  case Nil
  then show ?case by (subst strlen_loop.simps) simp
next
  case (Cons x xs)
  then have "strlen_loop m s (n + 1) = Some (n + 1 + of_nat (length xs))"
    by (intro Cons.IH) (simp add: add.assoc)
  with Cons.prems show ?case
    by (subst strlen_loop.simps) (simp add: add.assoc)
qed

lemma strlen_cstr: "cstr m s xs \<Longrightarrow> strlen m s = Some (of_nat (length xs))"
  using strlen_loop_cstr [of m s 0 xs] by (simp add: strlen_def)

lemma apart_step: "apart s n t (Suc l) \<Longrightarrow> apart (s + 1) (n - 1) (t + 1) l"
proof -
  assume a: "apart s n t (Suc l)"
  show ?thesis
    unfolding apart_def
  proof (intro allI impI)
    fix i j assume "int i < n - 1 \<and> j \<le> l"
    then have "s + of_nat (Suc i) \<noteq> t + of_nat (Suc j)"
      using a unfolding apart_def by (metis Suc_le_mono add.commute less_diff_eq of_nat_Suc)
    then show "s + 1 + of_nat i \<noteq> t + 1 + of_nat j"
      by (simp add: add.assoc)
  qed
qed

lemma cstr_upd_outside:
  "(\<And>j. j \<le> length xs \<Longrightarrow> a \<noteq> p + of_nat j) \<Longrightarrow> cstr (m(a := v)) p xs = cstr m p xs"
proof (induction xs arbitrary: p)
  case (Cons x xs)
  have "a \<noteq> p" using Cons.prems [of 0] by simp
  moreover have "cstr (m(a := v)) (p + 1) xs = cstr m (p + 1) xs"
    by (rule Cons.IH) (use Cons.prems [of "Suc _"] in \<open>auto simp: add.assoc\<close>)
  ultimately show ?case by (simp del: fun_upd_apply add: fun_upd_other)
qed (use fun_upd_other in force)

lemma apart_cstr_upd:
  assumes "apart s n t (length xs)" "0 < n"
  shows "cstr (m(s := v)) t xs = cstr m t xs"
proof (rule cstr_upd_outside)
  fix j assume "j \<le> length xs"
  then show "s \<noteq> t + of_nat j"
    using assms(1) [unfolded apart_def, rule_format, of 0 j] assms(2) by simp
qed

lemma strncpy_pad_offset:
  "n \<le> 4294967296 \<Longrightarrow> strncpy_pad m s n (s + k) = (if int (unat k) < n then 0 else m (s + k))"
proof (induction m s n arbitrary: k rule: strncpy_pad.induct)
  case (1 m s n)
  show ?case
  proof (cases "n > 0")
    case True
    have "strncpy_pad m s n (s + k) = strncpy_pad (m(s := 0)) (s + 1) (n - 1) (s + 1 + (k - 1))"
      using True by (subst strncpy_pad.simps) simp
    also have "\<dots> = (if int (unat (k - 1)) < n - 1 then 0 else (m(s := 0)) (s + 1 + (k - 1)))"
      using "1.prems" by (intro "1.IH" True) simp
    finally have step: "strncpy_pad m s n (s + k) =
      (if int (unat (k - 1)) < n - 1 then 0 else (m(s := 0)) (s + k))" by simp
    show ?thesis
    proof (cases "k = 0")
      case True
      then show ?thesis using step \<open>n > 0\<close> by simp
    next
      case False
      then have "unat k = Suc (unat (k - 1))"
        using unat_pred_step [of k] by (simp add: word_gt_0)
      then show ?thesis using step False by simp
    qed
  next
    case False
    then have "\<not> int (unat k) < n" by linarith
    then show ?thesis using False by (subst strncpy_pad.simps) (simp only: if_False)
  qed
qed

lemma strncpy_offset:
  "cstr m t xs \<Longrightarrow> apart s n t (length xs) \<Longrightarrow> n \<le> 4294967296 \<Longrightarrow>
     strncpy m s t n (s + k) =
       (if int (unat k) < n then if unat k < length xs then xs ! unat k else 0 else m (s + k))"
proof (induction m s t n arbitrary: xs k rule: strncpy_copy.induct)
  case (1 m s t n)
  let ?m = "m(s := m t)"
  consider "n \<le> 0" | "n > 0" "m t = 0" | "n > 0" "m t \<noteq> 0" by linarith
  then show ?case
  proof cases
    case 1
    then have "\<not> int (unat k) < n" by linarith
    moreover have "strncpy m s t n = m"
      using 1 by (simp add: strncpy_def strncpy_copy.simps [of m s t n] strncpy_pad.simps [of m s "n - 1"])
    ultimately show ?thesis by (simp only: if_False)
  next
    case 2
    then have xs: "xs = []" using "1.prems"(1) by (cases xs) auto
    have "strncpy m s t n = strncpy_pad ?m (s + 1) (n - 1)"
      using 2 by (simp add: strncpy_def strncpy_copy.simps [of m s t n])
    then have "strncpy m s t n (s + k) = 
       (if int (unat (k - 1)) < n - 1 then 0 else ?m (s + k))"
      using strncpy_pad_offset [of "n - 1" ?m "s + 1" "k - 1"] "1.prems"(3) by simp
    then show ?thesis
      using 2 xs unat_pred_step [of k] by (cases "k = 0") (auto simp: word_gt_0)
  next
    case 3
    obtain ys where xs: "xs = m t # ys" "cstr m (t + 1) ys"
      using "1.prems"(1) 3 by (blast elim: cstr_nonzeroE)
    have ap: "apart (s + 1) (n - 1) (t + 1) (length ys)"
      using "1.prems"(2) by (simp add: xs apart_step)
    have "cstr ?m t xs"
      using apart_cstr_upd [OF "1.prems"(2)] 3 "1.prems"(1) by simp
    then have cs: "cstr ?m (t + 1) ys"
      by (simp add: xs)
    have "strncpy m s t n = strncpy ?m (s + 1) (t + 1) (n - 1)"
      using 3 by (simp add: strncpy_def strncpy_copy.simps [of m s t n])
    moreover have "strncpy ?m (s + 1) (t + 1) (n - 1) (s + 1 + (k - 1)) =
      (if int (unat (k - 1)) < n - 1
       then if unat (k - 1) < length ys then ys ! unat (k - 1) else 0 else ?m (s + 1 + (k - 1)))"
      by (rule "1.IH" [OF _ refl _ cs ap]) (use 3 "1.prems"(3) in auto)
    ultimately have step: "strncpy m s t n (s + k) =
      (if int (unat (k - 1)) < n - 1
       then if unat (k - 1) < length ys then ys ! unat (k - 1) else 0 else ?m (s + k))"
      by simp
    show ?thesis
    proof (cases "k = 0")
      case True
      then show ?thesis using step 3 "1.prems"(3) by (simp add: xs unat_minus_1_u32)
    next
      case False
      then have "unat k = Suc (unat (k - 1))"
        using unat_pred_step [of k] by (simp add: word_gt_0)
      then show ?thesis using step False by (simp add: xs)
    qed
  qed
qed

lemma safestrcpy_step:
  "1 < n \<Longrightarrow> m t \<noteq> 0 \<Longrightarrow>
     safestrcpy m s t n = safestrcpy (m(s := m t)) (s + 1) (t + 1) (n - 1)"
  by (simp add: safestrcpy_def safestrcpy_copy.simps [of m s t n])

lemma safestrcpy_nul:
  "1 < n \<Longrightarrow> m t = 0 \<Longrightarrow> safestrcpy m s t n = m(s := 0, s + 1 := 0)"
  by (simp add: safestrcpy_def safestrcpy_copy.simps [of m s t n])

lemma safestrcpy_last: "safestrcpy m s t 1 = m(s := 0)"
  by (simp add: safestrcpy_def safestrcpy_copy.simps [of m s t 1])

lemma safestrcpy_cstr:
  "cstr m t xs \<Longrightarrow> apart s n t (length xs) \<Longrightarrow> 0 < n \<Longrightarrow> n \<le> 4294967296 \<Longrightarrow>
     cstr (safestrcpy m s t n) s (take (nat (n - 1)) xs) \<and>
     (\<forall>a. n \<le> int (unat (a - s)) \<longrightarrow> safestrcpy m s t n a = m a)"
proof (induction xs arbitrary: m s t n)
  case Nil
  show ?case
  proof (cases "n = 1")
    case True
    then show ?thesis by (auto simp: safestrcpy_last)
  next
    case False
    with Nil show ?thesis
      by (auto simp: safestrcpy_nul)
  qed
next
  case (Cons x xs)
  let ?m = "m(s := x)"
  show ?case
  proof (cases "n = 1")
    case True
    then show ?thesis by (auto simp: safestrcpy_last)
  next
    case False
    then have n: "1 < n" using Cons.prems by simp
    have ap: "apart (s + 1) (n - 1) (t + 1) (length xs)"
      using Cons.prems(2) by (simp add: apart_step)
    have "cstr ?m t (x # xs)"
      using apart_cstr_upd [OF Cons.prems(2)] Cons.prems(1,3) by blast
    then have cs: "cstr ?m (t + 1) xs" by simp
    have n': "0 < n - 1" "n - 1 \<le> 4294967296"
      using n Cons.prems(4) by simp_all
    have IH: "cstr (safestrcpy ?m (s + 1) (t + 1) (n - 1)) (s + 1) (take (nat (n - 1 - 1)) xs)"
      "\<And>a. n - 1 \<le> int (unat (a - (s + 1))) \<Longrightarrow>
         safestrcpy ?m (s + 1) (t + 1) (n - 1) a = ?m a"
      using Cons.IH [OF cs ap n'] by blast+
    have step: "safestrcpy m s t n = safestrcpy ?m (s + 1) (t + 1) (n - 1)"
      using safestrcpy_step [OF n] Cons.prems(1) by auto
    have "safestrcpy m s t n s = x"
      unfolding step by (subst IH(2)) (use Cons.prems(4) in \<open>simp_all add: unat_minus_1_u32\<close>)
    moreover have "safestrcpy m s t n a = m a" if "n \<le> int (unat (a - s))" for a
    proof -
      have "a \<noteq> s" using that n by auto
      then have "unat (a - s) = Suc (unat (a - s - 1))"
        using unat_pred_step [of "a - s"] by (simp add: word_gt_0)
      then show ?thesis
        unfolding step by (subst IH(2)) (use that \<open>a \<noteq> s\<close> in \<open>simp_all add: diff_diff_eq\<close>)
    qed
    moreover have "nat (n - 1) = Suc (nat (n - 1 - 1))"
      using n by simp
    ultimately show ?thesis
      using IH(1) Cons.prems(1) by (simp add: step)
  qed
qed

lemma memset_outside: "unat n \<le> unat (a - dst) \<Longrightarrow> memset m dst c n a = m a"
  by (simp add: memset_apply)

section \<open>Properties\<close>

text \<open>C34: \<^verbatim>\<open>memmove\<close> copies correctly however the two regions overlap: afterwards the
  destination holds what the source held before the call, and no other byte has changed.
  The regions must not run past the end of the address space.\<close>

theorem memmove_overlap_safe:
  assumes "unat src + unat n < 2 ^ 32" and "unat dst + unat n < 2 ^ 32"
  shows "(\<forall>k. unat k < unat n \<longrightarrow> memmove m dst src n (dst + k) = m (src + k)) \<and>
    (\<forall>a. unat n \<le> unat (a - dst) \<longrightarrow> memmove m dst src n a = m a)"
  using assms by (simp add: memmove_apply)

theorem memmove_overlap_safe_witness:
  "memmove (\<lambda>a. ucast a) 0x80000002 0x80000000 4 (0x80000002 + 3) = 3 \<and>
   memmove (\<lambda>a. ucast a) 0x80000002 0x80000000 4 0x80000001 = 1"
proof -
  let ?m = "\<lambda>a :: u32. ucast a :: u8"
  have *: "(\<forall>k. unat k < unat (4 :: u32) \<longrightarrow>
        memmove ?m 0x80000002 0x80000000 4 (0x80000002 + k) = ?m (0x80000000 + k)) \<and>
      (\<forall>a. unat (4 :: u32) \<le> unat (a - 0x80000002) \<longrightarrow>
        memmove ?m 0x80000002 0x80000000 4 a = ?m a)"
    by (rule memmove_overlap_safe) simp_all
  then have "memmove ?m 0x80000002 0x80000000 4 (0x80000002 + 3) = ?m (0x80000000 + 3)"
    by (elim conjE allE [of _ 3] impE) simp_all
  moreover from conjunct2 [OF *] have "memmove ?m 0x80000002 0x80000000 4 0x80000001 = ?m 0x80000001"
    by (elim allE [of _ "0x80000001"] impE) (simp_all add: unat_minus_1_u32)
  ultimately show ?thesis by simp
qed

text \<open>C35: \<^verbatim>\<open>safestrcpy\<close> always leaves a NUL-terminated string in its destination, the source
  truncated to \<^verbatim>\<open>n - 1\<close> characters, and writes nothing outside the \<^verbatim>\<open>n\<close> bytes it was given.\<close>

theorem safestrcpy_terminates_string:
  assumes "cstr m t xs" and "apart s n t (length xs)" and "0 < n" and "n \<le> 2 ^ 32"
  shows "cstr (safestrcpy m s t n) s (take (nat (n - 1)) xs) \<and>
    (\<forall>a. n \<le> int (unat (a - s)) \<longrightarrow> safestrcpy m s t n a = m a)"
  using assms by (intro safestrcpy_cstr) auto

theorem safestrcpy_terminates_string_witness:
  "cstr (safestrcpy ((\<lambda>_. 7)(100 := 104, 101 := 105, 102 := 0)) 200 100 2) 200 [104] \<and>
   safestrcpy ((\<lambda>_. 7)(100 := 104, 101 := 105, 102 := 0)) 200 100 2 202 = 7"
proof -
  let ?m = "((\<lambda>_. 7)(100 := 104, 101 := 105, 102 := 0)) :: mem"
  have "cstr (safestrcpy ?m 200 100 2) 200 (take (nat (2 - 1)) [104, 105]) \<and>
      (\<forall>a. 2 \<le> int (unat (a - 200)) \<longrightarrow> safestrcpy ?m 200 100 2 a = ?m a)"
  proof (rule safestrcpy_terminates_string)
    show "apart 200 2 100 (length [104 :: u8, 105])"
      unfolding apart_def
    proof (intro allI impI)
      fix i j assume "int i < 2 \<and> j \<le> length [104 :: u8, 105]"
      then have "i = 0 \<or> i = 1" "j = 0 \<or> j = 1 \<or> j = 2" by auto
      then show "(200 :: u32) + of_nat i \<noteq> 100 + of_nat j"
        by (elim disjE) simp_all
    qed
  qed auto
  then have "cstr (safestrcpy ?m 200 100 2) 200 [104]" and "safestrcpy ?m 200 100 2 202 = ?m 202"
    by auto
  then show ?thesis by simp
qed

end
