(* ===== verification/Memlayout.thy ===== *)
theory Memlayout
  imports Prelude
begin

text \<open>
  \<^verbatim>\<open>kernel/memlayout.h\<close> and the paging macros of \<^verbatim>\<open>kernel/riscv.h\<close>: page rounding, Sv32
  page-table entries and indices, and the fixed addresses of the kernel's layout, with the
  arithmetic of pages and page offsets that the allocator and the page-table code share.
\<close>

section \<open>Pages\<close>

definition PGSIZE :: u32 where "PGSIZE = 4096"

definition PGROUNDUP :: "u32 \<Rightarrow> u32" where
  "PGROUNDUP sz = (sz + PGSIZE - 1) AND NOT (PGSIZE - 1)"

definition PGROUNDDOWN :: "u32 \<Rightarrow> u32" where
  "PGROUNDDOWN a = a AND NOT (PGSIZE - 1)"

section \<open>Page-table entries\<close>

definition PTE_V :: u32 where "PTE_V = 1"
definition PTE_R :: u32 where "PTE_R = 2"
definition PTE_W :: u32 where "PTE_W = 4"
definition PTE_X :: u32 where "PTE_X = 8"
definition PTE_U :: u32 where "PTE_U = 16"

definition PA2PTE :: "u32 \<Rightarrow> u32" where
  "PA2PTE pa = push_bit 10 (drop_bit 12 pa)"

definition PTE2PA :: "u32 \<Rightarrow> u32" where
  "PTE2PA pte = push_bit 12 (drop_bit 10 pte)"

definition PTE_FLAGS :: "u32 \<Rightarrow> u32" where
  "PTE_FLAGS pte = pte AND 0x3FF"

definition PX :: "nat \<Rightarrow> u32 \<Rightarrow> u32" where
  "PX level va = drop_bit (12 + 10 * level) va AND 0x3FF"

section \<open>The layout\<close>

definition MAXVA :: u32 where "MAXVA = 0xFFFFFFFF"
definition UART0 :: u32 where "UART0 = 0x10000000"
definition VIRTIO0 :: u32 where "VIRTIO0 = 0x10001000"
definition PLIC :: u32 where "PLIC = 0x0c000000"
definition KERNBASE :: u32 where "KERNBASE = 0x80000000"
definition PHYSTOP :: u32 where "PHYSTOP = KERNBASE + 128 * 1024 * 1024"
definition TRAMPOLINE :: u32 where "TRAMPOLINE = MAXVA - PGSIZE + 1"
definition KSTACK :: "u32 \<Rightarrow> u32" where "KSTACK p = TRAMPOLINE - (p + 1) * 2 * PGSIZE"
definition TRAPFRAME :: u32 where "TRAPFRAME = TRAMPOLINE - PGSIZE"

lemmas layout_defs = PGSIZE_def MAXVA_def KERNBASE_def PHYSTOP_def TRAMPOLINE_def TRAPFRAME_def

section \<open>Page arithmetic\<close>

text \<open>A page address, and the addresses inside a page.\<close>

definition aligned :: "u32 \<Rightarrow> bool" where
  "aligned p \<longleftrightarrow> p mod PGSIZE = 0"

definition in_page :: "u32 \<Rightarrow> u32 \<Rightarrow> bool" where
  "in_page p a \<longleftrightarrow> unat (a - p) < 4096"

lemma aligned_unat: "aligned p \<longleftrightarrow> unat p mod 4096 = 0"
  by (simp add: aligned_def PGSIZE_def word_unat_eq_iff unat_mod)

lemma PGROUNDDOWN_sub: "PGROUNDDOWN a = a - take_bit 12 a"
proof -
  have m: "(4095 :: u32) = mask 12" by (simp add: mask_eq_exp_minus_1)
  have "(a AND NOT (mask 12)) + (a AND mask 12) = (a AND NOT (mask 12)) OR (a AND mask 12)"
    by (rule disjunctive_add) (auto simp: bit_and_iff bit_not_iff)
  also have "\<dots> = a" by (rule bit_word_eqI) (auto simp: bit_and_iff bit_or_iff bit_not_iff)
  finally have "a AND NOT (mask 12) = a - (a AND mask 12)" by (simp add: eq_diff_eq)
  then show ?thesis by (simp add: PGROUNDDOWN_def PGSIZE_def m take_bit_eq_mask)
qed

lemma PGROUNDDOWN_unat: "unat (PGROUNDDOWN a) = unat a - unat a mod 4096"
proof -
  have "unat (take_bit 12 a) = unat a mod 4096"
    by (simp add: take_bit_eq_mod unat_mod)
  then show ?thesis
    by (simp add: PGROUNDDOWN_sub unat_sub word_le_nat_alt)
qed

lemma PGROUNDUP_down: "PGROUNDUP a = PGROUNDDOWN (a + 4095)"
  by (simp add: PGROUNDUP_def PGROUNDDOWN_def PGSIZE_def algebra_simps)

lemma aligned_PGROUNDDOWN [simp]: "aligned (PGROUNDDOWN a)"
  by (simp add: aligned_unat PGROUNDDOWN_unat minus_mod_eq_mult_div)

lemma aligned_PGROUNDUP [simp]: "aligned (PGROUNDUP a)"
  by (simp add: PGROUNDUP_down)

lemma PGROUNDDOWN_aligned [simp]: "aligned p \<Longrightarrow> PGROUNDDOWN p = p"
  by (simp add: aligned_unat PGROUNDDOWN_unat word_unat_eq_iff)

lemma in_page_PGROUNDDOWN [simp]: "in_page (PGROUNDDOWN a) a"
  by (simp add: in_page_def PGROUNDDOWN_unat dist_base)

lemma PGROUNDUP_unat:
  "unat a \<le> 4294967296 - 4096 \<Longrightarrow> unat (PGROUNDUP a) = (unat a + 4095) div 4096 * 4096"
  by (simp add: PGROUNDUP_down PGROUNDDOWN_unat unat_word_ariths minus_mod_eq_div_mult)

lemma PGROUNDUP_ge: "unat a \<le> 4294967296 - 4096 \<Longrightarrow> a \<le> PGROUNDUP a"
  by (simp add: PGROUNDUP_unat word_le_nat_alt)

lemma PGROUNDUP_le_aligned:
  assumes "unat a \<le> 4294967296 - 4096" "aligned q" "a \<le> q"
  shows "PGROUNDUP a \<le> q"
proof -
  obtain k where k: "unat q = 4096 * k" using assms(2) by (auto simp: aligned_unat elim: dvdE)
  have "(unat a + 4095) div 4096 \<le> k"
    using assms(3) k div_le_mono [of "unat a + 4095" "4096 * k + 4095" 4096]
    by (simp add: word_le_nat_alt)
  then show ?thesis using k by (simp add: word_le_nat_alt PGROUNDUP_unat [OF assms(1)])
qed

lemma aligned_dist:
  assumes "aligned p" "aligned q" "p \<noteq> q"
  shows "4096 \<le> unat (q - p)" "unat (q - p) \<le> 4294967296 - 4096" "unat (q - p) mod 4096 = 0"
proof -
  have d: "4096 dvd unat p" "4096 dvd unat q"
    using assms(1,2) by (auto simp: aligned_unat)
  have m: "unat (q - p) mod 4096 = 0"
  proof (cases "unat p \<le> unat q")
    case True
    then show ?thesis using d by (simp add: dist_base)
  next
    case False
    then have "unat (q - p) = unat q + 4294967296 - unat p" by (simp add: dist_below)
    moreover have "4096 dvd (unat q + 4294967296 - unat p)"
      by (rule dvd_diff_nat) (use d in \<open>simp_all add: dvd_add\<close>)
    ultimately show ?thesis by simp
  qed
  then obtain k where k: "unat (q - p) = 4096 * k" by (auto elim: dvdE simp: mod_eq_0_iff_dvd)
  have "unat (q - p) \<noteq> 0" using assms(3) by (simp add: unat_eq_zero)
  moreover have "unat (q - p) < 4294967296" by simp
  ultimately have "1 \<le> k" "k \<le> 1048575" unfolding k by simp_all
  then show "4096 \<le> unat (q - p)" "unat (q - p) \<le> 4294967296 - 4096"
    by (simp_all add: k)
  show "unat (q - p) mod 4096 = 0" by (rule m)
qed

lemma page_apart:
  assumes "aligned p" "aligned q" "p \<noteq> q" "unat k < 4096"
  shows "4096 \<le> unat (q + k - p)"
proof -
  have "unat (q - p) + unat k < 4294967296"
    using aligned_dist(2) [OF assms(1-3)] assms(4) by linarith
  then show ?thesis using aligned_dist(1) [OF assms(1-3)] by (simp add: dist_add)
qed

lemma in_page_unique:
  "aligned p \<Longrightarrow> aligned q \<Longrightarrow> in_page p a \<Longrightarrow> in_page q a \<Longrightarrow> p = q"
  using page_apart [of p q "a - q"] unfolding in_page_def by fastforce

lemma in_page_offset [simp]: "unat k < 4096 \<Longrightarrow> in_page p (p + k)"
  by (simp add: in_page_def)

lemma in_page_iff: "aligned p \<Longrightarrow> in_page p a \<longleftrightarrow> PGROUNDDOWN a = p"
  using in_page_unique [of p "PGROUNDDOWN a" a] by auto

end
