(* ===== verification/Kalloc.thy ===== *)
theory Kalloc
  imports Kstring Memlayout
begin

text \<open>
  \<^verbatim>\<open>kernel/kalloc.c\<close>: the physical page allocator. Free pages form a linked list threaded
  through the pages themselves. The theory states the contract of a page allocator as a
  locale, proves from the contract that pages are never handed out twice and never lost, and
  discharges it for the linked list.
\<close>

section \<open>Definitions\<close>

text \<open>
  The allocator's state: physical memory and \<^verbatim>\<open>kmem.freelist\<close>. The critical sections of
  \<^verbatim>\<open>kmem.lock\<close> are single transitions. \<open>kend\<close> is the linker symbol \<^verbatim>\<open>end\<close>, the first address
  after the kernel image.
\<close>

record kstate =
  phys :: mem
  freelist :: u32

definition kfree :: "u32 \<Rightarrow> kstate \<Rightarrow> u32 \<Rightarrow> kstate res" where
  "kfree kend st pa =
    (if pa mod PGSIZE \<noteq> 0 \<or> pa < kend \<or> pa \<ge> PHYSTOP then Inl (Panic ''kfree'')
     else
       let m = memset (phys st) pa 1 PGSIZE;
           r = pa;
           m = store32 m r (freelist st)
       in Inr (st\<lparr>phys := m, freelist := r\<rparr>))"

definition kalloc :: "kstate \<Rightarrow> kstate \<times> u32" where
  "kalloc st =
    (let r = freelist st;
         st = (if r \<noteq> 0 then st\<lparr>freelist := load32 (phys st) r\<rparr> else st);
         st = (if r \<noteq> 0 then st\<lparr>phys := memset (phys st) r 5 PGSIZE\<rparr> else st)
     in (st, r))"

lemma kfree_Inr_below: "kfree kend st p = Inr st' \<Longrightarrow> p < PHYSTOP"
  by (auto simp: kfree_def Let_def split: if_splits)

lemma below_PHYSTOP_step: "p < PHYSTOP \<Longrightarrow> unat (p + PGSIZE) = unat p + 4096"
  by (simp add: PHYSTOP_def KERNBASE_def PGSIZE_def word_less_nat_alt unat_word_ariths)

text \<open>\<^verbatim>\<open>freerange\<close>: the loop stops at \<open>pa_end\<close>, or at the panic of \<^verbatim>\<open>kfree\<close> above \<^verbatim>\<open>PHYSTOP\<close>.\<close>

function freerange_loop :: "u32 \<Rightarrow> kstate \<Rightarrow> u32 \<Rightarrow> u32 \<Rightarrow> kstate res" where
  "freerange_loop kend st p pa_end =
    (if p + PGSIZE \<le> pa_end
     then ebind (kfree kend st p) (\<lambda>st. freerange_loop kend st (p + PGSIZE) pa_end)
     else Inr st)"
  by pat_completeness auto

termination
proof (relation "measure (\<lambda>(kend, st, p, pa_end). unat PHYSTOP - unat p)")
  fix kend st p pa_end st'
  assume "p + PGSIZE \<le> pa_end" "kfree kend st p = Inr st'"
  then have "p < PHYSTOP" by (simp add: kfree_Inr_below)
  then show "((kend, st', p + PGSIZE, pa_end), kend, st, p, pa_end)
      \<in> measure (\<lambda>(kend, st, p, pa_end). unat PHYSTOP - unat p)"
    by (simp add: below_PHYSTOP_step word_less_nat_alt)
qed simp

declare freerange_loop.simps [simp del]

definition freerange :: "u32 \<Rightarrow> kstate \<Rightarrow> u32 \<Rightarrow> u32 \<Rightarrow> kstate res" where
  "freerange kend st pa_start pa_end = freerange_loop kend st (PGROUNDUP pa_start) pa_end"

definition kinit :: "u32 \<Rightarrow> kstate \<Rightarrow> kstate res" where
  "kinit kend st = freerange kend st kend PHYSTOP"

section \<open>The contract of a page allocator\<close>

text \<open>
  \<open>frees s\<close> is the set of free pages, \<open>valid\<close> the pages the allocator manages and
  \<open>touch U s s'\<close> says that \<open>s'\<close> results from \<open>s\<close> by a client writing to the pages \<open>U\<close>.
\<close>

locale page_allocator =
  fixes alloc :: "'s \<Rightarrow> 's \<times> 'p"
    and free :: "'s \<Rightarrow> 'p \<Rightarrow> 's res"
    and null :: 'p
    and inv :: "'s \<Rightarrow> bool"
    and valid :: "'p \<Rightarrow> bool"
    and frees :: "'s \<Rightarrow> 'p set"
    and touch :: "'p set \<Rightarrow> 's \<Rightarrow> 's \<Rightarrow> bool"
  assumes null_invalid: "\<not> valid null"
    and frees_valid: "inv s \<Longrightarrow> p \<in> frees s \<Longrightarrow> valid p"
    and alloc_none: "inv s \<Longrightarrow> frees s = {} \<Longrightarrow> alloc s = (s, null)"
    and alloc_some: "inv s \<Longrightarrow> frees s \<noteq> {} \<Longrightarrow>
      \<exists>s' p. alloc s = (s', p) \<and> p \<in> frees s \<and> inv s' \<and> frees s' = frees s - {p}"
    and free_ok: "inv s \<Longrightarrow> valid p \<Longrightarrow> p \<notin> frees s \<Longrightarrow>
      \<exists>s'. free s p = Inr s' \<and> inv s' \<and> frees s' = insert p (frees s)"
    and touch_ok: "inv s \<Longrightarrow> U \<inter> frees s = {} \<Longrightarrow> \<forall>p \<in> U. valid p \<Longrightarrow> touch U s s' \<Longrightarrow>
      inv s' \<and> frees s' = frees s"

text \<open>
  The runs of the allocator's clients: a state is the allocator's state with the set of pages
  that are in use. A client allocates, frees a page that is in use, or writes to pages in use.
\<close>

inductive client_step ::
  "('s \<Rightarrow> 's \<times> 'p) \<Rightarrow> ('s \<Rightarrow> 'p \<Rightarrow> 's res) \<Rightarrow> 'p \<Rightarrow> ('p set \<Rightarrow> 's \<Rightarrow> 's \<Rightarrow> bool) \<Rightarrow>
    's \<times> 'p set \<Rightarrow> 's \<times> 'p set \<Rightarrow> bool"
  for alloc free null touch where
  client_alloc: "alloc s = (s', p) \<Longrightarrow> p \<noteq> null \<Longrightarrow>
    client_step alloc free null touch (s, U) (s', insert p U)"
| client_full: "alloc s = (s', null) \<Longrightarrow> client_step alloc free null touch (s, U) (s', U)"
| client_free: "p \<in> U \<Longrightarrow> free s p = Inr s' \<Longrightarrow>
    client_step alloc free null touch (s, U) (s', U - {p})"
| client_write: "touch U s s' \<Longrightarrow> client_step alloc free null touch (s, U) (s', U)"

context page_allocator
begin

lemma alloc_cases:
  assumes "inv s" "alloc s = (s', p)"
  obtains (full) "frees s = {}" "s' = s" "p = null"
  | (page) "p \<in> frees s" "p \<noteq> null" "inv s'" "frees s' = frees s - {p}"
proof (cases "frees s = {}")
  case True
  have "s' = s" "p = null" using alloc_none [OF assms(1) True] assms(2) by simp_all
  with True show ?thesis by (rule full)
next
  case False
  then obtain s2 q where a: "alloc s = (s2, q)" "q \<in> frees s" "inv s2" "frees s2 = frees s - {q}"
    using assms(1) alloc_some by blast
  have e: "s2 = s'" "q = p" using a(1) assms(2) by simp_all
  have "q \<noteq> null" using frees_valid [OF assms(1) a(2)] null_invalid by auto
  then show ?thesis using a(2-4) unfolding e by (intro page)
qed

lemma alloc_free_restores:
  assumes "inv s" "alloc s = (s1, p)" "p \<noteq> null"
  shows "\<exists>s2. free s1 p = Inr s2 \<and> inv s2 \<and> frees s2 = frees s"
  using assms(1,2)
proof (cases rule: alloc_cases)
  case page
  then have "valid p" using assms(1) frees_valid by blast
  with page obtain s2 where "free s1 p = Inr s2" "inv s2" "frees s2 = insert p (frees s1)"
    using free_ok [of s1 p] by auto
  then show ?thesis using page by auto
qed (use assms in simp)

lemma client_step_inv:
  assumes "client_step alloc free null touch (s, U) (s', U')"
    and "inv s" "U \<inter> frees s = {}" "\<forall>p \<in> U. valid p"
  shows "inv s' \<and> U' \<inter> frees s' = {} \<and> (\<forall>p \<in> U'. valid p) \<and> U' \<union> frees s' = U \<union> frees s"
  using assms(1)
proof cases
  case (client_alloc p)
  show ?thesis
    using assms(2) client_alloc(2)
  proof (cases rule: alloc_cases)
    case page
    then show ?thesis using assms(2-4) client_alloc frees_valid by auto
  qed (use client_alloc in simp)
next
  case client_full
  show ?thesis
    using assms(2) client_full(2)
    by (cases rule: alloc_cases) (use assms(2-4) client_full in auto)
next
  case (client_free p)
  then have "p \<notin> frees s" "valid p" using assms(3,4) by auto
  then show ?thesis using client_free assms(2-4) free_ok [of s p] by auto
next
  case client_write
  then show ?thesis using touch_ok [OF assms(2,3,4)] assms(3,4) by auto
qed

lemma client_run_inv:
  assumes "(client_step alloc free null touch)\<^sup>*\<^sup>* (s, {}) (s', U)" and "inv s"
  shows "inv s' \<and> U \<inter> frees s' = {} \<and> (\<forall>p \<in> U. valid p) \<and> U \<union> frees s' = frees s"
  using assms(1)
proof (induction "(s', U)" arbitrary: s' U rule: rtranclp_induct)
  case base
  then show ?case using assms(2) by simp
next
  case (step y)
  then show ?case using client_step_inv [of "fst y" "snd y"] by (cases y) auto
qed

lemma client_never_shares:
  assumes "(client_step alloc free null touch)\<^sup>*\<^sup>* (s, {}) (s', U)" and "inv s"
    and "alloc s' = (s'', p)"
  shows "p \<noteq> null \<longleftrightarrow> U \<noteq> frees s" "p \<noteq> null \<Longrightarrow> p \<notin> U"
proof -
  note i = client_run_inv [OF assms(1,2)]
  have "inv s'" using i by blast
  then show "p \<noteq> null \<longleftrightarrow> U \<noteq> frees s" "p \<noteq> null \<Longrightarrow> p \<notin> U"
    using assms(3) by (cases rule: alloc_cases; use i in auto)+
qed

end

section \<open>The free list\<close>

text \<open>\<open>free_chain m p ps\<close>: following the next pointers from \<open>p\<close> visits exactly the pages \<open>ps\<close>.\<close>

fun free_chain :: "mem \<Rightarrow> u32 \<Rightarrow> u32 list \<Rightarrow> bool" where
  "free_chain m p [] \<longleftrightarrow> p = 0"
| "free_chain m p (q # qs) \<longleftrightarrow> p = q \<and> q \<noteq> 0 \<and> free_chain m (load32 m q) qs"

definition page_ok :: "u32 \<Rightarrow> u32 \<Rightarrow> bool" where
  "page_ok kend p \<longleftrightarrow> aligned p \<and> 0 < kend \<and> kend \<le> p \<and> p < PHYSTOP"

definition kmem_list :: "u32 \<Rightarrow> kstate \<Rightarrow> u32 list \<Rightarrow> bool" where
  "kmem_list kend st ps \<longleftrightarrow>
    free_chain (phys st) (freelist st) ps \<and> distinct ps \<and> (\<forall>p \<in> set ps. page_ok kend p)"

definition kmem_inv :: "u32 \<Rightarrow> kstate \<Rightarrow> bool" where
  "kmem_inv kend st \<longleftrightarrow> (\<exists>ps. kmem_list kend st ps)"

definition free_pages :: "u32 \<Rightarrow> kstate \<Rightarrow> u32 set" where
  "free_pages kend st = {p. \<exists>ps. kmem_list kend st ps \<and> p \<in> set ps}"

text \<open>A client writes only inside the pages it owns.\<close>

definition touch_pages :: "u32 set \<Rightarrow> kstate \<Rightarrow> kstate \<Rightarrow> bool" where
  "touch_pages U st st' \<longleftrightarrow>
    freelist st' = freelist st \<and> (\<forall>a. (\<forall>p \<in> U. \<not> in_page p a) \<longrightarrow> phys st' a = phys st a)"

lemma free_chain_unique: "free_chain m p ps \<Longrightarrow> free_chain m p qs \<Longrightarrow> ps = qs"
proof (induction ps arbitrary: p qs)
  case Nil
  then show ?case by (cases qs) auto
next
  case (Cons a ps)
  then show ?case by (cases qs) auto
qed

lemma kmem_list_unique: "kmem_list kend st ps \<Longrightarrow> kmem_list kend st qs \<Longrightarrow> qs = ps"
  unfolding kmem_list_def using free_chain_unique by blast

lemma free_pages_list: "kmem_list kend st ps \<Longrightarrow> free_pages kend st = set ps"
  unfolding free_pages_def using kmem_list_unique by blast

lemma free_chain_cong:
  "(\<And>p. p \<in> set ps \<Longrightarrow> load32 m' p = load32 m p) \<Longrightarrow> free_chain m' p ps = free_chain m p ps"
  by (induction ps arbitrary: p) auto

text \<open>Writing inside one page leaves the words at the start of every other page alone.\<close>

lemma load32_other_page:
  assumes "\<And>a. \<not> in_page p a \<Longrightarrow> m' a = m a" "aligned p" "aligned q" "p \<noteq> q"
  shows "load32 m' q = load32 m q"
proof (rule load32_cong)
  fix i :: u32
  assume "unat i < 4"
  then have "\<not> in_page p (q + i)" using page_apart [OF assms(2-4), of i] by (simp add: in_page_def)
  then show "m' (q + i) = m (q + i)" by (rule assms(1))
qed

lemma memset_page_other: "\<not> in_page p a \<Longrightarrow> memset m p c PGSIZE a = m a"
  by (rule memset_outside) (simp add: in_page_def PGSIZE_def)

lemma store32_page_other: "aligned p \<Longrightarrow> \<not> in_page p a \<Longrightarrow> store32 m p v a = m a"
  by (simp add: store32_apply in_page_def)

lemma page_ok_nonnull: "page_ok kend p \<Longrightarrow> p \<noteq> 0"
  by (auto simp: page_ok_def)

section \<open>The allocator implements the contract\<close>

lemma kalloc_empty: "kmem_list kend st [] \<Longrightarrow> kalloc st = (st, 0)"
  by (simp add: kmem_list_def kalloc_def)

lemma kalloc_page:
  assumes "kmem_list kend st (p # ps)"
  obtains st' where "kalloc st = (st', p)" "kmem_list kend st' ps"
    "phys st' = memset (phys st) p 5 PGSIZE"
proof -
  let ?st = "st\<lparr>freelist := load32 (phys st) p, phys := memset (phys st) p 5 PGSIZE\<rparr>"
  have al: "aligned p" "\<And>q. q \<in> set ps \<Longrightarrow> aligned q" "\<And>q. q \<in> set ps \<Longrightarrow> p \<noteq> q"
    using assms by (auto simp: kmem_list_def page_ok_def)
  have "load32 (memset (phys st) p 5 PGSIZE) q = load32 (phys st) q" if "q \<in> set ps" for q
    by (rule load32_other_page [OF memset_page_other al(1)]) (use al that in auto)
  then have "free_chain (memset (phys st) p 5 PGSIZE) (load32 (phys st) p) ps"
    using assms free_chain_cong [of ps "memset (phys st) p 5 PGSIZE" "phys st"]
    by (simp add: kmem_list_def)
  then have "kmem_list kend ?st ps" using assms by (simp add: kmem_list_def)
  moreover have "kalloc st = (?st, p)"
    using assms by (simp add: kmem_list_def kalloc_def Let_def)
  ultimately show ?thesis by (intro that) auto
qed

lemma kfree_page:
  assumes "kmem_list kend st ps" "page_ok kend p" "p \<notin> set ps"
  obtains st' where "kfree kend st p = Inr st'" "kmem_list kend st' (p # ps)"
    "\<And>a. \<not> in_page p a \<Longrightarrow> phys st' a = phys st a"
proof -
  let ?m = "store32 (memset (phys st) p 1 PGSIZE) p (freelist st)"
  have al: "aligned p" "\<And>q. q \<in> set ps \<Longrightarrow> aligned q" "\<And>q. q \<in> set ps \<Longrightarrow> p \<noteq> q"
    using assms by (auto simp: kmem_list_def page_ok_def)
  have out: "\<not> in_page p a \<Longrightarrow> ?m a = phys st a" for a
    using al(1) by (simp add: store32_page_other memset_page_other)
  have "load32 ?m q = load32 (phys st) q" if "q \<in> set ps" for q
    by (rule load32_other_page [OF out al(1)]) (use al that in auto)
  then have "free_chain ?m (freelist st) ps"
    using assms(1) free_chain_cong [of ps ?m "phys st"] by (simp add: kmem_list_def)
  then have "kmem_list kend (st\<lparr>phys := ?m, freelist := p\<rparr>) (p # ps)"
    using assms by (simp add: kmem_list_def page_ok_nonnull)
  moreover have "kfree kend st p = Inr (st\<lparr>phys := ?m, freelist := p\<rparr>)"
    using assms(2) by (auto simp: kfree_def page_ok_def aligned_def Let_def)
  ultimately show ?thesis using out by (intro that [of "st\<lparr>phys := ?m, freelist := p\<rparr>"]) auto
qed

lemma kmem_list_touch:
  assumes "kmem_list kend st ps" "U \<inter> set ps = {}" "\<forall>p \<in> U. page_ok kend p"
    "touch_pages U st st'"
  shows "kmem_list kend st' ps"
proof -
  have "load32 (phys st') q = load32 (phys st) q" if q: "q \<in> set ps" for q
  proof (rule load32_cong)
    fix i :: u32
    assume i: "unat i < 4"
    have "\<not> in_page p (q + i)" if "p \<in> U" for p
    proof -
      have "aligned p" "aligned q" "p \<noteq> q"
        using that q assms by (auto simp: kmem_list_def page_ok_def)
      then show ?thesis using page_apart [of p q i] i by (simp add: in_page_def)
    qed
    then show "phys st' (q + i) = phys st (q + i)" using assms(4) by (simp add: touch_pages_def)
  qed
  then have "free_chain (phys st') (freelist st') ps = free_chain (phys st) (freelist st) ps"
    using assms(4) free_chain_cong [of ps "phys st'" "phys st"] by (simp add: touch_pages_def)
  then show ?thesis using assms(1) by (simp add: kmem_list_def)
qed

interpretation kmem: page_allocator kalloc "kfree kend" 0 "kmem_inv kend" "page_ok kend"
  "free_pages kend" touch_pages
proof unfold_locales
  show "\<not> page_ok kend 0" by (auto dest: page_ok_nonnull)
next
  fix s p
  assume "kmem_inv kend s" "p \<in> free_pages kend s"
  then show "page_ok kend p" by (auto simp: kmem_inv_def free_pages_list) (auto simp: kmem_list_def)
next
  fix s
  assume "kmem_inv kend s" "free_pages kend s = {}"
  then show "kalloc s = (s, 0)" by (auto simp: kmem_inv_def free_pages_list intro: kalloc_empty)
next
  fix s
  assume "kmem_inv kend s" "free_pages kend s \<noteq> {}"
  then obtain p ps where ps: "kmem_list kend s (p # ps)"
    by (metis free_pages_list kmem_inv_def list.set(1) neq_Nil_conv)
  from ps obtain s' where "kalloc s = (s', p)" "kmem_list kend s' ps" by (rule kalloc_page)
  then show "\<exists>s' p. kalloc s = (s', p) \<and> p \<in> free_pages kend s \<and> kmem_inv kend s' \<and>
      free_pages kend s' = free_pages kend s - {p}"
    using ps by (auto simp: kmem_inv_def free_pages_list) (auto simp: kmem_list_def)
next
  fix s p
  assume "kmem_inv kend s" "page_ok kend p" "p \<notin> free_pages kend s"
  then obtain ps where ps: "kmem_list kend s ps" "p \<notin> set ps"
    by (auto simp: kmem_inv_def free_pages_list)
  from kfree_page [OF ps(1) \<open>page_ok kend p\<close> ps(2)]
  obtain s' where "kfree kend s p = Inr s'" "kmem_list kend s' (p # ps)" by blast
  then show "\<exists>s'. kfree kend s p = Inr s' \<and> kmem_inv kend s' \<and>
      free_pages kend s' = insert p (free_pages kend s)"
    using ps(1) by (auto simp: kmem_inv_def free_pages_list)
next
  fix s U s'
  assume a: "kmem_inv kend s" "U \<inter> free_pages kend s = {}" "\<forall>p\<in>U. page_ok kend p"
    "touch_pages U s s'"
  then obtain ps where ps: "kmem_list kend s ps" by (auto simp: kmem_inv_def)
  have "U \<inter> set ps = {}" using a(2) unfolding free_pages_list [OF ps] .
  from kmem_list_touch [OF ps this a(3,4)]
  show "kmem_inv kend s' \<and> free_pages kend s' = free_pages kend s"
    using free_pages_list [OF ps] free_pages_list [of kend s' ps] unfolding kmem_inv_def by blast
qed

section \<open>Boot\<close>

text \<open>The pages that \<^verbatim>\<open>freerange\<close> frees, from \<open>p\<close> up to the top of memory.\<close>

definition pages_from :: "u32 \<Rightarrow> u32 set" where
  "pages_from p = {q. aligned q \<and> p \<le> q \<and> q < PHYSTOP}"

lemma PHYSTOP_unat: "unat PHYSTOP = 2281701376"
  by (simp add: layout_defs)

lemma pages_from_step:
  assumes "aligned p" "p < PHYSTOP"
  shows "aligned (p + PGSIZE)" "p + PGSIZE \<le> PHYSTOP"
    "pages_from p = insert p (pages_from (p + PGSIZE))" "p \<notin> pages_from (p + PGSIZE)"
proof -
  have u: "unat (p + PGSIZE) = unat p + 4096" by (rule below_PHYSTOP_step [OF assms(2)])
  obtain k where k: "unat p = 4096 * k" using assms(1) by (auto simp: aligned_unat elim: dvdE)
  then have "k < 557056" using assms(2) by (simp add: word_less_nat_alt PHYSTOP_unat)
  then show "p + PGSIZE \<le> PHYSTOP" using u k by (simp add: word_le_nat_alt PHYSTOP_unat)
  show "aligned (p + PGSIZE)" using assms(1) u by (simp add: aligned_unat)
  show "p \<notin> pages_from (p + PGSIZE)" using u by (auto simp: pages_from_def word_le_nat_alt)
  have "p = q \<or> p + PGSIZE \<le> q" if "aligned q" "p \<le> q" for q
    using aligned_dist(1) [OF assms(1) that(1)] dist_base [of p q] that(2) u
    by (cases "p = q") (auto simp: word_le_nat_alt)
  moreover have "p \<le> q" if "p + PGSIZE \<le> q" for q
    using that u by (simp add: word_le_nat_alt)
  ultimately show "pages_from p = insert p (pages_from (p + PGSIZE))"
    using assms by (auto simp: pages_from_def)
qed

lemma freerange_loop_frees:
  assumes "kmem_list kend st ps" "aligned p" "p \<le> PHYSTOP" "0 < kend" "kend \<le> p"
    "set ps \<inter> pages_from p = {}"
  shows "\<exists>st' qs. freerange_loop kend st p PHYSTOP = Inr st' \<and> kmem_list kend st' qs \<and>
    set qs = set ps \<union> pages_from p"
  using assms
proof (induction "unat PHYSTOP - unat p" arbitrary: st ps p rule: less_induct)
  case less
  show ?case
  proof (cases "p < PHYSTOP")
    case True
    note st = pages_from_step [OF less.prems(2) True]
    have ok: "page_ok kend p" using less.prems True by (simp add: page_ok_def)
    have "p \<notin> set ps" using st(3) less.prems(6) by auto
    from kfree_page [OF less.prems(1) ok this]
    obtain st1 where k: "kfree kend st p = Inr st1" "kmem_list kend st1 (p # ps)" by blast
    have u: "unat (p + PGSIZE) = unat p + 4096" by (rule below_PHYSTOP_step [OF True])
    have "\<exists>st' qs. freerange_loop kend st1 (p + PGSIZE) PHYSTOP = Inr st' \<and>
        kmem_list kend st' qs \<and> set qs = set (p # ps) \<union> pages_from (p + PGSIZE)"
    proof (rule less.hyps [OF _ k(2) st(1,2) less.prems(4)])
      show "unat PHYSTOP - unat (p + PGSIZE) < unat PHYSTOP - unat p"
        using u True by (simp add: word_less_nat_alt)
      show "kend \<le> p + PGSIZE" using less.prems(5) u by (simp add: word_le_nat_alt)
      show "set (p # ps) \<inter> pages_from (p + PGSIZE) = {}" using st(3,4) less.prems(6) by auto
    qed
    then show ?thesis using k(1) st(2,3) by (subst freerange_loop.simps) auto
  next
    case False
    then have "p = PHYSTOP" using less.prems(3) by simp
    then have "\<not> p + PGSIZE \<le> PHYSTOP" "pages_from p = {}"
      by (auto simp: layout_defs pages_from_def)
    then show ?thesis using less.prems(1) by (subst freerange_loop.simps) auto
  qed
qed

lemma kinit_frees:
  assumes "0 < kend" "kend \<le> PHYSTOP" "freelist st = 0"
  shows "\<exists>st'. kinit kend st = Inr st' \<and> kmem_inv kend st' \<and>
    free_pages kend st' = {p. aligned p \<and> kend \<le> p \<and> p < PHYSTOP}"
proof -
  have small: "unat kend \<le> 4294967296 - 4096"
    using assms(2) by (simp add: word_le_nat_alt PHYSTOP_unat)
  have ge: "kend \<le> PGROUNDUP kend" by (rule PGROUNDUP_ge [OF small])
  have top: "PGROUNDUP kend \<le> PHYSTOP"
    by (rule PGROUNDUP_le_aligned [OF small _ assms(2)]) (simp add: aligned_unat PHYSTOP_unat)
  have "kmem_list kend st []" using assms(3) by (simp add: kmem_list_def)
  then obtain st' qs where r: "kinit kend st = Inr st'" "kmem_list kend st' qs"
    "set qs = pages_from (PGROUNDUP kend)"
    using freerange_loop_frees [OF _ aligned_PGROUNDUP top assms(1) ge, of st "[]"]
    by (auto simp: kinit_def freerange_def)
  moreover have "pages_from (PGROUNDUP kend) = {p. aligned p \<and> kend \<le> p \<and> p < PHYSTOP}"
  proof -
    have "PGROUNDUP kend \<le> p \<longleftrightarrow> kend \<le> p" if "aligned p" for p
      using PGROUNDUP_le_aligned [OF small that] order_trans [OF ge, of p] by blast
    then show ?thesis unfolding pages_from_def by blast
  qed
  ultimately have "free_pages kend st' = {p. aligned p \<and> kend \<le> p \<and> p < PHYSTOP}"
    using free_pages_list [OF r(2)] by simp
  with r(1,2) show ?thesis unfolding kmem_inv_def by blast
qed

section \<open>Properties\<close>

text \<open>C5: After \<^verbatim>\<open>kinit\<close>, whatever sequence of \<^verbatim>\<open>kalloc\<close>, \<^verbatim>\<open>kfree\<close> and writes to its own pages
  the kernel performs: no page is lost (the pages in use and the free pages are
  disjoint and together are exactly the pages between the kernel image and \<^verbatim>\<open>PHYSTOP\<close>), the next
  \<^verbatim>\<open>kalloc\<close> never returns a page that is in use, and it fails only when every page is in use.\<close>

theorem kalloc_never_shares_or_loses:
  assumes "0 < kend" "kend \<le> PHYSTOP" "freelist st = 0" "kinit kend st = Inr st0"
    and "(client_step kalloc (kfree kend) 0 touch_pages)\<^sup>*\<^sup>* (st0, {}) (st', U)"
    and "kalloc st' = (st'', p)"
  defines "all_pages \<equiv> {q. aligned q \<and> kend \<le> q \<and> q < PHYSTOP}"
  shows "U \<inter> free_pages kend st' = {} \<and> U \<union> free_pages kend st' = all_pages \<and>
    (p = 0 \<longleftrightarrow> U = all_pages) \<and> (p \<noteq> 0 \<longrightarrow> p \<in> all_pages \<and> p \<notin> U)"
proof -
  have i: "kmem_inv kend st0" "free_pages kend st0 = all_pages"
    using kinit_frees [OF assms(1-3)] assms(4) by (auto simp: all_pages_def)
  note run = kmem.client_run_inv [OF assms(5) i(1)]
  have "p \<in> free_pages kend st'" if "p \<noteq> 0"
    by (rule kmem.alloc_cases [OF conjunct1 [OF run] assms(6)]) (use that in auto)
  then show ?thesis
    using run kmem.client_never_shares [OF assms(5) i(1) assms(6)] i(2) by blast
qed

theorem kalloc_never_shares_or_loses_witness:
  "\<exists>st0 st1 p st2 q. kinit 0x87FFE000 \<lparr>phys = (\<lambda>_. 0), freelist = 0\<rparr> = Inr st0 \<and>
    kalloc st0 = (st1, p) \<and> kalloc st1 = (st2, q) \<and> p \<noteq> 0 \<and> q \<noteq> 0 \<and> p \<noteq> q"
proof -
  let ?st = "\<lparr>phys = (\<lambda>_. 0), freelist = 0\<rparr>" and ?k = "0x87FFE000 :: u32"
  let ?all = "{q. aligned q \<and> ?k \<le> q \<and> q < PHYSTOP}"
  let ?R = "client_step kalloc (kfree ?k) 0 touch_pages"
  have k: "0 < ?k" "?k \<le> PHYSTOP" by (simp_all add: layout_defs)
  have all: "0x87FFE000 \<in> ?all" "0x87FFF000 \<in> ?all"
    by (simp_all add: aligned_unat layout_defs)
  obtain st0 where st0: "kinit ?k ?st = Inr st0" using kinit_frees [OF k, of ?st] by auto
  obtain st1 p where st1: "kalloc st0 = (st1, p)" by fastforce
  obtain st2 q where st2: "kalloc st1 = (st2, q)" by fastforce
  note use = kalloc_never_shares_or_loses [OF k _ st0]
  have p: "p \<noteq> 0" using use [OF _ rtranclp.rtrancl_refl st1] all(1) by auto
  have "?R\<^sup>*\<^sup>* (st0, {}) (st1, {p})"
    using client_alloc [of kalloc st0 st1 p 0 "kfree ?k" touch_pages "{}"] st1 p
    by (simp add: r_into_rtranclp)
  from use [OF _ this st2] have q: "q = 0 \<longleftrightarrow> {p} = ?all" "q \<noteq> 0 \<longrightarrow> q \<notin> {p}" by auto
  have "{p} \<noteq> ?all"
  proof
    assume "{p} = ?all"
    then have "0x87FFE000 = p" "0x87FFF000 = p" using all by blast+
    then show False by simp
  qed
  then show ?thesis using st0 st1 st2 p q by blast
qed

text \<open>\<^verbatim>\<open>kfree\<close> panics exactly on an address that is not a page of the allocator; otherwise it
  makes the page the next one that \<^verbatim>\<open>kalloc\<close> returns, and only that page's bytes change.\<close>

theorem kfree_kalloc_roundtrip:
  assumes "kmem_inv kend st" "0 < kend" "p \<notin> free_pages kend st"
  shows "(kfree kend st p = Inl (Panic ''kfree'') \<longleftrightarrow> \<not> page_ok kend p) \<and>
    (page_ok kend p \<longrightarrow>
      (\<exists>st1 st2. kfree kend st p = Inr st1 \<and> kalloc st1 = (st2, p) \<and> kmem_inv kend st2 \<and>
        free_pages kend st2 = free_pages kend st \<and>
        (\<forall>a. \<not> in_page p a \<longrightarrow> phys st2 a = phys st a)))"
proof (cases "page_ok kend p")
  case True
  obtain ps where ps: "kmem_list kend st ps" using assms(1) by (auto simp: kmem_inv_def)
  then have "p \<notin> set ps" using assms(3) by (simp add: free_pages_list)
  from kfree_page [OF ps True this] obtain st1 where st1: "kfree kend st p = Inr st1"
    "kmem_list kend st1 (p # ps)" "\<And>a. \<not> in_page p a \<Longrightarrow> phys st1 a = phys st a" by blast
  from kalloc_page [OF st1(2)] obtain st2 where st2: "kalloc st1 = (st2, p)"
    "kmem_list kend st2 ps" "phys st2 = memset (phys st1) p 5 PGSIZE" by blast
  have "free_pages kend st2 = free_pages kend st"
    by (simp add: free_pages_list [OF ps] free_pages_list [OF st2(2)])
  moreover have "kmem_inv kend st2" using st2(2) by (auto simp: kmem_inv_def)
  moreover have "\<forall>a. \<not> in_page p a \<longrightarrow> phys st2 a = phys st a"
    by (simp add: st2(3) memset_page_other st1(3))
  ultimately show ?thesis using True st1(1) st2(1) by simp
next
  case False
  then have "kfree kend st p = Inl (Panic ''kfree'')"
    using assms(2) unfolding kfree_def page_ok_def aligned_def
    by (metis linorder_not_le linorder_not_less)
  then show ?thesis using False by simp
qed

theorem kfree_kalloc_roundtrip_witness:
  "\<exists>st1 st2. kfree 0x80000000 \<lparr>phys = (\<lambda>_. 0), freelist = 0\<rparr> 0x87FFF000 = Inr st1 \<and>
    kalloc st1 = (st2, 0x87FFF000) \<and> phys st2 0x87FFE000 = 0"
proof -
  let ?st = "\<lparr>phys = (\<lambda>_. 0), freelist = 0\<rparr>" and ?k = "0x80000000 :: u32"
  have l: "kmem_list ?k ?st []" by (simp add: kmem_list_def)
  then have i: "kmem_inv ?k ?st" by (auto simp: kmem_inv_def)
  have "page_ok ?k 0x87FFF000" by (simp add: page_ok_def aligned_unat layout_defs)
  then obtain st1 st2 where "kfree ?k ?st 0x87FFF000 = Inr st1" "kalloc st1 = (st2, 0x87FFF000)"
    "\<forall>a. \<not> in_page 0x87FFF000 a \<longrightarrow> phys st2 a = 0"
    using kfree_kalloc_roundtrip [OF i, of "0x87FFF000"] by (auto simp: free_pages_list [OF l])
  moreover have "\<not> in_page 0x87FFF000 0x87FFE000" by (simp add: in_page_def)
  ultimately show ?thesis by blast
qed

end
