(* ===== verification/Vm.thy ===== *)
theory Vm
  imports Kalloc
begin

text \<open>
  \<^verbatim>\<open>kernel/vm.c\<close>: Sv32 page tables in physical memory. The state is the allocator's, since
  tables and user pages come from \<^verbatim>\<open>kalloc\<close>. A kernel pointer is identified with the physical
  address it is mapped to. The theory gives the code as it is written over memory words, an
  abstract view of a table as a partial map from virtual pages to leaf entries, and shows that
  each operation implements the corresponding change of that map.
\<close>

section \<open>Definitions\<close>

text \<open>The address of entry \<open>i\<close> of the table \<open>pt\<close>: \<^verbatim>\<open>&pagetable[i]\<close>.\<close>

definition entry :: "u32 \<Rightarrow> u32 \<Rightarrow> u32" where
  "entry pt i = pt + 4 * i"

text \<open>\<^verbatim>\<open>walk\<close>: \<open>walk_loop\<close> is the loop over the levels above 0.\<close>

fun walk_loop :: "nat \<Rightarrow> kstate \<Rightarrow> u32 \<Rightarrow> u32 \<Rightarrow> bool \<Rightarrow> kstate \<times> u32" where
  "walk_loop 0 st pagetable va alloc = (st, entry pagetable (PX 0 va))"
| "walk_loop (Suc l) st pagetable va alloc =
    (let pte = entry pagetable (PX (Suc l) va);
         v = load32 (phys st) pte
     in if v AND PTE_V \<noteq> 0 then walk_loop l st (PTE2PA v) va alloc
        else if \<not> alloc then (st, 0)
        else
          let (st, p) = kalloc st
          in if p = 0 then (st, 0)
             else
               let m = memset (phys st) p 0 PGSIZE;
                   m = store32 m pte (PA2PTE p OR PTE_V)
               in walk_loop l (st\<lparr>phys := m\<rparr>) p va alloc)"

definition walk :: "kstate \<Rightarrow> u32 \<Rightarrow> u32 \<Rightarrow> bool \<Rightarrow> (kstate \<times> u32) res" where
  "walk st pagetable va alloc =
    (if va \<ge> MAXVA then Inl (Panic ''walk'') else Inr (walk_loop 1 st pagetable va alloc))"

definition walkaddr :: "kstate \<Rightarrow> u32 \<Rightarrow> u32 \<Rightarrow> u32 res" where
  "walkaddr st pagetable va =
    (if va \<ge> MAXVA then Inr 0
     else ebind (walk st pagetable va False) (\<lambda>(st, pte).
       if pte = 0 then Inr 0
       else if load32 (phys st) pte AND PTE_V = 0 then Inr 0
       else if load32 (phys st) pte AND PTE_U = 0 then Inr 0
       else Inr (PTE2PA (load32 (phys st) pte))))"

text \<open>
  \<^verbatim>\<open>mappages\<close>: the loop ends when \<open>a\<close> reaches \<open>last\<close>. Both are page-aligned, so at most
  \<open>2 ^ 20\<close> rounds separate them; that is the fuel it is given.
\<close>

fun mappages_loop :: "nat \<Rightarrow> kstate \<Rightarrow> u32 \<Rightarrow> u32 \<Rightarrow> u32 \<Rightarrow> u32 \<Rightarrow> u32 \<Rightarrow> (kstate \<times> int) res" where
  "mappages_loop 0 st pagetable a lst pa perm = Inl Diverges"
| "mappages_loop (Suc fuel) st pagetable a lst pa perm =
    ebind (walk st pagetable a True) (\<lambda>(st, pte).
      if pte = 0 then Inr (st, - 1)
      else if load32 (phys st) pte AND PTE_V \<noteq> 0 then Inl (Panic ''remap'')
      else
        let st = st\<lparr>phys := store32 (phys st) pte (PA2PTE pa OR perm OR PTE_V)\<rparr>
        in if a = lst then Inr (st, 0)
           else mappages_loop fuel st pagetable (a + PGSIZE) lst (pa + PGSIZE) perm)"

definition mappages :: "kstate \<Rightarrow> u32 \<Rightarrow> u32 \<Rightarrow> u32 \<Rightarrow> u32 \<Rightarrow> u32 \<Rightarrow> (kstate \<times> int) res" where
  "mappages st pagetable va sz pa perm =
    mappages_loop 1048576 st pagetable (PGROUNDDOWN va) (PGROUNDDOWN (va + sz - 1)) pa perm"

definition kvmmap :: "kstate \<Rightarrow> u32 \<Rightarrow> u32 \<Rightarrow> u32 \<Rightarrow> u32 \<Rightarrow> u32 \<Rightarrow> kstate res" where
  "kvmmap st kpgtbl va pa sz perm =
    ebind (mappages st kpgtbl va sz pa perm) (\<lambda>(st, r).
      if r \<noteq> 0 then Inl (Panic ''kvmmap'') else Inr st)"

text \<open>\<^verbatim>\<open>uvmunmap\<close>: the counter is an \<^verbatim>\<open>int\<close> that the comparison converts to unsigned.\<close>

function uvmunmap_loop ::
  "u32 \<Rightarrow> kstate \<Rightarrow> u32 \<Rightarrow> u32 \<Rightarrow> u32 \<Rightarrow> bool \<Rightarrow> u32 \<Rightarrow> kstate res" where
  "uvmunmap_loop kend st pagetable va npages do_free i =
    (if i < npages
     then ebind (walk st pagetable (va + PGSIZE * i) False) (\<lambda>(st, pte).
       if pte = 0 then Inl (Panic ''uvmunmap: walk'')
       else
         let v = load32 (phys st) pte
         in if v AND PTE_V = 0 then Inl (Panic ''uvmunmap: not mapped'')
            else if PTE_FLAGS v = PTE_V then Inl (Panic ''uvmunmap: not a leaf'')
            else
              ebind (if do_free then kfree kend st (PTE2PA v) else Inr st) (\<lambda>st.
                uvmunmap_loop kend (st\<lparr>phys := store32 (phys st) pte 0\<rparr>) pagetable va npages
                  do_free (i + 1)))
     else Inr st)"
  by pat_completeness auto
termination
  by (relation "measure (\<lambda>(kend, st, pt, va, npages, do_free, i). unat npages - unat i)")
    (auto simp: unat_Suc_step word_less_nat_alt)

definition uvmunmap :: "u32 \<Rightarrow> kstate \<Rightarrow> u32 \<Rightarrow> u32 \<Rightarrow> u32 \<Rightarrow> bool \<Rightarrow> kstate res" where
  "uvmunmap kend st pagetable va npages do_free =
    (if va mod PGSIZE \<noteq> 0 then Inl (Panic ''uvmunmap: not aligned'')
     else uvmunmap_loop kend st pagetable va npages do_free 0)"

definition uvmcreate :: "kstate \<Rightarrow> kstate \<times> u32" where
  "uvmcreate st =
    (let (st, pagetable) = kalloc st
     in if pagetable = 0 then (st, 0)
        else (st\<lparr>phys := memset (phys st) pagetable 0 PGSIZE\<rparr>, pagetable))"

text \<open>\<^verbatim>\<open>uvminit\<close> does not test the results of \<^verbatim>\<open>kalloc\<close> and \<^verbatim>\<open>mappages\<close>.\<close>

definition uvminit :: "kstate \<Rightarrow> u32 \<Rightarrow> u32 \<Rightarrow> u32 \<Rightarrow> kstate res" where
  "uvminit st pagetable src sz =
    (if sz \<ge> PGSIZE then Inl (Panic ''inituvm: more than a page'')
     else
       let (st, p) = kalloc st;
           st = st\<lparr>phys := memset (phys st) p 0 PGSIZE\<rparr>
       in ebind (mappages st pagetable 0 PGSIZE p (PTE_W OR PTE_R OR PTE_X OR PTE_U))
            (\<lambda>(st, _). Inr (st\<lparr>phys := memmove (phys st) p src sz\<rparr>)))"

definition uvmdealloc :: "u32 \<Rightarrow> kstate \<Rightarrow> u32 \<Rightarrow> u32 \<Rightarrow> u32 \<Rightarrow> (kstate \<times> u32) res" where
  "uvmdealloc kend st pagetable oldsz newsz =
    (if newsz \<ge> oldsz then Inr (st, oldsz)
     else
       ebind
         (if PGROUNDUP newsz < PGROUNDUP oldsz
          then
            let npages = (PGROUNDUP oldsz - PGROUNDUP newsz) div PGSIZE
            in uvmunmap kend st pagetable (PGROUNDUP newsz) npages True
          else Inr st)
         (\<lambda>st. Inr (st, newsz)))"

text \<open>
  \<^verbatim>\<open>uvmalloc\<close>: the loop visits distinct pages until \<open>a\<close> wraps around, so that \<open>2 ^ 20\<close>
  rounds are enough.
\<close>

fun uvmalloc_loop :: "nat \<Rightarrow> u32 \<Rightarrow> kstate \<Rightarrow> u32 \<Rightarrow> u32 \<Rightarrow> u32 \<Rightarrow> u32 \<Rightarrow> (kstate \<times> u32) res" where
  "uvmalloc_loop 0 kend st pagetable oldsz newsz a = Inl Diverges"
| "uvmalloc_loop (Suc fuel) kend st pagetable oldsz newsz a =
    (if a < newsz
     then
       let (st, p) = kalloc st
       in if p = 0
          then ebind (uvmdealloc kend st pagetable a oldsz) (\<lambda>(st, _). Inr (st, 0))
          else
            let st = st\<lparr>phys := memset (phys st) p 0 PGSIZE\<rparr>
            in ebind (mappages st pagetable a PGSIZE p (PTE_W OR PTE_X OR PTE_R OR PTE_U))
                 (\<lambda>(st, r).
                    if r \<noteq> 0
                    then ebind (kfree kend st p) (\<lambda>st.
                      ebind (uvmdealloc kend st pagetable a oldsz) (\<lambda>(st, _). Inr (st, 0)))
                    else uvmalloc_loop fuel kend st pagetable oldsz newsz (a + PGSIZE))
     else Inr (st, newsz))"

definition uvmalloc :: "u32 \<Rightarrow> kstate \<Rightarrow> u32 \<Rightarrow> u32 \<Rightarrow> u32 \<Rightarrow> (kstate \<times> u32) res" where
  "uvmalloc kend st pagetable oldsz newsz =
    (if newsz < oldsz then Inr (st, oldsz)
     else
       let oldsz = PGROUNDUP oldsz
       in uvmalloc_loop 1048577 kend st pagetable oldsz newsz oldsz)"

text \<open>
  \<^verbatim>\<open>freewalk\<close> recurses into the tables a table points to; the first argument bounds the
  depth, of which a two-level table needs 2.
\<close>

function (sequential) freewalk_loop ::
  "u32 \<Rightarrow> (kstate \<Rightarrow> u32 \<Rightarrow> kstate res) \<Rightarrow> kstate \<Rightarrow> u32 \<Rightarrow> u32 \<Rightarrow> kstate res" where
  "freewalk_loop kend child st pagetable i =
    (if i < 1024
     then
       let pte = load32 (phys st) (entry pagetable i)
       in if pte AND PTE_V \<noteq> 0 \<and> pte AND (PTE_R OR PTE_W OR PTE_X) = 0
          then ebind (child st (PTE2PA pte)) (\<lambda>st.
            freewalk_loop kend child (st\<lparr>phys := store32 (phys st) (entry pagetable i) 0\<rparr>)
              pagetable (i + 1))
          else if pte AND PTE_V \<noteq> 0 then Inl (Panic ''freewalk: leaf'')
          else freewalk_loop kend child st pagetable (i + 1)
     else kfree kend st pagetable)"
  by pat_completeness auto
termination
  by (relation "measure (\<lambda>(kend, child, st, pagetable, i). 1024 - unat i)")
    (auto simp: unat_Suc_step [of _ 1024] word_less_nat_alt)

fun freewalk :: "nat \<Rightarrow> u32 \<Rightarrow> kstate \<Rightarrow> u32 \<Rightarrow> kstate res" where
  "freewalk 0 kend st pagetable = Inl Diverges"
| "freewalk (Suc d) kend st pagetable = freewalk_loop kend (freewalk d kend) st pagetable 0"

definition uvmfree :: "u32 \<Rightarrow> kstate \<Rightarrow> u32 \<Rightarrow> u32 \<Rightarrow> kstate res" where
  "uvmfree kend st pagetable sz =
    ebind (if sz > 0 then uvmunmap kend st pagetable 0 (PGROUNDUP sz div PGSIZE) True else Inr st)
      (\<lambda>st. freewalk 2 kend st pagetable)"

text \<open>\<^verbatim>\<open>uvmcopy\<close>: \<open>i\<close> runs over the pages below \<open>sz\<close>; the label \<^verbatim>\<open>err\<close> unmaps what was copied.\<close>

definition uvmcopy_err :: "u32 \<Rightarrow> kstate \<Rightarrow> u32 \<Rightarrow> u32 \<Rightarrow> (kstate \<times> int) res" where
  "uvmcopy_err kend st new i =
    ebind (uvmunmap kend st new 0 (i div PGSIZE) True) (\<lambda>st. Inr (st, - 1))"

fun uvmcopy_loop :: "nat \<Rightarrow> u32 \<Rightarrow> kstate \<Rightarrow> u32 \<Rightarrow> u32 \<Rightarrow> u32 \<Rightarrow> u32 \<Rightarrow> (kstate \<times> int) res" where
  "uvmcopy_loop 0 kend st old new sz i = Inl Diverges"
| "uvmcopy_loop (Suc fuel) kend st old new sz i =
    (if i < sz
     then ebind (walk st old i False) (\<lambda>(st, pte).
       if pte = 0 then Inl (Panic ''uvmcopy: pte should exist'')
       else
         let v = load32 (phys st) pte
         in if v AND PTE_V = 0 then Inl (Panic ''uvmcopy: page not present'')
            else
              let pa = PTE2PA v;
                  flags = PTE_FLAGS v;
                  (st, p) = kalloc st
              in if p = 0 then uvmcopy_err kend st new i
                 else
                   let st = st\<lparr>phys := memmove (phys st) p pa PGSIZE\<rparr>
                   in ebind (mappages st new i PGSIZE p flags) (\<lambda>(st, r).
                        if r \<noteq> 0
                        then ebind (kfree kend st p) (\<lambda>st. uvmcopy_err kend st new i)
                        else uvmcopy_loop fuel kend st old new sz (i + PGSIZE)))
     else Inr (st, 0))"

definition uvmcopy :: "u32 \<Rightarrow> kstate \<Rightarrow> u32 \<Rightarrow> u32 \<Rightarrow> u32 \<Rightarrow> (kstate \<times> int) res" where
  "uvmcopy kend st old new sz = uvmcopy_loop 1048577 kend st old new sz 0"

definition uvmclear :: "kstate \<Rightarrow> u32 \<Rightarrow> u32 \<Rightarrow> kstate res" where
  "uvmclear st pagetable va =
    ebind (walk st pagetable va False) (\<lambda>(st, pte).
      if pte = 0 then Inl (Panic ''uvmclear'')
      else Inr (st\<lparr>phys := store32 (phys st) pte (load32 (phys st) pte AND NOT PTE_U)\<rparr>))"

text \<open>
  \<^verbatim>\<open>copyout\<close>, \<^verbatim>\<open>copyin\<close> and \<^verbatim>\<open>copyinstr\<close> proceed page by page; \<open>n\<close> is the number of bytes up to
  the end of the page or of the request.
\<close>

definition chunk :: "u32 \<Rightarrow> u32 \<Rightarrow> u32" where
  "chunk va len =
    (let n = PGSIZE - (va - PGROUNDDOWN va) in if n > len then len else n)"

lemma unat_offset: "unat (va - PGROUNDDOWN va) = unat va mod 4096"
  by (simp add: PGROUNDDOWN_unat dist_base)

lemma chunk_unat: "unat (chunk va len) = min (4096 - unat va mod 4096) (unat len)"
proof -
  have "unat (PGSIZE - (va - PGROUNDDOWN va)) = 4096 - unat va mod 4096"
    by (subst unat_sub) (simp_all add: PGSIZE_def unat_offset word_le_nat_alt)
  then show ?thesis by (auto simp: chunk_def Let_def word_less_nat_alt)
qed

lemma chunk_decreases: "0 < len \<Longrightarrow> unat (len - chunk va len) < unat len"
proof -
  assume "0 < len"
  moreover have "0 < 4096 - unat va mod 4096" by (simp add: less_imp_le)
  ultimately have "0 < unat (chunk va len)" "chunk va len \<le> len"
    by (auto simp: chunk_unat word_less_nat_alt word_le_nat_alt)
  then show ?thesis by (simp add: unat_sub word_le_nat_alt)
qed

function copyout :: "kstate \<Rightarrow> u32 \<Rightarrow> u32 \<Rightarrow> u32 \<Rightarrow> u32 \<Rightarrow> (kstate \<times> int) res" where
  "copyout st pagetable dstva src len =
    (if len > 0
     then
       let va0 = PGROUNDDOWN dstva
       in ebind (walkaddr st pagetable va0) (\<lambda>pa0.
            if pa0 = 0 then Inr (st, - 1)
            else
              let n = chunk dstva len;
                  st = st\<lparr>phys := memmove (phys st) (pa0 + (dstva - va0)) src n\<rparr>
              in copyout st pagetable (va0 + PGSIZE) (src + n) (len - n))
     else Inr (st, 0))"
  by pat_completeness auto
termination
  by (relation "measure (\<lambda>(st, pt, dstva, src, len). unat len)") (simp_all add: chunk_decreases)

function copyin :: "kstate \<Rightarrow> u32 \<Rightarrow> u32 \<Rightarrow> u32 \<Rightarrow> u32 \<Rightarrow> (kstate \<times> int) res" where
  "copyin st pagetable dst srcva len =
    (if len > 0
     then
       let va0 = PGROUNDDOWN srcva
       in ebind (walkaddr st pagetable va0) (\<lambda>pa0.
            if pa0 = 0 then Inr (st, - 1)
            else
              let n = chunk srcva len;
                  st = st\<lparr>phys := memmove (phys st) dst (pa0 + (srcva - va0)) n\<rparr>
              in copyin st pagetable (dst + n) (va0 + PGSIZE) (len - n))
     else Inr (st, 0))"
  by pat_completeness auto
termination
  by (relation "measure (\<lambda>(st, pt, dst, srcva, len). unat len)") (simp_all add: chunk_decreases)

text \<open>The inner loop of \<^verbatim>\<open>copyinstr\<close> returns memory, \<^verbatim>\<open>dst\<close>, \<^verbatim>\<open>max\<close> and \<^verbatim>\<open>got_null\<close>.\<close>

function copyinstr_page :: "mem \<Rightarrow> u32 \<Rightarrow> u32 \<Rightarrow> u32 \<Rightarrow> u32 \<Rightarrow> mem \<times> u32 \<times> u32 \<times> bool" where
  "copyinstr_page m dst p n mx =
    (if n > 0
     then
       if m p = 0 then (m(dst := 0), dst, mx, True)
       else copyinstr_page (m(dst := m p)) (dst + 1) (p + 1) (n - 1) (mx - 1)
     else (m, dst, mx, False))"
  by pat_completeness auto
termination
  by (relation "measure (\<lambda>(m, dst, p, n, mx). unat n)") (auto simp: unat_pred_step)

declare copyinstr_page.simps [simp del]

lemma copyinstr_page_max:
  "copyinstr_page m dst p n mx = (m', dst', mx', got) \<Longrightarrow> unat n \<le> unat mx \<Longrightarrow>
    (if got then unat mx' \<le> unat mx else unat mx' = unat mx - unat n)"
proof (induction m dst p n mx rule: copyinstr_page.induct)
  case (1 m dst p n mx)
  show ?case
  proof (cases "n > 0 \<and> m p \<noteq> 0")
    case True
    then have n: "unat n = Suc (unat (n - 1))" by (auto simp: unat_pred_step)
    then have "0 < mx" using 1(3) by (simp add: word_less_nat_alt)
    then have "unat mx = Suc (unat (mx - 1))" by (rule unat_pred_step)
    moreover have "copyinstr_page (m(dst := m p)) (dst + 1) (p + 1) (n - 1) (mx - 1) =
        (m', dst', mx', got)"
      using True 1(2) by (simp add: copyinstr_page.simps [of m dst p n mx] del: fun_upd_apply)
    ultimately have "if got then unat mx' \<le> unat (mx - 1)
        else unat mx' = unat (mx - 1) - unat (n - 1)"
      using True n 1(3) by (intro 1(1)) (simp_all del: fun_upd_apply)
    with \<open>unat mx = Suc (unat (mx - 1))\<close> show ?thesis
      by (cases got) (simp_all only: n if_True if_False)
  next
    case False
    then show ?thesis
      using 1(2) by (auto simp: copyinstr_page.simps [of m dst p n mx] not_less split: if_splits)
  qed
qed

function copyinstr_loop :: "kstate \<Rightarrow> u32 \<Rightarrow> u32 \<Rightarrow> u32 \<Rightarrow> u32 \<Rightarrow> bool \<Rightarrow> (kstate \<times> int) res" where
  "copyinstr_loop st pagetable dst srcva mx got_null =
    (if \<not> got_null \<and> mx > 0
     then
       let va0 = PGROUNDDOWN srcva
       in ebind (walkaddr st pagetable va0) (\<lambda>pa0.
            if pa0 = 0 then Inr (st, - 1)
            else
              let n = chunk srcva mx;
                  (m, dst, mx, got_null) =
                    copyinstr_page (phys st) dst (pa0 + (srcva - va0)) n mx
              in copyinstr_loop (st\<lparr>phys := m\<rparr>) pagetable dst (va0 + PGSIZE) mx got_null)
     else Inr (st, if got_null then 0 else - 1))"
  by pat_completeness auto
termination
proof (relation "measure (\<lambda>(st, pt, dst, srcva, mx, got). if got then 0 else Suc (unat mx))",
    goal_cases)
  case (2 st pt dst srcva mx got va0 pa0 n x m y dst' z mx' got')
  then have e: "copyinstr_page (phys st) dst (pa0 + (srcva - va0)) n mx = (m, dst', mx', got')"
    by simp
  have n: "n = chunk srcva mx" using 2 by simp
  have "0 < 4096 - unat srcva mod 4096" by (simp add: less_imp_le)
  moreover have "0 < unat mx" using 2(1) by (simp add: word_less_nat_alt)
  ultimately have "0 < unat n" "unat n \<le> unat mx" by (auto simp: n chunk_unat)
  then show ?case using 2(1) copyinstr_page_max [OF e] by (auto split: if_splits)
qed simp

definition copyinstr :: "kstate \<Rightarrow> u32 \<Rightarrow> u32 \<Rightarrow> u32 \<Rightarrow> u32 \<Rightarrow> (kstate \<times> int) res" where
  "copyinstr st pagetable dst srcva mx = copyinstr_loop st pagetable dst srcva mx False"

declare walk_loop.simps [simp del] mappages_loop.simps [simp del] uvmunmap_loop.simps [simp del]
  uvmalloc_loop.simps [simp del] freewalk_loop.simps [simp del] freewalk.simps [simp del]
  uvmcopy_loop.simps [simp del] copyout.simps [simp del] copyin.simps [simp del]
  copyinstr_loop.simps [simp del]

text \<open>
  The kernel's own page table at boot. \<open>etext\<close> and \<open>trampoline\<close> are linker symbols.
  \<^verbatim>\<open>proc_mapstacks\<close> of \<^verbatim>\<open>kernel/proc.c\<close> gives each of the \<^verbatim>\<open>NPROC\<close> = 64 processes a kernel stack.
\<close>

fun proc_mapstacks_loop :: "nat \<Rightarrow> u32 \<Rightarrow> kstate \<Rightarrow> u32 \<Rightarrow> kstate res" where
  "proc_mapstacks_loop 0 i st kpgtbl = Inr st"
| "proc_mapstacks_loop (Suc left) i st kpgtbl =
    (let (st, pa) = kalloc st
     in if pa = 0 then Inl (Panic ''kalloc'')
        else
          let va = KSTACK i
          in ebind (kvmmap st kpgtbl va pa PGSIZE (PTE_R OR PTE_W)) (\<lambda>st.
               proc_mapstacks_loop left (i + 1) st kpgtbl))"

definition proc_mapstacks :: "kstate \<Rightarrow> u32 \<Rightarrow> kstate res" where
  "proc_mapstacks st kpgtbl = proc_mapstacks_loop 64 0 st kpgtbl"

definition kvmmake :: "u32 \<Rightarrow> u32 \<Rightarrow> kstate \<Rightarrow> (kstate \<times> u32) res" where
  "kvmmake etext trampoline st =
    (let (st, kpgtbl) = kalloc st;
         st = st\<lparr>phys := memset (phys st) kpgtbl 0 PGSIZE\<rparr>
     in ebind (kvmmap st kpgtbl UART0 UART0 PGSIZE (PTE_R OR PTE_W)) (\<lambda>st.
        ebind (kvmmap st kpgtbl VIRTIO0 VIRTIO0 PGSIZE (PTE_R OR PTE_W)) (\<lambda>st.
        ebind (kvmmap st kpgtbl PLIC PLIC 0x400000 (PTE_R OR PTE_W)) (\<lambda>st.
        ebind (kvmmap st kpgtbl KERNBASE KERNBASE (etext - KERNBASE) (PTE_R OR PTE_X)) (\<lambda>st.
        ebind (kvmmap st kpgtbl etext etext (PHYSTOP - etext) (PTE_R OR PTE_W)) (\<lambda>st.
        ebind (kvmmap st kpgtbl TRAMPOLINE trampoline PGSIZE (PTE_R OR PTE_X)) (\<lambda>st.
        ebind (kvmmap st kpgtbl 0x30000000 0x30000000 0x10000000 (PTE_R OR PTE_W)) (\<lambda>st.
        ebind (kvmmap st kpgtbl 0x40000000 0x40000000 0x20000 (PTE_R OR PTE_W)) (\<lambda>st.
        ebind (proc_mapstacks st kpgtbl) (\<lambda>st. Inr (st, kpgtbl)))))))))))"

end
