(* ===== verification/Vm_Buf.thy ===== *)
theory Vm_Buf
  imports Vm
begin

text \<open>
  \<^verbatim>\<open>copyout\<close>, \<^verbatim>\<open>copyin\<close> and \<^verbatim>\<open>copyinstr\<close> of \<^verbatim>\<open>kernel/vm.c\<close> for kernel buffers that are not part of the
  modelled memory: the data of a block buffer, a ring buffer or a local variable of a system
  call is a list of bytes. The page loops are those of \<^verbatim>\<open>kernel/vm.c\<close>.
\<close>

section \<open>Bytes in memory\<close>

definition write_bytes :: "mem \<Rightarrow> u32 \<Rightarrow> u8 list \<Rightarrow> mem" where
  "write_bytes m a bs = (\<lambda>x. if unat (x - a) < length bs then bs ! unat (x - a) else m x)"

definition read_bytes :: "mem \<Rightarrow> u32 \<Rightarrow> nat \<Rightarrow> u8 list" where
  "read_bytes m a n = map (\<lambda>k. m (a + of_nat k)) [0..<n]"

lemma length_read_bytes [simp]: "length (read_bytes m a n) = n"
  by (simp add: read_bytes_def)

lemma write_bytes_Nil [simp]: "write_bytes m a [] = m"
  by (simp add: write_bytes_def)

section \<open>The copies\<close>

function copyout_buf :: "kstate \<Rightarrow> u32 \<Rightarrow> u32 \<Rightarrow> u8 list \<Rightarrow> (kstate \<times> int) res" where
  "copyout_buf st pagetable dstva bs =
    (if bs \<noteq> []
     then
       let va0 = PGROUNDDOWN dstva
       in ebind (walkaddr st pagetable va0) (\<lambda>pa0.
            if pa0 = 0 then Inr (st, - 1)
            else
              let n = 4096 - unat (dstva - va0);
                  n = (if n > length bs then length bs else n);
                  st = st\<lparr>phys := write_bytes (phys st) (pa0 + (dstva - va0)) (take n bs)\<rparr>
              in copyout_buf st pagetable (va0 + PGSIZE) (drop n bs))
     else Inr (st, 0))"
  by pat_completeness auto
termination
  by (relation "measure (\<lambda>(st, pt, dstva, bs). length bs)") (auto simp: unat_offset less_imp_le)

text \<open>The bytes that were read and the result.\<close>

function copyin_buf :: "kstate \<Rightarrow> u32 \<Rightarrow> u32 \<Rightarrow> nat \<Rightarrow> (u8 list \<times> int) res" where
  "copyin_buf st pagetable srcva len =
    (if len > 0
     then
       let va0 = PGROUNDDOWN srcva
       in ebind (walkaddr st pagetable va0) (\<lambda>pa0.
            if pa0 = 0 then Inr ([], - 1)
            else
              let n = 4096 - unat (srcva - va0);
                  n = (if n > len then len else n);
                  bs = read_bytes (phys st) (pa0 + (srcva - va0)) n
              in ebind (copyin_buf st pagetable (va0 + PGSIZE) (len - n)) (\<lambda>(cs, r).
                   Inr (bs @ cs, r)))
     else Inr ([], 0))"
  by pat_completeness auto
termination
  by (relation "measure (\<lambda>(st, pt, srcva, len). len)") (auto simp: unat_offset less_imp_le)

text \<open>
  \<^verbatim>\<open>copyinstr\<close>: the bytes before the terminator, and 0 if one was found within \<open>mx\<close> bytes. The
  inner loop returns the bytes it copied and whether it met the terminator.
\<close>

fun copyinstr_run :: "mem \<Rightarrow> u32 \<Rightarrow> nat \<Rightarrow> u8 list \<times> bool" where
  "copyinstr_run m p 0 = ([], False)"
| "copyinstr_run m p (Suc n) =
    (if m p = 0 then ([], True)
     else let (bs, got_null) = copyinstr_run m (p + 1) n in (m p # bs, got_null))"

function copyinstr_buf :: "kstate \<Rightarrow> u32 \<Rightarrow> u32 \<Rightarrow> nat \<Rightarrow> (u8 list \<times> int) res" where
  "copyinstr_buf st pagetable srcva mx =
    (if mx > 0
     then
       let va0 = PGROUNDDOWN srcva
       in ebind (walkaddr st pagetable va0) (\<lambda>pa0.
            if pa0 = 0 then Inr ([], - 1)
            else
              let n = 4096 - unat (srcva - va0);
                  n = (if n > mx then mx else n);
                  (bs, got_null) = copyinstr_run (phys st) (pa0 + (srcva - va0)) n
              in if got_null then Inr (bs, 0)
                 else ebind (copyinstr_buf st pagetable (va0 + PGSIZE) (mx - n)) (\<lambda>(cs, r).
                   Inr (bs @ cs, r)))
     else Inr ([], - 1))"
  by pat_completeness auto
termination
  by (relation "measure (\<lambda>(st, pt, srcva, mx). mx)") (auto simp: unat_offset less_imp_le)

declare copyout_buf.simps [simp del] copyin_buf.simps [simp del] copyinstr_buf.simps [simp del]

section \<open>They always return\<close>

lemma walkaddr_returns: "\<exists>pa. walkaddr st root va = Inr pa"
  by (auto simp: walkaddr_def walk_def split: prod.splits)

lemma copyout_buf_returns:
  "\<exists>st' r. copyout_buf st root dstva bs = Inr (st', r) \<and> freelist st' = freelist st \<and> (r = 0 \<or> r = - 1)"
proof (induction st root dstva bs rule: copyout_buf.induct)
  case (1 st root dstva bs)
  obtain pa where pa: "walkaddr st root (PGROUNDDOWN dstva) = Inr pa" using walkaddr_returns by blast
  show ?case
  proof (cases "bs \<noteq> [] \<and> pa \<noteq> 0")
    case True
    then show ?thesis
      using 1 [OF _ refl pa _ refl refl refl] pa by (subst copyout_buf.simps) (simp add: Let_def)
  next
    case False
    then show ?thesis using pa by (subst copyout_buf.simps) auto
  qed
qed

lemma copyin_buf_returns:
  "\<exists>bs r. copyin_buf st root srcva len = Inr (bs, r) \<and> length bs \<le> len \<and>
    (r = 0 \<and> length bs = len \<or> r = - 1)"
proof (induction st root srcva len rule: copyin_buf.induct)
  case (1 st root srcva len)
  obtain pa where pa: "walkaddr st root (PGROUNDDOWN srcva) = Inr pa" using walkaddr_returns by blast
  show ?case
  proof (cases "len > 0 \<and> pa \<noteq> 0")
    case True
    define n where "n = (if len < 4096 - unat (srcva - PGROUNDDOWN srcva) then len
      else 4096 - unat (srcva - PGROUNDDOWN srcva))"
    obtain bs r where "copyin_buf st root (PGROUNDDOWN srcva + PGSIZE) (len - n) = Inr (bs, r)"
      "length bs \<le> len - n" "r = 0 \<and> length bs = len - n \<or> r = - 1"
      using 1 [OF _ refl pa _ refl refl refl] True unfolding n_def by auto
    moreover have "n \<le> len" by (auto simp: n_def)
    ultimately show ?thesis
      using pa True by (subst copyin_buf.simps) (auto simp add: Let_def n_def [symmetric])
  next
    case False
    then show ?thesis using pa by (subst copyin_buf.simps) auto
  qed
qed

end
