(* ===== verification/Vm_Map.thy ===== *)
theory Vm_Map
  imports Vm
begin

text \<open>
  Page tables as maps. \<open>pt_get m root va\<close> is the leaf entry that the table at \<open>root\<close> holds for
  \<open>va\<close> (0 when there is none). The theory shows that \<^verbatim>\<open>walk\<close> finds the word that holds that
  entry, that a table's structure survives every write outside its pages, and what
  \<^verbatim>\<open>mappages\<close>, \<^verbatim>\<open>uvmunmap\<close>, \<^verbatim>\<open>uvmalloc\<close>, \<^verbatim>\<open>uvmdealloc\<close> and \<^verbatim>\<open>freewalk\<close> do to the map and to
  the set of free pages.
\<close>

section \<open>Entries of a table page\<close>

lemma unat_entry_offset: "unat i < 1024 \<Longrightarrow> unat (4 * i :: u32) = 4 * unat i"
  by (simp add: unat_word_ariths)

lemma entry_in_page: "unat i < 1024 \<Longrightarrow> unat k < 4 \<Longrightarrow> in_page p (entry p i + k)"
proof -
  assume a: "unat i < 1024" "unat k < 4"
  have "unat (4 * i + k) = 4 * unat i + unat k"
    using a by (simp add: unat_word_ariths)
  moreover have "entry p i + k - p = 4 * i + k" by (simp add: entry_def)
  ultimately have "unat (entry p i + k - p) = 4 * unat i + unat k" by (simp only:)
  then show ?thesis using a by (simp add: in_page_def)
qed

lemma entry_apart:
  assumes "aligned p" "aligned q" "unat i < 1024" "unat j < 1024" "(p, i) \<noteq> (q, j)"
  shows "4 \<le> unat (entry q j - entry p i)"
proof (cases "p = q")
  case True
  then have ne: "i \<noteq> j" using assms(5) by simp
  have e: "entry q j - entry p i = 4 * j - 4 * i" using True by (simp add: entry_def)
  have u: "unat (4 * i) = 4 * unat i" "unat (4 * j) = 4 * unat j"
    using assms(3,4) by (simp_all add: unat_entry_offset)
  show ?thesis
  proof (cases "unat i \<le> unat j")
    case True
    then have "unat i < unat j" using ne by (simp add: word_unat_eq_iff)
    then show ?thesis using u unfolding e by (simp add: dist_base)
  next
    case False
    then show ?thesis using u assms(3) unfolding e by (simp add: dist_below)
  qed
next
  case False
  show ?thesis
  proof (rule ccontr)
    assume "\<not> 4 \<le> unat (entry q j - entry p i)"
    then have "in_page p (entry p i + (entry q j - entry p i))"
      using assms(3) by (intro entry_in_page) simp_all
    then have "in_page p (entry q j)" by simp
    moreover have "in_page q (entry q j)" using entry_in_page [OF assms(4), of 0 q] by simp
    ultimately show False using in_page_unique [OF assms(1,2)] False by blast
  qed
qed

lemma load32_store32_entry:
  assumes "aligned p" "aligned q" "unat i < 1024" "unat j < 1024"
  shows "load32 (store32 m (entry p i) v) (entry q j) =
    (if p = q \<and> i = j then v else load32 m (entry q j))"
  using entry_apart [OF assms] entry_apart [OF assms(2,1,4,3)]
  by (auto simp: load32_store32_disjoint)

lemma load32_entry_cong:
  assumes "unat i < 1024" "\<And>a. in_page p a \<Longrightarrow> m' a = m a"
  shows "load32 m' (entry p i) = load32 m (entry p i)"
  by (rule load32_cong) (use assms entry_in_page in blast)

lemma memset_page: "in_page p a \<Longrightarrow> memset m p c PGSIZE a = ucast c"
  by (simp add: memset_apply in_page_def PGSIZE_def)

lemma memset_memset: "memset (memset m p c n) p d n = memset m p d n"
  by (rule ext) (simp add: memset_apply)

lemma load32_zero: "(\<And>k. unat k < 4 \<Longrightarrow> m (a + k) = 0) \<Longrightarrow> load32 m a = 0"
proof -
  assume z: "\<And>k. unat k < 4 \<Longrightarrow> m (a + k) = 0"
  show "load32 m a = 0"
    using z [of 0] z [of 1] z [of 2] z [of 3] by (simp add: load32_def le32_def)
qed

lemma load32_zeroed_page: "unat i < 1024 \<Longrightarrow> load32 (memset m p 0 PGSIZE) (entry p i) = 0"
  by (rule load32_zero) (simp add: memset_page entry_in_page)

lemma store32_entry_other:
  "aligned p \<Longrightarrow> unat i < 1024 \<Longrightarrow> \<not> in_page p a \<Longrightarrow> store32 m (entry p i) v a = m a"
  using entry_in_page [of i "a - entry p i" p] by (auto simp: store32_apply)

section \<open>Page-table entries and indices\<close>

lemma mask10: "(0x3FF :: u32) = mask 10"
  by (simp add: mask_eq_exp_minus_1)

lemma PX_bound [simp]: "unat (PX l va) < 1024"
proof -
  have "PX l va = take_bit 10 (drop_bit (12 + 10 * l) va)"
    unfolding PX_def mask10 by (simp add: take_bit_eq_mask)
  then have "unat (PX l va) = unat (drop_bit (12 + 10 * l) va) mod 1024"
    by (simp add: take_bit_eq_mod unat_mod)
  then show ?thesis by simp
qed

lemma PX_bit: "bit (PX l va) n \<longleftrightarrow> n < 10 \<and> bit va (12 + 10 * l + n)"
  unfolding PX_def mask10 by (auto simp: bit_and_iff bit_mask_iff bit_drop_bit_eq)

lemma PGROUNDDOWN_bit: "bit (PGROUNDDOWN va) n \<longleftrightarrow> 12 \<le> n \<and> bit va n"
proof -
  have "PGROUNDDOWN va = va AND NOT (mask 12)"
    by (simp add: PGROUNDDOWN_def PGSIZE_def mask_eq_exp_minus_1)
  then show ?thesis
    by (auto simp: bit_and_iff bit_not_iff bit_mask_iff dest: bit_imp_le_length)
qed

lemma same_page_iff:
  "PX 1 a = PX 1 b \<and> PX 0 a = PX 0 b \<longleftrightarrow> PGROUNDDOWN a = PGROUNDDOWN b"
proof (intro iffI conjI)
  assume e: "PX 1 a = PX 1 b \<and> PX 0 a = PX 0 b"
  show "PGROUNDDOWN a = PGROUNDDOWN b"
  proof (rule bit_word_eqI)
    fix n
    assume "n < LENGTH(32)"
    then consider "n < 12" | "12 \<le> n" "n < 22" | "22 \<le> n" "n < 32" by fastforce
    then show "bit (PGROUNDDOWN a) n = bit (PGROUNDDOWN b) n"
    proof cases
      case 2
      then have "n - 12 < 10" by simp
      with 2 show ?thesis
        using e PX_bit [of 0 a "n - 12"] PX_bit [of 0 b "n - 12"] by (simp add: PGROUNDDOWN_bit)
    next
      case 3
      then have "n - 22 < 10" by simp
      with 3 show ?thesis
        using e PX_bit [of 1 a "n - 22"] PX_bit [of 1 b "n - 22"] by (simp add: PGROUNDDOWN_bit)
    qed (simp add: PGROUNDDOWN_bit)
  qed
next
  assume e: "PGROUNDDOWN a = PGROUNDDOWN b"
  have b: "bit a (12 + n) = bit b (12 + n)" for n
    using arg_cong [OF e, of "\<lambda>w. bit w (12 + n)"] by (simp add: PGROUNDDOWN_bit)
  show "PX 1 a = PX 1 b" by (rule bit_word_eqI) (use b [of "10 + _"] in \<open>simp add: PX_bit\<close>)
  show "PX 0 a = PX 0 b" by (rule bit_word_eqI) (use b in \<open>simp add: PX_bit\<close>)
qed

lemma PX_PGROUNDDOWN [simp]: "PX 0 (PGROUNDDOWN a) = PX 0 a" "PX (Suc 0) (PGROUNDDOWN a) = PX (Suc 0) a"
  using same_page_iff [of "PGROUNDDOWN a" a] by simp_all

lemma PA2PTE_bit: "bit (PA2PTE pa) n \<longleftrightarrow> 10 \<le> n \<and> n < 32 \<and> bit pa (2 + n)"
  by (auto simp: PA2PTE_def bit_push_bit_iff bit_drop_bit_eq dest: bit_imp_le_length)

lemma PTE2PA_bit: "bit (PTE2PA v) n \<longleftrightarrow> 12 \<le> n \<and> n < 32 \<and> bit v (n - 2)"
  by (auto simp: PTE2PA_def bit_push_bit_iff bit_drop_bit_eq dest: bit_imp_le_length)

definition flag_bits :: "u32 \<Rightarrow> bool" where
  "flag_bits f \<longleftrightarrow> f AND 0x3FF = f"

lemma flag_bits_bit: "flag_bits f \<Longrightarrow> bit f n \<Longrightarrow> n < 10"
  unfolding flag_bits_def mask10 by (metis bit_and_iff bit_mask_iff)

lemma PTE2PA_PA2PTE:
  assumes "aligned pa" "flag_bits f"
  shows "PTE2PA (PA2PTE pa OR f) = pa"
proof -
  have "PTE2PA (PA2PTE pa OR f) = PGROUNDDOWN pa"
  proof (rule bit_word_eqI)
    fix n
    assume n: "n < LENGTH(32)"
    have "12 \<le> n \<Longrightarrow> \<not> bit f (n - 2)" using flag_bits_bit [OF assms(2), of "n - 2"] by auto
    moreover have "12 \<le> n \<Longrightarrow> 2 + (n - 2) = n \<and> 10 \<le> n - 2 \<and> n - 2 < 32" using n by auto
    ultimately show "bit (PTE2PA (PA2PTE pa OR f)) n = bit (PGROUNDDOWN pa) n"
      using n by (auto simp: PTE2PA_bit PA2PTE_bit PGROUNDDOWN_bit bit_or_iff simp del: add_2_eq_Suc)
  qed
  then show ?thesis using assms(1) by simp
qed

lemma PTE_FLAGS_PA2PTE: "flag_bits f \<Longrightarrow> PTE_FLAGS (PA2PTE pa OR f) = f"
proof -
  assume f: "flag_bits f"
  show ?thesis
    unfolding PTE_FLAGS_def mask10
    by (rule bit_word_eqI)
      (auto simp: bit_and_iff bit_or_iff bit_mask_iff PA2PTE_bit
        dest: flag_bits_bit [OF f])
qed

lemma aligned_PTE2PA [simp]: "aligned (PTE2PA v)"
proof -
  have "PTE2PA v = PGROUNDDOWN (PTE2PA v)"
    by (rule bit_word_eqI) (auto simp: PTE2PA_bit PGROUNDDOWN_bit)
  then show ?thesis by (metis aligned_PGROUNDDOWN)
qed

section \<open>The map a table represents\<close>

definition pte_valid :: "u32 \<Rightarrow> bool" where
  "pte_valid v \<longleftrightarrow> v AND PTE_V \<noteq> 0"

text \<open>The word that holds the leaf entry of \<open>va\<close>, if the second-level table exists.\<close>

definition pt_slot :: "mem \<Rightarrow> u32 \<Rightarrow> u32 \<Rightarrow> u32 option" where
  "pt_slot m root va =
    (let e = load32 m (entry root (PX 1 va))
     in if pte_valid e then Some (entry (PTE2PA e) (PX 0 va)) else None)"

definition pt_get :: "mem \<Rightarrow> u32 \<Rightarrow> u32 \<Rightarrow> u32" where
  "pt_get m root va = (case pt_slot m root va of None \<Rightarrow> 0 | Some a \<Rightarrow> load32 m a)"

text \<open>The pages of a table: the root and the second-level tables it points to.\<close>

definition pt_tables :: "mem \<Rightarrow> u32 \<Rightarrow> u32 set" where
  "pt_tables m root =
    (\<lambda>i. PTE2PA (load32 m (entry root i))) `
      {i. unat i < 1024 \<and> pte_valid (load32 m (entry root i))}"

definition pt_pages :: "mem \<Rightarrow> u32 \<Rightarrow> u32 set" where
  "pt_pages m root = insert root (pt_tables m root)"

definition pt_wf :: "u32 \<Rightarrow> mem \<Rightarrow> u32 \<Rightarrow> bool" where
  "pt_wf kend m root \<longleftrightarrow>
    page_ok kend root \<and>
    (\<forall>i. unat i < 1024 \<longrightarrow> pte_valid (load32 m (entry root i)) \<longrightarrow>
      page_ok kend (PTE2PA (load32 m (entry root i))) \<and> PTE2PA (load32 m (entry root i)) \<noteq> root \<and>
      load32 m (entry root i) AND (PTE_R OR PTE_W OR PTE_X) = 0) \<and>
    (\<forall>i j. unat i < 1024 \<longrightarrow> unat j < 1024 \<longrightarrow> pte_valid (load32 m (entry root i)) \<longrightarrow>
      pte_valid (load32 m (entry root j)) \<longrightarrow>
      PTE2PA (load32 m (entry root i)) = PTE2PA (load32 m (entry root j)) \<longrightarrow> i = j)"

definition same_root :: "mem \<Rightarrow> mem \<Rightarrow> u32 \<Rightarrow> bool" where
  "same_root m m' root \<longleftrightarrow> (\<forall>i. unat i < 1024 \<longrightarrow> load32 m' (entry root i) = load32 m (entry root i))"

lemma same_root_slot: "same_root m m' root \<Longrightarrow> pt_slot m' root va = pt_slot m root va"
  by (simp add: same_root_def pt_slot_def)

lemma same_root_pages: "same_root m m' root \<Longrightarrow> pt_pages m' root = pt_pages m root"
  unfolding same_root_def pt_pages_def pt_tables_def
  by (intro arg_cong2 [where f = insert] image_cong refl) auto

lemma same_root_wf: "same_root m m' root \<Longrightarrow> pt_wf kend m root \<Longrightarrow> pt_wf kend m' root"
  by (simp add: same_root_def pt_wf_def)

lemma pt_slot_SomeE:
  assumes "pt_slot m root va = Some a"
  obtains t where "t \<in> pt_tables m root" "a = entry t (PX 0 va)"
    "t = PTE2PA (load32 m (entry root (PX 1 va)))" "pte_valid (load32 m (entry root (PX 1 va)))"
proof (rule that [of "PTE2PA (load32 m (entry root (PX 1 va)))"])
  show v: "pte_valid (load32 m (entry root (PX 1 va)))"
    "a = entry (PTE2PA (load32 m (entry root (PX 1 va)))) (PX 0 va)"
    using assms by (auto simp: pt_slot_def Let_def split: if_splits)
  show "PTE2PA (load32 m (entry root (PX 1 va))) \<in> pt_tables m root"
    unfolding pt_tables_def using v(1) PX_bound by blast
qed simp

lemma pt_wf_pages: "pt_wf kend m root \<Longrightarrow> p \<in> pt_pages m root \<Longrightarrow> page_ok kend p"
  by (auto simp: pt_wf_def pt_pages_def pt_tables_def)

lemma pt_wf_tables_root: "pt_wf kend m root \<Longrightarrow> t \<in> pt_tables m root \<Longrightarrow> t \<noteq> root"
  by (auto simp: pt_wf_def pt_tables_def)

lemma page_ok_aligned: "page_ok kend p \<Longrightarrow> aligned p"
  by (simp add: page_ok_def)

lemma page_ok_entry: "page_ok kend p \<Longrightarrow> unat i < 1024 \<Longrightarrow> entry p i \<noteq> 0"
proof
  assume a: "page_ok kend p" "unat i < 1024" "entry p i = 0"
  have "unat p < 2281701376" "0 < unat p"
    using a(1) by (auto simp: page_ok_def word_less_nat_alt word_le_nat_alt PHYSTOP_unat)
  then have "unat (p + 4 * i) = unat p + 4 * unat i"
    using a(2) by (simp add: unat_word_ariths)
  then show False using a(3) \<open>0 < unat p\<close> by (simp add: entry_def)
qed

lemma pt_slot_nonzero: "pt_wf kend m root \<Longrightarrow> pt_slot m root va = Some a \<Longrightarrow> a \<noteq> 0"
proof -
  assume a: "pt_wf kend m root" "pt_slot m root va = Some a"
  obtain t where "t \<in> pt_tables m root" "a = entry t (PX 0 va)" using a(2) by (rule pt_slot_SomeE)
  then show "a \<noteq> 0" using page_ok_entry [of kend t] pt_wf_pages [OF a(1), of t]
    by (simp add: pt_pages_def)
qed

text \<open>A table is determined by the bytes of its pages.\<close>

lemma pt_frame:
  assumes "pt_wf kend m root" "\<And>p a. p \<in> pt_pages m root \<Longrightarrow> in_page p a \<Longrightarrow> m' a = m a"
  shows "same_root m m' root" "pt_get m' root va = pt_get m root va"
proof -
  show sr: "same_root m m' root"
    unfolding same_root_def
    by (intro allI impI load32_entry_cong) (auto intro: assms(2) [of root] simp: pt_pages_def)
  show "pt_get m' root va = pt_get m root va"
  proof (cases "pt_slot m root va")
    case (Some a)
    then obtain t where t0: "t \<in> pt_tables m root" and t: "a = entry t (PX 0 va)"
      by (rule pt_slot_SomeE)
    have "t \<in> pt_pages m root" using t0 by (simp add: pt_pages_def)
    with t have "load32 m' a = load32 m a"
      using load32_entry_cong [of "PX 0 va" t m' m] assms(2) by simp
    then show ?thesis by (simp add: pt_get_def same_root_slot [OF sr] Some)
  qed (simp add: pt_get_def same_root_slot [OF sr])
qed

text \<open>Two virtual addresses share a slot exactly when they are on one page.\<close>

lemma pt_slot_inj:
  assumes "pt_wf kend m root" "pt_slot m root va = Some a" "pt_slot m root vb = Some b"
  shows "PGROUNDDOWN va = PGROUNDDOWN vb \<longleftrightarrow>
    PTE2PA (load32 m (entry root (PX 1 va))) = PTE2PA (load32 m (entry root (PX 1 vb))) \<and>
    PX 0 va = PX 0 vb"
proof -
  have "pte_valid (load32 m (entry root (PX 1 va)))" "pte_valid (load32 m (entry root (PX 1 vb)))"
    using assms(2,3) by (auto elim: pt_slot_SomeE)
  then have "PTE2PA (load32 m (entry root (PX 1 va))) = PTE2PA (load32 m (entry root (PX 1 vb))) \<longleftrightarrow>
      PX 1 va = PX 1 vb"
    using assms(1) by (auto simp: pt_wf_def)
  then show ?thesis using same_page_iff [of va vb] by simp
qed

lemma pt_store:
  assumes "pt_wf kend m root" "pt_slot m root va = Some a"
  shows "same_root m (store32 m a v) root"
    "pt_get (store32 m a v) root vb =
      (if PGROUNDDOWN vb = PGROUNDDOWN va then v else pt_get m root vb)"
proof -
  obtain t where t: "t \<in> pt_tables m root" "a = entry t (PX 0 va)"
    "t = PTE2PA (load32 m (entry root (PX 1 va)))"
    using assms(2) by (elim pt_slot_SomeE)
  have al: "aligned t" "aligned root" "t \<noteq> root"
    using assms(1) t(1) pt_wf_pages [OF assms(1)] pt_wf_tables_root [OF assms(1)]
    by (auto simp: pt_pages_def page_ok_def)
  show sr: "same_root m (store32 m a v) root"
    using al by (simp add: same_root_def t(2) load32_store32_entry)
  show "pt_get (store32 m a v) root vb =
      (if PGROUNDDOWN vb = PGROUNDDOWN va then v else pt_get m root vb)"
  proof (cases "pt_slot m root vb")
    case None
    have "PGROUNDDOWN vb \<noteq> PGROUNDDOWN va"
      using None assms(2) same_page_iff [of vb va] by (auto simp: pt_slot_def Let_def split: if_splits)
    then show ?thesis by (simp add: pt_get_def same_root_slot [OF sr] None)
  next
    case (Some b)
    then obtain u where u: "u \<in> pt_tables m root" "b = entry u (PX 0 vb)"
      "u = PTE2PA (load32 m (entry root (PX 1 vb)))"
      by (elim pt_slot_SomeE)
    have "aligned u" using u(3) by simp
    then have "load32 (store32 m a v) b = (if t = u \<and> PX 0 va = PX 0 vb then v else load32 m b)"
      using al(1) by (simp add: t(2) u(2) load32_store32_entry)
    moreover have "t = u \<and> PX 0 va = PX 0 vb \<longleftrightarrow> PGROUNDDOWN vb = PGROUNDDOWN va"
      using pt_slot_inj [OF assms(1,2) Some] t(3) u(3) by auto
    ultimately show ?thesis by (simp add: pt_get_def same_root_slot [OF sr] Some)
  qed
qed

lemma pt_store_other:
  assumes "pt_wf kend m root" "pt_slot m root va = Some a" "\<forall>p \<in> pt_pages m root. \<not> in_page p b"
  shows "store32 m a v b = m b"
proof -
  obtain t where t: "t \<in> pt_tables m root" "a = entry t (PX 0 va)"
    using assms(2) by (elim pt_slot_SomeE)
  then have "aligned t" "\<not> in_page t b"
    using assms(1,3) pt_wf_pages [OF assms(1)] by (auto simp: pt_pages_def page_ok_def)
  then show ?thesis by (simp add: t(2) store32_entry_other)
qed

section \<open>walk\<close>

definition vm_inv :: "u32 \<Rightarrow> kstate \<Rightarrow> u32 \<Rightarrow> bool" where
  "vm_inv kend st root \<longleftrightarrow>
    kmem_inv kend st \<and> pt_wf kend (phys st) root \<and>
    pt_pages (phys st) root \<inter> free_pages kend st = {}"

text \<open>The pages that operations on a table may write: its own and the free ones.\<close>

definition vm_own :: "u32 \<Rightarrow> kstate \<Rightarrow> u32 \<Rightarrow> u32 set" where
  "vm_own kend st root = pt_pages (phys st) root \<union> free_pages kend st"

definition outside :: "u32 set \<Rightarrow> u32 \<Rightarrow> bool" where
  "outside P b \<longleftrightarrow> (\<forall>p \<in> P. \<not> in_page p b)"

lemma outside_mono: "P \<subseteq> Q \<Longrightarrow> outside Q b \<Longrightarrow> outside P b"
  by (auto simp: outside_def)

lemma free_pages_ok: "kmem_inv kend st \<Longrightarrow> p \<in> free_pages kend st \<Longrightarrow> page_ok kend p"
  by (rule kmem.frees_valid)

lemma walk_noalloc:
  "walk st root va False = (if va \<ge> MAXVA then Inl (Panic ''walk'')
    else Inr (st, case pt_slot (phys st) root va of None \<Rightarrow> 0 | Some a \<Rightarrow> a))"
  by (simp add: walk_def walk_loop.simps pt_slot_def pte_valid_def Let_def)

lemma flag_bit_iffs:
  "bit PTE_V n \<longleftrightarrow> n = 0" "bit PTE_R n \<longleftrightarrow> n = 1" "bit PTE_W n \<longleftrightarrow> n = 2"
  "bit PTE_X n \<longleftrightarrow> n = 3" "bit PTE_U n \<longleftrightarrow> n = 4"
proof -
  have e: "bit ((2 :: u32) ^ k) n \<longleftrightarrow> n = k" if "k < 32" for k
    using that by (auto simp: bit_exp_iff)
  show "bit PTE_V n \<longleftrightarrow> n = 0" "bit PTE_R n \<longleftrightarrow> n = 1" "bit PTE_W n \<longleftrightarrow> n = 2"
    "bit PTE_X n \<longleftrightarrow> n = 3" "bit PTE_U n \<longleftrightarrow> n = 4"
    using e [of 0] e [of 1] e [of 2] e [of 3] e [of 4]
    by (simp_all add: PTE_V_def PTE_R_def PTE_W_def PTE_X_def PTE_U_def)
qed

lemma pte_valid_bit: "pte_valid v \<longleftrightarrow> bit v 0"
  by (simp add: pte_valid_def PTE_V_def and_one_eq bit_0 odd_iff_mod_2_eq_one)

lemma pte_valid_leaf [simp]: "pte_valid (x OR PTE_V)"
  by (simp add: pte_valid_bit bit_or_iff flag_bit_iffs)

lemma pte_valid_leaf2 [simp]: "pte_valid (x OR y OR PTE_V)"
  by (simp add: pte_valid_bit bit_or_iff flag_bit_iffs)

lemma flag_bits_V: "flag_bits PTE_V"
  by (simp add: flag_bits_def PTE_V_def)

lemma table_entry_not_leaf: "(PA2PTE p OR PTE_V) AND (PTE_R OR PTE_W OR PTE_X) = 0"
  by (rule bit_word_eqI) (auto simp: bit_and_iff bit_or_iff PA2PTE_bit flag_bit_iffs)

text \<open>Adding an empty second-level table on a page \<open>p\<close> that is not yet part of the table.\<close>

lemma pt_add_table:
  assumes wf: "pt_wf kend m root" and p: "page_ok kend p" "p \<notin> pt_pages m root"
    and none: "pt_slot m root va = None"
    and m': "m' = store32 (memset m p 0 PGSIZE) (entry root (PX 1 va)) (PA2PTE p OR PTE_V)"
  shows "pt_wf kend m' root" "pt_pages m' root = insert p (pt_pages m root)"
    "pt_slot m' root va = Some (entry p (PX 0 va))" "pt_get m' root vb = pt_get m root vb"
    "outside (insert p (pt_pages m root)) b \<Longrightarrow> m' b = m b"
proof -
  let ?i = "PX 1 va" and ?v = "PA2PTE p OR PTE_V"
  have al: "aligned root" "aligned p" using wf p(1) by (auto simp: pt_wf_def page_ok_def)
  have ne: "p \<noteq> root" "p \<notin> pt_tables m root" using p(2) by (auto simp: pt_pages_def)
  have vp: "PTE2PA ?v = p" by (rule PTE2PA_PA2PTE [OF al(2) flag_bits_V])
  have inv0: "\<not> pte_valid (load32 m (entry root ?i))"
    using none by (simp add: pt_slot_def Let_def split: if_splits)
  have keep: "load32 (memset m p 0 PGSIZE) (entry q i) = load32 m (entry q i)"
    if "q \<noteq> p" "aligned q" "unat i < 1024" for q i
    using that al(2) by (intro load32_entry_cong memset_page_other) (auto dest: in_page_unique)
  have ld: "load32 m' (entry q i) = (if q = root \<and> i = ?i then ?v
      else if q = p then 0 else load32 m (entry q i))" if "aligned q" "unat i < 1024" for q i
    using that al ne by (auto simp: m' load32_store32_entry keep load32_zeroed_page)
  have ldr: "load32 m' (entry root i) = (if i = ?i then ?v else load32 m (entry root i))"
    if "unat i < 1024" for i
    using ld [OF al(1) that] ne by simp
  have old: "PTE2PA (load32 m (entry root i)) \<noteq> p"
    if "unat i < 1024" "pte_valid (load32 m (entry root i))" for i
    using that ne(2) by (auto simp: pt_tables_def)
  show "pt_wf kend m' root"
    using wf p(1) ne(1) old table_entry_not_leaf
    by (auto simp: pt_wf_def ldr vp split: if_splits)
  have "{i. unat i < 1024 \<and> pte_valid (load32 m' (entry root i))} =
      insert ?i {i. unat i < 1024 \<and> pte_valid (load32 m (entry root i))}"
    using ldr by auto
  moreover have "(\<lambda>i. PTE2PA (load32 m' (entry root i))) `
        {i. unat i < 1024 \<and> pte_valid (load32 m (entry root i))} = pt_tables m root"
    unfolding pt_tables_def using ldr inv0 by (intro image_cong) auto
  ultimately have "pt_tables m' root = insert p (pt_tables m root)"
    by (simp add: pt_tables_def [of m'] ldr vp)
  then show "pt_pages m' root = insert p (pt_pages m root)"
    by (auto simp: pt_pages_def)
  show "pt_slot m' root va = Some (entry p (PX 0 va))"
    by (simp add: pt_slot_def ldr [of ?i, simplified] vp)
  show "pt_get m' root vb = pt_get m root vb"
  proof (cases "PX 1 vb = ?i")
    case True
    then have "pt_slot m' root vb = Some (entry p (PX 0 vb))" "pt_slot m root vb = None"
      using inv0 ldr [of ?i] by (simp_all add: pt_slot_def vp)
    then show ?thesis using ne(1) by (simp add: pt_get_def ld al)
  next
    case False
    then have s: "pt_slot m' root vb = pt_slot m root vb"
      using ldr [of "PX 1 vb"] by (simp add: pt_slot_def)
    show ?thesis
    proof (cases "pt_slot m root vb")
      case (Some c)
      then obtain t where t: "t \<in> pt_tables m root" "c = entry t (PX 0 vb)"
        by (rule pt_slot_SomeE)
      then have "aligned t" "t \<noteq> p" "t \<noteq> root"
        using ne(2) pt_wf_pages [OF wf] pt_wf_tables_root [OF wf]
        by (auto simp: pt_pages_def page_ok_def)
      then show ?thesis by (simp add: pt_get_def s Some t(2) ld)
    qed (simp add: pt_get_def s)
  qed
  show "m' b = m b" if "outside (insert p (pt_pages m root)) b"
    using that al(1) by (simp add: m' outside_def pt_pages_def store32_entry_other memset_page_other)
qed

lemma walk_alloc:
  assumes inv: "vm_inv kend st root" and va: "va < MAXVA" and w: "walk st root va True = Inr (st', a)"
  obtains (full) "a = 0" "st' = st" "free_pages kend st = {}" "pt_slot (phys st) root va = None"
  | (slot) "a \<noteq> 0" "vm_inv kend st' root" "pt_slot (phys st') root va = Some a"
    "\<And>vb. pt_get (phys st') root vb = pt_get (phys st) root vb"
    "vm_own kend st' root = vm_own kend st root" "free_pages kend st' \<subseteq> free_pages kend st"
    "\<And>b. outside (vm_own kend st root) b \<Longrightarrow> phys st' b = phys st b"
proof (cases "pt_slot (phys st) root va")
  case (Some c)
  then have "st' = st" "a = c"
    using w va by (auto simp: walk_def walk_loop.simps pt_slot_def pte_valid_def Let_def
        split: if_splits)
  moreover have "c \<noteq> 0" using inv pt_slot_nonzero [OF _ Some, of kend] by (simp add: vm_inv_def)
  ultimately show ?thesis using Some inv by (intro slot) simp_all
next
  case None
  obtain st1 p where k: "kalloc st = (st1, p)" by fastforce
  have e: "(st', a) = (if p = 0 then (st1, 0) else
      (st1\<lparr>phys := store32 (memset (phys st1) p 0 PGSIZE) (entry root (PX 1 va))
        (PA2PTE p OR PTE_V)\<rparr>, entry p (PX 0 va)))"
    using w va None k
    by (simp add: walk_def walk_loop.simps pt_slot_def pte_valid_def Let_def not_le
        split: if_splits)
  have i: "kmem_inv kend st" "pt_wf kend (phys st) root"
      "pt_pages (phys st) root \<inter> free_pages kend st = {}"
    using inv by (auto simp: vm_inv_def)
  show ?thesis
    using i(1) k
  proof (cases rule: kmem.alloc_cases)
    case f: full
    then show ?thesis using e None by (intro full) simp_all
  next
    case pg: page
    have ph: "phys st1 = memset (phys st) p 5 PGSIZE"
      using k pg(2) by (auto simp: kalloc_def Let_def split: if_splits)
    have ok: "page_ok kend p" by (rule free_pages_ok [OF i(1) pg(1)])
    have np: "p \<notin> pt_pages (phys st) root" using i(3) pg(1) by auto
    define m' where
      "m' = store32 (memset (phys st) p 0 PGSIZE) (entry root (PX 1 va)) (PA2PTE p OR PTE_V)"
    note add = pt_add_table [OF i(2) ok np None m'_def]
    have st': "st' = st1\<lparr>phys := m'\<rparr>" "a = entry p (PX 0 va)"
      using e pg(2) ph by (simp_all add: m'_def memset_memset)
    have root: "page_ok kend root" "root \<notin> free_pages kend st1" "p \<notin> free_pages kend st1"
      using i(2,3) pg(4) by (auto simp: pt_wf_def pt_pages_def)
    have "touch_pages {p, root} st1 st'"
      using root(1) by (auto simp: touch_pages_def st'(1) m'_def ph store32_entry_other
          memset_page_other page_ok_aligned)
    then have km: "kmem_inv kend st'" "free_pages kend st' = free_pages kend st1"
      using kmem.touch_ok [OF pg(3), of "{p, root}" st'] root ok by auto
    have own: "vm_own kend st' root = vm_own kend st root"
      using pg(1,4) km(2) add(2) by (auto simp: vm_own_def st'(1))
    have vi: "vm_inv kend st' root"
      unfolding vm_inv_def using km add(1,2) i(3) pg(4) by (auto simp: st'(1))
    show ?thesis
    proof (rule slot)
      show "a \<noteq> 0" unfolding st'(2) by (rule page_ok_entry [OF ok]) simp
      show "vm_inv kend st' root" by (rule vi)
      show "pt_slot (phys st') root va = Some a" using add(3) by (simp add: st')
      show "pt_get (phys st') root vb = pt_get (phys st) root vb" for vb
        using add(4) by (simp add: st')
      show "vm_own kend st' root = vm_own kend st root" by (rule own)
      show "free_pages kend st' \<subseteq> free_pages kend st" using km(2) pg(4) by auto
      show "phys st' b = phys st b" if "outside (vm_own kend st root) b" for b
        using add(5) [of b] that pg(1) by (auto simp: st' outside_def vm_own_def)
    qed
  qed
qed

section \<open>mappages\<close>

lemma aligned_below_MAXVA: "aligned a \<Longrightarrow> a < MAXVA"
proof -
  assume "aligned a"
  then have "unat a \<noteq> 4294967295" by (auto simp: aligned_unat)
  moreover have "unat a < 4294967296" by simp
  ultimately show ?thesis
    by (simp add: word_less_nat_alt MAXVA_def del: unat_u32_lt)
qed

lemma aligned_add_PGSIZE [simp]: "aligned a \<Longrightarrow> aligned (a + PGSIZE)"
  by (simp add: aligned_unat PGSIZE_def unat_word_ariths mod_mod_cancel)

text \<open>
  The pages \<open>a, a + 4096, \<dots>\<close>: for an aligned \<open>v\<close>, being among the first \<open>j\<close> of them is a
  bound on the distance from \<open>a\<close>.
\<close>

lemma range_step:
  assumes "aligned a" "aligned v" "Suc j \<le> 1048576"
  shows "unat (v - a) < 4096 * Suc j \<longleftrightarrow> v = a \<or> unat (v - (a + PGSIZE)) < 4096 * j"
    "v \<noteq> a \<Longrightarrow> unat (v - (a + PGSIZE)) = unat (v - a) - 4096"
    "v = a \<Longrightarrow> \<not> unat (v - (a + PGSIZE)) < 4096 * j"
proof -
  have *: "unat (v - (a + PGSIZE)) = unat (v - a) - 4096 \<and> 4096 \<le> unat (v - a)" if "v \<noteq> a"
  proof -
    have "4096 \<le> unat (v - a)" using aligned_dist(1) [OF assms(1,2)] that by auto
    moreover have e: "v - (a + PGSIZE) = (v - a) - 4096" by (simp add: PGSIZE_def)
    ultimately show ?thesis unfolding e by (simp add: unat_sub word_le_nat_alt)
  qed
  then show "v \<noteq> a \<Longrightarrow> unat (v - (a + PGSIZE)) = unat (v - a) - 4096" by blast
  show nl: "v = a \<Longrightarrow> \<not> unat (v - (a + PGSIZE)) < 4096 * j"
    using assms(3) dist_swap [of a "a + PGSIZE"] by (simp add: PGSIZE_def)
  show "unat (v - a) < 4096 * Suc j \<longleftrightarrow> v = a \<or> unat (v - (a + PGSIZE)) < 4096 * j"
    using * by (cases "v = a") auto
qed

text \<open>The map with the first \<open>j\<close> pages from \<open>a\<close> on sent to the pages from \<open>pa\<close> on.\<close>

definition map_pages :: "u32 \<Rightarrow> u32 \<Rightarrow> u32 \<Rightarrow> nat \<Rightarrow> (u32 \<Rightarrow> u32) \<Rightarrow> u32 \<Rightarrow> u32" where
  "map_pages a pa perm j g vb =
    (if unat (PGROUNDDOWN vb - a) < 4096 * j
     then PA2PTE (pa + (PGROUNDDOWN vb - a)) OR perm OR PTE_V else g vb)"

lemma map_pages_0 [simp]: "map_pages a pa perm 0 g = g"
  by (rule ext) (simp add: map_pages_def)

lemma map_pages_Suc:
  assumes "aligned a" "Suc j \<le> 1048576"
  shows "map_pages a pa perm (Suc j) g =
    map_pages (a + PGSIZE) (pa + PGSIZE) perm j
      (\<lambda>vb. if PGROUNDDOWN vb = a then PA2PTE pa OR perm OR PTE_V else g vb)"
proof (rule ext)
  fix vb
  let ?v = "PGROUNDDOWN vb"
  have e: "pa + PGSIZE + (?v - (a + PGSIZE)) = pa + (?v - a)" by simp
  show "map_pages a pa perm (Suc j) g vb =
    map_pages (a + PGSIZE) (pa + PGSIZE) perm j
      (\<lambda>vb. if PGROUNDDOWN vb = a then PA2PTE pa OR perm OR PTE_V else g vb) vb"
    using range_step [OF assms(1) aligned_PGROUNDDOWN [of vb] assms(2)]
    unfolding map_pages_def e by (cases "?v = a") simp_all
qed

text \<open>What an operation on a table may do to the rest of the state.\<close>

definition vm_step :: "u32 \<Rightarrow> u32 \<Rightarrow> kstate \<Rightarrow> kstate \<Rightarrow> bool" where
  "vm_step kend root st st' \<longleftrightarrow>
    vm_inv kend st' root \<and> vm_own kend st' root = vm_own kend st root \<and>
    free_pages kend st' \<subseteq> free_pages kend st \<and>
    (\<forall>b. outside (vm_own kend st root) b \<longrightarrow> phys st' b = phys st b)"

lemma vm_step_refl: "vm_inv kend st root \<Longrightarrow> vm_step kend root st st"
  by (simp add: vm_step_def)

lemma vm_step_trans:
  "vm_step kend root st st1 \<Longrightarrow> vm_step kend root st1 st2 \<Longrightarrow> vm_step kend root st st2"
  by (auto simp: vm_step_def)

lemma vm_stepD:
  assumes "vm_step kend root st st'"
  shows "vm_inv kend st' root" "vm_own kend st' root = vm_own kend st root"
    "free_pages kend st' \<subseteq> free_pages kend st"
    "outside (vm_own kend st root) b \<Longrightarrow> phys st' b = phys st b"
  using assms by (simp_all add: vm_step_def)

text \<open>Storing into a slot of the table.\<close>

lemma vm_store:
  assumes inv: "vm_inv kend st root" and slot: "pt_slot (phys st) root va = Some a"
    and st': "st' = st\<lparr>phys := store32 (phys st) a v\<rparr>"
  shows "vm_step kend root st st'" "free_pages kend st' = free_pages kend st"
    "pt_get (phys st') root vb =
      (if PGROUNDDOWN vb = PGROUNDDOWN va then v else pt_get (phys st) root vb)"
proof -
  have i: "kmem_inv kend st" "pt_wf kend (phys st) root"
      "pt_pages (phys st) root \<inter> free_pages kend st = {}"
    using inv by (auto simp: vm_inv_def)
  note ps = pt_store [OF i(2) slot, of v]
  have "touch_pages (pt_pages (phys st) root) st st'"
    unfolding touch_pages_def using pt_store_other [OF i(2) slot] by (simp add: st')
  then have km: "kmem_inv kend st'" "free_pages kend st' = free_pages kend st"
    using kmem.touch_ok [OF i(1,3)] pt_wf_pages [OF i(2)] by blast+
  have pg: "pt_pages (phys st') root = pt_pages (phys st) root"
    using same_root_pages [OF ps(1)] by (simp add: st')
  have "vm_inv kend st' root"
    unfolding vm_inv_def using km same_root_wf [OF ps(1) i(2)] pg i(3) by (simp add: st')
  then show "vm_step kend root st st'"
    using km(2) pg pt_store_other [OF i(2) slot]
    by (auto simp: vm_step_def vm_own_def st' outside_def)
  show "free_pages kend st' = free_pages kend st" by (rule km(2))
  show "pt_get (phys st') root vb =
      (if PGROUNDDOWN vb = PGROUNDDOWN va then v else pt_get (phys st) root vb)"
    using ps(2) by (simp add: st')
qed

lemma pages_between:
  assumes "aligned a" "aligned b"
  shows "unat (b - a) = 4096 * (unat (b - a) div 4096)"
proof (cases "a = b")
  case False
  then have "unat (b - a) mod 4096 = 0" using aligned_dist(3) [OF assms] by blast
  then show ?thesis using dvd_mult_div_cancel [of 4096 "unat (b - a)"] by auto
qed simp

text \<open>One round of the loop: out of memory, or the page at \<open>a\<close> is mapped.\<close>

lemma mappages_round:
  assumes inv: "vm_inv kend st root" and a: "aligned a"
    and un: "\<not> pte_valid (pt_get (phys st) root a)"
  obtains (full) "mappages_loop (Suc f) st root a b pa perm = Inr (st, - 1)"
      "free_pages kend st = {}"
  | (mapped) st2 where "vm_step kend root st st2"
      "mappages_loop (Suc f) st root a b pa perm =
        (if a = b then Inr (st2, 0)
         else mappages_loop f st2 root (a + PGSIZE) b (pa + PGSIZE) perm)"
      "pt_get (phys st2) root = (\<lambda>vb. if PGROUNDDOWN vb = a then PA2PTE pa OR perm OR PTE_V
        else pt_get (phys st) root vb)"
proof -
  have va: "a < MAXVA" by (rule aligned_below_MAXVA [OF a])
  obtain st1 pte where w: "walk st root a True = Inr (st1, pte)"
    using va by (cases "walk_loop 1 st root a True") (simp add: walk_def not_le)
  show ?thesis
    using inv va w
  proof (cases rule: walk_alloc)
    case f: full
    then have "mappages_loop (Suc f) st root a b pa perm = Inr (st, - 1)"
      using w by (simp add: mappages_loop.simps)
    then show ?thesis using f(3) by (rule full)
  next
    case s: slot
    have l: "load32 (phys st1) pte = pt_get (phys st) root a"
      using s(4) [of a] s(3) by (simp add: pt_get_def)
    let ?st2 = "st1\<lparr>phys := store32 (phys st1) pte (PA2PTE pa OR perm OR PTE_V)\<rparr>"
    note st = vm_store [OF s(2,3), of ?st2 "PA2PTE pa OR perm OR PTE_V", OF refl]
    have "vm_step kend root st st1" using s by (simp add: vm_step_def)
    then have "vm_step kend root st ?st2" using st(1) by (rule vm_step_trans)
    moreover have "mappages_loop (Suc f) st root a b pa perm =
        (if a = b then Inr (?st2, 0)
         else mappages_loop f ?st2 root (a + PGSIZE) b (pa + PGSIZE) perm)"
      using w s(1) l un by (simp add: mappages_loop.simps pte_valid_def Let_def)
    moreover have "pt_get (phys ?st2) root = (\<lambda>vb. if PGROUNDDOWN vb = a
        then PA2PTE pa OR perm OR PTE_V else pt_get (phys st) root vb)"
      using st(3) s(4) a by (auto simp: fun_eq_iff)
    ultimately show ?thesis by (rule mapped)
  qed
qed

lemma mappages_loop_spec:
  assumes "vm_inv kend st root" "aligned a" "aligned b" "unat (b - a) = 4096 * n" "n < fuel"
    "\<And>va. unat (PGROUNDDOWN va - a) \<le> 4096 * n \<Longrightarrow> \<not> pte_valid (pt_get (phys st) root va)"
  shows "\<exists>st' j. mappages_loop fuel st root a b pa perm =
      Inr (st', if j = Suc n then 0 else - 1) \<and> j \<le> Suc n \<and> vm_step kend root st st' \<and>
      (j \<noteq> Suc n \<longrightarrow> free_pages kend st' = {}) \<and>
      pt_get (phys st') root = map_pages a pa perm j (pt_get (phys st) root)"
  using assms
proof (induction n arbitrary: st a pa fuel)
  case (0 st a pa fuel)
  then have ab: "b = a" by (simp add: unat_eq_zero)
  obtain f where f: "fuel = Suc f" using 0(5) by (cases fuel) auto
  have un: "\<not> pte_valid (pt_get (phys st) root a)" using 0(2) 0(6) [of a] by simp
  show ?case
  proof (rule mappages_round [OF 0(1,2) un, of f b pa perm])
    assume "mappages_loop (Suc f) st root a b pa perm = Inr (st, - 1)" "free_pages kend st = {}"
    then show ?thesis using 0(1) f by (intro exI [of _ st] exI [of _ 0]) (simp add: vm_step_refl)
  next
    fix st2
    assume *: "vm_step kend root st st2"
      "mappages_loop (Suc f) st root a b pa perm = (if a = b then Inr (st2, 0)
         else mappages_loop f st2 root (a + PGSIZE) b (pa + PGSIZE) perm)"
      "pt_get (phys st2) root = (\<lambda>vb. if PGROUNDDOWN vb = a then PA2PTE pa OR perm OR PTE_V
        else pt_get (phys st) root vb)"
    then show ?thesis
      using ab f 0(2) by (intro exI [of _ st2] exI [of _ 1]) (simp add: map_pages_Suc)
  qed
next
  case (Suc n)
  have "4096 * Suc n < 4294967296" unfolding Suc(5) [symmetric] by simp
  then have n: "Suc n < 1048576" by simp
  obtain f where f: "fuel = Suc f" "n < f" using Suc(6) by (cases fuel) auto
  have ne: "b \<noteq> a" using Suc(5) by auto
  have b: "unat (b - (a + PGSIZE)) = 4096 * n"
    using range_step(2) [OF Suc(3,4), of n] n ne Suc(5) by simp
  have un: "\<not> pte_valid (pt_get (phys st) root a)" using Suc(3) Suc(7) [of a] by simp
  show ?case
  proof (rule mappages_round [OF Suc(2,3) un, of f b pa perm])
    assume "mappages_loop (Suc f) st root a b pa perm = Inr (st, - 1)" "free_pages kend st = {}"
    then show ?thesis using Suc(2) f(1) by (intro exI [of _ st] exI [of _ 0]) (simp add: vm_step_refl)
  next
    fix st2
    assume *: "vm_step kend root st st2"
      "mappages_loop (Suc f) st root a b pa perm = (if a = b then Inr (st2, 0)
         else mappages_loop f st2 root (a + PGSIZE) b (pa + PGSIZE) perm)"
      "pt_get (phys st2) root = (\<lambda>vb. if PGROUNDDOWN vb = a then PA2PTE pa OR perm OR PTE_V
        else pt_get (phys st) root vb)"
    have un2: "\<not> pte_valid (pt_get (phys st2) root va)"
      if va: "unat (PGROUNDDOWN va - (a + PGSIZE)) \<le> 4096 * n" for va
    proof -
      note r = range_step [OF Suc(3) aligned_PGROUNDDOWN [of va], of "Suc n"]
      have "PGROUNDDOWN va \<noteq> a" using r(3) n va by fastforce
      moreover have "unat (PGROUNDDOWN va - a) \<le> 4096 * Suc n"
        using r(2) n va calculation by simp
      ultimately show ?thesis using *(3) Suc(7) [of va] by simp
    qed
    obtain st' j where "mappages_loop f st2 root (a + PGSIZE) b (pa + PGSIZE) perm =
        Inr (st', if j = Suc n then 0 else - 1)" "j \<le> Suc n" "vm_step kend root st2 st'"
      "j \<noteq> Suc n \<longrightarrow> free_pages kend st' = {}"
      "pt_get (phys st') root = map_pages (a + PGSIZE) (pa + PGSIZE) perm j (pt_get (phys st2) root)"
      using Suc.IH [OF vm_stepD(1) [OF *(1)] aligned_add_PGSIZE [OF Suc(3)] Suc(4) b f(2) un2]
      by blast
    then show ?thesis
      using *(1-3) f(1) ne n vm_step_trans [OF *(1)] map_pages_Suc [OF Suc(3), of j]
      by (intro exI [of _ st'] exI [of _ "Suc j"]) auto
  qed
qed

end
