(* ===== verification/Vm_User.thy ===== *)
theory Vm_User
  imports Vm_Map
begin

text \<open>
  User address spaces: a page table together with the pages of physical memory it owns. For a
  set \<open>S\<close> of virtual pages, \<open>us_inv\<close> says that each is mapped to a page of its own that is
  neither free nor part of the table. The theory shows what growing, shrinking, copying and
  freeing an address space do to the table, to the contents of its pages and to the free pages.
\<close>

section \<open>Address spaces\<close>

definition leaf_pa :: "mem \<Rightarrow> u32 \<Rightarrow> u32 \<Rightarrow> u32" where
  "leaf_pa m root a = PTE2PA (pt_get m root a)"

definition us_inv :: "u32 \<Rightarrow> kstate \<Rightarrow> u32 \<Rightarrow> u32 set \<Rightarrow> bool" where
  "us_inv kend st root S \<longleftrightarrow>
    vm_inv kend st root \<and>
    (\<forall>a \<in> S. aligned a \<and> pte_valid (pt_get (phys st) root a) \<and>
      PTE_FLAGS (pt_get (phys st) root a) \<noteq> PTE_V \<and>
      page_ok kend (leaf_pa (phys st) root a) \<and>
      leaf_pa (phys st) root a \<notin> vm_own kend st root) \<and>
    inj_on (leaf_pa (phys st) root) S"

definition page_range :: "u32 \<Rightarrow> nat \<Rightarrow> u32 set" where
  "page_range a j = {v. aligned v \<and> unat (v - a) < 4096 * j}"

lemma page_range_0 [simp]: "page_range a 0 = {}"
  by (simp add: page_range_def)

lemma page_range_Suc:
  assumes "aligned a" "Suc j \<le> 1048576"
  shows "page_range a (Suc j) = insert a (page_range (a + PGSIZE) j)"
    "a \<notin> page_range (a + PGSIZE) j"
proof -
  show "page_range a (Suc j) = insert a (page_range (a + PGSIZE) j)"
    unfolding page_range_def using range_step(1) [OF assms(1) _ assms(2)] assms(1) by blast
  show "a \<notin> page_range (a + PGSIZE) j"
    unfolding page_range_def using range_step(3) [OF assms(1,1,2)] by blast
qed

lemma aligned_add_mult: "aligned a \<Longrightarrow> aligned (a + PGSIZE * i)"
proof -
  assume "aligned a"
  then have "4096 dvd unat a" by (auto simp: aligned_unat)
  moreover have "4096 dvd unat (PGSIZE * i)"
    by (simp add: PGSIZE_def unat_word_ariths dvd_mod)
  moreover have "(4096 :: nat) dvd 2 ^ 32" by simp
  ultimately have "4096 dvd unat (a + PGSIZE * i)"
    by (simp only: unat_word_ariths(1)) (simp add: dvd_mod)
  then show ?thesis by (simp add: aligned_unat)
qed

lemma us_inv_vm: "us_inv kend st root S \<Longrightarrow> vm_inv kend st root"
  by (simp add: us_inv_def)

lemma us_inv_subset: "us_inv kend st root S \<Longrightarrow> T \<subseteq> S \<Longrightarrow> us_inv kend st root T"
  by (auto simp: us_inv_def intro: inj_on_subset)

text \<open>The pages an address space owns are outside everything the operations on it may write.\<close>

lemma vm_own_ok: "vm_inv kend st root \<Longrightarrow> p \<in> vm_own kend st root \<Longrightarrow> page_ok kend p"
  by (auto simp: vm_inv_def vm_own_def dest: pt_wf_pages free_pages_ok)

lemma page_outside:
  assumes "aligned p" "p \<notin> P" "\<And>q. q \<in> P \<Longrightarrow> aligned q" "in_page p b"
  shows "outside P b"
  unfolding outside_def using assms in_page_unique [of p _ b] by blast

lemma leaf_outside:
  assumes "us_inv kend st root S" "a \<in> S" "in_page (leaf_pa (phys st) root a) b"
  shows "outside (vm_own kend st root) b"
  using assms vm_own_ok [OF us_inv_vm [OF assms(1)]]
  by (intro page_outside [of "leaf_pa (phys st) root a"]) (auto simp: us_inv_def page_ok_def)

section \<open>Writing a page that the table does not use\<close>

lemma vm_other_page:
  assumes inv: "vm_inv kend st root" and p: "aligned p" "p \<notin> pt_pages (phys st) root"
    and out: "\<And>b. \<not> in_page p b \<Longrightarrow> m' b = phys st b"
  shows "pt_wf kend m' root" "pt_pages m' root = pt_pages (phys st) root"
    "pt_get m' root va = pt_get (phys st) root va"
proof -
  have wf: "pt_wf kend (phys st) root" using inv by (simp add: vm_inv_def)
  have eq: "m' b = phys st b" if "q \<in> pt_pages (phys st) root" "in_page q b" for q b
    using that out in_page_unique [OF p(1), of q b] pt_wf_pages [OF wf that(1)] p(2)
    by (auto simp: page_ok_def)
  have f: "same_root (phys st) m' root" by (rule pt_frame(1) [OF wf]) (rule eq)
  show "pt_wf kend m' root" by (rule same_root_wf [OF f wf])
  show "pt_pages m' root = pt_pages (phys st) root" by (rule same_root_pages [OF f])
  show "pt_get m' root va = pt_get (phys st) root va" by (rule pt_frame(2) [OF wf]) (rule eq)
qed

lemma vm_write_page:
  assumes inv: "vm_inv kend st root" and p: "page_ok kend p" "p \<notin> vm_own kend st root"
    and "\<forall>b. \<not> in_page p b \<longrightarrow> m' b = phys st b"
  shows "vm_inv kend (st\<lparr>phys := m'\<rparr>) root" "pt_get m' root va = pt_get (phys st) root va"
    "vm_own kend (st\<lparr>phys := m'\<rparr>) root = vm_own kend st root"
    "free_pages kend (st\<lparr>phys := m'\<rparr>) = free_pages kend st"
proof -
  have out: "\<not> in_page p b \<Longrightarrow> m' b = phys st b" for b using assms(4) by blast
  have np: "p \<notin> pt_pages (phys st) root" "p \<notin> free_pages kend st"
    using p(2) by (auto simp: vm_own_def)
  note o = vm_other_page [OF inv page_ok_aligned [OF p(1)] np(1) out]
  have "touch_pages {p} st (st\<lparr>phys := m'\<rparr>)" by (simp add: touch_pages_def out)
  then have km: "kmem_inv kend (st\<lparr>phys := m'\<rparr>)" "free_pages kend (st\<lparr>phys := m'\<rparr>) = free_pages kend st"
    using kmem.touch_ok [of kend st "{p}" "st\<lparr>phys := m'\<rparr>"] inv p(1) np(2)
    by (auto simp: vm_inv_def)
  show "vm_inv kend (st\<lparr>phys := m'\<rparr>) root"
    using inv km o(1,2) by (simp add: vm_inv_def)
  show "pt_get m' root va = pt_get (phys st) root va" by (rule o(3))
  show "vm_own kend (st\<lparr>phys := m'\<rparr>) root = vm_own kend st root"
    using km(2) o(2) by (simp add: vm_own_def)
  show "free_pages kend (st\<lparr>phys := m'\<rparr>) = free_pages kend st" by (rule km(2))
qed

lemma vm_kalloc:
  assumes inv: "vm_inv kend st root" and k: "kalloc st = (st1, p)" and p: "p \<noteq> 0"
  shows "vm_inv kend st1 root" "pt_get (phys st1) root va = pt_get (phys st) root va"
    "p \<in> free_pages kend st" "page_ok kend p" "free_pages kend st1 = free_pages kend st - {p}"
    "vm_own kend st1 root = vm_own kend st root - {p}"
    "\<not> in_page p b \<Longrightarrow> phys st1 b = phys st b"
proof -
  have i: "kmem_inv kend st" "pt_pages (phys st) root \<inter> free_pages kend st = {}"
    using inv by (auto simp: vm_inv_def)
  have ph: "phys st1 = memset (phys st) p 5 PGSIZE"
    using k p by (auto simp: kalloc_def Let_def split: if_splits)
  then show out: "\<not> in_page p b \<Longrightarrow> phys st1 b = phys st b" for b
    by (simp add: memset_page_other)
  have a: "p \<in> free_pages kend st" "kmem_inv kend st1" "free_pages kend st1 = free_pages kend st - {p}"
    by (rule kmem.alloc_cases [OF i(1) k]; use p in simp)+
  show ok: "page_ok kend p" by (rule free_pages_ok [OF i(1) a(1)])
  have np: "p \<notin> pt_pages (phys st) root" using a(1) i(2) by auto
  note o = vm_other_page [OF inv page_ok_aligned [OF ok] np out]
  show "vm_inv kend st1 root" unfolding vm_inv_def using a o i(2) by auto
  show "pt_get (phys st1) root va = pt_get (phys st) root va" by (rule o(3))
  show "p \<in> free_pages kend st" "free_pages kend st1 = free_pages kend st - {p}" by (fact a)+
  show "vm_own kend st1 root = vm_own kend st root - {p}"
    using a(3) o(2) np by (auto simp: vm_own_def)
qed

lemma vm_kfree:
  assumes inv: "vm_inv kend st root" and p: "page_ok kend p" "p \<notin> vm_own kend st root"
  obtains st1 where "kfree kend st p = Inr st1" "vm_inv kend st1 root"
    "\<And>va. pt_get (phys st1) root va = pt_get (phys st) root va"
    "\<And>va. pt_slot (phys st1) root va = pt_slot (phys st) root va"
    "free_pages kend st1 = insert p (free_pages kend st)"
    "vm_own kend st1 root = insert p (vm_own kend st root)"
    "\<And>b. \<not> in_page p b \<Longrightarrow> phys st1 b = phys st b"
proof -
  have np: "p \<notin> pt_pages (phys st) root" "p \<notin> free_pages kend st"
    using p(2) by (auto simp: vm_own_def)
  obtain ps where ps: "kmem_list kend st ps" using inv by (auto simp: vm_inv_def kmem_inv_def)
  then have "p \<notin> set ps" using np(2) by (simp add: free_pages_list)
  from kfree_page [OF ps p(1) this] obtain st1 where k: "kfree kend st p = Inr st1"
    "kmem_list kend st1 (p # ps)" "\<And>a. \<not> in_page p a \<Longrightarrow> phys st1 a = phys st a" by blast
  note o = vm_other_page [OF inv page_ok_aligned [OF p(1)] np(1) k(3)]
  have wf: "pt_wf kend (phys st) root" using inv by (simp add: vm_inv_def)
  have "phys st1 b = phys st b" if "q \<in> pt_pages (phys st) root" "in_page q b" for q b
    using that k(3) in_page_unique [of p q b] pt_wf_pages [OF wf that(1)] p(1) np(1)
    by (auto simp: page_ok_def)
  then have sl: "pt_slot (phys st1) root va = pt_slot (phys st) root va" for va
    using same_root_slot [OF pt_frame(1) [OF wf]] by blast
  have fr: "free_pages kend st1 = insert p (free_pages kend st)"
    using free_pages_list [OF k(2)] free_pages_list [OF ps] by simp
  have km: "kmem_inv kend st1" using k(2) by (auto simp: kmem_inv_def)
  show ?thesis
  proof (rule that [OF k(1) _ o(3) sl fr _ k(3)])
    show "vm_inv kend st1 root" using km fr o(1,2) inv np(1) by (auto simp: vm_inv_def)
    show "vm_own kend st1 root = insert p (vm_own kend st root)"
      using fr o(2) by (auto simp: vm_own_def)
  qed
qed

section \<open>Unmapping\<close>

lemma pt_get_slot: "pte_valid (pt_get m root va) \<Longrightarrow> \<exists>a. pt_slot m root va = Some a"
  by (cases "pt_slot m root va") (auto simp: pt_get_def pte_valid_bit)

text \<open>The effect of one round of \<^verbatim>\<open>uvmunmap\<close> with \<^verbatim>\<open>do_free\<close>, and of the whole loop.\<close>

definition unmapped :: "u32 \<Rightarrow> u32 \<Rightarrow> u32 set \<Rightarrow> kstate \<Rightarrow> kstate \<Rightarrow> bool" where
  "unmapped kend root U st st' \<longleftrightarrow>
    (\<forall>va. pt_get (phys st') root va =
      (if PGROUNDDOWN va \<in> U then 0 else pt_get (phys st) root va)) \<and>
    free_pages kend st' = free_pages kend st \<union> leaf_pa (phys st) root ` U \<and>
    vm_own kend st' root = vm_own kend st root \<union> leaf_pa (phys st) root ` U \<and>
    (\<forall>b. outside (vm_own kend st root \<union> leaf_pa (phys st) root ` U) b \<longrightarrow> phys st' b = phys st b)"

lemma unmap_page:
  assumes us: "us_inv kend st root S" and a: "a \<in> S" and slot: "pt_slot (phys st) root a = Some sl"
  obtains st1 where "kfree kend st (leaf_pa (phys st) root a) = Inr st1"
    "us_inv kend (st1\<lparr>phys := store32 (phys st1) sl 0\<rparr>) root (S - {a})"
    "unmapped kend root {a} st (st1\<lparr>phys := store32 (phys st1) sl 0\<rparr>)"
proof -
  let ?p = "leaf_pa (phys st) root a"
  have vi: "vm_inv kend st root" by (rule us_inv_vm [OF us])
  have p: "page_ok kend ?p" "?p \<notin> vm_own kend st root" "aligned a"
    using us a by (auto simp: us_inv_def)
  from vm_kfree [OF vi p(1,2)] obtain st1 where k: "kfree kend st ?p = Inr st1"
    "vm_inv kend st1 root" "\<And>va. pt_get (phys st1) root va = pt_get (phys st) root va"
    "\<And>va. pt_slot (phys st1) root va = pt_slot (phys st) root va"
    "free_pages kend st1 = insert ?p (free_pages kend st)"
    "vm_own kend st1 root = insert ?p (vm_own kend st root)"
    "\<And>b. \<not> in_page ?p b \<Longrightarrow> phys st1 b = phys st b" by blast
  let ?st2 = "st1\<lparr>phys := store32 (phys st1) sl 0\<rparr>"
  have "pt_slot (phys st1) root a = Some sl" using k(4) slot by simp
  note s = vm_store [OF k(2) this refl, of 0]
  note d = vm_stepD [OF s(1)]
  have get: "pt_get (phys ?st2) root va = (if PGROUNDDOWN va = a then 0 else pt_get (phys st) root va)"
    for va using s(3) k(3) p(3) by simp
  have lf: "leaf_pa (phys ?st2) root c = leaf_pa (phys st) root c" if "c \<in> S - {a}" for c
    using that us get [of c] by (auto simp: leaf_pa_def us_inv_def)
  have own: "vm_own kend ?st2 root = insert ?p (vm_own kend st root)" using d(2) k(6) by simp
  have "us_inv kend ?st2 root (S - {a})"
    unfolding us_inv_def
  proof (intro conjI ballI)
    show "vm_inv kend ?st2 root" by (rule d(1))
    show "inj_on (leaf_pa (phys ?st2) root) (S - {a})"
    proof -
      have "inj_on (leaf_pa (phys st) root) (S - {a})"
        using us by (auto simp: us_inv_def intro: inj_on_diff)
      then show ?thesis
        using inj_on_cong [of "S - {a}" "leaf_pa (phys ?st2) root" "leaf_pa (phys st) root"] lf
        by blast
    qed
    fix c
    assume c: "c \<in> S - {a}"
    then have "leaf_pa (phys st) root c \<noteq> ?p" using us a by (auto simp: us_inv_def inj_on_def)
    then show "leaf_pa (phys ?st2) root c \<notin> vm_own kend ?st2 root"
      using us c lf own by (auto simp: us_inv_def)
    show "aligned c" using us c by (auto simp: us_inv_def)
    then show "pte_valid (pt_get (phys ?st2) root c)" "PTE_FLAGS (pt_get (phys ?st2) root c) \<noteq> PTE_V"
      "page_ok kend (leaf_pa (phys ?st2) root c)"
      using us c lf get [of c] by (auto simp: us_inv_def)
  qed
  moreover have "unmapped kend root {a} st ?st2"
    unfolding unmapped_def
  proof (intro conjI allI impI)
    show "free_pages kend ?st2 = free_pages kend st \<union> leaf_pa (phys st) root ` {a}"
      using s(2) k(5) by simp
    fix b
    assume "outside (vm_own kend st root \<union> leaf_pa (phys st) root ` {a}) b"
    then have o: "outside (vm_own kend st1 root) b" "\<not> in_page ?p b"
      using k(6) by (auto simp: outside_def)
    then show "phys ?st2 b = phys st b" using d(4) k(7) by simp
  qed (use get own in auto)
  ultimately show ?thesis using k(1) by (intro that)
qed

lemma unmapped_trans:
  assumes "unmapped kend root U st st1" "unmapped kend root V st1 st2" "U \<inter> V = {}"
    "\<And>a. a \<in> V \<Longrightarrow> aligned a"
  shows "unmapped kend root (U \<union> V) st st2"
proof -
  have lf: "leaf_pa (phys st1) root ` V = leaf_pa (phys st) root ` V"
    using assms by (intro image_cong) (auto simp: unmapped_def leaf_pa_def)
  have o: "outside (vm_own kend st1 root \<union> leaf_pa (phys st) root ` V) b"
      "outside (vm_own kend st root \<union> leaf_pa (phys st) root ` U) b"
    if "outside (vm_own kend st root \<union> leaf_pa (phys st) root ` (U \<union> V)) b" for b
    using that assms(1) by (auto simp: unmapped_def outside_def)
  show ?thesis
    unfolding unmapped_def
  proof (intro conjI allI impI)
    show "phys st2 b = phys st b"
      if "outside (vm_own kend st root \<union> leaf_pa (phys st) root ` (U \<union> V)) b" for b
      using o [OF that] assms(1,2) unfolding unmapped_def lf by simp
  qed (use assms(1,2) in \<open>simp_all add: unmapped_def lf image_Un Un_assoc\<close>)
qed

lemma unmapped_refl: "unmapped kend root {} st st"
  by (simp add: unmapped_def)

lemma uvmunmap_loop_spec:
  assumes "us_inv kend st root S" "aligned va" "unat n - unat i = j" "i \<le> n"
    "page_range (va + PGSIZE * i) j \<subseteq> S" "j \<le> 1048576"
  shows "\<exists>st'. uvmunmap_loop kend st root va n True i = Inr st' \<and>
    us_inv kend st' root (S - page_range (va + PGSIZE * i) j) \<and>
    unmapped kend root (page_range (va + PGSIZE * i) j) st st'"
  using assms
proof (induction j arbitrary: st i S)
  case 0
  then have "\<not> i < n" by (simp add: word_less_nat_alt)
  then show ?case using 0 by (subst uvmunmap_loop.simps) (simp add: unmapped_refl)
next
  case (Suc j)
  let ?a = "va + PGSIZE * i"
  have i: "i < n" "unat (i + 1) = Suc (unat i)"
    using Suc(4) by (auto simp: word_less_nat_alt intro!: unat_Suc_step [of i n])
  have al: "aligned ?a" by (rule aligned_add_mult [OF Suc(3)])
  note pr = page_range_Suc [OF al Suc(7)]
  have a: "?a \<in> S" using Suc(6) pr(1) by blast
  have v: "pte_valid (pt_get (phys st) root ?a)" "PTE_FLAGS (pt_get (phys st) root ?a) \<noteq> PTE_V"
    using Suc(2) a by (auto simp: us_inv_def)
  obtain sl where sl: "pt_slot (phys st) root ?a = Some sl" using pt_get_slot [OF v(1)] by blast
  have "pt_wf kend (phys st) root" using Suc(2) by (simp add: us_inv_def vm_inv_def)
  then have w: "walk st root ?a False = Inr (st, sl)" "sl \<noteq> 0"
    using sl aligned_below_MAXVA [OF al] pt_slot_nonzero [OF _ sl] by (auto simp: walk_noalloc)
  have l: "load32 (phys st) sl = pt_get (phys st) root ?a" using sl by (simp add: pt_get_def)
  from unmap_page [OF Suc(2) a sl] obtain st1 where k: "kfree kend st (leaf_pa (phys st) root ?a) = Inr st1"
    "us_inv kend (st1\<lparr>phys := store32 (phys st1) sl 0\<rparr>) root (S - {?a})"
    "unmapped kend root {?a} st (st1\<lparr>phys := store32 (phys st1) sl 0\<rparr>)" by blast
  let ?st2 = "st1\<lparr>phys := store32 (phys st1) sl 0\<rparr>"
  have step: "uvmunmap_loop kend st root va n True i = uvmunmap_loop kend ?st2 root va n True (i + 1)"
    using i(1) w l v k(1)
    by (subst uvmunmap_loop.simps) (simp add: pte_valid_def leaf_pa_def Let_def)
  have nx: "va + PGSIZE * (i + 1) = ?a + PGSIZE" by (simp add: algebra_simps)
  have "\<exists>st'. uvmunmap_loop kend ?st2 root va n True (i + 1) = Inr st' \<and>
      us_inv kend st' root (S - {?a} - page_range (?a + PGSIZE) j) \<and>
      unmapped kend root (page_range (?a + PGSIZE) j) ?st2 st'"
  proof (rule Suc.IH [OF k(2) Suc(3), of "i + 1", unfolded nx])
    show "unat n - unat (i + 1) = j" using Suc(4) i by simp
    show "i + 1 \<le> n" using i by (simp add: word_le_nat_alt word_less_nat_alt)
    show "page_range (?a + PGSIZE) j \<subseteq> S - {?a}" using Suc(6) pr by blast
    show "j \<le> 1048576" using Suc(7) by simp
  qed
  then obtain st' where st': "uvmunmap_loop kend ?st2 root va n True (i + 1) = Inr st'"
      "us_inv kend st' root (S - {?a} - page_range (?a + PGSIZE) j)"
      "unmapped kend root (page_range (?a + PGSIZE) j) ?st2 st'" by blast
  have "unmapped kend root ({?a} \<union> page_range (?a + PGSIZE) j) st st'"
  proof (rule unmapped_trans [OF k(3) st'(3)])
    show "{?a} \<inter> page_range (?a + PGSIZE) j = {}" using pr(2) by blast
    show "c \<in> page_range (?a + PGSIZE) j \<Longrightarrow> aligned c" for c by (simp add: page_range_def)
  qed
  then have "unmapped kend root (page_range ?a (Suc j)) st st'" unfolding pr(1) by simp
  moreover have "S - {?a} - page_range (?a + PGSIZE) j = S - page_range ?a (Suc j)"
    using pr(1) by auto
  ultimately show ?case using st'(1,2) step by auto
qed

text \<open>The virtual pages of a process of size \<open>sz\<close>.\<close>

definition upages :: "u32 \<Rightarrow> u32 set" where
  "upages sz = {a. aligned a \<and> a < sz}"

text \<open>Sizes up to \<open>2 ^ 32 - 4096\<close> round up without wrapping.\<close>

definition size_ok :: "u32 \<Rightarrow> bool" where
  "size_ok sz \<longleftrightarrow> sz \<le> TRAMPOLINE"

lemma size_ok_unat: "size_ok sz \<longleftrightarrow> unat sz \<le> 4294967296 - 4096"
  by (simp add: size_ok_def layout_defs word_le_nat_alt)

lemma PGROUNDUP_less_iff: "size_ok sz \<Longrightarrow> aligned v \<Longrightarrow> v < PGROUNDUP sz \<longleftrightarrow> v < sz"
  using PGROUNDUP_le_aligned [of sz v] PGROUNDUP_ge [of sz] unfolding size_ok_unat
  by (metis leD leI order.strict_trans2)

lemma upages_PGROUNDUP [simp]: "size_ok sz \<Longrightarrow> upages (PGROUNDUP sz) = upages sz"
  by (auto simp: upages_def PGROUNDUP_less_iff)

lemma upages_diff_range:
  assumes "size_ok old" "size_ok new" "new \<le> old"
  shows "page_range (PGROUNDUP new) (unat ((PGROUNDUP old - PGROUNDUP new) div PGSIZE)) =
    upages old - upages new" "PGROUNDUP new \<le> PGROUNDUP old"
proof -
  let ?o = "PGROUNDUP old" and ?n = "PGROUNDUP new"
  have "new \<le> ?o" using assms(1,3) PGROUNDUP_ge [of old] by (auto simp: size_ok_unat)
  then show no: "?n \<le> ?o"
    using assms(2) PGROUNDUP_le_aligned [of new ?o] by (simp add: size_ok_unat)
  have d: "unat (?o - ?n) = unat ?o - unat ?n" using no by (simp add: word_le_nat_alt dist_base)
  have "4096 * unat ((?o - ?n) div PGSIZE) = unat (?o - ?n)"
    using pages_between [of ?n ?o] by (simp add: unat_div PGSIZE_def)
  then have "unat (v - ?n) < 4096 * unat ((?o - ?n) div PGSIZE) \<longleftrightarrow> ?n \<le> v \<and> v < ?o" for v
  proof (cases "?n \<le> v")
    case True
    then show ?thesis
      using \<open>4096 * _ = _\<close> d by (auto simp: word_le_nat_alt word_less_nat_alt dist_base)
  next
    case False
    then have "unat (v - ?n) = unat v + 4294967296 - unat ?n"
      by (simp add: word_le_nat_alt dist_below)
    moreover have "unat ?o < 4294967296" "unat ?n < 4294967296" by simp_all
    ultimately have "\<not> unat (v - ?n) < 4096 * unat ((?o - ?n) div PGSIZE)"
      using \<open>4096 * _ = _\<close> d by linarith
    then show ?thesis using False by simp
  qed
  moreover have "?n \<le> v \<longleftrightarrow> \<not> v < new" "v < ?o \<longleftrightarrow> v < old" if "aligned v" for v
    using PGROUNDUP_less_iff [OF assms(2) that] PGROUNDUP_less_iff [OF assms(1) that] by auto
  ultimately show "page_range ?n (unat ((?o - ?n) div PGSIZE)) = upages old - upages new"
    by (auto simp: page_range_def upages_def)
qed

lemma uvmdealloc_spec:
  assumes "us_inv kend st root S" "upages old \<subseteq> S" "size_ok old" "new \<le> old"
  shows "\<exists>st'. uvmdealloc kend st root old new = Inr (st', new) \<and>
    us_inv kend st' root (S - (upages old - upages new)) \<and>
    unmapped kend root (upages old - upages new) st st'"
proof (cases "new < old")
  case True
  have sn: "size_ok new" using assms(3,4) by (simp add: size_ok_def)
  let ?n = "(PGROUNDUP old - PGROUNDUP new) div PGSIZE"
  note ud = upages_diff_range [OF assms(3) sn assms(4)]
  show ?thesis
  proof (cases "PGROUNDUP new < PGROUNDUP old")
    case lt: True
    have "unat ?n \<le> 1048576"
      using div_le_mono [of "unat (PGROUNDUP old - PGROUNDUP new)" 4294967296 4096]
      by (simp add: unat_div PGSIZE_def less_imp_le)
    then have "\<exists>st'. uvmunmap_loop kend st root (PGROUNDUP new) ?n True 0 = Inr st' \<and>
        us_inv kend st' root (S - (upages old - upages new)) \<and>
        unmapped kend root (upages old - upages new) st st'"
      using uvmunmap_loop_spec [OF assms(1), of "PGROUNDUP new" ?n 0 "unat ?n"] ud(1) assms(2)
      by auto
    moreover have "uvmunmap kend st root (PGROUNDUP new) ?n True =
        uvmunmap_loop kend st root (PGROUNDUP new) ?n True 0"
      using aligned_PGROUNDUP [of new] by (simp add: uvmunmap_def aligned_def)
    ultimately show ?thesis using True lt by (auto simp: uvmdealloc_def Let_def)
  next
    case False
    then have "PGROUNDUP old = PGROUNDUP new" using ud(2) by simp
    then have e: "upages old - upages new = {}" using ud(1) by simp
    show ?thesis unfolding e using True False assms(1) by (auto simp: uvmdealloc_def unmapped_refl)
  qed
next
  case False
  then have "old = new" using assms(4) by simp
  then show ?thesis using assms(1) by (simp add: uvmdealloc_def unmapped_refl)
qed

section \<open>Growing\<close>

lemma mappages_page:
  assumes inv: "vm_inv kend st root" and a: "aligned a"
    and un: "\<not> pte_valid (pt_get (phys st) root a)"
  obtains (full) st' where "mappages st root a PGSIZE pa perm = Inr (st', - 1)"
      "vm_step kend root st st'" "pt_get (phys st') root = pt_get (phys st) root"
  | (mapped) st' where "mappages st root a PGSIZE pa perm = Inr (st', 0)"
      "vm_step kend root st st'"
      "pt_get (phys st') root = (\<lambda>vb. if PGROUNDDOWN vb = a then PA2PTE pa OR perm OR PTE_V
        else pt_get (phys st) root vb)"
proof -
  have "in_page a (a + PGSIZE - 1)" by (simp add: in_page_def PGSIZE_def)
  then have last: "PGROUNDDOWN (a + PGSIZE - 1) = a" using a by (simp add: in_page_iff)
  have e: "mappages st root a PGSIZE pa perm = mappages_loop (Suc 1048575) st root a a pa perm"
    using a last by (simp add: mappages_def)
  show ?thesis
    using inv a un
  proof (cases rule: mappages_round [where f = 1048575 and b = a and pa = pa and perm = perm])
    case f: full
    then show ?thesis using e inv by (intro full) (simp_all add: vm_step_refl)
  next
    case (mapped st2)
    then show ?thesis using e by (intro that(2)) simp_all
  qed
qed

text \<open>Storage for one more page: allocate \<open>p\<close>, fill it, map it at \<open>a\<close>, or undo the allocation.\<close>

lemma us_grow:
  assumes us: "us_inv kend st root S" and k: "kalloc st = (st1, p)" and p0: "p \<noteq> 0"
    and m2: "\<forall>b. \<not> in_page p b \<longrightarrow> m2 b = phys st1 b"
    and a: "aligned a" and un: "\<not> pte_valid (pt_get (phys st) root a)"
    and perm: "flag_bits perm" "perm OR PTE_V \<noteq> PTE_V"
  obtains (full) st3 st4 where
      "mappages (st1\<lparr>phys := m2\<rparr>) root a PGSIZE p perm = Inr (st3, - 1)"
      "kfree kend st3 p = Inr st4" "us_inv kend st4 root S"
      "pt_get (phys st4) root = pt_get (phys st) root"
      "vm_own kend st4 root = vm_own kend st root"
      "\<And>b. outside (vm_own kend st root) b \<Longrightarrow> phys st4 b = phys st b"
  | (grown) st3 where
      "mappages (st1\<lparr>phys := m2\<rparr>) root a PGSIZE p perm = Inr (st3, 0)"
      "us_inv kend st3 root (insert a S)"
      "pt_get (phys st3) root = (\<lambda>vb. if PGROUNDDOWN vb = a then PA2PTE p OR perm OR PTE_V
        else pt_get (phys st) root vb)"
      "leaf_pa (phys st3) root a = p" "p \<in> free_pages kend st"
      "vm_own kend st root = insert p (vm_own kend st3 root)"
      "free_pages kend st3 \<subseteq> free_pages kend st"
      "\<And>b. outside (vm_own kend st root) b \<Longrightarrow> phys st3 b = phys st b"
      "\<And>b. in_page p b \<Longrightarrow> phys st3 b = m2 b"
proof -
  let ?st2 = "st1\<lparr>phys := m2\<rparr>"
  note ka = vm_kalloc [OF us_inv_vm [OF us] k p0]
  have pn: "p \<notin> vm_own kend st1 root" "p \<in> vm_own kend st root"
    using ka(3,6) by (auto simp: vm_own_def)
  note w = vm_write_page [OF ka(1,4) pn(1) m2]
  have own2: "vm_own kend ?st2 root = vm_own kend st root - {p}" using w(3) ka(6) by simp
  have get2: "pt_get (phys ?st2) root = pt_get (phys st) root"
    using w(2) ka(2) by (auto simp: fun_eq_iff)
  have un2: "\<not> pte_valid (pt_get (phys ?st2) root a)" unfolding get2 by (rule un)
  have al: "q \<in> vm_own kend st root \<Longrightarrow> aligned q" for q
    using vm_own_ok [OF us_inv_vm [OF us]] by (auto simp: page_ok_def)
  have out2: "phys ?st2 b = phys st b" "outside (vm_own kend ?st2 root) b"
    if "outside (vm_own kend st root) b" for b
    using that ka(7) m2 pn(2) own2 by (auto simp: outside_def)
  have inp: "outside (vm_own kend ?st2 root) b" if "in_page p b" for b
    using that own2 al page_ok_aligned [OF ka(4)] by (intro page_outside [of p]) auto
  show ?thesis
    using w(1) a un2
  proof (cases rule: mappages_page [where pa = p and perm = perm])
    case (full st3)
    note d = vm_stepD [OF full(2)]
    have pn3: "p \<notin> vm_own kend st3 root" using d(2) own2 by simp
    from vm_kfree [OF d(1) ka(4) pn3] obtain st4 where f: "kfree kend st3 p = Inr st4"
      "vm_inv kend st4 root" "\<And>va. pt_get (phys st4) root va = pt_get (phys st3) root va"
      "\<And>va. pt_slot (phys st4) root va = pt_slot (phys st3) root va"
      "free_pages kend st4 = insert p (free_pages kend st3)"
      "vm_own kend st4 root = insert p (vm_own kend st3 root)"
      "\<And>b. \<not> in_page p b \<Longrightarrow> phys st4 b = phys st3 b"
      by blast
    have get4: "pt_get (phys st4) root = pt_get (phys st) root"
      using f(3) full(3) get2 by (auto simp: fun_eq_iff)
    have own4: "vm_own kend st4 root = vm_own kend st root" using f(6) d(2) own2 pn(2) by auto
    have "us_inv kend st4 root S"
      using us f(2) unfolding us_inv_def leaf_pa_def get4 own4 by simp
    moreover have "phys st4 b = phys st b" if "outside (vm_own kend st root) b" for b
      using that out2 [OF that] d(4) f(7) pn(2) by (auto simp: outside_def)
    ultimately show ?thesis using full(1) f(1) get4 own4 by (intro that(1))
  next
    case (mapped st3)
    note d = vm_stepD [OF mapped(2)]
    have get3: "pt_get (phys st3) root = (\<lambda>vb. if PGROUNDDOWN vb = a then PA2PTE p OR perm OR PTE_V
        else pt_get (phys st) root vb)"
      using mapped(3) unfolding get2 .
    have own3: "vm_own kend st root = insert p (vm_own kend st3 root)" using d(2) own2 pn(2) by auto
    have fl: "flag_bits (perm OR PTE_V)"
      using perm(1) flag_bits_V unfolding flag_bits_def by (simp add: bit.conj_disj_distrib2)
    have lfa: "leaf_pa (phys st3) root a = p"
      using a PTE2PA_PA2PTE [OF page_ok_aligned [OF ka(4)] fl] by (simp add: leaf_pa_def get3 or.assoc)
    have fla: "PTE_FLAGS (pt_get (phys st3) root a) = perm OR PTE_V"
      using a PTE_FLAGS_PA2PTE [OF fl, of p] by (simp add: get3 or.assoc)
    have old: "c \<noteq> a" "leaf_pa (phys st3) root c = leaf_pa (phys st) root c"
        "pt_get (phys st3) root c = pt_get (phys st) root c" "leaf_pa (phys st) root c \<noteq> p"
      if "c \<in> S" for c
      using that us un pn(2) by (auto simp: us_inv_def leaf_pa_def get3)
    have "us_inv kend st3 root (insert a S)"
      unfolding us_inv_def
    proof (intro conjI ballI)
      show "vm_inv kend st3 root" by (rule d(1))
      have "inj_on (leaf_pa (phys st3) root) S"
        using us old(2) inj_on_cong [of S "leaf_pa (phys st3) root" "leaf_pa (phys st) root"]
        by (auto simp: us_inv_def)
      moreover have "leaf_pa (phys st3) root a \<notin> leaf_pa (phys st3) root ` S"
        unfolding lfa by (rule notI, elim imageE) (use old(2,4) in metis)
      ultimately show "inj_on (leaf_pa (phys st3) root) (insert a S)"
        by (simp add: inj_on_insert image_iff)
      fix c
      assume "c \<in> insert a S"
      then consider "c = a" | "c \<in> S" "c \<noteq> a" by blast
      note cs = this
      show "aligned c" using cs a us by cases (auto simp: us_inv_def)
      show "pte_valid (pt_get (phys st3) root c)"
        using cs by cases (use a us old in \<open>auto simp: us_inv_def get3\<close>)
      show "PTE_FLAGS (pt_get (phys st3) root c) \<noteq> PTE_V"
        using cs by cases (use fla perm(2) us old in \<open>auto simp: us_inv_def\<close>)
      show "page_ok kend (leaf_pa (phys st3) root c)"
        using cs by cases (use lfa ka(4) us old in \<open>auto simp: us_inv_def\<close>)
      show "leaf_pa (phys st3) root c \<notin> vm_own kend st3 root"
        using cs by cases (use lfa us old d(2) own2 in \<open>auto simp: us_inv_def\<close>)
    qed
    moreover have "phys st3 b = phys st b" if "outside (vm_own kend st root) b" for b
      using out2 [OF that] d(4) by simp
    moreover have "phys st3 b = m2 b" if "in_page p b" for b
      using d(4) [OF inp [OF that]] by simp
    moreover have "free_pages kend st3 \<subseteq> free_pages kend st" using d(3) w(4) ka(5) by auto
    ultimately show ?thesis using mapped(1) get3 lfa ka(3) own3 by (intro that(2))
  qed
qed

text \<open>
  The effect of adding pages \<open>A\<close> with the flags \<open>F\<close> and the contents \<open>C\<close> to an address space: they
  come from the free pages, the rest of the table and the contents of every other page stay as
  they were.
\<close>

definition user_perm :: u32 where
  "user_perm = PTE_W OR PTE_X OR PTE_R OR PTE_U"

definition grew :: "u32 \<Rightarrow> u32 \<Rightarrow> u32 set \<Rightarrow> (u32 \<Rightarrow> u32) \<Rightarrow> (u32 \<Rightarrow> u32 \<Rightarrow> u8) \<Rightarrow>
    kstate \<Rightarrow> kstate \<Rightarrow> bool" where
  "grew kend root A F C st st' \<longleftrightarrow>
    (\<forall>va. PGROUNDDOWN va \<notin> A \<longrightarrow> pt_get (phys st') root va = pt_get (phys st) root va) \<and>
    (\<forall>v \<in> A. PTE_FLAGS (pt_get (phys st') root v) = F v \<and>
      (\<forall>k. unat k < 4096 \<longrightarrow> phys st' (leaf_pa (phys st') root v + k) = C v k)) \<and>
    vm_own kend st root = vm_own kend st' root \<union> leaf_pa (phys st') root ` A \<and>
    leaf_pa (phys st') root ` A \<subseteq> free_pages kend st \<and>
    free_pages kend st' \<subseteq> free_pages kend st \<and>
    (\<forall>b. outside (vm_own kend st root) b \<longrightarrow> phys st' b = phys st b)"

abbreviation zeroed :: "u32 \<Rightarrow> u32 \<Rightarrow> u8" where
  "zeroed \<equiv> \<lambda>v k. 0"

abbreviation user_flags :: "u32 \<Rightarrow> u32" where
  "user_flags \<equiv> \<lambda>v. user_perm OR PTE_V"

lemma grew_refl: "grew kend root {} F C st st"
  by (simp add: grew_def)

lemma grew_trans:
  assumes g: "grew kend root A F C st st1" "grew kend root B F C st1 st2" "A \<inter> B = {}"
    and us: "us_inv kend st1 root S" "A \<subseteq> S"
  shows "grew kend root (A \<union> B) F C st st2"
proof -
  have al: "aligned a" if "a \<in> A" for a using that us by (auto simp: us_inv_def)
  have get: "pt_get (phys st2) root a = pt_get (phys st1) root a" if "a \<in> A" for a
  proof -
    have "PGROUNDDOWN a \<notin> B" using that al [OF that] g(3) by auto
    then show ?thesis using g(2) by (simp add: grew_def)
  qed
  then have lf: "leaf_pa (phys st2) root a = leaf_pa (phys st1) root a" if "a \<in> A" for a
    using that by (simp add: leaf_pa_def)
  then have im: "leaf_pa (phys st2) root ` A = leaf_pa (phys st1) root ` A" by (intro image_cong) auto
  have keep: "phys st2 b = phys st1 b" if "a \<in> A" "in_page (leaf_pa (phys st1) root a) b" for a b
    using leaf_outside [OF us(1), of a b] that us(2) g(2) by (auto simp: grew_def)
  have o: "outside (vm_own kend st1 root) b" if "outside (vm_own kend st root) b" for b
    using that g(1) by (auto simp: grew_def outside_def)
  show ?thesis
    unfolding grew_def image_Un im
  proof (intro conjI allI impI ballI)
    fix v
    assume "v \<in> A \<union> B"
    then consider "v \<in> A" | "v \<in> B" by blast
    note cs = this
    show "PTE_FLAGS (pt_get (phys st2) root v) = F v"
      using cs by cases (use g get in \<open>auto simp: grew_def\<close>)
    show "phys st2 (leaf_pa (phys st2) root v + k) = C v k" if "unat k < 4096" for k
      using cs by cases (use g lf keep that in \<open>auto simp: grew_def\<close>)
  next
    show "phys st2 b = phys st b" if "outside (vm_own kend st root) b" for b
      using that o [OF that] g(1,2) by (simp add: grew_def)
  qed (use g(1,2) in \<open>auto simp: grew_def\<close>)
qed

text \<open>The effect of a failed request: the pages \<open>U\<close> are unmapped again.\<close>

definition undone :: "u32 \<Rightarrow> u32 \<Rightarrow> u32 set \<Rightarrow> kstate \<Rightarrow> kstate \<Rightarrow> bool" where
  "undone kend root U st st' \<longleftrightarrow>
    (\<forall>va. pt_get (phys st') root va =
      (if PGROUNDDOWN va \<in> U then 0 else pt_get (phys st) root va)) \<and>
    vm_own kend st' root = vm_own kend st root \<union> leaf_pa (phys st) root ` U \<and>
    (\<forall>b. outside (vm_own kend st root \<union> leaf_pa (phys st) root ` U) b \<longrightarrow> phys st' b = phys st b)"

lemma unmapped_undone: "unmapped kend root U st st' \<Longrightarrow> undone kend root U st st'"
  by (simp add: unmapped_def undone_def)

lemma undone_cong:
  assumes "undone kend root U st1 st'" "pt_get (phys st1) root = pt_get (phys st) root"
    "vm_own kend st1 root = vm_own kend st root"
    "\<And>b. outside (vm_own kend st root) b \<Longrightarrow> phys st1 b = phys st b"
  shows "undone kend root U st st'"
proof -
  have lf: "leaf_pa (phys st1) root = leaf_pa (phys st) root"
    using assms(2) by (simp add: leaf_pa_def fun_eq_iff)
  have "phys st1 b = phys st b" if "outside (vm_own kend st root \<union> Q) b" for b Q
    using that assms(4) by (auto simp: outside_def)
  then show ?thesis using assms(1) unfolding undone_def lf assms(2,3) by simp
qed

lemma undone_grown:
  assumes u: "undone kend root (insert a U) st3 st'"
    and get: "pt_get (phys st3) root = (\<lambda>vb. if PGROUNDDOWN vb = a then w else pt_get (phys st) root vb)"
    and zero: "\<And>va. PGROUNDDOWN va = a \<Longrightarrow> pt_get (phys st) root va = 0"
    and p: "leaf_pa (phys st3) root a = p"
    and own: "vm_own kend st root = insert p (vm_own kend st3 root)"
    and out: "\<And>b. outside (vm_own kend st root) b \<Longrightarrow> phys st3 b = phys st b"
    and U: "a \<notin> U" "\<And>c. c \<in> U \<Longrightarrow> aligned c"
  shows "undone kend root U st st'"
proof -
  have im: "leaf_pa (phys st3) root ` U = leaf_pa (phys st) root ` U"
    using get U by (intro image_cong) (auto simp: leaf_pa_def)
  have own': "vm_own kend st3 root \<union> leaf_pa (phys st3) root ` insert a U =
      vm_own kend st root \<union> leaf_pa (phys st) root ` U"
    using p own im by auto
  have "phys st' b = phys st b"
    if "outside (vm_own kend st root \<union> leaf_pa (phys st) root ` U) b" for b
  proof -
    have "phys st' b = phys st3 b" using u that unfolding undone_def own' by blast
    moreover have "outside (vm_own kend st root) b" using that by (auto simp: outside_def)
    ultimately show ?thesis using out by simp
  qed
  moreover have "pt_get (phys st') root va =
      (if PGROUNDDOWN va \<in> U then 0 else pt_get (phys st) root va)" for va
    using u zero [of va] unfolding undone_def get by auto
  moreover have "vm_own kend st' root = vm_own kend st root \<union> leaf_pa (phys st) root ` U"
    using u unfolding undone_def own' by blast
  ultimately show ?thesis by (simp add: undone_def)
qed

lemma user_perm_ok: "flag_bits user_perm" "user_perm OR PTE_V \<noteq> PTE_V"
  by (simp_all add: user_perm_def flag_bits_def PTE_W_def PTE_X_def PTE_R_def PTE_U_def PTE_V_def)

lemma upages_step:
  assumes "aligned a" "unat a \<le> 4294967296 - 8192"
  shows "upages (a + PGSIZE) = insert a (upages a)" "a \<notin> upages a" "unat (a + PGSIZE) = unat a + 4096"
proof -
  show u: "unat (a + PGSIZE) = unat a + 4096"
    using assms(2) by (simp add: PGSIZE_def unat_word_ariths)
  have "v < a + PGSIZE \<longleftrightarrow> v = a \<or> v < a" if "aligned v" for v
  proof (cases "a \<le> v \<and> v \<noteq> a")
    case True
    then have "4096 \<le> unat (v - a)" using aligned_dist(1) [OF assms(1) that] by auto
    then show ?thesis
      using True u by (auto simp: word_le_nat_alt word_less_nat_alt dist_base)
  next
    case False
    then show ?thesis using u by (auto simp: word_less_nat_alt word_le_nat_alt)
  qed
  then show "upages (a + PGSIZE) = insert a (upages a)" using assms(1) by (auto simp: upages_def)
  show "a \<notin> upages a" by (simp add: upages_def)
qed

lemma kalloc_null: "kalloc st = (st1, 0) \<Longrightarrow> st1 = st"
  by (auto simp: kalloc_def Let_def split: if_splits)

text \<open>Unwinding a failed request down to the size \<open>old\<close>.\<close>

lemma uvmalloc_undo:
  assumes "us_inv kend st root (upages a)" "size_ok a" "old \<le> a"
  shows "\<exists>st'. uvmdealloc kend st root a old = Inr (st', old) \<and> us_inv kend st' root (upages old) \<and>
    undone kend root (upages a - upages old) st st'"
proof -
  have "upages a - (upages a - upages old) = upages old"
    using assms(3) by (auto simp: upages_def)
  then show ?thesis
    using uvmdealloc_spec [OF assms(1) order_refl assms(2,3)] unmapped_undone by auto
qed

definition alloc_result :: "u32 \<Rightarrow> u32 \<Rightarrow> u32 \<Rightarrow> u32 \<Rightarrow> u32 \<Rightarrow> kstate \<Rightarrow> kstate \<times> u32 \<Rightarrow> bool" where
  "alloc_result kend root old a new st r \<longleftrightarrow>
    (case r of (st', v) \<Rightarrow>
      v = new \<and> us_inv kend st' root (upages new) \<and> grew kend root (upages new - upages a) user_flags zeroed st st' \<or>
      v = 0 \<and> us_inv kend st' root (upages old) \<and>
        undone kend root (upages a - upages old) st st')"

text \<open>
  A process cannot be larger than the physical memory, since its pages are its own: a request
  that is too large fails before the loop gets near the top of the address space.
\<close>

lemma div_less_page: "m mod 4096 = 0 \<Longrightarrow> n mod 4096 = 0 \<Longrightarrow> m < n \<Longrightarrow> m div 4096 < n div (4096 :: nat)"
  by (metis div_mult_mod_eq add_0_right mult_less_cancel2)

lemma card_upages:
  assumes "aligned a"
  shows "finite (upages a)" "card (upages a) = unat a div 4096"
proof -
  let ?f = "\<lambda>k. of_nat (4096 * k) :: u32"
  have u: "unat (?f k) = 4096 * k" if "k < unat a div 4096" for k
  proof -
    have "4096 * k < unat a" using that by linarith
    then have "4096 * k < 4294967296" using unat_u32_lt [of a] by linarith
    then show ?thesis by (simp only: unat_of_nat) simp
  qed
  have "bij_betw ?f {..<unat a div 4096} (upages a)"
  proof (rule bij_betw_imageI)
    show "inj_on ?f {..<unat a div 4096}"
      by (rule inj_onI) (metis lessThan_iff mult_left_cancel u zero_neq_numeral)
    show "?f ` {..<unat a div 4096} = upages a"
    proof (intro equalityI subsetI)
      fix v
      assume "v \<in> ?f ` {..<unat a div 4096}"
      then obtain k where k: "v = ?f k" "k < unat a div 4096" by auto
      have "4096 * k < unat a" using k(2) by linarith
      then show "v \<in> upages a"
        using u [OF k(2)] by (simp add: k(1) upages_def aligned_unat word_less_nat_alt del: of_nat_mult)
    next
      fix v
      assume "v \<in> upages a"
      then have v: "unat v mod 4096 = 0" "unat v < unat a"
        by (auto simp: upages_def aligned_unat word_less_nat_alt)
      then have "v = ?f (unat v div 4096)" by (simp add: mult.commute minus_mod_eq_mult_div [symmetric])
      moreover have "unat v div 4096 < unat a div 4096"
        using v assms by (intro div_less_page) (simp_all add: aligned_unat)
      ultimately show "v \<in> ?f ` {..<unat a div 4096}" by (metis imageI lessThan_iff)
    qed
  qed
  then show "finite (upages a)" "card (upages a) = unat a div 4096"
    using bij_betw_finite [of ?f "{..<unat a div 4096}" "upages a"]
      bij_betw_same_card [of ?f "{..<unat a div 4096}" "upages a"] by auto
qed

lemma us_inv_bound:
  assumes "us_inv kend st root (upages a)" "aligned a"
  shows "unat a \<le> unat PHYSTOP"
proof -
  have al: "aligned PHYSTOP" by (simp add: aligned_unat PHYSTOP_unat)
  have "leaf_pa (phys st) root ` upages a \<subseteq> upages PHYSTOP"
    using assms(1) by (auto simp: us_inv_def page_ok_def upages_def)
  moreover have "inj_on (leaf_pa (phys st) root) (upages a)" using assms(1) by (simp add: us_inv_def)
  ultimately have "card (upages a) \<le> card (upages PHYSTOP)"
    using card_inj_on_le card_upages(1) [OF al] by blast
  then have "unat a div 4096 \<le> unat PHYSTOP div 4096" using card_upages(2) assms(2) al by simp
  then show ?thesis
    using div_less_page [of "unat PHYSTOP" "unat a"] assms(2) al
    by (simp only: aligned_unat) (meson not_le)
qed

definition alloc_end :: "u32 \<Rightarrow> u32" where
  "alloc_end new = (if size_ok new then PGROUNDUP new else TRAMPOLINE)"

lemma alloc_end_bound: "unat (alloc_end new) \<le> 4294967296 - 4096"
  by (auto simp: alloc_end_def size_ok_unat PGROUNDUP_unat layout_defs)

lemma uvmalloc_loop_spec:
  assumes "us_inv kend st root (upages a)" "aligned a" "old \<le> a"
    "unat (alloc_end new) = unat a + 4096 * j" "j < fuel"
    "\<And>va. a \<le> PGROUNDDOWN va \<Longrightarrow> PGROUNDDOWN va < new \<Longrightarrow> PGROUNDDOWN va \<le> PHYSTOP \<Longrightarrow>
      pt_get (phys st) root va = 0"
  shows "\<exists>r. uvmalloc_loop fuel kend st root old new a = Inr r \<and>
    alloc_result kend root old a new st r"
  using assms
proof (induction j arbitrary: st a fuel)
  case 0
  have a: "a = alloc_end new" using 0(4) by (simp add: word_unat_eq_iff)
  have "size_ok new"
    using us_inv_bound [OF 0(1,2)] a by (auto simp: alloc_end_def layout_defs split: if_splits)
  then have "\<not> a < new" "upages new = upages a"
    using PGROUNDUP_less_iff [of new a] 0(2) a by (auto simp: alloc_end_def)
  moreover obtain f where "fuel = Suc f" using 0(5) by (cases fuel) auto
  ultimately show ?case
    using 0(1) by (simp add: uvmalloc_loop.simps alloc_result_def grew_refl)
next
  case (Suc j)
  obtain f where f: "fuel = Suc f" "j < f" using Suc(6) by (cases fuel) auto
  have bound: "a \<le> PHYSTOP" using us_inv_bound [OF Suc(2,3)] by (simp add: word_le_nat_alt)
  have "a < alloc_end new" using Suc(5) by (simp add: word_less_nat_alt)
  then have lt: "a < new"
    using PGROUNDUP_less_iff [of new a] Suc(3) by (auto simp: alloc_end_def size_ok_def split: if_splits)
  have small: "unat a \<le> 4294967296 - 8192" using Suc(5) alloc_end_bound [of new] by simp
  then have aok: "size_ok a" by (simp add: size_ok_unat)
  note up = upages_step [OF Suc(3) small]
  note d = uvmalloc_undo [OF _ aok Suc(4)]
  obtain st1 p where k: "kalloc st = (st1, p)" by fastforce
  have zero: "\<And>va. PGROUNDDOWN va = a \<Longrightarrow> pt_get (phys st) root va = 0" using Suc(7) lt bound by auto
  have un: "\<not> pte_valid (pt_get (phys st) root a)"
    using zero [of a] Suc(3) by (simp add: pte_valid_bit)
  show ?case
  proof (cases "p = 0")
    case True
    then have "st1 = st" using k kalloc_null by simp
    moreover obtain st' where "uvmdealloc kend st root a old = Inr (st', old)"
      "us_inv kend st' root (upages old)" "undone kend root (upages a - upages old) st st'"
      using d [OF Suc(2)] by blast
    ultimately show ?thesis
      using k lt True f(1) by (auto simp: uvmalloc_loop.simps alloc_result_def)
  next
    case False
    let ?m = "memset (phys st1) p 0 PGSIZE"
    have m: "\<forall>b. \<not> in_page p b \<longrightarrow> ?m b = phys st1 b" by (simp add: memset_page_other)
    show ?thesis
      using Suc(2) k False m Suc(3) un user_perm_ok
    proof (cases rule: us_grow)
      case (full st3 st4)
      obtain st' where st': "uvmdealloc kend st4 root a old = Inr (st', old)"
        "us_inv kend st' root (upages old)" "undone kend root (upages a - upages old) st4 st'"
        using d [OF full(3)] by blast
      have "undone kend root (upages a - upages old) st st'"
        by (rule undone_cong [OF st'(3) full(4,5,6)])
      then show ?thesis
        using k lt False f(1) full(1,2) st'(1,2)
        by (auto simp: uvmalloc_loop.simps alloc_result_def user_perm_def [symmetric])
    next
      case (grown st3)
      have step: "uvmalloc_loop fuel kend st root old new a =
          uvmalloc_loop f kend st3 root old new (a + PGSIZE)"
        using k lt False f(1) grown(1) by (simp add: uvmalloc_loop.simps user_perm_def [symmetric])
      have us3: "us_inv kend st3 root (upages (a + PGSIZE))" using grown(2) up(1) by simp
      have "\<exists>r. uvmalloc_loop f kend st3 root old new (a + PGSIZE) = Inr r \<and>
          alloc_result kend root old (a + PGSIZE) new st3 r"
      proof (rule Suc.IH [OF us3 aligned_add_PGSIZE [OF Suc(3)] _ _ f(2)])
        show "old \<le> a + PGSIZE" using Suc(4) up(3) by (simp add: word_le_nat_alt)
        show "unat (alloc_end new) = unat (a + PGSIZE) + 4096 * j" using Suc(5) up(3) by simp
        show "pt_get (phys st3) root va = 0"
          if "a + PGSIZE \<le> PGROUNDDOWN va" "PGROUNDDOWN va < new" "PGROUNDDOWN va \<le> PHYSTOP" for va
        proof -
          have "a < PGROUNDDOWN va" using that(1) up(3) by (simp add: word_le_nat_alt word_less_nat_alt)
          then show ?thesis using Suc(7) [of va] that(2,3) by (auto simp: grown(3))
        qed
      qed
      then obtain st' v where r: "uvmalloc_loop f kend st3 root old new (a + PGSIZE) = Inr (st', v)"
        "alloc_result kend root old (a + PGSIZE) new st3 (st', v)" by auto
      have "alloc_result kend root old a new st (st', v)"
      proof -
        consider (ok) "v = new" "us_inv kend st' root (upages new)"
            "grew kend root (upages new - upages (a + PGSIZE)) user_flags zeroed st3 st'"
          | (bad) "v = 0" "us_inv kend st' root (upages old)"
            "undone kend root (upages (a + PGSIZE) - upages old) st3 st'"
          using r(2) by (auto simp: alloc_result_def)
        then show ?thesis
        proof cases
          case ok
          have "PTE_FLAGS (PA2PTE p OR user_perm OR PTE_V) = user_perm OR PTE_V"
            using PTE_FLAGS_PA2PTE [of "user_perm OR PTE_V" p] user_perm_ok(1)
            by (simp add: flag_bits_def user_perm_def PTE_W_def PTE_X_def PTE_R_def PTE_U_def PTE_V_def)
          moreover have "phys st3 b = 0" if "in_page p b" for b
            using grown(9) [OF that] memset_page [OF that, of "phys st1" 0] by simp
          ultimately have g: "grew kend root {a} user_flags zeroed st st3"
            using grown Suc(3) by (auto simp: grew_def)
          have "a \<in> upages new" using lt Suc(3) by (simp add: upages_def)
          moreover have "upages a \<subseteq> upages new" using lt by (auto simp: upages_def)
          ultimately have "upages new - upages a = {a} \<union> (upages new - upages (a + PGSIZE))"
            using up(1,2) by blast
          moreover have "grew kend root ({a} \<union> (upages new - upages (a + PGSIZE))) user_flags zeroed st st'"
            by (rule grew_trans [OF g ok(3) _ us3]) (use up in auto)
          ultimately show ?thesis using ok(1,2) by (simp add: alloc_result_def)
        next
          case bad
          have "a \<notin> upages old" using Suc(4) by (simp add: upages_def not_less)
          then have "upages (a + PGSIZE) - upages old = insert a (upages a - upages old)"
            using up(1) by blast
          then have "undone kend root (upages a - upages old) st st'"
            using bad(3) up(2)
            by (intro undone_grown [OF _ grown(3) zero grown(4,6,8)]) (auto simp: upages_def)
          then show ?thesis using bad(1,2) by (simp add: alloc_result_def)
        qed
      qed
      then show ?thesis using r(1) step by auto
    qed
  qed
qed

lemma uvmalloc_spec:
  assumes us: "us_inv kend st root (upages old)" and ok: "size_ok old" and le: "old \<le> new"
    and zero: "\<And>va. old \<le> PGROUNDDOWN va \<Longrightarrow> PGROUNDDOWN va < new \<Longrightarrow> PGROUNDDOWN va \<le> PHYSTOP \<Longrightarrow>
      pt_get (phys st) root va = 0"
  shows "\<exists>st' r. uvmalloc kend st root old new = Inr (st', r) \<and>
    alloc_result kend root old old new st (st', r)"
proof -
  let ?o = "PGROUNDUP old"
  have o: "old \<le> ?o" using ok PGROUNDUP_ge [of old] by (simp add: size_ok_unat)
  have us': "us_inv kend st root (upages ?o)" using us ok by simp
  have "?o \<le> alloc_end new"
  proof (cases "size_ok new")
    case True
    then show ?thesis using upages_diff_range(2) [OF True ok le] by (simp add: alloc_end_def)
  next
    case False
    then show ?thesis
      using us_inv_bound [OF us'] by (simp add: alloc_end_def word_le_nat_alt layout_defs)
  qed
  moreover have "aligned TRAMPOLINE" by (simp add: layout_defs aligned_unat)
  then have "aligned (alloc_end new)" by (simp add: alloc_end_def)
  then have "unat (alloc_end new - ?o) = 4096 * (unat (alloc_end new - ?o) div 4096)"
    by (intro pages_between) simp_all
  then obtain j where "unat (alloc_end new - ?o) = 4096 * j" by blast
  ultimately have j: "unat (alloc_end new) = unat ?o + 4096 * j"
    by (simp add: dist_base word_le_nat_alt)
  have "4096 * j < 4294967296" using unat_u32_lt [of "alloc_end new"] j by linarith
  then have fuel: "j < 1048577" by simp
  have "\<And>va. ?o \<le> PGROUNDDOWN va \<Longrightarrow> PGROUNDDOWN va < new \<Longrightarrow> PGROUNDDOWN va \<le> PHYSTOP \<Longrightarrow>
      pt_get (phys st) root va = 0"
    using zero o by (meson order_trans)
  from uvmalloc_loop_spec [OF us' aligned_PGROUNDUP order_refl j fuel this]
  obtain st' r where r: "uvmalloc_loop 1048577 kend st root ?o new ?o = Inr (st', r)"
    "alloc_result kend root ?o ?o new st (st', r)" by auto
  have "uvmalloc kend st root old new = Inr (st', r)"
    using r(1) le by (auto simp: uvmalloc_def Let_def)
  then show ?thesis using r(2) ok by (auto simp: alloc_result_def)
qed

end
