(* ===== verification/Vm_Copy.thy ===== *)
theory Vm_Copy
  imports Vm_User
begin

text \<open>
  \<^verbatim>\<open>uvmcopy\<close> (fork's copy of the parent's memory), \<^verbatim>\<open>freewalk\<close> and \<^verbatim>\<open>uvmfree\<close>, and the copies
  between user and kernel memory.
\<close>

section \<open>Copying an address space\<close>

text \<open>The parent's table and pages are disjoint from what operations on the child may write.\<close>

definition copy_src :: "u32 \<Rightarrow> kstate \<Rightarrow> u32 \<Rightarrow> u32 \<Rightarrow> u32 \<Rightarrow> bool" where
  "copy_src kend st old new sz \<longleftrightarrow>
    pt_wf kend (phys st) old \<and>
    (pt_pages (phys st) old \<union> leaf_pa (phys st) old ` upages sz) \<inter> vm_own kend st new = {} \<and>
    (\<forall>a \<in> upages sz. pte_valid (pt_get (phys st) old a) \<and>
      PTE_FLAGS (pt_get (phys st) old a) \<noteq> PTE_V \<and> page_ok kend (leaf_pa (phys st) old a))"

lemma copy_src_frame:
  assumes src: "copy_src kend st old new sz" and vi: "vm_inv kend st new"
    and out: "\<And>b. outside (vm_own kend st new) b \<Longrightarrow> phys st' b = phys st b"
    and own: "vm_own kend st' new \<subseteq> vm_own kend st new"
  shows "copy_src kend st' old new sz" "pt_get (phys st') old va = pt_get (phys st) old va"
    "a \<in> upages sz \<Longrightarrow> in_page (leaf_pa (phys st) old a) b \<Longrightarrow> phys st' b = phys st b"
proof -
  have al: "q \<in> vm_own kend st new \<Longrightarrow> aligned q" for q
    using vm_own_ok [OF vi] by (auto simp: page_ok_def)
  have wf: "pt_wf kend (phys st) old" using src by (simp add: copy_src_def)
  have eq: "phys st' b = phys st b" if "q \<in> pt_pages (phys st) old" "in_page q b" for q b
    using that src al pt_wf_pages [OF wf that(1)]
    by (intro out page_outside [of q]) (auto simp: copy_src_def page_ok_def)
  have sr: "same_root (phys st) (phys st') old" by (rule pt_frame(1) [OF wf]) (rule eq)
  show get: "pt_get (phys st') old va = pt_get (phys st) old va" for va
    by (rule pt_frame(2) [OF wf]) (rule eq)
  show "copy_src kend st' old new sz"
    using src same_root_wf [OF sr wf] same_root_pages [OF sr] own
    unfolding copy_src_def leaf_pa_def get by auto
  show "phys st' b = phys st b" if "a \<in> upages sz" "in_page (leaf_pa (phys st) old a) b"
    using that src al
    by (intro out page_outside [of "leaf_pa (phys st) old a"]) (auto simp: copy_src_def page_ok_def)
qed

lemma flag_bits_FLAGS: "flag_bits (PTE_FLAGS v)"
  by (simp add: flag_bits_def PTE_FLAGS_def and.assoc)

lemma FLAGS_valid: "pte_valid v \<Longrightarrow> PTE_FLAGS v OR PTE_V = PTE_FLAGS v"
  unfolding PTE_FLAGS_def mask10
  by (rule bit_word_eqI) (auto simp: pte_valid_bit bit_or_iff bit_and_iff flag_bit_iffs bit_mask_iff)

lemma upages_0 [simp]: "upages 0 = {}"
  by (simp add: upages_def)

lemma upages_page_range:
  assumes "aligned i"
  shows "page_range 0 (unat (i div PGSIZE)) = upages i" "unat (i div PGSIZE) \<le> 1048576"
proof -
  have "4096 * unat (i div PGSIZE) = unat i"
    using pages_between [of 0 i] assms by (simp add: unat_div PGSIZE_def aligned_unat)
  then show "page_range 0 (unat (i div PGSIZE)) = upages i"
    by (auto simp: page_range_def upages_def word_less_nat_alt)
  show "unat (i div PGSIZE) \<le> 1048576"
    using div_le_mono [of "unat i" 4294967296 4096] by (simp add: unat_div PGSIZE_def less_imp_le)
qed

lemma uvmcopy_err_spec:
  assumes "us_inv kend st new (upages i)" "aligned i"
  shows "\<exists>st'. uvmcopy_err kend st new i = Inr (st', - 1) \<and> us_inv kend st' new {} \<and>
    undone kend new (upages i) st st'"
  using uvmunmap_loop_spec [OF assms(1), of 0 "i div PGSIZE" 0 "unat (i div PGSIZE)"]
    upages_page_range [OF assms(2)] unmapped_undone
  by (auto simp: uvmcopy_err_def uvmunmap_def aligned_def)

lemma memmove_page:
  assumes "page_ok kend p" "page_ok kend q"
  shows "\<not> in_page p b \<Longrightarrow> memmove m p q PGSIZE b = m b"
    "unat k < 4096 \<Longrightarrow> memmove m p q PGSIZE (p + k) = m (q + k)"
proof -
  have "unat q + unat PGSIZE < 4294967296" "unat p + unat PGSIZE < 4294967296"
    using assms by (auto simp: page_ok_def word_less_nat_alt PHYSTOP_unat PGSIZE_def)
  note m = memmove_apply [OF this, of m]
  show "\<not> in_page p b \<Longrightarrow> memmove m p q PGSIZE b = m b"
    using m by (simp add: in_page_def PGSIZE_def)
  show "unat k < 4096 \<Longrightarrow> memmove m p q PGSIZE (p + k) = m (q + k)"
    using m by (simp add: PGSIZE_def)
qed

definition copy_result :: "u32 \<Rightarrow> u32 \<Rightarrow> u32 \<Rightarrow> u32 \<Rightarrow> u32 \<Rightarrow> kstate \<Rightarrow> kstate \<times> int \<Rightarrow> bool" where
  "copy_result kend old new i sz st r \<longleftrightarrow>
    (case r of (st', v) \<Rightarrow>
      v = 0 \<and> us_inv kend st' new (upages sz) \<and>
        grew kend new (upages sz - upages i) (\<lambda>a. PTE_FLAGS (pt_get (phys st) old a))
          (\<lambda>a k. phys st (leaf_pa (phys st) old a + k)) st st' \<or>
      v = - 1 \<and> us_inv kend st' new {} \<and> undone kend new (upages i) st st')"

lemma grew_cong:
  assumes "grew kend root A F C st st'"
    "\<And>v. v \<in> A \<Longrightarrow> F v = F' v" "\<And>v k. v \<in> A \<Longrightarrow> unat k < 4096 \<Longrightarrow> C v k = C' v k"
  shows "grew kend root A F' C' st st'"
  using assms unfolding grew_def by simp

text \<open>Prefixing the copy of one page to the copy of the remaining ones.\<close>

lemma copy_result_step:
  assumes g: "grew kend new {i} (\<lambda>a. PTE_FLAGS (pt_get (phys st) old a))
      (\<lambda>a k. phys st (leaf_pa (phys st) old a + k)) st st3"
    and src: "copy_src kend st old new sz" and vi: "vm_inv kend st new"
    and us3: "us_inv kend st3 new (upages i')"
    and get: "pt_get (phys st3) new =
      (\<lambda>vb. if PGROUNDDOWN vb = i then w else pt_get (phys st) new vb)"
    and zero: "\<And>va. PGROUNDDOWN va = i \<Longrightarrow> pt_get (phys st) new va = 0"
    and p: "leaf_pa (phys st3) new i = p"
    and own: "vm_own kend st new = insert p (vm_own kend st3 new)"
    and out: "\<And>b. outside (vm_own kend st new) b \<Longrightarrow> phys st3 b = phys st b"
    and up: "upages i' = insert i (upages i)" "i \<notin> upages i" and iu: "i \<in> upages sz"
    and r: "copy_result kend old new i' sz st3 (st', r)"
  shows "copy_result kend old new i sz st (st', r)"
proof -
  let ?F = "\<lambda>a. PTE_FLAGS (pt_get (phys st) old a)"
  let ?C = "\<lambda>a k. phys st (leaf_pa (phys st) old a + k)"
  have "vm_own kend st3 new \<subseteq> vm_own kend st new" using own by blast
  note fr = copy_src_frame [OF src vi out this]
  have lf: "leaf_pa (phys st3) old = leaf_pa (phys st) old"
    using fr(2) by (simp add: leaf_pa_def fun_eq_iff)
  consider (ok) "r = 0" "us_inv kend st' new (upages sz)"
      "grew kend new (upages sz - upages i') (\<lambda>a. PTE_FLAGS (pt_get (phys st3) old a))
        (\<lambda>a k. phys st3 (leaf_pa (phys st3) old a + k)) st3 st'"
    | (bad) "r = - 1" "us_inv kend st' new {}" "undone kend new (upages i') st3 st'"
    using r by (auto simp: copy_result_def)
  then show ?thesis
  proof cases
    case ok
    have "grew kend new (upages sz - upages i') ?F ?C st3 st'"
      by (rule grew_cong [OF ok(3)]) (use fr(2,3) lf in auto)
    then have "grew kend new ({i} \<union> (upages sz - upages i')) ?F ?C st st'"
      by (rule grew_trans [OF g _ _ us3]) (use up in auto)
    moreover have "{i} \<union> (upages sz - upages i') = upages sz - upages i"
      using up iu by blast
    ultimately show ?thesis using ok(1,2) by (simp add: copy_result_def)
  next
    case bad
    have "undone kend new (upages i) st st'"
      using bad(3) up by (intro undone_grown [OF _ get zero p own out]) (auto simp: upages_def)
    then show ?thesis using bad(1,2) by (simp add: copy_result_def)
  qed
qed

lemma uvmcopy_loop_spec:
  assumes "us_inv kend st new (upages i)" "copy_src kend st old new sz" "aligned i" "size_ok sz"
    "unat (PGROUNDUP sz) = unat i + 4096 * j" "j < fuel"
    "\<And>va. i \<le> PGROUNDDOWN va \<Longrightarrow> PGROUNDDOWN va < sz \<Longrightarrow> pt_get (phys st) new va = 0"
  shows "\<exists>r. uvmcopy_loop fuel kend st old new sz i = Inr r \<and> copy_result kend old new i sz st r"
  using assms
proof (induction j arbitrary: st i fuel)
  case 0
  then have "i = PGROUNDUP sz" by (simp add: word_unat_eq_iff)
  then have "\<not> i < sz" "upages sz = upages i"
    using PGROUNDUP_less_iff [OF 0(4), of i] 0(3,4) by auto
  moreover obtain f where "fuel = Suc f" using 0(6) by (cases fuel) auto
  ultimately show ?case
    using 0(1) by (simp add: uvmcopy_loop.simps copy_result_def grew_refl)
next
  case (Suc j)
  obtain f where f: "fuel = Suc f" "j < f" using Suc(7) by (cases fuel) auto
  have lt: "i < sz"
    using Suc(6) PGROUNDUP_less_iff [OF Suc(5,4)] by (simp add: word_less_nat_alt)
  have "unat (PGROUNDUP sz) \<le> 4294967296 - 4096"
    using Suc(5) by (simp add: PGROUNDUP_unat size_ok_unat)
  then have small: "unat i \<le> 4294967296 - 8192" using Suc(6) by simp
  note up = upages_step [OF Suc(4) small]
  have iu: "i \<in> upages sz" using lt Suc(4) by (simp add: upages_def)
  let ?v = "pt_get (phys st) old i"
  let ?pa = "leaf_pa (phys st) old i"
  have v: "pte_valid ?v" "PTE_FLAGS ?v \<noteq> PTE_V" "page_ok kend ?pa" "?pa \<notin> vm_own kend st new"
    and wf: "pt_wf kend (phys st) old"
    using Suc(3) iu by (auto simp: copy_src_def)
  obtain sl where sl: "pt_slot (phys st) old i = Some sl" using pt_get_slot [OF v(1)] by blast
  have w: "walk st old i False = Inr (st, sl)" "sl \<noteq> 0" "load32 (phys st) sl = ?v"
    using sl aligned_below_MAXVA [OF Suc(4)] pt_slot_nonzero [OF wf sl]
    by (auto simp: walk_noalloc pt_get_def)
  have zero: "\<And>va. PGROUNDDOWN va = i \<Longrightarrow> pt_get (phys st) new va = 0" using Suc(8) lt by auto
  have un: "\<not> pte_valid (pt_get (phys st) new i)"
    using zero [of i] Suc(4) by (simp add: pte_valid_bit)
  note vi = us_inv_vm [OF Suc(2)]
  note e = uvmcopy_err_spec [OF _ Suc(4)]
  obtain st1 p where k: "kalloc st = (st1, p)" by fastforce
  show ?case
  proof (cases "p = 0")
    case True
    then have "st1 = st" using k kalloc_null by simp
    then show ?thesis
      using k lt True f(1) w v(1) e [OF Suc(2)]
      by (auto simp: uvmcopy_loop.simps copy_result_def pte_valid_def Let_def)
  next
    case False
    note ka = vm_kalloc [OF vi k False]
    let ?m = "memmove (phys st1) p ?pa PGSIZE"
    have m: "\<forall>b. \<not> in_page p b \<longrightarrow> ?m b = phys st1 b"
      using memmove_page(1) [OF ka(4) v(3)] by blast
    have ne: "p \<noteq> ?pa" using ka(3) v(4) by (auto simp: vm_own_def)
    have mp: "?m (p + k) = phys st (?pa + k)" if "unat k < 4096" for k
    proof -
      have "\<not> in_page p (?pa + k)"
        using page_apart [of p ?pa k] ne ka(4) v(3) that by (simp add: page_ok_def in_page_def)
      then show ?thesis using memmove_page(2) [OF ka(4) v(3) that] ka(7) by simp
    qed
    have perm: "flag_bits (PTE_FLAGS ?v)" "PTE_FLAGS ?v OR PTE_V \<noteq> PTE_V"
      using v(2) FLAGS_valid [OF v(1)] by (simp_all add: flag_bits_FLAGS)
    have body: "uvmcopy_loop fuel kend st old new sz i =
        ebind (mappages (st1\<lparr>phys := ?m\<rparr>) new i PGSIZE p (PTE_FLAGS ?v)) (\<lambda>(st, r).
          if r \<noteq> 0 then ebind (kfree kend st p) (\<lambda>st. uvmcopy_err kend st new i)
          else uvmcopy_loop f kend st old new sz (i + PGSIZE))"
      using k lt False f(1) w v(1)
      by (simp add: uvmcopy_loop.simps pte_valid_def Let_def leaf_pa_def)
    show ?thesis
      using Suc(2) k False m Suc(4) un perm
    proof (cases rule: us_grow)
      case (full st3 st4)
      obtain st' where st': "uvmcopy_err kend st4 new i = Inr (st', - 1)"
        "us_inv kend st' new {}" "undone kend new (upages i) st4 st'"
        using e [OF full(3)] by blast
      have "undone kend new (upages i) st st'" by (rule undone_cong [OF st'(3) full(4,5,6)])
      then show ?thesis using body full(1,2) st'(1,2) by (auto simp: copy_result_def)
    next
      case (grown st3)
      have step: "uvmcopy_loop fuel kend st old new sz i = uvmcopy_loop f kend st3 old new sz (i + PGSIZE)"
        using body grown(1) by simp
      have us3: "us_inv kend st3 new (upages (i + PGSIZE))" using grown(2) up(1) by simp
      have own: "vm_own kend st3 new \<subseteq> vm_own kend st new" using grown(6) by blast
      note fr = copy_src_frame [OF Suc(3) vi grown(8) own]
      have "\<exists>r. uvmcopy_loop f kend st3 old new sz (i + PGSIZE) = Inr r \<and>
          copy_result kend old new (i + PGSIZE) sz st3 r"
      proof (rule Suc.IH [OF us3 fr(1) aligned_add_PGSIZE [OF Suc(4)] Suc(5) _ f(2)])
        show "unat (PGROUNDUP sz) = unat (i + PGSIZE) + 4096 * j" using Suc(6) up(3) by simp
        show "pt_get (phys st3) new va = 0"
          if "i + PGSIZE \<le> PGROUNDDOWN va" "PGROUNDDOWN va < sz" for va
        proof -
          have "i < PGROUNDDOWN va" using that(1) up(3) by (simp add: word_le_nat_alt word_less_nat_alt)
          then show ?thesis using Suc(8) [of va] that(2) by (auto simp: grown(3))
        qed
      qed
      then obtain st' r where r: "uvmcopy_loop f kend st3 old new sz (i + PGSIZE) = Inr (st', r)"
        "copy_result kend old new (i + PGSIZE) sz st3 (st', r)" by auto
      have "grew kend new {i} (\<lambda>a. PTE_FLAGS (pt_get (phys st) old a))
          (\<lambda>a k. phys st (leaf_pa (phys st) old a + k)) st st3"
        using grown mp Suc(4) PTE_FLAGS_PA2PTE [OF perm(1), of p]
        by (simp add: grew_def FLAGS_valid [OF v(1)])
      then have "copy_result kend old new i sz st (st', r)"
        by (rule copy_result_step [OF _ Suc(3) vi us3 grown(3) zero grown(4,6,8) up(1,2) iu r(2)])
      then show ?thesis using r(1) step by auto
    qed
  qed
qed

section \<open>Freeing a table\<close>

lemma PX_surj:
  assumes "unat i < 1024" "unat j < 1024"
  shows "\<exists>va. PX 1 va = i \<and> PX 0 va = j"
proof -
  have b: "bit w n \<Longrightarrow> n < 10" if "unat (w :: u32) < 1024" for w n
  proof -
    have "take_bit 10 w = w" using that by (simp add: take_bit_eq_mod word_unat_eq_iff unat_mod)
    then show "bit w n \<Longrightarrow> n < 10" by (metis bit_take_bit_iff)
  qed
  let ?va = "push_bit 22 i OR push_bit 12 j"
  have "PX 1 ?va = i"
    by (rule bit_word_eqI)
      (auto simp: PX_bit bit_or_iff bit_push_bit_iff dest: b [OF assms(1)] b [OF assms(2)])
  moreover have "PX 0 ?va = j"
    by (rule bit_word_eqI)
      (auto simp: PX_bit bit_or_iff bit_push_bit_iff dest: b [OF assms(1)] b [OF assms(2)])
  ultimately show ?thesis by blast
qed

definition no_leaf :: "mem \<Rightarrow> u32 \<Rightarrow> bool" where
  "no_leaf m root \<longleftrightarrow> (\<forall>va. \<not> pte_valid (pt_get m root va))"

lemma no_leaf_table:
  assumes "no_leaf m root" "unat i < 1024" "pte_valid (load32 m (entry root i))" "unat j < 1024"
  shows "\<not> pte_valid (load32 m (entry (PTE2PA (load32 m (entry root i))) j))"
proof -
  obtain va where "PX 1 va = i" "PX 0 va = j" using PX_surj [OF assms(2,4)] by blast
  then have "pt_get m root va = load32 m (entry (PTE2PA (load32 m (entry root i))) j)"
    using assms(3) by (simp add: pt_get_def pt_slot_def)
  then show ?thesis using assms(1) by (simp add: no_leaf_def flip: \<open>pt_get m root va = _\<close>)
qed

text \<open>A page without valid entries is just freed.\<close>

lemma freewalk_empty:
  assumes "\<And>j. unat j < 1024 \<Longrightarrow> \<not> pte_valid (load32 (phys st) (entry t j))"
  shows "freewalk_loop kend child st t i = kfree kend st t"
proof (induction "1024 - unat i" arbitrary: i)
  case 0
  then have "\<not> i < 1024" by (simp add: word_less_nat_alt)
  then show ?case by (subst freewalk_loop.simps) simp
next
  case (Suc n)
  then have i: "i < 1024" "unat (i + 1) = Suc (unat i)"
    by (auto simp: word_less_nat_alt intro!: unat_Suc_step [of i 1024])
  then have "\<not> pte_valid (load32 (phys st) (entry t i))"
    using assms [of i] by (simp add: word_less_nat_alt)
  moreover have "freewalk_loop kend child st t (i + 1) = kfree kend st t"
    using Suc(1) [of "i + 1"] Suc(2) i(2) by simp
  ultimately show ?case
    using i(1) by (subst freewalk_loop.simps) (simp add: pte_valid_def Let_def)
qed

text \<open>Freeing one second-level table and clearing the entry that points to it.\<close>

lemma free_child:
  assumes vi: "vm_inv kend st root" and nl: "no_leaf (phys st) root" and i: "unat i < 1024"
    and v: "pte_valid (load32 (phys st) (entry root i))"
  defines "t \<equiv> PTE2PA (load32 (phys st) (entry root i))"
  obtains st1 where "freewalk 1 kend st t = Inr st1"
    "vm_inv kend (st1\<lparr>phys := store32 (phys st1) (entry root i) 0\<rparr>) root"
    "no_leaf (store32 (phys st1) (entry root i) 0) root"
    "vm_own kend (st1\<lparr>phys := store32 (phys st1) (entry root i) 0\<rparr>) root = vm_own kend st root"
    "\<And>b. outside (vm_own kend st root) b \<Longrightarrow> store32 (phys st1) (entry root i) 0 b = phys st b"
    "\<And>j. unat j < 1024 \<Longrightarrow> load32 (store32 (phys st1) (entry root i) 0) (entry root j) =
      (if j = i then 0 else load32 (phys st) (entry root j))"
proof -
  have inv: "kmem_inv kend st" "pt_wf kend (phys st) root"
      "pt_pages (phys st) root \<inter> free_pages kend st = {}"
    using vi by (auto simp: vm_inv_def)
  have tt: "t \<in> pt_tables (phys st) root" using i v by (auto simp: pt_tables_def t_def)
  then have t: "page_ok kend t" "t \<noteq> root" "t \<notin> free_pages kend st" "t \<in> pt_pages (phys st) root"
    using pt_wf_pages [OF inv(2)] pt_wf_tables_root [OF inv(2)] inv(3) by (auto simp: pt_pages_def)
  have rok: "page_ok kend root" "root \<notin> free_pages kend st"
    using inv(2,3) by (auto simp: pt_wf_def pt_pages_def)
  obtain ps where ps: "kmem_list kend st ps" using inv(1) by (auto simp: kmem_inv_def)
  then have "t \<notin> set ps" using t(3) by (simp add: free_pages_list)
  from kfree_page [OF ps t(1) this] obtain st1 where k: "kfree kend st t = Inr st1"
    "kmem_list kend st1 (t # ps)" "\<And>a. \<not> in_page t a \<Longrightarrow> phys st1 a = phys st a" by blast
  have fw: "freewalk 1 kend st t = Inr st1"
    using freewalk_empty [of st t] no_leaf_table [OF nl i v] k(1)
    by (simp add: freewalk.simps t_def)
  let ?m = "store32 (phys st1) (entry root i) 0"
  have keep: "load32 (phys st1) (entry q j) = load32 (phys st) (entry q j)"
    if "aligned q" "q \<noteq> t" "unat j < 1024" for q j
    using that t(1) k(3) by (intro load32_entry_cong) (auto simp: page_ok_def dest: in_page_unique)
  have ld: "load32 ?m (entry q j) = (if q = root \<and> j = i then 0 else load32 (phys st) (entry q j))"
    if "aligned q" "q \<noteq> t" "unat j < 1024" for q j
    using that rok(1) i keep by (simp add: load32_store32_entry page_ok_def)
  have ldr: "load32 ?m (entry root j) = (if j = i then 0 else load32 (phys st) (entry root j))"
    if "unat j < 1024" for j
    using ld [of root j] that t(2) rok(1) by (simp add: page_ok_def)
  have tab: "{j. unat j < 1024 \<and> pte_valid (load32 ?m (entry root j))} =
      {j. unat j < 1024 \<and> pte_valid (load32 (phys st) (entry root j))} - {i}"
    using ldr by (auto simp: pte_valid_bit split: if_splits)
  have inj: "PTE2PA (load32 (phys st) (entry root j)) \<noteq> t"
    if "unat j < 1024" "pte_valid (load32 (phys st) (entry root j))" "j \<noteq> i" for j
    using inv(2) that i v by (auto simp: pt_wf_def t_def)
  have "pt_tables ?m root = pt_tables (phys st) root - {t}"
    unfolding pt_tables_def tab using ldr inj t_def by auto
  then have pg: "pt_pages ?m root = pt_pages (phys st) root - {t}"
    using t(2) by (auto simp: pt_pages_def)
  have wf: "pt_wf kend ?m root"
    using inv(2) by (auto simp: pt_wf_def ldr pte_valid_bit split: if_splits)
  have "touch_pages {root} st1 (st1\<lparr>phys := ?m\<rparr>)"
    using rok(1) i by (simp add: touch_pages_def store32_entry_other page_ok_def)
  then have km: "kmem_inv kend (st1\<lparr>phys := ?m\<rparr>)"
      "free_pages kend (st1\<lparr>phys := ?m\<rparr>) = insert t (free_pages kend st)"
    using kmem.touch_ok [of kend st1 "{root}" "st1\<lparr>phys := ?m\<rparr>"] rok t(2) k(2)
      free_pages_list [OF k(2)] free_pages_list [OF ps]
    by (auto simp: kmem_inv_def)
  show ?thesis
  proof (rule that [OF fw])
    show "vm_inv kend (st1\<lparr>phys := ?m\<rparr>) root"
      unfolding vm_inv_def using km wf pg inv(3) by auto
    show "vm_own kend (st1\<lparr>phys := ?m\<rparr>) root = vm_own kend st root"
      unfolding vm_own_def using km(2) pg t(4) by auto
    show "no_leaf ?m root"
      unfolding no_leaf_def
    proof
      fix va
      show "\<not> pte_valid (pt_get ?m root va)"
      proof (cases "pt_slot ?m root va")
        case (Some a)
        then have vv: "pte_valid (load32 ?m (entry root (PX 1 va)))" by (rule pt_slot_SomeE)
        then have ne: "PX 1 va \<noteq> i" using ldr [of "PX 1 va"] by (auto simp: pte_valid_bit)
        then have sl: "pt_slot ?m root va = pt_slot (phys st) root va"
          using ldr [of "PX 1 va"] by (simp add: pt_slot_def)
        let ?u = "PTE2PA (load32 (phys st) (entry root (PX 1 va)))"
        have "?u \<noteq> t" using inj [of "PX 1 va"] vv ne ldr [of "PX 1 va"] by simp
        moreover have "?u \<noteq> root"
          using inv(2) vv ne ldr [of "PX 1 va"] by (auto simp: pt_wf_def)
        moreover have "a = entry ?u (PX 0 va)"
          using Some sl by (simp add: pt_slot_def Let_def split: if_splits)
        ultimately have "load32 ?m a = load32 (phys st) a" using ld [of ?u "PX 0 va"] by simp
        then have "pt_get ?m root va = pt_get (phys st) root va"
          using Some sl by (simp add: pt_get_def)
        then show ?thesis using nl by (simp add: no_leaf_def)
      qed (simp add: pt_get_def pte_valid_bit)
    qed
    show "?m b = phys st b" if "outside (vm_own kend st root) b" for b
    proof -
      have "\<not> in_page root b" "\<not> in_page t b"
        using that t(4) by (auto simp: outside_def vm_own_def pt_pages_def)
      then show ?thesis using rok(1) i k(3) by (simp add: store32_entry_other page_ok_def)
    qed
  qed (rule ldr)
qed

lemma freewalk_loop_spec:
  assumes "vm_inv kend st root" "no_leaf (phys st) root"
    "\<And>j. unat j < unat i \<Longrightarrow> \<not> pte_valid (load32 (phys st) (entry root j))"
  shows "\<exists>st'. freewalk_loop kend (freewalk 1 kend) st root i = Inr st' \<and> kmem_inv kend st' \<and>
    free_pages kend st' = vm_own kend st root \<and>
    (\<forall>b. outside (vm_own kend st root) b \<longrightarrow> phys st' b = phys st b)"
  using assms
proof (induction "1024 - unat i" arbitrary: st i)
  case 0
  then have ni: "\<not> i < 1024" by (simp add: word_less_nat_alt)
  have "\<not> pte_valid (load32 (phys st) (entry root j))" if "unat j < 1024" for j
    using 0(1) 0(4) [of j] that by simp
  then have pg: "pt_pages (phys st) root = {root}" by (auto simp: pt_pages_def pt_tables_def)
  have root: "page_ok kend root" "root \<notin> free_pages kend st"
    using 0(2) by (auto simp: vm_inv_def pt_wf_def pt_pages_def)
  obtain ps where ps: "kmem_list kend st ps" using 0(2) by (auto simp: vm_inv_def kmem_inv_def)
  then have "root \<notin> set ps" using root(2) by (simp add: free_pages_list)
  from kfree_page [OF ps root(1) this] obtain st1 where k: "kfree kend st root = Inr st1"
    "kmem_list kend st1 (root # ps)" "\<And>a. \<not> in_page root a \<Longrightarrow> phys st1 a = phys st a" by blast
  have "free_pages kend st1 = vm_own kend st root"
    unfolding vm_own_def pg using free_pages_list [OF k(2)] free_pages_list [OF ps] by simp
  then show ?case
    using ni k by (subst freewalk_loop.simps) (auto simp: kmem_inv_def outside_def vm_own_def pg)
next
  case (Suc n)
  then have i: "i < 1024" "unat (i + 1) = Suc (unat i)" "unat i < 1024"
    by (auto simp: word_less_nat_alt intro!: unat_Suc_step [of i 1024])
  have n: "n = 1024 - unat (i + 1)" using Suc(2) i(2) by simp
  have upto: "j = i \<or> unat j < unat i" if "unat j < unat (i + 1)" for j
    using that i(2) by (auto simp: word_unat_eq_iff)
  show ?case
  proof (cases "pte_valid (load32 (phys st) (entry root i))")
    case True
    from free_child [OF Suc(3,4) i(3) True]
    obtain st1 where c: "freewalk 1 kend st (PTE2PA (load32 (phys st) (entry root i))) = Inr st1"
      "vm_inv kend (st1\<lparr>phys := store32 (phys st1) (entry root i) 0\<rparr>) root"
      "no_leaf (store32 (phys st1) (entry root i) 0) root"
      "vm_own kend (st1\<lparr>phys := store32 (phys st1) (entry root i) 0\<rparr>) root = vm_own kend st root"
      "\<And>b. outside (vm_own kend st root) b \<Longrightarrow> store32 (phys st1) (entry root i) 0 b = phys st b"
      "\<And>j. unat j < 1024 \<Longrightarrow> load32 (store32 (phys st1) (entry root i) 0) (entry root j) =
        (if j = i then 0 else load32 (phys st) (entry root j))" by blast
    have "load32 (phys st) (entry root i) AND (PTE_R OR PTE_W OR PTE_X) = 0"
      using Suc(3) True i(3) by (simp add: vm_inv_def pt_wf_def)
    then have step: "freewalk_loop kend (freewalk 1 kend) st root i = freewalk_loop kend (freewalk 1 kend)
        (st1\<lparr>phys := store32 (phys st1) (entry root i) 0\<rparr>) root (i + 1)"
      using i(1) True c(1) by (subst freewalk_loop.simps) (simp add: pte_valid_def Let_def)
    have "\<not> pte_valid (load32 (store32 (phys st1) (entry root i) 0) (entry root j))"
      if "unat j < unat (i + 1)" for j
      using upto [OF that] c(6) [of j] Suc(5) [of j] i(3) by (auto simp: pte_valid_bit split: if_splits)
    then show ?thesis
      using Suc(1) [OF n c(2)] c(3-5) unfolding step by simp
  next
    case False
    then have "freewalk_loop kend (freewalk 1 kend) st root i =
        freewalk_loop kend (freewalk 1 kend) st root (i + 1)"
      using i(1) by (subst freewalk_loop.simps) (simp add: pte_valid_def Let_def)
    moreover have "\<not> pte_valid (load32 (phys st) (entry root j))" if "unat j < unat (i + 1)" for j
      using upto [OF that] False Suc(5) by blast
    ultimately show ?thesis using Suc(1) [OF n Suc(3,4)] by simp
  qed
qed

lemma uvmfree_spec:
  assumes us: "us_inv kend st root (upages sz)" and sz: "size_ok sz"
    and only: "\<And>va. pte_valid (pt_get (phys st) root va) \<Longrightarrow> PGROUNDDOWN va < sz"
  shows "\<exists>st'. uvmfree kend st root sz = Inr st' \<and> kmem_inv kend st' \<and>
    free_pages kend st' = vm_own kend st root \<union> leaf_pa (phys st) root ` upages sz \<and>
    (\<forall>b. outside (vm_own kend st root \<union> leaf_pa (phys st) root ` upages sz) b \<longrightarrow>
      phys st' b = phys st b)"
proof -
  let ?U = "upages sz"
  have pr: "page_range 0 (unat (PGROUNDUP sz div PGSIZE)) = ?U"
    "unat (PGROUNDUP sz div PGSIZE) \<le> 1048576"
    using upages_page_range [of "PGROUNDUP sz"] sz by simp_all
  have "\<exists>st1. (if sz > 0 then uvmunmap kend st root 0 (PGROUNDUP sz div PGSIZE) True else Inr st) =
      Inr st1 \<and> us_inv kend st1 root (?U - ?U) \<and> unmapped kend root ?U st st1"
  proof (cases "sz > 0")
    case True
    then show ?thesis
      using uvmunmap_loop_spec [OF us, of 0 "PGROUNDUP sz div PGSIZE" 0
          "unat (PGROUNDUP sz div PGSIZE)"] pr
      by (simp add: uvmunmap_def aligned_def)
  next
    case False
    then have "?U = {}" by (simp add: upages_def word_gt_0)
    then show ?thesis using us False by (simp add: unmapped_refl)
  qed
  then obtain st1 where u: "(if sz > 0 then uvmunmap kend st root 0 (PGROUNDUP sz div PGSIZE) True
      else Inr st) = Inr st1" "us_inv kend st1 root (?U - ?U)" "unmapped kend root ?U st st1" by blast
  have "\<not> pte_valid (pt_get (phys st1) root va)" for va
    using u(3) only [of va] by (auto simp: unmapped_def upages_def pte_valid_bit)
  then have "no_leaf (phys st1) root" by (simp add: no_leaf_def)
  from freewalk_loop_spec [OF us_inv_vm [OF u(2)] this, of 0] obtain st' where
    f: "freewalk_loop kend (freewalk 1 kend) st1 root 0 = Inr st'" "kmem_inv kend st'"
    "free_pages kend st' = vm_own kend st1 root"
    "\<forall>b. outside (vm_own kend st1 root) b \<longrightarrow> phys st' b = phys st1 b" by auto
  have "freewalk 2 kend st1 root = Inr st'"
    using f(1) by (simp add: numeral_2_eq_2 freewalk.simps(2) [of "Suc 0"])
  then have "uvmfree kend st root sz = Inr st'" using u(1) by (simp add: uvmfree_def)
  then show ?thesis using f(2-4) u(3) by (auto simp: unmapped_def)
qed

end
