(* ===== verification/Vm_Access.thy ===== *)
theory Vm_Access
  imports Vm_Copy
begin

text \<open>
  \<^verbatim>\<open>copyout\<close>, \<^verbatim>\<open>copyin\<close> and \<^verbatim>\<open>copyinstr\<close>: the kernel's accesses to user memory go through the
  process's page table, page by page. The lemmas turn the page loops into byte-wise statements
  over the virtual addresses of the process.
\<close>

section \<open>User memory\<close>

definition uacc :: "mem \<Rightarrow> u32 \<Rightarrow> u32 \<Rightarrow> bool" where
  "uacc m root va \<longleftrightarrow> pte_valid (pt_get m root va) \<and> pt_get m root va AND PTE_U \<noteq> 0"

definition paddr :: "mem \<Rightarrow> u32 \<Rightarrow> u32 \<Rightarrow> u32" where
  "paddr m root va = leaf_pa m root va + (va - PGROUNDDOWN va)"

definition ubyte :: "mem \<Rightarrow> u32 \<Rightarrow> u32 \<Rightarrow> u8" where
  "ubyte m root va = m (paddr m root va)"

definition us_ok :: "u32 \<Rightarrow> kstate \<Rightarrow> u32 \<Rightarrow> u32 set \<Rightarrow> bool" where
  "us_ok kend st root S \<longleftrightarrow>
    us_inv kend st root S \<and> (\<forall>va. uacc (phys st) root va \<longrightarrow> PGROUNDDOWN va \<in> S)"

lemma pt_get_PGROUNDDOWN [simp]: "pt_get m root (PGROUNDDOWN va) = pt_get m root va"
  by (simp add: pt_get_def pt_slot_def Let_def)

lemma leaf_pa_PGROUNDDOWN [simp]: "leaf_pa m root (PGROUNDDOWN va) = leaf_pa m root va"
  by (simp add: leaf_pa_def)

lemma walkaddr_eq:
  assumes "pt_wf kend (phys st) root" "aligned va"
  shows "walkaddr st root va =
    Inr (if uacc (phys st) root va then leaf_pa (phys st) root va else 0)"
proof -
  have "va < MAXVA" by (rule aligned_below_MAXVA [OF assms(2)])
  then show ?thesis
    using pt_slot_nonzero [OF assms(1)]
    by (auto simp: walkaddr_def walk_noalloc uacc_def pt_get_def leaf_pa_def pte_valid_def
        split: option.splits)
qed

text \<open>Writing outside the table and the free pages keeps the address space.\<close>

lemma kmem_frame:
  assumes "kmem_list kend st ps" "\<And>p b. p \<in> set ps \<Longrightarrow> in_page p b \<Longrightarrow> m' b = phys st b"
  shows "kmem_list kend (st\<lparr>phys := m'\<rparr>) ps"
proof -
  have "load32 m' p = load32 (phys st) p" if "p \<in> set ps" for p
    by (rule load32_cong) (use assms(2) that in \<open>simp add: in_page_def\<close>)
  then have "free_chain m' (freelist st) ps = free_chain (phys st) (freelist st) ps"
    by (rule free_chain_cong)
  then show ?thesis using assms(1) by (simp add: kmem_list_def)
qed

lemma us_frame:
  assumes us: "us_ok kend st root S"
    and out: "\<And>p b. p \<in> vm_own kend st root \<Longrightarrow> in_page p b \<Longrightarrow> m' b = phys st b"
  shows "us_ok kend (st\<lparr>phys := m'\<rparr>) root S" "pt_get m' root = pt_get (phys st) root"
    "vm_own kend (st\<lparr>phys := m'\<rparr>) root = vm_own kend st root"
proof -
  have inv: "kmem_inv kend st" "pt_wf kend (phys st) root"
      "pt_pages (phys st) root \<inter> free_pages kend st = {}"
    using us by (auto simp: us_ok_def us_inv_def vm_inv_def)
  obtain ps where ps: "kmem_list kend st ps" using inv(1) by (auto simp: kmem_inv_def)
  have ps': "kmem_list kend (st\<lparr>phys := m'\<rparr>) ps"
    by (rule kmem_frame [OF ps]) (use out free_pages_list [OF ps] in \<open>auto simp: vm_own_def\<close>)
  have eq: "m' b = phys st b" if "p \<in> pt_pages (phys st) root" "in_page p b" for p b
    using out that by (auto simp: vm_own_def)
  have sr: "same_root (phys st) m' root" by (rule pt_frame(1) [OF inv(2)]) (rule eq)
  show get: "pt_get m' root = pt_get (phys st) root"
    by (rule ext, rule pt_frame(2) [OF inv(2)]) (rule eq)
  have fr: "free_pages kend (st\<lparr>phys := m'\<rparr>) = free_pages kend st"
    using free_pages_list [OF ps] free_pages_list [OF ps'] by simp
  show own: "vm_own kend (st\<lparr>phys := m'\<rparr>) root = vm_own kend st root"
    using fr same_root_pages [OF sr] by (simp add: vm_own_def)
  have "vm_inv kend (st\<lparr>phys := m'\<rparr>) root"
    using ps' inv(3) fr same_root_pages [OF sr] same_root_wf [OF sr inv(2)]
    by (auto simp: vm_inv_def kmem_inv_def)
  then show "us_ok kend (st\<lparr>phys := m'\<rparr>) root S"
    using us own unfolding us_ok_def us_inv_def uacc_def leaf_pa_def by (simp add: get)
qed

section \<open>Addresses within a chunk\<close>

lemma chunk_page:
  assumes "unat k < unat (chunk va len)"
  shows "PGROUNDDOWN (va + k) = PGROUNDDOWN va" "va + k - PGROUNDDOWN va = va - PGROUNDDOWN va + k"
proof -
  have k: "unat va mod 4096 + unat k < 4096"
    using assms by (simp add: chunk_unat) linarith
  have "unat (va - PGROUNDDOWN va + k) = unat va mod 4096 + unat k"
    using k by (simp add: unat_plus_if' unat_offset)
  then have "in_page (PGROUNDDOWN va) (va + k)"
    using k by (simp add: in_page_def diff_add_eq)
  then show "PGROUNDDOWN (va + k) = PGROUNDDOWN va" by (simp add: in_page_iff)
  show "va + k - PGROUNDDOWN va = va - PGROUNDDOWN va + k" by simp
qed

lemma paddr_chunk:
  assumes "unat k < unat (chunk va len)"
  shows "paddr m root (va + k) = leaf_pa m root va + (va - PGROUNDDOWN va) + k"
proof -
  have "leaf_pa m root (va + k) = leaf_pa m root va"
    using chunk_page(1) [OF assms] by (metis leaf_pa_PGROUNDDOWN)
  then show ?thesis using chunk_page [OF assms] by (simp add: paddr_def)
qed

lemma paddr_in_page: "in_page (leaf_pa m root va) (paddr m root va)"
  by (simp add: paddr_def in_page_def unat_offset)

lemma paddr_inj:
  assumes us: "us_inv kend st root S" and S: "PGROUNDDOWN a \<in> S" "PGROUNDDOWN b \<in> S"
    and e: "paddr (phys st) root a = paddr (phys st) root b"
  shows "a = b"
proof -
  have "in_page (leaf_pa (phys st) root a) (paddr (phys st) root a)"
    "in_page (leaf_pa (phys st) root b) (paddr (phys st) root a)"
    using paddr_in_page [of "phys st" root a] paddr_in_page [of "phys st" root b] e by simp_all
  then have "leaf_pa (phys st) root a = leaf_pa (phys st) root b"
    by (intro in_page_unique) (simp_all add: leaf_pa_def)
  moreover from this have "PGROUNDDOWN a = PGROUNDDOWN b"
    using us S by (auto simp: us_inv_def inj_on_def)
  ultimately show ?thesis using e by (simp add: paddr_def)
qed

lemma us_leaf:
  assumes "us_ok kend st root S" "uacc (phys st) root va"
  shows "PGROUNDDOWN va \<in> S" "page_ok kend (leaf_pa (phys st) root va)"
    "leaf_pa (phys st) root va \<notin> vm_own kend st root" "leaf_pa (phys st) root va \<noteq> 0"
proof -
  show S: "PGROUNDDOWN va \<in> S" using assms by (simp add: us_ok_def)
  then show ok: "page_ok kend (leaf_pa (phys st) root va)"
    and "leaf_pa (phys st) root va \<notin> vm_own kend st root"
    using assms(1) by (auto simp: us_ok_def us_inv_def)
  show "leaf_pa (phys st) root va \<noteq> 0" by (rule page_ok_nonnull [OF ok])
qed

text \<open>The bytes of one chunk lie within the page and do not wrap.\<close>

lemma chunk_bounds:
  assumes "page_ok kend p"
  shows "unat (p + (va - PGROUNDDOWN va)) + unat (chunk va len) < 4294967296"
    "unat (p + (va - PGROUNDDOWN va)) = unat p + unat va mod 4096"
proof -
  have p: "unat p < 2281701376" using assms by (simp add: page_ok_def word_less_nat_alt PHYSTOP_unat)
  have m: "unat va mod 4096 < 4096" by simp
  show u: "unat (p + (va - PGROUNDDOWN va)) = unat p + unat va mod 4096"
    using p m by (subst unat_plus_if') (simp add: unat_offset, linarith)
  have "unat (chunk va len) \<le> 4096" by (simp add: chunk_unat min.coboundedI1)
  then show "unat (p + (va - PGROUNDDOWN va)) + unat (chunk va len) < 4294967296"
    using p m u by linarith
qed

lemma page_not_own:
  assumes "vm_inv kend st root" "aligned p" "p \<notin> vm_own kend st root"
    "q \<in> vm_own kend st root" "in_page q b"
  shows "\<not> in_page p b"
  using assms vm_own_ok [OF assms(1,4)] in_page_unique [of p q b] by (auto simp: page_ok_def)

lemma chunk_region:
  assumes "page_ok kend p" "unat (b - (p + (va - PGROUNDDOWN va))) < unat (chunk va len)"
  shows "in_page p b"
proof -
  let ?o = "va - PGROUNDDOWN va" and ?j = "b - (p + (va - PGROUNDDOWN va))"
  have "unat va mod 4096 + unat ?j < 4096" using assms(2) by (simp add: chunk_unat) linarith
  then have "unat (?o + ?j) = unat va mod 4096 + unat ?j"
    by (subst unat_plus_if') (simp add: unat_offset)
  moreover have "b - p = ?o + ?j" by simp
  ultimately have "unat (b - p) = unat va mod 4096 + unat ?j" by (simp only:)
  then show ?thesis using \<open>_ < 4096\<close> by (simp add: in_page_def)
qed

text \<open>When a request continues past a chunk, the next page starts right after it.\<close>

lemma next_page:
  assumes "unat va + unat len \<le> 4294967296" "chunk va len \<noteq> len"
  shows "PGROUNDDOWN va + PGSIZE = va + chunk va len"
    "unat (va + chunk va len) = unat va + unat (chunk va len)"
    "unat (len - chunk va len) = unat len - unat (chunk va len)" "unat (chunk va len) < unat len"
proof -
  have c: "unat (chunk va len) = 4096 - unat va mod 4096"
    using assms(2) by (auto simp: chunk_unat word_unat_eq_iff min_def split: if_splits)
  show lt: "unat (chunk va len) < unat len"
    using assms(2) chunk_unat [of va len] by (auto simp: word_unat_eq_iff)
  have "chunk va len = PGSIZE - (va - PGROUNDDOWN va)"
    using assms(2) by (simp add: chunk_def Let_def split: if_splits)
  then show "PGROUNDDOWN va + PGSIZE = va + chunk va len" by simp
  show "unat (va + chunk va len) = unat va + unat (chunk va len)"
    using assms(1) lt by (simp add: unat_plus_if')
  show "unat (len - chunk va len) = unat len - unat (chunk va len)"
    using lt by (simp add: unat_sub word_le_nat_alt)
qed

section \<open>copyout\<close>

definition copied_out :: "mem \<Rightarrow> u32 \<Rightarrow> u32 \<Rightarrow> u32 \<Rightarrow> nat \<Rightarrow> mem \<Rightarrow> bool" where
  "copied_out m root dstva src c m' \<longleftrightarrow>
    (\<forall>k. unat k < c \<longrightarrow> uacc m root (dstva + k) \<and> m' (paddr m root (dstva + k)) = m (src + k)) \<and>
    (\<forall>b. (\<forall>k. unat k < c \<longrightarrow> b \<noteq> paddr m root (dstva + k)) \<longrightarrow> m' b = m b)"

lemma copied_outD:
  assumes "copied_out m root dstva src c m'"
  shows "unat k < c \<Longrightarrow> uacc m root (dstva + k)"
    "unat k < c \<Longrightarrow> m' (paddr m root (dstva + k)) = m (src + k)"
    "(\<And>k. unat k < c \<Longrightarrow> b \<noteq> paddr m root (dstva + k)) \<Longrightarrow> m' b = m b"
  using assms by (auto simp: copied_out_def)

text \<open>One round of the loop writes the bytes of its chunk.\<close>

lemma copyout_chunk:
  assumes us: "us_ok kend st root S" and acc: "uacc (phys st) root dstva"
    and src: "unat src + unat len < 4294967296"
  defines "m1 \<equiv> memmove (phys st) (leaf_pa (phys st) root dstva + (dstva - PGROUNDDOWN dstva)) src
    (chunk dstva len)"
  shows "us_ok kend (st\<lparr>phys := m1\<rparr>) root S" "pt_get m1 root = pt_get (phys st) root"
    "vm_own kend (st\<lparr>phys := m1\<rparr>) root = vm_own kend st root"
    "copied_out (phys st) root dstva src (unat (chunk dstva len)) m1"
proof -
  let ?p = "leaf_pa (phys st) root dstva" and ?o = "dstva - PGROUNDDOWN dstva"
  let ?n = "chunk dstva len"
  note l = us_leaf [OF us acc]
  have vi: "vm_inv kend st root" using us by (auto simp: us_ok_def us_inv_def)
  have "unat ?n \<le> unat len" by (simp add: chunk_unat)
  then have m1: "m1 a = (if unat (a - (?p + ?o)) < unat ?n then phys st (src + (a - (?p + ?o)))
      else phys st a)" for a
    unfolding m1_def using memmove_apply [OF _ chunk_bounds(1) [OF l(2)]] src by simp
  have out: "m1 b = phys st b" if "q \<in> vm_own kend st root" "in_page q b" for q b
    using m1 chunk_region [OF l(2)] page_not_own [OF vi _ l(3) that] by (auto simp: leaf_pa_def)
  show "us_ok kend (st\<lparr>phys := m1\<rparr>) root S" "pt_get m1 root = pt_get (phys st) root"
    "vm_own kend (st\<lparr>phys := m1\<rparr>) root = vm_own kend st root"
    by (rule us_frame [OF us]; rule out; assumption)+
  show "copied_out (phys st) root dstva src (unat ?n) m1"
    unfolding copied_out_def
  proof (intro conjI allI impI)
    fix k :: u32
    assume k: "unat k < unat ?n"
    show "uacc (phys st) root (dstva + k)"
      using acc chunk_page(1) [OF k] unfolding uacc_def by (metis pt_get_PGROUNDDOWN)
    show "m1 (paddr (phys st) root (dstva + k)) = phys st (src + k)"
      using k by (simp add: m1 paddr_chunk)
  next
    fix b
    assume *: "\<forall>k. unat k < unat ?n \<longrightarrow> b \<noteq> paddr (phys st) root (dstva + k)"
    have "\<not> unat (b - (?p + ?o)) < unat ?n"
    proof
      assume "unat (b - (?p + ?o)) < unat ?n"
      then show False using * paddr_chunk [of "b - (?p + ?o)" dstva len "phys st" root] by auto
    qed
    then show "m1 b = phys st b" by (simp add: m1)
  qed
qed

text \<open>Two consecutive pieces.\<close>

lemma copied_out_append:
  assumes us: "us_ok kend st root S"
    and a: "copied_out (phys st) root dstva src (unat n) m1" and n: "unat n + c < 4294967296"
    and b: "copied_out m1 root (dstva + n) (src + n) c m2"
    and get: "pt_get m1 root = pt_get (phys st) root"
    and src: "\<And>k. unat k < unat n + c \<Longrightarrow> outside (leaf_pa (phys st) root ` S) (src + k)"
    and S: "\<And>va. uacc (phys st) root va \<Longrightarrow> PGROUNDDOWN va \<in> S"
  shows "copied_out (phys st) root dstva src (unat n + c) m2"
proof -
  let ?m = "phys st"
  have pa: "paddr m1 root = paddr ?m root" "uacc m1 root = uacc ?m root"
    using get by (simp_all add: paddr_def leaf_pa_def uacc_def fun_eq_iff)
  have split: "unat k < unat n \<or> (\<exists>j. k = n + j \<and> unat j < c)" if "unat k < unat n + c" for k
  proof (cases "unat k < unat n")
    case False
    then have "k = n + (k - n)" "unat (k - n) = unat k - unat n" by (simp_all add: dist_base)
    then show ?thesis using that False by (intro disjI2 exI [of _ "k - n"]) auto
  qed simp
  have join: "unat (n + j) = unat n + unat j" if "unat j < c" for j
    using that n by (simp add: unat_plus_if')
  have usi: "us_inv kend st root S" using us by (simp add: us_ok_def)
  have apart: "paddr ?m root (dstva + k) \<noteq> paddr ?m root (dstva + n + j)"
    if "unat k < unat n" "unat j < c" "uacc ?m root (dstva + k)" "uacc ?m root (dstva + n + j)" for k j
  proof
    assume "paddr ?m root (dstva + k) = paddr ?m root (dstva + n + j)"
    then have "dstva + k = dstva + n + j" using paddr_inj [OF usi] S that by blast
    then have "k = n + j" by (simp add: add.assoc)
    then show False using join [OF that(2)] that(1) by simp
  qed
  have keep_src: "m1 (src + k) = ?m (src + k)" if k: "unat k < unat n + c" for k
  proof -
    have "src + k \<noteq> paddr ?m root (dstva + j)" if "unat j < unat n" for j
    proof -
      have "uacc ?m root (dstva + j)" using a that by (simp add: copied_out_def)
      then have "PGROUNDDOWN (dstva + j) \<in> S" by (rule S)
      then have "\<not> in_page (leaf_pa ?m root (dstva + j)) (src + k)"
        using src [OF k] by (auto simp: outside_def)
      then show ?thesis using paddr_in_page [of ?m root "dstva + j"] by auto
    qed
    then show ?thesis by (rule copied_outD(3) [OF a])
  qed
  show ?thesis
    unfolding copied_out_def
  proof (intro conjI allI impI)
    fix k :: u32
    assume k: "unat k < unat n + c"
    show acc: "uacc ?m root (dstva + k)"
      using split [OF k] copied_outD(1) [OF a] copied_outD(1) [OF b] pa by (auto simp: add.assoc)
    show "m2 (paddr ?m root (dstva + k)) = ?m (src + k)"
      using split [OF k]
    proof
      assume k1: "unat k < unat n"
      have "m2 (paddr ?m root (dstva + k)) = m1 (paddr ?m root (dstva + k))"
      proof (rule copied_outD(3) [OF b])
        fix j :: u32
        assume j: "unat j < c"
        have "uacc ?m root (dstva + n + j)" using copied_outD(1) [OF b j] pa by simp
        then show "paddr ?m root (dstva + k) \<noteq> paddr m1 root (dstva + n + j)"
          using apart [OF k1 j acc] pa by simp
      qed
      then show ?thesis using a k1 by (simp add: copied_out_def)
    next
      assume "\<exists>j. k = n + j \<and> unat j < c"
      then obtain j where j: "k = n + j" "unat j < c" by blast
      then have "m2 (paddr ?m root (dstva + k)) = m1 (src + k)"
        using copied_outD(2) [OF b j(2)] pa by (simp add: add.assoc)
      then show ?thesis using keep_src [OF k] by simp
    qed
  next
    fix d
    assume *: "\<forall>k. unat k < unat n + c \<longrightarrow> d \<noteq> paddr ?m root (dstva + k)"
    have "m2 d = m1 d"
    proof (rule copied_outD(3) [OF b])
      fix j :: u32
      assume j: "unat j < c"
      show "d \<noteq> paddr m1 root (dstva + n + j)"
        using * [rule_format, of "n + j"] join [OF j] j pa by (simp add: add.assoc)
    qed
    moreover have "m1 d = ?m d" by (rule copied_outD(3) [OF a]) (use * in auto)
    ultimately show "m2 d = ?m d" by simp
  qed
qed

lemma copyout_spec:
  assumes "us_ok kend st root S" "unat dstva + unat len \<le> 4294967296"
    "unat src + unat len < 4294967296"
    "\<And>k. unat k < unat len \<Longrightarrow> outside (leaf_pa (phys st) root ` S) (src + k)"
  shows "\<exists>st' r c. copyout st root dstva src len = Inr (st', r) \<and> c \<le> unat len \<and>
    (if c = unat len then r = 0 else r = - 1 \<and> \<not> uacc (phys st) root (dstva + of_nat c)) \<and>
    us_ok kend st' root S \<and> pt_get (phys st') root = pt_get (phys st) root \<and>
    copied_out (phys st) root dstva src c (phys st')"
  using assms
proof (induction "unat len" arbitrary: st dstva src len rule: less_induct)
  case less
  have wf: "pt_wf kend (phys st) root" using less(2) by (simp add: us_ok_def us_inv_def vm_inv_def)
  note wa = walkaddr_eq [OF wf aligned_PGROUNDDOWN [of dstva]]
  have ua: "uacc (phys st) root (PGROUNDDOWN dstva) = uacc (phys st) root dstva"
    by (simp add: uacc_def)
  let ?n = "chunk dstva len"
  consider (zero) "len = 0" | (fault) "len \<noteq> 0" "\<not> uacc (phys st) root dstva"
    | (ok) "len \<noteq> 0" "uacc (phys st) root dstva" by blast
  then show ?case
  proof cases
    case zero
    then show ?thesis
      using less(2) by (intro exI [of _ st] exI [of _ 0])
        (simp add: copyout.simps copied_out_def)
  next
    case fault
    then have "copyout st root dstva src len = Inr (st, - 1)"
      by (subst copyout.simps) (simp add: wa ua word_gt_0)
    then show ?thesis
      using less(2) fault by (intro exI [of _ st] exI [of _ "- 1"] exI [of _ 0])
        (simp add: copied_out_def unat_eq_zero)
  next
    case ok
    note l = us_leaf [OF less(2) ok(2)]
    define m1 where
      "m1 = memmove (phys st) (leaf_pa (phys st) root dstva + (dstva - PGROUNDDOWN dstva)) src ?n"
    note ch = copyout_chunk [OF less(2) ok(2) less(4), folded m1_def]
    have step: "copyout st root dstva src len =
        copyout (st\<lparr>phys := m1\<rparr>) root (PGROUNDDOWN dstva + PGSIZE) (src + ?n) (len - ?n)"
      using ok l(4) by (subst copyout.simps) (simp add: wa ua word_gt_0 Let_def m1_def)
    show ?thesis
    proof (cases "?n = len")
      case True
      then have "copyout st root dstva src len = Inr (st\<lparr>phys := m1\<rparr>, 0)"
        unfolding step by (subst copyout.simps) simp
      then show ?thesis
        using ch True by (intro exI [of _ "st\<lparr>phys := m1\<rparr>"] exI [of _ 0] exI [of _ "unat len"]) simp
    next
      case False
      note np = next_page [OF less(3) False]
      have "0 < unat ?n" using ok(1) chunk_decreases [of len dstva] np(3) by (simp add: word_gt_0)
      then have dec: "unat (len - ?n) < unat len" using np(3,4) by simp
      have srcn: "unat (src + ?n) = unat src + unat ?n"
        using less(4) np(4) by (simp add: unat_plus_if')
      have lf: "leaf_pa m1 root = leaf_pa (phys st) root"
        using ch(2) by (simp add: leaf_pa_def fun_eq_iff)
      have ph: "phys (st\<lparr>phys := m1\<rparr>) = m1" by simp
      have "\<exists>st' r c. copyout (st\<lparr>phys := m1\<rparr>) root (dstva + ?n) (src + ?n) (len - ?n) = Inr (st', r) \<and>
          c \<le> unat (len - ?n) \<and> (if c = unat (len - ?n) then r = 0
            else r = - 1 \<and> \<not> uacc (phys (st\<lparr>phys := m1\<rparr>)) root (dstva + ?n + of_nat c)) \<and>
          us_ok kend st' root S \<and> pt_get (phys st') root = pt_get (phys (st\<lparr>phys := m1\<rparr>)) root \<and>
          copied_out (phys (st\<lparr>phys := m1\<rparr>)) root (dstva + ?n) (src + ?n) c (phys st')"
      proof (rule less(1) [OF dec ch(1)])
        show "unat (dstva + ?n) + unat (len - ?n) \<le> 4294967296" using np(2,3,4) less(3) by simp
        show "unat (src + ?n) + unat (len - ?n) < 4294967296" using srcn np(3,4) less(4) by simp
        fix k :: u32
        assume k: "unat k < unat (len - ?n)"
        then have "unat (?n + k) = unat ?n + unat k" using np(3,4) less(4) by (simp add: unat_plus_if')
        then have "outside (leaf_pa (phys st) root ` S) (src + (?n + k))"
          using less(5) [of "?n + k"] k np(3,4) by simp
        then show "outside (leaf_pa (phys (st\<lparr>phys := m1\<rparr>)) root ` S) (src + ?n + k)"
          by (simp add: lf add.assoc)
      qed
      then obtain st' r c where r: "copyout (st\<lparr>phys := m1\<rparr>) root (dstva + ?n) (src + ?n) (len - ?n) =
          Inr (st', r)" "c \<le> unat (len - ?n)" "if c = unat (len - ?n) then r = 0
            else r = - 1 \<and> \<not> uacc m1 root (dstva + ?n + of_nat c)"
          "us_ok kend st' root S" "pt_get (phys st') root = pt_get m1 root"
          "copied_out m1 root (dstva + ?n) (src + ?n) c (phys st')"
        unfolding ph by blast
      have "copied_out (phys st) root dstva src (unat ?n + c) (phys st')"
      proof (rule copied_out_append [OF less(2) ch(4) _ r(6) ch(2)])
        show "unat ?n + c < 4294967296" using r(2) np(3,4) less(4) by linarith
        show "outside (leaf_pa (phys st) root ` S) (src + k)" if "unat k < unat ?n + c" for k
          using less(5) [of k] that r(2) np(3,4) by simp
      qed (use less(2) in \<open>simp add: us_ok_def\<close>)
      moreover have "unat ?n + c = unat len \<longleftrightarrow> c = unat (len - ?n)" using np(3,4) by auto
      moreover have "dstva + ?n + of_nat c = dstva + of_nat (unat ?n + c)" by (simp add: add.assoc)
      moreover have "uacc m1 root = uacc (phys st) root" using ch(2) by (simp add: uacc_def fun_eq_iff)
      ultimately show ?thesis
        using r ch(2) step np
        by (intro exI [of _ st'] exI [of _ r] exI [of _ "unat ?n + c"])
          (auto simp: add.assoc split: if_splits)
    qed
  qed
qed

section \<open>copyin\<close>

definition copied_in :: "mem \<Rightarrow> u32 \<Rightarrow> u32 \<Rightarrow> u32 \<Rightarrow> nat \<Rightarrow> mem \<Rightarrow> bool" where
  "copied_in m root dst srcva c m' \<longleftrightarrow>
    (\<forall>k. unat k < c \<longrightarrow> uacc m root (srcva + k) \<and> m' (dst + k) = ubyte m root (srcva + k)) \<and>
    (\<forall>b. \<not> unat (b - dst) < c \<longrightarrow> m' b = m b)"

lemma copied_inD:
  assumes "copied_in m root dst srcva c m'"
  shows "unat k < c \<Longrightarrow> uacc m root (srcva + k)"
    "unat k < c \<Longrightarrow> m' (dst + k) = m (paddr m root (srcva + k))"
    "\<not> unat (b - dst) < c \<Longrightarrow> m' b = m b"
  using assms by (auto simp: copied_in_def ubyte_def)

text \<open>A kernel buffer: outside the table, the free pages and the user's pages.\<close>

definition kbuf :: "u32 \<Rightarrow> kstate \<Rightarrow> u32 \<Rightarrow> u32 set \<Rightarrow> u32 \<Rightarrow> nat \<Rightarrow> bool" where
  "kbuf kend st root S dst len \<longleftrightarrow>
    (\<forall>k. unat k < len \<longrightarrow> outside (vm_own kend st root \<union> leaf_pa (phys st) root ` S) (dst + k))"

lemma kbuf_cong:
  assumes "kbuf kend st root S dst len" "pt_get (phys st') root = pt_get (phys st) root"
    "vm_own kend st' root = vm_own kend st root"
  shows "kbuf kend st' root S dst len"
proof -
  have "leaf_pa (phys st') root = leaf_pa (phys st) root"
    using assms(2) by (simp add: leaf_pa_def fun_eq_iff)
  then show ?thesis using assms(1,3) by (simp add: kbuf_def)
qed

lemma kbuf_shift:
  assumes "kbuf kend st root S dst len" "unat n + len' \<le> len" "len < 4294967296"
  shows "kbuf kend st root S (dst + n) len'"
  unfolding kbuf_def
proof (intro allI impI)
  fix k :: u32
  assume k: "unat k < len'"
  then have "unat (n + k) = unat n + unat k" using assms(2,3) by (simp add: unat_plus_if')
  then have "outside (vm_own kend st root \<union> leaf_pa (phys st) root ` S) (dst + (n + k))"
    using assms(1,2) k by (simp add: kbuf_def)
  then show "outside (vm_own kend st root \<union> leaf_pa (phys st) root ` S) (dst + n + k)"
    by (simp add: add.assoc)
qed

text \<open>Writes to a kernel buffer leave the address space and its contents alone.\<close>

lemma kbuf_write:
  assumes us: "us_ok kend st root S" and kb: "kbuf kend st root S dst len"
    and out: "\<And>b. \<not> unat (b - dst) < len \<Longrightarrow> m' b = phys st b"
  shows "us_ok kend (st\<lparr>phys := m'\<rparr>) root S" "pt_get m' root = pt_get (phys st) root"
    "vm_own kend (st\<lparr>phys := m'\<rparr>) root = vm_own kend st root"
    "uacc (phys st) root va \<Longrightarrow> m' (paddr (phys st) root va) = phys st (paddr (phys st) root va)"
proof -
  have keep: "m' b = phys st b"
    if "p \<in> vm_own kend st root \<union> leaf_pa (phys st) root ` S" "in_page p b" for p b
  proof (rule out)
    show "\<not> unat (b - dst) < len"
      using kb that unfolding kbuf_def outside_def by (auto dest!: spec [of _ "b - dst"])
  qed
  show "us_ok kend (st\<lparr>phys := m'\<rparr>) root S" "pt_get m' root = pt_get (phys st) root"
    "vm_own kend (st\<lparr>phys := m'\<rparr>) root = vm_own kend st root"
    by (rule us_frame [OF us]; rule keep; blast)+
  show "m' (paddr (phys st) root va) = phys st (paddr (phys st) root va)"
    if "uacc (phys st) root va"
  proof (rule keep [OF _ paddr_in_page])
    show "leaf_pa (phys st) root va \<in> vm_own kend st root \<union> leaf_pa (phys st) root ` S"
      using us_leaf(1) [OF us that] leaf_pa_PGROUNDDOWN [of "phys st" root va] by (metis UnI2 image_eqI)
  qed
qed

lemma copyin_chunk:
  assumes us: "us_ok kend st root S" and acc: "uacc (phys st) root srcva"
    and dst: "unat dst + unat len < 4294967296" and kb: "kbuf kend st root S dst (unat len)"
  defines "m1 \<equiv> memmove (phys st) dst
    (leaf_pa (phys st) root srcva + (srcva - PGROUNDDOWN srcva)) (chunk srcva len)"
  shows "us_ok kend (st\<lparr>phys := m1\<rparr>) root S" "pt_get m1 root = pt_get (phys st) root"
    "vm_own kend (st\<lparr>phys := m1\<rparr>) root = vm_own kend st root"
    "copied_in (phys st) root dst srcva (unat (chunk srcva len)) m1"
proof -
  let ?s = "leaf_pa (phys st) root srcva + (srcva - PGROUNDDOWN srcva)"
  let ?n = "chunk srcva len"
  note l = us_leaf [OF us acc]
  have n: "unat ?n \<le> unat len" by (simp add: chunk_unat)
  have m1: "m1 a = (if unat (a - dst) < unat ?n then phys st (?s + (a - dst)) else phys st a)" for a
    unfolding m1_def using memmove_apply [OF chunk_bounds(1) [OF l(2)]] n dst by simp
  have out: "m1 b = phys st b" if "\<not> unat (b - dst) < unat len" for b
    using that n by (simp add: m1)
  show "us_ok kend (st\<lparr>phys := m1\<rparr>) root S" "pt_get m1 root = pt_get (phys st) root"
    "vm_own kend (st\<lparr>phys := m1\<rparr>) root = vm_own kend st root"
    by (rule kbuf_write [OF us kb]; rule out; assumption)+
  show "copied_in (phys st) root dst srcva (unat ?n) m1"
    unfolding copied_in_def
  proof (intro conjI allI impI)
    fix k :: u32
    assume k: "unat k < unat ?n"
    show "uacc (phys st) root (srcva + k)"
      using acc chunk_page(1) [OF k] unfolding uacc_def by (metis pt_get_PGROUNDDOWN)
    show "m1 (dst + k) = ubyte (phys st) root (srcva + k)"
      using k by (simp add: m1 ubyte_def paddr_chunk)
  qed (simp add: m1)
qed

lemma copied_in_append:
  assumes us: "us_ok kend st root S" and kb: "kbuf kend st root S dst (unat n + c)"
    and a: "copied_in (phys st) root dst srcva (unat n) m1" and n: "unat n + c < 4294967296"
    and b: "copied_in m1 root (dst + n) (srcva + n) c m2"
    and get: "pt_get m1 root = pt_get (phys st) root"
  shows "copied_in (phys st) root dst srcva (unat n + c) m2"
proof -
  let ?m = "phys st"
  have pa: "paddr m1 root = paddr ?m root" "uacc m1 root = uacc ?m root"
    using get by (simp_all add: paddr_def leaf_pa_def uacc_def fun_eq_iff)
  have keep: "m1 (paddr ?m root va) = ?m (paddr ?m root va)" if "uacc ?m root va" for va
    by (rule kbuf_write(4) [OF us kb _ that]) (use copied_inD(3) [OF a] in simp)
  show ?thesis
    unfolding copied_in_def
  proof (intro conjI allI impI)
    fix k :: u32
    assume k: "unat k < unat n + c"
    show acc: "uacc ?m root (srcva + k)" and "m2 (dst + k) = ubyte ?m root (srcva + k)"
    proof -
      consider "unat k < unat n" | j where "k = n + j" "unat j < c" "unat (n + j) = unat n + unat j"
      proof (cases "unat k < unat n")
        case False
        then have "k = n + (k - n)" "unat (k - n) = unat k - unat n" by (simp_all add: dist_base)
        then show ?thesis using that(2) [of "k - n"] k False by simp
      qed (rule that(1))
      note cs = this
      then show acc: "uacc ?m root (srcva + k)"
        using copied_inD(1) [OF a] copied_inD(1) [OF b] pa by cases (auto simp: add.assoc)
      from cs show "m2 (dst + k) = ubyte ?m root (srcva + k)"
      proof cases
        case 1
        have "dst + k - (dst + n) = k - n" by simp
        moreover have "unat (k - n) = unat k + 4294967296 - unat n"
          using 1 by (simp add: dist_below)
        ultimately have "\<not> unat (dst + k - (dst + n)) < c" using n by simp
        then have "m2 (dst + k) = m1 (dst + k)" by (rule copied_inD(3) [OF b])
        then show ?thesis using copied_inD(2) [OF a 1] by (simp add: ubyte_def)
      next
        case (2 j)
        then have "m2 (dst + k) = m1 (paddr ?m root (srcva + k))"
          using copied_inD(2) [OF b, of j] pa by (simp add: add.assoc)
        then show ?thesis using keep [OF acc] by (simp add: ubyte_def)
      qed
    qed
  next
    fix d
    assume d: "\<not> unat (d - dst) < unat n + c"
    have "unat (d - (dst + n)) = unat (d - dst) - unat n"
    proof -
      have "d - (dst + n) = (d - dst) - n" by simp
      then show ?thesis using d by (simp only: dist_base [of n "d - dst"])
    qed
    then have "m2 d = m1 d" using d by (intro copied_inD(3) [OF b]) simp
    moreover have "m1 d = ?m d" using d by (intro copied_inD(3) [OF a]) simp
    ultimately show "m2 d = ?m d" by simp
  qed
qed

lemma copyin_spec:
  assumes "us_ok kend st root S" "unat srcva + unat len \<le> 4294967296"
    "unat dst + unat len < 4294967296" "kbuf kend st root S dst (unat len)"
  shows "\<exists>st' r c. copyin st root dst srcva len = Inr (st', r) \<and> c \<le> unat len \<and>
    (if c = unat len then r = 0 else r = - 1 \<and> \<not> uacc (phys st) root (srcva + of_nat c)) \<and>
    us_ok kend st' root S \<and> pt_get (phys st') root = pt_get (phys st) root \<and>
    copied_in (phys st) root dst srcva c (phys st')"
  using assms
proof (induction "unat len" arbitrary: st srcva dst len rule: less_induct)
  case less
  have wf: "pt_wf kend (phys st) root" using less(2) by (simp add: us_ok_def us_inv_def vm_inv_def)
  note wa = walkaddr_eq [OF wf aligned_PGROUNDDOWN [of srcva]]
  have ua: "uacc (phys st) root (PGROUNDDOWN srcva) = uacc (phys st) root srcva"
    by (simp add: uacc_def)
  let ?n = "chunk srcva len"
  consider (zero) "len = 0" | (fault) "len \<noteq> 0" "\<not> uacc (phys st) root srcva"
    | (ok) "len \<noteq> 0" "uacc (phys st) root srcva" by blast
  then show ?case
  proof cases
    case zero
    then show ?thesis
      using less(2) by (intro exI [of _ st] exI [of _ 0]) (simp add: copyin.simps copied_in_def)
  next
    case fault
    then have "copyin st root dst srcva len = Inr (st, - 1)"
      by (subst copyin.simps) (simp add: wa ua word_gt_0)
    then show ?thesis
      using less(2) fault by (intro exI [of _ st] exI [of _ "- 1"] exI [of _ 0])
        (simp add: copied_in_def unat_eq_zero)
  next
    case ok
    note l = us_leaf [OF less(2) ok(2)]
    define m1 where
      "m1 = memmove (phys st) dst (leaf_pa (phys st) root srcva + (srcva - PGROUNDDOWN srcva)) ?n"
    note ch = copyin_chunk [OF less(2) ok(2) less(4,5), folded m1_def]
    have step: "copyin st root dst srcva len =
        copyin (st\<lparr>phys := m1\<rparr>) root (dst + ?n) (PGROUNDDOWN srcva + PGSIZE) (len - ?n)"
      using ok l(4) by (subst copyin.simps) (simp add: wa ua word_gt_0 Let_def m1_def)
    show ?thesis
    proof (cases "?n = len")
      case True
      then have "copyin st root dst srcva len = Inr (st\<lparr>phys := m1\<rparr>, 0)"
        unfolding step by (subst copyin.simps) simp
      then show ?thesis
        using ch True by (intro exI [of _ "st\<lparr>phys := m1\<rparr>"] exI [of _ 0] exI [of _ "unat len"]) simp
    next
      case False
      note np = next_page [OF less(3) False]
      have "0 < unat ?n" using ok(1) chunk_decreases [of len srcva] np(3) by (simp add: word_gt_0)
      then have dec: "unat (len - ?n) < unat len" using np(3,4) by simp
      have dstn: "unat (dst + ?n) = unat dst + unat ?n"
        using less(4) np(4) by (simp add: unat_plus_if')
      have kb: "kbuf kend (st\<lparr>phys := m1\<rparr>) root S (dst + ?n) (unat (len - ?n))"
        by (rule kbuf_cong [OF kbuf_shift [OF less(5)]]) (use np less(4) ch(2,3) in simp_all)
      have ph: "phys (st\<lparr>phys := m1\<rparr>) = m1" by simp
      have "\<exists>st' r c. copyin (st\<lparr>phys := m1\<rparr>) root (dst + ?n) (srcva + ?n) (len - ?n) = Inr (st', r) \<and>
          c \<le> unat (len - ?n) \<and> (if c = unat (len - ?n) then r = 0
            else r = - 1 \<and> \<not> uacc (phys (st\<lparr>phys := m1\<rparr>)) root (srcva + ?n + of_nat c)) \<and>
          us_ok kend st' root S \<and> pt_get (phys st') root = pt_get (phys (st\<lparr>phys := m1\<rparr>)) root \<and>
          copied_in (phys (st\<lparr>phys := m1\<rparr>)) root (dst + ?n) (srcva + ?n) c (phys st')"
        by (rule less(1) [OF dec ch(1) _ _ kb]) (use np dstn less(3,4) in simp_all)
      then obtain st' r c where r: "copyin (st\<lparr>phys := m1\<rparr>) root (dst + ?n) (srcva + ?n) (len - ?n) =
          Inr (st', r)" "c \<le> unat (len - ?n)" "if c = unat (len - ?n) then r = 0
            else r = - 1 \<and> \<not> uacc m1 root (srcva + ?n + of_nat c)"
          "us_ok kend st' root S" "pt_get (phys st') root = pt_get m1 root"
          "copied_in m1 root (dst + ?n) (srcva + ?n) c (phys st')"
        unfolding ph by blast
      have lt: "unat ?n + c < 4294967296" using r(2) np(3,4) less(4) by linarith
      have "kbuf kend st root S dst (unat ?n + c)"
        using less(5) r(2) np(3,4) by (auto simp: kbuf_def)
      then have "copied_in (phys st) root dst srcva (unat ?n + c) (phys st')"
        by (rule copied_in_append [OF less(2) _ ch(4) lt r(6) ch(2)])
      moreover have "unat ?n + c = unat len \<longleftrightarrow> c = unat (len - ?n)" using np(3,4) by auto
      moreover have "uacc m1 root = uacc (phys st) root" using ch(2) by (simp add: uacc_def fun_eq_iff)
      ultimately show ?thesis
        using r ch(2) step np
        by (intro exI [of _ st'] exI [of _ r] exI [of _ "unat ?n + c"])
          (auto simp: add.assoc split: if_splits)
    qed
  qed
qed

end
