(* ===== verification/Vm_Props.thy ===== *)
theory Vm_Props
  imports Vm_Access
begin

text \<open>
  The properties of \<^verbatim>\<open>kernel/vm.c\<close>, and a small concrete memory in which their hypotheses hold:
  one page table with one second-level table and one user page at virtual address 0.
\<close>

section \<open>A concrete address space\<close>

definition ex_kend :: u32 where "ex_kend = 0x80000000"
definition ex_root :: u32 where "ex_root = 0x87FFD000"
definition ex_table :: u32 where "ex_table = 0x87FFE000"
definition ex_page :: u32 where "ex_page = 0x87FFF000"

definition ex_mem :: mem where
  "ex_mem =
    (let m = store32 (\<lambda>_. 0) (entry ex_root (PX 1 0)) (PA2PTE ex_table OR PTE_V)
     in store32 m (entry ex_table (PX 0 0)) (PA2PTE ex_page OR (user_perm OR PTE_V)))"

definition ex_state :: kstate where
  "ex_state = \<lparr>phys = ex_mem, freelist = 0\<rparr>"

lemma ex_ok: "page_ok ex_kend ex_root" "page_ok ex_kend ex_table" "page_ok ex_kend ex_page"
  by (simp_all add: page_ok_def ex_kend_def ex_root_def ex_table_def ex_page_def aligned_unat
      layout_defs)

lemma ex_distinct: "ex_root \<noteq> ex_table" "ex_root \<noteq> ex_page" "ex_table \<noteq> ex_page"
  by (simp_all add: ex_root_def ex_table_def ex_page_def)

lemma empty_table:
  assumes "page_ok kend root" "\<And>i. unat i < 1024 \<Longrightarrow> load32 m (entry root i) = 0"
  shows "pt_wf kend m root" "pt_pages m root = {root}" "pt_slot m root va = None"
    "pt_get m root va = 0"
  using assms by (auto simp: pt_wf_def pt_pages_def pt_tables_def pt_slot_def pt_get_def
      pte_valid_bit)

lemma load32_null [simp]: "load32 (\<lambda>_. 0) a = 0"
  by (rule load32_zero) simp

lemma memset_null: "memset (\<lambda>_. 0) p 0 n = (\<lambda>_. 0)"
  by (rule ext) (simp add: memset_apply)

lemma ex_table_added:
  defines "m \<equiv> store32 (\<lambda>_. 0) (entry ex_root (PX 1 0)) (PA2PTE ex_table OR PTE_V)"
  shows "pt_wf ex_kend m ex_root" "pt_pages m ex_root = {ex_table, ex_root}"
    "pt_slot m ex_root 0 = Some (entry ex_table (PX 0 0))" "pt_get m ex_root va = 0"
proof -
  note e = empty_table [OF ex_ok(1), of "\<lambda>_. 0", simplified]
  have n: "ex_table \<notin> pt_pages (\<lambda>_. 0) ex_root" using e(2) ex_distinct(1) by auto
  note a = pt_add_table [OF e(1) ex_ok(2) n e(3), of _ 0, unfolded memset_null, OF refl]
  show "pt_wf ex_kend m ex_root" "pt_pages m ex_root = {ex_table, ex_root}"
    "pt_slot m ex_root 0 = Some (entry ex_table (PX 0 0))" "pt_get m ex_root va = 0"
    using a e(2,4) by (simp_all add: m_def)
qed

lemma ex_view:
  "pt_wf ex_kend ex_mem ex_root" "pt_pages ex_mem ex_root = {ex_table, ex_root}"
  "pt_get ex_mem ex_root va =
    (if PGROUNDDOWN va = 0 then PA2PTE ex_page OR (user_perm OR PTE_V) else 0)"
proof -
  note s = pt_store [OF ex_table_added(1,3), of "PA2PTE ex_page OR (user_perm OR PTE_V)"]
  have z: "PGROUNDDOWN 0 = 0" by (simp add: PGROUNDDOWN_def)
  show "pt_wf ex_kend ex_mem ex_root"
    using same_root_wf [OF s(1) ex_table_added(1)] by (simp add: ex_mem_def Let_def)
  show "pt_pages ex_mem ex_root = {ex_table, ex_root}"
    using same_root_pages [OF s(1)] ex_table_added(2) by (simp add: ex_mem_def Let_def)
  show "pt_get ex_mem ex_root va =
      (if PGROUNDDOWN va = 0 then PA2PTE ex_page OR (user_perm OR PTE_V) else 0)"
    using s(2) [of va] z ex_table_added(4) [of va] by (simp add: ex_mem_def Let_def)
qed

lemma flag_bits_user: "flag_bits (user_perm OR PTE_V)"
  by (simp add: user_perm_def flag_bits_def PTE_W_def PTE_X_def PTE_R_def PTE_U_def PTE_V_def)

lemma ex_leaf: "leaf_pa ex_mem ex_root 0 = ex_page"
  using PTE2PA_PA2PTE [OF page_ok_aligned [OF ex_ok(3)] flag_bits_user]
  by (simp add: leaf_pa_def ex_view(3) PGROUNDDOWN_def)

lemma ex_free: "kmem_list ex_kend ex_state []" "free_pages ex_kend ex_state = {}"
proof -
  show l: "kmem_list ex_kend ex_state []" by (simp add: kmem_list_def ex_state_def)
  then show "free_pages ex_kend ex_state = {}" by (simp add: free_pages_list)
qed

lemma ex_own: "vm_own ex_kend ex_state ex_root = {ex_table, ex_root}"
  using ex_free(2) ex_view(2) by (simp add: vm_own_def ex_state_def)

lemma upages_4096: "upages 4096 = {0}"
proof -
  have "a = 0" if "aligned a" "a < 4096" for a
    using that aligned_dist(1) [of 0 a] by (auto simp: word_less_nat_alt aligned_unat)
  then show ?thesis by (auto simp: upages_def aligned_unat)
qed

lemma ex_us_ok: "us_ok ex_kend ex_state ex_root (upages 4096)"
proof -
  have al: "aligned 0" by (simp add: aligned_unat)
  have vi: "vm_inv ex_kend ex_state ex_root"
    using ex_free ex_view(1) by (auto simp: vm_inv_def kmem_inv_def ex_state_def)
  have fl: "PTE_FLAGS (PA2PTE ex_page OR (user_perm OR PTE_V)) \<noteq> PTE_V"
    using PTE_FLAGS_PA2PTE [OF flag_bits_user, of ex_page] user_perm_ok(2) by simp
  have "us_inv ex_kend ex_state ex_root (upages 4096)"
    unfolding us_inv_def upages_4096
    using vi al fl ex_own ex_distinct ex_ok(3) ex_leaf by (simp add: ex_state_def ex_view(3))
  moreover have "PGROUNDDOWN va = 0" if "uacc ex_mem ex_root va" for va
    using that by (auto simp: uacc_def ex_view(3) pte_valid_bit split: if_splits)
  ultimately show ?thesis by (simp add: us_ok_def upages_4096 ex_state_def)
qed

lemma ex_uacc: "uacc ex_mem ex_root va \<longleftrightarrow> PGROUNDDOWN va = 0"
proof -
  have "bit (PA2PTE ex_page OR (user_perm OR PTE_V)) 0"
    by (simp add: bit_or_iff flag_bit_iffs)
  moreover have "bit ((PA2PTE ex_page OR (user_perm OR PTE_V)) AND PTE_U) 4"
    by (simp add: bit_or_iff bit_and_iff flag_bit_iffs user_perm_def)
  then have "(PA2PTE ex_page OR (user_perm OR PTE_V)) AND PTE_U \<noteq> 0" by auto
  ultimately show ?thesis by (simp add: uacc_def ex_view(3) pte_valid_bit)
qed

text \<open>An empty second table, on a page that nothing else uses.\<close>

definition ex_new :: u32 where "ex_new = 0x87FFC000"

lemma ex_new_empty:
  "page_ok ex_kend ex_new" "pt_wf ex_kend ex_mem ex_new" "pt_pages ex_mem ex_new = {ex_new}"
  "pt_get ex_mem ex_new va = 0"
proof -
  show ok: "page_ok ex_kend ex_new"
    by (simp add: page_ok_def ex_kend_def ex_new_def aligned_unat layout_defs)
  have al: "aligned ex_new" "aligned ex_root" "aligned ex_table"
    using ok ex_ok by (auto simp: page_ok_def)
  have "ex_new \<noteq> ex_root" "ex_new \<noteq> ex_table" by (simp_all add: ex_new_def ex_root_def ex_table_def)
  then have z: "load32 ex_mem (entry ex_new i) = 0" if "unat i < 1024" for i
    using that al by (simp add: ex_mem_def Let_def load32_store32_entry)
  show "pt_wf ex_kend ex_mem ex_new" "pt_pages ex_mem ex_new = {ex_new}" "pt_get ex_mem ex_new va = 0"
    using empty_table [OF ok z] by auto
qed

lemma ex_new_us: "us_inv ex_kend ex_state ex_new {}"
  using ex_free ex_new_empty by (auto simp: us_inv_def vm_inv_def kmem_inv_def ex_state_def)

lemma ex_copy_src: "copy_src ex_kend ex_state ex_root ex_new 4096"
proof -
  have own: "vm_own ex_kend ex_state ex_new = {ex_new}"
    using ex_free(2) ex_new_empty(3) by (simp add: vm_own_def ex_state_def)
  have "ex_new \<noteq> ex_root" "ex_new \<noteq> ex_table" "ex_new \<noteq> ex_page"
    by (simp_all add: ex_new_def ex_root_def ex_table_def ex_page_def)
  then show ?thesis
    using own ex_us_ok ex_view(1,2) ex_leaf
    by (auto simp: copy_src_def us_ok_def us_inv_def upages_4096 ex_state_def)
qed

section \<open>Properties\<close>

lemma PGROUNDDOWN_mono: "a \<le> b \<Longrightarrow> PGROUNDDOWN a \<le> PGROUNDDOWN b"
  by (simp add: word_le_nat_alt PGROUNDDOWN_unat minus_mod_eq_div_mult div_le_mono)

lemma PGROUNDDOWN_le: "PGROUNDDOWN a \<le> a"
  by (simp add: word_le_nat_alt PGROUNDDOWN_unat)

lemma mappages_range:
  assumes "0 < sz" "unat va + unat sz \<le> 2 ^ 32"
  defines "a \<equiv> PGROUNDDOWN va" and "b \<equiv> PGROUNDDOWN (va + sz - 1)"
  shows "unat (b - a) = unat b - unat a"
    "unat (v - a) \<le> unat (b - a) \<Longrightarrow> a \<le> v \<and> v \<le> va + sz - 1"
proof -
  have s1: "unat (sz - 1) = unat sz - 1" using assms(1) by (simp add: unat_pred_step)
  have "0 < unat sz" using assms(1) by (simp add: word_less_nat_alt)
  then have "unat (va + (sz - 1)) = unat va + unat sz - 1"
    using assms(2) s1 by (subst unat_plus_if') simp
  then have e: "unat (va + sz - 1) = unat va + unat sz - 1" by (simp add: add_diff_eq)
  then have "va \<le> va + sz - 1" using \<open>0 < unat sz\<close> by (simp add: word_le_nat_alt)
  then have ab: "a \<le> b" unfolding a_def b_def by (rule PGROUNDDOWN_mono)
  then show d: "unat (b - a) = unat b - unat a" by (simp add: word_le_nat_alt dist_base)
  have b: "b \<le> va + sz - 1" unfolding b_def by (rule PGROUNDDOWN_le)
  show "a \<le> v \<and> v \<le> va + sz - 1" if "unat (v - a) \<le> unat (b - a)"
  proof (cases "unat a \<le> unat v")
    case True
    then have "unat v \<le> unat b" using that d ab by (simp add: dist_base word_le_nat_alt)
    then show ?thesis using True b by (simp add: word_le_nat_alt)
  next
    case False
    then have "unat (v - a) = unat v + 4294967296 - unat a" by (simp add: dist_below)
    moreover have "unat b < 4294967296" "unat a < 4294967296" by simp_all
    ultimately have False using that d ab unfolding word_le_nat_alt by linarith
    then show ?thesis ..
  qed
qed

text \<open>C13: \<^verbatim>\<open>mappages\<close> on a range of unmapped pages never panics and always ends. It returns 0 and has
  then added exactly the requested translations (page \<open>a\<close> of the range goes to \<open>pa\<close> plus the
  distance of \<open>a\<close> from the start of the range), or it returns -1 when memory for a page-table page
  ran out, and has then added a prefix of them. In both cases the table stays well formed and
  no byte outside the table and the free pages changes.\<close>

theorem mappages_extends_map:
  assumes "vm_inv kend st root" and "0 < sz" and "unat va + unat sz \<le> 2 ^ 32"
    and "\<And>v. PGROUNDDOWN va \<le> PGROUNDDOWN v \<Longrightarrow> PGROUNDDOWN v \<le> va + sz - 1 \<Longrightarrow>
      \<not> pte_valid (pt_get (phys st) root v)"
  shows "\<exists>st' j r. mappages st root va sz pa perm = Inr (st', r) \<and>
    vm_step kend root st st' \<and>
    pt_get (phys st') root = map_pages (PGROUNDDOWN va) pa perm j (pt_get (phys st) root) \<and>
    (r = 0 \<and> 4096 * j = unat (PGROUNDDOWN (va + sz - 1)) - unat (PGROUNDDOWN va) + 4096 \<or>
     r = - 1 \<and> 4096 * j \<le> unat (PGROUNDDOWN (va + sz - 1)) - unat (PGROUNDDOWN va) \<and>
       free_pages kend st' = {})"
proof -
  let ?a = "PGROUNDDOWN va" and ?b = "PGROUNDDOWN (va + sz - 1)"
  define n where "n = unat (?b - ?a) div 4096"
  note r = mappages_range [OF assms(2,3)]
  have n: "unat (?b - ?a) = 4096 * n" unfolding n_def by (rule pages_between) simp_all
  have "4096 * n < 4294967296" unfolding n [symmetric] by simp
  then have lt: "n < 1048576" by simp
  have "\<not> pte_valid (pt_get (phys st) root v)" if "unat (PGROUNDDOWN v - ?a) \<le> 4096 * n" for v
    using assms(4) r(2) [of "PGROUNDDOWN v"] that n by auto
  from mappages_loop_spec [OF assms(1) _ _ n lt this, of pa perm] obtain st' j where
    m: "mappages_loop 1048576 st root ?a ?b pa perm = Inr (st', if j = Suc n then 0 else - 1)"
    "j \<le> Suc n" "vm_step kend root st st'" "j \<noteq> Suc n \<longrightarrow> free_pages kend st' = {}"
    "pt_get (phys st') root = map_pages ?a pa perm j (pt_get (phys st) root)"
    by auto
  have "4096 * j = unat ?b - unat ?a + 4096 \<longleftrightarrow> j = Suc n" "j \<noteq> Suc n \<longrightarrow> 4096 * j \<le> unat ?b - unat ?a"
    using r(1) n m(2) by auto
  then show ?thesis
    using m by (intro exI [of _ st'] exI [of _ j]) (auto simp: mappages_def)
qed

theorem mappages_extends_map_witness:
  "\<exists>st' j r. mappages ex_state ex_root 0x5000 0x2000 0x80001000 PTE_R = Inr (st', r) \<and>
    pt_get (phys st') ex_root 0 = pt_get ex_mem ex_root 0"
proof -
  have vi: "vm_inv ex_kend ex_state ex_root" using ex_us_ok by (simp add: us_ok_def us_inv_def)
  have a: "PGROUNDDOWN 0x5000 = 0x5000" by (simp add: aligned_unat)
  have un: "\<not> pte_valid (pt_get (phys ex_state) ex_root v)"
    if "PGROUNDDOWN 0x5000 \<le> PGROUNDDOWN v" for v
    using that a by (auto simp: ex_state_def ex_view(3) pte_valid_bit)
  obtain st' j r where m: "mappages ex_state ex_root 0x5000 0x2000 0x80001000 PTE_R = Inr (st', r)"
    "pt_get (phys st') ex_root =
      map_pages (PGROUNDDOWN 0x5000) 0x80001000 PTE_R j (pt_get (phys ex_state) ex_root)"
    "4096 * j \<le> unat (PGROUNDDOWN (0x5000 + 0x2000 - 1)) - unat (PGROUNDDOWN 0x5000) + 4096"
    using mappages_extends_map [of ex_kend ex_state ex_root "0x2000" "0x5000" "0x80001000" PTE_R] vi un
    by auto
  have "4096 * j \<le> 8192" using m(3) a by (simp add: PGROUNDDOWN_unat)
  moreover have "unat (PGROUNDDOWN 0 - 0x5000 :: u32) = 4294946816"
    by (simp add: dist_below PGROUNDDOWN_def)
  ultimately show ?thesis using m(1,2) a by (auto simp: map_pages_def ex_state_def)
qed

text \<open>C9: \<^verbatim>\<open>uvmalloc\<close> is all or nothing. Growing a process from \<open>old\<close> to \<open>new\<close> bytes either
  returns \<open>new\<close>, and then every new page is mapped readable, writable, executable and
  user-accessible to a page of its own that was free and is filled with zeros, while the old
  translations and every byte outside the table and the free pages are unchanged; or it returns 0,
  and then all translations and all pages in use are as before. This holds for every new size:
  a request beyond the physical memory fails before it reaches the trapframe page.\<close>

theorem uvmalloc_all_or_nothing:
  assumes "us_inv kend st root (upages old)" and "size_ok old" and "old \<le> new"
    and "\<And>va. old \<le> PGROUNDDOWN va \<Longrightarrow> PGROUNDDOWN va < new \<Longrightarrow> PGROUNDDOWN va \<le> PHYSTOP \<Longrightarrow>
      pt_get (phys st) root va = 0"
  shows "\<exists>st' r. uvmalloc kend st root old new = Inr (st', r) \<and>
    (r = new \<and> us_inv kend st' root (upages new) \<and>
       grew kend root (upages new - upages old) user_flags zeroed st st' \<or>
     r = 0 \<and> us_inv kend st' root (upages old) \<and>
       pt_get (phys st') root = pt_get (phys st) root \<and>
       vm_own kend st' root = vm_own kend st root \<and>
       (\<forall>b. outside (vm_own kend st root) b \<longrightarrow> phys st' b = phys st b))"
  using uvmalloc_spec [OF assms] by (auto simp: alloc_result_def undone_def fun_eq_iff)

theorem uvmalloc_all_or_nothing_witness:
  "\<exists>st' r. uvmalloc ex_kend ex_state ex_root 4096 12288 = Inr (st', r) \<and> (r = 12288 \<or> r = 0) \<and>
    leaf_pa (phys st') ex_root 0 = ex_page"
proof -
  have us: "us_inv ex_kend ex_state ex_root (upages 4096)" using ex_us_ok by (simp add: us_ok_def)
  have z: "pt_get (phys ex_state) ex_root va = 0" if "4096 \<le> PGROUNDDOWN va" for va
    using that by (auto simp: ex_state_def ex_view(3))
  have ok: "size_ok 4096" by (simp add: size_ok_unat)
  have 0: "PGROUNDDOWN 0 = 0" by (simp add: PGROUNDDOWN_def)
  have "0 \<notin> upages 12288 - upages 4096" by (simp add: upages_4096)
  then show ?thesis
    using uvmalloc_all_or_nothing [OF us ok _ z, of 12288] ex_leaf 0
    by (auto simp: grew_def leaf_pa_def ex_state_def)
qed

text \<open>C14: \<^verbatim>\<open>uvmdealloc\<close> from \<open>old\<close> down to \<open>new\<close> bytes returns \<open>new\<close>, unmaps exactly the pages of the
  process above \<open>new\<close>, gives their physical pages back to the allocator, and leaves the
  other translations and every other page alone.\<close>

theorem uvmdealloc_returns_pages:
  assumes "us_inv kend st root (upages old)" and "size_ok old" and "new \<le> old"
  shows "\<exists>st'. uvmdealloc kend st root old new = Inr (st', new) \<and>
    us_inv kend st' root (upages new) \<and>
    free_pages kend st' =
      free_pages kend st \<union> leaf_pa (phys st) root ` (upages old - upages new) \<and>
    (\<forall>va. pt_get (phys st') root va =
      (if PGROUNDDOWN va \<in> upages old - upages new then 0 else pt_get (phys st) root va)) \<and>
    (\<forall>b. outside (vm_own kend st root \<union> leaf_pa (phys st) root ` (upages old - upages new)) b \<longrightarrow>
      phys st' b = phys st b)"
proof -
  have "upages old - (upages old - upages new) = upages new"
    using assms(3) by (auto simp: upages_def)
  then show ?thesis
    using uvmdealloc_spec [OF assms(1) order_refl assms(2,3)] by (auto simp: unmapped_def)
qed

theorem uvmdealloc_returns_pages_witness:
  "\<exists>st'. uvmdealloc ex_kend ex_state ex_root 4096 100 = Inr (st', 100) \<and>
    free_pages ex_kend st' = {} \<and>
    (\<exists>st'. uvmdealloc ex_kend ex_state ex_root 4096 0 = Inr (st', 0) \<and>
      free_pages ex_kend st' = {ex_page})"
proof -
  have us: "us_inv ex_kend ex_state ex_root (upages 4096)" using ex_us_ok by (simp add: us_ok_def)
  have ok: "size_ok 4096" by (simp add: size_ok_unat)
  have "upages 4096 - upages 100 = {}"
    unfolding upages_4096 by (simp add: upages_def aligned_unat)
  then have "\<exists>st'. uvmdealloc ex_kend ex_state ex_root 4096 100 = Inr (st', 100) \<and>
      free_pages ex_kend st' = {}"
    using uvmdealloc_returns_pages [OF us ok, of 100] ex_free(2) by auto
  moreover have "upages 4096 - upages 0 = {0}" unfolding upages_4096 by simp
  then have "\<exists>st'. uvmdealloc ex_kend ex_state ex_root 4096 0 = Inr (st', 0) \<and>
      free_pages ex_kend st' = {ex_page}"
    using uvmdealloc_returns_pages [OF us ok, of 0] ex_free(2) ex_leaf by (auto simp: ex_state_def)
  ultimately show ?thesis by blast
qed

text \<open>C10: \<^verbatim>\<open>uvmcopy\<close> gives the child a private copy of the parent's memory. On success every page
  below \<open>sz\<close> is mapped in the new table with the parent's flags and contents, to a page that was free before and is free no
  more, that no page of the parent is and no other page of the child, and no other mapping of the child changes. On failure every entry of the
  child's table is as before and all the memory taken is given back to the child's table or the free list. The
  parent's table and pages do not change.\<close>

theorem uvmcopy_clones:
  assumes "us_inv kend st new {}" and "copy_src kend st old new sz" and "size_ok sz"
    and "\<And>va. PGROUNDDOWN va < sz \<Longrightarrow> pt_get (phys st) new va = 0"
  shows "\<exists>st' r. uvmcopy kend st old new sz = Inr (st', r) \<and>
    (r = 0 \<and> us_inv kend st' new (upages sz) \<and>
       (\<forall>a \<in> upages sz. PTE_FLAGS (pt_get (phys st') new a) = PTE_FLAGS (pt_get (phys st) old a) \<and>
         (\<forall>k. unat k < 4096 \<longrightarrow>
           phys st' (leaf_pa (phys st') new a + k) = phys st (leaf_pa (phys st) old a + k)) \<and>
         leaf_pa (phys st') new a \<in> free_pages kend st - free_pages kend st' \<and>
         (\<forall>b \<in> upages sz. leaf_pa (phys st') new a \<noteq> leaf_pa (phys st) old b \<and>
           (leaf_pa (phys st') new a = leaf_pa (phys st') new b \<longrightarrow> a = b))) \<and>
       (\<forall>va. PGROUNDDOWN va \<notin> upages sz \<longrightarrow> pt_get (phys st') new va = pt_get (phys st) new va) \<or>
     r = - 1 \<and> us_inv kend st' new {} \<and> vm_own kend st' new = vm_own kend st new \<and>
       (\<forall>va. pt_get (phys st') new va = pt_get (phys st) new va)) \<and>
    (\<forall>va. pt_get (phys st') old va = pt_get (phys st) old va) \<and>
    (\<forall>a \<in> upages sz. \<forall>b. in_page (leaf_pa (phys st) old a) b \<longrightarrow> phys st' b = phys st b)"
proof -
  have us: "us_inv kend st new (upages 0)" using assms(1) by simp
  have "unat (PGROUNDUP sz) = 4096 * (unat (PGROUNDUP sz) div 4096)"
    using pages_between [OF _ aligned_PGROUNDUP, of 0 sz] by (simp add: aligned_unat)
  then obtain j where j: "unat (PGROUNDUP sz) = unat (0 :: u32) + 4096 * j" by auto
  have "4096 * j < 4294967296" using unat_u32_lt [of "PGROUNDUP sz"] j by simp
  then have fuel: "j < 1048577" by simp
  obtain st' r where r: "uvmcopy kend st old new sz = Inr (st', r)"
    "copy_result kend old new 0 sz st (st', r)"
    using uvmcopy_loop_spec [OF us assms(2) _ assms(3) j fuel] assms(4)
    by (auto simp: uvmcopy_def aligned_unat)
  have own: "vm_own kend st' new \<subseteq> vm_own kend st new"
    and out: "\<And>b. outside (vm_own kend st new) b \<Longrightarrow> phys st' b = phys st b"
    using r(2) by (auto simp: copy_result_def grew_def undone_def)
  note fr = copy_src_frame [OF assms(2) us_inv_vm [OF assms(1)] out own]
  consider "r = 0" "us_inv kend st' new (upages sz)"
      "grew kend new (upages sz) (\<lambda>a. PTE_FLAGS (pt_get (phys st) old a)) (\<lambda>a k. phys st (leaf_pa (phys st) old a + k)) st st'"
    | "r = - 1" "us_inv kend st' new {}" "undone kend new {} st st'"
    using r(2) by (auto simp: copy_result_def)
  then show ?thesis
  proof cases
    case 1
    have "leaf_pa (phys st') new a \<in> free_pages kend st - free_pages kend st'" if "a \<in> upages sz" for a
      using 1 that by (auto simp: grew_def us_inv_def vm_own_def)
    moreover have "leaf_pa (phys st') new a \<noteq> leaf_pa (phys st) old b" if "a \<in> upages sz" "b \<in> upages sz" for a b
      using calculation [OF that(1)] that(2) assms(2) by (auto simp: copy_src_def vm_own_def)
    moreover have "leaf_pa (phys st') new a = leaf_pa (phys st') new b \<Longrightarrow> a = b" if "a \<in> upages sz" "b \<in> upages sz" for a b
      using 1(2) that by (auto simp: us_inv_def dest: inj_onD)
    ultimately show ?thesis using r(1) 1 fr(2,3) by (simp add: grew_def)
  next
    case 2
    then show ?thesis using r(1) fr(2,3) by (simp add: undone_def)
  qed
qed

theorem uvmcopy_clones_witness:
  "\<exists>st' r. uvmcopy ex_kend ex_state ex_root ex_new 4096 = Inr (st', r) \<and> (r = 0 \<or> r = - 1) \<and>
    pt_get (phys st') ex_root 0 = pt_get ex_mem ex_root 0"
proof -
  have "pt_get (phys ex_state) ex_new va = 0" for va
    using ex_new_empty(4) by (simp add: ex_state_def)
  moreover have "size_ok 4096" by (simp add: size_ok_unat)
  ultimately show ?thesis
    using uvmcopy_clones [OF ex_new_us ex_copy_src] by (auto simp: ex_state_def)
qed

text \<open>C12: \<^verbatim>\<open>uvmfree\<close> on an address space whose only mappings are the process's own pages frees
  everything: afterwards the free pages are those that were free, the pages of the table and
  the pages of the process, and no other byte has changed.\<close>

theorem uvmfree_returns_everything:
  assumes "us_inv kend st root (upages sz)" and "size_ok sz"
    and "\<And>va. pte_valid (pt_get (phys st) root va) \<Longrightarrow> PGROUNDDOWN va < sz"
  shows "\<exists>st'. uvmfree kend st root sz = Inr st' \<and> kmem_inv kend st' \<and>
    free_pages kend st' =
      free_pages kend st \<union> pt_pages (phys st) root \<union> leaf_pa (phys st) root ` upages sz \<and>
    (\<forall>b. outside (free_pages kend st') b \<longrightarrow> phys st' b = phys st b)"
  using uvmfree_spec [OF assms] by (auto simp: vm_own_def Un_commute Un_left_commute)

theorem uvmfree_returns_everything_witness:
  "\<exists>st'. uvmfree ex_kend ex_state ex_root 4096 = Inr st' \<and>
    free_pages ex_kend st' = {ex_root, ex_table, ex_page}"
proof -
  have us: "us_inv ex_kend ex_state ex_root (upages 4096)" using ex_us_ok by (simp add: us_ok_def)
  have "PGROUNDDOWN va < 4096" if "pte_valid (pt_get (phys ex_state) ex_root va)" for va
    using that by (auto simp: ex_state_def ex_view(3) pte_valid_bit split: if_splits)
  moreover have "size_ok 4096" by (simp add: size_ok_unat)
  ultimately show ?thesis
    using uvmfree_returns_everything [OF us] ex_free(2) ex_view(2) ex_leaf
    by (auto simp: upages_4096 ex_state_def)
qed

text \<open>C15: \<^verbatim>\<open>copyout\<close> writes the bytes of a kernel buffer to the user's virtual addresses and nothing
  else: it returns 0 exactly when all of them are mapped with user access, and otherwise -1 after
  having written the bytes up to the first page that is not; no byte outside the addressed
  user bytes changes, and the page table stays as it is.\<close>

theorem copyout_writes_exactly:
  assumes "us_ok kend st root S" and "unat dstva + unat len \<le> 2 ^ 32"
    and "unat src + unat len < 2 ^ 32"
    and "\<And>k. unat k < unat len \<Longrightarrow> outside (leaf_pa (phys st) root ` S) (src + k)"
  shows "\<exists>st' r c. copyout st root dstva src len = Inr (st', r) \<and> c \<le> unat len \<and>
    (if c = unat len then r = 0 else r = - 1 \<and> \<not> uacc (phys st) root (dstva + of_nat c)) \<and>
    us_ok kend st' root S \<and> pt_get (phys st') root = pt_get (phys st) root \<and>
    (\<forall>k. unat k < c \<longrightarrow>
      uacc (phys st) root (dstva + k) \<and> ubyte (phys st') root (dstva + k) = phys st (src + k)) \<and>
    (\<forall>b. (\<forall>k. unat k < c \<longrightarrow> b \<noteq> paddr (phys st) root (dstva + k)) \<longrightarrow> phys st' b = phys st b)"
proof -
  obtain st' r c where r: "copyout st root dstva src len = Inr (st', r)" "c \<le> unat len"
    "if c = unat len then r = 0 else r = - 1 \<and> \<not> uacc (phys st) root (dstva + of_nat c)"
    "us_ok kend st' root S" "pt_get (phys st') root = pt_get (phys st) root"
    "copied_out (phys st) root dstva src c (phys st')"
    using copyout_spec [of kend st root S dstva len src] assms by auto
  have "paddr (phys st') root = paddr (phys st) root"
    using r(5) by (simp add: paddr_def leaf_pa_def fun_eq_iff)
  then show ?thesis
    using r by (intro exI [of _ st'] exI [of _ r] exI [of _ c]) (simp add: copied_out_def ubyte_def)
qed

lemma ex_buffer: "unat k < 5 \<Longrightarrow> outside {ex_root, ex_table, ex_page} (0x80000000 + k)"
proof -
  assume k: "unat k < 5"
  have "\<not> in_page p (0x80000000 + k)" if "unat p - 0x80000000 \<ge> 4096" "unat p < 4294967296 - 8192" for p
  proof -
    have "unat (0x80000000 + k) = 0x80000000 + unat k" using k by (simp add: unat_plus_if')
    then show ?thesis using that k by (simp add: in_page_def dist_below)
  qed
  then show ?thesis by (simp add: outside_def ex_root_def ex_table_def ex_page_def)
qed

theorem copyout_writes_exactly_witness:
  "\<exists>st'. copyout ex_state ex_root 10 0x80000000 5 = Inr (st', 0) \<and>
    ubyte (phys st') ex_root 12 = ex_mem 0x80000002"
proof -
  have "outside (leaf_pa (phys ex_state) ex_root ` upages 4096) (0x80000000 + k)"
    if "unat k < unat (5 :: u32)" for k
    using ex_buffer [of k] that by (simp add: upages_4096 ex_leaf ex_state_def outside_def)
  then obtain st' r c where r: "copyout ex_state ex_root 10 0x80000000 5 = Inr (st', r)" "c \<le> 5"
    "if c = 5 then r = 0 else r = - 1 \<and> \<not> uacc ex_mem ex_root (10 + of_nat c)"
    "\<forall>k. unat k < c \<longrightarrow> ubyte (phys st') ex_root (10 + k) = ex_mem (0x80000000 + k)"
    using copyout_writes_exactly [OF ex_us_ok, where dstva = 10 and len = 5 and src = "0x80000000"] 
      by (auto simp: ex_state_def cong: if_cong)
  have "c = 0 \<or> c = 1 \<or> c = 2 \<or> c = 3 \<or> c = 4 \<or> c = 5" using r(2) by auto
  then have "c = 5" using r(3) by (auto simp: ex_uacc PGROUNDDOWN_def PGSIZE_def)
  then show ?thesis using r(1,3) r(4) [rule_format, of 2] by simp
qed

text \<open>C16: \<^verbatim>\<open>copyin\<close> reads user memory only where the user may access it: it returns 0 exactly when all
  the requested bytes are accessible and has then put them into the kernel's buffer, it
  returns -1 at the first page that is not, and it changes nothing but the buffer.\<close>

theorem copyin_reads_exactly:
  assumes "us_ok kend st root S" and "unat srcva + unat len \<le> 2 ^ 32"
    and "unat dst + unat len < 2 ^ 32" and "kbuf kend st root S dst (unat len)"
  shows "\<exists>st' r c. copyin st root dst srcva len = Inr (st', r) \<and> c \<le> unat len \<and>
    (if c = unat len then r = 0 else r = - 1 \<and> \<not> uacc (phys st) root (srcva + of_nat c)) \<and>
    us_ok kend st' root S \<and> pt_get (phys st') root = pt_get (phys st) root \<and>
    (\<forall>k. unat k < c \<longrightarrow>
      uacc (phys st) root (srcva + k) \<and> phys st' (dst + k) = ubyte (phys st) root (srcva + k)) \<and>
    (\<forall>b. \<not> unat (b - dst) < c \<longrightarrow> phys st' b = phys st b)"
  using copyin_spec [OF assms(1) _ _ assms(4), of srcva] assms(2,3) by (auto simp: copied_in_def)

theorem copyin_reads_exactly_witness:
  "\<exists>st'. copyin ex_state ex_root 0x80000000 4094 5 = Inr (st', - 1) \<and>
    phys st' 0x80000001 = ubyte ex_mem ex_root 4095"
proof -
  have own: "vm_own ex_kend ex_state ex_root \<union> leaf_pa (phys ex_state) ex_root ` upages 4096 =
      {ex_root, ex_table, ex_page}"
    using ex_own by (auto simp: upages_4096 ex_leaf ex_state_def)
  have "kbuf ex_kend ex_state ex_root (upages 4096) 0x80000000 (unat (5 :: u32))"
    unfolding kbuf_def own using ex_buffer by simp
  then obtain st' r c where r: "copyin ex_state ex_root 0x80000000 4094 5 = Inr (st', r)" "c \<le> 5"
    "if c = 5 then r = 0 else r = - 1 \<and> \<not> uacc ex_mem ex_root (4094 + of_nat c)"
    "\<forall>k. unat k < c \<longrightarrow> uacc ex_mem ex_root (4094 + k) \<and>
      phys st' (0x80000000 + k) = ubyte ex_mem ex_root (4094 + k)"
    using copyin_reads_exactly [OF ex_us_ok, where srcva = 4094 and len = 5 and dst = "0x80000000"] 
      by (auto simp: ex_state_def cong: if_cong)
  have "c = 0 \<or> c = 1 \<or> c = 2 \<or> c = 3 \<or> c = 4 \<or> c = 5" using r(2) by auto
  then have "c = 2"
    using r(3) r(4) [rule_format, of 2] by (auto simp: ex_uacc PGROUNDDOWN_def PGSIZE_def)
  then show ?thesis using r(1,3) r(4) [rule_format, of 1] by simp
qed

end
