(* ===== verification/Proc.thy ===== *)
theory Proc
  imports Vm_Buf Vm_Props
begin

text \<open>
  \<^verbatim>\<open>kernel/proc.c\<close>: the process table, the life of a process up to its files and current
  directory (\<^verbatim>\<open>fork\<close> and \<^verbatim>\<open>exit\<close> also need the file system and are in a theory of their own),
  and sleeping and waking. A function of this theory is what one kernel thread does while it
  holds the locks the source takes; a thread that sleeps stops with the channel it waits on.
\<close>

section \<open>Processes\<close>

datatype procstate = UNUSED | USED | SLEEPING | RUNNABLE | RUNNING | ZOMBIE

text \<open>
  The addresses that the kernel sleeps on. \<open>ChNone\<close> is the null pointer; \<open>ChProc\<close> is the address
  of a process, the others name the object whose address the source passes to \<^verbatim>\<open>sleep\<close>.
\<close>

datatype chan =
    ChNone | ChProc nat | ChPipeRead u32 | ChPipeWrite u32 | ChCons | ChUart | ChTicks | ChLog
  | ChBufLock nat | ChInodeLock nat | ChBuf nat | ChDesc | ChTcp nat | ChUdp nat

text \<open>\<^verbatim>\<open>struct context\<close>: \<open>cs\<close> are the callee-saved registers \<^verbatim>\<open>s0\<close> to \<^verbatim>\<open>s11\<close>.\<close>

record kcontext =
  ra :: u32
  sp :: u32
  cs :: "nat \<Rightarrow> u32"

text \<open>
  \<^verbatim>\<open>struct proc\<close>. A C \<^verbatim>\<open>int\<close> is a 32-bit word; pointers to processes, files and inodes are the
  indices of their tables. The trapframe and the page table are pages of the physical memory.
\<close>

record proc =
  pstate :: procstate
  pchan :: chan
  killed :: bool
  xstate :: u32
  pid :: u32
  parent :: "nat option"
  kstack :: u32
  psz :: u32
  pagetable :: u32
  trapframe :: u32
  pcontext :: kcontext
  ofile :: "nat \<Rightarrow> nat option"
  cwd :: "nat option"
  pname :: string

record ptable =
  mm :: kstate
  procs :: "nat \<Rightarrow> proc"
  nextpid :: u32
  initproc :: "nat option"

text \<open>Addresses that the linker fixes.\<close>

record ksyms =
  ksym_end :: u32
  ksym_trampoline :: u32
  ksym_forkret :: u32

definition NPROC :: nat where "NPROC = 64"
definition NOFILE :: nat where "NOFILE = 16"

definition upd_proc :: "nat \<Rightarrow> (proc \<Rightarrow> proc) \<Rightarrow> ptable \<Rightarrow> ptable" where
  "upd_proc i f st = st\<lparr>procs := (procs st)(i := f (procs st i))\<rparr>"

text \<open>Offsets of the fields of \<^verbatim>\<open>struct trapframe\<close>.\<close>

definition TF_kernel_satp :: u32 where "TF_kernel_satp = 0"
definition TF_kernel_sp :: u32 where "TF_kernel_sp = 4"
definition TF_kernel_trap :: u32 where "TF_kernel_trap = 8"
definition TF_epc :: u32 where "TF_epc = 12"
definition TF_kernel_hartid :: u32 where "TF_kernel_hartid = 16"
definition TF_sp :: u32 where "TF_sp = 24"
definition TF_a0 :: u32 where "TF_a0 = 56"
definition TF_a7 :: u32 where "TF_a7 = 84"
definition TF_size :: u32 where "TF_size = 144"

section \<open>Boot and allocation\<close>

definition procinit :: "ptable \<Rightarrow> ptable" where
  "procinit st =
    st\<lparr>procs := (\<lambda>i. if i < NPROC then (procs st i)\<lparr>kstack := KSTACK (of_nat i)\<rparr> else procs st i)\<rparr>"

definition allocpid :: "ptable \<Rightarrow> ptable \<times> u32" where
  "allocpid st = (let p = nextpid st in (st\<lparr>nextpid := nextpid st + 1\<rparr>, p))"

definition proc_pagetable :: "ksyms \<Rightarrow> kstate \<Rightarrow> u32 \<Rightarrow> (kstate \<times> u32) res" where
  "proc_pagetable ks st tf =
    (let (st, pt) = uvmcreate st
     in if pt = 0 then Inr (st, 0)
        else
          ebind (mappages st pt TRAMPOLINE PGSIZE (ksym_trampoline ks) (PTE_R OR PTE_X)) (\<lambda>(st, r).
            if r < 0 then ebind (uvmfree (ksym_end ks) st pt 0) (\<lambda>st. Inr (st, 0))
            else
              ebind (mappages st pt TRAPFRAME PGSIZE tf (PTE_R OR PTE_W)) (\<lambda>(st, r).
                if r < 0
                then ebind (uvmunmap (ksym_end ks) st pt TRAMPOLINE 1 False) (\<lambda>st.
                  ebind (uvmfree (ksym_end ks) st pt 0) (\<lambda>st. Inr (st, 0)))
                else Inr (st, pt))))"

definition proc_freepagetable :: "ksyms \<Rightarrow> kstate \<Rightarrow> u32 \<Rightarrow> u32 \<Rightarrow> kstate res" where
  "proc_freepagetable ks st pt sz =
    ebind (uvmunmap (ksym_end ks) st pt TRAMPOLINE 1 False) (\<lambda>st.
    ebind (uvmunmap (ksym_end ks) st pt TRAPFRAME 1 False) (\<lambda>st.
    uvmfree (ksym_end ks) st pt sz))"

definition freeproc :: "ksyms \<Rightarrow> nat \<Rightarrow> ptable \<Rightarrow> ptable res" where
  "freeproc ks i st =
    (let p = procs st i
     in ebind (if trapframe p \<noteq> 0 then kfree (ksym_end ks) (mm st) (trapframe p) else Inr (mm st)) (\<lambda>m.
        ebind (if pagetable p \<noteq> 0 then proc_freepagetable ks m (pagetable p) (psz p) else Inr m) (\<lambda>m.
        Inr (upd_proc i (\<lambda>p. p\<lparr>trapframe := 0, pagetable := 0, psz := 0, pid := 0, parent := None,
          pname := [], pchan := ChNone, killed := False, xstate := 0, pstate := UNUSED\<rparr>)
          (st\<lparr>mm := m\<rparr>)))))"

text \<open>
  \<^verbatim>\<open>allocproc\<close>: the search loop stops at the first unused slot. A null result is \<^term>\<open>None\<close>.
\<close>

definition fresh_context :: "ksyms \<Rightarrow> proc \<Rightarrow> kcontext" where
  "fresh_context ks p =
    \<lparr>ra = ksym_forkret ks, sp = kstack p + PGSIZE, cs = (\<lambda>_. 0)\<rparr>"

definition allocproc :: "ksyms \<Rightarrow> ptable \<Rightarrow> (ptable \<times> nat option) res" where
  "allocproc ks st =
    (case find (\<lambda>i. pstate (procs st i) = UNUSED) [0..<NPROC] of
       None \<Rightarrow> Inr (st, None)
     | Some i \<Rightarrow>
         let (st, n) = allocpid st;
             st = upd_proc i (\<lambda>p. p\<lparr>pid := n, pstate := USED\<rparr>) st;
             (m, tf) = kalloc (mm st);
             st = upd_proc i (\<lambda>p. p\<lparr>trapframe := tf\<rparr>) (st\<lparr>mm := m\<rparr>)
         in if tf = 0 then ebind (freeproc ks i st) (\<lambda>st. Inr (st, None))
            else
              ebind (proc_pagetable ks (mm st) tf) (\<lambda>(m, pt).
                let st = upd_proc i (\<lambda>p. p\<lparr>pagetable := pt\<rparr>) (st\<lparr>mm := m\<rparr>)
                in if pt = 0 then ebind (freeproc ks i st) (\<lambda>st. Inr (st, None))
                   else Inr (upd_proc i (\<lambda>p. p\<lparr>pcontext := fresh_context ks p\<rparr>) st, Some i)))"

section \<open>Memory of a process\<close>

text \<open>\<^verbatim>\<open>growproc\<close>: \<open>n\<close> is a C \<^verbatim>\<open>int\<close>; the addition \<^verbatim>\<open>sz + n\<close> is unsigned.\<close>

definition growproc :: "ksyms \<Rightarrow> nat \<Rightarrow> u32 \<Rightarrow> ptable \<Rightarrow> (ptable \<times> int) res" where
  "growproc ks i n st =
    (let p = procs st i; sz = psz p
     in if sint n > 0
        then
          ebind (uvmalloc (ksym_end ks) (mm st) (pagetable p) sz (sz + n)) (\<lambda>(m, sz).
            if sz = 0 then Inr (st\<lparr>mm := m\<rparr>, - 1)
            else Inr (upd_proc i (\<lambda>p. p\<lparr>psz := sz\<rparr>) (st\<lparr>mm := m\<rparr>), 0))
        else if sint n < 0
        then
          ebind (uvmdealloc (ksym_end ks) (mm st) (pagetable p) sz (sz + n)) (\<lambda>(m, sz).
            Inr (upd_proc i (\<lambda>p. p\<lparr>psz := sz\<rparr>) (st\<lparr>mm := m\<rparr>), 0))
        else Inr (st, 0))"

text \<open>
  The copies to and from an address that is the user's or the kernel's; a local variable of the
  kernel is no part of the memory, so that its bytes are the argument or the result.
\<close>

datatype place = User u32 | Kernel u32 | Local

fun place_add :: "place \<Rightarrow> nat \<Rightarrow> place" where
  "place_add (User a) n = User (a + of_nat n)"
| "place_add (Kernel a) n = Kernel (a + of_nat n)"
| "place_add Local n = Local"

definition either_copyout :: "u32 \<Rightarrow> kstate \<Rightarrow> place \<Rightarrow> u8 list \<Rightarrow> (kstate \<times> int) res" where
  "either_copyout pt m dst bs =
    (case dst of
       User a \<Rightarrow> copyout_buf m pt a bs
     | Kernel a \<Rightarrow> Inr (m\<lparr>phys := write_bytes (phys m) a bs\<rparr>, 0)
     | Local \<Rightarrow> Inr (m, 0))"

definition either_copyin :: "u32 \<Rightarrow> kstate \<Rightarrow> place \<Rightarrow> u8 list \<Rightarrow> nat \<Rightarrow> (u8 list \<times> int) res" where
  "either_copyin pt m src local len =
    (case src of
       User a \<Rightarrow> copyin_buf m pt a len
     | Kernel a \<Rightarrow> Inr (read_bytes (phys m) a len, 0)
     | Local \<Rightarrow> Inr (take len local, 0))"

section \<open>Sleeping and waking\<close>

text \<open>\<open>me\<close> is the process that \<^verbatim>\<open>myproc()\<close> returns, if any.\<close>

definition wakeup :: "nat option \<Rightarrow> chan \<Rightarrow> ptable \<Rightarrow> ptable" where
  "wakeup me ch st =
    st\<lparr>procs := (\<lambda>i.
      let p = procs st i
      in if i < NPROC \<and> Some i \<noteq> me \<and> pstate p = SLEEPING \<and> pchan p = ch
         then p\<lparr>pstate := RUNNABLE\<rparr> else p)\<rparr>"

text \<open>
  \<^verbatim>\<open>sleep\<close> up to the switch to the scheduler, and what is left of it once the process runs again.
\<close>

definition sleep_on :: "nat \<Rightarrow> chan \<Rightarrow> ptable \<Rightarrow> ptable" where
  "sleep_on me ch st = upd_proc me (\<lambda>p. p\<lparr>pchan := ch, pstate := SLEEPING\<rparr>) st"

definition sleep_done :: "nat \<Rightarrow> ptable \<Rightarrow> ptable" where
  "sleep_done me st = upd_proc me (\<lambda>p. p\<lparr>pchan := ChNone\<rparr>) st"

definition kill :: "u32 \<Rightarrow> ptable \<Rightarrow> ptable \<times> int" where
  "kill n st =
    (case find (\<lambda>i. pid (procs st i) = n) [0..<NPROC] of
       None \<Rightarrow> (st, - 1)
     | Some i \<Rightarrow>
         (upd_proc i (\<lambda>p.
            let p = p\<lparr>killed := True\<rparr>
            in if pstate p = SLEEPING then p\<lparr>pstate := RUNNABLE\<rparr> else p) st, 0))"

section \<open>Parents and children\<close>

text \<open>\<^verbatim>\<open>reparent\<close>: the loop over the table.\<close>

fun reparent_loop :: "nat option \<Rightarrow> nat \<Rightarrow> nat list \<Rightarrow> ptable \<Rightarrow> ptable" where
  "reparent_loop me p [] st = st"
| "reparent_loop me p (i # is) st =
    (if parent (procs st i) = Some p
     then
       let st = upd_proc i (\<lambda>q. q\<lparr>parent := initproc st\<rparr>) st
       in reparent_loop me p is
            (wakeup me (case initproc st of Some j \<Rightarrow> ChProc j | None \<Rightarrow> ChNone) st)
     else reparent_loop me p is st)"

definition reparent :: "nat \<Rightarrow> ptable \<Rightarrow> ptable" where
  "reparent p st = reparent_loop (Some p) p [0..<NPROC] st"

text \<open>
  The part of \<^verbatim>\<open>exit\<close> that runs under \<^verbatim>\<open>wait_lock\<close>, after the files are closed: it hands the
  children over, wakes the parent and makes the process a zombie.
\<close>

definition exit_zombie :: "nat \<Rightarrow> u32 \<Rightarrow> ptable \<Rightarrow> ptable" where
  "exit_zombie p status st =
    (let st = reparent p st;
         st = wakeup (Some p) (case parent (procs st p) of Some j \<Rightarrow> ChProc j | None \<Rightarrow> ChNone) st
     in upd_proc p (\<lambda>q. q\<lparr>xstate := status, pstate := ZOMBIE\<rparr>) st)"

text \<open>
  A kernel thread that may sleep runs up to its return or up to the next \<^verbatim>\<open>sleep\<close>.
\<close>

datatype 'a progress = Return 'a | Sleeps chan

text \<open>
  \<^verbatim>\<open>wait\<close>, one pass of its \<^verbatim>\<open>for(;;)\<close>: the scan of the table for a zombie child. It stops at the
  first one (\<open>Inr\<close> its result) or reports whether there are children (\<open>Inl\<close>).
\<close>

definition xstate_bytes :: "u32 \<Rightarrow> u8 list" where
  "xstate_bytes x = map (\<lambda>k. byte32 k x) [0..<4]"

fun wait_scan ::
  "ksyms \<Rightarrow> nat \<Rightarrow> u32 \<Rightarrow> bool \<Rightarrow> nat list \<Rightarrow> ptable \<Rightarrow> (ptable \<times> (bool + u32)) res" where
  "wait_scan ks p addr havekids [] st = Inr (st, Inl havekids)"
| "wait_scan ks p addr havekids (i # is) st =
    (if parent (procs st i) = Some p
     then
       if pstate (procs st i) = ZOMBIE
       then
         let n = pid (procs st i)
         in ebind (if addr \<noteq> 0
                   then copyout_buf (mm st) (pagetable (procs st p)) addr
                     (xstate_bytes (xstate (procs st i)))
                   else Inr (mm st, 0)) (\<lambda>(m, r).
              if r < 0 then Inr (st\<lparr>mm := m\<rparr>, Inr (- 1))
              else ebind (freeproc ks i (st\<lparr>mm := m\<rparr>)) (\<lambda>st. Inr (st, Inr n)))
       else wait_scan ks p addr True is st
     else wait_scan ks p addr havekids is st)"

definition wait :: "ksyms \<Rightarrow> nat \<Rightarrow> u32 \<Rightarrow> ptable \<Rightarrow> (ptable \<times> u32 progress) res" where
  "wait ks p addr st =
    ebind (wait_scan ks p addr False [0..<NPROC] st) (\<lambda>(st, r).
      case r of
        Inr n \<Rightarrow> Inr (st, Return n)
      | Inl havekids \<Rightarrow>
          if \<not> havekids \<or> killed (procs st p) then Inr (st, Return (- 1))
          else Inr (sleep_on p (ChProc p) st, Sleeps (ChProc p)))"

end
