(* ===== verification/Proc_Mem.thy ===== *)
theory Proc_Mem
  imports Proc
begin

text \<open>
  Ownership of physical memory by processes: the pages of a process are its trapframe, the pages
  of its page table and its user pages. Every operation of \<^verbatim>\<open>kernel/proc.c\<close> on one process only
  moves pages between that process and the free list, so that processes never share a page and
  no page is lost.
\<close>

section \<open>The pages of a process\<close>

definition proc_pages :: "mem \<Rightarrow> proc \<Rightarrow> u32 set" where
  "proc_pages m p =
    (if trapframe p \<noteq> 0 then {trapframe p} else {}) \<union>
    (if pagetable p \<noteq> 0
     then pt_pages m (pagetable p) \<union> leaf_pa m (pagetable p) ` upages (psz p) else {})"

definition tramp_pte :: "ksyms \<Rightarrow> u32" where
  "tramp_pte ks = PA2PTE (ksym_trampoline ks) OR (PTE_R OR PTE_X) OR PTE_V"

definition tf_pte :: "u32 \<Rightarrow> u32" where
  "tf_pte tf = PA2PTE tf OR (PTE_R OR PTE_W) OR PTE_V"

text \<open>The user page table of a process: its pages below \<open>sz\<close>, the trampoline, the trapframe.\<close>

definition table_ok :: "ksyms \<Rightarrow> kstate \<Rightarrow> u32 \<Rightarrow> u32 \<Rightarrow> u32 \<Rightarrow> bool" where
  "table_ok ks m pt tf sz \<longleftrightarrow>
    us_inv (ksym_end ks) m pt (upages sz) \<and> sz \<le> TRAPFRAME \<and>
    (\<forall>va. PGROUNDDOWN va = TRAMPOLINE \<longrightarrow> pt_get (phys m) pt va = tramp_pte ks) \<and>
    (\<forall>va. PGROUNDDOWN va = TRAPFRAME \<longrightarrow> pt_get (phys m) pt va = tf_pte tf) \<and>
    (\<forall>va. PGROUNDDOWN va \<notin> upages sz \<and> PGROUNDDOWN va \<noteq> TRAMPOLINE \<and> PGROUNDDOWN va \<noteq> TRAPFRAME \<longrightarrow>
      pt_get (phys m) pt va = 0)"

definition as_wf :: "ksyms \<Rightarrow> kstate \<Rightarrow> proc \<Rightarrow> bool" where
  "as_wf ks m p \<longleftrightarrow>
    (trapframe p \<noteq> 0 \<longrightarrow>
      page_ok (ksym_end ks) (trapframe p) \<and> trapframe p \<notin> free_pages (ksym_end ks) m) \<and>
    (pagetable p \<noteq> 0 \<longrightarrow>
      trapframe p \<noteq> 0 \<and> table_ok ks m (pagetable p) (trapframe p) (psz p) \<and>
      trapframe p \<notin> pt_pages (phys m) (pagetable p) \<union>
        leaf_pa (phys m) (pagetable p) ` upages (psz p))"

lemma table_ok_parts:
  assumes "table_ok ks m pt tf sz"
  shows "us_inv (ksym_end ks) m pt (upages sz)" "vm_inv (ksym_end ks) m pt" "size_ok sz"
    "kmem_inv (ksym_end ks) m" "pt_wf (ksym_end ks) (phys m) pt"
proof -
  show "us_inv (ksym_end ks) m pt (upages sz)" using assms by (simp add: table_ok_def)
  then show "vm_inv (ksym_end ks) m pt" by (rule us_inv_vm)
  then show "kmem_inv (ksym_end ks) m" "pt_wf (ksym_end ks) (phys m) pt" by (auto simp: vm_inv_def)
  have "TRAPFRAME \<le> TRAMPOLINE" by (simp add: layout_defs)
  then show "size_ok sz" using assms by (auto simp: table_ok_def size_ok_def)
qed

lemma proc_pages_ok:
  assumes "as_wf ks m p" "q \<in> proc_pages (phys m) p"
  shows "page_ok (ksym_end ks) q" "q \<notin> free_pages (ksym_end ks) m"
proof -
  have "page_ok (ksym_end ks) q \<and> q \<notin> free_pages (ksym_end ks) m"
  proof (cases "q = trapframe p")
    case True
    then show ?thesis
      using assms by (auto simp: as_wf_def proc_pages_def split: if_splits)
  next
    case False
    then have t: "table_ok ks m (pagetable p) (trapframe p) (psz p)"
      and q: "q \<in> pt_pages (phys m) (pagetable p) \<union>
        leaf_pa (phys m) (pagetable p) ` upages (psz p)"
      using assms by (auto simp: as_wf_def proc_pages_def split: if_splits)
    show ?thesis
      using q table_ok_parts(1,2) [OF t] pt_wf_pages [OF table_ok_parts(5) [OF t]]
      by (auto simp: us_inv_def vm_inv_def vm_own_def)
  qed
  then show "page_ok (ksym_end ks) q" "q \<notin> free_pages (ksym_end ks) m" by auto
qed

text \<open>A process is not affected by changes outside its pages.\<close>

lemma table_frame:
  assumes t: "table_ok ks m pt tf sz" and k: "kmem_inv (ksym_end ks) m'"
    and d: "(pt_pages (phys m) pt \<union> leaf_pa (phys m) pt ` upages sz) \<inter> free_pages (ksym_end ks) m' = {}"
    and same: "\<And>q b. q \<in> pt_pages (phys m) pt \<Longrightarrow> in_page q b \<Longrightarrow> phys m' b = phys m b"
  shows "table_ok ks m' pt tf sz" "pt_pages (phys m') pt = pt_pages (phys m) pt"
    "pt_get (phys m') pt = pt_get (phys m) pt" "leaf_pa (phys m') pt = leaf_pa (phys m) pt"
proof -
  note p = table_ok_parts [OF t]
  have sr: "same_root (phys m) (phys m') pt" by (rule pt_frame(1) [OF p(5)]) (rule same)
  show pg: "pt_pages (phys m') pt = pt_pages (phys m) pt" by (rule same_root_pages [OF sr])
  show get: "pt_get (phys m') pt = pt_get (phys m) pt"
    by (rule ext, rule pt_frame(2) [OF p(5)]) (rule same)
  show lf: "leaf_pa (phys m') pt = leaf_pa (phys m) pt" using get by (simp add: leaf_pa_def fun_eq_iff)
  have "vm_inv (ksym_end ks) m' pt"
    using k d same_root_wf [OF sr p(5)] by (auto simp: vm_inv_def pg)
  then have "us_inv (ksym_end ks) m' pt (upages sz)"
    using p(1) d unfolding us_inv_def vm_own_def by (auto simp: get lf pg)
  then show "table_ok ks m' pt tf sz" using t unfolding table_ok_def by (simp add: get)
qed

lemma as_frame:
  assumes "as_wf ks m p" and "kmem_inv (ksym_end ks) m'"
    and "proc_pages (phys m) p \<inter> free_pages (ksym_end ks) m' = {}"
    and "\<And>q b. q \<in> proc_pages (phys m) p \<Longrightarrow> in_page q b \<Longrightarrow> phys m' b = phys m b"
  shows "as_wf ks m' p" "proc_pages (phys m') p = proc_pages (phys m) p"
proof -
  have "as_wf ks m' p \<and> proc_pages (phys m') p = proc_pages (phys m) p"
  proof (cases "pagetable p = 0")
    case True
    then show ?thesis using assms(1,3) by (auto simp: as_wf_def proc_pages_def split: if_splits)
  next
    case False
    then have t: "table_ok ks m (pagetable p) (trapframe p) (psz p)" "trapframe p \<noteq> 0"
      using assms(1) by (auto simp: as_wf_def)
    have d: "(pt_pages (phys m) (pagetable p) \<union> leaf_pa (phys m) (pagetable p) ` upages (psz p)) \<inter>
        free_pages (ksym_end ks) m' = {}" "trapframe p \<notin> free_pages (ksym_end ks) m'"
      using assms(3) False t(2) by (auto simp: proc_pages_def)
    have same: "phys m' b = phys m b"
      if "q \<in> pt_pages (phys m) (pagetable p)" "in_page q b" for q b
      using assms(4) that False by (auto simp: proc_pages_def)
    note f = table_frame [OF t(1) assms(2) d(1), OF same]
    show ?thesis
      using assms(1) False d f by (auto simp: as_wf_def proc_pages_def)
  qed
  then show "as_wf ks m' p" "proc_pages (phys m') p = proc_pages (phys m) p" by auto
qed

section \<open>Steps of one process\<close>

definition own_step :: "ksyms \<Rightarrow> kstate \<Rightarrow> proc \<Rightarrow> kstate \<Rightarrow> proc \<Rightarrow> bool" where
  "own_step ks m p m' p' \<longleftrightarrow>
    kmem_inv (ksym_end ks) m' \<and> as_wf ks m' p' \<and>
    proc_pages (phys m') p' \<union> free_pages (ksym_end ks) m' =
      proc_pages (phys m) p \<union> free_pages (ksym_end ks) m \<and>
    (\<forall>b. outside (proc_pages (phys m) p \<union> free_pages (ksym_end ks) m) b \<longrightarrow> phys m' b = phys m b)"

lemma own_step_refl: "kmem_inv (ksym_end ks) m \<Longrightarrow> as_wf ks m p \<Longrightarrow> own_step ks m p m p"
  by (simp add: own_step_def)

lemma own_step_trans:
  "own_step ks m p m1 p1 \<Longrightarrow> own_step ks m1 p1 m2 p2 \<Longrightarrow> own_step ks m p m2 p2"
  by (simp add: own_step_def)

text \<open>The whole table: every process is well formed and no two share a page.\<close>

definition isolated :: "ksyms \<Rightarrow> ptable \<Rightarrow> bool" where
  "isolated ks st \<longleftrightarrow>
    kmem_inv (ksym_end ks) (mm st) \<and> (\<forall>i. as_wf ks (mm st) (procs st i)) \<and>
    (\<forall>i j. i \<noteq> j \<longrightarrow>
      proc_pages (phys (mm st)) (procs st i) \<inter> proc_pages (phys (mm st)) (procs st j) = {})"

definition all_pages :: "ksyms \<Rightarrow> ptable \<Rightarrow> u32 set" where
  "all_pages ks st =
    (\<Union>i. proc_pages (phys (mm st)) (procs st i)) \<union> free_pages (ksym_end ks) (mm st)"

lemma isolated_step:
  assumes iso: "isolated ks st" and step: "own_step ks (mm st) (procs st i) m' p'"
  defines "st' \<equiv> st\<lparr>mm := m', procs := (procs st)(i := p')\<rparr>"
  shows "isolated ks st'" "all_pages ks st' = all_pages ks st"
    "j \<noteq> i \<Longrightarrow> q \<in> proc_pages (phys (mm st)) (procs st j) \<Longrightarrow> in_page q b \<Longrightarrow>
      phys m' b = phys (mm st) b"
proof -
  let ?P = "\<lambda>j. proc_pages (phys (mm st)) (procs st j)" and ?F = "free_pages (ksym_end ks) (mm st)"
  have i: "kmem_inv (ksym_end ks) (mm st)" "\<And>j. as_wf ks (mm st) (procs st j)"
    "\<And>j k. j \<noteq> k \<Longrightarrow> ?P j \<inter> ?P k = {}"
    using iso by (auto simp: isolated_def)
  have s: "kmem_inv (ksym_end ks) m'" "as_wf ks m' p'"
    "proc_pages (phys m') p' \<union> free_pages (ksym_end ks) m' = ?P i \<union> ?F"
    "\<And>b. outside (?P i \<union> ?F) b \<Longrightarrow> phys m' b = phys (mm st) b"
    using step by (auto simp: own_step_def)
  have away: "?P j \<inter> (?P i \<union> ?F) = {}" if "j \<noteq> i" for j
    using i(3) [OF that] proc_pages_ok(2) [OF i(2) [of j]] by auto
  show same: "phys m' b = phys (mm st) b" if "j \<noteq> i" "q \<in> ?P j" "in_page q b" for j q b
  proof (rule s(4), rule page_outside [OF _ _ _ that(3)])
    show "aligned q" using proc_pages_ok(1) [OF i(2) that(2)] by (rule page_ok_aligned)
    show "q \<notin> ?P i \<union> ?F" using away [OF that(1)] that(2) by auto
    show "aligned r" if "r \<in> ?P i \<union> ?F" for r
      using that proc_pages_ok(1) [OF i(2) [of i]] free_pages_ok [OF i(1)] page_ok_aligned by blast
  qed
  have d: "?P j \<inter> free_pages (ksym_end ks) m' = {}" "?P j \<inter> proc_pages (phys m') p' = {}"
    if "j \<noteq> i" for j
    using away [OF that] s(3) by auto
  have fr: "as_wf ks m' (procs st j)" "proc_pages (phys m') (procs st j) = ?P j" if "j \<noteq> i" for j
    by (rule as_frame [OF i(2) s(1) d(1) [OF that]]; rule same [OF that]; assumption)+
  have d2: "proc_pages (phys m') p' \<inter> ?P j = {}" if "i \<noteq> j" for j using d(2) [of j] that by auto
  show "isolated ks st'"
    unfolding isolated_def st'_def using s(1,2) fr d(2) d2 i(3) by simp
  have "proc_pages (phys m') (if j = i then p' else procs st j) =
      (if j = i then proc_pages (phys m') p' else ?P j)" for j
    using fr(2) by simp
  then have "(\<Union>j. proc_pages (phys m') (if j = i then p' else procs st j)) =
      proc_pages (phys m') p' \<union> (\<Union>j \<in> - {i}. ?P j)"
    by (auto split: if_splits)
  moreover have "(\<Union>j. ?P j) = ?P i \<union> (\<Union>j \<in> - {i}. ?P j)" by auto
  ultimately show "all_pages ks st' = all_pages ks st"
    using s(3) by (auto simp: all_pages_def st'_def fun_upd_def)
qed

section \<open>Freeing\<close>

lemma kfree_own:
  assumes "kmem_inv kend m" "page_ok kend p" "p \<notin> free_pages kend m"
  obtains m1 where "kfree kend m p = Inr m1" "kmem_inv kend m1"
    "free_pages kend m1 = insert p (free_pages kend m)"
    "\<And>b. \<not> in_page p b \<Longrightarrow> phys m1 b = phys m b"
proof -
  obtain ps where ps: "kmem_list kend m ps" using assms(1) by (auto simp: kmem_inv_def)
  then have "p \<notin> set ps" using assms(3) by (simp add: free_pages_list)
  then obtain m1 where "kfree kend m p = Inr m1" "kmem_list kend m1 (p # ps)"
    "\<And>a. \<not> in_page p a \<Longrightarrow> phys m1 a = phys m a"
    using kfree_page [OF ps assms(2)] by blast
  then show ?thesis
    using that [of m1] free_pages_list [OF ps] free_pages_list [of kend m1 "p # ps"]
    by (auto simp: kmem_inv_def)
qed

text \<open>Removing one mapping without freeing the page.\<close>

lemma unmap_nofree:
  assumes us: "us_inv kend st root S" and a: "aligned a" "a \<notin> S"
    and v: "pte_valid (pt_get (phys st) root a)" "PTE_FLAGS (pt_get (phys st) root a) \<noteq> PTE_V"
  obtains st' where "uvmunmap kend st root a 1 False = Inr st'" "us_inv kend st' root S"
    "pt_get (phys st') root = (\<lambda>va. if PGROUNDDOWN va = a then 0 else pt_get (phys st) root va)"
    "vm_own kend st' root = vm_own kend st root"
    "\<And>b. outside (vm_own kend st root) b \<Longrightarrow> phys st' b = phys st b"
proof -
  have vi: "vm_inv kend st root" by (rule us_inv_vm [OF us])
  obtain sl where sl: "pt_slot (phys st) root a = Some sl" "pt_get (phys st) root a = load32 (phys st) sl"
    using v(1) by (auto simp: pt_get_def pte_valid_bit split: option.splits)
  have nz: "sl \<noteq> 0" using vi pt_slot_nonzero [OF _ sl(1)] by (auto simp: vm_inv_def)
  define st' where "st' = st\<lparr>phys := store32 (phys st) sl 0\<rparr>"
  note vs = vm_store [OF vi sl(1) st'_def]
  have get: "pt_get (phys st') root = (\<lambda>va. if PGROUNDDOWN va = a then 0 else pt_get (phys st) root va)"
    using vs(3) a(1) by (simp add: fun_eq_iff)
  have lf: "leaf_pa (phys st') root x = leaf_pa (phys st) root x" if "x \<in> S" for x
    using that a us by (auto simp: leaf_pa_def get us_inv_def)
  have "uvmunmap kend st root a 1 False = Inr st'"
    using a(1) v sl nz aligned_below_MAXVA [OF a(1)]
    by (simp add: uvmunmap_def uvmunmap_loop.simps walk_noalloc aligned_def pte_valid_def Let_def st'_def)
  moreover have "us_inv kend st' root S"
  proof -
    have "inj_on (leaf_pa (phys st') root) S"
      using us inj_on_cong [of S "leaf_pa (phys st') root" "leaf_pa (phys st) root"] lf
      by (simp add: us_inv_def)
    then show ?thesis
      using us vm_stepD(1,2) [OF vs(1)] lf a by (auto simp: us_inv_def get)
  qed
  ultimately show ?thesis using that [of st'] get vm_stepD [OF vs(1)] by blast
qed

lemma special_ptes:
  "pte_valid (tramp_pte ks)" "PTE_FLAGS (tramp_pte ks) \<noteq> PTE_V" "tramp_pte ks AND PTE_U = 0"
  "pte_valid (tf_pte tf)" "PTE_FLAGS (tf_pte tf) \<noteq> PTE_V" "tf_pte tf AND PTE_U = 0"
proof -
  have f: "PTE_FLAGS (PA2PTE x OR (PTE_R OR PTE_X) OR PTE_V) = PTE_R OR PTE_X OR PTE_V"
    "PTE_FLAGS (PA2PTE x OR (PTE_R OR PTE_W) OR PTE_V) = PTE_R OR PTE_W OR PTE_V" for x
    using PTE_FLAGS_PA2PTE [of "PTE_R OR PTE_X OR PTE_V" x] PTE_FLAGS_PA2PTE [of "PTE_R OR PTE_W OR PTE_V" x]
    by (simp_all add: or.assoc flag_bits_def PTE_W_def PTE_X_def PTE_R_def PTE_V_def)
  show "pte_valid (tramp_pte ks)" "pte_valid (tf_pte tf)" by (simp_all add: tramp_pte_def tf_pte_def)
  show "PTE_FLAGS (tramp_pte ks) \<noteq> PTE_V" "PTE_FLAGS (tf_pte tf) \<noteq> PTE_V"
    unfolding tramp_pte_def tf_pte_def f by (simp_all add: PTE_W_def PTE_X_def PTE_R_def PTE_V_def)
  show "tramp_pte ks AND PTE_U = 0" "tf_pte tf AND PTE_U = 0"
    by (rule bit_eqI, auto simp: tramp_pte_def tf_pte_def bit_and_iff bit_or_iff flag_bit_iffs PA2PTE_bit)+
qed

lemma special_pages:
  "aligned TRAMPOLINE" "aligned TRAPFRAME" "TRAMPOLINE \<noteq> TRAPFRAME" "TRAPFRAME \<noteq> TRAMPOLINE"
  "sz \<le> TRAPFRAME \<Longrightarrow> TRAPFRAME \<notin> upages sz" "sz \<le> TRAPFRAME \<Longrightarrow> TRAMPOLINE \<notin> upages sz"
  "PHYSTOP < TRAPFRAME" "PHYSTOP < TRAMPOLINE"
proof -
  show "aligned TRAMPOLINE" "aligned TRAPFRAME" "TRAMPOLINE \<noteq> TRAPFRAME" "TRAPFRAME \<noteq> TRAMPOLINE"
    "PHYSTOP < TRAPFRAME" "PHYSTOP < TRAMPOLINE"
    by (simp_all add: layout_defs aligned_unat)
  have "TRAPFRAME \<le> TRAMPOLINE" by (simp add: layout_defs)
  then show "sz \<le> TRAPFRAME \<Longrightarrow> TRAPFRAME \<notin> upages sz" "sz \<le> TRAPFRAME \<Longrightarrow> TRAMPOLINE \<notin> upages sz"
    by (auto simp: upages_def)
qed

lemma proc_freepagetable_spec:
  assumes t: "table_ok ks m pt tf sz"
  obtains m' where "proc_freepagetable ks m pt sz = Inr m'" "kmem_inv (ksym_end ks) m'"
    "free_pages (ksym_end ks) m' =
      vm_own (ksym_end ks) m pt \<union> leaf_pa (phys m) pt ` upages sz"
    "\<And>b. outside (vm_own (ksym_end ks) m pt \<union> leaf_pa (phys m) pt ` upages sz) b \<Longrightarrow>
      phys m' b = phys m b"
proof -
  let ?e = "ksym_end ks"
  have sz: "sz \<le> TRAPFRAME" using t by (simp add: table_ok_def)
  note us = table_ok_parts(1) [OF t] and sp = special_pages
  have g: "pt_get (phys m) pt TRAMPOLINE = tramp_pte ks" "pt_get (phys m) pt TRAPFRAME = tf_pte tf"
    using t sp(1,2) by (simp_all add: table_ok_def)
  obtain m1 where m1: "uvmunmap ?e m pt TRAMPOLINE 1 False = Inr m1" "us_inv ?e m1 pt (upages sz)"
    "pt_get (phys m1) pt = (\<lambda>va. if PGROUNDDOWN va = TRAMPOLINE then 0 else pt_get (phys m) pt va)"
    "vm_own ?e m1 pt = vm_own ?e m pt" "\<And>b. outside (vm_own ?e m pt) b \<Longrightarrow> phys m1 b = phys m b"
    by (rule unmap_nofree [OF us sp(1) sp(6) [OF sz]]) (simp_all add: g special_ptes)
  have g1: "pt_get (phys m1) pt TRAPFRAME = tf_pte tf" using g(2) sp by (simp add: m1(3))
  obtain m2 where m2: "uvmunmap ?e m1 pt TRAPFRAME 1 False = Inr m2" "us_inv ?e m2 pt (upages sz)"
    "pt_get (phys m2) pt = (\<lambda>va. if PGROUNDDOWN va = TRAPFRAME then 0 else pt_get (phys m1) pt va)"
    "vm_own ?e m2 pt = vm_own ?e m1 pt" "\<And>b. outside (vm_own ?e m1 pt) b \<Longrightarrow> phys m2 b = phys m1 b"
    by (rule unmap_nofree [OF m1(2) sp(2) sp(5) [OF sz]]) (simp_all add: g1 special_ptes)
  have only: "PGROUNDDOWN va < sz" if "pte_valid (pt_get (phys m2) pt va)" for va
    using that t by (auto simp: m2(3) m1(3) table_ok_def pte_valid_bit upages_def split: if_splits)
  obtain m3 where m3: "uvmfree ?e m2 pt sz = Inr m3" "kmem_inv ?e m3"
    "free_pages ?e m3 = vm_own ?e m2 pt \<union> leaf_pa (phys m2) pt ` upages sz"
    "\<And>b. outside (vm_own ?e m2 pt \<union> leaf_pa (phys m2) pt ` upages sz) b \<Longrightarrow> phys m3 b = phys m2 b"
    using uvmfree_spec [OF m2(2) table_ok_parts(3) [OF t] only] by auto
  have "leaf_pa (phys m2) pt a = leaf_pa (phys m) pt a" if "a \<in> upages sz" for a
    using that sp(5,6) [OF sz] by (auto simp: leaf_pa_def m2(3) m1(3) upages_def)
  then have "leaf_pa (phys m2) pt ` upages sz = leaf_pa (phys m) pt ` upages sz" by simp
  then have "phys m3 b = phys m b"
    if "outside (vm_own ?e m pt \<union> leaf_pa (phys m) pt ` upages sz) b" for b
    using that m3(4) [of b] m2(5) [of b] m1(5) [of b] m2(4) m1(4) by (auto simp: outside_def)
  moreover have "proc_freepagetable ks m pt sz = Inr m3"
    using m1(1) m2(1) m3(1) by (simp add: proc_freepagetable_def)
  ultimately show ?thesis
    using that [of m3] m3(2,3) m2(4) m1(4) \<open>leaf_pa (phys m2) pt ` _ = _\<close> by simp
qed

text \<open>\<^verbatim>\<open>freeproc\<close> gives all pages of the process back.\<close>

definition freed_proc :: "proc \<Rightarrow> proc" where
  "freed_proc p = p\<lparr>trapframe := 0, pagetable := 0, psz := 0, pid := 0, parent := None,
    pname := [], pchan := ChNone, killed := False, xstate := 0, pstate := UNUSED\<rparr>"

lemma table_after_tf:
  assumes "as_wf ks m p" "pagetable p \<noteq> 0"
    and "kmem_inv (ksym_end ks) m1"
    "free_pages (ksym_end ks) m1 = insert (trapframe p) (free_pages (ksym_end ks) m)"
    "\<And>b. \<not> in_page (trapframe p) b \<Longrightarrow> phys m1 b = phys m b"
  shows "table_ok ks m1 (pagetable p) (trapframe p) (psz p)"
    "pt_pages (phys m1) (pagetable p) = pt_pages (phys m) (pagetable p)"
    "leaf_pa (phys m1) (pagetable p) = leaf_pa (phys m) (pagetable p)"
proof -
  have t: "table_ok ks m (pagetable p) (trapframe p) (psz p)" "trapframe p \<noteq> 0"
    "trapframe p \<notin> pt_pages (phys m) (pagetable p) \<union> leaf_pa (phys m) (pagetable p) ` upages (psz p)"
    using assms(1,2) by (auto simp: as_wf_def)
  have "q \<notin> free_pages (ksym_end ks) m"
    if "q \<in> pt_pages (phys m) (pagetable p) \<union> leaf_pa (phys m) (pagetable p) ` upages (psz p)" for q
    using proc_pages_ok(2) [OF assms(1), of q] that assms(2) by (auto simp: proc_pages_def)
  then have d: "(pt_pages (phys m) (pagetable p) \<union> leaf_pa (phys m) (pagetable p) ` upages (psz p)) \<inter>
      free_pages (ksym_end ks) m1 = {}"
    using t(3) by (auto simp: assms(4))
  have same: "phys m1 b = phys m b" if "q \<in> pt_pages (phys m) (pagetable p)" "in_page q b" for q b
  proof (rule assms(5))
    have "page_ok (ksym_end ks) q" "page_ok (ksym_end ks) (trapframe p)"
      using proc_pages_ok(1) [OF assms(1)] that(1) assms(2) t(2) by (auto simp: proc_pages_def)
    then show "\<not> in_page (trapframe p) b"
      using that t(3) in_page_unique [of q "trapframe p" b] by (auto simp: page_ok_def)
  qed
  show "table_ok ks m1 (pagetable p) (trapframe p) (psz p)"
    "pt_pages (phys m1) (pagetable p) = pt_pages (phys m) (pagetable p)"
    "leaf_pa (phys m1) (pagetable p) = leaf_pa (phys m) (pagetable p)"
    by (rule table_frame [OF t(1) assms(3) d]; rule same; assumption)+
qed

lemma freeproc_step:
  assumes k: "kmem_inv (ksym_end ks) (mm st)" and wf: "as_wf ks (mm st) (procs st i)"
  obtains m' where "freeproc ks i st = Inr (st\<lparr>mm := m', procs := (procs st)(i := freed_proc (procs st i))\<rparr>)"
    "own_step ks (mm st) (procs st i) m' (freed_proc (procs st i))"
proof -
  let ?e = "ksym_end ks" and ?p = "procs st i" and ?m = "mm st"
  have "\<exists>m1. (if trapframe ?p \<noteq> 0 then kfree ?e ?m (trapframe ?p) else Inr ?m) = Inr m1 \<and>
      kmem_inv ?e m1 \<and>
      free_pages ?e m1 = (if trapframe ?p \<noteq> 0 then {trapframe ?p} else {}) \<union> free_pages ?e ?m \<and>
      (\<forall>b. \<not> in_page (trapframe ?p) b \<or> trapframe ?p = 0 \<longrightarrow> phys m1 b = phys ?m b)"
  proof (cases "trapframe ?p = 0")
    case True
    then show ?thesis using k by simp
  next
    case False
    then have "page_ok ?e (trapframe ?p)" "trapframe ?p \<notin> free_pages ?e ?m"
      using wf by (auto simp: as_wf_def)
    then show ?thesis using False by (rule_tac kfree_own [OF k]) auto
  qed
  then obtain m1 where m1: "(if trapframe ?p \<noteq> 0 then kfree ?e ?m (trapframe ?p) else Inr ?m) = Inr m1"
    "kmem_inv ?e m1"
    "free_pages ?e m1 = (if trapframe ?p \<noteq> 0 then {trapframe ?p} else {}) \<union> free_pages ?e ?m"
    "\<And>b. \<not> in_page (trapframe ?p) b \<or> trapframe ?p = 0 \<Longrightarrow> phys m1 b = phys ?m b" by blast
  have "\<exists>m2. (if pagetable ?p \<noteq> 0 then proc_freepagetable ks m1 (pagetable ?p) (psz ?p) else Inr m1) = Inr m2 \<and>
      kmem_inv ?e m2 \<and> free_pages ?e m2 = proc_pages (phys ?m) ?p \<union> free_pages ?e ?m \<and>
      (\<forall>b. outside (proc_pages (phys ?m) ?p \<union> free_pages ?e ?m) b \<longrightarrow> phys m2 b = phys ?m b)"
  proof (cases "pagetable ?p = 0")
    case True
    then show ?thesis using m1 by (auto simp: proc_pages_def outside_def split: if_splits)
  next
    case False
    then have tf: "trapframe ?p \<noteq> 0" using wf by (simp add: as_wf_def)
    note t = table_after_tf [OF wf False m1(2)]
    have t1: "table_ok ks m1 (pagetable ?p) (trapframe ?p) (psz ?p)"
      and t2: "pt_pages (phys m1) (pagetable ?p) = pt_pages (phys ?m) (pagetable ?p)"
      and t3: "leaf_pa (phys m1) (pagetable ?p) = leaf_pa (phys ?m) (pagetable ?p)"
      by (rule t; use m1 tf in simp)+
    obtain m2 where m2: "proc_freepagetable ks m1 (pagetable ?p) (psz ?p) = Inr m2" "kmem_inv ?e m2"
      "free_pages ?e m2 = vm_own ?e m1 (pagetable ?p) \<union> leaf_pa (phys m1) (pagetable ?p) ` upages (psz ?p)"
      "\<And>b. outside (vm_own ?e m1 (pagetable ?p) \<union> leaf_pa (phys m1) (pagetable ?p) ` upages (psz ?p)) b \<Longrightarrow>
        phys m2 b = phys m1 b"
      by (rule proc_freepagetable_spec [OF t1]) blast
    have e: "vm_own ?e m1 (pagetable ?p) \<union> leaf_pa (phys m1) (pagetable ?p) ` upages (psz ?p) =
        proc_pages (phys ?m) ?p \<union> free_pages ?e ?m"
      using False tf by (auto simp: vm_own_def t2 t3 m1(3) proc_pages_def)
    have "phys m2 b = phys ?m b" if "outside (proc_pages (phys ?m) ?p \<union> free_pages ?e ?m) b" for b
    proof -
      have "\<not> in_page (trapframe ?p) b" using that tf by (auto simp: outside_def proc_pages_def)
      then show ?thesis using m2(4) m1(4) that by (simp add: e)
    qed
    then show ?thesis using m2 False e by auto
  qed
  then obtain m2 where m2: "(if pagetable ?p \<noteq> 0 then proc_freepagetable ks m1 (pagetable ?p) (psz ?p)
      else Inr m1) = Inr m2" "kmem_inv ?e m2"
    "free_pages ?e m2 = proc_pages (phys ?m) ?p \<union> free_pages ?e ?m"
    "\<And>b. outside (proc_pages (phys ?m) ?p \<union> free_pages ?e ?m) b \<Longrightarrow> phys m2 b = phys ?m b" by blast
  have "freeproc ks i st = Inr (st\<lparr>mm := m2, procs := (procs st)(i := freed_proc ?p)\<rparr>)"
    unfolding freeproc_def Let_def m1(1) ebind_Inr m2(1) by (simp add: upd_proc_def freed_proc_def)
  moreover have "own_step ks ?m ?p m2 (freed_proc ?p)"
    using m2(2,3,4) by (simp add: own_step_def as_wf_def proc_pages_def freed_proc_def)
  ultimately show ?thesis by (rule that)
qed

section \<open>Allocation\<close>

lemma kalloc_own:
  assumes k: "kmem_inv kend m" and a: "kalloc m = (m1, p)" and p: "p \<noteq> 0"
  shows "kmem_inv kend m1" "p \<in> free_pages kend m" "page_ok kend p"
    "free_pages kend m1 = free_pages kend m - {p}" "\<not> in_page p b \<Longrightarrow> phys m1 b = phys m b"
proof -
  show a1: "p \<in> free_pages kend m" and "kmem_inv kend m1"
    and "free_pages kend m1 = free_pages kend m - {p}"
    by (rule kmem.alloc_cases [OF k a]; use p in simp)+
  show "page_ok kend p" by (rule free_pages_ok [OF k a1])
  have "phys m1 = memset (phys m) p 5 PGSIZE"
    using a p by (auto simp: kalloc_def Let_def split: if_splits)
  then show "\<not> in_page p b \<Longrightarrow> phys m1 b = phys m b" by (simp add: memset_page_other)
qed

lemma uvmcreate_spec:
  assumes k: "kmem_inv kend m" and u: "uvmcreate m = (m1, pt)"
  shows "pt = 0 \<and> m1 = m \<or>
    pt \<noteq> 0 \<and> us_inv kend m1 pt {} \<and> pt_get (phys m1) pt = (\<lambda>_. 0) \<and> pt_pages (phys m1) pt = {pt} \<and>
    vm_own kend m1 pt = free_pages kend m \<and>
    (\<forall>b. outside (free_pages kend m) b \<longrightarrow> phys m1 b = phys m b)"
proof -
  obtain m0 p where a: "kalloc m = (m0, p)" by fastforce
  show ?thesis
  proof (cases "p = 0")
    case True
    then show ?thesis using a u kalloc_null [of m m0] by (auto simp: uvmcreate_def)
  next
    case False
    note o = kalloc_own [OF k a False]
    have m1: "m1 = m0\<lparr>phys := memset (phys m0) p 0 PGSIZE\<rparr>" "pt = p"
      using a u False by (auto simp: uvmcreate_def)
    have z: "load32 (phys m1) (entry p i) = 0" if "unat i < 1024" for i
      using that by (simp add: m1 load32_zeroed_page)
    note e = empty_table [OF o(3), of "phys m1", OF z]
    have "touch_pages {p} m0 m1" by (simp add: touch_pages_def m1 memset_page_other)
    then have t: "kmem_inv kend m1" "free_pages kend m1 = free_pages kend m0"
      using kmem.touch_ok [OF o(1), of "{p}" m1] o(3,4) by auto
    have own: "vm_own kend m1 p = free_pages kend m"
      using o(2,4) e(2) t(2) by (auto simp: vm_own_def)
    have "us_inv kend m1 p {}"
      using t e(1,2) o(4) by (simp add: us_inv_def vm_inv_def)
    moreover have "phys m1 b = phys m b" if "outside (free_pages kend m) b" for b
    proof -
      have "\<not> in_page p b" using that o(2) by (auto simp: outside_def)
      then show ?thesis using o(5) by (simp add: m1 memset_page_other)
    qed
    ultimately show ?thesis using False own e(2,4) m1(2) by auto
  qed
qed

text \<open>Freeing a table that has no user pages.\<close>

lemma uvmfree_empty:
  assumes "us_inv kend m pt {}" "\<And>va. \<not> pte_valid (pt_get (phys m) pt va)"
  obtains m' where "uvmfree kend m pt 0 = Inr m'" "kmem_inv kend m'" "free_pages kend m' = vm_own kend m pt"
    "\<And>b. outside (vm_own kend m pt) b \<Longrightarrow> phys m' b = phys m b"
proof -
  have us: "us_inv kend m pt (upages 0)" "size_ok 0" using assms(1) by (simp_all add: size_ok_unat)
  obtain m' where "uvmfree kend m pt 0 = Inr m'" "kmem_inv kend m'" "free_pages kend m' = vm_own kend m pt"
    "\<forall>b. outside (vm_own kend m pt) b \<longrightarrow> phys m' b = phys m b"
    using uvmfree_spec [OF us] assms(2) by auto
  then show ?thesis by (intro that [of m']) auto
qed

text \<open>What \<^verbatim>\<open>proc_pagetable\<close> may return.\<close>

definition pagetable_result :: "ksyms \<Rightarrow> kstate \<Rightarrow> u32 \<Rightarrow> kstate \<times> u32 \<Rightarrow> bool" where
  "pagetable_result ks m tf r \<longleftrightarrow>
    (case r of (m', pt) \<Rightarrow>
      kmem_inv (ksym_end ks) m' \<and>
      (\<forall>b. outside (free_pages (ksym_end ks) m) b \<longrightarrow> phys m' b = phys m b) \<and>
      (if pt = 0 then free_pages (ksym_end ks) m' = free_pages (ksym_end ks) m
       else table_ok ks m' pt tf 0 \<and> vm_own (ksym_end ks) m' pt = free_pages (ksym_end ks) m))"

lemma proc_pagetable_second:
  assumes us: "us_inv (ksym_end ks) m2 pt {}" and pt: "pt \<noteq> 0"
    and get: "pt_get (phys m2) pt = (\<lambda>va. if PGROUNDDOWN va = TRAMPOLINE then tramp_pte ks else 0)"
    and own: "vm_own (ksym_end ks) m2 pt = free_pages (ksym_end ks) m"
    and out: "\<And>b. outside (free_pages (ksym_end ks) m) b \<Longrightarrow> phys m2 b = phys m b"
  shows "\<exists>r. ebind (mappages m2 pt TRAPFRAME PGSIZE tf (PTE_R OR PTE_W)) (\<lambda>(st, r).
      if r < 0
      then ebind (uvmunmap (ksym_end ks) st pt TRAMPOLINE 1 False) (\<lambda>st.
        ebind (uvmfree (ksym_end ks) st pt 0) (\<lambda>st. Inr (st, 0)))
      else Inr (st, pt)) = Inr r \<and> pagetable_result ks m tf r"
proof -
  let ?e = "ksym_end ks"
  note sp = special_pages
  have vi: "vm_inv ?e m2 pt" by (rule us_inv_vm [OF us])
  have un: "\<not> pte_valid (pt_get (phys m2) pt TRAPFRAME)"
    using sp by (simp add: get pte_valid_bit)
  show ?thesis
    using vi sp(2) un
  proof (cases rule: mappages_page [where pa = tf and perm = "PTE_R OR PTE_W"])
    case (full m3)
    note s3 = vm_stepD [OF full(2)]
    have us3: "us_inv ?e m3 pt {}" using s3(1) by (simp add: us_inv_def)
    have g3: "pt_get (phys m3) pt TRAMPOLINE = tramp_pte ks" using sp(1) by (simp add: full(3) get)
    obtain m4 where m4: "uvmunmap ?e m3 pt TRAMPOLINE 1 False = Inr m4" "us_inv ?e m4 pt {}"
      "pt_get (phys m4) pt = (\<lambda>va. if PGROUNDDOWN va = TRAMPOLINE then 0 else pt_get (phys m3) pt va)"
      "vm_own ?e m4 pt = vm_own ?e m3 pt"
      "\<And>b. outside (vm_own ?e m3 pt) b \<Longrightarrow> phys m4 b = phys m3 b"
      by (rule unmap_nofree [OF us3 sp(1)]) (simp_all add: g3 special_ptes)
    have "\<not> pte_valid (pt_get (phys m4) pt va)" for va
      by (simp add: m4(3) full(3) get pte_valid_bit)
    then obtain m5 where "uvmfree ?e m4 pt 0 = Inr m5" "kmem_inv ?e m5"
      "free_pages ?e m5 = vm_own ?e m4 pt" "\<And>b. outside (vm_own ?e m4 pt) b \<Longrightarrow> phys m5 b = phys m4 b"
      by (rule uvmfree_empty [OF m4(2)]) blast
    then show ?thesis
      using full(1) m4(1,4,5) s3(2,4) own out by (auto simp: pagetable_result_def)
  next
    case (mapped m3)
    note s3 = vm_stepD [OF mapped(2)]
    have "table_ok ks m3 pt tf 0"
      using s3(1) sp(3,4) by (simp add: table_ok_def us_inv_def mapped(3) get tf_pte_def upages_def)
    then show ?thesis
      using mapped(1) s3 own out pt by (auto simp: pagetable_result_def vm_inv_def)
  qed
qed

lemma proc_pagetable_spec:
  assumes k: "kmem_inv (ksym_end ks) m"
  shows "\<exists>r. proc_pagetable ks m tf = Inr r \<and> pagetable_result ks m tf r"
proof -
  let ?e = "ksym_end ks"
  note sp = special_pages
  obtain m1 pt where u: "uvmcreate m = (m1, pt)" by fastforce
  from uvmcreate_spec [OF k u] consider (null) "pt = 0" "m1 = m"
    | (table) "pt \<noteq> 0" "us_inv ?e m1 pt {}" "pt_get (phys m1) pt = (\<lambda>_. 0)"
        "vm_own ?e m1 pt = free_pages ?e m"
        "\<And>b. outside (free_pages ?e m) b \<Longrightarrow> phys m1 b = phys m b"
    by auto
  then show ?thesis
  proof cases
    case null
    then show ?thesis using u k by (simp add: proc_pagetable_def pagetable_result_def)
  next
    case table
    have vi: "vm_inv ?e m1 pt" by (rule us_inv_vm [OF table(2)])
    have un: "\<not> pte_valid (pt_get (phys m1) pt TRAMPOLINE)" by (simp add: table(3) pte_valid_bit)
    show ?thesis
      using vi sp(1) un
    proof (cases rule: mappages_page [where pa = "ksym_trampoline ks" and perm = "PTE_R OR PTE_X"])
      case (full m2)
      note s2 = vm_stepD [OF full(2)]
      have us2: "us_inv ?e m2 pt {}" using s2(1) by (simp add: us_inv_def)
      have "\<not> pte_valid (pt_get (phys m2) pt va)" for va
        by (simp add: full(3) table(3) pte_valid_bit)
      then obtain m5 where "uvmfree ?e m2 pt 0 = Inr m5" "kmem_inv ?e m5"
        "free_pages ?e m5 = vm_own ?e m2 pt" "\<And>b. outside (vm_own ?e m2 pt) b \<Longrightarrow> phys m5 b = phys m2 b"
        by (rule uvmfree_empty [OF us2]) blast
      then show ?thesis
        using u table full(1) s2(2,4) by (auto simp: proc_pagetable_def pagetable_result_def)
    next
      case (mapped m2)
      note s2 = vm_stepD [OF mapped(2)]
      have "\<exists>r. ebind (mappages m2 pt TRAPFRAME PGSIZE tf (PTE_R OR PTE_W)) (\<lambda>(st, r).
          if r < 0
          then ebind (uvmunmap ?e st pt TRAMPOLINE 1 False) (\<lambda>st.
            ebind (uvmfree ?e st pt 0) (\<lambda>st. Inr (st, 0)))
          else Inr (st, pt)) = Inr r \<and> pagetable_result ks m tf r"
        by (rule proc_pagetable_second)
          (use s2 table mapped(3) in \<open>auto simp: us_inv_def tramp_pte_def fun_eq_iff\<close>)
      then show ?thesis using u table(1) mapped(1) by (simp add: proc_pagetable_def)
    qed
  qed
qed

text \<open>
  A free slot holds no memory. \<open>alloc_post\<close> is what \<^verbatim>\<open>allocproc\<close> promises of a slot it returns.
\<close>

definition slot_clean :: "proc \<Rightarrow> bool" where
  "slot_clean p \<longleftrightarrow>
    (pstate p = UNUSED \<longrightarrow> trapframe p = 0 \<and> pagetable p = 0 \<and> psz p = 0 \<and> parent p = None)"

lemma find_SomeD: "find P xs = Some x \<Longrightarrow> x \<in> set xs \<and> P x"
  by (auto simp: find_Some_iff in_set_conv_nth)

lemma as_wf_irrelevant:
  assumes "trapframe q = trapframe p" "pagetable q = pagetable p" "psz q = psz p"
  shows "as_wf ks m q = as_wf ks m p" "proc_pages mem q = proc_pages mem p"
  using assms by (simp_all add: as_wf_def proc_pages_def)

definition alloc_post :: "ksyms \<Rightarrow> ptable \<Rightarrow> nat \<Rightarrow> kstate \<Rightarrow> proc \<Rightarrow> bool" where
  "alloc_post ks st i m' p' \<longleftrightarrow>
    (\<exists>tf pt. tf \<noteq> 0 \<and> pt \<noteq> 0 \<and>
      p' = (procs st i)\<lparr>pid := nextpid st, pstate := USED, trapframe := tf, pagetable := pt,
        pcontext := fresh_context ks (procs st i)\<rparr>)"

lemma allocproc_cases:
  assumes k: "kmem_inv (ksym_end ks) (mm st)" and c: "\<And>i. slot_clean (procs st i)"
  obtains (none) "allocproc ks st = Inr (st, None)" "\<forall>i < NPROC. pstate (procs st i) \<noteq> UNUSED"
  | (undone) i m' where "i < NPROC" "pstate (procs st i) = UNUSED"
      "allocproc ks st = Inr (st\<lparr>nextpid := nextpid st + 1, mm := m',
        procs := (procs st)(i := freed_proc (procs st i))\<rparr>, None)"
      "own_step ks (mm st) (procs st i) m' (freed_proc (procs st i))"
  | (allocated) i m' p' where "i < NPROC" "pstate (procs st i) = UNUSED"
      "allocproc ks st = Inr (st\<lparr>nextpid := nextpid st + 1, mm := m',
        procs := (procs st)(i := p')\<rparr>, Some i)"
      "own_step ks (mm st) (procs st i) m' p'" "alloc_post ks st i m' p'"
proof (cases "find (\<lambda>i. pstate (procs st i) = UNUSED) [0..<NPROC]")
  case None
  then have "\<forall>i < NPROC. pstate (procs st i) \<noteq> UNUSED" by (simp add: find_None_iff)
  moreover have "allocproc ks st = Inr (st, None)" by (simp add: allocproc_def None)
  ultimately show ?thesis by (intro none)
next
  case (Some i)
  let ?e = "ksym_end ks" and ?p = "procs st i"
  have i: "i < NPROC" "pstate ?p = UNUSED" using find_SomeD [OF Some] by auto
  then have z: "trapframe ?p = 0" "pagetable ?p = 0" "psz ?p = 0" using c [of i] by (auto simp: slot_clean_def)
  then have p0: "proc_pages x ?p = {}" for x by (simp add: proc_pages_def)
  obtain m1 tf where a: "kalloc (mm st) = (m1, tf)" by fastforce
  define st1 where "st1 = upd_proc i (\<lambda>p. p\<lparr>pid := nextpid st, pstate := USED, trapframe := tf\<rparr>)
    (st\<lparr>nextpid := nextpid st + 1, mm := m1\<rparr>)"
  have st1: "mm st1 = m1" "procs st1 i = ?p\<lparr>pid := nextpid st, pstate := USED, trapframe := tf\<rparr>"
    by (simp_all add: st1_def upd_proc_def)
  have st1eq: "st1 = st\<lparr>nextpid := nextpid st + 1, mm := m1,
      procs := (procs st)(i := ?p\<lparr>pid := nextpid st, pstate := USED, trapframe := tf\<rparr>)\<rparr>"
    by (simp add: st1_def upd_proc_def)
  have fp: "freed_proc (procs st1 i) = freed_proc ?p" by (simp add: freed_proc_def st1)
  have unfold: "allocproc ks st =
      (if tf = 0 then ebind (freeproc ks i st1) (\<lambda>st. Inr (st, None))
       else ebind (proc_pagetable ks m1 tf) (\<lambda>(m, pt).
         let st = upd_proc i (\<lambda>p. p\<lparr>pagetable := pt\<rparr>) (st1\<lparr>mm := m\<rparr>)
         in if pt = 0 then ebind (freeproc ks i st) (\<lambda>st. Inr (st, None))
            else Inr (upd_proc i (\<lambda>p. p\<lparr>pcontext := fresh_context ks p\<rparr>) st, Some i)))"
    using a by (simp add: allocproc_def Some allocpid_def Let_def upd_proc_def st1_def)
  show ?thesis
  proof (cases "tf = 0")
    case True
    then have "m1 = mm st" using a kalloc_null by simp
    then have "as_wf ks (mm st1) (procs st1 i)" "kmem_inv ?e (mm st1)"
      "proc_pages x (procs st1 i) = {}" for x
      using k z True by (simp_all add: as_wf_def proc_pages_def st1)
    then obtain m' where m': "freeproc ks i st1 =
        Inr (st1\<lparr>mm := m', procs := (procs st1)(i := freed_proc (procs st1 i))\<rparr>)"
      "own_step ks (mm st1) (procs st1 i) m' (freed_proc (procs st1 i))"
      by (rule_tac freeproc_step [of ks st1 i]) auto
    have "own_step ks (mm st) ?p m' (freed_proc ?p)"
      using m'(2) \<open>m1 = mm st\<close> \<open>\<And>x. proc_pages x (procs st1 i) = {}\<close> p0
      by (simp add: own_step_def fp st1(1))
    moreover have "allocproc ks st = Inr (st\<lparr>nextpid := nextpid st + 1, mm := m',
        procs := (procs st)(i := freed_proc ?p)\<rparr>, None)"
      using m'(1) True by (simp add: unfold fp) (simp add: st1eq)
    ultimately show ?thesis by (intro undone [OF i])
  next
    case False
    note o = kalloc_own [OF k a False]
    obtain m2 pt where r: "proc_pagetable ks m1 tf = Inr (m2, pt)" "pagetable_result ks m1 tf (m2, pt)"
      using proc_pagetable_spec [OF o(1), of tf] by auto
    have res: "kmem_inv ?e m2" "\<And>b. outside (free_pages ?e m1) b \<Longrightarrow> phys m2 b = phys m1 b"
      "pt = 0 \<Longrightarrow> free_pages ?e m2 = free_pages ?e m1"
      "pt \<noteq> 0 \<Longrightarrow> table_ok ks m2 pt tf 0" "pt \<noteq> 0 \<Longrightarrow> vm_own ?e m2 pt = free_pages ?e m1"
      using r(2) by (auto simp: pagetable_result_def split: if_splits)
    have same: "phys m2 b = phys (mm st) b" if "outside (free_pages ?e (mm st)) b" for b
      using that res(2) [of b] o(2,4) o(5) [of b] by (auto simp: outside_def)
    define p2 where "p2 = (procs st1 i)\<lparr>pagetable := pt\<rparr>"
    have tfree: "tf \<notin> free_pages ?e m2"
    proof (cases "pt = 0")
      case False
      then show ?thesis using res(5) o(4) by (auto simp: vm_own_def)
    qed (use res(3) o(4) in simp)
    have wf2: "as_wf ks m2 p2"
      using o False tfree res(4,5) by (auto simp: as_wf_def p2_def st1(2) z vm_own_def)
    have pg2: "proc_pages (phys m2) p2 \<union> free_pages ?e m2 = free_pages ?e (mm st)"
    proof (cases "pt = 0")
      case True
      then show ?thesis using False res(3) o(2,4) by (auto simp: proc_pages_def p2_def st1(2))
    next
      case pt: False
      then have "pt_pages (phys m2) pt \<union> free_pages ?e m2 = free_pages ?e m1"
        using res(5) by (simp add: vm_own_def)
      then show ?thesis
        using False pt o(2,4) z by (auto simp: proc_pages_def p2_def st1(2))
    qed
    have step2: "own_step ks (mm st) ?p m2 p2"
      using res(1) wf2 pg2 same by (simp add: own_step_def p0)
    define st2 where "st2 = upd_proc i (\<lambda>p. p\<lparr>pagetable := pt\<rparr>) (st1\<lparr>mm := m2\<rparr>)"
    have st2: "mm st2 = m2" "procs st2 i = p2" by (simp_all add: st2_def upd_proc_def p2_def)
    have st2eq: "st2 = st\<lparr>nextpid := nextpid st + 1, mm := m2, procs := (procs st)(i := p2)\<rparr>"
      by (simp add: st2_def upd_proc_def p2_def st1eq)
    show ?thesis
    proof (cases "pt = 0")
      case True
      obtain m' where m': "freeproc ks i st2 =
          Inr (st2\<lparr>mm := m', procs := (procs st2)(i := freed_proc (procs st2 i))\<rparr>)"
        "own_step ks (mm st2) (procs st2 i) m' (freed_proc (procs st2 i))"
        by (rule freeproc_step [of ks st2 i]) (use res(1) wf2 st2 in auto)
      have e0: "upd_proc i (pagetable_update (\<lambda>_. 0)) (st1\<lparr>mm := m2\<rparr>) = st2"
        using True by (simp add: st2_def)
      have fp2: "freed_proc p2 = freed_proc ?p" by (simp add: freed_proc_def p2_def st1(2))
      have "own_step ks (mm st) ?p m' (freed_proc ?p)"
        using own_step_trans [OF step2] m'(2) by (simp add: st2 fp2)
      moreover have "allocproc ks st = Inr (st\<lparr>nextpid := nextpid st + 1, mm := m',
          procs := (procs st)(i := freed_proc ?p)\<rparr>, None)"
        using False True r(1) m'(1) e0 by (simp add: unfold fp2 st2) (simp add: st2eq)
      ultimately show ?thesis by (intro undone [OF i])
    next
      case pt: False
      let ?p3 = "p2\<lparr>pcontext := fresh_context ks p2\<rparr>"
      have "own_step ks (mm st) ?p m2 ?p3"
        using step2 as_wf_irrelevant [of ?p3 p2] by (simp add: own_step_def)
      moreover have "allocproc ks st = Inr (st\<lparr>nextpid := nextpid st + 1, mm := m2,
          procs := (procs st)(i := ?p3)\<rparr>, Some i)"
        using False pt r(1) by (simp add: unfold st2_def [symmetric] Let_def) (simp add: upd_proc_def st2eq)
      moreover have "alloc_post ks st i m2 ?p3"
        unfolding alloc_post_def using False pt
        by (intro exI [of _ tf] exI [of _ pt]) (simp add: p2_def st1(2) fresh_context_def)
      ultimately show ?thesis by (intro allocated [OF i])
    qed
  qed
qed

section \<open>Growing and shrinking\<close>

lemma us_inv_size:
  assumes "us_inv kend m pt (upages sz)"
  shows "sz \<le> PHYSTOP"
proof (rule ccontr)
  assume "\<not> sz \<le> PHYSTOP"
  moreover have al: "aligned (PHYSTOP + PGSIZE)" "unat (PHYSTOP + PGSIZE) = unat PHYSTOP + 4096"
    by (simp_all add: layout_defs aligned_unat)
  moreover have "a \<le> PHYSTOP" if "aligned a" "a < PHYSTOP + PGSIZE" for a
  proof -
    have "unat a mod 4096 = 0" "unat a < unat PHYSTOP + 4096"
      using that al(2) by (simp_all add: aligned_unat word_less_nat_alt)
    then show ?thesis
      using div_less_page [of "unat PHYSTOP" "unat a"] div_less_page [of "unat a" "unat PHYSTOP + 4096"]
      by (simp add: word_le_nat_alt PHYSTOP_unat) (meson not_less)
  qed
  ultimately have "\<And>a. aligned a \<Longrightarrow> a < PHYSTOP + PGSIZE \<Longrightarrow> a < sz"
    by (meson le_less_trans not_le)
  then have "upages (PHYSTOP + PGSIZE) \<subseteq> upages sz" unfolding upages_def by blast
  then have "us_inv kend m pt (upages (PHYSTOP + PGSIZE))" by (rule us_inv_subset [OF assms])
  then show False using us_inv_bound [OF _ al(1)] al(2) by fastforce
qed

text \<open>A process whose size and table change together.\<close>

lemma resize_step:
  assumes wf: "as_wf ks m p" and pt: "pagetable p \<noteq> 0"
    and us: "us_inv (ksym_end ks) m' (pagetable p) (upages sz)"
    and get: "\<And>va. PGROUNDDOWN va \<notin> upages sz \<union> upages (psz p) \<Longrightarrow>
      pt_get (phys m') (pagetable p) va = pt_get (phys m) (pagetable p) va"
    and zero: "\<And>va. PGROUNDDOWN va \<notin> upages sz \<Longrightarrow> PGROUNDDOWN va \<in> upages (psz p) \<Longrightarrow>
      pt_get (phys m') (pagetable p) va = 0"
    and own: "vm_own (ksym_end ks) m' (pagetable p) \<union> leaf_pa (phys m') (pagetable p) ` upages sz =
      vm_own (ksym_end ks) m (pagetable p) \<union> leaf_pa (phys m) (pagetable p) ` upages (psz p)"
    and out: "\<And>b. outside (vm_own (ksym_end ks) m (pagetable p) \<union>
      leaf_pa (phys m) (pagetable p) ` upages (psz p)) b \<Longrightarrow> phys m' b = phys m b"
  shows "own_step ks m p m' (p\<lparr>psz := sz\<rparr>)"
proof -
  let ?e = "ksym_end ks" and ?pt = "pagetable p"
  have t: "table_ok ks m ?pt (trapframe p) (psz p)" "trapframe p \<noteq> 0" "page_ok ?e (trapframe p)"
    "trapframe p \<notin> vm_own ?e m ?pt \<union> leaf_pa (phys m) ?pt ` upages (psz p)"
    using wf pt by (auto simp: as_wf_def vm_own_def)
  have szs: "sz \<le> TRAPFRAME" "psz p \<le> TRAPFRAME"
    using us_inv_size [OF us] special_pages(7) t(1) by (auto simp: table_ok_def)
  have special: "pt_get (phys m') ?pt va = pt_get (phys m) ?pt va"
    if "PGROUNDDOWN va = TRAMPOLINE \<or> PGROUNDDOWN va = TRAPFRAME" for va
    using that special_pages(5,6) [OF szs(1)] special_pages(5,6) [OF szs(2)] by (intro get) auto
  have rest: "pt_get (phys m') ?pt va = 0"
    if "PGROUNDDOWN va \<notin> upages sz" "PGROUNDDOWN va \<noteq> TRAMPOLINE" "PGROUNDDOWN va \<noteq> TRAPFRAME" for va
    using that get [of va] zero [of va] t(1)
    by (cases "PGROUNDDOWN va \<in> upages (psz p)") (simp_all add: table_ok_def)
  have tab: "table_ok ks m' ?pt (trapframe p) sz"
    using us szs(1) t(1) special rest by (simp add: table_ok_def)
  have k: "kmem_inv ?e m'" using us by (auto simp: us_inv_def vm_inv_def)
  have pg: "proc_pages (phys m') (p\<lparr>psz := sz\<rparr>) \<union> free_pages ?e m' =
      insert (trapframe p) (vm_own ?e m' ?pt \<union> leaf_pa (phys m') ?pt ` upages sz)"
    "proc_pages (phys m) p \<union> free_pages ?e m =
      insert (trapframe p) (vm_own ?e m ?pt \<union> leaf_pa (phys m) ?pt ` upages (psz p))"
    using t(2) pt by (auto simp: proc_pages_def vm_own_def)
  have "as_wf ks m' (p\<lparr>psz := sz\<rparr>)"
    using t(2-4) tab own [symmetric] by (auto simp: as_wf_def vm_own_def)
  moreover have "phys m' b = phys m b" if "outside (proc_pages (phys m) p \<union> free_pages ?e m) b" for b
    using that by (intro out) (auto simp: pg outside_def)
  ultimately show ?thesis using k own by (simp add: own_step_def pg)
qed

lemma grow_own:
  assumes wf: "as_wf ks m p" and pt: "pagetable p \<noteq> 0" and le: "psz p \<le> new"
    and us: "us_inv (ksym_end ks) m' (pagetable p) (upages new)"
    and g: "grew (ksym_end ks) (pagetable p) (upages new - upages (psz p)) F C m m'"
  shows "own_step ks m p m' (p\<lparr>psz := new\<rparr>)"
proof (rule resize_step [OF wf pt us])
  let ?pt = "pagetable p" and ?A = "upages new - upages (psz p)"
  have sub: "upages (psz p) \<subseteq> upages new" using le by (auto simp: upages_def)
  have get: "pt_get (phys m') ?pt va = pt_get (phys m) ?pt va" if "PGROUNDDOWN va \<notin> ?A" for va
    using g that by (simp add: grew_def)
  show "pt_get (phys m') ?pt va = pt_get (phys m) ?pt va"
    if "PGROUNDDOWN va \<notin> upages new \<union> upages (psz p)" for va
    using that by (intro get) auto
  show "pt_get (phys m') ?pt va = 0"
    if "PGROUNDDOWN va \<notin> upages new" "PGROUNDDOWN va \<in> upages (psz p)" for va
    using that sub by auto
  have "leaf_pa (phys m') ?pt a = leaf_pa (phys m) ?pt a" if "a \<in> upages (psz p)" for a
    using get [of a] that by (simp add: leaf_pa_def upages_def)
  then have "leaf_pa (phys m') ?pt ` upages (psz p) = leaf_pa (phys m) ?pt ` upages (psz p)" by simp
  moreover have "upages new = ?A \<union> upages (psz p)" using sub by blast
  ultimately have "leaf_pa (phys m') ?pt ` upages new =
      leaf_pa (phys m') ?pt ` ?A \<union> leaf_pa (phys m) ?pt ` upages (psz p)"
    by (metis image_Un)
  then show "vm_own (ksym_end ks) m' ?pt \<union> leaf_pa (phys m') ?pt ` upages new =
      vm_own (ksym_end ks) m ?pt \<union> leaf_pa (phys m) ?pt ` upages (psz p)"
    using g by (auto simp: grew_def)
  show "phys m' b = phys m b" if "outside (vm_own (ksym_end ks) m ?pt \<union>
      leaf_pa (phys m) ?pt ` upages (psz p)) b" for b
    using g that by (auto simp: grew_def outside_def)
qed

lemma shrink_own:
  assumes wf: "as_wf ks m p" and pt: "pagetable p \<noteq> 0" and le: "new \<le> psz p"
    and us: "us_inv (ksym_end ks) m' (pagetable p) (upages new)"
    and g: "undone (ksym_end ks) (pagetable p) (upages (psz p) - upages new) m m'"
  shows "own_step ks m p m' (p\<lparr>psz := new\<rparr>)"
proof (rule resize_step [OF wf pt us])
  let ?pt = "pagetable p" and ?U = "upages (psz p) - upages new"
  have sub: "upages new \<subseteq> upages (psz p)" using le by (auto simp: upages_def)
  have get: "pt_get (phys m') ?pt va = (if PGROUNDDOWN va \<in> ?U then 0 else pt_get (phys m) ?pt va)" for va
    using g by (simp add: undone_def)
  then show "pt_get (phys m') ?pt va = pt_get (phys m) ?pt va"
    if "PGROUNDDOWN va \<notin> upages new \<union> upages (psz p)" for va
    using that by auto
  show "pt_get (phys m') ?pt va = 0"
    if "PGROUNDDOWN va \<notin> upages new" "PGROUNDDOWN va \<in> upages (psz p)" for va
    using that get by auto
  have "leaf_pa (phys m') ?pt a = leaf_pa (phys m) ?pt a" if "a \<in> upages new" for a
    using get [of a] that by (simp add: leaf_pa_def upages_def)
  then have "leaf_pa (phys m') ?pt ` upages new = leaf_pa (phys m) ?pt ` upages new" by simp
  moreover have "upages (psz p) = ?U \<union> upages new" using sub by blast
  ultimately have "leaf_pa (phys m) ?pt ` upages (psz p) =
      leaf_pa (phys m) ?pt ` ?U \<union> leaf_pa (phys m') ?pt ` upages new"
    by (metis image_Un)
  then show "vm_own (ksym_end ks) m' ?pt \<union> leaf_pa (phys m') ?pt ` upages new =
      vm_own (ksym_end ks) m ?pt \<union> leaf_pa (phys m) ?pt ` upages (psz p)"
    using g by (auto simp: undone_def)
  show "phys m' b = phys m b" if "outside (vm_own (ksym_end ks) m ?pt \<union>
      leaf_pa (phys m) ?pt ` upages (psz p)) b" for b
    using g that by (auto simp: undone_def outside_def)
qed

lemma growproc_step:
  assumes k: "kmem_inv (ksym_end ks) (mm st)" and wf: "as_wf ks (mm st) (procs st i)"
    and pt: "pagetable (procs st i) \<noteq> 0"
  obtains m' sz r where
    "growproc ks i n st = Inr (st\<lparr>mm := m', procs := (procs st)(i := (procs st i)\<lparr>psz := sz\<rparr>)\<rparr>, r)"
    "own_step ks (mm st) (procs st i) m' ((procs st i)\<lparr>psz := sz\<rparr>)"
    "r = 0 \<or> r = - 1 \<and> sz = psz (procs st i)"
proof -
  let ?e = "ksym_end ks" and ?p = "procs st i" and ?m = "mm st"
  let ?pt = "pagetable ?p" and ?sz = "psz ?p"
  have t: "table_ok ks ?m ?pt (trapframe ?p) ?sz" using wf pt by (simp add: as_wf_def)
  note us = table_ok_parts(1,3) [OF t]
  have same: "(procs st)(i := ?p\<lparr>psz := ?sz\<rparr>) = procs st" "own_step ks ?m ?p ?m (?p\<lparr>psz := ?sz\<rparr>)"
    using own_step_refl [OF k wf] by simp_all
  consider (grow) "sint n > 0" "\<not> ?sz + n < ?sz" | (wrap) "sint n > 0" "?sz + n < ?sz"
    | (shrink) "sint n < 0" "?sz + n < ?sz" | (keep) "sint n < 0" "\<not> ?sz + n < ?sz" | (zero) "sint n = 0"
    by linarith
  then show ?thesis
  proof cases
    case grow
    have z: "pt_get (phys ?m) ?pt va = 0"
      if "?sz \<le> PGROUNDDOWN va" "PGROUNDDOWN va \<le> PHYSTOP" for va
    proof -
      have "PGROUNDDOWN va \<noteq> TRAMPOLINE" "PGROUNDDOWN va \<noteq> TRAPFRAME"
        using that(2) special_pages(7,8) by auto
      then show ?thesis using that(1) t by (simp add: table_ok_def upages_def)
    qed
    obtain m' r where r: "uvmalloc ?e ?m ?pt ?sz (?sz + n) = Inr (m', r)"
      "alloc_result ?e ?pt ?sz ?sz (?sz + n) ?m (m', r)"
      using uvmalloc_spec [OF us, of "?sz + n"] grow(2) z by (auto simp: not_less)
    have n0: "?sz + n \<noteq> 0"
    proof
      assume "?sz + n = 0"
      with grow(2) have "?sz = 0" by (simp add: word_gt_0)
      with \<open>?sz + n = 0\<close> grow(1) show False by simp
    qed
    show ?thesis
    proof (cases "r = 0")
      case True
      with r(2) n0 have "us_inv ?e m' ?pt (upages ?sz)" "undone ?e ?pt (upages ?sz - upages ?sz) ?m m'"
        by (auto simp: alloc_result_def)
      from shrink_own [OF wf pt order_refl this] show ?thesis
        using that [where m' = m' and sz = "?sz" and r = "- 1"] grow(1) r(1) True by (simp add: growproc_def Let_def)
    next
      case False
      with r(2) have "r = ?sz + n" "us_inv ?e m' ?pt (upages (?sz + n))"
        "grew ?e ?pt (upages (?sz + n) - upages ?sz) user_flags zeroed ?m m'"
        by (auto simp: alloc_result_def)
      with grow_own [OF wf pt _ this(2,3)] grow r(1) False show ?thesis
        by (intro that [where m' = m' and sz = "?sz + n" and r = 0]) (simp_all add: growproc_def Let_def upd_proc_def not_less)
    qed
  next
    case shrink
    have "upages ?sz - (upages ?sz - upages (?sz + n)) = upages (?sz + n)"
      using shrink(2) by (auto simp: upages_def)
    then obtain m' where m': "uvmdealloc ?e ?m ?pt ?sz (?sz + n) = Inr (m', ?sz + n)"
      "us_inv ?e m' ?pt (upages (?sz + n))" "undone ?e ?pt (upages ?sz - upages (?sz + n)) ?m m'"
      using uvmdealloc_spec [OF us(1) order_refl us(2), of "?sz + n"] shrink(2) unmapped_undone
      by (auto simp: less_imp_le)
    with shrink_own [OF wf pt _ m'(2,3)] shrink show ?thesis
      by (intro that [where m' = m' and sz = "?sz + n" and r = 0])
        (simp_all add: growproc_def Let_def upd_proc_def less_imp_le)
  next
    case wrap
    then have "?sz \<noteq> 0" by auto
    then show ?thesis
      using that [where m' = "?m" and sz = "?sz" and r = 0] same wrap by (simp add: growproc_def uvmalloc_def Let_def upd_proc_def)
  next
    case keep
    then show ?thesis
      using that [where m' = "?m" and sz = "?sz" and r = 0] same by (simp add: growproc_def uvmdealloc_def Let_def upd_proc_def not_less)
  next
    case zero
    then show ?thesis using that [where m' = "?m" and sz = "?sz" and r = 0] same by (simp add: growproc_def Let_def)
  qed
qed

end
