(* ===== verification/Spinlock.thy ===== *)
theory Spinlock
  imports Prelude
begin

text \<open>
  \<^verbatim>\<open>kernel/spinlock.c\<close>. The lock operations are taken apart into their accesses to memory, which the harts
  interleave. \<^verbatim>\<open>test_and_set\<close> is a load and a store, so that the locks work as meant on one hart,
  and on several harts only as long as no hart accesses a lock word between another's load and
  store of it. Under either condition the locks exclude each other and keep the interrupt state
  consistent; without one, a run of two harts breaks mutual exclusion.
\<close>

section \<open>State\<close>

text \<open>
  The fields of \<^verbatim>\<open>struct cpu\<close> that the locks use. \<open>sie\<close> is the supervisor interrupt enable
  bit of \<^verbatim>\<open>sstatus\<close> that \<^verbatim>\<open>intr_get\<close>, \<^verbatim>\<open>intr_on\<close> and \<^verbatim>\<open>intr_off\<close> access.
\<close>

record cpu =
  noff :: int
  intena :: bool
  sie :: bool

text \<open>\<^verbatim>\<open>struct spinlock\<close>: \<open>lcpu\<close> is the hart that holds the lock, if any.\<close>

record spinlock =
  locked :: u32
  lname :: string
  lcpu :: "nat option"

definition intr_get :: "cpu \<Rightarrow> bool" where
  "intr_get c = sie c"

definition intr_on :: "cpu \<Rightarrow> cpu" where
  "intr_on c = c\<lparr>sie := True\<rparr>"

definition intr_off :: "cpu \<Rightarrow> cpu" where
  "intr_off c = c\<lparr>sie := False\<rparr>"

section \<open>Operations\<close>

definition initlock :: "string \<Rightarrow> spinlock" where
  "initlock name = \<lparr>locked = 0, lname = name, lcpu = None\<rparr>"

definition holding :: "nat \<Rightarrow> spinlock \<Rightarrow> bool" where
  "holding me lk \<longleftrightarrow> locked lk \<noteq> 0 \<and> lcpu lk = Some me"

definition push_off :: "cpu \<Rightarrow> cpu" where
  "push_off c =
    (let old = intr_get c;
         c = intr_off c;
         c = (if noff c = 0 then c\<lparr>intena := old\<rparr> else c)
     in c\<lparr>noff := noff c + 1\<rparr>)"

definition pop_off :: "cpu \<Rightarrow> cpu res" where
  "pop_off c =
    (if intr_get c then Inl (Panic ''pop_off - interruptible'')
     else if noff c < 1 then Inl (Panic ''pop_off'')
     else
       let c = c\<lparr>noff := noff c - 1\<rparr>
       in Inr (if noff c = 0 \<and> intena c then intr_on c else c))"

text \<open>\<^verbatim>\<open>release\<close> as a hart runs it to completion.\<close>

definition release :: "nat \<Rightarrow> cpu \<Rightarrow> spinlock \<Rightarrow> (cpu \<times> spinlock) res" where
  "release me c lk =
    (if \<not> holding me lk then Inl (Panic ''release'')
     else
       let lk = lk\<lparr>lcpu := None\<rparr>;
           lk = lk\<lparr>locked := 0\<rparr>
       in ebind (pop_off c) (\<lambda>c. Inr (c, lk)))"

section \<open>All harts and all locks\<close>

text \<open>
  The kernel's locks are numbered, as its harts are. \<open>lpc\<close> says where a hart is in \<^verbatim>\<open>acquire\<close> or \<^verbatim>\<open>release\<close>:
  outside of both (\<open>LRun\<close>); in \<^verbatim>\<open>acquire\<close> before the test of \<^verbatim>\<open>holding\<close>, the load of \<^verbatim>\<open>test_and_set\<close>, its store
  (with the loaded value \<^verbatim>\<open>old\<close>), and the assignment to \<^verbatim>\<open>lk->cpu\<close>; in \<^verbatim>\<open>release\<close> before the
  assignments to \<^verbatim>\<open>lk->cpu\<close> and to \<^verbatim>\<open>lk->locked\<close>, and before \<^verbatim>\<open>pop_off\<close>; or in \<^verbatim>\<open>panic\<close>. \<open>inside\<close> is
  no variable of the kernel: it records the locks for which \<^verbatim>\<open>acquire\<close> has returned and \<^verbatim>\<open>release\<close> has not been called.
\<close>

datatype lock_pc =
    LRun | LTest nat | LLoad nat | LStore nat u32 | LOwn nat | LUnown nat | LClear nat | LPop | LPanic string

record lock_system =
  cpus :: "nat \<Rightarrow> cpu"
  locks :: "nat \<Rightarrow> spinlock"
  lpc :: "nat \<Rightarrow> lock_pc"
  inside :: "nat \<Rightarrow> nat set"

definition boot_system :: "(nat \<Rightarrow> string) \<Rightarrow> lock_system" where
  "boot_system names =
    \<lparr>cpus = (\<lambda>_. \<lparr>noff = 0, intena = False, sie = False\<rparr>), locks = (\<lambda>l. initlock (names l)),
      lpc = (\<lambda>_. LRun), inside = (\<lambda>_. {})\<rparr>"

definition go :: "nat \<Rightarrow> lock_pc \<Rightarrow> lock_system \<Rightarrow> lock_system" where
  "go me pc s = s\<lparr>lpc := (lpc s)(me := pc)\<rparr>"

definition upd_lock :: "nat \<Rightarrow> (spinlock \<Rightarrow> spinlock) \<Rightarrow> lock_system \<Rightarrow> lock_system" where
  "upd_lock l f s = s\<lparr>locks := (locks s)(l := f (locks s l))\<rparr>"

text \<open>The call of \<^verbatim>\<open>acquire\<close> up to \<^verbatim>\<open>push_off\<close>, the call of \<^verbatim>\<open>release\<close> with its first test, and the steps in between.\<close>

definition begin_acquire :: "nat \<Rightarrow> nat \<Rightarrow> lock_system \<Rightarrow> lock_system" where
  "begin_acquire me l s = go me (LTest l) (s\<lparr>cpus := (cpus s)(me := push_off (cpus s me))\<rparr>)"

definition begin_release :: "nat \<Rightarrow> nat \<Rightarrow> lock_system \<Rightarrow> lock_system" where
  "begin_release me l s =
    (if \<not> holding me (locks s l) then go me (LPanic ''release'') s
     else go me (LUnown l) (s\<lparr>inside := (inside s)(me := inside s me - {l})\<rparr>))"

definition lock_move :: "nat \<Rightarrow> lock_system \<Rightarrow> lock_system" where
  "lock_move me s =
    (case lpc s me of
       LRun \<Rightarrow> s
     | LTest l \<Rightarrow> if holding me (locks s l) then go me (LPanic ''acquire'') s else go me (LLoad l) s
     | LLoad l \<Rightarrow> go me (LStore l (locked (locks s l))) s
     | LStore l old \<Rightarrow>
         go me (if old \<noteq> 0 then LLoad l else LOwn l) (upd_lock l (\<lambda>lk. lk\<lparr>locked := 1\<rparr>) s)
     | LOwn l \<Rightarrow>
         go me LRun (upd_lock l (\<lambda>lk. lk\<lparr>lcpu := Some me\<rparr>)
           (s\<lparr>inside := (inside s)(me := insert l (inside s me))\<rparr>))
     | LUnown l \<Rightarrow> go me (LClear l) (upd_lock l (\<lambda>lk. lk\<lparr>lcpu := None\<rparr>) s)
     | LClear l \<Rightarrow> go me LPop (upd_lock l (\<lambda>lk. lk\<lparr>locked := 0\<rparr>) s)
     | LPop \<Rightarrow>
         (case pop_off (cpus s me) of
            Inl (Panic m) \<Rightarrow> go me (LPanic m) s
          | Inl _ \<Rightarrow> s
          | Inr c \<Rightarrow> go me LRun (s\<lparr>cpus := (cpus s)(me := c)\<rparr>))
     | LPanic m \<Rightarrow> s)"

text \<open>
  A hart is about to access a lock word that another hart has loaded in \<^verbatim>\<open>test_and_set\<close> and not stored yet.
\<close>

definition word_of :: "lock_pc \<Rightarrow> nat option" where
  "word_of pc = (case pc of LLoad l \<Rightarrow> Some l | LStore l _ \<Rightarrow> Some l | LClear l \<Rightarrow> Some l | _ \<Rightarrow> None)"

definition intrudes :: "nat \<Rightarrow> lock_system \<Rightarrow> bool" where
  "intrudes me s \<longleftrightarrow> (\<exists>h l old. h \<noteq> me \<and> word_of (lpc s me) = Some l \<and> lpc s h = LStore l old)"

text \<open>
  A step of one of \<open>n\<close> harts: a call of \<^verbatim>\<open>acquire\<close> or \<^verbatim>\<open>release\<close>, a step within them, or a change of its interrupt enable
  bit while it holds no lock (the scheduler and \<^verbatim>\<open>usertrap\<close> do so). In a calm run no hart intrudes.
\<close>

inductive lock_step :: "nat \<Rightarrow> bool \<Rightarrow> lock_system \<Rightarrow> lock_system \<Rightarrow> bool" for n :: nat and calm :: bool where
  step_acquire: "me < n \<Longrightarrow> lpc s me = LRun \<Longrightarrow> lock_step n calm s (begin_acquire me l s)"
| step_release: "me < n \<Longrightarrow> lpc s me = LRun \<Longrightarrow> lock_step n calm s (begin_release me l s)"
| step_move: "me < n \<Longrightarrow> (calm \<Longrightarrow> \<not> intrudes me s) \<Longrightarrow> lock_step n calm s (lock_move me s)"
| step_intr: "me < n \<Longrightarrow> lpc s me = LRun \<Longrightarrow> noff (cpus s me) = 0 \<Longrightarrow>
    lock_step n calm s (s\<lparr>cpus := (cpus s)(me := (cpus s me)\<lparr>sie := b\<rparr>)\<rparr>)"

section \<open>Invariant\<close>

text \<open>A hart owns a lock from the store that takes it to the store that clears it.\<close>

definition owns :: "lock_system \<Rightarrow> nat \<Rightarrow> nat \<Rightarrow> bool" where
  "owns s h l \<longleftrightarrow> l \<in> inside s h \<or> lpc s h \<in> {LOwn l, LUnown l, LClear l}"

definition mutex :: "lock_system \<Rightarrow> bool" where
  "mutex s \<longleftrightarrow> (\<forall>l h h'. owns s h l \<longrightarrow> owns s h' l \<longrightarrow> h = h')"

definition word_ok :: "lock_system \<Rightarrow> bool" where
  "word_ok s \<longleftrightarrow> (\<forall>l. locked (locks s l) \<noteq> 0 \<longleftrightarrow> (\<exists>h. owns s h l))"

definition loads_ok :: "lock_system \<Rightarrow> bool" where
  "loads_ok s \<longleftrightarrow> (\<forall>h l old. lpc s h = LStore l old \<longrightarrow> old = locked (locks s l) \<and>
    (\<forall>h' old'. lpc s h' = LStore l old' \<longrightarrow> h' = h))"

definition owner_ok :: "lock_system \<Rightarrow> bool" where
  "owner_ok s \<longleftrightarrow> (\<forall>l h. lcpu (locks s l) = Some h \<longleftrightarrow> l \<in> inside s h \<or> lpc s h = LUnown l)"

definition depth_ok :: "lock_system \<Rightarrow> bool" where
  "depth_ok s \<longleftrightarrow> (\<forall>h. finite (inside s h) \<and> (0 < noff (cpus s h) \<longrightarrow> \<not> sie (cpus s h)) \<and>
    ((\<forall>m. lpc s h \<noteq> LPanic m) \<longrightarrow> noff (cpus s h) = int (card (inside s h)) + (if lpc s h = LRun then 0 else 1)))"

definition places_ok :: "nat \<Rightarrow> lock_system \<Rightarrow> bool" where
  "places_ok n s \<longleftrightarrow> (\<forall>h. (n \<le> h \<longrightarrow> lpc s h = LRun) \<and> (\<forall>m. lpc s h = LPanic m \<longrightarrow> m \<in> {''acquire'', ''release''}) \<and>
    (\<forall>l \<in> inside s h. lpc s h \<notin> {LLoad l, LOwn l, LUnown l, LClear l} \<and> (\<forall>old. lpc s h \<noteq> LStore l old)))"

definition lock_inv :: "nat \<Rightarrow> lock_system \<Rightarrow> bool" where
  "lock_inv n s \<longleftrightarrow> mutex s \<and> word_ok s \<and> loads_ok s \<and> owner_ok s \<and> depth_ok s \<and> places_ok n s"

lemma lock_inv_boot: "lock_inv n (boot_system names)"
  by (simp add: lock_inv_def boot_system_def mutex_def word_ok_def loads_ok_def owner_ok_def depth_ok_def places_ok_def
      owns_def initlock_def)

lemma push_off_fields:
  "noff (push_off c) = noff c + 1" "\<not> sie (push_off c)"
  "intena (push_off c) = (if noff c = 0 then sie c else intena c)"
  by (auto simp: push_off_def Let_def intr_get_def intr_off_def)

lemma pop_off_Inr: "\<not> sie c \<Longrightarrow> 1 \<le> noff c \<Longrightarrow> pop_off c = Inr (c\<lparr>noff := noff c - 1, sie := noff c = 1 \<and> intena c\<rparr>)"
  by (cases c) (simp add: pop_off_def intr_get_def intr_on_def Let_def)

lemma lock_invD:
  assumes "lock_inv n s"
  shows "owns s h l \<Longrightarrow> owns s h' l \<Longrightarrow> h = h'" "locked (locks s l) \<noteq> 0 \<longleftrightarrow> (\<exists>h. owns s h l)"
    "lpc s h = LStore l old \<Longrightarrow> old = locked (locks s l)" "lpc s h = LStore l old \<Longrightarrow> lpc s h' = LStore l old' \<Longrightarrow> h' = h"
    "lcpu (locks s l) = Some h \<longleftrightarrow> l \<in> inside s h \<or> lpc s h = LUnown l"
    "finite (inside s h)" "0 < noff (cpus s h) \<Longrightarrow> \<not> sie (cpus s h)"
    "(\<And>m. lpc s h \<noteq> LPanic m) \<Longrightarrow> noff (cpus s h) = int (card (inside s h)) + (if lpc s h = LRun then 0 else 1)"
    "n \<le> h \<Longrightarrow> lpc s h = LRun" "lpc s h = LPanic m \<Longrightarrow> m \<in> {''acquire'', ''release''}"
    "l \<in> inside s h \<Longrightarrow> lpc s h \<notin> {LLoad l, LOwn l, LUnown l, LClear l}" "l \<in> inside s h \<Longrightarrow> lpc s h \<noteq> LStore l old"
  using assms by (auto simp: lock_inv_def mutex_def word_ok_def loads_ok_def owner_ok_def depth_ok_def places_ok_def)

lemma holding_iff: "lock_inv n s \<Longrightarrow> holding h (locks s l) \<longleftrightarrow> l \<in> inside s h \<or> lpc s h = LUnown l"
  using lock_invD(2,5) [of n s] by (auto simp: holding_def owns_def)

text \<open>A step of one hart that moves it from \<open>pc\<close> to \<open>pc'\<close> and changes neither a lock nor the locks that it is inside.\<close>

lemma lock_inv_go:
  assumes inv: "lock_inv n s" and me: "me < n" and pc: "\<And>l. lpc s me \<notin> {LOwn l, LUnown l, LClear l}" "lpc s me = LRun \<Longrightarrow> \<exists>m. pc' = LPanic m"
      "\<And>m. lpc s me \<noteq> LPanic m"
    and pc': "\<And>l. pc' \<notin> {LOwn l, LUnown l, LClear l}" "pc' \<noteq> LRun" "\<And>m. pc' = LPanic m \<Longrightarrow> m \<in> {''acquire'', ''release''}"
    and ld: "\<And>l old. pc' = LStore l old \<Longrightarrow> old = locked (locks s l) \<and> (\<forall>h old'. h \<noteq> me \<longrightarrow> lpc s h \<noteq> LStore l old')"
    and pl: "\<And>l. l \<in> inside s me \<Longrightarrow> pc' \<noteq> LLoad l \<and> (\<forall>old. pc' \<noteq> LStore l old)"
  shows "lock_inv n (go me pc' s)"
proof -
  note I = lock_invD [OF inv]
  let ?s = "go me pc' s"
  have f: "locks ?s = locks s" "cpus ?s = cpus s" "inside ?s = inside s" "lpc ?s = (lpc s)(me := pc')"
    by (simp_all add: go_def)
  have o: "owns ?s h l = owns s h l" for h l using pc(1) [of l] pc'(1) [of l] by (auto simp: owns_def f)
  have "mutex ?s" "word_ok ?s" using inv by (simp_all add: lock_inv_def mutex_def word_ok_def o f)
  moreover have "loads_ok ?s" unfolding loads_ok_def by (auto simp: f dest: I(3,4) ld split: if_splits)
  moreover have "owner_ok ?s" unfolding owner_ok_def using I(5) pc(1) pc'(1) by (auto simp: f)
  moreover have "depth_ok ?s" unfolding depth_ok_def using I(6,7,8) pc(2,3) pc'(2) by (auto simp: f)
  moreover have "places_ok n ?s" unfolding places_ok_def using I(9-12) pc'(1,3) pl me by (auto simp: f)
  ultimately show ?thesis by (simp add: lock_inv_def)
qed

lemmas lock_upd_simps = go_def upd_lock_def

lemma lock_inv_test:
  assumes inv: "lock_inv n s" and me: "me < n" "lpc s me = LTest l"
  shows "lock_inv n (lock_move me s)"
proof (cases "holding me (locks s l)")
  case True
  have "lock_inv n (go me (LPanic ''acquire'') s)" by (rule lock_inv_go [OF inv me(1)]) (simp_all add: me(2))
  then show ?thesis using True me by (simp add: lock_move_def)
next
  case False
  then have "l \<notin> inside s me" using holding_iff [OF inv] by simp
  then have "lock_inv n (go me (LLoad l) s)" by (intro lock_inv_go [OF inv me(1)]) (auto simp: me(2))
  then show ?thesis using False me by (simp add: lock_move_def)
qed

lemma lock_inv_load:
  assumes inv: "lock_inv n s" and me: "me < n" "lpc s me = LLoad l" and calm: "\<not> intrudes me s"
  shows "lock_inv n (lock_move me s)"
proof -
  have "l \<notin> inside s me" using lock_invD(11) [OF inv, of l me] me by auto
  moreover have "lpc s h \<noteq> LStore l old" if "h \<noteq> me" for h old
    using calm that me(2) by (auto simp: intrudes_def word_of_def)
  ultimately have "lock_inv n (go me (LStore l (locked (locks s l))) s)" by (intro lock_inv_go [OF inv me(1)]) (auto simp: me(2))
  then show ?thesis using me by (simp add: lock_move_def)
qed

lemma lock_inv_store:
  assumes inv: "lock_inv n s" and me: "me < n" "lpc s me = LStore l old"
  shows "lock_inv n (lock_move me s)"
proof -
  note I = lock_invD [OF inv]
  have old: "old = locked (locks s l)" and only: "\<And>h old'. lpc s h = LStore l old' \<Longrightarrow> h = me"
    using I(3) [OF me(2)] I(4) [OF me(2)] by simp_all
  let ?s = "lock_move me s"
  have s: "locks ?s = (locks s)(l := (locks s l)\<lparr>locked := 1\<rparr>)" "cpus ?s = cpus s" "inside ?s = inside s"
    "lpc ?s = (lpc s)(me := if old \<noteq> 0 then LLoad l else LOwn l)"
    using me(2) by (simp_all add: lock_move_def lock_upd_simps)
  have o: "owns ?s h k \<longleftrightarrow> owns s h k \<or> h = me \<and> k = l \<and> old = 0" for h k
    using me(2) by (auto simp: owns_def s)
  have free: "old = 0 \<Longrightarrow> \<not> owns s h l" for h using I(2) [of l] old by simp
  have "mutex ?s" unfolding mutex_def o using I(1) free by metis
  moreover have "word_ok ?s" unfolding word_ok_def o using I(2) [of l] I(2) old by (auto simp: s)
  moreover have "loads_ok ?s" unfolding loads_ok_def by (auto simp: s dest: I(3,4) only split: if_splits)
  moreover have "owner_ok ?s" unfolding owner_ok_def using I(5) me(2) by (auto simp: s)
  moreover have "depth_ok ?s" unfolding depth_ok_def using I(6,7,8) me(2) by (auto simp: s split: if_splits)
  moreover have "places_ok n ?s" unfolding places_ok_def using I(9-12) me by (auto simp: s split: if_splits)
  ultimately show ?thesis by (simp add: lock_inv_def)
qed

lemma lock_inv_own:
  assumes inv: "lock_inv n s" and me: "me < n" "lpc s me = LOwn l"
  shows "lock_inv n (lock_move me s)"
proof -
  note I = lock_invD [OF inv]
  let ?s = "lock_move me s"
  have s: "locks ?s = (locks s)(l := (locks s l)\<lparr>lcpu := Some me\<rparr>)" "cpus ?s = cpus s"
    "inside ?s = (inside s)(me := insert l (inside s me))" "lpc ?s = (lpc s)(me := LRun)"
    using me(2) by (simp_all add: lock_move_def lock_upd_simps)
  have own: "owns s me l" and new: "l \<notin> inside s me" using me(2) I(11) [of l me] by (auto simp: owns_def)
  have o: "owns ?s h k \<longleftrightarrow> owns s h k" for h k using me(2) by (auto simp: owns_def s)
  have oth: "h \<noteq> me \<Longrightarrow> l \<notin> inside s h \<and> lpc s h \<noteq> LUnown l" for h using I(1) [of h l me] own by (auto simp: owns_def)
  have "mutex ?s" "word_ok ?s" using inv by (auto simp: lock_inv_def mutex_def word_ok_def o s)
  moreover have "loads_ok ?s" unfolding loads_ok_def by (auto simp: s dest: I(3,4) split: if_splits)
  moreover have "owner_ok ?s" unfolding owner_ok_def using I(5) me(2) oth by (auto simp: s)
  moreover have "depth_ok ?s" unfolding depth_ok_def using I(6,7,8) me(2) new by (auto simp: s split: if_splits)
  moreover have "places_ok n ?s" unfolding places_ok_def using I(9-12) me by (auto simp: s split: if_splits)
  ultimately show ?thesis by (simp add: lock_inv_def)
qed

lemma lock_inv_unown:
  assumes inv: "lock_inv n s" and me: "me < n" "lpc s me = LUnown l"
  shows "lock_inv n (lock_move me s)"
proof -
  note I = lock_invD [OF inv]
  let ?s = "lock_move me s"
  have s: "locks ?s = (locks s)(l := (locks s l)\<lparr>lcpu := None\<rparr>)" "cpus ?s = cpus s"
    "inside ?s = inside s" "lpc ?s = (lpc s)(me := LClear l)"
    using me(2) by (simp_all add: lock_move_def lock_upd_simps)
  have own: "owns s me l" and new: "l \<notin> inside s me" using me(2) I(11) [of l me] by (auto simp: owns_def)
  have o: "owns ?s h k \<longleftrightarrow> owns s h k" for h k using me(2) by (auto simp: owns_def s)
  have oth: "h \<noteq> me \<Longrightarrow> l \<notin> inside s h \<and> lpc s h \<noteq> LUnown l" for h using I(1) [of h l me] own by (auto simp: owns_def)
  have "mutex ?s" "word_ok ?s" using inv by (auto simp: lock_inv_def mutex_def word_ok_def o s)
  moreover have "loads_ok ?s" unfolding loads_ok_def by (auto simp: s dest: I(3,4) split: if_splits)
  moreover have "owner_ok ?s" unfolding owner_ok_def using I(5) me(2) oth new by (auto simp: s)
  moreover have "depth_ok ?s" unfolding depth_ok_def using I(6,7,8) me(2) by (auto simp: s split: if_splits)
  moreover have "places_ok n ?s" unfolding places_ok_def using I(9-12) me new by (auto simp: s split: if_splits)
  ultimately show ?thesis by (simp add: lock_inv_def)
qed

lemma lock_inv_clear:
  assumes inv: "lock_inv n s" and me: "me < n" "lpc s me = LClear l" and calm: "\<not> intrudes me s"
  shows "lock_inv n (lock_move me s)"
proof -
  note I = lock_invD [OF inv]
  let ?s = "lock_move me s"
  have s: "locks ?s = (locks s)(l := (locks s l)\<lparr>locked := 0\<rparr>)" "cpus ?s = cpus s"
    "inside ?s = inside s" "lpc ?s = (lpc s)(me := LPop)"
    using me(2) by (simp_all add: lock_move_def lock_upd_simps)
  have own: "owns s me l" and new: "l \<notin> inside s me" using me(2) I(11) [of l me] by (auto simp: owns_def)
  have oth: "h \<noteq> me \<Longrightarrow> \<not> owns s h l" for h using I(1) [OF own, of h] by blast
  have o: "owns ?s h k \<longleftrightarrow> owns s h k \<and> k \<noteq> l" for h k
    using me(2) oth [of h] new by (cases "h = me") (auto simp: owns_def s)
  have st: "lpc s h \<noteq> LStore l old" for h old
    using calm me(2) by (cases "h = me") (auto simp: intrudes_def word_of_def)
  have "mutex ?s" using I(1) by (auto simp: mutex_def o)
  moreover have "word_ok ?s" unfolding word_ok_def o using I(2) by (auto simp: s)
  moreover have "loads_ok ?s" unfolding loads_ok_def using st by (auto simp: s dest: I(3,4) split: if_splits)
  moreover have "owner_ok ?s" unfolding owner_ok_def using I(5) me(2) by (auto simp: s)
  moreover have "depth_ok ?s" unfolding depth_ok_def using I(6,7,8) me(2) by (auto simp: s split: if_splits)
  moreover have "places_ok n ?s" unfolding places_ok_def using I(9-12) me by (auto simp: s split: if_splits)
  ultimately show ?thesis by (simp add: lock_inv_def)
qed

text \<open>Steps that change the nesting depth of a hart, and no lock.\<close>

lemma lock_inv_cpu:
  assumes inv: "lock_inv n s" and me: "me < n"
    and s: "locks s' = locks s" "cpus s' = (cpus s)(me := c)" "inside s' = inside s" "lpc s' = (lpc s)(me := pc)"
    and pc: "\<And>l. lpc s me \<notin> {LOwn l, LUnown l, LClear l}" "pc = LRun \<or> pc = LTest l"
    and c: "0 < noff c \<longrightarrow> \<not> sie c" "noff c = int (card (inside s me)) + (if pc = LRun then 0 else 1)"
  shows "lock_inv n s'"
proof -
  note I = lock_invD [OF inv]
  have o: "owns s' h k \<longleftrightarrow> owns s h k" for h k using pc(1) [of k] pc(2) by (auto simp: owns_def s)
  have "mutex s'" "word_ok s'" using inv by (auto simp: lock_inv_def mutex_def word_ok_def o s)
  moreover have "loads_ok s'" unfolding loads_ok_def using pc(2) by (auto simp: s dest: I(3,4) split: if_splits)
  moreover have "owner_ok s'" unfolding owner_ok_def using I(5) pc by (auto simp: s)
  moreover have "depth_ok s'" unfolding depth_ok_def using I(6,7,8) c by (auto simp: s)
  moreover have "places_ok n s'" unfolding places_ok_def using I(9-12) me pc(2) by (auto simp: s)
  ultimately show ?thesis by (simp add: lock_inv_def)
qed

lemma lock_inv_pop:
  assumes inv: "lock_inv n s" and me: "me < n" "lpc s me = LPop"
  shows "lock_inv n (lock_move me s)"
proof -
  note I = lock_invD [OF inv]
  have d: "noff (cpus s me) = int (card (inside s me)) + 1" using I(8) [of me] me(2) by simp
  have p: "pop_off (cpus s me) = Inr ((cpus s me)\<lparr>noff := noff (cpus s me) - 1, sie := noff (cpus s me) = 1 \<and> intena (cpus s me)\<rparr>)"
    by (rule pop_off_Inr) (use I(7) [of me] d in auto)
  show ?thesis
    by (rule lock_inv_cpu [OF inv me(1), where pc = LRun]) (use me(2) p d in \<open>auto simp: lock_move_def lock_upd_simps\<close>)
qed

lemma lock_inv_begin_acquire:
  assumes inv: "lock_inv n s" and me: "me < n" "lpc s me = LRun"
  shows "lock_inv n (begin_acquire me l s)"
  by (rule lock_inv_cpu [OF inv me(1), where pc = "LTest l"])
    (use me(2) lock_invD(8) [OF inv, of me] in \<open>auto simp: begin_acquire_def lock_upd_simps push_off_fields\<close>)

lemma lock_inv_begin_release:
  assumes inv: "lock_inv n s" and me: "me < n" "lpc s me = LRun"
  shows "lock_inv n (begin_release me l s)"
proof (cases "l \<in> inside s me")
  case True
  note I = lock_invD [OF inv]
  let ?s = "begin_release me l s"
  have s: "locks ?s = locks s" "cpus ?s = cpus s" "inside ?s = (inside s)(me := inside s me - {l})" "lpc ?s = (lpc s)(me := LUnown l)"
    using True holding_iff [OF inv] by (simp_all add: begin_release_def lock_upd_simps)
  have o: "owns ?s h k \<longleftrightarrow> owns s h k" for h k using me(2) True by (auto simp: owns_def s)
  have c: "card (inside s me) = Suc (card (inside s me - {l}))" by (rule card_Suc_Diff1 [OF I(6) True, symmetric])
  have "mutex ?s" "word_ok ?s" using inv by (auto simp: lock_inv_def mutex_def word_ok_def o s)
  moreover have "loads_ok ?s" unfolding loads_ok_def by (auto simp: s dest: I(3,4) split: if_splits)
  moreover have "owner_ok ?s" unfolding owner_ok_def using I(5) me(2) True by (auto simp: s)
  moreover have "depth_ok ?s" unfolding depth_ok_def using I(6,7,8) me(2) c by (auto simp: s)
  moreover have "places_ok n ?s" unfolding places_ok_def using I(9-12) me by (auto simp: s)
  ultimately show ?thesis by (simp add: lock_inv_def)
next
  case False
  then have "begin_release me l s = go me (LPanic ''release'') s"
    using holding_iff [OF inv] me(2) by (simp add: begin_release_def)
  moreover have "lock_inv n (go me (LPanic ''release'') s)"
    by (rule lock_inv_go [OF inv me(1)]) (simp_all add: me(2))
  ultimately show ?thesis by simp
qed

lemma lock_inv_move:
  assumes inv: "lock_inv n s" and me: "me < n" and calm: "\<not> intrudes me s"
  shows "lock_inv n (lock_move me s)"
proof (cases "lpc s me")
  case (LTest l)
  then show ?thesis by (rule lock_inv_test [OF inv me])
next
  case (LLoad l)
  then show ?thesis by (rule lock_inv_load [OF inv me _ calm])
next
  case (LStore l old)
  then show ?thesis by (rule lock_inv_store [OF inv me])
next
  case (LOwn l)
  then show ?thesis by (rule lock_inv_own [OF inv me])
next
  case (LUnown l)
  then show ?thesis by (rule lock_inv_unown [OF inv me])
next
  case (LClear l)
  then show ?thesis by (rule lock_inv_clear [OF inv me _ calm])
next
  case LPop
  then show ?thesis by (rule lock_inv_pop [OF inv me])
qed (use inv in \<open>simp_all add: lock_move_def\<close>)

lemma no_intrusion:
  assumes "lock_inv n s" "me < n" "n = 1 \<or> calm" "calm \<Longrightarrow> \<not> intrudes me s"
  shows "\<not> intrudes me s"
proof
  assume i: "intrudes me s"
  then have "n = 1" using assms(3,4) by blast
  moreover obtain h where "h \<noteq> me" "lpc s h \<noteq> LRun" using i by (auto simp: intrudes_def)
  ultimately show False using lock_invD(9) [OF assms(1), of h] assms(2) by auto
qed

lemma lock_inv_step: "lock_step n calm s s' \<Longrightarrow> lock_inv n s \<Longrightarrow> n = 1 \<or> calm \<Longrightarrow> lock_inv n s'"
proof (induction rule: lock_step.induct)
  case (step_move me s)
  then show ?case using lock_inv_move no_intrusion by blast
next
  case (step_intr me s b)
  show ?case
    by (rule lock_inv_cpu [OF step_intr(4,1), where pc = LRun and c = "(cpus s me)\<lparr>sie := b\<rparr>"])
      (use step_intr lock_invD(8) [OF step_intr(4), of me] in \<open>auto simp: fun_upd_idem\<close>)
qed (auto intro: lock_inv_begin_acquire lock_inv_begin_release)

lemma lock_inv_reachable: "(lock_step n calm)\<^sup>*\<^sup>* (boot_system names) s \<Longrightarrow> n = 1 \<or> calm \<Longrightarrow> lock_inv n s"
  by (induction rule: rtranclp_induct) (auto intro: lock_inv_boot lock_inv_step)

text \<open>
  Undisturbed, a hart takes a free lock in four steps after the call and gives it back in three; the pair restores
  the nesting depth and the interrupt enable bit.
\<close>

lemma lock_unlock_restores:
  assumes pc: "lpc s a = LRun" and free: "locks s l = initlock nm" and depth: "0 \<le> noff (cpus s a)" "0 < noff (cpus s a) \<Longrightarrow> \<not> sie (cpus s a)"
  defines "t \<equiv> (lock_move a ^^ 4) (begin_acquire a l s)"
  defines "u \<equiv> (lock_move a ^^ 3) (begin_release a l t)"
  shows "lpc t a = LRun \<and> l \<in> inside t a \<and> \<not> sie (cpus t a) \<and> lpc u a = LRun \<and> l \<notin> inside u a \<and> locks u = locks s \<and>
    noff (cpus u a) = noff (cpus s a) \<and> sie (cpus u a) = sie (cpus s a)"
proof -
  have t: "t = s\<lparr>cpus := (cpus s)(a := push_off (cpus s a)), locks := (locks s)(l := \<lparr>locked = 1, lname = nm, lcpu = Some a\<rparr>),
      lpc := (lpc s)(a := LRun), inside := (inside s)(a := insert l (inside s a))\<rparr>"
    by (simp add: t_def numeral_eq_Suc lock_move_def begin_acquire_def lock_upd_simps holding_def free initlock_def)
  have p: "pop_off (push_off (cpus s a)) = Inr ((push_off (cpus s a))\<lparr>noff := noff (cpus s a),
      sie := noff (cpus s a) = 0 \<and> intena (push_off (cpus s a))\<rparr>)"
    using pop_off_Inr [of "push_off (cpus s a)"] depth(1) by (simp add: push_off_fields)
  have u: "locks u = (locks s)(l := \<lparr>locked = 0, lname = nm, lcpu = None\<rparr>)" "lpc u a = LRun" "l \<notin> inside u a"
      "noff (cpus u a) = noff (cpus s a)" "sie (cpus u a) \<longleftrightarrow> noff (cpus s a) = 0 \<and> intena (push_off (cpus s a))"
    by (simp_all add: u_def t numeral_eq_Suc lock_move_def begin_release_def lock_upd_simps holding_def p)
  then show ?thesis using depth free by (auto simp: t push_off_fields initlock_def)
qed

section \<open>Interleaved harts\<close>

text \<open>
  \<^verbatim>\<open>test_and_set\<close> is a C function: it loads the lock word and stores 1 in two separate memory
  accesses, and the call of the atomic \<^verbatim>\<open>__sync_lock_test_and_set\<close> is commented out. Here every
  access to the lock is a step of its own, so that harts interleave between them. A hart is
  outside, about to load, about to store with the loaded value in \<^verbatim>\<open>old\<close>, about to record
  itself as the owner, or inside the critical section.
\<close>

datatype hart_pc = Outside | AtLoad | AtStore u32 | AtOwner | Inside

record spin_race =
  rlock :: spinlock
  rpc :: "nat \<Rightarrow> hart_pc"

inductive race_step :: "nat \<Rightarrow> spin_race \<Rightarrow> spin_race \<Rightarrow> bool" where
  race_enter: "me < n \<Longrightarrow> rpc s me = Outside \<Longrightarrow> \<not> holding me (rlock s) \<Longrightarrow>
    race_step n s (s\<lparr>rpc := (rpc s)(me := AtLoad)\<rparr>)"
| race_load: "me < n \<Longrightarrow> rpc s me = AtLoad \<Longrightarrow>
    race_step n s (s\<lparr>rpc := (rpc s)(me := AtStore (locked (rlock s)))\<rparr>)"
| race_store: "me < n \<Longrightarrow> rpc s me = AtStore old \<Longrightarrow>
    race_step n s (s\<lparr>rlock := (rlock s)\<lparr>locked := 1\<rparr>,
      rpc := (rpc s)(me := if old \<noteq> 0 then AtLoad else AtOwner)\<rparr>)"
| race_owner: "me < n \<Longrightarrow> rpc s me = AtOwner \<Longrightarrow>
    race_step n s (s\<lparr>rlock := (rlock s)\<lparr>lcpu := Some me\<rparr>, rpc := (rpc s)(me := Inside)\<rparr>)"
| race_release: "me < n \<Longrightarrow> rpc s me = Inside \<Longrightarrow> holding me (rlock s) \<Longrightarrow>
    race_step n s (s\<lparr>rlock := (rlock s)\<lparr>lcpu := None, locked := 0\<rparr>,
      rpc := (rpc s)(me := Outside)\<rparr>)"

definition race_init :: "string \<Rightarrow> spin_race" where
  "race_init name = \<lparr>rlock = initlock name, rpc = (\<lambda>_. Outside)\<rparr>"

text \<open>The step that a given hart takes next.\<close>

definition hart_step :: "nat \<Rightarrow> spin_race \<Rightarrow> spin_race" where
  "hart_step me s =
    (case rpc s me of
       Outside \<Rightarrow> if holding me (rlock s) then s else s\<lparr>rpc := (rpc s)(me := AtLoad)\<rparr>
     | AtLoad \<Rightarrow> s\<lparr>rpc := (rpc s)(me := AtStore (locked (rlock s)))\<rparr>
     | AtStore old \<Rightarrow> s\<lparr>rlock := (rlock s)\<lparr>locked := 1\<rparr>,
         rpc := (rpc s)(me := if old \<noteq> 0 then AtLoad else AtOwner)\<rparr>
     | AtOwner \<Rightarrow> s\<lparr>rlock := (rlock s)\<lparr>lcpu := Some me\<rparr>, rpc := (rpc s)(me := Inside)\<rparr>
     | Inside \<Rightarrow> if holding me (rlock s)
         then s\<lparr>rlock := (rlock s)\<lparr>lcpu := None, locked := 0\<rparr>, rpc := (rpc s)(me := Outside)\<rparr>
         else s)"

lemma hart_step_reach: "me < n \<Longrightarrow> (race_step n)\<^sup>*\<^sup>* s (hart_step me s)"
proof (cases "rpc s me")
  case (AtStore old)
  then show "me < n \<Longrightarrow> ?thesis"
    using race_store [of me n s old] by (simp add: hart_step_def r_into_rtranclp)
qed (auto simp: hart_step_def intro!: race_step.intros r_into_rtranclp
    intro: rtranclp.rtrancl_refl)

lemma hart_steps_reach: "\<forall>me \<in> set hs. me < n \<Longrightarrow> (race_step n)\<^sup>*\<^sup>* s (fold hart_step hs s)"
proof (induction hs arbitrary: s)
  case (Cons h hs)
  then show ?case using rtranclp_trans [OF hart_step_reach [of h n s]] by simp
qed simp

text \<open>With one hart, as the kernel is built by default, the lock word says where the hart is.\<close>

definition race_inv1 :: "spin_race \<Rightarrow> bool" where
  "race_inv1 s \<longleftrightarrow>
    (case rpc s 0 of
       Outside \<Rightarrow> locked (rlock s) = 0
     | AtLoad \<Rightarrow> locked (rlock s) = 0
     | AtStore old \<Rightarrow> old = 0
     | AtOwner \<Rightarrow> locked (rlock s) = 1
     | Inside \<Rightarrow> holding 0 (rlock s))"

lemma race_inv1_step: "race_step 1 s s' \<Longrightarrow> race_inv1 s \<Longrightarrow> race_inv1 s'"
  by (induction rule: race_step.cases) (auto simp: race_inv1_def holding_def)

lemma race_inv1_reachable: "(race_step 1)\<^sup>*\<^sup>* (race_init name) s \<Longrightarrow> race_inv1 s"
proof (induction rule: rtranclp_induct)
  case base
  then show ?case by (simp add: race_inv1_def race_init_def initlock_def)
qed (rule race_inv1_step)

lemma one_hart_excludes:
  "(race_step 1)\<^sup>*\<^sup>* (race_init name) s \<Longrightarrow> rpc s 0 = Inside \<Longrightarrow> holding 0 (rlock s)"
  using race_inv1_reachable [of name s] by (simp add: race_inv1_def)

section \<open>Properties\<close>

text \<open>C17: The locks work on one hart, and on several in every run in which no hart accesses a lock
  word between another hart's load and store of it in \<^verbatim>\<open>test_and_set\<close>. In every state that such a run reaches: no two harts
  are between \<^verbatim>\<open>acquire\<close> and \<^verbatim>\<open>release\<close> of the same lock; the lock word is 0 exactly while no hart owns the lock, so that no
  release is lost; a hart outside of lock operations has as nesting depth the number of its locks, and
  \<^verbatim>\<open>acquire\<close> and \<^verbatim>\<open>release\<close> recognise exactly these; interrupts are off while it is inside; and
  \<^verbatim>\<open>pop_off\<close> never panics.\<close>

theorem spinlock_discipline:
  assumes "(lock_step n calm)\<^sup>*\<^sup>* (boot_system names) s" and "n = 1 \<or> calm"
  shows "(l \<in> inside s a \<and> l \<in> inside s b \<longrightarrow> a = b) \<and>
    (locked (locks s l) \<noteq> 0 \<longleftrightarrow> (\<exists>h. owns s h l)) \<and>
    (lpc s a = LRun \<longrightarrow> noff (cpus s a) = int (card (inside s a)) \<and> (holding a (locks s l) \<longleftrightarrow> l \<in> inside s a)) \<and>
    (inside s a \<noteq> {} \<longrightarrow> (\<exists>m. lpc s a = LPanic m) \<or> \<not> intr_get (cpus s a)) \<and>
    lpc s a \<notin> {LPanic ''pop_off'', LPanic ''pop_off - interruptible''}"
proof -
  have inv: "lock_inv n s" by (rule lock_inv_reachable [OF assms])
  note I = lock_invD [OF inv]
  have "(\<exists>m. lpc s a = LPanic m) \<or> \<not> sie (cpus s a)" if "inside s a \<noteq> {}"
  proof -
    have "0 < card (inside s a)" using that I(6) by (simp add: card_gt_0_iff)
    then have "(\<exists>m. lpc s a = LPanic m) \<or> 0 < noff (cpus s a)" using I(8) [of a] by (cases "lpc s a") auto
    then show ?thesis using I(7) by blast
  qed
  moreover have "lpc s a \<notin> {LPanic ''pop_off'', LPanic ''pop_off - interruptible''}"
    using I(10) [of a "''pop_off''"] I(10) [of a "''pop_off - interruptible''"] by auto
  moreover have "lpc s a = LRun \<Longrightarrow> noff (cpus s a) = int (card (inside s a))" using I(8) [of a] by simp
  moreover have "l \<in> inside s a \<Longrightarrow> l \<in> inside s b \<Longrightarrow> a = b" using I(1) [of a l b] by (simp add: owns_def)
  ultimately show ?thesis
    using I(2) [of l] holding_iff [OF inv, of a l] by (simp add: intr_get_def)
qed

text \<open>Hart 1 of two takes lock 3.\<close>

lemma lock_moves_reach:
  assumes "me < n" "\<And>j. j < k \<Longrightarrow> \<not> intrudes me ((lock_move me ^^ j) s)"
  shows "(lock_step n calm)\<^sup>*\<^sup>* s ((lock_move me ^^ k) s)"
  using assms
proof (induction k)
  case (Suc k)
  then have "lock_step n calm ((lock_move me ^^ k) s) (lock_move me ((lock_move me ^^ k) s))"
    by (intro step_move) auto
  then show ?case using Suc by (simp add: rtranclp.rtrancl_into_rtrancl)
qed simp

theorem spinlock_discipline_witness:
  "\<exists>s. (lock_step 2 True)\<^sup>*\<^sup>* (boot_system (\<lambda>_. ''kmem'')) s \<and> inside s 1 = {3} \<and> noff (cpus s 1) = 1 \<and>
    \<not> intr_get (cpus s 1) \<and> holding 1 (locks s 3) \<and> \<not> holding 0 (locks s 3)"
proof -
  define s0 where "s0 = begin_acquire 1 3 (boot_system (\<lambda>_. ''kmem''))"
  define s where "s = (lock_move 1 ^^ 4) s0"
  have b: "lock_step 2 True (boot_system (\<lambda>_. ''kmem'')) s0"
    unfolding s0_def by (rule step_acquire) (simp_all add: boot_system_def)
  have lpc0: "lpc ((lock_move 1 ^^ j) s0) h = LRun" if "h \<noteq> 1" for h j
    by (induction j) (use that in \<open>auto simp: s0_def begin_acquire_def boot_system_def lock_move_def lock_upd_simps
      split: lock_pc.splits sum.splits fault.splits\<close>)
  have r: "(lock_step 2 True)\<^sup>*\<^sup>* s0 s"
    unfolding s_def by (rule lock_moves_reach) (use lpc0 in \<open>auto simp: intrudes_def\<close>)
  have s: "inside s 1 = {3}" "lpc s 1 = LRun" "inside s 0 = {}"
    by (simp_all add: s_def s0_def numeral_eq_Suc lock_move_def begin_acquire_def boot_system_def lock_upd_simps initlock_def holding_def)
  have reach: "(lock_step 2 True)\<^sup>*\<^sup>* (boot_system (\<lambda>_. ''kmem'')) s" using b r by (rule converse_rtranclp_into_rtranclp)
  have "lpc s 0 = LRun" unfolding s_def by (rule lpc0) simp
  then show ?thesis
    using reach s spinlock_discipline [OF reach, of 3 1 1] spinlock_discipline [OF reach, of 3 0 1] by auto
qed

text \<open>C36: Because \<^verbatim>\<open>test_and_set\<close> is not atomic, the lock does not exclude other harts: with two
  harts there is an interleaving of its memory accesses after which both are inside the
  critical section, and the first of them panics when it releases the lock.\<close>

theorem test_and_set_not_atomic:
  "\<exists>s. (race_step 2)\<^sup>*\<^sup>* (race_init name) s \<and> rpc s 0 = Inside \<and> rpc s 1 = Inside \<and>
    release 0 c (rlock s) = Inl (Panic ''release'')"
proof -
  let ?s = "fold hart_step [0, 1, 0, 1, 0, 1, 0, 1] (race_init name)"
  have "(race_step 2)\<^sup>*\<^sup>* (race_init name) ?s" by (rule hart_steps_reach) simp
  moreover have "rpc ?s 0 = Inside" "rpc ?s 1 = Inside" "lcpu (rlock ?s) = Some 1"
    by (simp_all add: race_init_def initlock_def holding_def hart_step_def)
  moreover have "release 0 c lk = Inl (Panic ''release'')" if "lcpu lk = Some 1" for lk
    using that by (simp add: release_def holding_def)
  ultimately show ?thesis by blast
qed

end
