(* ===== verification/Sched.thy ===== *)
theory Sched
  imports Proc Spinlock
begin

text \<open>
  The scheduler of \<^verbatim>\<open>kernel/proc.c\<close>: every hart runs \<^verbatim>\<open>scheduler\<close>, which switches to processes that come back through
  \<^verbatim>\<open>sched\<close>. A step of the machine is a step of one hart, and the harts are interleaved in any order, also within
  \<^verbatim>\<open>acquire\<close> and \<^verbatim>\<open>release\<close>, which are those of \<open>Spinlock\<close>. Between a test of an entry of the process table and the
  assignment that depends on it other harts take steps, so that only the entry's lock keeps them away.
\<close>

section \<open>The state of the machine\<close>

text \<open>Lock \<open>p < NPROC\<close> is \<^verbatim>\<open>proc[p].lock\<close>; the other locks of the kernel follow, \<^verbatim>\<open>wait_lock\<close> first.\<close>

definition olock :: "nat \<Rightarrow> nat" where
  "olock k = NPROC + k"

definition wait_lock :: nat where
  "wait_lock = olock 0"

text \<open>The caller of \<^verbatim>\<open>sched\<close>: \<^verbatim>\<open>yield\<close>, \<^verbatim>\<open>sleep\<close> with the lock it will take again, or \<^verbatim>\<open>exit\<close>.\<close>

datatype leave = YieldL | SleepL nat | ExitL

text \<open>
  The critical sections of one entry of the table: the bodies of the loops of \<^verbatim>\<open>wakeup\<close>, \<^verbatim>\<open>kill\<close>, \<^verbatim>\<open>allocproc\<close> (with
  the number that \<^verbatim>\<open>allocpid\<close> has returned) and \<^verbatim>\<open>wait\<close>, and the last assignment of \<^verbatim>\<open>fork\<close>.
\<close>

datatype sect = Wakeup chan | Kill u32 | Alloc u32 | Ready | Reap

text \<open>
  Where a hart is. In \<^verbatim>\<open>scheduler\<close>: before \<^verbatim>\<open>intr_on\<close>, before \<^verbatim>\<open>acquire\<close>, before the test, the assignment to
  \<^verbatim>\<open>p->state\<close>, that to \<^verbatim>\<open>c->proc\<close> with \<^verbatim>\<open>swtch\<close>, behind \<^verbatim>\<open>swtch\<close>, and before \<^verbatim>\<open>release\<close>. In the code of a process: behind
  \<^verbatim>\<open>swtch\<close> (\<open>PBack\<close>), in \<^verbatim>\<open>yield\<close>, \<^verbatim>\<open>sleep\<close>, \<^verbatim>\<open>exit\<close> or \<^verbatim>\<open>sched\<close>. In other code of the kernel (\<open>KRun\<close>), which has the locks of
  the list still to take when it returns to a \<^verbatim>\<open>sleep\<close>, or in a critical section on an entry.
\<close>

datatype ctl =
    SOuter | SLoop | STest | SChosen | SMarked | SBack | SDone
  | PBack | PYield "nat list" | PSleep chan nat "nat list" | PSlept chan nat "nat list"
  | PExit u32 | PZomb | PSched leave "nat list"
  | KRun "nat list" | Sect sect nat "nat list" | SAct sect nat "nat list" | SNew nat "nat list" | SEnd nat "nat list"
  | KPanic string

text \<open>
  \<open>cproc\<close> is \<^verbatim>\<open>cpus[h].proc\<close> and \<open>cpos\<close> the variable \<^verbatim>\<open>p\<close> of the scheduler's loop. \<open>saved\<close> stands for \<^verbatim>\<open>p->context\<close>:
  \<open>None\<close> is the context with the address of \<^verbatim>\<open>forkret\<close> that \<^verbatim>\<open>allocproc\<close> sets up, the others are contexts in
  \<^verbatim>\<open>sched\<close>, with its local variable \<^verbatim>\<open>intena\<close>. \<open>newp\<close> is the variable \<^verbatim>\<open>np\<close> of a process in \<^verbatim>\<open>fork\<close>.
\<close>

record machine =
  lsys :: lock_system
  ptab :: ptable
  cproc :: "nat \<Rightarrow> nat option"
  cpos :: "nat \<Rightarrow> nat"
  ctl :: "nat \<Rightarrow> ctl"
  saved :: "nat \<Rightarrow> (leave \<times> nat list \<times> bool) option"
  newp :: "nat \<Rightarrow> nat option"

definition to :: "nat \<Rightarrow> ctl \<Rightarrow> machine \<Rightarrow> machine" where
  "to h c s = s\<lparr>ctl := (ctl s)(h := c)\<rparr>"

definition take_lock :: "nat \<Rightarrow> nat \<Rightarrow> machine \<Rightarrow> machine" where
  "take_lock h l s = s\<lparr>lsys := begin_acquire h l (lsys s)\<rparr>"

definition drop_lock :: "nat \<Rightarrow> nat \<Rightarrow> machine \<Rightarrow> machine" where
  "drop_lock h l s = s\<lparr>lsys := begin_release h l (lsys s)\<rparr>"

definition set_cpu :: "nat \<Rightarrow> (cpu \<Rightarrow> cpu) \<Rightarrow> machine \<Rightarrow> machine" where
  "set_cpu h f s = s\<lparr>lsys := (lsys s)\<lparr>cpus := (cpus (lsys s))(h := f (cpus (lsys s) h))\<rparr>\<rparr>"

definition upd_entry :: "nat \<Rightarrow> (proc \<Rightarrow> proc) \<Rightarrow> machine \<Rightarrow> machine" where
  "upd_entry q f s = s\<lparr>ptab := upd_proc q f (ptab s)\<rparr>"

abbreviation st :: "machine \<Rightarrow> nat \<Rightarrow> procstate" where
  "st s p \<equiv> pstate (procs (ptab s) p)"

section \<open>The code of the scheduler\<close>

definition scheduler :: "nat \<Rightarrow> machine \<Rightarrow> machine" where
  "scheduler h s =
    (let p = cpos s h
     in case ctl s h of
          SOuter \<Rightarrow> to h SLoop (set_cpu h intr_on s)
        | SLoop \<Rightarrow> to h STest (take_lock h p s)
        | STest \<Rightarrow> to h (if st s p = RUNNABLE then SChosen else SDone) s
        | SChosen \<Rightarrow> to h SMarked (upd_entry p (\<lambda>q. q\<lparr>pstate := RUNNING\<rparr>) s)
        | SMarked \<Rightarrow> to h PBack (s\<lparr>cproc := (cproc s)(h := Some p)\<rparr>)
        | SBack \<Rightarrow> to h SDone (s\<lparr>cproc := (cproc s)(h := None)\<rparr>)
        | SDone \<Rightarrow>
            to h (if Suc p = NPROC then SOuter else SLoop) (drop_lock h p (s\<lparr>cpos := (cpos s)(h := Suc p mod NPROC)\<rparr>))
        | _ \<Rightarrow> s)"

definition sched_checks :: "nat \<Rightarrow> cpu \<Rightarrow> spinlock \<Rightarrow> procstate \<Rightarrow> unit res" where
  "sched_checks me c lk s =
    (if \<not> holding me lk then Inl (Panic ''sched p->lock'')
     else if noff c \<noteq> 1 then Inl (Panic ''sched locks'')
     else if s = RUNNING then Inl (Panic ''sched running'')
     else if intr_get c then Inl (Panic ''sched interruptible'')
     else Inr ())"

text \<open>\<^verbatim>\<open>sched\<close> up to its \<^verbatim>\<open>swtch\<close>. Without a current process \<^verbatim>\<open>p->lock\<close> is an access through a null pointer.\<close>

definition sched :: "nat \<Rightarrow> leave \<Rightarrow> nat list \<Rightarrow> machine \<Rightarrow> machine res" where
  "sched h lv ks s =
    (case cproc s h of
       None \<Rightarrow> Inl (Panic ''kerneltrap'')
     | Some p \<Rightarrow>
         let c = cpus (lsys s) h
         in ebind (sched_checks h c (locks (lsys s) p) (st s p)) (\<lambda>_.
            Inr (to h SBack (s\<lparr>saved := (saved s)(p := Some (lv, ks, intena c))\<rparr>))))"

definition or_panic :: "nat \<Rightarrow> machine \<Rightarrow> machine res \<Rightarrow> machine" where
  "or_panic h s r = (case r of Inr s' \<Rightarrow> s' | Inl (Panic m) \<Rightarrow> to h (KPanic m) s | Inl _ \<Rightarrow> s)"

text \<open>
  Where \<^verbatim>\<open>swtch\<close> of the scheduler leads to: the start of \<^verbatim>\<open>forkret\<close>, or the rest of \<^verbatim>\<open>sched\<close> and of its
  caller. \<^verbatim>\<open>sleep\<close> has its lock still to take.
\<close>

definition resume :: "nat \<Rightarrow> nat \<Rightarrow> machine \<Rightarrow> machine" where
  "resume h p s =
    (case saved s p of
       None \<Rightarrow> to h (KRun []) (drop_lock h p s)
     | Some (lv, ks, ie) \<Rightarrow>
         let s = set_cpu h (\<lambda>c. c\<lparr>intena := ie\<rparr>) s
         in case lv of
              YieldL \<Rightarrow> to h (KRun ks) (drop_lock h p s)
            | SleepL k \<Rightarrow> to h (KRun (k # ks)) (drop_lock h p (s\<lparr>ptab := sleep_done p (ptab s)\<rparr>))
            | ExitL \<Rightarrow> to h (KPanic ''zombie exit'') s)"

definition yield :: "nat \<Rightarrow> nat \<Rightarrow> machine \<Rightarrow> machine" where
  "yield h p s =
    (case ctl s h of
       KRun ks \<Rightarrow> to h (PYield ks) (take_lock h p s)
     | PYield ks \<Rightarrow> to h (PSched YieldL ks) (upd_entry p (\<lambda>q. q\<lparr>pstate := RUNNABLE\<rparr>) s)
     | _ \<Rightarrow> s)"

definition sleep :: "nat \<Rightarrow> nat \<Rightarrow> chan \<Rightarrow> nat \<Rightarrow> machine \<Rightarrow> machine" where
  "sleep h p ch k s =
    (case ctl s h of
       KRun ks \<Rightarrow> to h (PSleep ch k ks) (take_lock h p s)
     | PSleep _ _ ks \<Rightarrow> to h (PSlept ch k ks) (drop_lock h (olock k) s)
     | PSlept _ _ ks \<Rightarrow> to h (PSched (SleepL k) ks) (s\<lparr>ptab := sleep_on p ch (ptab s)\<rparr>)
     | _ \<Rightarrow> s)"

definition exit_switch :: "nat \<Rightarrow> nat \<Rightarrow> u32 \<Rightarrow> machine \<Rightarrow> machine" where
  "exit_switch h p status s =
    (case ctl s h of
       KRun ks \<Rightarrow> to h (PExit status) (take_lock h p s)
     | PExit _ \<Rightarrow> to h PZomb (upd_entry p (\<lambda>q. q\<lparr>xstate := status, pstate := ZOMBIE\<rparr>) s)
     | PZomb \<Rightarrow> to h (PSched ExitL []) (drop_lock h wait_lock s)
     | _ \<Rightarrow> s)"

definition process_step :: "nat \<Rightarrow> nat \<Rightarrow> machine \<Rightarrow> machine" where
  "process_step h p s =
    (case ctl s h of
       PBack \<Rightarrow> resume h p s
     | PYield _ \<Rightarrow> yield h p s
     | PSleep ch k _ \<Rightarrow> sleep h p ch k s
     | PSlept ch k _ \<Rightarrow> sleep h p ch k s
     | PExit status \<Rightarrow> exit_switch h p status s
     | PZomb \<Rightarrow> exit_switch h p 0 s
     | PSched lv ks \<Rightarrow> or_panic h s (sched h lv ks s)
     | _ \<Rightarrow> s)"

section \<open>Critical sections on an entry\<close>

text \<open>The assignments of \<^verbatim>\<open>freeproc\<close>.\<close>

definition freed :: "proc \<Rightarrow> proc" where
  "freed p = p\<lparr>trapframe := 0, pagetable := 0, psz := 0, pid := 0, parent := None,
    pname := [], pchan := ChNone, killed := False, xstate := 0, pstate := UNUSED\<rparr>"

fun passes :: "sect \<Rightarrow> proc \<Rightarrow> bool" where
  "passes (Wakeup ch) q \<longleftrightarrow> pstate q = SLEEPING \<and> pchan q = ch"
| "passes (Kill n) q \<longleftrightarrow> pid q = n"
| "passes (Alloc n) q \<longleftrightarrow> pstate q = UNUSED"
| "passes Ready q \<longleftrightarrow> True"
| "passes Reap q \<longleftrightarrow> pstate q = ZOMBIE"

fun sect_act :: "sect \<Rightarrow> proc \<Rightarrow> proc" where
  "sect_act (Wakeup ch) q = q\<lparr>pstate := RUNNABLE\<rparr>"
| "sect_act (Kill n) q =
    (let q = q\<lparr>killed := True\<rparr> in if pstate q = SLEEPING then q\<lparr>pstate := RUNNABLE\<rparr> else q)"
| "sect_act (Alloc n) q = q\<lparr>pid := n, pstate := USED\<rparr>"
| "sect_act Ready q = q\<lparr>pstate := RUNNABLE\<rparr>"
| "sect_act Reap q = freed q"

text \<open>
  One step of a section. \<open>ok\<close> says whether the calls succeed that the section makes: \<^verbatim>\<open>copyout\<close> in \<^verbatim>\<open>wait\<close>; \<^verbatim>\<open>kalloc\<close>,
  \<^verbatim>\<open>proc_pagetable\<close> and \<^verbatim>\<open>uvmcopy\<close> in \<^verbatim>\<open>allocproc\<close> and \<^verbatim>\<open>fork\<close>, which otherwise free the new entry.
\<close>

definition sect_step :: "bool \<Rightarrow> nat \<Rightarrow> machine \<Rightarrow> machine" where
  "sect_step ok h s =
    (case ctl s h of
       Sect op q ks \<Rightarrow> to h (if passes op (procs (ptab s) q) then SAct op q ks else SEnd q ks) s
     | SAct (Alloc n) q ks \<Rightarrow> to h (SNew q ks) (upd_entry q (sect_act (Alloc n)) s)
     | SAct Ready q ks \<Rightarrow>
         to h (SEnd q ks) (upd_entry q (sect_act Ready) (s\<lparr>newp := (newp s)(the (cproc s h) := None)\<rparr>))
     | SAct Reap q ks \<Rightarrow> to h (SEnd q ks) (if ok then upd_entry q (sect_act Reap) s else s)
     | SAct op q ks \<Rightarrow> to h (SEnd q ks) (upd_entry q (sect_act op) s)
     | SNew q ks \<Rightarrow>
         to h (SEnd q ks)
           (if ok then s\<lparr>saved := (saved s)(q := None), newp := (newp s)(the (cproc s h) := Some q)\<rparr>
            else upd_entry q freed s)
     | SEnd q ks \<Rightarrow> to h (KRun ks) (drop_lock h q s)
     | _ \<Rightarrow> s)"

text \<open>
  Who enters a section: \<^verbatim>\<open>wakeup\<close> passes over the current process, and interrupts call it also on the scheduler's
  stack; \<^verbatim>\<open>fork\<close> makes the child runnable that it has allocated before.
\<close>

fun may :: "sect \<Rightarrow> nat \<Rightarrow> nat option \<Rightarrow> (nat \<Rightarrow> nat option) \<Rightarrow> bool" where
  "may (Wakeup ch) q me np \<longleftrightarrow> me \<noteq> Some q"
| "may (Kill n) q me np \<longleftrightarrow> me \<noteq> None"
| "may (Alloc n) q me np \<longleftrightarrow> (\<exists>p. me = Some p \<and> np p = None)"
| "may Ready q me np \<longleftrightarrow> (\<exists>p. me = Some p \<and> np p = Some q)"
| "may Reap q me np \<longleftrightarrow> me \<noteq> None"

section \<open>The machine\<close>

text \<open>A change of the table that touches none of the fields that \<^verbatim>\<open>p->lock\<close> protects.\<close>

definition same_sched :: "ptable \<Rightarrow> ptable \<Rightarrow> bool" where
  "same_sched t t' \<longleftrightarrow> (\<forall>q. pstate (procs t' q) = pstate (procs t q) \<and> pchan (procs t' q) = pchan (procs t q) \<and>
    killed (procs t' q) = killed (procs t q) \<and> xstate (procs t' q) = xstate (procs t q) \<and> pid (procs t' q) = pid (procs t q))"

definition scheduling :: "ctl \<Rightarrow> bool" where
  "scheduling c \<longleftrightarrow> c \<in> {SOuter, SLoop, SChosen, SMarked, SBack, SDone}"

fun leaving :: "ctl \<Rightarrow> bool" where
  "leaving PBack = True" | "leaving (PYield ks) = True" | "leaving (PSleep ch k ks) = True"
| "leaving (PSlept ch k ks) = True" | "leaving (PExit status) = True" | "leaving PZomb = True"
| "leaving (PSched lv ks) = True" | "leaving _ = False"

fun in_sect :: "ctl \<Rightarrow> bool" where
  "in_sect (Sect op q ks) = True" | "in_sect (SAct op q ks) = True" | "in_sect (SNew q ks) = True"
| "in_sect (SEnd q ks) = True" | "in_sect _ = False"

fun may_lock :: "ctl \<Rightarrow> bool" where
  "may_lock (KRun ks) = True" | "may_lock (SAct op q ks) = True" | "may_lock (SNew q ks) = True"
| "may_lock (SEnd q ks) = True" | "may_lock _ = False"

datatype label = Visit nat | Act nat | Env

definition running :: "nat \<Rightarrow> machine \<Rightarrow> nat \<Rightarrow> bool" where
  "running n s h \<longleftrightarrow> h < n \<and> lpc (lsys s) h = LRun"

abbreviation held :: "machine \<Rightarrow> nat \<Rightarrow> nat set" where
  "held s h \<equiv> inside (lsys s) h"

text \<open>
  The steps of one of \<open>n\<close> harts: within \<^verbatim>\<open>acquire\<close> or \<^verbatim>\<open>release\<close>; of the scheduler; of an interrupt on the scheduler's stack;
  of a process. The kernel calls \<^verbatim>\<open>yield\<close> without a lock, \<^verbatim>\<open>sleep\<close> with the one lock that it passes, and
  reaches the end of \<^verbatim>\<open>exit\<close> with \<^verbatim>\<open>wait_lock\<close>; it enters the sections without the lock of a process. In a calm run no hart
  accesses a lock word between another hart's load and store in \<^verbatim>\<open>test_and_set\<close>.
\<close>

inductive mstep :: "nat \<Rightarrow> bool \<Rightarrow> machine \<Rightarrow> label \<Rightarrow> machine \<Rightarrow> bool" for n :: nat and calm :: bool where
  step_lock: "h < n \<Longrightarrow> lpc (lsys s) h \<noteq> LRun \<Longrightarrow> (calm \<Longrightarrow> \<not> intrudes h (lsys s)) \<Longrightarrow>
    mstep n calm s (Act h) (s\<lparr>lsys := lock_move h (lsys s)\<rparr>)"
| step_scheduler: "running n s h \<Longrightarrow> scheduling (ctl s h) \<Longrightarrow> mstep n calm s (Act h) (scheduler h s)"
| step_visit: "running n s h \<Longrightarrow> ctl s h = STest \<Longrightarrow> mstep n calm s (Visit h) (scheduler h s)"
| step_interrupt: "running n s h \<Longrightarrow> ctl s h = SLoop \<Longrightarrow> intr_get (cpus (lsys s) h) \<Longrightarrow>
    mstep n calm s (Act h) (to h (KRun []) (set_cpu h intr_off s))"
| step_sret: "running n s h \<Longrightarrow> ctl s h = KRun [] \<Longrightarrow> cproc s h = None \<Longrightarrow> held s h = {} \<Longrightarrow>
    mstep n calm s (Act h) (to h SLoop (set_cpu h intr_on s))"
| step_sie: "running n s h \<Longrightarrow> ctl s h = KRun ks \<Longrightarrow> held s h = {} \<Longrightarrow>
    mstep n calm s (Act h) (set_cpu h (\<lambda>c. c\<lparr>sie := b\<rparr>) s)"
| step_take: "running n s h \<Longrightarrow> may_lock (ctl s h) \<Longrightarrow> olock k \<notin> held s h \<Longrightarrow>
    mstep n calm s (Act h) (take_lock h (olock k) s)"
| step_drop: "running n s h \<Longrightarrow> may_lock (ctl s h) \<Longrightarrow> olock k \<in> held s h \<Longrightarrow>
    mstep n calm s (Act h) (drop_lock h (olock k) s)"
| step_retake: "running n s h \<Longrightarrow> ctl s h = KRun (k # ks) \<Longrightarrow> held s h = {} \<Longrightarrow>
    mstep n calm s (Act h) (to h (KRun ks) (take_lock h (olock k) s))"
| step_yield: "running n s h \<Longrightarrow> ctl s h = KRun ks \<Longrightarrow> cproc s h = Some p \<Longrightarrow> held s h = {} \<Longrightarrow>
    mstep n calm s (Act h) (yield h p s)"
| step_sleep: "running n s h \<Longrightarrow> ctl s h = KRun ks \<Longrightarrow> cproc s h = Some p \<Longrightarrow> held s h = {olock k} \<Longrightarrow>
    mstep n calm s (Act h) (sleep h p ch k s)"
| step_exit: "running n s h \<Longrightarrow> ctl s h = KRun [] \<Longrightarrow> cproc s h = Some p \<Longrightarrow> held s h = {wait_lock} \<Longrightarrow> newp s p = None \<Longrightarrow>
    mstep n calm s (Act h) (exit_switch h p status s)"
| step_process: "running n s h \<Longrightarrow> leaving (ctl s h) \<Longrightarrow> cproc s h = Some p \<Longrightarrow>
    mstep n calm s (Act h) (process_step h p s)"
| step_enter: "running n s h \<Longrightarrow> ctl s h = KRun ks \<Longrightarrow> q < NPROC \<Longrightarrow> may op q (cproc s h) (newp s) \<Longrightarrow>
    mstep n calm s (Act h) (to h (Sect op q ks) (take_lock h q s))"
| step_sect: "running n s h \<Longrightarrow> in_sect (ctl s h) \<Longrightarrow> mstep n calm s (Act h) (sect_step ok h s)"
| step_env: "same_sched (ptab s) t \<Longrightarrow> mstep n calm s Env (s\<lparr>ptab := t\<rparr>)"

inductive mrun :: "nat \<Rightarrow> bool \<Rightarrow> machine \<Rightarrow> label list \<Rightarrow> machine \<Rightarrow> bool" for n :: nat and calm :: bool where
  run_refl: "mrun n calm s [] s"
| run_step: "mstep n calm s l s1 \<Longrightarrow> mrun n calm s1 ls s2 \<Longrightarrow> mrun n calm s (l # ls) s2"

inductive_cases mrun_NilE: "mrun n calm s [] s'"
inductive_cases mrun_ConsE: "mrun n calm s (l # ls) s'"

text \<open>The machine when the harts call \<^verbatim>\<open>scheduler\<close>, with the table that \<^verbatim>\<open>userinit\<close> leaves.\<close>

definition boot_machine :: "(nat \<Rightarrow> string) \<Rightarrow> ptable \<Rightarrow> machine" where
  "boot_machine names t = \<lparr>lsys = boot_system names, ptab = t, cproc = (\<lambda>_. None), cpos = (\<lambda>_. 0),
    ctl = (\<lambda>_. SOuter), saved = (\<lambda>_. None), newp = (\<lambda>_. None)\<rparr>"

end
