(* ===== verification/Sched_Inv.thy ===== *)
theory Sched_Inv
  imports Sched
begin

text \<open>
  The invariant of the machine of \<open>Sched\<close>: which locks a hart has at each place of its code, what it knows of the entry that
  a lock protects, and which process it has claimed. Every step keeps it, on one hart and in every calm run.
\<close>

section \<open>The locks as their callers see them\<close>

text \<open>The locks that a hart holds or is about to get.\<close>

definition acquiring :: "lock_pc \<Rightarrow> nat set" where
  "acquiring pc = (case pc of LTest l \<Rightarrow> {l} | LLoad l \<Rightarrow> {l} | LStore l _ \<Rightarrow> {l} | LOwn l \<Rightarrow> {l} | _ \<Rightarrow> {})"

definition pend :: "lock_system \<Rightarrow> nat \<Rightarrow> nat set" where
  "pend ls h = inside ls h \<union> acquiring (lpc ls h)"

text \<open>No hart has panicked in \<^verbatim>\<open>acquire\<close> or \<^verbatim>\<open>release\<close>, or is about to.\<close>

definition quiet :: "lock_system \<Rightarrow> bool" where
  "quiet ls \<longleftrightarrow> (\<forall>h. (\<forall>m. lpc ls h \<noteq> LPanic m) \<and> (\<forall>l. lpc ls h = LTest l \<longrightarrow> l \<notin> inside ls h))"

definition lock_ok :: "nat \<Rightarrow> lock_system \<Rightarrow> bool" where
  "lock_ok n ls \<longleftrightarrow> lock_inv n ls \<and> quiet ls"

lemma pend_run: "lpc ls h = LRun \<Longrightarrow> pend ls h = inside ls h"
  by (simp add: pend_def acquiring_def)

lemma lock_ok_take:
  assumes ok: "lock_ok n ls" and h: "h < n" "lpc ls h = LRun" and l: "l \<notin> inside ls h"
  shows "lock_ok n (begin_acquire h l ls)" "inside (begin_acquire h l ls) = inside ls"
    "pend (begin_acquire h l ls) = (pend ls)(h := insert l (inside ls h))"
proof -
  show "lock_ok n (begin_acquire h l ls)"
    using ok lock_inv_begin_acquire [OF _ h, of l] l by (auto simp: lock_ok_def quiet_def begin_acquire_def lock_upd_simps)
qed (auto simp: begin_acquire_def lock_upd_simps pend_def acquiring_def fun_eq_iff)

lemma lock_ok_drop:
  assumes ok: "lock_ok n ls" and h: "h < n" "lpc ls h = LRun" and l: "l \<in> inside ls h"
  shows "lock_ok n (begin_release h l ls)" "inside (begin_release h l ls) = (inside ls)(h := inside ls h - {l})"
    "pend (begin_release h l ls) = (pend ls)(h := inside ls h - {l})"
proof -
  have "holding h (locks ls l)" using holding_iff [of n ls h l] ok l by (simp add: lock_ok_def)
  then have b: "begin_release h l ls = go h (LUnown l) (ls\<lparr>inside := (inside ls)(h := inside ls h - {l})\<rparr>)"
    by (simp add: begin_release_def)
  show "lock_ok n (begin_release h l ls)"
    using ok lock_inv_begin_release [OF _ h, of l] by (auto simp: lock_ok_def quiet_def b lock_upd_simps)
qed (use holding_iff [of n ls h l] ok l in \<open>auto simp: lock_ok_def begin_release_def lock_upd_simps pend_def acquiring_def fun_eq_iff\<close>)

lemma lock_move_other: "h' \<noteq> h \<Longrightarrow> lpc (lock_move h ls) h' = lpc ls h' \<and> inside (lock_move h ls) h' = inside ls h'"
  by (simp add: lock_move_def lock_upd_simps split: lock_pc.split sum.split fault.split)

lemma pop_off_fine:
  assumes "lock_inv n ls" "lpc ls h = LPop"
  obtains c where "pop_off (cpus ls h) = Inr c"
  using pop_off_Inr [of "cpus ls h"] lock_invD(7,8) [OF assms(1), of h] assms(2) by auto

lemma lock_ok_move:
  assumes ok: "lock_ok n ls" and h: "h < n" and calm: "\<not> intrudes h ls"
  shows "lock_ok n (lock_move h ls)" "pend (lock_move h ls) = pend ls" "inside ls h' \<subseteq> inside (lock_move h ls) h'"
proof -
  have inv: "lock_inv n ls" and q: "quiet ls" using ok by (simp_all add: lock_ok_def)
  note I = holding_iff [OF inv, of h] lock_invD(11) [OF inv, of _ h]
  have pan: "lpc ls h \<noteq> LPanic m" and tst: "lpc ls h = LTest l \<Longrightarrow> l \<notin> inside ls h" for l m
    using q by (auto simp: quiet_def)
  have fin: "lpc ls h = LPop \<Longrightarrow> \<exists>c. pop_off (cpus ls h) = Inr c" using pop_off_fine [OF inv] by metis
  have tests: "lpc ls h = LTest l \<Longrightarrow> \<not> holding h (locks ls l)" for l using I(1) [of l] tst [of l] by simp
  have me: "lpc (lock_move h ls) h \<noteq> LPanic m \<and> lpc (lock_move h ls) h \<noteq> LTest l \<and>
      pend (lock_move h ls) h = pend ls h \<and> inside ls h \<subseteq> inside (lock_move h ls) h" if "lpc ls h \<noteq> LRun" for m l
    using pan tests fin that
    by (cases "lpc ls h") (auto simp: lock_move_def lock_upd_simps pend_def acquiring_def)
  have stay: "lpc ls h = LRun \<Longrightarrow> lock_move h ls = ls" by (simp add: lock_move_def)
  have "quiet (lock_move h ls)"
    unfolding quiet_def
  proof
    fix h'
    show "(\<forall>m. lpc (lock_move h ls) h' \<noteq> LPanic m) \<and> (\<forall>l. lpc (lock_move h ls) h' = LTest l \<longrightarrow> l \<notin> inside (lock_move h ls) h')"
      using me q stay lock_move_other [of h' h ls] by (cases "h' = h"; cases "lpc ls h = LRun") (auto simp: quiet_def)
  qed
  then show "lock_ok n (lock_move h ls)" using lock_inv_move [OF inv h calm] by (simp add: lock_ok_def)
  show "pend (lock_move h ls) = pend ls"
  proof
    fix h'
    show "pend (lock_move h ls) h' = pend ls h'"
      using me stay lock_move_other [of h' h ls] by (cases "h' = h"; cases "lpc ls h = LRun") (auto simp: pend_def)
  qed
  show "inside ls h' \<subseteq> inside (lock_move h ls) h'"
    using me stay lock_move_other [of h' h ls] by (cases "h' = h"; cases "lpc ls h = LRun") auto
qed

lemma lock_ok_cpu:
  assumes ok: "lock_ok n ls" and h: "h < n" "lpc ls h = LRun"
    and c: "noff c = noff (cpus ls h)" "0 < noff c \<longrightarrow> \<not> sie c"
  shows "lock_ok n (ls\<lparr>cpus := (cpus ls)(h := c)\<rparr>)"
proof -
  have inv: "lock_inv n ls" using ok by (simp add: lock_ok_def)
  have "lock_inv n (ls\<lparr>cpus := (cpus ls)(h := c)\<rparr>)"
    by (rule lock_inv_cpu [OF inv h(1), where pc = LRun and c = c])
      (use h c lock_invD(8) [OF inv, of h] in \<open>auto simp: fun_upd_idem\<close>)
  then show ?thesis using ok by (simp add: lock_ok_def quiet_def)
qed

lemma lock_ok_excl: "lock_ok n ls \<Longrightarrow> l \<in> inside ls h \<Longrightarrow> l \<in> inside ls h' \<Longrightarrow> h = h'"
  using lock_invD(1) [of n ls h l h'] by (simp add: lock_ok_def owns_def)

section \<open>Invariant\<close>

text \<open>
  The locks of a hart at each place, where \<open>p\<close> is the position of its scheduler; the entry whose lock it has certainly got;
  and its current process.
\<close>

fun locks_fit :: "ctl \<Rightarrow> nat \<Rightarrow> nat set \<Rightarrow> bool" where
  "locks_fit SOuter p L \<longleftrightarrow> L = {}"
| "locks_fit SLoop p L \<longleftrightarrow> L = {}"
| "locks_fit (PSleep ch k ks) p L \<longleftrightarrow> L = {p, olock k}"
| "locks_fit (PExit status) p L \<longleftrightarrow> L = {p, wait_lock}"
| "locks_fit PZomb p L \<longleftrightarrow> L = {p, wait_lock}"
| "locks_fit (KRun ks) p L \<longleftrightarrow> L \<inter> {..<NPROC} = {}"
| "locks_fit (Sect op q ks) p L \<longleftrightarrow> L \<inter> {..<NPROC} = {q}"
| "locks_fit (SAct op q ks) p L \<longleftrightarrow> L \<inter> {..<NPROC} = {q}"
| "locks_fit (SNew q ks) p L \<longleftrightarrow> L \<inter> {..<NPROC} = {q}"
| "locks_fit (SEnd q ks) p L \<longleftrightarrow> L \<inter> {..<NPROC} = {q}"
| "locks_fit (KPanic m) p L \<longleftrightarrow> False"
| "locks_fit c p L \<longleftrightarrow> L = {p}"

fun got :: "ctl \<Rightarrow> nat \<Rightarrow> nat option" where
  "got SChosen p = Some p" | "got SMarked p = Some p" | "got SBack p = Some p" | "got SDone p = Some p"
| "got PBack p = Some p" | "got (PSlept ch k ks) p = Some p" | "got PZomb p = Some p" | "got (PSched lv ks) p = Some p"
| "got (SAct op q ks) p = Some q" | "got (SNew q ks) p = Some q" | "got (SEnd q ks) p = Some q" | "got _ p = None"

fun by_sect :: "sect \<Rightarrow> nat \<Rightarrow> nat option \<Rightarrow> bool" where
  "by_sect (Wakeup ch) p me \<longleftrightarrow> me \<in> {None, Some p}"
| "by_sect _ p me \<longleftrightarrow> me = Some p"

fun cproc_fit :: "ctl \<Rightarrow> nat \<Rightarrow> nat option \<Rightarrow> bool" where
  "cproc_fit SOuter p me \<longleftrightarrow> me = None" | "cproc_fit SLoop p me \<longleftrightarrow> me = None" | "cproc_fit STest p me \<longleftrightarrow> me = None"
| "cproc_fit SChosen p me \<longleftrightarrow> me = None" | "cproc_fit SMarked p me \<longleftrightarrow> me = None" | "cproc_fit SDone p me \<longleftrightarrow> me = None"
| "cproc_fit (KRun ks) p me \<longleftrightarrow> me \<in> {None, Some p}" | "cproc_fit (SEnd q ks) p me \<longleftrightarrow> me \<in> {None, Some p}"
| "cproc_fit (Sect op q ks) p me \<longleftrightarrow> by_sect op p me" | "cproc_fit (SAct op q ks) p me \<longleftrightarrow> by_sect op p me"
| "cproc_fit _ p me \<longleftrightarrow> me = Some p"

text \<open>What a hart knows of the entry whose lock it has, or of its process.\<close>

fun left_state :: "leave \<Rightarrow> procstate" where
  "left_state YieldL = RUNNABLE" | "left_state (SleepL k) = SLEEPING" | "left_state ExitL = ZOMBIE"

definition fact :: "machine \<Rightarrow> nat \<Rightarrow> bool" where
  "fact s h =
    (let p = cpos s h
     in case ctl s h of
          SChosen \<Rightarrow> st s p = RUNNABLE
        | Sect Ready q ks \<Rightarrow> newp s p = Some q
        | SAct op q ks \<Rightarrow> passes op (procs (ptab s) q) \<and> (op = Ready \<longrightarrow> newp s p = Some q)
        | SNew q ks \<Rightarrow> st s q = USED \<and> (\<forall>p. newp s p \<noteq> Some q)
        | PZomb \<Rightarrow> st s p = ZOMBIE
        | PSched lv ks \<Rightarrow> st s p = left_state lv
        | _ \<Rightarrow> True)"

definition ctl_ok :: "machine \<Rightarrow> nat \<Rightarrow> bool" where
  "ctl_ok s h \<longleftrightarrow> cpos s h < NPROC \<and> locks_fit (ctl s h) (cpos s h) (pend (lsys s) h) \<and>
    (\<forall>q. got (ctl s h) (cpos s h) = Some q \<longrightarrow> q \<in> held s h) \<and> cproc_fit (ctl s h) (cpos s h) (cproc s h) \<and> fact s h"

text \<open>
  The process that a hart has claimed, from its mark to the return to the scheduler, and the process that it runs, up to the change of
  its state.
\<close>

definition curp :: "machine \<Rightarrow> nat \<Rightarrow> nat option" where
  "curp s h = (if ctl s h = SMarked then Some (cpos s h) else cproc s h)"

fun stopped :: "ctl \<Rightarrow> bool" where
  "stopped PZomb = True" | "stopped (PSched lv ks) = True" | "stopped SBack = True" | "stopped _ = False"

definition runp :: "machine \<Rightarrow> nat \<Rightarrow> nat option" where
  "runp s h = (if stopped (ctl s h) then None else curp s h)"

definition states_ok :: "machine \<Rightarrow> bool" where
  "states_ok s \<longleftrightarrow> (\<forall>p. st s p = RUNNING \<longleftrightarrow> (\<exists>h. runp s h = Some p))"

definition claims_ok :: "machine \<Rightarrow> bool" where
  "claims_ok s \<longleftrightarrow> (\<forall>h h' p. curp s h = Some p \<longrightarrow> curp s h' = Some p \<longrightarrow> h = h')"

definition newp_ok :: "machine \<Rightarrow> bool" where
  "newp_ok s \<longleftrightarrow> (\<forall>p q. newp s p = Some q \<longrightarrow> st s q = USED \<and> saved s q = None \<and> (\<forall>p'. newp s p' = Some q \<longrightarrow> p' = p))"

definition saved_ok :: "machine \<Rightarrow> bool" where
  "saved_ok s \<longleftrightarrow> (\<forall>p ks ie. saved s p = Some (ExitL, ks, ie) \<longrightarrow> st s p \<notin> {RUNNABLE, RUNNING, SLEEPING})"

definition mach_inv :: "nat \<Rightarrow> machine \<Rightarrow> bool" where
  "mach_inv n s \<longleftrightarrow> lock_ok n (lsys s) \<and> (\<forall>h<n. ctl_ok s h) \<and> (\<forall>h\<ge>n. ctl s h = SOuter \<and> cproc s h = None) \<and>
    states_ok s \<and> claims_ok s \<and> newp_ok s \<and> saved_ok s"

definition core :: "proc \<Rightarrow> procstate \<times> chan \<times> u32" where
  "core q = (pstate q, pchan q, pid q)"

lemma passes_core: "core q = core q' \<Longrightarrow> passes op q = passes op q'"
  by (cases op) (auto simp: core_def)

text \<open>A step of a hart changes only the entries whose locks it has, and leaves the other harts what they know.\<close>

lemma ctl_ok_frame:
  assumes ok: "ctl_ok s h" and eq: "ctl s' h = ctl s h" "cpos s' h = cpos s h" "cproc s' h = cproc s h"
      "pend (lsys s') h = pend (lsys s) h" "held s h \<subseteq> held s' h"
    and core: "\<And>q. q \<in> held s h \<Longrightarrow> core (procs (ptab s') q) = core (procs (ptab s) q)"
    and np: "\<And>p. cproc s h = Some p \<Longrightarrow> newp s' p = newp s p" "\<And>p q. q \<in> held s h \<Longrightarrow> newp s' p = Some q \<Longrightarrow> newp s p = Some q"
  shows "ctl_ok s' h"
proof -
  have k: "cproc_fit (ctl s h) (cpos s h) (cproc s h)" "fact s h" "\<And>q. got (ctl s h) (cpos s h) = Some q \<Longrightarrow> q \<in> held s h"
    using ok by (auto simp: ctl_ok_def)
  have st: "st s' q = st s q" if "q \<in> held s h" for q using core [OF that] by (simp add: core_def)
  have ps: "passes op (procs (ptab s') q) = passes op (procs (ptab s) q)" if "q \<in> held s h" for q op
    by (rule passes_core [OF core [OF that]])
  have "fact s' h"
  proof (cases "ctl s h")
    case (Sect op q ks)
    then show ?thesis using k(1,2) np(1) [of "cpos s h"] by (cases op) (simp_all add: fact_def eq)
  next
    case (SAct op q ks)
    then have "q \<in> held s h" using k(3) by simp
    then show ?thesis using SAct k(1,2) np(1) [of "cpos s h"] ps [of q op] by (cases op) (simp_all add: fact_def eq del: passes.simps)
  next
    case (SNew q ks)
    then have "q \<in> held s h" using k(3) by simp
    then show ?thesis using SNew k(2) st [of q] np(2) [of q] by (auto simp: fact_def eq)
  next
    case (PSched lv ks)
    then show ?thesis using k(2) st [of "cpos s h"] k(3) [of "cpos s h"] by (simp add: fact_def eq)
  qed (use k(2) st [of "cpos s h"] k(3) [of "cpos s h"] in \<open>simp_all add: fact_def eq\<close>)
  then show ?thesis using ok eq unfolding ctl_ok_def by auto
qed

lemma mach_inv_frame:
  assumes inv: "mach_inv n s" and h: "h < n" and ok: "lock_ok n (lsys s')" and me: "ctl_ok s' h"
    and others: "\<And>h'. h' \<noteq> h \<Longrightarrow> ctl s' h' = ctl s h' \<and> cpos s' h' = cpos s h' \<and> cproc s' h' = cproc s h' \<and>
      pend (lsys s') h' = pend (lsys s) h' \<and> held s h' \<subseteq> held s' h'"
    and core: "\<And>q. q \<notin> held s h \<Longrightarrow> core (procs (ptab s') q) = core (procs (ptab s) q)"
    and np: "\<And>p. cproc s h \<noteq> Some p \<Longrightarrow> newp s' p = newp s p" "\<And>p q. q \<notin> held s h \<Longrightarrow> newp s' p = Some q \<Longrightarrow> newp s p = Some q"
    and tab: "states_ok s'" "claims_ok s'" "newp_ok s'" "saved_ok s'"
  shows "mach_inv n s'"
proof -
  have "ctl_ok s' h'" if "h' < n" for h'
  proof (cases "h' = h")
    case False
    show ?thesis
    proof (rule ctl_ok_frame [of s])
      show "ctl_ok s h'" using inv that by (simp add: mach_inv_def)
    next
      fix q assume "q \<in> held s h'"
      then have "q \<notin> held s h" using lock_ok_excl [of n "lsys s" q h' h] inv False by (auto simp: mach_inv_def)
      then show "core (procs (ptab s') q) = core (procs (ptab s) q)" "\<And>p. newp s' p = Some q \<Longrightarrow> newp s p = Some q"
        using core np(2) by simp_all
    next
      fix p assume p: "cproc s h' = Some p"
      have "curp s h' = Some p" "cproc s h = Some p \<Longrightarrow> curp s h = Some p"
        using p inv that h by (auto simp: curp_def mach_inv_def ctl_ok_def split: if_splits)
      then have "cproc s h \<noteq> Some p" using inv False by (auto simp: mach_inv_def claims_ok_def)
      then show "newp s' p = newp s p" by (rule np(1))
    qed (use others [OF False] in simp_all)
  qed (use me in simp)
  then show ?thesis using inv ok tab others h unfolding mach_inv_def by (metis linorder_not_less)
qed

lemma mach_invD:
  assumes "mach_inv n s"
  shows "lock_ok n (lsys s)" "h < n \<Longrightarrow> ctl_ok s h" "n \<le> h \<Longrightarrow> ctl s h = SOuter" "n \<le> h \<Longrightarrow> cproc s h = None"
    "st s p = RUNNING \<longleftrightarrow> (\<exists>h. runp s h = Some p)" "curp s h = Some p \<Longrightarrow> curp s h' = Some p \<Longrightarrow> h = h'"
    "newp s p = Some q \<Longrightarrow> st s q = USED" "newp s p = Some q \<Longrightarrow> saved s q = None" "newp s p = Some q \<Longrightarrow> newp s p' = Some q \<Longrightarrow> p' = p"
    "saved s p = Some (ExitL, ks, ie) \<Longrightarrow> st s p \<notin> {RUNNABLE, RUNNING, SLEEPING}"
  using assms by (auto simp: mach_inv_def states_ok_def claims_ok_def newp_ok_def saved_ok_def)

section \<open>Steps that change no entry\<close>

lemma running_ok:
  assumes "mach_inv n s" "running n s h"
  shows "cpos s h < NPROC" "locks_fit (ctl s h) (cpos s h) (held s h)" "cproc_fit (ctl s h) (cpos s h) (cproc s h)" "fact s h"
    "pend (lsys s) h = held s h" "h < n" "lpc (lsys s) h = LRun" "got (ctl s h) (cpos s h) = Some q \<Longrightarrow> q \<in> held s h"
  using assms mach_invD(2) [of n s h] pend_run [of "lsys s" h] by (auto simp: running_def ctl_ok_def)

lemma tab_same:
  assumes "mach_inv n s" "\<And>p. st s' p = st s p" "runp s' = runp s" "curp s' = curp s" "saved s' = saved s" "newp s' = newp s"
  shows "states_ok s'" "claims_ok s'" "newp_ok s'" "saved_ok s'"
  using assms by (auto simp: mach_inv_def states_ok_def claims_ok_def newp_ok_def saved_ok_def)

text \<open>Two places between which a hart neither claims nor leaves a process.\<close>

definition same_claim :: "ctl \<Rightarrow> ctl \<Rightarrow> bool" where
  "same_claim c c' \<longleftrightarrow> (stopped c' \<longleftrightarrow> stopped c) \<and> c \<noteq> SMarked \<and> c' \<noteq> SMarked"

lemma same_claim_procs:
  assumes "ctl s' = (ctl s)(h := c)" "same_claim (ctl s h) c" "cproc s' = cproc s" "cpos s' = cpos s"
  shows "curp s' = curp s" "runp s' = runp s"
  using assms by (auto simp: curp_def runp_def same_claim_def fun_eq_iff)

lemma mach_inv_plain:
  assumes inv: "mach_inv n s" and run: "running n s h"
    and s': "s' = (to h c s)\<lparr>lsys := ls\<rparr>" and cl: "same_claim (ctl s h) c"
    and ls: "lock_ok n ls" "\<And>h'. h' \<noteq> h \<Longrightarrow> pend ls h' = pend (lsys s) h' \<and> inside ls h' = held s h'"
    and fit: "locks_fit c (cpos s h) (pend ls h)" "\<And>q. got c (cpos s h) = Some q \<Longrightarrow> q \<in> inside ls h"
      "cproc_fit c (cpos s h) (cproc s h)" "fact s' h"
  shows "mach_inv n s'"
proof (rule mach_inv_frame [OF inv, of h])
  note p = same_claim_procs [of s' s h c, OF _ cl]
  have eq: "curp s' = curp s" "runp s' = runp s" by (rule p; simp add: s' to_def)+
  show "states_ok s'" "claims_ok s'" "newp_ok s'" "saved_ok s'"
    by (rule tab_same [OF inv _ eq(2,1)]; simp add: s' to_def)+
  show "ctl_ok s' h" using running_ok(1) [OF inv run] fit by (simp add: ctl_ok_def s' to_def)
  show "h < n" by (rule running_ok [OF inv run])
qed (use ls in \<open>simp_all add: s' to_def\<close>)

lemma mach_inv_goto:
  assumes inv: "mach_inv n s" and run: "running n s h" and cl: "same_claim (ctl s h) c"
    and fit: "locks_fit c (cpos s h) (held s h)" "\<And>q. got c (cpos s h) = Some q \<Longrightarrow> q \<in> held s h"
      "cproc_fit c (cpos s h) (cproc s h)" "fact (to h c s) h"
  shows "mach_inv n (to h c s)"
  by (rule mach_inv_plain [OF inv run _ cl, where ls = "lsys s"])
    (use fit running_ok(5) [OF inv run] mach_invD(1) [OF inv] in \<open>simp_all add: to_def\<close>)

lemma mach_inv_take:
  assumes inv: "mach_inv n s" and run: "running n s h" and cl: "same_claim (ctl s h) c" and l: "l \<notin> held s h"
    and fit: "locks_fit c (cpos s h) (insert l (held s h))" "\<And>q. got c (cpos s h) = Some q \<Longrightarrow> q \<in> held s h"
      "cproc_fit c (cpos s h) (cproc s h)" "fact (to h c (take_lock h l s)) h"
  shows "mach_inv n (to h c (take_lock h l s))"
  by (rule mach_inv_plain [OF inv run _ cl, where ls = "begin_acquire h l (lsys s)"])
    (use fit lock_ok_take [OF mach_invD(1) [OF inv] running_ok(6,7) [OF inv run] l] in \<open>simp_all add: to_def take_lock_def\<close>)

lemma mach_inv_drop:
  assumes inv: "mach_inv n s" and run: "running n s h" and cl: "same_claim (ctl s h) c" and l: "l \<in> held s h"
    and fit: "locks_fit c (cpos s h) (held s h - {l})" "\<And>q. got c (cpos s h) = Some q \<Longrightarrow> q \<in> held s h - {l}"
      "cproc_fit c (cpos s h) (cproc s h)" "fact (to h c (drop_lock h l s)) h"
  shows "mach_inv n (to h c (drop_lock h l s))"
  by (rule mach_inv_plain [OF inv run _ cl, where ls = "begin_release h l (lsys s)"])
    (use fit lock_ok_drop [OF mach_invD(1) [OF inv] running_ok(6,7) [OF inv run] l] in \<open>simp_all add: to_def drop_lock_def\<close>)

lemma mach_inv_cpu:
  assumes inv: "mach_inv n s" and run: "running n s h" and cl: "same_claim (ctl s h) c"
    and f: "noff (f (cpus (lsys s) h)) = noff (cpus (lsys s) h)" "held s h \<noteq> {} \<Longrightarrow> sie (f (cpus (lsys s) h)) = sie (cpus (lsys s) h)"
    and fit: "locks_fit c (cpos s h) (held s h)" "\<And>q. got c (cpos s h) = Some q \<Longrightarrow> q \<in> held s h"
      "cproc_fit c (cpos s h) (cproc s h)" "fact (to h c (set_cpu h f s)) h"
  shows "mach_inv n (to h c (set_cpu h f s))"
proof (rule mach_inv_plain [OF inv run _ cl, where ls = "(lsys s)\<lparr>cpus := (cpus (lsys s))(h := f (cpus (lsys s) h))\<rparr>"])
  have li: "lock_inv n (lsys s)" using mach_invD(1) [OF inv] by (simp add: lock_ok_def)
  have "0 < noff (cpus (lsys s) h) \<Longrightarrow> held s h \<noteq> {}"
    using lock_invD(8) [OF li, of h] running_ok(7) [OF inv run] by auto
  then show "lock_ok n ((lsys s)\<lparr>cpus := (cpus (lsys s))(h := f (cpus (lsys s) h))\<rparr>)"
    using f lock_invD(7) [OF li, of h] by (intro lock_ok_cpu [OF mach_invD(1) [OF inv] running_ok(6,7) [OF inv run]]) auto
qed (use fit running_ok(5) [OF inv run] in \<open>simp_all add: to_def set_cpu_def pend_def\<close>)

lemma mach_inv_lock:
  assumes inv: "mach_inv n s" and h: "h < n" and calm: "\<not> intrudes h (lsys s)"
  shows "mach_inv n (s\<lparr>lsys := lock_move h (lsys s)\<rparr>)"
proof -
  let ?s = "s\<lparr>lsys := lock_move h (lsys s)\<rparr>"
  note m = lock_ok_move [OF mach_invD(1) [OF inv] h calm]
  have "ctl_ok ?s h'" if "h' < n" for h'
    by (rule ctl_ok_frame [OF mach_invD(2) [OF inv that]]) (use m in simp_all)
  moreover have "states_ok ?s" "claims_ok ?s" "newp_ok ?s" "saved_ok ?s"
    by (rule tab_same [OF inv]; simp add: curp_def runp_def fun_eq_iff)+
  ultimately show ?thesis using inv m(1) by (simp add: mach_inv_def)
qed

lemma mach_inv_env:
  assumes inv: "mach_inv n s" and t: "same_sched (ptab s) t"
  shows "mach_inv n (s\<lparr>ptab := t\<rparr>)"
proof -
  have "ctl_ok (s\<lparr>ptab := t\<rparr>) h'" if "h' < n" for h'
    by (rule ctl_ok_frame [OF mach_invD(2) [OF inv that]]) (use t in \<open>simp_all add: same_sched_def core_def\<close>)
  moreover have "states_ok (s\<lparr>ptab := t\<rparr>)" "claims_ok (s\<lparr>ptab := t\<rparr>)" "newp_ok (s\<lparr>ptab := t\<rparr>)" "saved_ok (s\<lparr>ptab := t\<rparr>)"
    by (rule tab_same [OF inv]; use t in \<open>simp add: curp_def runp_def fun_eq_iff same_sched_def\<close>)+
  ultimately show ?thesis using inv by (simp add: mach_inv_def)
qed

section \<open>Steps that change an entry\<close>

text \<open>
  A step of the table: the hart has the lock of entry \<open>q\<close> and changes it. In the first kind, the entry is in no process that runs
  before and after.
\<close>

lemma saved_ok_upd:
  assumes inv: "mach_inv n s" and sv: "saved s' = saved s" and st: "\<And>q. st s' q = (if q = p then x else st s q)"
    and x: "x \<in> {RUNNABLE, RUNNING, SLEEPING} \<Longrightarrow> st s p \<in> {RUNNABLE, RUNNING, SLEEPING}"
  shows "saved_ok s'"
proof -
  have "st s' q \<notin> {RUNNABLE, RUNNING, SLEEPING}" if "saved s q = Some (ExitL, ks, ie)" for q ks ie
    using mach_invD(10) [OF inv that] x by (cases "q = p") (auto simp: st)
  then show ?thesis unfolding saved_ok_def sv by blast
qed

lemma mach_inv_entry:
  assumes inv: "mach_inv n s" and run: "running n s h"
    and s': "s' = to h c (upd_entry q f s)" and cl: "same_claim (ctl s h) c" and q: "q \<in> held s h"
    and f: "st s q \<noteq> RUNNING" "pstate (f (procs (ptab s) q)) \<noteq> RUNNING" "\<And>p. newp s p = Some q \<Longrightarrow> pstate (f (procs (ptab s) q)) = USED"
      "pstate (f (procs (ptab s) q)) \<in> {RUNNABLE, SLEEPING} \<Longrightarrow> st s q \<in> {RUNNABLE, SLEEPING}"
    and fit: "locks_fit c (cpos s h) (held s h)" "\<And>q. got c (cpos s h) = Some q \<Longrightarrow> q \<in> held s h"
      "cproc_fit c (cpos s h) (cproc s h)" "fact s' h"
  shows "mach_inv n s'"
proof (rule mach_inv_frame [OF inv, of h])
  have eq: "curp s' = curp s" "runp s' = runp s"
    by (rule same_claim_procs [of s' s h c, OF _ cl]; simp add: s' to_def upd_entry_def)+
  have st: "st s' p = (if p = q then pstate (f (procs (ptab s) q)) else st s p)" for p
    by (simp add: s' to_def upd_entry_def upd_proc_def)
  note I = mach_invD [OF inv]
  show "states_ok s'" unfolding states_ok_def eq(2) using I(5) f(1,2) st by metis
  show "claims_ok s'" using inv by (simp add: mach_inv_def claims_ok_def eq)
  show "newp_ok s'" using I(7,8,9) f(3) by (auto simp: newp_ok_def st) (auto simp: s' to_def upd_entry_def)
  show "saved_ok s'" by (rule saved_ok_upd [OF inv _ st]) (use f in \<open>auto simp: s' to_def upd_entry_def\<close>)
  show "ctl_ok s' h" using running_ok(1,5) [OF inv run] fit by (simp add: ctl_ok_def s' to_def upd_entry_def)
  show "h < n" by (rule running_ok [OF inv run])
qed (use q mach_invD(1) [OF inv] in \<open>auto simp: s' to_def upd_entry_def upd_proc_def\<close>)

lemma runp_curp: "runp s h = Some p \<Longrightarrow> curp s h = Some p"
  by (auto simp: runp_def split: if_splits)

lemma mach_inv_mark:
  assumes inv: "mach_inv n s" and run: "running n s h" and c: "ctl s h = SChosen"
  shows "mach_inv n (to h SMarked (upd_entry (cpos s h) (\<lambda>q. q\<lparr>pstate := RUNNING\<rparr>) s))" (is "mach_inv n ?s")
proof (rule mach_inv_frame [OF inv, of h])
  let ?p = "cpos s h"
  note I = mach_invD [OF inv] and R = running_ok [OF inv run]
  have q: "?p \<in> held s h" "st s ?p = RUNNABLE" "cproc s h = None" using R(3,4,8) c by (simp_all add: fact_def)
  have st: "st ?s p = (if p = ?p then RUNNING else st s p)" for p by (simp add: to_def upd_entry_def upd_proc_def)
  have cur: "curp ?s h' = (if h' = h then Some ?p else curp s h')" "runp ?s h' = (if h' = h then Some ?p else runp s h')" for h'
    by (simp_all add: curp_def runp_def to_def upd_entry_def)
  have no: "curp s h' \<noteq> Some ?p" for h'
  proof
    assume a: "curp s h' = Some ?p"
    then have "stopped (ctl s h')" using I(5) [of ?p] q(2) by (auto simp: runp_def split: if_splits)
    moreover have h': "h' < n" using a I(3,4) [of h'] by (auto simp: curp_def intro: leI split: if_splits)
    ultimately have "?p \<in> held s h'" using a I(2) [OF h'] by (cases "ctl s h'") (auto simp: ctl_ok_def curp_def)
    then have "h' = h" using lock_ok_excl [OF I(1)] q(1) by blast
    then show False using a q(3) c by (simp add: curp_def)
  qed
  have "runp s h' \<noteq> Some ?p" for h' using no runp_curp by blast
  moreover have "runp s h = None" using q(3) c by (simp add: runp_def curp_def)
  ultimately show "states_ok ?s" using I(5) unfolding states_ok_def st cur by (metis option.distinct(1) option.inject)
  show "claims_ok ?s" using I(6) no unfolding claims_ok_def cur by (metis option.inject)
  show "newp_ok ?s" using I(7,8,9) q(2) by (auto simp: newp_ok_def st) (auto simp: to_def upd_entry_def)
  show "saved_ok ?s" by (rule saved_ok_upd [OF inv _ st]) (use q(2) in \<open>simp_all add: to_def upd_entry_def\<close>)
  show "ctl_ok ?s h" using R c by (simp add: ctl_ok_def to_def upd_entry_def fact_def)
  show "h < n" by (rule R)
qed (use running_ok(8) [OF inv run] c mach_invD(1) [OF inv] in \<open>auto simp: to_def upd_entry_def upd_proc_def\<close>)

lemma mach_inv_stop:
  assumes inv: "mach_inv n s" and run: "running n s h"
    and s': "s' = to h c (upd_entry p f s)" and c: "stopped c" "\<not> stopped (ctl s h)" "ctl s h \<noteq> SMarked" and p: "p \<in> held s h"
      "cproc s h = Some p" "pstate (f (procs (ptab s) p)) \<noteq> RUNNING"
    and fit: "locks_fit c (cpos s h) (held s h)" "\<And>q. got c (cpos s h) = Some q \<Longrightarrow> q \<in> held s h"
      "cproc_fit c (cpos s h) (cproc s h)" "fact s' h"
  shows "mach_inv n s'"
proof (rule mach_inv_frame [OF inv, of h])
  note I = mach_invD [OF inv] and R = running_ok [OF inv run]
  have st: "st s' q = (if q = p then pstate (f (procs (ptab s) p)) else st s q)" for q
    by (simp add: s' to_def upd_entry_def upd_proc_def)
  have cur: "curp s' = curp s" "runp s' h' = (if h' = h then None else runp s h')" for h'
    using c by (auto simp: curp_def runp_def s' to_def upd_entry_def fun_eq_iff)
  have h: "curp s h = Some p" "runp s h = Some p" using p(2) c by (simp_all add: curp_def runp_def)
  have rn: "st s p = RUNNING" using I(5) h(2) by blast
  have only: "runp s h' = Some p \<Longrightarrow> h' = h" for h' using I(6) h(1) runp_curp by blast
  show "states_ok s'" using I(5) only h(2) p(3) unfolding states_ok_def st cur by (metis option.distinct(1) option.inject)
  show "claims_ok s'" using inv by (simp add: mach_inv_def claims_ok_def cur)
  show "newp_ok s'" using I(7,8,9) rn by (auto simp: newp_ok_def st) (auto simp: s' to_def upd_entry_def)
  show "saved_ok s'" by (rule saved_ok_upd [OF inv _ st]) (use rn in \<open>simp_all add: s' to_def upd_entry_def\<close>)
  show "ctl_ok s' h" using R(1,5) fit by (simp add: ctl_ok_def s' to_def upd_entry_def)
  show "h < n" by (rule R)
qed (use p(1) mach_invD(1) [OF inv] in \<open>auto simp: s' to_def upd_entry_def upd_proc_def\<close>)

text \<open>The other steps: the two switches, the return to the scheduler, the loop of \<^verbatim>\<open>scheduler\<close> and the steps of \<^verbatim>\<open>fork\<close>.\<close>

lemma mach_inv_switch:
  assumes inv: "mach_inv n s" and run: "running n s h" and c: "ctl s h = SMarked"
  shows "mach_inv n (to h PBack (s\<lparr>cproc := (cproc s)(h := Some (cpos s h))\<rparr>))" (is "mach_inv n ?s")
proof (rule mach_inv_frame [OF inv, of h])
  note R = running_ok [OF inv run]
  have "curp ?s = curp s" "runp ?s = runp s" using c by (auto simp: curp_def runp_def to_def fun_eq_iff)
  then show "states_ok ?s" "claims_ok ?s" "newp_ok ?s" "saved_ok ?s"
    by (intro tab_same [OF inv]; simp add: to_def)+
  show "ctl_ok ?s h" using R c by (simp add: ctl_ok_def to_def fact_def)
  show "h < n" by (rule R)
qed (use mach_invD(1) [OF inv] in \<open>simp_all add: to_def\<close>)

lemma sched_passes:
  assumes inv: "mach_inv n s" and run: "running n s h" and c: "ctl s h = PSched lv ks"
  shows "sched h lv ks s = Inr (to h SBack (s\<lparr>saved := (saved s)(cpos s h := Some (lv, ks, intena (cpus (lsys s) h)))\<rparr>))"
proof -
  let ?p = "cpos s h" and ?c = "cpus (lsys s) h"
  note I = mach_invD [OF inv] and R = running_ok [OF inv run]
  have li: "lock_inv n (lsys s)" using I(1) by (simp add: lock_ok_def)
  have p: "cproc s h = Some ?p" "held s h = {?p}" using R(2,3) c by simp_all
  have "holding h (locks (lsys s) ?p)" using holding_iff [OF li] p(2) by simp
  moreover have off: "noff ?c = 1" using lock_invD(8) [OF li, of h] R(7) p(2) by simp
  moreover have "\<not> sie ?c" using lock_invD(7) [OF li, of h] off by simp
  moreover have "st s ?p \<noteq> RUNNING"
  proof
    assume "st s ?p = RUNNING"
    then obtain h' where h': "runp s h' = Some ?p" using I(5) by blast
    have "curp s h = Some ?p" using p(1) c by (simp add: curp_def)
    then have "h' = h" using I(6) runp_curp [OF h'] by blast
    then show False using h' c by (simp add: runp_def)
  qed
  ultimately show ?thesis using p(1) by (simp add: sched_def sched_checks_def intr_get_def)
qed

lemma mach_inv_sched:
  assumes inv: "mach_inv n s" and run: "running n s h" and c: "ctl s h = PSched lv ks"
  shows "mach_inv n (to h SBack (s\<lparr>saved := (saved s)(cpos s h := Some (lv, ks, ie))\<rparr>))" (is "mach_inv n ?s")
proof (rule mach_inv_frame [OF inv, of h])
  let ?p = "cpos s h"
  note I = mach_invD [OF inv] and R = running_ok [OF inv run]
  have eq: "curp ?s = curp s" "runp ?s = runp s" using c by (auto simp: curp_def runp_def to_def fun_eq_iff)
  have st: "st ?s q = st s q" for q by (simp add: to_def)
  show "states_ok ?s" "claims_ok ?s" using inv by (simp_all add: mach_inv_def states_ok_def claims_ok_def eq st)
  have nu: "newp s q \<noteq> Some ?p" for q
    using I(7) [of q ?p] R(4) c by (cases lv) (auto simp: fact_def)
  show "newp_ok ?s" using I(7,8,9) nu by (auto simp: newp_ok_def to_def)
  show "saved_ok ?s" using I(10) R(4) c by (auto simp: saved_ok_def to_def fact_def)
  show "ctl_ok ?s h" using R c by (simp add: ctl_ok_def to_def fact_def)
  show "h < n" by (rule R)
qed (use mach_invD(1) [OF inv] in \<open>simp_all add: to_def\<close>)

lemma mach_inv_back:
  assumes inv: "mach_inv n s" and run: "running n s h" and c: "ctl s h = SBack"
  shows "mach_inv n (to h SDone (s\<lparr>cproc := (cproc s)(h := None)\<rparr>))" (is "mach_inv n ?s")
proof (rule mach_inv_frame [OF inv, of h])
  note I = mach_invD [OF inv] and R = running_ok [OF inv run]
  have cur: "curp ?s h' = (if h' = h then None else curp s h')" "runp ?s = runp s" for h'
    using c by (auto simp: curp_def runp_def to_def fun_eq_iff)
  have st: "st ?s q = st s q" for q by (simp add: to_def)
  show "states_ok ?s" using inv by (simp add: mach_inv_def states_ok_def cur st)
  show "claims_ok ?s" using I(6) unfolding claims_ok_def cur by (metis option.distinct(1))
  show "newp_ok ?s" "saved_ok ?s" using inv by (simp_all add: mach_inv_def newp_ok_def saved_ok_def to_def)
  show "ctl_ok ?s h" using R c by (simp add: ctl_ok_def to_def fact_def)
  show "h < n" by (rule R)
qed (use mach_invD(1) [OF inv] in \<open>simp_all add: to_def\<close>)

lemma NPROC_pos: "0 < NPROC"
  by (simp add: NPROC_def)

lemma mach_inv_next:
  assumes inv: "mach_inv n s" and run: "running n s h" and c: "ctl s h = SDone" and c': "c' \<in> {SOuter, SLoop}"
  shows "mach_inv n (to h c' (drop_lock h (cpos s h) (s\<lparr>cpos := (cpos s)(h := Suc (cpos s h) mod NPROC)\<rparr>)))" (is "mach_inv n ?s")
proof (rule mach_inv_frame [OF inv, of h])
  note I = mach_invD [OF inv] and R = running_ok [OF inv run]
  have p: "cpos s h \<in> held s h" "held s h = {cpos s h}" using R(2,8) c by simp_all
  note d = lock_ok_drop [OF I(1) R(6,7) p(1)]
  show "lock_ok n (lsys ?s)" using d(1) by (simp add: to_def drop_lock_def)
  have "curp ?s = curp s" "runp ?s = runp s" using c c' by (auto simp: curp_def runp_def to_def drop_lock_def fun_eq_iff)
  then show "states_ok ?s" "claims_ok ?s" "newp_ok ?s" "saved_ok ?s"
    by (intro tab_same [OF inv]; simp add: to_def drop_lock_def)+
  show "ctl_ok ?s h" using R(3) c c' d NPROC_pos p(2) by (auto simp: ctl_ok_def to_def drop_lock_def fact_def)
  show "h < n" by (rule R)
  fix h' assume "h' \<noteq> h"
  then show "ctl ?s h' = ctl s h' \<and> cpos ?s h' = cpos s h' \<and> cproc ?s h' = cproc s h' \<and>
      pend (lsys ?s) h' = pend (lsys s) h' \<and> held s h' \<subseteq> held ?s h'" using d by (simp add: to_def drop_lock_def)
qed (simp_all add: to_def drop_lock_def)

lemma mach_inv_same_state:
  assumes inv: "mach_inv n s" and run: "running n s h"
    and s': "s' = to h c (upd_entry q f s)" and cl: "same_claim (ctl s h) c" and q: "q \<in> held s h"
    and f: "pstate (f (procs (ptab s) q)) = st s q"
    and fit: "locks_fit c (cpos s h) (held s h)" "\<And>q. got c (cpos s h) = Some q \<Longrightarrow> q \<in> held s h"
      "cproc_fit c (cpos s h) (cproc s h)" "fact s' h"
  shows "mach_inv n s'"
proof (rule mach_inv_frame [OF inv, of h])
  have "curp s' = curp s" "runp s' = runp s"
    by (rule same_claim_procs [of s' s h c, OF _ cl]; simp add: s' to_def upd_entry_def)+
  then show "states_ok s'" "claims_ok s'" "newp_ok s'" "saved_ok s'"
    by (intro tab_same [OF inv]; simp add: s' to_def upd_entry_def upd_proc_def f)+
  show "ctl_ok s' h" using running_ok(1,5) [OF inv run] fit by (simp add: ctl_ok_def s' to_def upd_entry_def)
  show "h < n" by (rule running_ok [OF inv run])
qed (use q mach_invD(1) [OF inv] in \<open>auto simp: s' to_def upd_entry_def upd_proc_def\<close>)

lemma mach_inv_ready:
  assumes inv: "mach_inv n s" and run: "running n s h" and c: "ctl s h = SAct Ready q ks" and p: "cproc s h = Some p"
  shows "mach_inv n (to h (SEnd q ks) (upd_entry q (sect_act Ready) (s\<lparr>newp := (newp s)(p := None)\<rparr>)))" (is "mach_inv n ?s")
proof (rule mach_inv_frame [OF inv, of h])
  note I = mach_invD [OF inv] and R = running_ok [OF inv run]
  have q: "q \<in> held s h" using R(8) c by simp
  have np: "newp s p = Some q" using R(3,4) c p by (simp add: fact_def)
  have us: "st s q = USED" "saved s q = None" using I(7,8) [OF np] by simp_all
  have st: "st ?s r = (if r = q then RUNNABLE else st s r)" for r by (simp add: to_def upd_entry_def upd_proc_def)
  have cur: "curp ?s = curp s" "runp ?s = runp s"
    by (rule same_claim_procs [of ?s s h "SEnd q ks"]; simp add: to_def upd_entry_def same_claim_def c)+
  show "states_ok ?s" using I(5) us(1) unfolding states_ok_def st cur by (metis procstate.distinct)
  show "claims_ok ?s" using inv by (simp add: mach_inv_def claims_ok_def cur)
  show "newp_ok ?s" using I(7,8) I(9) [OF np] I(9) by (auto simp: newp_ok_def st) (auto simp: to_def upd_entry_def split: if_splits)
  have sv: "saved ?s = saved s" by (simp add: to_def upd_entry_def)
  show "saved_ok ?s" using I(10) us(2) unfolding saved_ok_def st sv by (metis option.distinct(1))
  show "ctl_ok ?s h" using R(1,2,3,5) c q by (simp add: ctl_ok_def to_def upd_entry_def fact_def)
  show "h < n" by (rule R)
qed (use running_ok(8) [OF inv run] c p mach_invD(1) [OF inv] in \<open>auto simp: to_def upd_entry_def upd_proc_def split: if_splits\<close>)

lemma mach_inv_new:
  assumes inv: "mach_inv n s" and run: "running n s h" and c: "ctl s h = SNew q ks" and p: "cproc s h = Some p"
  shows "mach_inv n (to h (SEnd q ks) (s\<lparr>saved := (saved s)(q := None), newp := (newp s)(p := Some q)\<rparr>))" (is "mach_inv n ?s")
proof (rule mach_inv_frame [OF inv, of h])
  note I = mach_invD [OF inv] and R = running_ok [OF inv run]
  have q: "q \<in> held s h" using R(8) c by simp
  have us: "st s q = USED" "\<And>r. newp s r \<noteq> Some q" using R(4) c by (simp_all add: fact_def)
  have st: "st ?s r = st s r" for r by (simp add: to_def)
  have cur: "curp ?s = curp s" "runp ?s = runp s"
    by (rule same_claim_procs [of ?s s h "SEnd q ks"]; simp add: to_def same_claim_def c)+
  show "states_ok ?s" "claims_ok ?s" using inv by (simp_all add: mach_inv_def states_ok_def claims_ok_def cur st)
  show "newp_ok ?s" using I(7,8,9) us unfolding newp_ok_def st by (auto simp: to_def split: if_splits)
  show "saved_ok ?s" using I(10) unfolding saved_ok_def st by (auto simp: to_def)
  show "ctl_ok ?s h" using R(1,2,3,5) c q by (simp add: ctl_ok_def to_def fact_def)
  show "h < n" by (rule R)
qed (use running_ok(8) [OF inv run] c p mach_invD(1) [OF inv] in \<open>auto simp: to_def split: if_splits\<close>)

section \<open>Every step keeps the invariant\<close>

lemma mach_inv_scheduler:
  assumes inv: "mach_inv n s" and run: "running n s h" and c: "scheduling (ctl s h) \<or> ctl s h = STest"
  shows "mach_inv n (scheduler h s)"
proof -
  note R = running_ok [OF inv run]
  consider "ctl s h = SOuter" | "ctl s h = SLoop" | "ctl s h = STest" | "ctl s h = SChosen" | "ctl s h = SMarked"
    | "ctl s h = SBack" | "ctl s h = SDone" using c by (auto simp: scheduling_def)
  then show ?thesis
  proof cases
    case 1
    then have "mach_inv n (to h SLoop (set_cpu h intr_on s))"
      using R(2,3) by (intro mach_inv_cpu [OF inv run]) (auto simp: same_claim_def intr_on_def fact_def to_def set_cpu_def)
    then show ?thesis using 1 by (simp add: scheduler_def)
  next
    case 2
    then have "mach_inv n (to h STest (take_lock h (cpos s h) s))"
      using R(2,3) by (intro mach_inv_take [OF inv run]) (auto simp: same_claim_def fact_def to_def take_lock_def)
    then show ?thesis using 2 by (simp add: scheduler_def)
  next
    case 3
    have "mach_inv n (to h SChosen s)" if "st s (cpos s h) = RUNNABLE"
      by (rule mach_inv_goto [OF inv run]) (use 3 R(2,3) that in \<open>simp_all add: same_claim_def fact_def to_def\<close>)
    moreover have "mach_inv n (to h SDone s)"
      by (rule mach_inv_goto [OF inv run]) (use 3 R(2,3) in \<open>simp_all add: same_claim_def fact_def to_def\<close>)
    ultimately show ?thesis using 3 by (simp add: scheduler_def)
  next
    case 7
    have "mach_inv n (to h (if Suc (cpos s h) = NPROC then SOuter else SLoop)
        (drop_lock h (cpos s h) (s\<lparr>cpos := (cpos s)(h := Suc (cpos s h) mod NPROC)\<rparr>)))"
      by (rule mach_inv_next [OF inv run 7]) simp
    then show ?thesis using 7 by (simp add: scheduler_def Let_def)
  qed (use mach_inv_mark [OF inv run] mach_inv_switch [OF inv run] mach_inv_back [OF inv run] in \<open>simp_all add: scheduler_def\<close>)
qed

lemma mach_inv_release:
  assumes inv: "mach_inv n s" and run: "running n s h" and c: "ctl s h = PBack"
  shows "mach_inv n (to h (KRun ks) (drop_lock h (cpos s h) s))"
  using running_ok [OF inv run] c
  by (intro mach_inv_drop [OF inv run]) (auto simp: same_claim_def fact_def to_def drop_lock_def)

lemma mach_inv_resume:
  assumes inv: "mach_inv n s" and run: "running n s h" and c: "ctl s h = PBack"
  shows "mach_inv n (resume h (cpos s h) s)"
proof (cases "saved s (cpos s h)")
  case None
  then show ?thesis using mach_inv_release [OF inv run c] by (simp add: resume_def)
next
  case (Some a)
  obtain lv ks ie where a: "a = (lv, ks, ie)" using prod_cases3 by blast
  let ?p = "cpos s h" and ?s = "set_cpu h (\<lambda>c. c\<lparr>intena := ie\<rparr>) s"
  note I = mach_invD [OF inv] and R = running_ok [OF inv run]
  have id: "to h PBack ?s = ?s" using c by (simp add: to_def set_cpu_def fun_upd_idem)
  have inv1: "mach_inv n ?s"
    using R(2,3,8) c by (subst id [symmetric], intro mach_inv_cpu [OF inv run]) (auto simp: same_claim_def fact_def to_def set_cpu_def)
  have at: "running n ?s h" "ctl ?s h = PBack" "cpos ?s h = ?p" using run c by (simp_all add: running_def set_cpu_def)
  have "runp s h = Some ?p" using R(3) c by (simp add: runp_def curp_def)
  then have "st s ?p = RUNNING" using I(5) by blast
  then have "lv \<noteq> ExitL" using I(10) [of ?p ks ie] Some a by auto
  then consider "lv = YieldL" | k where "lv = SleepL k" by (cases lv) auto
  then show ?thesis
  proof cases
    case 1
    then show ?thesis using Some a mach_inv_release [OF inv1 at(1,2)] at(3) by (simp add: resume_def)
  next
    case 2
    let ?t = "upd_entry ?p (\<lambda>p. p\<lparr>pchan := ChNone\<rparr>) ?s"
    have id: "to h PBack ?t = ?t" using at(2) by (simp add: to_def upd_entry_def fun_upd_idem)
    have "mach_inv n (to h PBack ?t)"
      by (rule mach_inv_same_state [OF inv1 at(1) refl])
        (use running_ok(2,3,8) [OF inv1 at(1)] at(2,3) in \<open>auto simp: same_claim_def fact_def to_def upd_entry_def\<close>)
    then have "mach_inv n ?t" by (simp only: id)
    moreover have "running n ?t h" "ctl ?t h = PBack" "cpos ?t h = ?p" using at by (simp_all add: running_def upd_entry_def)
    ultimately have "mach_inv n (to h (KRun (k # ks)) (drop_lock h ?p ?t))" using mach_inv_release [of n ?t h] by simp
    then show ?thesis using Some a 2 by (simp add: resume_def sleep_done_def upd_entry_def Let_def)
  qed
qed

lemma mach_inv_process:
  assumes inv: "mach_inv n s" and run: "running n s h" and c: "leaving (ctl s h)" and p: "cproc s h = Some p"
  shows "mach_inv n (process_step h p s)"
proof -
  note R = running_ok [OF inv run]
  have p: "p = cpos s h" "cproc s h = Some (cpos s h)" using R(3) c p by (cases "ctl s h"; simp)+
  have w: "p \<noteq> wait_lock" "p \<noteq> olock k" for k using p R(1) by (simp_all add: wait_lock_def olock_def)
  note fs = same_claim_def fact_def to_def
  show ?thesis
  proof (cases "ctl s h")
    case PBack
    then show ?thesis using mach_inv_resume [OF inv run] p by (simp add: process_step_def)
  next
    case (PYield ks)
    have "mach_inv n (to h (PSched YieldL ks) (upd_entry p (\<lambda>q. q\<lparr>pstate := RUNNABLE\<rparr>) s))"
      by (rule mach_inv_stop [OF inv run refl]) (use PYield R(2,3) p in \<open>auto simp: fs upd_entry_def upd_proc_def\<close>)
    then show ?thesis using PYield by (simp add: process_step_def yield_def)
  next
    case (PSleep ch k ks)
    have "mach_inv n (to h (PSlept ch k ks) (drop_lock h (olock k) s))"
      by (rule mach_inv_drop [OF inv run]) (use PSleep R(2,3) p w(2) [of k] in \<open>auto simp: fs drop_lock_def\<close>)
    then show ?thesis using PSleep by (simp add: process_step_def sleep_def)
  next
    case (PSlept ch k ks)
    have "mach_inv n (to h (PSched (SleepL k) ks) (upd_entry p (\<lambda>p. p\<lparr>pchan := ch, pstate := SLEEPING\<rparr>) s))"
      by (rule mach_inv_stop [OF inv run refl]) (use PSlept R(2,3) p in \<open>auto simp: fs upd_entry_def upd_proc_def\<close>)
    then show ?thesis using PSlept by (simp add: process_step_def sleep_def sleep_on_def upd_entry_def)
  next
    case (PExit status)
    have "mach_inv n (to h PZomb (upd_entry p (\<lambda>q. q\<lparr>xstate := status, pstate := ZOMBIE\<rparr>) s))"
      by (rule mach_inv_stop [OF inv run refl]) (use PExit R(2,3) p in \<open>auto simp: fs upd_entry_def upd_proc_def\<close>)
    then show ?thesis using PExit by (simp add: process_step_def exit_switch_def)
  next
    case PZomb
    have "mach_inv n (to h (PSched ExitL []) (drop_lock h wait_lock s))"
      by (rule mach_inv_drop [OF inv run]) (use PZomb R(2,3,4) p w(1) in \<open>auto simp: fs drop_lock_def\<close>)
    then show ?thesis using PZomb by (simp add: process_step_def exit_switch_def)
  next
    case (PSched lv ks)
    then show ?thesis
      using mach_inv_sched [OF inv run PSched] sched_passes [OF inv run PSched] by (simp add: process_step_def or_panic_def)
  qed (use c in simp_all)
qed

lemma mach_inv_act:
  assumes inv: "mach_inv n s" and run: "running n s h" and c: "ctl s h = SAct op q ks" and op: "op \<in> {Wakeup ch, Kill m, Reap}"
  shows "mach_inv n (to h (SEnd q ks) (upd_entry q (sect_act op) s))"
proof -
  note I = mach_invD [OF inv] and R = running_ok [OF inv run]
  have q: "q \<in> held s h" and ps: "passes op (procs (ptab s) q)" using R(4,8) c by (simp_all add: fact_def)
  have fit: "locks_fit (SEnd q ks) (cpos s h) (held s h)" "\<And>r. got (SEnd q ks) (cpos s h) = Some r \<Longrightarrow> r \<in> held s h"
      "cproc_fit (SEnd q ks) (cpos s h) (cproc s h)" "fact (to h (SEnd q ks) (upd_entry q (sect_act op) s)) h" "same_claim (ctl s h) (SEnd q ks)"
    using R(2,3) c q by (cases op; auto simp: fact_def to_def upd_entry_def same_claim_def)+
  show ?thesis
  proof (cases "pstate (sect_act op (procs (ptab s) q)) = st s q")
    case True
    show ?thesis by (rule mach_inv_same_state [OF inv run refl fit(5) q True fit(1-4)])
  next
    case False
    have us: "newp s p = Some q \<Longrightarrow> st s q = USED" for p by (rule I(7))
    show ?thesis
      by (rule mach_inv_entry [OF inv run refl fit(5) q _ _ _ _ fit(1-4)])
        (use op ps False us in \<open>auto simp: Let_def freed_def split: if_splits\<close>)
  qed
qed

lemma mach_inv_sect:
  assumes inv: "mach_inv n s" and run: "running n s h" and c: "in_sect (ctl s h)"
  shows "mach_inv n (sect_step ok h s)"
proof -
  note I = mach_invD [OF inv] and R = running_ok [OF inv run]
  note fs = same_claim_def fact_def to_def
  show ?thesis
  proof (cases "ctl s h")
    case (Sect op q ks)
    have q: "q \<in> held s h" using R(2) Sect by auto
    have "mach_inv n (to h (SAct op q ks) s)" if "passes op (procs (ptab s) q)"
      by (rule mach_inv_goto [OF inv run]) (use Sect R(2,3,4) q that in \<open>cases op; simp add: fs\<close>)+
    moreover have "mach_inv n (to h (SEnd q ks) s)"
      by (rule mach_inv_goto [OF inv run]) (use Sect R(2,3) q in \<open>cases op; simp add: fs\<close>)+
    ultimately show ?thesis using Sect by (simp add: sect_step_def)
  next
    case (SAct op q ks)
    have q: "q \<in> held s h" and ps: "passes op (procs (ptab s) q)" using R(4,8) SAct by (simp_all add: fact_def)
    show ?thesis
    proof (cases op)
      case (Alloc m)
      have "newp s p \<noteq> Some q" for p using I(7) [of p q] ps Alloc by auto
      then have "mach_inv n (to h (SNew q ks) (upd_entry q (sect_act (Alloc m)) s))"
        by (intro mach_inv_entry [OF inv run refl]) (use SAct Alloc R(2,3) q ps in \<open>auto simp: fs upd_entry_def upd_proc_def\<close>)
      then show ?thesis using SAct Alloc by (simp add: sect_step_def)
    next
      case Ready
      then have "cproc s h = Some (cpos s h)" using R(3) SAct by simp
      then show ?thesis using mach_inv_ready [OF inv run, of q ks] SAct Ready by (simp add: sect_step_def)
    next
      case Reap
      have "mach_inv n (to h (SEnd q ks) s)"
        by (rule mach_inv_goto [OF inv run]) (use SAct Reap R(2,3) q in \<open>auto simp: fs\<close>)
      then show ?thesis using mach_inv_act [OF inv run SAct] SAct Reap by (simp add: sect_step_def)
    qed (use mach_inv_act [OF inv run SAct] SAct in \<open>auto simp: sect_step_def\<close>)
  next
    case (SNew q ks)
    have q: "q \<in> held s h" using R(8) SNew by simp
    have f: "mach_inv n (to h (SEnd q ks) (upd_entry q freed s))"
      by (rule mach_inv_entry [OF inv run refl]) (use SNew R(2,3,4) q in \<open>auto simp: fs upd_entry_def upd_proc_def freed_def\<close>)
    have "cproc s h = Some (cpos s h)" using R(3) SNew by simp
    then show ?thesis using f mach_inv_new [OF inv run SNew] SNew by (simp add: sect_step_def)
  next
    case (SEnd q ks)
    have "mach_inv n (to h (KRun ks) (drop_lock h q s))"
      by (rule mach_inv_drop [OF inv run]) (use SEnd R(2,3,8) in \<open>auto simp: fs drop_lock_def\<close>)
    then show ?thesis using SEnd by (simp add: sect_step_def)
  qed (use c in simp_all)
qed

lemma mach_inv_step: "mstep n calm s l s' \<Longrightarrow> mach_inv n s \<Longrightarrow> n = 1 \<or> calm \<Longrightarrow> mach_inv n s'"
proof (induction rule: mstep.induct)
  case (step_lock h s)
  have "lock_inv n (lsys s)" using mach_invD(1) [OF step_lock(4)] by (simp add: lock_ok_def)
  then show ?case using mach_inv_lock no_intrusion step_lock by blast
next
  case (step_interrupt s h)
  note R = running_ok [OF step_interrupt(4,1)]
  show ?case
    by (rule mach_inv_cpu [OF step_interrupt(4,1)])
      (use step_interrupt(2) R(2,3) in \<open>auto simp: same_claim_def fact_def to_def set_cpu_def intr_off_def\<close>)
next
  case (step_sret s h)
  note R = running_ok [OF step_sret(5,1)]
  show ?case
    by (rule mach_inv_cpu [OF step_sret(5,1)])
      (use step_sret(2-4) R(2,3) in \<open>auto simp: same_claim_def fact_def to_def set_cpu_def intr_on_def\<close>)
next
  case (step_sie s h ks b)
  note R = running_ok [OF step_sie(4,1)]
  have "mach_inv n (to h (ctl s h) (set_cpu h (\<lambda>c. c\<lparr>sie := b\<rparr>) s))"
    by (rule mach_inv_cpu [OF step_sie(4,1)])
      (use step_sie(2,3) R(2,3) in \<open>auto simp: same_claim_def fact_def to_def set_cpu_def\<close>)
  then show ?case by (simp add: to_def set_cpu_def fun_upd_idem)
next
  case (step_take s h k)
  note R = running_ok [OF step_take(4,1)]
  have "mach_inv n (to h (ctl s h) (take_lock h (olock k) s))"
    by (rule mach_inv_take [OF step_take(4,1)])
      (use step_take(2,3) R(2,3,4,8) in \<open>cases "ctl s h"; auto simp: same_claim_def fact_def to_def take_lock_def olock_def\<close>)+
  then show ?case by (simp add: to_def take_lock_def fun_upd_idem)
next
  case (step_drop s h k)
  note R = running_ok [OF step_drop(4,1)]
  have "mach_inv n (to h (ctl s h) (drop_lock h (olock k) s))"
    by (rule mach_inv_drop [OF step_drop(4,1)])
      (use step_drop(2,3) R(2,3,4,8) in \<open>cases "ctl s h"; auto simp: same_claim_def fact_def to_def drop_lock_def olock_def\<close>)+
  then show ?case by (simp add: to_def drop_lock_def fun_upd_idem)
next
  case (step_retake s h k ks)
  note R = running_ok [OF step_retake(4,1)]
  show ?case
    by (rule mach_inv_take [OF step_retake(4,1)])
      (use step_retake(2,3) R(2,3) in \<open>auto simp: same_claim_def fact_def to_def take_lock_def olock_def\<close>)
next
  case (step_yield s h ks p)
  note R = running_ok [OF step_yield(5,1)]
  have "mach_inv n (to h (PYield ks) (take_lock h p s))"
    by (rule mach_inv_take [OF step_yield(5,1)])
      (use step_yield(2-4) R(2,3) in \<open>auto simp: same_claim_def fact_def to_def take_lock_def\<close>)
  then show ?case using step_yield(2) by (simp add: yield_def)
next
  case (step_sleep s h ks p k ch)
  note R = running_ok [OF step_sleep(5,1)]
  have "mach_inv n (to h (PSleep ch k ks) (take_lock h p s))"
    by (rule mach_inv_take [OF step_sleep(5,1)])
      (use step_sleep(2-4) R(1,2,3) in \<open>auto simp: same_claim_def fact_def to_def take_lock_def\<close>)
  then show ?case using step_sleep(2) by (simp add: sleep_def)
next
  case (step_exit s h p status)
  note R = running_ok [OF step_exit(6,1)]
  have "mach_inv n (to h (PExit status) (take_lock h p s))"
    by (rule mach_inv_take [OF step_exit(6,1)])
      (use step_exit(2-4) R(1,2,3) in \<open>auto simp: same_claim_def fact_def to_def take_lock_def\<close>)
  then show ?case using step_exit(2) by (simp add: exit_switch_def)
next
  case (step_enter s h ks q op)
  note R = running_ok [OF step_enter(5,1)]
  have L: "insert q (held s h) \<inter> {..<NPROC} = {q}" "q \<notin> held s h" using R(2) step_enter(2,3) by auto
  have me: "by_sect op (cpos s h) (cproc s h)" "op = Ready \<Longrightarrow> newp s (cpos s h) = Some q"
    using step_enter(2,4) R(3) by (cases op; auto)+
  have f: "fact (to h (Sect op q ks) (take_lock h q s)) h" using me(2) by (cases op) (simp_all add: fact_def to_def take_lock_def)
  show ?case
    by (rule mach_inv_take [OF step_enter(5,1) _ _ _ _ _ f]) (use step_enter(2) L me(1) in \<open>simp_all add: same_claim_def\<close>)
qed (use mach_inv_scheduler mach_inv_process mach_inv_sect mach_inv_env in blast)+

lemma mach_inv_run: "mrun n calm s ls s' \<Longrightarrow> mach_inv n s \<Longrightarrow> n = 1 \<or> calm \<Longrightarrow> mach_inv n s'"
  by (induction rule: mrun.induct) (auto dest: mach_inv_step)

lemma mach_inv_boot:
  assumes "\<And>p. pstate (procs t p) \<noteq> RUNNING"
  shows "mach_inv n (boot_machine names t)"
proof -
  have "lock_ok n (boot_system names)" using lock_inv_boot by (simp add: lock_ok_def quiet_def boot_system_def)
  then show ?thesis
    using assms NPROC_pos
    by (simp add: mach_inv_def boot_machine_def ctl_ok_def fact_def pend_def acquiring_def states_ok_def runp_def curp_def
        claims_ok_def newp_ok_def saved_ok_def boot_system_def)
qed

end
