(* ===== verification/Sched_Props.thy ===== *)
theory Sched_Props
  imports Sched_Inv
begin

text \<open>
  What the scheduler promises: a process runs on one hart at a time, no test of \<^verbatim>\<open>sched\<close> fails, and every process that can run is
  switched to in its turn; and how the sections of \<open>Sched\<close> relate to the operations of \<open>Proc\<close>.
\<close>

section \<open>Fairness\<close>

fun hart_of :: "label \<Rightarrow> nat option" where
  "hart_of (Visit h) = Some h" | "hart_of (Act h) = Some h" | "hart_of Env = None"

text \<open>How many visits to an entry of the table, and how many steps of any kind, a hart makes in a run.\<close>

definition visits :: "nat \<Rightarrow> label list \<Rightarrow> nat" where
  "visits h ls = length (filter (\<lambda>l. l = Visit h) ls)"

definition steps :: "nat \<Rightarrow> label list \<Rightarrow> nat" where
  "steps h ls = length (filter (\<lambda>l. hart_of l = Some h) ls)"

lemma lock_other:
  "h' \<noteq> h \<Longrightarrow> lpc (begin_acquire h l ls) h' = lpc ls h'" "h' \<noteq> h \<Longrightarrow> lpc (begin_release h l ls) h' = lpc ls h'"
  by (simp_all add: begin_acquire_def begin_release_def lock_upd_simps)

definition same_hart :: "nat \<Rightarrow> machine \<Rightarrow> machine \<Rightarrow> bool" where
  "same_hart h s s' \<longleftrightarrow> ctl s' h = ctl s h \<and> cpos s' h = cpos s h \<and> cproc s' h = cproc s h \<and> lpc (lsys s') h = lpc (lsys s) h"

lemma same_hart_simps:
  "same_hart h s s" "same_hart h s (upd_entry q g t) = same_hart h s t" "same_hart h s (t\<lparr>ptab := tb\<rparr>) = same_hart h s t"
  "same_hart h s (t\<lparr>saved := z\<rparr>) = same_hart h s t" "same_hart h s (t\<lparr>newp := w\<rparr>) = same_hart h s t"
  "h \<noteq> h' \<Longrightarrow> same_hart h s (to h' c t) = same_hart h s t" "h \<noteq> h' \<Longrightarrow> same_hart h s (take_lock h' l t) = same_hart h s t"
  "h \<noteq> h' \<Longrightarrow> same_hart h s (drop_lock h' l t) = same_hart h s t" "h \<noteq> h' \<Longrightarrow> same_hart h s (set_cpu h' f t) = same_hart h s t"
  "h \<noteq> h' \<Longrightarrow> same_hart h s (t\<lparr>cproc := (cproc t)(h' := x)\<rparr>) = same_hart h s t"
  "h \<noteq> h' \<Longrightarrow> same_hart h s (t\<lparr>cpos := (cpos t)(h' := y)\<rparr>) = same_hart h s t"
  "h \<noteq> h' \<Longrightarrow> same_hart h s (t\<lparr>lsys := lock_move h' (lsys t)\<rparr>) = same_hart h s t"
  by (simp_all add: same_hart_def to_def take_lock_def drop_lock_def set_cpu_def upd_entry_def lock_other lock_move_other)

lemma mstep_other: "mstep n calm s l s' \<Longrightarrow> hart_of l \<noteq> Some h \<Longrightarrow> same_hart h s s'"
proof (induction rule: mstep.induct)
  case (step_scheduler s h')
  then show ?case by (cases "ctl s h'") (simp_all add: scheduler_def same_hart_simps Let_def)
next
  case (step_process s h' p)
  then show ?case
    by (cases "ctl s h'") (auto simp: process_step_def resume_def yield_def sleep_def exit_switch_def sched_def or_panic_def same_hart_simps Let_def
      split: option.split prod.split leave.split sum.split fault.split)
next
  case (step_sect s h' ok)
  then show ?case
    by (cases "ctl s h'") (simp_all add: sect_step_def same_hart_simps split: sect.split)
qed (simp_all add: scheduler_def yield_def sleep_def exit_switch_def same_hart_simps Let_def)

text \<open>
  The position of the next visit: the current one, or the one after the process that the hart has chosen.
\<close>

definition next_pos :: "machine \<Rightarrow> nat \<Rightarrow> nat" where
  "next_pos s h =
    (if ctl s h \<in> {SChosen, SMarked, SBack, SDone} \<or> cproc s h \<noteq> None then Suc (cpos s h) mod NPROC else cpos s h)"

lemma same_hart_next: "same_hart h s s' \<Longrightarrow> next_pos s' h = next_pos s h"
  by (simp add: same_hart_def next_pos_def)

lemma next_pos_process:
  assumes "cproc s h = Some p" "cproc s' h = Some p" "cpos s' h = cpos s h"
  shows "next_pos s' h = next_pos s h"
  using assms by (simp add: next_pos_def)

lemma process_step_keeps: "cproc (process_step h p s) = cproc s" "cpos (process_step h p s) = cpos s"
proof -
  have r: "cproc (resume h p s) = cproc s \<and> cpos (resume h p s) = cpos s"
    by (simp add: resume_def to_def drop_lock_def set_cpu_def Let_def split: option.split prod.split leave.split)
  have "cproc (or_panic h s (sched h lv ks s)) = cproc s \<and> cpos (or_panic h s (sched h lv ks s)) = cpos s" for lv ks
    by (auto simp: or_panic_def sched_def to_def Let_def sched_checks_def split: option.split)
  then show "cproc (process_step h p s) = cproc s" "cpos (process_step h p s) = cpos s"
    using r by (simp_all add: process_step_def yield_def sleep_def exit_switch_def to_def take_lock_def drop_lock_def upd_entry_def split: ctl.split)
qed

lemma sect_step_keeps: "cproc (sect_step ok h s) = cproc s \<and> cpos (sect_step ok h s) = cpos s"
  by (simp add: sect_step_def to_def drop_lock_def upd_entry_def split: ctl.split sect.split)

lemma sect_step_ctl: "in_sect (ctl s h) \<Longrightarrow> ctl (sect_step ok h s) h \<notin> {SChosen, SMarked, SBack, SDone}"
  by (cases "ctl s h") (simp_all add: sect_step_def to_def split: sect.split)

lemma next_pos_scheduler:
  assumes inv: "mach_inv n s" and run: "running n s h" and c: "scheduling (ctl s h)"
  shows "next_pos (scheduler h s) h = next_pos s h"
  using running_ok(3) [OF inv run] c
  by (cases "ctl s h") (simp_all add: scheduling_def scheduler_def next_pos_def to_def take_lock_def drop_lock_def set_cpu_def upd_entry_def Let_def)

lemma next_pos_own:
  assumes "mstep n calm s l s'" "mach_inv n s" "hart_of l = Some h"
  shows "next_pos s' h = (if l = Visit h then Suc (next_pos s h) mod NPROC else next_pos s h)"
  using assms
proof (induction rule: mstep.induct)
  case (step_scheduler s h')
  then show ?case using next_pos_scheduler by simp
next
  case (step_visit s h')
  then show ?case using running_ok(3) [OF step_visit(3,1)] by (simp add: scheduler_def next_pos_def to_def Let_def)
next
  case (step_interrupt s h')
  then show ?case using running_ok(3) [OF step_interrupt(4,1)] by (simp add: next_pos_def to_def set_cpu_def)
next
  case (step_process s h' p)
  then have "h' = h" by simp
  then show ?case using next_pos_process [of s h p "process_step h p s"] step_process(3) by (simp add: process_step_keeps)
next
  case (step_sect s h' ok)
  then have h: "h' = h" and c: "ctl s h \<notin> {SChosen, SMarked, SBack, SDone}" by auto
  then show ?case using sect_step_ctl [of s h ok] step_sect(2) sect_step_keeps [of ok h s] by (simp add: next_pos_def)
qed (auto simp: next_pos_def to_def set_cpu_def take_lock_def drop_lock_def yield_def sleep_def exit_switch_def)

lemma next_pos_step:
  assumes "mstep n calm s l s'" "mach_inv n s"
  shows "next_pos s' h = (if l = Visit h then Suc (next_pos s h) mod NPROC else next_pos s h)"
proof (cases "hart_of l = Some h")
  case True
  then show ?thesis by (rule next_pos_own [OF assms])
next
  case False
  then show ?thesis using same_hart_next [OF mstep_other [OF assms(1)]] by auto
qed

text \<open>A hart that has chosen a process has nothing to do with locks until it switches.\<close>

definition sure :: "machine \<Rightarrow> bool" where
  "sure s \<longleftrightarrow> (\<forall>h. ctl s h \<in> {SChosen, SMarked} \<longrightarrow> lpc (lsys s) h = LRun)"

lemma process_step_ctl: "leaving (ctl s h) \<Longrightarrow> ctl (process_step h p s) h \<notin> {SChosen, SMarked}"
  by (cases "ctl s h") (auto simp: process_step_def resume_def yield_def sleep_def exit_switch_def or_panic_def sched_def to_def Let_def
    split: option.split prod.split leave.split sum.split fault.split)

lemma scheduler_sure:
  assumes "lpc (lsys s) h = LRun" "ctl (scheduler h s) h \<in> {SChosen, SMarked}"
  shows "lpc (lsys (scheduler h s)) h = LRun"
  using assms by (cases "ctl s h") (auto simp: scheduler_def to_def take_lock_def drop_lock_def set_cpu_def upd_entry_def Let_def split: if_splits)

lemma sure_own:
  assumes "mstep n calm s l s'" "sure s" "hart_of l = Some h" "ctl s' h \<in> {SChosen, SMarked}"
  shows "lpc (lsys s') h = LRun"
  using assms
proof (induction rule: mstep.induct)
  case (step_scheduler s h')
  then show ?case using scheduler_sure by (simp add: running_def)
next
  case (step_visit s h')
  then show ?case using scheduler_sure by (simp add: running_def)
next
  case (step_process s h' p)
  then show ?case using process_step_ctl by auto
next
  case (step_sect s h' ok)
  then show ?case using sect_step_ctl by auto
qed (auto simp: sure_def to_def set_cpu_def take_lock_def drop_lock_def yield_def sleep_def exit_switch_def)

lemma sure_step:
  assumes "mstep n calm s l s'" "sure s"
  shows "sure s'"
  unfolding sure_def
proof (intro allI impI)
  fix h assume c: "ctl s' h \<in> {SChosen, SMarked}"
  show "lpc (lsys s') h = LRun"
  proof (cases "hart_of l = Some h")
    case True
    then show ?thesis using sure_own [OF assms] c by blast
  next
    case False
    then show ?thesis using mstep_other [OF assms(1) False] assms(2) c by (auto simp: same_hart_def sure_def)
  qed
qed

text \<open>Only a scheduler that has chosen it takes a runnable process out of this state.\<close>

lemma process_step_st:
  assumes "q \<noteq> p \<or> stopped (ctl s h)"
  shows "st (process_step h p s) q = st s q"
proof -
  have "st (resume h p s) q = st s q"
    by (simp add: resume_def to_def drop_lock_def set_cpu_def sleep_done_def upd_proc_def Let_def split: option.split prod.split leave.split)
  moreover have "ptab (or_panic h s (sched h lv ks s)) = ptab s" for lv ks
    by (auto simp: or_panic_def sched_def to_def Let_def sched_checks_def split: option.split)
  ultimately show ?thesis
    using assms by (cases "ctl s h") (simp_all add: process_step_def yield_def sleep_def exit_switch_def to_def take_lock_def drop_lock_def
      upd_entry_def sleep_on_def upd_proc_def)
qed

lemma runs_state:
  assumes inv: "mach_inv n s" and c: "cproc s h = Some p" "\<not> stopped (ctl s h)" "h < n"
  shows "st s p = RUNNING"
proof -
  have "ctl s h \<noteq> SMarked" using mach_invD(2) [OF inv c(3)] c(1) by (auto simp: ctl_ok_def)
  then have "runp s h = Some p" using c by (simp add: runp_def curp_def)
  then show ?thesis using mach_invD(5) [OF inv] by blast
qed

lemma sect_step_st:
  assumes inv: "mach_inv n s" and run: "running n s h" and c: "in_sect (ctl s h)" and p: "st s p = RUNNABLE"
  shows "st (sect_step ok h s) p = RUNNABLE"
proof -
  note F = running_ok(4) [OF inv run]
  show ?thesis
  proof (cases "ctl s h")
    case (SAct op q ks)
    then show ?thesis
      using F p by (cases op) (auto simp: fact_def sect_step_def to_def upd_entry_def upd_proc_def Let_def)
  qed (use c F p in \<open>auto simp: fact_def sect_step_def to_def upd_entry_def upd_proc_def drop_lock_def\<close>)
qed

lemma runnable_step:
  assumes "mstep n calm s l s'" "mach_inv n s" "st s p = RUNNABLE" "st s' p \<noteq> RUNNABLE"
  shows "\<exists>h. ctl s' h = SMarked \<and> cpos s' h = p"
  using assms
proof (induction rule: mstep.induct)
  case (step_scheduler s h)
  then show ?case
    by (cases "ctl s h") (auto simp: scheduler_def to_def take_lock_def drop_lock_def set_cpu_def upd_entry_def upd_proc_def Let_def split: if_splits)
next
  case (step_visit s h)
  then show ?case by (simp add: scheduler_def to_def)
next
  case (step_process s h q)
  have "st s q = RUNNING \<or> stopped (ctl s h)"
    using runs_state [OF step_process(4,3)] step_process(1) by (auto simp: running_def)
  then have "st (process_step h q s) p = st s p" using process_step_st [of p q s h] step_process(5) by (cases "p = q") auto
  then show ?case using step_process(5,6) by simp
next
  case (step_sect s h ok)
  then show ?case using sect_step_st by blast
next
  case (step_env s t)
  then show ?case by (simp add: same_sched_def)
qed (auto simp: to_def set_cpu_def take_lock_def drop_lock_def yield_def sleep_def exit_switch_def)

section \<open>Runs\<close>

lemma mrun_append: "mrun n calm s ls t \<Longrightarrow> mrun n calm t ls' u \<Longrightarrow> mrun n calm s (ls @ ls') u"
  by (induction rule: mrun.induct) (auto intro: run_step)

lemma mrun_split: "mrun n calm s (ls @ ls') u \<Longrightarrow> \<exists>t. mrun n calm s ls t \<and> mrun n calm t ls' u"
proof (induction ls arbitrary: s)
  case (Cons l ls)
  then obtain s1 where "mstep n calm s l s1" "mrun n calm s1 (ls @ ls') u" using mrun_ConsE by (metis append_Cons)
  then show ?case using Cons.IH run_step by metis
qed (auto intro: run_refl)

lemma sure_run: "mrun n calm s ls u \<Longrightarrow> sure s \<Longrightarrow> sure u"
  by (induction rule: mrun.induct) (auto dest: sure_step)

lemma visits_hart: "mrun n calm s ls u \<Longrightarrow> 0 < visits h ls \<Longrightarrow> h < n"
  by (induction rule: mrun.induct) (auto simp: visits_def running_def elim: mstep.cases split: if_splits)

text \<open>A run passes through a state with some property.\<close>

definition passes_through :: "nat \<Rightarrow> bool \<Rightarrow> machine \<Rightarrow> label list \<Rightarrow> (machine \<Rightarrow> bool) \<Rightarrow> machine \<Rightarrow> bool" where
  "passes_through n calm s ls P u \<longleftrightarrow> (\<exists>ls1 ls2 t. ls = ls1 @ ls2 \<and> mrun n calm s ls1 t \<and> P t \<and> mrun n calm t ls2 u)"

lemma passes_here: "mrun n calm s ls u \<Longrightarrow> P s \<Longrightarrow> passes_through n calm s ls P u"
  unfolding passes_through_def by (intro exI [of _ "[]"] exI [of _ ls] exI [of _ s]) (auto intro: run_refl)

lemma passes_later: "mstep n calm s l s1 \<Longrightarrow> passes_through n calm s1 ls P u \<Longrightarrow> passes_through n calm s (l # ls) P u"
  unfolding passes_through_def by (metis append_Cons run_step)

lemma own_step:
  assumes "mstep n calm s l s'" "hart_of l = Some h" "sure s" "ctl s h \<in> {SChosen, SMarked}"
  shows "s' = scheduler h s"
  using assms by (induction rule: mstep.induct) (auto simp: sure_def)

lemma chosen_run:
  assumes "mrun n calm s ls u" "sure s" "ctl s h = SChosen \<and> 2 \<le> steps h ls \<or> ctl s h = SMarked \<and> 1 \<le> steps h ls" "cpos s h = p"
  shows "passes_through n calm s ls (\<lambda>t. cproc t h = Some p \<and> ctl t h = PBack) u"
  using assms
proof (induction ls arbitrary: s)
  case Nil
  then show ?case by (auto simp: steps_def)
next
  case (Cons l ls)
  obtain s1 where s1: "mstep n calm s l s1" "mrun n calm s1 ls u" using mrun_ConsE [OF Cons(2)] by blast
  have sure1: "sure s1" by (rule sure_step [OF s1(1) Cons(3)])
  show ?case
  proof (cases "hart_of l = Some h")
    case False
    then have "same_hart h s s1" by (rule mstep_other [OF s1(1)])
    then show ?thesis using Cons.IH [OF s1(2) sure1] Cons(4,5) False
      by (intro passes_later [OF s1(1)]) (auto simp: same_hart_def steps_def)
  next
    case True
    have s1': "s1 = scheduler h s" by (rule own_step [OF s1(1) True Cons(3)]) (use Cons(4) in auto)
    show ?thesis
    proof (cases "ctl s h = SChosen")
      case c: True
      then have "ctl s1 h = SMarked" "cpos s1 h = p" using Cons(5) by (simp_all add: s1' scheduler_def to_def upd_entry_def)
      then show ?thesis using Cons.IH [OF s1(2) sure1] Cons(4) True c
        by (intro passes_later [OF s1(1)]) (simp add: steps_def)
    next
      case False
      then have "ctl s1 h = PBack" "cproc s1 h = Some p" using Cons(4,5) by (auto simp: s1' scheduler_def to_def)
      then show ?thesis by (intro passes_later [OF s1(1)] passes_here [OF s1(2)]) simp
    qed
  qed
qed

lemma choice_run:
  assumes "mrun n calm s ls u" "mach_inv n s" "n = 1 \<or> calm" "st s p = RUNNABLE" "k < NPROC" "(next_pos s h + k) mod NPROC = p" "k < visits h ls"
  shows "passes_through n calm s ls (\<lambda>t. \<exists>h'. ctl t h' \<in> {SChosen, SMarked} \<and> cpos t h' = p) u"
  using assms
proof (induction ls arbitrary: s k)
  case Nil
  then show ?case by (simp add: visits_def)
next
  case (Cons l ls)
  obtain s1 where s1: "mstep n calm s l s1" "mrun n calm s1 ls u" using mrun_ConsE [OF Cons(2)] by blast
  have inv1: "mach_inv n s1" by (rule mach_inv_step [OF s1(1) Cons(3,4)])
  have np: "next_pos s1 h = (if l = Visit h then Suc (next_pos s h) mod NPROC else next_pos s h)"
    by (rule next_pos_step [OF s1(1) Cons(3)])
  note here = passes_later [OF s1(1) passes_here [OF s1(2)]] and later = passes_later [OF s1(1) Cons.IH [OF s1(2) inv1 Cons(4)]]
  show ?case
  proof (cases "st s1 p = RUNNABLE")
    case False
    then show ?thesis using runnable_step [OF s1(1) Cons(3,5)] by (intro here) auto
  next
    case st1: True
    show ?thesis
    proof (cases "l = Visit h")
      case False
      show ?thesis by (rule later [OF st1 Cons(6)]) (use Cons(7,8) np False in \<open>auto simp: visits_def\<close>)
    next
      case v: True
      show ?thesis
      proof (cases k)
        case 0
        have w: "ctl s h = STest" "s1 = scheduler h s" "running n s h"
          using s1(1) v by (auto elim: mstep.cases)
        then have "next_pos s h = cpos s h" using running_ok(3) [OF Cons(3) w(3)] by (simp add: next_pos_def)
        then have "cpos s h = p" using Cons(7) 0 running_ok(1) [OF Cons(3) w(3)] by simp
        then have "ctl s1 h = SChosen \<and> cpos s1 h = p" using w(1,2) Cons(5) by (simp add: scheduler_def to_def)
        then show ?thesis by (intro here) auto
      next
        case (Suc k')
        have "(next_pos s1 h + k') mod NPROC = p" using Cons(7) np v Suc by (simp add: mod_simps)
        then show ?thesis by (intro later [OF st1, of k']) (use Cons(6,8) Suc v in \<open>auto simp: visits_def\<close>)
      qed
    qed
  qed
qed

lemma reach_distance:
  assumes "p < NPROC" "a < NPROC"
  obtains k where "k < NPROC" "(a + k) mod NPROC = p"
proof (cases "a \<le> p")
  case True
  then show ?thesis using that [of "p - a"] assms by simp
next
  case False
  then show ?thesis using that [of "NPROC - a + p"] assms by simp
qed

section \<open>Sections and operations\<close>

text \<open>
  The operations of \<open>Proc\<close> are sequences of the sections: \<^verbatim>\<open>wakeup\<close> runs its section on every entry but the current process,
  \<^verbatim>\<open>kill\<close> on the first entry that passes, \<^verbatim>\<open>freeproc\<close> and \<^verbatim>\<open>sleep\<close> make the assignments of the machine's steps.
\<close>

lemma wakeup_sections:
  "procs (wakeup me ch t) q =
    (if q < NPROC \<and> me \<noteq> Some q \<and> passes (Wakeup ch) (procs t q) then sect_act (Wakeup ch) (procs t q) else procs t q)"
  by (auto simp: wakeup_def Let_def)

lemma kill_section:
  "kill m t =
    (case find (\<lambda>i. passes (Kill m) (procs t i)) [0..<NPROC] of
       None \<Rightarrow> (t, - 1) | Some i \<Rightarrow> (upd_proc i (sect_act (Kill m)) t, 0))"
  by (simp add: kill_def fun_eq_iff upd_proc_def split: option.split)

lemma freeproc_section:
  assumes "freeproc ks i t = Inr t'"
  shows "procs t' = (procs t)(i := freed (procs t i))"
  using assms by (auto simp: freeproc_def freed_def upd_proc_def Let_def fun_eq_iff split: if_splits)

lemma allocproc_section:
  assumes "allocproc ks t = Inr (t', Some i)"
  shows "i < NPROC \<and> passes (Alloc (nextpid t)) (procs t i) \<and> core (procs t' i) = core (sect_act (Alloc (nextpid t)) (procs t i)) \<and>
    (\<forall>j. j \<noteq> i \<longrightarrow> procs t' j = procs t j)"
  using assms
  by (auto simp: allocproc_def allocpid_def Let_def core_def upd_proc_def find_Some_iff split: option.splits prod.splits if_splits)

section \<open>Properties\<close>


text \<open>A hart that no other disturbs takes a free lock.\<close>

definition alone :: "nat \<Rightarrow> lock_system \<Rightarrow> bool" where
  "alone h ls \<longleftrightarrow> (\<forall>h'. h' \<noteq> h \<longrightarrow> lpc ls h' = LRun)"

lemma alone_move: "alone h ls \<Longrightarrow> alone h (lock_move h ls)"
  using lock_move_other by (simp add: alone_def)

lemma lock_moves_run:
  assumes "h < n" "alone h (lsys s)" "\<And>j. j < k \<Longrightarrow> lpc ((lock_move h ^^ j) (lsys s)) h \<noteq> LRun"
  shows "mrun n calm s (replicate k (Act h)) (s\<lparr>lsys := (lock_move h ^^ k) (lsys s)\<rparr>)"
  using assms(2,3)
proof (induction k arbitrary: s)
  case (Suc k)
  have "\<not> intrudes h (lsys s)" using Suc.prems(1) by (auto simp: alone_def intrudes_def)
  then have st: "mstep n calm s (Act h) (s\<lparr>lsys := lock_move h (lsys s)\<rparr>)"
    using assms(1) Suc.prems(2) [of 0] by (intro step_lock) auto
  have "mrun n calm (s\<lparr>lsys := lock_move h (lsys s)\<rparr>) (replicate k (Act h)) (s\<lparr>lsys := (lock_move h ^^ Suc k) (lsys s)\<rparr>)"
    using Suc.IH [of "s\<lparr>lsys := lock_move h (lsys s)\<rparr>"] Suc.prems alone_move
    by (simp add: funpow_swap1) (metis Suc_less_eq funpow_swap1 funpow_simps_right(2) comp_apply)
  then show ?case using run_step [OF st] by simp
qed (simp add: run_refl)

lemma take_run:
  assumes "running n s h" "alone h (lsys s)" "locks (lsys s) l = initlock nm"
  shows "mrun n calm (take_lock h l s) (replicate 4 (Act h)) (s\<lparr>lsys := (lock_move h ^^ 4) (begin_acquire h l (lsys s))\<rparr>)"
proof -
  have al: "alone h (begin_acquire h l (lsys s))" using assms(2) by (simp add: alone_def begin_acquire_def lock_upd_simps)
  have "lpc ((lock_move h ^^ j) (begin_acquire h l (lsys s))) h \<noteq> LRun" if "j < 4" for j
    using that assms(3) by (auto simp: numeral_eq_Suc less_Suc_eq lock_move_def begin_acquire_def lock_upd_simps holding_def initlock_def)
  then have "mrun n calm (take_lock h l s) (replicate 4 (Act h)) ((take_lock h l s)\<lparr>lsys := (lock_move h ^^ 4) (lsys (take_lock h l s))\<rparr>)"
    using assms(1) al by (intro lock_moves_run) (simp_all add: running_def take_lock_def)
  then show ?thesis by (simp add: take_lock_def)
qed

lemma drop_run:
  assumes "running n s h" "alone h (lsys s)" "holding h (locks (lsys s) l)" "1 \<le> noff (cpus (lsys s) h)" "\<not> sie (cpus (lsys s) h)"
  shows "mrun n calm (drop_lock h l s) (replicate 3 (Act h)) (s\<lparr>lsys := (lock_move h ^^ 3) (begin_release h l (lsys s))\<rparr>)"
proof -
  have al: "alone h (begin_release h l (lsys s))" using assms(2) by (simp add: alone_def begin_release_def lock_upd_simps)
  have "lpc ((lock_move h ^^ j) (begin_release h l (lsys s))) h \<noteq> LRun" if "j < 3" for j
    using that assms(3) by (auto simp: numeral_eq_Suc less_Suc_eq lock_move_def begin_release_def lock_upd_simps)
  then have "mrun n calm (drop_lock h l s) (replicate 3 (Act h)) ((drop_lock h l s)\<lparr>lsys := (lock_move h ^^ 3) (lsys (drop_lock h l s))\<rparr>)"
    using assms(1) al by (intro lock_moves_run) (simp_all add: running_def drop_lock_def)
  then show ?thesis by (simp add: drop_lock_def)
qed

text \<open>The scheduler of a hart is at entry \<open>c\<close> of the table, and no lock is taken.\<close>

definition idle_at :: "nat \<Rightarrow> (nat \<Rightarrow> string) \<Rightarrow> ptable \<Rightarrow> nat \<Rightarrow> nat \<Rightarrow> machine \<Rightarrow> bool" where
  "idle_at n names t h c s \<longleftrightarrow> running n s h \<and> alone h (lsys s) \<and> ctl s h = SLoop \<and> cpos s h = c \<and> ptab s = t \<and>
    (\<forall>l. locks (lsys s) l = initlock (names l)) \<and> 0 \<le> noff (cpus (lsys s) h) \<and> (0 < noff (cpus (lsys s) h) \<longrightarrow> \<not> sie (cpus (lsys s) h))"

lemma idle_boot:
  assumes "h < n"
  shows "\<exists>s. mrun n calm (boot_machine names t) [Act h] s \<and> idle_at n names t h 0 s"
proof (intro exI conjI)
  let ?b = "boot_machine names t"
  show "mrun n calm ?b [Act h] (scheduler h ?b)"
    by (rule run_step [OF step_scheduler run_refl]) (use assms in \<open>simp_all add: running_def scheduling_def boot_machine_def boot_system_def\<close>)
  show "idle_at n names t h 0 (scheduler h ?b)"
    using assms by (simp add: idle_at_def running_def alone_def scheduler_def boot_machine_def boot_system_def to_def set_cpu_def intr_on_def)
qed

lemma visit_run:
  assumes i: "idle_at n names t h c s"
  defines "u \<equiv> s\<lparr>ctl := (ctl s)(h := if pstate (procs t c) = RUNNABLE then SChosen else SDone),
      lsys := (lock_move h ^^ 4) (begin_acquire h c (lsys s))\<rparr>"
  shows "mrun n calm s (replicate 5 (Act h) @ [Visit h]) u \<and> running n u h \<and> alone h (lsys u)"
proof -
  let ?s = "to h STest s" and ?v = "s\<lparr>ctl := (ctl s)(h := STest), lsys := (lock_move h ^^ 4) (begin_acquire h c (lsys s))\<rparr>"
  have i': "running n s h" "alone h (lsys s)" "ctl s h = SLoop" "cpos s h = c" "ptab s = t" "locks (lsys s) c = initlock (names c)"
    "0 \<le> noff (cpus (lsys s) h)" "0 < noff (cpus (lsys s) h) \<Longrightarrow> \<not> sie (cpus (lsys s) h)" using i by (simp_all add: idle_at_def)
  have lp: "lpc ((lock_move h ^^ 4) (begin_acquire h c (lsys s))) h = LRun"
    using lock_unlock_restores [of "lsys s" h c "names c"] i' by (simp add: running_def)
  have al: "alone h ((lock_move h ^^ k) (begin_acquire h c (lsys s)))" for k
    by (induction k) (use i'(2) alone_move in \<open>auto simp: alone_def begin_acquire_def lock_upd_simps\<close>)
  then have ra: "running n u h" "alone h (lsys u)" using lp i'(1) by (simp_all add: u_def running_def)
  have "mstep n calm s (Act h) (to h STest (take_lock h c s))"
    using step_scheduler [of n s h calm] i' by (simp add: scheduler_def scheduling_def)
  moreover have "to h STest (take_lock h c s) = take_lock h c ?s" by (simp add: to_def take_lock_def)
  moreover have "mrun n calm (take_lock h c ?s) (replicate 4 (Act h)) ?v"
    using take_run [of n ?s h c "names c" calm] i' by (simp add: running_def to_def)
  moreover have "mstep n calm ?v (Visit h) (scheduler h ?v)"
    by (rule step_visit) (use i'(1) lp in \<open>simp_all add: running_def\<close>)
  moreover have "scheduler h ?v = u" using i'(4,5) by (simp add: scheduler_def to_def u_def)
  ultimately have "mrun n calm s ((Act h # replicate 4 (Act h)) @ [Visit h]) u"
    by (metis mrun_append run_step run_refl)
  then show ?thesis using ra by (simp add: numeral_eq_Suc)
qed

lemma visit_choice:
  assumes "idle_at n names t h c s" "pstate (procs t c) = RUNNABLE"
  shows "\<exists>u. mrun n calm s (replicate 5 (Act h) @ [Visit h]) u \<and> running n u h \<and> ctl u h = SChosen \<and> cpos u h = c"
  using visit_run [OF assms(1), of calm] assms by (intro exI conjI) (auto simp: idle_at_def)

lemma idle_run:
  assumes i: "idle_at n names t h c s" and c: "pstate (procs t c) \<noteq> RUNNABLE" "Suc c < NPROC"
  shows "\<exists>u ls. mrun n calm s ls u \<and> visits h ls = 1 \<and> idle_at n names t h (Suc c) u"
proof -
  define v where "v = s\<lparr>ctl := (ctl s)(h := SDone), lsys := (lock_move h ^^ 4) (begin_acquire h c (lsys s))\<rparr>"
  define w where "w = s\<lparr>ctl := (ctl s)(h := SLoop), cpos := (cpos s)(h := Suc c), lsys := lsys v\<rparr>"
  define u where "u = w\<lparr>lsys := (lock_move h ^^ 3) (begin_release h c (lsys v))\<rparr>"
  have v: "mrun n calm s (replicate 5 (Act h) @ [Visit h]) v" "running n v h" "alone h (lsys v)"
    using visit_run [OF i, of calm] c(1) by (simp_all add: v_def)
  have i': "cpos s h = c" "locks (lsys s) c = initlock (names c)" "0 \<le> noff (cpus (lsys s) h)" "running n s h"
    "0 < noff (cpus (lsys s) h) \<Longrightarrow> \<not> sie (cpus (lsys s) h)" using i by (simp_all add: idle_at_def)
  have lu: "lsys u = (lock_move h ^^ 3) (begin_release h c ((lock_move h ^^ 4) (begin_acquire h c (lsys s))))"
    by (simp add: u_def v_def)
  have r: "lpc (lsys u) h = LRun" "locks (lsys u) = locks (lsys s)" "noff (cpus (lsys u) h) = noff (cpus (lsys s) h)"
    "sie (cpus (lsys u) h) = sie (cpus (lsys s) h)"
    using lock_unlock_restores [of "lsys s" h c "names c"] i' unfolding lu by (simp_all add: running_def)
  have t: "holding h (locks (lsys v) c)" "1 \<le> noff (cpus (lsys v) h)" "\<not> sie (cpus (lsys v) h)"
    using i'(2,3) by (simp_all add: v_def numeral_eq_Suc lock_move_def begin_acquire_def lock_upd_simps holding_def initlock_def push_off_fields)
  have "mstep n calm v (Act h) (scheduler h v)"
    by (rule step_scheduler [OF v(2)]) (simp add: v_def scheduling_def)
  moreover have "scheduler h v = drop_lock h c w"
    using i'(1) c(2) by (simp add: scheduler_def v_def w_def to_def drop_lock_def Let_def)
  moreover have "mrun n calm (drop_lock h c w) (replicate 3 (Act h)) u"
    using drop_run [of n w h c calm] v(2,3) t by (simp add: running_def w_def u_def)
  ultimately have "mrun n calm s ((replicate 5 (Act h) @ [Visit h]) @ Act h # replicate 3 (Act h)) u"
    using mrun_append [OF v(1)] run_step by metis
  moreover have "alone h (lsys u)"
  proof -
    have "alone h ((lock_move h ^^ k) (begin_release h c (lsys v)))" for k
      by (induction k) (use v(3) alone_move in \<open>auto simp: alone_def begin_release_def lock_upd_simps\<close>)
    then show ?thesis by (simp add: u_def)
  qed
  ultimately show ?thesis
    using i r i'(4) by (intro exI conjI) (auto simp: visits_def idle_at_def running_def u_def w_def)
qed

lemma idle_runs:
  assumes "idle_at n names t h 0 s" "\<And>q. q < c \<Longrightarrow> pstate (procs t q) \<noteq> RUNNABLE" "c < NPROC"
  shows "\<exists>u ls. mrun n calm s ls u \<and> visits h ls = c \<and> idle_at n names t h c u"
  using assms(2,3)
proof (induction c)
  case 0
  then show ?case using assms(1) run_refl by (metis length_0_conv list.size(3) visits_def filter.simps(1))
next
  case (Suc c)
  then obtain u ls where 1: "mrun n calm s ls u" "visits h ls = c" "idle_at n names t h c u" by auto
  obtain v ls' where 2: "mrun n calm u ls' v" "visits h ls' = 1" "idle_at n names t h (Suc c) v"
    using idle_run [OF 1(3)] Suc.prems by blast
  have "mrun n calm s (ls @ ls') v" by (rule mrun_append [OF 1(1) 2(1)])
  then show ?case using 1(2) 2(2,3) by (intro exI [of _ v] exI [of _ "ls @ ls'"]) (simp add: visits_def)
qed

lemma switch_run:
  assumes run: "running n s h" and c: "ctl s h = SChosen"
  shows "\<exists>u. mrun n calm s [Act h, Act h] u \<and> cproc u h = Some (cpos s h) \<and> st u (cpos s h) = RUNNING"
proof -
  let ?u = "scheduler h s"
  have 1: "mstep n calm s (Act h) ?u" by (rule step_scheduler [OF run]) (simp add: c scheduling_def)
  have u: "ctl ?u h = SMarked" "running n ?u h" "cpos ?u h = cpos s h" "st ?u (cpos s h) = RUNNING"
    using run c by (simp_all add: scheduler_def to_def upd_entry_def running_def upd_proc_def Let_def)
  have 2: "mstep n calm ?u (Act h) (scheduler h ?u)" by (rule step_scheduler [OF u(2)]) (simp add: u(1) scheduling_def)
  have "cproc (scheduler h ?u) h = Some (cpos s h)" "st (scheduler h ?u) (cpos s h) = RUNNING"
    using u by (simp_all add: scheduler_def [of h ?u] to_def)
  then show ?thesis using run_step [OF 1 run_step [OF 2 run_refl]] by blast
qed


text \<open>C8: The scheduler is fair. Let a process be runnable in a state that the harts reach, on one hart or in a calm run. When the
  scheduler of some hart then visits as many entries as there are process slots, and after that every hart takes two more steps, there is a
  point in between at which some hart has made the process its current one and has switched to it.\<close>

theorem scheduler_fair:
  assumes "mrun n calm (boot_machine names t) l0 s" and "n = 1 \<or> calm" and "\<And>q. pstate (procs t q) \<in> {UNUSED, RUNNABLE}"
    and "mrun n calm s (la @ lb) u" and "p < NPROC" and "st s p = RUNNABLE"
    and "NPROC \<le> visits h la" and "\<And>h'. h' < n \<Longrightarrow> 2 \<le> steps h' lb"
  shows "\<exists>l1 l2 v h'. la @ lb = l1 @ l2 \<and> mrun n calm s l1 v \<and> mrun n calm v l2 u \<and>
    cproc v h' = Some p \<and> ctl v h' = PBack \<and> st v p = RUNNING"
proof -
  have inv: "mach_inv n s"
    by (rule mach_inv_run [OF assms(1) mach_inv_boot assms(2)]) (use assms(3) in \<open>metis insertE procstate.distinct singletonD\<close>)
  note I = mach_invD [OF inv]
  have sure: "sure s" by (rule sure_run [OF assms(1)]) (simp add: sure_def boot_machine_def)
  obtain v0 where r: "mrun n calm s la v0" "mrun n calm v0 lb u" using mrun_split [OF assms(4)] by blast
  have "0 < n" using visits_hart [OF r(1), of h] assms(7) NPROC_pos by simp
  moreover have "h < n" using visits_hart [OF r(1), of h] assms(7) NPROC_pos by simp
  ultimately have "next_pos s h < NPROC" using I(2) [of h] NPROC_pos by (simp add: next_pos_def ctl_ok_def)
  then obtain k where k: "k < NPROC" "(next_pos s h + k) mod NPROC = p" using reach_distance [OF assms(5)] by blast
  obtain l1 l2 v h' where v: "la = l1 @ l2" "mrun n calm s l1 v" "ctl v h' \<in> {SChosen, SMarked}" "cpos v h' = p" "mrun n calm v l2 v0"
    using choice_run [OF r(1) inv assms(2,6) k] assms(7) k(1) by (auto simp: passes_through_def)
  have vinv: "mach_inv n v" "sure v" using mach_inv_run [OF v(2) inv assms(2)] sure_run [OF v(2) sure] by simp_all
  have "h' < n" using mach_invD(3) [OF vinv(1), of h'] v(3) by (cases "h' < n") auto
  then have "2 \<le> steps h' (l2 @ lb)" using assms(8) [of h'] by (simp add: steps_def)
  then obtain m1 m2 w where w: "l2 @ lb = m1 @ m2" "mrun n calm v m1 w" "cproc w h' = Some p \<and> ctl w h' = PBack" "mrun n calm w m2 u"
    using chosen_run [OF mrun_append [OF v(5) r(2)] vinv(2), of h' p] v(3,4) by (auto simp: passes_through_def)
  have "st w p = RUNNING"
    using runs_state [OF mach_inv_run [OF w(2) vinv(1) assms(2)], of h' p] w(3) \<open>h' < n\<close> by simp
  then show ?thesis
    using v(1,2) w mrun_append [OF v(2) w(2)]
    by (intro exI [of _ "l1 @ m1"] exI [of _ m2] exI [of _ w] exI [of _ h']) simp
qed

theorem scheduler_fair_witness:
  "\<exists>t s la lb u l1 l2 v h'. mrun 1 False (boot_machine (\<lambda>_. ''proc'') t) [Act 0] s \<and> st s 63 = RUNNABLE \<and> mrun 1 False s (la @ lb) u \<and>
    la @ lb = l1 @ l2 \<and> mrun 1 False s l1 v \<and> mrun 1 False v l2 u \<and> cproc v h' = Some 63 \<and> ctl v h' = PBack \<and> st v 63 = RUNNING"
proof -
  define t :: ptable where "t = undefined\<lparr>procs := (\<lambda>i. undefined\<lparr>pstate := (if i = 63 then RUNNABLE else UNUSED)\<rparr>)\<rparr>"
  have t: "pstate (procs t i) = (if i = 63 then RUNNABLE else UNUSED)" for i by (simp add: t_def)
  obtain s where s: "mrun 1 False (boot_machine (\<lambda>_. ''proc'') t) [Act 0] s" "idle_at 1 (\<lambda>_. ''proc'') t 0 0 s"
    using idle_boot [of 0 1 False "\<lambda>_. ''proc''" t] by auto
  obtain s1 ls where s1: "mrun 1 False s ls s1" "visits 0 ls = 63" "idle_at 1 (\<lambda>_. ''proc'') t 0 63 s1"
    using idle_runs [OF s(2), of 63 False] t by (auto simp: NPROC_def)
  let ?lv = "replicate 5 (Act 0) @ [Visit 0]"
  obtain u where u: "mrun 1 False s1 ?lv u" "running 1 u 0" "ctl u 0 = SChosen"
    using visit_choice [OF s1(3)] t by auto
  obtain w where w: "mrun 1 False u [Act 0, Act 0] w" using switch_run [OF u(2,3)] by blast
  have run: "mrun 1 False s ((ls @ ?lv) @ [Act 0, Act 0]) w" by (rule mrun_append [OF mrun_append [OF s1(1) u(1)] w])
  have "visits 0 (ls @ ?lv) = 64" using s1(2) by (simp add: visits_def)
  moreover have st: "st s 63 = RUNNABLE" using s(2) t by (simp add: idle_at_def)
  ultimately have "\<exists>l1 l2 v h'. (ls @ ?lv) @ [Act 0, Act 0] = l1 @ l2 \<and> mrun 1 False s l1 v \<and> mrun 1 False v l2 w \<and>
      cproc v h' = Some 63 \<and> ctl v h' = PBack \<and> st v 63 = RUNNING"
    using t by (intro scheduler_fair [OF s(1) _ _ run, of 63 0]) (auto simp: NPROC_def steps_def)
  then show ?thesis using s(1) st run by blast
qed

end
