(* ===== verification/Block.thy ===== *)
theory Block
  imports Prelude
begin

text \<open>
  Disk blocks. \<^verbatim>\<open>uchar data[BSIZE]\<close> is a total function on an index type with exactly \<^verbatim>\<open>BSIZE\<close> = 1024
  elements, so that two blocks are equal exactly when their bytes are. Structures on a block are
  read and written at byte offsets; rv32 is little-endian.
\<close>

type_synonym bdata = "10 word \<Rightarrow> u8"

definition BSIZE :: nat where "BSIZE = 1024"

definition getb :: "bdata \<Rightarrow> nat \<Rightarrow> u8" where
  "getb d i = d (of_nat i)"

definition putb :: "bdata \<Rightarrow> nat \<Rightarrow> u8 \<Rightarrow> bdata" where
  "putb d i v = d(of_nat i := v)"

lemma idx_inj: "i < 1024 \<Longrightarrow> j < 1024 \<Longrightarrow> (of_nat i :: 10 word) = of_nat j \<longleftrightarrow> i = j"
  by (auto simp: word_unat_eq_iff unat_of_nat)

lemma getb_putb: "i < 1024 \<Longrightarrow> j < 1024 \<Longrightarrow> getb (putb d i v) j = (if i = j then v else getb d j)"
  using idx_inj [of i j] by (auto simp: getb_def putb_def)

lemma block_eqI: "(\<And>i. i < 1024 \<Longrightarrow> getb d i = getb e i) \<Longrightarrow> d = e"
proof (rule ext)
  fix x :: "10 word"
  assume "\<And>i. i < 1024 \<Longrightarrow> getb d i = getb e i"
  moreover have "unat x < 1024" using unsigned_less [of x] by simp
  ultimately have "getb d (unat x) = getb e (unat x)" by blast
  then show "d x = e x" by (simp add: getb_def)
qed

text \<open>Words on a block.\<close>

definition ld32 :: "bdata \<Rightarrow> nat \<Rightarrow> u32" where
  "ld32 d i = le32 (getb d i) (getb d (i + 1)) (getb d (i + 2)) (getb d (i + 3))"

definition st32 :: "bdata \<Rightarrow> nat \<Rightarrow> u32 \<Rightarrow> bdata" where
  "st32 d i v = putb (putb (putb (putb d i (byte32 0 v)) (i + 1) (byte32 1 v)) (i + 2) (byte32 2 v))
    (i + 3) (byte32 3 v)"

definition ld16 :: "bdata \<Rightarrow> nat \<Rightarrow> u16" where
  "ld16 d i = ucast (getb d i) OR push_bit 8 (ucast (getb d (i + 1)))"

definition st16 :: "bdata \<Rightarrow> nat \<Rightarrow> u16 \<Rightarrow> bdata" where
  "st16 d i v = putb (putb d i (ucast v)) (i + 1) (ucast (drop_bit 8 v))"

lemma ld32_st32:
  assumes "i + 3 < 1024" "j + 3 < 1024"
  shows "ld32 (st32 d i v) i = v" "i + 3 < j \<or> j + 3 < i \<Longrightarrow> ld32 (st32 d i v) j = ld32 d j"
  using assms by (auto simp: ld32_def st32_def getb_putb le32_byte32)

lemma ld16_st16:
  assumes "i + 1 < 1024" "j + 1 < 1024"
  shows "ld16 (st16 d i v) i = v" "i + 1 < j \<or> j + 1 < i \<Longrightarrow> ld16 (st16 d i v) j = ld16 d j"
proof -
  have "ucast (ucast v :: u8) OR push_bit 8 (ucast (ucast (drop_bit 8 v) :: u8)) = v"
    by (rule bit_word_eqI) (auto simp: bit_or_iff bit_push_bit_iff bit_ucast_iff bit_drop_bit_eq)
  then show "ld16 (st16 d i v) i = v"
    using assms by (simp add: ld16_def st16_def getb_putb)
  show "i + 1 < j \<or> j + 1 < i \<Longrightarrow> ld16 (st16 d i v) j = ld16 d j"
    using assms by (auto simp: ld16_def st16_def getb_putb)
qed

text \<open>\<^verbatim>\<open>memmove\<close> of bytes out of a block and into it.\<close>

definition blk_get :: "bdata \<Rightarrow> nat \<Rightarrow> nat \<Rightarrow> u8 list" where
  "blk_get d off n = map (\<lambda>k. getb d (off + k)) [0..<n]"

definition blk_put :: "bdata \<Rightarrow> nat \<Rightarrow> u8 list \<Rightarrow> bdata" where
  "blk_put d off bs =
    (\<lambda>i. if off \<le> unat i \<and> unat i < off + length bs then bs ! (unat i - off) else d i)"

lemma length_blk_get [simp]: "length (blk_get d off n) = n"
  by (simp add: blk_get_def)

lemma getb_blk_put:
  "i < 1024 \<Longrightarrow> getb (blk_put d off bs) i =
    (if off \<le> i \<and> i < off + length bs then bs ! (i - off) else getb d i)"
  by (simp add: getb_def blk_put_def unat_of_nat)

lemma blk_put_whole: "length bs = 1024 \<Longrightarrow> getb (blk_put d 0 bs) i = bs ! (i mod 1024)"
  by (simp add: getb_def blk_put_def unat_of_nat)

lemma blk_get_put: "off + length bs \<le> 1024 \<Longrightarrow> blk_get (blk_put d off bs) off (length bs) = bs"
  by (rule nth_equalityI) (auto simp: blk_get_def getb_blk_put)

text \<open>\<^verbatim>\<open>memset(bp->data, 0, BSIZE)\<close>.\<close>

definition zero_block :: bdata where
  "zero_block = (\<lambda>_. 0)"

lemma ld32_zero_block [simp]: "ld32 zero_block i = 0"
  by (simp add: ld32_def getb_def zero_block_def le32_def)

end
