(* ===== verification/Sleeplock.thy ===== *)
theory Sleeplock
  imports Prelude
begin

text \<open>
  \<^verbatim>\<open>kernel/sleeplock.c\<close>: locks that are held across sleeping. The spin lock inside a sleep lock only
  makes each operation atomic. A thread that has to wait is \<open>Blocked\<close>; it runs the operation again when it
  is woken, as the loop of \<^verbatim>\<open>acquiresleep\<close> does.
\<close>

record sleeplock =
  slocked :: bool
  spid :: u32

definition initsleeplock :: sleeplock where
  "initsleeplock = \<lparr>slocked = False, spid = 0\<rparr>"

text \<open>\<open>me\<close> is \<^verbatim>\<open>myproc()->pid\<close>.\<close>

definition acquiresleep :: "u32 \<Rightarrow> sleeplock \<Rightarrow> sleeplock res" where
  "acquiresleep me lk = (if slocked lk then Inl Blocked else Inr (lk\<lparr>slocked := True, spid := me\<rparr>))"

definition releasesleep :: "sleeplock \<Rightarrow> sleeplock" where
  "releasesleep lk = lk\<lparr>slocked := False, spid := 0\<rparr>"

definition holdingsleep :: "u32 \<Rightarrow> sleeplock \<Rightarrow> bool" where
  "holdingsleep me lk \<longleftrightarrow> slocked lk \<and> spid lk = me"

lemmas sleeplock_defs = acquiresleep_def releasesleep_def holdingsleep_def

end
