(* ===== verification/Bio.thy ===== *)
theory Bio
  imports Block Sleeplock
begin

text \<open>
  \<^verbatim>\<open>kernel/bio.c\<close>: the buffer cache. The buffers are numbered 0 to 29 and 30 is the list head
  \<^verbatim>\<open>bcache.head\<close>, so that \<^verbatim>\<open>prev\<close> and \<^verbatim>\<open>next\<close> are numbers. \<^verbatim>\<open>virtio_disk_rw\<close> transfers one block; every
  write is recorded in \<open>trace\<close>, which no code reads and which tells what a crash can leave on the disk.
\<close>

section \<open>State\<close>

record buf =
  bvalid :: bool
  bdev :: u32
  bblockno :: u32
  block :: sleeplock
  refcnt :: int
  bprev :: nat
  bnext :: nat
  bdata :: bdata

text \<open>The file system's state; the parts after the cache belong to the log, the inodes and the super block.\<close>

record superblock =
  sb_magic :: u32
  sb_size :: u32
  sb_nblocks :: u32
  sb_ninodes :: u32
  sb_nlog :: u32
  sb_logstart :: u32
  sb_inodestart :: u32
  sb_bmapstart :: u32

record inode =
  i_dev :: u32
  i_inum :: u32
  i_ref :: int
  i_lock :: sleeplock
  i_valid :: bool
  i_type :: u16
  i_major :: u16
  i_minor :: u16
  i_nlink :: u16
  i_size :: u32
  i_addrs :: "nat \<Rightarrow> u32"

record fsys =
  disk :: "u32 \<Rightarrow> bdata"
  trace :: "(u32 \<times> bdata) list"
  bufs :: "nat \<Rightarrow> buf"
  curpid :: u32
  lstart :: u32
  lsize :: u32
  loutstanding :: int
  lcommitting :: bool
  ldev :: u32
  lh_n :: int
  lh_block :: "nat \<Rightarrow> u32"
  sb :: superblock
  itable :: "nat \<Rightarrow> inode"

definition NBUF :: nat where "NBUF = 30"
definition ROOTDEV :: u32 where "ROOTDEV = 1"
definition HEAD :: nat where "HEAD = NBUF"

definition upd_buf :: "nat \<Rightarrow> (buf \<Rightarrow> buf) \<Rightarrow> fsys \<Rightarrow> fsys" where
  "upd_buf i f st = st\<lparr>bufs := (bufs st)(i := f (bufs st i))\<rparr>"

text \<open>An assignment to \<^verbatim>\<open>b->data\<close> by the code that holds the buffer.\<close>

definition set_data :: "nat \<Rightarrow> bdata \<Rightarrow> fsys \<Rightarrow> fsys" where
  "set_data i d st = upd_buf i (\<lambda>x. x\<lparr>bdata := d\<rparr>) st"

section \<open>Operations\<close>

text \<open>\<^verbatim>\<open>virtio_disk_rw\<close>, as the code above the driver sees it.\<close>

definition virtio_disk_rw :: "nat \<Rightarrow> bool \<Rightarrow> fsys \<Rightarrow> fsys" where
  "virtio_disk_rw b write st =
    (let bno = bblockno (bufs st b)
     in if write
        then st\<lparr>disk := (disk st)(bno := bdata (bufs st b)), trace := trace st @ [(bno, bdata (bufs st b))]\<rparr>
        else upd_buf b (\<lambda>x. x\<lparr>bdata := disk st bno\<rparr>) st)"

text \<open>Insertion of \<open>b\<close> right behind the head, as \<^verbatim>\<open>binit\<close> and \<^verbatim>\<open>brelse\<close> do it.\<close>

definition link_front :: "nat \<Rightarrow> fsys \<Rightarrow> fsys" where
  "link_front b st =
    (let st = upd_buf b (\<lambda>x. x\<lparr>bnext := bnext (bufs st HEAD), bprev := HEAD\<rparr>) st;
         st = upd_buf (bnext (bufs st HEAD)) (\<lambda>x. x\<lparr>bprev := b\<rparr>) st
     in upd_buf HEAD (\<lambda>x. x\<lparr>bnext := b\<rparr>) st)"

fun binit_loop :: "nat list \<Rightarrow> fsys \<Rightarrow> fsys" where
  "binit_loop [] st = st"
| "binit_loop (b # bs) st =
    binit_loop bs (link_front b (upd_buf b (\<lambda>x. x\<lparr>block := initsleeplock\<rparr>) st))"

definition binit :: "fsys \<Rightarrow> fsys" where
  "binit st =
    (let st = upd_buf HEAD (\<lambda>x. x\<lparr>bprev := HEAD, bnext := HEAD\<rparr>) st
     in binit_loop [0..<NBUF] st)"

text \<open>
  The two loops of \<^verbatim>\<open>bget\<close> over the list, forwards for the cached block and backwards for a buffer to
  recycle. A list of \<^verbatim>\<open>NBUF\<close> buffers is walked within \<^verbatim>\<open>NBUF\<close> + 1 rounds.
\<close>

fun bget_cached :: "nat \<Rightarrow> fsys \<Rightarrow> nat \<Rightarrow> u32 \<Rightarrow> u32 \<Rightarrow> nat option res" where
  "bget_cached 0 st b dev blockno = Inl Diverges"
| "bget_cached (Suc fuel) st b dev blockno =
    (if b = HEAD then Inr None
     else if bdev (bufs st b) = dev \<and> bblockno (bufs st b) = blockno then Inr (Some b)
     else bget_cached fuel st (bnext (bufs st b)) dev blockno)"

fun bget_lru :: "nat \<Rightarrow> fsys \<Rightarrow> nat \<Rightarrow> nat option res" where
  "bget_lru 0 st b = Inl Diverges"
| "bget_lru (Suc fuel) st b =
    (if b = HEAD then Inr None
     else if refcnt (bufs st b) = 0 then Inr (Some b)
     else bget_lru fuel st (bprev (bufs st b)))"

definition lock_buf :: "nat \<Rightarrow> fsys \<Rightarrow> fsys res" where
  "lock_buf b st =
    ebind (acquiresleep (curpid st) (block (bufs st b))) (\<lambda>l. Inr (upd_buf b (\<lambda>x. x\<lparr>block := l\<rparr>) st))"

definition bget :: "u32 \<Rightarrow> u32 \<Rightarrow> fsys \<Rightarrow> (fsys \<times> nat) res" where
  "bget dev blockno st =
    ebind (bget_cached (Suc NBUF) st (bnext (bufs st HEAD)) dev blockno) (\<lambda>r.
      case r of
        Some b \<Rightarrow>
          ebind (lock_buf b (upd_buf b (\<lambda>x. x\<lparr>refcnt := refcnt x + 1\<rparr>) st)) (\<lambda>st. Inr (st, b))
      | None \<Rightarrow>
          ebind (bget_lru (Suc NBUF) st (bprev (bufs st HEAD))) (\<lambda>r.
            case r of
              None \<Rightarrow> Inl (Panic ''bget: no buffers'')
            | Some b \<Rightarrow>
                ebind (lock_buf b (upd_buf b (\<lambda>x. x\<lparr>bdev := dev, bblockno := blockno,
                  bvalid := False, refcnt := 1\<rparr>) st)) (\<lambda>st. Inr (st, b))))"

definition bread :: "u32 \<Rightarrow> u32 \<Rightarrow> fsys \<Rightarrow> (fsys \<times> nat) res" where
  "bread dev blockno st =
    ebind (bget dev blockno st) (\<lambda>(st, b).
      if \<not> bvalid (bufs st b)
      then Inr (upd_buf b (\<lambda>x. x\<lparr>bvalid := True\<rparr>) (virtio_disk_rw b False st), b)
      else Inr (st, b))"

definition bwrite :: "nat \<Rightarrow> fsys \<Rightarrow> fsys res" where
  "bwrite b st =
    (if \<not> holdingsleep (curpid st) (block (bufs st b)) then Inl (Panic ''bwrite'')
     else Inr (virtio_disk_rw b True st))"

definition brelse :: "nat \<Rightarrow> fsys \<Rightarrow> fsys res" where
  "brelse b st =
    (if \<not> holdingsleep (curpid st) (block (bufs st b)) then Inl (Panic ''brelse'')
     else
       let st = upd_buf b (\<lambda>x. x\<lparr>block := releasesleep (block x)\<rparr>) st;
           st = upd_buf b (\<lambda>x. x\<lparr>refcnt := refcnt x - 1\<rparr>) st
       in if refcnt (bufs st b) = 0
          then
            let st = upd_buf (bnext (bufs st b)) (\<lambda>x. x\<lparr>bprev := bprev (bufs st b)\<rparr>) st;
                st = upd_buf (bprev (bufs st b)) (\<lambda>x. x\<lparr>bnext := bnext (bufs st b)\<rparr>) st
            in Inr (link_front b st)
          else Inr st)"

definition bpin :: "nat \<Rightarrow> fsys \<Rightarrow> fsys" where
  "bpin b st = upd_buf b (\<lambda>x. x\<lparr>refcnt := refcnt x + 1\<rparr>) st"

definition bunpin :: "nat \<Rightarrow> fsys \<Rightarrow> fsys" where
  "bunpin b st = upd_buf b (\<lambda>x. x\<lparr>refcnt := refcnt x - 1\<rparr>) st"

end
