(* ===== verification/Log.thy ===== *)
theory Log
  imports Bio
begin

text \<open>
  \<^verbatim>\<open>kernel/log.c\<close>: the redo log. The in-memory \<^verbatim>\<open>struct log\<close> is part of the file system's state. A thread
  that would sleep on \<^verbatim>\<open>&log\<close> is \<open>Blocked\<close> and tries again when it is woken.
\<close>

definition LOGSIZE :: nat where "LOGSIZE = 30"
definition MAXOPBLOCKS :: nat where "MAXOPBLOCKS = 10"

text \<open>\<^verbatim>\<open>struct logheader\<close> on a block: \<^verbatim>\<open>n\<close> at offset 0 and \<^verbatim>\<open>block[i]\<close> at offset 4 + 4 * i.\<close>

definition hd_n :: "bdata \<Rightarrow> int" where
  "hd_n d = sint (ld32 d 0)"

definition hd_block :: "bdata \<Rightarrow> nat \<Rightarrow> u32" where
  "hd_block d i = ld32 d (4 + 4 * i)"

fun put_blocks :: "nat \<Rightarrow> (nat \<Rightarrow> u32) \<Rightarrow> bdata \<Rightarrow> bdata" where
  "put_blocks 0 blk d = d"
| "put_blocks (Suc i) blk d = st32 (put_blocks i blk d) (4 + 4 * i) (blk i)"

definition put_head :: "int \<Rightarrow> (nat \<Rightarrow> u32) \<Rightarrow> bdata \<Rightarrow> bdata" where
  "put_head n blk d = put_blocks (nat n) blk (st32 d 0 (word_of_int n))"

section \<open>Transfers between the log and the home locations\<close>

text \<open>The loops of \<^verbatim>\<open>install_trans\<close> and \<^verbatim>\<open>write_log\<close>, over the values of \<^verbatim>\<open>tail\<close>.\<close>

fun install_loop :: "bool \<Rightarrow> nat list \<Rightarrow> fsys \<Rightarrow> fsys res" where
  "install_loop recovering [] st = Inr st"
| "install_loop recovering (tail # ts) st =
    ebind (bread (ldev st) (lstart st + of_nat tail + 1) st) (\<lambda>(st, lbuf).
    ebind (bread (ldev st) (lh_block st tail) st) (\<lambda>(st, dbuf).
    ebind (bwrite dbuf (set_data dbuf (bdata (bufs st lbuf)) st)) (\<lambda>st.
      let st = (if \<not> recovering then bunpin dbuf st else st)
      in ebind (brelse lbuf st) (\<lambda>st.
         ebind (brelse dbuf st) (\<lambda>st.
         install_loop recovering ts st)))))"

definition install_trans :: "bool \<Rightarrow> fsys \<Rightarrow> fsys res" where
  "install_trans recovering st = install_loop recovering [0..<nat (lh_n st)] st"

definition read_head :: "fsys \<Rightarrow> fsys res" where
  "read_head st =
    ebind (bread (ldev st) (lstart st) st) (\<lambda>(st, b).
      let lh = bdata (bufs st b);
          st = st\<lparr>lh_n := hd_n lh\<rparr>;
          st = st\<lparr>lh_block := (\<lambda>i. if int i < lh_n st then hd_block lh i else lh_block st i)\<rparr>
      in brelse b st)"

definition write_head :: "fsys \<Rightarrow> fsys res" where
  "write_head st =
    ebind (bread (ldev st) (lstart st) st) (\<lambda>(st, b).
    ebind (bwrite b (set_data b (put_head (lh_n st) (lh_block st) (bdata (bufs st b))) st)) (\<lambda>st.
    brelse b st))"

definition recover_from_log :: "fsys \<Rightarrow> fsys res" where
  "recover_from_log st =
    ebind (read_head st) (\<lambda>st.
    ebind (install_trans True st) (\<lambda>st.
    write_head (st\<lparr>lh_n := 0\<rparr>)))"

definition initlog :: "u32 \<Rightarrow> superblock \<Rightarrow> fsys \<Rightarrow> fsys res" where
  "initlog dev s st =
    (if 4 + 4 * LOGSIZE \<ge> BSIZE then Inl (Panic ''initlog: too big logheader'')
     else recover_from_log (st\<lparr>lstart := sb_logstart s, lsize := sb_nlog s, ldev := dev\<rparr>))"

fun write_log_loop :: "nat list \<Rightarrow> fsys \<Rightarrow> fsys res" where
  "write_log_loop [] st = Inr st"
| "write_log_loop (tail # ts) st =
    ebind (bread (ldev st) (lstart st + of_nat tail + 1) st) (\<lambda>(st, to).
    ebind (bread (ldev st) (lh_block st tail) st) (\<lambda>(st, from).
    ebind (bwrite to (set_data to (bdata (bufs st from)) st)) (\<lambda>st.
    ebind (brelse from st) (\<lambda>st.
    ebind (brelse to st) (\<lambda>st.
    write_log_loop ts st)))))"

definition write_log :: "fsys \<Rightarrow> fsys res" where
  "write_log st = write_log_loop [0..<nat (lh_n st)] st"

definition commit :: "fsys \<Rightarrow> fsys res" where
  "commit st =
    (if lh_n st > 0
     then
       ebind (write_log st) (\<lambda>st.
       ebind (write_head st) (\<lambda>st.
       ebind (install_trans False st) (\<lambda>st.
       write_head (st\<lparr>lh_n := 0\<rparr>))))
     else Inr st)"

section \<open>Operations of a transaction\<close>

definition begin_op :: "fsys \<Rightarrow> fsys res" where
  "begin_op st =
    (if lcommitting st then Inl Blocked
     else if lh_n st + (loutstanding st + 1) * int MAXOPBLOCKS > int LOGSIZE then Inl Blocked
     else Inr (st\<lparr>loutstanding := loutstanding st + 1\<rparr>))"

definition end_op :: "fsys \<Rightarrow> fsys res" where
  "end_op st =
    (let st = st\<lparr>loutstanding := loutstanding st - 1\<rparr>
     in if lcommitting st then Inl (Panic ''log.committing'')
        else if loutstanding st = 0
        then ebind (commit (st\<lparr>lcommitting := True\<rparr>)) (\<lambda>st. Inr (st\<lparr>lcommitting := False\<rparr>))
        else Inr st)"

text \<open>The loop of \<^verbatim>\<open>log_write\<close> finds the first entry for the block, or the end.\<close>

definition log_index :: "fsys \<Rightarrow> u32 \<Rightarrow> nat" where
  "log_index st b =
    (case find (\<lambda>i. lh_block st i = b) [0..<nat (lh_n st)] of Some i \<Rightarrow> i | None \<Rightarrow> nat (lh_n st))"

definition log_write :: "nat \<Rightarrow> fsys \<Rightarrow> fsys res" where
  "log_write b st =
    (if lh_n st \<ge> int LOGSIZE \<or> lh_n st \<ge> sint (lsize st) - 1 then Inl (Panic ''too big a transaction'')
     else if loutstanding st < 1 then Inl (Panic ''log_write outside of trans'')
     else
       let bno = bblockno (bufs st b);
           i = log_index st bno;
           st = st\<lparr>lh_block := (lh_block st)(i := bno)\<rparr>
       in if int i = lh_n st then Inr ((bpin b st)\<lparr>lh_n := lh_n st + 1\<rparr>) else Inr st)"

end
