(* ===== verification/Fs.thy ===== *)
theory Fs
  imports Log
begin

text \<open>
  \<^verbatim>\<open>kernel/fs.c\<close>: the super block, the block allocator, inodes and their contents, directories and
  path names. An inode pointer is the index of its entry in \<^verbatim>\<open>itable\<close>; a null result is \<^term>\<open>None\<close>, and a null
  argument does not occur. A directory entry, a path and a name are lists of bytes.
\<close>

section \<open>On-disk format\<close>

definition FSMAGIC :: u32 where "FSMAGIC = 0x10203040"
definition ROOTINO :: u32 where "ROOTINO = 1"
definition NDIRECT :: nat where "NDIRECT = 12"
definition NINDIRECT :: nat where "NINDIRECT = BSIZE div 4"
definition MAXFILE :: nat where "MAXFILE = NDIRECT + NINDIRECT"
definition IPB :: nat where "IPB = BSIZE div 64"
definition BPB :: nat where "BPB = BSIZE * 8"
definition NINODE :: nat where "NINODE = 50"
definition DIRSIZ :: nat where "DIRSIZ = 14"
definition T_DIR :: u16 where "T_DIR = 1"
definition T_FILE :: u16 where "T_FILE = 2"
definition T_DEVICE :: u16 where "T_DEVICE = 3"

definition IBLOCK :: "u32 \<Rightarrow> superblock \<Rightarrow> u32" where
  "IBLOCK i s = of_nat (unat i div IPB) + sb_inodestart s"

definition BBLOCK :: "u32 \<Rightarrow> superblock \<Rightarrow> u32" where
  "BBLOCK b s = of_nat (unat b div BPB) + sb_bmapstart s"

text \<open>Offset of \<^verbatim>\<open>(struct dinode* )bp->data + inum % IPB\<close>, and the fields of a \<^verbatim>\<open>struct dinode\<close>.\<close>

definition dip :: "u32 \<Rightarrow> nat" where
  "dip inum = 64 * (unat inum mod IPB)"

fun put_addrs :: "nat \<Rightarrow> nat \<Rightarrow> (nat \<Rightarrow> u32) \<Rightarrow> bdata \<Rightarrow> bdata" where
  "put_addrs 0 off a d = d"
| "put_addrs (Suc i) off a d = st32 (put_addrs i off a d) (off + 4 * i) (a i)"

definition put_dinode :: "nat \<Rightarrow> inode \<Rightarrow> bdata \<Rightarrow> bdata" where
  "put_dinode off ip d =
    (let d = st16 d off (i_type ip);
         d = st16 d (off + 2) (i_major ip);
         d = st16 d (off + 4) (i_minor ip);
         d = st16 d (off + 6) (i_nlink ip);
         d = st32 d (off + 8) (i_size ip)
     in put_addrs (NDIRECT + 1) (off + 12) (i_addrs ip) d)"

definition get_dinode :: "nat \<Rightarrow> bdata \<Rightarrow> inode \<Rightarrow> inode" where
  "get_dinode off d ip =
    ip\<lparr>i_type := ld16 d off, i_major := ld16 d (off + 2), i_minor := ld16 d (off + 4),
       i_nlink := ld16 d (off + 6), i_size := ld32 d (off + 8),
       i_addrs := (\<lambda>i. if i < NDIRECT + 1 then ld32 d (off + 12 + 4 * i) else i_addrs ip i)\<rparr>"

definition upd_inode :: "nat \<Rightarrow> (inode \<Rightarrow> inode) \<Rightarrow> fsys \<Rightarrow> fsys" where
  "upd_inode i f st = st\<lparr>itable := (itable st)(i := f (itable st i))\<rparr>"

section \<open>Super block and blocks\<close>

definition get_sb :: "bdata \<Rightarrow> superblock" where
  "get_sb d = \<lparr>sb_magic = ld32 d 0, sb_size = ld32 d 4, sb_nblocks = ld32 d 8, sb_ninodes = ld32 d 12,
    sb_nlog = ld32 d 16, sb_logstart = ld32 d 20, sb_inodestart = ld32 d 24, sb_bmapstart = ld32 d 28\<rparr>"

definition readsb :: "u32 \<Rightarrow> fsys \<Rightarrow> fsys res" where
  "readsb dev st =
    ebind (bread dev 1 st) (\<lambda>(st, bp). brelse bp (st\<lparr>sb := get_sb (bdata (bufs st bp))\<rparr>))"

definition fsinit :: "u32 \<Rightarrow> fsys \<Rightarrow> fsys res" where
  "fsinit dev st =
    ebind (readsb dev st) (\<lambda>st.
      if sb_magic (sb st) \<noteq> FSMAGIC then Inl (Panic ''invalid file system'')
      else initlog dev (sb st) st)"

definition bzero :: "u32 \<Rightarrow> u32 \<Rightarrow> fsys \<Rightarrow> fsys res" where
  "bzero dev bno st =
    ebind (bread dev bno st) (\<lambda>(st, bp).
    ebind (log_write bp (set_data bp zero_block st)) (\<lambda>st. brelse bp st))"

text \<open>Bit \<open>bi\<close> of a block of the free map.\<close>

definition bmap_bit :: "bdata \<Rightarrow> nat \<Rightarrow> bool" where
  "bmap_bit d bi \<longleftrightarrow> getb d (bi div 8) AND push_bit (bi mod 8) 1 \<noteq> 0"

definition bmap_set :: "bdata \<Rightarrow> nat \<Rightarrow> bdata" where
  "bmap_set d bi = putb d (bi div 8) (getb d (bi div 8) OR push_bit (bi mod 8) 1)"

definition bmap_clear :: "bdata \<Rightarrow> nat \<Rightarrow> bdata" where
  "bmap_clear d bi = putb d (bi div 8) (getb d (bi div 8) AND NOT (push_bit (bi mod 8) 1))"

text \<open>\<^verbatim>\<open>balloc\<close>: the outer loop runs over the blocks of the free map, the inner one over the bits of one of them.\<close>

fun balloc_loop :: "u32 \<Rightarrow> nat list \<Rightarrow> fsys \<Rightarrow> (fsys \<times> u32) res" where
  "balloc_loop dev [] st = Inl (Panic ''balloc: out of blocks'')"
| "balloc_loop dev (b # bs) st =
    ebind (bread dev (BBLOCK (of_nat b) (sb st)) st) (\<lambda>(st, bp).
      case find (\<lambda>bi. \<not> bmap_bit (bdata (bufs st bp)) bi) [0..<min BPB (unat (sb_size (sb st)) - b)] of
        Some bi \<Rightarrow>
          ebind (log_write bp (set_data bp (bmap_set (bdata (bufs st bp)) bi) st)) (\<lambda>st.
          ebind (brelse bp st) (\<lambda>st.
          ebind (bzero dev (of_nat (b + bi)) st) (\<lambda>st. Inr (st, of_nat (b + bi)))))
      | None \<Rightarrow> ebind (brelse bp st) (\<lambda>st. balloc_loop dev bs st))"

definition balloc :: "u32 \<Rightarrow> fsys \<Rightarrow> (fsys \<times> u32) res" where
  "balloc dev st = balloc_loop dev (map (\<lambda>k. k * BPB) [0..<(unat (sb_size (sb st)) + BPB - 1) div BPB]) st"

definition bfree :: "u32 \<Rightarrow> u32 \<Rightarrow> fsys \<Rightarrow> fsys res" where
  "bfree dev b st =
    ebind (bread dev (BBLOCK b (sb st)) st) (\<lambda>(st, bp).
      let bi = unat b mod BPB
      in if \<not> bmap_bit (bdata (bufs st bp)) bi then Inl (Panic ''freeing free block'')
         else
           ebind (log_write bp (set_data bp (bmap_clear (bdata (bufs st bp)) bi) st)) (\<lambda>st. brelse bp st))"

section \<open>The inode table\<close>

definition iinit :: "fsys \<Rightarrow> fsys" where
  "iinit st =
    st\<lparr>itable := (\<lambda>i. if i < NINODE then (itable st i)\<lparr>i_lock := initsleeplock\<rparr> else itable st i)\<rparr>"

definition iget :: "u32 \<Rightarrow> u32 \<Rightarrow> fsys \<Rightarrow> (fsys \<times> nat) res" where
  "iget dev inum st =
    (case find (\<lambda>i. i_ref (itable st i) > 0 \<and> i_dev (itable st i) = dev \<and> i_inum (itable st i) = inum)
        [0..<NINODE] of
       Some i \<Rightarrow> Inr (upd_inode i (\<lambda>ip. ip\<lparr>i_ref := i_ref ip + 1\<rparr>) st, i)
     | None \<Rightarrow>
         (case find (\<lambda>i. i_ref (itable st i) = 0) [0..<NINODE] of
            None \<Rightarrow> Inl (Panic ''iget: no inodes'')
          | Some i \<Rightarrow>
              Inr (upd_inode i (\<lambda>ip. ip\<lparr>i_dev := dev, i_inum := inum, i_ref := 1, i_valid := False\<rparr>) st, i)))"

text \<open>\<^verbatim>\<open>ialloc\<close>: the loop over the inode numbers.\<close>

fun ialloc_loop :: "u32 \<Rightarrow> u16 \<Rightarrow> nat list \<Rightarrow> fsys \<Rightarrow> (fsys \<times> nat) res" where
  "ialloc_loop dev type [] st = Inl (Panic ''ialloc: no inodes'')"
| "ialloc_loop dev type (k # ks) st =
    (let inum = of_nat k
     in ebind (bread dev (IBLOCK inum (sb st)) st) (\<lambda>(st, bp).
          let d = bdata (bufs st bp)
          in if ld16 d (dip inum) = 0
             then
               ebind (log_write bp (set_data bp
                 (st16 (blk_put d (dip inum) (replicate 64 0)) (dip inum) type) st)) (\<lambda>st.
               ebind (brelse bp st) (\<lambda>st. iget dev inum st))
             else ebind (brelse bp st) (\<lambda>st. ialloc_loop dev type ks st)))"

definition ialloc :: "u32 \<Rightarrow> u16 \<Rightarrow> fsys \<Rightarrow> (fsys \<times> nat) res" where
  "ialloc dev type st = ialloc_loop dev type [1..<unat (sb_ninodes (sb st))] st"

definition iupdate :: "nat \<Rightarrow> fsys \<Rightarrow> fsys res" where
  "iupdate i st =
    (let ip = itable st i
     in ebind (bread (i_dev ip) (IBLOCK (i_inum ip) (sb st)) st) (\<lambda>(st, bp).
        ebind (log_write bp (set_data bp (put_dinode (dip (i_inum ip)) (itable st i) (bdata (bufs st bp))) st)) (\<lambda>st.
        brelse bp st)))"

definition idup :: "nat \<Rightarrow> fsys \<Rightarrow> fsys" where
  "idup i st = upd_inode i (\<lambda>ip. ip\<lparr>i_ref := i_ref ip + 1\<rparr>) st"

definition lock_inode :: "nat \<Rightarrow> fsys \<Rightarrow> fsys res" where
  "lock_inode i st =
    ebind (acquiresleep (curpid st) (i_lock (itable st i))) (\<lambda>l. Inr (upd_inode i (\<lambda>ip. ip\<lparr>i_lock := l\<rparr>) st))"

definition ilock :: "nat \<Rightarrow> fsys \<Rightarrow> fsys res" where
  "ilock i st =
    (if i_ref (itable st i) < 1 then Inl (Panic ''ilock'')
     else
       ebind (lock_inode i st) (\<lambda>st.
         let ip = itable st i
         in if \<not> i_valid ip
            then
              ebind (bread (i_dev ip) (IBLOCK (i_inum ip) (sb st)) st) (\<lambda>(st, bp).
                let st = upd_inode i (get_dinode (dip (i_inum ip)) (bdata (bufs st bp))) st
                in ebind (brelse bp st) (\<lambda>st.
                     let st = upd_inode i (\<lambda>ip. ip\<lparr>i_valid := True\<rparr>) st
                     in if i_type (itable st i) = 0 then Inl (Panic ''ilock: no type'') else Inr st))
            else Inr st))"

definition iunlock :: "nat \<Rightarrow> fsys \<Rightarrow> fsys res" where
  "iunlock i st =
    (if \<not> holdingsleep (curpid st) (i_lock (itable st i)) \<or> i_ref (itable st i) < 1 then Inl (Panic ''iunlock'')
     else Inr (upd_inode i (\<lambda>ip. ip\<lparr>i_lock := releasesleep (i_lock ip)\<rparr>) st))"

section \<open>Contents of an inode\<close>

definition bmap :: "nat \<Rightarrow> nat \<Rightarrow> fsys \<Rightarrow> (fsys \<times> u32) res" where
  "bmap i bn st =
    (if bn < NDIRECT
     then
       let addr = i_addrs (itable st i) bn
       in if addr = 0
          then
            ebind (balloc (i_dev (itable st i)) st) (\<lambda>(st, addr).
              Inr (upd_inode i (\<lambda>ip. ip\<lparr>i_addrs := (i_addrs ip)(bn := addr)\<rparr>) st, addr))
          else Inr (st, addr)
     else
       let bn = bn - NDIRECT
       in if bn < NINDIRECT
          then
            ebind (let addr = i_addrs (itable st i) NDIRECT
                   in if addr = 0
                      then
                        ebind (balloc (i_dev (itable st i)) st) (\<lambda>(st, addr).
                          Inr (upd_inode i (\<lambda>ip. ip\<lparr>i_addrs := (i_addrs ip)(NDIRECT := addr)\<rparr>) st, addr))
                      else Inr (st, addr)) (\<lambda>(st, addr).
            ebind (bread (i_dev (itable st i)) addr st) (\<lambda>(st, bp).
              let addr = ld32 (bdata (bufs st bp)) (4 * bn)
              in ebind (if addr = 0
                        then
                          ebind (balloc (i_dev (itable st i)) st) (\<lambda>(st, addr).
                          ebind (log_write bp (set_data bp (st32 (bdata (bufs st bp)) (4 * bn) addr) st)) (\<lambda>st.
                          Inr (st, addr)))
                        else Inr (st, addr)) (\<lambda>(st, addr).
                 ebind (brelse bp st) (\<lambda>st. Inr (st, addr)))))
          else Inl (Panic ''bmap: out of range''))"

text \<open>\<^verbatim>\<open>itrunc\<close>: the loops over the direct blocks and over the entries of the indirect block \<open>bp\<close>.\<close>

fun itrunc_direct :: "nat \<Rightarrow> nat list \<Rightarrow> fsys \<Rightarrow> fsys res" where
  "itrunc_direct i [] st = Inr st"
| "itrunc_direct i (k # ks) st =
    (let ip = itable st i
     in if i_addrs ip k \<noteq> 0
        then
          ebind (bfree (i_dev ip) (i_addrs ip k) st) (\<lambda>st.
            itrunc_direct i ks (upd_inode i (\<lambda>ip. ip\<lparr>i_addrs := (i_addrs ip)(k := 0)\<rparr>) st))
        else itrunc_direct i ks st)"

fun itrunc_indirect :: "nat \<Rightarrow> nat \<Rightarrow> nat list \<Rightarrow> fsys \<Rightarrow> fsys res" where
  "itrunc_indirect i bp [] st = Inr st"
| "itrunc_indirect i bp (j # js) st =
    (let a = ld32 (bdata (bufs st bp)) (4 * j)
     in if a \<noteq> 0
        then ebind (bfree (i_dev (itable st i)) a st) (\<lambda>st. itrunc_indirect i bp js st)
        else itrunc_indirect i bp js st)"

definition itrunc :: "nat \<Rightarrow> fsys \<Rightarrow> fsys res" where
  "itrunc i st =
    ebind (itrunc_direct i [0..<NDIRECT] st) (\<lambda>st.
    ebind (let ip = itable st i
           in if i_addrs ip NDIRECT \<noteq> 0
              then
                ebind (bread (i_dev ip) (i_addrs ip NDIRECT) st) (\<lambda>(st, bp).
                ebind (itrunc_indirect i bp [0..<NINDIRECT] st) (\<lambda>st.
                ebind (brelse bp st) (\<lambda>st.
                ebind (bfree (i_dev (itable st i)) (i_addrs (itable st i) NDIRECT) st) (\<lambda>st.
                Inr (upd_inode i (\<lambda>ip. ip\<lparr>i_addrs := (i_addrs ip)(NDIRECT := 0)\<rparr>) st)))))
              else Inr st) (\<lambda>st.
    iupdate i (upd_inode i (\<lambda>ip. ip\<lparr>i_size := 0\<rparr>) st)))"

definition iput :: "nat \<Rightarrow> fsys \<Rightarrow> fsys res" where
  "iput i st =
    ebind (let ip = itable st i
           in if i_ref ip = 1 \<and> i_valid ip \<and> i_nlink ip = 0
              then
                ebind (lock_inode i st) (\<lambda>st.
                ebind (itrunc i st) (\<lambda>st.
                ebind (iupdate i (upd_inode i (\<lambda>ip. ip\<lparr>i_type := 0\<rparr>) st)) (\<lambda>st.
                Inr (upd_inode i (\<lambda>ip. ip\<lparr>i_valid := False, i_lock := releasesleep (i_lock ip)\<rparr>) st))))
              else Inr st) (\<lambda>st.
    Inr (upd_inode i (\<lambda>ip. ip\<lparr>i_ref := i_ref ip - 1\<rparr>) st))"

definition iunlockput :: "nat \<Rightarrow> fsys \<Rightarrow> fsys res" where
  "iunlockput i st = ebind (iunlock i st) (\<lambda>st. iput i st)"

record stat =
  st_dev :: u32
  st_ino :: u32
  st_type :: u16
  st_nlink :: u16
  st_size :: "64 word"

definition stati :: "inode \<Rightarrow> stat" where
  "stati ip = \<lparr>st_dev = i_dev ip, st_ino = i_inum ip, st_type = i_type ip, st_nlink = i_nlink ip,
    st_size = ucast (i_size ip)\<rparr>"

section \<open>Reading and writing\<close>

text \<open>
  The loop of \<^verbatim>\<open>readi\<close>. \<open>cp\<close> is \<^verbatim>\<open>either_copyout\<close> to the destination advanced by the second argument; it acts on
  the memory \<open>m\<close> that the destination belongs to. \<open>left\<close> is \<^verbatim>\<open>n - tot\<close>.
\<close>

type_synonym 'm copier = "nat \<Rightarrow> u8 list \<Rightarrow> 'm \<Rightarrow> ('m \<times> int) res"

function readi_loop :: "'m copier \<Rightarrow> nat \<Rightarrow> u32 \<Rightarrow> nat \<Rightarrow> nat \<Rightarrow> 'm \<Rightarrow> fsys \<Rightarrow> ('m \<times> fsys \<times> int) res" where
  "readi_loop cp i off left tot m st =
    (if left = 0 then Inr (m, st, int tot)
     else
       ebind (bmap i (unat off div BSIZE) st) (\<lambda>(st, addr).
       ebind (bread (i_dev (itable st i)) addr st) (\<lambda>(st, bp).
         let k = min left (BSIZE - unat off mod BSIZE)
         in ebind (cp tot (blk_get (bdata (bufs st bp)) (unat off mod BSIZE) k) m) (\<lambda>(m, r).
            ebind (brelse bp st) (\<lambda>st.
              if r = - 1 then Inr (m, st, - 1)
              else readi_loop cp i (off + of_nat k) (left - k) (tot + k) m st)))))"
  by pat_completeness auto
termination
  by (relation "measure (\<lambda>(_, _, _, left, _). left)") (auto simp: BSIZE_def)

definition readi :: "'m copier \<Rightarrow> nat \<Rightarrow> u32 \<Rightarrow> u32 \<Rightarrow> 'm \<Rightarrow> fsys \<Rightarrow> ('m \<times> fsys \<times> int) res" where
  "readi cp i off n m st =
    (let size = i_size (itable st i)
     in if off > size \<or> off + n < off then Inr (m, st, 0)
        else
          let n = (if off + n > size then size - off else n)
          in readi_loop cp i off (unat n) 0 m st)"

text \<open>A local variable as the destination, and as the source.\<close>

definition to_local :: "u8 list copier" where
  "to_local k bs m = Inr (m @ bs, 0)"

text \<open>
  The loop of \<^verbatim>\<open>writei\<close>. \<open>cp k len\<close> is \<^verbatim>\<open>either_copyin\<close> from the source advanced by \<open>k\<close>: the bytes that reach the buffer,
  all of them unless the result is negative. The loop returns \<^verbatim>\<open>tot\<close> and \<^verbatim>\<open>off\<close>.
\<close>

function writei_loop ::
  "(nat \<Rightarrow> nat \<Rightarrow> (u8 list \<times> int) res) \<Rightarrow> nat \<Rightarrow> u32 \<Rightarrow> nat \<Rightarrow> nat \<Rightarrow> fsys \<Rightarrow> (fsys \<times> nat \<times> u32) res" where
  "writei_loop cp i off left tot st =
    (if left = 0 then Inr (st, tot, off)
     else
       ebind (bmap i (unat off div BSIZE) st) (\<lambda>(st, addr).
       ebind (bread (i_dev (itable st i)) addr st) (\<lambda>(st, bp).
         let k = min left (BSIZE - unat off mod BSIZE)
         in ebind (cp tot k) (\<lambda>(bs, r).
              let st = set_data bp (blk_put (bdata (bufs st bp)) (unat off mod BSIZE) bs) st
              in if r = - 1 then ebind (brelse bp st) (\<lambda>st. Inr (st, tot, off))
                 else
                   ebind (log_write bp st) (\<lambda>st.
                   ebind (brelse bp st) (\<lambda>st.
                   writei_loop cp i (off + of_nat k) (left - k) (tot + k) st))))))"
  by pat_completeness auto
termination
  by (relation "measure (\<lambda>(_, _, _, left, _). left)") (auto simp: BSIZE_def)

definition writei :: "(nat \<Rightarrow> nat \<Rightarrow> (u8 list \<times> int) res) \<Rightarrow> nat \<Rightarrow> u32 \<Rightarrow> u32 \<Rightarrow> fsys \<Rightarrow> (fsys \<times> int) res" where
  "writei cp i off n st =
    (if off > i_size (itable st i) \<or> off + n < off then Inr (st, - 1)
     else if off + n > of_nat (MAXFILE * BSIZE) then Inr (st, - 1)
     else
       ebind (writei_loop cp i off (unat n) 0 st) (\<lambda>(st, tot, off).
         let st = (if off > i_size (itable st i) then upd_inode i (\<lambda>ip. ip\<lparr>i_size := off\<rparr>) st else st)
         in ebind (iupdate i st) (\<lambda>st. Inr (st, int tot))))"

definition from_local :: "u8 list \<Rightarrow> nat \<Rightarrow> nat \<Rightarrow> (u8 list \<times> int) res" where
  "from_local bs k len = Inr (take len (drop k bs), 0)"

declare readi_loop.simps [simp del] writei_loop.simps [simp del]

section \<open>Directories\<close>

text \<open>\<^verbatim>\<open>strncmp\<close> on lists of bytes; a list ends with a nul byte.\<close>

definition hd0 :: "u8 list \<Rightarrow> u8" where
  "hd0 s = (case s of [] \<Rightarrow> 0 | c # _ \<Rightarrow> c)"

fun strncmp_list :: "nat \<Rightarrow> u8 list \<Rightarrow> u8 list \<Rightarrow> int" where
  "strncmp_list 0 p q = 0"
| "strncmp_list (Suc n) p q =
    (if hd0 p \<noteq> 0 \<and> hd0 p = hd0 q then strncmp_list n (tl p) (tl q) else uint (hd0 p) - uint (hd0 q))"

definition namecmp :: "u8 list \<Rightarrow> u8 list \<Rightarrow> int" where
  "namecmp s t = strncmp_list DIRSIZ s t"

text \<open>\<^verbatim>\<open>struct dirent\<close> as its 16 bytes.\<close>

definition de_inum :: "u8 list \<Rightarrow> u16" where
  "de_inum de = ucast (de ! 0) OR push_bit 8 (ucast (de ! 1))"

definition de_name :: "u8 list \<Rightarrow> u8 list" where
  "de_name de = drop 2 de"

text \<open>\<^verbatim>\<open>strncpy(de.name, name, DIRSIZ)\<close> pads the name with nul bytes.\<close>

definition mk_dirent :: "u8 list \<Rightarrow> u16 \<Rightarrow> u8 list" where
  "mk_dirent name inum =
    (let s = takeWhile (\<lambda>c. c \<noteq> 0) (take DIRSIZ name)
     in [ucast inum, ucast (drop_bit 8 inum)] @ s @ replicate (DIRSIZ - length s) 0)"

definition dir_offs :: "nat \<Rightarrow> fsys \<Rightarrow> u32 list" where
  "dir_offs dp st = map (\<lambda>k. of_nat (16 * k)) [0..<(unat (i_size (itable st dp)) + 15) div 16]"

definition read_dirent :: "string \<Rightarrow> nat \<Rightarrow> u32 \<Rightarrow> fsys \<Rightarrow> (fsys \<times> u8 list) res" where
  "read_dirent msg dp off st =
    ebind (readi to_local dp off 16 [] st) (\<lambda>(de, st, r). if r \<noteq> 16 then Inl (Panic msg) else Inr (st, de))"

fun dirlookup_loop :: "nat \<Rightarrow> u8 list \<Rightarrow> u32 list \<Rightarrow> fsys \<Rightarrow> (fsys \<times> (nat \<times> u32) option) res" where
  "dirlookup_loop dp name [] st = Inr (st, None)"
| "dirlookup_loop dp name (off # offs) st =
    ebind (read_dirent ''dirlookup read'' dp off st) (\<lambda>(st, de).
      if de_inum de = 0 then dirlookup_loop dp name offs st
      else if namecmp name (de_name de) = 0
      then ebind (iget (i_dev (itable st dp)) (ucast (de_inum de)) st) (\<lambda>(st, ip). Inr (st, Some (ip, off)))
      else dirlookup_loop dp name offs st)"

text \<open>The result is the inode and \<^verbatim>\<open>*poff\<close>.\<close>

definition dirlookup :: "nat \<Rightarrow> u8 list \<Rightarrow> fsys \<Rightarrow> (fsys \<times> (nat \<times> u32) option) res" where
  "dirlookup dp name st =
    (if i_type (itable st dp) \<noteq> T_DIR then Inl (Panic ''dirlookup not DIR'')
     else dirlookup_loop dp name (dir_offs dp st) st)"

text \<open>The search of \<^verbatim>\<open>dirlink\<close> for an empty entry; \<open>end\<close> is the offset after the last one.\<close>

fun dirlink_loop :: "nat \<Rightarrow> u32 \<Rightarrow> u32 list \<Rightarrow> fsys \<Rightarrow> (fsys \<times> u32) res" where
  "dirlink_loop dp endoff [] st = Inr (st, endoff)"
| "dirlink_loop dp endoff (off # offs) st =
    ebind (read_dirent ''dirlink read'' dp off st) (\<lambda>(st, de).
      if de_inum de = 0 then Inr (st, off) else dirlink_loop dp endoff offs st)"

definition dirlink :: "nat \<Rightarrow> u8 list \<Rightarrow> u32 \<Rightarrow> fsys \<Rightarrow> (fsys \<times> int) res" where
  "dirlink dp name inum st =
    ebind (dirlookup dp name st) (\<lambda>(st, r).
      case r of
        Some (ip, _) \<Rightarrow> ebind (iput ip st) (\<lambda>st. Inr (st, - 1))
      | None \<Rightarrow>
          ebind (dirlink_loop dp (of_nat (16 * length (dir_offs dp st))) (dir_offs dp st) st) (\<lambda>(st, off).
          ebind (writei (from_local (mk_dirent name (ucast inum))) dp off 16 st) (\<lambda>(st, n).
            if n \<noteq> 16 then Inl (Panic ''dirlink'') else Inr (st, 0))))"

section \<open>Paths\<close>

definition slash :: u8 where "slash = 47"

text \<open>
  \<^verbatim>\<open>skipelem\<close> on the bytes of a path before its nul: the rest of the path, and the element
  without its terminating nul, cut to \<^verbatim>\<open>DIRSIZ\<close> bytes.
\<close>

definition skipelem :: "u8 list \<Rightarrow> (u8 list \<times> u8 list) option" where
  "skipelem path =
    (let path = dropWhile (\<lambda>c. c = slash) path
     in if path = [] then None
        else
          let s = takeWhile (\<lambda>c. c \<noteq> slash) path;
              path = dropWhile (\<lambda>c. c \<noteq> slash) path
          in Some (dropWhile (\<lambda>c. c = slash) path, take DIRSIZ s))"

lemma skipelem_shorter: "skipelem path = Some (rest, name) \<Longrightarrow> length rest < length path"
proof -
  assume s: "skipelem path = Some (rest, name)"
  let ?p = "dropWhile (\<lambda>c. c = slash) path"
  have "?p \<noteq> []" and r: "rest = dropWhile (\<lambda>c. c = slash) (dropWhile (\<lambda>c. c \<noteq> slash) ?p)"
    using s by (auto simp: skipelem_def Let_def split: if_splits)
  then obtain c q where p: "?p = c # q" by (cases ?p) auto
  then have "c \<noteq> slash" using hd_dropWhile [of "\<lambda>c. c = slash" path] by simp
  then have "rest = dropWhile (\<lambda>c. c = slash) (dropWhile (\<lambda>c. c \<noteq> slash) q)" using r p by simp
  then have "length rest \<le> length q" by (metis length_dropWhile_le order_trans)
  then show ?thesis using p length_dropWhile_le [of "\<lambda>c. c = slash" path] by simp
qed

text \<open>The loop of \<^verbatim>\<open>namex\<close>; \<open>name\<close> is the buffer that the caller passed.\<close>

function namex_loop :: "bool \<Rightarrow> u8 list \<Rightarrow> u8 list \<Rightarrow> nat \<Rightarrow> fsys \<Rightarrow> (fsys \<times> nat option \<times> u8 list) res" where
  "namex_loop par path name ip st =
    (case skipelem path of
       None \<Rightarrow>
         if par then ebind (iput ip st) (\<lambda>st. Inr (st, None, name))
         else Inr (st, Some ip, name)
     | Some (path', name) \<Rightarrow>
         ebind (ilock ip st) (\<lambda>st.
           if i_type (itable st ip) \<noteq> T_DIR
           then ebind (iunlockput ip st) (\<lambda>st. Inr (st, None, name))
           else if par \<and> path' = []
           then ebind (iunlock ip st) (\<lambda>st. Inr (st, Some ip, name))
           else
             ebind (dirlookup ip name st) (\<lambda>(st, r).
               case r of
                 None \<Rightarrow> ebind (iunlockput ip st) (\<lambda>st. Inr (st, None, name))
               | Some (next, _) \<Rightarrow> ebind (iunlockput ip st) (\<lambda>st. namex_loop par path' name next st))))"
  by pat_completeness auto
termination
  by (relation "measure (\<lambda>(_, path, _). length path)") (auto dest: skipelem_shorter)

declare namex_loop.simps [simp del]

text \<open>\<open>cwd\<close> is \<^verbatim>\<open>myproc()->cwd\<close>.\<close>

definition namex :: "bool \<Rightarrow> nat \<Rightarrow> u8 list \<Rightarrow> fsys \<Rightarrow> (fsys \<times> nat option \<times> u8 list) res" where
  "namex par cwd path st =
    ebind (if path \<noteq> [] \<and> hd path = slash then iget ROOTDEV ROOTINO st else Inr (idup cwd st, cwd)) (\<lambda>(st, ip).
    namex_loop par path [] ip st)"

definition namei :: "nat \<Rightarrow> u8 list \<Rightarrow> fsys \<Rightarrow> (fsys \<times> nat option) res" where
  "namei cwd path st = ebind (namex False cwd path st) (\<lambda>(st, r, _). Inr (st, r))"

definition nameiparent :: "nat \<Rightarrow> u8 list \<Rightarrow> fsys \<Rightarrow> (fsys \<times> nat option \<times> u8 list) res" where
  "nameiparent cwd path st = namex True cwd path st"

end
