(* ===== verification/Bio_Lru.thy ===== *)
theory Bio_Lru
  imports Bio
begin

text \<open>
  The doubly linked list of the buffer cache: its pointers always represent a list of all the
  buffers, \<^verbatim>\<open>brelse\<close> moves a buffer that is no longer used to its front, and \<^verbatim>\<open>bget\<close> finds the cached
  buffer or recycles the unused buffer nearest to its end.
\<close>

section \<open>Linked sequences\<close>

text \<open>\<open>links nx pv ys\<close>: neighbours in \<open>ys\<close> point at each other.\<close>

fun links :: "(nat \<Rightarrow> nat) \<Rightarrow> (nat \<Rightarrow> nat) \<Rightarrow> nat list \<Rightarrow> bool" where
  "links nx pv (a # b # ys) \<longleftrightarrow> nx a = b \<and> pv b = a \<and> links nx pv (b # ys)"
| "links nx pv ys \<longleftrightarrow> True"

lemma links_append: "links nx pv (us @ a # vs) \<longleftrightarrow> links nx pv (us @ [a]) \<and> links nx pv (a # vs)"
proof (induction us)
  case (Cons u us)
  then show ?case by (cases us) auto
qed simp

lemma links_cong:
  "(\<And>a. a \<in> set (butlast ys) \<Longrightarrow> nx' a = nx a) \<Longrightarrow> (\<And>a. a \<in> set (tl ys) \<Longrightarrow> pv' a = pv a) \<Longrightarrow>
    links nx' pv' ys \<longleftrightarrow> links nx pv ys"
proof (induction ys rule: induct_list012)
  case (3 a b ys)
  have "links nx' pv' (b # ys) \<longleftrightarrow> links nx pv (b # ys)" using 3 by (intro 3(2)) auto
  then show ?case using 3(3) [of a] 3(4) [of b] by auto
qed auto

lemma links_remove:
  assumes l: "links nx pv (h # us @ b # vs @ [h])" and d: "distinct (us @ b # vs)" "h \<notin> set (us @ b # vs)"
  shows "links (nx(pv b := nx b)) (pv(nx b := pv b)) (h # us @ vs @ [h])"
proof -
  obtain as p where p: "h # us = as @ [p]" by (metis append_butlast_last_id list.distinct(1))
  obtain n ns where n: "vs @ [h] = n # ns" by (cases vs) auto
  have "links nx pv (as @ p # b # n # ns)"
    using l p n by (metis append_Cons append_Nil append_assoc)
  then have parts: "links nx pv (as @ [p])" "nx p = b" "pv b = p" "nx b = n" "pv n = b" "links nx pv (n # ns)"
    using links_append [of nx pv as p "b # n # ns"] by auto
  have sets: "set as \<union> {p} = insert h (set us)" "set ns \<union> {n} = insert h (set vs)"
    using arg_cong [OF p, of set] arg_cong [OF n, of set] by auto
  have dp: "p \<notin> set as" using d p by (metis append_Cons distinct.simps(2) distinct_append
        distinct_butlast butlast_snoc last_snoc not_distinct_conv_prefix Un_iff set_append)
  have tl1: "set (tl (as @ [p])) \<subseteq> set us" using p by (metis list.sel(3) order_refl)
  have bl2: "set (butlast (n # ns)) \<subseteq> set vs" using n by (metis butlast_snoc order_refl)
  have nd: "n \<notin> set ns"
  proof -
    have "distinct (n # ns)" using d unfolding n [symmetric] by auto
    then show ?thesis by simp
  qed
  have "n \<notin> set us" using sets(2) d by auto
  have "p \<notin> set vs" using sets(1) d by auto
  have a1: "links (nx(p := n)) (pv(n := p)) (as @ [p])"
    using parts(1) dp tl1 \<open>n \<notin> set us\<close> by (subst links_cong [where nx = nx and pv = pv]) auto
  have a2: "links (nx(p := n)) (pv(n := p)) (n # ns)"
    using parts(6) nd bl2 \<open>p \<notin> set vs\<close> by (subst links_cong [where nx = nx and pv = pv]) auto
  have "links (nx(p := n)) (pv(n := p)) (as @ p # n # ns)"
    using a1 a2 links_append [of "nx(p := n)" "pv(n := p)" as p "n # ns"] by simp
  moreover have "h # us @ vs @ [h] = as @ p # n # ns" using p n by (metis append_Cons append_assoc append_Nil)
  ultimately show ?thesis using parts by simp
qed

lemma links_insert:
  assumes l: "links nx pv (h # ys @ [h])" and d: "distinct ys" "h \<notin> set ys" "b \<notin> set ys" "b \<noteq> h"
  shows "links (nx(b := nx h, h := b)) (pv(b := h, nx h := b)) (h # b # ys @ [h])"
proof -
  obtain n ns where n: "ys @ [h] = n # ns" by (cases ys) auto
  then have nx: "nx h = n" and rest: "links nx pv (n # ns)" using l by auto
  have bl: "set (butlast (n # ns)) = set ys" using n by (metis butlast_snoc)
  have st: "set (n # ns) = insert h (set ys)" using arg_cong [OF n, of set] by auto
  have "distinct (n # ns)" using d unfolding n [symmetric] by auto
  then have nn: "n \<notin> set ns" by simp
  have "links (nx(b := n, h := b)) (pv(b := h, n := b)) (n # ns)"
    using rest bl st d nn by (subst links_cong [where nx = nx and pv = pv]) auto
  then show ?thesis using n nx d st by auto
qed

section \<open>The list of the buffer cache\<close>

abbreviation nx :: "fsys \<Rightarrow> nat \<Rightarrow> nat" where "nx st \<equiv> \<lambda>i. bnext (bufs st i)"
abbreviation pv :: "fsys \<Rightarrow> nat \<Rightarrow> nat" where "pv st \<equiv> \<lambda>i. bprev (bufs st i)"

definition lru :: "fsys \<Rightarrow> nat list \<Rightarrow> bool" where
  "lru st xs \<longleftrightarrow> links (nx st) (pv st) (HEAD # xs @ [HEAD]) \<and> distinct xs \<and> set xs = {..<NBUF}"

lemma lru_facts:
  assumes "lru st xs"
  shows "distinct xs" "set xs = {..<NBUF}" "HEAD \<notin> set xs" "length xs = NBUF"
    "links (nx st) (pv st) (HEAD # xs @ [HEAD])"
  using assms distinct_card [of xs] by (auto simp: lru_def HEAD_def)

lemma lru_cong:
  assumes "\<And>i. bnext (bufs st' i) = bnext (bufs st i)" "\<And>i. bprev (bufs st' i) = bprev (bufs st i)"
  shows "lru st' xs = lru st xs"
  by (simp add: lru_def assms)

lemma bget_cached_walk:
  assumes "links (nx st) (pv st) (ys @ [HEAD])" "HEAD \<notin> set ys" "length ys < fuel"
  shows "bget_cached fuel st (hd (ys @ [HEAD])) dev bno =
    Inr (find (\<lambda>b. bdev (bufs st b) = dev \<and> bblockno (bufs st b) = bno) ys)"
  using assms
proof (induction ys arbitrary: fuel)
  case Nil
  then show ?case by (cases fuel) auto
next
  case (Cons y ys)
  then obtain f where f: "fuel = Suc f" "length ys < f" by (cases fuel) auto
  have "bnext (bufs st y) = hd (ys @ [HEAD])" "links (nx st) (pv st) (ys @ [HEAD])"
    using Cons.prems(1) by (cases ys; simp)+
  then show ?case using Cons.IH [of f] Cons.prems(2) f by auto
qed

lemma bget_lru_walk:
  assumes "links (nx st) (pv st) (HEAD # ys)" "HEAD \<notin> set ys" "length ys < fuel"
  shows "bget_lru fuel st (last (HEAD # ys)) = Inr (find (\<lambda>b. refcnt (bufs st b) = 0) (rev ys))"
  using assms
proof (induction ys arbitrary: fuel rule: rev_induct)
  case Nil
  then show ?case by (cases fuel) auto
next
  case (snoc y ys)
  then obtain f where f: "fuel = Suc f" "length ys < f" by (cases fuel) auto
  obtain us p where p: "HEAD # ys = us @ [p]" by (metis append_butlast_last_id list.distinct(1))
  have "links (nx st) (pv st) (us @ p # [y])" using snoc.prems(1) p by (metis append_Cons append_assoc append_Nil)
  then have "bprev (bufs st y) = last (HEAD # ys)" "links (nx st) (pv st) (HEAD # ys)"
    using links_append [of _ _ us p "[y]"] p by auto
  then show ?case using snoc.IH [of f] snoc.prems(2) f by auto
qed

lemma links_first: "links n p (h # ys @ [h]) \<Longrightarrow> n h = hd (ys @ [h])"
  by (cases ys) auto

lemma links_last: "links n p (h # ys @ [h]) \<Longrightarrow> p h = last (h # ys)"
  using links_append [of n p "butlast (h # ys)" "last (h # ys)" "[h]"]
  by (simp add: append_butlast_last_id del: last.simps butlast.simps)
    (metis append.assoc append_Cons append_Nil append_butlast_last_id links.simps(1) list.distinct(1))

text \<open>The two searches of \<^verbatim>\<open>bget\<close>.\<close>

lemma bget_cached_lru:
  assumes "lru st xs"
  shows "bget_cached (Suc NBUF) st (bnext (bufs st HEAD)) dev bno =
    Inr (find (\<lambda>b. bdev (bufs st b) = dev \<and> bblockno (bufs st b) = bno) xs)"
proof -
  note l = lru_facts [OF assms]
  have "links (nx st) (pv st) (xs @ [HEAD])" using l(5) by (cases xs) auto
  then show ?thesis
    using bget_cached_walk [of st xs "Suc NBUF"] l links_first [OF l(5)] by simp
qed

lemma bget_lru_lru:
  assumes "lru st xs"
  shows "bget_lru (Suc NBUF) st (bprev (bufs st HEAD)) = Inr (find (\<lambda>b. refcnt (bufs st b) = 0) (rev xs))"
proof -
  note l = lru_facts [OF assms]
  have "links (nx st) (pv st) (HEAD # xs)"
  proof (cases xs rule: rev_cases)
    case (snoc ys y)
    then have "links (nx st) (pv st) ((HEAD # ys) @ y # [HEAD])" using l(5) by simp
    then show ?thesis using links_append [of "nx st" "pv st" "HEAD # ys" y "[HEAD]"] snoc by simp
  qed simp
  then show ?thesis using bget_lru_walk [of st xs "Suc NBUF"] l links_last [OF l(5)] by simp
qed

section \<open>Moving to the front\<close>

lemma link_front_ptrs:
  assumes "b \<noteq> HEAD"
  shows "nx (link_front b st) = (nx st)(b := nx st HEAD, HEAD := b)"
    "pv (link_front b st) = (pv st)(b := HEAD, nx st HEAD := b)"
  using assms by (auto simp: link_front_def upd_buf_def Let_def fun_eq_iff)

text \<open>Nothing but the pointers changes.\<close>

definition same_content :: "buf \<Rightarrow> buf \<Rightarrow> bool" where
  "same_content x y \<longleftrightarrow> y\<lparr>bnext := bnext x, bprev := bprev x\<rparr> = x"

lemma same_content_refl [simp]: "same_content x x"
  by (simp add: same_content_def)

lemma same_contentD:
  "same_content x y \<Longrightarrow> bvalid y = bvalid x \<and> bdev y = bdev x \<and> bblockno y = bblockno x \<and>
    block y = block x \<and> refcnt y = refcnt x \<and> bdata y = bdata x"
  by (cases x; cases y) (auto simp: same_content_def)

lemma same_content_trans: "same_content x y \<Longrightarrow> same_content y z \<Longrightarrow> same_content x z"
  by (cases x; cases y; cases z) (auto simp: same_content_def)

lemma link_front_content: "same_content (bufs st i) (bufs (link_front b st) i)"
  by (cases "bufs st i") (auto simp: link_front_def upd_buf_def Let_def same_content_def)

definition unlink :: "nat \<Rightarrow> fsys \<Rightarrow> fsys" where
  "unlink b st =
    (let st = upd_buf (bnext (bufs st b)) (\<lambda>x. x\<lparr>bprev := bprev (bufs st b)\<rparr>) st
     in upd_buf (bprev (bufs st b)) (\<lambda>x. x\<lparr>bnext := bnext (bufs st b)\<rparr>) st)"

lemma unlink_content: "same_content (bufs st i) (bufs (unlink b st) i)"
  by (cases "bufs st i") (auto simp: unlink_def upd_buf_def Let_def same_content_def)

lemma move_front:
  assumes l: "lru st xs" and b: "b < NBUF"
  shows "lru (link_front b (unlink b st)) (b # remove1 b xs)"
proof -
  note f = lru_facts [OF l]
  obtain us vs where x: "xs = us @ b # vs" using b f(2) by (metis lessThan_iff split_list)
  have bh: "b \<noteq> HEAD" using b by (simp add: HEAD_def)
  have nb: "nx st b \<noteq> b" "pv st b \<noteq> b"
  proof -
    have "links (nx st) (pv st) ((HEAD # us) @ b # vs @ [HEAD])" using f(5) x by simp
    then have 1: "links (nx st) (pv st) ((HEAD # us) @ [b])" "links (nx st) (pv st) (b # vs @ [HEAD])"
      using links_append [of "nx st" "pv st" "HEAD # us" b "vs @ [HEAD]"] by simp_all
    have "nx st b \<in> set (vs @ [HEAD])" using 1(2) by (cases vs) auto
    then show "nx st b \<noteq> b" using f(1) x bh by auto
    obtain as p where "HEAD # us = as @ [p]" by (metis append_butlast_last_id list.distinct(1))
    moreover from this have "pv st b = p" using 1(1) links_append [of "nx st" "pv st" as p "[b]"] by simp
    ultimately have "pv st b \<in> set (HEAD # us)" by simp
    then show "pv st b \<noteq> b" using f(1) x bh by auto
  qed
  have u: "nx (unlink b st) = (nx st)(pv st b := nx st b)" "pv (unlink b st) = (pv st)(nx st b := pv st b)"
    using nb by (auto simp: unlink_def upd_buf_def Let_def fun_eq_iff)
  have d: "distinct (us @ b # vs)" "HEAD \<notin> set (us @ b # vs)"
    "links (nx st) (pv st) (HEAD # us @ b # vs @ [HEAD])" using f(1,3,5) x by simp_all
  have "links (nx (unlink b st)) (pv (unlink b st)) (HEAD # (us @ vs) @ [HEAD])"
    using links_remove [OF d(3,1,2)] unfolding u by simp
  then have "links (nx (link_front b (unlink b st))) (pv (link_front b (unlink b st)))
      (HEAD # b # (us @ vs) @ [HEAD])"
    unfolding link_front_ptrs [OF bh] by (rule links_insert) (use d bh in auto)
  moreover have "remove1 b xs = us @ vs" using f(1) x by (simp add: remove1_append)
  ultimately show ?thesis using f(1,2) b by (auto simp: lru_def x)
qed

lemma binit_loop_lru:
  assumes "links (nx st) (pv st) (HEAD # ys @ [HEAD])" "distinct ys" "distinct bs" "set bs \<inter> set ys = {}"
    "HEAD \<notin> set bs \<union> set ys"
  shows "links (nx (binit_loop bs st)) (pv (binit_loop bs st)) (HEAD # (rev bs @ ys) @ [HEAD])"
  using assms
proof (induction bs arbitrary: st ys)
  case (Cons b bs)
  let ?st = "upd_buf b (\<lambda>x. x\<lparr>block := initsleeplock\<rparr>) st"
  have e: "nx ?st = nx st" "pv ?st = pv st" by (auto simp: upd_buf_def)
  have "links (nx ?st) (pv ?st) (HEAD # ys @ [HEAD])" using Cons.prems(1) by (simp only: e)
  moreover have "b \<noteq> HEAD" using Cons.prems by auto
  ultimately have "links (nx (link_front b ?st)) (pv (link_front b ?st)) (HEAD # b # ys @ [HEAD])"
    unfolding link_front_ptrs [OF \<open>b \<noteq> HEAD\<close>] by (rule_tac links_insert) (use Cons.prems in auto)
  then have "links (nx (link_front b ?st)) (pv (link_front b ?st)) (HEAD # (b # ys) @ [HEAD])" by simp
  from Cons.IH [OF this] show ?case using Cons.prems by simp
qed simp

lemma binit_lru: "lru (binit st) (rev [0..<NBUF])"
proof -
  let ?st = "upd_buf HEAD (\<lambda>x. x\<lparr>bprev := HEAD, bnext := HEAD\<rparr>) st"
  have "links (nx ?st) (pv ?st) (HEAD # [] @ [HEAD])" by (simp add: upd_buf_def)
  from binit_loop_lru [OF this, of "[0..<NBUF]"] show ?thesis
    by (simp add: lru_def binit_def HEAD_def atLeast_upt Let_def)
qed

end
