(* ===== verification/Bio_Cache.thy ===== *)
theory Bio_Cache
  imports Bio_Lru
begin

text \<open>
  What the buffer cache promises to the code above it. \<open>view\<close> is the contents of the disk as the
  kernel sees it, through the cache. The invariant is relative to the buffers \<open>H\<close> that are held (locked) and
  the blocks \<open>P\<close> that the log has pinned: a buffer that is neither held nor pinned agrees with the disk.
\<close>

section \<open>View and invariant\<close>

definition view :: "fsys \<Rightarrow> u32 \<Rightarrow> bdata" where
  "view st b =
    (case find (\<lambda>i. bvalid (bufs st i) \<and> bblockno (bufs st i) = b) [0..<NBUF] of
       Some i \<Rightarrow> bdata (bufs st i)
     | None \<Rightarrow> disk st b)"

definition buf_ok :: "fsys \<Rightarrow> nat set \<Rightarrow> u32 set \<Rightarrow> nat \<Rightarrow> bool" where
  "buf_ok st H P i \<longleftrightarrow>
    (let x = bufs st i
     in (bvalid x \<longrightarrow> bdev x = ROOTDEV) \<and>
        (slocked (block x) \<longleftrightarrow> i \<in> H) \<and> (i \<in> H \<longrightarrow> spid (block x) = curpid st \<and> bvalid x) \<and>
        refcnt x = (if bdev x = ROOTDEV \<and> bblockno x \<in> P then 1 else 0) + (if i \<in> H then 1 else 0) \<and>
        (bvalid x \<and> i \<notin> H \<and> bblockno x \<notin> P \<longrightarrow> bdata x = disk st (bblockno x)))"

definition cache_inv :: "fsys \<Rightarrow> nat set \<Rightarrow> u32 set \<Rightarrow> bool" where
  "cache_inv st H P \<longleftrightarrow>
    (\<exists>xs. lru st xs) \<and> H \<subseteq> {..<NBUF} \<and> finite P \<and>
    (\<forall>i < NBUF. buf_ok st H P i) \<and>
    (\<forall>i < NBUF. \<forall>j < NBUF. bdev (bufs st i) = ROOTDEV \<longrightarrow> bdev (bufs st j) = ROOTDEV \<longrightarrow>
      bblockno (bufs st i) = bblockno (bufs st j) \<longrightarrow> i = j) \<and>
    (\<forall>b \<in> P. \<exists>i < NBUF. bvalid (bufs st i) \<and> bblockno (bufs st i) = b)"

lemma cache_invD:
  assumes "cache_inv st H P"
  shows "\<exists>xs. lru st xs" "H \<subseteq> {..<NBUF}" "finite P" "i < NBUF \<Longrightarrow> buf_ok st H P i"
    "i < NBUF \<Longrightarrow> j < NBUF \<Longrightarrow> bdev (bufs st i) = ROOTDEV \<Longrightarrow> bdev (bufs st j) = ROOTDEV \<Longrightarrow>
      bblockno (bufs st i) = bblockno (bufs st j) \<Longrightarrow> i = j"
    "b \<in> P \<Longrightarrow> \<exists>i < NBUF. bvalid (bufs st i) \<and> bblockno (bufs st i) = b"
  using assms unfolding cache_inv_def by auto

lemma buf_okD:
  assumes "buf_ok st H P i"
  shows "bvalid (bufs st i) \<Longrightarrow> bdev (bufs st i) = ROOTDEV" "slocked (block (bufs st i)) \<longleftrightarrow> i \<in> H"
    "i \<in> H \<Longrightarrow> spid (block (bufs st i)) = curpid st" "i \<in> H \<Longrightarrow> bvalid (bufs st i)"
    "refcnt (bufs st i) = (if bdev (bufs st i) = ROOTDEV \<and> bblockno (bufs st i) \<in> P then 1 else 0) +
      (if i \<in> H then 1 else 0)"
    "bvalid (bufs st i) \<Longrightarrow> i \<notin> H \<Longrightarrow> bblockno (bufs st i) \<notin> P \<Longrightarrow>
      bdata (bufs st i) = disk st (bblockno (bufs st i))"
  using assms unfolding buf_ok_def Let_def by blast+

text \<open>No two valid buffers hold the same block, so that the view is determined.\<close>

definition uniq :: "fsys \<Rightarrow> bool" where
  "uniq st \<longleftrightarrow> (\<forall>i < NBUF. \<forall>j < NBUF. bvalid (bufs st i) \<longrightarrow> bvalid (bufs st j) \<longrightarrow>
    bblockno (bufs st i) = bblockno (bufs st j) \<longrightarrow> i = j)"

lemma cache_uniq: "cache_inv st H P \<Longrightarrow> uniq st"
  unfolding uniq_def using cache_invD(4,5) buf_okD(1) by blast

lemma view_cached:
  assumes "uniq st" "i < NBUF" "bvalid (bufs st i)"
  shows "view st (bblockno (bufs st i)) = bdata (bufs st i)"
proof -
  have "find (\<lambda>j. bvalid (bufs st j) \<and> bblockno (bufs st j) = bblockno (bufs st i)) [0..<NBUF] = Some i"
    using assms unfolding uniq_def find_Some_iff
    by (intro exI [of _ i]) (auto dest: less_trans)
  then show ?thesis by (simp add: view_def)
qed

lemma view_uncached:
  "(\<And>i. i < NBUF \<Longrightarrow> \<not> (bvalid (bufs st i) \<and> bblockno (bufs st i) = b)) \<Longrightarrow> view st b = disk st b"
proof -
  assume "\<And>i. i < NBUF \<Longrightarrow> \<not> (bvalid (bufs st i) \<and> bblockno (bufs st i) = b)"
  then have "find (\<lambda>i. bvalid (bufs st i) \<and> bblockno (bufs st i) = b) [0..<NBUF] = None"
    by (auto simp: find_None_iff)
  then show ?thesis by (simp add: view_def)
qed

text \<open>One buffer is replaced; the others, and the rest of the state, stay.\<close>

definition set_buf :: "nat \<Rightarrow> buf \<Rightarrow> fsys \<Rightarrow> fsys" where
  "set_buf i x st = st\<lparr>bufs := (bufs st)(i := x)\<rparr>"

lemma set_buf_simps [simp]:
  "bufs (set_buf i x st) = (bufs st)(i := x)" "disk (set_buf i x st) = disk st"
  "curpid (set_buf i x st) = curpid st"
  by (simp_all add: set_buf_def)

lemma lru_set_buf:
  "bnext x = bnext (bufs st i) \<Longrightarrow> bprev x = bprev (bufs st i) \<Longrightarrow> lru (set_buf i x st) xs = lru st xs"
  by (rule lru_cong) auto

lemma buf_ok_other: "j \<noteq> i \<Longrightarrow> buf_ok (set_buf i x st) H P j = buf_ok st H P j"
  by (simp add: buf_ok_def)

lemma buf_ok_insert: "j \<noteq> i \<Longrightarrow> buf_ok st (insert i H) P j = buf_ok st H P j"
  by (auto simp: buf_ok_def Let_def)

section \<open>Getting a buffer\<close>

definition got_buf :: "fsys \<Rightarrow> u32 set \<Rightarrow> u32 \<Rightarrow> nat \<Rightarrow> buf \<Rightarrow> bool" where
  "got_buf st P b i x \<longleftrightarrow>
    bvalid x \<and> bdev x = ROOTDEV \<and> bblockno x = b \<and> bdata x = view st b \<and>
    block x = \<lparr>slocked = True, spid = curpid st\<rparr> \<and> refcnt x = (if b \<in> P then 2 else 1) \<and>
    bnext x = bnext (bufs st i) \<and> bprev x = bprev (bufs st i)"

lemma grab:
  assumes inv: "cache_inv st H P" and i: "i < NBUF" "i \<notin> H" and x: "got_buf st P b i x"
    and only: "\<And>j. j < NBUF \<Longrightarrow> j \<noteq> i \<Longrightarrow> \<not> (bdev (bufs st j) = ROOTDEV \<and> bblockno (bufs st j) = b)"
    and old: "bvalid (bufs st i) \<Longrightarrow> bblockno (bufs st i) = b \<or> bblockno (bufs st i) \<notin> P"
  shows "cache_inv (set_buf i x st) (insert i H) P" "view (set_buf i x st) = view st"
proof -
  let ?s = "set_buf i x st"
  note I = cache_invD [OF inv]
  have bi: "buf_ok st H P i" by (rule I(4) [OF i(1)])
  have xi: "buf_ok ?s (insert i H) P i"
    using x i by (auto simp: got_buf_def buf_ok_def Let_def)
  have ok: "buf_ok ?s (insert i H) P j" if "j < NBUF" for j
    using xi I(4) [OF that] by (cases "j = i") (simp_all add: buf_ok_other buf_ok_insert)
  have un: "j = k" if "j < NBUF" "k < NBUF" "bdev (bufs ?s j) = ROOTDEV" "bdev (bufs ?s k) = ROOTDEV"
      "bblockno (bufs ?s j) = bblockno (bufs ?s k)" for j k
  proof -
    have b: "bblockno x = b" using x by (simp add: got_buf_def)
    consider "j = i" "k \<noteq> i" | "j \<noteq> i" "k = i" | "j = k" | "j \<noteq> i" "k \<noteq> i" by blast
    then show ?thesis
    proof cases
      case 1
      then show ?thesis using that only [of k] b by simp
    next
      case 2
      then show ?thesis using that only [of j] b by simp
    next
      case 4
      then show ?thesis using that I(5) [of j k] by simp
    qed
  qed
  have "\<exists>j < NBUF. bvalid (bufs ?s j) \<and> bblockno (bufs ?s j) = p" if p: "p \<in> P" for p
  proof -
    obtain j where j: "j < NBUF" "bvalid (bufs st j)" "bblockno (bufs st j) = p" using I(6) [OF p] by blast
    show ?thesis
    proof (cases "j = i")
      case True
      then have "p = b" using old j p by auto
      then show ?thesis using x i(1) by (intro exI [of _ i]) (simp add: got_buf_def)
    qed (use j in auto)
  qed
  moreover have "\<exists>xs. lru ?s xs" using I(1) x by (simp add: got_buf_def lru_set_buf)
  ultimately show inv': "cache_inv ?s (insert i H) P"
    unfolding cache_inv_def using I(2,3) i(1) ok un by blast
  note u = cache_uniq [OF inv] and u' = cache_uniq [OF inv']
  show "view ?s = view st"
  proof
    fix c
    show "view ?s c = view st c"
    proof (cases "c = b")
      case True
      then show ?thesis using view_cached [OF u', of i] x i(1) by (simp add: got_buf_def)
    next
      case c: False
      show ?thesis
      proof (cases "\<exists>j < NBUF. j \<noteq> i \<and> bvalid (bufs st j) \<and> bblockno (bufs st j) = c")
        case True
        then obtain j where "j < NBUF" "j \<noteq> i" "bvalid (bufs st j)" "bblockno (bufs st j) = c" by blast
        then show ?thesis using view_cached [OF u, of j] view_cached [OF u', of j] by auto
      next
        case False
        then have "view ?s c = disk st c"
          using c x by (subst view_uncached) (auto simp: got_buf_def)
        moreover have "view st c = disk st c"
        proof (cases "bvalid (bufs st i) \<and> bblockno (bufs st i) = c")
          case True
          then show ?thesis
            using view_cached [OF u i(1)] buf_okD(6) [OF bi] old i(2) c by auto
        next
          case no: False
          then show ?thesis using False by (intro view_uncached) auto
        qed
        ultimately show ?thesis by simp
      qed
    qed
  qed
qed


lemma sleeplock_set [simp]: "lk\<lparr>slocked := l, spid := p\<rparr> = \<lparr>slocked = l, spid = p\<rparr>"
  by (cases lk) simp

lemma cached_or_free:
  assumes inv: "cache_inv st H P" and room: "card P + card H < NBUF"
  shows "\<exists>i < NBUF. refcnt (bufs st i) = 0"
proof (rule ccontr)
  assume "\<not> ?thesis"
  then have all: "refcnt (bufs st i) \<noteq> 0" if "i < NBUF" for i using that by blast
  let ?Q = "{i. i < NBUF \<and> bdev (bufs st i) = ROOTDEV \<and> bblockno (bufs st i) \<in> P}"
  note I = cache_invD [OF inv]
  have "{..<NBUF} \<subseteq> H \<union> ?Q"
  proof
    fix i assume "i \<in> {..<NBUF}"
    then have i: "i < NBUF" by simp
    show "i \<in> H \<union> ?Q"
      using all [OF i] buf_okD(5) [OF I(4) [OF i]] i by (auto split: if_splits)
  qed
  moreover have "inj_on (\<lambda>i. bblockno (bufs st i)) ?Q"
    using I(5) by (intro inj_onI) blast
  then have "card ?Q \<le> card P" by (rule card_inj_on_le [OF _ _ I(3)]) auto
  moreover have "finite (H \<union> ?Q)" using I(2) by (auto intro: finite_subset)
  ultimately have "NBUF \<le> card (H \<union> ?Q)" using card_mono [of "H \<union> ?Q" "{..<NBUF}"] by simp
  also have "\<dots> \<le> card H + card ?Q" by (rule card_Un_le)
  finally show False using room \<open>card ?Q \<le> card P\<close> by linarith
qed

lemma bread_set_buf:
  assumes "bget dev b st = Inr (set_buf i x st, i)"
  shows "bread dev b st =
    Inr (set_buf i (if bvalid x then x else x\<lparr>bdata := disk st (bblockno x), bvalid := True\<rparr>) st, i)"
  using assms by (simp add: bread_def virtio_disk_rw_def upd_buf_def set_buf_def Let_def)

lemma bread_cached:
  assumes inv: "cache_inv st H P" and i: "i < NBUF" "i \<notin> H" "bdev (bufs st i) = ROOTDEV" "bblockno (bufs st i) = b"
    and got: "bget_cached (Suc NBUF) st (bnext (bufs st HEAD)) ROOTDEV b = Inr (Some i)"
  shows "\<exists>x. bread ROOTDEV b st = Inr (set_buf i x st, i) \<and> got_buf st P b i x"
proof -
  note I = cache_invD [OF inv]
  note ok = buf_okD [OF I(4) [OF i(1)]]
  let ?x = "(bufs st i)\<lparr>refcnt := refcnt (bufs st i) + 1, block := \<lparr>slocked = True, spid = curpid st\<rparr>\<rparr>"
  have "bget ROOTDEV b st = Inr (set_buf i ?x st, i)"
    using got ok(2) i(2)
    by (simp add: bget_def lock_buf_def acquiresleep_def upd_buf_def set_buf_def)
  note r = bread_set_buf [OF this]
  show ?thesis
  proof (cases "bvalid (bufs st i)")
    case True
    then have "bdata (bufs st i) = view st b" using view_cached [OF cache_uniq [OF inv] i(1)] i(4) by simp
    then show ?thesis using r True ok(5) i by (auto simp: got_buf_def)
  next
    case False
    have "view st b = disk st b"
    proof (rule view_uncached)
      fix j assume j: "j < NBUF"
      show "\<not> (bvalid (bufs st j) \<and> bblockno (bufs st j) = b)"
      proof
        assume v: "bvalid (bufs st j) \<and> bblockno (bufs st j) = b"
        then have "bdev (bufs st j) = ROOTDEV" using buf_okD(1) [OF I(4) [OF j]] by simp
        then have "j = i" using I(5) [OF j i(1)] v i(3,4) by simp
        then show False using v False by simp
      qed
    qed
    then show ?thesis using r False ok(5) i by (auto simp: got_buf_def)
  qed
qed

lemma bread_recycled:
  assumes inv: "cache_inv st H P" and v: "v < NBUF" "refcnt (bufs st v) = 0"
    and none: "\<And>j. j < NBUF \<Longrightarrow> \<not> (bdev (bufs st j) = ROOTDEV \<and> bblockno (bufs st j) = b)"
    and got: "bget_cached (Suc NBUF) st (bnext (bufs st HEAD)) ROOTDEV b = Inr None"
      "bget_lru (Suc NBUF) st (bprev (bufs st HEAD)) = Inr (Some v)"
  shows "\<exists>x. bread ROOTDEV b st = Inr (set_buf v x st, v) \<and> got_buf st P b v x"
proof -
  note I = cache_invD [OF inv]
  note ok = buf_okD [OF I(4) [OF v(1)]]
  have h: "v \<notin> H" using ok(5) v(2) by (auto split: if_splits)
  let ?x = "(bufs st v)\<lparr>bdev := ROOTDEV, bblockno := b, bvalid := False, refcnt := 1,
    block := \<lparr>slocked = True, spid = curpid st\<rparr>\<rparr>"
  have nv: "\<not> (bvalid (bufs st j) \<and> bblockno (bufs st j) = b)" if "j < NBUF" for j
    using none [OF that] buf_okD(1) [OF I(4) [OF that]] by blast
  have "bget ROOTDEV b st = Inr (set_buf v ?x st, v)"
    using got ok(2) h by (simp add: bget_def lock_buf_def acquiresleep_def upd_buf_def set_buf_def)
  note r = bread_set_buf [OF this]
  have "view st b = disk st b" by (rule view_uncached [OF nv])
  moreover have "b \<notin> P" using I(6) [of b] nv by blast
  ultimately show ?thesis using r by (auto simp: got_buf_def)
qed

lemma bread_spec:
  assumes inv: "cache_inv st H P" and b: "\<And>i. i \<in> H \<Longrightarrow> bblockno (bufs st i) \<noteq> b"
    and room: "b \<in> P \<or> card P + card H < NBUF"
  obtains i x where "bread ROOTDEV b st = Inr (set_buf i x st, i)" "got_buf st P b i x" "i < NBUF" "i \<notin> H"
    "cache_inv (set_buf i x st) (insert i H) P" "view (set_buf i x st) = view st"
proof -
  note I = cache_invD [OF inv]
  obtain xs where xs: "lru st xs" using I(1) by blast
  note L = lru_facts [OF xs]
  let ?hit = "\<lambda>i. bdev (bufs st i) = ROOTDEV \<and> bblockno (bufs st i) = b"
  show ?thesis
  proof (cases "find ?hit xs")
    case (Some i)
    then have i: "i < NBUF" "?hit i" using L(2) by (auto simp: find_Some_iff)
    have h: "i \<notin> H" using b i(2) by blast
    obtain x where x: "bread ROOTDEV b st = Inr (set_buf i x st, i)" "got_buf st P b i x"
      using bread_cached [OF inv i(1) h] i(2) bget_cached_lru [OF xs, of ROOTDEV b] Some by auto
    have only: "\<not> (bdev (bufs st j) = ROOTDEV \<and> bblockno (bufs st j) = b)" if "j < NBUF" "j \<noteq> i" for j
      using I(5) [OF that(1) i(1)] i(2) that(2) by auto
    show thesis
      by (rule that [OF x i(1) h grab [OF inv i(1) h x(2) only]]) (use i(2) in auto)
  next
    case None
    then have none: "\<not> ?hit j" if "j < NBUF" for j using that L(2) by (auto simp: find_None_iff)
    have nb: "b \<notin> P"
      using I(6) [of b] none buf_okD(1) [OF I(4)] by blast
    then obtain k where "k < NBUF" "refcnt (bufs st k) = 0"
      using cached_or_free [OF inv] room by blast
    then obtain v where f: "find (\<lambda>b. refcnt (bufs st b) = 0) (rev xs) = Some v"
      using L(2) by (cases "find (\<lambda>b. refcnt (bufs st b) = 0) (rev xs)") (auto simp: find_None_iff)
    then have v: "v < NBUF" "refcnt (bufs st v) = 0" using L(2) by (auto simp: find_Some_iff in_set_conv_nth)
        (metis L(2) length_rev lessThan_iff nth_mem set_rev)
    note ok = buf_okD [OF I(4) [OF v(1)]]
    have h: "v \<notin> H" using ok(5) v(2) by (auto split: if_splits)
    obtain x where x: "bread ROOTDEV b st = Inr (set_buf v x st, v)" "got_buf st P b v x"
      using bread_recycled [OF inv v none] bget_cached_lru [OF xs, of ROOTDEV b] None
        bget_lru_lru [OF xs] f by auto
    have "bblockno (bufs st v) \<notin> P" if "bvalid (bufs st v)"
      using ok(1,5) that v(2) by (auto split: if_splits)
    then show thesis
      using that [OF x v(1) h grab [OF inv v(1) h x(2)]] none by blast
  qed
qed


section \<open>Using and releasing a buffer\<close>

lemma set_data_buf: "set_data i d st = set_buf i ((bufs st i)\<lparr>bdata := d\<rparr>) st"
  by (simp add: set_data_def upd_buf_def set_buf_def)

lemma set_data_simps [simp]:
  "bufs (set_data i d st) = (bufs st)(i := (bufs st i)\<lparr>bdata := d\<rparr>)" "disk (set_data i d st) = disk st"
  "trace (set_data i d st) = trace st" "curpid (set_data i d st) = curpid st"
  by (simp_all add: set_data_def upd_buf_def)

lemma held_ok:
  assumes "cache_inv st H P" "i \<in> H"
  shows "i < NBUF" "bvalid (bufs st i)" "bdev (bufs st i) = ROOTDEV" "block (bufs st i) = \<lparr>slocked = True, spid = curpid st\<rparr>"
    "holdingsleep (curpid st) (block (bufs st i))" "view st (bblockno (bufs st i)) = bdata (bufs st i)"
proof -
  note I = cache_invD [OF assms(1)]
  show i: "i < NBUF" using I(2) assms(2) by auto
  note ok = buf_okD [OF I(4) [OF i]]
  show v: "bvalid (bufs st i)" "bdev (bufs st i) = ROOTDEV" using ok assms(2) by auto
  show "block (bufs st i) = \<lparr>slocked = True, spid = curpid st\<rparr>"
    using ok(2,3) assms(2) by (cases "block (bufs st i)") auto
  then show "holdingsleep (curpid st) (block (bufs st i))" by (simp add: holdingsleep_def)
  show "view st (bblockno (bufs st i)) = bdata (bufs st i)"
    by (rule view_cached [OF cache_uniq [OF assms(1)] i v(1)])
qed

lemma view_upd_buf:
  assumes u: "uniq st" and i: "i < NBUF" "bvalid (bufs st i)"
    and b': "\<And>j. j < NBUF \<Longrightarrow> j \<noteq> i \<Longrightarrow> bvalid (bufs st' j) = bvalid (bufs st j) \<and>
      bblockno (bufs st' j) = bblockno (bufs st j) \<and> bdata (bufs st' j) = bdata (bufs st j)"
    "bvalid (bufs st' i)" "bblockno (bufs st' i) = bblockno (bufs st i)"
    and d: "\<And>c. c \<noteq> bblockno (bufs st i) \<Longrightarrow> disk st' c = disk st c"
  shows "view st' = (view st)(bblockno (bufs st i) := bdata (bufs st' i))"
proof
  have same: "bvalid (bufs st' j) = bvalid (bufs st j)" "bblockno (bufs st' j) = bblockno (bufs st j)"
    if "j < NBUF" for j using b' i that by metis+
  then have u': "uniq st'" using u unfolding uniq_def by metis
  fix c
  show "view st' c = ((view st)(bblockno (bufs st i) := bdata (bufs st' i))) c"
  proof (cases "c = bblockno (bufs st i)")
    case True
    then show ?thesis using view_cached [OF u' i(1) b'(2)] b'(3) by simp
  next
    case c: False
    show ?thesis
    proof (cases "\<exists>j < NBUF. bvalid (bufs st j) \<and> bblockno (bufs st j) = c")
      case True
      then obtain j where j: "j < NBUF" "bvalid (bufs st j)" "bblockno (bufs st j) = c" by blast
      then have "j \<noteq> i" using c by auto
      then show ?thesis
        using view_cached [OF u j(1,2)] view_cached [OF u' j(1)] same [OF j(1)] j b'(1) [OF j(1)] c by simp
    next
      case False
      have "view st c = disk st c" by (rule view_uncached) (use False in blast)
      moreover have "view st' c = disk st' c"
      proof (rule view_uncached)
        fix j assume j: "j < NBUF"
        show "\<not> (bvalid (bufs st' j) \<and> bblockno (bufs st' j) = c)"
          unfolding same [OF j] using False j by blast
      qed
      ultimately show ?thesis using d [OF c] c by simp
    qed
  qed
qed

definition same_key :: "buf \<Rightarrow> buf \<Rightarrow> bool" where
  "same_key x y \<longleftrightarrow> bvalid y = bvalid x \<and> bdev y = bdev x \<and> bblockno y = bblockno x"

lemma cache_inv_change:
  assumes inv: "cache_inv st H P" and l: "\<exists>xs. lru st' xs" and H: "H' \<subseteq> {..<NBUF}" and P: "finite P'"
    and ok: "\<And>j. j < NBUF \<Longrightarrow> buf_ok st' H' P' j"
    and key: "\<And>j. same_key (bufs st j) (bufs st' j)"
    and pin: "\<And>b. b \<in> P' \<Longrightarrow> \<exists>i < NBUF. bvalid (bufs st i) \<and> bblockno (bufs st i) = b"
  shows "cache_inv st' H' P'"
proof -
  have k: "bvalid (bufs st' j) = bvalid (bufs st j)" "bdev (bufs st' j) = bdev (bufs st j)"
    "bblockno (bufs st' j) = bblockno (bufs st j)" for j using key by (simp_all add: same_key_def)
  show ?thesis
    unfolding cache_inv_def k using l H P ok pin cache_invD(5) [OF inv] by blast
qed

text \<open>Writing to the data of a held buffer.\<close>

lemma modify_spec:
  assumes inv: "cache_inv st H P" and i: "i \<in> H"
  shows "cache_inv (set_data i d st) H P" "view (set_data i d st) = (view st)(bblockno (bufs st i) := d)"
proof -
  note I = cache_invD [OF inv] and h = held_ok [OF inv i]
  let ?s = "set_data i d st"
  have p: "\<exists>xs. lru ?s xs" using I(1) by (simp add: set_data_buf lru_set_buf)
  have "buf_ok ?s H P j" if "j < NBUF" for j
    using I(4) [OF that] i by (cases "j = i") (auto simp: buf_ok_def Let_def)
  then show "cache_inv ?s H P"
    by (rule cache_inv_change [OF inv p I(2,3)]) (use I(6) in \<open>auto simp: same_key_def\<close>)
  show "view ?s = (view st)(bblockno (bufs st i) := d)"
    using view_upd_buf [OF cache_uniq [OF inv] h(1,2), of ?s] h(2) by simp
qed

lemma bwrite_spec:
  assumes inv: "cache_inv st H P" and i: "i \<in> H"
  defines "b \<equiv> bblockno (bufs st i)"
  defines "st' \<equiv> st\<lparr>disk := (disk st)(b := view st b), trace := trace st @ [(b, view st b)]\<rparr>"
  shows "bwrite i st = Inr st'" "cache_inv st' H P" "view st' = view st"
proof -
  note I = cache_invD [OF inv] and h = held_ok [OF inv i]
  show "bwrite i st = Inr st'"
    using h(5,6) by (simp add: bwrite_def virtio_disk_rw_def Let_def st'_def b_def)
  have p: "\<exists>xs. lru st' xs" using I(1) by (simp add: st'_def lru_def)
  have "buf_ok st' H P j" if j: "j < NBUF" for j
  proof (cases "bvalid (bufs st j) \<and> j \<notin> H")
    case True
    then have "bblockno (bufs st j) \<noteq> b"
      using I(5) [OF j h(1)] buf_okD(1) [OF I(4) [OF j]] h(3) i by (auto simp: b_def)
    then show ?thesis using I(4) [OF j] by (auto simp: st'_def buf_ok_def Let_def)
  next
    case False
    then show ?thesis using I(4) [OF j] by (auto simp: st'_def buf_ok_def Let_def)
  qed
  then show "cache_inv st' H P"
    by (rule cache_inv_change [OF inv p I(2,3)]) (use I(6) in \<open>auto simp: same_key_def st'_def\<close>)
  show "view st' = view st"
    using view_upd_buf [OF cache_uniq [OF inv] h(1,2), of st'] h(2,6) by (simp add: st'_def b_def fun_upd_idem)
qed

text \<open>
  Releasing a buffer: its block must be pinned by the log or agree with the disk.
\<close>

definition only_bufs :: "fsys \<Rightarrow> fsys \<Rightarrow> bool" where
  "only_bufs st st' \<longleftrightarrow> st' = st\<lparr>bufs := bufs st'\<rparr>"

lemma only_bufs_upd [simp]: "only_bufs st (upd_buf i f st') \<longleftrightarrow> only_bufs st st'"
  by (cases st; cases st') (simp add: only_bufs_def upd_buf_def)

lemma only_bufs_refl [simp]: "only_bufs st st"
  by (simp add: only_bufs_def)

lemma only_bufs_link [simp]: "only_bufs st (link_front b st') \<longleftrightarrow> only_bufs st st'"
  by (simp add: link_front_def Let_def)

lemma only_bufs_unlink [simp]: "only_bufs st (unlink b st') \<longleftrightarrow> only_bufs st st'"
  by (simp add: unlink_def Let_def)

lemma only_bufsD:
  "only_bufs st st' \<Longrightarrow> disk st' = disk st \<and> trace st' = trace st \<and> curpid st' = curpid st \<and>
    lstart st' = lstart st \<and> lsize st' = lsize st \<and> loutstanding st' = loutstanding st \<and>
    lcommitting st' = lcommitting st \<and> ldev st' = ldev st \<and> lh_n st' = lh_n st \<and>
    lh_block st' = lh_block st \<and> sb st' = sb st \<and> itable st' = itable st"
  unfolding only_bufs_def by (cases st; cases st') simp


lemma content_key: "same_content x y \<Longrightarrow> same_key x y"
  using same_contentD [of x y] by (simp add: same_key_def)

lemma brelse_cases:
  assumes "holdingsleep (curpid st) (block (bufs st i))"
  defines "s1 \<equiv> set_buf i ((bufs st i)\<lparr>block := releasesleep (block (bufs st i)), refcnt := refcnt (bufs st i) - 1\<rparr>) st"
  shows "brelse i st = Inr (if refcnt (bufs st i) = 1 then link_front i (unlink i s1) else s1)"
  using assms by (simp add: brelse_def upd_buf_def set_buf_def unlink_def Let_def)

lemma brelse_shape:
  assumes inv: "cache_inv st H P" and i: "i \<in> H"
  defines "x \<equiv> (bufs st i)\<lparr>block := releasesleep (block (bufs st i)), refcnt := refcnt (bufs st i) - 1\<rparr>"
  shows "\<exists>st'. brelse i st = Inr st' \<and> only_bufs st st' \<and> (\<exists>xs. lru st' xs) \<and>
    (\<forall>j. same_content (if j = i then x else bufs st j) (bufs st' j))"
proof -
  note I = cache_invD [OF inv] and h = held_ok [OF inv i]
  let ?s = "set_buf i x st"
  have sb: "bufs ?s j = (if j = i then x else bufs st j)" for j by simp
  have o: "only_bufs st ?s" by (cases st) (simp add: only_bufs_def set_buf_def)
  obtain xs where xs: "lru ?s xs" using I(1) lru_set_buf [of x st i] by (auto simp: x_def)
  note r = brelse_cases [OF h(5), folded x_def]
  show ?thesis
  proof (cases "refcnt (bufs st i) = 1")
    case True
    let ?t = "link_front i (unlink i ?s)"
    have "same_content (bufs ?s j) (bufs ?t j)" for j
      using same_content_trans [OF unlink_content link_front_content] .
    then have "\<forall>j. same_content (if j = i then x else bufs st j) (bufs ?t j)" unfolding sb by blast
    moreover have "\<exists>ys. lru ?t ys" using move_front [OF xs h(1)] by blast
    moreover have "only_bufs st ?t" using o by simp
    moreover have "brelse i st = Inr ?t" using r True by simp
    ultimately show ?thesis by blast
  next
    case False
    have "\<forall>j. same_content (if j = i then x else bufs st j) (bufs ?s j)" by simp
    moreover have "brelse i st = Inr ?s" using r False by simp
    ultimately show ?thesis using o xs by blast
  qed
qed

lemma buf_ok_content:
  assumes "same_content (bufs st i) (bufs st' i)" "disk st' = disk st" "curpid st' = curpid st"
  shows "buf_ok st' H P i = buf_ok st H P i"
  using same_contentD [OF assms(1)] assms(2,3) by (simp add: buf_ok_def Let_def)

lemma view_cong:
  "(\<And>j. bvalid (bufs st' j) = bvalid (bufs st j)) \<Longrightarrow> (\<And>j. bblockno (bufs st' j) = bblockno (bufs st j)) \<Longrightarrow>
    (\<And>j. bdata (bufs st' j) = bdata (bufs st j)) \<Longrightarrow> disk st' = disk st \<Longrightarrow> view st' = view st"
  by (rule ext) (simp add: view_def cong: option.case_cong)

lemma brelse_spec:
  assumes inv: "cache_inv st H P" and i: "i \<in> H"
    and clean: "bblockno (bufs st i) \<in> P \<or> view st (bblockno (bufs st i)) = disk st (bblockno (bufs st i))"
  obtains st' where "brelse i st = Inr st'" "cache_inv st' (H - {i}) P" "view st' = view st" "only_bufs st st'"
    "\<And>j. same_key (bufs st j) (bufs st' j)"
proof -
  note I = cache_invD [OF inv] and h = held_ok [OF inv i]
  let ?x = "(bufs st i)\<lparr>block := releasesleep (block (bufs st i)), refcnt := refcnt (bufs st i) - 1\<rparr>"
  obtain st' where r: "brelse i st = Inr st'" "only_bufs st st'" "\<exists>xs. lru st' xs"
    and c: "\<And>j. same_content (if j = i then ?x else bufs st j) (bufs st' j)"
    using brelse_shape [OF inv i] by blast
  have fix_eqs: "disk st' = disk st" "curpid st' = curpid st" using only_bufsD [OF r(2)] by simp_all
  have key: "same_key (bufs st j) (bufs st' j)" for j
    using content_key [OF c [of j]] by (cases "j = i") (simp_all add: same_key_def)
  have ok: "buf_ok st' (H - {i}) P j" if j: "j < NBUF" for j
  proof -
    have "buf_ok (set_buf i ?x st) (H - {i}) P j"
    proof (cases "j = i")
      case True
      then show ?thesis
        using I(4) [OF h(1)] i clean h(2,3,6) by (auto simp: buf_ok_def Let_def releasesleep_def)
    next
      case False
      then have "buf_ok st (H - {i}) P j = buf_ok st H P j" by (simp add: buf_ok_def)
      then show ?thesis using False I(4) [OF j] by (simp add: buf_ok_other)
    qed
    then show ?thesis using buf_ok_content [of "set_buf i ?x st" j st'] c [of j] fix_eqs by auto
  qed
  have inv': "cache_inv st' (H - {i}) P"
    by (rule cache_inv_change [OF inv r(3) _ I(3) ok key I(6)]) (use I(2) in auto)
  have "view st' = (view st)(bblockno (bufs st i) := bdata (bufs st' i))"
  proof (rule view_upd_buf [OF cache_uniq [OF inv] h(1,2)])
    fix j assume "j < NBUF" "j \<noteq> i"
    then show "bvalid (bufs st' j) = bvalid (bufs st j) \<and> bblockno (bufs st' j) = bblockno (bufs st j) \<and>
        bdata (bufs st' j) = bdata (bufs st j)" using same_contentD [OF c [of j]] by simp
  qed (use key [of i] h(2) fix_eqs in \<open>auto simp: same_key_def\<close>)
  moreover have "bdata (bufs st' i) = view st (bblockno (bufs st i))" using same_contentD [OF c [of i]] h(6) by simp
  ultimately have "view st' = view st" by (simp add: fun_upd_idem)
  then show thesis using that r(1,2) inv' key by blast
qed

text \<open>Pinning a held block and unpinning it again.\<close>

lemma bpin_spec:
  assumes inv: "cache_inv st H P" and i: "i \<in> H" and b: "bblockno (bufs st i) \<notin> P"
  shows "cache_inv (bpin i st) H (insert (bblockno (bufs st i)) P)" "view (bpin i st) = view st"
    "only_bufs st (bpin i st)" "same_key (bufs st j) (bufs (bpin i st) j)"
proof -
  note I = cache_invD [OF inv] and h = held_ok [OF inv i]
  let ?b = "bblockno (bufs st i)" and ?s = "bpin i st"
  show key: "same_key (bufs st j) (bufs ?s j)" for j by (simp add: bpin_def upd_buf_def same_key_def)
  have "buf_ok ?s H (insert ?b P) j" if j: "j < NBUF" for j
  proof (cases "j = i")
    case True
    then show ?thesis using I(4) [OF j] i b h(3) by (auto simp: buf_ok_def Let_def bpin_def upd_buf_def)
  next
    case False
    then have "\<not> (bdev (bufs st j) = ROOTDEV \<and> bblockno (bufs st j) = ?b)" using I(5) [OF j h(1)] h(3) by blast
    then show ?thesis using False I(4) [OF j] by (auto simp: buf_ok_def Let_def bpin_def upd_buf_def)
  qed
  moreover have "\<exists>xs. lru ?s xs" using I(1) lru_cong [of ?s st] by (auto simp: bpin_def upd_buf_def)
  moreover have "\<exists>i < NBUF. bvalid (bufs st i) \<and> bblockno (bufs st i) = c" if "c \<in> insert ?b P" for c
    using that I(6) h(1,2) by auto
  ultimately show "cache_inv ?s H (insert ?b P)"
    by (intro cache_inv_change [OF inv _ I(2) _ _ key]) (use I(3) in auto)
  show "only_bufs st ?s" by (simp add: bpin_def)
  show "view ?s = view st" by (rule view_cong) (auto simp: bpin_def upd_buf_def)
qed

lemma bunpin_spec:
  assumes inv: "cache_inv st H P" and i: "i \<in> H" and b: "bblockno (bufs st i) \<in> P"
  shows "cache_inv (bunpin i st) H (P - {bblockno (bufs st i)})" "view (bunpin i st) = view st"
    "only_bufs st (bunpin i st)" "same_key (bufs st j) (bufs (bunpin i st) j)"
proof -
  note I = cache_invD [OF inv] and h = held_ok [OF inv i]
  let ?b = "bblockno (bufs st i)" and ?s = "bunpin i st"
  show key: "same_key (bufs st j) (bufs ?s j)" for j by (simp add: bunpin_def upd_buf_def same_key_def)
  have "buf_ok ?s H (P - {?b}) j" if j: "j < NBUF" for j
  proof (cases "j = i")
    case True
    then show ?thesis using I(4) [OF j] i b h(3) by (auto simp: buf_ok_def Let_def bunpin_def upd_buf_def)
  next
    case False
    then have "\<not> (bdev (bufs st j) = ROOTDEV \<and> bblockno (bufs st j) = ?b)" using I(5) [OF j h(1)] h(3) by blast
    then show ?thesis using False I(4) [OF j] by (auto simp: buf_ok_def Let_def bunpin_def upd_buf_def)
  qed
  moreover have "\<exists>xs. lru ?s xs" using I(1) lru_cong [of ?s st] by (auto simp: bunpin_def upd_buf_def)
  ultimately show "cache_inv ?s H (P - {?b})"
    by (intro cache_inv_change [OF inv _ I(2) _ _ key]) (use I(3,6) in auto)
  show "only_bufs st ?s" by (simp add: bunpin_def)
  show "view ?s = view st" by (rule view_cong) (auto simp: bunpin_def upd_buf_def)
qed


section \<open>Two buffers at a time\<close>

lemma view_clean:
  assumes inv: "cache_inv st H P" and b: "b \<notin> P" "\<And>i. i \<in> H \<Longrightarrow> bblockno (bufs st i) \<noteq> b"
  shows "view st b = disk st b"
proof (cases "\<exists>i < NBUF. bvalid (bufs st i) \<and> bblockno (bufs st i) = b")
  case True
  then obtain i where i: "i < NBUF" "bvalid (bufs st i)" "bblockno (bufs st i) = b" by blast
  then have "i \<notin> H" using b(2) by blast
  then show ?thesis
    using view_cached [OF cache_uniq [OF inv] i(1,2)] buf_okD(6) [OF cache_invD(4) [OF inv i(1)] i(2)] b(1) i(3)
    by simp
qed (rule view_uncached, blast)

lemma only_bufs_trans: "only_bufs st st1 \<Longrightarrow> only_bufs st1 st2 \<Longrightarrow> only_bufs st st2"
  unfolding only_bufs_def by (cases st; cases st1; cases st2) simp

lemma only_bufs_set_buf [simp]: "only_bufs st (set_buf i x st)"
  by (cases st) (simp add: only_bufs_def set_buf_def)

lemma same_key_trans: "same_key x y \<Longrightarrow> same_key y z \<Longrightarrow> same_key x z"
  by (simp add: same_key_def)

definition holds :: "fsys \<Rightarrow> nat \<Rightarrow> u32 \<Rightarrow> bool" where
  "holds st i b \<longleftrightarrow> bblockno (bufs st i) = b \<and> bdata (bufs st i) = view st b"

lemma get1:
  assumes inv: "cache_inv st {} P" and room: "b \<in> P \<or> card P < NBUF"
  obtains st' i where "bread ROOTDEV b st = Inr (st', i)" "cache_inv st' {i} P" "view st' = view st"
    "only_bufs st st'" "holds st' i b"
proof -
  obtain i x where r: "bread ROOTDEV b st = Inr (set_buf i x st, i)" "got_buf st P b i x"
    "cache_inv (set_buf i x st) (insert i {}) P" "view (set_buf i x st) = view st"
    by (rule bread_spec [OF inv, of b]) (use room in auto)
  then show thesis using that [of "set_buf i x st" i] by (simp add: holds_def got_buf_def)
qed

lemma get2:
  assumes inv: "cache_inv st {} P" and ab: "a \<noteq> b" and room: "a \<in> P \<or> card P < NBUF" "b \<in> P \<or> card P + 1 < NBUF"
  obtains st1 i st2 j where "bread ROOTDEV a st = Inr (st1, i)" "bread ROOTDEV b st1 = Inr (st2, j)" "i \<noteq> j"
    "cache_inv st2 {i, j} P" "view st2 = view st" "only_bufs st st1" "only_bufs st st2"
    "holds st2 i a" "holds st2 j b"
proof -
  obtain st1 i where 1: "bread ROOTDEV a st = Inr (st1, i)" "cache_inv st1 {i} P" "view st1 = view st"
    "only_bufs st st1" "holds st1 i a" using get1 [OF inv room(1)] .
  obtain j x where 2: "bread ROOTDEV b st1 = Inr (set_buf j x st1, j)" "got_buf st1 P b j x" "j \<notin> {i}"
    "cache_inv (set_buf j x st1) (insert j {i}) P" "view (set_buf j x st1) = view st1"
    by (rule bread_spec [OF 1(2), of b]) (use 1(5) ab room(2) in \<open>auto simp: holds_def\<close>)
  have "only_bufs st (set_buf j x st1)" using only_bufs_trans [OF 1(4) only_bufs_set_buf] .
  moreover have "holds (set_buf j x st1) i a" "holds (set_buf j x st1) j b"
    using 1(3,5) 2 by (auto simp: holds_def got_buf_def)
  ultimately show thesis using that [OF 1(1) 2(1) _ _ _ 1(4)] 1 2 by (simp add: insert_commute)
qed

lemma put1:
  assumes inv: "cache_inv st {i} P" and clean: "bblockno (bufs st i) \<in> P \<or> view st (bblockno (bufs st i)) = disk st (bblockno (bufs st i))"
  obtains st' where "brelse i st = Inr st'" "cache_inv st' {} P" "view st' = view st" "only_bufs st st'"
  by (rule brelse_spec [OF inv _ clean]) (auto intro: that)

lemma put2:
  assumes inv: "cache_inv st {i, j} P" and ij: "i \<noteq> j"
    and clean: "\<And>k. k \<in> {i, j} \<Longrightarrow> bblockno (bufs st k) \<in> P \<or> view st (bblockno (bufs st k)) = disk st (bblockno (bufs st k))"
  obtains st1 st2 where "brelse i st = Inr st1" "brelse j st1 = Inr st2" "cache_inv st2 {} P" "view st2 = view st"
    "only_bufs st st2"
proof -
  obtain st1 where 1: "brelse i st = Inr st1" "cache_inv st1 ({i, j} - {i}) P" "view st1 = view st" "only_bufs st st1"
    "\<And>k. same_key (bufs st k) (bufs st1 k)"
    by (rule brelse_spec [OF inv, of i]) (use clean in auto)
  have h: "{i, j} - {i} = {j}" using ij by auto
  have k: "bblockno (bufs st1 j) = bblockno (bufs st j)" using 1(5) [of j] by (simp add: same_key_def)
  obtain st2 where 2: "brelse j st1 = Inr st2" "cache_inv st2 {} P" "view st2 = view st1" "only_bufs st1 st2"
    by (rule put1 [OF 1(2) [unfolded h]]) (use clean [of j] only_bufsD [OF 1(4)] 1(3) k in auto)
  show thesis using that [OF 1(1) 2(1,2)] 1(3) 2(3) only_bufs_trans [OF 1(4) 2(4)] by simp
qed

end
