(* ===== verification/Log_Crash.thy ===== *)
theory Log_Crash
  imports Log Bio_Cache
begin

text \<open>
  The log makes a transaction atomic. A crash keeps a prefix of the writes to the disk that the kernel
  has issued; after the crash the kernel boots with an empty cache and recovers, and may crash again on the
  way. Whatever happens, the blocks outside the log end up with the contents they had before
  the transaction, all of them, or with the contents that the transaction gave them, all of them.
\<close>

section \<open>Sequences of disk writes\<close>

definition apply_writes :: "(u32 \<times> bdata) list \<Rightarrow> (u32 \<Rightarrow> bdata) \<Rightarrow> u32 \<Rightarrow> bdata" where
  "apply_writes ws d = fold (\<lambda>(b, v) d. d(b := v)) ws d"

lemma apply_writes_simps [simp]:
  "apply_writes [] d = d" "apply_writes ((b, v) # ws) d = apply_writes ws (d(b := v))"
  "apply_writes (ws @ us) d = apply_writes us (apply_writes ws d)"
  by (simp_all add: apply_writes_def)

lemma apply_writes_other: "b \<notin> fst ` set ws \<Longrightarrow> apply_writes ws d b = d b"
proof (induction ws arbitrary: d)
  case (Cons w ws)
  then show ?case by (cases w) auto
qed simp

lemma apply_writes_map:
  assumes "inj_on f (set ts)" "t \<in> set ts"
  shows "apply_writes (map (\<lambda>t. (f t, g t)) ts) d (f t) = g t"
  using assms
proof (induction ts arbitrary: d)
  case (Cons a ts)
  show ?case
  proof (cases "t \<in> set ts")
    case True
    then show ?thesis using Cons by simp
  next
    case False
    then have t: "t = a" using Cons.prems by simp
    have "f a \<notin> f ` set ts" using Cons.prems False t by (auto simp: inj_on_def)
    then show ?thesis using t by (simp add: apply_writes_other image_image)
  qed
qed simp

text \<open>What a piece of log code does: it issues the writes \<open>ws\<close>, to the disk and to the view.\<close>

definition wrote :: "fsys \<Rightarrow> (u32 \<times> bdata) list \<Rightarrow> fsys \<Rightarrow> bool" where
  "wrote st ws st' \<longleftrightarrow> disk st' = apply_writes ws (disk st) \<and> trace st' = trace st @ ws \<and>
    view st' = apply_writes ws (view st) \<and>
    (\<exists>d t b. st' = st\<lparr>disk := d, trace := t, bufs := b\<rparr>)"

lemma wrote_trans: "wrote st ws st1 \<Longrightarrow> wrote st1 us st2 \<Longrightarrow> wrote st (ws @ us) st2"
  unfolding wrote_def by (cases st; cases st1; cases st2) auto

lemma wrote_only_bufs: "only_bufs st st' \<Longrightarrow> view st' = view st \<Longrightarrow> wrote st [] st'"
proof -
  assume o: "only_bufs st st'" and "view st' = view st"
  moreover have "st' = st\<lparr>disk := disk st, trace := trace st, bufs := bufs st'\<rparr>"
    using o unfolding only_bufs_def by (cases st; cases st') simp
  ultimately show ?thesis using only_bufsD [OF o] unfolding wrote_def by (metis append_Nil2 apply_writes_simps(1))
qed

lemma wroteD:
  assumes "wrote st ws st'"
  shows "disk st' = apply_writes ws (disk st)" "trace st' = trace st @ ws" "view st' = apply_writes ws (view st)"
    "lstart st' = lstart st" "ldev st' = ldev st" "lh_n st' = lh_n st" "lh_block st' = lh_block st"
    "lsize st' = lsize st" "loutstanding st' = loutstanding st" "lcommitting st' = lcommitting st" "sb st' = sb st"
    "itable st' = itable st" "curpid st' = curpid st"
  using assms unfolding wrote_def by auto

section \<open>Copying one block\<close>

lemma wrote_modify_bwrite:
  assumes inv: "cache_inv st H P" and i: "i \<in> H"
  defines "b \<equiv> bblockno (bufs st i)"
  obtains st' where "bwrite i (set_data i v st) = Inr st'" "cache_inv st' H P" "wrote st [(b, v)] st'"
    "view st' b = v" "disk st' b = v" "\<And>j. same_key (bufs st j) (bufs st' j)"
proof -
  let ?s = "set_data i v st"
  note m = modify_spec [OF inv i, of v]
  have bi: "bblockno (bufs ?s i) = b" by (simp add: b_def)
  have vb: "view ?s b = v" using m(2) by (simp add: b_def)
  let ?t = "?s\<lparr>disk := (disk ?s)(b := v), trace := trace ?s @ [(b, v)]\<rparr>"
  note w = bwrite_spec [OF m(1) i, unfolded bi vb]
  have "wrote st [(b, v)] ?t"
    unfolding wrote_def using w(3) m(2)
    by (cases st) (auto simp: b_def set_data_def upd_buf_def)
  moreover have "same_key (bufs st j) (bufs ?t j)" for j by (simp add: same_key_def)
  ultimately show thesis using that [OF w(1,2)] w(3) vb by simp
qed

lemma copy_to_log:
  assumes inv: "cache_inv st {} P" and P: "card P < NBUF" and a: "a \<notin> P" and b: "b \<in> P"
  obtains st1 i st2 j st3 st4 st5 where "bread ROOTDEV a st = Inr (st1, i)" "bread ROOTDEV b st1 = Inr (st2, j)"
    "bwrite i (set_data i (bdata (bufs st2 j)) st2) = Inr st3" "brelse j st3 = Inr st4" "brelse i st4 = Inr st5"
    "cache_inv st5 {} P" "wrote st [(a, view st b)] st5" "only_bufs st st1"
proof -
  obtain st1 i st2 j where g: "bread ROOTDEV a st = Inr (st1, i)" "bread ROOTDEV b st1 = Inr (st2, j)" "i \<noteq> j"
    "cache_inv st2 {i, j} P" "view st2 = view st" "only_bufs st st1" "only_bufs st st2"
    "holds st2 i a" "holds st2 j b"
    by (rule get2 [OF inv, of a b]) (use a b P in auto)
  have ia: "bblockno (bufs st2 i) = a" and jb: "bblockno (bufs st2 j) = b" "bdata (bufs st2 j) = view st b"
    using g(5,8,9) by (simp_all add: holds_def)
  obtain st3 where w: "bwrite i (set_data i (view st b) st2) = Inr st3" "cache_inv st3 {i, j} P"
    "wrote st2 [(a, view st b)] st3" "view st3 a = view st b" "disk st3 a = view st b"
    "\<And>k. same_key (bufs st2 k) (bufs st3 k)"
    by (rule wrote_modify_bwrite [OF g(4), of i "view st b"]) (auto simp: ia)
  have k: "bblockno (bufs st3 i) = a" "bblockno (bufs st3 j) = b" using w(6) ia jb by (auto simp: same_key_def)
  obtain st4 st5 where p: "brelse j st3 = Inr st4" "brelse i st4 = Inr st5" "cache_inv st5 {} P" "view st5 = view st3"
    "only_bufs st3 st5"
    by (rule put2 [of st3 j i P]) (use w g(3) k b in \<open>auto simp: insert_commute\<close>)
  have "wrote st [(a, view st b)] st5"
    using wrote_trans [OF wrote_only_bufs [OF g(7,5)] wrote_trans [OF w(3) wrote_only_bufs [OF p(5,4)]]] by simp
  then show thesis using that [OF g(1,2) _ p(1,2,3)] w(1) jb(2) g(6) by simp
qed

lemma copy_home:
  assumes inv: "cache_inv st {} P" and P: "card P < NBUF" and a: "a \<notin> P" "a \<noteq> b"
    and b: "if rec then P = {} else b \<in> P"
  obtains st1 i st2 j st3 st4 st5 where "bread ROOTDEV a st = Inr (st1, i)" "bread ROOTDEV b st1 = Inr (st2, j)"
    "bwrite j (set_data j (bdata (bufs st2 i)) st2) = Inr st3"
    "brelse i (if \<not> rec then bunpin j st3 else st3) = Inr st4" "brelse j st4 = Inr st5"
    "cache_inv st5 {} (P - {b})" "wrote st [(b, view st a)] st5" "only_bufs st st1"
proof -
  obtain st1 i st2 j where g: "bread ROOTDEV a st = Inr (st1, i)" "bread ROOTDEV b st1 = Inr (st2, j)" "i \<noteq> j"
    "cache_inv st2 {i, j} P" "view st2 = view st" "only_bufs st st1" "only_bufs st st2"
    "holds st2 i a" "holds st2 j b"
    by (rule get2 [OF inv, of a b]) (use a b P in \<open>auto simp: NBUF_def split: if_splits\<close>)
  have ia: "bblockno (bufs st2 i) = a" "bdata (bufs st2 i) = view st a" and jb: "bblockno (bufs st2 j) = b"
    using g(5,8,9) by (simp_all add: holds_def)
  obtain st3 where w: "bwrite j (set_data j (view st a) st2) = Inr st3" "cache_inv st3 {i, j} P"
    "wrote st2 [(b, view st a)] st3" "view st3 b = view st a" "disk st3 b = view st a"
    "\<And>k. same_key (bufs st2 k) (bufs st3 k)"
    by (rule wrote_modify_bwrite [OF g(4), of j "view st a"]) (auto simp: jb)
  have k: "bblockno (bufs st3 i) = a" "bblockno (bufs st3 j) = b" using w(6) ia jb by (auto simp: same_key_def)
  define s where "s = (if \<not> rec then bunpin j st3 else st3)"
  have s: "cache_inv s {i, j} (P - {b})" "view s = view st3" "only_bufs st3 s" "\<And>k. same_key (bufs st3 k) (bufs s k)"
    using bunpin_spec [OF w(2), of j] w(2) b by (auto simp: s_def k same_key_def)
  have ks: "bblockno (bufs s i) = a" "bblockno (bufs s j) = b" using s(4) k by (auto simp: same_key_def)
  have "view st a = disk st a" by (rule view_clean [OF inv a(1)]) simp
  then have ca: "view s a = disk s a"
    using only_bufsD [OF s(3)] s(2) wroteD(1,3) [OF w(3)] only_bufsD [OF g(7)] g(5) a(2) by simp
  have cb: "view s b = disk s b" using only_bufsD [OF s(3)] s(2) w(4,5) by simp
  obtain st4 st5 where p: "brelse i s = Inr st4" "brelse j st4 = Inr st5" "cache_inv st5 {} (P - {b})"
    "view st5 = view s" "only_bufs s st5"
    by (rule put2 [OF s(1) g(3)]) (use ks ca cb in auto)
  have "wrote s [] st5" "wrote st3 [] s" using wrote_only_bufs [OF p(5,4)] wrote_only_bufs [OF s(3,2)] .
  then have "wrote st [(b, view st a)] st5"
    using wrote_trans [OF wrote_only_bufs [OF g(7,5)] wrote_trans [OF w(3) wrote_trans]] by fastforce
  then show thesis using that [OF g(1,2) _ _ p(2,3)] w(1) ia(2) g(6) p(1) s_def by simp
qed


section \<open>The loops of the log\<close>

lemma LOGSIZE_pos [simp]: "0 < LOGSIZE"
  by (simp add: LOGSIZE_def)

text \<open>Block \<open>k\<close> of the log; block 0 is the header. The log is \<^verbatim>\<open>LOGSIZE\<close> blocks long, its header included.\<close>

definition logb :: "u32 \<Rightarrow> nat \<Rightarrow> u32" where
  "logb s k = s + of_nat k"

definition log_region :: "u32 \<Rightarrow> u32 set" where
  "log_region s = logb s ` {..<LOGSIZE}"

lemma logb_inj: "i \<le> LOGSIZE \<Longrightarrow> j \<le> LOGSIZE \<Longrightarrow> logb s i = logb s j \<longleftrightarrow> i = j"
proof -
  assume "i \<le> LOGSIZE" "j \<le> LOGSIZE"
  then have "(of_nat i :: u32) = of_nat j \<longleftrightarrow> i = j" by (auto simp: LOGSIZE_def word_unat_eq_iff unat_of_nat)
  then show ?thesis by (simp add: logb_def)
qed

lemma logb_Suc: "s + of_nat t + 1 = logb s (Suc t)"
  by (simp add: logb_def)

lemma logb_region: "k < LOGSIZE \<Longrightarrow> logb s k \<in> log_region s"
  by (simp add: log_region_def)

lemma logb_0: "logb s 0 = s"
  by (simp add: logb_def)

text \<open>The blocks that a header names: outside the log, and no block twice.\<close>

definition homes :: "u32 \<Rightarrow> nat \<Rightarrow> (nat \<Rightarrow> u32) \<Rightarrow> bool" where
  "homes s n blk \<longleftrightarrow> n < LOGSIZE \<and> inj_on blk {..<n} \<and> blk ` {..<n} \<inter> log_region s = {}"

lemma homesD:
  assumes "homes s n blk"
  shows "n < LOGSIZE" "inj_on blk {..<n}" "t < n \<Longrightarrow> blk t \<notin> log_region s"
    "t < n \<Longrightarrow> k < LOGSIZE \<Longrightarrow> logb s k \<noteq> blk t" "t < n \<Longrightarrow> blk t \<noteq> s"
    "k < LOGSIZE \<Longrightarrow> logb s k \<notin> blk ` {..<n}" "card (blk ` {..<n}) < NBUF"
proof -
  show 1: "n < LOGSIZE" "inj_on blk {..<n}" and 2: "t < n \<Longrightarrow> blk t \<notin> log_region s"
    using assms unfolding homes_def by auto
  then show "t < n \<Longrightarrow> k < LOGSIZE \<Longrightarrow> logb s k \<noteq> blk t" using logb_region by metis
  show "t < n \<Longrightarrow> blk t \<noteq> s" using logb_region [of 0 s] 2 by (auto simp: logb_0)
  show "k < LOGSIZE \<Longrightarrow> logb s k \<notin> blk ` {..<n}" using assms logb_region [of k s] unfolding homes_def by blast
  show "card (blk ` {..<n}) < NBUF" using 1(1) card_image_le [of "{..<n}" blk] by (simp add: LOGSIZE_def NBUF_def)
qed

lemma write_log_loop_spec:
  assumes "cache_inv st {} P" "card P < NBUF" "ldev st = ROOTDEV" "set ts \<subseteq> {..<LOGSIZE}"
    "\<And>t. t \<in> set ts \<Longrightarrow> logb (lstart st) (Suc t) \<notin> P" "\<And>t. t \<in> set ts \<Longrightarrow> lh_block st t \<in> P"
  shows "\<exists>st'. write_log_loop ts st = Inr st' \<and> cache_inv st' {} P \<and>
    wrote st (map (\<lambda>t. (logb (lstart st) (Suc t), view st (lh_block st t))) ts) st'"
  using assms
proof (induction ts arbitrary: st)
  case Nil
  then show ?case using wrote_only_bufs [OF only_bufs_refl refl, of st] by auto
next
  case (Cons t ts)
  let ?a = "logb (lstart st) (Suc t)" and ?b = "lh_block st t"
  obtain st1 i st2 j st3 st4 st5 where c: "bread ROOTDEV ?a st = Inr (st1, i)" "bread ROOTDEV ?b st1 = Inr (st2, j)"
    "bwrite i (set_data i (bdata (bufs st2 j)) st2) = Inr st3" "brelse j st3 = Inr st4" "brelse i st4 = Inr st5"
    "cache_inv st5 {} P" "wrote st [(?a, view st ?b)] st5" "only_bufs st st1"
    by (rule copy_to_log [OF Cons.prems(1,2), of ?a ?b]) (use Cons.prems(5,6) in auto)
  note o = only_bufsD [OF c(8)] and w = wroteD [OF c(7)]
  have v: "view st5 (lh_block st u) = view st (lh_block st u)" if "u \<in> set ts" for u
    using w(3) Cons.prems(5) [of t] Cons.prems(6) [of u] that by auto
  obtain st' where r: "write_log_loop ts st5 = Inr st'" "cache_inv st' {} P"
    "wrote st5 (map (\<lambda>t. (logb (lstart st5) (Suc t), view st5 (lh_block st5 t))) ts) st'"
    using Cons.IH [OF c(6) Cons.prems(2)] Cons.prems(3-6) w(4,5,7) by auto
  have e: "map (\<lambda>t. (logb (lstart st5) (Suc t), view st5 (lh_block st5 t))) ts =
      map (\<lambda>t. (logb (lstart st) (Suc t), view st (lh_block st t))) ts" using v w(4,7) by simp
  have "write_log_loop (t # ts) st = Inr st'"
    using c(1-5) r(1) o Cons.prems(3) by (simp add: logb_Suc)
  then show ?case using r(2) wrote_trans [OF c(7) r(3) [unfolded e]] by auto
qed

lemma install_loop_spec:
  assumes "cache_inv st {} P" "card P < NBUF" "ldev st = ROOTDEV" "set ts \<subseteq> {..<LOGSIZE}" "distinct ts"
    "inj_on (lh_block st) (set ts)"
    "\<And>t u. t \<in> set ts \<Longrightarrow> u \<in> set ts \<Longrightarrow> logb (lstart st) (Suc t) \<noteq> lh_block st u"
    "\<And>t. t \<in> set ts \<Longrightarrow> logb (lstart st) (Suc t) \<notin> P"
    "if rec then P = {} else lh_block st ` set ts \<subseteq> P"
  shows "\<exists>st'. install_loop rec ts st = Inr st' \<and> cache_inv st' {} (P - lh_block st ` set ts) \<and>
    wrote st (map (\<lambda>t. (lh_block st t, view st (logb (lstart st) (Suc t)))) ts) st'"
  using assms
proof (induction ts arbitrary: st P)
  case Nil
  then show ?case using wrote_only_bufs [OF only_bufs_refl refl, of st] by auto
next
  case (Cons t ts)
  let ?a = "logb (lstart st) (Suc t)" and ?b = "lh_block st t"
  obtain st1 i st2 j st3 st4 st5 where c: "bread ROOTDEV ?a st = Inr (st1, i)" "bread ROOTDEV ?b st1 = Inr (st2, j)"
    "bwrite j (set_data j (bdata (bufs st2 i)) st2) = Inr st3"
    "brelse i (if \<not> rec then bunpin j st3 else st3) = Inr st4" "brelse j st4 = Inr st5"
    "cache_inv st5 {} (P - {?b})" "wrote st [(?b, view st ?a)] st5" "only_bufs st st1"
    by (rule copy_home [OF Cons.prems(1,2), of ?a ?b rec]) (use Cons.prems(7,8,9) in \<open>auto split: if_splits\<close>)
  note o = only_bufsD [OF c(8)] and w = wroteD [OF c(7)]
  have v: "view st5 (logb (lstart st) (Suc u)) = view st (logb (lstart st) (Suc u))" if "u \<in> set ts" for u
    using w(3) Cons.prems(7) [of u t] that by auto
  have nb: "?b \<notin> lh_block st ` set ts" using Cons.prems(5,6) by auto
  have "card (P - {?b}) \<le> card P" using cache_invD(3) [OF Cons.prems(1)] by (simp add: card_mono)
  then have "card (P - {?b}) < NBUF" using Cons.prems(2) by linarith
  moreover have "if rec then P - {?b} = {} else lh_block st5 ` set ts \<subseteq> P - {?b}"
    using Cons.prems(9) nb w(7) by (auto split: if_splits) (metis image_eqI)
  ultimately obtain st' where r: "install_loop rec ts st5 = Inr st'"
    "cache_inv st' {} (P - {?b} - lh_block st5 ` set ts)"
    "wrote st5 (map (\<lambda>t. (lh_block st5 t, view st5 (logb (lstart st5) (Suc t)))) ts) st'"
    using Cons.IH [OF c(6)] Cons.prems(3-8) w(4,5,7) by (auto simp: subset_iff)
  have e: "map (\<lambda>t. (lh_block st5 t, view st5 (logb (lstart st5) (Suc t)))) ts =
      map (\<lambda>t. (lh_block st t, view st (logb (lstart st) (Suc t)))) ts" using v w(4,7) by simp
  have p: "P - {?b} - lh_block st5 ` set ts = P - lh_block st ` set (t # ts)" using w(7) by auto
  have "install_loop rec (t # ts) st = Inr st'"
    using c(1-5) r(1) o Cons.prems(3) by (simp add: logb_Suc Let_def)
  moreover have "wrote st (map (\<lambda>t. (lh_block st t, view st (logb (lstart st) (Suc t)))) (t # ts)) st'"
    using wrote_trans [OF c(7) r(3) [unfolded e]] by simp
  ultimately show ?case using r(2) [unfolded p] by blast
qed

section \<open>The header\<close>

lemma hd_put_blocks:
  assumes "n < LOGSIZE"
  shows "i < n \<Longrightarrow> ld32 (put_blocks n blk d) (4 + 4 * i) = blk i" "ld32 (put_blocks n blk d) 0 = ld32 d 0"
  using assms
proof (induction n)
  case (Suc n)
  {
    case 1
    then show ?case
      using Suc ld32_st32 [of "4 + 4 * n" "4 + 4 * i"]
      by (cases "i = n") (auto simp: LOGSIZE_def)
  next
    case 2
    then show ?case using Suc ld32_st32(2) [of "4 + 4 * n" 0] by (simp add: LOGSIZE_def)
  }
qed simp_all

lemma hd_put_head:
  assumes "n < LOGSIZE"
  shows "hd_n (put_head (int n) blk d) = int n" "i < n \<Longrightarrow> hd_block (put_head (int n) blk d) i = blk i"
proof -
  have "ld32 (st32 d 0 (word_of_int (int n))) 0 = (word_of_int (int n) :: u32)" by (rule ld32_st32(1) [of 0 0]) auto
  moreover have "sint (word_of_int (int n) :: u32) = int n"
    using assms by (simp add: signed_of_nat LOGSIZE_def signed_take_bit_int_eq_self)
  ultimately show "hd_n (put_head (int n) blk d) = int n"
    using hd_put_blocks(2) [OF assms, of blk] by (simp add: hd_n_def put_head_def)
  show "i < n \<Longrightarrow> hd_block (put_head (int n) blk d) i = blk i"
    using hd_put_blocks(1) [OF assms] by (simp add: hd_block_def put_head_def)
qed

lemma write_head_spec:
  assumes inv: "cache_inv st {} P" and P: "card P < NBUF" "lstart st \<notin> P" and d: "ldev st = ROOTDEV"
  obtains st' where "write_head st = Inr st'" "cache_inv st' {} P"
    "wrote st [(lstart st, put_head (lh_n st) (lh_block st) (view st (lstart st)))] st'"
proof -
  let ?s = "lstart st" and ?h = "put_head (lh_n st) (lh_block st) (view st (lstart st))"
  obtain st1 i where g: "bread ROOTDEV ?s st = Inr (st1, i)" "cache_inv st1 {i} P" "view st1 = view st"
    "only_bufs st st1" "holds st1 i ?s" by (rule get1 [OF inv, of ?s]) (use P in auto)
  have i: "bblockno (bufs st1 i) = ?s" "bdata (bufs st1 i) = view st ?s" using g(3,5) by (auto simp: holds_def)
  note o = only_bufsD [OF g(4)]
  obtain st2 where w: "bwrite i (set_data i ?h st1) = Inr st2" "cache_inv st2 {i} P" "wrote st1 [(?s, ?h)] st2"
    "view st2 ?s = ?h" "disk st2 ?s = ?h" "\<And>j. same_key (bufs st1 j) (bufs st2 j)"
    by (rule wrote_modify_bwrite [OF g(2), of i ?h]) (auto simp: i)
  have "bblockno (bufs st2 i) = ?s" using w(6) [of i] i by (simp add: same_key_def)
  then obtain st3 where p: "brelse i st2 = Inr st3" "cache_inv st3 {} P" "view st3 = view st2" "only_bufs st2 st3"
    by (rule_tac put1 [OF w(2)]) (use w(4,5) in auto)
  have "write_head st = Inr st3" using g(1) w(1) p(1) o d i(2) by (simp add: write_head_def)
  moreover have "wrote st [(?s, ?h)] st3"
    using wrote_trans [OF wrote_only_bufs [OF g(4,3)] wrote_trans [OF w(3) wrote_only_bufs [OF p(4,3)]]] by simp
  ultimately show thesis using that p(2) by blast
qed


section \<open>Commit and recovery\<close>

lemma log_fields_irrelevant [simp]:
  "cache_inv (st\<lparr>lh_n := n\<rparr>) H P = cache_inv st H P" "view (st\<lparr>lh_n := n\<rparr>) = view st"
  "cache_inv (st\<lparr>lh_block := f\<rparr>) H P = cache_inv st H P" "view (st\<lparr>lh_block := f\<rparr>) = view st"
  "cache_inv (st\<lparr>lcommitting := c\<rparr>) H P = cache_inv st H P" "view (st\<lparr>lcommitting := c\<rparr>) = view st"
  "cache_inv (st\<lparr>loutstanding := m\<rparr>) H P = cache_inv st H P" "view (st\<lparr>loutstanding := m\<rparr>) = view st"
  "cache_inv (st\<lparr>lstart := w\<rparr>) H P = cache_inv st H P" "view (st\<lparr>lstart := w\<rparr>) = view st"
  "cache_inv (st\<lparr>lsize := w\<rparr>) H P = cache_inv st H P" "view (st\<lparr>lsize := w\<rparr>) = view st"
  "cache_inv (st\<lparr>ldev := w\<rparr>) H P = cache_inv st H P" "view (st\<lparr>ldev := w\<rparr>) = view st"
  by (simp_all add: cache_inv_def buf_ok_def lru_def view_def [abs_def] cong: option.case_cong)

lemma wrote_lh_n: "wrote st ws st' \<Longrightarrow> wrote (st\<lparr>lh_n := k\<rparr>) ws (st'\<lparr>lh_n := k\<rparr>)"
proof -
  assume w: "wrote st ws st'"
  then obtain d t b where "st' = st\<lparr>disk := d, trace := t, bufs := b\<rparr>" unfolding wrote_def by blast
  then have e: "st'\<lparr>lh_n := k\<rparr> = (st\<lparr>lh_n := k\<rparr>)\<lparr>disk := d, trace := t, bufs := b\<rparr>" by simp
  have "disk (st'\<lparr>lh_n := k\<rparr>) = apply_writes ws (disk (st\<lparr>lh_n := k\<rparr>))"
    "trace (st'\<lparr>lh_n := k\<rparr>) = trace (st\<lparr>lh_n := k\<rparr>) @ ws"
    "view (st'\<lparr>lh_n := k\<rparr>) = apply_writes ws (view (st\<lparr>lh_n := k\<rparr>))"
    using wroteD(1-3) [OF w] by simp_all
  then show ?thesis unfolding wrote_def using e by blast
qed

definition commit_writes :: "u32 \<Rightarrow> nat \<Rightarrow> (nat \<Rightarrow> u32) \<Rightarrow> (u32 \<Rightarrow> bdata) \<Rightarrow> bdata \<Rightarrow> (u32 \<times> bdata) list" where
  "commit_writes s n blk v h =
    map (\<lambda>t. (logb s (Suc t), v (blk t))) [0..<n] @ [(s, put_head (int n) blk h)] @
    map (\<lambda>t. (blk t, v (blk t))) [0..<n] @ [(s, put_head 0 blk (put_head (int n) blk h))]"

lemma log_block_written:
  assumes "n < LOGSIZE" "t < n"
  shows "apply_writes (map (\<lambda>t. (logb s (Suc t), g t)) [0..<n]) d (logb s (Suc t)) = g t"
proof (rule apply_writes_map)
  show "inj_on (\<lambda>t. logb s (Suc t)) (set [0..<n])"
    using assms(1) by (intro inj_onI) (simp add: logb_inj)
qed (use assms(2) in simp)

lemma commit_spec:
  assumes inv: "cache_inv st {} (lh_block st ` {..<n})" and n: "lh_n st = int n" "0 < n"
    and h: "homes (lstart st) n (lh_block st)" and dev: "ldev st = ROOTDEV"
  obtains st' where "commit st = Inr st'" "cache_inv st' {} {}"
    "wrote (st\<lparr>lh_n := 0\<rparr>) (commit_writes (lstart st) n (lh_block st) (view st) (disk st (lstart st))) st'"
proof -
  let ?s = "lstart st" and ?blk = "lh_block st" and ?P = "lh_block st ` {..<n}"
  let ?h1 = "put_head (int n) ?blk (disk st ?s)"
  note H = homesD [OF h]
  have s0: "?s \<notin> ?P" using H(6) [of 0] by (simp add: logb_0)
  have vs: "view st ?s = disk st ?s" by (rule view_clean [OF inv s0]) simp
  have sub: "set [0..<n] \<subseteq> {..<LOGSIZE}" using H(1) by auto
  have lt: "logb ?s (Suc t) \<notin> ?P" if "t < n" for t using H(1) that by (intro H(6)) simp
  obtain st1 where a: "write_log st = Inr st1" "cache_inv st1 {} ?P"
    "wrote st (map (\<lambda>t. (logb ?s (Suc t), view st (?blk t))) [0..<n]) st1"
    using write_log_loop_spec [OF inv H(7) dev sub] lt n(1) by (auto simp: write_log_def)
  note w1 = wroteD [OF a(3)]
  have "?s \<noteq> logb ?s (Suc t)" if "t < n" for t using logb_inj [of 0 "Suc t" ?s] H(1) that by (simp add: logb_0)
  then have "?s \<notin> fst ` set (map (\<lambda>t. (logb ?s (Suc t), view st (?blk t))) [0..<n])" by auto
  from apply_writes_other [OF this, of "view st"] have vs1: "view st1 ?s = disk st ?s" using w1(3) vs by simp
  obtain st2 where b: "write_head st1 = Inr st2" "cache_inv st2 {} ?P" "wrote st1 [(?s, ?h1)] st2"
    by (rule write_head_spec [OF a(2) H(7)]) (use w1(4-7) s0 dev n(1) vs1 in auto)
  note w2 = wroteD [OF b(3)]
  have src: "view st2 (logb ?s (Suc t)) = view st (?blk t)" if "t < n" for t
    using w2(3) w1(3) log_block_written [OF H(1) that, of ?s] \<open>t < n \<Longrightarrow> ?s \<noteq> logb ?s (Suc t)\<close> that by auto
  have ex: "\<exists>st3. install_loop False [0..<n] st2 = Inr st3 \<and> cache_inv st3 {} (?P - lh_block st2 ` set [0..<n]) \<and>
    wrote st2 (map (\<lambda>t. (lh_block st2 t, view st2 (logb (lstart st2) (Suc t)))) [0..<n]) st3"
  proof (rule install_loop_spec [OF b(2) H(7)])
    show "inj_on (lh_block st2) (set [0..<n])" using H(2) w1(7) w2(7) by (simp add: atLeast0LessThan)
    show "logb (lstart st2) (Suc t) \<noteq> lh_block st2 u" if "t \<in> set [0..<n]" "u \<in> set [0..<n]" for t u
      using H(1) H(4) [of u "Suc t"] that w1(4,7) w2(4,7) by simp
  qed (use w1(4-7) w2(4-7) dev sub lt in auto)
  have e: "map (\<lambda>t. (lh_block st2 t, view st2 (logb (lstart st2) (Suc t)))) [0..<n] =
    map (\<lambda>t. (?blk t, view st (?blk t))) [0..<n]" using w1(4,7) w2(4,7) src by simp
  have z: "?P - lh_block st2 ` set [0..<n] = {}" "lh_n st2 = int n" using w1(6,7) w2(6,7) n(1) by auto
  obtain st3 where c: "install_trans False st2 = Inr st3" "cache_inv st3 {} {}"
    "wrote st2 (map (\<lambda>t. (?blk t, view st (?blk t))) [0..<n]) st3"
    using ex unfolding e z(1) install_trans_def z(2) nat_int by blast
  note w3 = wroteD [OF c(3)]
  have "?s \<notin> fst ` set (map (\<lambda>t. (?blk t, view st (?blk t))) [0..<n])" using s0 by auto
  then have vs3: "view st3 ?s = ?h1" using w3(3) w2(3) by (simp add: apply_writes_other)
  obtain st4 where d: "write_head (st3\<lparr>lh_n := 0\<rparr>) = Inr st4" "cache_inv st4 {} {}"
    "wrote (st3\<lparr>lh_n := 0\<rparr>) [(?s, put_head 0 ?blk ?h1)] st4"
    by (rule write_head_spec [of "st3\<lparr>lh_n := 0\<rparr>" "{}"])
      (use c(2) w1(4-7) w2(4-7) w3(4-7) dev vs3 in \<open>auto simp: NBUF_def\<close>)
  have "wrote (st\<lparr>lh_n := 0\<rparr>) (map (\<lambda>t. (logb ?s (Suc t), view st (?blk t))) [0..<n] @ [(?s, ?h1)] @
      map (\<lambda>t. (?blk t, view st (?blk t))) [0..<n]) (st3\<lparr>lh_n := 0\<rparr>)"
    by (rule wrote_lh_n [OF wrote_trans [OF a(3) wrote_trans [OF b(3) c(3)]]])
  from wrote_trans [OF this d(3)]
  have "wrote (st\<lparr>lh_n := 0\<rparr>) (commit_writes ?s n ?blk (view st) (disk st ?s)) st4"
    by (simp add: commit_writes_def)
  moreover have "commit st = Inr st4" using a(1) b(1) c(1) d(1) n by (simp add: commit_def)
  ultimately show thesis using that d(2) by blast
qed

definition recovery_writes :: "u32 \<Rightarrow> (u32 \<Rightarrow> bdata) \<Rightarrow> (u32 \<times> bdata) list" where
  "recovery_writes s d =
    map (\<lambda>t. (hd_block (d s) t, d (logb s (Suc t)))) [0..<nat (hd_n (d s))] @ [(s, st32 (d s) 0 0)]"

lemma read_head_spec:
  assumes inv: "cache_inv st {} {}" and dev: "ldev st = ROOTDEV"
  obtains st' where "read_head st = Inr st'" "cache_inv st' {} {}" "disk st' = disk st" "trace st' = trace st"
    "view st' = view st" "lstart st' = lstart st" "ldev st' = ROOTDEV" "lh_n st' = hd_n (view st (lstart st))"
    "\<And>i. int i < lh_n st' \<Longrightarrow> lh_block st' i = hd_block (view st (lstart st)) i"
proof -
  let ?s = "lstart st"
  obtain st1 i where g: "bread ROOTDEV ?s st = Inr (st1, i)" "cache_inv st1 {i} {}" "view st1 = view st"
    "only_bufs st st1" "holds st1 i ?s" by (rule get1 [OF inv, of ?s]) (auto simp: NBUF_def)
  have i: "bblockno (bufs st1 i) = ?s" "bdata (bufs st1 i) = view st ?s" using g(3,5) by (auto simp: holds_def)
  note o = only_bufsD [OF g(4)]
  let ?h = "view st ?s"
  let ?t = "st1\<lparr>lh_n := hd_n ?h, lh_block := (\<lambda>i. if int i < hd_n ?h then hd_block ?h i else lh_block st1 i)\<rparr>"
  have cl: "view st ?s = disk st ?s" by (rule view_clean [OF inv]) auto
  have inv1: "cache_inv ?t {i} {}" using g(2) by simp
  obtain st2 where p: "brelse i ?t = Inr st2" "cache_inv st2 {} {}" "view st2 = view ?t" "only_bufs ?t st2"
    by (rule put1 [OF inv1]) (use i cl g(3) o in auto)
  note o2 = only_bufsD [OF p(4)]
  have "read_head st = Inr st2" using g(1) p(1) i(2) dev by (simp add: read_head_def Let_def cong: if_cong)
  then show thesis using that [of st2] p(2,3) o2 o g(3) dev by simp
qed


lemma recover_spec:
  assumes inv: "cache_inv st {} {}" and dev: "ldev st = ROOTDEV"
    and h: "homes (lstart st) (nat (hd_n (disk st (lstart st)))) (hd_block (disk st (lstart st)))"
  obtains st' where "recover_from_log st = Inr st'" "cache_inv st' {} {}" "lh_n st' = 0"
    "trace st' = trace st @ recovery_writes (lstart st) (disk st)"
    "disk st' = apply_writes (recovery_writes (lstart st) (disk st)) (disk st)"
proof -
  let ?s = "lstart st" and ?d = "disk st"
  let ?n = "nat (hd_n (?d ?s))" and ?blk = "hd_block (?d ?s)"
  note H = homesD [OF h]
  have cl: "view st = ?d" by (rule ext, rule view_clean [OF inv]) auto
  obtain st1 where r: "read_head st = Inr st1" "cache_inv st1 {} {}" "disk st1 = ?d" "trace st1 = trace st"
    "view st1 = view st" "lstart st1 = ?s" "ldev st1 = ROOTDEV" "lh_n st1 = hd_n (view st ?s)"
    "\<And>i. int i < lh_n st1 \<Longrightarrow> lh_block st1 i = hd_block (view st ?s) i"
    using read_head_spec [OF inv dev] by blast
  have blk: "lh_block st1 t = ?blk t" if "t \<in> set [0..<?n]" for t using r(8,9) that cl by auto
  have ex: "\<exists>st2. install_loop True [0..<?n] st1 = Inr st2 \<and> cache_inv st2 {} ({} - lh_block st1 ` set [0..<?n]) \<and>
    wrote st1 (map (\<lambda>t. (lh_block st1 t, view st1 (logb (lstart st1) (Suc t)))) [0..<?n]) st2"
  proof (rule install_loop_spec [OF r(2)])
    have "inj_on (lh_block st1) (set [0..<?n]) = inj_on ?blk (set [0..<?n])"
      by (rule inj_on_cong) (rule blk)
    then show "inj_on (lh_block st1) (set [0..<?n])" using H(2) by (simp add: atLeast0LessThan)
    show "logb (lstart st1) (Suc t) \<noteq> lh_block st1 u" if "t \<in> set [0..<?n]" "u \<in> set [0..<?n]" for t u
      using H(1) H(4) [of u "Suc t"] that r(6) blk [OF that(2)] by simp
  qed (use r(7) H(1) in \<open>auto simp: NBUF_def\<close>)
  have e: "map (\<lambda>t. (lh_block st1 t, view st1 (logb (lstart st1) (Suc t)))) [0..<?n] =
    map (\<lambda>t. (?blk t, ?d (logb ?s (Suc t)))) [0..<?n]" using blk r(5,6) cl by simp
  obtain st2 where c: "install_trans True st1 = Inr st2" "cache_inv st2 {} {}"
    "wrote st1 (map (\<lambda>t. (?blk t, ?d (logb ?s (Suc t)))) [0..<?n]) st2"
    using ex r(8) cl unfolding e install_trans_def by auto
  note w = wroteD [OF c(3)]
  have "?s \<notin> fst ` set (map (\<lambda>t. (?blk t, ?d (logb ?s (Suc t)))) [0..<?n])" using H(6) [of 0] by (auto simp: logb_0)
  from apply_writes_other [OF this, of "view st"] have vs: "view st2 ?s = ?d ?s" using w(3) r(5) cl by simp
  obtain st3 where d: "write_head (st2\<lparr>lh_n := 0\<rparr>) = Inr st3" "cache_inv st3 {} {}"
    "wrote (st2\<lparr>lh_n := 0\<rparr>) [(?s, st32 (?d ?s) 0 0)] st3"
    by (rule write_head_spec [of "st2\<lparr>lh_n := 0\<rparr>" "{}"])
      (use c(2) w(4,5) r(6,7) vs in \<open>auto simp: NBUF_def put_head_def\<close>)
  note w3 = wroteD [OF d(3)]
  have "recover_from_log st = Inr st3" using r(1) c(1) d(1) by (simp add: recover_from_log_def)
  moreover have "trace st3 = trace st @ recovery_writes ?s ?d" using w3(2) w(2) r(4) by (simp add: recovery_writes_def)
  moreover have "disk st3 = apply_writes (recovery_writes ?s ?d) ?d"
    using w3(1) w(1) r(3) by (simp add: recovery_writes_def)
  ultimately show thesis using that d(2) w3(6) by simp
qed

section \<open>Crashes\<close>

text \<open>
  \<open>logged s d e\<close>: recovery turns the disk \<open>d\<close>, whose log starts at block \<open>s\<close>, into \<open>e\<close>, as far as the
  blocks outside the log go.
\<close>

definition logged :: "u32 \<Rightarrow> (u32 \<Rightarrow> bdata) \<Rightarrow> (u32 \<Rightarrow> bdata) \<Rightarrow> bool" where
  "logged s d e \<longleftrightarrow>
    (let n = nat (hd_n (d s)); blk = hd_block (d s)
     in homes s n blk \<and> (\<forall>t < n. e (blk t) = d (logb s (Suc t))) \<and>
        (\<forall>b. b \<notin> log_region s \<longrightarrow> b \<notin> blk ` {..<n} \<longrightarrow> e b = d b))"

lemma logged_empty:
  "hd_n (d s) \<le> 0 \<Longrightarrow> (\<And>b. b \<notin> log_region s \<Longrightarrow> e b = d b) \<Longrightarrow> logged s d e"
  by (simp add: logged_def homes_def LOGSIZE_def Let_def)

lemma cleared_header: "hd_n (st32 h 0 0) = 0"
  using ld32_st32(1) [of 0 0] by (simp add: hd_n_def)

lemma prefix_map_snoc:
  "us @ vs = map f xs @ [w] \<Longrightarrow> us = map f xs @ [w] \<or> (\<exists>k \<le> length xs. us = map f (take k xs))"
proof (induction us arbitrary: xs)
  case (Cons u us)
  show ?case
  proof (cases xs)
    case (Cons x xs')
    then show ?thesis using Cons.prems Cons.IH [of xs'] by (auto intro: exI [of _ "Suc _"])
  qed (use Cons.prems in simp)
qed auto

lemma s_in_region: "s \<in> log_region s"
  using logb_region [of 0 s] by (simp add: logb_0)

lemma logged_install:
  assumes h: "homes s n blk" and k: "k \<le> n" and hd: "nat (hd_n (d s)) = n" "\<And>t. t < n \<Longrightarrow> hd_block (d s) t = blk t"
    and e: "\<And>t. t < n \<Longrightarrow> e (blk t) = d (logb s (Suc t))" "\<And>b. b \<notin> log_region s \<Longrightarrow> b \<notin> blk ` {..<n} \<Longrightarrow> e b = d b"
  shows "logged s (apply_writes (map (\<lambda>t. (blk t, g t)) [0..<k]) d) e"
proof -
  let ?d = "apply_writes (map (\<lambda>t. (blk t, g t)) [0..<k]) d"
  note H = homesD [OF h]
  have o: "?d b = d b" if "b \<notin> blk ` {..<n}" for b
    using that k by (intro apply_writes_other) auto
  have "?d s = d s" using H(6) [of 0] by (intro o) (simp add: logb_0)
  moreover have "?d (logb s (Suc t)) = d (logb s (Suc t))" if "t < n" for t
    using H(1) that by (intro o H(6)) simp
  moreover have "hd_block (d s) ` {..<n} = blk ` {..<n}" using hd(2) by auto
  moreover have "homes s n (hd_block (d s))"
    using h hd(2) \<open>hd_block (d s) ` {..<n} = blk ` {..<n}\<close> inj_on_cong [of "{..<n}" "hd_block (d s)" blk]
    by (simp add: homes_def)
  ultimately show ?thesis using hd e o by (simp add: logged_def Let_def)
qed

lemma logged_recovery:
  assumes l: "logged s d e" and p: "us @ vs = recovery_writes s d"
  shows "logged s (apply_writes us d) e"
proof -
  let ?n = "nat (hd_n (d s))" and ?blk = "hd_block (d s)"
  let ?f = "\<lambda>t. (?blk t, d (logb s (Suc t)))"
  have h: "homes s ?n ?blk" and e: "\<And>t. t < ?n \<Longrightarrow> e (?blk t) = d (logb s (Suc t))"
    "\<And>b. b \<notin> log_region s \<Longrightarrow> b \<notin> ?blk ` {..<?n} \<Longrightarrow> e b = d b"
    using l by (auto simp: logged_def Let_def)
  from prefix_map_snoc [OF p [unfolded recovery_writes_def]] show ?thesis
  proof
    assume us: "us = map ?f [0..<?n] @ [(s, st32 (d s) 0 0)]"
    have "e b = apply_writes us d b" if b: "b \<notin> log_region s" for b
    proof (cases "b \<in> ?blk ` {..<?n}")
      case True
      then obtain t where t: "t < ?n" "b = ?blk t" by auto
      have "apply_writes (map ?f [0..<?n]) d (?blk t) = d (logb s (Suc t))"
        using t(1) homesD(2) [OF h] by (intro apply_writes_map) (auto simp: atLeast0LessThan)
      then show ?thesis using us t e(1) homesD(5) [OF h t(1)] by simp
    next
      case False
      then have "apply_writes (map ?f [0..<?n]) d b = d b" by (intro apply_writes_other) auto
      then show ?thesis using us e(2) [OF b False] s_in_region [of s] b by auto
    qed
    moreover have "hd_n (apply_writes us d s) \<le> 0" using us cleared_header by simp
    ultimately show ?thesis by (rule_tac logged_empty)
  next
    assume "\<exists>k\<le>length [0..<?n]. us = map ?f (take k [0..<?n])"
    then obtain k where "k \<le> ?n" "us = map ?f [0..<k]" by auto
    then show ?thesis using logged_install [OF h, of k d e "\<lambda>t. d (logb s (Suc t))"] e by simp
  qed
qed


lemma log_writes_frame:
  assumes "n < LOGSIZE" "k \<le> n" "b = s \<or> b \<notin> log_region s"
  shows "apply_writes (map (\<lambda>t. (logb s (Suc t), g t)) [0..<k]) d b = d b"
proof (rule apply_writes_other)
  have "logb s (Suc t) \<in> log_region s \<and> logb s (Suc t) \<noteq> s" if "t < n" for t
    using logb_region [of "Suc t" s] logb_inj [of "Suc t" 0 s] assms(1) that by (auto simp: logb_0)
  then show "b \<notin> fst ` set (map (\<lambda>t. (logb s (Suc t), g t)) [0..<k])" using assms(2,3) by auto
qed

lemma commit_final:
  assumes h: "homes s n blk" and b: "b \<notin> log_region s"
    and e: "b \<notin> blk ` {..<n} \<Longrightarrow> v b = d b"
  shows "apply_writes (commit_writes s n blk v (d s)) d b = v b"
proof -
  note H = homesD [OF h]
  let ?d1 = "apply_writes (map (\<lambda>t. (logb s (Suc t), v (blk t))) [0..<n] @ [(s, put_head (int n) blk (d s))]) d"
  let ?ws = "map (\<lambda>t. (blk t, v (blk t))) [0..<n]"
  have bs: "b \<noteq> s" using b s_in_region by blast
  have "apply_writes ?ws ?d1 b = v b"
  proof (cases "b \<in> blk ` {..<n}")
    case True
    then obtain t where t: "t < n" "b = blk t" by auto
    show ?thesis unfolding t(2)
      using t(1) H(2) by (intro apply_writes_map) (auto simp: atLeast0LessThan)
  next
    case False
    then have "apply_writes ?ws ?d1 b = ?d1 b" by (intro apply_writes_other) auto
    also have "\<dots> = d b" using bs log_writes_frame [OF H(1) order_refl] b by simp
    finally show ?thesis using e [OF False] by simp
  qed
  then show ?thesis using bs by (simp add: commit_writes_def)
qed

lemma logged_commit:
  assumes h: "homes s n blk" and c: "hd_n (d s) \<le> 0"
    and e: "\<And>b. b \<notin> log_region s \<Longrightarrow> b \<notin> blk ` {..<n} \<Longrightarrow> v b = d b"
    and p: "us @ vs = commit_writes s n blk v (d s)"
  shows "logged s (apply_writes us d) d \<or> logged s (apply_writes us d) v"
proof -
  note H = homesD [OF h]
  let ?f = "\<lambda>t. (logb s (Suc t), v (blk t))" and ?g = "\<lambda>t. (blk t, v (blk t))"
  let ?h1 = "put_head (int n) blk (d s)"
  let ?X = "map ?f [0..<n] @ [(s, ?h1)]" and ?Y = "map ?g [0..<n] @ [(s, put_head 0 blk ?h1)]"
  let ?d1 = "apply_writes ?X d"
  have w: "us @ vs = ?X @ ?Y" using p by (simp add: commit_writes_def)
  have "logb s (Suc t) \<noteq> s" if "t < n" for t
    using logb_inj [of "Suc t" 0 s] H(1) that by (auto simp: logb_0)
  then have d1: "?d1 s = ?h1" "\<And>t. t < n \<Longrightarrow> ?d1 (logb s (Suc t)) = v (blk t)"
    using log_block_written [OF H(1), of _ s "\<lambda>t. v (blk t)"] by auto
  have d1o: "?d1 b = d b" if "b \<notin> log_region s" for b
    using that s_in_region [of s] log_writes_frame [OF H(1) order_refl, of b s] by auto
  have part2: "logged s (apply_writes (map ?g [0..<k]) ?d1) v" if "k \<le> n" for k
    by (rule logged_install [OF h that])
      (use hd_put_head [OF H(1)] d1 d1o e in auto)
  from w consider zs where "us = ?X @ zs" "zs @ vs = ?Y" | zs where "us @ zs = ?X"
    unfolding append_eq_append_conv2 by auto
  then show ?thesis
  proof cases
    case 1
    from prefix_map_snoc [OF 1(2)] show ?thesis
    proof
      assume zs: "zs = ?Y"
      then have us: "us = commit_writes s n blk v (d s)" using 1(1) by (simp add: commit_writes_def)
      have "hd_n (apply_writes us d s) \<le> 0"
        using us cleared_header by (simp add: put_head_def commit_writes_def)
      then show ?thesis using us logged_empty [of _ s v] commit_final [OF h] e by metis
    next
      assume "\<exists>k\<le>length [0..<n]. zs = map ?g (take k [0..<n])"
      then obtain k where "k \<le> n" "zs = map ?g [0..<k]" by auto
      then show ?thesis using part2 [of k] 1(1) by simp
    qed
  next
    case 2
    from prefix_map_snoc [OF 2] show ?thesis
    proof
      assume "us = ?X"
      then show ?thesis using part2 [of 0] by simp
    next
      assume "\<exists>k\<le>length [0..<n]. us = map ?f (take k [0..<n])"
      then obtain k where k: "k \<le> n" "us = map ?f [0..<k]" by auto
      then show ?thesis
        using c logged_empty [of "apply_writes us d" s d] log_writes_frame [OF H(1) k(1)] by simp
    qed
  qed
qed

section \<open>Transactions\<close>

text \<open>The state between \<^verbatim>\<open>begin_op\<close> and the commit; \<open>H\<close> are the held buffers.\<close>

definition pinned :: "fsys \<Rightarrow> u32 set" where
  "pinned st = lh_block st ` {..<nat (lh_n st)}"

definition txn_inv :: "fsys \<Rightarrow> nat set \<Rightarrow> bool" where
  "txn_inv st H \<longleftrightarrow> 0 \<le> lh_n st \<and> cache_inv st H (pinned st) \<and> homes (lstart st) (nat (lh_n st)) (lh_block st) \<and>
    ldev st = ROOTDEV \<and> hd_n (disk st (lstart st)) \<le> 0 \<and> sint (lsize st) \<le> int LOGSIZE"

lemma txn_invD:
  assumes "txn_inv st H"
  shows "0 \<le> lh_n st" "cache_inv st H (pinned st)" "homes (lstart st) (nat (lh_n st)) (lh_block st)"
    "ldev st = ROOTDEV" "hd_n (disk st (lstart st)) \<le> 0" "sint (lsize st) \<le> int LOGSIZE"
  using assms by (auto simp: txn_inv_def)

lemma txn_only_bufs: "txn_inv st H \<Longrightarrow> only_bufs st st' \<Longrightarrow> cache_inv st' H' (pinned st) \<Longrightarrow> txn_inv st' H'"
  using only_bufsD [of st st'] by (simp add: txn_inv_def pinned_def)

lemma log_write_spec:
  assumes inv: "txn_inv st H" and i: "i \<in> H" and b: "bblockno (bufs st i) \<notin> log_region (lstart st)"
    and room: "lh_n st < sint (lsize st) - 1" and tr: "1 \<le> loutstanding st"
  obtains st' where "log_write i st = Inr st'" "txn_inv st' H" "view st' = view st" "disk st' = disk st"
    "trace st' = trace st" "pinned st' = insert (bblockno (bufs st i)) (pinned st)"
    "\<And>j. same_key (bufs st j) (bufs st' j)" "lstart st' = lstart st" "lsize st' = lsize st"
    "loutstanding st' = loutstanding st" "lcommitting st' = lcommitting st"
proof -
  note T = txn_invD [OF inv] and H = homesD [OF txn_invD(3) [OF inv]]
  let ?b = "bblockno (bufs st i)" and ?n = "nat (lh_n st)"
  have ok: "\<not> (lh_n st \<ge> int LOGSIZE \<or> lh_n st \<ge> sint (lsize st) - 1)" using room T(6) by linarith
  show thesis
  proof (cases "find (\<lambda>k. lh_block st k = ?b) [0..<?n]")
    case (Some k)
    then have k: "k < ?n" "lh_block st k = ?b" by (auto simp: find_Some_iff)
    then have "log_write i st = Inr st"
      using ok tr Some by (auto simp: log_write_def log_index_def Let_def fun_upd_idem)
    moreover have "?b \<in> pinned st" unfolding pinned_def k(2) [symmetric] using k(1) by blast
    ultimately show thesis using that [of st] inv by (simp add: same_key_def insert_absorb)
  next
    case None
    then have np: "?b \<notin> pinned st" by (auto simp: find_None_iff pinned_def)
    let ?s = "st\<lparr>lh_block := (lh_block st)(?n := ?b)\<rparr>"
    let ?t = "(bpin i ?s)\<lparr>lh_n := lh_n st + 1\<rparr>"
    have r: "log_write i st = Inr ?t"
      using ok tr None T(1) by (simp add: log_write_def log_index_def Let_def)
    have c: "cache_inv ?s H (pinned st)" using T(2) by simp
    have p: "cache_inv (bpin i ?s) H (insert ?b (pinned st))" "view (bpin i ?s) = view st"
      "only_bufs ?s (bpin i ?s)" "same_key (bufs st j) (bufs (bpin i ?s) j)" for j
      using bpin_spec [OF c i] np by simp_all
    note o = only_bufsD [OF p(3)]
    have nn: "nat (lh_n st + 1) = Suc ?n" using T(1) by simp
    have pin: "pinned ?t = insert ?b (pinned st)"
      using o nn by (auto simp: pinned_def lessThan_Suc)
    have "homes (lstart st) (Suc ?n) ((lh_block st)(?n := ?b))"
      unfolding homes_def
    proof (intro conjI)
      show "Suc ?n < LOGSIZE" using T(1,6) room by linarith
      have "inj_on (lh_block st) {..<?n}" "?b \<notin> lh_block st ` {..<?n}" using H(2) np by (auto simp: pinned_def)
      then show "inj_on ((lh_block st)(?n := ?b)) {..<Suc ?n}"
        by (simp add: lessThan_Suc inj_on_fun_updI)
      show "((lh_block st)(?n := ?b)) ` {..<Suc ?n} \<inter> log_region (lstart st) = {}"
        using T(3) b by (auto simp: homes_def lessThan_Suc)
    qed
    then have "txn_inv ?t H" unfolding txn_inv_def pin using T p(1) o nn by simp
    moreover have "same_key (bufs st j) (bufs ?t j)" for j using p(4) [of j] by (simp add: same_key_def)
    ultimately show thesis using that [OF r] o p(2) pin by simp
  qed
qed


section \<open>Booting\<close>

text \<open>The kernel's memory is zero when it starts; \<^verbatim>\<open>main\<close> calls \<^verbatim>\<open>binit\<close> before the first process runs.\<close>

definition zero_buf :: buf where
  "zero_buf = \<lparr>bvalid = False, bdev = 0, bblockno = 0, block = \<lparr>slocked = False, spid = 0\<rparr>, refcnt = 0,
    bprev = 0, bnext = 0, bdata = zero_block\<rparr>"

definition zero_inode :: inode where
  "zero_inode = \<lparr>i_dev = 0, i_inum = 0, i_ref = 0, i_lock = \<lparr>slocked = False, spid = 0\<rparr>, i_valid = False,
    i_type = 0, i_major = 0, i_minor = 0, i_nlink = 0, i_size = 0, i_addrs = (\<lambda>_. 0)\<rparr>"

definition fs_boot :: "u32 \<Rightarrow> superblock \<Rightarrow> (u32 \<Rightarrow> bdata) \<Rightarrow> fsys" where
  "fs_boot me s d = binit \<lparr>disk = d, trace = [], bufs = (\<lambda>_. zero_buf), curpid = me, lstart = 0, lsize = 0,
    loutstanding = 0, lcommitting = False, ldev = 0, lh_n = 0, lh_block = (\<lambda>_. 0), sb = s,
    itable = (\<lambda>_. zero_inode)\<rparr>"

lemma only_bufs_binit_loop [simp]: "only_bufs st (binit_loop bs st') \<longleftrightarrow> only_bufs st st'"
  by (induction bs arbitrary: st') simp_all

definition unused_buf :: "buf \<Rightarrow> bool" where
  "unused_buf x \<longleftrightarrow> \<not> bvalid x \<and> bdev x = 0 \<and> refcnt x = 0 \<and> \<not> slocked (block x)"

lemma unused_content: "same_content x y \<Longrightarrow> unused_buf y = unused_buf x"
  using same_contentD [of x y] by (simp add: unused_buf_def)

lemma binit_loop_unused:
  "(\<And>i. unused_buf (bufs st i)) \<Longrightarrow> unused_buf (bufs (binit_loop bs st) i)"
proof (induction bs arbitrary: st)
  case (Cons b bs)
  let ?s = "upd_buf b (\<lambda>x. x\<lparr>block := initsleeplock\<rparr>) st"
  have "unused_buf (bufs ?s j)" for j
    using Cons.prems [of j] Cons.prems [of b] by (simp add: upd_buf_def unused_buf_def initsleeplock_def)
  then have "unused_buf (bufs (link_front b ?s) j)" for j
    using unused_content [OF link_front_content [of ?s j b]] by simp
  then show ?case using Cons.IH by simp
qed simp

lemma fs_boot_spec:
  shows "cache_inv (fs_boot me s d) {} {}" "disk (fs_boot me s d) = d" "trace (fs_boot me s d) = []"
    "lh_n (fs_boot me s d) = 0" "loutstanding (fs_boot me s d) = 0" "lcommitting (fs_boot me s d) = False"
    "curpid (fs_boot me s d) = me" "sb (fs_boot me s d) = s" "itable (fs_boot me s d) = (\<lambda>_. zero_inode)"
proof -
  let ?z = "\<lparr>disk = d, trace = [], bufs = (\<lambda>_. zero_buf), curpid = me, lstart = 0, lsize = 0,
    loutstanding = 0, lcommitting = False, ldev = 0, lh_n = 0, lh_block = (\<lambda>_. 0), sb = s,
    itable = (\<lambda>_. zero_inode)\<rparr>"
  have "only_bufs ?z (fs_boot me s d)" by (simp add: fs_boot_def binit_def Let_def)
  note o = only_bufsD [OF this]
  then show "disk (fs_boot me s d) = d" "trace (fs_boot me s d) = []" "lh_n (fs_boot me s d) = 0"
    "loutstanding (fs_boot me s d) = 0" "lcommitting (fs_boot me s d) = False"
    "curpid (fs_boot me s d) = me" "sb (fs_boot me s d) = s" "itable (fs_boot me s d) = (\<lambda>_. zero_inode)"
    by simp_all
  have "unused_buf (bufs (fs_boot me s d) i)" for i
    unfolding fs_boot_def binit_def Let_def
    by (rule binit_loop_unused) (simp add: upd_buf_def unused_buf_def zero_buf_def)
  moreover have "lru (fs_boot me s d) (rev [0..<NBUF])" unfolding fs_boot_def by (rule binit_lru)
  ultimately show "cache_inv (fs_boot me s d) {} {}"
    by (auto simp: cache_inv_def buf_ok_def unused_buf_def ROOTDEV_def Let_def)
qed

text \<open>
  What repeated crashes and reboots can do to a disk: every boot either completes recovery, or crashes
  after a part of the writes of recovery and boots again.
\<close>

inductive reboots :: "u32 \<Rightarrow> superblock \<Rightarrow> (u32 \<Rightarrow> bdata) \<Rightarrow> (u32 \<Rightarrow> bdata) \<Rightarrow> bool"
  for me :: u32 and s :: superblock where
  recovered: "initlog ROOTDEV s (fs_boot me s d) = Inr st \<Longrightarrow> reboots me s d (disk st)"
| crashed: "initlog ROOTDEV s (fs_boot me s d) = Inr st \<Longrightarrow> trace st = us @ vs \<Longrightarrow>
    reboots me s (apply_writes us d) d' \<Longrightarrow> reboots me s d d'"

lemma initlog_boot:
  assumes "logged (sb_logstart s) d e"
  obtains st where "initlog ROOTDEV s (fs_boot me s d) = Inr st" "cache_inv st {} {}" "lh_n st = 0"
    "trace st = recovery_writes (sb_logstart s) d" "disk st = apply_writes (recovery_writes (sb_logstart s) d) d"
proof -
  let ?t = "(fs_boot me s d)\<lparr>lstart := sb_logstart s, lsize := sb_nlog s, ldev := ROOTDEV\<rparr>"
  note f = fs_boot_spec [of me s d]
  have inv: "cache_inv ?t {} {}" using f(1) by simp
  obtain st where "recover_from_log ?t = Inr st" "cache_inv st {} {}" "lh_n st = 0"
    "trace st = trace ?t @ recovery_writes (lstart ?t) (disk ?t)"
    "disk st = apply_writes (recovery_writes (lstart ?t) (disk ?t)) (disk ?t)"
    by (rule recover_spec [OF inv]) (use assms f(2) in \<open>auto simp: logged_def Let_def\<close>)
  then show thesis using that [of st] f by (simp add: initlog_def LOGSIZE_def BSIZE_def)
qed

lemma logged_final:
  assumes "logged s d e" "b \<notin> log_region s"
  shows "apply_writes (recovery_writes s d) d b = e b"
proof -
  let ?d = "apply_writes (recovery_writes s d) d"
  have "logged s ?d e" using logged_recovery [OF assms(1), of _ "[]"] by simp
  moreover have "hd_n (?d s) = 0" by (simp add: recovery_writes_def cleared_header)
  ultimately show ?thesis using assms(2) by (simp add: logged_def Let_def)
qed

lemma reboots_logged:
  "reboots me s d d' \<Longrightarrow> logged (sb_logstart s) d e \<Longrightarrow> b \<notin> log_region (sb_logstart s) \<Longrightarrow> d' b = e b"
proof (induction rule: reboots.induct)
  case (recovered d st)
  obtain st' where "initlog ROOTDEV s (fs_boot me s d) = Inr st'"
    "disk st' = apply_writes (recovery_writes (sb_logstart s) d) d" using initlog_boot [OF recovered(2)] by metis
  then show ?case using recovered logged_final [OF recovered(2,3)] by simp
next
  case (crashed d st us vs d')
  obtain st' where "initlog ROOTDEV s (fs_boot me s d) = Inr st'"
    "trace st' = recovery_writes (sb_logstart s) d" using initlog_boot [OF crashed(5)] by metis
  then have "us @ vs = recovery_writes (sb_logstart s) d" using crashed(1,2) by simp
  then show ?case using crashed(4) [OF logged_recovery [OF crashed(5)] crashed(6)] by blast
qed

lemma reboots_returns: "logged (sb_logstart s) d e \<Longrightarrow> \<exists>d'. reboots me s d d'"
  using initlog_boot reboots.recovered by metis

section \<open>The commit of a transaction\<close>

definition crash_safe :: "u32 \<Rightarrow> (u32 \<times> bdata) list \<Rightarrow> (u32 \<Rightarrow> bdata) \<Rightarrow> (u32 \<Rightarrow> bdata) \<Rightarrow> bool" where
  "crash_safe s ws d v \<longleftrightarrow> (\<forall>us vs. ws = us @ vs \<longrightarrow>
    logged s (apply_writes us d) d \<or> logged s (apply_writes us d) v)"

lemma end_op_spec:
  assumes inv: "txn_inv st {}" and o: "loutstanding st = 1" "\<not> lcommitting st"
  obtains st' ws where "end_op st = Inr st'" "trace st' = trace st @ ws" "txn_inv st' {}" "pinned st' = {}"
    "\<And>b. b \<notin> log_region (lstart st) \<Longrightarrow> disk st' b = view st b" "crash_safe (lstart st) ws (disk st) (view st)"
proof (cases "lh_n st = 0")
  case True
  let ?t = "st\<lparr>loutstanding := 0, lcommitting := False\<rparr>"
  note T = txn_invD [OF inv]
  have e: "end_op st = Inr ?t" using o True by (simp add: end_op_def commit_def Let_def)
  have p: "pinned st = {}" using True by (simp add: pinned_def)
  have v: "view st b = disk st b" for b by (rule view_clean [OF T(2)]) (use p in auto)
  have "logged (lstart st) (disk st) (disk st)" by (rule logged_empty) (use T(5) in auto)
  then show thesis using that [of ?t "[]"] e p v inv True by (auto simp: crash_safe_def txn_inv_def pinned_def)
next
  case False
  note T = txn_invD [OF inv]
  let ?s = "lstart st" and ?n = "nat (lh_n st)" and ?t = "st\<lparr>loutstanding := 0, lcommitting := True\<rparr>"
  let ?ws = "commit_writes ?s ?n (lh_block st) (view st) (disk st ?s)"
  have n: "lh_n ?t = int ?n" "0 < ?n" using T(1) False by auto
  have i: "cache_inv ?t {} (lh_block ?t ` {..<?n})" using T(2) by (simp add: pinned_def)
  obtain st' where c: "commit ?t = Inr st'" "cache_inv st' {} {}" "wrote (?t\<lparr>lh_n := 0\<rparr>) ?ws st'"
    by (rule commit_spec [OF i n]) (use T(3,4) in auto)
  note w = wroteD [OF c(3)]
  have clean: "view st b = disk st b" if "b \<notin> lh_block st ` {..<?n}" for b
    by (rule view_clean [OF T(2)]) (use that in \<open>auto simp: pinned_def\<close>)
  have e: "end_op st = Inr (st'\<lparr>lcommitting := False\<rparr>)" using c(1) o by (simp add: end_op_def Let_def)
  have "hd_n (disk st' ?s) = 0" using w(1) cleared_header by (simp add: commit_writes_def put_head_def)
  then have t: "txn_inv (st'\<lparr>lcommitting := False\<rparr>) {}" "pinned (st'\<lparr>lcommitting := False\<rparr>) = {}"
    using c(2) T(4,6) w(4-8) by (auto simp: txn_inv_def pinned_def homes_def LOGSIZE_def)
  have "crash_safe ?s ?ws (disk st) (view st)"
    unfolding crash_safe_def
    using logged_commit [of ?s ?n "lh_block st" "disk st" "view st"] T(3,5) clean by auto
  moreover have "disk st' b = view st b" if "b \<notin> log_region ?s" for b
    using commit_final [OF T(3) that, of "view st" "disk st"] clean w(1) by simp
  ultimately show thesis using that [OF e _ t] w(2) by simp
qed

section \<open>Properties\<close>

text \<open>C1: Transactions are atomic across crashes. When the last operation of a transaction ends, \<^verbatim>\<open>end_op\<close>
  commits and returns. If the machine crashes after any part of the writes that the commit issues, and then
  crashes any number of times during recovery, recovery completes in the end, and the blocks outside the log
  hold either all the contents from before the transaction or all those that the transaction gave them.
  Without a crash, they hold the latter.\<close>

theorem log_crash_atomic:
  assumes "txn_inv st {}" and "loutstanding st = 1" and "\<not> lcommitting st" and "sb_logstart s = lstart st"
  shows "\<exists>st' ws. end_op st = Inr st' \<and> trace st' = trace st @ ws \<and> txn_inv st' {} \<and> pinned st' = {} \<and>
    (\<forall>b. b \<notin> log_region (lstart st) \<longrightarrow> disk st' b = view st b) \<and>
    (\<forall>us vs. ws = us @ vs \<longrightarrow>
      (\<exists>d'. reboots me s (apply_writes us (disk st)) d') \<and>
      (\<exists>e \<in> {disk st, view st}. \<forall>d'. reboots me s (apply_writes us (disk st)) d' \<longrightarrow>
        (\<forall>b. b \<notin> log_region (lstart st) \<longrightarrow> d' b = e b)))"
proof -
  obtain st' ws where r: "end_op st = Inr st'" "trace st' = trace st @ ws" "txn_inv st' {}" "pinned st' = {}"
    "\<And>b. b \<notin> log_region (lstart st) \<Longrightarrow> disk st' b = view st b" "crash_safe (lstart st) ws (disk st) (view st)"
    using end_op_spec [OF assms(1-3)] by blast
  have "(\<exists>d'. reboots me s (apply_writes us (disk st)) d') \<and>
      (\<exists>e \<in> {disk st, view st}. \<forall>d'. reboots me s (apply_writes us (disk st)) d' \<longrightarrow>
        (\<forall>b. b \<notin> log_region (lstart st) \<longrightarrow> d' b = e b))" if ws: "ws = us @ vs" for us vs
  proof -
    obtain e where e: "e \<in> {disk st, view st}" "logged (sb_logstart s) (apply_writes us (disk st)) e"
      using r(6) ws assms(4) unfolding crash_safe_def by auto
    show ?thesis using reboots_returns [OF e(2)] reboots_logged [OF _ e(2)] e(1) assms(4) by metis
  qed
  then show ?thesis using r by blast
qed

text \<open>A transaction that writes block 50 of an empty disk.\<close>

lemma example_transaction:
  "\<exists>st. txn_inv st {} \<and> loutstanding st = 1 \<and> \<not> lcommitting st \<and> lstart st = 2 \<and> view st 50 \<noteq> disk st 50"
proof -
  define s0 where "s0 = (fs_boot 1 undefined (\<lambda>_. zero_block))\<lparr>lstart := 2, lsize := 30, ldev := ROOTDEV, loutstanding := 1\<rparr>"
  note f = fs_boot_spec [of 1 undefined "\<lambda>_. zero_block"]
  have i0: "cache_inv s0 {} {}" using f(1) by (simp add: s0_def)
  have t0: "txn_inv s0 {}" using i0 f by (simp add: txn_inv_def s0_def pinned_def homes_def LOGSIZE_def hd_n_def)
  have p0: "pinned s0 = {}" using f by (simp add: pinned_def s0_def)
  obtain s1 i where g: "cache_inv s1 {i} {}" "only_bufs s0 s1" "holds s1 i 50"
    by (rule get1 [OF i0, of 50]) (auto simp: NBUF_def)
  let ?d = "zero_block(0 := 1)"
  let ?s2 = "set_data i ?d s1"
  note m = modify_spec [OF g(1), of i ?d]
  have o2: "only_bufs s0 ?s2" using g(2) by (simp add: set_data_def)
  have t2: "txn_inv ?s2 {i}" using txn_only_bufs [OF t0 o2] m(1) p0 by simp
  have b50: "bblockno (bufs s1 i) = 50" using g(3) by (simp add: holds_def)
  have v50: "view ?s2 50 = ?d" using m(2) b50 by simp
  have "(50 :: u32) \<notin> log_region 2"
    by (auto simp: log_region_def logb_def LOGSIZE_def word_unat_eq_iff unat_word_ariths unat_of_nat)
  then have pre: "bblockno (bufs ?s2 i) \<notin> log_region (lstart ?s2)" "lh_n ?s2 < sint (lsize ?s2) - 1"
    "1 \<le> loutstanding ?s2" using b50 only_bufsD [OF o2] f by (simp_all add: s0_def)
  obtain s3 where l: "txn_inv s3 {i}" "view s3 = view ?s2" "disk s3 = disk ?s2"
    "pinned s3 = insert (bblockno (bufs ?s2 i)) (pinned ?s2)" "\<And>j. same_key (bufs ?s2 j) (bufs s3 j)"
    "lstart s3 = lstart ?s2" "loutstanding s3 = loutstanding ?s2" "lcommitting s3 = lcommitting ?s2"
    by (rule log_write_spec [OF t2 singletonI pre]) (rule that)
  have "bblockno (bufs s3 i) = 50" using l(5) [of i] b50 by (simp add: same_key_def)
  then obtain s4 where p: "cache_inv s4 {} (pinned s3)" "view s4 = view s3" "only_bufs s3 s4"
    by (rule_tac put1 [OF txn_invD(2) [OF l(1)]]) (use l(4) b50 in auto)
  have "txn_inv s4 {}" using txn_only_bufs [OF l(1) p(3,1)] .
  moreover have "view s4 50 \<noteq> disk s4 50"
  proof -
    have "view s4 50 = ?d" "disk s4 50 = zero_block"
      using p(2) l(2,3) v50 only_bufsD [OF p(3)] only_bufsD [OF o2] f by (simp_all add: s0_def)
    moreover have "?d 0 \<noteq> zero_block 0" by (simp add: zero_block_def)
    ultimately show ?thesis by metis
  qed
  ultimately show ?thesis
    using only_bufsD [OF p(3)] l(6-8) only_bufsD [OF o2] f by (auto simp: s0_def)
qed

theorem log_crash_atomic_witness:
  "\<exists>st st'. txn_inv st {} \<and> end_op st = Inr st' \<and> disk st' 50 \<noteq> disk st 50 \<and> disk st' 50 = view st 50"
proof -
  obtain st where st: "txn_inv st {}" "loutstanding st = 1" "\<not> lcommitting st" "lstart st = 2" "view st 50 \<noteq> disk st 50"
    using example_transaction by blast
  have "(50 :: u32) \<notin> log_region 2"
    by (auto simp: log_region_def logb_def LOGSIZE_def word_unat_eq_iff unat_word_ariths unat_of_nat)
  moreover obtain st' where "end_op st = Inr st'" "\<forall>b. b \<notin> log_region (lstart st) \<longrightarrow> disk st' b = view st b"
    using log_crash_atomic [OF st(1-3), of "undefined\<lparr>sb_logstart := 2\<rparr>" 0] st(4) by auto
  ultimately have "end_op st = Inr st' \<and> disk st' 50 \<noteq> disk st 50 \<and> disk st' 50 = view st 50" using st(4,5) by simp
  then show ?thesis using st(1) by blast
qed

end
