(* ===== verification/Fs_Alloc.thy ===== *)
theory Fs_Alloc
  imports Fs Log_Crash
begin

text \<open>
  The block allocator of \<^verbatim>\<open>kernel/fs.c\<close> over the block cache and the log. The contents of block \<open>b\<close> in the running
  transaction are \<^term>\<open>view st b\<close>. A transaction has a budget: the blocks it has pinned, those of a set \<open>W\<close> that
  it may write, and \<open>n\<close> others must fit in the log. The lemmas show that a block is read, changed, logged and released
  within that budget, and from them what \<^verbatim>\<open>balloc\<close> and \<^verbatim>\<open>bfree\<close> do to the free map and to the blocks.
\<close>

section \<open>Blocks in a transaction\<close>

text \<open>What the code of a transaction keeps, of the log, of the disk and of the buffers \<open>H\<close> that its callers hold.\<close>

definition txn_kept :: "nat set \<Rightarrow> fsys \<Rightarrow> fsys \<Rightarrow> bool" where
  "txn_kept H st st' \<longleftrightarrow> disk st' = disk st \<and> trace st' = trace st \<and> curpid st' = curpid st \<and> lstart st' = lstart st \<and>
    lsize st' = lsize st \<and> loutstanding st' = loutstanding st \<and> lcommitting st' = lcommitting st \<and>
    sb st' = sb st \<and> pinned st \<subseteq> pinned st' \<and> (\<forall>j \<in> H. bblockno (bufs st' j) = bblockno (bufs st j))"

lemma txn_keptD:
  assumes "txn_kept H st st'"
  shows "disk st' = disk st" "trace st' = trace st" "curpid st' = curpid st" "lstart st' = lstart st"
    "lsize st' = lsize st" "loutstanding st' = loutstanding st" "lcommitting st' = lcommitting st" "sb st' = sb st"
    "pinned st \<subseteq> pinned st'" "j \<in> H \<Longrightarrow> bblockno (bufs st' j) = bblockno (bufs st j)"
  using assms by (auto simp: txn_kept_def)

lemma txn_kept_refl [simp]: "txn_kept H st st"
  by (simp add: txn_kept_def)

lemma txn_kept_trans [trans]: "txn_kept H st st1 \<Longrightarrow> txn_kept H st1 st2 \<Longrightarrow> txn_kept H st st2"
  by (auto simp: txn_kept_def)

lemma txn_kept_subset: "txn_kept H st st' \<Longrightarrow> H' \<subseteq> H \<Longrightarrow> txn_kept H' st st'"
  by (auto simp: txn_kept_def)

lemma txn_kept_only_bufs: "only_bufs st st' \<Longrightarrow> (\<And>j. j \<in> H \<Longrightarrow> bblockno (bufs st' j) = bblockno (bufs st j)) \<Longrightarrow> txn_kept H st st'"
  using only_bufsD [of st st'] by (simp add: txn_kept_def pinned_def)

definition in_txn :: "fsys \<Rightarrow> nat set \<Rightarrow> u32 set \<Rightarrow> nat \<Rightarrow> bool" where
  "in_txn st H W n \<longleftrightarrow> txn_inv st H \<and> finite W \<and> int (card (pinned st \<union> W) + n) < sint (lsize st) - 1 \<and>
    1 \<le> loutstanding st"

lemma in_txn_inv: "in_txn st H W n \<Longrightarrow> txn_inv st H"
  by (simp add: in_txn_def)

lemma in_txn_less: "in_txn st H W n \<Longrightarrow> m \<le> n \<Longrightarrow> in_txn st H W m"
  by (auto simp: in_txn_def)

lemma finite_pinned [simp]: "finite (pinned st)"
  by (simp add: pinned_def)

lemma card_pinned:
  assumes "txn_inv st H"
  shows "int (card (pinned st)) = lh_n st" "card (pinned st) < NBUF"
proof -
  note T = txn_invD [OF assms] and h = homesD [OF txn_invD(3) [OF assms]]
  show "int (card (pinned st)) = lh_n st" using h(2) T(1) by (simp add: pinned_def card_image)
  show "card (pinned st) < NBUF" using h(7) by (simp add: pinned_def)
qed

lemma in_txn_room:
  assumes "in_txn st H W n"
  shows "lh_n st < sint (lsize st) - 1" "card (pinned st) + 1 < NBUF"
proof -
  have t: "txn_inv st H" and "int (card (pinned st \<union> W) + n) < sint (lsize st) - 1" "finite W"
    using assms by (simp_all add: in_txn_def)
  moreover have "card (pinned st) \<le> card (pinned st \<union> W)" by (rule card_mono) (use calculation in auto)
  moreover have "sint (lsize st) \<le> 30" using txn_invD(6) [OF t] by (simp add: LOGSIZE_def)
  ultimately show "lh_n st < sint (lsize st) - 1" "card (pinned st) + 1 < NBUF"
    using card_pinned(1) [OF t] by (auto simp: NBUF_def)
qed

lemma grab_block:
  assumes t: "txn_inv st H" and room: "card (pinned st) + card H < NBUF"
    and b: "\<And>j. j \<in> H \<Longrightarrow> bblockno (bufs st j) \<noteq> b"
  obtains st' i where "bread ROOTDEV b st = Inr (st', i)" "i \<notin> H" "txn_inv st' (insert i H)" "view st' = view st"
    "only_bufs st st'" "holds st' i b" "txn_kept H st st'"
proof -
  obtain i x where r: "bread ROOTDEV b st = Inr (set_buf i x st, i)" "got_buf st (pinned st) b i x" "i \<notin> H"
    "cache_inv (set_buf i x st) (insert i H) (pinned st)" "view (set_buf i x st) = view st"
    by (rule bread_spec [OF txn_invD(2) [OF t] b disjI2 [OF room]])
  have "txn_kept H st (set_buf i x st)" by (rule txn_kept_only_bufs [OF only_bufs_set_buf]) (use r(3) in \<open>auto simp: set_buf_def\<close>)
  then show thesis
    using that [OF r(1,3) txn_only_bufs [OF t only_bufs_set_buf r(4)] r(5) only_bufs_set_buf] r(2,5)
    by (simp add: holds_def got_buf_def)
qed

lemma put_block:
  assumes t: "txn_inv st (insert i H)" and i: "i \<notin> H"
    and clean: "bblockno (bufs st i) \<in> pinned st \<or> view st (bblockno (bufs st i)) = disk st (bblockno (bufs st i))"
  obtains st' where "brelse i st = Inr st'" "txn_inv st' H" "view st' = view st" "only_bufs st st'" "txn_kept H st st'"
proof -
  obtain st' where r: "brelse i st = Inr st'" "cache_inv st' (insert i H - {i}) (pinned st)" "view st' = view st"
    "only_bufs st st'" "\<And>j. same_key (bufs st j) (bufs st' j)"
    using brelse_spec [OF txn_invD(2) [OF t] insertI1 clean] by blast
  have "txn_kept H st st'" by (rule txn_kept_only_bufs [OF r(4)]) (use r(5) in \<open>simp add: same_key_def\<close>)
  then show thesis using that [OF r(1) _ r(3,4)] txn_only_bufs [OF t r(4,2)] i by simp
qed

lemma only_bufs_itable: "only_bufs st st' \<Longrightarrow> itable st' = itable st \<and> sb st' = sb st \<and> pinned st' = pinned st"
  using only_bufsD [of st st'] by (simp add: pinned_def)

text \<open>An unpinned block is as on disk, so that reading it leaves nothing behind.\<close>

lemma unpinned_clean:
  assumes "txn_inv st H" "b \<notin> pinned st" "\<And>j. j \<in> H \<Longrightarrow> bblockno (bufs st j) \<noteq> b"
  shows "view st b = disk st b"
proof (cases "find (\<lambda>i. bvalid (bufs st i) \<and> bblockno (bufs st i) = b) [0..<NBUF]")
  case (Some i)
  then have i: "i < NBUF" "bvalid (bufs st i)" "bblockno (bufs st i) = b" by (auto simp: find_Some_iff)
  then have "bdata (bufs st i) = disk st b"
    using buf_okD(6) [OF cache_invD(4) [OF txn_invD(2) [OF assms(1)]], of i] assms(2,3) by auto
  then show ?thesis using Some by (simp add: view_def)
qed (simp add: view_def)

lemma look_block:
  assumes t: "txn_inv st H" and room: "card (pinned st) + card H < NBUF"
    and b: "\<And>j. j \<in> H \<Longrightarrow> bblockno (bufs st j) \<noteq> b"
  obtains st1 i st2 where "bread ROOTDEV b st = Inr (st1, i)" "bdata (bufs st1 i) = view st b" "brelse i st1 = Inr st2"
    "txn_inv st2 H" "view st2 = view st" "only_bufs st st1" "only_bufs st st2" "txn_kept H st st2"
proof -
  obtain st1 i where g: "bread ROOTDEV b st = Inr (st1, i)" "i \<notin> H" "txn_inv st1 (insert i H)" "view st1 = view st"
    "only_bufs st st1" "holds st1 i b" "txn_kept H st st1" by (rule grab_block [OF t room b])
  have "b \<in> pinned st \<or> view st b = disk st b" using unpinned_clean [OF t _ b] by blast
  then obtain st2 where p: "brelse i st1 = Inr st2" "txn_inv st2 H" "view st2 = view st1" "only_bufs st1 st2" "txn_kept H st1 st2"
    by (rule_tac put_block [OF g(3,2)]) (use g(4,6) only_bufs_itable [OF g(5)] only_bufsD [OF g(5)] in \<open>auto simp: holds_def\<close>)
  show thesis
    using that [OF g(1) _ p(1,2)] g(4,6) p(3) g(5) only_bufs_trans [OF g(5) p(4)] txn_kept_trans [OF g(7) p(5)]
    by (simp add: holds_def)
qed

lemma log_write_frame:
  "log_write i st = Inr st' \<Longrightarrow> sb st' = sb st \<and> itable st' = itable st \<and> curpid st' = curpid st"
  by (auto simp: log_write_def Let_def bpin_def upd_buf_def split: if_splits)

lemma log_block:
  assumes t: "in_txn st H W (n + (if bblockno (bufs st i) \<in> pinned st \<union> W then 0 else 1))" and i: "i \<in> H"
    and b: "bblockno (bufs st i) \<notin> log_region (lstart st)"
  obtains st' where "log_write i st = Inr st'" "in_txn st' H W n" "view st' = view st" "txn_kept H st st'"
    "pinned st' = insert (bblockno (bufs st i)) (pinned st)" "itable st' = itable st"
proof -
  let ?b = "bblockno (bufs st i)"
  have tr: "1 \<le> loutstanding st" "finite W" using t by (simp_all add: in_txn_def)
  obtain st' where r: "log_write i st = Inr st'" "txn_inv st' H" "view st' = view st" "disk st' = disk st"
    "trace st' = trace st" "pinned st' = insert ?b (pinned st)" "\<And>j. same_key (bufs st j) (bufs st' j)"
    "lstart st' = lstart st" "lsize st' = lsize st" "loutstanding st' = loutstanding st" "lcommitting st' = lcommitting st"
    using log_write_spec [OF in_txn_inv [OF t] i b in_txn_room(1) [OF t] tr(1)] by blast
  have "card (insert ?b (pinned st) \<union> W) = card (pinned st \<union> W) + (if ?b \<in> pinned st \<union> W then 0 else 1)"
    using tr(2) by (auto simp: insert_absorb)
  then have "in_txn st' H W n" using t r(2,6,9,10) by (simp add: in_txn_def split: if_splits)
  moreover have "txn_kept H st st'"
    using r log_write_frame [OF r(1)] by (auto simp: txn_kept_def same_key_def)
  ultimately show thesis using that [OF r(1)] r(3,6) log_write_frame [OF r(1)] by simp
qed

text \<open>A held block is changed, logged and released.\<close>

lemma finish_block:
  assumes t: "in_txn st (insert i H) W (n + (if b \<in> pinned st \<union> W then 0 else 1))" and i: "i \<notin> H"
    and bi: "bblockno (bufs st i) = b" and b: "b \<notin> log_region (lstart st)"
  obtains st2 st3 where "log_write i (set_data i d st) = Inr st2" "brelse i st2 = Inr st3" "in_txn st3 H W n"
    "view st3 = (view st)(b := d)" "txn_kept H st st3" "pinned st3 = insert b (pinned st)" "itable st3 = itable st"
    "txn_kept H st st2" "view st2 = (view st)(b := d)" "itable st2 = itable st"
proof -
  let ?s = "set_data i d st"
  have bs: "bblockno (bufs ?s i) = b" using bi by simp
  note T = in_txn_inv [OF t]
  note m = modify_spec [OF txn_invD(2) [OF T] insertI1, of d, unfolded bi]
  have o: "only_bufs st ?s" by (simp add: set_data_def)
  note o2 = only_bufsD [OF o] only_bufs_itable [OF o]
  have ts: "in_txn ?s (insert i H) W (n + (if bblockno (bufs ?s i) \<in> pinned ?s \<union> W then 0 else 1))"
    using t txn_only_bufs [OF T o m(1)] o2 bs by (simp add: in_txn_def)
  have ks: "txn_kept H st ?s" by (rule txn_kept_only_bufs [OF o]) simp
  obtain st2 where l: "log_write i ?s = Inr st2" "in_txn st2 (insert i H) W n" "view st2 = view ?s" "txn_kept (insert i H) ?s st2"
    "pinned st2 = insert b (pinned ?s)" "itable st2 = itable ?s"
    using log_block [OF ts insertI1] bs b o2 by auto
  have bi2: "bblockno (bufs st2 i) = b" using txn_keptD(10) [OF l(4)] bs by simp
  obtain st3 where p: "brelse i st2 = Inr st3" "txn_inv st3 H" "view st3 = view st2" "only_bufs st2 st3" "txn_kept H st2 st3"
    by (rule put_block [OF in_txn_inv [OF l(2)] i]) (use bi2 l(5) in auto)
  note o3 = only_bufsD [OF p(4)] only_bufs_itable [OF p(4)]
  have "in_txn st3 H W n" using l(2) p(2) o3 by (simp add: in_txn_def)
  moreover have k2: "txn_kept H st st2" using txn_kept_trans [OF ks txn_kept_subset [OF l(4)]] by auto
  moreover have "txn_kept H st st3" using txn_kept_trans [OF k2 p(5)] .
  ultimately show thesis
    using that [OF l(1) p(1)] m(2) l(3,5,6) p(3) o2 o3 by simp
qed

text \<open>A block is read, changed, logged and released.\<close>

lemma update_block:
  assumes t: "in_txn st H W (n + (if b \<in> pinned st \<union> W then 0 else 1))" and H: "card H \<le> 1"
    and h: "\<And>j. j \<in> H \<Longrightarrow> bblockno (bufs st j) \<noteq> b" and b: "b \<notin> log_region (lstart st)"
  obtains st1 i st2 st3 where "bread ROOTDEV b st = Inr (st1, i)" "bdata (bufs st1 i) = view st b"
    "log_write i (set_data i d st1) = Inr st2" "brelse i st2 = Inr st3" "in_txn st3 H W n" "view st3 = (view st)(b := d)"
    "txn_kept H st st3" "pinned st3 = insert b (pinned st)" "itable st3 = itable st" "only_bufs st st1"
proof -
  have room: "card (pinned st) + card H < NBUF" using in_txn_room(2) [OF t] H by simp
  obtain st1 i where g: "bread ROOTDEV b st = Inr (st1, i)" "i \<notin> H" "txn_inv st1 (insert i H)" "view st1 = view st"
    "only_bufs st st1" "holds st1 i b" "txn_kept H st st1" using grab_block [OF in_txn_inv [OF t] room h] by blast
  note o1 = only_bufsD [OF g(5)] only_bufs_itable [OF g(5)]
  have t1: "in_txn st1 (insert i H) W (n + (if b \<in> pinned st1 \<union> W then 0 else 1))"
    using t g(3) o1 by (simp add: in_txn_def)
  have b1: "bblockno (bufs st1 i) = b" "b \<notin> log_region (lstart st1)" using g(6) b o1 by (simp_all add: holds_def)
  obtain st2 st3 where "log_write i (set_data i d st1) = Inr st2" "brelse i st2 = Inr st3" "in_txn st3 H W n"
    "view st3 = (view st1)(b := d)" "txn_kept H st1 st3" "pinned st3 = insert b (pinned st1)" "itable st3 = itable st1"
    by (rule finish_block [OF t1 g(2) b1, where d = d])
  then show thesis
    using that [OF g(1)] g(4-6) o1 txn_kept_trans [OF g(7)] by (simp add: holds_def)
qed

section \<open>The free map\<close>

lemma u32_bound: "unat a < 4294967296" for a :: u32
  using unsigned_less [of a] by simp

lemma unat_of_nat_below: "n < unat w \<Longrightarrow> unat (of_nat n :: u32) = n" for w :: u32
proof -
  assume "n < unat w"
  then have "n < 4294967296" using u32_bound [of w] by linarith
  then show ?thesis by (simp add: unat_of_nat)
qed

lemma unat_add_of_nat: "unat a + k < 4294967296 \<Longrightarrow> unat (a + of_nat k) = unat a + k" for a :: u32
  by (simp add: unat_word_ariths unat_of_nat)

lemma bmap_bit_iff: "bmap_bit d k \<longleftrightarrow> bit (getb d (k div 8)) (k mod 8)"
  by (simp add: bmap_bit_def bit_iff_and_push_bit_not_eq_0)

lemma byte_bit_upd:
  "k < 8 \<Longrightarrow> bit (v OR push_bit k 1) j \<longleftrightarrow> j = k \<or> bit v j" "bit (v AND NOT (push_bit k 1)) j \<longleftrightarrow> j \<noteq> k \<and> bit v j"
  for v :: u8
  by (auto simp: bit_simps dest: bit_imp_le_length)

lemma bmap_bit_set_clear:
  assumes "k < BPB" "j < BPB"
  shows "bmap_bit (bmap_set d k) j \<longleftrightarrow> j = k \<or> bmap_bit d j" "bmap_bit (bmap_clear d k) j \<longleftrightarrow> j \<noteq> k \<and> bmap_bit d j"
proof -
  have l: "k div 8 < 1024" "j div 8 < 1024" "k mod 8 < 8" using assms by (auto simp: BPB_def BSIZE_def)
  have e: "j = k \<longleftrightarrow> j div 8 = k div 8 \<and> j mod 8 = k mod 8" by (metis div_mult_mod_eq)
  show "bmap_bit (bmap_set d k) j \<longleftrightarrow> j = k \<or> bmap_bit d j"
    unfolding bmap_bit_iff bmap_set_def e using l by (auto simp: getb_putb byte_bit_upd simp del: push_bit_of_1)
  show "bmap_bit (bmap_clear d k) j \<longleftrightarrow> j \<noteq> k \<and> bmap_bit d j"
    unfolding bmap_bit_iff bmap_clear_def e using l by (auto simp: getb_putb byte_bit_upd simp del: push_bit_of_1)
qed

definition used :: "fsys \<Rightarrow> u32 \<Rightarrow> bool" where
  "used st b \<longleftrightarrow> bmap_bit (view st (BBLOCK b (sb st))) (unat b mod BPB)"

text \<open>
  The layout that \<^verbatim>\<open>mkfs\<close> gives the disk: the log, the inodes, the free map, and then the blocks that
  files use.
\<close>

definition data_start :: "superblock \<Rightarrow> nat" where
  "data_start s = unat (sb_bmapstart s) + unat (sb_size s) div BPB + 1"

definition fs_layout :: "superblock \<Rightarrow> bool" where
  "fs_layout s \<longleftrightarrow> unat (sb_logstart s) + LOGSIZE \<le> unat (sb_inodestart s) \<and>
    unat (sb_inodestart s) + unat (sb_ninodes s) div IPB < unat (sb_bmapstart s) \<and> data_start s \<le> unat (sb_size s)"

definition data_block :: "superblock \<Rightarrow> u32 \<Rightarrow> bool" where
  "data_block s b \<longleftrightarrow> data_start s \<le> unat b \<and> unat b < unat (sb_size s)"

definition fs_ok :: "fsys \<Rightarrow> bool" where
  "fs_ok st \<longleftrightarrow> fs_layout (sb st) \<and> lstart st = sb_logstart (sb st) \<and>
    (\<forall>b. unat b < data_start (sb st) \<longrightarrow> used st b)"

lemma unat_BBLOCK:
  assumes "fs_layout s" "unat b < unat (sb_size s)"
  shows "unat (BBLOCK b s) = unat (sb_bmapstart s) + unat b div BPB"
proof -
  have "unat b div BPB \<le> unat (sb_size s) div BPB" using assms(2) by (simp add: div_le_mono)
  then have "unat b div BPB + unat (sb_bmapstart s) < unat (sb_size s)"
    using assms(1) by (simp add: fs_layout_def data_start_def)
  then have "unat (sb_bmapstart s) + unat b div BPB < 4294967296" using u32_bound [of "sb_size s"] by linarith
  then show ?thesis
    unfolding BBLOCK_def by (subst add.commute) (rule unat_add_of_nat)
qed

lemma logb_unat:
  assumes "fs_layout s" "c \<in> log_region (sb_logstart s)"
  shows "unat c < unat (sb_inodestart s)"
proof -
  obtain k where k: "k < LOGSIZE" "c = sb_logstart s + of_nat k" using assms(2) by (auto simp: log_region_def logb_def)
  have "unat (sb_logstart s) + k < 4294967296"
    using u32_bound [of "sb_inodestart s"] assms(1) k(1) unfolding fs_layout_def by linarith
  then have "unat c = unat (sb_logstart s) + k" unfolding k(2) by (rule unat_add_of_nat)
  then show ?thesis using assms(1) k(1) by (simp add: fs_layout_def)
qed

lemma BBLOCK_place:
  assumes "fs_layout s" "unat b < unat (sb_size s)"
  shows "\<not> data_block s (BBLOCK b s)" "BBLOCK b s \<notin> log_region (sb_logstart s)"
proof -
  have "unat b div BPB \<le> unat (sb_size s) div BPB" using assms(2) by (simp add: div_le_mono)
  then show "\<not> data_block s (BBLOCK b s)"
    using unat_BBLOCK [OF assms] by (simp add: data_block_def data_start_def)
  show "BBLOCK b s \<notin> log_region (sb_logstart s)"
    using logb_unat [OF assms(1), of "BBLOCK b s"] unat_BBLOCK [OF assms] assms(1) by (auto simp: fs_layout_def)
qed

lemma data_block_log: "fs_layout s \<Longrightarrow> data_block s b \<Longrightarrow> b \<notin> log_region (sb_logstart s)"
  using logb_unat [of s b] by (auto simp: fs_layout_def data_block_def data_start_def)

lemma BBLOCK_eq:
  assumes "fs_layout s" "unat b < unat (sb_size s)" "unat c < unat (sb_size s)"
  shows "BBLOCK b s = BBLOCK c s \<longleftrightarrow> unat b div BPB = unat c div BPB"
  using unat_BBLOCK [OF assms(1,2)] unat_BBLOCK [OF assms(1,3)] by (auto simp: word_unat_eq_iff)

lemma same_bit:
  "b = c \<longleftrightarrow> unat b div BPB = unat c div BPB \<and> unat b mod BPB = unat c mod BPB" for b c :: u32
  by (metis div_mult_mod_eq word_unat_eq_iff)

lemma mod_BPB [simp]: "n mod BPB < BPB"
  by (simp add: BPB_def BSIZE_def)

text \<open>The free map after an allocation and after a deallocation.\<close>

lemma used_set:
  assumes "fs_ok st" "data_block (sb st) b" "sb st' = sb st" "unat c < unat (sb_size (sb st))"
    and "view st' (BBLOCK c (sb st)) = (if BBLOCK c (sb st) = BBLOCK b (sb st)
      then bmap_set (view st (BBLOCK b (sb st))) (unat b mod BPB) else view st (BBLOCK c (sb st)))"
  shows "used st' c \<longleftrightarrow> c = b \<or> used st c"
proof -
  have l: "fs_layout (sb st)" "unat b < unat (sb_size (sb st))" using assms(1,2) by (simp_all add: fs_ok_def data_block_def)
  show ?thesis
    unfolding used_def same_bit [of c b] using assms(3,5) BBLOCK_eq [OF l(1) assms(4) l(2)]
    by (auto simp: bmap_bit_set_clear)
qed

lemma used_clear:
  assumes "fs_ok st" "data_block (sb st) b" "sb st' = sb st" "unat c < unat (sb_size (sb st))"
    and "view st' (BBLOCK c (sb st)) = (if BBLOCK c (sb st) = BBLOCK b (sb st)
      then bmap_clear (view st (BBLOCK b (sb st))) (unat b mod BPB) else view st (BBLOCK c (sb st)))"
  shows "used st' c \<longleftrightarrow> c \<noteq> b \<and> used st c"
proof -
  have l: "fs_layout (sb st)" "unat b < unat (sb_size (sb st))" using assms(1,2) by (simp_all add: fs_ok_def data_block_def)
  show ?thesis
    unfolding used_def same_bit [of c b] using assms(3,5) BBLOCK_eq [OF l(1) assms(4) l(2)]
    by (auto simp: bmap_bit_set_clear)
qed

section \<open>Allocating and freeing\<close>

lemma bzero_spec:
  assumes "in_txn st H W (n + (if b \<in> pinned st \<union> W then 0 else 1))" "card H \<le> 1"
    "\<And>j. j \<in> H \<Longrightarrow> bblockno (bufs st j) \<noteq> b" "b \<notin> log_region (lstart st)"
  obtains st' where "bzero ROOTDEV b st = Inr st'" "in_txn st' H W n" "view st' = (view st)(b := zero_block)"
    "txn_kept H st st'" "pinned st' = insert b (pinned st)" "itable st' = itable st"
proof -
  obtain st1 i st2 st3 where r: "bread ROOTDEV b st = Inr (st1, i)" "log_write i (set_data i zero_block st1) = Inr st2"
    "brelse i st2 = Inr st3" "in_txn st3 H W n" "view st3 = (view st)(b := zero_block)"
    "txn_kept H st st3" "pinned st3 = insert b (pinned st)" "itable st3 = itable st"
    by (rule update_block [OF assms, where d = zero_block]) blast
  then show thesis using that [of st3] by (simp add: bzero_def)
qed

definition bitmap_blocks :: "superblock \<Rightarrow> u32 set" where
  "bitmap_blocks s = (\<lambda>b. BBLOCK b s) ` {b. unat b < unat (sb_size s)}"

text \<open>The buffers that a caller of the allocator holds are those of blocks in use.\<close>

definition holds_used :: "fsys \<Rightarrow> nat set \<Rightarrow> bool" where
  "holds_used st H \<longleftrightarrow> card H \<le> 1 \<and>
    (\<forall>j \<in> H. data_block (sb st) (bblockno (bufs st j)) \<and> used st (bblockno (bufs st j)))"

definition can_alloc :: "fsys \<Rightarrow> nat set \<Rightarrow> u32 set \<Rightarrow> nat \<Rightarrow> bool" where
  "can_alloc st H W n \<longleftrightarrow> in_txn st H W n \<and> fs_ok st \<and> bitmap_blocks (sb st) \<subseteq> W \<and> holds_used st H"

definition took :: "fsys \<Rightarrow> nat set \<Rightarrow> u32 set \<Rightarrow> nat \<Rightarrow> fsys \<Rightarrow> u32 \<Rightarrow> bool" where
  "took st H W n st' b \<longleftrightarrow> in_txn st' H W n \<and> txn_kept H st st' \<and> itable st' = itable st \<and> b \<in> pinned st' \<and>
    data_block (sb st) b \<and> \<not> used st b \<and>
    view st' = (view st)(BBLOCK b (sb st) := bmap_set (view st (BBLOCK b (sb st))) (unat b mod BPB), b := zero_block)"

lemma used_cong: "view st' = view st \<Longrightarrow> sb st' = sb st \<Longrightarrow> used st' = used st"
  by (auto simp: used_def)

lemma can_allocD:
  assumes "can_alloc st H W n"
  shows "in_txn st H W n" "fs_ok st" "fs_layout (sb st)" "lstart st = sb_logstart (sb st)" "holds_used st H"
    "unat b < unat (sb_size (sb st)) \<Longrightarrow> BBLOCK b (sb st) \<in> W" "card H \<le> 1"
    "\<And>j. j \<in> H \<Longrightarrow> unat b < unat (sb_size (sb st)) \<Longrightarrow> bblockno (bufs st j) \<noteq> BBLOCK b (sb st)"
    "\<And>j. j \<in> H \<Longrightarrow> \<not> used st b \<Longrightarrow> bblockno (bufs st j) \<noteq> b"
    "unat b < unat (sb_size (sb st)) \<Longrightarrow> BBLOCK b (sb st) \<notin> log_region (lstart st)"
proof -
  show a: "in_txn st H W n" "fs_ok st" "holds_used st H" "fs_layout (sb st)" "lstart st = sb_logstart (sb st)"
    using assms by (simp_all add: can_alloc_def fs_ok_def)
  then show "card H \<le> 1" "\<And>j. j \<in> H \<Longrightarrow> \<not> used st b \<Longrightarrow> bblockno (bufs st j) \<noteq> b" by (auto simp: holds_used_def)
  show "unat b < unat (sb_size (sb st)) \<Longrightarrow> BBLOCK b (sb st) \<in> W"
    using assms by (auto simp: can_alloc_def bitmap_blocks_def)
  note p = BBLOCK_place [OF a(4)]
  show "\<And>j. j \<in> H \<Longrightarrow> unat b < unat (sb_size (sb st)) \<Longrightarrow> bblockno (bufs st j) \<noteq> BBLOCK b (sb st)"
    using p(1) a(3) by (force simp: holds_used_def)
  show "unat b < unat (sb_size (sb st)) \<Longrightarrow> BBLOCK b (sb st) \<notin> log_region (lstart st)" using p(2) a(5) by simp
qed

lemma can_alloc_cong:
  assumes "can_alloc st H W n" "in_txn st' H W m" "view st' = view st" "txn_kept H st st'"
  shows "can_alloc st' H W m"
  using assms txn_keptD [OF assms(4)] used_cong [of st' st]
  by (auto simp: can_alloc_def fs_ok_def holds_used_def)

text \<open>One block of the free map: bit \<open>k\<close> of the block for \<open>b\<close> is that of block \<open>b + k\<close>.\<close>

lemma bit_block:
  assumes "b mod BPB = 0" "k < BPB" "b + k < unat (sb_size s)" "fs_layout s"
  defines "c \<equiv> of_nat (b + k) :: u32"
  shows "unat c = b + k" "BBLOCK c s = BBLOCK (of_nat b) s" "unat c mod BPB = k"
proof -
  show c: "unat c = b + k" unfolding c_def by (rule unat_of_nat_below [OF assms(3)])
  have b: "unat (of_nat b :: u32) = b" by (rule unat_of_nat_below [of _ "sb_size s"]) (use assms(3) in simp)
  show "unat c mod BPB = k" using assms(1,2) c by (metis add_0 mod_add_left_eq mod_less)
  have "(b + k) div BPB = b div BPB" using assms(1,2) by (metis add.right_neutral div_less div_plus_div_distrib_dvd_left dvd_eq_mod_eq_0)
  then show "BBLOCK c s = BBLOCK (of_nat b) s" unfolding BBLOCK_def c b by simp
qed

lemma balloc_take:
  assumes a: "can_alloc st H W (Suc n)" and c: "unat c < unat (sb_size (sb st))" "\<not> used st c"
  obtains st1 i st2 st3 st4 where "bread ROOTDEV (BBLOCK c (sb st)) st = Inr (st1, i)"
    "bdata (bufs st1 i) = view st (BBLOCK c (sb st))" "only_bufs st st1"
    "log_write i (set_data i (bmap_set (view st (BBLOCK c (sb st))) (unat c mod BPB)) st1) = Inr st2"
    "brelse i st2 = Inr st3" "bzero ROOTDEV c st3 = Inr st4" "took st H W n st4 c"
proof -
  let ?B = "BBLOCK c (sb st)" and ?d = "bmap_set (view st (BBLOCK c (sb st))) (unat c mod BPB)"
  note A = can_allocD [OF a]
  have d: "data_block (sb st) c" using A(2) c by (auto simp: data_block_def fs_ok_def not_less)
  have t: "in_txn st H W (Suc n + (if ?B \<in> pinned st \<union> W then 0 else 1))" using A(1,6) c(1) by simp
  obtain st1 i st2 st3 where u: "bread ROOTDEV ?B st = Inr (st1, i)" "bdata (bufs st1 i) = view st ?B"
    "log_write i (set_data i ?d st1) = Inr st2" "brelse i st2 = Inr st3" "in_txn st3 H W (Suc n)"
    "view st3 = (view st)(?B := ?d)" "txn_kept H st st3" "pinned st3 = insert ?B (pinned st)" "itable st3 = itable st" "only_bufs st st1"
    by (rule update_block [OF t A(7) A(8) [OF _ c(1)] A(10) [OF c(1)], where d = ?d])
  note k = txn_keptD [OF u(7)]
  have t3: "in_txn st3 H W (n + (if c \<in> pinned st3 \<union> W then 0 else 1))" by (rule in_txn_less [OF u(5)]) simp
  obtain st4 where z: "bzero ROOTDEV c st3 = Inr st4" "in_txn st4 H W n" "view st4 = (view st3)(c := zero_block)"
    "txn_kept H st3 st4" "pinned st4 = insert c (pinned st3)" "itable st4 = itable st3"
    by (rule bzero_spec [OF t3 A(7)]) (use A(9) [OF _ c(2)] k data_block_log [OF A(3) d] A(4) in auto)
  have "took st H W n st4 c"
    unfolding took_def using z u(6,9) txn_kept_trans [OF u(7) z(4)] d c(2) by simp
  then show thesis by (rule that [OF u(1,2,10,3,4) z(1)])
qed

lemma balloc_next:
  assumes a: "can_alloc st H W (Suc n)" and b: "b mod BPB = 0" "b < unat (sb_size (sb st))"
    and none: "find (\<lambda>bi. \<not> bmap_bit (view st (BBLOCK (of_nat b) (sb st))) bi) [0..<min BPB (unat (sb_size (sb st)) - b)] = None"
  obtains st2 where "balloc_loop ROOTDEV (b # bs) st = balloc_loop ROOTDEV bs st2" "can_alloc st2 H W (Suc n)"
    "sb st2 = sb st" "used st2 = used st" "\<And>st' c. took st2 H W n st' c \<Longrightarrow> took st H W n st' c"
    "\<And>c. unat c < unat (sb_size (sb st)) \<Longrightarrow> unat c - unat c mod BPB = b \<Longrightarrow> used st c"
proof -
  let ?size = "unat (sb_size (sb st))" and ?B = "BBLOCK (of_nat b) (sb st)"
  note A = can_allocD [OF a]
  have ub: "unat (of_nat b :: u32) = b" by (rule unat_of_nat_below [OF b(2)])
  have all: "\<And>k. k < BPB \<Longrightarrow> b + k < ?size \<Longrightarrow> bmap_bit (view st ?B) k" using none by (auto simp: find_None_iff)
  have room: "card (pinned st) + card H < NBUF" using in_txn_room(2) [OF A(1)] A(7) by simp
  obtain st1 i st2 where l: "bread ROOTDEV ?B st = Inr (st1, i)" "bdata (bufs st1 i) = view st ?B" "brelse i st1 = Inr st2"
    "txn_inv st2 H" "view st2 = view st" "only_bufs st st1" "only_bufs st st2" "txn_kept H st st2"
    by (rule look_block [OF in_txn_inv [OF A(1)] room, of ?B]) (use A(8) [of _ "of_nat b"] ub b(2) in auto)
  note o = only_bufs_itable [OF l(6)] only_bufs_itable [OF l(7)] only_bufsD [OF l(7)]
  have t2: "in_txn st2 H W (Suc n)" using A(1) l(4) o by (simp add: in_txn_def)
  have "balloc_loop ROOTDEV (b # bs) st = balloc_loop ROOTDEV bs st2" using l none o by simp
  moreover have "took st2 H W n st' c \<Longrightarrow> took st H W n st' c" for st' c
    unfolding took_def using l(5) o used_cong [OF l(5)] txn_kept_trans [OF l(8)] by auto
  moreover have "used st c" if c: "unat c < ?size" "unat c - unat c mod BPB = b" for c
  proof -
    have e: "b + unat c mod BPB = unat c" using c(2) by (metis le_add_diff_inverse2 mod_less_eq_dividend)
    then have "used st (of_nat (b + unat c mod BPB))"
      using all [of "unat c mod BPB"] bit_block [OF b(1) _ _ A(3), of "unat c mod BPB"] c(1) by (simp add: used_def)
    then show ?thesis using e by simp
  qed
  ultimately show thesis
    using that [of st2] can_alloc_cong [OF a t2 l(5,8)] o used_cong [OF l(5)] by simp
qed

lemma balloc_loop_spec:
  assumes "can_alloc st H W (Suc n)" "\<And>b. b \<in> set bs \<Longrightarrow> b mod BPB = 0 \<and> b < unat (sb_size (sb st))"
  defines "free c \<equiv> unat c < unat (sb_size (sb st)) \<and> unat c - unat c mod BPB \<in> set bs \<and> \<not> used st c"
  shows "(\<exists>st' b. balloc_loop ROOTDEV bs st = Inr (st', b) \<and> took st H W n st' b) \<or>
    (\<forall>c. \<not> free c) \<and> balloc_loop ROOTDEV bs st = Inl (Panic ''balloc: out of blocks'')"
  using assms(1,2) unfolding free_def
proof (induction bs arbitrary: st)
  case (Cons b bs)
  let ?size = "unat (sb_size (sb st))" and ?B = "BBLOCK (of_nat b) (sb st)"
  note A = can_allocD [OF Cons.prems(1)]
  have b: "b mod BPB = 0" "b < ?size" using Cons.prems(2) [of b] by simp_all
  note B = bit_block [OF b(1) _ _ A(3)]
  show ?case
  proof (cases "find (\<lambda>bi. \<not> bmap_bit (view st ?B) bi) [0..<min BPB (?size - b)]")
    case (Some bi)
    then have bi: "bi < BPB" "b + bi < ?size" "\<not> bmap_bit (view st ?B) bi" by (auto simp: find_Some_iff)
    let ?c = "of_nat (b + bi) :: u32"
    have nc: "\<not> used st ?c" using bi(3) B [OF bi(1,2)] by (simp add: used_def)
    have lc: "unat ?c < ?size" using B(1) [OF bi(1,2)] bi(2) by simp
    obtain st1 i st2 st3 st4 where r: "bread ROOTDEV ?B st = Inr (st1, i)" "bdata (bufs st1 i) = view st ?B" "only_bufs st st1"
      "log_write i (set_data i (bmap_set (view st ?B) bi) st1) = Inr st2"
      "brelse i st2 = Inr st3" "bzero ROOTDEV ?c st3 = Inr st4" "took st H W n st4 ?c"
      using balloc_take [OF Cons.prems(1) lc nc] unfolding B(2,3) [OF bi(1,2)] by blast
    have "balloc_loop ROOTDEV (b # bs) st = Inr (st4, ?c)"
      using r Some only_bufs_itable [OF r(3)] by simp
    then show ?thesis using r(7) by blast
  next
    case None
    then obtain st2 where n: "balloc_loop ROOTDEV (b # bs) st = balloc_loop ROOTDEV bs st2" "can_alloc st2 H W (Suc n)"
      "sb st2 = sb st" "used st2 = used st" "\<And>st' c. took st2 H W n st' c \<Longrightarrow> took st H W n st' c"
      "\<And>c. unat c < ?size \<Longrightarrow> unat c - unat c mod BPB = b \<Longrightarrow> used st c"
      by (rule balloc_next [OF Cons.prems(1) b]) blast
    have bs: "\<And>b. b \<in> set bs \<Longrightarrow> b mod BPB = 0 \<and> b < unat (sb_size (sb st2))" using Cons.prems(2) n(3) by simp
    show ?thesis using Cons.IH [OF n(2) bs]
    proof
      assume "\<exists>st' b. balloc_loop ROOTDEV bs st2 = Inr (st', b) \<and> took st2 H W n st' b"
      then show ?thesis using n(5) unfolding n(1) by blast
    next
      assume "(\<forall>c. \<not> (unat c < unat (sb_size (sb st2)) \<and> unat c - unat c mod BPB \<in> set bs \<and> \<not> used st2 c)) \<and>
        balloc_loop ROOTDEV bs st2 = Inl (Panic ''balloc: out of blocks'')"
      then show ?thesis using n(6) unfolding n(1,3,4) by (metis set_ConsD)
    qed
  qed
qed simp

lemma balloc_spec:
  assumes a: "can_alloc st H W (Suc n)"
  shows "(\<exists>st' b. balloc ROOTDEV st = Inr (st', b) \<and> took st H W n st' b) \<or>
    (\<forall>c. unat c < unat (sb_size (sb st)) \<longrightarrow> used st c) \<and> balloc ROOTDEV st = Inl (Panic ''balloc: out of blocks'')"
proof -
  let ?size = "unat (sb_size (sb st))"
  let ?bs = "map (\<lambda>k. k * BPB) [0..<(?size + BPB - 1) div BPB]"
  have 1: "b mod BPB = 0 \<and> b < ?size" if "b \<in> set ?bs" for b
    using that by (auto simp: BPB_def BSIZE_def less_mult_imp_div_less)
  have 2: "unat c - unat c mod BPB \<in> set ?bs" if "unat c < ?size" for c :: u32
  proof -
    have "unat c div BPB < (?size + BPB - 1) div BPB" using that by (simp add: BPB_def BSIZE_def)
    moreover have "unat c - unat c mod BPB = unat c div BPB * BPB" by (simp add: minus_mod_eq_div_mult)
    ultimately show ?thesis by force
  qed
  show ?thesis using balloc_loop_spec [OF a 1] 2 unfolding balloc_def by blast
qed

text \<open>What follows for the free map and for the contents of the blocks.\<close>

lemma data_not_bitmap: "fs_layout s \<Longrightarrow> data_block s b \<Longrightarrow> b \<notin> bitmap_blocks s"
  using BBLOCK_place(1) [of s] by (auto simp: bitmap_blocks_def)

lemma took_used:
  assumes a: "fs_ok st" and t: "took st H W n st' b"
  shows "unat c < unat (sb_size (sb st)) \<Longrightarrow> used st' c \<longleftrightarrow> c = b \<or> used st c" "view st' b = zero_block"
    "c \<noteq> b \<Longrightarrow> c \<notin> bitmap_blocks (sb st) \<Longrightarrow> view st' c = view st c" "fs_ok st'"
proof -
  have d: "data_block (sb st) b" and k: "txn_kept H st st'"
    and v: "view st' = (view st)(BBLOCK b (sb st) := bmap_set (view st (BBLOCK b (sb st))) (unat b mod BPB), b := zero_block)"
    using t by (simp_all add: took_def)
  have l: "fs_layout (sb st)" and b: "unat b < unat (sb_size (sb st))" using a d by (simp_all add: fs_ok_def data_block_def)
  have sb: "sb st' = sb st" "lstart st' = lstart st" using txn_keptD [OF k] by simp_all
  show "view st' b = zero_block" using v by simp
  show "c \<noteq> b \<Longrightarrow> c \<notin> bitmap_blocks (sb st) \<Longrightarrow> view st' c = view st c"
    using v b by (auto simp: bitmap_blocks_def)
  show u: "used st' c \<longleftrightarrow> c = b \<or> used st c" if c: "unat c < unat (sb_size (sb st))" for c
    by (rule used_set [OF a d sb(1) c]) (use v BBLOCK_place(1) [OF l c] d in auto)
  show "fs_ok st'"
    using a sb u l unfolding fs_ok_def by (auto simp: fs_layout_def)
qed

lemma took_can_alloc:
  assumes a: "can_alloc st H W (Suc n)" and t: "took st H W n st' b"
  shows "can_alloc st' H W n"
proof -
  note A = can_allocD [OF a] and T = took_used [OF can_allocD(2) [OF a] t]
  have k: "txn_kept H st st'" "in_txn st' H W n" using t by (simp_all add: took_def)
  have "holds_used st' H"
    using A(5) T(1) txn_keptD [OF k(1)] by (auto simp: holds_used_def data_block_def)
  then show ?thesis using a T(4) k(2) txn_keptD [OF k(1)] by (simp add: can_alloc_def)
qed

definition free_blocks :: "fsys \<Rightarrow> u32 set" where
  "free_blocks st = {c. unat c < unat (sb_size (sb st)) \<and> \<not> used st c}"

lemma took_free_blocks:
  assumes "fs_ok st" "took st H W n st' b"
  shows "b \<in> free_blocks st" "free_blocks st' = free_blocks st - {b}"
proof -
  have "sb st' = sb st" "b \<in> free_blocks st" using assms(2) txn_keptD(8) by (auto simp: took_def free_blocks_def data_block_def)
  then show "b \<in> free_blocks st" "free_blocks st' = free_blocks st - {b}"
    using took_used(1) [OF assms] by (auto simp: free_blocks_def)
qed

lemma took_free: "fs_ok st \<Longrightarrow> took st H W n st' b \<Longrightarrow> Suc (card (free_blocks st')) = card (free_blocks st)"
  using took_free_blocks [of st H W n st' b] by (metis card_Suc_Diff1 finite)

lemma free_blocks_cong: "view st' = view st \<Longrightarrow> sb st' = sb st \<Longrightarrow> free_blocks st' = free_blocks st"
  using used_cong [of st' st] by (simp add: free_blocks_def)

lemma balloc_cases:
  assumes a: "can_alloc st H W (Suc n)"
  obtains (took) st' b where "balloc ROOTDEV st = Inr (st', b)" "took st H W n st' b" "can_alloc st' H W n"
      "Suc (card (free_blocks st')) = card (free_blocks st)"
    | (full) "balloc ROOTDEV st = Inl (Panic ''balloc: out of blocks'')" "card (free_blocks st) = 0"
  using balloc_spec [OF a] took_can_alloc [OF a] took_free [OF can_allocD(2) [OF a]] by (auto simp: free_blocks_def)

text \<open>\<^verbatim>\<open>bfree\<close>.\<close>

definition gave :: "fsys \<Rightarrow> nat set \<Rightarrow> u32 set \<Rightarrow> nat \<Rightarrow> fsys \<Rightarrow> u32 \<Rightarrow> bool" where
  "gave st H W n st' b \<longleftrightarrow> in_txn st' H W n \<and> txn_kept H st st' \<and> itable st' = itable st \<and>
    view st' = (view st)(BBLOCK b (sb st) := bmap_clear (view st (BBLOCK b (sb st))) (unat b mod BPB))"

lemma bfree_spec:
  assumes a: "can_alloc st H W n" and b: "unat b < unat (sb_size (sb st))" "used st b"
  obtains st' where "bfree ROOTDEV b st = Inr st'" "gave st H W n st' b"
proof -
  let ?B = "BBLOCK b (sb st)" and ?d = "bmap_clear (view st (BBLOCK b (sb st))) (unat b mod BPB)"
  note A = can_allocD [OF a]
  have t: "in_txn st H W (n + (if ?B \<in> pinned st \<union> W then 0 else 1))" using A(1,6) b(1) by simp
  obtain st1 i st2 st3 where u: "bread ROOTDEV ?B st = Inr (st1, i)" "bdata (bufs st1 i) = view st ?B"
    "log_write i (set_data i ?d st1) = Inr st2" "brelse i st2 = Inr st3" "in_txn st3 H W n"
    "view st3 = (view st)(?B := ?d)" "txn_kept H st st3" "itable st3 = itable st"
    by (rule update_block [OF t A(7) A(8) [OF _ b(1)] A(10) [OF b(1)], where d = ?d])
  then show thesis using that [of st3] b(2) by (simp add: bfree_def gave_def used_def Let_def)
qed

lemma bfree_panics:
  assumes a: "can_alloc st H W n" and b: "unat b < unat (sb_size (sb st))" "\<not> used st b"
  shows "bfree ROOTDEV b st = Inl (Panic ''freeing free block'')"
proof -
  note A = can_allocD [OF a]
  have room: "card (pinned st) + card H < NBUF" using in_txn_room(2) [OF A(1)] A(7) by simp
  obtain st1 i st2 where "bread ROOTDEV (BBLOCK b (sb st)) st = Inr (st1, i)" "bdata (bufs st1 i) = view st (BBLOCK b (sb st))"
    by (rule look_block [OF in_txn_inv [OF A(1)] room A(8) [OF _ b(1)]])
  then show ?thesis using b(2) by (simp add: bfree_def used_def Let_def)
qed

lemma gave_used:
  assumes a: "fs_ok st" and t: "gave st H W n st' b" and d: "data_block (sb st) b"
  shows "unat c < unat (sb_size (sb st)) \<Longrightarrow> used st' c \<longleftrightarrow> c \<noteq> b \<and> used st c"
    "c \<notin> bitmap_blocks (sb st) \<Longrightarrow> view st' c = view st c" "fs_ok st'"
proof -
  have k: "txn_kept H st st'"
    and v: "view st' = (view st)(BBLOCK b (sb st) := bmap_clear (view st (BBLOCK b (sb st))) (unat b mod BPB))"
    using t by (simp_all add: gave_def)
  have l: "fs_layout (sb st)" and b: "unat b < unat (sb_size (sb st))" using a d by (simp_all add: fs_ok_def data_block_def)
  have sb: "sb st' = sb st" "lstart st' = lstart st" using txn_keptD [OF k] by simp_all
  show "c \<notin> bitmap_blocks (sb st) \<Longrightarrow> view st' c = view st c" using v b by (auto simp: bitmap_blocks_def)
  show u: "used st' c \<longleftrightarrow> c \<noteq> b \<and> used st c" if c: "unat c < unat (sb_size (sb st))" for c
    by (rule used_clear [OF a d sb(1) c]) (use v in auto)
  show "fs_ok st'"
    using a sb u l d unfolding fs_ok_def by (auto simp: fs_layout_def data_block_def)
qed

end
