(* ===== verification/Fs_Content.thy ===== *)
theory Fs_Content
  imports Fs_Alloc
begin

text \<open>
  The contents of files in \<^verbatim>\<open>kernel/fs.c\<close>. A file is the function from offsets to bytes that its inode, its indirect
  block and its blocks give. \<^verbatim>\<open>bmap\<close> extends the map from block numbers to blocks by a fresh zeroed block or leaves it,
  \<^verbatim>\<open>readi\<close> returns the bytes of the file, \<^verbatim>\<open>writei\<close> changes exactly the addressed ones, and other files keep
  their blocks and their contents.
\<close>

section \<open>The blocks and the bytes of a file\<close>

definition indirect :: "fsys \<Rightarrow> nat \<Rightarrow> u32" where
  "indirect st i = i_addrs (itable st i) NDIRECT"

definition file_addr :: "fsys \<Rightarrow> nat \<Rightarrow> nat \<Rightarrow> u32" where
  "file_addr st i bn =
    (if bn < NDIRECT then i_addrs (itable st i) bn
     else if indirect st i = 0 then 0
     else ld32 (view st (indirect st i)) (4 * (bn - NDIRECT)))"

definition file_blocks :: "fsys \<Rightarrow> nat \<Rightarrow> u32 set" where
  "file_blocks st i = insert (indirect st i) (file_addr st i ` {..<MAXFILE}) - {0}"

definition fbyte :: "fsys \<Rightarrow> nat \<Rightarrow> nat \<Rightarrow> u8" where
  "fbyte st i off =
    (let a = file_addr st i (off div BSIZE) in if a = 0 then 0 else getb (view st a) (off mod BSIZE))"

text \<open>The blocks of a file are in use, no block is there twice, and there is a block for every byte below the size.\<close>

definition inode_ok :: "fsys \<Rightarrow> nat \<Rightarrow> bool" where
  "inode_ok st i \<longleftrightarrow>
    i_dev (itable st i) = ROOTDEV \<and> unat (i_inum (itable st i)) < unat (sb_ninodes (sb st)) \<and>
    unat (i_size (itable st i)) \<le> MAXFILE * BSIZE \<and>
    (\<forall>b \<in> file_blocks st i. data_block (sb st) b \<and> used st b) \<and>
    (\<forall>m < MAXFILE. file_addr st i m \<noteq> 0 \<longrightarrow>
      file_addr st i m \<noteq> indirect st i \<and> (\<forall>k < MAXFILE. file_addr st i k = file_addr st i m \<longrightarrow> k = m)) \<and>
    (\<forall>m. m * BSIZE < unat (i_size (itable st i)) \<longrightarrow> file_addr st i m \<noteq> 0)"

lemma inode_okD:
  assumes "inode_ok st i"
  shows "i_dev (itable st i) = ROOTDEV" "unat (i_inum (itable st i)) < unat (sb_ninodes (sb st))"
    "unat (i_size (itable st i)) \<le> MAXFILE * BSIZE" "b \<in> file_blocks st i \<Longrightarrow> data_block (sb st) b \<and> used st b"
    "m < MAXFILE \<Longrightarrow> file_addr st i m \<noteq> 0 \<Longrightarrow> file_addr st i m \<noteq> indirect st i"
    "m < MAXFILE \<Longrightarrow> file_addr st i m \<noteq> 0 \<Longrightarrow> k < MAXFILE \<Longrightarrow> file_addr st i k = file_addr st i m \<Longrightarrow> k = m"
    "m * BSIZE < unat (i_size (itable st i)) \<Longrightarrow> file_addr st i m \<noteq> 0"
    "indirect st i \<noteq> 0 \<Longrightarrow> data_block (sb st) (indirect st i) \<and> used st (indirect st i)"
    "m < MAXFILE \<Longrightarrow> file_addr st i m \<noteq> 0 \<Longrightarrow> data_block (sb st) (file_addr st i m) \<and> used st (file_addr st i m)"
  using assms by (auto simp: inode_ok_def file_blocks_def)

definition fresh :: "fsys \<Rightarrow> u32 \<Rightarrow> bool" where
  "fresh st b \<longleftrightarrow> data_block (sb st) b \<and> \<not> used st b"

lemma inode_ok_bn: "inode_ok st i \<Longrightarrow> m * BSIZE < unat (i_size (itable st i)) \<Longrightarrow> m < MAXFILE"
  using inode_okD(3) [of st i] less_le_trans [of "m * BSIZE" _ "MAXFILE * BSIZE"] by (metis mult_less_cancel2)

text \<open>What allocation for a file may do: give a missing block a fresh zeroed one.\<close>

definition extends :: "fsys \<Rightarrow> nat \<Rightarrow> fsys \<Rightarrow> bool" where
  "extends st i st' \<longleftrightarrow> sb st' = sb st \<and> (\<exists>a. itable st' = (itable st)(i := (itable st i)\<lparr>i_addrs := a\<rparr>)) \<and>
    (\<forall>m < MAXFILE. file_addr st' i m = file_addr st i m \<or>
      file_addr st i m = 0 \<and> fresh st (file_addr st' i m) \<and> view st' (file_addr st' i m) = zero_block) \<and>
    (indirect st' i = indirect st i \<or> indirect st i = 0 \<and> fresh st (indirect st' i)) \<and>
    (\<forall>c. unat c < unat (sb_size (sb st)) \<longrightarrow> (used st' c \<longleftrightarrow> used st c \<or> c \<in> file_blocks st' i)) \<and>
    (\<forall>c. c \<notin> bitmap_blocks (sb st) \<longrightarrow> (data_block (sb st) c \<longrightarrow> used st c \<and> c \<noteq> indirect st i) \<longrightarrow> view st' c = view st c)"

lemma extendsD:
  assumes "extends st i st'"
  shows "sb st' = sb st" "j \<noteq> i \<Longrightarrow> itable st' j = itable st j" "i_size (itable st' i) = i_size (itable st i)"
    "i_inum (itable st' i) = i_inum (itable st i)" "i_dev (itable st' i) = i_dev (itable st i)"
    "m < MAXFILE \<Longrightarrow> file_addr st' i m = file_addr st i m \<or>
      file_addr st i m = 0 \<and> fresh st (file_addr st' i m) \<and> view st' (file_addr st' i m) = zero_block"
    "indirect st' i = indirect st i \<or> indirect st i = 0 \<and> fresh st (indirect st' i)"
    "unat c < unat (sb_size (sb st)) \<Longrightarrow> used st' c \<longleftrightarrow> used st c \<or> c \<in> file_blocks st' i"
    "c \<notin> bitmap_blocks (sb st) \<Longrightarrow> \<not> data_block (sb st) c \<Longrightarrow> view st' c = view st c"
    "c \<notin> bitmap_blocks (sb st) \<Longrightarrow> used st c \<Longrightarrow> c \<noteq> indirect st i \<Longrightarrow> view st' c = view st c"
    "itable st' i = (itable st i)\<lparr>i_addrs := i_addrs (itable st' i)\<rparr>"
proof -
  obtain a where a: "itable st' = (itable st)(i := (itable st i)\<lparr>i_addrs := a\<rparr>)" using assms by (auto simp: extends_def)
  show "j \<noteq> i \<Longrightarrow> itable st' j = itable st j" "i_size (itable st' i) = i_size (itable st i)"
    "i_inum (itable st' i) = i_inum (itable st i)" "i_dev (itable st' i) = i_dev (itable st i)"
    "itable st' i = (itable st i)\<lparr>i_addrs := i_addrs (itable st' i)\<rparr>" unfolding a by simp_all
qed (use assms in \<open>auto simp: extends_def\<close>)

lemma file_blocks_mono:
  assumes "extends st i st'"
  shows "file_blocks st i \<subseteq> file_blocks st' i"
proof
  fix b
  assume "b \<in> file_blocks st i"
  then consider "b \<noteq> 0" "b = indirect st i" | m where "b \<noteq> 0" "m < MAXFILE" "b = file_addr st i m"
    by (auto simp: file_blocks_def)
  then show "b \<in> file_blocks st' i"
  proof cases
    case 1
    then show ?thesis using extendsD(7) [OF assms] by (auto simp: file_blocks_def)
  next
    case 2
    then have "file_addr st' i m = b" using extendsD(6) [OF assms, of m] by auto
    then show ?thesis using 2 by (force simp: file_blocks_def)
  qed
qed

lemma extends_refl: "inode_ok st i \<Longrightarrow> extends st i st"
  by (auto simp: extends_def inode_okD intro: exI [of _ "i_addrs (itable st i)"])

lemma extends_trans:
  assumes 1: "extends st i st1" and 2: "extends st1 i st2" and ok: "inode_ok st1 i" "fs_ok st"
  shows "extends st i st2"
proof -
  note A = extendsD [OF 1] and B = extendsD [OF 2] and K = inode_okD [OF ok(1)]
  have l: "fs_layout (sb st)" using ok(2) by (simp add: fs_ok_def)
  have up: "used st c \<Longrightarrow> used st1 c" if "data_block (sb st) c" for c using A(8) that by (auto simp: data_block_def)
  then have fr: "fresh st1 c \<Longrightarrow> fresh st c" for c using A(1) by (auto simp: fresh_def)
  have "\<exists>a. itable st2 = (itable st)(i := (itable st i)\<lparr>i_addrs := a\<rparr>)"
    using 1 2 by (auto simp: extends_def)
  moreover have "file_addr st2 i m = file_addr st i m \<or>
      file_addr st i m = 0 \<and> fresh st (file_addr st2 i m) \<and> view st2 (file_addr st2 i m) = zero_block" if m: "m < MAXFILE" for m
  proof (cases "file_addr st2 i m = file_addr st1 i m \<and> file_addr st1 i m \<noteq> 0")
    case True
    then have "view st2 (file_addr st1 i m) = view st1 (file_addr st1 i m)"
      using B(10) K(5,9) [OF m] data_not_bitmap [OF l] A(1) by simp
    then show ?thesis using A(6) [OF m] True by auto
  next
    case False
    then show ?thesis using A(6) [OF m] B(6) [OF m] fr by auto
  qed
  moreover have "indirect st2 i = indirect st i \<or> indirect st i = 0 \<and> fresh st (indirect st2 i)"
    using A(7) B(7) fr by auto
  moreover have "used st2 c \<longleftrightarrow> used st c \<or> c \<in> file_blocks st2 i" if "unat c < unat (sb_size (sb st))" for c
    using A(8) [OF that] B(8) [of c] that A(1) file_blocks_mono [OF 2] by auto
  moreover have "view st2 c = view st c" if c: "c \<notin> bitmap_blocks (sb st)" "data_block (sb st) c \<longrightarrow> used st c \<and> c \<noteq> indirect st i" for c
  proof (cases "data_block (sb st) c")
    case True
    then have "c \<noteq> indirect st1 i" using c(2) A(7) by (auto simp: fresh_def)
    then show ?thesis using A(10) [OF c(1)] B(10) [of c] c up [OF True] True A(1) by simp
  next
    case False
    then show ?thesis using A(9) [OF c(1)] B(9) [of c] c(1) A(1) by simp
  qed
  ultimately show ?thesis unfolding extends_def using A(1) B(1) by simp
qed

section \<open>Giving a file one more block\<close>

lemma inode_irrelevant [simp]:
  "view (upd_inode i f st) = view st" "cache_inv (upd_inode i f st) H P = cache_inv st H P"
  "pinned (upd_inode i f st) = pinned st" "sb (upd_inode i f st) = sb st" "lstart (upd_inode i f st) = lstart st"
  "itable (upd_inode i f st) = (itable st)(i := f (itable st i))" "bufs (upd_inode i f st) = bufs st"
  by (simp_all add: upd_inode_def cache_inv_def buf_ok_def lru_def view_def [abs_def] pinned_def cong: option.case_cong)

lemma inode_irrelevant_txn [simp]:
  "txn_inv (upd_inode i f st) H = txn_inv st H" "in_txn (upd_inode i f st) H W n = in_txn st H W n"
  "used (upd_inode i f st) = used st" "fs_ok (upd_inode i f st) = fs_ok st"
  "can_alloc (upd_inode i f st) H W n = can_alloc st H W n" "txn_kept H st' (upd_inode i f st) = txn_kept H st' st"
proof -
  have c: "lh_n (upd_inode i f st) = lh_n st" "lh_block (upd_inode i f st) = lh_block st" "ldev (upd_inode i f st) = ldev st"
    "disk (upd_inode i f st) = disk st" "lsize (upd_inode i f st) = lsize st" "trace (upd_inode i f st) = trace st"
    "curpid (upd_inode i f st) = curpid st" "loutstanding (upd_inode i f st) = loutstanding st"
    "lcommitting (upd_inode i f st) = lcommitting st" by (simp_all add: upd_inode_def)
  show t: "txn_inv (upd_inode i f st) H = txn_inv st H" for H by (simp add: txn_inv_def c)
  show n: "in_txn (upd_inode i f st) H W n = in_txn st H W n" by (simp add: in_txn_def t c)
  show u: "used (upd_inode i f st) = used st" by (rule used_cong) simp_all
  show o: "fs_ok (upd_inode i f st) = fs_ok st" by (simp add: fs_ok_def u)
  show "can_alloc (upd_inode i f st) H W n = can_alloc st H W n" by (simp add: can_alloc_def holds_used_def n u o)
  show "txn_kept H st' (upd_inode i f st) = txn_kept H st' st" by (simp add: txn_kept_def c)
qed

lemma data_block_nonzero: "data_block s b \<Longrightarrow> b \<noteq> 0"
  by (auto simp: data_block_def data_start_def)

lemma MAXFILE_eq: "MAXFILE = NDIRECT + NINDIRECT" "NINDIRECT = 256" "NDIRECT = 12"
  by (simp_all add: MAXFILE_def NINDIRECT_def NDIRECT_def BSIZE_def)

definition grown :: "fsys \<Rightarrow> nat \<Rightarrow> fsys \<Rightarrow> u32 \<Rightarrow> bool" where
  "grown st i st' b \<longleftrightarrow> fresh st b \<and> sb st' = sb st \<and> (\<exists>a. itable st' = (itable st)(i := (itable st i)\<lparr>i_addrs := a\<rparr>)) \<and>
    (\<forall>c. unat c < unat (sb_size (sb st)) \<longrightarrow> (used st' c \<longleftrightarrow> c = b \<or> used st c)) \<and>
    (\<forall>c. c \<notin> bitmap_blocks (sb st) \<longrightarrow> (data_block (sb st) c \<longrightarrow> used st c \<and> c \<noteq> indirect st i) \<longrightarrow> view st' c = view st c)"

text \<open>The block is one of the file's data.\<close>

lemma grown_data:
  assumes g: "grown st i st' b" and ok: "inode_ok st i" and z: "view st' b = zero_block" and k: "k < MAXFILE"
    and a: "\<And>m. m < MAXFILE \<Longrightarrow> file_addr st' i m = (if m = k then b else file_addr st i m)"
    and old: "file_addr st i k = 0" and ind: "indirect st' i = indirect st i"
  shows "extends st i st'" "inode_ok st' i"
proof -
  have f: "fresh st b" "sb st' = sb st" "\<exists>a. itable st' = (itable st)(i := (itable st i)\<lparr>i_addrs := a\<rparr>)"
    and u: "\<And>c. unat c < unat (sb_size (sb st)) \<Longrightarrow> used st' c \<longleftrightarrow> c = b \<or> used st c"
    and v: "\<And>c. c \<notin> bitmap_blocks (sb st) \<Longrightarrow> (data_block (sb st) c \<Longrightarrow> used st c \<and> c \<noteq> indirect st i) \<Longrightarrow> view st' c = view st c"
    using g by (auto simp: grown_def)
  note K = inode_okD [OF ok]
  have b: "b \<noteq> 0" "data_block (sb st) b" "\<not> used st b" using f(1) data_block_nonzero by (auto simp: fresh_def)
  have img: "file_addr st' i ` {..<MAXFILE} = insert b (file_addr st i ` ({..<MAXFILE} - {k}))"
    using a k by (auto simp: image_iff)
  have fb: "file_blocks st' i = insert b (file_blocks st i)"
    unfolding file_blocks_def img ind using old k b(1) by auto
  show "extends st i st'"
    unfolding extends_def using f a old z ind v u fb K(4) by (auto simp: data_block_def)
  show "inode_ok st' i"
    unfolding inode_ok_def
  proof (intro conjI allI impI ballI)
    fix m assume m: "m < MAXFILE" "file_addr st' i m \<noteq> 0"
    show "file_addr st' i m \<noteq> indirect st' i" using a [OF m(1)] m K(5) [of m] K(8) b ind by (auto split: if_splits)
    fix l assume "l < MAXFILE" "file_addr st' i l = file_addr st' i m"
    then show "l = m" using a [of l] a [OF m(1)] m K(6) [of m l] K(9) [of m] K(9) [of l] b by (auto split: if_splits)
  next
    fix m assume m: "m * BSIZE < unat (i_size (itable st' i))"
    then have "m < MAXFILE" "file_addr st i m \<noteq> 0" using inode_ok_bn [OF ok, of m] K(7) [of m] f(3) by auto
    then show "file_addr st' i m \<noteq> 0" using a [of m] b(1) by auto
  qed (use K(1-4) f fb u b in \<open>auto simp: data_block_def\<close>)
qed

text \<open>The block becomes the indirect block.\<close>

lemma grown_indirect:
  assumes g: "grown st i st' b" and ok: "inode_ok st i"
    and a: "\<And>m. m < MAXFILE \<Longrightarrow> file_addr st' i m = file_addr st i m"
    and old: "indirect st i = 0" and ind: "indirect st' i = b"
  shows "extends st i st'" "inode_ok st' i"
proof -
  have f: "fresh st b" "sb st' = sb st" "\<exists>a. itable st' = (itable st)(i := (itable st i)\<lparr>i_addrs := a\<rparr>)"
    and u: "\<And>c. unat c < unat (sb_size (sb st)) \<Longrightarrow> used st' c \<longleftrightarrow> c = b \<or> used st c"
    and v: "\<And>c. c \<notin> bitmap_blocks (sb st) \<Longrightarrow> (data_block (sb st) c \<Longrightarrow> used st c \<and> c \<noteq> indirect st i) \<Longrightarrow> view st' c = view st c"
    using g by (auto simp: grown_def)
  note K = inode_okD [OF ok]
  have b: "b \<noteq> 0" "data_block (sb st) b" "\<not> used st b" using f(1) data_block_nonzero by (auto simp: fresh_def)
  have img: "file_addr st' i ` {..<MAXFILE} = file_addr st i ` {..<MAXFILE}" using a by (auto simp: image_iff)
  have fb: "file_blocks st' i = insert b (file_blocks st i)"
    unfolding file_blocks_def img ind using old b(1) by auto
  show "extends st i st'"
    unfolding extends_def using f a old ind v u fb K(4) by (auto simp: data_block_def)
  show "inode_ok st' i"
    unfolding inode_ok_def
  proof (intro conjI allI impI ballI)
    fix m assume m: "m < MAXFILE" "file_addr st' i m \<noteq> 0"
    show "file_addr st' i m \<noteq> indirect st' i" using a [OF m(1)] m K(9) [of m] b ind by auto
    fix l assume "l < MAXFILE" "file_addr st' i l = file_addr st' i m"
    then show "l = m" using a [of l] a [OF m(1)] m K(6) [of m l] by auto
  next
    fix m assume m: "m * BSIZE < unat (i_size (itable st' i))"
    then have "m < MAXFILE" "file_addr st i m \<noteq> 0" using inode_ok_bn [OF ok, of m] K(7) [of m] f(3) by auto
    then show "file_addr st' i m \<noteq> 0" using a [of m] by auto
  qed (use K(1-4) f fb u b in \<open>auto simp: data_block_def\<close>)
qed

lemma file_addr_cong:
  "i_addrs (itable st' i) = i_addrs (itable st i) \<Longrightarrow>
    (indirect st i \<noteq> 0 \<Longrightarrow> view st' (indirect st i) = view st (indirect st i)) \<Longrightarrow> file_addr st' i = file_addr st i"
  by (rule ext) (simp add: file_addr_def indirect_def)

lemma took_grown:
  assumes t: "took st H W n st1 b" and ok: "fs_ok st" and s: "sb st' = sb st1" "view st' = view st1"
    and a: "itable st' = (itable st1)(i := (itable st1 i)\<lparr>i_addrs := a\<rparr>)"
  shows "grown st i st' b"
proof -
  note U = took_used [OF ok t]
  have k: "sb st1 = sb st" "itable st1 = itable st" "data_block (sb st) b" "\<not> used st b"
    using t txn_keptD(8) by (auto simp: took_def)
  have "used st' = used st1" using used_cong [OF s(2,1)] .
  moreover have "view st' c = view st c" if "c \<notin> bitmap_blocks (sb st)" "data_block (sb st) c \<Longrightarrow> used st c" for c
    using U(3) [of c] that k(3,4) s(2) by (cases "c = b") auto
  ultimately show ?thesis
    unfolding grown_def fresh_def using U(1) k s(1) a by auto
qed

lemma took_view_indirect:
  assumes "took st H W n st1 b" "fs_ok st" "inode_ok st i" "indirect st i \<noteq> 0"
  shows "view st1 (indirect st i) = view st (indirect st i)"
proof -
  have "indirect st i \<noteq> b" using inode_okD(8) [OF assms(3,4)] assms(1) by (auto simp: took_def)
  moreover have "indirect st i \<notin> bitmap_blocks (sb st)"
    using inode_okD(8) [OF assms(3,4)] data_not_bitmap assms(2) by (auto simp: fs_ok_def)
  ultimately show ?thesis using took_used(3) [OF assms(2,1)] by blast
qed

text \<open>A fresh block as entry \<open>k\<close> of the inode.\<close>

lemma install_addr:
  assumes t: "took st H W n st1 b" and ok: "fs_ok st" "inode_ok st i" and k: "k \<le> NDIRECT" "i_addrs (itable st i) k = 0"
  defines "st' \<equiv> upd_inode i (\<lambda>ip. ip\<lparr>i_addrs := (i_addrs ip)(k := b)\<rparr>) st1"
  shows "extends st i st'" "inode_ok st' i" "k < NDIRECT \<Longrightarrow> file_addr st' i k = b \<and> indirect st' i = indirect st i"
    "k = NDIRECT \<Longrightarrow> indirect st' i = b \<and> file_addr st' i = file_addr st i"
proof -
  have g: "grown st i st' b" by (rule took_grown [OF t ok(1)]) (auto simp: st'_def)
  have it: "itable st1 = itable st" using t by (simp add: took_def)
  have z: "view st1 b = zero_block" using took_used(2) [OF ok(1) t] .
  have "extends st i st' \<and> inode_ok st' i" if lt: "k < NDIRECT"
  proof -
    have ind: "indirect st' i = indirect st i" using lt it by (simp add: indirect_def st'_def)
    have "file_addr st' i m = (if m = k then b else file_addr st i m)" for m
      using lt it ind took_view_indirect [OF t ok] by (auto simp: file_addr_def st'_def)
    then show ?thesis
      using grown_data [OF g ok(2), of k] z lt k(2) ind by (simp add: st'_def file_addr_def MAXFILE_eq)
  qed
  moreover have "indirect st' i = b" "indirect st i = 0" "file_addr st' i = file_addr st i" if eq: "k = NDIRECT"
  proof -
    show "indirect st' i = b" "indirect st i = 0" using eq k(2) it by (simp_all add: indirect_def st'_def)
    then show "file_addr st' i = file_addr st i" using eq it z by (auto simp: file_addr_def st'_def)
  qed
  ultimately show "extends st i st'" "inode_ok st' i" "k = NDIRECT \<Longrightarrow> indirect st' i = b \<and> file_addr st' i = file_addr st i"
    using k(1) grown_indirect [OF g ok(2)] by (auto simp: le_less)
  show "k < NDIRECT \<Longrightarrow> file_addr st' i k = b \<and> indirect st' i = indirect st i"
    using it by (simp_all add: file_addr_def indirect_def st'_def)
qed

text \<open>A fresh block as entry \<open>k\<close> of the indirect block.\<close>

lemma install_indirect:
  assumes t: "took st H W n st1 b" and ok: "fs_ok st" "inode_ok st i" and k: "k < NINDIRECT" "file_addr st i (NDIRECT + k) = 0"
    and x: "indirect st i = x" "x \<noteq> 0"
    and s: "sb st' = sb st1" "itable st' = itable st1" "view st' = (view st1)(x := st32 (view st1 x) (4 * k) b)"
  shows "extends st i st'" "inode_ok st' i" "file_addr st' i (NDIRECT + k) = b"
proof -
  have it: "itable st1 = itable st" "sb st1 = sb st" "data_block (sb st) b" "\<not> used st b"
    using t txn_keptD(8) by (auto simp: took_def)
  have X: "data_block (sb st) x" "used st x" using inode_okD(8) [OF ok(2)] x by auto
  then have bx: "b \<noteq> x" "x \<notin> bitmap_blocks (sb st)" using it(4) data_not_bitmap ok(1) by (auto simp: fs_ok_def)
  have ind: "indirect st' i = x" using it s x by (simp add: indirect_def)
  have vx: "view st1 x = view st x" using took_view_indirect [OF t ok] x by simp
  have a: "file_addr st' i m = (if m = NDIRECT + k then b else file_addr st i m)" if m: "m < MAXFILE" for m
  proof (cases "m < NDIRECT")
    case False
    then obtain l where "m = NDIRECT + l" "l < NINDIRECT" using m by (metis MAXFILE_eq(1) le_add_diff_inverse nat_add_left_cancel_less not_less)
    then show ?thesis
      using k(1) x ind s(3) vx ld32_st32 [of "4 * k" "4 * l"] by (cases "k < l"; cases "k = l") (auto simp: file_addr_def MAXFILE_eq)
  qed (use s it k(1) in \<open>simp add: file_addr_def\<close>)
  have u: "used st' c = used st1 c" if "unat c < unat (sb_size (sb st))" for c
    using s bx(2) that it(2) by (auto simp: used_def bitmap_blocks_def)
  have g1: "grown st i st1 b" by (rule took_grown [OF t ok(1), where a = "i_addrs (itable st1 i)"]) auto
  have g: "grown st i st' b" using g1 u s x(1) it X(1) unfolding grown_def by auto
  show "extends st i st'" "inode_ok st' i"
    using grown_data [OF g ok(2), of "NDIRECT + k"] a s took_used(2) [OF ok(1) t] bx(1) k ind x(1) by (auto simp: MAXFILE_eq)
  show "file_addr st' i (NDIRECT + k) = b" using a [of "NDIRECT + k"] k(1) by (simp add: MAXFILE_eq)
qed

section \<open>From block numbers to blocks\<close>

text \<open>The budget for the indirect block, and the number of blocks that \<^verbatim>\<open>bmap\<close> allocates.\<close>

definition ibudget :: "fsys \<Rightarrow> nat \<Rightarrow> nat" where
  "ibudget st i = (if indirect st i \<noteq> 0 \<and> indirect st i \<in> pinned st then 0 else 1)"

definition missing :: "fsys \<Rightarrow> nat \<Rightarrow> nat set \<Rightarrow> nat" where
  "missing st i S = card {m \<in> S. file_addr st i m = 0} + (if indirect st i = 0 \<and> (\<exists>m \<in> S. NDIRECT \<le> m) then 1 else 0)"

definition mapped :: "fsys \<Rightarrow> nat \<Rightarrow> nat \<Rightarrow> u32 set \<Rightarrow> nat \<Rightarrow> fsys \<Rightarrow> u32 \<Rightarrow> bool" where
  "mapped st i bn W n st' a \<longleftrightarrow>
    can_alloc st' {} W (n + (if a \<in> pinned st' then 0 else 1) + ibudget st' i) \<and> txn_kept {} st st' \<and>
    extends st i st' \<and> inode_ok st' i \<and> file_addr st' i bn = a \<and> a \<noteq> 0 \<and>
    card (free_blocks st) = card (free_blocks st') + missing st i {bn}"

lemma missing1:
  "missing st i {bn} = (if file_addr st i bn = 0 then 1 else 0) + (if indirect st i = 0 \<and> NDIRECT \<le> bn then 1 else 0)"
proof -
  have "{m \<in> {bn}. file_addr st i m = 0} = (if file_addr st i bn = 0 then {bn} else {})" by auto
  then show ?thesis by (simp add: missing_def)
qed

lemma can_alloc_less: "can_alloc st H W n \<Longrightarrow> m \<le> n \<Longrightarrow> can_alloc st H W m"
  using in_txn_less [of st H W n m] by (simp add: can_alloc_def)

lemma free_blocks_upd_inode [simp]: "free_blocks (upd_inode i f st) = free_blocks st"
  by (simp add: free_blocks_def)

lemma ibudget_mono: "indirect st' i = indirect st i \<Longrightarrow> pinned st \<subseteq> pinned st' \<Longrightarrow> ibudget st' i \<le> ibudget st i"
  by (auto simp: ibudget_def)

lemma bmap_direct:
  assumes a: "can_alloc st {} W (n + 1 + ibudget st i)" and ok: "inode_ok st i" and bn: "bn < NDIRECT"
  shows "(\<exists>st' a. bmap i bn st = Inr (st', a) \<and> mapped st i bn W n st' a) \<or>
    bmap i bn st = Inl (Panic ''balloc: out of blocks'') \<and> card (free_blocks st) < missing st i {bn}"
proof (cases "file_addr st i bn = 0")
  case False
  then have "bmap i bn st = Inr (st, file_addr st i bn)" using bn by (simp add: bmap_def file_addr_def Let_def)
  moreover have "can_alloc st {} W (n + (if file_addr st i bn \<in> pinned st then 0 else 1) + ibudget st i)"
    by (rule can_alloc_less [OF a]) simp
  ultimately show ?thesis using False bn ok extends_refl [OF ok] by (auto simp: mapped_def missing1)
next
  case True
  then have z: "i_addrs (itable st i) bn = 0" using bn by (simp add: file_addr_def)
  have b: "bmap i bn st = ebind (balloc ROOTDEV st) (\<lambda>(st, addr).
      Inr (upd_inode i (\<lambda>ip. ip\<lparr>i_addrs := (i_addrs ip)(bn := addr)\<rparr>) st, addr))"
    using z bn inode_okD(1) [OF ok] by (simp add: bmap_def Let_def)
  have a': "can_alloc st {} W (Suc (n + ibudget st i))" using a by simp
  show ?thesis
    using a'
  proof (cases rule: balloc_cases)
    case (took st1 b)
    let ?s = "upd_inode i (\<lambda>ip. ip\<lparr>i_addrs := (i_addrs ip)(bn := b)\<rparr>) st1"
    note I = install_addr [OF took(2) can_allocD(2) [OF a] ok less_imp_le [OF bn] z]
    have k: "txn_kept {} st st1" "b \<in> pinned st1" "data_block (sb st) b" using took(2) by (simp_all add: took_def)
    have "can_alloc ?s {} W (n + ibudget ?s i)"
      using can_alloc_less [OF took(3)] ibudget_mono [of ?s i st] I(3) bn txn_keptD(9) [OF k(1)] by simp
    then have "mapped st i bn W n ?s b"
      using I k data_block_nonzero [OF k(3)] took(4) True bn by (simp add: mapped_def missing1)
    then show ?thesis using b took(1) by auto
  next
    case full
    then show ?thesis using b True by (simp add: missing1)
  qed
qed

lemma bmap_get_indirect:
  assumes a: "can_alloc st {} W (n + 1 + ibudget st i)" and ok: "inode_ok st i"
  defines "r \<equiv> (let addr = i_addrs (itable st i) NDIRECT
     in if addr = 0
        then ebind (balloc (i_dev (itable st i)) st) (\<lambda>(st, addr).
          Inr (upd_inode i (\<lambda>ip. ip\<lparr>i_addrs := (i_addrs ip)(NDIRECT := addr)\<rparr>) st, addr))
        else Inr (st, addr))"
  obtains (ok) st1 where "r = Inr (st1, indirect st1 i)" "indirect st1 i \<noteq> 0" "can_alloc st1 {} W (n + 1 + ibudget st1 i)"
      "txn_kept {} st st1" "extends st i st1" "inode_ok st1 i" "file_addr st1 i = file_addr st i"
      "card (free_blocks st) = card (free_blocks st1) + (if indirect st i = 0 then 1 else 0)"
    | (full) "r = Inl (Panic ''balloc: out of blocks'')" "indirect st i = 0" "card (free_blocks st) = 0"
proof (cases "indirect st i = 0")
  case False
  then have "r = Inr (st, indirect st i)" by (simp add: r_def indirect_def Let_def)
  then show thesis using ok(1) [of st] False a extends_refl [OF assms(2)] assms(2) by simp
next
  case True
  then have b: "r = ebind (balloc ROOTDEV st) (\<lambda>(st, addr).
      Inr (upd_inode i (\<lambda>ip. ip\<lparr>i_addrs := (i_addrs ip)(NDIRECT := addr)\<rparr>) st, addr))"
    using inode_okD(1) [OF assms(2)] by (simp add: r_def indirect_def Let_def)
  have z: "i_addrs (itable st i) NDIRECT = 0" using True by (simp add: indirect_def)
  have a': "can_alloc st {} W (Suc (n + 1))" using a True by (simp add: ibudget_def)
  show thesis
    using a'
  proof (cases rule: balloc_cases)
    case (took st1 b)
    let ?s = "upd_inode i (\<lambda>ip. ip\<lparr>i_addrs := (i_addrs ip)(NDIRECT := b)\<rparr>) st1"
    note I = install_addr [OF took(2) can_allocD(2) [OF a] assms(2) le_refl z]
    have k: "txn_kept {} st st1" "b \<in> pinned st1" "data_block (sb st) b" using took(2) by (simp_all add: took_def)
    have i: "indirect ?s i = b" "file_addr ?s i = file_addr st i" using I(4) by simp_all
    have "ibudget ?s i = 0" using i k(2) data_block_nonzero [OF k(3)] by (simp add: ibudget_def)
    then show thesis
      using ok(1) [of ?s] b took(1,3,4) I(1,2) i k data_block_nonzero [OF k(3)] True by simp
  next
    case full
    then show thesis using that(2) b True by simp
  qed
qed

text \<open>Facts on files depend on the inode table and on the contents of the blocks only.\<close>

lemma same_files:
  assumes "view st' = view st" "sb st' = sb st" "itable st' = itable st"
  shows "indirect st' = indirect st" "file_addr st' = file_addr st" "file_blocks st' = file_blocks st" "fbyte st' = fbyte st"
    "inode_ok st' i = inode_ok st i" "extends st' i st2 = extends st i st2" "missing st' i S = missing st i S"
proof -
  show i: "indirect st' = indirect st" by (rule ext) (simp add: indirect_def assms)
  show a: "file_addr st' = file_addr st" by (intro ext) (simp add: file_addr_def i assms)
  show b: "file_blocks st' = file_blocks st" by (intro ext) (simp add: file_blocks_def i a)
  show "fbyte st' = fbyte st" by (intro ext) (simp add: fbyte_def a assms Let_def)
  have u: "used st' = used st" using used_cong [OF assms(1,2)] .
  show "inode_ok st' i = inode_ok st i" by (simp add: inode_ok_def i a b u assms)
  show "extends st' i st2 = extends st i st2" by (simp add: extends_def fresh_def i a u assms)
  show "missing st' i S = missing st i S" by (simp add: missing_def i a)
qed

text \<open>Writing to a block outside the free map.\<close>

lemma write_outside_bitmap:
  assumes v: "view st' = (view st)(x := d)" "sb st' = sb st" and x: "x \<notin> bitmap_blocks (sb st)"
  shows "unat c < unat (sb_size (sb st)) \<Longrightarrow> used st' c = used st c" "free_blocks st' = free_blocks st"
    "fs_ok st \<Longrightarrow> lstart st' = lstart st \<Longrightarrow> fs_ok st'"
proof -
  show u: "unat c < unat (sb_size (sb st)) \<Longrightarrow> used st' c = used st c" for c
    using v x by (auto simp: used_def bitmap_blocks_def)
  then show "free_blocks st' = free_blocks st" using v(2) by (auto simp: free_blocks_def)
  show "fs_ok st \<Longrightarrow> lstart st' = lstart st \<Longrightarrow> fs_ok st'"
    using u v(2) by (auto simp: fs_ok_def fs_layout_def)
qed

lemma can_alloc_held:
  assumes a: "can_alloc st {} W n" and b: "data_block (sb st) b" "used st b" and o: "only_bufs st st'"
    and t: "txn_inv st' {j}" "view st' = view st" "bblockno (bufs st' j) = b"
  shows "can_alloc st' {j} W n"
proof -
  note o' = only_bufs_itable [OF o] only_bufsD [OF o]
  have u: "used st' = used st" using used_cong [OF t(2)] o' by simp
  then show ?thesis
    using a t b o' by (simp add: can_alloc_def in_txn_def fs_ok_def holds_used_def)
qed

lemma bmap_fill_indirect:
  assumes a: "can_alloc st {} W (n + 1 + ibudget st i)" and ok: "inode_ok st i" and k: "k < NINDIRECT"
    and x: "indirect st i = x" "x \<noteq> 0" and z: "file_addr st i (NDIRECT + k) = 0"
  obtains (filled) st1 bp st2 b st3 st4 where "bread ROOTDEV x st = Inr (st1, bp)" "only_bufs st st1" "bdata (bufs st1 bp) = view st x"
      "balloc ROOTDEV st1 = Inr (st2, b)" "log_write bp (set_data bp (st32 (bdata (bufs st2 bp)) (4 * k) b) st2) = Inr st3"
      "brelse bp st3 = Inr st4" "mapped st i (NDIRECT + k) W n st4 b"
    | (full) st1 bp where "bread ROOTDEV x st = Inr (st1, bp)" "only_bufs st st1" "bdata (bufs st1 bp) = view st x"
      "balloc ROOTDEV st1 = Inl (Panic ''balloc: out of blocks'')" "card (free_blocks st) = 0"
proof -
  note A = can_allocD [OF a] and X = inode_okD(8) [OF ok, unfolded x(1), OF x(2)]
  have xb: "x \<notin> bitmap_blocks (sb st)" "x \<notin> log_region (lstart st)"
    using X data_not_bitmap [OF A(3)] data_block_log [OF A(3)] A(4) by auto
  obtain st1 bp where g: "bread ROOTDEV x st = Inr (st1, bp)" "txn_inv st1 (insert bp {})" "view st1 = view st"
    "only_bufs st st1" "holds st1 bp x" "txn_kept {} st st1"
    by (rule grab_block [OF in_txn_inv [OF A(1)], of x]) (use in_txn_room(2) [OF A(1)] in auto)
  note o = only_bufs_itable [OF g(4)] only_bufsD [OF g(4)]
  have sf: "sb st1 = sb st" "itable st1 = itable st" using o by simp_all
  note S = same_files [OF g(3) sf] and F = free_blocks_cong [OF g(3) sf(1)]
  have b1: "bblockno (bufs st1 bp) = x" "bdata (bufs st1 bp) = view st x" using g(3,5) by (auto simp: holds_def)
  have c1: "can_alloc st1 {bp} W (Suc (n + ibudget st i))"
    using can_alloc_held [OF a _ _ g(4) _ g(3) b1(1)] X g(2) by simp
  show thesis
    using c1
  proof (cases rule: balloc_cases)
    case (took st2 b)
    have K: "txn_kept {bp} st1 st2" "itable st2 = itable st1" "b \<in> pinned st2" "data_block (sb st1) b"
      using took(2) by (simp_all add: took_def)
    note k2 = txn_keptD [OF K(1)]
    have b2: "bblockno (bufs st2 bp) = x" using k2(10) b1 by simp
    have t2: "in_txn st2 (insert bp {}) W (n + (if x \<in> pinned st2 \<union> W then 0 else 1))"
      using can_allocD(1) [OF took(3)] k2(9) o x by (auto elim!: in_txn_less simp: ibudget_def)
    have d: "bdata (bufs st2 bp) = view st2 x"
      using held_ok(6) [OF txn_invD(2) [OF in_txn_inv [OF t2]] insertI1] b2 by simp
    have lg: "x \<notin> log_region (lstart st2)" using xb(2) k2(4) o by simp
    obtain st3 st4 where f: "log_write bp (set_data bp (st32 (view st2 x) (4 * k) b) st2) = Inr st3" "brelse bp st3 = Inr st4"
      "in_txn st4 {} W n" "view st4 = (view st2)(x := st32 (view st2 x) (4 * k) b)" "txn_kept {} st2 st4"
      "pinned st4 = insert x (pinned st2)" "itable st4 = itable st2"
      by (rule finish_block [OF t2 _ b2 lg, where d = "st32 (view st2 x) (4 * k) b"]) auto
    note k4 = txn_keptD [OF f(5)] and w = write_outside_bitmap [OF f(4) txn_keptD(8) [OF f(5)]]
    have I: "extends st1 i st4" "inode_ok st4 i" "file_addr st4 i (NDIRECT + k) = b"
      using install_indirect [OF took(2) can_allocD(2) [OF c1], of i k x st4] S ok k z x k4(8) f(4,7) by auto
    have "indirect st4 i = x" using f(7) K(2) sf(2) x(1) by (simp add: indirect_def)
    then have ib: "ibudget st4 i = 0" using f(6) x(2) by (simp add: ibudget_def)
    have xb2: "x \<notin> bitmap_blocks (sb st2)" using xb(1) k2(8) sf by simp
    have c4: "can_alloc st4 {} W n"
      using took(3) f(3) w(3) [OF xb2] k4(4,8) by (simp add: can_alloc_def holds_used_def)
    have k: "txn_kept {} st st4" using txn_kept_trans [OF g(6) txn_kept_trans [OF txn_kept_subset [OF K(1)] f(5)]] by simp
    have "mapped st i (NDIRECT + k) W n st4 b"
      unfolding mapped_def using c4 ib f(6) K(3) I S k data_block_nonzero [OF K(4)] took(4) w(2) [OF xb2] F z x
      by (simp add: missing1)
    then show thesis using filled [OF g(1,4) b1(2) took(1)] f(1,2) d by simp
  next
    case full
    then show thesis using that(2) [OF g(1,4) b1(2)] F by simp
  qed
qed

text \<open>The entry for the block in the indirect block.\<close>

lemma bmap_in_indirect:
  assumes a: "can_alloc st {} W (n + 1 + ibudget st i)" and ok: "inode_ok st i" and k: "k < NINDIRECT"
    and x: "indirect st i \<noteq> 0"
  defines "r \<equiv> ebind (bread (i_dev (itable st i)) (indirect st i) st) (\<lambda>(st, bp).
      let addr = ld32 (bdata (bufs st bp)) (4 * k)
      in ebind (if addr = 0
                then ebind (balloc (i_dev (itable st i)) st) (\<lambda>(st, addr).
                  ebind (log_write bp (set_data bp (st32 (bdata (bufs st bp)) (4 * k) addr) st)) (\<lambda>st. Inr (st, addr)))
                else Inr (st, addr)) (\<lambda>(st, addr).
         ebind (brelse bp st) (\<lambda>st. Inr (st, addr))))"
  shows "(\<exists>st' a. r = Inr (st', a) \<and> mapped st i (NDIRECT + k) W n st' a) \<or>
    r = Inl (Panic ''balloc: out of blocks'') \<and> card (free_blocks st) < missing st i {NDIRECT + k}"
proof (cases "file_addr st i (NDIRECT + k) = 0")
  case False
  let ?a = "file_addr st i (NDIRECT + k)"
  note A = can_allocD [OF a]
  obtain st1 bp st2 where l: "bread ROOTDEV (indirect st i) st = Inr (st1, bp)" "bdata (bufs st1 bp) = view st (indirect st i)"
    "brelse bp st1 = Inr st2" "txn_inv st2 {}" "view st2 = view st" "only_bufs st st2" "txn_kept {} st st2"
    by (rule look_block [OF in_txn_inv [OF A(1)], of "indirect st i"]) (use in_txn_room(2) [OF A(1)] in auto)
  have r: "r = Inr (st2, ?a)"
    using l False x inode_okD(1) [OF ok] by (simp add: r_def file_addr_def Let_def)
  note o = only_bufs_itable [OF l(6)] only_bufsD [OF l(6)]
  have sf: "view st2 = view st" "sb st2 = sb st" "itable st2 = itable st" using l(5) o by simp_all
  note S = same_files [OF sf]
  have ib: "ibudget st2 i = ibudget st i" using o S by (simp add: ibudget_def)
  have "in_txn st2 {} W (n + (if ?a \<in> pinned st2 then 0 else 1) + ibudget st2 i)"
    using A(1) l(4) o ib by (auto simp: in_txn_def)
  then have "can_alloc st2 {} W (n + (if ?a \<in> pinned st2 then 0 else 1) + ibudget st2 i)"
    using can_alloc_cong [OF a _ l(5,7)] by simp
  moreover have "extends st i st2" using S(5,6) extends_refl [of st2 i] ok by simp
  ultimately have "mapped st i (NDIRECT + k) W n st2 ?a"
    unfolding mapped_def using l(7) S False x ok free_blocks_cong [OF sf(1,2)] by (simp add: missing1)
  then show ?thesis using r by blast
next
  case True
  have d: "i_dev (itable st i) = ROOTDEV" "ld32 (view st (indirect st i)) (4 * k) = 0"
    using inode_okD(1) [OF ok] True x by (simp_all add: file_addr_def)
  show ?thesis
    using a ok k refl x True
  proof (cases rule: bmap_fill_indirect)
    case (filled st1 bp st2 b st3 st4)
    then have "r = Inr (st4, b)" using only_bufs_itable [OF filled(2)] d by (simp add: r_def)
    then show ?thesis using filled(7) by blast
  next
    case (full st1 bp)
    then have "r = Inl (Panic ''balloc: out of blocks'')" using only_bufs_itable [OF full(2)] d by (simp add: r_def)
    then show ?thesis using full(5) True by (simp add: missing1)
  qed
qed

lemma bmap_indirect_eq:
  "bmap i (NDIRECT + k) st =
    (if k < NINDIRECT
     then ebind (let addr = i_addrs (itable st i) NDIRECT
       in if addr = 0
          then ebind (balloc (i_dev (itable st i)) st) (\<lambda>(st, addr).
            Inr (upd_inode i (\<lambda>ip. ip\<lparr>i_addrs := (i_addrs ip)(NDIRECT := addr)\<rparr>) st, addr))
          else Inr (st, addr)) (\<lambda>(st, addr).
       ebind (bread (i_dev (itable st i)) addr st) (\<lambda>(st, bp).
         let addr = ld32 (bdata (bufs st bp)) (4 * k)
         in ebind (if addr = 0
                   then ebind (balloc (i_dev (itable st i)) st) (\<lambda>(st, addr).
                     ebind (log_write bp (set_data bp (st32 (bdata (bufs st bp)) (4 * k) addr) st)) (\<lambda>st. Inr (st, addr)))
                   else Inr (st, addr)) (\<lambda>(st, addr).
            ebind (brelse bp st) (\<lambda>st. Inr (st, addr)))))
     else Inl (Panic ''bmap: out of range''))"
  by (simp add: bmap_def)

lemma bmap_spec:
  assumes a: "can_alloc st {} W (n + 1 + ibudget st i)" and ok: "inode_ok st i" and bn: "bn < MAXFILE"
  shows "(\<exists>st' a. bmap i bn st = Inr (st', a) \<and> mapped st i bn W n st' a) \<or>
    bmap i bn st = Inl (Panic ''balloc: out of blocks'') \<and> card (free_blocks st) < missing st i {bn}"
proof (cases "bn < NDIRECT")
  case True
  then show ?thesis by (rule bmap_direct [OF a ok])
next
  case False
  then obtain k where k: "bn = NDIRECT + k" "k < NINDIRECT"
    using bn by (metis MAXFILE_eq(1) le_add_diff_inverse nat_add_left_cancel_less not_less)
  note eq = bmap_indirect_eq [of i k st]
  show ?thesis
    using a ok
  proof (cases rule: bmap_get_indirect)
    case (ok st1)
    have m1: "missing st i {bn} = missing st1 i {bn} + (if indirect st i = 0 then 1 else 0)"
      using ok(2,7) k(1) by (simp add: missing1)
    have "mapped st i bn W n st' a" if "mapped st1 i bn W n st' a" for st' a
      using that extends_trans [OF ok(5) _ ok(6) can_allocD(2) [OF a]] txn_kept_trans [OF ok(4)] ok(8) m1 unfolding mapped_def by auto
    then show ?thesis
      using bmap_in_indirect [OF ok(3,6) k(2) ok(2)] ok(1,8) m1 k eq by auto
  next
    case full
    then show ?thesis using eq k by (simp add: missing1)
  qed
qed

text \<open>A block that is there is found without a transaction.\<close>

lemma bmap_present:
  assumes t: "txn_inv st {}" and ok: "inode_ok st i" and bn: "bn < MAXFILE" and a: "file_addr st i bn \<noteq> 0"
  obtains st' where "bmap i bn st = Inr (st', file_addr st i bn)" "txn_inv st' {}" "view st' = view st" "only_bufs st st'"
proof (cases "bn < NDIRECT")
  case True
  then have "bmap i bn st = Inr (st, file_addr st i bn)" using a by (simp add: bmap_def file_addr_def Let_def)
  then show thesis using that [of st] t by simp
next
  case False
  then obtain k where k: "bn = NDIRECT + k" "k < NINDIRECT"
    using bn by (metis MAXFILE_eq(1) le_add_diff_inverse nat_add_left_cancel_less not_less)
  have x: "indirect st i \<noteq> 0" "i_addrs (itable st i) NDIRECT = indirect st i"
    using a False by (auto simp: file_addr_def indirect_def split: if_splits)
  obtain st1 bp st2 where l: "bread ROOTDEV (indirect st i) st = Inr (st1, bp)" "bdata (bufs st1 bp) = view st (indirect st i)"
    "brelse bp st1 = Inr st2" "txn_inv st2 {}" "view st2 = view st" "only_bufs st st2"
    by (rule look_block [OF t, of "indirect st i"]) (use card_pinned(2) [OF t] in auto)
  have "bmap i bn st = Inr (st2, file_addr st i bn)"
    unfolding k(1) bmap_indirect_eq using l(1-3) k x a inode_okD(1) [OF ok] by (simp add: file_addr_def Let_def)
  then show thesis using that l(4-6) by blast
qed

section \<open>Reading\<close>

lemma BSIZE_pos [simp]: "0 < BSIZE"
  by (simp add: BSIZE_def)

lemma same_block: "off mod BSIZE + j < BSIZE \<Longrightarrow> (off + j) div BSIZE = off div BSIZE \<and> (off + j) mod BSIZE = off mod BSIZE + j"
proof -
  assume "off mod BSIZE + j < BSIZE"
  moreover have "off + j = off mod BSIZE + j + BSIZE * (off div BSIZE)" by simp
  ultimately show ?thesis by (metis add.commute add_0 div_less div_mult_self2 mod_less mod_mult_self2 BSIZE_pos less_numeral_extra(3))
qed

lemma blk_get_fbyte:
  assumes "file_addr st i (off div BSIZE) \<noteq> 0" "off mod BSIZE + k \<le> BSIZE"
  shows "blk_get (view st (file_addr st i (off div BSIZE))) (off mod BSIZE) k = map (fbyte st i) [off..<off + k]"
  by (rule nth_equalityI) (use assms same_block [of off] in \<open>auto simp: blk_get_def fbyte_def Let_def\<close>)

lemma chunk:
  fixes off left :: nat
  assumes "left \<noteq> 0"
  defines "k \<equiv> min left (BSIZE - off mod BSIZE)"
  shows "0 < k" "off mod BSIZE + k \<le> BSIZE" "k \<le> left"
proof -
  have "off mod BSIZE < BSIZE" by simp
  then show "0 < k" "off mod BSIZE + k \<le> BSIZE" "k \<le> left" using assms(1) unfolding k_def by linarith+
qed

lemma readi_loop_spec:
  assumes "txn_inv st {}" "inode_ok st i" "off + left \<le> unat (i_size (itable st i))"
  shows "\<exists>st'. readi_loop to_local i (of_nat off) left tot m st = Inr (m @ map (fbyte st i) [off..<off + left], st', int (tot + left)) \<and>
    txn_inv st' {} \<and> view st' = view st \<and> only_bufs st st'"
  using assms
proof (induction left arbitrary: off tot m st rule: less_induct)
  case (less left)
  show ?case
  proof (cases "left = 0")
    case True
    then show ?thesis using less.prems by (simp add: readi_loop.simps)
  next
    case False
    let ?k = "min left (BSIZE - off mod BSIZE)" and ?bn = "off div BSIZE"
    note k = chunk [OF False, of off]
    have off: "unat (of_nat off :: u32) = off"
      by (rule unat_of_nat_below [of _ "i_size (itable st i)"]) (use less.prems(3) False in simp)
    have "?bn * BSIZE < unat (i_size (itable st i))"
      using less.prems(3) False div_times_less_eq_dividend [of off BSIZE] by linarith
    then have bn: "?bn < MAXFILE" "file_addr st i ?bn \<noteq> 0"
      using inode_ok_bn [OF less.prems(2)] inode_okD(7) [OF less.prems(2)] by auto
    obtain st1 where b: "bmap i ?bn st = Inr (st1, file_addr st i ?bn)" "txn_inv st1 {}" "view st1 = view st" "only_bufs st st1"
      by (rule bmap_present [OF less.prems(1,2) bn])
    obtain st2 bp st3 where l: "bread ROOTDEV (file_addr st i ?bn) st1 = Inr (st2, bp)"
      "bdata (bufs st2 bp) = view st1 (file_addr st i ?bn)" "brelse bp st2 = Inr st3" "txn_inv st3 {}" "view st3 = view st1" "only_bufs st1 st3"
      by (rule look_block [OF b(2), of "file_addr st i ?bn"]) (use card_pinned(2) [OF b(2)] in auto)
    note o = only_bufs_itable [OF b(4)] only_bufs_itable [OF l(6)]
    have sf: "view st3 = view st" "sb st3 = sb st" "itable st3 = itable st" using b(3) l(5) o by simp_all
    note S = same_files [OF sf]
    have step: "readi_loop to_local i (of_nat off) left tot m st =
        readi_loop to_local i (of_nat (off + ?k)) (left - ?k) (tot + ?k) (m @ map (fbyte st i) [off..<off + ?k]) st3"
      using b l blk_get_fbyte [OF bn(2) k(2)] off False inode_okD(1) [OF less.prems(2)] o
      by (subst readi_loop.simps) (simp add: to_local_def Let_def)
    have cat: "map (fbyte st i) [off..<off + ?k] @ map (fbyte st i) [off + ?k..<off + left] = map (fbyte st i) [off..<off + left]"
      using upt_add_eq_append [of off "off + ?k" "left - ?k"] k(3) by (simp flip: map_append)
    have "inode_ok st3 i" "left - ?k < left" "off + ?k + (left - ?k) \<le> unat (i_size (itable st3 i))"
      using S(5) less.prems(2,3) k sf(3) by simp_all
    then obtain st' where r: "readi_loop to_local i (of_nat (off + ?k)) (left - ?k) (tot + ?k) (m @ map (fbyte st i) [off..<off + ?k]) st3 =
        Inr ((m @ map (fbyte st i) [off..<off + ?k]) @ map (fbyte st3 i) [off + ?k..<off + ?k + (left - ?k)], st', int (tot + ?k + (left - ?k)))"
        "txn_inv st' {}" "view st' = view st3" "only_bufs st3 st'"
      using less.IH [OF _ l(4)] by blast
    have "readi_loop to_local i (of_nat off) left tot m st = Inr (m @ map (fbyte st i) [off..<off + left], st', int (tot + left))"
      unfolding step r(1) using cat S(4) k(3) by simp
    then show ?thesis using r(2-4) sf(1) only_bufs_trans [OF only_bufs_trans [OF b(4) l(6)]] by auto
  qed
qed

lemma add_wraps: "4294967296 \<le> unat a + unat b \<Longrightarrow> a + b < a" for a b :: u32
proof -
  assume w: "4294967296 \<le> unat a + unat b"
  then have "unat a + unat b - 4294967296 < 4294967296" using u32_bound [of a] u32_bound [of b] by linarith
  then have "unat (a + b) = unat a + unat b - 4294967296" using w by (simp add: unat_word_ariths le_mod_geq)
  then show ?thesis using w u32_bound [of b] unfolding word_less_nat_alt by linarith
qed

lemma readi_spec:
  fixes off n :: u32
  assumes t: "txn_inv st {}" and ok: "inode_ok st i"
  defines "sz \<equiv> unat (i_size (itable st i))"
  defines "bs \<equiv> if sz < unat off \<or> 2 ^ 32 \<le> unat off + unat n then []
    else map (fbyte st i) [unat off..<min (unat off + unat n) sz]"
  shows "\<exists>st'. readi to_local i off n [] st = Inr (bs, st', int (length bs)) \<and> view st' = view st \<and> itable st' = itable st \<and>
    disk st' = disk st \<and> txn_inv st' {}"
proof (cases "sz < unat off \<or> 2 ^ 32 \<le> unat off + unat n")
  case True
  then have "off > i_size (itable st i) \<or> off + n < off"
  proof
    assume "2 ^ 32 \<le> unat off + unat n"
    then show ?thesis by (simp add: add_wraps)
  qed (simp add: sz_def word_less_nat_alt)
  then show ?thesis using True t by (auto simp: readi_def bs_def Let_def)
next
  case False
  let ?n = "min (unat off + unat n) sz - unat off"
  have u: "unat (off + n) = unat off + unat n" using False by (simp add: unat_word_ariths)
  have g: "\<not> (off > i_size (itable st i) \<or> off + n < off)" using False u by (simp add: sz_def word_less_nat_alt not_less)
  have m: "unat (if off + n > i_size (itable st i) then i_size (itable st i) - off else n) = ?n"
    using False u by (auto simp: sz_def word_less_nat_alt unat_sub word_le_nat_alt)
  have le: "unat off + ?n \<le> unat (i_size (itable st i))" using False by (simp add: sz_def)
  obtain st' where r: "readi_loop to_local i (of_nat (unat off)) ?n 0 [] st =
      Inr ([] @ map (fbyte st i) [unat off..<unat off + ?n], st', int (0 + ?n))" "txn_inv st' {}" "view st' = view st" "only_bufs st st'"
    using readi_loop_spec [OF t ok le] by blast
  have "readi to_local i off n [] st = Inr (bs, st', int (length bs))"
    using r(1) g m False by (simp add: readi_def Let_def bs_def)
  then show ?thesis using r(2,3) only_bufsD [OF r(4)] by blast
qed

end
