(* ===== verification/Fs_Write.thy ===== *)
theory Fs_Write
  imports Fs_Content
begin

text \<open>
  Writing to files in \<^verbatim>\<open>kernel/fs.c\<close>: the loop of \<^verbatim>\<open>writei\<close>, the inode that \<^verbatim>\<open>iupdate\<close> puts on disk, and the
  properties of the block allocator, of \<^verbatim>\<open>readi\<close> and of \<^verbatim>\<open>writei\<close>.
\<close>

section \<open>Changing one file\<close>

definition changed :: "fsys \<Rightarrow> nat \<Rightarrow> fsys \<Rightarrow> bool" where
  "changed st i st' \<longleftrightarrow> sb st' = sb st \<and> (\<exists>a. itable st' = (itable st)(i := (itable st i)\<lparr>i_addrs := a\<rparr>)) \<and>
    (\<forall>m < MAXFILE. file_addr st i m \<noteq> 0 \<longrightarrow> file_addr st' i m = file_addr st i m) \<and>
    (\<forall>b \<in> file_blocks st' i. b \<in> file_blocks st i \<or> fresh st b) \<and> file_blocks st i \<subseteq> file_blocks st' i \<and>
    (\<forall>c. unat c < unat (sb_size (sb st)) \<longrightarrow> (used st' c \<longleftrightarrow> used st c \<or> c \<in> file_blocks st' i)) \<and>
    (\<forall>c. c \<notin> bitmap_blocks (sb st) \<longrightarrow> (data_block (sb st) c \<longrightarrow> used st c \<and> c \<notin> file_blocks st i) \<longrightarrow> view st' c = view st c)"

lemma changedD:
  assumes "changed st i st'"
  shows "sb st' = sb st" "\<exists>a. itable st' = (itable st)(i := (itable st i)\<lparr>i_addrs := a\<rparr>)"
    "m < MAXFILE \<Longrightarrow> file_addr st i m \<noteq> 0 \<Longrightarrow> file_addr st' i m = file_addr st i m"
    "b \<in> file_blocks st' i \<Longrightarrow> b \<in> file_blocks st i \<or> fresh st b" "file_blocks st i \<subseteq> file_blocks st' i"
    "unat c < unat (sb_size (sb st)) \<Longrightarrow> used st' c \<longleftrightarrow> used st c \<or> c \<in> file_blocks st' i"
    "c \<notin> bitmap_blocks (sb st) \<Longrightarrow> (data_block (sb st) c \<Longrightarrow> used st c \<and> c \<notin> file_blocks st i) \<Longrightarrow> view st' c = view st c"
  using assms by (auto simp: changed_def)

lemma changed_trans:
  assumes 1: "changed st i st1" and 2: "changed st1 i st2"
  shows "changed st i st2"
proof -
  note A = changedD [OF 1] and B = changedD [OF 2]
  have up: "used st c \<Longrightarrow> used st1 c" if "data_block (sb st) c" for c using A(6) that by (auto simp: data_block_def)
  have fr: "fresh st1 c \<Longrightarrow> fresh st c" for c using A(1) up by (auto simp: fresh_def)
  have "\<exists>a. itable st2 = (itable st)(i := (itable st i)\<lparr>i_addrs := a\<rparr>)" using A(2) B(2) by auto
  moreover have "file_addr st2 i m = file_addr st i m" if "m < MAXFILE" "file_addr st i m \<noteq> 0" for m
    using A(3) [OF that] B(3) [OF that(1)] that by simp
  moreover have "b \<in> file_blocks st i \<or> fresh st b" if "b \<in> file_blocks st2 i" for b using A(4) B(4) [OF that] fr by blast
  moreover have "file_blocks st i \<subseteq> file_blocks st2 i" using A(5) B(5) by blast
  moreover have "used st2 c \<longleftrightarrow> used st c \<or> c \<in> file_blocks st2 i" if "unat c < unat (sb_size (sb st))" for c
    using A(6) [OF that] B(6) [of c] that A(1) B(5) by auto
  moreover have "view st2 c = view st c" if c: "c \<notin> bitmap_blocks (sb st)" "data_block (sb st) c \<longrightarrow> used st c \<and> c \<notin> file_blocks st i" for c
  proof -
    have "used st1 c \<and> c \<notin> file_blocks st1 i" if d: "data_block (sb st1) c"
      using c(2) d up [of c] A(1) A(4) [of c] by (auto simp: fresh_def)
    then show ?thesis using A(7) [of c] B(7) [of c] c A(1) by auto
  qed
  ultimately show ?thesis unfolding changed_def using A(1) B(1) by simp
qed

lemma extends_changed:
  assumes e: "extends st i st'" and ok: "inode_ok st' i"
  shows "changed st i st'"
proof -
  note E = extendsD [OF e]
  have "\<exists>a. itable st' = (itable st)(i := (itable st i)\<lparr>i_addrs := a\<rparr>)" using e by (simp add: extends_def)
  moreover have "file_addr st' i m = file_addr st i m" if "m < MAXFILE" "file_addr st i m \<noteq> 0" for m using E(6) that by blast
  moreover have "b \<in> file_blocks st i \<or> fresh st b" if b: "b \<in> file_blocks st' i" for b
  proof -
    consider "b = indirect st' i" "b \<noteq> 0" | m where "m < MAXFILE" "b = file_addr st' i m" "b \<noteq> 0"
      using b by (auto simp: file_blocks_def)
    then show ?thesis
    proof cases
      case 1
      then show ?thesis using E(7) by (auto simp: file_blocks_def)
    next
      case 2
      then show ?thesis using E(6) [OF 2(1)] by (force simp: file_blocks_def)
    qed
  qed
  moreover have "view st' c = view st c" if c: "c \<notin> bitmap_blocks (sb st)" "data_block (sb st) c \<longrightarrow> used st c \<and> c \<notin> file_blocks st i" for c
  proof (cases "data_block (sb st) c")
    case True
    then have "c \<noteq> indirect st i" using c(2) data_block_nonzero [OF True] by (auto simp: file_blocks_def)
    then show ?thesis using E(10) [OF c(1)] c(2) True by blast
  qed (use E(9) c in blast)
  ultimately show ?thesis unfolding changed_def using E(1,8) file_blocks_mono [OF e] by blast
qed

lemma extends_fbyte:
  assumes e: "extends st i st'" and ok: "inode_ok st i" "fs_ok st" and off: "off < MAXFILE * BSIZE"
  shows "fbyte st' i off = fbyte st i off"
proof -
  have m: "off div BSIZE < MAXFILE" using off by (simp add: less_mult_imp_div_less)
  let ?a = "file_addr st i (off div BSIZE)"
  show ?thesis
  proof (cases "file_addr st' i (off div BSIZE) = ?a \<and> ?a \<noteq> 0")
    case True
    then have "view st' ?a = view st ?a"
      using extendsD(10) [OF e, of ?a] inode_okD(5,9) [OF ok(1) m] data_not_bitmap ok(2) by (auto simp: fs_ok_def)
    then show ?thesis using True by (simp add: fbyte_def)
  next
    case False
    then show ?thesis using extendsD(6) [OF e m] by (auto simp: fbyte_def Let_def getb_def zero_block_def)
  qed
qed

text \<open>Writing to a block of the file.\<close>

lemma file_write:
  assumes ok: "inode_ok st i" "fs_ok st" and bn: "bn < MAXFILE" and a: "file_addr st i bn = a" "a \<noteq> 0"
    and s: "view st' = (view st)(a := d)" "sb st' = sb st" "itable st' = itable st" "lstart st' = lstart st"
  shows "changed st i st'" "inode_ok st' i" "file_addr st' i = file_addr st i" "indirect st' i = indirect st i"
    "fs_ok st'" "free_blocks st' = free_blocks st"
    "off < MAXFILE * BSIZE \<Longrightarrow> fbyte st' i off = (if off div BSIZE = bn then getb d (off mod BSIZE) else fbyte st i off)"
proof -
  note K = inode_okD [OF ok(1)]
  have A: "data_block (sb st) a" "used st a" "a \<noteq> indirect st i" using K(5) [OF bn] K(9) [OF bn] a by auto
  have ab: "a \<notin> bitmap_blocks (sb st)" using data_not_bitmap A(1) ok(2) by (auto simp: fs_ok_def)
  note w = write_outside_bitmap [OF s(1,2) ab]
  show i: "indirect st' i = indirect st i" using s(3) by (simp add: indirect_def)
  show f: "file_addr st' i = file_addr st i" by (rule file_addr_cong) (use s A(3) in auto)
  have fb: "file_blocks st' i = file_blocks st i" by (simp add: file_blocks_def i f)
  have amem: "a \<in> file_blocks st i" using bn a by (force simp: file_blocks_def)
  have "\<exists>a. itable st' = (itable st)(i := (itable st i)\<lparr>i_addrs := a\<rparr>)"
    by (rule exI [of _ "i_addrs (itable st i)"]) (simp add: s(3))
  then show "changed st i st'"
    unfolding changed_def using s(1,2) f fb w(1) K(4) amem A(1) by auto
  have "used st' b" if "data_block (sb st) b" "used st b" for b using w(1) [of b] that by (auto simp: data_block_def)
  then show "inode_ok st' i" using ok(1) unfolding inode_ok_def i f fb s(2,3) by blast
  show "fs_ok st'" using w(3) ok(2) s(4) .
  show "free_blocks st' = free_blocks st" using w(2) .
  show "fbyte st' i off = (if off div BSIZE = bn then getb d (off mod BSIZE) else fbyte st i off)" if off: "off < MAXFILE * BSIZE"
  proof -
    have "off div BSIZE < MAXFILE" using off by (simp add: less_mult_imp_div_less)
    then have "file_addr st i (off div BSIZE) = a \<longleftrightarrow> off div BSIZE = bn" using K(6) [OF bn] a by auto
    then show ?thesis using f s(1) a(2) by (auto simp: fbyte_def Let_def)
  qed
qed

section \<open>The loop of \<^verbatim>\<open>writei\<close>\<close>

text \<open>The block numbers of a range of offsets.\<close>

definition touched :: "nat \<Rightarrow> nat \<Rightarrow> nat set" where
  "touched off n = (\<lambda>k. k div BSIZE) ` {off..<off + n}"

lemma finite_touched [simp]: "finite (touched off n)"
  by (simp add: touched_def)

lemma touched_step:
  fixes off left :: nat
  assumes "left \<noteq> 0"
  defines "k \<equiv> min left (BSIZE - off mod BSIZE)"
  shows "touched off left = insert (off div BSIZE) (touched (off + k) (left - k))"
    "off div BSIZE \<notin> touched (off + k) (left - k)"
proof -
  note k = chunk [OF assms(1), of off, folded k_def]
  have "{off..<off + left} = {off..<off + k} \<union> {off + k..<off + left}" using k(3) by auto
  moreover have "(\<lambda>j. j div BSIZE) ` {off..<off + k} = {off div BSIZE}"
  proof -
    have "j div BSIZE = off div BSIZE" if "j \<in> {off..<off + k}" for j
      using same_block [of off "j - off"] that k(2) by auto
    then have "(\<lambda>j. j div BSIZE) ` {off..<off + k} = (\<lambda>j. off div BSIZE) ` {off..<off + k}" by (rule image_cong [OF refl])
    then show ?thesis using k(1) by (simp add: image_constant_conv)
  qed
  ultimately show "touched off left = insert (off div BSIZE) (touched (off + k) (left - k))"
    using k(3) by (simp add: touched_def image_Un)
  show "off div BSIZE \<notin> touched (off + k) (left - k)"
  proof
    assume "off div BSIZE \<in> touched (off + k) (left - k)"
    then obtain j where j: "off + k \<le> j" "j < off + k + (left - k)" "j div BSIZE = off div BSIZE" by (auto simp: touched_def)
    then have "k = BSIZE - off mod BSIZE" using k_def by auto
    then have "off div BSIZE * BSIZE + BSIZE \<le> j" using j(1) k(2) div_mult_mod_eq [of off BSIZE] by linarith
    moreover have "j < j div BSIZE * BSIZE + BSIZE" using div_mult_mod_eq [of j BSIZE] mod_less_divisor [OF BSIZE_pos, of j] by linarith
    ultimately show False using j(3) by simp
  qed
qed

lemma missing_step:
  assumes e: "extends st i st'" and bn: "file_addr st' i bn \<noteq> 0" "bn \<notin> S" "finite S" "insert bn S \<subseteq> {..<MAXFILE}"
  shows "missing st i {bn} + missing st' i S \<le> missing st i (insert bn S)"
proof -
  let ?Z = "\<lambda>st S. {m \<in> S. file_addr st i m = 0}"
  have "file_addr st i m = 0" if "m \<in> S" "file_addr st' i m = 0" for m
    using extendsD(6) [OF e, of m] bn(4) that by auto
  then have "?Z st' S \<subseteq> ?Z st S" by blast
  then have c: "card (?Z st' S) \<le> card (?Z st S)" using bn(3) by (simp add: card_mono)
  have "?Z st (insert bn S) = (if file_addr st i bn = 0 then insert bn (?Z st S) else ?Z st S)" by auto
  then have d: "card (?Z st (insert bn S)) = (if file_addr st i bn = 0 then 1 else 0) + card (?Z st S)" using bn(2,3) by simp
  have "indirect st' i = 0 \<Longrightarrow> indirect st i = 0 \<and> bn < NDIRECT"
    using extendsD(7) [OF e] bn(1) data_block_nonzero by (auto simp: fresh_def file_addr_def split: if_splits)
  then show ?thesis unfolding missing1 unfolding missing_def d using c by auto
qed

text \<open>One iteration: the part \<open>bs\<close> of the text that goes to one block.\<close>

definition chunk_written :: "fsys \<Rightarrow> nat \<Rightarrow> nat \<Rightarrow> u8 list \<Rightarrow> u32 set \<Rightarrow> nat \<Rightarrow> fsys \<Rightarrow> bool" where
  "chunk_written st i off bs W n st' \<longleftrightarrow>
    can_alloc st' {} W (n + ibudget st' i) \<and> txn_kept {} st st' \<and> changed st i st' \<and> inode_ok st' i \<and>
    file_addr st' i (off div BSIZE) \<noteq> 0 \<and>
    (\<forall>k < MAXFILE * BSIZE. fbyte st' i k = (if off \<le> k \<and> k < off + length bs then bs ! (k - off) else fbyte st i k)) \<and>
    card (free_blocks st) = card (free_blocks st') + missing st i {off div BSIZE} \<and>
    (\<forall>S. off div BSIZE \<notin> S \<longrightarrow> finite S \<longrightarrow> insert (off div BSIZE) S \<subseteq> {..<MAXFILE} \<longrightarrow>
      missing st i {off div BSIZE} + missing st' i S \<le> missing st i (insert (off div BSIZE) S))"

lemma write_chunk_fbyte:
  assumes ok: "inode_ok st i" "fs_ok st" and bn: "off div BSIZE < MAXFILE"
    and a: "file_addr st i (off div BSIZE) = a" "a \<noteq> 0" and len: "off mod BSIZE + length bs \<le> BSIZE"
    and s: "view st' = (view st)(a := blk_put (view st a) (off mod BSIZE) bs)" "sb st' = sb st" "itable st' = itable st" "lstart st' = lstart st"
    and k: "k < MAXFILE * BSIZE"
  shows "fbyte st' i k = (if off \<le> k \<and> k < off + length bs then bs ! (k - off) else fbyte st i k)"
proof -
  let ?d = "blk_put (view st a) (off mod BSIZE) bs"
  have w: "fbyte st' i k = (if k div BSIZE = off div BSIZE then getb ?d (k mod BSIZE) else fbyte st i k)"
    by (rule file_write(7) [OF ok bn a s k])
  have b: "k mod BSIZE < 1024" by (simp add: BSIZE_def)
  show ?thesis
  proof (cases "off \<le> k \<and> k < off + length bs")
    case True
    then obtain j where j: "k = off + j" "j < length bs" using le_Suc_ex by force
    then have "k div BSIZE = off div BSIZE" "k mod BSIZE = off mod BSIZE + j" using same_block [of off j] len by simp_all
    then show ?thesis using w getb_blk_put [OF b] j by simp
  next
    case False
    then have "\<not> (off mod BSIZE \<le> k mod BSIZE \<and> k mod BSIZE < off mod BSIZE + length bs)" if e: "k div BSIZE = off div BSIZE"
    proof -
      have "k = off div BSIZE * BSIZE + k mod BSIZE" "off = off div BSIZE * BSIZE + off mod BSIZE"
        using div_mult_mod_eq [of k BSIZE] e by simp_all
      then show ?thesis using False by linarith
    qed
    then have "getb ?d (k mod BSIZE) = fbyte st i k" if "k div BSIZE = off div BSIZE"
      using getb_blk_put [OF b, of "view st a" "off mod BSIZE" bs] a that by (auto simp: fbyte_def Let_def)
    then show ?thesis using w False by auto
  qed
qed

lemma writei_chunk:
  assumes a: "can_alloc st {} W (n + 1 + ibudget st i)" and ok: "inode_ok st i" and bn: "off div BSIZE < MAXFILE"
    and len: "off mod BSIZE + length bs \<le> BSIZE"
  obtains (written) st1 a st2 bp st3 st4 where "bmap i (off div BSIZE) st = Inr (st1, a)" "i_dev (itable st1 i) = ROOTDEV"
      "bread ROOTDEV a st1 = Inr (st2, bp)" "log_write bp (set_data bp (blk_put (bdata (bufs st2 bp)) (off mod BSIZE) bs) st2) = Inr st3"
      "brelse bp st3 = Inr st4" "chunk_written st i off bs W n st4"
    | (full) "bmap i (off div BSIZE) st = Inl (Panic ''balloc: out of blocks'')" "card (free_blocks st) < missing st i {off div BSIZE}"
  using bmap_spec [OF a ok bn]
proof (elim disjE exE conjE)
  fix st1 a
  assume b: "bmap i (off div BSIZE) st = Inr (st1, a)" and m: "mapped st i (off div BSIZE) W n st1 a"
  let ?bn = "off div BSIZE" and ?d = "blk_put (view st1 a) (off mod BSIZE) bs"
  have M: "can_alloc st1 {} W (n + (if a \<in> pinned st1 then 0 else 1) + ibudget st1 i)" "txn_kept {} st st1"
    "extends st i st1" "inode_ok st1 i" "file_addr st1 i ?bn = a" "a \<noteq> 0"
    "card (free_blocks st) = card (free_blocks st1) + missing st i {?bn}"
    using m by (simp_all add: mapped_def)
  note A = can_allocD [OF M(1)] and D = inode_okD(9) [OF M(4) bn, unfolded M(5), OF M(6)]
  have t: "in_txn st1 {} W (n + ibudget st1 i + (if a \<in> pinned st1 \<union> W then 0 else 1))" by (rule in_txn_less [OF A(1)]) simp
  have lg: "a \<notin> log_region (lstart st1)" using data_block_log [OF A(3)] D A(4) by simp
  obtain st2 bp st3 st4 where u: "bread ROOTDEV a st1 = Inr (st2, bp)" "bdata (bufs st2 bp) = view st1 a"
    "log_write bp (set_data bp ?d st2) = Inr st3" "brelse bp st3 = Inr st4" "in_txn st4 {} W (n + ibudget st1 i)"
    "view st4 = (view st1)(a := ?d)" "txn_kept {} st1 st4" "pinned st4 = insert a (pinned st1)" "itable st4 = itable st1"
    by (rule update_block [OF t _ _ lg, where d = ?d]) auto
  note k = txn_keptD [OF u(7)]
  note F = file_write [OF M(4) A(2) bn M(5,6) u(6) k(8) u(9) k(4)]
  have ib: "ibudget st4 i \<le> ibudget st1 i" by (rule ibudget_mono [OF F(4) k(9)])
  have c: "can_alloc st4 {} W (n + ibudget st4 i)"
    using M(1) F(5) k(8) in_txn_less [OF u(5)] ib by (simp add: can_alloc_def holds_used_def)
  have fb: "fbyte st4 i k = (if off \<le> k \<and> k < off + length bs then bs ! (k - off) else fbyte st i k)" if "k < MAXFILE * BSIZE" for k
    using write_chunk_fbyte [OF M(4) A(2) bn M(5,6) len u(6) k(8) u(9) k(4) that] extends_fbyte [OF M(3) ok can_allocD(2) [OF a] that] by simp
  have ms: "missing st4 i S = missing st1 i S" for S using F(3,4) by (simp add: missing_def)
  have "chunk_written st i off bs W n st4"
    unfolding chunk_written_def ms
    using c fb F M txn_kept_trans [OF M(2) u(7)] changed_trans [OF extends_changed [OF M(3,4)] F(1)]
      missing_step [OF M(3), of ?bn] by auto
  then show thesis using written [OF b inode_okD(1) [OF M(4)] u(1) _ u(4)] u(2,3) by simp
qed (rule full)

definition file_written :: "fsys \<Rightarrow> nat \<Rightarrow> nat \<Rightarrow> nat \<Rightarrow> (nat \<Rightarrow> u8) \<Rightarrow> fsys \<Rightarrow> bool" where
  "file_written st i off n src st' \<longleftrightarrow> changed st i st' \<and> inode_ok st' i \<and> (\<forall>m \<in> touched off n. file_addr st' i m \<noteq> 0) \<and>
    (\<forall>k < MAXFILE * BSIZE. fbyte st' i k = (if off \<le> k \<and> k < off + n then src (k - off) else fbyte st i k))"

lemma changed_refl:
  assumes "inode_ok st i"
  shows "changed st i st"
proof -
  have "\<exists>a. itable st = (itable st)(i := (itable st i)\<lparr>i_addrs := a\<rparr>)" by (rule exI [of _ "i_addrs (itable st i)"]) simp
  then show ?thesis unfolding changed_def using inode_okD(4) [OF assms] by blast
qed

text \<open>The first \<open>k\<close> bytes of a text, and then the others.\<close>

lemma file_written_step:
  assumes c: "chunk_written st i off (map src [0..<k]) W n st1" and w: "file_written st1 i (off + k) (left - k) (\<lambda>j. src (k + j)) st2"
    and k: "k \<le> left" "touched off left = insert (off div BSIZE) (touched (off + k) (left - k))" and m: "off div BSIZE < MAXFILE"
  shows "file_written st i off left src st2"
proof -
  have C: "changed st i st1" "file_addr st1 i (off div BSIZE) \<noteq> 0"
    and f1: "\<And>j. j < MAXFILE * BSIZE \<Longrightarrow> fbyte st1 i j = (if off \<le> j \<and> j < off + k then map src [0..<k] ! (j - off) else fbyte st i j)"
    using c by (simp_all add: chunk_written_def)
  have F: "changed st1 i st2" "inode_ok st2 i" "\<And>m. m \<in> touched (off + k) (left - k) \<Longrightarrow> file_addr st2 i m \<noteq> 0"
    and f2: "\<And>j. j < MAXFILE * BSIZE \<Longrightarrow> fbyte st2 i j =
      (if off + k \<le> j \<and> j < off + k + (left - k) then src (k + (j - (off + k))) else fbyte st1 i j)"
    using w by (simp_all add: file_written_def)
  have "fbyte st2 i j = (if off \<le> j \<and> j < off + left then src (j - off) else fbyte st i j)" if j: "j < MAXFILE * BSIZE" for j
  proof (cases "off + k \<le> j")
    case True
    then show ?thesis using f2 [OF j] f1 [OF j] k(1) by auto
  next
    case False
    then show ?thesis using f2 [OF j] f1 [OF j] k(1) by auto
  qed
  moreover have "file_addr st2 i (off div BSIZE) \<noteq> 0" using changedD(3) [OF F(1) m C(2)] C(2) by simp
  ultimately show ?thesis
    unfolding file_written_def k(2) using changed_trans [OF C(1) F(1)] F(2,3) by auto
qed

lemma missing_mono: "finite S \<Longrightarrow> T \<subseteq> S \<Longrightarrow> missing st i T \<le> missing st i S"
proof -
  assume "finite S" "T \<subseteq> S"
  then have "card {m \<in> T. file_addr st i m = 0} \<le> card {m \<in> S. file_addr st i m = 0}" by (intro card_mono) auto
  then show ?thesis using \<open>T \<subseteq> S\<close> by (auto simp: missing_def)
qed

text \<open>How the loop ends when \<open>left\<close> bytes are left.\<close>

definition loop_outcome :: "(fsys \<times> nat \<times> u32) res \<Rightarrow> fsys \<Rightarrow> nat \<Rightarrow> nat \<Rightarrow> nat \<Rightarrow> nat \<Rightarrow> (nat \<Rightarrow> u8) \<Rightarrow> u32 set \<Rightarrow> nat \<Rightarrow> bool" where
  "loop_outcome r st i off left tot src W n \<longleftrightarrow>
    (\<exists>st'. r = Inr (st', tot + left, of_nat (off + left)) \<and> can_alloc st' {} W n \<and> txn_kept {} st st' \<and>
      file_written st i off left src st') \<or>
    r = Inl (Panic ''balloc: out of blocks'') \<and> card (free_blocks st) < missing st i (touched off left)"

lemma loop_outcome_step:
  assumes c: "chunk_written st i off (map src [0..<k]) W m st1"
    and r: "loop_outcome r st1 i (off + k) (left - k) (tot + k) (\<lambda>j. src (k + j)) W n"
    and k: "k \<le> left" and t: "touched off left = insert (off div BSIZE) (touched (off + k) (left - k))"
      "off div BSIZE \<notin> touched (off + k) (left - k)"
    and bn: "off div BSIZE < MAXFILE" "insert (off div BSIZE) (touched (off + k) (left - k)) \<subseteq> {..<MAXFILE}"
  shows "loop_outcome r st i off left tot src W n"
proof -
  have C: "txn_kept {} st st1" "card (free_blocks st) = card (free_blocks st1) + missing st i {off div BSIZE}"
    "missing st i {off div BSIZE} + missing st1 i (touched (off + k) (left - k)) \<le> missing st i (touched off left)"
    using c t bn(2) by (simp_all add: chunk_written_def)
  have w: "file_written st1 i (off + k) (left - k) (\<lambda>j. src (k + j)) st' \<Longrightarrow> file_written st i off left src st'" for st'
    by (rule file_written_step [OF c _ k t(1) bn(1)])
  have e: "tot + k + (left - k) = tot + left" "off + k + (left - k) = off + left" using k by simp_all
  show ?thesis
    using r C(2,3) w txn_kept_trans [OF C(1)] unfolding loop_outcome_def e by auto
qed

lemma writei_loop_spec:
  assumes "can_alloc st {} W (n + card (touched off left) + ibudget st i)" "inode_ok st i" "off + left \<le> MAXFILE * BSIZE"
    and "\<And>k len. tot \<le> k \<Longrightarrow> k + len \<le> tot + left \<Longrightarrow> cp k len = Inr (map (\<lambda>j. src (j - tot)) [k..<k + len], 0)"
  shows "loop_outcome (writei_loop cp i (of_nat off) left tot st) st i off left tot src W n"
  using assms
proof (induction left arbitrary: off tot src st rule: less_induct)
  case (less left)
  show ?case
  proof (cases "left = 0")
    case True
    then show ?thesis
      using less.prems(1,2) can_alloc_less [OF less.prems(1), of n] changed_refl by (auto simp: writei_loop.simps file_written_def touched_def loop_outcome_def)
  next
    case False
    define k where "k = min left (BSIZE - off mod BSIZE)"
    let ?bn = "off div BSIZE" and ?bs = "map src [0..<k]" and ?n = "n + card (touched (off + k) (left - k))"
    note K = chunk [OF False, of off, folded k_def] and T = touched_step [OF False, of off, folded k_def]
    have off: "unat (of_nat off :: u32) = off" using less.prems(3) by (simp add: unat_of_nat MAXFILE_eq BSIZE_def)
    have bn: "?bn < MAXFILE" using less.prems(3) False by (simp add: less_mult_imp_div_less)
    have sub: "insert ?bn (touched (off + k) (left - k)) \<subseteq> {..<MAXFILE}"
      using less.prems(3) unfolding T(1) [symmetric] by (auto simp: touched_def less_mult_imp_div_less)
    have a: "can_alloc st {} W (?n + 1 + ibudget st i)" using less.prems(1) T by simp
    have cp: "cp tot k = Inr (?bs, 0)" using less.prems(4) [of tot k] K(3) by (auto simp: map_add_upt [symmetric] add.commute)
    have len: "off mod BSIZE + length ?bs \<le> BSIZE" using K(2) by simp
    show ?thesis
      using a less.prems(2) bn len
    proof (cases rule: writei_chunk)
      case (written st1 a st2 bp st3 st4)
      have step: "writei_loop cp i (of_nat off) left tot st = writei_loop cp i (of_nat (off + k)) (left - k) (tot + k) st4"
        using written(1-5) off False cp by (subst writei_loop.simps) (simp add: Let_def flip: k_def)
      have C: "can_alloc st4 {} W (?n + ibudget st4 i)" "inode_ok st4 i" using written(6) by (simp_all add: chunk_written_def)
      have cp': "cp j len = Inr (map (\<lambda>j. src (k + (j - (tot + k)))) [j..<j + len], 0)"
        if "tot + k \<le> j" "j + len \<le> tot + k + (left - k)" for j len
        using less.prems(4) [of j len] that K(3) by auto
      have le: "left - k < left" "off + k + (left - k) \<le> MAXFILE * BSIZE" using K less.prems(3) by simp_all
      have IH: "loop_outcome (writei_loop cp i (of_nat (off + k)) (left - k) (tot + k) st4) st4 i (off + k) (left - k) (tot + k) (\<lambda>j. src (k + j)) W n"
        unfolding loop_outcome_def by (rule less.IH [OF le(1) C(1,2) le(2), unfolded loop_outcome_def]) (rule cp')
      show ?thesis
        unfolding step by (rule loop_outcome_step [OF written(6) IH K(3) T bn sub])
    next
      case full
      then have "writei_loop cp i (of_nat off) left tot st = Inl (Panic ''balloc: out of blocks'')"
        using off False by (subst writei_loop.simps) simp
      moreover have "missing st i {?bn} \<le> missing st i (touched off left)" unfolding T(1) by (rule missing_mono) auto
      ultimately show ?thesis using full(2) by (simp add: loop_outcome_def)
    qed
  qed
qed

section \<open>The inode on disk\<close>

lemma getb_st:
  assumes "j < 1024"
  shows "i + 1 < 1024 \<Longrightarrow> j < i \<or> i + 1 < j \<Longrightarrow> getb (st16 d i v) j = getb d j"
    "i + 3 < 1024 \<Longrightarrow> j < i \<or> i + 3 < j \<Longrightarrow> getb (st32 d i w) j = getb d j"
  using assms by (auto simp: st16_def st32_def getb_putb)

lemma ld_cong:
  shows "getb d j = getb e j \<Longrightarrow> getb d (j + 1) = getb e (j + 1) \<Longrightarrow> ld16 d j = ld16 e j"
    "(\<And>k. k < 4 \<Longrightarrow> getb d (j + k) = getb e (j + k)) \<Longrightarrow> ld32 d j = ld32 e j"
proof -
  show "getb d j = getb e j \<Longrightarrow> getb d (j + 1) = getb e (j + 1) \<Longrightarrow> ld16 d j = ld16 e j" by (simp add: ld16_def)
  assume a: "\<And>k. k < 4 \<Longrightarrow> getb d (j + k) = getb e (j + k)"
  show "ld32 d j = ld32 e j" using a [of 0] a [of 1] a [of 2] a [of 3] by (simp add: ld32_def)
qed

lemma ld_st_same: "i + 1 < 1024 \<Longrightarrow> ld16 (st16 d i v) i = v" "i + 3 < 1024 \<Longrightarrow> ld32 (st32 d i w) i = w"
  using ld16_st16(1) [of i i] ld32_st32(1) [of i i] by simp_all

lemma ld16_st32: "i + 3 < 1024 \<Longrightarrow> j + 1 < 1024 \<Longrightarrow> j + 1 < i \<or> i + 3 < j \<Longrightarrow> ld16 (st32 d i w) j = ld16 d j"
  by (rule ld_cong(1)) (auto simp: getb_st)

lemma getb_put_addrs:
  "off + 4 * n \<le> 1024 \<Longrightarrow> j < 1024 \<Longrightarrow> j < off \<or> off + 4 * n \<le> j \<Longrightarrow> getb (put_addrs n off a d) j = getb d j"
proof (induction n)
  case (Suc n)
  then show ?case using getb_st(2) [of j "off + 4 * n"] by auto
qed simp

lemma ld16_put_addrs:
  "off + 4 * n \<le> 1024 \<Longrightarrow> j + 1 < off \<Longrightarrow> ld16 (put_addrs n off a d) j = ld16 d j"
  "off + 4 * n \<le> 1024 \<Longrightarrow> j + 3 < off \<Longrightarrow> ld32 (put_addrs n off a d) j = ld32 d j"
  by (rule ld_cong; auto simp: getb_put_addrs)+

lemma ld32_put_addrs:
  "off + 4 * n \<le> 1024 \<Longrightarrow> i < n \<Longrightarrow> ld32 (put_addrs n off a d) (off + 4 * i) = a i"
proof (induction n)
  case (Suc n)
  then show ?case
    using ld32_st32 [of "off + 4 * n" "off + 4 * i"] by (cases "i = n") auto
qed simp

lemma getb_put_dinode:
  "off + 64 \<le> 1024 \<Longrightarrow> j < 1024 \<Longrightarrow> j < off \<or> off + 64 \<le> j \<Longrightarrow> getb (put_dinode off ip d) j = getb d j"
  by (auto simp: put_dinode_def Let_def NDIRECT_def getb_put_addrs getb_st)

text \<open>What \<^verbatim>\<open>ilock\<close> reads is what \<^verbatim>\<open>iupdate\<close> wrote, and the other inodes of the block stay as they are.\<close>

lemma get_put_dinode:
  assumes "off + 64 \<le> 1024"
  shows "get_dinode off (put_dinode off ip d) ip = ip"
proof -
  let ?d = "put_dinode off ip d"
  have "ld16 ?d off = i_type ip" "ld16 ?d (off + 2) = i_major ip" "ld16 ?d (off + 4) = i_minor ip" "ld16 ?d (off + 6) = i_nlink ip"
    "ld32 ?d (off + 8) = i_size ip"
    using assms by (simp_all add: put_dinode_def Let_def NDIRECT_def ld16_put_addrs ld16_st32 ld16_st16(2) ld_st_same)
  moreover have "ld32 ?d (off + 12 + 4 * k) = i_addrs ip k" if "k < NDIRECT + 1" for k
    using assms that ld32_put_addrs [of "off + 12" "NDIRECT + 1" k] by (simp add: put_dinode_def Let_def NDIRECT_def)
  ultimately show ?thesis by (simp add: get_dinode_def cong: if_cong)
qed

lemma get_put_dinode_other:
  assumes "off + 64 \<le> 1024" "off' + 64 \<le> 1024" "off' + 64 \<le> off \<or> off + 64 \<le> off'"
  shows "get_dinode off' (put_dinode off ip d) ip' = get_dinode off' d ip'"
proof -
  let ?d = "put_dinode off ip d"
  have g: "getb ?d (off' + j) = getb d (off' + j)" if "j < 64" for j
    by (rule getb_put_dinode) (use assms that in auto)
  have "ld16 ?d (off' + j) = ld16 d (off' + j)" if "j + 1 < 64" for j
    by (rule ld_cong(1)) (use g [of j] g [of "j + 1"] that in \<open>simp_all add: add.assoc\<close>)
  note l16 = this [of 0] this [of 2] this [of 4] this [of 6]
  have l32: "ld32 ?d (off' + j) = ld32 d (off' + j)" if "j + 3 < 64" for j
    by (rule ld_cong(2)) (use g that in \<open>simp add: add.assoc\<close>)
  have "ld32 ?d (off' + 12 + 4 * k) = ld32 d (off' + 12 + 4 * k)" if "k < NDIRECT + 1" for k
    using l32 [of "12 + 4 * k"] that by (simp add: add.assoc NDIRECT_def)
  then show ?thesis using l16 l32 [of 8] by (simp add: get_dinode_def cong: if_cong)
qed

lemma dip_bound: "dip inum + 64 \<le> 1024"
proof -
  have "unat inum mod IPB < IPB" by (simp add: IPB_def BSIZE_def)
  then show ?thesis by (simp add: dip_def IPB_def BSIZE_def)
qed

lemma IBLOCK_place:
  assumes l: "fs_layout s" and i: "unat inum < unat (sb_ninodes s)"
  shows "\<not> data_block s (IBLOCK inum s)" "IBLOCK inum s \<notin> bitmap_blocks s" "IBLOCK inum s \<notin> log_region (sb_logstart s)"
proof -
  have m: "unat inum div IPB \<le> unat (sb_ninodes s) div IPB" using i by (simp add: div_le_mono)
  have L: "unat (sb_inodestart s) + unat (sb_ninodes s) div IPB < unat (sb_bmapstart s)" using l by (simp add: fs_layout_def)
  then have "unat (sb_inodestart s) + unat inum div IPB < 4294967296" using m u32_bound [of "sb_bmapstart s"] by linarith
  then have e: "unat (IBLOCK inum s) = unat (sb_inodestart s) + unat inum div IPB"
    unfolding IBLOCK_def by (subst add.commute) (rule unat_add_of_nat)
  show "\<not> data_block s (IBLOCK inum s)" using e L m by (simp add: data_block_def data_start_def)
  show "IBLOCK inum s \<notin> log_region (sb_logstart s)" using logb_unat [OF l, of "IBLOCK inum s"] e by auto
  show "IBLOCK inum s \<notin> bitmap_blocks s"
  proof
    assume "IBLOCK inum s \<in> bitmap_blocks s"
    then obtain b where "unat b < unat (sb_size s)" "IBLOCK inum s = BBLOCK b s" by (auto simp: bitmap_blocks_def)
    then show False using unat_BBLOCK [OF l, of b] e L m by simp
  qed
qed

lemma iupdate_spec:
  assumes a: "can_alloc st {} W n" and ok: "inode_ok st i" and W: "IBLOCK (i_inum (itable st i)) (sb st) \<in> W"
  defines "b \<equiv> IBLOCK (i_inum (itable st i)) (sb st)"
  obtains st' where "iupdate i st = Inr st'" "in_txn st' {} W n" "txn_kept {} st st'" "itable st' = itable st"
    "view st' = (view st)(b := put_dinode (dip (i_inum (itable st i))) (itable st i) (view st b))"
proof -
  note A = can_allocD [OF a]
  let ?d = "put_dinode (dip (i_inum (itable st i))) (itable st i) (view st b)"
  have t: "in_txn st {} W (n + (if b \<in> pinned st \<union> W then 0 else 1))" using A(1) W by (simp add: b_def)
  have lg: "b \<notin> log_region (lstart st)" using IBLOCK_place(3) [OF A(3) inode_okD(2) [OF ok]] A(4) by (simp add: b_def)
  obtain st1 j st2 st3 where u: "bread ROOTDEV b st = Inr (st1, j)" "bdata (bufs st1 j) = view st b"
    "log_write j (set_data j ?d st1) = Inr st2" "brelse j st2 = Inr st3" "in_txn st3 {} W n" "view st3 = (view st)(b := ?d)"
    "txn_kept {} st st3" "itable st3 = itable st" "only_bufs st st1"
    by (rule update_block [OF t _ _ lg, where d = ?d]) auto
  have "iupdate i st = Inr st3"
    using u(1-4) inode_okD(1) [OF ok] only_bufs_itable [OF u(9)] by (simp add: iupdate_def b_def Let_def)
  then show thesis using that u(5-8) by blast
qed

section \<open>The whole of \<^verbatim>\<open>writei\<close>\<close>

text \<open>A file whose blocks keep their contents keeps its own.\<close>

lemma file_unchanged:
  assumes ok: "inode_ok st j" and s: "itable st' j = itable st j" "sb st' = sb st"
    and v: "\<And>c. c \<in> file_blocks st j \<Longrightarrow> view st' c = view st c \<and> used st' c"
  shows "file_blocks st' j = file_blocks st j" "inode_ok st' j" "k < MAXFILE * BSIZE \<Longrightarrow> fbyte st' j k = fbyte st j k"
    "file_addr st' j = file_addr st j"
proof -
  have i: "indirect st' j = indirect st j" using s(1) by (simp add: indirect_def)
  show f: "file_addr st' j = file_addr st j"
    by (rule file_addr_cong) (use s(1) v [of "indirect st j"] in \<open>auto simp: file_blocks_def\<close>)
  show b: "file_blocks st' j = file_blocks st j" by (simp add: file_blocks_def i f)
  show "inode_ok st' j" using ok v unfolding inode_ok_def i f b s by blast
  show "fbyte st' j k = fbyte st j k" if "k < MAXFILE * BSIZE"
  proof -
    have "k div BSIZE < MAXFILE" using that by (simp add: less_mult_imp_div_less)
    then have "file_addr st j (k div BSIZE) = 0 \<or> file_addr st j (k div BSIZE) \<in> file_blocks st j" by (auto simp: file_blocks_def)
    then show ?thesis using v f by (auto simp: fbyte_def Let_def)
  qed
qed

lemma changed_others:
  assumes c: "changed st i st'" and ok: "fs_ok st" "inode_ok st j" and j: "j \<noteq> i" "file_blocks st j \<inter> file_blocks st i = {}"
  shows "inode_ok st' j" "file_blocks st' j \<inter> file_blocks st' i = {}" "k < MAXFILE * BSIZE \<Longrightarrow> fbyte st' j k = fbyte st j k"
    "itable st' j = itable st j"
proof -
  note C = changedD [OF c]
  show it: "itable st' j = itable st j" using C(2) j(1) by auto
  have v: "view st' b = view st b \<and> used st' b" if b: "b \<in> file_blocks st j" for b
  proof -
    have d: "data_block (sb st) b" "used st b" "b \<notin> file_blocks st i" using inode_okD(4) [OF ok(2) b] j(2) b by auto
    then show ?thesis using C(6) [of b] C(7) [of b] data_not_bitmap ok(1) by (auto simp: fs_ok_def data_block_def)
  qed
  note F = file_unchanged [OF ok(2) it C(1)]
  show "inode_ok st' j" "k < MAXFILE * BSIZE \<Longrightarrow> fbyte st' j k = fbyte st j k" using F(2,3) v by blast+
  have "file_blocks st' j = file_blocks st j" using F(1) v by blast
  then show "file_blocks st' j \<inter> file_blocks st' i = {}"
    using C(4) j(2) inode_okD(4) [OF ok(2)] by (auto simp: fresh_def)
qed

text \<open>A larger size, when there are blocks for it.\<close>

lemma inode_ok_size:
  assumes ok: "inode_ok st i" and n: "unat n \<le> MAXFILE * BSIZE" "\<And>m. m * BSIZE < unat n \<Longrightarrow> file_addr st i m \<noteq> 0"
  defines "st' \<equiv> upd_inode i (\<lambda>ip. ip\<lparr>i_size := n\<rparr>) st"
  shows "inode_ok st' i" "file_addr st' i = file_addr st i" "file_blocks st' i = file_blocks st i" "fbyte st' i = fbyte st i"
proof -
  have i: "indirect st' i = indirect st i" by (simp add: indirect_def st'_def)
  show f: "file_addr st' i = file_addr st i" by (rule file_addr_cong) (simp_all add: st'_def)
  show b: "file_blocks st' i = file_blocks st i" by (simp add: file_blocks_def i f)
  have s: "sb st' = sb st" "used st' = used st" "view st' = view st" by (simp_all add: st'_def)
  show "fbyte st' i = fbyte st i" by (rule ext) (simp add: fbyte_def f s Let_def)
  show "inode_ok st' i" using ok n unfolding inode_ok_def i f b s by (simp add: st'_def)
qed

text \<open>The inode of file \<open>i\<close> is on disk as it is in memory.\<close>

definition synced :: "fsys \<Rightarrow> nat \<Rightarrow> bool" where
  "synced st i \<longleftrightarrow> (let ip = itable st i in get_dinode (dip (i_inum ip)) (view st (IBLOCK (i_inum ip) (sb st))) ip = ip)"

text \<open>What a change to file \<open>i\<close> keeps of the others, in memory and on disk.\<close>

definition others_kept :: "fsys \<Rightarrow> nat \<Rightarrow> fsys \<Rightarrow> bool" where
  "others_kept st i st' \<longleftrightarrow>
    (\<forall>j. j \<noteq> i \<longrightarrow> itable st' j = itable st j \<and>
      (inode_ok st j \<and> file_blocks st j \<inter> file_blocks st i = {} \<longrightarrow>
        inode_ok st' j \<and> file_blocks st' j \<inter> file_blocks st' i = {} \<and> (\<forall>k < MAXFILE * BSIZE. fbyte st' j k = fbyte st j k))) \<and>
    (\<forall>q ip. unat q < unat (sb_ninodes (sb st)) \<and> q \<noteq> i_inum (itable st i) \<longrightarrow>
      get_dinode (dip q) (view st' (IBLOCK q (sb st'))) ip = get_dinode (dip q) (view st (IBLOCK q (sb st))) ip)"

lemma same_inode: "q = r \<longleftrightarrow> unat q div IPB = unat r div IPB \<and> unat q mod IPB = unat r mod IPB" for q r :: u32
  by (metis div_mult_mod_eq word_unat_eq_iff)

lemma dinode_update:
  assumes v: "view st' = (view st)(b := put_dinode (dip r) ip (view st b))" "b = IBLOCK r s" and l: "fs_layout s"
    and q: "unat q < unat (sb_ninodes s)" "unat r < unat (sb_ninodes s)"
  shows "q \<noteq> r \<Longrightarrow> get_dinode (dip q) (view st' (IBLOCK q s)) ip' = get_dinode (dip q) (view st (IBLOCK q s)) ip'"
    "get_dinode (dip r) (view st' b) ip = ip"
proof -
  show "get_dinode (dip r) (view st' b) ip = ip" unfolding v(1) using get_put_dinode [OF dip_bound] by simp
  assume n: "q \<noteq> r"
  show "get_dinode (dip q) (view st' (IBLOCK q s)) ip' = get_dinode (dip q) (view st (IBLOCK q s)) ip'"
  proof (cases "IBLOCK q s = b")
    case True
    then have "(of_nat (unat q div IPB) :: u32) = of_nat (unat r div IPB)" unfolding v(2) IBLOCK_def by simp
    moreover have "unat q div IPB < 4294967296" "unat r div IPB < 4294967296"
      using u32_bound div_le_dividend le_less_trans by metis+
    ultimately have "unat q div IPB = unat r div IPB" by (simp add: word_unat_eq_iff unat_of_nat)
    then have "unat q mod IPB \<noteq> unat r mod IPB" using n same_inode by blast
    then have "dip q + 64 \<le> dip r \<or> dip r + 64 \<le> dip q" by (auto simp: dip_def)
    then show ?thesis using get_put_dinode_other [OF dip_bound dip_bound] v(1) True by simp
  qed (simp add: v(1))
qed

text \<open>Putting the inode on disk.\<close>

lemma save_inode:
  assumes a: "can_alloc st {} W n" and ok: "inode_ok st i" and W: "IBLOCK (i_inum (itable st i)) (sb st) \<in> W"
  obtains st' where "iupdate i st = Inr st'" "can_alloc st' {} W n" "txn_kept {} st st'" "itable st' = itable st"
    "synced st' i" "inode_ok st' i" "\<And>j. inode_ok st j \<Longrightarrow> inode_ok st' j \<and> file_blocks st' j = file_blocks st j"
    "\<And>j k. inode_ok st j \<Longrightarrow> k < MAXFILE * BSIZE \<Longrightarrow> fbyte st' j k = fbyte st j k"
    "\<And>c. unat c < unat (sb_size (sb st)) \<Longrightarrow> used st' c = used st c"
    "\<And>q ip. unat q < unat (sb_ninodes (sb st)) \<Longrightarrow> q \<noteq> i_inum (itable st i) \<Longrightarrow>
      get_dinode (dip q) (view st' (IBLOCK q (sb st))) ip = get_dinode (dip q) (view st (IBLOCK q (sb st))) ip"
proof -
  note A = can_allocD [OF a]
  let ?r = "i_inum (itable st i)"
  let ?b = "IBLOCK ?r (sb st)"
  have r: "unat ?r < unat (sb_ninodes (sb st))" using inode_okD(2) [OF ok] .
  note P = IBLOCK_place [OF A(3) r]
  obtain st' where u: "iupdate i st = Inr st'" "in_txn st' {} W n" "txn_kept {} st st'" "itable st' = itable st"
    "view st' = (view st)(?b := put_dinode (dip ?r) (itable st i) (view st ?b))"
    by (rule iupdate_spec [OF a ok W])
  note k = txn_keptD [OF u(3)] and w = write_outside_bitmap [OF u(5) txn_keptD(8) [OF u(3)] P(2)]
  note D = dinode_update [OF u(5) refl A(3) _ r]
  have v: "view st' c = view st c \<and> used st' c" if "inode_ok st j" "c \<in> file_blocks st j" for j c
    using inode_okD(4) [OF that] P(1) u(5) w(1) [of c] by (auto simp: data_block_def)
  note F = file_unchanged [OF _ fun_cong [OF u(4)] k(8)]
  have "can_alloc st' {} W n" using a u(2) w(3) A(2) k(4,8) by (simp add: can_alloc_def holds_used_def)
  moreover have "synced st' i" using D(2) [OF r] u(4) k(8) by (simp add: synced_def)
  moreover have "inode_ok st' j \<and> file_blocks st' j = file_blocks st j" if "inode_ok st j" for j
    using F(1,2) [OF that] v [OF that] by blast
  moreover have "fbyte st' j k = fbyte st j k" if "inode_ok st j" "k < MAXFILE * BSIZE" for j k
    using F(3) [OF that(1)] v [OF that(1)] that(2) by blast
  ultimately show thesis using that [OF u(1) _ u(3,4)] ok w(1) D(1) by blast
qed

definition write_done :: "fsys \<Rightarrow> nat \<Rightarrow> nat \<Rightarrow> nat \<Rightarrow> (nat \<Rightarrow> u8) \<Rightarrow> fsys \<Rightarrow> bool" where
  "write_done st i off n src st' \<longleftrightarrow>
    unat (i_size (itable st' i)) = max (unat (i_size (itable st i))) (off + n) \<and>
    (\<forall>k < MAXFILE * BSIZE. fbyte st' i k = (if off \<le> k \<and> k < off + n then src (k - off) else fbyte st i k)) \<and>
    inode_ok st' i \<and> fs_ok st' \<and> synced st' i \<and> others_kept st i st' \<and>
    (\<forall>c. unat c < unat (sb_size (sb st)) \<longrightarrow> (used st' c \<longleftrightarrow> used st c \<or> c \<in> file_blocks st' i))"

text \<open>The size after the loop.\<close>

lemma written_size:
  assumes w: "file_written st i off n src st1" and ok: "inode_ok st i" and off: "off \<le> unat (i_size (itable st i))" "off + n \<le> MAXFILE * BSIZE"
  defines "st2 \<equiv> if of_nat (off + n) > i_size (itable st1 i) then upd_inode i (\<lambda>ip. ip\<lparr>i_size := of_nat (off + n)\<rparr>) st1 else st1"
  shows "inode_ok st2 i" "file_blocks st2 i = file_blocks st1 i" "fbyte st2 i = fbyte st1 i"
    "unat (i_size (itable st2 i)) = max (unat (i_size (itable st i))) (off + n)" "i_inum (itable st2 i) = i_inum (itable st i)"
    "j \<noteq> i \<Longrightarrow> itable st2 j = itable st j" "view st2 = view st1" "sb st2 = sb st"
proof -
  have W: "changed st i st1" "inode_ok st1 i" and t: "\<And>m. m \<in> touched off n \<Longrightarrow> file_addr st1 i m \<noteq> 0"
    using w by (simp_all add: file_written_def)
  obtain a where a: "itable st1 = (itable st)(i := (itable st i)\<lparr>i_addrs := a\<rparr>)" using changedD(2) [OF W(1)] by blast
  then have i: "i_size (itable st1 i) = i_size (itable st i)" "i_inum (itable st1 i) = i_inum (itable st i)" by simp_all
  have u: "unat (of_nat (off + n) :: u32) = off + n" using off(2) by (simp add: unat_of_nat MAXFILE_eq BSIZE_def del: of_nat_add)
  have g: "of_nat (off + n) > i_size (itable st1 i) \<longleftrightarrow> unat (i_size (itable st i)) < off + n"
    unfolding i(1) word_less_nat_alt u ..
  have m: "file_addr st1 i m \<noteq> 0" if "m * BSIZE < off + n" for m
  proof (cases "m * BSIZE < unat (i_size (itable st i))")
    case True
    then show ?thesis using inode_okD(7) [OF W(2)] i(1) by simp
  next
    case False
    then have "m * BSIZE \<in> {off..<off + n}" using off(1) that by simp
    then have "m \<in> touched off n" unfolding touched_def by (rule rev_image_eqI) simp
    then show ?thesis by (rule t)
  qed
  note S = inode_ok_size [OF W(2), of "of_nat (off + n)", unfolded u, OF off(2) m]
  show "inode_ok st2 i" "file_blocks st2 i = file_blocks st1 i" "fbyte st2 i = fbyte st1 i" using S W(2) by (simp_all add: st2_def)
  show "unat (i_size (itable st2 i)) = max (unat (i_size (itable st i))) (off + n)"
    unfolding st2_def g using i(1) u by (auto simp del: of_nat_add)
  show "i_inum (itable st2 i) = i_inum (itable st i)" "j \<noteq> i \<Longrightarrow> itable st2 j = itable st j" "view st2 = view st1" "sb st2 = sb st"
    using a changedD(1) [OF W(1)] by (simp_all add: st2_def)
qed

lemma others_after_write:
  assumes c: "changed st i st1" and ok: "fs_ok st" and s: "view st2 = view st1" "sb st2 = sb st" "\<And>j. j \<noteq> i \<Longrightarrow> itable st2 j = itable st1 j"
    "file_blocks st2 i = file_blocks st1 i" and j: "inode_ok st j" "j \<noteq> i" "file_blocks st j \<inter> file_blocks st i = {}"
  shows "inode_ok st2 j" "file_blocks st2 j \<inter> file_blocks st2 i = {}" "k < MAXFILE * BSIZE \<Longrightarrow> fbyte st2 j k = fbyte st j k"
proof -
  note C = changed_others [OF c ok j] and sb = changedD(1) [OF c]
  have u: "used st2 = used st1" using used_cong [OF s(1)] s(2) sb by simp
  have v: "\<And>b. b \<in> file_blocks st1 j \<Longrightarrow> view st2 b = view st1 b \<and> used st2 b"
    using inode_okD(4) [OF C(1)] s(1) u by simp
  have sb2: "sb st2 = sb st1" using s(2) sb by simp
  note F = file_unchanged [OF C(1) s(3) [OF j(2)] sb2]
  show "inode_ok st2 j" using F(2) v by blast
  show "fbyte st2 j k = fbyte st j k" if "k < MAXFILE * BSIZE" using F(3) v C(3) that by metis
  have "file_blocks st2 j = file_blocks st1 j" using F(1) v by blast
  then show "file_blocks st2 j \<inter> file_blocks st2 i = {}" using C(2) s(4) by simp
qed

lemma write_finish:
  assumes w: "file_written st i off n src st1" and a: "can_alloc st1 {} W 0" and ok: "inode_ok st i" "fs_ok st"
    and off: "off \<le> unat (i_size (itable st i))" "off + n \<le> MAXFILE * BSIZE" and W: "IBLOCK (i_inum (itable st i)) (sb st) \<in> W"
  defines "st2 \<equiv> if of_nat (off + n) > i_size (itable st1 i) then upd_inode i (\<lambda>ip. ip\<lparr>i_size := of_nat (off + n)\<rparr>) st1 else st1"
  obtains st' where "iupdate i st2 = Inr st'" "can_alloc st' {} W 0" "txn_kept {} st1 st'" "write_done st i off n src st'"
proof -
  note S = written_size [OF w ok(1) off, folded st2_def]
  have ch: "changed st i st1" and fb: "\<And>k. k < MAXFILE * BSIZE \<Longrightarrow> fbyte st1 i k = (if off \<le> k \<and> k < off + n then src (k - off) else fbyte st i k)"
    using w by (simp_all add: file_written_def)
  note C = changedD [OF ch]
  have a2: "can_alloc st2 {} W 0" and k2: "txn_kept {} st1 st2" using a by (simp_all add: st2_def)
  obtain st' where u: "iupdate i st2 = Inr st'" "can_alloc st' {} W 0" "txn_kept {} st2 st'" "itable st' = itable st2"
    "synced st' i" "inode_ok st' i" and uj: "\<And>j. inode_ok st2 j \<Longrightarrow> inode_ok st' j \<and> file_blocks st' j = file_blocks st2 j"
    and ub: "\<And>j k. inode_ok st2 j \<Longrightarrow> k < MAXFILE * BSIZE \<Longrightarrow> fbyte st' j k = fbyte st2 j k"
    and uu: "\<And>c. unat c < unat (sb_size (sb st2)) \<Longrightarrow> used st' c = used st2 c"
    and ud: "\<And>q ip. unat q < unat (sb_ninodes (sb st2)) \<Longrightarrow> q \<noteq> i_inum (itable st2 i) \<Longrightarrow>
      get_dinode (dip q) (view st' (IBLOCK q (sb st2))) ip = get_dinode (dip q) (view st2 (IBLOCK q (sb st2))) ip"
    by (rule save_inode [OF a2 S(1)]) (use W S(5,8) in auto)
  have sb: "sb st' = sb st" using txn_keptD(8) [OF u(3)] S(8) by simp
  have it: "itable st2 j = itable st1 j" if "j \<noteq> i" for j using that by (simp add: st2_def)
  have O: "inode_ok st2 j" "file_blocks st2 j \<inter> file_blocks st2 i = {}" "\<And>k. k < MAXFILE * BSIZE \<Longrightarrow> fbyte st2 j k = fbyte st j k"
    if "inode_ok st j" "j \<noteq> i" "file_blocks st j \<inter> file_blocks st i = {}" for j
    using others_after_write [OF ch ok(2) S(7,8) it S(2) that] by auto
  have l: "fs_layout (sb st)" using ok(2) by (simp add: fs_ok_def)
  have dn: "get_dinode (dip q) (view st' (IBLOCK q (sb st'))) ip = get_dinode (dip q) (view st (IBLOCK q (sb st))) ip"
    if q: "unat q < unat (sb_ninodes (sb st))" "q \<noteq> i_inum (itable st i)" for q ip
  proof -
    have "view st1 (IBLOCK q (sb st)) = view st (IBLOCK q (sb st))" using C(7) IBLOCK_place(1,2) [OF l q(1)] by blast
    then show ?thesis using ud [of q ip] q S(5,7,8) sb by simp
  qed
  have "others_kept st i st'"
    unfolding others_kept_def using O uj ub S(1,6) u(4) dn by auto
  moreover have "used st' c \<longleftrightarrow> used st c \<or> c \<in> file_blocks st' i" if "unat c < unat (sb_size (sb st))" for c
    using uu [of c] C(6) [OF that] that S(2,7,8) uj [OF S(1)] used_cong [OF S(7)] C(1) by simp
  moreover have "fbyte st' i k = (if off \<le> k \<and> k < off + n then src (k - off) else fbyte st i k)" if "k < MAXFILE * BSIZE" for k
    using ub [OF S(1) that] S(3) fb [OF that] by simp
  ultimately have "write_done st i off n src st'"
    unfolding write_done_def using u(4-6) S(4) can_allocD(2) [OF u(2)] by simp
  then show thesis using that [OF u(1,2)] txn_kept_trans [OF k2 u(3)] by blast
qed

lemma writei_spec:
  assumes a: "can_alloc st {} W (card (touched (unat off) (unat n)) + 1)" and ok: "inode_ok st i"
    and W: "IBLOCK (i_inum (itable st i)) (sb st) \<in> W"
    and off: "unat off \<le> unat (i_size (itable st i))" "unat off + unat n \<le> MAXFILE * BSIZE"
    and cp: "\<And>k len. k + len \<le> unat n \<Longrightarrow> cp k len = Inr (map src [k..<k + len], 0)"
  shows "(\<exists>st'. writei cp i off n st = Inr (st', int (unat n)) \<and> can_alloc st' {} W 0 \<and> txn_kept {} st st' \<and>
      write_done st i (unat off) (unat n) src st') \<or>
    writei cp i off n st = Inl (Panic ''balloc: out of blocks'') \<and> card (free_blocks st) < missing st i (touched (unat off) (unat n))"
proof -
  have u: "unat (off + n) = unat off + unat n" using off(2) by (simp add: unat_word_ariths MAXFILE_eq BSIZE_def)
  have guards: "\<not> (off > i_size (itable st i) \<or> off + n < off)" "\<not> off + n > of_nat (MAXFILE * BSIZE)"
    using off u by (auto simp: word_less_nat_alt MAXFILE_eq BSIZE_def)
  have a0: "can_alloc st {} W (0 + card (touched (unat off) (unat n)) + ibudget st i)"
    by (rule can_alloc_less [OF a]) (simp add: ibudget_def)
  have sum: "of_nat (unat off + unat n) = off + n" by simp
  note eq = writei_def [of cp i off n st, unfolded if_not_P [OF guards(1)] if_not_P [OF guards(2)]]
  have "(\<exists>st'. writei_loop cp i (of_nat (unat off)) (unat n) 0 st = Inr (st', 0 + unat n, of_nat (unat off + unat n)) \<and>
      can_alloc st' {} W 0 \<and> txn_kept {} st st' \<and> file_written st i (unat off) (unat n) src st') \<or>
    writei_loop cp i (of_nat (unat off)) (unat n) 0 st = Inl (Panic ''balloc: out of blocks'') \<and>
      card (free_blocks st) < missing st i (touched (unat off) (unat n))"
    by (rule writei_loop_spec [OF a0 ok off(2), unfolded loop_outcome_def]) (use cp in simp)
  then show ?thesis
  proof (elim disjE exE conjE)
    fix st1
    assume r: "writei_loop cp i (of_nat (unat off)) (unat n) 0 st = Inr (st1, 0 + unat n, of_nat (unat off + unat n))"
      "can_alloc st1 {} W 0" "txn_kept {} st st1" "file_written st i (unat off) (unat n) src st1"
    obtain st' where f: "iupdate i (if of_nat (unat off + unat n) > i_size (itable st1 i)
        then upd_inode i (\<lambda>ip. ip\<lparr>i_size := of_nat (unat off + unat n)\<rparr>) st1 else st1) = Inr st'" "can_alloc st' {} W 0"
      "txn_kept {} st1 st'" "write_done st i (unat off) (unat n) src st'"
      by (rule write_finish [OF r(4,2) ok can_allocD(2) [OF a] off W])
    have "writei cp i off n st = Inr (st', int (unat n))"
      unfolding eq using r(1) f(1) sum by (auto simp: Let_def split: if_splits)
    then show ?thesis using f(2,4) txn_kept_trans [OF r(3) f(3)] by blast
  qed (simp add: eq)
qed

lemma writei_rejects:
  "unat (i_size (itable st i)) < unat off \<or> MAXFILE * BSIZE < unat off + unat n \<Longrightarrow> writei cp i off n st = Inr (st, - 1)"
proof -
  assume a: "unat (i_size (itable st i)) < unat off \<or> MAXFILE * BSIZE < unat off + unat n"
  have m: "unat (of_nat (MAXFILE * BSIZE) :: u32) = MAXFILE * BSIZE" by (simp add: MAXFILE_eq BSIZE_def)
  show ?thesis
  proof (cases "unat off + unat n < 4294967296")
    case True
    then have "unat (off + n) = unat off + unat n" by (simp add: unat_word_ariths)
    then show ?thesis using a m by (auto simp: writei_def word_less_nat_alt simp del: of_nat_mult)
  next
    case False
    then have "off + n < off" by (simp add: add_wraps)
    then show ?thesis by (simp add: writei_def)
  qed
qed

end
