(* ===== verification/Fs_Props.thy ===== *)
theory Fs_Props
  imports Fs_Write
begin

text \<open>
  What the file system promises: the allocator hands out free blocks only, a read returns the contents of
  the file, and a write replaces the addressed bytes and nothing else. A disk as \<^verbatim>\<open>mkfs\<close> makes it
  shows that the assumptions can hold.
\<close>

section \<open>Transactions of \<^verbatim>\<open>filewrite\<close>\<close>

lemma can_alloc_start:
  "in_txn st {} W n \<Longrightarrow> fs_ok st \<Longrightarrow> bitmap_blocks (sb st) \<subseteq> W \<Longrightarrow> can_alloc st {} W n"
  by (simp add: can_alloc_def holds_used_def)

lemma card_touched: "card (touched off n) \<le> (n + BSIZE - 1) div BSIZE + 1"
proof -
  have "touched off n \<subseteq> {off div BSIZE..off div BSIZE + (n + BSIZE - 1) div BSIZE}"
  proof
    fix m assume "m \<in> touched off n"
    then obtain k where k: "m = k div BSIZE" "off \<le> k" "k < off + n" by (auto simp: touched_def)
    have "off div BSIZE \<le> m" using k by (simp add: div_le_mono)
    moreover have "m \<le> off div BSIZE + (n + BSIZE - 1) div BSIZE"
    proof -
      have "k \<le> off div BSIZE * BSIZE + (BSIZE - 1) + (n - 1)"
        using k(3) div_mult_mod_eq [of off BSIZE] mod_less_divisor [OF BSIZE_pos, of off] by linarith
      moreover have "\<dots> = off div BSIZE * BSIZE + (n + BSIZE - 1 - 1)" using k(2,3) BSIZE_pos by linarith
      ultimately have "m \<le> (n + BSIZE - 1 - 1 + off div BSIZE * BSIZE) div BSIZE" unfolding k(1) by (intro div_le_mono) simp
      also have "\<dots> = off div BSIZE + (n + BSIZE - 1 - 1) div BSIZE" by (simp add: div_mult_self1)
      also have "\<dots> \<le> off div BSIZE + (n + BSIZE - 1) div BSIZE" by (simp add: div_le_mono)
      finally show ?thesis .
    qed
    ultimately show "m \<in> {off div BSIZE..off div BSIZE + (n + BSIZE - 1) div BSIZE}" by simp
  qed
  then have "card (touched off n) \<le> card {off div BSIZE..off div BSIZE + (n + BSIZE - 1) div BSIZE}" by (rule card_mono [rotated]) simp
  then show ?thesis by simp
qed

text \<open>
  \<^verbatim>\<open>begin_op\<close> waits until \<^verbatim>\<open>MAXOPBLOCKS\<close> blocks fit in the log for every system call in progress.
  That is enough for the part of at most \<^verbatim>\<open>((MAXOPBLOCKS - 1 - 1 - 2) / 2) * BSIZE\<close> bytes that \<^verbatim>\<open>filewrite\<close>
  passes to \<^verbatim>\<open>writei\<close> when the free map is one block.
\<close>

lemma filewrite_part_fits:
  assumes t: "txn_inv st {}" "1 \<le> loutstanding st" and l: "lh_n st + int MAXOPBLOCKS \<le> int LOGSIZE" "sint (lsize st) = int LOGSIZE"
    and b: "card (bitmap_blocks (sb st)) \<le> 1" and n: "n \<le> (MAXOPBLOCKS - 1 - 1 - 2) div 2 * BSIZE"
  shows "in_txn st {} (insert ib (bitmap_blocks (sb st))) (card (touched off n) + 1)"
proof -
  have "card (touched off n) \<le> 4"
    using card_touched [of off n] n by (simp add: MAXOPBLOCKS_def BSIZE_def)
  moreover have "card (pinned st \<union> insert ib (bitmap_blocks (sb st))) \<le> card (pinned st) + 2"
    using card_Un_le [of "pinned st" "insert ib (bitmap_blocks (sb st))"] b card_insert_le_m1 [of 2 "bitmap_blocks (sb st)" ib] by simp
  moreover have "int (card (pinned st)) = lh_n st" using card_pinned(1) [OF t(1)] .
  ultimately have "int (card (pinned st \<union> insert ib (bitmap_blocks (sb st))) + (card (touched off n) + 1)) < sint (lsize st) - 1"
    using l by (simp add: MAXOPBLOCKS_def LOGSIZE_def)
  then show ?thesis using t by (simp add: in_txn_def)
qed

section \<open>A disk with an empty file\<close>

text \<open>The super block of \<^verbatim>\<open>mkfs\<close> for 1000 blocks, a free map with the first 48 blocks in use, and an empty file.\<close>

definition fsx_sb :: superblock where
  "fsx_sb = \<lparr>sb_magic = FSMAGIC, sb_size = 1000, sb_nblocks = 954, sb_ninodes = 200, sb_nlog = 30, sb_logstart = 2,
    sb_inodestart = 32, sb_bmapstart = 45\<rparr>"

definition fsx_map :: bdata where
  "fsx_map = (\<lambda>k. if unat k < 6 then - 1 else 0)"

definition fsx_fs :: fsys where
  "fsx_fs = (fs_boot 1 fsx_sb (\<lambda>b. if b = 45 then fsx_map else zero_block))\<lparr>lstart := 2, lsize := 30, ldev := ROOTDEV,
    loutstanding := 1, itable := (\<lambda>_. zero_inode\<lparr>i_dev := ROOTDEV, i_inum := 1, i_ref := 1, i_valid := True, i_type := T_FILE\<rparr>)\<rparr>"

lemma fsx_fields:
  "sb fsx_fs = fsx_sb" "lstart fsx_fs = 2" "itable fsx_fs i = zero_inode\<lparr>i_dev := ROOTDEV, i_inum := 1, i_ref := 1, i_valid := True, i_type := T_FILE\<rparr>"
  "pinned fsx_fs = {}" "disk fsx_fs = (\<lambda>b. if b = 45 then fsx_map else zero_block)" "loutstanding fsx_fs = 1" "sint (lsize fsx_fs) = 30"
  "txn_inv fsx_fs {}"
proof -
  note f = fs_boot_spec [of 1 fsx_sb "\<lambda>b. if b = 45 then fsx_map else zero_block"]
  have c: "cache_inv (st\<lparr>itable := x\<rparr>) H P = cache_inv st H P" for st x H P
    by (simp add: cache_inv_def buf_ok_def lru_def)
  show "sb fsx_fs = fsx_sb" "lstart fsx_fs = 2" "pinned fsx_fs = {}" "loutstanding fsx_fs = 1" "sint (lsize fsx_fs) = 30"
    "itable fsx_fs i = zero_inode\<lparr>i_dev := ROOTDEV, i_inum := 1, i_ref := 1, i_valid := True, i_type := T_FILE\<rparr>"
    "disk fsx_fs = (\<lambda>b. if b = 45 then fsx_map else zero_block)"
    using f by (simp_all add: fsx_fs_def pinned_def)
  then show "txn_inv fsx_fs {}"
    using f by (simp add: txn_inv_def homes_def LOGSIZE_def hd_n_def, simp add: fsx_fs_def c)
qed

lemma fsx_BBLOCK: "unat b < 1000 \<Longrightarrow> BBLOCK b fsx_sb = 45"
  by (simp add: BBLOCK_def fsx_sb_def BPB_def BSIZE_def)

lemma fsx_bitmap: "bitmap_blocks fsx_sb = {45}"
proof -
  have "bitmap_blocks fsx_sb = (\<lambda>b. 45) ` {b :: u32. unat b < 1000}"
    unfolding bitmap_blocks_def by (rule image_cong) (simp add: fsx_sb_def, simp add: fsx_BBLOCK)
  moreover have "(0 :: u32) \<in> {b. unat b < 1000}" by simp
  ultimately show ?thesis using image_constant by metis
qed

lemma fsx_view: "view fsx_fs b = (if b = 45 then fsx_map else zero_block)"
  using unpinned_clean [OF fsx_fields(8), of b] fsx_fields(4,5) by simp

lemma fsx_used: "unat b < 1000 \<Longrightarrow> used fsx_fs b \<longleftrightarrow> unat b < 48"
proof -
  assume b: "unat b < 1000"
  then have m: "unat b mod BPB = unat b" "unat b div 8 < 1024" by (simp_all add: BPB_def BSIZE_def)
  have "used fsx_fs b \<longleftrightarrow> bmap_bit fsx_map (unat b)" using b m(1) by (simp add: used_def fsx_fields fsx_BBLOCK fsx_view)
  also have "\<dots> \<longleftrightarrow> unat b div 8 < 6" using m(2) by (simp add: bmap_bit_iff fsx_map_def getb_def unat_of_nat)
  finally show ?thesis by auto
qed

lemma fsx_ok: "fs_ok fsx_fs" "inode_ok fsx_fs i"
proof -
  show "fs_ok fsx_fs"
    using fsx_used by (auto simp: fs_ok_def fsx_fields fs_layout_def data_start_def fsx_sb_def LOGSIZE_def IPB_def BPB_def BSIZE_def)
  have "file_addr fsx_fs i m = 0" "indirect fsx_fs i = 0" for m by (simp_all add: file_addr_def indirect_def fsx_fields zero_inode_def)
  then show "inode_ok fsx_fs i" by (auto simp: inode_ok_def file_blocks_def fsx_fields zero_inode_def fsx_sb_def)
qed

lemma fsx_txn: "card W \<le> 2 \<Longrightarrow> finite W \<Longrightarrow> n \<le> 20 \<Longrightarrow> in_txn fsx_fs {} W n"
  by (simp add: in_txn_def fsx_fields)

lemma fsx_free: "48 \<in> free_blocks fsx_fs"
  using fsx_used [of 48] by (simp add: free_blocks_def fsx_fields fsx_sb_def)

text \<open>Three bytes written to the file.\<close>

lemma from_local_bytes: "k + len \<le> length bs \<Longrightarrow> from_local bs k len = Inr (map (nth bs) [k..<k + len], 0)"
  by (auto simp: from_local_def intro: nth_equalityI)

lemma fsx_touched: "touched 0 3 = {0}"
proof -
  have "touched 0 3 = (\<lambda>k. 0) ` {0..<3 :: nat}" unfolding touched_def by (rule image_cong) (auto simp: BSIZE_def)
  then show ?thesis by (simp add: image_constant_conv)
qed

lemma fsx_room: "in_txn fsx_fs {} (insert (IBLOCK (i_inum (itable fsx_fs 0)) (sb fsx_fs)) (bitmap_blocks (sb fsx_fs))) (card (touched 0 3) + 1)"
  by (rule fsx_txn) (auto simp: fsx_touched fsx_bitmap fsx_fields card_insert_if)

lemma fsx_enough: "missing fsx_fs 0 (touched 0 3) \<le> card (free_blocks fsx_fs)"
proof -
  have "0 < card (free_blocks fsx_fs)" using fsx_free card_gt_0_iff [of "free_blocks fsx_fs"] by auto
  then show ?thesis by (simp add: fsx_touched missing1 NDIRECT_def)
qed

lemma fsx_written:
  obtains st where "txn_inv st {}" "inode_ok st 0" "map (fbyte st 0) [0..<3] = [1, 2, 3]" "unat (i_size (itable st 0)) = 3"
proof -
  let ?W = "insert (IBLOCK (i_inum (itable fsx_fs 0)) (sb fsx_fs)) (bitmap_blocks (sb fsx_fs))"
  have a: "can_alloc fsx_fs {} ?W (card (touched (unat (0 :: u32)) (unat (3 :: u32))) + 1)"
    by (rule can_alloc_start [OF _ fsx_ok(1)]) (use fsx_room in auto)
  have "\<And>k len. k + len \<le> unat (3 :: u32) \<Longrightarrow> from_local [1, 2, 3] k len = Inr (map (nth [1, 2, 3]) [k..<k + len], 0)"
    by (rule from_local_bytes) simp
  then obtain st where w: "can_alloc st {} ?W 0" "write_done fsx_fs 0 (unat (0 :: u32)) (unat (3 :: u32)) (nth [1, 2, 3]) st"
    using writei_spec [OF a fsx_ok(2) insertI1, of "from_local [1, 2, 3]" "nth [1, 2, 3]"] fsx_enough by (force simp: MAXFILE_eq BSIZE_def)
  have b: "fbyte st 0 k = [1, 2, 3] ! k" if "k < 3" for k using w(2) that by (simp add: write_done_def MAXFILE_eq BSIZE_def)
  have "map (fbyte st 0) [0..<3] = [1, 2, 3]" using b [of 0] b [of 1] b [of 2] by (simp add: upt_rec numeral_2_eq_2)
  then show thesis
    using that [of st] w in_txn_inv [OF can_allocD(1) [OF w(1)]] by (simp add: write_done_def fsx_fields zero_inode_def)
qed

section \<open>Properties\<close>

text \<open>C7: \<^verbatim>\<open>balloc\<close> takes a free block: it marks that block and no other as used, zeroes it,
  changes no other block outside the free map, and panics exactly when no block is free. \<^verbatim>\<open>bfree\<close> makes exactly its block
  free again and panics when it already is. Blocks of the log, of inodes and of the free map are never handed out.\<close>

theorem block_allocator_exact:
  assumes "in_txn st {} (bitmap_blocks (sb st)) 1" and "fs_ok st"
  shows "(if free_blocks st = {} then balloc ROOTDEV st = Inl (Panic ''balloc: out of blocks'')
      else \<exists>st' b. balloc ROOTDEV st = Inr (st', b) \<and> b \<in> free_blocks st \<and> data_block (sb st) b \<and>
        free_blocks st' = free_blocks st - {b} \<and> view st' b = zero_block \<and>
        (\<forall>c. c \<noteq> b \<and> c \<notin> bitmap_blocks (sb st) \<longrightarrow> view st' c = view st c) \<and> fs_ok st' \<and> txn_inv st' {}) \<and>
    (\<forall>b. data_block (sb st) b \<longrightarrow>
      (if b \<in> free_blocks st then bfree ROOTDEV b st = Inl (Panic ''freeing free block'')
       else \<exists>st'. bfree ROOTDEV b st = Inr st' \<and> free_blocks st' = insert b (free_blocks st) \<and>
        (\<forall>c. c \<notin> bitmap_blocks (sb st) \<longrightarrow> view st' c = view st c) \<and> fs_ok st' \<and> txn_inv st' {}))"
proof -
  let ?W = "bitmap_blocks (sb st)"
  have a: "can_alloc st {} ?W (Suc 0)" using can_alloc_start [OF assms] by simp
  have "if free_blocks st = {} then balloc ROOTDEV st = Inl (Panic ''balloc: out of blocks'')
      else \<exists>st' b. balloc ROOTDEV st = Inr (st', b) \<and> b \<in> free_blocks st \<and> data_block (sb st) b \<and>
        free_blocks st' = free_blocks st - {b} \<and> view st' b = zero_block \<and>
        (\<forall>c. c \<noteq> b \<and> c \<notin> ?W \<longrightarrow> view st' c = view st c) \<and> fs_ok st' \<and> txn_inv st' {}"
    using a
  proof (cases rule: balloc_cases)
    case (took st' b)
    note T = took_used [OF assms(2) took(2)] and R = took_free_blocks [OF assms(2) took(2)]
    have "data_block (sb st) b" "txn_inv st' {}" using took(2) in_txn_inv by (auto simp: took_def)
    then show ?thesis using took(1) T R by auto
  qed simp
  moreover have "if b \<in> free_blocks st then bfree ROOTDEV b st = Inl (Panic ''freeing free block'')
       else \<exists>st'. bfree ROOTDEV b st = Inr st' \<and> free_blocks st' = insert b (free_blocks st) \<and>
        (\<forall>c. c \<notin> ?W \<longrightarrow> view st' c = view st c) \<and> fs_ok st' \<and> txn_inv st' {}" if d: "data_block (sb st) b" for b
  proof -
    have b: "unat b < unat (sb_size (sb st))" using d by (simp add: data_block_def)
    show ?thesis
    proof (cases "used st b")
      case True
      obtain st' where g: "bfree ROOTDEV b st = Inr st'" "gave st {} ?W (Suc 0) st' b" by (rule bfree_spec [OF a b True])
      note G = gave_used [OF assms(2) g(2) d]
      have "txn_inv st' {}" "sb st' = sb st" using g(2) in_txn_inv txn_keptD(8) by (auto simp: gave_def)
      then show ?thesis using g(1) G True b by (auto simp: free_blocks_def)
    qed (use bfree_panics [OF a b] b in \<open>simp add: free_blocks_def\<close>)
  qed
  ultimately show ?thesis by blast
qed

theorem block_allocator_exact_witness:
  "in_txn fsx_fs {} (bitmap_blocks (sb fsx_fs)) 1 \<and> fs_ok fsx_fs \<and>
    (\<exists>st' b. balloc ROOTDEV fsx_fs = Inr (st', b) \<and> 48 \<le> unat b \<and> view st' b = zero_block \<and> b \<notin> free_blocks st')"
proof -
  have t: "in_txn fsx_fs {} (bitmap_blocks (sb fsx_fs)) 1" by (rule fsx_txn) (simp_all add: fsx_fields fsx_bitmap)
  have n: "free_blocks fsx_fs \<noteq> {}" using fsx_free by blast
  obtain st' b where b: "balloc ROOTDEV fsx_fs = Inr (st', b)" "b \<in> free_blocks fsx_fs" "free_blocks st' = free_blocks fsx_fs - {b}"
    "view st' b = zero_block"
    using block_allocator_exact [OF t fsx_ok(1)] n by auto
  then have "48 \<le> unat b" using fsx_used [of b] by (auto simp: free_blocks_def fsx_fields fsx_sb_def)
  then show ?thesis using t fsx_ok(1) b by auto
qed

text \<open>C11: \<^verbatim>\<open>readi\<close> returns the bytes of the file from the offset on, as many as were asked for or as there are
  before the end of the file, and none when the offset is past the end or the sum overflows. It changes neither a block nor an inode.\<close>

theorem readi_returns_contents:
  assumes "txn_inv st {}" and "inode_ok st i"
  shows "\<exists>st' bs. readi to_local i off n [] st = Inr (bs, st', int (length bs)) \<and>
    bs = (if unat (i_size (itable st i)) < unat off \<or> 2 ^ 32 \<le> unat off + unat n then []
      else map (fbyte st i) [unat off..<min (unat off + unat n) (unat (i_size (itable st i)))]) \<and>
    view st' = view st \<and> itable st' = itable st \<and> disk st' = disk st \<and> txn_inv st' {}"
  using readi_spec [OF assms] by blast

theorem readi_returns_contents_witness:
  "\<exists>st st'. txn_inv st {} \<and> inode_ok st 0 \<and> readi to_local 0 1 10 [] st = Inr ([2, 3], st', 2)"
proof -
  obtain st where st: "txn_inv st {}" "inode_ok st 0" "map (fbyte st 0) [0..<3] = [1, 2, 3]" "unat (i_size (itable st 0)) = 3"
    by (rule fsx_written)
  have "map (fbyte st 0) [1..<3] = [2, 3]" using st(3) by (simp add: upt_rec)
  then have "\<exists>st'. readi to_local 0 1 10 [] st = Inr ([2, 3], st', 2)"
    using readi_returns_contents [OF st(1,2), of 1 10] st(4) by auto
  then show ?thesis using st(1,2) by blast
qed

text \<open>C3: \<^verbatim>\<open>writei\<close> of \<open>n\<close> bytes at an offset up to the size replaces exactly those bytes of the file, extends its size
  to their end, saves the inode on disk, and keeps every other file's inode, blocks and contents; only blocks of
  the file become used. The log needs room for the blocks of the range, the indirect block, the inode and the free map.
  It panics only when there are fewer free blocks than the file lacks.\<close>

theorem writei_updates_contents:
  assumes "in_txn st {} (insert (IBLOCK (i_inum (itable st i)) (sb st)) (bitmap_blocks (sb st))) (card (touched (unat off) (unat n)) + 1)"
    and "fs_ok st" and "inode_ok st i" and "unat off \<le> unat (i_size (itable st i))" and "unat off + unat n \<le> MAXFILE * BSIZE"
    and "\<And>k len. k + len \<le> unat n \<Longrightarrow> cp k len = Inr (map src [k..<k + len], 0)"
  shows "(\<exists>st'. writei cp i off n st = Inr (st', int (unat n)) \<and> write_done st i (unat off) (unat n) src st' \<and>
      txn_inv st' {} \<and> disk st' = disk st) \<or>
    writei cp i off n st = Inl (Panic ''balloc: out of blocks'') \<and> card (free_blocks st) < missing st i (touched (unat off) (unat n))"
proof -
  let ?W = "insert (IBLOCK (i_inum (itable st i)) (sb st)) (bitmap_blocks (sb st))"
  have a: "can_alloc st {} ?W (card (touched (unat off) (unat n)) + 1)"
    by (rule can_alloc_start [OF assms(1,2)]) auto
  show ?thesis
    using writei_spec [OF a assms(3) insertI1 assms(4,5,6)] in_txn_inv can_allocD(1) txn_keptD(1) by blast
qed

theorem writei_updates_contents_witness:
  "\<exists>st'. inode_ok fsx_fs 0 \<and> writei (from_local [1, 2, 3]) 0 0 3 fsx_fs = Inr (st', 3) \<and> fbyte st' 0 1 = 2 \<and>
    unat (i_size (itable st' 0)) = 3 \<and> synced st' 0"
proof -
  have cp: "\<And>k len. k + len \<le> unat (3 :: u32) \<Longrightarrow> from_local [1, 2, 3] k len = Inr (map (nth [1, 2, 3]) [k..<k + len], 0)"
    by (rule from_local_bytes) simp
  have "unat (0 :: u32) \<le> unat (i_size (itable fsx_fs 0))" "unat (0 :: u32) + unat (3 :: u32) \<le> MAXFILE * BSIZE"
    by (simp_all add: MAXFILE_eq BSIZE_def)
  note r = writei_updates_contents [OF _ fsx_ok this cp]
  then obtain st' where w: "writei (from_local [1, 2, 3]) 0 0 3 fsx_fs = Inr (st', int (unat (3 :: u32)))"
    "write_done fsx_fs 0 (unat (0 :: u32)) (unat (3 :: u32)) (nth [1, 2, 3]) st'"
    using fsx_room fsx_enough by force
  then have "fbyte st' 0 1 = 2" by (simp add: write_done_def MAXFILE_eq BSIZE_def)
  then show ?thesis using w fsx_ok(2) by (auto simp: write_done_def fsx_fields zero_inode_def)
qed

end
