(* ===== verification/Ring.thy ===== *)
theory Ring
  imports Prelude
begin

text \<open>
  Ring buffers with free-running indices, as the kernel uses them for pipes, for console input, for the
  output of the serial port and for the requests to the disk: two counters that only grow, wrap around at
  the width of their type, and are reduced modulo the size of the buffer when it is accessed. The locale states what a component has to
  provide and shows that the buffer is a bounded FIFO queue.
\<close>

locale ring =
  fixes size :: nat
    and buf :: "'s \<Rightarrow> nat \<Rightarrow> 'a" and rd :: "'s \<Rightarrow> 'w :: len word" and wr :: "'s \<Rightarrow> 'w word"
    and put :: "'a \<Rightarrow> 's \<Rightarrow> 's" and get :: "'s \<Rightarrow> 'a \<times> 's"
  assumes size_pos: "0 < size" and size_dvd: "size dvd 2 ^ LENGTH('w)" and size_small: "size < 2 ^ LENGTH('w)"
    and put_buf: "wr s - rd s < of_nat size \<Longrightarrow> buf (put c s) = (buf s)(unat (wr s) mod size := c)"
    and put_wr: "wr (put c s) = wr s + 1" and put_rd: "rd (put c s) = rd s"
    and get_val: "fst (get s) = buf s (unat (rd s) mod size)"
    and get_buf: "buf (snd (get s)) = buf s"
    and get_rd: "rd (snd (get s)) = rd s + 1" and get_wr: "wr (snd (get s)) = wr s"
begin

definition count :: "'s \<Rightarrow> nat" where
  "count s = unat (wr s - rd s)"

definition contents :: "'s \<Rightarrow> 'a list" where
  "contents s = map (\<lambda>k. buf s ((unat (rd s) + k) mod size)) [0..<count s]"

definition bounded :: "'s \<Rightarrow> bool" where
  "bounded s \<longleftrightarrow> count s \<le> size"

lemma length_contents [simp]: "length (contents s) = count s"
  by (simp add: contents_def)

lemma empty_iff: "rd s = wr s \<longleftrightarrow> count s = 0"
proof -
  have "rd s = wr s \<longleftrightarrow> wr s - rd s = 0" by auto
  also have "\<dots> \<longleftrightarrow> unat (wr s - rd s) = 0" by (simp only: word_unat_eq_iff unat_0)
  finally show ?thesis by (simp add: count_def)
qed

lemma full_iff: "wr s = rd s + of_nat size \<longleftrightarrow> count s = size"
proof -
  have "wr s = rd s + of_nat size \<longleftrightarrow> wr s - rd s = of_nat size" by (auto simp: algebra_simps)
  also have "\<dots> \<longleftrightarrow> count s = size"
    using size_small by (auto simp: count_def word_unat_eq_iff unat_of_nat)
  finally show ?thesis .
qed

lemma room_iff: "wr s - rd s < of_nat size \<longleftrightarrow> count s < size"
  using size_small by (simp add: count_def word_less_nat_alt unat_of_nat)

lemma wrap_index: "unat (a + of_nat k :: 'w word) mod size = (unat a + k) mod size"
proof -
  have "(unat a + k) mod size = ((unat a + k) mod 2 ^ LENGTH('w)) mod size"
    using size_dvd by (simp add: mod_mod_cancel)
  also have "(unat a + k) mod 2 ^ LENGTH('w) = unat (a + of_nat k)"
    by (simp add: unat_word_ariths unat_of_nat mod_add_right_eq)
  finally show ?thesis by simp
qed

lemma count_put: "count s < size \<Longrightarrow> count (put c s) = Suc (count s)"
proof -
  assume "count s < size"
  then have "Suc (unat (wr s - rd s)) < 2 ^ LENGTH('w)" using size_small by (simp add: count_def)
  moreover have "wr (put c s) - rd (put c s) = (wr s - rd s) + 1" by (simp add: put_wr put_rd)
  ultimately show ?thesis by (simp add: count_def unat_word_ariths)
qed

lemma wr_index: "unat (wr s) mod size = (unat (rd s) + count s) mod size"
  using wrap_index [of "rd s" "count s"] by (simp add: count_def)

lemma contents_put:
  assumes "count s < size"
  shows "contents (put c s) = contents s @ [c]"
proof -
  have b: "buf (put c s) = (buf s)((unat (rd s) + count s) mod size := c)"
    using put_buf assms room_iff wr_index by metis
  have "(unat (rd s) + k) mod size \<noteq> (unat (rd s) + count s) mod size" if "k < count s" for k
  proof
    assume "(unat (rd s) + k) mod size = (unat (rd s) + count s) mod size"
    then have "size dvd (unat (rd s) + count s) - (unat (rd s) + k)"
      using that mod_eq_dvd_iff_nat [of "unat (rd s) + k" "unat (rd s) + count s" size] by simp
    then have "size dvd count s - k" by simp
    then show False using that assms dvd_imp_le [of size "count s - k"] by simp
  qed
  then have "map (\<lambda>k. buf (put c s) ((unat (rd s) + k) mod size)) [0..<count s] = contents s"
    by (simp add: b contents_def)
  then show ?thesis by (simp add: contents_def count_put [OF assms] put_rd b)
qed

lemma bounded_put: "count s < size \<Longrightarrow> bounded (put c s)"
  by (simp add: bounded_def count_put)

lemma contents_get:
  assumes "0 < count s"
  shows "contents s = fst (get s) # contents (snd (get s))" "count (snd (get s)) = count s - 1"
proof -
  have "wr (snd (get s)) - rd (snd (get s)) = (wr s - rd s) - 1" by (simp add: get_rd get_wr)
  then show c: "count (snd (get s)) = count s - 1"
    using assms by (simp add: count_def unat_sub_if')
  have i: "(unat (rd s + 1) + k) mod size = (unat (rd s) + Suc k) mod size" for k
  proof -
    have "(unat (rd s + 1) + k) mod size = (unat (rd s + 1) mod size + k) mod size" by (simp add: mod_add_left_eq)
    also have "unat (rd s + 1) mod size = (unat (rd s) + 1) mod size" using wrap_index [of "rd s" 1] by simp
    also have "((unat (rd s) + 1) mod size + k) mod size = (unat (rd s) + 1 + k) mod size" by (rule mod_add_left_eq)
    finally show ?thesis by simp
  qed
  obtain n where n: "count s = Suc n" using assms by (cases "count s") auto
  have "contents s = buf s ((unat (rd s) + 0) mod size) # map (\<lambda>k. buf s ((unat (rd s) + Suc k) mod size)) [0..<n]"
    unfolding contents_def n by (rule map_upt_Suc)
  then show "contents s = fst (get s) # contents (snd (get s))"
    by (simp add: contents_def [of "snd (get s)"] c n get_buf get_rd get_val i)
qed

lemma bounded_get: "bounded s \<Longrightarrow> 0 < count s \<Longrightarrow> bounded (snd (get s))"
  using contents_get(2) by (simp add: bounded_def)

end

end
