(* ===== verification/Pipe.thy ===== *)
theory Pipe
  imports Ring Proc
begin

text \<open>
  \<^verbatim>\<open>kernel/pipe.c\<close>. A pipe is the page that \<^verbatim>\<open>kalloc\<close> returned for it, and its fields are kept in a map from
  page addresses to pipes. A reader or writer that sleeps stops with the channel and with the
  number of bytes it has transferred, and goes on from there when it is woken.
\<close>

section \<open>State\<close>

definition PIPESIZE :: nat where "PIPESIZE = 512"

record pipe =
  pdata :: "nat \<Rightarrow> u8"
  nread :: u32
  nwrite :: u32
  readopen :: bool
  writeopen :: bool

record pipesys =
  ptbl :: ptable
  pipes :: "u32 \<Rightarrow> pipe"

definition upd_pipe :: "u32 \<Rightarrow> (pipe \<Rightarrow> pipe) \<Rightarrow> pipesys \<Rightarrow> pipesys" where
  "upd_pipe a f s = s\<lparr>pipes := (pipes s)(a := f (pipes s a))\<rparr>"

definition pwakeup :: "nat \<Rightarrow> chan \<Rightarrow> pipesys \<Rightarrow> pipesys" where
  "pwakeup me ch s = s\<lparr>ptbl := wakeup (Some me) ch (ptbl s)\<rparr>"

definition psleep :: "nat \<Rightarrow> chan \<Rightarrow> pipesys \<Rightarrow> pipesys" where
  "psleep me ch s = s\<lparr>ptbl := sleep_on me ch (ptbl s)\<rparr>"

text \<open>The accesses to the ring buffer.\<close>

definition pipe_put :: "u8 \<Rightarrow> pipe \<Rightarrow> pipe" where
  "pipe_put ch pi = pi\<lparr>pdata := (pdata pi)(unat (nwrite pi) mod PIPESIZE := ch), nwrite := nwrite pi + 1\<rparr>"

definition pipe_get :: "pipe \<Rightarrow> u8 \<times> pipe" where
  "pipe_get pi = (pdata pi (unat (nread pi) mod PIPESIZE), pi\<lparr>nread := nread pi + 1\<rparr>)"

section \<open>Operations\<close>

definition pipe_init :: "pipe \<Rightarrow> pipe" where
  "pipe_init pi = pi\<lparr>readopen := True, writeopen := True, nwrite := 0, nread := 0\<rparr>"

definition pipeclose :: "ksyms \<Rightarrow> nat \<Rightarrow> u32 \<Rightarrow> bool \<Rightarrow> pipesys \<Rightarrow> pipesys res" where
  "pipeclose ks me a writable s =
    (let s = (if writable then pwakeup me (ChPipeRead a) (upd_pipe a (\<lambda>pi. pi\<lparr>writeopen := False\<rparr>) s)
              else pwakeup me (ChPipeWrite a) (upd_pipe a (\<lambda>pi. pi\<lparr>readopen := False\<rparr>) s))
     in if \<not> readopen (pipes s a) \<and> \<not> writeopen (pipes s a)
        then
          ebind (kfree (ksym_end ks) (mm (ptbl s)) a) (\<lambda>m. Inr (s\<lparr>ptbl := (ptbl s)\<lparr>mm := m\<rparr>\<rparr>))
        else Inr s)"

text \<open>
  \<^verbatim>\<open>pipewrite\<close> from its loop on, with \<^verbatim>\<open>i\<close> bytes already written; the results are the new
  \<^verbatim>\<open>i\<close> and whether the call returned or sleeps.
\<close>

function pipewrite_loop ::
  "nat \<Rightarrow> u32 \<Rightarrow> u32 \<Rightarrow> nat \<Rightarrow> nat \<Rightarrow> pipesys \<Rightarrow> (pipesys \<times> nat \<times> int progress) res" where
  "pipewrite_loop me a addr n i s =
    (if i < n
     then
       if \<not> readopen (pipes s a) \<or> killed (procs (ptbl s) me) then Inr (s, i, Return (- 1))
       else if nwrite (pipes s a) = nread (pipes s a) + of_nat PIPESIZE
       then Inr (psleep me (ChPipeWrite a) (pwakeup me (ChPipeRead a) s), i, Sleeps (ChPipeWrite a))
       else
         ebind (copyin_buf (mm (ptbl s)) (pagetable (procs (ptbl s) me)) (addr + of_nat i) 1) (\<lambda>(bs, r).
           if r = - 1 then Inr (pwakeup me (ChPipeRead a) s, i, Return (int i))
           else pipewrite_loop me a addr n (Suc i) (upd_pipe a (pipe_put (hd bs)) s))
     else Inr (pwakeup me (ChPipeRead a) s, i, Return (int i)))"
  by pat_completeness auto
termination
  by (relation "measure (\<lambda>(_, _, _, n, i, _). n - i)") auto

declare pipewrite_loop.simps [simp del]

definition pipewrite :: "nat \<Rightarrow> u32 \<Rightarrow> u32 \<Rightarrow> int \<Rightarrow> pipesys \<Rightarrow> (pipesys \<times> nat \<times> int progress) res" where
  "pipewrite me a addr n s = pipewrite_loop me a addr (nat n) 0 s"

text \<open>The copying loop of \<^verbatim>\<open>piperead\<close>.\<close>

function piperead_copy :: "nat \<Rightarrow> u32 \<Rightarrow> u32 \<Rightarrow> nat \<Rightarrow> nat \<Rightarrow> pipesys \<Rightarrow> (pipesys \<times> nat) res" where
  "piperead_copy me a addr n i s =
    (if i < n
     then
       if nread (pipes s a) = nwrite (pipes s a) then Inr (s, i)
       else
         let (ch, pi) = pipe_get (pipes s a); s = upd_pipe a (\<lambda>_. pi) s
         in ebind (copyout_buf (mm (ptbl s)) (pagetable (procs (ptbl s) me)) (addr + of_nat i) [ch]) (\<lambda>(m, r).
              let s = s\<lparr>ptbl := (ptbl s)\<lparr>mm := m\<rparr>\<rparr>
              in if r = - 1 then Inr (s, i) else piperead_copy me a addr n (Suc i) s)
     else Inr (s, i))"
  by pat_completeness auto
termination
  by (relation "measure (\<lambda>(_, _, _, n, i, _). n - i)") auto

declare piperead_copy.simps [simp del]

definition piperead :: "nat \<Rightarrow> u32 \<Rightarrow> u32 \<Rightarrow> int \<Rightarrow> pipesys \<Rightarrow> (pipesys \<times> int progress) res" where
  "piperead me a addr n s =
    (if nread (pipes s a) = nwrite (pipes s a) \<and> writeopen (pipes s a)
     then
       if killed (procs (ptbl s) me) then Inr (s, Return (- 1))
       else Inr (psleep me (ChPipeRead a) s, Sleeps (ChPipeRead a))
     else
       ebind (piperead_copy me a addr (nat n) 0 s) (\<lambda>(s, i).
         Inr (pwakeup me (ChPipeWrite a) s, Return (int i))))"

section \<open>A pipe is a bounded queue\<close>

interpretation pq: ring PIPESIZE pdata nread nwrite pipe_put pipe_get
  by unfold_locales (simp_all add: PIPESIZE_def pipe_put_def pipe_get_def)

text \<open>The bytes in the pipe, the oldest first.\<close>

definition pipe_contents :: "pipe \<Rightarrow> u8 list" where
  "pipe_contents pi =
    map (\<lambda>k. pdata pi ((unat (nread pi) + k) mod PIPESIZE)) [0..<unat (nwrite pi - nread pi)]"

lemma pipe_contents_ring: "pipe_contents = pq.contents"
  by (simp add: fun_eq_iff pipe_contents_def pq.contents_def pq.count_def)

lemma pipe_count: "length (pipe_contents pi) = pq.count pi"
  by (simp add: pipe_contents_ring)

lemma pipe_empty: "nread pi = nwrite pi \<longleftrightarrow> pipe_contents pi = []"
  using pq.empty_iff [of pi] pipe_count [of pi] by auto

lemma pipe_full: "nwrite pi = nread pi + of_nat PIPESIZE \<longleftrightarrow> length (pipe_contents pi) = PIPESIZE"
  using pq.full_iff [of pi] pipe_count [of pi] by simp

lemma upd_pipe_simps [simp]:
  "ptbl (upd_pipe a f s) = ptbl s" "pipes (upd_pipe a f s) = (pipes s)(a := f (pipes s a))"
  "pipes (pwakeup me ch s) = pipes s" "pipes (psleep me ch s) = pipes s"
  "ptbl (pwakeup me ch s) = wakeup (Some me) ch (ptbl s)" "ptbl (psleep me ch s) = sleep_on me ch (ptbl s)"
  by (simp_all add: upd_pipe_def pwakeup_def psleep_def)

text \<open>The byte of the user's memory that a writer reads, if the address is valid.\<close>

definition user_byte :: "ptable \<Rightarrow> nat \<Rightarrow> u32 \<Rightarrow> u8 \<Rightarrow> bool" where
  "user_byte t me a c \<longleftrightarrow> copyin_buf (mm t) (pagetable (procs t me)) a 1 = Inr ([c], 0)"

lemma copyin_one:
  obtains c where "copyin_buf (mm t) (pagetable (procs t me)) a 1 = Inr ([c], 0)" "user_byte t me a c"
  | bs where "copyin_buf (mm t) (pagetable (procs t me)) a 1 = Inr (bs, - 1)"
proof -
  obtain bs r where c: "copyin_buf (mm t) (pagetable (procs t me)) a 1 = Inr (bs, r)"
    "r = 0 \<and> length bs = 1 \<or> r = - 1" using copyin_buf_returns by blast
  then show thesis using that by (auto simp: user_byte_def length_Suc_conv)
qed

definition pipe_ok :: "pipe \<Rightarrow> bool" where
  "pipe_ok pi \<longleftrightarrow> length (pipe_contents pi) \<le> PIPESIZE"

lemma pipe_put_contents:
  assumes "pipe_ok pi" "nwrite pi \<noteq> nread pi + of_nat PIPESIZE"
  shows "pipe_contents (pipe_put c pi) = pipe_contents pi @ [c]" "pipe_ok (pipe_put c pi)"
proof -
  have "pq.count pi < PIPESIZE" using assms pipe_full [of pi] by (simp add: pipe_ok_def pipe_count)
  then show "pipe_contents (pipe_put c pi) = pipe_contents pi @ [c]" "pipe_ok (pipe_put c pi)"
    using pq.contents_put pq.bounded_put by (auto simp: pipe_contents_ring pipe_ok_def pq.bounded_def)
qed

lemma pipe_get_contents:
  assumes "nread pi \<noteq> nwrite pi"
  shows "pipe_contents pi = fst (pipe_get pi) # pipe_contents (snd (pipe_get pi))"
    "pipe_ok pi \<Longrightarrow> pipe_ok (snd (pipe_get pi))"
proof -
  have c: "0 < pq.count pi" using assms pq.empty_iff [of pi] by simp
  show "pipe_contents pi = fst (pipe_get pi) # pipe_contents (snd (pipe_get pi))"
    using pq.contents_get [OF c] by (simp add: pipe_contents_ring)
  show "pipe_ok pi \<Longrightarrow> pipe_ok (snd (pipe_get pi))"
    using pq.bounded_get [OF _ c] by (simp add: pipe_ok_def pipe_contents_ring pq.bounded_def)
qed

lemma pipe_put_open [simp]: "readopen (pipe_put c pi) = readopen pi" "writeopen (pipe_put c pi) = writeopen pi"
  by (simp_all add: pipe_put_def)

text \<open>What one run of \<^verbatim>\<open>pipewrite\<close> does, up to its return or its next \<^verbatim>\<open>sleep\<close>.\<close>

definition wrote_pipe ::
  "nat \<Rightarrow> u32 \<Rightarrow> u32 \<Rightarrow> nat \<Rightarrow> nat \<Rightarrow> pipesys \<Rightarrow> u8 list \<Rightarrow> pipesys \<Rightarrow> int progress \<Rightarrow> bool" where
  "wrote_pipe me a addr n i s bs s' r \<longleftrightarrow>
    i + length bs \<le> max i n \<and> pipe_ok (pipes s' a) \<and> pipe_contents (pipes s' a) = pipe_contents (pipes s a) @ bs \<and>
    (\<forall>k < length bs. user_byte (ptbl s) me (addr + of_nat (i + k)) (bs ! k)) \<and>
    (\<forall>b. b \<noteq> a \<longrightarrow> pipes s' b = pipes s b) \<and>
    readopen (pipes s' a) = readopen (pipes s a) \<and> writeopen (pipes s' a) = writeopen (pipes s a) \<and>
    (case r of
       Return v \<Rightarrow>
         v = - 1 \<and> bs = [] \<and> ptbl s' = ptbl s \<or>
         v = int (i + length bs) \<and> ptbl s' = wakeup (Some me) (ChPipeRead a) (ptbl s)
     | Sleeps ch \<Rightarrow>
         ch = ChPipeWrite a \<and> length (pipe_contents (pipes s' a)) = PIPESIZE \<and> i + length bs < n \<and>
         readopen (pipes s a) \<and>
         ptbl s' = sleep_on me (ChPipeWrite a) (wakeup (Some me) (ChPipeRead a) (ptbl s)))"

lemma wrote_pipe_Cons:
  assumes w: "wrote_pipe me a addr n (Suc i) (upd_pipe a (pipe_put c) s) bs s' r"
    and i: "i < n" "readopen (pipes s a)" "\<not> killed (procs (ptbl s) me)" "user_byte (ptbl s) me (addr + of_nat i) c"
    and ok: "pipe_ok (pipes s a)" "nwrite (pipes s a) \<noteq> nread (pipes s a) + of_nat PIPESIZE"
    and r: "r \<noteq> Return (- 1)"
  shows "wrote_pipe me a addr n i s (c # bs) s' r"
proof -
  have "user_byte (ptbl s) me (addr + of_nat (i + k)) ((c # bs) ! k)" if "k < length (c # bs)" for k
    using that i(4) w by (cases k) (auto simp: wrote_pipe_def add.assoc)
  moreover have "pipe_contents (pipes s' a) = pipe_contents (pipes s a) @ c # bs"
    using w pipe_put_contents(1) [OF ok] by (simp add: wrote_pipe_def)
  ultimately show ?thesis
    using w i r by (auto simp: wrote_pipe_def split: progress.splits)
qed

lemma pipewrite_loop_spec:
  assumes "pipe_ok (pipes s a)"
  shows "\<exists>bs s' r. pipewrite_loop me a addr n i s = Inr (s', i + length bs, r) \<and>
    wrote_pipe me a addr n i s bs s' r \<and>
    (r = Return (- 1) \<longrightarrow> \<not> readopen (pipes s a) \<or> killed (procs (ptbl s) me))"
  using assms
proof (induction me a addr n i s rule: pipewrite_loop.induct)
  case (1 me a addr n i s)
  let ?stop = "\<not> readopen (pipes s a) \<or> killed (procs (ptbl s) me)"
  let ?full = "nwrite (pipes s a) = nread (pipes s a) + of_nat PIPESIZE"
  consider "\<not> i < n" | "i < n" ?stop | "i < n" "\<not> ?stop" ?full | "i < n" "\<not> ?stop" "\<not> ?full" by blast
  then show ?case
  proof cases
    case 1
    then show ?thesis using "1.prems"
      by (subst pipewrite_loop.simps) (auto simp: wrote_pipe_def intro!: exI [of _ "[]"])
  next
    case 2
    then show ?thesis using "1.prems"
      by (subst pipewrite_loop.simps) (auto simp: wrote_pipe_def intro!: exI [of _ "[]"])
  next
    case 3
    then show ?thesis using "1.prems" pipe_full [of "pipes s a"]
      by (subst pipewrite_loop.simps) (auto simp: wrote_pipe_def intro!: exI [of _ "[]"])
  next
    case 4
    then have step: "pipewrite_loop me a addr n i s =
        ebind (copyin_buf (mm (ptbl s)) (pagetable (procs (ptbl s) me)) (addr + of_nat i) 1) (\<lambda>(bs, r).
           if r = - 1 then Inr (pwakeup me (ChPipeRead a) s, i, Return (int i))
           else pipewrite_loop me a addr n (Suc i) (upd_pipe a (pipe_put (hd bs)) s))"
      by (subst pipewrite_loop.simps) simp
    show ?thesis
    proof (rule copyin_one [of "ptbl s" me "addr + of_nat i"])
      fix c assume c: "copyin_buf (mm (ptbl s)) (pagetable (procs (ptbl s) me)) (addr + of_nat i) 1 = Inr ([c], 0)"
        "user_byte (ptbl s) me (addr + of_nat i) c"
      let ?s = "upd_pipe a (pipe_put c) s"
      have "pipe_ok (pipes ?s a)" using pipe_put_contents(2) "1.prems" 4(3) by simp
      then obtain bs s' r where r: "pipewrite_loop me a addr n (Suc i) ?s = Inr (s', Suc i + length bs, r)"
        "wrote_pipe me a addr n (Suc i) ?s bs s' r"
        "r = Return (- 1) \<longrightarrow> \<not> readopen (pipes ?s a) \<or> killed (procs (ptbl ?s) me)"
        using "1.IH" [OF 4(1) _ 4(3) c(1) refl] 4(2) by auto
      then have "r \<noteq> Return (- 1)" using 4(2) by auto
      then have "wrote_pipe me a addr n i s (c # bs) s' r"
        using wrote_pipe_Cons [OF r(2) 4(1)] 4(2,3) c(2) "1.prems" by simp
      then show ?thesis using step c(1) r(1) \<open>r \<noteq> Return (- 1)\<close> by (auto intro!: exI [of _ "c # bs"])
    next
      fix bs assume "copyin_buf (mm (ptbl s)) (pagetable (procs (ptbl s) me)) (addr + of_nat i) 1 = Inr (bs, - 1)"
      then show ?thesis using step "1.prems" 4(1) by (auto simp: wrote_pipe_def intro!: exI [of _ "[]"])
    qed
  qed
qed


text \<open>The bytes that a reader passes to \<^verbatim>\<open>copyout\<close>, one by one, up to the first failure.\<close>

fun deliver :: "kstate \<Rightarrow> u32 \<Rightarrow> u32 \<Rightarrow> nat \<Rightarrow> u8 list \<Rightarrow> (kstate \<times> nat) res" where
  "deliver m pt addr i [] = Inr (m, i)"
| "deliver m pt addr i (c # bs) =
    ebind (copyout_buf m pt (addr + of_nat i) [c]) (\<lambda>(m, r).
      if r = - 1 then Inr (m, i) else deliver m pt addr (Suc i) bs)"

lemma deliver_bounds: "deliver m pt addr i bs = Inr (m', k) \<Longrightarrow> i \<le> k \<and> k \<le> i + length bs"
proof (induction bs arbitrary: m i)
  case (Cons c bs)
  then show ?case by (fastforce split: if_splits)
qed simp

definition read_pipe :: "u32 \<Rightarrow> nat \<Rightarrow> nat \<Rightarrow> pipesys \<Rightarrow> kstate \<Rightarrow> pipesys \<Rightarrow> bool" where
  "read_pipe a taken k s m s' \<longleftrightarrow> taken \<le> length (pipe_contents (pipes s a)) \<and>
    pipe_contents (pipes s' a) = drop taken (pipe_contents (pipes s a)) \<and> pipe_ok (pipes s' a) \<and>
    (\<forall>b. b \<noteq> a \<longrightarrow> pipes s' b = pipes s b) \<and>
    readopen (pipes s' a) = readopen (pipes s a) \<and> writeopen (pipes s' a) = writeopen (pipes s a) \<and>
    ptbl s' = (ptbl s)\<lparr>mm := m\<rparr>"

lemma pipe_get_open [simp]:
  "readopen (snd (pipe_get pi)) = readopen pi" "writeopen (snd (pipe_get pi)) = writeopen pi"
  by (simp_all add: pipe_get_def)

lemma piperead_copy_spec:
  assumes "pipe_ok (pipes s a)"
  shows "\<exists>m k s'. deliver (mm (ptbl s)) (pagetable (procs (ptbl s) me)) addr i
      (take (n - i) (pipe_contents (pipes s a))) = Inr (m, k) \<and>
    piperead_copy me a addr n i s = Inr (s', k) \<and>
    read_pipe a (if k < i + length (take (n - i) (pipe_contents (pipes s a))) then Suc (k - i) else k - i) k s m s'"
  using assms
proof (induction "n - i" arbitrary: i s rule: less_induct)
  case less
  let ?pi = "pipes s a"
  show ?case
  proof (cases "i < n \<and> nread ?pi \<noteq> nwrite ?pi")
    case False
    then have "take (n - i) (pipe_contents ?pi) = []" using pipe_empty [of ?pi] by auto
    moreover have "piperead_copy me a addr n i s = Inr (s, i)"
      using False by (subst piperead_copy.simps) auto
    ultimately show ?thesis using less.prems by (auto simp: read_pipe_def)
  next
    case True
    let ?c = "fst (pipe_get ?pi)" and ?p1 = "snd (pipe_get ?pi)"
    let ?s = "upd_pipe a (\<lambda>_. ?p1) s"
    note g = pipe_get_contents [of ?pi]
    obtain m r where c: "copyout_buf (mm (ptbl s)) (pagetable (procs (ptbl s) me)) (addr + of_nat i) [?c] = Inr (m, r)"
      "r = 0 \<or> r = - 1" using copyout_buf_returns by blast
    let ?t = "?s\<lparr>ptbl := (ptbl s)\<lparr>mm := m\<rparr>\<rparr>"
    have e: "take (n - i) (pipe_contents ?pi) = ?c # take (n - Suc i) (pipe_contents ?p1)"
    proof -
      obtain l where "n - i = Suc l" "n - Suc i = l" using True by (cases "n - i") auto
      then show ?thesis using g(1) True by simp
    qed
    have step: "piperead_copy me a addr n i s =
        (if r = - 1 then Inr (?t, i) else piperead_copy me a addr n (Suc i) ?t)"
      using True c(1) by (subst piperead_copy.simps) (simp add: Let_def split_beta)
    have ok: "pipe_ok (pipes ?t a)" using g(2) True less.prems by simp
    show ?thesis
    proof (cases "r = - 1")
      case r: True
      have "read_pipe a 1 i s m ?t" using g(1) True ok by (auto simp: read_pipe_def)
      then show ?thesis using step r c(1) e by simp
    next
      case r: False
      have "\<exists>m' k s'. deliver (mm (ptbl ?t)) (pagetable (procs (ptbl ?t) me)) addr (Suc i)
          (take (n - Suc i) (pipe_contents (pipes ?t a))) = Inr (m', k) \<and>
        piperead_copy me a addr n (Suc i) ?t = Inr (s', k) \<and>
        read_pipe a (if k < Suc i + length (take (n - Suc i) (pipe_contents (pipes ?t a)))
          then Suc (k - Suc i) else k - Suc i) k ?t m' s'"
        by (rule less.hyps) (use True ok in auto)
      then obtain m' k s' where h: "deliver m (pagetable (procs (ptbl s) me)) addr (Suc i)
          (take (n - Suc i) (pipe_contents ?p1)) = Inr (m', k)"
        "piperead_copy me a addr n (Suc i) ?t = Inr (s', k)"
        "read_pipe a (if k < Suc i + length (take (n - Suc i) (pipe_contents ?p1))
          then Suc (k - Suc i) else k - Suc i) k ?t m' s'" by auto
      have k: "Suc i \<le> k" using deliver_bounds [OF h(1)] by simp
      let ?l = "length (take (n - Suc i) (pipe_contents ?p1))"
      have "read_pipe a (if k < i + length (take (n - i) (pipe_contents ?pi)) then Suc (k - i) else k - i) k s m' s'"
      proof -
        have "(if k < i + Suc ?l then Suc (k - i) else k - i) = Suc (if k < Suc i + ?l then Suc (k - Suc i) else k - Suc i)"
          using k by auto
        then show ?thesis using h(3) g(1) True unfolding e by (auto simp: read_pipe_def)
      qed
      then show ?thesis using step r c(1) h(1,2) e by auto
    qed
  qed
qed


section \<open>Sleepers\<close>

definition asleep :: "ptable \<Rightarrow> chan \<Rightarrow> nat \<Rightarrow> bool" where
  "asleep t ch p \<longleftrightarrow> p < NPROC \<and> pstate (procs t p) = SLEEPING \<and> pchan (procs t p) = ch"

lemma asleep_wakeup:
  "asleep (wakeup (Some me) ch t) ch' p \<longleftrightarrow> asleep t ch' p \<and> (ch' = ch \<longrightarrow> p = me)"
  by (auto simp: asleep_def wakeup_def Let_def)

lemma asleep_sleep_on:
  "asleep (sleep_on me ch t) ch' p \<longleftrightarrow> (if p = me then p < NPROC \<and> ch' = ch else asleep t ch' p)"
  by (auto simp: asleep_def sleep_on_def upd_proc_def)

lemma asleep_mm [simp]: "asleep (t\<lparr>mm := m\<rparr>) ch p = asleep t ch p"
  by (simp add: asleep_def)

text \<open>
  Steps of the threads that use the pipe at address \<open>a\<close>: a running process writes (or goes on writing after it
  was woken), reads, or closes an end; and anything else that leaves the pipe alone and puts no
  process to sleep on it.
\<close>

inductive pipe_step :: "u32 \<Rightarrow> pipesys \<Rightarrow> pipesys \<Rightarrow> bool" for a :: u32 where
  step_write: "pstate (procs (ptbl s) me) = RUNNING \<Longrightarrow> pipewrite_loop me a addr n i s = Inr (s', i', r) \<Longrightarrow>
    pipe_step a s s'"
| step_read: "pstate (procs (ptbl s) me) = RUNNING \<Longrightarrow> piperead me a addr n s = Inr (s', r) \<Longrightarrow> pipe_step a s s'"
| step_close: "pstate (procs (ptbl s) me) = RUNNING \<Longrightarrow> pipeclose ks me a w s = Inr s' \<Longrightarrow> pipe_step a s s'"
| step_other: "pipes s' a = pipes s a \<Longrightarrow>
    (\<And>p ch. ch \<in> {ChPipeRead a, ChPipeWrite a} \<Longrightarrow> asleep (ptbl s') ch p \<Longrightarrow> asleep (ptbl s) ch p) \<Longrightarrow> pipe_step a s s'"

definition pipe_inv :: "u32 \<Rightarrow> pipesys \<Rightarrow> bool" where
  "pipe_inv a s \<longleftrightarrow> pipe_ok (pipes s a) \<and>
    (\<forall>p. asleep (ptbl s) (ChPipeRead a) p \<longrightarrow> pipe_contents (pipes s a) = [] \<and> writeopen (pipes s a)) \<and>
    (\<forall>p. asleep (ptbl s) (ChPipeWrite a) p \<longrightarrow>
      length (pipe_contents (pipes s a)) = PIPESIZE \<and> readopen (pipes s a))"

lemma pipe_invD:
  assumes "pipe_inv a s"
  shows "pipe_ok (pipes s a)"
    "asleep (ptbl s) (ChPipeRead a) p \<Longrightarrow> pipe_contents (pipes s a) = [] \<and> writeopen (pipes s a)"
    "asleep (ptbl s) (ChPipeWrite a) p \<Longrightarrow> length (pipe_contents (pipes s a)) = PIPESIZE \<and> readopen (pipes s a)"
  using assms by (auto simp: pipe_inv_def)

lemma running_awake: "pstate (procs t p) = RUNNING \<Longrightarrow> \<not> asleep t ch p"
  by (simp add: asleep_def)

lemma pipe_inv_write:
  assumes inv: "pipe_inv a s" and me: "pstate (procs (ptbl s) me) = RUNNING"
    and w: "pipewrite_loop me a addr n i s = Inr (s', i', r)"
  shows "pipe_inv a s'"
proof -
  note I = pipe_invD [OF inv]
  obtain bs where p: "wrote_pipe me a addr n i s bs s' r" using pipewrite_loop_spec [OF I(1), of me addr n i] w by auto
  have c: "pipe_contents (pipes s' a) = pipe_contents (pipes s a) @ bs" "pipe_ok (pipes s' a)"
    "readopen (pipes s' a) = readopen (pipes s a)" "writeopen (pipes s' a) = writeopen (pipes s a)"
    using p by (auto simp: wrote_pipe_def)
  have full: "length (pipe_contents (pipes s' a)) = PIPESIZE \<and> readopen (pipes s' a)"
    if "asleep (ptbl s) (ChPipeWrite a) q" for q
    using I(3) [OF that] c by (auto simp: pipe_ok_def)
  show ?thesis
  proof (cases "\<exists>v. r = Return v \<and> bs = [] \<and> ptbl s' = ptbl s")
    case True
    then show ?thesis using I c by (auto simp: pipe_inv_def)
  next
    case False
    then have t: "ptbl s' = wakeup (Some me) (ChPipeRead a) (ptbl s) \<or>
      ptbl s' = sleep_on me (ChPipeWrite a) (wakeup (Some me) (ChPipeRead a) (ptbl s)) \<and>
        length (pipe_contents (pipes s' a)) = PIPESIZE \<and> readopen (pipes s a)"
      using p by (auto simp: wrote_pipe_def split: progress.splits)
    have "\<not> asleep (ptbl s') (ChPipeRead a) q" for q
      using t running_awake [OF me] by (auto simp: asleep_wakeup asleep_sleep_on split: if_splits)
    moreover have "length (pipe_contents (pipes s' a)) = PIPESIZE \<and> readopen (pipes s' a)"
      if "asleep (ptbl s') (ChPipeWrite a) q" for q
      using t that full [of q] c(3) by (auto simp: asleep_wakeup asleep_sleep_on split: if_splits)
    ultimately show ?thesis using c(2) by (simp add: pipe_inv_def)
  qed
qed

lemma pipe_inv_read:
  assumes inv: "pipe_inv a s" and me: "pstate (procs (ptbl s) me) = RUNNING"
    and r: "piperead me a addr n s = Inr (s', r)"
  shows "pipe_inv a s'"
proof -
  note I = pipe_invD [OF inv]
  show ?thesis
  proof (cases "nread (pipes s a) = nwrite (pipes s a) \<and> writeopen (pipes s a)")
    case True
    have "asleep (ptbl s') ch q \<longrightarrow> asleep (ptbl s) ch q \<or> ch = ChPipeRead a" "pipes s' = pipes s" for ch q
      using r True by (auto simp: piperead_def asleep_sleep_on split: if_splits)
    then show ?thesis using I True pipe_empty [of "pipes s a"] unfolding pipe_inv_def by (metis chan.distinct chan.inject)
  next
    case False
    obtain m k t where p: "piperead_copy me a addr (nat n) 0 s = Inr (t, k)" "\<exists>j. read_pipe a j k s m t"
      using piperead_copy_spec [OF I(1), of me addr 0 "nat n"] by blast
    have s': "s' = pwakeup me (ChPipeWrite a) t" using r False p(1) by (simp add: piperead_def)
    have c: "pipe_ok (pipes s' a)" "writeopen (pipes s' a) = writeopen (pipes s a)"
      "ptbl s' = wakeup (Some me) (ChPipeWrite a) ((ptbl s)\<lparr>mm := m\<rparr>)"
      "\<exists>j. pipe_contents (pipes s' a) = drop j (pipe_contents (pipes s a))"
      using p(2) s' by (auto simp: read_pipe_def)
    have "\<not> asleep (ptbl s') (ChPipeWrite a) q" for q
      using c(3) running_awake [OF me] by (auto simp: asleep_wakeup)
    moreover have "pipe_contents (pipes s' a) = [] \<and> writeopen (pipes s' a)" if "asleep (ptbl s') (ChPipeRead a) q" for q
      using I(2) [of q] that c(2-4) by (auto simp: asleep_wakeup)
    ultimately show ?thesis using c(1) by (simp add: pipe_inv_def)
  qed
qed

lemma pipe_inv_close:
  assumes inv: "pipe_inv a s" and me: "pstate (procs (ptbl s) me) = RUNNING"
    and r: "pipeclose ks me a w s = Inr s'"
  shows "pipe_inv a s'"
proof -
  note I = pipe_invD [OF inv]
  have c: "pipe_contents (pipes s' a) = pipe_contents (pipes s a)"
    "readopen (pipes s' a) = (w \<and> readopen (pipes s a))" "writeopen (pipes s' a) = (\<not> w \<and> writeopen (pipes s a))"
    "\<exists>m. ptbl s' = (wakeup (Some me) (if w then ChPipeRead a else ChPipeWrite a) (ptbl s))\<lparr>mm := m\<rparr>"
    using r by (auto simp: pipeclose_def Let_def pipe_contents_def split: if_splits)
      (metis asleep_mm ptable.surjective ptable.update_convs(1))+
  then have "asleep (ptbl s') ch q \<longleftrightarrow> asleep (ptbl s) ch q \<and> (ch = (if w then ChPipeRead a else ChPipeWrite a) \<longrightarrow> q = me)" for ch q
    by (auto simp: asleep_wakeup)
  then show ?thesis using I c(1-3) running_awake [OF me] by (auto simp: pipe_inv_def pipe_ok_def)
qed

lemma pipe_inv_steps: "(pipe_step a)\<^sup>*\<^sup>* s s' \<Longrightarrow> pipe_inv a s \<Longrightarrow> pipe_inv a s'"
proof (induction rule: rtranclp_induct)
  case (step s1 s2)
  from step.hyps(2) step.IH [OF step.prems] show ?case
  proof cases
    case step_other
    then show ?thesis using step.IH [OF step.prems] by (auto simp: pipe_inv_def)
  qed (auto intro: pipe_inv_write pipe_inv_read pipe_inv_close)
qed simp


section \<open>Properties\<close>

text \<open>C19: \<^verbatim>\<open>pipewrite\<close> refines appending to a queue of at most 512 bytes. It always returns or sleeps; the bytes it
  has transferred are bytes of the caller's memory, in order, and exactly they are appended to the pipe. It
  returns their number, or -1 before it has transferred any, and it sleeps only when the pipe is full and
  bytes are left to write. The indices may wrap around.\<close>

theorem pipewrite_appends:
  assumes "pipe_ok (pipes s a)"
  shows "\<exists>bs s' r. pipewrite me a addr n s = Inr (s', length bs, r) \<and> length bs \<le> nat n \<and>
    pipe_contents (pipes s' a) = pipe_contents (pipes s a) @ bs \<and> pipe_ok (pipes s' a) \<and>
    (\<forall>k < length bs. user_byte (ptbl s) me (addr + of_nat k) (bs ! k)) \<and>
    (case r of
       Return v \<Rightarrow> v = - 1 \<and> bs = [] \<or> v = int (length bs)
     | Sleeps ch \<Rightarrow> ch = ChPipeWrite a \<and> length (pipe_contents (pipes s' a)) = PIPESIZE \<and> int (length bs) < n)"
proof -
  obtain bs s' r where w: "pipewrite_loop me a addr (nat n) 0 s = Inr (s', length bs, r)"
    "wrote_pipe me a addr (nat n) 0 s bs s' r"
    using pipewrite_loop_spec [OF assms, of me addr "nat n" 0] by auto
  have "case r of
       Return v \<Rightarrow> v = - 1 \<and> bs = [] \<or> v = int (length bs)
     | Sleeps ch \<Rightarrow> ch = ChPipeWrite a \<and> length (pipe_contents (pipes s' a)) = PIPESIZE \<and> int (length bs) < n"
    using w(2) by (auto simp: wrote_pipe_def split: progress.splits)
  then show ?thesis using w by (auto simp: pipewrite_def wrote_pipe_def intro!: exI [of _ bs] exI [of _ s'])
qed

definition empty_pipe :: pipe where
  "empty_pipe = \<lparr>pdata = (\<lambda>_. 0), nread = - 1, nwrite = - 1, readopen = True, writeopen = True\<rparr>"

definition pipe_example :: pipesys where
  "pipe_example = \<lparr>ptbl = undefined\<lparr>procs := (\<lambda>_. undefined\<lparr>pstate := RUNNING, killed := False\<rparr>)\<rparr>,
    pipes = (\<lambda>_. empty_pipe)\<rparr>"

lemma empty_pipe_ok: "pipe_ok (pipes pipe_example a)" "pipe_contents (pipes pipe_example a) = []"
  by (simp_all add: pipe_ok_def pipe_contents_def empty_pipe_def pipe_example_def)

theorem pipewrite_appends_witness:
  "\<exists>bs s' r. pipewrite 3 0x80001000 0 2 pipe_example = Inr (s', length bs, r) \<and> length bs \<le> 2 \<and>
    pipe_contents (pipes s' 0x80001000) = bs"
  using pipewrite_appends [OF empty_pipe_ok(1), of 3 "0x80001000" 0 2] empty_pipe_ok(2) by auto

text \<open>C20: \<^verbatim>\<open>piperead\<close> refines taking bytes from the front of the queue. It sleeps exactly when the pipe is empty
  and its write end is open (and the process is not killed); otherwise it returns the number \<open>k\<close> of
  bytes that it has copied out, which are the first ones of the queue in order, and they are removed
  from it. If a copy fails, the byte that could not be copied is removed as well.\<close>

theorem piperead_takes:
  assumes "pipe_ok (pipes s a)"
  shows "if pipe_contents (pipes s a) = [] \<and> writeopen (pipes s a)
    then if killed (procs (ptbl s) me) then piperead me a addr n s = Inr (s, Return (- 1))
      else piperead me a addr n s = Inr (psleep me (ChPipeRead a) s, Sleeps (ChPipeRead a))
    else \<exists>m k s'. piperead me a addr n s = Inr (s', Return (int k)) \<and>
      deliver (mm (ptbl s)) (pagetable (procs (ptbl s) me)) addr 0 (take (nat n) (pipe_contents (pipes s a))) = Inr (m, k) \<and>
      mm (ptbl s') = m \<and> k \<le> min (nat n) (length (pipe_contents (pipes s a))) \<and>
      pipe_contents (pipes s' a) =
        drop (if k < min (nat n) (length (pipe_contents (pipes s a))) then Suc k else k) (pipe_contents (pipes s a))"
proof (cases "pipe_contents (pipes s a) = [] \<and> writeopen (pipes s a)")
  case True
  then show ?thesis using pipe_empty [of "pipes s a"] by (simp add: piperead_def)
next
  case False
  obtain m k t where p: "deliver (mm (ptbl s)) (pagetable (procs (ptbl s) me)) addr 0
      (take (nat n) (pipe_contents (pipes s a))) = Inr (m, k)"
    "piperead_copy me a addr (nat n) 0 s = Inr (t, k)"
    "read_pipe a (if k < min (nat n) (length (pipe_contents (pipes s a))) then Suc k else k) k s m t"
    using piperead_copy_spec [OF assms, of me addr 0 "nat n"] by (auto simp: min.commute cong: if_cong)
  have "piperead me a addr n s = Inr (pwakeup me (ChPipeWrite a) t, Return (int k))"
    using p(2) False pipe_empty [of "pipes s a"] by (auto simp: piperead_def)
  moreover have "k \<le> min (nat n) (length (pipe_contents (pipes s a)))" using deliver_bounds [OF p(1)] by simp
  ultimately show ?thesis using False p(1,3) by (auto simp: read_pipe_def wakeup_def)
qed

theorem piperead_takes_witness:
  "piperead 3 0x80001000 0 2 pipe_example =
    Inr (psleep 3 (ChPipeRead 0x80001000) pipe_example, Sleeps (ChPipeRead 0x80001000))"
proof -
  have "writeopen (pipes pipe_example 0x80001000)" "\<not> killed (procs (ptbl pipe_example) 3)"
    by (simp_all add: pipe_example_def empty_pipe_def)
  then show ?thesis
    using piperead_takes [OF empty_pipe_ok(1), of "0x80001000" 3 0 2] empty_pipe_ok(2) by simp
qed

text \<open>C18: No wakeup is lost. Whatever the interleaving of the threads that write to a pipe, read from it and
  close its ends: as long as a process sleeps for data, the pipe is empty and can still be written,
  and as long as a process sleeps for room, the pipe is full and can still be read. So a sleeper never has
  anything to do, and whoever makes it possible to go on wakes it.\<close>

theorem pipe_no_lost_wakeup:
  assumes "(pipe_step a)\<^sup>*\<^sup>* s0 s"
    and "pipe_contents (pipes s0 a) = []" and "\<And>p ch. \<not> asleep (ptbl s0) ch p"
  shows "(asleep (ptbl s) (ChPipeRead a) p \<longrightarrow> pipe_contents (pipes s a) = [] \<and> writeopen (pipes s a)) \<and>
    (asleep (ptbl s) (ChPipeWrite a) p \<longrightarrow>
      length (pipe_contents (pipes s a)) = PIPESIZE \<and> readopen (pipes s a))"
proof -
  have "pipe_inv a s0" using assms(2,3) by (simp add: pipe_inv_def pipe_ok_def)
  then show ?thesis using pipe_inv_steps [OF assms(1)] by (auto simp: pipe_inv_def)
qed

theorem pipe_no_lost_wakeup_witness:
  "\<exists>s. (pipe_step 0x80001000)\<^sup>*\<^sup>* pipe_example s \<and> asleep (ptbl s) (ChPipeRead 0x80001000) 3 \<and>
    writeopen (pipes s 0x80001000)"
proof -
  let ?s = "psleep 3 (ChPipeRead 0x80001000) pipe_example"
  have "piperead 3 0x80001000 0 2 pipe_example = Inr (?s, Sleeps (ChPipeRead 0x80001000))"
    by (simp add: piperead_def pipe_example_def empty_pipe_def)
  then have st: "(pipe_step 0x80001000)\<^sup>*\<^sup>* pipe_example ?s"
    by (intro r_into_rtranclp step_read [of _ 3]) (auto simp: pipe_example_def)
  have "asleep (ptbl ?s) (ChPipeRead 0x80001000) 3" by (simp add: asleep_sleep_on NPROC_def)
  moreover have "\<not> asleep (ptbl pipe_example) ch p" for ch p by (simp add: asleep_def pipe_example_def)
  ultimately show ?thesis using pipe_no_lost_wakeup [OF st empty_pipe_ok(2)] st by blast
qed

end
