(* ===== verification/Uart.thy ===== *)
theory Uart
  imports Ring Proc
begin

text \<open>
  \<^verbatim>\<open>kernel/uart.c\<close>: the driver of the 16550 serial port. The device is seen through its registers: a write to
  \<^verbatim>\<open>THR\<close> is recorded in \<open>sent\<close>, and the answers of the status register are arguments, the number of times that it
  reports room for a byte before it reports none.
\<close>

section \<open>State\<close>

definition UART_TX_BUF_SIZE :: nat where "UART_TX_BUF_SIZE = 32"

record uart =
  tx_buf :: "nat \<Rightarrow> u8"
  tx_w :: u32
  tx_r :: u32
  sent :: "u8 list"
  regs :: "(nat \<times> u8) list"

record consys_uart =
  ctbl :: ptable
  uart :: uart
  panicked :: bool

section \<open>Registers\<close>

definition IER :: nat where "IER = 1"
definition FCR :: nat where "FCR = 2"
definition LCR :: nat where "LCR = 3"

text \<open>\<^verbatim>\<open>uartinit\<close>: the writes to the control registers, in order.\<close>

definition uartinit :: "uart \<Rightarrow> uart" where
  "uartinit u =
    u\<lparr>regs := regs u @ [(IER, 0x00), (LCR, 0x80), (0, 0x03), (1, 0x00), (LCR, 0x03), (FCR, 0x07), (IER, 0x03)]\<rparr>"

section \<open>Output\<close>

definition uart_put :: "u8 \<Rightarrow> uart \<Rightarrow> uart" where
  "uart_put c u = u\<lparr>tx_buf := (tx_buf u)(unat (tx_w u) mod UART_TX_BUF_SIZE := c), tx_w := tx_w u + 1\<rparr>"

definition uart_get :: "uart \<Rightarrow> u8 \<times> uart" where
  "uart_get u = (tx_buf u (unat (tx_r u) mod UART_TX_BUF_SIZE), u\<lparr>tx_r := tx_r u + 1\<rparr>)"

text \<open>\<open>me\<close> is \<^verbatim>\<open>myproc()\<close>, if a process is running; \<open>room\<close> as above.\<close>

fun uartstart :: "nat option \<Rightarrow> nat \<Rightarrow> 'a consys_uart_scheme \<Rightarrow> 'a consys_uart_scheme" where
  "uartstart me 0 s = s"
| "uartstart me (Suc room) s =
    (if tx_w (uart s) = tx_r (uart s) then s
     else
       let (c, u) = uart_get (uart s);
           s = s\<lparr>uart := u, ctbl := wakeup me ChUart (ctbl s)\<rparr>
       in uartstart me room (s\<lparr>uart := u\<lparr>sent := sent u @ [c]\<rparr>\<rparr>))"

definition uartputc :: "nat \<Rightarrow> nat \<Rightarrow> u8 \<Rightarrow> 'a consys_uart_scheme \<Rightarrow> ('a consys_uart_scheme \<times> unit progress) res" where
  "uartputc me room c s =
    (if panicked s then Inl Diverges
     else if tx_w (uart s) = tx_r (uart s) + of_nat UART_TX_BUF_SIZE
     then Inr (s\<lparr>ctbl := sleep_on me ChUart (ctbl s)\<rparr>, Sleeps ChUart)
     else Inr (uartstart (Some me) room (s\<lparr>uart := uart_put c (uart s)\<rparr>), Return ()))"

text \<open>\<^verbatim>\<open>uartputc_sync\<close>: the device takes the byte in the end.\<close>

definition uartputc_sync :: "u8 \<Rightarrow> 'a consys_uart_scheme \<Rightarrow> 'a consys_uart_scheme res" where
  "uartputc_sync c s =
    (if panicked s then Inl Diverges else Inr (s\<lparr>uart := (uart s)\<lparr>sent := sent (uart s) @ [c]\<rparr>\<rparr>))"

section \<open>Input\<close>

text \<open>\<^verbatim>\<open>uartgetc\<close> on the bytes that wait in the receiver; -1 if there is none.\<close>

definition uartgetc :: "u8 list \<Rightarrow> int \<times> u8 list" where
  "uartgetc rx = (case rx of [] \<Rightarrow> (- 1, []) | c # rx \<Rightarrow> (uint c, rx))"

section \<open>The transmit buffer is a queue\<close>

interpretation uq: ring UART_TX_BUF_SIZE tx_buf tx_r tx_w uart_put uart_get
  by unfold_locales (simp_all add: UART_TX_BUF_SIZE_def uart_put_def uart_get_def)

definition tx_queue :: "uart \<Rightarrow> u8 list" where
  "tx_queue u = map (\<lambda>k. tx_buf u ((unat (tx_r u) + k) mod UART_TX_BUF_SIZE)) [0..<unat (tx_w u - tx_r u)]"

lemma tx_queue_ring: "tx_queue = uq.contents"
  by (simp add: fun_eq_iff tx_queue_def uq.contents_def uq.count_def)

lemma tx_queue_cong: "tx_buf u = tx_buf v \<Longrightarrow> tx_r u = tx_r v \<Longrightarrow> tx_w u = tx_w v \<Longrightarrow> tx_queue u = tx_queue v"
  by (simp add: tx_queue_def)

lemma tx_count: "uq.count u = length (tx_queue u)"
  by (simp add: tx_queue_ring)

lemma uartstart_queue:
  "tx_queue (uart s) = take room (tx_queue (uart s)) @ tx_queue (uart (uartstart me room s)) \<and>
    sent (uart (uartstart me room s)) = sent (uart s) @ take room (tx_queue (uart s)) \<and>
    panicked (uartstart me room s) = panicked s"
proof (induction me room s rule: uartstart.induct)
  case (2 me room s)
  show ?case
  proof (cases "tx_w (uart s) = tx_r (uart s)")
    case True
    then have "tx_queue (uart s) = []" by (simp add: tx_queue_def)
    then show ?thesis using True by simp
  next
    case False
    obtain c u where g: "uart_get (uart s) = (c, u)" by fastforce
    have "0 < uq.count (uart s)" using False uq.empty_iff [of "uart s"] by auto
    from uq.contents_get(1) [OF this] have q: "tx_queue (uart s) = c # tx_queue u" by (simp add: tx_queue_ring g)
    have su: "sent u = sent (uart s)" using g by (auto simp: uart_get_def)
    let ?s = "s\<lparr>ctbl := wakeup me ChUart (ctbl s), uart := u\<lparr>sent := sent u @ [c]\<rparr>\<rparr>"
    have "tx_queue (u\<lparr>sent := sent u @ [c]\<rparr>) = tx_queue u" by (rule tx_queue_cong) simp_all
    moreover have "uartstart me (Suc room) s = uartstart me room ?s" using False g by (simp add: Let_def)
    moreover have "tx_queue (uart ?s) = take room (tx_queue (uart ?s)) @ tx_queue (uart (uartstart me room ?s)) \<and>
        sent (uart (uartstart me room ?s)) = sent (uart ?s) @ take room (tx_queue (uart ?s)) \<and>
        panicked (uartstart me room ?s) = panicked ?s"
      using 2 [OF False g [symmetric] refl refl] by simp
    ultimately show ?thesis using q su by (simp del: uartstart.simps)
  qed
qed simp

lemma uart_put_queue:
  assumes "length (tx_queue u) < UART_TX_BUF_SIZE"
  shows "tx_queue (uart_put c u) = tx_queue u @ [c]" "sent (uart_put c u) = sent u"
  using uq.contents_put [of u c] assms by (simp_all only: tx_count [symmetric]) (simp_all add: tx_queue_ring uart_put_def)

lemma tx_full: "tx_w u = tx_r u + of_nat UART_TX_BUF_SIZE \<longleftrightarrow> length (tx_queue u) = UART_TX_BUF_SIZE"
  using uq.full_iff [of u] by (simp add: tx_count)

section \<open>Properties\<close>

text \<open>C33: Output order. The bytes that \<^verbatim>\<open>uartputc\<close> accepts reach the device in the order in which they were
  accepted, none of them is lost, duplicated or overtaken, whatever the device's speed: the bytes sent followed by
  those waiting grow by exactly the new byte. It sleeps, changing nothing but the process, exactly
  when 32 bytes are waiting. \<^verbatim>\<open>uartstart\<close> moves bytes from the front of the buffer to the device.\<close>

theorem uart_output_order:
  assumes "length (tx_queue (uart s)) \<le> UART_TX_BUF_SIZE" and "\<not> panicked s"
  shows "(\<forall>room. \<exists>s' r. uartputc me room c s = Inr (s', r) \<and> length (tx_queue (uart s')) \<le> UART_TX_BUF_SIZE \<and>
      (if length (tx_queue (uart s)) = UART_TX_BUF_SIZE then r = Sleeps ChUart \<and> uart s' = uart s
       else r = Return () \<and> sent (uart s') @ tx_queue (uart s') = sent (uart s) @ tx_queue (uart s) @ [c])) \<and>
    (\<forall>room who. sent (uart (uartstart who room s)) @ tx_queue (uart (uartstart who room s)) =
      sent (uart s) @ tx_queue (uart s) \<and>
      sent (uart (uartstart who room s)) = sent (uart s) @ take room (tx_queue (uart s)))"
proof (intro conjI allI)
  fix room
  let ?s = "s\<lparr>uart := uart_put c (uart s)\<rparr>"
  show "\<exists>s' r. uartputc me room c s = Inr (s', r) \<and> length (tx_queue (uart s')) \<le> UART_TX_BUF_SIZE \<and>
      (if length (tx_queue (uart s)) = UART_TX_BUF_SIZE then r = Sleeps ChUart \<and> uart s' = uart s
       else r = Return () \<and> sent (uart s') @ tx_queue (uart s') = sent (uart s) @ tx_queue (uart s) @ [c])"
  proof (cases "length (tx_queue (uart s)) = UART_TX_BUF_SIZE")
    case True
    then show ?thesis using assms by (simp add: uartputc_def tx_full)
  next
    case False
    then have p: "tx_queue (uart ?s) = tx_queue (uart s) @ [c]" "sent (uart ?s) = sent (uart s)"
      using uart_put_queue assms(1) by simp_all
    note st = uartstart_queue [of ?s room "Some me"]
    have "length (tx_queue (uart (uartstart (Some me) room ?s))) \<le> length (tx_queue (uart ?s))"
      using arg_cong [OF conjunct1 [OF st], of length] by simp
    moreover have "length (tx_queue (uart ?s)) \<le> UART_TX_BUF_SIZE" using p(1) False assms(1) by simp
    moreover have "uartputc me room c s = Inr (uartstart (Some me) room ?s, Return ())"
      using False assms(2) by (simp add: uartputc_def tx_full)
    moreover have "sent (uart (uartstart (Some me) room ?s)) @ tx_queue (uart (uartstart (Some me) room ?s)) =
        sent (uart ?s) @ tx_queue (uart ?s)"
      using st by (metis append_assoc)
    ultimately show ?thesis using p False by simp
  qed
next
  fix room who
  show "sent (uart (uartstart who room s)) @ tx_queue (uart (uartstart who room s)) = sent (uart s) @ tx_queue (uart s)"
    "sent (uart (uartstart who room s)) = sent (uart s) @ take room (tx_queue (uart s))"
    using uartstart_queue [of s room who] append_assoc by (metis, simp)
qed

theorem uart_output_order_witness:
  "\<exists>s' r. uartputc 3 1 65 (undefined\<lparr>uart := \<lparr>tx_buf = (\<lambda>_. 66), tx_w = 0, tx_r = - 2, sent = [], regs = []\<rparr>,
      panicked := False\<rparr> :: consys_uart) = Inr (s', r) \<and> r = Return () \<and> sent (uart s') @ tx_queue (uart s') = [66, 66, 65]"
proof -
  define s :: consys_uart where "s = undefined\<lparr>uart := \<lparr>tx_buf = (\<lambda>_. 66), tx_w = 0, tx_r = - 2, sent = [], regs = []\<rparr>,
      panicked := False\<rparr>"
  have q: "tx_queue (uart s) = [66, 66]" by (simp add: s_def tx_queue_def upt_rec)
  have "\<not> panicked s" "sent (uart s) = []" by (simp_all add: s_def)
  then show ?thesis
    using uart_output_order [of s 3 65] q unfolding s_def [symmetric] UART_TX_BUF_SIZE_def by auto
qed

end
