(* ===== verification/Printf.thy ===== *)
theory Printf
  imports Prelude
begin

text \<open>
  \<^verbatim>\<open>kernel/printf.c\<close>: the formatted output of the kernel, as the list of the characters that it passes to
  \<^verbatim>\<open>consputc\<close>.
\<close>

section \<open>Numbers\<close>

definition digits :: "nat \<Rightarrow> u8" where
  "digits d = (if d < 10 then of_nat (48 + d) else of_nat (87 + d))"

text \<open>The loop of \<^verbatim>\<open>printint\<close> that fills \<^verbatim>\<open>buf\<close>, the least significant digit first.\<close>

function rdigits :: "nat \<Rightarrow> nat \<Rightarrow> u8 list" where
  "rdigits base x =
    (if base < 2 then []
     else digits (x mod base) # (if x div base = 0 then [] else rdigits base (x div base)))"
  by pat_completeness auto
termination
  by (relation "measure snd") (auto simp: div_eq_0_iff not_less intro!: div_less_dividend)

declare rdigits.simps [simp del]

definition printint :: "u32 \<Rightarrow> nat \<Rightarrow> bool \<Rightarrow> u8 list" where
  "printint xx base sign =
    (let neg = (sign \<and> sint xx < 0);
         x = (if neg then - xx else xx);
         buf = rdigits base (unat x);
         buf = (if neg then buf @ [45] else buf)
     in rev buf)"

definition printptr :: "u32 \<Rightarrow> u8 list" where
  "printptr x = [48, 120] @ map (\<lambda>i. digits (unat (drop_bit 28 (push_bit (4 * i) x)))) [0..<8]"

section \<open>Formats\<close>

text \<open>The variadic arguments; \<^term>\<open>None\<close> is a null string pointer.\<close>

datatype va = VInt u32 | VStr "u8 list option"

text \<open>The loop of \<^verbatim>\<open>printf\<close>. The result is \<^term>\<open>None\<close> when \<^verbatim>\<open>va_arg\<close> has no argument of the requested type.\<close>

fun printf :: "u8 list \<Rightarrow> va list \<Rightarrow> u8 list option" where
  "printf [] args = Some []"
| "printf [c] args = Some (if c = 37 then [] else [c])"
| "printf (c # d # fmt) args =
    (if c \<noteq> 37 then map_option ((#) c) (printf (d # fmt) args)
     else if d = 100 then
       (case args of VInt x # args \<Rightarrow> map_option ((@) (printint x 10 True)) (printf fmt args) | _ \<Rightarrow> None)
     else if d = 120 then
       (case args of VInt x # args \<Rightarrow> map_option ((@) (printint x 16 True)) (printf fmt args) | _ \<Rightarrow> None)
     else if d = 112 then
       (case args of VInt x # args \<Rightarrow> map_option ((@) (printptr x)) (printf fmt args) | _ \<Rightarrow> None)
     else if d = 115 then
       (case args of
          VStr s # args \<Rightarrow>
            map_option ((@) (case s of None \<Rightarrow> [40, 110, 117, 108, 108, 41] | Some s \<Rightarrow> s)) (printf fmt args)
        | _ \<Rightarrow> None)
     else if d = 99 then
       (case args of VInt x # args \<Rightarrow> map_option ((#) (ucast x)) (printf fmt args) | _ \<Rightarrow> None)
     else if d = 37 then map_option ((#) 37) (printf fmt args)
     else map_option ((@) [37, d]) (printf fmt args))"

definition puts :: "u8 list \<Rightarrow> nat \<Rightarrow> u8 list" where
  "puts s len = take len s"

section \<open>Reading the digits back\<close>

definition digit_val :: "u8 \<Rightarrow> nat" where
  "digit_val c = (if c < 58 then unat c - 48 else unat c - 87)"

definition digits_val :: "nat \<Rightarrow> u8 list \<Rightarrow> nat" where
  "digits_val base ds = foldl (\<lambda>v c. v * base + digit_val c) 0 ds"

lemma less_16:
  "(d :: nat) < 16 \<Longrightarrow> d = 0 \<or> d = 1 \<or> d = 2 \<or> d = 3 \<or> d = 4 \<or> d = 5 \<or> d = 6 \<or> d = 7 \<or>
    d = 8 \<or> d = 9 \<or> d = 10 \<or> d = 11 \<or> d = 12 \<or> d = 13 \<or> d = 14 \<or> d = 15"
  by arith

lemma digit_val_digits: "d < 16 \<Longrightarrow> digit_val (digits d) = d"
  by (drule less_16) (auto simp: digit_val_def digits_def)

lemma digits_val_snoc: "digits_val base (ds @ [c]) = digits_val base ds * base + digit_val c"
  by (simp add: digits_val_def)

lemma rdigits_val:
  "2 \<le> base \<Longrightarrow> base \<le> 16 \<Longrightarrow> digits_val base (rev (rdigits base x)) = x"
proof (induction base x rule: rdigits.induct)
  case (1 base x)
  have "x mod base < 16" using 1(2,3) by (meson mod_less_divisor le_less_trans less_le_trans not_less zero_less_numeral order.strict_trans2)
  then have d: "digit_val (digits (x mod base)) = x mod base" by (rule digit_val_digits)
  show ?case
  proof (cases "x div base = 0")
    case True
    then have "x mod base = x" using 1(2) by (metis div_mult_mod_eq add_0 mult_zero_left)
    then show ?thesis using 1(2) True d by (subst rdigits.simps) (simp add: digits_val_def)
  next
    case False
    then have "digits_val base (rev (rdigits base (x div base))) = x div base" using 1 by auto
    then show ?thesis using 1(2) False d by (subst rdigits.simps) (simp add: digits_val_snoc)
  qed
qed

lemma rdigits_nonempty: "2 \<le> base \<Longrightarrow> rdigits base x \<noteq> []"
  by (subst rdigits.simps) simp

lemma rdigits_digit: "c \<in> set (rdigits base x) \<Longrightarrow> base \<le> 16 \<Longrightarrow> \<exists>d < base. c = digits d"
proof (induction base x rule: rdigits.induct)
  case (1 base x)
  then show ?case
    by (subst (asm) (2) rdigits.simps) (auto split: if_splits intro: exI [of _ "x mod base"])
qed

lemma minus_not_digit: "d < 16 \<Longrightarrow> digits d \<noteq> 45"
  by (drule less_16) (auto simp: digits_def)

definition int_val :: "nat \<Rightarrow> u8 list \<Rightarrow> int" where
  "int_val base ds = (if ds \<noteq> [] \<and> hd ds = 45 then - int (digits_val base (tl ds)) else int (digits_val base ds))"

text \<open>Numbers are printed correctly. For the bases that \<^verbatim>\<open>printf\<close> uses, the characters that \<^verbatim>\<open>printint\<close> prints,
  read back as a numeral with an optional minus sign, are the value of the argument: the signed one for a signed
  conversion, also for \<open>-2^31\<close>, whose negation overflows, and the unsigned one otherwise.\<close>

theorem printint_roundtrip:
  assumes "base \<in> {10, 16}"
  shows "int_val base (printint x base True) = sint x \<and> int_val base (printint x base False) = uint x"
proof -
  have b: "2 \<le> base" "base \<le> 16" using assms by auto
  have hd: "hd (rev (rdigits base y)) \<noteq> 45" for y
  proof -
    have "hd (rev (rdigits base y)) \<in> set (rdigits base y)"
      using rdigits_nonempty [OF b(1), of y] by (metis hd_in_set rev_is_Nil_conv set_rev)
    then show ?thesis using rdigits_digit b(2) minus_not_digit by (metis less_le_trans)
  qed
  have pos: "int_val base (rev (rdigits base y)) = int y" for y
    using hd [of y] rdigits_val [OF b] by (simp add: int_val_def)
  have neg: "int_val base (45 # rev (rdigits base y)) = - int y" for y
    using rdigits_val [OF b] by (simp add: int_val_def)
  have s: "sint x = (if sint x < 0 then - int (unat (- x)) else int (unat x))"
  proof -
    have r: "- (2 ^ 31) \<le> sint x" "sint x < 2 ^ 31" using sint_greater_eq [of x] sint_less [of x] by simp_all
    have "uint (word_of_int (sint x) :: u32) = sint x mod 2 ^ 32" "uint (word_of_int (- sint x) :: u32) = (- sint x) mod 2 ^ 32"
      unfolding uint_word_of_int by simp_all
    then show ?thesis using r by (auto simp: mod_pos_pos_trivial)
  qed
  show ?thesis
    using pos neg s by (auto simp: printint_def Let_def)
qed


theorem printint_roundtrip_witness: "int_val 10 (printint 0x80000000 10 True) = - 2147483648"
  using printint_roundtrip [of 10 "0x80000000"] by simp

end
