(* ===== verification/Console.thy ===== *)
theory Console
  imports Uart Printf
begin

text \<open>
  \<^verbatim>\<open>kernel/console.c\<close>: the line discipline of the console. The input buffer holds the committed part,
  between the read and the write index, which \<^verbatim>\<open>read\<close> returns, and the line being edited, between the
  write and the edit index.
\<close>

section \<open>State\<close>

definition INPUT_BUF :: nat where "INPUT_BUF = 128"
definition BACKSPACE :: int where "BACKSPACE = 0x100"

record cons =
  cbuf :: "nat \<Rightarrow> u8"
  cr :: u32
  cw :: u32
  ce :: u32

record consys = consys_uart +
  cons :: cons

section \<open>Output\<close>

definition consputc :: "int \<Rightarrow> 'a consys_uart_scheme \<Rightarrow> 'a consys_uart_scheme res" where
  "consputc c s =
    (if c = BACKSPACE
     then ebind (uartputc_sync 8 s) (\<lambda>s. ebind (uartputc_sync 32 s) (\<lambda>s. uartputc_sync 8 s))
     else uartputc_sync (word_of_int c) s)"

fun consputs :: "u8 list \<Rightarrow> 'a consys_uart_scheme \<Rightarrow> 'a consys_uart_scheme res" where
  "consputs [] s = Inr s"
| "consputs (c # bs) s = ebind (consputc (uint c) s) (\<lambda>s. consputs bs s)"

text \<open>\<^verbatim>\<open>procdump\<close> of \<^verbatim>\<open>kernel/proc.c\<close>, as the text it prints.\<close>

definition bytes :: "string \<Rightarrow> u8 list" where
  "bytes str = map of_char str"

definition state_name :: "procstate \<Rightarrow> string" where
  "state_name x =
    (case x of
       UNUSED \<Rightarrow> ''unused'' | SLEEPING \<Rightarrow> ''sleep '' | RUNNABLE \<Rightarrow> ''runble'' | RUNNING \<Rightarrow> ''run   ''
     | ZOMBIE \<Rightarrow> ''zombie'' | USED \<Rightarrow> ''???'')"

definition procdump :: "ptable \<Rightarrow> u8 list" where
  "procdump t =
    10 # concat (map (\<lambda>i.
      let p = procs t i
      in if pstate p = UNUSED then []
         else
           the (printf (bytes ''%d %s %s'')
             [VInt (pid p), VStr (Some (bytes (state_name (pstate p)))), VStr (Some (bytes (pname p)))]) @ [10])
      [0..<NPROC])"

text \<open>\<^verbatim>\<open>consolewrite\<close> from its loop on, with \<open>i\<close> bytes written; \<open>room k\<close> is what the device takes after byte \<open>k\<close>.\<close>

function consolewrite_loop ::
  "nat \<Rightarrow> (nat \<Rightarrow> nat) \<Rightarrow> place \<Rightarrow> nat \<Rightarrow> nat \<Rightarrow> consys \<Rightarrow> (consys \<times> nat \<times> int progress) res" where
  "consolewrite_loop me room src n i s =
    (if i < n
     then
       ebind (either_copyin (pagetable (procs (ctbl s) me)) (mm (ctbl s)) (place_add src i) [] 1) (\<lambda>(bs, r).
         if r = - 1 then Inr (s, i, Return (int i))
         else
           ebind (uartputc me (room i) (hd bs) s) (\<lambda>(s, q).
             case q of
               Sleeps ch \<Rightarrow> Inr (s, i, Sleeps ch)
             | Return _ \<Rightarrow> consolewrite_loop me room src n (Suc i) s))
     else Inr (s, i, Return (int i)))"
  by pat_completeness auto
termination
  by (relation "measure (\<lambda>(_, _, _, n, i, _). n - i)") auto

declare consolewrite_loop.simps [simp del]

definition consolewrite :: "nat \<Rightarrow> (nat \<Rightarrow> nat) \<Rightarrow> place \<Rightarrow> int \<Rightarrow> consys \<Rightarrow> (consys \<times> nat \<times> int progress) res" where
  "consolewrite me room src n s = consolewrite_loop me room src (nat n) 0 s"

section \<open>Input\<close>

definition cons_put :: "u8 \<Rightarrow> cons \<Rightarrow> cons" where
  "cons_put c x = x\<lparr>cbuf := (cbuf x)(unat (ce x) mod INPUT_BUF := c), ce := ce x + 1\<rparr>"

definition cons_get :: "cons \<Rightarrow> u8 \<times> cons" where
  "cons_get x = (cbuf x (unat (cr x) mod INPUT_BUF), x\<lparr>cr := cr x + 1\<rparr>)"

text \<open>
  \<^verbatim>\<open>consoleread\<close> from its loop on: \<open>i\<close> bytes have been copied to \<open>dst\<close> and \<^verbatim>\<open>n\<close> is \<open>target - i\<close>.
\<close>

function consoleread_loop ::
  "nat \<Rightarrow> place \<Rightarrow> nat \<Rightarrow> nat \<Rightarrow> consys \<Rightarrow> (consys \<times> nat \<times> int progress) res" where
  "consoleread_loop me dst target i s =
    (if i < target
     then
       if cr (cons s) = cw (cons s)
       then
         if killed (procs (ctbl s) me) then Inr (s, i, Return (- 1))
         else Inr (s\<lparr>ctbl := sleep_on me ChCons (ctbl s)\<rparr>, i, Sleeps ChCons)
       else
         let (c, x) = cons_get (cons s)
         in if c = 4
            then Inr (s\<lparr>cons := (if i > 0 then x\<lparr>cr := cr x - 1\<rparr> else x)\<rparr>, i, Return (int i))
            else
              let s = s\<lparr>cons := x\<rparr>
              in ebind (either_copyout (pagetable (procs (ctbl s) me)) (mm (ctbl s)) (place_add dst i) [c]) (\<lambda>(m, r).
                   let s = s\<lparr>ctbl := (ctbl s)\<lparr>mm := m\<rparr>\<rparr>
                   in if r = - 1 then Inr (s, i, Return (int i))
                      else if c = 10 then Inr (s, Suc i, Return (int (Suc i)))
                      else consoleread_loop me dst target (Suc i) s)
     else Inr (s, i, Return (int i)))"
  by pat_completeness auto
termination
  by (relation "measure (\<lambda>(_, _, target, i, _). target - i)") auto

declare consoleread_loop.simps [simp del]

definition consoleread :: "nat \<Rightarrow> place \<Rightarrow> int \<Rightarrow> consys \<Rightarrow> (consys \<times> nat \<times> int progress) res" where
  "consoleread me dst n s = consoleread_loop me dst (nat n) 0 s"

text \<open>The loop of \<^verbatim>\<open>consoleintr\<close> for control-U. The edited line has at most \<^verbatim>\<open>INPUT_BUF\<close> characters.\<close>

fun kill_line :: "nat \<Rightarrow> consys \<Rightarrow> consys res" where
  "kill_line 0 s = Inl Diverges"
| "kill_line (Suc fuel) s =
    (if ce (cons s) \<noteq> cw (cons s) \<and> cbuf (cons s) (unat (ce (cons s) - 1) mod INPUT_BUF) \<noteq> 10
     then
       ebind (consputc BACKSPACE (s\<lparr>cons := (cons s)\<lparr>ce := ce (cons s) - 1\<rparr>\<rparr>)) (\<lambda>s. kill_line fuel s)
     else Inr s)"

definition consoleintr :: "nat option \<Rightarrow> u8 \<Rightarrow> consys \<Rightarrow> consys res" where
  "consoleintr me c s =
    (if c = 16 then consputs (procdump (ctbl s)) s
     else if c = 21 then kill_line (Suc INPUT_BUF) s
     else if c = 8 \<or> c = 0x7f
     then
       if ce (cons s) \<noteq> cw (cons s)
       then consputc BACKSPACE (s\<lparr>cons := (cons s)\<lparr>ce := ce (cons s) - 1\<rparr>\<rparr>)
       else Inr s
     else if c \<noteq> 0 \<and> ce (cons s) - cr (cons s) < of_nat INPUT_BUF
     then
       let c = (if c = 13 then 10 else c)
       in ebind (consputc (uint c) s) (\<lambda>s.
            let s = s\<lparr>cons := cons_put c (cons s)\<rparr>
            in if c = 10 \<or> c = 4 \<or> ce (cons s) = cr (cons s) + of_nat INPUT_BUF
               then Inr (s\<lparr>cons := (cons s)\<lparr>cw := ce (cons s)\<rparr>, ctbl := wakeup me ChCons (ctbl s)\<rparr>)
               else Inr s)
     else Inr s)"

text \<open>\<^verbatim>\<open>uartintr\<close> of \<^verbatim>\<open>kernel/uart.c\<close>: the bytes \<open>rx\<close> wait in the receiver.\<close>

fun uartintr_loop :: "nat option \<Rightarrow> u8 list \<Rightarrow> consys \<Rightarrow> consys res" where
  "uartintr_loop me [] s = Inr s"
| "uartintr_loop me (c # rx) s = ebind (consoleintr me c s) (\<lambda>s. uartintr_loop me rx s)"

definition uartintr :: "nat option \<Rightarrow> nat \<Rightarrow> u8 list \<Rightarrow> consys \<Rightarrow> consys res" where
  "uartintr me room rx s = ebind (uartintr_loop me rx s) (\<lambda>s. Inr (uartstart me room s))"

definition consoleinit :: "consys \<Rightarrow> consys" where
  "consoleinit s = s\<lparr>uart := uartinit (uart s)\<rparr>"


section \<open>The line discipline\<close>

interpretation cq: ring INPUT_BUF cbuf cr ce cons_put cons_get
  by unfold_locales (simp_all add: INPUT_BUF_def cons_put_def cons_get_def)

definition committed :: "cons \<Rightarrow> u8 list" where
  "committed x = map (\<lambda>k. cbuf x ((unat (cr x) + k) mod INPUT_BUF)) [0..<unat (cw x - cr x)]"

definition editing :: "cons \<Rightarrow> u8 list" where
  "editing x = map (\<lambda>k. cbuf x ((unat (cw x) + k) mod INPUT_BUF)) [0..<unat (ce x - cw x)]"

definition cons_ok :: "cons \<Rightarrow> bool" where
  "cons_ok x \<longleftrightarrow> length (committed x) + length (editing x) \<le> INPUT_BUF \<and> 10 \<notin> set (editing x)"

lemma cons_lengths [simp]:
  "length (committed x) = unat (cw x - cr x)" "length (editing x) = unat (ce x - cw x)"
  by (simp_all add: committed_def editing_def)

lemma unat_add_small: "unat (a :: u32) + unat b \<le> n \<Longrightarrow> n < 4294967296 \<Longrightarrow> unat (a + b) = unat a + unat b"
  by (simp add: unat_word_ariths)

lemma cons_count:
  assumes "unat (cw x - cr x) + unat (ce x - cw x) \<le> INPUT_BUF"
  shows "unat (ce x - cr x) = unat (cw x - cr x) + unat (ce x - cw x)"
  using unat_add_small [OF assms] by (simp add: INPUT_BUF_def)

lemma cons_contents:
  assumes "unat (cw x - cr x) + unat (ce x - cw x) \<le> INPUT_BUF"
  shows "cq.contents x = committed x @ editing x"
proof (rule nth_equalityI)
  note c = cons_count [OF assms]
  show "length (cq.contents x) = length (committed x @ editing x)" by (simp add: cq.count_def c)
  fix i assume i: "i < length (cq.contents x)"
  have w: "(unat (cw x) + j) mod INPUT_BUF = (unat (cr x) + (unat (cw x - cr x) + j)) mod INPUT_BUF" for j
  proof -
    have "unat (cw x) mod INPUT_BUF = (unat (cr x) + unat (cw x - cr x)) mod INPUT_BUF"
      using cq.wrap_index [of "cr x" "unat (cw x - cr x)"] by simp
    then show ?thesis by (metis add.assoc mod_add_left_eq)
  qed
  show "cq.contents x ! i = (committed x @ editing x) ! i"
    using i by (auto simp: nth_append cq.contents_def cq.count_def c committed_def editing_def w)
qed

text \<open>The editor that the discipline implements, on the committed part and the line.\<close>

fun ledit :: "u8 \<Rightarrow> u8 list \<times> u8 list \<Rightarrow> u8 list \<times> u8 list" where
  "ledit c (done, line) =
    (if c = 16 then (done, line)
     else if c = 21 then (done, [])
     else if c = 8 \<or> c = 127 then (done, butlast line)
     else if c \<noteq> 0 \<and> length done + length line < INPUT_BUF
     then
       let c = (if c = 13 then 10 else c); line = line @ [c]
       in if c = 10 \<or> c = 4 \<or> length done + length line = INPUT_BUF then (done @ line, []) else (done, line)
     else (done, line))"

definition lines :: "cons \<Rightarrow> u8 list \<times> u8 list" where
  "lines x = (committed x, editing x)"

definition quiet :: "consys \<Rightarrow> consys \<Rightarrow> bool" where
  "quiet s s' \<longleftrightarrow> cons s' = cons s \<and> ctbl s' = ctbl s \<and> panicked s' = panicked s"

lemma consputc_quiet:
  "\<not> panicked s \<Longrightarrow> \<exists>s'. consputc c s = Inr s' \<and> quiet s s'"
  by (auto simp: consputc_def uartputc_sync_def quiet_def)

lemma consputs_quiet: "\<not> panicked s \<Longrightarrow> \<exists>s'. consputs bs s = Inr s' \<and> quiet s s'"
proof (induction bs arbitrary: s)
  case (Cons c bs)
  obtain s1 where 1: "consputc (uint c) s = Inr s1" "quiet s s1" using consputc_quiet [OF Cons.prems] by blast
  then obtain s2 where "consputs bs s1 = Inr s2" "quiet s1 s2" using Cons.IH Cons.prems by (metis quiet_def)
  then show ?case using 1 by (auto simp: quiet_def)
qed (simp add: quiet_def)

lemma edit_delete:
  assumes "cons_ok x" "ce x \<noteq> cw x"
  shows "lines (x\<lparr>ce := ce x - 1\<rparr>) = (committed x, butlast (editing x))" "cons_ok (x\<lparr>ce := ce x - 1\<rparr>)"
    "cbuf x (unat (ce x - 1) mod INPUT_BUF) = last (editing x)" "editing x \<noteq> []"
proof -
  obtain n where n: "unat (ce x - cw x) = Suc n" using assms(2) by (cases "unat (ce x - cw x)") (auto simp: unat_eq_0)
  have d: "unat (ce x - 1 - cw x) = n"
  proof -
    have e: "ce x - 1 - cw x = (ce x - cw x) - 1" by simp
    have "ce x - cw x \<noteq> 0" using assms(2) by simp
    then show ?thesis unfolding e using n unat_minus_one [of "ce x - cw x"] by simp
  qed
  show l: "lines (x\<lparr>ce := ce x - 1\<rparr>) = (committed x, butlast (editing x))"
    by (simp add: lines_def committed_def editing_def n d)
  show "cons_ok (x\<lparr>ce := ce x - 1\<rparr>)"
    using assms(1) l n d by (auto simp: cons_ok_def lines_def dest: in_set_butlastD)
  show "editing x \<noteq> []" using n by (auto simp: editing_def)
  have "ce x - 1 = cw x + of_nat n" by (simp add: d [symmetric])
  then show "cbuf x (unat (ce x - 1) mod INPUT_BUF) = last (editing x)"
    using n cq.wrap_index [of "cw x" n] by (simp add: editing_def)
qed

lemma kill_line_spec:
  assumes "\<not> panicked s" "cons_ok (cons s)" "length (editing (cons s)) < fuel"
  shows "\<exists>s'. kill_line fuel s = Inr s' \<and> cons_ok (cons s') \<and> lines (cons s') = (committed (cons s), []) \<and>
    ctbl s' = ctbl s \<and> panicked s' = panicked s"
  using assms
proof (induction fuel arbitrary: s)
  case (Suc fuel)
  let ?x = "cons s"
  show ?case
  proof (cases "ce ?x = cw ?x")
    case True
    then show ?thesis using Suc.prems by (simp add: lines_def editing_def)
  next
    case False
    note d = edit_delete [OF Suc.prems(2) False]
    have nl: "cbuf ?x (unat (ce ?x - 1) mod INPUT_BUF) \<noteq> 10"
      using d(3) Suc.prems(2) last_in_set [OF d(4)] unfolding cons_ok_def by metis
    let ?s = "s\<lparr>cons := ?x\<lparr>ce := ce ?x - 1\<rparr>\<rparr>"
    obtain s1 where 1: "consputc BACKSPACE ?s = Inr s1" "quiet ?s s1"
      using consputc_quiet [of ?s BACKSPACE] Suc.prems(1) by auto
    have e: "editing (cons s1) = butlast (editing ?x)" "committed (cons s1) = committed ?x"
      using 1(2) d(1) by (simp_all add: quiet_def lines_def)
    have "length (editing (cons s1)) < fuel" using Suc.prems(3) d(4) e(1) by (cases "editing ?x") (auto simp del: cons_lengths)
    moreover have "\<not> panicked s1" "cons_ok (cons s1)" using 1(2) d(2) Suc.prems(1) by (auto simp: quiet_def)
    ultimately obtain s' where "kill_line fuel s1 = Inr s'" "cons_ok (cons s')"
      "lines (cons s') = (committed (cons s1), [])" "ctbl s' = ctbl s1" "panicked s' = panicked s1"
      using Suc.IH by blast
    then show ?thesis using False nl 1 e(2) by (auto simp: quiet_def)
  qed
qed simp

lemma edit_put:
  assumes "cons_ok x" "unat (ce x - cr x) < INPUT_BUF"
  shows "lines (cons_put c x) = (committed x, editing x @ [c])"
    "lines ((cons_put c x)\<lparr>cw := ce (cons_put c x)\<rparr>) = (committed x @ editing x @ [c], [])"
    "unat (ce (cons_put c x) - cr (cons_put c x)) = Suc (unat (ce x - cr x))"
proof -
  have k: "unat (cw x - cr x) + unat (ce x - cw x) \<le> INPUT_BUF" using assms(1) by (simp add: cons_ok_def)
  note c = cons_count [OF k]
  have room: "cq.count x < INPUT_BUF" using assms(2) by (simp add: cq.count_def)
  show s: "unat (ce (cons_put c x) - cr (cons_put c x)) = Suc (unat (ce x - cr x))"
    using cq.count_put [OF room] by (simp add: cq.count_def)
  have f: "cw (cons_put c x) = cw x" "cr (cons_put c x) = cr x" "ce (cons_put c x) = ce x + 1" by (simp_all add: cons_put_def)
  have "unat (ce x - cw x) + 1 < 4294967296" using k by (simp add: INPUT_BUF_def)
  then have "unat ((ce x - cw x) + 1) = Suc (unat (ce x - cw x))" by (simp only: unat_word_ariths) simp
  moreover have "ce x + 1 - cw x = (ce x - cw x) + 1" by simp
  ultimately have e: "unat (ce x + 1 - cw x) = Suc (unat (ce x - cw x))" by (simp only:)
  have k': "unat (cw (cons_put c x) - cr (cons_put c x)) + unat (ce (cons_put c x) - cw (cons_put c x)) \<le> INPUT_BUF"
    unfolding f using e c assms(2) by simp
  have all: "committed (cons_put c x) @ editing (cons_put c x) = committed x @ editing x @ [c]"
    using cq.contents_put [OF room, of c] cons_contents [OF k'] cons_contents [OF k] by simp
  moreover have "length (committed (cons_put c x)) = length (committed x)" by (simp add: f)
  ultimately show "lines (cons_put c x) = (committed x, editing x @ [c])" by (simp add: lines_def)
  have "committed ((cons_put c x)\<lparr>cw := ce (cons_put c x)\<rparr>) = cq.contents (cons_put c x)"
    by (simp add: committed_def cq.contents_def cq.count_def)
  then show "lines ((cons_put c x)\<lparr>cw := ce (cons_put c x)\<rparr>) = (committed x @ editing x @ [c], [])"
    using cq.contents_put [OF room, of c] cons_contents [OF k] by (simp add: lines_def editing_def)
qed


lemma consoleintr_char:
  assumes ok: "cons_ok (cons s)" "\<not> panicked s" and c: "c \<notin> {0, 8, 16, 21, 127}"
    and room: "unat (ce (cons s) - cr (cons s)) < INPUT_BUF"
  shows "\<exists>s'. consoleintr me c s = Inr s' \<and> lines (cons s') = ledit c (lines (cons s)) \<and> cons_ok (cons s') \<and>
    panicked s' = panicked s \<and>
    (committed (cons s') \<noteq> committed (cons s) \<longrightarrow> ctbl s' = wakeup me ChCons (ctbl s)) \<and>
    (committed (cons s') = committed (cons s) \<longrightarrow> ctbl s' = ctbl s)"
proof -
  let ?x = "cons s" and ?c = "if c = 13 then 10 else c"
  let ?y = "cons_put ?c ?x"
  have k: "unat (cw ?x - cr ?x) + unat (ce ?x - cw ?x) \<le> INPUT_BUF" using ok(1) by (simp add: cons_ok_def)
  note cnt = cons_count [OF k] and p = edit_put [OF ok(1) room, of ?c]
  have rm: "ce ?x - cr ?x < of_nat INPUT_BUF" using room by (simp add: word_less_nat_alt INPUT_BUF_def)
  have full: "ce ?y = cr ?y + of_nat INPUT_BUF \<longleftrightarrow> length (committed ?x) + length (editing ?x @ [?c]) = INPUT_BUF"
    using cq.full_iff [of ?y] p(3) cnt by (simp add: cq.count_def)
  obtain s1 where 1: "consputc (uint ?c) s = Inr s1" "quiet s s1" using consputc_quiet [OF ok(2)] by blast
  have e1: "cons s1 = ?x" "ctbl s1 = ctbl s" "panicked s1 = panicked s" using 1(2) by (simp_all add: quiet_def)
  let ?fin = "?c = 10 \<or> ?c = 4 \<or> ce ?y = cr ?y + of_nat INPUT_BUF"
  let ?s' = "if ?fin then s1\<lparr>cons := ?y\<lparr>cw := ce ?y\<rparr>, ctbl := wakeup me ChCons (ctbl s)\<rparr> else s1\<lparr>cons := ?y\<rparr>"
  have r: "consoleintr me c s = Inr ?s'"
    using c rm 1(1) e1 by (auto simp: consoleintr_def Let_def)
  have l: "ledit c (lines ?x) = (if ?fin then (committed ?x @ editing ?x @ [?c], []) else (committed ?x, editing ?x @ [?c]))"
    using c room cnt full by (auto simp: lines_def Let_def)
  have lin: "lines (cons ?s') = ledit c (lines ?x)" using p(1,2) l by (auto simp del: ledit.simps)
  have "cons_ok (cons ?s')"
  proof (cases ?fin)
    case True
    then have "committed (cons ?s') = committed ?x @ editing ?x @ [?c]" "editing (cons ?s') = []"
      using lin l by (simp_all add: lines_def del: ledit.simps)
    then show ?thesis using room cnt unfolding cons_ok_def by (simp del: cons_lengths) (simp add: cnt)
  next
    case False
    then have e: "committed (cons ?s') = committed ?x" "editing (cons ?s') = editing ?x @ [?c]"
      using lin l by (simp_all add: lines_def del: ledit.simps)
    show ?thesis using room cnt False ok(1) unfolding cons_ok_def e by auto
  qed
  moreover have "committed (cons ?s') = committed ?x \<longleftrightarrow> \<not> ?fin"
    using lin l by (auto simp: lines_def simp del: ledit.simps split: if_splits)
  ultimately show ?thesis using r lin e1 by auto
qed

section \<open>Properties\<close>

text \<open>C21: The console's line discipline. \<^verbatim>\<open>consoleintr\<close> refines the editor \<open>ledit\<close> on the committed input and the line
  being edited: a character is appended, backspace and delete drop the last character of the line but never a
  committed one, control-U empties the line, and a newline, an end-of-file or a full buffer commits the line
  and wakes the reader. It always returns, the buffer never overflows, and it keeps the buffer well formed.\<close>

theorem console_line_discipline:
  assumes "cons_ok (cons s)" and "\<not> panicked s"
  shows "\<exists>s'. consoleintr me c s = Inr s' \<and> lines (cons s') = ledit c (lines (cons s)) \<and> cons_ok (cons s') \<and>
    (if committed (cons s') = committed (cons s) then ctbl s' = ctbl s else ctbl s' = wakeup me ChCons (ctbl s))"
proof -
  let ?x = "cons s"
  have k: "unat (cw ?x - cr ?x) + unat (ce ?x - cw ?x) \<le> INPUT_BUF" using assms(1) by (simp add: cons_ok_def)
  consider "c = 16" | "c = 21" | "c = 8 \<or> c = 127" | "c = 0 \<or> \<not> unat (ce ?x - cr ?x) < INPUT_BUF" "c \<notin> {8, 16, 21, 127}"
    | "c \<notin> {0, 8, 16, 21, 127}" "unat (ce ?x - cr ?x) < INPUT_BUF" by auto
  then show ?thesis
  proof cases
    case 1
    obtain s' where "consputs (procdump (ctbl s)) s = Inr s'" "quiet s s'" using consputs_quiet [OF assms(2)] by blast
    then show ?thesis using 1 assms by (auto simp: consoleintr_def quiet_def lines_def)
  next
    case 2
    have "length (editing ?x) < Suc INPUT_BUF" using k by simp
    from kill_line_spec [OF assms(2,1) this] show ?thesis using 2 by (auto simp: consoleintr_def lines_def)
  next
    case 3
    show ?thesis
    proof (cases "ce ?x = cw ?x")
      case True
      then show ?thesis using 3 assms by (auto simp: consoleintr_def lines_def editing_def)
    next
      case False
      note d = edit_delete [OF assms(1) False]
      let ?s = "s\<lparr>cons := ?x\<lparr>ce := ce ?x - 1\<rparr>\<rparr>"
      obtain s1 where "consputc BACKSPACE ?s = Inr s1" "quiet ?s s1" using consputc_quiet [of ?s BACKSPACE] assms(2) by auto
      then show ?thesis using 3 False d by (auto simp: consoleintr_def quiet_def lines_def)
    qed
  next
    case 4
    have "\<not> ce ?x - cr ?x < of_nat INPUT_BUF \<longleftrightarrow> \<not> unat (ce ?x - cr ?x) < INPUT_BUF"
      by (simp add: word_less_nat_alt INPUT_BUF_def)
    then show ?thesis using 4 assms cons_count [OF k] by (auto simp: consoleintr_def lines_def)
  next
    case 5
    from consoleintr_char [OF assms 5] show ?thesis by (auto simp del: ledit.simps)
  qed
qed

theorem console_line_discipline_witness:
  "\<exists>s'. consoleintr None 8 (undefined\<lparr>panicked := False, cons := \<lparr>cbuf = (\<lambda>_. 65), cr = 0, cw = 1, ce = 3\<rparr>\<rparr>) = Inr s' \<and>
    lines (cons s') = ([65], [65])"
proof -
  define s :: consys where "s = undefined\<lparr>panicked := False, cons := \<lparr>cbuf = (\<lambda>_. 65), cr = 0, cw = 1, ce = 3\<rparr>\<rparr>"
  have l: "lines (cons s) = ([65], [65, 65])" by (simp add: s_def lines_def committed_def editing_def upt_rec)
  then have "cons_ok (cons s)" by (simp add: cons_ok_def lines_def INPUT_BUF_def s_def)
  moreover have "\<not> panicked s" by (simp add: s_def)
  ultimately show ?thesis using console_line_discipline [of s None 8] l unfolding s_def [symmetric] by auto
qed

end
