(* ===== verification/Queue.thy ===== *)
theory Queue
  imports Kalloc
begin

text \<open>
  \<^verbatim>\<open>kernel/queue.c\<close>: queues of pointers, as singly linked lists whose entries are pages from \<^verbatim>\<open>kalloc\<close>.
  The entries are kept in a map from page addresses to their fields.
\<close>

section \<open>Linked lists\<close>

text \<open>\<open>chain nx p xs\<close>: following \<open>nx\<close> from \<open>p\<close> visits exactly the nodes \<open>xs\<close> and ends with a null pointer.\<close>

fun chain :: "(u32 \<Rightarrow> u32) \<Rightarrow> u32 \<Rightarrow> u32 list \<Rightarrow> bool" where
  "chain nx p [] \<longleftrightarrow> p = 0"
| "chain nx p (x # xs) \<longleftrightarrow> p = x \<and> p \<noteq> 0 \<and> chain nx (nx p) xs"

lemma chain_cong: "(\<And>x. x \<in> set xs \<Longrightarrow> nx' x = nx x) \<Longrightarrow> chain nx' p xs = chain nx p xs"
  by (induction xs arbitrary: p) auto

lemma chain_other: "a \<notin> set xs \<Longrightarrow> chain (nx(a := v)) p xs = chain nx p xs"
  by (rule chain_cong) auto

lemma chain_null: "chain nx 0 xs \<longleftrightarrow> xs = []"
  by (cases xs) auto

lemma chain_nonnull: "chain nx p xs \<Longrightarrow> 0 \<notin> set xs"
  by (induction xs arbitrary: p) auto

lemma chain_snoc:
  assumes "chain nx p (xs @ [t])" "e \<noteq> 0" "e \<notin> set xs" "e \<noteq> t" "t \<notin> set xs"
  shows "chain (nx(t := e, e := 0)) p (xs @ [t, e])"
  using assms
proof (induction xs arbitrary: p)
  case (Cons x xs)
  have "chain (nx(t := e, e := 0)) (nx p) (xs @ [t, e])"
    by (rule Cons.IH) (use Cons.prems in auto)
  moreover have "(nx(t := e, e := 0)) p = nx p" using Cons.prems by auto
  ultimately show ?case using Cons.prems by (auto simp del: fun_upd_apply)
qed auto

section \<open>Operations\<close>

record queue_entry =
  qe_data :: u32
  qe_size :: u32
  qe_next :: u32

record queue_head =
  q_next :: u32
  q_tail :: u32
  q_num :: u32

record qstate =
  qmem :: kstate
  qents :: "u32 \<Rightarrow> queue_entry"

text \<open>The queue argument is never null; \<open>qs\<close> is the head that it points to.\<close>

definition queue_push :: "u32 \<Rightarrow> u32 \<Rightarrow> queue_head \<Rightarrow> qstate \<Rightarrow> qstate \<times> queue_head \<times> u32" where
  "queue_push data sz q s =
    (if data = 0 then (s, q, 0)
     else
       let (m, entry) = kalloc (qmem s); s = s\<lparr>qmem := m\<rparr>
       in if entry = 0 then (s, q, 0)
          else
            let s = s\<lparr>qents := (qents s)(entry := \<lparr>qe_data = data, qe_size = sz, qe_next = 0\<rparr>)\<rparr>;
                s = (if q_tail q \<noteq> 0
                     then s\<lparr>qents := (qents s)(q_tail q := (qents s (q_tail q))\<lparr>qe_next := entry\<rparr>)\<rparr>
                     else s);
                q = q\<lparr>q_tail := entry\<rparr>;
                q = (if q_next q = 0 then q\<lparr>q_next := entry\<rparr> else q)
            in (s, q\<lparr>q_num := q_num q + 1\<rparr>, entry))"

definition queue_pop :: "queue_head \<Rightarrow> qstate \<Rightarrow> queue_head \<times> u32" where
  "queue_pop q s =
    (if q_next q = 0 then (q, 0)
     else
       let entry = q_next q;
           q = q\<lparr>q_next := qe_next (qents s entry)\<rparr>;
           q = (if q_next q = 0 then q\<lparr>q_tail := 0\<rparr> else q)
       in (q\<lparr>q_num := q_num q - 1\<rparr>, entry))"

section \<open>Queues are lists\<close>

text \<open>\<open>queue q s es\<close>: the queue consists of the entries \<open>es\<close>, the first one to be popped first.\<close>

definition queue :: "queue_head \<Rightarrow> qstate \<Rightarrow> u32 list \<Rightarrow> bool" where
  "queue q s es \<longleftrightarrow> chain (\<lambda>a. qe_next (qents s a)) (q_next q) es \<and> distinct es \<and>
    q_tail q = (if es = [] then 0 else last es) \<and> unat (q_num q) = length es"

definition queue_data :: "qstate \<Rightarrow> u32 list \<Rightarrow> u32 list" where
  "queue_data s es = map (\<lambda>e. qe_data (qents s e)) es"

lemma queue_empty: "queue q s es \<Longrightarrow> q_next q = 0 \<longleftrightarrow> es = []"
  by (cases es) (auto simp: queue_def)

lemma queue_push_new:
  assumes q: "queue q s es" and k: "kalloc (qmem s) = (m, e)" and e: "e \<noteq> 0" "e \<notin> set es" and d: "data \<noteq> 0"
    and small: "length es < 4294967295"
  shows "\<exists>s' q'. queue_push data sz q s = (s', q', e) \<and> queue q' s' (es @ [e]) \<and>
    queue_data s' (es @ [e]) = queue_data s es @ [data]"
proof -
  let ?n = "\<lparr>qe_data = data, qe_size = sz, qe_next = 0\<rparr>"
  have num: "unat (q_num q + 1) = Suc (length es)" using q small by (simp add: queue_def unat_word_ariths)
  show ?thesis
  proof (cases "es = []")
    case True
    then have z: "q_next q = 0" "q_tail q = 0" using q by (auto simp: queue_def)
    then show ?thesis
      using k e d num True by (auto simp: queue_push_def queue_def queue_data_def Let_def)
  next
    case False
    then obtain fs t where es: "es = fs @ [t]" by (metis append_butlast_last_id)
    have nz: "q_next q \<noteq> 0" using queue_empty [OF q] False by simp
    have t: "q_tail q = t" "t \<noteq> 0" "t \<notin> set fs" "t \<noteq> e"
      using q es e chain_nonnull [of _ _ es] by (auto simp: queue_def)
    let ?h1 = "(qents s)(e := ?n)"
    let ?h2 = "?h1(t := (?h1 t)\<lparr>qe_next := e\<rparr>)"
    let ?s' = "\<lparr>qmem = m, qents = ?h2\<rparr>"
    have nx: "(\<lambda>a. qe_next (?h2 a)) = (\<lambda>a. qe_next (qents s a))(t := e, e := 0)" using t by auto
    have c: "chain (\<lambda>a. qe_next (qents s a)) (q_next q) (fs @ [t])" "distinct (fs @ [t])" using q es by (auto simp: queue_def)
    have "chain ((\<lambda>a. qe_next (qents s a))(t := e, e := 0)) (q_next q) (fs @ [t, e])"
      by (rule chain_snoc [OF c(1) e(1)]) (use t es e(2) in auto)
    then have q': "queue (q\<lparr>q_tail := e, q_num := q_num q + 1\<rparr>) ?s' (es @ [e])"
      using c(2) e(2) num es t(4) unfolding queue_def by (simp add: nx del: fun_upd_apply)
    have "map (\<lambda>a. qe_data (?h2 a)) es = map (\<lambda>a. qe_data (qents s a)) es" using e(2) t es by (intro map_cong) auto
    then have "queue_data ?s' (es @ [e]) = queue_data s es @ [data]" using t by (simp add: queue_data_def)
    moreover have "queue_push data sz q s = (?s', q\<lparr>q_tail := e, q_num := q_num q + 1\<rparr>, e)"
      using k e d nz t by (cases s) (simp add: queue_push_def Let_def)
    ultimately show ?thesis using q' by blast
  qed
qed

lemma queue_pop_head:
  assumes "queue q s (e # es)"
  shows "\<exists>q'. queue_pop q s = (q', e) \<and> queue q' s es"
proof -
  have c: "q_next q = e" "e \<noteq> 0" "chain (\<lambda>a. qe_next (qents s a)) (qe_next (qents s e)) es" "e \<notin> set es" "distinct es"
    "q_tail q = last (e # es)" "unat (q_num q) = Suc (length es)"
    using assms by (auto simp: queue_def)
  have "unat (q_num q - 1) = length es" using c(7) by (simp add: unat_sub_if')
  moreover have "qe_next (qents s e) = 0 \<longleftrightarrow> es = []" using c(3) by (cases es) auto
  ultimately show ?thesis using c by (auto simp: queue_pop_def queue_def Let_def)
qed

section \<open>Property\<close>

text \<open>C32: \<^verbatim>\<open>queue_push\<close> and \<^verbatim>\<open>queue_pop\<close> implement a first-in first-out queue on the linked list. A push of a
  non-null pointer either fails, when no page is free, and changes nothing, or appends the pointer; a pop returns the
  entry with the oldest pointer and removes it, or null exactly when the queue is empty. Head, tail and
  count stay consistent.\<close>

theorem queue_fifo:
  assumes "queue q s es" and "length es < 4294967295" and "data \<noteq> 0" and "snd (kalloc (qmem s)) \<notin> set es"
  shows "(\<exists>s' q' e. queue_push data sz q s = (s', q', e) \<and>
      (if snd (kalloc (qmem s)) = 0 then e = 0 \<and> q' = q \<and> qents s' = qents s
       else queue q' s' (es @ [e]) \<and> queue_data s' (es @ [e]) = queue_data s es @ [data])) \<and>
    (\<exists>q' e. queue_pop q s = (q', e) \<and>
      (case es of [] \<Rightarrow> e = 0 \<and> q' = q | f # fs \<Rightarrow> e = f \<and> queue q' s fs))"
proof (intro conjI)
  obtain m e where k: "kalloc (qmem s) = (m, e)" by fastforce
  show "\<exists>s' q' e. queue_push data sz q s = (s', q', e) \<and>
      (if snd (kalloc (qmem s)) = 0 then e = 0 \<and> q' = q \<and> qents s' = qents s
       else queue q' s' (es @ [e]) \<and> queue_data s' (es @ [e]) = queue_data s es @ [data])"
  proof (cases "e = 0")
    case True
    then show ?thesis using k assms(3) by (simp add: queue_push_def Let_def)
  next
    case False
    then show ?thesis using queue_push_new [OF assms(1) k False _ assms(3,2), of sz] k assms(4) by auto
  qed
  show "\<exists>q' e. queue_pop q s = (q', e) \<and>
      (case es of [] \<Rightarrow> e = 0 \<and> q' = q | f # fs \<Rightarrow> e = f \<and> queue q' s fs)"
    using assms(1) queue_pop_head [of q s] queue_empty [OF assms(1)]
    by (cases es) (auto simp: queue_pop_def)
qed

theorem queue_fifo_witness:
  "\<exists>q' e. queue_pop \<lparr>q_next = 0x80001000, q_tail = 0x80001000, q_num = 1\<rparr>
      \<lparr>qmem = \<lparr>phys = (\<lambda>_. 0), freelist = 0\<rparr>, qents = (\<lambda>_. \<lparr>qe_data = 7, qe_size = 4, qe_next = 0\<rparr>)\<rparr> = (q', e) \<and>
    e = 0x80001000 \<and> q_next q' = 0"
proof -
  let ?q = "\<lparr>q_next = 0x80001000, q_tail = 0x80001000, q_num = 1\<rparr>"
  let ?s = "\<lparr>qmem = \<lparr>phys = (\<lambda>_. 0), freelist = 0\<rparr>, qents = (\<lambda>_. \<lparr>qe_data = 7, qe_size = 4, qe_next = 0\<rparr>)\<rparr>"
  have "queue ?q ?s [0x80001000]" by (simp add: queue_def)
  moreover have "snd (kalloc (qmem ?s)) \<notin> set [0x80001000]" by (simp add: kalloc_def Let_def)
  ultimately obtain q' e where "queue_pop ?q ?s = (q', e)" "e = 0x80001000" "queue q' ?s []"
    using queue_fifo [of ?q ?s "[0x80001000]" 7 0] by fastforce
  then show ?thesis by (auto simp: queue_def)
qed

end
