(* ===== verification/Net.thy ===== *)
theory Net
  imports Queue Utils Proc
begin

text \<open>
  The network stack below the transport protocols: \<^verbatim>\<open>kernel/mbuf.c\<close>, the transmit side of \<^verbatim>\<open>kernel/e1000.c\<close>,
  \<^verbatim>\<open>kernel/ethernet.c\<close>, \<^verbatim>\<open>kernel/arp.c\<close> and \<^verbatim>\<open>kernel/ip.c\<close>. Packet buffers are pages from \<^verbatim>\<open>kalloc\<close>; their fields are kept in a map
  from page addresses, and pointers into \<^verbatim>\<open>buf\<close> are offsets from its start. Headers are lists of bytes in memory
  order. The messages that the code prints are left out.
\<close>

section \<open>State\<close>

record mbuf =
  mb_nxt :: u32
  mb_head :: int
  mb_len :: u32
  mb_data :: "int \<Rightarrow> u8"

record arp_entry =
  arp_used :: bool
  arp_ip :: u32
  arp_mac :: "u8 list"

text \<open>The transmit and receive rings of the device: descriptors, their buffers and the tail registers.\<close>

record e1000 =
  tdt :: nat
  tx_status :: "nat \<Rightarrow> u8"
  tx_addr :: "nat \<Rightarrow> u32 \<times> int"
  tx_length :: "nat \<Rightarrow> u16"
  tx_cmd :: "nat \<Rightarrow> u8"
  tx_mbufs :: "nat \<Rightarrow> u32"
  rdt :: nat
  rx_status :: "nat \<Rightarrow> u8"
  rx_length :: "nat \<Rightarrow> u16"
  rx_mbufs :: "nat \<Rightarrow> u32"

record udp_cb =
  u_used :: bool
  u_port :: u16
  u_addr :: u32
  u_pport :: u16
  u_mbufs :: u32

datatype tcp_state =
    CLOSED | LISTEN | SYN_SENT | SYN_RCVD | ESTABLISHED | FIN_WAIT1 | FIN_WAIT2 | CLOSING | TIME_WAIT
  | CLOSE_WAIT | LAST_ACK

text \<open>
  \<^verbatim>\<open>struct tcp_cb\<close> without the fields that no code uses. The transmission queue is the list of its entries: the
  page of the entry, the page of its segment, and the segment.
\<close>

record tcp_cb =
  t_used :: bool
  t_state :: tcp_state
  t_port :: u16
  t_addr :: u32
  t_pport :: u16
  snd_nxt :: u32
  snd_una :: u32
  iss :: u32
  rcv_nxt :: u32
  rcv_wnd :: u16
  irs :: u32
  txq :: "(u32 \<times> u32 \<times> u8 list) list"
  tbuf :: "nat \<Rightarrow> u8"
  tparent :: "nat option"
  backlog :: queue_head

record socket =
  sk_nxt :: u32
  sk_type :: u8
  sk_idx :: u8

text \<open>
  \<open>udp_lock\<close> and \<open>tcp_lock\<close> tell whether an operation that has returned left the lock of its table locked.
\<close>

record net =
  ntbl :: ptable
  mbufs :: "u32 \<Rightarrow> mbuf"
  nqents :: "u32 \<Rightarrow> queue_entry"
  nic :: e1000
  arps :: "nat \<Rightarrow> arp_entry"
  udp_lock :: bool
  udps :: "nat \<Rightarrow> udp_cb"
  tcp_lock :: bool
  tcps :: "nat \<Rightarrow> tcp_cb"
  rand_next :: u32
  socks :: "u32 \<Rightarrow> socket"
  sockets :: u32

definition upd_mbuf :: "u32 \<Rightarrow> (mbuf \<Rightarrow> mbuf) \<Rightarrow> net \<Rightarrow> net" where
  "upd_mbuf a f s = s\<lparr>mbufs := (mbufs s)(a := f (mbufs s a))\<rparr>"

text \<open>
  A page that \<^verbatim>\<open>kalloc\<close> or \<^verbatim>\<open>kfree\<close> has filled with the byte \<open>v\<close>, read as a packet buffer; \<^verbatim>\<open>kfree\<close> links the page
  into the free list through its first word.
\<close>

definition mb_fill :: "u32 \<Rightarrow> u32 \<Rightarrow> u8 \<Rightarrow> mbuf" where
  "mb_fill a nxt v = \<lparr>mb_nxt = nxt, mb_head = uint (le32 v v v v) - (uint a + 12), mb_len = le32 v v v v, mb_data = (\<lambda>_. v)\<rparr>"

definition nkalloc :: "net \<Rightarrow> net \<times> u32" where
  "nkalloc s =
    (let (m, a) = kalloc (mm (ntbl s));
         s = s\<lparr>ntbl := (ntbl s)\<lparr>mm := m\<rparr>\<rparr>
     in if a = 0 then (s, 0) else (s\<lparr>mbufs := (mbufs s)(a := mb_fill a (le32 5 5 5 5) 5)\<rparr>, a))"

definition nkfree :: "ksyms \<Rightarrow> u32 \<Rightarrow> net \<Rightarrow> net res" where
  "nkfree ks a s =
    ebind (kfree (ksym_end ks) (mm (ntbl s)) a) (\<lambda>m.
    Inr (s\<lparr>ntbl := (ntbl s)\<lparr>mm := m\<rparr>, mbufs := (mbufs s)(a := mb_fill a (freelist (mm (ntbl s))) 1)\<rparr>))"

definition nwakeup :: "nat option \<Rightarrow> chan \<Rightarrow> net \<Rightarrow> net" where
  "nwakeup me ch s = s\<lparr>ntbl := wakeup me ch (ntbl s)\<rparr>"

definition nsleep :: "nat \<Rightarrow> chan \<Rightarrow> net \<Rightarrow> net" where
  "nsleep me ch s = s\<lparr>ntbl := sleep_on me ch (ntbl s)\<rparr>"

text \<open>An access through a null pointer is a page fault in the kernel, on which \<^verbatim>\<open>kerneltrap\<close> panics.\<close>

definition deref :: "u32 \<Rightarrow> 'a res \<Rightarrow> 'a res" where
  "deref p r = (if p = 0 then Inl (Panic ''kerneltrap'') else r)"

text \<open>
  Acquiring a lock that was left locked never succeeds: the hart that holds it panics and the others spin.
\<close>

definition acq :: "bool \<Rightarrow> 'a res \<Rightarrow> 'a res" where
  "acq locked r = (if locked then Inl Blocked else r)"

section \<open>Bytes\<close>

definition put16 :: "u16 \<Rightarrow> u8 list" where
  "put16 v = [ucast v, ucast (drop_bit 8 v)]"

definition put32 :: "u32 \<Rightarrow> u8 list" where
  "put32 v = map (\<lambda>k. byte32 k v) [0..<4]"

definition get16 :: "u8 list \<Rightarrow> nat \<Rightarrow> u16" where
  "get16 bs i = ucast (bs ! i) OR push_bit 8 (ucast (bs ! (i + 1)))"

definition get32 :: "u8 list \<Rightarrow> nat \<Rightarrow> u32" where
  "get32 bs i = le32 (bs ! i) (bs ! (i + 1)) (bs ! (i + 2)) (bs ! (i + 3))"

definition mb_write :: "u32 \<Rightarrow> int \<Rightarrow> u8 list \<Rightarrow> net \<Rightarrow> net" where
  "mb_write a off bs s =
    upd_mbuf a (\<lambda>m. m\<lparr>mb_data :=
      (\<lambda>i. if off \<le> i \<and> i < off + int (length bs) then bs ! nat (i - off) else mb_data m i)\<rparr>) s"

definition mb_read :: "u32 \<Rightarrow> int \<Rightarrow> nat \<Rightarrow> net \<Rightarrow> u8 list" where
  "mb_read a off n s = map (\<lambda>k. mb_data (mbufs s a) (off + int k)) [0..<n]"

section \<open>Packet buffers\<close>

definition MBUF_SIZE :: u32 where "MBUF_SIZE = 2048"
definition MBUF_DEFAULT_HEADROOM :: u32 where "MBUF_DEFAULT_HEADROOM = 128"

definition mbuf_alloc :: "u32 \<Rightarrow> net \<Rightarrow> net \<times> u32" where
  "mbuf_alloc headroom s =
    (if headroom > MBUF_SIZE then (s, 0)
     else
       let (s, m) = nkalloc s
       in if m = 0 then (s, 0)
          else (s\<lparr>mbufs := (mbufs s)(m := \<lparr>mb_nxt = 0, mb_head = uint headroom, mb_len = 0, mb_data = (\<lambda>_. 0)\<rparr>)\<rparr>, m))"

definition mbuf_free :: "ksyms \<Rightarrow> u32 \<Rightarrow> net \<Rightarrow> net res" where
  "mbuf_free ks m s = nkfree ks m s"

text \<open>The last three return a pointer into the buffer; \<^term>\<open>None\<close> is null.\<close>

definition mbuf_append :: "u32 \<Rightarrow> u32 \<Rightarrow> net \<Rightarrow> (net \<times> int) res" where
  "mbuf_append m len s =
    deref m (
      let ret = mb_head (mbufs s m) + uint (mb_len (mbufs s m));
          s = upd_mbuf m (\<lambda>b. b\<lparr>mb_len := mb_len b + len\<rparr>) s
      in if mb_len (mbufs s m) > MBUF_SIZE then Inl (Panic ''mbuf_append'') else Inr (s, ret))"

definition mbuf_trim :: "u32 \<Rightarrow> u32 \<Rightarrow> net \<Rightarrow> net \<times> int option" where
  "mbuf_trim m len s =
    (if len > mb_len (mbufs s m) then (s, None)
     else
       let s = upd_mbuf m (\<lambda>b. b\<lparr>mb_len := mb_len b - len\<rparr>) s
       in (s, Some (mb_head (mbufs s m) + uint (mb_len (mbufs s m)))))"

definition mbuf_prepend :: "u32 \<Rightarrow> u32 \<Rightarrow> net \<Rightarrow> (net \<times> int) res" where
  "mbuf_prepend m len s =
    deref m (
      let s = upd_mbuf m (\<lambda>b. b\<lparr>mb_head := mb_head b - uint len\<rparr>) s
      in if mb_head (mbufs s m) < 0 then Inl (Panic ''mbuf_prepend'')
         else
           let s = upd_mbuf m (\<lambda>b. b\<lparr>mb_len := mb_len b + len\<rparr>) s
           in Inr (s, mb_head (mbufs s m)))"

text \<open>\<^verbatim>\<open>mbuf_pop\<close>: the test \<^verbatim>\<open>m->len < 0\<close> is on an unsigned number and never true.\<close>

definition mbuf_pop :: "u32 \<Rightarrow> u32 \<Rightarrow> net \<Rightarrow> net \<times> int" where
  "mbuf_pop m len s =
    (let ret = mb_head (mbufs s m)
     in (upd_mbuf m (\<lambda>b. b\<lparr>mb_len := mb_len b - len, mb_head := mb_head b + uint len\<rparr>) s, ret))"

text \<open>\<^verbatim>\<open>mbuf_get_tail\<close>: there are fewer buffers than pages, so that \<open>2^20\<close> rounds reach the end of a list.\<close>

fun mbuf_get_tail_loop :: "nat \<Rightarrow> u32 \<Rightarrow> net \<Rightarrow> u32 res" where
  "mbuf_get_tail_loop 0 cur s = Inl Diverges"
| "mbuf_get_tail_loop (Suc fuel) cur s =
    (if mb_nxt (mbufs s cur) = 0 then Inr cur else mbuf_get_tail_loop fuel (mb_nxt (mbufs s cur)) s)"

definition mbuf_get_tail :: "u32 \<Rightarrow> net \<Rightarrow> u32 res" where
  "mbuf_get_tail m s = mbuf_get_tail_loop (2 ^ 20) m s"

section \<open>The network card, sending\<close>

definition TX_RING_SIZE :: nat where "TX_RING_SIZE = 16"
definition RX_RING_SIZE :: nat where "RX_RING_SIZE = 16"

definition e1000_send :: "ksyms \<Rightarrow> u32 \<Rightarrow> net \<Rightarrow> (net \<times> int) res" where
  "e1000_send ks m s =
    (let desc_pos = tdt (nic s)
     in if tx_status (nic s) desc_pos AND 1 = 0 then Inr (s, - 1)
        else
          ebind (if tx_mbufs (nic s) desc_pos \<noteq> 0 then mbuf_free ks (tx_mbufs (nic s) desc_pos) s else Inr s) (\<lambda>s.
            let n = nic s;
                b = mbufs s m
            in Inr (s\<lparr>nic := n\<lparr>tx_mbufs := (tx_mbufs n)(desc_pos := m),
                 tx_addr := (tx_addr n)(desc_pos := (m, mb_head b)),
                 tx_length := (tx_length n)(desc_pos := ucast (mb_len b)),
                 tx_cmd := (tx_cmd n)(desc_pos := 9),
                 tdt := Suc desc_pos mod TX_RING_SIZE\<rparr>\<rparr>, 0)))"

section \<open>Ethernet\<close>

definition ETH_TYPE_IPV4 :: u16 where "ETH_TYPE_IPV4 = 0x800"
definition ETH_TYPE_ARP :: u16 where "ETH_TYPE_ARP = 0x806"
definition ETHERNET_ADDR_ANY :: "u8 list" where "ETHERNET_ADDR_ANY = [0, 0, 0, 0, 0, 0]"
definition ETHERNET_ADDR_BROADCAST :: "u8 list" where "ETHERNET_ADDR_BROADCAST = [0xff, 0xff, 0xff, 0xff, 0xff, 0xff]"
definition LOCAL_MAC_ADDR :: "u8 list" where "LOCAL_MAC_ADDR = [0x52, 0x54, 0x0, 0x12, 0x34, 0x56]"
definition GATEWAY_MAC_ADDR :: "u8 list" where "GATEWAY_MAC_ADDR = [0x52, 0x55, 0xa, 0x0, 0x2, 0x2]"
definition LOCAL_IP_ADDR :: u32 where "LOCAL_IP_ADDR = 0x0a00020f"
definition GATEWAY_IP_ADDR :: u32 where "GATEWAY_IP_ADDR = 0x0a000202"

definition ethernet_tx :: "ksyms \<Rightarrow> u32 \<Rightarrow> u16 \<Rightarrow> u8 list \<Rightarrow> net \<Rightarrow> net res" where
  "ethernet_tx ks m type dst_mac s =
    ebind (mbuf_prepend m 14 s) (\<lambda>(s, hdr).
      let s = mb_write m hdr (dst_mac @ LOCAL_MAC_ADDR @ put16 (toggle_endian16 type)) s
      in ebind (e1000_send ks m s) (\<lambda>(s, r). if r < 0 then mbuf_free ks m s else Inr s))"

section \<open>ARP\<close>

definition ARP_TABLE_SIZE :: nat where "ARP_TABLE_SIZE = 2048"
definition ARP_OR_REQUEST :: u16 where "ARP_OR_REQUEST = 1"
definition ARP_OR_REPLY :: u16 where "ARP_OR_REPLY = 2"

definition arp_table_select :: "u32 \<Rightarrow> net \<Rightarrow> nat option" where
  "arp_table_select ip s = find (\<lambda>i. arp_used (arps s i) \<and> arp_ip (arps s i) = ip) [0..<ARP_TABLE_SIZE]"

definition arp_table_get_unused :: "net \<Rightarrow> nat option" where
  "arp_table_get_unused s = find (\<lambda>i. \<not> arp_used (arps s i)) [0..<ARP_TABLE_SIZE]"

definition arp_hdr :: "u16 \<Rightarrow> u8 list \<Rightarrow> u32 \<Rightarrow> u8 list" where
  "arp_hdr op hw_addr dst_ip =
    put16 (toggle_endian16 1) @ put16 (toggle_endian16 0x800) @ [6, 4] @ put16 (toggle_endian16 op) @
    LOCAL_MAC_ADDR @ put32 (toggle_endian32 LOCAL_IP_ADDR) @ hw_addr @ put32 (toggle_endian32 dst_ip)"

definition arp_tx :: "ksyms \<Rightarrow> u16 \<Rightarrow> u8 list \<Rightarrow> u8 list \<Rightarrow> u32 \<Rightarrow> net \<Rightarrow> (net \<times> int) res" where
  "arp_tx ks op hw_addr dst_mac dst_ip s =
    (let (s, m) = mbuf_alloc MBUF_DEFAULT_HEADROOM s
     in if m = 0 then Inr (s, - 1)
        else
          ebind (mbuf_append m 28 s) (\<lambda>(s, p).
          ebind (ethernet_tx ks m ETH_TYPE_ARP dst_mac (mb_write m p (arp_hdr op hw_addr dst_ip) s)) (\<lambda>s.
          Inr (s, 0))))"

definition arp_rx :: "ksyms \<Rightarrow> u32 \<Rightarrow> net \<Rightarrow> net res" where
  "arp_rx ks m s =
    (let (s, p) = mbuf_pop m 28 s;
         hdr = mb_read m p 28 s;
         sender_mac = take 6 (drop 8 hdr);
         sender_ip = toggle_endian32 (get32 hdr 14);
         op = toggle_endian16 (get16 hdr 6)
     in if op = ARP_OR_REQUEST
        then ebind (arp_tx ks ARP_OR_REPLY sender_mac sender_mac sender_ip s) (\<lambda>(s, _). Inr s)
        else if op = ARP_OR_REPLY
        then
          (case arp_table_get_unused s of
             Some i \<Rightarrow>
               Inr (s\<lparr>arps := (arps s)(i := \<lparr>arp_used = True, arp_ip = sender_ip, arp_mac = sender_mac\<rparr>)\<rparr>)
           | None \<Rightarrow> Inr s)
        else Inr s)"

text \<open>The result is 1 with the address, or 0, or -1.\<close>

definition arp_resolve :: "ksyms \<Rightarrow> u32 \<Rightarrow> net \<Rightarrow> (net \<times> int \<times> u8 list) res" where
  "arp_resolve ks ip s =
    (case arp_table_select ip s of
       Some i \<Rightarrow>
         if arp_mac (arps s i) = ETHERNET_ADDR_ANY
         then
           ebind (arp_tx ks ARP_OR_REQUEST ETHERNET_ADDR_ANY ETHERNET_ADDR_BROADCAST ip s) (\<lambda>(s, _).
           Inr (s, 0, []))
         else Inr (s, 1, arp_mac (arps s i))
     | None \<Rightarrow>
         (case arp_table_get_unused s of
            None \<Rightarrow> Inr (s, - 1, [])
          | Some _ \<Rightarrow>
              ebind (arp_tx ks ARP_OR_REQUEST GATEWAY_MAC_ADDR ETHERNET_ADDR_BROADCAST ip s) (\<lambda>(s, _).
              Inr (s, 0, []))))"

section \<open>IP\<close>

definition IP_PROTO_UDP :: u8 where "IP_PROTO_UDP = 17"
definition IP_PROTO_TCP :: u8 where "IP_PROTO_TCP = 6"

text \<open>\<^verbatim>\<open>checksum\<close> over the bytes \<open>bs\<close>, whose number is cut to 16 bits: the loop that adds the words, and the one that folds the carries.\<close>

fun checksum_add :: "u8 list \<Rightarrow> u32 \<Rightarrow> u32" where
  "checksum_add (a # b # bs) acc = checksum_add bs (acc + ucast (get16 [a, b] 0))"
| "checksum_add [a] acc = acc + ucast a"
| "checksum_add [] acc = acc"

function checksum_fold :: "u32 \<Rightarrow> u32" where
  "checksum_fold acc =
    (if drop_bit 16 acc \<noteq> 0 then checksum_fold (drop_bit 16 acc + (acc AND 0xffff)) else acc)"
  by pat_completeness auto
termination
proof (relation "measure unat")
  fix acc :: u32
  assume h: "drop_bit 16 acc \<noteq> 0"
  let ?n = "unat acc"
  have d: "unat (drop_bit 16 acc) = ?n div 65536" by (simp add: drop_bit_eq_div unat_div_distrib)
  have "acc AND 0xffff = acc mod 0x10000"
    using take_bit_eq_mask [of 16 acc] by (simp add: take_bit_eq_mod mask_eq_exp_minus_1)
  then have m: "unat (acc AND 0xffff) = ?n mod 65536" by (simp add: unat_mod_distrib)
  have pos: "?n div 65536 \<noteq> 0" using h d by (metis unat_eq_zero)
  have lt: "?n div 65536 < ?n div 65536 * 65536" using pos by simp
  have e: "?n = ?n div 65536 * 65536 + ?n mod 65536" by simp
  then have "?n div 65536 + ?n mod 65536 < ?n" using lt by linarith
  moreover from this have "unat (drop_bit 16 acc + (acc AND 0xffff)) = ?n div 65536 + ?n mod 65536"
    using order.strict_trans [OF _ unat_u32_lt [of acc]] by (simp add: unat_word_ariths d m)
  ultimately show "(drop_bit 16 acc + (acc AND 0xffff), acc) \<in> measure unat" by simp
qed simp

declare checksum_fold.simps [simp del]

definition checksum :: "u8 list \<Rightarrow> u32 \<Rightarrow> u16" where
  "checksum bs init = ucast (NOT (checksum_fold (checksum_add (take (length bs mod 2 ^ 16) bs) init)))"

definition ip_hdr :: "u16 \<Rightarrow> u8 \<Rightarrow> u16 \<Rightarrow> u32 \<Rightarrow> u8 list" where
  "ip_hdr len protocol acc dst_ip =
    [0x45, 0] @ put16 (toggle_endian16 len) @ [0, 0, 0, 0] @ [100, protocol] @ put16 acc @
    put32 (toggle_endian32 LOCAL_IP_ADDR) @ put32 (toggle_endian32 dst_ip)"

definition ip_tx :: "ksyms \<Rightarrow> u32 \<Rightarrow> u32 \<Rightarrow> u8 \<Rightarrow> net \<Rightarrow> net res" where
  "ip_tx ks m dst_ip protocol s =
    ebind (mbuf_prepend m 20 s) (\<lambda>(s, p).
      let len = ucast (mb_len (mbufs s m));
          acc = checksum (ip_hdr len protocol 0 dst_ip) 0;
          s = mb_write m p (ip_hdr len protocol acc dst_ip) s
      in ebind (if dst_ip \<noteq> 0
                then
                  ebind (arp_resolve ks dst_ip s) (\<lambda>(s, ret, mac).
                    Inr (s, if ret \<noteq> 1 then GATEWAY_MAC_ADDR else mac))
                else Inr (s, ETHERNET_ADDR_BROADCAST)) (\<lambda>(s, dst_mac).
         ethernet_tx ks m ETH_TYPE_IPV4 dst_mac s))"

end
