(* ===== verification/Udp.thy ===== *)
theory Udp
  imports Net Vm_Buf
begin

text \<open>
  \<^verbatim>\<open>kernel/udp.c\<close>: the table of control blocks, sending, and the reception of datagrams into the list of packet
  buffers of a control block. A control block is named by its index. \<^verbatim>\<open>udp_read\<close> is modelled up to the point
  where it returns or sleeps.
\<close>

section \<open>Operations\<close>

definition UDP_CB_TABLE_SIZE :: nat where "UDP_CB_TABLE_SIZE = 16"
definition USABLE_PORT_MIN :: nat where "USABLE_PORT_MIN = 49152"
definition USABLE_PORT_MAX :: nat where "USABLE_PORT_MAX = 65535"

definition UDP_SOCKET_ISINVALID :: "int \<Rightarrow> bool" where
  "UDP_SOCKET_ISINVALID x \<longleftrightarrow> x < 0 \<or> x \<ge> int UDP_CB_TABLE_SIZE"

definition upd_udp :: "nat \<Rightarrow> (udp_cb \<Rightarrow> udp_cb) \<Rightarrow> net \<Rightarrow> net" where
  "upd_udp i f s = s\<lparr>udps := (udps s)(i := f (udps s i))\<rparr>"

definition udp_zero :: udp_cb where
  "udp_zero = \<lparr>u_used = False, u_port = 0, u_addr = 0, u_pport = 0, u_mbufs = 0\<rparr>"

definition append_mbuf :: "nat \<Rightarrow> u32 \<Rightarrow> net \<Rightarrow> net res" where
  "append_mbuf i m s =
    (let s = upd_mbuf m (\<lambda>b. b\<lparr>mb_nxt := 0\<rparr>) s
     in if u_mbufs (udps s i) = 0 then Inr (upd_udp i (\<lambda>c. c\<lparr>u_mbufs := m\<rparr>) s)
        else
          ebind (mbuf_get_tail (u_mbufs (udps s i)) s) (\<lambda>tail.
          Inr (upd_mbuf tail (\<lambda>b. b\<lparr>mb_nxt := m\<rparr>) s)))"

definition udp_hdr :: "u16 \<Rightarrow> u16 \<Rightarrow> u16 \<Rightarrow> u16 \<Rightarrow> u8 list" where
  "udp_hdr src dst len ck = put16 src @ put16 dst @ put16 len @ put16 ck"

definition udp_tx :: "ksyms \<Rightarrow> u32 \<Rightarrow> nat \<Rightarrow> net \<Rightarrow> net res" where
  "udp_tx ks m i s =
    ebind (mbuf_prepend m 8 s) (\<lambda>(s, p).
      let cb = udps s i;
          len = toggle_endian16 (ucast (mb_len (mbufs s m)))
      in ip_tx ks m (toggle_endian32 (u_addr cb)) IP_PROTO_UDP
           (mb_write m p (udp_hdr (u_port cb) (u_pport cb) len 0) s))"

text \<open>The IP header is the 20 bytes at the offset \<open>iph\<close> of the buffer.\<close>

definition udp_rx :: "ksyms \<Rightarrow> nat option \<Rightarrow> u32 \<Rightarrow> u16 \<Rightarrow> int \<Rightarrow> net \<Rightarrow> net res" where
  "udp_rx ks me m len iph s =
    (if len < 8 then Inr s
     else
       let (s, p) = mbuf_pop m 8 s;
           src_ip_addr = get32 (mb_read m iph 20 s) 12;
           src_port = get16 (mb_read m p 8 s) 0;
           dst_port = get16 (mb_read m p 8 s) 2
       in case find (\<lambda>i. u_used (udps s i) \<and> u_addr (udps s i) = src_ip_addr \<and> u_pport (udps s i) = src_port \<and>
                u_port (udps s i) = dst_port) [0..<UDP_CB_TABLE_SIZE] of
            None \<Rightarrow> mbuf_free ks m s
          | Some i \<Rightarrow> ebind (append_mbuf i m s) (\<lambda>s. Inr (nwakeup me (ChUdp i) s)))"

text \<open>\<^verbatim>\<open>udp_open\<close> returns without releasing the lock when the peer is in use.\<close>

fun udp_open_loop :: "u32 \<Rightarrow> u16 \<Rightarrow> nat list \<Rightarrow> net \<Rightarrow> net \<times> int" where
  "udp_open_loop ip port [] s = (s, - 1)"
| "udp_open_loop ip port (i # is) s =
    (if u_used (udps s i)
     then if u_addr (udps s i) = ip \<and> u_pport (udps s i) = port then (s\<lparr>udp_lock := True\<rparr>, - 1)
          else udp_open_loop ip port is s
     else (upd_udp i (\<lambda>c. c\<lparr>u_used := True\<rparr>) s, int i))"

definition udp_open :: "u32 \<Rightarrow> u16 \<Rightarrow> net \<Rightarrow> (net \<times> int) res" where
  "udp_open ip port s = acq (udp_lock s) (Inr (udp_open_loop ip port [0..<UDP_CB_TABLE_SIZE] s))"

definition udp_close :: "int \<Rightarrow> net \<Rightarrow> (net \<times> int) res" where
  "udp_close soc s =
    (if UDP_SOCKET_ISINVALID soc then Inr (s, - 1)
     else
       acq (udp_lock s) (
         if \<not> u_used (udps s (nat soc)) then Inr (s, - 1)
         else Inr (upd_udp (nat soc) (\<lambda>_. udp_zero) s, 0)))"

definition udp_port_free :: "net \<Rightarrow> nat \<Rightarrow> bool" where
  "udp_port_free s port \<longleftrightarrow>
    (\<forall>i \<in> set [0..<UDP_CB_TABLE_SIZE]. \<not> (u_used (udps s i) \<and> u_port (udps s i) = toggle_endian16 (of_nat port)))"

definition udp_connect :: "int \<Rightarrow> u32 \<Rightarrow> u32 \<Rightarrow> net \<Rightarrow> (net \<times> int) res" where
  "udp_connect soc dst_ip dst_port s =
    (if UDP_SOCKET_ISINVALID soc then Inr (s, - 1)
     else
       acq (udp_lock s) (
         let i = nat soc
         in if \<not> u_used (udps s i) then Inr (s, - 1)
            else
              let s = upd_udp i (\<lambda>c. c\<lparr>u_addr := toggle_endian32 dst_ip, u_pport := toggle_endian16 (ucast dst_port)\<rparr>) s
              in if u_port (udps s i) = 0
                 then
                   (case find (udp_port_free s) [USABLE_PORT_MIN..<Suc USABLE_PORT_MAX] of
                      Some port \<Rightarrow> Inr (upd_udp i (\<lambda>c. c\<lparr>u_port := toggle_endian16 (of_nat port)\<rparr>) s, 0)
                    | None \<Rightarrow> Inr (s, - 1))
                 else Inr (s, 0)))"

definition udp_send :: "ksyms \<Rightarrow> u32 \<Rightarrow> int \<Rightarrow> net \<Rightarrow> (net \<times> int) res" where
  "udp_send ks m soc s =
    (if UDP_SOCKET_ISINVALID soc then Inr (s, - 1)
     else
       acq (udp_lock s) (
         if \<not> u_used (udps s (nat soc)) then Inr (s, - 1)
         else ebind (udp_tx ks m (nat soc) s) (\<lambda>s. Inr (s, 0))))"

definition udp_read :: "ksyms \<Rightarrow> nat \<Rightarrow> nat \<Rightarrow> u32 \<Rightarrow> u32 \<Rightarrow> net \<Rightarrow> (net \<times> int progress) res" where
  "udp_read ks me i addr len s =
    (let m = u_mbufs (udps s i)
     in if m = 0 then Inr (nsleep me (ChUdp i) s, Sleeps (ChUdp i))
        else
          let s = upd_udp i (\<lambda>c. c\<lparr>u_mbufs := mb_nxt (mbufs s m)\<rparr>) s;
              len = (if len > mb_len (mbufs s m) then mb_len (mbufs s m) else len);
              bs = mb_read m (mb_head (mbufs s m)) (unat len) s
          in ebind (copyout_buf (mm (ntbl s)) (pagetable (procs (ntbl s) me)) addr bs) (\<lambda>(k, r).
               let s = s\<lparr>ntbl := (ntbl s)\<lparr>mm := k\<rparr>\<rparr>
               in ebind (mbuf_free ks m s) (\<lambda>s.
                    Inr (s, Return (if r < 0 then - 1 else sint len)))))"

end
