(* ===== verification/Tcp.thy ===== *)
theory Tcp
  imports Net Vm_Buf Udp
begin

text \<open>
  \<^verbatim>\<open>kernel/tcp.c\<close>: the control blocks, sending, the handling of incoming segments and the operations of the
  sockets. A control block is named by its index in \<^verbatim>\<open>cb_table\<close>, and its buffer holds the bytes received and not yet
  read at the front. Operations that sleep are modelled up to the point where they return or sleep, and there is a
  definition for what they do after that.
\<close>

section \<open>Sending\<close>

definition TCP_CB_TABLE_SIZE :: nat where "TCP_CB_TABLE_SIZE = 16"
definition TCP_BUF_SIZE :: nat where "TCP_BUF_SIZE = 8192"
definition TCP_FLG_FIN :: u8 where "TCP_FLG_FIN = 0x01"
definition TCP_FLG_SYN :: u8 where "TCP_FLG_SYN = 0x02"
definition TCP_FLG_RST :: u8 where "TCP_FLG_RST = 0x04"
definition TCP_FLG_PSH :: u8 where "TCP_FLG_PSH = 0x08"
definition TCP_FLG_ACK :: u8 where "TCP_FLG_ACK = 0x10"

definition TCP_FLG_IS :: "u8 \<Rightarrow> u8 \<Rightarrow> bool" where
  "TCP_FLG_IS x y \<longleftrightarrow> x AND 0x3f = y"

definition TCP_FLG_ISSET :: "u8 \<Rightarrow> u8 \<Rightarrow> bool" where
  "TCP_FLG_ISSET x y \<longleftrightarrow> (x AND 0x3f) AND y \<noteq> 0"

definition TX_ISREADY :: "tcp_cb \<Rightarrow> bool" where
  "TX_ISREADY cb \<longleftrightarrow> t_state cb \<in> {ESTABLISHED, CLOSE_WAIT}"

definition RX_ISREADY :: "tcp_cb \<Rightarrow> bool" where
  "RX_ISREADY cb \<longleftrightarrow> t_state cb \<in> {ESTABLISHED, FIN_WAIT1, FIN_WAIT2}"

definition TCP_SOCKET_ISINVALID :: "int \<Rightarrow> bool" where
  "TCP_SOCKET_ISINVALID x \<longleftrightarrow> x < 0 \<or> x \<ge> int TCP_CB_TABLE_SIZE"

definition upd_tcp :: "nat \<Rightarrow> (tcp_cb \<Rightarrow> tcp_cb) \<Rightarrow> net \<Rightarrow> net" where
  "upd_tcp i f s = s\<lparr>tcps := (tcps s)(i := f (tcps s i))\<rparr>"

definition tcp_zero :: tcp_cb where
  "tcp_zero = \<lparr>t_used = False, t_state = CLOSED, t_port = 0, t_addr = 0, t_pport = 0, snd_nxt = 0, snd_una = 0,
    iss = 0, rcv_nxt = 0, rcv_wnd = 0, irs = 0, txq = [], tbuf = (\<lambda>_. 0), tparent = None,
    backlog = \<lparr>q_next = 0, q_tail = 0, q_num = 0\<rparr>\<rparr>"

text \<open>In the queues of control blocks the pointer to the block \<open>i\<close> is the number \<open>i + 1\<close>.\<close>

definition cb_ptr :: "nat \<Rightarrow> u32" where "cb_ptr i = of_nat (Suc i)"

definition cb_of_ptr :: "u32 \<Rightarrow> nat" where "cb_of_ptr p = unat p - 1"

definition tcp_txq_add :: "ksyms \<Rightarrow> nat \<Rightarrow> u32 \<Rightarrow> int \<Rightarrow> u32 \<Rightarrow> net \<Rightarrow> (net \<times> int) res" where
  "tcp_txq_add ks i m hdr len s =
    (let (s, q) = nkalloc s
     in if q = 0 then Inr (s, - 1)
        else
          let (s, segment) = nkalloc s
          in if segment = 0 then ebind (nkfree ks q s) (\<lambda>s. Inr (s, - 1))
             else Inr (upd_tcp i (\<lambda>c. c\<lparr>txq := txq c @ [(q, segment, mb_read m hdr (unat len) s)]\<rparr>) s, 0))"

fun tcp_txq_free :: "ksyms \<Rightarrow> (u32 \<times> u32 \<times> u8 list) list \<Rightarrow> net \<Rightarrow> net res" where
  "tcp_txq_free ks [] s = Inr s"
| "tcp_txq_free ks ((q, segment, _) # es) s =
    ebind (nkfree ks segment s) (\<lambda>s. ebind (nkfree ks q s) (\<lambda>s. tcp_txq_free ks es s))"

text \<open>
  \<^verbatim>\<open>tcp_cb_clear\<close>. Every round takes a page off a queue, so \<open>2^20\<close> rounds are enough. The equation for the
  next round of the second loop frees the transmission queue again, which is empty by then.
\<close>

fun tcp_cb_clear_loop :: "nat \<Rightarrow> ksyms \<Rightarrow> nat \<Rightarrow> net \<Rightarrow> net res" where
  "tcp_cb_clear_loop 0 ks i s = Inl Diverges"
| "tcp_cb_clear_loop (Suc fuel) ks i s =
    ebind (tcp_txq_free ks (txq (tcps s i)) s) (\<lambda>s.
      let s = upd_tcp i (\<lambda>c. c\<lparr>txq := []\<rparr>) s;
          (q, entry) = queue_pop (backlog (tcps s i)) \<lparr>qmem = mm (ntbl s), qents = nqents s\<rparr>;
          s = upd_tcp i (\<lambda>c. c\<lparr>backlog := q\<rparr>) s
      in if entry = 0 then Inr (upd_tcp i (\<lambda>_. tcp_zero) s)
         else
           let b = cb_of_ptr (qe_data (nqents s entry))
           in ebind (nkfree ks entry s) (\<lambda>s.
              ebind (tcp_cb_clear_loop fuel ks b s) (\<lambda>s. tcp_cb_clear_loop fuel ks i s)))"

definition tcp_cb_clear :: "ksyms \<Rightarrow> nat \<Rightarrow> net \<Rightarrow> net res" where
  "tcp_cb_clear ks i s = tcp_cb_clear_loop (2 ^ 20) ks i s"

definition tcp_hdr :: "u16 \<Rightarrow> u16 \<Rightarrow> u32 \<Rightarrow> u32 \<Rightarrow> u8 \<Rightarrow> u16 \<Rightarrow> u16 \<Rightarrow> u8 list" where
  "tcp_hdr src dst seq ack flg win ck =
    put16 src @ put16 dst @ put32 (toggle_endian32 seq) @ put32 (toggle_endian32 ack) @ [0x50, flg] @
    put16 (toggle_endian16 win) @ put16 ck @ put16 0"

definition pseudo_sum :: "u32 \<Rightarrow> u32 \<Rightarrow> u32" where
  "pseudo_sum remote_ip len =
    (let local_ip = toggle_endian32 LOCAL_IP_ADDR
     in (drop_bit 16 local_ip AND 0xffff) + (local_ip AND 0xffff) + (drop_bit 16 remote_ip AND 0xffff) +
        (remote_ip AND 0xffff) + ucast (toggle_endian16 (ucast IP_PROTO_TCP)) + ucast (toggle_endian16 (ucast (20 + len))))"

definition tcp_tx :: "ksyms \<Rightarrow> u32 \<Rightarrow> nat \<Rightarrow> u32 \<Rightarrow> u32 \<Rightarrow> u8 \<Rightarrow> u32 \<Rightarrow> net \<Rightarrow> (net \<times> int) res" where
  "tcp_tx ks m i seq ack flg len s =
    ebind (mbuf_prepend m 20 s) (\<lambda>(s, hdr).
      let cb = tcps s i;
          h = tcp_hdr (t_port cb) (t_pport cb) seq ack flg (rcv_wnd cb);
          s = mb_write m hdr (h 0) s;
          ck = checksum (mb_read m hdr (unat (20 + len)) s) (pseudo_sum (t_addr cb) len);
          s = mb_write m hdr (h ck) s
      in ebind (ip_tx ks m (toggle_endian32 (t_addr cb)) IP_PROTO_TCP s) (\<lambda>s.
         ebind (tcp_txq_add ks i m hdr (20 + len) s) (\<lambda>(s, _). Inr (s, sint len))))"

definition tcp_tx_empty :: "ksyms \<Rightarrow> nat \<Rightarrow> u32 \<Rightarrow> u32 \<Rightarrow> u8 \<Rightarrow> net \<Rightarrow> net res" where
  "tcp_tx_empty ks i seq ack flg s =
    (let (s, m) = mbuf_alloc 54 s in ebind (tcp_tx ks m i seq ack flg 0 s) (\<lambda>(s, _). Inr s))"

section \<open>Incoming segments\<close>

text \<open>The fields of a segment whose header is the list of bytes \<open>h\<close>.\<close>

definition h_seq :: "u8 list \<Rightarrow> u32" where "h_seq h = toggle_endian32 (get32 h 4)"
definition h_ack :: "u8 list \<Rightarrow> u32" where "h_ack h = toggle_endian32 (get32 h 8)"
definition h_off :: "u8 list \<Rightarrow> u32" where "h_off h = ucast (drop_bit 4 (h ! 12))"
definition h_flg :: "u8 list \<Rightarrow> u8" where "h_flg h = h ! 13"

text \<open>The first switch of \<^verbatim>\<open>tcp_incoming_event\<close>, one definition for each case.\<close>

definition tcp_in_closed :: "ksyms \<Rightarrow> nat \<Rightarrow> u8 list \<Rightarrow> u32 \<Rightarrow> net \<Rightarrow> net res" where
  "tcp_in_closed ks i h plen s =
    (if TCP_FLG_ISSET (h_flg h) TCP_FLG_RST then Inr s
     else if TCP_FLG_ISSET (h_flg h) TCP_FLG_ACK then tcp_tx_empty ks i (h_ack h) 0 TCP_FLG_RST s
     else
       let ack = h_seq h;
           ack = (if TCP_FLG_ISSET (h_flg h) TCP_FLG_SYN then ack + 1 else ack);
           ack = (if plen \<noteq> 0 then ack + plen else ack);
           ack = (if TCP_FLG_ISSET (h_flg h) TCP_FLG_FIN then ack + 1 else ack)
       in tcp_tx_empty ks i 0 ack TCP_FLG_RST s)"

definition tcp_in_listen :: "ksyms \<Rightarrow> nat \<Rightarrow> u8 list \<Rightarrow> net \<Rightarrow> net res" where
  "tcp_in_listen ks i h s =
    (if TCP_FLG_ISSET (h_flg h) TCP_FLG_RST then Inr s
     else if TCP_FLG_ISSET (h_flg h) TCP_FLG_ACK then tcp_tx_empty ks i (h_ack h) 0 TCP_FLG_RST s
     else if TCP_FLG_ISSET (h_flg h) TCP_FLG_SYN
     then
       let (r, nxt) = rand (rand_next s);
           s = upd_tcp i (\<lambda>c. c\<lparr>iss := word_of_int r, rcv_nxt := h_seq h + 1, irs := h_seq h\<rparr>) (s\<lparr>rand_next := nxt\<rparr>)
       in ebind (tcp_tx_empty ks i (iss (tcps s i)) (rcv_nxt (tcps s i)) (TCP_FLG_SYN OR TCP_FLG_ACK) s) (\<lambda>s.
          Inr (upd_tcp i (\<lambda>c. c\<lparr>t_state := SYN_RCVD, snd_nxt := iss c + 1, snd_una := iss c\<rparr>) s))
     else Inr s)"

definition tcp_in_syn_sent :: "ksyms \<Rightarrow> nat option \<Rightarrow> nat \<Rightarrow> u8 list \<Rightarrow> net \<Rightarrow> net res" where
  "tcp_in_syn_sent ks me i h s =
    (let cb = tcps s i; isset = TCP_FLG_ISSET (h_flg h)
     in if isset TCP_FLG_ACK \<and> (h_ack h \<le> iss cb \<or> h_ack h > snd_nxt cb)
        then if \<not> isset TCP_FLG_RST then tcp_tx_empty ks i (h_ack h) 0 TCP_FLG_RST s else Inr s
        else if isset TCP_FLG_RST then Inr s
        else if isset TCP_FLG_SYN
        then
          let s = upd_tcp i (\<lambda>c. c\<lparr>rcv_nxt := h_seq h + 1, irs := h_seq h\<rparr>) s
          in if isset TCP_FLG_ACK
             then
               let s = upd_tcp i (\<lambda>c. c\<lparr>snd_una := h_ack h\<rparr>) s
               in if snd_una (tcps s i) > iss (tcps s i)
                  then
                    let s = upd_tcp i (\<lambda>c. c\<lparr>t_state := ESTABLISHED\<rparr>) s
                    in ebind (tcp_tx_empty ks i (snd_nxt (tcps s i)) (rcv_nxt (tcps s i)) TCP_FLG_ACK s) (\<lambda>s.
                       Inr (nwakeup me (ChTcp i) s))
                  else Inr s
             else tcp_tx_empty ks i (iss (tcps s i)) (rcv_nxt (tcps s i)) TCP_FLG_ACK s
        else Inr s)"

text \<open>
  The second switch, on the acknowledgement. The result tells whether the code goes on to the text of the segment.
\<close>

definition tcp_in_ack_data :: "ksyms \<Rightarrow> nat option \<Rightarrow> nat \<Rightarrow> u8 list \<Rightarrow> net \<Rightarrow> (net \<times> bool) res" where
  "tcp_in_ack_data ks me i h s =
    (let cb = tcps s i
     in if \<not> (snd_una cb < h_ack h \<and> h_ack h \<le> snd_nxt cb) \<and> h_ack h > snd_nxt cb
        then ebind (tcp_tx_empty ks i (snd_nxt cb) (rcv_nxt cb) TCP_FLG_ACK s) (\<lambda>s. Inr (s, False))
        else
          let s = (if snd_una cb < h_ack h \<and> h_ack h \<le> snd_nxt cb then upd_tcp i (\<lambda>c. c\<lparr>snd_una := h_ack h\<rparr>) s else s)
          in if t_state (tcps s i) = FIN_WAIT1
             then Inr (if h_ack h = snd_nxt (tcps s i) then upd_tcp i (\<lambda>c. c\<lparr>t_state := FIN_WAIT2\<rparr>) s else s, True)
             else if t_state (tcps s i) = CLOSING
             then
               Inr (if h_ack h = snd_nxt (tcps s i)
                    then nwakeup me (ChTcp i) (upd_tcp i (\<lambda>c. c\<lparr>t_state := TIME_WAIT\<rparr>) s) else s, False)
             else Inr (s, True))"

definition tcp_in_syn_rcvd :: "ksyms \<Rightarrow> nat option \<Rightarrow> nat \<Rightarrow> u8 list \<Rightarrow> net \<Rightarrow> (net \<times> bool) res" where
  "tcp_in_syn_rcvd ks me i h s =
    (if snd_una (tcps s i) \<le> h_ack h \<and> h_ack h \<le> snd_nxt (tcps s i)
     then
       let s = upd_tcp i (\<lambda>c. c\<lparr>t_state := ESTABLISHED\<rparr>) s
       in (case tparent (tcps s i) of
             None \<Rightarrow> Inl (Panic ''kerneltrap'')
           | Some p \<Rightarrow>
               let (qs, q, _) = queue_push (cb_ptr i) 8268 (backlog (tcps s p)) \<lparr>qmem = mm (ntbl s), qents = nqents s\<rparr>;
                   s = upd_tcp p (\<lambda>c. c\<lparr>backlog := q\<rparr>) (s\<lparr>ntbl := (ntbl s)\<lparr>mm := qmem qs\<rparr>, nqents := qents qs\<rparr>)
               in tcp_in_ack_data ks me i h (nwakeup me (ChTcp p) s))
     else ebind (tcp_tx_empty ks i (h_ack h) 0 TCP_FLG_RST s) (\<lambda>s. Inr (s, True)))"

definition tcp_in_ack :: "ksyms \<Rightarrow> nat option \<Rightarrow> nat \<Rightarrow> u8 list \<Rightarrow> net \<Rightarrow> (net \<times> bool) res" where
  "tcp_in_ack ks me i h s =
    (case t_state (tcps s i) of
       SYN_RCVD \<Rightarrow> tcp_in_syn_rcvd ks me i h s
     | LAST_ACK \<Rightarrow> ebind (tcp_cb_clear ks i (nwakeup me (ChTcp i) s)) (\<lambda>s. Inr (s, False))
     | st \<Rightarrow>
         if st \<in> {ESTABLISHED, FIN_WAIT1, FIN_WAIT2, CLOSE_WAIT, CLOSING} then tcp_in_ack_data ks me i h s
         else Inr (s, True))"

text \<open>
  The text of the segment goes behind the bytes that wait in the buffer. Nothing compares its length with the room
  that is left there.
\<close>

definition tcp_in_text :: "ksyms \<Rightarrow> nat option \<Rightarrow> nat \<Rightarrow> u32 \<Rightarrow> u8 list \<Rightarrow> u32 \<Rightarrow> int \<Rightarrow> net \<Rightarrow> net res" where
  "tcp_in_text ks me i m h plen text s =
    (if plen \<noteq> 0 \<and> RX_ISREADY (tcps s i)
     then
       let cb = tcps s i;
           at = TCP_BUF_SIZE - unat (rcv_wnd cb)
       in if unat (rcv_wnd cb) > TCP_BUF_SIZE \<or> at + unat plen > TCP_BUF_SIZE then Inl Overrun
          else
            let bs = mb_read m text (unat plen) s;
                s = upd_tcp i (\<lambda>c. c\<lparr>rcv_nxt := h_seq h + plen, rcv_wnd := rcv_wnd c - ucast plen,
                      tbuf := (\<lambda>k. if at \<le> k \<and> k < at + length bs then bs ! (k - at) else tbuf c k)\<rparr>) s
            in ebind (tcp_tx_empty ks i (snd_nxt (tcps s i)) (rcv_nxt (tcps s i)) TCP_FLG_ACK s) (\<lambda>s.
               Inr (nwakeup me (ChTcp i) s))
     else Inr s)"

definition tcp_in_fin :: "ksyms \<Rightarrow> nat option \<Rightarrow> nat \<Rightarrow> u8 list \<Rightarrow> net \<Rightarrow> net res" where
  "tcp_in_fin ks me i h s =
    (if TCP_FLG_ISSET (h_flg h) TCP_FLG_FIN
     then
       let s = upd_tcp i (\<lambda>c. c\<lparr>rcv_nxt := rcv_nxt c + 1\<rparr>) s
       in ebind (tcp_tx_empty ks i (snd_nxt (tcps s i)) (rcv_nxt (tcps s i)) TCP_FLG_ACK s) (\<lambda>s.
          Inr (case t_state (tcps s i) of
             SYN_RCVD \<Rightarrow> nwakeup me (ChTcp i) (upd_tcp i (\<lambda>c. c\<lparr>t_state := CLOSE_WAIT\<rparr>) s)
           | ESTABLISHED \<Rightarrow> nwakeup me (ChTcp i) (upd_tcp i (\<lambda>c. c\<lparr>t_state := CLOSE_WAIT\<rparr>) s)
           | FIN_WAIT1 \<Rightarrow> upd_tcp i (\<lambda>c. c\<lparr>t_state := FIN_WAIT2\<rparr>) s
           | FIN_WAIT2 \<Rightarrow> nwakeup me (ChTcp i) (upd_tcp i (\<lambda>c. c\<lparr>t_state := TIME_WAIT\<rparr>) s)
           | _ \<Rightarrow> s))
     else Inr s)"

definition tcp_incoming_event :: "ksyms \<Rightarrow> nat option \<Rightarrow> nat \<Rightarrow> u32 \<Rightarrow> int \<Rightarrow> u32 \<Rightarrow> net \<Rightarrow> net res" where
  "tcp_incoming_event ks me i m hdr len s =
    (let h = mb_read m hdr 20 s;
         hlen = h_off h * 4;
         plen = len - hlen
     in case t_state (tcps s i) of
          CLOSED \<Rightarrow> tcp_in_closed ks i h plen s
        | LISTEN \<Rightarrow> tcp_in_listen ks i h s
        | SYN_SENT \<Rightarrow> tcp_in_syn_sent ks me i h s
        | _ \<Rightarrow>
            if h_seq h \<noteq> rcv_nxt (tcps s i) \<or> TCP_FLG_ISSET (h_flg h) (TCP_FLG_RST OR TCP_FLG_SYN) \<or>
               \<not> TCP_FLG_ISSET (h_flg h) TCP_FLG_ACK then Inr s
            else
              ebind (tcp_in_ack ks me i h s) (\<lambda>(s, go).
                if go
                then ebind (tcp_in_text ks me i m h plen (hdr + uint hlen) s) (\<lambda>s. tcp_in_fin ks me i h s)
                else Inr s))"

text \<open>\<^verbatim>\<open>tcp_rx\<close>: the search for the block of the connection, a free block and a listening one.\<close>

definition tcp_match :: "u32 \<Rightarrow> u16 \<Rightarrow> u16 \<Rightarrow> tcp_cb \<Rightarrow> bool" where
  "tcp_match src_ip src_port dst_port cb \<longleftrightarrow>
    t_used cb \<and> t_port cb = dst_port \<and> t_addr cb = src_ip \<and> t_pport cb = src_port"

definition tcp_rx_find :: "u32 \<Rightarrow> u16 \<Rightarrow> u16 \<Rightarrow> u8 \<Rightarrow> net \<Rightarrow> (net \<times> nat) option" where
  "tcp_rx_find src_ip src_port dst_port flg s =
    (case find (\<lambda>i. tcp_match src_ip src_port dst_port (tcps s i)) [0..<TCP_CB_TABLE_SIZE] of
       Some i \<Rightarrow> Some (s, i)
     | None \<Rightarrow>
         (case (find (\<lambda>i. \<not> t_used (tcps s i)) [0..<TCP_CB_TABLE_SIZE],
                find (\<lambda>i. t_used (tcps s i) \<and> t_port (tcps s i) = dst_port \<and> t_state (tcps s i) = LISTEN)
                  [0..<TCP_CB_TABLE_SIZE]) of
            (Some f, Some l) \<Rightarrow>
              if TCP_FLG_IS flg TCP_FLG_SYN
              then Some (upd_tcp f (\<lambda>c. c\<lparr>t_used := True, t_state := t_state (tcps s l), t_port := t_port (tcps s l),
                     t_addr := src_ip, t_pport := src_port, rcv_wnd := of_nat TCP_BUF_SIZE, tparent := Some l\<rparr>) s, f)
              else None
          | _ \<Rightarrow> None))"

definition tcp_rx :: "ksyms \<Rightarrow> nat option \<Rightarrow> u32 \<Rightarrow> u16 \<Rightarrow> int \<Rightarrow> net \<Rightarrow> net res" where
  "tcp_rx ks me m len iph s =
    (let (s, hdr) = mbuf_pop m 20 s
     in if len < 20 then Inr s
        else
          let h = mb_read m hdr 20 s;
              src_ip_addr = get32 (mb_read m iph 20 s) 12
          in acq (tcp_lock s) (
             case tcp_rx_find src_ip_addr (get16 h 0) (get16 h 2) (h_flg h) s of
               None \<Rightarrow> Inr s
             | Some (s, i) \<Rightarrow>
                 let diff = ucast (h_off h) * 4 - 20 :: u16;
                     (s, _) = mbuf_trim m (ucast diff) s
                 in tcp_incoming_event ks me i m hdr (ucast len - ucast diff) s))"

section \<open>Sockets\<close>

text \<open>\<^verbatim>\<open>tcp_open\<close> returns without releasing the lock when the peer is in use.\<close>

fun tcp_open_loop :: "u32 \<Rightarrow> u16 \<Rightarrow> nat list \<Rightarrow> net \<Rightarrow> net \<times> int" where
  "tcp_open_loop ip port [] s = (s, - 1)"
| "tcp_open_loop ip port (i # is) s =
    (if t_used (tcps s i)
     then if t_addr (tcps s i) = ip \<and> t_pport (tcps s i) = port then (s\<lparr>tcp_lock := True\<rparr>, - 1)
          else tcp_open_loop ip port is s
     else (upd_tcp i (\<lambda>c. c\<lparr>t_used := True\<rparr>) s, int i))"

definition tcp_open :: "u32 \<Rightarrow> u16 \<Rightarrow> net \<Rightarrow> (net \<times> int) res" where
  "tcp_open ip port s = acq (tcp_lock s) (Inr (tcp_open_loop ip port [0..<TCP_CB_TABLE_SIZE] s))"

text \<open>\<^verbatim>\<open>tcp_close\<close> up to its sleep, and what it does when it is woken.\<close>

definition tcp_close_woken :: "ksyms \<Rightarrow> nat \<Rightarrow> net \<Rightarrow> (net \<times> int progress) res" where
  "tcp_close_woken ks i s = ebind (tcp_cb_clear ks i s) (\<lambda>s. Inr (s, Return 0))"

definition tcp_close :: "ksyms \<Rightarrow> nat \<Rightarrow> int \<Rightarrow> net \<Rightarrow> (net \<times> int progress) res" where
  "tcp_close ks me soc s =
    (if TCP_SOCKET_ISINVALID soc then Inr (s, Return (- 1))
     else
       acq (tcp_lock s) (
         let i = nat soc;
             cb = tcps s i;
             finish = (\<lambda>st.
               ebind (tcp_tx_empty ks i (snd_nxt cb) (rcv_nxt cb) (TCP_FLG_FIN OR TCP_FLG_ACK) s) (\<lambda>s.
               Inr (nsleep me (ChTcp i) (upd_tcp i (\<lambda>c. c\<lparr>t_state := st, snd_nxt := snd_nxt c + 1\<rparr>) s), Sleeps (ChTcp i))))
         in if \<not> t_used cb then Inr (s, Return (- 1))
            else if t_state cb \<in> {SYN_RCVD, ESTABLISHED} then finish FIN_WAIT1
            else if t_state cb = CLOSE_WAIT then finish LAST_ACK
            else tcp_close_woken ks i s))"

definition tcp_port_free :: "net \<Rightarrow> nat \<Rightarrow> bool" where
  "tcp_port_free s port \<longleftrightarrow>
    (\<forall>i \<in> set [0..<TCP_CB_TABLE_SIZE]. \<not> (t_used (tcps s i) \<and> t_port (tcps s i) = toggle_endian16 (of_nat port)))"

definition tcp_connect_wait :: "nat \<Rightarrow> nat \<Rightarrow> net \<Rightarrow> net \<times> int progress" where
  "tcp_connect_wait me i s =
    (if t_state (tcps s i) = SYN_SENT then (nsleep me (ChTcp i) s, Sleeps (ChTcp i)) else (s, Return 0))"

definition tcp_connect_syn :: "ksyms \<Rightarrow> nat \<Rightarrow> u32 \<Rightarrow> nat \<Rightarrow> u32 \<Rightarrow> u32 \<Rightarrow> net \<Rightarrow> (net \<times> int progress) res" where
  "tcp_connect_syn ks me m i dst_ip dst_port s =
    (let (r, nxt) = rand (rand_next s);
         s = upd_tcp i (\<lambda>c. c\<lparr>t_addr := toggle_endian32 dst_ip, t_pport := toggle_endian16 (ucast dst_port),
               iss := word_of_int r, rcv_wnd := of_nat TCP_BUF_SIZE\<rparr>) (s\<lparr>rand_next := nxt\<rparr>)
     in ebind (tcp_tx ks m i (iss (tcps s i)) 0 TCP_FLG_SYN 0 s) (\<lambda>(s, _).
        Inr (tcp_connect_wait me i (upd_tcp i (\<lambda>c. c\<lparr>t_state := SYN_SENT, snd_nxt := iss c + 1\<rparr>) s))))"

definition tcp_connect :: "ksyms \<Rightarrow> nat \<Rightarrow> u32 \<Rightarrow> int \<Rightarrow> u32 \<Rightarrow> u32 \<Rightarrow> net \<Rightarrow> (net \<times> int progress) res" where
  "tcp_connect ks me m soc dst_ip dst_port s =
    (if TCP_SOCKET_ISINVALID soc then Inr (s, Return (- 1))
     else
       acq (tcp_lock s) (
         let i = nat soc
         in if \<not> t_used (tcps s i) \<or> t_state (tcps s i) \<noteq> CLOSED then Inr (s, Return (- 1))
            else if t_port (tcps s i) = 0
            then
              (case find (tcp_port_free s) [USABLE_PORT_MIN..<Suc USABLE_PORT_MAX] of
                 Some port \<Rightarrow>
                   tcp_connect_syn ks me m i dst_ip dst_port (upd_tcp i (\<lambda>c. c\<lparr>t_port := toggle_endian16 (of_nat port)\<rparr>) s)
               | None \<Rightarrow> Inr (s, Return (- 1)))
            else tcp_connect_syn ks me m i dst_ip dst_port s))"

definition tcp_send :: "ksyms \<Rightarrow> u32 \<Rightarrow> int \<Rightarrow> u32 \<Rightarrow> net \<Rightarrow> (net \<times> int) res" where
  "tcp_send ks m soc len s =
    (if TCP_SOCKET_ISINVALID soc then Inr (s, - 1)
     else
       acq (tcp_lock s) (
         let i = nat soc; cb = tcps s i
         in if \<not> t_used cb \<or> \<not> TX_ISREADY cb then Inr (s, - 1)
            else
              ebind (tcp_tx ks m i (snd_nxt cb) (rcv_nxt cb) (TCP_FLG_ACK OR TCP_FLG_PSH) len s) (\<lambda>(s, _).
              Inr (upd_tcp i (\<lambda>c. c\<lparr>snd_nxt := snd_nxt c + len\<rparr>) s, 0))))"

text \<open>
  \<^verbatim>\<open>tcp_read\<close>: the loop, which is also where a woken reader goes on, and the entry. A copy that fails returns
  with the lock held.
\<close>

definition tcp_read_loop :: "nat \<Rightarrow> nat \<Rightarrow> u32 \<Rightarrow> u32 \<Rightarrow> net \<Rightarrow> (net \<times> int progress) res" where
  "tcp_read_loop me i addr sz s =
    (let cb = tcps s i;
         total = 8192 - ucast (rcv_wnd cb) :: u32
     in if total = 0
        then if \<not> RX_ISREADY cb then Inr (s, Return 0) else Inr (nsleep me (ChTcp i) s, Sleeps (ChTcp i))
        else
          let len = (if sz < total then sz else total)
          in ebind (copyout_buf (mm (ntbl s)) (pagetable (procs (ntbl s) me)) addr (map (tbuf cb) [0..<unat len])) (\<lambda>(k, r).
               let s = s\<lparr>ntbl := (ntbl s)\<lparr>mm := k\<rparr>\<rparr>
               in if r < 0 then Inr (s\<lparr>tcp_lock := True\<rparr>, Return (- 1))
                  else
                    Inr (upd_tcp i (\<lambda>c. c\<lparr>rcv_wnd := rcv_wnd c + ucast len,
                           tbuf := (\<lambda>k. if k < unat (total - len) then tbuf c (k + unat len) else tbuf c k)\<rparr>) s,
                         Return (sint len))))"

definition tcp_read :: "nat \<Rightarrow> int \<Rightarrow> u32 \<Rightarrow> u32 \<Rightarrow> net \<Rightarrow> (net \<times> int progress) res" where
  "tcp_read me soc addr sz s =
    (if TCP_SOCKET_ISINVALID soc then Inr (s, Return (- 1))
     else
       acq (tcp_lock s) (
         if \<not> t_used (tcps s (nat soc)) then Inr (s, Return (- 1)) else tcp_read_loop me (nat soc) addr sz s))"

end
