(* ===== verification/Socket.thy ===== *)
theory Socket
  imports Tcp
begin

text \<open>
  The receive side of \<^verbatim>\<open>kernel/ip.c\<close>, \<^verbatim>\<open>kernel/ethernet.c\<close> and \<^verbatim>\<open>kernel/e1000.c\<close>, which hands packets to the
  transport protocols, the initialisation of the card, and \<^verbatim>\<open>kernel/socket.c\<close>.
\<close>

section \<open>Receiving\<close>

definition ip_rx :: "ksyms \<Rightarrow> nat option \<Rightarrow> u32 \<Rightarrow> net \<Rightarrow> net res" where
  "ip_rx ks me m s =
    (let (s, hdr) = mbuf_pop m 20 s;
         h = mb_read m hdr 20 s;
         len = toggle_endian16 (get16 h 2) - 20;
         (s, _) = mbuf_trim m (mb_len (mbufs s m) - ucast len) s
     in if h ! 9 = IP_PROTO_TCP then tcp_rx ks me m len hdr s
        else if h ! 9 = IP_PROTO_UDP then udp_rx ks me m len hdr s
        else Inr s)"

definition ethernet_rx :: "ksyms \<Rightarrow> nat option \<Rightarrow> u32 \<Rightarrow> net \<Rightarrow> net res" where
  "ethernet_rx ks me m s =
    (let (s, hdr) = mbuf_pop m 14 s;
         type = toggle_endian16 (get16 (mb_read m hdr 14 s) 12)
     in if type = ETH_TYPE_IPV4 then ip_rx ks me m s
        else if type = ETH_TYPE_ARP then arp_rx ks m s
        else mbuf_free ks m s)"

text \<open>One round of \<^verbatim>\<open>e1000_recv\<close>: the buffer that holds the frame, with a new buffer in its place on the ring.\<close>

definition e1000_take :: "nat \<Rightarrow> net \<Rightarrow> (net \<times> u32) res" where
  "e1000_take desc_pos s =
    (let m = rx_mbufs (nic s) desc_pos
     in ebind (mbuf_append m (ucast (rx_length (nic s) desc_pos)) s) (\<lambda>(s, _).
        let (s, a) = mbuf_alloc 0 s
        in if a = 0 then Inl (Panic ''e1000'')
           else
             let n = nic s
             in Inr (s\<lparr>nic := n\<lparr>rdt := desc_pos, rx_status := (rx_status n)(desc_pos := 0),
                  rx_mbufs := (rx_mbufs n)(desc_pos := a)\<rparr>\<rparr>, m)))"

text \<open>
  The loop of \<^verbatim>\<open>e1000_recv\<close>. Every round clears the status of a descriptor, so that, unless the card receives more
  in the meantime, it ends after at most \<^verbatim>\<open>RX_RING_SIZE\<close> rounds.
\<close>

fun e1000_recv_loop :: "nat \<Rightarrow> ksyms \<Rightarrow> nat option \<Rightarrow> nat \<Rightarrow> net \<Rightarrow> net res" where
  "e1000_recv_loop 0 ks me desc_pos s = Inl Diverges"
| "e1000_recv_loop (Suc fuel) ks me desc_pos s =
    (if rx_status (nic s) desc_pos AND 1 = 0 then Inr s
     else
       ebind (e1000_take desc_pos s) (\<lambda>(s, m).
       ebind (ethernet_rx ks me m s) (\<lambda>s.
       e1000_recv_loop fuel ks me (Suc desc_pos mod RX_RING_SIZE) s)))"

definition e1000_recv :: "ksyms \<Rightarrow> nat option \<Rightarrow> net \<Rightarrow> net res" where
  "e1000_recv ks me s = e1000_recv_loop (Suc RX_RING_SIZE) ks me (Suc (rdt (nic s)) mod RX_RING_SIZE) s"

definition e1000_intr :: "ksyms \<Rightarrow> nat option \<Rightarrow> net \<Rightarrow> net res" where
  "e1000_intr ks me s = e1000_recv ks me s"

section \<open>Initialisation of the card\<close>

definition e1000_tx_init :: "net \<Rightarrow> net" where
  "e1000_tx_init s =
    s\<lparr>nic := (nic s)\<lparr>tdt := 0,
        tx_status := (\<lambda>i. if i < TX_RING_SIZE then 1 else tx_status (nic s) i),
        tx_length := (\<lambda>i. if i < TX_RING_SIZE then 0 else tx_length (nic s) i),
        tx_cmd := (\<lambda>i. if i < TX_RING_SIZE then 0 else tx_cmd (nic s) i),
        tx_mbufs := (\<lambda>i. if i < TX_RING_SIZE then 0 else tx_mbufs (nic s) i)\<rparr>\<rparr>"

fun e1000_rx_loop :: "nat list \<Rightarrow> net \<Rightarrow> net res" where
  "e1000_rx_loop [] s = Inr s"
| "e1000_rx_loop (i # is) s =
    (let (s, a) = mbuf_alloc 0 s
     in if a = 0 then Inl (Panic ''e1000'')
        else e1000_rx_loop is (s\<lparr>nic := (nic s)\<lparr>rx_mbufs := (rx_mbufs (nic s))(i := a)\<rparr>\<rparr>))"

definition e1000_rx_init :: "net \<Rightarrow> net res" where
  "e1000_rx_init s =
    ebind (e1000_rx_loop [0..<RX_RING_SIZE]
       (s\<lparr>nic := (nic s)\<lparr>
          rx_status := (\<lambda>i. if i < RX_RING_SIZE then 0 else rx_status (nic s) i),
          rx_length := (\<lambda>i. if i < RX_RING_SIZE then 0 else rx_length (nic s) i)\<rparr>\<rparr>)) (\<lambda>s.
    Inr (s\<lparr>nic := (nic s)\<lparr>rdt := RX_RING_SIZE - 1\<rparr>\<rparr>))"

definition e1000_init :: "net \<Rightarrow> net res" where
  "e1000_init s = e1000_rx_init (e1000_tx_init s)"

section \<open>Sockets\<close>

definition SOCKET_TYPE_TCP :: u8 where "SOCKET_TYPE_TCP = 0"
definition SOCKET_TYPE_UDP :: u8 where "SOCKET_TYPE_UDP = 1"

definition upd_sock :: "u32 \<Rightarrow> (socket \<Rightarrow> socket) \<Rightarrow> net \<Rightarrow> net" where
  "upd_sock a f s = s\<lparr>socks := (socks s)(a := f (socks s a))\<rparr>"

text \<open>
  \<^verbatim>\<open>socket_alloc\<close> after the allocation of the page of the socket, which \<open>p\<close> is; the failures of
  \<^verbatim>\<open>tcp_connect\<close> and \<^verbatim>\<open>udp_connect\<close> are only printed. \<open>cb_idx\<close> is 8 bits wide, so that the index -1 of a failed
  open becomes 255.
\<close>

definition socket_open :: "ksyms \<Rightarrow> nat \<Rightarrow> u32 \<Rightarrow> u32 \<Rightarrow> u16 \<Rightarrow> u8 \<Rightarrow> net \<Rightarrow> (net \<times> int progress) res" where
  "socket_open ks me p ip port type s =
    (let s = (upd_sock p (\<lambda>k. k\<lparr>sk_nxt := sockets s, sk_type := type\<rparr>) s)\<lparr>sockets := p\<rparr>
     in if type = SOCKET_TYPE_TCP
        then
          ebind (tcp_open ip port s) (\<lambda>(s, r).
            let (s, m) = mbuf_alloc 54 (upd_sock p (\<lambda>k. k\<lparr>sk_idx := word_of_int r\<rparr>) s)
            in ebind (tcp_connect ks me m (uint (sk_idx (socks s p))) ip (ucast port) s) (\<lambda>(s, r).
                 Inr (s, case r of Return _ \<Rightarrow> Return 0 | Sleeps ch \<Rightarrow> Sleeps ch)))
        else if type = SOCKET_TYPE_UDP
        then
          ebind (udp_open ip port s) (\<lambda>(s, r).
            let (s, m) = mbuf_alloc 54 (upd_sock p (\<lambda>k. k\<lparr>sk_idx := word_of_int r\<rparr>) s)
            in ebind (udp_connect (uint (sk_idx (socks s p))) ip (ucast port) s) (\<lambda>(s, _). Inr (s, Return 0)))
        else Inr (s, Return (- 1)))"

text \<open>
  The search of \<^verbatim>\<open>socket_close\<close> for the predecessor of the socket in the list. There are fewer sockets than pages.
\<close>

fun socket_unlink :: "nat \<Rightarrow> u32 \<Rightarrow> u32 \<Rightarrow> net \<Rightarrow> net res" where
  "socket_unlink 0 p shead s = Inl Diverges"
| "socket_unlink (Suc fuel) p shead s =
    (let n = sk_nxt (socks s shead)
     in if n = 0 then Inr s
        else if sk_type (socks s n) = sk_type (socks s p) \<and> sk_idx (socks s n) = sk_idx (socks s p)
        then Inr (upd_sock shead (\<lambda>k. k\<lparr>sk_nxt := sk_nxt (socks s p)\<rparr>) s)
        else socket_unlink fuel p n s)"

definition socket_remove :: "ksyms \<Rightarrow> u32 \<Rightarrow> net \<Rightarrow> net res" where
  "socket_remove ks p s =
    deref (sockets s) (
      let shead = sockets s;
          s = (if sk_nxt (socks s shead) = 0 then s\<lparr>sockets := 0\<rparr> else s)
      in ebind (socket_unlink (2 ^ 20) p shead s) (\<lambda>s. nkfree ks p s))"

text \<open>\<^verbatim>\<open>socket_close\<close> after the close of the control block, and when a \<^verbatim>\<open>tcp_close\<close> that slept goes on.\<close>

definition socket_finish :: "ksyms \<Rightarrow> u32 \<Rightarrow> net \<times> int progress \<Rightarrow> (net \<times> int progress) res" where
  "socket_finish ks p = (\<lambda>(s, r).
    case r of
      Sleeps ch \<Rightarrow> Inr (s, Sleeps ch)
    | Return v \<Rightarrow> if v < 0 then Inr (s, Return (- 1)) else ebind (socket_remove ks p s) (\<lambda>s. Inr (s, Return 0)))"

definition socket_close_woken :: "ksyms \<Rightarrow> u32 \<Rightarrow> net \<Rightarrow> (net \<times> int progress) res" where
  "socket_close_woken ks p s = ebind (tcp_close_woken ks (unat (sk_idx (socks s p))) s) (socket_finish ks p)"

definition socket_close :: "ksyms \<Rightarrow> nat \<Rightarrow> u32 \<Rightarrow> net \<Rightarrow> (net \<times> int progress) res" where
  "socket_close ks me p s =
    (let k = socks s p
     in if sk_type k = SOCKET_TYPE_TCP then ebind (tcp_close ks me (uint (sk_idx k)) s) (socket_finish ks p)
        else if sk_type k = SOCKET_TYPE_UDP
        then ebind (udp_close (uint (sk_idx k)) s) (\<lambda>(s, r). socket_finish ks p (s, Return r))
        else Inr (s, Return (- 1)))"

definition socket_read :: "ksyms \<Rightarrow> nat \<Rightarrow> u32 \<Rightarrow> u32 \<Rightarrow> u32 \<Rightarrow> net \<Rightarrow> (net \<times> int progress) res" where
  "socket_read ks me p addr len s =
    (let k = socks s p
     in if sk_type k = SOCKET_TYPE_UDP then udp_read ks me (unat (sk_idx k)) addr len s
        else if sk_type k = SOCKET_TYPE_TCP then tcp_read me (uint (sk_idx k)) addr len s
        else Inl (Panic ''unhandled socket type.''))"

text \<open>
  \<^verbatim>\<open>socket_write\<close>: the packet buffer with the caller's bytes, and sending it. Its results are ignored.
\<close>

definition socket_fill :: "ksyms \<Rightarrow> nat \<Rightarrow> u32 \<Rightarrow> u32 \<Rightarrow> u32 \<Rightarrow> net \<Rightarrow> (net \<times> u32) res" where
  "socket_fill ks me headroom addr len s =
    (let (s, m) = mbuf_alloc headroom s
     in ebind (mbuf_append m len s) (\<lambda>(s, _).
        ebind (copyin_buf (mm (ntbl s)) (pagetable (procs (ntbl s) me)) addr (unat len)) (\<lambda>(bs, r).
          let s = mb_write m (mb_head (mbufs s m)) bs s
          in if r < 0 then ebind (mbuf_free ks m s) (\<lambda>s. Inr (s, 0)) else Inr (s, m))))"

definition socket_write :: "ksyms \<Rightarrow> nat \<Rightarrow> u32 \<Rightarrow> u32 \<Rightarrow> u32 \<Rightarrow> net \<Rightarrow> (net \<times> int) res" where
  "socket_write ks me p addr len s =
    (let k = socks s p
     in if sk_type k = SOCKET_TYPE_TCP
        then
          ebind (socket_fill ks me 54 addr len s) (\<lambda>(s, m).
            if m = 0 then Inr (s, - 1) else ebind (tcp_send ks m (uint (sk_idx k)) len s) (\<lambda>(s, _). Inr (s, sint len)))
        else if sk_type k = SOCKET_TYPE_UDP
        then
          ebind (socket_fill ks me 42 addr len s) (\<lambda>(s, m).
            if m = 0 then Inr (s, - 1) else ebind (udp_send ks m (uint (sk_idx k)) s) (\<lambda>(s, _). Inr (s, sint len)))
        else Inr (s, sint len))"

end
