(* ===== verification/Net_Send.thy ===== *)
theory Net_Send
  imports Socket
begin

text \<open>
  The send path always returns: as long as the pages that the rings and the packet buffers use are not on the free
  list, sending a packet neither panics nor disturbs the other buffers. The lemmas follow the layers from
  \<^verbatim>\<open>nkalloc\<close> up to \<^verbatim>\<open>tcp_tx_empty\<close>.
\<close>

section \<open>Machine integers\<close>

lemma sint_small: "unat (a :: u32) < 2147483648 \<Longrightarrow> sint a = int (unat a)"
proof -
  assume h: "unat a < 2147483648"
  have "sint (of_nat n :: u32) = int n" if "n < 2147483648" for n
    using that by (simp add: signed_of_nat signed_take_bit_int_eq_self)
  from this [OF h] show ?thesis by simp
qed

lemma unat_ucast_up [simp]: "unat (ucast (a :: u16) :: u32) = unat a"
proof -
  have "unat a < 65536" using unsigned_less [of a] by simp
  then show ?thesis by (simp add: unsigned_ucast_eq take_bit_eq_mod)
qed

section \<open>Pages of the network stack\<close>

text \<open>\<open>ps\<close> is the free list. The transmit ring holds different pages that are not free.\<close>

definition nic_ok :: "ksyms \<Rightarrow> net \<Rightarrow> u32 list \<Rightarrow> bool" where
  "nic_ok ks s ps \<longleftrightarrow>
    kmem_list (ksym_end ks) (mm (ntbl s)) ps \<and> tdt (nic s) < TX_RING_SIZE \<and>
    (\<forall>i < TX_RING_SIZE. tx_mbufs (nic s) i \<noteq> 0 \<longrightarrow>
      page_ok (ksym_end ks) (tx_mbufs (nic s) i) \<and> tx_mbufs (nic s) i \<notin> set ps \<and>
      (\<forall>j < TX_RING_SIZE. j \<noteq> i \<longrightarrow> tx_mbufs (nic s) j \<noteq> tx_mbufs (nic s) i))"

text \<open>A page that is neither free nor on the transmit ring.\<close>

definition mine :: "ksyms \<Rightarrow> net \<Rightarrow> u32 list \<Rightarrow> u32 \<Rightarrow> bool" where
  "mine ks s ps p \<longleftrightarrow>
    page_ok (ksym_end ks) p \<and> p \<notin> set ps \<and> (\<forall>i < TX_RING_SIZE. tx_mbufs (nic s) i \<noteq> p)"

text \<open>What sending leaves alone.\<close>

definition same :: "net \<Rightarrow> net \<Rightarrow> bool" where
  "same s s' \<longleftrightarrow>
    procs (ntbl s') = procs (ntbl s) \<and> nqents s' = nqents s \<and> arps s' = arps s \<and> udp_lock s' = udp_lock s \<and>
    udps s' = udps s \<and> tcp_lock s' = tcp_lock s \<and> rand_next s' = rand_next s \<and> socks s' = socks s \<and>
    sockets s' = sockets s \<and> rdt (nic s') = rdt (nic s) \<and> rx_status (nic s') = rx_status (nic s) \<and>
    rx_length (nic s') = rx_length (nic s) \<and> rx_mbufs (nic s') = rx_mbufs (nic s)"

definition kept :: "ksyms \<Rightarrow> u32 set \<Rightarrow> net \<Rightarrow> u32 list \<Rightarrow> net \<Rightarrow> u32 list \<Rightarrow> bool" where
  "kept ks E s ps s' ps' \<longleftrightarrow>
    nic_ok ks s' ps' \<and> same s s' \<and>
    (\<forall>p. mine ks s ps p \<and> p \<notin> E \<longrightarrow> mine ks s' ps' p \<and> mbufs s' p = mbufs s p)"

lemma same_refl [simp]: "same s s"
  by (simp add: same_def)

lemma same_trans: "same s s1 \<Longrightarrow> same s1 s2 \<Longrightarrow> same s s2"
  by (simp add: same_def)

lemma kept_refl: "nic_ok ks s ps \<Longrightarrow> kept ks E s ps s ps"
  by (simp add: kept_def)

lemma kept_trans:
  assumes "kept ks E s ps s1 ps1" "kept ks E s1 ps1 s2 ps2"
  shows "kept ks E s ps s2 ps2"
  using assms same_trans [of s s1 s2] unfolding kept_def by auto

lemma kept_mono: "kept ks E s ps s' ps' \<Longrightarrow> E \<subseteq> F \<Longrightarrow> kept ks F s ps s' ps'"
  by (auto simp: kept_def)

lemma keptD:
  assumes "kept ks E s ps s' ps'"
  shows "nic_ok ks s' ps'" "same s s'"
    "\<And>p. mine ks s ps p \<Longrightarrow> p \<notin> E \<Longrightarrow> mine ks s' ps' p"
    "\<And>p. mine ks s ps p \<Longrightarrow> p \<notin> E \<Longrightarrow> mbufs s' p = mbufs s p"
  using assms by (auto simp: kept_def)

lemma mine_nonnull: "mine ks s ps p \<Longrightarrow> p \<noteq> 0"
  by (auto simp: mine_def dest: page_ok_nonnull)

lemma kept_upd_mbuf:
  assumes "nic_ok ks s ps"
  shows "kept ks {m} s ps (upd_mbuf m f s) ps"
  using assms by (auto simp: kept_def nic_ok_def mine_def same_def upd_mbuf_def)

lemma kept_mb_write: "nic_ok ks s ps \<Longrightarrow> kept ks {m} s ps (mb_write m off bs s) ps"
  unfolding mb_write_def by (rule kept_upd_mbuf)

lemma mine_upd_mbuf [simp]: "mine ks (upd_mbuf m f s) ps p = mine ks s ps p"
  by (simp add: mine_def upd_mbuf_def)

lemma mine_mb_write [simp]: "mine ks (mb_write m off bs s) ps p = mine ks s ps p"
  by (simp add: mb_write_def)

lemma tcps_upd_mbuf [simp]: "tcps (upd_mbuf m f s) = tcps s" "tcps (mb_write m off bs s) = tcps s"
  by (simp_all add: upd_mbuf_def mb_write_def)

lemma head_mb_write [simp]: "mb_head (mbufs (mb_write m off bs s) m) = mb_head (mbufs s m)"
  "mb_len (mbufs (mb_write m off bs s) m) = mb_len (mbufs s m)"
  by (simp_all add: upd_mbuf_def mb_write_def)

section \<open>Allocation\<close>

lemma nkalloc_none: "nic_ok ks s [] \<Longrightarrow> nkalloc s = (s, 0)"
  by (auto simp: nic_ok_def nkalloc_def dest: kalloc_empty)

lemma nkalloc_page:
  assumes "nic_ok ks s (p # ps)"
  obtains s' where "nkalloc s = (s', p)" "kept ks {p} s (p # ps) s' ps" "mine ks s' ps p" "tcps s' = tcps s"
proof -
  have k: "kmem_list (ksym_end ks) (mm (ntbl s)) (p # ps)" using assms by (simp add: nic_ok_def)
  obtain m where m: "kalloc (mm (ntbl s)) = (m, p)" "kmem_list (ksym_end ks) m ps" by (rule kalloc_page [OF k])
  have p: "page_ok (ksym_end ks) p" "p \<notin> set ps" "p \<noteq> 0" using k by (auto simp: kmem_list_def page_ok_nonnull)
  let ?s = "s\<lparr>ntbl := (ntbl s)\<lparr>mm := m\<rparr>, mbufs := (mbufs s)(p := mb_fill p (le32 5 5 5 5) 5)\<rparr>"
  have "nkalloc s = (?s, p)" using m p by (simp add: nkalloc_def)
  moreover have "kept ks {p} s (p # ps) ?s ps"
    using assms m(2) by (auto simp: kept_def nic_ok_def mine_def same_def)
  moreover have "mine ks ?s ps p" using assms p by (auto simp: mine_def nic_ok_def)
  ultimately show ?thesis using that by simp
qed

lemma nkfree_page:
  assumes "nic_ok ks s ps" "mine ks s ps p"
  obtains s' where "nkfree ks p s = Inr s'" "kept ks {p} s ps s' (p # ps)" "tcps s' = tcps s" "nic s' = nic s"
proof -
  obtain m where m: "kfree (ksym_end ks) (mm (ntbl s)) p = Inr m" "kmem_list (ksym_end ks) m (p # ps)"
    using assms by (auto simp: nic_ok_def mine_def elim: kfree_page)
  let ?s = "s\<lparr>ntbl := (ntbl s)\<lparr>mm := m\<rparr>, mbufs := (mbufs s)(p := mb_fill p (freelist (mm (ntbl s))) 1)\<rparr>"
  have "nkfree ks p s = Inr ?s" using m by (simp add: nkfree_def)
  moreover have "kept ks {p} s ps ?s (p # ps)"
    using assms m(2) by (auto simp: kept_def nic_ok_def mine_def same_def)
  ultimately show ?thesis using that by simp
qed

lemma mbuf_alloc_page:
  assumes "nic_ok ks s (p # ps)" "headroom \<le> MBUF_SIZE"
  obtains s' where "mbuf_alloc headroom s = (s', p)" "kept ks {p} s (p # ps) s' ps" "mine ks s' ps p"
    "tcps s' = tcps s" "mb_head (mbufs s' p) = uint headroom" "mb_len (mbufs s' p) = 0"
proof -
  obtain s1 where s1: "nkalloc s = (s1, p)" "kept ks {p} s (p # ps) s1 ps" "mine ks s1 ps p" "tcps s1 = tcps s"
    by (rule nkalloc_page [OF assms(1)])
  let ?s = "upd_mbuf p (\<lambda>_. \<lparr>mb_nxt = 0, mb_head = uint headroom, mb_len = 0, mb_data = (\<lambda>_. 0)\<rparr>) s1"
  have "mbuf_alloc headroom s = (?s, p)"
    using s1(1) assms(2) mine_nonnull [OF s1(3)] by (simp add: mbuf_alloc_def upd_mbuf_def not_less)
  moreover have "kept ks {p} s (p # ps) ?s ps"
    by (rule kept_trans [OF s1(2) kept_upd_mbuf [OF keptD(1) [OF s1(2)]]])
  ultimately show ?thesis using that s1 by (simp add: upd_mbuf_def mine_def)
qed

lemma mbuf_alloc_none: "nic_ok ks s [] \<Longrightarrow> mbuf_alloc headroom s = (s, 0)"
  by (simp add: mbuf_alloc_def nkalloc_none)

section \<open>The layers\<close>

lemma e1000_send_returns:
  assumes ok: "nic_ok ks s ps" and m: "mine ks s ps m"
  obtains s' r ps' where "e1000_send ks m s = Inr (s', r)" "kept ks {m} s ps s' ps'" "tcps s' = tcps s"
    "r < 0 \<longrightarrow> s' = s \<and> ps' = ps"
proof (cases "tx_status (nic s) (tdt (nic s)) AND 1 = 0")
  case True
  then show ?thesis using that [of s "- 1" ps] kept_refl [OF ok] by (simp add: e1000_send_def)
next
  case False
  let ?d = "tdt (nic s)" and ?old = "tx_mbufs (nic s) (tdt (nic s))"
  let ?put = "\<lambda>s :: net. s\<lparr>nic := (nic s)\<lparr>tx_mbufs := (tx_mbufs (nic s))(?d := m),
    tx_addr := (tx_addr (nic s))(?d := (m, mb_head (mbufs s m))),
    tx_length := (tx_length (nic s))(?d := ucast (mb_len (mbufs s m))),
    tx_cmd := (tx_cmd (nic s))(?d := 9), tdt := Suc ?d mod TX_RING_SIZE\<rparr>\<rparr>"
  have d: "?d < TX_RING_SIZE" using ok by (simp add: nic_ok_def)
  obtain s1 ps1 where s1: "(if ?old \<noteq> 0 then mbuf_free ks ?old s else Inr s) = Inr s1" "nic s1 = nic s" "tcps s1 = tcps s"
    "same s s1" "kmem_list (ksym_end ks) (mm (ntbl s1)) ps1" "set ps1 \<subseteq> insert ?old (set ps)"
    "\<And>p. p \<noteq> ?old \<Longrightarrow> mbufs s1 p = mbufs s p"
  proof (cases "?old = 0")
    case True
    then show thesis using that [of s ps] ok by (auto simp: nic_ok_def)
  next
    case old: False
    have k: "kmem_list (ksym_end ks) (mm (ntbl s)) ps" "page_ok (ksym_end ks) ?old" "?old \<notin> set ps"
      using ok old d by (auto simp: nic_ok_def)
    obtain mm' where k': "kfree (ksym_end ks) (mm (ntbl s)) ?old = Inr mm'" "kmem_list (ksym_end ks) mm' (?old # ps)"
      by (rule kfree_page [OF k])
    show thesis by (rule that [of "s\<lparr>ntbl := (ntbl s)\<lparr>mm := mm'\<rparr>,
      mbufs := (mbufs s)(?old := mb_fill ?old (freelist (mm (ntbl s))) 1)\<rparr>" "?old # ps"])
      (use old k' in \<open>simp_all add: mbuf_free_def nkfree_def same_def\<close>)
  qed
  have "e1000_send ks m s = Inr (?put s1, 0)" using False s1(1,2) by (simp add: e1000_send_def Let_def)
  moreover have "nic_ok ks (?put s1) ps1"
    using ok m s1(5,6) d unfolding nic_ok_def mine_def
    by (auto simp: s1(2) TX_RING_SIZE_def subset_iff split: if_splits)
  moreover have "same s (?put s1)" using s1(2,4) by (simp add: same_def)
  moreover have "mine ks (?put s1) ps1 p \<and> mbufs (?put s1) p = mbufs s p" if "mine ks s ps p" "p \<noteq> m" for p
    using that s1(6,7) d by (auto simp: mine_def s1(2))
  ultimately show ?thesis using that [of "?put s1" 0 ps1] s1(3) by (simp add: kept_def)
qed

lemma mbuf_prepend_room:
  assumes "nic_ok ks s ps" "mine ks s ps m" "uint len \<le> mb_head (mbufs s m)"
  obtains s' where "mbuf_prepend m len s = Inr (s', mb_head (mbufs s m) - uint len)" "kept ks {m} s ps s' ps"
    "mine ks s' ps m" "tcps s' = tcps s" "mb_head (mbufs s' m) = mb_head (mbufs s m) - uint len"
    "mb_len (mbufs s' m) = mb_len (mbufs s m) + len" "mb_data (mbufs s' m) = mb_data (mbufs s m)"
proof -
  let ?s = "upd_mbuf m (\<lambda>b. b\<lparr>mb_head := mb_head b - uint len, mb_len := mb_len b + len\<rparr>) s"
  have e: "mbuf_prepend m len s = Inr (?s, mb_head (mbufs s m) - uint len)"
    using assms(3) mine_nonnull [OF assms(2)] by (simp add: mbuf_prepend_def deref_def upd_mbuf_def Let_def)
  show ?thesis by (rule that [OF e kept_upd_mbuf [OF assms(1)]]) (use assms(2) in \<open>simp_all add: upd_mbuf_def mine_def\<close>)
qed

lemma ethernet_tx_returns:
  assumes "nic_ok ks s ps" "mine ks s ps m" "14 \<le> mb_head (mbufs s m)"
  obtains s' ps' where "ethernet_tx ks m type mac s = Inr s'" "kept ks {m} s ps s' ps'" "tcps s' = tcps s"
proof -
  obtain s1 where s1: "mbuf_prepend m 14 s = Inr (s1, mb_head (mbufs s m) - 14)" "kept ks {m} s ps s1 ps"
    "mine ks s1 ps m" "tcps s1 = tcps s"
    by (rule mbuf_prepend_room [OF assms(1,2), of 14]) (use assms(3) in auto)
  let ?s2 = "mb_write m (mb_head (mbufs s m) - 14) (mac @ LOCAL_MAC_ADDR @ put16 (toggle_endian16 type)) s1"
  have s2: "kept ks {m} s ps ?s2 ps" by (rule kept_trans [OF s1(2) kept_mb_write [OF keptD(1) [OF s1(2)]]])
  have m2: "mine ks ?s2 ps m" using s1(3) by simp
  obtain s3 r ps3 where s3: "e1000_send ks m ?s2 = Inr (s3, r)" "kept ks {m} ?s2 ps s3 ps3" "tcps s3 = tcps ?s2"
    "r < 0 \<longrightarrow> s3 = ?s2 \<and> ps3 = ps"
    by (rule e1000_send_returns [OF keptD(1) [OF s2] m2])
  have k3: "kept ks {m} s ps s3 ps3" by (rule kept_trans [OF s2 s3(2)])
  show ?thesis
  proof (cases "r < 0")
    case True
    then have m: "mine ks s3 ps3 m" using s3(4) s1(3) by simp
    obtain s4 where s4: "nkfree ks m s3 = Inr s4" "kept ks {m} s3 ps3 s4 (m # ps3)" "tcps s4 = tcps s3"
      by (rule nkfree_page [OF keptD(1) [OF k3] m])
    have "ethernet_tx ks m type mac s = Inr s4" using s1(1) s3(1) s4(1) True by (simp add: ethernet_tx_def mbuf_free_def)
    then show ?thesis using that kept_trans [OF k3 s4(2)] s4(3) s3(3) s1(4) by simp
  next
    case False
    then have "ethernet_tx ks m type mac s = Inr s3" using s1(1) s3(1) by (simp add: ethernet_tx_def)
    then show ?thesis using that k3 s3(3) s1(4) by simp
  qed
qed

lemma arp_tx_returns:
  assumes "nic_ok ks s ps"
  obtains s' r ps' where "arp_tx ks op hw mac ip s = Inr (s', r)" "kept ks {} s ps s' ps'" "tcps s' = tcps s"
proof (cases ps)
  case Nil
  then show ?thesis
    using that [of s "- 1" ps] kept_refl [OF assms] assms mbuf_alloc_none [of ks s] by (simp add: arp_tx_def)
next
  case (Cons p qs)
  then have ok: "nic_ok ks s (p # qs)" using assms by simp
  obtain s1 where s1: "mbuf_alloc MBUF_DEFAULT_HEADROOM s = (s1, p)" "kept ks {p} s (p # qs) s1 qs" "mine ks s1 qs p"
    "tcps s1 = tcps s" "mb_head (mbufs s1 p) = 128" "mb_len (mbufs s1 p) = 0"
    by (rule mbuf_alloc_page [OF ok, of MBUF_DEFAULT_HEADROOM]) (auto simp: MBUF_DEFAULT_HEADROOM_def MBUF_SIZE_def)
  let ?s2 = "upd_mbuf p (\<lambda>b. b\<lparr>mb_len := mb_len b + 28\<rparr>) s1"
  let ?s3 = "mb_write p 128 (arp_hdr op hw ip) ?s2"
  have a: "mbuf_append p 28 s1 = Inr (?s2, 128)"
    using s1(5,6) mine_nonnull [OF s1(3)] by (simp add: mbuf_append_def deref_def upd_mbuf_def MBUF_SIZE_def)
  have k2: "kept ks {p} s (p # qs) ?s2 qs" by (rule kept_trans [OF s1(2) kept_upd_mbuf [OF keptD(1) [OF s1(2)]]])
  have k3: "kept ks {p} s (p # qs) ?s3 qs" by (rule kept_trans [OF k2 kept_mb_write [OF keptD(1) [OF k2]]])
  have m3: "mine ks ?s3 qs p" using s1(3) by simp
  have h3: "14 \<le> mb_head (mbufs ?s3 p)" using s1(5) by (simp add: upd_mbuf_def mb_write_def)
  obtain s4 ps4 where s4: "ethernet_tx ks p ETH_TYPE_ARP mac ?s3 = Inr s4" "kept ks {p} ?s3 qs s4 ps4" "tcps s4 = tcps ?s3"
    by (rule ethernet_tx_returns [OF keptD(1) [OF k3] m3 h3])
  have "arp_tx ks op hw mac ip s = Inr (s4, 0)"
    using s1(1) a s4(1) mine_nonnull [OF s1(3)] by (simp add: arp_tx_def)
  moreover have "kept ks {} s (p # qs) s4 ps4"
    using kept_trans [OF k3 s4(2)] by (auto simp: kept_def mine_def)
  ultimately show ?thesis using that Cons s4(3) s1(4) by simp
qed

lemma arp_resolve_returns:
  assumes "nic_ok ks s ps"
  obtains s' r mac ps' where "arp_resolve ks ip s = Inr (s', r, mac)" "kept ks {} s ps s' ps'" "tcps s' = tcps s"
proof -
  obtain s1 r1 ps1 where s1: "arp_tx ks ARP_OR_REQUEST ETHERNET_ADDR_ANY ETHERNET_ADDR_BROADCAST ip s = Inr (s1, r1)"
    "kept ks {} s ps s1 ps1" "tcps s1 = tcps s" by (rule arp_tx_returns [OF assms])
  obtain s2 r2 ps2 where s2: "arp_tx ks ARP_OR_REQUEST GATEWAY_MAC_ADDR ETHERNET_ADDR_BROADCAST ip s = Inr (s2, r2)"
    "kept ks {} s ps s2 ps2" "tcps s2 = tcps s" by (rule arp_tx_returns [OF assms])
  have "\<exists>r mac. arp_resolve ks ip s \<in> {Inr (s, r, mac), Inr (s1, r, mac), Inr (s2, r, mac)}"
    using s1(1) s2(1) by (auto simp: arp_resolve_def split: option.split)
  then show ?thesis using that [OF _ kept_refl [OF assms]] that [OF _ s1(2,3)] that [OF _ s2(2,3)] by auto
qed

lemma ip_tx_returns:
  assumes "nic_ok ks s ps" "mine ks s ps m" "34 \<le> mb_head (mbufs s m)"
  obtains s' ps' where "ip_tx ks m dst proto s = Inr s'" "kept ks {m} s ps s' ps'" "tcps s' = tcps s"
proof -
  obtain s1 where s1: "mbuf_prepend m 20 s = Inr (s1, mb_head (mbufs s m) - 20)" "kept ks {m} s ps s1 ps"
    "mine ks s1 ps m" "tcps s1 = tcps s" "mb_head (mbufs s1 m) = mb_head (mbufs s m) - 20"
    by (rule mbuf_prepend_room [OF assms(1,2), of 20]) (use assms(3) in auto)
  let ?len = "ucast (mb_len (mbufs s1 m)) :: u16"
  let ?s2 = "mb_write m (mb_head (mbufs s m) - 20) (ip_hdr ?len proto (checksum (ip_hdr ?len proto 0 dst) 0) dst) s1"
  have k2: "kept ks {m} s ps ?s2 ps" by (rule kept_trans [OF s1(2) kept_mb_write [OF keptD(1) [OF s1(2)]]])
  obtain s3 mac ps3 where s3: "(if dst \<noteq> 0 then ebind (arp_resolve ks dst ?s2) (\<lambda>(s, ret, mac).
      Inr (s, if ret \<noteq> 1 then GATEWAY_MAC_ADDR else mac)) else Inr (?s2, ETHERNET_ADDR_BROADCAST)) = Inr (s3, mac)"
    "kept ks {} ?s2 ps s3 ps3" "tcps s3 = tcps ?s2"
  proof (cases "dst = 0")
    case True
    then show thesis using that [OF _ kept_refl [OF keptD(1) [OF k2]]] by simp
  next
    case False
    obtain s' r mac ps' where a: "arp_resolve ks dst ?s2 = Inr (s', r, mac)" "kept ks {} ?s2 ps s' ps'" "tcps s' = tcps ?s2"
      by (rule arp_resolve_returns [OF keptD(1) [OF k2]])
    show thesis using that [OF _ a(2,3)] a(1) False by simp
  qed
  have h: "mine ks s3 ps3 m" "mbufs s3 m = mbufs ?s2 m" using keptD(3,4) [OF s3(2), of m] s1(3) by auto
  have k3: "kept ks {m} s ps s3 ps3" by (rule kept_trans [OF k2 kept_mono [OF s3(2)]]) simp
  obtain s4 ps4 where s4: "ethernet_tx ks m ETH_TYPE_IPV4 mac s3 = Inr s4" "kept ks {m} s3 ps3 s4 ps4" "tcps s4 = tcps s3"
    by (rule ethernet_tx_returns [OF keptD(1) [OF s3(2)] h(1), of ETH_TYPE_IPV4 mac])
      (use assms(3) s1(5) in \<open>simp_all add: h(2)\<close>)
  have "ip_tx ks m dst proto s = Inr s4" using s1(1) s3(1) s4(1) by (simp add: ip_tx_def Let_def)
  then show ?thesis using that kept_trans [OF k3 s4(2)] s4(3) s3(3) s1(4) by simp
qed

lemma tcp_txq_add_returns:
  assumes "nic_ok ks s ps"
  obtains s' r ps' q where "tcp_txq_add ks i m hdr len s = Inr (s', r)" "kept ks {} s ps s' ps'"
    "tcps s' = (tcps s)(i := (tcps s i)\<lparr>txq := q\<rparr>)"
proof -
  consider "ps = []" | p where "ps = [p]" | p q qs where "ps = p # q # qs" by (metis neq_Nil_conv)
  then show ?thesis
  proof cases
    case 1
    then have "tcp_txq_add ks i m hdr len s = Inr (s, - 1)"
      using nkalloc_none [of ks s] assms by (simp add: tcp_txq_add_def)
    then show ?thesis using that [OF _ kept_refl [OF assms], of "- 1" "txq (tcps s i)"] by simp
  next
    case 2
    then have ok: "nic_ok ks s [p]" using assms by simp
    obtain s1 where s1: "nkalloc s = (s1, p)" "kept ks {p} s [p] s1 []" "mine ks s1 [] p" "tcps s1 = tcps s"
      by (rule nkalloc_page [OF ok])
    obtain s2 where s2: "nkfree ks p s1 = Inr s2" "kept ks {p} s1 [] s2 [p]" "tcps s2 = tcps s1"
      by (rule nkfree_page [OF keptD(1) [OF s1(2)] s1(3)])
    have "tcp_txq_add ks i m hdr len s = Inr (s2, - 1)"
      using s1(1) s2(1) nkalloc_none [OF keptD(1) [OF s1(2)]] mine_nonnull [OF s1(3)] by (simp add: tcp_txq_add_def)
    moreover have "kept ks {} s ps s2 [p]"
      using kept_trans [OF s1(2) s2(2)] 2 by (auto simp: kept_def mine_def)
    ultimately show ?thesis using that [of s2 "- 1" "[p]" "txq (tcps s i)"] s1(4) s2(3) by simp
  next
    case 3
    then have ok: "nic_ok ks s (p # q # qs)" using assms by simp
    obtain s1 where s1: "nkalloc s = (s1, p)" "kept ks {p} s (p # q # qs) s1 (q # qs)" "mine ks s1 (q # qs) p" "tcps s1 = tcps s"
      by (rule nkalloc_page [OF ok])
    obtain s2 where s2: "nkalloc s1 = (s2, q)" "kept ks {q} s1 (q # qs) s2 qs" "mine ks s2 qs q" "tcps s2 = tcps s1"
      by (rule nkalloc_page [OF keptD(1) [OF s1(2)]])
    let ?bs = "mb_read m hdr (unat len) s2"
    let ?s3 = "upd_tcp i (\<lambda>c. c\<lparr>txq := txq c @ [(p, q, ?bs)]\<rparr>) s2"
    have e: "tcp_txq_add ks i m hdr len s = Inr (?s3, 0)"
      using s1(1) s2(1) mine_nonnull [OF s1(3)] mine_nonnull [OF s2(3)] by (simp add: tcp_txq_add_def)
    have "kept ks {p, q} s ps s2 qs"
      using kept_trans [OF kept_mono [OF s1(2), of "{p, q}"] kept_mono [OF s2(2), of "{p, q}"]] 3 by simp
    then have "kept ks {} s ps ?s3 qs" using 3 by (auto simp: kept_def mine_def nic_ok_def same_def upd_tcp_def)
    then show ?thesis
      using that [OF e, of qs "txq (tcps s i) @ [(p, q, ?bs)]"] s1(4) s2(4) by (simp add: upd_tcp_def)
  qed
qed

lemma tcp_tx_returns:
  assumes "nic_ok ks s ps" "mine ks s ps m" "54 \<le> mb_head (mbufs s m)"
  obtains s' r ps' q where "tcp_tx ks m i seq ack flg len s = Inr (s', r)" "kept ks {m} s ps s' ps'"
    "tcps s' = (tcps s)(i := (tcps s i)\<lparr>txq := q\<rparr>)"
proof -
  let ?p = "mb_head (mbufs s m) - 20"
  obtain s1 where s1: "mbuf_prepend m 20 s = Inr (s1, ?p)" "kept ks {m} s ps s1 ps"
    "mine ks s1 ps m" "tcps s1 = tcps s" "mb_head (mbufs s1 m) = ?p"
    by (rule mbuf_prepend_room [OF assms(1,2), of 20]) (use assms(3) in auto)
  let ?h = "tcp_hdr (t_port (tcps s i)) (t_pport (tcps s i)) seq ack flg (rcv_wnd (tcps s i))"
  let ?s2 = "mb_write m ?p (?h 0) s1"
  let ?ck = "checksum (mb_read m ?p (unat (20 + len)) ?s2) (pseudo_sum (t_addr (tcps s i)) len)"
  let ?s3 = "mb_write m ?p (?h ?ck) ?s2"
  have k2: "kept ks {m} s ps ?s2 ps" by (rule kept_trans [OF s1(2) kept_mb_write [OF keptD(1) [OF s1(2)]]])
  have k3: "kept ks {m} s ps ?s3 ps" by (rule kept_trans [OF k2 kept_mb_write [OF keptD(1) [OF k2]]])
  have m3: "mine ks ?s3 ps m" using s1(3) by simp
  have h3: "34 \<le> mb_head (mbufs ?s3 m)" using s1(5) assms(3) by simp
  obtain s4 ps4 where s4: "ip_tx ks m (toggle_endian32 (t_addr (tcps s i))) IP_PROTO_TCP ?s3 = Inr s4"
    "kept ks {m} ?s3 ps s4 ps4" "tcps s4 = tcps ?s3"
    by (rule ip_tx_returns [OF keptD(1) [OF k3] m3 h3])
  obtain s5 r ps5 q where s5: "tcp_txq_add ks i m ?p (20 + len) s4 = Inr (s5, r)" "kept ks {} s4 ps4 s5 ps5"
    "tcps s5 = (tcps s4)(i := (tcps s4 i)\<lparr>txq := q\<rparr>)"
    by (rule tcp_txq_add_returns [OF keptD(1) [OF s4(2)]])
  have "tcp_tx ks m i seq ack flg len s = Inr (s5, sint len)"
    using s1(1,4) s4(1) s5(1) by (simp add: tcp_tx_def Let_def)
  moreover have "kept ks {m} s ps s5 ps5"
    by (rule kept_trans [OF kept_trans [OF k3 s4(2)] kept_mono [OF s5(2)]]) simp
  ultimately show ?thesis using that s5(3) s4(3) s1(4) by simp
qed

lemma tcp_tx_empty_returns:
  assumes "nic_ok ks s ps" "ps \<noteq> []"
  obtains s' ps' q where "tcp_tx_empty ks i seq ack flg s = Inr s'" "kept ks {} s ps s' ps'"
    "tcps s' = (tcps s)(i := (tcps s i)\<lparr>txq := q\<rparr>)"
proof -
  obtain p qs where ps: "ps = p # qs" using assms(2) by (cases ps) auto
  then have ok: "nic_ok ks s (p # qs)" using assms(1) by simp
  obtain s1 where s1: "mbuf_alloc 54 s = (s1, p)" "kept ks {p} s (p # qs) s1 qs" "mine ks s1 qs p" "tcps s1 = tcps s"
    "mb_head (mbufs s1 p) = 54"
    by (rule mbuf_alloc_page [OF ok, of 54]) (auto simp: MBUF_SIZE_def)
  obtain s2 r ps2 q where s2: "tcp_tx ks p i seq ack flg 0 s1 = Inr (s2, r)" "kept ks {p} s1 qs s2 ps2"
    "tcps s2 = (tcps s1)(i := (tcps s1 i)\<lparr>txq := q\<rparr>)"
    by (rule tcp_tx_returns [OF keptD(1) [OF s1(2)] s1(3)]) (use s1(5) in auto)
  have "tcp_tx_empty ks i seq ack flg s = Inr s2" using s1(1) s2(1) by (simp add: tcp_tx_empty_def)
  moreover have "kept ks {} s ps s2 ps2" using kept_trans [OF s1(2) s2(2)] ps by (auto simp: kept_def mine_def)
  ultimately show ?thesis using that s2(3) s1(4) by simp
qed

section \<open>An example\<close>

text \<open>One free page, an idle card, the packet \<open>bs\<close> in the buffer 0x80005000, and the control block \<open>cb\<close> everywhere.\<close>

definition ex_ks :: ksyms where
  "ex_ks = \<lparr>ksym_end = 0x80000000, ksym_trampoline = 0x80001000, ksym_forkret = 0\<rparr>"

definition ex_nic :: e1000 where
  "ex_nic = \<lparr>tdt = 0, tx_status = (\<lambda>_. 1), tx_addr = (\<lambda>_. (0, 0)), tx_length = (\<lambda>_. 0), tx_cmd = (\<lambda>_. 0),
    tx_mbufs = (\<lambda>_. 0), rdt = 15, rx_status = (\<lambda>_. 0), rx_length = (\<lambda>_. 0), rx_mbufs = (\<lambda>_. 0)\<rparr>"

definition ex_mbuf :: "u8 list \<Rightarrow> mbuf" where
  "ex_mbuf bs = \<lparr>mb_nxt = 0, mb_head = 0, mb_len = of_nat (length bs),
    mb_data = (\<lambda>i. if 0 \<le> i \<and> i < int (length bs) then bs ! nat i else 0)\<rparr>"

definition ex_net :: "tcp_cb \<Rightarrow> u8 list \<Rightarrow> net" where
  "ex_net cb bs = \<lparr>
    ntbl = \<lparr>mm = \<lparr>phys = (\<lambda>_. 0), freelist = 0x80006000\<rparr>, procs = (\<lambda>_. undefined), nextpid = 1, initproc = None\<rparr>,
    mbufs = (\<lambda>_. ex_mbuf bs), nqents = (\<lambda>_. \<lparr>qe_data = 0, qe_size = 0, qe_next = 0\<rparr>), nic = ex_nic,
    arps = (\<lambda>_. \<lparr>arp_used = False, arp_ip = 0, arp_mac = ETHERNET_ADDR_ANY\<rparr>), udp_lock = False, udps = (\<lambda>_. udp_zero),
    tcp_lock = False, tcps = (\<lambda>_. cb), rand_next = 1, socks = (\<lambda>_. \<lparr>sk_nxt = 0, sk_type = 0, sk_idx = 0\<rparr>),
    sockets = 0\<rparr>"

lemma ex_net_ok: "nic_ok ex_ks (ex_net cb bs) [0x80006000]"
  by (simp add: nic_ok_def ex_net_def ex_ks_def ex_nic_def kmem_list_def page_ok_def aligned_unat
      load32_def le32_def PHYSTOP_def KERNBASE_def TX_RING_SIZE_def)

lemma ex_net_mbuf [simp]: "mb_head (mbufs (ex_net cb bs) a) = 0" "mb_len (mbufs (ex_net cb bs) a) = of_nat (length bs)"
  by (simp_all add: ex_net_def ex_mbuf_def)

lemma ex_net_read: "n \<le> length bs \<Longrightarrow> mb_read m 0 n (ex_net cb bs) = take n bs"
  by (rule nth_equalityI) (auto simp: mb_read_def ex_net_def ex_mbuf_def)

end
