(* ===== verification/Net_Frames.thy ===== *)
theory Net_Frames
  imports Net_Send
begin

text \<open>
  What the send path hands to the card: the descriptor that \<^verbatim>\<open>e1000_send\<close> fills holds the frame with the headers of
  every layer, and it stays so while the segment is put on the transmission queue.
\<close>

section \<open>The frame of the last descriptor\<close>

definition last_desc :: "net \<Rightarrow> nat" where
  "last_desc s = (tdt (nic s) + (TX_RING_SIZE - 1)) mod TX_RING_SIZE"

definition sent :: "net \<Rightarrow> u8 list" where
  "sent s = (case tx_addr (nic s) (last_desc s) of (m, off) \<Rightarrow> mb_read m off (unat (tx_length (nic s) (last_desc s))) s)"

text \<open>The card has sent the frames of all descriptors, and the addresses in the ARP table have six bytes.\<close>

definition tx_idle :: "net \<Rightarrow> bool" where
  "tx_idle s \<longleftrightarrow> (\<forall>d < TX_RING_SIZE. tx_status (nic s) d AND 1 \<noteq> 0) \<and> (\<forall>i. length (arp_mac (arps s i)) = 6)"

text \<open>The buffer \<open>m\<close> is on the ring with the frame \<open>fr\<close>, ready to be sent.\<close>

definition posted :: "net \<Rightarrow> u32 \<Rightarrow> u8 list \<Rightarrow> bool" where
  "posted s m fr \<longleftrightarrow> sent s = fr \<and> fst (tx_addr (nic s) (last_desc s)) = m \<and> tx_mbufs (nic s) (last_desc s) = m \<and>
    tx_cmd (nic s) (last_desc s) = 9"

lemma last_desc_less: "last_desc s < TX_RING_SIZE"
  by (simp add: last_desc_def TX_RING_SIZE_def)

lemma last_desc_Suc: "d < TX_RING_SIZE \<Longrightarrow> tdt (nic s) = Suc d mod TX_RING_SIZE \<Longrightarrow> last_desc s = d"
  by (auto simp: last_desc_def TX_RING_SIZE_def mod_Suc split: if_splits)

lemma length_mb_read [simp]: "length (mb_read m off n s) = n"
  by (simp add: mb_read_def)

lemma mb_read_eq: "mb_data (mbufs s m) = mb_data (mbufs s' m) \<Longrightarrow> mb_read m off n s = mb_read m off n s'"
  by (simp add: mb_read_def)

lemma mb_read_write:
  assumes "length bs = k"
  shows "mb_read m off (k + n) (mb_write m off bs s) = bs @ mb_read m (off + int k) n s"
  by (rule nth_equalityI) (use assms in \<open>auto simp: mb_read_def mb_write_def upd_mbuf_def nth_append algebra_simps\<close>)

lemma mb_read_write_all: "mb_read m off (length bs) (mb_write m off bs s) = bs"
  using mb_read_write [of bs "length bs" m off 0 s] by (simp add: mb_read_def)

section \<open>Sending\<close>

lemma nic_upd_mbuf [simp]: "nic (upd_mbuf m f s) = nic s" "nic (mb_write m off bs s) = nic s"
  "arps (upd_mbuf m f s) = arps s" "arps (mb_write m off bs s) = arps s"
  by (simp_all add: upd_mbuf_def mb_write_def)

lemma nkfree_same: "nkfree ks p s = Inr s' \<Longrightarrow> nic s' = nic s \<and> arps s' = arps s \<and> (\<forall>q. q \<noteq> p \<longrightarrow> mbufs s' q = mbufs s q)"
  by (auto simp: nkfree_def)

lemma nkalloc_same: "nkalloc s = (s', p) \<Longrightarrow> nic s' = nic s \<and> arps s' = arps s"
  by (auto simp: nkalloc_def Let_def split: prod.splits if_splits)

lemma e1000_send_posts:
  assumes "e1000_send ks m s = Inr (s', r)" "tx_idle s" "tdt (nic s) < TX_RING_SIZE" "tx_mbufs (nic s) (tdt (nic s)) \<noteq> m"
    "unat (mb_len (mbufs s m)) < 65536"
  shows "r = 0 \<and> posted s' m (mb_read m (mb_head (mbufs s m)) (unat (mb_len (mbufs s m))) s) \<and> tx_idle s'"
proof -
  let ?d = "tdt (nic s)"
  obtain s1 where s1: "nic s1 = nic s" "arps s1 = arps s" "mbufs s1 m = mbufs s m"
    "s' = s1\<lparr>nic := (nic s1)\<lparr>tx_mbufs := (tx_mbufs (nic s1))(?d := m), tx_addr := (tx_addr (nic s1))(?d := (m, mb_head (mbufs s1 m))),
      tx_length := (tx_length (nic s1))(?d := ucast (mb_len (mbufs s1 m))), tx_cmd := (tx_cmd (nic s1))(?d := 9),
      tdt := Suc ?d mod TX_RING_SIZE\<rparr>\<rparr>" "r = 0"
    using assms(1-4) by (fastforce simp: e1000_send_def tx_idle_def mbuf_free_def Let_def split: if_splits dest: nkfree_same)
  have l: "last_desc s' = ?d" by (rule last_desc_Suc [OF assms(3)]) (simp add: s1(4))
  have "unat (ucast (mb_len (mbufs s m)) :: u16) = unat (mb_len (mbufs s m))"
    using assms(5) by (simp add: unsigned_ucast_eq take_bit_eq_mod)
  moreover have "mb_read m (mb_head (mbufs s m)) n s' = mb_read m (mb_head (mbufs s m)) n s" for n
    by (rule mb_read_eq) (simp add: s1(3,4))
  ultimately have "posted s' m (mb_read m (mb_head (mbufs s m)) (unat (mb_len (mbufs s m))) s)"
    unfolding posted_def sent_def l by (simp add: s1)
  then show ?thesis using s1 assms(2) by (simp add: tx_idle_def)
qed

lemma ethernet_tx_posts:
  assumes e: "ethernet_tx ks m type mac s = Inr s'" and ok: "nic_ok ks s ps" "mine ks s ps m" "tx_idle s"
    and h: "14 \<le> mb_head (mbufs s m)" "unat (mb_len (mbufs s m)) < 65522" "length mac = 6"
  shows "posted s' m (mac @ LOCAL_MAC_ADDR @ put16 (toggle_endian16 type) @ mb_read m (mb_head (mbufs s m)) (unat (mb_len (mbufs s m))) s) \<and> tx_idle s'"
proof -
  let ?p = "mb_head (mbufs s m) - 14" and ?bs = "mac @ LOCAL_MAC_ADDR @ put16 (toggle_endian16 type)"
  let ?s1 = "upd_mbuf m (\<lambda>b. b\<lparr>mb_head := mb_head b - uint (14 :: u32), mb_len := mb_len b + 14\<rparr>) s"
  let ?s2 = "mb_write m ?p ?bs ?s1"
  have pr: "mbuf_prepend m 14 s = Inr (?s1, ?p)"
    using h(1) mine_nonnull [OF ok(2)] by (simp add: mbuf_prepend_def deref_def upd_mbuf_def Let_def)
  have nic: "tx_idle ?s2 = tx_idle s" by (simp add: tx_idle_def)
  have ring: "tdt (nic s) < TX_RING_SIZE" "tx_mbufs (nic s) (tdt (nic s)) \<noteq> m"
    using ok by (auto simp: nic_ok_def mine_def)
  have len: "unat (mb_len (mbufs ?s2 m)) = 14 + unat (mb_len (mbufs s m))"
    using h(2) by (simp add: mb_write_def upd_mbuf_def unat_word_ariths)
  have hd: "mb_head (mbufs ?s2 m) = ?p" by (simp add: mb_write_def upd_mbuf_def)
  have bs: "length ?bs = 14" using h(3) by (simp add: LOCAL_MAC_ADDR_def put16_def)
  have rd: "mb_read m ?p (14 + n) ?s2 = ?bs @ mb_read m (mb_head (mbufs s m)) n s" for n
    using mb_read_write [OF bs, of m ?p n ?s1] mb_read_eq [of ?s1 m s] by (simp add: upd_mbuf_def)
  obtain s3 r where s3: "e1000_send ks m ?s2 = Inr (s3, r)" "s' = s3 \<or> r < 0"
    using e pr by (auto simp: ethernet_tx_def split: if_splits)
  have "r = 0 \<and> posted s3 m (mb_read m ?p (14 + unat (mb_len (mbufs s m))) ?s2) \<and> tx_idle s3"
    using e1000_send_posts [OF s3(1)] ok(3) h(2) ring unfolding hd len nic by simp
  then show ?thesis using s3(2) unfolding rd by simp
qed

lemma e1000_send_idle: "e1000_send ks m s = Inr (s', r) \<Longrightarrow> tx_idle s \<Longrightarrow> tx_idle s'"
  by (auto simp: e1000_send_def tx_idle_def mbuf_free_def Let_def split: if_splits dest!: nkfree_same)

lemma mbuf_prepend_same: "mbuf_prepend m n s = Inr (s', p) \<Longrightarrow> nic s' = nic s \<and> arps s' = arps s"
  by (auto simp: mbuf_prepend_def deref_def upd_mbuf_def Let_def split: if_splits)

lemma ethernet_tx_idle:
  assumes "ethernet_tx ks m type mac s = Inr s'" "tx_idle s"
  shows "tx_idle s'"
proof -
  obtain s1 p s3 r where s1: "mbuf_prepend m 14 s = Inr (s1, p)"
    and s3: "e1000_send ks m (mb_write m p (mac @ LOCAL_MAC_ADDR @ put16 (toggle_endian16 type)) s1) = Inr (s3, r)"
      "(if r < 0 then mbuf_free ks m s3 else Inr s3) = Inr s'"
    using assms(1) by (auto simp: ethernet_tx_def)
  have "tx_idle (mb_write m p (mac @ LOCAL_MAC_ADDR @ put16 (toggle_endian16 type)) s1)"
    using mbuf_prepend_same [OF s1] assms(2) by (simp add: tx_idle_def)
  then have "tx_idle s3" by (rule e1000_send_idle [OF s3(1)])
  then show ?thesis using s3(2) nkfree_same [of ks m s3 s'] by (auto simp: tx_idle_def mbuf_free_def split: if_splits)
qed

lemma arp_tx_idle:
  assumes "arp_tx ks op hw mac ip s = Inr (s', r)" "tx_idle s"
  shows "tx_idle s'"
proof -
  obtain s1 m where s1: "mbuf_alloc MBUF_DEFAULT_HEADROOM s = (s1, m)" by fastforce
  have i1: "tx_idle s1"
    using s1 assms(2) by (auto simp: mbuf_alloc_def tx_idle_def Let_def split: if_splits prod.splits dest!: nkalloc_same)
  show ?thesis
  proof (cases "m = 0")
    case True
    then show ?thesis using assms(1) s1 i1 by (simp add: arp_tx_def)
  next
    case False
    then obtain s2 p where s2: "mbuf_append m 28 s1 = Inr (s2, p)"
      "ethernet_tx ks m ETH_TYPE_ARP mac (mb_write m p (arp_hdr op hw ip) s2) = Inr s'"
      using assms(1) s1 by (auto simp: arp_tx_def)
    have "nic s2 = nic s1 \<and> arps s2 = arps s1" using s2(1) by (auto simp: mbuf_append_def deref_def Let_def split: if_splits)
    then show ?thesis using ethernet_tx_idle [OF s2(2)] i1 by (simp add: tx_idle_def)
  qed
qed

lemma arp_resolve_mac:
  assumes "arp_resolve ks ip s = Inr (s', r, mac)" "tx_idle s"
  shows "tx_idle s'" "r = 1 \<Longrightarrow> length mac = 6"
  using assms arp_tx_idle by (auto simp: arp_resolve_def tx_idle_def split: option.splits if_splits prod.splits)

text \<open>The frame of an IP packet: the Ethernet and the IP header in front of the contents of the buffer.\<close>

definition ip_frame :: "u8 list \<Rightarrow> u32 \<Rightarrow> u8 \<Rightarrow> u8 list \<Rightarrow> u8 list" where
  "ip_frame mac dst proto bs =
    (let len = of_nat (20 + length bs)
     in mac @ LOCAL_MAC_ADDR @ put16 (toggle_endian16 ETH_TYPE_IPV4) @
        ip_hdr len proto (checksum (ip_hdr len proto 0 dst) 0) dst @ bs)"

lemma length_ip_hdr [simp]: "length (ip_hdr len proto ck dst) = 20"
  by (simp add: ip_hdr_def put16_def put32_def)

lemma length_tcp_hdr [simp]: "length (tcp_hdr src dst seq ack flg win ck) = 20"
  by (simp add: tcp_hdr_def put16_def put32_def)

lemma next_hop:
  assumes e: "(if dst \<noteq> 0 then ebind (arp_resolve ks dst s) (\<lambda>(s, ret, mac). Inr (s, if ret \<noteq> 1 then GATEWAY_MAC_ADDR else mac))
      else Inr (s, ETHERNET_ADDR_BROADCAST)) = Inr (s', mac)" and ok: "nic_ok ks s ps" "tx_idle s"
  shows "(\<exists>ps'. kept ks {} s ps s' ps') \<and> tx_idle s' \<and> length mac = 6"
proof (cases "dst = 0")
  case True
  then show ?thesis using e ok kept_refl [OF ok(1)] by (auto simp: ETHERNET_ADDR_BROADCAST_def)
next
  case False
  obtain s1 r mac1 ps1 where a: "arp_resolve ks dst s = Inr (s1, r, mac1)" "kept ks {} s ps s1 ps1"
    by (rule arp_resolve_returns [OF ok(1)])
  then show ?thesis using e False arp_resolve_mac [OF a(1) ok(2)] by (auto simp: GATEWAY_MAC_ADDR_def)
qed

lemma ip_tx_posts:
  assumes e: "ip_tx ks m dst proto s = Inr s'" and ok: "nic_ok ks s ps" "mine ks s ps m" "tx_idle s"
    and h: "34 \<le> mb_head (mbufs s m)" "unat (mb_len (mbufs s m)) < 65500"
  shows "\<exists>mac. length mac = 6 \<and> posted s' m (ip_frame mac dst proto (mb_read m (mb_head (mbufs s m)) (unat (mb_len (mbufs s m))) s)) \<and> tx_idle s'"
proof -
  obtain s1 where s1: "mbuf_prepend m 20 s = Inr (s1, mb_head (mbufs s m) - 20)" "kept ks {m} s ps s1 ps"
    "mine ks s1 ps m" "mb_head (mbufs s1 m) = mb_head (mbufs s m) - 20" "mb_len (mbufs s1 m) = mb_len (mbufs s m) + 20"
    "mb_data (mbufs s1 m) = mb_data (mbufs s m)"
    by (rule mbuf_prepend_room [OF ok(1,2), of 20]) (use h(1) in auto)
  let ?len = "ucast (mb_len (mbufs s1 m)) :: u16" and ?n = "unat (mb_len (mbufs s m))"
  let ?hd = "ip_hdr ?len proto (checksum (ip_hdr ?len proto 0 dst) 0) dst"
  let ?s2 = "mb_write m (mb_head (mbufs s m) - 20) ?hd s1"
  have n: "unat (mb_len (mbufs s1 m)) = 20 + ?n" using h(2) s1(5) by (simp add: unat_word_ariths)
  have len: "?len = of_nat (20 + ?n)" using n by (metis of_nat_unat ucast_id unsigned_of_nat unsigned_ucast_eq)
  have k2: "kept ks {m} s ps ?s2 ps" by (rule kept_trans [OF s1(2) kept_mb_write [OF keptD(1) [OF s1(2)]]])
  have i2: "tx_idle ?s2" using ok(3) mbuf_prepend_same [OF s1(1)] by (simp add: tx_idle_def)
  obtain s3 mac where s3: "(if dst \<noteq> 0 then ebind (arp_resolve ks dst ?s2) (\<lambda>(s, ret, mac).
      Inr (s, if ret \<noteq> 1 then GATEWAY_MAC_ADDR else mac)) else Inr (?s2, ETHERNET_ADDR_BROADCAST)) = Inr (s3, mac)"
    "ethernet_tx ks m ETH_TYPE_IPV4 mac s3 = Inr s'"
    using e s1(1) by (auto simp: ip_tx_def Let_def)
  have m3: "\<exists>ps3. kept ks {} ?s2 ps s3 ps3" "tx_idle s3" "length mac = 6"
    using next_hop [OF s3(1) keptD(1) [OF k2] i2] by simp_all
  then obtain ps3 where k3: "kept ks {} ?s2 ps s3 ps3" by blast
  have b: "mine ks s3 ps3 m" "mbufs s3 m = mbufs ?s2 m" using keptD(3,4) [OF k3, of m] s1(3) by auto
  have rd: "mb_read m (mb_head (mbufs s m) - 20) (20 + ?n) s3 = ?hd @ mb_read m (mb_head (mbufs s m)) ?n s"
    using mb_read_write [of ?hd 20 m "mb_head (mbufs s m) - 20" ?n s1] mb_read_eq [of s3 m ?s2] mb_read_eq [of s1 m s] s1(6)
    by (simp add: b(2))
  have "posted s' m (mac @ LOCAL_MAC_ADDR @ put16 (toggle_endian16 ETH_TYPE_IPV4) @
      mb_read m (mb_head (mbufs s m) - 20) (20 + ?n) s3) \<and> tx_idle s'"
    using ethernet_tx_posts [OF s3(2) keptD(1) [OF k3] b(1) m3(2)] h n m3(3) s1(4) unfolding b(2) by simp
  then show ?thesis using m3(3) unfolding rd by (auto simp: ip_frame_def len Let_def)
qed

section \<open>Segments\<close>

text \<open>The copy of a segment that goes to the transmission queue lies on pages that were free, so that the frame stays on the ring.\<close>

lemma nkalloc_posted:
  assumes "nkalloc s = (s', p)" "posted s m fr" "nic_ok ks s ps" "m \<noteq> 0"
  shows "posted s' m fr \<and> p \<noteq> m \<and> (\<exists>ps'. nic_ok ks s' ps')"
proof -
  have m: "m \<notin> set ps" using assms(2-4) last_desc_less [of s] by (auto simp: nic_ok_def posted_def)
  show ?thesis
  proof (cases ps)
    case Nil
    then show ?thesis using assms nkalloc_none [of ks s] by auto
  next
    case (Cons a qs)
    then have ok: "nic_ok ks s (a # qs)" using assms(3) by simp
    obtain s1 where s1: "nkalloc s = (s1, a)" "kept ks {a} s (a # qs) s1 qs" by (rule nkalloc_page [OF ok])
    have pa: "p = a" "s' = s1" "a \<noteq> m" using s1(1) assms(1) m Cons by auto
    have "nic s' = nic s" using nkalloc_same [OF assms(1)] by simp
    moreover have "mbufs s' m = mbufs s m"
      using assms(1) pa(1,3) by (auto simp: nkalloc_def Let_def split: prod.splits if_splits)
    ultimately have "posted s' m fr"
      using assms(2) mb_read_eq [of s' m s] by (auto simp: posted_def sent_def last_desc_def split: prod.splits)
    then show ?thesis using pa keptD(1) [OF s1(2)] by auto
  qed
qed

lemma posted_same:
  assumes "posted s m fr" "nic s' = nic s" "mbufs s' m = mbufs s m"
  shows "posted s' m fr"
  using assms mb_read_eq [of s' m s] by (auto simp: posted_def sent_def last_desc_def split: prod.splits)

lemma tcp_txq_add_posted:
  assumes e: "tcp_txq_add ks i m hdr len s = Inr (s', r)" and po: "posted s m fr" and ok: "nic_ok ks s ps" "m \<noteq> 0"
  shows "posted s' m fr"
proof -
  obtain s1 q where s1: "nkalloc s = (s1, q)" by fastforce
  obtain s2 g where s2: "nkalloc s1 = (s2, g)" by fastforce
  obtain ps1 where 1: "posted s1 m fr" "q \<noteq> m" "nic_ok ks s1 ps1" using nkalloc_posted [OF s1 po ok] by blast
  have 2: "posted s2 m fr" using nkalloc_posted [OF s2 1(1,3) ok(2)] by blast
  consider "s' = s1" | "nkfree ks q s2 = Inr s'" | h where "s' = upd_tcp i h s2"
    using e s1 s2 by (auto simp: tcp_txq_add_def split: if_splits)
  then show ?thesis
  proof cases
    case 1
    then show ?thesis using \<open>posted s1 m fr\<close> by simp
  next
    case 2
    then show ?thesis using nkfree_same [OF 2] \<open>q \<noteq> m\<close> by (intro posted_same [OF \<open>posted s2 m fr\<close>]) auto
  next
    case 3
    then show ?thesis by (intro posted_same [OF 2]) (simp_all add: upd_tcp_def)
  qed
qed

text \<open>A segment without text, with its checksum.\<close>

definition empty_segment :: "tcp_cb \<Rightarrow> u32 \<Rightarrow> u32 \<Rightarrow> u8 \<Rightarrow> u8 list" where
  "empty_segment cb seq ack flg =
    (let h = tcp_hdr (t_port cb) (t_pport cb) seq ack flg (rcv_wnd cb)
     in h (checksum (h 0) (pseudo_sum (t_addr cb) 0)))"

lemma tcp_tx_posts:
  assumes e: "tcp_tx ks m i seq ack flg 0 s = Inr (s', r)" and ok: "nic_ok ks s ps" "mine ks s ps m" "tx_idle s"
    and h: "54 \<le> mb_head (mbufs s m)" "mb_len (mbufs s m) = 0"
  shows "\<exists>mac. length mac = 6 \<and> sent s' = ip_frame mac (toggle_endian32 (t_addr (tcps s i))) IP_PROTO_TCP (empty_segment (tcps s i) seq ack flg)"
proof -
  let ?p = "mb_head (mbufs s m) - 20" and ?cb = "tcps s i"
  obtain s1 where s1: "mbuf_prepend m 20 s = Inr (s1, ?p)" "kept ks {m} s ps s1 ps"
    "mine ks s1 ps m" "tcps s1 = tcps s" "mb_head (mbufs s1 m) = ?p" "mb_len (mbufs s1 m) = mb_len (mbufs s m) + 20"
    by (rule mbuf_prepend_room [OF ok(1,2), of 20]) (use h(1) in auto)
  let ?h = "tcp_hdr (t_port ?cb) (t_pport ?cb) seq ack flg (rcv_wnd ?cb)"
  let ?s2 = "mb_write m ?p (?h 0) s1"
  let ?ck = "checksum (?h 0) (pseudo_sum (t_addr ?cb) 0)"
  let ?s3 = "mb_write m ?p (?h ?ck) ?s2"
  have rd: "mb_read m ?p 20 ?s2 = ?h 0" "mb_read m ?p 20 ?s3 = ?h ?ck"
    using mb_read_write_all [of m ?p "?h 0" s1] mb_read_write_all [of m ?p "?h ?ck" ?s2] by simp_all
  have k3: "kept ks {m} s ps ?s3 ps"
    by (rule kept_trans [OF kept_trans [OF s1(2) kept_mb_write [OF keptD(1) [OF s1(2)]]]])
      (rule kept_mb_write [OF keptD(1) [OF kept_trans [OF s1(2) kept_mb_write [OF keptD(1) [OF s1(2)]]]]])
  have i3: "tx_idle ?s3" using ok(3) mbuf_prepend_same [OF s1(1)] by (simp add: tx_idle_def)
  obtain s4 r' where s4: "ip_tx ks m (toggle_endian32 (t_addr ?cb)) IP_PROTO_TCP ?s3 = Inr s4" "tcp_txq_add ks i m ?p 20 s4 = Inr (s', r')"
    using e s1(1,4) rd(1) by (auto simp: tcp_tx_def Let_def)
  have m3: "mine ks ?s3 ps m" and h3: "34 \<le> mb_head (mbufs ?s3 m)" using s1(3,5) h(1) by simp_all
  obtain s5 ps4 where "ip_tx ks m (toggle_endian32 (t_addr ?cb)) IP_PROTO_TCP ?s3 = Inr s5" "kept ks {m} ?s3 ps s5 ps4"
    by (rule ip_tx_returns [OF keptD(1) [OF k3] m3 h3])
  then have k4: "nic_ok ks s4 ps4" using s4(1) keptD(1) by auto
  obtain mac where mac: "length mac = 6" "posted s4 m (ip_frame mac (toggle_endian32 (t_addr ?cb)) IP_PROTO_TCP (?h ?ck))"
    using ip_tx_posts [OF s4(1) keptD(1) [OF k3] m3 i3 h3] s1(5,6) h(2) rd(2) by auto
  have "posted s' m (ip_frame mac (toggle_endian32 (t_addr ?cb)) IP_PROTO_TCP (?h ?ck))"
    by (rule tcp_txq_add_posted [OF s4(2) mac(2) k4 mine_nonnull [OF ok(2)]])
  then show ?thesis using mac(1) by (auto simp: posted_def empty_segment_def Let_def)
qed

lemma tcp_tx_empty_posts:
  assumes e: "tcp_tx_empty ks i seq ack flg s = Inr s'" and ok: "nic_ok ks s ps" "ps \<noteq> []" "tx_idle s"
  shows "\<exists>mac. length mac = 6 \<and> sent s' = ip_frame mac (toggle_endian32 (t_addr (tcps s i))) IP_PROTO_TCP (empty_segment (tcps s i) seq ack flg)"
proof -
  obtain p qs where ps: "ps = p # qs" using ok(2) by (cases ps) auto
  then have ok1: "nic_ok ks s (p # qs)" using ok(1) by simp
  obtain s1 where s1: "mbuf_alloc 54 s = (s1, p)" "kept ks {p} s (p # qs) s1 qs" "mine ks s1 qs p" "tcps s1 = tcps s"
    "mb_head (mbufs s1 p) = 54" "mb_len (mbufs s1 p) = 0"
    by (rule mbuf_alloc_page [OF ok1, of 54]) (auto simp: MBUF_SIZE_def)
  have i1: "tx_idle s1"
    using s1(1) ok(3) by (auto simp: mbuf_alloc_def tx_idle_def Let_def split: if_splits prod.splits dest!: nkalloc_same)
  obtain r where "tcp_tx ks p i seq ack flg 0 s1 = Inr (s', r)" using e s1(1) by (auto simp: tcp_tx_empty_def)
  then show ?thesis using tcp_tx_posts [OF _ keptD(1) [OF s1(2)] s1(3) i1] s1(4,5,6) by fastforce
qed

section \<open>Reading the frame\<close>

lemma get32_put32: "get32 (put32 v @ bs) 0 = v"
  using le32_byte32 [of v] by (simp add: get32_def put32_def upt_conv_Cons numeral_2_eq_2 numeral_3_eq_3)

lemma get16_put16: "get16 (put16 v @ bs) 0 = v"
proof -
  have "bit (get16 (put16 v @ bs) 0) n = bit v n" for n
    using bit_imp_le_length [of v n] by (auto simp: get16_def put16_def bit_simps)
  then show ?thesis by (rule bit_eqI)
qed

lemma get_shift: "length xs = k \<Longrightarrow> get32 (xs @ ys) (k + j) = get32 ys j" "length xs = k \<Longrightarrow> get16 (xs @ ys) (k + j) = get16 ys j"
  by (auto simp: get32_def get16_def nth_append add.assoc)

text \<open>
  The frame goes to the station that the local network leads to, carries an IP packet from the local address to that of the peer, and in it
  a segment between the ports of the connection with the given numbers and flags.
\<close>

definition tcp_frame_ok :: "tcp_cb \<Rightarrow> u32 \<Rightarrow> u32 \<Rightarrow> u8 \<Rightarrow> u8 list \<Rightarrow> bool" where
  "tcp_frame_ok cb seq ack flg fr \<longleftrightarrow>
    length fr = 54 \<and> get16 fr 12 = toggle_endian16 ETH_TYPE_IPV4 \<and> fr ! 23 = IP_PROTO_TCP \<and>
    get32 fr 26 = toggle_endian32 LOCAL_IP_ADDR \<and> get32 fr 30 = t_addr cb \<and>
    (let h = drop 34 fr
     in get16 h 0 = t_port cb \<and> get16 h 2 = t_pport cb \<and> h_seq h = seq \<and> h_ack h = ack \<and> h_flg h = flg)"

lemma get_put_field: "length xs = k \<Longrightarrow> get32 (xs @ put32 v @ ys) k = v" "length xs = k \<Longrightarrow> get16 (xs @ put16 w @ ys) k = w"
  using get_shift [of xs k _ 0] get32_put32 get16_put16 by simp_all

lemma empty_segment_fields:
  fixes cb seq ack flg
  defines "h \<equiv> empty_segment cb seq ack flg"
  shows "length h = 20" "get16 h 0 = t_port cb" "get16 h 2 = t_pport cb" "h_seq h = seq" "h_ack h = ack" "h_flg h = flg"
proof -
  obtain ck where h: "h = put16 (t_port cb) @ put16 (t_pport cb) @ put32 (toggle_endian32 seq) @ put32 (toggle_endian32 ack) @
      [0x50, flg] @ put16 (toggle_endian16 (rcv_wnd cb)) @ put16 ck @ put16 0"
    by (simp add: h_def empty_segment_def tcp_hdr_def Let_def)
  note l = put16_def put32_def
  show "length h = 20" by (simp add: h l)
  show "get16 h 0 = t_port cb" unfolding h by (rule get16_put16)
  show "get16 h 2 = t_pport cb" unfolding h by (rule get_put_field(2)) (simp add: l)
  show "h_seq h = seq" unfolding h_seq_def h
    using get_put_field(1) [of "put16 (t_port cb) @ put16 (t_pport cb)" 4 "toggle_endian32 seq"] by (simp add: l)
  show "h_ack h = ack" unfolding h_ack_def h
    using get_put_field(1) [of "put16 (t_port cb) @ put16 (t_pport cb) @ put32 (toggle_endian32 seq)" 8 "toggle_endian32 ack"] by (simp add: l)
  show "h_flg h = flg" by (simp add: h_flg_def h l nth_append)
qed

lemma empty_segment_ok:
  assumes "length mac = 6"
  shows "tcp_frame_ok cb seq ack flg (ip_frame mac (toggle_endian32 (t_addr cb)) IP_PROTO_TCP (empty_segment cb seq ack flg))" (is "tcp_frame_ok _ _ _ _ ?f")
proof -
  let ?e = "mac @ LOCAL_MAC_ADDR" and ?h = "empty_segment cb seq ack flg"
  obtain n ck where f: "?f = ?e @ put16 (toggle_endian16 ETH_TYPE_IPV4) @ [0x45, 0] @ put16 n @ [0, 0, 0, 0] @
      [100, IP_PROTO_TCP] @ put16 ck @ put32 (toggle_endian32 LOCAL_IP_ADDR) @ put32 (t_addr cb) @ ?h"
    by (simp add: ip_frame_def ip_hdr_def Let_def)
  let ?i = "?e @ put16 (toggle_endian16 ETH_TYPE_IPV4) @ [0x45, 0] @ put16 n @ [0, 0, 0, 0] @ [100, IP_PROTO_TCP] @ put16 ck"
  have l: "length ?e = 12" "length ?i = 26" "length (?i @ put32 (toggle_endian32 LOCAL_IP_ADDR)) = 30"
      "length (?i @ put32 (toggle_endian32 LOCAL_IP_ADDR) @ put32 (t_addr cb)) = 34"
    using assms by (simp_all add: LOCAL_MAC_ADDR_def put16_def put32_def)
  have "get16 ?f 12 = toggle_endian16 ETH_TYPE_IPV4" unfolding f by (rule get_put_field(2) [OF l(1)])
  moreover have "get32 ?f 26 = toggle_endian32 LOCAL_IP_ADDR"
    using get_put_field(1) [OF l(2), of "toggle_endian32 LOCAL_IP_ADDR" "put32 (t_addr cb) @ ?h"] unfolding f by simp
  moreover have "get32 ?f 30 = t_addr cb" using get_put_field(1) [OF l(3), of "t_addr cb" ?h] unfolding f by simp
  moreover have d: "drop 34 ?f = ?h"
    using l(4) append_eq_conv_conj [of "?i @ put32 (toggle_endian32 LOCAL_IP_ADDR) @ put32 (t_addr cb)" ?h ?f] unfolding f by simp
  moreover have "length ?f = 54" using l(4) empty_segment_fields(1) [of cb seq ack flg] unfolding f by simp
  moreover have "?f ! 23 = IP_PROTO_TCP" using assms unfolding f by (simp add: nth_append LOCAL_MAC_ADDR_def put16_def)
  ultimately show ?thesis using empty_segment_fields [of cb seq ack flg] by (simp add: tcp_frame_ok_def Let_def)
qed

end
