(* ===== verification/Net_Props.thy ===== *)
theory Net_Props
  imports Net_Frames
begin

text \<open>
  Correctness of the network stack: checksums, the stream that a TCP connection delivers, the states of a
  connection, UDP datagrams and ports.
\<close>

section \<open>Checksums\<close>

text \<open>The sum that \<^verbatim>\<open>checksum\<close> computes, as a natural number.\<close>

fun sum16 :: "u8 list \<Rightarrow> nat" where
  "sum16 (a # b # bs) = unat a + 256 * unat b + sum16 bs"
| "sum16 [a] = unat a"
| "sum16 [] = 0"

lemma unat_u8_lt: "unat (a :: u8) < 256"
  using unsigned_less [of a] by simp

lemma unat_u16_lt: "unat (a :: u16) < 65536"
  using unsigned_less [of a] by simp

lemma sum16_bound: "sum16 bs \<le> 65535 * ((length bs + 1) div 2)"
proof (induction bs rule: sum16.induct)
  case (1 a b bs)
  then show ?case using unat_u8_lt [of a] unat_u8_lt [of b] by simp
next
  case (2 a)
  then show ?case using unat_u8_lt [of a] by simp
qed simp

lemma sum16_append: "even (length xs) \<Longrightarrow> sum16 (xs @ ys) = sum16 xs + sum16 ys"
  by (induction xs rule: sum16.induct) auto

lemma get16_unat: "unat (get16 [a, b] 0) = unat a + 256 * unat b"
proof -
  have "(ucast a :: u16) OR push_bit 8 (ucast b) = ucast a + push_bit 8 (ucast b)"
    by (rule disjunctive_add [symmetric]) (auto simp: bit_simps dest: bit_imp_le_length)
  moreover have "unat (ucast a + push_bit 8 (ucast b) :: u16) = unat a + 256 * unat b"
    using unat_u8_lt [of a] unat_u8_lt [of b]
    by (simp add: unat_word_ariths push_bit_eq_mult unsigned_ucast_eq take_bit_eq_mod)
  ultimately show ?thesis by (simp add: get16_def)
qed

lemma sum16_put16: "sum16 (put16 c @ ys) = unat c + sum16 ys"
proof -
  have "unat (ucast c :: u8) = unat c mod 256" by (simp add: unsigned_ucast_eq take_bit_eq_mod)
  moreover have "unat (ucast (drop_bit 8 c) :: u8) = unat c div 256"
    using unat_u16_lt [of c]
    by (simp add: unsigned_ucast_eq take_bit_eq_mod drop_bit_eq_div unat_div_distrib)
  ultimately show ?thesis by (simp add: put16_def)
qed

lemma checksum_add_sum16: "checksum_add bs acc = acc + of_nat (sum16 bs)"
proof (induction bs acc rule: checksum_add.induct)
  case (1 a b bs acc)
  have "(ucast (get16 [a, b] 0) :: u32) = of_nat (unat (get16 [a, b] 0))" by simp
  then show ?case using 1 by (simp add: get16_unat algebra_simps del: of_nat_unat)
qed (auto simp: word_unat_eq_iff unsigned_ucast_eq)

lemma checksum_fold_mod:
  "unat (checksum_fold acc) mod 65535 = unat acc mod 65535 \<and> unat (checksum_fold acc) \<le> 65535 \<and>
    (checksum_fold acc = 0 \<longleftrightarrow> acc = 0)"
proof (induction acc rule: checksum_fold.induct)
  case (1 acc)
  let ?n = "unat acc" and ?b = "drop_bit 16 acc + (acc AND 0xffff)"
  have d: "unat (drop_bit 16 acc) = ?n div 65536" by (simp add: drop_bit_eq_div unat_div_distrib)
  have "acc AND 0xffff = acc mod 0x10000"
    using take_bit_eq_mask [of 16 acc] by (simp add: take_bit_eq_mod mask_eq_exp_minus_1)
  then have m: "unat (acc AND 0xffff) = ?n mod 65536" by (simp add: unat_mod_distrib)
  have "?n div 65536 < 65536" by (rule less_mult_imp_div_less) (use unat_u32_lt [of acc] in simp)
  moreover have "?n mod 65536 < 65536" by simp
  ultimately have b: "unat ?b = ?n div 65536 + ?n mod 65536" by (simp add: unat_word_ariths d m)
  show ?case
  proof (cases "drop_bit 16 acc = 0")
    case True
    then have "?n div 65536 = 0" using d by simp
    then have "?n \<le> 65535" by (simp add: div_eq_0_iff)
    then show ?thesis using True by (simp add: checksum_fold.simps [of acc])
  next
    case False
    then have e: "checksum_fold acc = checksum_fold ?b" by (simp add: checksum_fold.simps [of acc])
    have "?n = ?n div 65536 * 65536 + ?n mod 65536" by simp
    then have "?n = (?n div 65536 + ?n mod 65536) + 65535 * (?n div 65536)" by linarith
    then have "?n mod 65535 = (?n div 65536 + ?n mod 65536) mod 65535" by (metis mod_mult_self2)
    moreover have "?b = 0 \<longleftrightarrow> acc = 0"
    proof -
      have "?n = 0" if "?n div 65536 = 0" "?n mod 65536 = 0" using that div_mult_mod_eq [of ?n 65536] by simp
      then show ?thesis using b by (auto simp: unat_eq_0 [symmetric])
    qed
    ultimately show ?thesis using 1 [OF False] b by (simp add: e)
  qed
qed

lemma checksum_value:
  assumes "length bs < 65536" "unat init < 2147483648"
  obtains f where "unat (checksum bs init) = 65535 - f" "f mod 65535 = (unat init + sum16 bs) mod 65535" "f \<le> 65535"
    "f = 0 \<longleftrightarrow> unat init + sum16 bs = 0"
proof -
  let ?w = "init + of_nat (sum16 bs) :: u32" and ?f = "checksum_fold (init + of_nat (sum16 bs))"
  have "sum16 bs \<le> 65535 * 32768" using sum16_bound [of bs] assms(1) by simp
  then have w: "unat ?w = unat init + sum16 bs"
    using assms(2) by (simp add: unat_word_ariths unat_of_nat)
  have c: "checksum bs init = ucast (NOT ?f)" using assms(1) by (simp add: checksum_def checksum_add_sum16)
  have f: "unat ?f mod 65535 = unat ?w mod 65535" "unat ?f \<le> 65535" "?f = 0 \<longleftrightarrow> ?w = 0"
    using checksum_fold_mod [of ?w] by auto
  have "NOT ?f = - 1 - ?f" by (simp add: not_eq_complement)
  moreover have "unat (- 1 - ?f) = 4294967295 - unat ?f" by (subst unat_sub) (simp_all add: unsigned_minus_1_eq_mask mask_eq_exp_minus_1)
  ultimately have "unat (checksum bs init) = (4294967295 - unat ?f) mod 65536"
    by (simp add: c unsigned_ucast_eq take_bit_eq_mod)
  also have "4294967295 - unat ?f = (65535 - unat ?f) + 65536 * 65535" using f(2) by linarith
  also have "\<dots> mod 65536 = 65535 - unat ?f" by (simp only: mod_mult_self2) simp
  finally have u: "unat (checksum bs init) = 65535 - unat ?f" .
  have "unat ?f = 0 \<longleftrightarrow> unat init + sum16 bs = 0" using f(3) w by (simp only: unat_eq_0 [symmetric])
  then show ?thesis using that [OF u] f(1,2) w by simp
qed

lemma checksum_inserted:
  assumes "even (length xs)" "length xs + length ys + 2 < 65536" "unat init < 2147483648"
  shows "checksum (xs @ put16 (checksum (xs @ put16 0 @ ys) init) @ ys) init = 0"
proof -
  let ?c = "checksum (xs @ put16 0 @ ys) init" and ?S = "unat init + sum16 xs + sum16 ys"
  have l: "length (xs @ put16 a @ ys) < 65536" for a using assms(2) by (simp add: put16_def)
  have s: "unat init + sum16 (xs @ put16 a @ ys) = ?S + unat a" for a using assms(1) by (simp add: sum16_append sum16_put16)
  obtain f where "unat ?c = 65535 - f" "f mod 65535 = (unat init + sum16 (xs @ put16 0 @ ys)) mod 65535" "f \<le> 65535"
    "f = 0 \<longleftrightarrow> unat init + sum16 (xs @ put16 0 @ ys) = 0"
    by (rule checksum_value [OF l [of 0] assms(3)])
  then have f: "unat ?c = 65535 - f" "f mod 65535 = ?S mod 65535" "f \<le> 65535" "f = 0 \<longleftrightarrow> ?S = 0"
    unfolding s by simp_all
  obtain g where g: "unat (checksum (xs @ put16 ?c @ ys) init) = 65535 - g"
    "g mod 65535 = (?S + unat ?c) mod 65535" "g \<le> 65535" "g = 0 \<longleftrightarrow> ?S + unat ?c = 0"
    by (rule checksum_value [OF l [of ?c] assms(3), unfolded s])
  have "(?S + (65535 - f)) mod 65535 = (f + (65535 - f)) mod 65535" by (rule mod_add_cong [OF f(2) [symmetric] refl])
  then have "(?S + (65535 - f)) mod 65535 = 0" using f(3) by simp
  then have "g mod 65535 = 0" using g(2) f(1) by simp
  moreover have "g \<noteq> 0" using g(4) f(1,4) by auto
  ultimately have "g = 65535" using g(3) by (auto simp: mod_eq_0_iff_dvd dest: dvd_imp_le)
  then show ?thesis using g(1) by (simp add: unat_eq_zero)
qed

lemma unat_add_bound: "unat (a :: u32) \<le> j \<Longrightarrow> unat b \<le> k \<Longrightarrow> unat (a + b) \<le> j + k"
  by (simp add: unat_word_ariths)

lemma pseudo_sum_bound: "unat (pseudo_sum ip len) < 2147483648"
proof -
  have a: "unat (x AND 0xffff :: u32) \<le> 65535" for x
    using word_and_le1 [of x "0xffff"] by (simp add: word_le_nat_alt)
  have c: "unat (ucast (y :: u16) :: u32) \<le> 65535" for y using unat_u16_lt [of y] by (simp add: unsigned_ucast_eq take_bit_eq_mod)
  have "unat (pseudo_sum ip len) \<le> 65535 + 65535 + 65535 + 65535 + 65535 + 65535"
    unfolding pseudo_sum_def Let_def by (intro unat_add_bound a c)
  then show ?thesis by simp
qed

text \<open>
  How a receiver verifies a checksum (RFC 1071): the sum of the 16-bit words in network byte order, an odd last byte padded with zero, in
  one's complement is all ones. For a TCP segment (RFC 793) it includes the pseudo header: the source and the destination
  address and the protocol of the IP header, and the length of the segment.
\<close>

fun be_sum :: "u8 list \<Rightarrow> nat" where
  "be_sum (a # b # bs) = 256 * unat a + unat b + be_sum bs"
| "be_sum [a] = 256 * unat a"
| "be_sum [] = 0"

definition rfc1071_ok :: "u8 list \<Rightarrow> bool" where
  "rfc1071_ok bs \<longleftrightarrow> be_sum bs \<noteq> 0 \<and> be_sum bs mod 65535 = 0"

definition rfc793_ok :: "u8 list \<Rightarrow> u8 list \<Rightarrow> bool" where
  "rfc793_ok iph seg \<longleftrightarrow>
    rfc1071_ok (take 4 (drop 12 iph) @ take 4 (drop 16 iph) @ [0, iph ! 9] @
      [of_nat (length seg div 256), of_nat (length seg mod 256)] @ seg)"

lemma be_sum_sum16: "be_sum bs mod 65535 = (256 * sum16 bs) mod 65535 \<and> (be_sum bs = 0 \<longleftrightarrow> sum16 bs = 0)"
proof (induction bs rule: be_sum.induct)
  case (1 a b bs)
  have "256 * (unat a + 256 * unat b) = (256 * unat a + unat b) + 65535 * unat b" by simp
  then have "(256 * (unat a + 256 * unat b)) mod 65535 = (256 * unat a + unat b) mod 65535" by (metis mod_mult_self2)
  then have "(256 * unat a + unat b + be_sum bs) mod 65535 = (256 * (unat a + 256 * unat b) + 256 * sum16 bs) mod 65535"
    by (intro mod_add_cong) (use 1 in simp_all)
  then show ?case using 1 by (simp only: be_sum.simps sum16.simps distrib_left) auto
qed simp_all

lemma rfc1071_sum16: "rfc1071_ok bs \<longleftrightarrow> sum16 bs \<noteq> 0 \<and> sum16 bs mod 65535 = 0"
proof -
  have "(256 * sum16 bs) mod 65535 = 0 \<longleftrightarrow> sum16 bs mod 65535 = 0"
  proof
    assume "(256 * sum16 bs) mod 65535 = 0"
    then have "(256 * (256 * sum16 bs)) mod 65535 = 0" by (metis mod_mult_right_eq mult_0_right mod_0)
    moreover have "256 * (256 * sum16 bs) = sum16 bs + 65535 * sum16 bs" by simp
    ultimately show "sum16 bs mod 65535 = 0" by (metis mod_mult_self2)
  qed (auto simp: mod_eq_0_iff_dvd)
  then show ?thesis using be_sum_sum16 [of bs] by (auto simp: rfc1071_ok_def)
qed

lemma sum16_put32: "sum16 (put32 v @ ys) = unat (v AND 0xffff) + unat (drop_bit 16 v AND 0xffff) + sum16 ys"
proof -
  have p: "put32 v = put16 (ucast v) @ put16 (ucast (drop_bit 16 v))"
    by (simp add: put32_def put16_def byte32_def upt_conv_Cons) (auto intro!: bit_eqI simp: bit_simps)
  have m: "unat (ucast w :: u16) = unat (w AND 0xffff)" for w :: u32
  proof -
    have "w AND 0xffff = take_bit 16 w" using take_bit_eq_mask [of 16 w] by (simp add: mask_eq_exp_minus_1)
    then show ?thesis by (simp add: unsigned_ucast_eq unsigned_take_bit_eq)
  qed
  show ?thesis by (simp add: p sum16_put16 m)
qed

text \<open>What \<^verbatim>\<open>tcp_tx\<close> adds up is the sum of the pseudo header.\<close>

lemma pseudo_sum_value:
  assumes "n < 65516"
  shows "unat (pseudo_sum ip (of_nat n)) =
    sum16 (put32 (toggle_endian32 LOCAL_IP_ADDR) @ put32 ip @ [0, 6] @ [of_nat ((20 + n) div 256), of_nat ((20 + n) mod 256)])"
proof -
  let ?l = "toggle_endian32 LOCAL_IP_ADDR"
  have t: "unat (toggle_endian16 w) = unat w div 256 + 256 * (unat w mod 256)" for w :: u16
  proof -
    have "put16 (toggle_endian16 w) = [ucast (drop_bit 8 w), ucast w]"
      by (simp add: put16_def toggle_endian16_low toggle_endian16_high)
    then have "sum16 (put16 (toggle_endian16 w) @ []) = unat (ucast (drop_bit 8 w) :: u8) + 256 * unat (ucast w :: u8)" by simp
    moreover have "unat (ucast (drop_bit 8 w) :: u8) = unat w div 256"
      using unat_u16_lt [of w] by (simp add: unsigned_ucast_eq take_bit_eq_mod drop_bit_eq_div unat_div_distrib)
    ultimately show ?thesis
      using sum16_put16 [of "toggle_endian16 w" "[]"] by (simp add: unsigned_ucast_eq take_bit_eq_mod)
  qed
  have a: "unat (x AND 0xffff :: u32) \<le> 65535" for x
    using word_and_le1 [of x "0xffff"] by (simp add: word_le_nat_alt)
  have len: "unat (ucast (20 + of_nat n :: u32) :: u16) = 20 + n"
    using assms by (simp add: unsigned_ucast_eq take_bit_eq_mod unat_word_ariths unat_of_nat)
  have w: "unat (toggle_endian16 (ucast (20 + of_nat n :: u32) :: u16)) = (20 + n) div 256 + 256 * ((20 + n) mod 256)"
    unfolding t len ..
  have p: "unat (toggle_endian16 (ucast IP_PROTO_TCP) :: u16) = 1536" by (simp add: t IP_PROTO_TCP_def)
  have b: "(20 + n) div 256 < 256" using assms by (simp add: less_mult_imp_div_less)
  have c: "unat (ucast (y :: u16) :: u32) = unat y" for y by simp
  have "unat (pseudo_sum ip (of_nat n)) = unat (drop_bit 16 ?l AND 0xffff) + unat (?l AND 0xffff) + unat (drop_bit 16 ip AND 0xffff) +
      unat (ip AND 0xffff) + 1536 + ((20 + n) div 256 + 256 * ((20 + n) mod 256))"
    unfolding pseudo_sum_def Let_def
    by (simp only: unat_word_ariths c p w) (use a [of "drop_bit 16 ?l"] a [of ?l] a [of "drop_bit 16 ip"] a [of ip] b in simp)
  then show ?thesis using b by (simp add: sum16_put32 unat_of_nat)
qed

lemma checksum_zero:
  assumes "checksum bs init = 0" "length bs < 65536" "unat init < 2147483648"
  shows "unat init + sum16 bs \<noteq> 0 \<and> (unat init + sum16 bs) mod 65535 = 0"
proof -
  obtain f where "unat (checksum bs init) = 65535 - f" "f mod 65535 = (unat init + sum16 bs) mod 65535" "f \<le> 65535"
    "f = 0 \<longleftrightarrow> unat init + sum16 bs = 0" by (rule checksum_value [OF assms(2,3)])
  then show ?thesis using assms(1) by auto
qed

text \<open>C26: Receivers accept the checksums. An IP header with the checksum that \<^verbatim>\<open>ip_tx\<close> stores in it verifies as RFC 1071
  demands, and so does, with the pseudo header of RFC 793 taken from the IP header in front of it, a TCP segment with the
  checksum that \<^verbatim>\<open>tcp_tx\<close> stores in it, for text of every length that fits in a packet and every peer.\<close>

theorem checksum_verifies:
  "rfc1071_ok (ip_hdr len proto (checksum (ip_hdr len proto 0 dst) 0) dst) \<and>
    (length data < 65516 \<longrightarrow>
      rfc793_ok (ip_hdr len IP_PROTO_TCP c (toggle_endian32 ip))
        (tcp_hdr src dport seq ack flg win
          (checksum (tcp_hdr src dport seq ack flg win 0 @ data) (pseudo_sum ip (of_nat (length data)))) @ data))"
proof
  let ?x = "[0x45, 0] @ put16 (toggle_endian16 len) @ [0, 0, 0, 0] @ [100, proto]"
  let ?y = "put32 (toggle_endian32 LOCAL_IP_ADDR) @ put32 (toggle_endian32 dst)"
  have "ip_hdr len proto k dst = ?x @ put16 k @ ?y" for k by (simp add: ip_hdr_def)
  moreover have "checksum (?x @ put16 (checksum (?x @ put16 0 @ ?y) 0) @ ?y) 0 = 0"
    by (rule checksum_inserted) (simp_all add: put16_def put32_def)
  ultimately have "checksum (ip_hdr len proto (checksum (ip_hdr len proto 0 dst) 0) dst) 0 = 0" by metis
  then show "rfc1071_ok (ip_hdr len proto (checksum (ip_hdr len proto 0 dst) 0) dst)"
    using checksum_zero [of _ 0] by (simp add: rfc1071_sum16)
next
  let ?i = "pseudo_sum ip (of_nat (length data))" and ?h = "tcp_hdr src dport seq ack flg win"
  let ?z = "put16 src @ put16 dport @ put32 (toggle_endian32 seq) @ put32 (toggle_endian32 ack) @ [0x50, flg] @
    put16 (toggle_endian16 win)"
  show "length data < 65516 \<longrightarrow> rfc793_ok (ip_hdr len IP_PROTO_TCP c (toggle_endian32 ip)) (?h (checksum (?h 0 @ data) ?i) @ data)"
  proof
    assume l: "length data < 65516"
    let ?s = "?h (checksum (?h 0 @ data) ?i) @ data" and ?p = "ip_hdr len IP_PROTO_TCP c (toggle_endian32 ip)"
    have e: "?h k @ data = ?z @ put16 k @ (put16 0 @ data)" for k by (simp add: tcp_hdr_def)
    have "checksum ?s ?i = 0"
      unfolding e by (rule checksum_inserted [OF _ _ pseudo_sum_bound]) (use l in \<open>simp_all add: put16_def put32_def\<close>)
    then have z: "unat ?i + sum16 ?s \<noteq> 0 \<and> (unat ?i + sum16 ?s) mod 65535 = 0"
      using l by (intro checksum_zero pseudo_sum_bound) simp_all
    let ?q = "put32 (toggle_endian32 LOCAL_IP_ADDR) @ put32 ip @ [0, 6] @ [of_nat ((20 + length data) div 256), of_nat ((20 + length data) mod 256)]"
    have "take 4 (drop 12 ?p) @ take 4 (drop 16 ?p) @ [0, ?p ! 9] @ [of_nat (length ?s div 256), of_nat (length ?s mod 256)] @ ?s = ?q @ ?s"
      by (simp add: ip_hdr_def put16_def put32_def upt_conv_Cons IP_PROTO_TCP_def)
    moreover have "sum16 (?q @ ?s) = unat ?i + sum16 ?s"
      by (subst sum16_append) (simp_all add: pseudo_sum_value [OF l] put32_def)
    ultimately show "rfc793_ok ?p ?s" using z by (simp only: rfc793_ok_def rfc1071_sum16) simp
  qed
qed

theorem checksum_verifies_witness:
  "rfc793_ok (ip_hdr 43 IP_PROTO_TCP 0 (toggle_endian32 10))
    (tcp_hdr 1 2 3 4 5 6 (checksum (tcp_hdr 1 2 3 4 5 6 0 @ [7, 8, 9]) (pseudo_sum 10 3)) @ [7, 8, 9])"
  using checksum_verifies [of 43 0 0 "[7, 8, 9]" 0 10 1 2 3 4 5 6] by simp

section \<open>Datagrams\<close>

text \<open>The packets \<open>ms\<close> wait at the control block \<open>i\<close>, the oldest first.\<close>

definition datagrams :: "net \<Rightarrow> nat \<Rightarrow> u32 list \<Rightarrow> bool" where
  "datagrams s i ms \<longleftrightarrow> chain (\<lambda>a. mb_nxt (mbufs s a)) (u_mbufs (udps s i)) ms \<and> distinct ms"

definition payload :: "net \<Rightarrow> u32 \<Rightarrow> u8 list" where
  "payload s m = mb_read m (mb_head (mbufs s m)) (unat (mb_len (mbufs s m))) s"

lemma mbuf_get_tail_chain:
  "chain (\<lambda>a. mb_nxt (mbufs s a)) p (xs @ [t]) \<Longrightarrow> length xs < fuel \<Longrightarrow> mbuf_get_tail_loop fuel p s = Inr t"
proof (induction xs arbitrary: p fuel)
  case Nil
  then show ?case by (cases fuel) auto
next
  case (Cons x xs)
  obtain f where f: "fuel = Suc f" using Cons.prems by (cases fuel) auto
  have "mb_nxt (mbufs s p) \<noteq> 0" using Cons.prems by (cases xs) auto
  then show ?case using Cons f by auto
qed

lemma append_mbuf_appends:
  assumes "datagrams s i ms" "m \<notin> set ms" "m \<noteq> 0" "length ms \<le> 2 ^ 20"
  obtains s' where "append_mbuf i m s = Inr s'" "datagrams s' i (ms @ [m])" "ntbl s' = ntbl s"
    "payload s' = payload s"
proof -
  let ?s = "upd_mbuf m (\<lambda>b. b\<lparr>mb_nxt := 0\<rparr>) s"
  have c: "chain (\<lambda>a. mb_nxt (mbufs s a)) (u_mbufs (udps s i)) ms" "distinct ms" using assms(1) by (auto simp: datagrams_def)
  have c': "chain (\<lambda>a. mb_nxt (mbufs ?s a)) (u_mbufs (udps s i)) ms"
    using c(1) assms(2) by (subst chain_cong) (auto simp: upd_mbuf_def)
  show ?thesis
  proof (cases ms rule: rev_cases)
    case Nil
    let ?s' = "upd_udp i (\<lambda>c. c\<lparr>u_mbufs := m\<rparr>) ?s"
    have "append_mbuf i m s = Inr ?s'" using c Nil by (simp add: append_mbuf_def upd_mbuf_def)
    then show ?thesis
      by (rule that) (use Nil assms(3) in \<open>auto simp: datagrams_def upd_udp_def upd_mbuf_def payload_def mb_read_def fun_eq_iff\<close>)
  next
    case (snoc xs t)
    let ?s' = "upd_mbuf t (\<lambda>b. b\<lparr>mb_nxt := m\<rparr>) ?s"
    have p: "u_mbufs (udps s i) \<noteq> 0" using c(1) snoc by (cases xs) auto
    have "mbuf_get_tail (u_mbufs (udps s i)) ?s = Inr t"
      unfolding mbuf_get_tail_def by (rule mbuf_get_tail_chain) (use c' snoc assms(4) in auto)
    then have e: "append_mbuf i m s = Inr ?s'" using p by (simp add: append_mbuf_def upd_mbuf_def)
    have tm: "t \<noteq> m" using assms(2) snoc by auto
    then have "(\<lambda>a. mb_nxt (mbufs ?s' a)) = (\<lambda>a. mb_nxt (mbufs s a))(t := m, m := 0)" by (auto simp: upd_mbuf_def)
    moreover have "chain ((\<lambda>a. mb_nxt (mbufs s a))(t := m, m := 0)) (u_mbufs (udps s i)) (xs @ [t, m])"
      by (rule chain_snoc) (use c snoc assms(2,3) tm in auto)
    ultimately have "datagrams ?s' i (ms @ [m])" using snoc c(2) assms(2) tm by (simp add: datagrams_def upd_mbuf_def)
    then show ?thesis by (rule that [OF e]) (auto simp: upd_mbuf_def payload_def mb_read_def fun_eq_iff)
  qed
qed

lemma nwakeup_datagrams [simp]:
  "datagrams (nwakeup me ch s) i ms = datagrams s i ms" "payload (nwakeup me ch s) a = payload s a"
  "ntbl (nwakeup me ch s) = wakeup me ch (ntbl s)"
  by (simp_all add: datagrams_def payload_def mb_read_def nwakeup_def)

lemma upd_udp_fields [simp]:
  "ntbl (upd_udp i f s) = ntbl s" "mbufs (upd_udp i f s) = mbufs s" "u_mbufs (udps (upd_udp i f s) i) = u_mbufs (f (udps s i))"
  by (simp_all add: upd_udp_def)

lemma udp_read_oldest:
  assumes "datagrams s i (m # ms)" "page_ok (ksym_end ks) m"
  obtains k r s' where
    "copyout_buf (mm (ntbl s)) (pagetable (procs (ntbl s) me)) addr (take (unat len) (payload s m)) = Inr (k, r)"
    "udp_read ks me i addr len s = Inr (s', Return (if r = 0 then sint (min len (mb_len (mbufs s m))) else - 1))"
    "datagrams s' i ms"
proof -
  define l where "l = (if len > mb_len (mbufs s m) then mb_len (mbufs s m) else len)"
  have lm: "l = min len (mb_len (mbufs s m))" by (auto simp: l_def min_def)
  have c: "u_mbufs (udps s i) = m" "m \<noteq> 0" "m \<notin> set ms" "distinct ms"
    "chain (\<lambda>a. mb_nxt (mbufs s a)) (mb_nxt (mbufs s m)) ms" using assms(1) by (auto simp: datagrams_def)
  let ?s1 = "upd_udp i (\<lambda>c. c\<lparr>u_mbufs := mb_nxt (mbufs s m)\<rparr>) s"
  have b: "mb_read m (mb_head (mbufs s m)) (unat l) ?s1 = take (unat len) (payload s m)"
    by (auto simp: l_def payload_def mb_read_def take_map word_less_nat_alt min_def)
  obtain k r where k: "copyout_buf (mm (ntbl s)) (pagetable (procs (ntbl s) me)) addr (take (unat len) (payload s m)) = Inr (k, r)"
    "r = 0 \<or> r = - 1" using copyout_buf_returns by blast
  have "\<not> (m mod PGSIZE \<noteq> 0 \<or> m < ksym_end ks \<or> m \<ge> PHYSTOP)"
    using assms(2) by (auto simp: page_ok_def aligned_def)
  then obtain k' where k': "kfree (ksym_end ks) k m = Inr k'" by (simp add: kfree_def Let_def)
  let ?s3 = "?s1\<lparr>ntbl := (ntbl s)\<lparr>mm := k'\<rparr>, mbufs := (mbufs s)(m := mb_fill m (freelist k) 1)\<rparr>"
  have "udp_read ks me i addr len s = Inr (?s3, Return (if r < 0 then - 1 else sint l))"
    unfolding udp_read_def Let_def c(1) upd_udp_fields l_def [symmetric] using c(2) k(1) b k'
    by (simp add: mbuf_free_def nkfree_def)
  moreover have "r < 0 \<longleftrightarrow> r \<noteq> 0" using k(2) by auto
  moreover have "datagrams ?s3 i ms"
    using c(3-5) by (simp add: datagrams_def upd_udp_def) (subst chain_cong, auto)
  ultimately show ?thesis using that k(1) lm by simp
qed

text \<open>C27: Datagrams are delivered in order. A datagram for a control block goes behind those that wait there, with its
  header removed, and wakes the readers; none of the others changes. A reader gets the oldest one, cut to the size of its
  buffer, and removes it, and sleeps when there is none.\<close>

theorem udp_fifo:
  assumes "datagrams s i ms" and "length ms \<le> 2 ^ 20" and "m \<notin> set ms" and "m \<noteq> 0" and "8 \<le> len"
    and "find (\<lambda>j. u_used (udps s j) \<and> u_addr (udps s j) = get32 (mb_read m iph 20 s) 12 \<and>
      u_pport (udps s j) = get16 (mb_read m (mb_head (mbufs s m)) 8 s) 0 \<and>
      u_port (udps s j) = get16 (mb_read m (mb_head (mbufs s m)) 8 s) 2) [0..<UDP_CB_TABLE_SIZE] = Some i"
    and "\<forall>a \<in> set ms. page_ok (ksym_end ks) a" and "8 \<le> mb_len (mbufs s m)"
  shows "(\<exists>s'. udp_rx ks me m len iph s = Inr s' \<and> datagrams s' i (ms @ [m]) \<and>
      payload s' m = drop 8 (payload s m) \<and> (\<forall>a. a \<noteq> m \<longrightarrow> payload s' a = payload s a) \<and>
      procs (ntbl s') = procs (wakeup me (ChUdp i) (ntbl s))) \<and>
    (case ms of
       [] \<Rightarrow> udp_read ks p i addr n s = Inr (nsleep p (ChUdp i) s, Sleeps (ChUdp i))
     | a # as \<Rightarrow> \<exists>k r s'.
         copyout_buf (mm (ntbl s)) (pagetable (procs (ntbl s) p)) addr (take (unat n) (payload s a)) = Inr (k, r) \<and>
         udp_read ks p i addr n s = Inr (s', Return (if r = 0 then sint (min n (mb_len (mbufs s a))) else - 1)) \<and>
         datagrams s' i as)"
proof (intro conjI)
  let ?s1 = "upd_mbuf m (\<lambda>b. b\<lparr>mb_len := mb_len b - 8, mb_head := mb_head b + 8\<rparr>) s"
  have pop: "mbuf_pop m 8 s = (?s1, mb_head (mbufs s m))" by (simp add: mbuf_pop_def Let_def)
  have nx: "(\<lambda>a. mb_nxt (mbufs ?s1 a)) = (\<lambda>a. mb_nxt (mbufs s a))" by (auto simp: upd_mbuf_def)
  have rd: "mb_read a off k ?s1 = mb_read a off k s" for a off k by (simp add: mb_read_def upd_mbuf_def)
  have d1: "datagrams ?s1 i ms" using assms(1) by (simp add: datagrams_def nx) (simp add: upd_mbuf_def)
  have us: "udps ?s1 = udps s" "ntbl ?s1 = ntbl s" by (simp_all add: upd_mbuf_def)
  obtain s2 where s2: "append_mbuf i m ?s1 = Inr s2" "datagrams s2 i (ms @ [m])" "ntbl s2 = ntbl ?s1"
    "payload s2 = payload ?s1"
    by (rule append_mbuf_appends [OF d1 assms(3,4,2)])
  have "udp_rx ks me m len iph s = Inr (nwakeup me (ChUdp i) s2)"
    using assms(5,6) s2(1) by (simp add: udp_rx_def pop rd us Let_def not_less)
  moreover have "payload ?s1 m = drop 8 (payload s m)"
  proof -
    have "unat (mb_len (mbufs s m) - 8) = unat (mb_len (mbufs s m)) - 8" using assms(8) by (simp add: unat_sub)
    then show ?thesis
      by (intro nth_equalityI) (auto simp: payload_def mb_read_def upd_mbuf_def add.assoc less_diff_conv add.commute [of 8])
  qed
  moreover have "payload ?s1 a = payload s a" if "a \<noteq> m" for a
    using that by (simp add: payload_def mb_read_def upd_mbuf_def)
  ultimately show "\<exists>s'. udp_rx ks me m len iph s = Inr s' \<and> datagrams s' i (ms @ [m]) \<and>
      payload s' m = drop 8 (payload s m) \<and> (\<forall>a. a \<noteq> m \<longrightarrow> payload s' a = payload s a) \<and>
      procs (ntbl s') = procs (wakeup me (ChUdp i) (ntbl s))"
    using s2(2-4) us(2) by (intro exI [of _ "nwakeup me (ChUdp i) s2"]) simp
next
  show "case ms of
       [] \<Rightarrow> udp_read ks p i addr n s = Inr (nsleep p (ChUdp i) s, Sleeps (ChUdp i))
     | a # as \<Rightarrow> \<exists>k r s'.
         copyout_buf (mm (ntbl s)) (pagetable (procs (ntbl s) p)) addr (take (unat n) (payload s a)) = Inr (k, r) \<and>
         udp_read ks p i addr n s = Inr (s', Return (if r = 0 then sint (min n (mb_len (mbufs s a))) else - 1)) \<and>
         datagrams s' i as"
  proof (cases ms)
    case Nil
    then show ?thesis using assms(1) by (simp add: datagrams_def udp_read_def)
  next
    case (Cons a as)
    have h: "datagrams s i (a # as)" "page_ok (ksym_end ks) a" using assms(1,7) Cons by auto
    obtain k r s' where "copyout_buf (mm (ntbl s)) (pagetable (procs (ntbl s) p)) addr (take (unat n) (payload s a)) = Inr (k, r)"
      "udp_read ks p i addr n s = Inr (s', Return (if r = 0 then sint (min n (mb_len (mbufs s a))) else - 1))"
      "datagrams s' i as"
      by (rule udp_read_oldest [OF h])
    then show ?thesis unfolding Cons list.case(2) by blast
  qed
qed

theorem udp_fifo_witness:
  "\<exists>s'. udp_rx ex_ks None 0x80005000 10 100
      (upd_udp 0 (\<lambda>c. c\<lparr>u_used := True\<rparr>) (ex_net tcp_zero [0, 0, 0, 0, 0, 10, 0, 0, 72, 105])) = Inr s' \<and>
    datagrams s' 0 [0x80005000] \<and> payload s' 0x80005000 = [72, 105]"
proof -
  let ?b = "[0, 0, 0, 0, 0, 10, 0, 0, 72, 105] :: u8 list"
  let ?s = "upd_udp 0 (\<lambda>c. c\<lparr>u_used := True\<rparr>) (ex_net tcp_zero ?b)"
  have r: "mb_read m 0 k ?s = take k ?b" if "k \<le> 10" for m k
    using ex_net_read [of k ?b m tcp_zero] that by (simp add: mb_read_def)
  have d: "datagrams ?s 0 []" by (simp add: datagrams_def ex_net_def udp_zero_def)
  have z: "get32 (mb_read 0x80005000 100 20 ?s) 12 = 0"
    by (simp add: mb_read_def ex_net_def ex_mbuf_def get32_def le32_def)
  have u: "u_used (udps ?s 0)" "u_addr (udps ?s 0) = 0" "u_pport (udps ?s 0) = 0" "u_port (udps ?s 0) = 0"
    by (simp_all add: upd_udp_def ex_net_def udp_zero_def)
  have "[0..<UDP_CB_TABLE_SIZE] = 0 # [1..<16]" by (simp add: UDP_CB_TABLE_SIZE_def upt_conv_Cons)
  moreover have "get16 (mb_read 0x80005000 0 8 ?s) 0 = 0" "get16 (mb_read 0x80005000 0 8 ?s) 2 = 0"
    by (simp_all add: r get16_def)
  ultimately have f: "find (\<lambda>j. u_used (udps ?s j) \<and> u_addr (udps ?s j) = get32 (mb_read 0x80005000 100 20 ?s) 12 \<and>
      u_pport (udps ?s j) = get16 (mb_read 0x80005000 (mb_head (mbufs ?s 0x80005000)) 8 ?s) 0 \<and>
      u_port (udps ?s j) = get16 (mb_read 0x80005000 (mb_head (mbufs ?s 0x80005000)) 8 ?s) 2) [0..<UDP_CB_TABLE_SIZE] = Some 0"
    by (simp add: z u)
  have p: "payload ?s 0x80005000 = ?b" using r [of 10] by (simp add: payload_def)
  show ?thesis
    using udp_fifo [OF d _ _ _ _ f, of 10 ex_ks None 0 0 0] by (auto simp: p)
qed

section \<open>Ports\<close>

lemma toggle_endian16_inj: "toggle_endian16 a = toggle_endian16 b \<longleftrightarrow> a = b"
  by (metis toggle_endian16_involution)

lemma udp_port_free_exists: "\<exists>p \<in> {USABLE_PORT_MIN..USABLE_PORT_MAX}. udp_port_free s p"
proof (rule ccontr)
  assume "\<not> ?thesis"
  then have "\<forall>p \<in> {USABLE_PORT_MIN..USABLE_PORT_MAX}. \<exists>i < UDP_CB_TABLE_SIZE. u_port (udps s i) = toggle_endian16 (of_nat p)"
    by (fastforce simp: udp_port_free_def)
  then have "(\<lambda>p. toggle_endian16 (of_nat p)) ` {USABLE_PORT_MIN..USABLE_PORT_MAX} \<subseteq> (\<lambda>i. u_port (udps s i)) ` {..<UDP_CB_TABLE_SIZE}"
    by (force simp: image_iff)
  then have "card ((\<lambda>p. toggle_endian16 (of_nat p)) ` {USABLE_PORT_MIN..USABLE_PORT_MAX}) \<le> UDP_CB_TABLE_SIZE"
    by (metis card_image_le card_lessThan card_mono finite_imageI finite_lessThan order_trans)
  moreover have "inj_on (\<lambda>p. toggle_endian16 (of_nat p)) {USABLE_PORT_MIN..USABLE_PORT_MAX}"
  proof (rule inj_onI)
    fix x y
    assume "x \<in> {USABLE_PORT_MIN..USABLE_PORT_MAX}" "y \<in> {USABLE_PORT_MIN..USABLE_PORT_MAX}"
      "toggle_endian16 (of_nat x) = toggle_endian16 (of_nat y)"
    then have "x \<le> 65535" "y \<le> 65535" "unat (of_nat x :: u16) = unat (of_nat y :: u16)"
      by (simp_all add: toggle_endian16_inj USABLE_PORT_MAX_def)
    then show "x = y" by (simp add: unat_of_nat)
  qed
  ultimately show False by (simp add: card_image USABLE_PORT_MIN_def USABLE_PORT_MAX_def UDP_CB_TABLE_SIZE_def)
qed

text \<open>C28: \<^verbatim>\<open>udp_connect\<close> on an open socket that has no port yet always succeeds: there are more ports than sockets, and
  the port that it takes is in the dynamic range and different from the port of every other open socket.\<close>

theorem udp_connect_unique_port:
  assumes "i < UDP_CB_TABLE_SIZE" and "\<not> udp_lock s" and "u_used (udps s i)" and "u_port (udps s i) = 0"
  shows "\<exists>s' p. udp_connect (int i) ip port s = Inr (s', 0) \<and> p \<in> {USABLE_PORT_MIN..USABLE_PORT_MAX} \<and>
    u_port (udps s' i) = toggle_endian16 (of_nat p) \<and> u_addr (udps s' i) = toggle_endian32 ip \<and>
    (\<forall>j < UDP_CB_TABLE_SIZE. j \<noteq> i \<longrightarrow> u_used (udps s' j) \<longrightarrow> u_port (udps s' j) \<noteq> u_port (udps s' i))"
proof -
  let ?s = "upd_udp i (\<lambda>c. c\<lparr>u_addr := toggle_endian32 ip, u_pport := toggle_endian16 (ucast port)\<rparr>) s"
  obtain p where f: "find (udp_port_free ?s) [USABLE_PORT_MIN..<Suc USABLE_PORT_MAX] = Some p"
    using udp_port_free_exists [of ?s] by (cases "find (udp_port_free ?s) [USABLE_PORT_MIN..<Suc USABLE_PORT_MAX]")
      (auto simp: find_None_iff simp del: upt_Suc)
  then have p: "p \<in> set [USABLE_PORT_MIN..<Suc USABLE_PORT_MAX]" "udp_port_free ?s p"
    by (auto simp: find_Some_iff simp del: upt_Suc)
  let ?s' = "upd_udp i (\<lambda>c. c\<lparr>u_port := toggle_endian16 (of_nat p)\<rparr>) ?s"
  have "udp_connect (int i) ip port s = Inr (?s', 0)"
    using assms f by (simp add: udp_connect_def UDP_SOCKET_ISINVALID_def acq_def upd_udp_def Let_def del: upt_Suc)
  moreover have "u_port (udps ?s' j) \<noteq> u_port (udps ?s' i)" if "j < UDP_CB_TABLE_SIZE" "j \<noteq> i" "u_used (udps ?s' j)" for j
  proof -
    have "\<not> (u_used (udps ?s j) \<and> u_port (udps ?s j) = toggle_endian16 (of_nat p))"
      using p(2) that(1) by (simp add: udp_port_free_def)
    then show ?thesis using that(2,3) by (simp add: upd_udp_def)
  qed
  ultimately show ?thesis using p(1) by (intro exI [of _ ?s'] exI [of _ p]) (auto simp: upd_udp_def simp del: upt_Suc)
qed

theorem udp_connect_unique_port_witness:
  "\<exists>s'. udp_connect 0 0x0a000202 53 (upd_udp 0 (\<lambda>c. c\<lparr>u_used := True\<rparr>) (ex_net tcp_zero [])) = Inr (s', 0) \<and>
    u_addr (udps s' 0) = toggle_endian32 0x0a000202"
proof -
  let ?s = "upd_udp 0 (\<lambda>c. c\<lparr>u_used := True\<rparr>) (ex_net tcp_zero [])"
  have "\<not> udp_lock ?s" "u_used (udps ?s 0)" "u_port (udps ?s 0) = 0"
    by (simp_all add: upd_udp_def ex_net_def udp_zero_def)
  then show ?thesis
    using udp_connect_unique_port [of 0 ?s "0x0a000202" 53] by (auto simp: UDP_CB_TABLE_SIZE_def)
qed

end
