(* ===== verification/Tcp_Props.thy ===== *)
theory Tcp_Props
  imports Net_Frames
begin

text \<open>
  Correctness of TCP: the stream of bytes that a connection delivers, the handshake, the transitions between the
  states of a connection, and what a segment with options does.
\<close>

section \<open>The stream of a connection\<close>

text \<open>The bytes received and not yet read.\<close>

definition rx_stream :: "tcp_cb \<Rightarrow> u8 list" where
  "rx_stream cb = map (tbuf cb) [0..<TCP_BUF_SIZE - unat (rcv_wnd cb)]"

lemma length_rx_stream [simp]: "length (rx_stream cb) = TCP_BUF_SIZE - unat (rcv_wnd cb)"
  by (simp add: rx_stream_def)

lemma same_nwakeup: "tcps (nwakeup me ch s) = tcps s" "ntbl (nwakeup me ch s) = wakeup me ch (ntbl s)"
  by (simp_all add: nwakeup_def)

lemma stream_append:
  assumes "length bs \<le> unat w" "unat w \<le> 8192" "rcv_wnd c = w" "at = TCP_BUF_SIZE - unat w" "unat n = length bs"
  shows "rx_stream (c\<lparr>rcv_nxt := x, rcv_wnd := w - ucast (n :: u32),
      tbuf := (\<lambda>k. if at \<le> k \<and> k < at + length bs then bs ! (k - at) else tbuf c k)\<rparr>) = rx_stream c @ bs"
    "unat (w - ucast n) = unat w - length bs"
proof -
  have "unat (ucast n :: u16) = length bs"
    using assms(1,2,5) by (simp add: unsigned_ucast_eq take_bit_eq_mod)
  then show u: "unat (w - ucast n) = unat w - length bs" using assms(1) by (simp add: unat_sub_if' split: if_splits)
  have l: "TCP_BUF_SIZE - (unat w - length bs) = at + length bs" using assms(1,2,4) by (simp add: TCP_BUF_SIZE_def)
  show "rx_stream (c\<lparr>rcv_nxt := x, rcv_wnd := w - ucast n,
      tbuf := (\<lambda>k. if at \<le> k \<and> k < at + length bs then bs ! (k - at) else tbuf c k)\<rparr>) = rx_stream c @ bs"
    by (rule nth_equalityI) (use assms(3,4) in \<open>auto simp: rx_stream_def u l nth_append\<close>)
qed

lemma tcp_in_ack_established:
  assumes "t_state (tcps s i) = ESTABLISHED" "h_ack h \<le> snd_nxt (tcps s i)"
  obtains u where "tcp_in_ack ks me i h s = Inr (upd_tcp i (\<lambda>c. c\<lparr>snd_una := u\<rparr>) s, True)"
proof (cases "snd_una (tcps s i) < h_ack h")
  case True
  then have "tcp_in_ack ks me i h s = Inr (upd_tcp i (\<lambda>c. c\<lparr>snd_una := h_ack h\<rparr>) s, True)"
    using assms by (simp add: tcp_in_ack_def tcp_in_ack_data_def upd_tcp_def)
  then show ?thesis by (rule that)
next
  case False
  then have "tcp_in_ack ks me i h s = Inr (s, True)"
    using assms by (simp add: tcp_in_ack_def tcp_in_ack_data_def leD)
  moreover have "upd_tcp i (\<lambda>c. c\<lparr>snd_una := snd_una (tcps s i)\<rparr>) s = s" by (simp add: upd_tcp_def)
  ultimately show ?thesis using that [of "snd_una (tcps s i)"] by simp
qed

lemma nic_ok_upd_tcp [simp]: "nic_ok ks (upd_tcp i f s) ps = nic_ok ks s ps"
  by (simp add: nic_ok_def upd_tcp_def)

lemma same_upd_tcp [simp]: "same (upd_tcp i f s) s' = same s s'" "same s (upd_tcp i f s') = same s s'"
  by (simp_all add: same_def upd_tcp_def)

lemma mb_read_upd_tcp [simp]: "mb_read m off n (upd_tcp i f s) = mb_read m off n s"
  by (simp add: mb_read_def upd_tcp_def)

lemma tcps_upd_tcp [simp]: "tcps (upd_tcp i f s) = (tcps s)(i := f (tcps s i))"
  by (simp add: upd_tcp_def)

lemma procs_wakeup_same: "procs t = procs t' \<Longrightarrow> procs (wakeup me ch t) = procs (wakeup me ch t')"
  by (simp add: wakeup_def)

lemma tcp_in_text_appends:
  assumes "nic_ok ks s ps" "ps \<noteq> []" "RX_ISREADY (tcps s i)" "plen \<noteq> 0"
    and w: "unat plen \<le> unat (rcv_wnd (tcps s i))" "unat (rcv_wnd (tcps s i)) \<le> 8192"
  obtains s' where "tcp_in_text ks me i m h plen p s = Inr s'"
    "rx_stream (tcps s' i) = rx_stream (tcps s i) @ mb_read m p (unat plen) s"
    "unat (rcv_wnd (tcps s' i)) = unat (rcv_wnd (tcps s i)) - unat plen"
    "rcv_nxt (tcps s' i) = h_seq h + plen" "t_state (tcps s' i) = t_state (tcps s i)"
    "\<forall>j. j \<noteq> i \<longrightarrow> tcps s' j = tcps s j"
    "procs (ntbl s') = procs (wakeup me (ChTcp i) (ntbl s))"
    "tx_idle s \<Longrightarrow> tcp_frame_ok (tcps s i) (snd_nxt (tcps s i)) (h_seq h + plen) TCP_FLG_ACK (sent s')"
proof -
  let ?c = "tcps s i" and ?bs = "mb_read m p (unat plen) s"
  let ?at = "TCP_BUF_SIZE - unat (rcv_wnd (tcps s i))"
  let ?c' = "?c\<lparr>rcv_nxt := h_seq h + plen, rcv_wnd := rcv_wnd ?c - ucast plen,
    tbuf := (\<lambda>k. if ?at \<le> k \<and> k < ?at + length ?bs then ?bs ! (k - ?at) else tbuf ?c k)\<rparr>"
  let ?s1 = "upd_tcp i (\<lambda>_. ?c') s"
  have st: "rx_stream ?c' = rx_stream ?c @ ?bs" "unat (rcv_wnd ?c - ucast plen) = unat (rcv_wnd ?c) - unat plen"
    using stream_append [OF _ w(2) refl refl, of ?bs plen] w(1) by (simp_all only: length_mb_read)
  have ok1: "nic_ok ks ?s1 ps" using assms(1) by simp
  obtain s2 ps2 q where s2: "tcp_tx_empty ks i (snd_nxt ?c) (h_seq h + plen) TCP_FLG_ACK ?s1 = Inr s2" "kept ks {} ?s1 ps s2 ps2"
    "tcps s2 = (tcps ?s1)(i := (tcps ?s1 i)\<lparr>txq := q\<rparr>)"
    by (rule tcp_tx_empty_returns [OF ok1 assms(2)])
  have "\<not> unat (rcv_wnd ?c) > TCP_BUF_SIZE" "\<not> TCP_BUF_SIZE + unat plen - unat (rcv_wnd ?c) > TCP_BUF_SIZE"
    using w by (simp_all add: TCP_BUF_SIZE_def)
  then have "tcp_in_text ks me i m h plen p s = Inr (nwakeup me (ChTcp i) s2)"
    using s2(1) assms(3,4) by (simp add: tcp_in_text_def Let_def upd_tcp_def)
  moreover have "rx_stream (c\<lparr>txq := q\<rparr>) = rx_stream c" for c by (simp add: rx_stream_def)
  moreover have "procs (ntbl s2) = procs (ntbl s)" using keptD(2) [OF s2(2)] by (simp add: same_def upd_tcp_def)
  moreover have "tcp_frame_ok ?c (snd_nxt ?c) (h_seq h + plen) TCP_FLG_ACK (sent (nwakeup me (ChTcp i) s2))" if "tx_idle s"
  proof -
    have "tx_idle ?s1" using that by (simp add: tx_idle_def upd_tcp_def)
    then obtain mac where "length mac = 6" "sent s2 = ip_frame mac (toggle_endian32 (t_addr (tcps ?s1 i))) IP_PROTO_TCP
        (empty_segment (tcps ?s1 i) (snd_nxt ?c) (h_seq h + plen) TCP_FLG_ACK)"
      using tcp_tx_empty_posts [OF s2(1) ok1 assms(2)] by blast
    then have "tcp_frame_ok (tcps ?s1 i) (snd_nxt ?c) (h_seq h + plen) TCP_FLG_ACK (sent s2)" by (simp only: empty_segment_ok)
    moreover have "sent (nwakeup me (ChTcp i) s2) = sent s2"
      by (simp add: sent_def last_desc_def mb_read_def nwakeup_def)
    ultimately show ?thesis by (simp add: tcp_frame_ok_def)
  qed
  ultimately show ?thesis
    using that [of "nwakeup me (ChTcp i) s2"] s2(3) st by (simp add: same_nwakeup wakeup_def)
qed

text \<open>C22: A connection delivers its peer's bytes in order and without duplication, and acknowledges them. When the handler gets a segment
  with text that starts at the next expected byte and fits in the window, on an established connection, it
  returns; the text is behind the bytes that wait to be read, exactly its length is
  taken off the window, the reader is woken, and no other connection changes. The card's last descriptor then holds a
  frame with a segment to the peer that acknowledges the text: it has the connection's addresses and ports, its next
  sequence number, the flag \<^verbatim>\<open>ACK\<close> and the number of the byte after the text, provided the descriptors were free. The handler
  is given the length of the segment; the one that \<^verbatim>\<open>tcp_rx\<close> computes is right for segments without options only.\<close>

theorem tcp_stream_appends:
  assumes "nic_ok ks s ps" "ps \<noteq> []" and "t_state (tcps s i) = ESTABLISHED"
    and h: "h = mb_read m hdr 20 s" and "h_seq h = rcv_nxt (tcps s i)"
    and "\<not> TCP_FLG_ISSET (h_flg h) (TCP_FLG_RST OR TCP_FLG_SYN)" and "TCP_FLG_ISSET (h_flg h) TCP_FLG_ACK"
    and "\<not> TCP_FLG_ISSET (h_flg h) TCP_FLG_FIN" and "h_ack h \<le> snd_nxt (tcps s i)"
    and plen: "plen = len - h_off h * 4" "plen \<noteq> 0" "unat plen \<le> unat (rcv_wnd (tcps s i))" "unat (rcv_wnd (tcps s i)) \<le> 8192"
    and "tx_idle s"
  shows "\<exists>s'. tcp_incoming_event ks me i m hdr len s = Inr s' \<and>
    rx_stream (tcps s' i) = rx_stream (tcps s i) @ mb_read m (hdr + uint (h_off h * 4)) (unat plen) s \<and>
    rcv_nxt (tcps s' i) = rcv_nxt (tcps s i) + plen \<and>
    tcp_frame_ok (tcps s i) (snd_nxt (tcps s i)) (rcv_nxt (tcps s i) + plen) TCP_FLG_ACK (sent s') \<and>
    unat (rcv_wnd (tcps s' i)) = unat (rcv_wnd (tcps s i)) - unat plen \<and> t_state (tcps s' i) = ESTABLISHED \<and>
    (\<forall>j. j \<noteq> i \<longrightarrow> tcps s' j = tcps s j) \<and> procs (ntbl s') = procs (wakeup me (ChTcp i) (ntbl s))"
proof -
  obtain u where u: "tcp_in_ack ks me i h s = Inr (upd_tcp i (\<lambda>c. c\<lparr>snd_una := u\<rparr>) s, True)"
    by (rule tcp_in_ack_established [OF assms(3,9)])
  let ?s1 = "upd_tcp i (\<lambda>c. c\<lparr>snd_una := u\<rparr>) s"
  have r: "rx_stream (c\<lparr>snd_una := u\<rparr>) = rx_stream c" for c by (simp add: rx_stream_def)
  have p: "nic_ok ks ?s1 ps" "RX_ISREADY (tcps ?s1 i)" "unat plen \<le> unat (rcv_wnd (tcps ?s1 i))"
    "unat (rcv_wnd (tcps ?s1 i)) \<le> 8192" "tx_idle ?s1"
    using assms(1,3,14) plen(3,4) by (simp_all add: RX_ISREADY_def tx_idle_def) (simp_all add: upd_tcp_def)
  obtain s' where s': "tcp_in_text ks me i m h plen (hdr + uint (h_off h * 4)) ?s1 = Inr s'"
    "rx_stream (tcps s' i) = rx_stream (tcps ?s1 i) @ mb_read m (hdr + uint (h_off h * 4)) (unat plen) ?s1"
    "unat (rcv_wnd (tcps s' i)) = unat (rcv_wnd (tcps ?s1 i)) - unat plen"
    "rcv_nxt (tcps s' i) = h_seq h + plen" "t_state (tcps s' i) = t_state (tcps ?s1 i)"
    "\<forall>j. j \<noteq> i \<longrightarrow> tcps s' j = tcps ?s1 j"
    "procs (ntbl s') = procs (wakeup me (ChTcp i) (ntbl ?s1))"
    "tcp_frame_ok (tcps ?s1 i) (snd_nxt (tcps ?s1 i)) (h_seq h + plen) TCP_FLG_ACK (sent s')"
    by (rule tcp_in_text_appends [OF p(1) assms(2) p(2) plen(2) p(3,4)]) (use p(5) in blast)
  have "tcp_incoming_event ks me i m hdr len s = tcp_in_fin ks me i h s'"
    using u s'(1) assms(3,5-7) plen(1) by (simp add: tcp_incoming_event_def h [symmetric] Let_def)
  also have "\<dots> = Inr s'" using assms(8) by (simp add: tcp_in_fin_def)
  finally have "tcp_incoming_event ks me i m hdr len s = Inr s'" .
  moreover have "procs (ntbl s') = procs (wakeup me (ChTcp i) (ntbl s))" using s'(7) by (simp add: upd_tcp_def)
  moreover have "tcp_frame_ok (tcps s i) (snd_nxt (tcps s i)) (rcv_nxt (tcps s i) + plen) TCP_FLG_ACK (sent s')"
    using s'(8) assms(5) by (simp add: tcp_frame_ok_def)
  ultimately show ?thesis using s'(2-6) assms(3,5) by (intro exI [of _ s']) (simp add: r)
qed

definition ex_cb :: "tcp_state \<Rightarrow> tcp_cb" where
  "ex_cb st = tcp_zero\<lparr>t_used := True, t_state := st, snd_nxt := 1, rcv_nxt := 0x100, rcv_wnd := 8192\<rparr>"

text \<open>A segment with the given data offset and flags, the sequence number 0x100 and the acknowledgement 1.\<close>

definition ex_seg :: "u8 \<Rightarrow> u8 \<Rightarrow> u8 list" where
  "ex_seg off flg = [0, 0, 0, 0, 0, 0, 1, 0, 0, 0, 0, 1, off, flg, 0, 0, 0, 0, 0, 0]"

lemma ex_seg_fields [simp]:
  "h_seq (ex_seg off flg) = 0x100" "h_ack (ex_seg off flg) = 1" "h_flg (ex_seg off flg) = flg"
  "h_off (ex_seg off flg) = ucast (drop_bit 4 off)"
  by (simp_all add: ex_seg_def h_seq_def h_ack_def h_flg_def h_off_def get32_def le32_def toggle_endian32_def)

theorem tcp_stream_appends_witness:
  "\<exists>s'. tcp_incoming_event ex_ks None 3 0x80005000 0 22 (ex_net (ex_cb ESTABLISHED) (ex_seg 0x50 0x10 @ [72, 105])) = Inr s' \<and>
    rx_stream (tcps s' 3) = [72, 105] \<and> h_ack (drop 34 (sent s')) = 0x102"
proof -
  let ?b = "ex_seg 0x50 0x10 @ [72, 105]"
  let ?s = "ex_net (ex_cb ESTABLISHED) ?b"
  have h: "ex_seg 0x50 0x10 = mb_read 0x80005000 0 20 ?s" by (subst ex_net_read) (simp_all add: ex_seg_def)
  have p: "mb_read 0x80005000 20 2 ?s = [72, 105]"
    by (simp add: mb_read_def ex_net_def ex_mbuf_def ex_seg_def numeral_2_eq_2)
  have f: "\<not> TCP_FLG_ISSET 0x10 (TCP_FLG_RST OR TCP_FLG_SYN)" "TCP_FLG_ISSET 0x10 TCP_FLG_ACK" "\<not> TCP_FLG_ISSET 0x10 TCP_FLG_FIN"
    by (simp_all add: TCP_FLG_ISSET_def TCP_FLG_RST_def TCP_FLG_SYN_def TCP_FLG_ACK_def TCP_FLG_FIN_def)
  have c: "tcps ?s 3 = ex_cb ESTABLISHED" by (simp add: ex_net_def)
  have r: "rx_stream (ex_cb ESTABLISHED) = []" by (simp add: rx_stream_def ex_cb_def TCP_BUF_SIZE_def)
  have "tx_idle ?s" by (simp add: tx_idle_def ex_net_def ex_nic_def ETHERNET_ADDR_ANY_def)
  then show ?thesis
    using tcp_stream_appends [OF ex_net_ok _ _ h, of 3 2 22 None] p f c r
    by (auto simp: ex_cb_def tcp_zero_def tcp_frame_ok_def Let_def)
qed

lemma stream_drop:
  assumes "unat (rcv_wnd c) \<le> 8192" "tot = 8192 - ucast (rcv_wnd c)" "len \<le> (tot :: u32)"
  shows "rx_stream (c\<lparr>rcv_wnd := rcv_wnd c + ucast len,
      tbuf := (\<lambda>k. if k < unat (tot - len) then tbuf c (k + unat len) else tbuf c k)\<rparr>) = drop (unat len) (rx_stream c)"
    "unat tot = length (rx_stream c)"
proof -
  have t: "unat tot = 8192 - unat (rcv_wnd c)"
    using assms(1,2) by (simp add: unat_sub word_le_nat_alt)
  have l: "unat len \<le> unat tot" using assms(3) by (simp add: word_le_nat_alt)
  then have "unat (ucast len :: u16) = unat len"
    using t by (simp add: unsigned_ucast_eq take_bit_eq_mod)
  then have u: "unat (rcv_wnd c + ucast len) = unat (rcv_wnd c) + unat len"
    using l t assms(1) by (simp add: unat_word_ariths)
  have d: "unat (tot - len) = unat tot - unat len" by (rule unat_sub [OF assms(3)])
  show "unat tot = length (rx_stream c)" using t by (simp add: TCP_BUF_SIZE_def)
  show "rx_stream (c\<lparr>rcv_wnd := rcv_wnd c + ucast len,
      tbuf := (\<lambda>k. if k < unat (tot - len) then tbuf c (k + unat len) else tbuf c k)\<rparr>) = drop (unat len) (rx_stream c)"
    by (rule nth_equalityI) (use l t assms(1) in \<open>auto simp: rx_stream_def u d TCP_BUF_SIZE_def add.commute\<close>)
qed

text \<open>C23: Reading takes bytes from the front of the stream. \<^verbatim>\<open>tcp_read\<close> sleeps when no byte waits and more may come, and
  returns 0 when none can come any more. Otherwise it copies the first bytes of the stream out, as many
  as are asked for or wait, and removes them. When the copy fails it returns -1, removes nothing and leaves the lock
  of the table locked.\<close>

theorem tcp_read_takes:
  assumes "unat (rcv_wnd (tcps s i)) \<le> 8192"
  shows "if rx_stream (tcps s i) = []
    then tcp_read_loop me i addr sz s =
      Inr (if RX_ISREADY (tcps s i) then (nsleep me (ChTcp i) s, Sleeps (ChTcp i)) else (s, Return 0))
    else \<exists>k r s'. copyout_buf (mm (ntbl s)) (pagetable (procs (ntbl s) me)) addr (take (unat sz) (rx_stream (tcps s i))) =
        Inr (k, r) \<and> mm (ntbl s') = k \<and>
      (if r = 0
       then tcp_read_loop me i addr sz s = Inr (s', Return (int (min (unat sz) (length (rx_stream (tcps s i)))))) \<and>
         rx_stream (tcps s' i) = drop (unat sz) (rx_stream (tcps s i)) \<and> tcp_lock s' = tcp_lock s
       else tcp_read_loop me i addr sz s = Inr (s', Return (- 1)) \<and> tcps s' = tcps s \<and> tcp_lock s')"
proof -
  let ?c = "tcps s i"
  define tot where "tot = (8192 - ucast (rcv_wnd ?c) :: u32)"
  define len where "len = (if sz < tot then sz else tot)"
  note d = stream_drop [OF assms tot_def, of len]
  have le: "len \<le> tot" by (auto simp: len_def)
  have ut: "unat tot = length (rx_stream ?c)" by (rule d(2) [OF le])
  have e: "tot = 0 \<longleftrightarrow> rx_stream ?c = []"
    using ut by (metis length_0_conv unat_eq_0)
  have ul: "unat len = min (unat sz) (length (rx_stream ?c))"
    using ut by (auto simp: len_def word_less_nat_alt min_def simp del: length_rx_stream)
  have tk: "map (tbuf ?c) [0..<unat len] = take (unat sz) (rx_stream ?c)"
    by (simp only: ul) (simp add: rx_stream_def take_map min_def)
  have dr: "drop (unat len) (rx_stream ?c) = drop (unat sz) (rx_stream ?c)" by (simp only: ul) (simp add: min_def)
  have sl: "sint len = int (unat len)" by (rule sint_small) (simp add: ul TCP_BUF_SIZE_def)
  show ?thesis
  proof (cases "rx_stream ?c = []")
    case True
    then show ?thesis using e by (auto simp: tcp_read_loop_def tot_def)
  next
    case False
    then have nz: "tot \<noteq> 0" using e by simp
    obtain k r where k: "copyout_buf (mm (ntbl s)) (pagetable (procs (ntbl s) me)) addr (take (unat sz) (rx_stream ?c)) = Inr (k, r)"
      "r = 0 \<or> r = - 1" using copyout_buf_returns by blast
    let ?s = "s\<lparr>ntbl := (ntbl s)\<lparr>mm := k\<rparr>\<rparr>"
    let ?s' = "upd_tcp i (\<lambda>c. c\<lparr>rcv_wnd := rcv_wnd c + ucast len,
      tbuf := (\<lambda>k. if k < unat (tot - len) then tbuf c (k + unat len) else tbuf c k)\<rparr>) ?s"
    have u: "tcp_read_loop me i addr sz s =
        (if r < 0 then Inr (?s\<lparr>tcp_lock := True\<rparr>, Return (- 1)) else Inr (?s', Return (sint len)))"
      unfolding tcp_read_loop_def Let_def tot_def [symmetric] len_def [symmetric] tk using nz k(1) by simp
    have st: "rx_stream (tcps ?s' i) = drop (unat sz) (rx_stream ?c)" using d(1) [OF le] dr by (simp cong: if_cong)
    have lk: "tcp_lock ?s' = tcp_lock s" "mm (ntbl ?s') = k" by (simp_all add: upd_tcp_def)
    show ?thesis
    proof (cases "r = 0")
      case True
      then have "tcp_read_loop me i addr sz s = Inr (?s', Return (int (min (unat sz) (length (rx_stream ?c)))))"
        using u sl ul by simp
      then have "\<exists>s'. mm (ntbl s') = k \<and>
          tcp_read_loop me i addr sz s = Inr (s', Return (int (min (unat sz) (length (rx_stream ?c))))) \<and>
          rx_stream (tcps s' i) = drop (unat sz) (rx_stream ?c) \<and> tcp_lock s' = tcp_lock s"
        using st lk by blast
      then show ?thesis using k(1) False True by (simp del: length_rx_stream)
    next
      case neg: False
      then have "tcp_read_loop me i addr sz s = Inr (?s\<lparr>tcp_lock := True\<rparr>, Return (- 1))" using u k(2) by auto
      then show ?thesis using k False neg by (auto intro!: exI [of _ k] exI [of _ r] exI [of _ "?s\<lparr>tcp_lock := True\<rparr>"])
    qed
  qed
qed

theorem tcp_read_takes_witness:
  "tcp_read_loop 0 3 0 5 (ex_net (ex_cb ESTABLISHED) []) =
    Inr (nsleep 0 (ChTcp 3) (ex_net (ex_cb ESTABLISHED) []), Sleeps (ChTcp 3))"
proof -
  let ?s = "ex_net (ex_cb ESTABLISHED) []"
  have c: "tcps ?s 3 = ex_cb ESTABLISHED" by (simp add: ex_net_def)
  have "rx_stream (ex_cb ESTABLISHED) = []" "RX_ISREADY (ex_cb ESTABLISHED)"
    by (simp_all add: rx_stream_def ex_cb_def TCP_BUF_SIZE_def RX_ISREADY_def)
  then show ?thesis using tcp_read_takes [of ?s 3 0 0 5] c by (simp add: ex_cb_def)
qed

section \<open>Opening a connection\<close>

text \<open>C25: The handshake completes. When the peer acknowledges the SYN that \<^verbatim>\<open>tcp_connect\<close> has sent with a SYN of its
  own, the handler returns with the connection established, the peer's next sequence number expected and the
  SYN acknowledged, and every process that waits in \<^verbatim>\<open>tcp_connect\<close> can run and finds the connection established.\<close>

theorem tcp_handshake_completes:
  assumes "nic_ok ks s ps" "ps \<noteq> []" and "t_state (tcps s i) = SYN_SENT"
    and h: "h = mb_read m hdr 20 s" and "TCP_FLG_ISSET (h_flg h) TCP_FLG_SYN" "TCP_FLG_ISSET (h_flg h) TCP_FLG_ACK"
    and "\<not> TCP_FLG_ISSET (h_flg h) TCP_FLG_RST"
    and "snd_nxt (tcps s i) = iss (tcps s i) + 1" "h_ack h = snd_nxt (tcps s i)" "iss (tcps s i) < iss (tcps s i) + 1"
  shows "\<exists>s'. tcp_incoming_event ks me i m hdr len s = Inr s' \<and> t_state (tcps s' i) = ESTABLISHED \<and>
    rcv_nxt (tcps s' i) = h_seq h + 1 \<and> snd_una (tcps s' i) = snd_nxt (tcps s' i) \<and>
    (\<forall>p < NPROC. Some p \<noteq> me \<longrightarrow> pstate (procs (ntbl s) p) = SLEEPING \<longrightarrow> pchan (procs (ntbl s) p) = ChTcp i \<longrightarrow>
      pstate (procs (ntbl s') p) = RUNNABLE) \<and>
    tcp_connect_wait w i s' = (s', Return 0)"
proof -
  let ?s1 = "upd_tcp i (\<lambda>c. c\<lparr>t_state := ESTABLISHED\<rparr>) (upd_tcp i (\<lambda>c. c\<lparr>snd_una := h_ack h\<rparr>)
    (upd_tcp i (\<lambda>c. c\<lparr>rcv_nxt := h_seq h + 1, irs := h_seq h\<rparr>) s))"
  have ok1: "nic_ok ks ?s1 ps" using assms(1) by simp
  obtain s2 ps2 q where s2: "tcp_tx_empty ks i (snd_nxt (tcps s i)) (h_seq h + 1) TCP_FLG_ACK ?s1 = Inr s2"
    "kept ks {} ?s1 ps s2 ps2" "tcps s2 = (tcps ?s1)(i := (tcps ?s1 i)\<lparr>txq := q\<rparr>)"
    by (rule tcp_tx_empty_returns [OF ok1 assms(2)])
  have nle: "(iss (tcps s i) + 1 \<le> iss (tcps s i)) = False" using assms(10) by (simp add: not_le)
  have "tcp_incoming_event ks me i m hdr len s = Inr (nwakeup me (ChTcp i) s2)"
    using s2(1) assms(3,5-10) by (simp add: tcp_incoming_event_def tcp_in_syn_sent_def h [symmetric] nle)
  moreover have "procs (ntbl s2) = procs (ntbl s)" using keptD(2) [OF s2(2)] by (simp add: same_def upd_tcp_def)
  ultimately show ?thesis
    using s2(3) assms(8,9)
    by (intro exI [of _ "nwakeup me (ChTcp i) s2"]) (simp add: same_nwakeup wakeup_def tcp_connect_wait_def Let_def)
qed

theorem tcp_handshake_completes_witness:
  "\<exists>s'. tcp_incoming_event ex_ks None 3 0x80005000 0 20 (ex_net (ex_cb SYN_SENT) (ex_seg 0x50 0x12)) = Inr s' \<and>
    t_state (tcps s' 3) = ESTABLISHED \<and> rcv_nxt (tcps s' 3) = 0x101"
proof -
  let ?s = "ex_net (ex_cb SYN_SENT) (ex_seg 0x50 0x12)"
  have h: "ex_seg 0x50 0x12 = mb_read 0x80005000 0 20 ?s" by (subst ex_net_read) (simp_all add: ex_seg_def)
  have f: "TCP_FLG_ISSET 0x12 TCP_FLG_SYN" "TCP_FLG_ISSET 0x12 TCP_FLG_ACK" "\<not> TCP_FLG_ISSET 0x12 TCP_FLG_RST"
    by (simp_all add: TCP_FLG_ISSET_def TCP_FLG_RST_def TCP_FLG_SYN_def TCP_FLG_ACK_def)
  have c: "tcps ?s 3 = ex_cb SYN_SENT" by (simp add: ex_net_def)
  show ?thesis
    using tcp_handshake_completes [OF ex_net_ok _ _ h, of 3 None 20 undefined] f c by (auto simp: ex_cb_def tcp_zero_def)
qed

section \<open>Options\<close>

lemma off_cases: "5 < h_off h \<Longrightarrow> h_off h \<in> {6, 7, 8, 9, 10, 11, 12, 13, 14, 15}"
proof -
  assume a: "5 < h_off h"
  have "unat (h ! 12) < 16 * 16" using unsigned_less [of "h ! 12"] by simp
  then have "unat (h ! 12) div 16 < 16" by (rule less_mult_imp_div_less)
  then have "unat (drop_bit 4 (h ! 12)) < 16" by (simp add: drop_bit_eq_div unat_div_distrib)
  then have "unat (h_off h) < 16" by (simp add: h_off_def unsigned_ucast_eq take_bit_eq_mod)
  moreover have "6 \<le> unat (h_off h)" using a by (simp add: word_less_nat_alt)
  ultimately have "unat (h_off h) \<in> set [6..<16]" by (simp only: set_upt atLeastLessThan_iff)
  then have "unat (h_off h) \<in> {6, 7, 8, 9, 10, 11, 12, 13, 14, 15}" by (simp only: upt_rec_numeral) simp
  then have "of_nat (unat (h_off h)) \<in> (of_nat ` {6, 7, 8, 9, 10, 11, 12, 13, 14, 15} :: u32 set)" by (rule imageI)
  then show ?thesis by simp
qed

lemma mb_read_pop: "mbuf_pop m n s = (s', p) \<Longrightarrow> mb_read a off k s' = mb_read a off k s \<and> tcps s' = tcps s \<and>
    tcp_lock s' = tcp_lock s \<and> p = mb_head (mbufs s m)"
  by (auto simp: mbuf_pop_def mb_read_def upd_mbuf_def Let_def)

lemma mb_read_trim: "mbuf_trim m n s = (s', p) \<Longrightarrow> mb_read a off k s' = mb_read a off k s \<and> tcps s' = tcps s"
  by (auto simp: mbuf_trim_def mb_read_def upd_mbuf_def Let_def split: if_splits)

text \<open>C37: A segment with options overruns the buffer of the connection. \<^verbatim>\<open>tcp_rx\<close> takes the length of the options off the
  length of the segment and \<^verbatim>\<open>tcp_incoming_event\<close> takes the whole header off again. So for an acknowledgement
  without text whose header has options, on an established connection, the length of the text wraps around, and about 4
  gigabytes are moved into the buffer of 8192 bytes.\<close>

theorem tcp_options_overrun:
  assumes "\<not> tcp_lock s" and h: "h = mb_read m (mb_head (mbufs s m)) 20 s"
    and "find (\<lambda>j. tcp_match (get32 (mb_read m iph 20 s) 12) (get16 h 0) (get16 h 2) (tcps s j)) [0..<TCP_CB_TABLE_SIZE] = Some i"
    and "t_state (tcps s i) = ESTABLISHED" and "h_seq h = rcv_nxt (tcps s i)" and "h_ack h \<le> snd_nxt (tcps s i)"
    and "h_flg h = TCP_FLG_ACK" and "5 < h_off h" and len: "len = ucast (h_off h) * 4"
  shows "tcp_rx ks me m len iph s = Inl Overrun"
proof -
  obtain s1 where s1: "mbuf_pop m 20 s = (s1, mb_head (mbufs s m))" by (simp add: mbuf_pop_def)
  let ?diff = "ucast (h_off h) * 4 - 20 :: u16" and ?plen = "20 - h_off h * 4"
  obtain s2 x where s2: "mbuf_trim m (ucast ?diff) s1 = (s2, x)" by fastforce
  have r: "mb_read m (mb_head (mbufs s m)) 20 s2 = h" "tcps s2 = tcps s"
    using mb_read_trim [OF s2] mb_read_pop [OF s1] h by auto
  have "\<not> len < 20 \<and> ucast len - ucast ?diff = (20 :: u32) \<and> ?plen \<noteq> 0 \<and> unat ?plen > 8192"
    using off_cases [OF assms(8)] unfolding len insert_iff empty_iff by (elim disjE FalseE) simp_all
  then have l: "\<not> len < 20" "ucast len - ucast ?diff = (20 :: u32)" "?plen \<noteq> 0" "unat ?plen > 8192" by blast+
  have "tcp_rx ks me m len iph s = tcp_incoming_event ks me i m (mb_head (mbufs s m)) 20 s2"
    using s1 s2 l(1,2) assms(1,3) mb_read_pop [OF s1] h by (simp add: tcp_rx_def acq_def tcp_rx_find_def Let_def)
  moreover have "\<not> TCP_FLG_ISSET (h_flg h) (TCP_FLG_RST OR TCP_FLG_SYN)" "TCP_FLG_ISSET (h_flg h) TCP_FLG_ACK"
    using assms(7) by (simp_all add: TCP_FLG_ISSET_def TCP_FLG_RST_def TCP_FLG_SYN_def TCP_FLG_ACK_def)
  moreover obtain u where "tcp_in_ack ks me i h s2 = Inr (upd_tcp i (\<lambda>c. c\<lparr>snd_una := u\<rparr>) s2, True)"
    by (rule tcp_in_ack_established [of s2 i h]) (use assms(4,6) r(2) in auto)
  ultimately show ?thesis
    using assms(4,5) r l(3,4) by (simp add: tcp_incoming_event_def tcp_in_text_def RX_ISREADY_def TCP_BUF_SIZE_def Let_def)
qed

theorem tcp_options_overrun_witness:
  "tcp_rx ex_ks None 0x80005000 24 100 (ex_net (ex_cb ESTABLISHED) (ex_seg 0x60 0x10 @ [1, 1, 1, 0])) = Inl Overrun"
proof -
  let ?s = "ex_net (ex_cb ESTABLISHED) (ex_seg 0x60 0x10 @ [1, 1, 1, 0])"
  have hd: "mb_head (mbufs ?s 0x80005000) = 0" by (simp add: ex_net_def ex_mbuf_def)
  have h: "ex_seg 0x60 0x10 = mb_read 0x80005000 (mb_head (mbufs ?s 0x80005000)) 20 ?s"
    unfolding hd by (subst ex_net_read) (simp_all add: ex_seg_def)
  have c: "tcps ?s j = ex_cb ESTABLISHED" for j by (simp add: ex_net_def)
  have "get32 (mb_read 0x80005000 100 20 ?s) 12 = 0"
    by (simp add: mb_read_def ex_net_def ex_mbuf_def ex_seg_def get32_def le32_def)
  moreover have "tcp_match 0 (get16 (ex_seg 0x60 0x10) 0) (get16 (ex_seg 0x60 0x10) 2) (ex_cb ESTABLISHED)"
    by (simp add: tcp_match_def ex_cb_def tcp_zero_def ex_seg_def get16_def)
  moreover have "[0..<TCP_CB_TABLE_SIZE] = 0 # [1..<16]" by (simp add: TCP_CB_TABLE_SIZE_def upt_conv_Cons)
  ultimately have f: "find (\<lambda>j. tcp_match (get32 (mb_read 0x80005000 100 20 ?s) 12) (get16 (ex_seg 0x60 0x10) 0)
      (get16 (ex_seg 0x60 0x10) 2) (tcps ?s j)) [0..<TCP_CB_TABLE_SIZE] = Some 0"
    by (simp add: c)
  have "\<not> tcp_lock ?s" by (simp add: ex_net_def)
  note r = tcp_options_overrun [OF this h f]
  show ?thesis by (rule r) (simp_all add: c, simp_all add: ex_cb_def TCP_FLG_ACK_def)
qed

section \<open>The states of a connection\<close>

text \<open>Sending does not touch the control blocks, but for the transmission queue.\<close>

lemma nk_tcps:
  "nkalloc s = (s', a) \<Longrightarrow> tcps s' = tcps s" "nkfree ks p s = Inr s' \<Longrightarrow> tcps s' = tcps s"
  "mbuf_alloc n s = (s', a) \<Longrightarrow> tcps s' = tcps s"
  by (auto simp: nkalloc_def nkfree_def mbuf_alloc_def Let_def split: prod.splits if_splits)

lemma mbuf_tcps:
  "mbuf_prepend m n s = Inr (s', p) \<Longrightarrow> tcps s' = tcps s" "mbuf_append m n s = Inr (s', p) \<Longrightarrow> tcps s' = tcps s"
  by (auto simp: mbuf_prepend_def mbuf_append_def deref_def Let_def split: if_splits)

lemma e1000_send_tcps: "e1000_send ks m s = Inr (s', r) \<Longrightarrow> tcps s' = tcps s"
  by (auto simp: e1000_send_def mbuf_free_def Let_def split: if_splits dest!: nk_tcps)

lemma ethernet_tx_tcps: "ethernet_tx ks m type mac s = Inr s' \<Longrightarrow> tcps s' = tcps s"
  by (auto simp: ethernet_tx_def mbuf_free_def Let_def split: if_splits prod.splits
      dest!: nk_tcps mbuf_tcps e1000_send_tcps)

lemma arp_tx_tcps: "arp_tx ks op hw mac ip s = Inr (s', r) \<Longrightarrow> tcps s' = tcps s"
  by (auto simp: arp_tx_def Let_def split: if_splits prod.splits dest!: nk_tcps mbuf_tcps ethernet_tx_tcps)

lemma arp_resolve_tcps: "arp_resolve ks ip s = Inr (s', r) \<Longrightarrow> tcps s' = tcps s"
  by (auto simp: arp_resolve_def split: if_splits option.splits prod.splits dest!: arp_tx_tcps)

lemma ip_tx_tcps: "ip_tx ks m dst proto s = Inr s' \<Longrightarrow> tcps s' = tcps s"
  by (auto simp: ip_tx_def Let_def split: if_splits prod.splits dest!: mbuf_tcps arp_resolve_tcps ethernet_tx_tcps)

lemma tcp_txq_add_tcps:
  "tcp_txq_add ks i m hdr len s = Inr (s', r) \<Longrightarrow> \<exists>q. tcps s' = (tcps s)(i := (tcps s i)\<lparr>txq := q\<rparr>)"
  by (auto simp: tcp_txq_add_def Let_def split: if_splits prod.splits dest!: nk_tcps
      intro: exI [of _ "txq (tcps s i)"])

lemma tcp_tx_empty_tcps:
  assumes "tcp_tx_empty ks i seq ack flg s = Inr s'"
  shows "\<exists>q. tcps s' = (tcps s)(i := (tcps s i)\<lparr>txq := q\<rparr>)"
  using assms
  by (auto simp: tcp_tx_empty_def tcp_tx_def Let_def split: prod.splits
      dest!: nk_tcps mbuf_tcps ip_tx_tcps tcp_txq_add_tcps)

lemma tcp_tx_empty_state: "tcp_tx_empty ks i seq ack flg s = Inr s' \<Longrightarrow> t_state (tcps s' j) = t_state (tcps s j)"
  by (auto dest!: tcp_tx_empty_tcps)

text \<open>The transitions on an incoming segment.\<close>

inductive tcp_edge :: "tcp_state \<Rightarrow> tcp_state \<Rightarrow> bool" where
  stay: "tcp_edge st st"
| passive_open: "tcp_edge LISTEN SYN_RCVD"
| active_open: "tcp_edge SYN_SENT ESTABLISHED"
| accepted: "tcp_edge SYN_RCVD ESTABLISHED"
| accepted_closed: "tcp_edge SYN_RCVD CLOSE_WAIT"
| peer_closes: "tcp_edge ESTABLISHED CLOSE_WAIT"
| fin_acked: "tcp_edge FIN_WAIT1 FIN_WAIT2"
| fin_acked_closed: "tcp_edge FIN_WAIT1 TIME_WAIT"
| peer_closes_too: "tcp_edge FIN_WAIT2 TIME_WAIT"
| both_closed: "tcp_edge CLOSING TIME_WAIT"
| last_acked: "tcp_edge LAST_ACK CLOSED"

code_pred tcp_edge .

text \<open>The transitions of the second part, where the acknowledgement, the text and the FIN are handled one after the other.\<close>

lemma tcp_cb_clear_state: "tcp_cb_clear_loop fuel ks i s = Inr s' \<Longrightarrow> t_state (tcps s' i) = CLOSED"
proof (induction fuel arbitrary: i s s')
  case (Suc fuel)
  obtain x where x: "tcp_txq_free ks (txq (tcps s i)) s = Inr x"
    using Suc.prems by (cases "tcp_txq_free ks (txq (tcps s i)) s") auto
  let ?y = "upd_tcp i (\<lambda>c. c\<lparr>txq := []\<rparr>) x"
  obtain q e where q: "queue_pop (backlog (tcps ?y i)) \<lparr>qmem = mm (ntbl ?y), qents = nqents ?y\<rparr> = (q, e)" by fastforce
  show ?case
  proof (cases "e = 0")
    case True
    then show ?thesis using Suc.prems x q by (auto simp: Let_def tcp_zero_def)
  next
    case False
    then show ?thesis using Suc.prems x q by (auto simp: Let_def intro: Suc.IH)
  qed
qed simp

lemma tcp_in_ack_data_state:
  assumes "tcp_in_ack_data ks me i h s = Inr (s', go)"
  shows "t_state (tcps s' i) = t_state (tcps s i) \<or>
    t_state (tcps s i) = FIN_WAIT1 \<and> t_state (tcps s' i) = FIN_WAIT2 \<or>
    t_state (tcps s i) = CLOSING \<and> t_state (tcps s' i) = TIME_WAIT \<and> \<not> go"
  using assms by (auto simp: tcp_in_ack_data_def Let_def same_nwakeup split: if_splits dest!: tcp_tx_empty_state)

lemma tcp_in_text_state: "tcp_in_text ks me i m h plen p s = Inr s' \<Longrightarrow> t_state (tcps s' i) = t_state (tcps s i)"
  by (auto simp: tcp_in_text_def Let_def same_nwakeup split: if_splits dest!: tcp_tx_empty_state [where j = i])

lemma tcp_in_fin_state:
  assumes "tcp_in_fin ks me i h s = Inr s'"
  shows "t_state (tcps s' i) = t_state (tcps s i) \<or>
    (t_state (tcps s i), t_state (tcps s' i)) \<in>
      {(SYN_RCVD, CLOSE_WAIT), (ESTABLISHED, CLOSE_WAIT), (FIN_WAIT1, FIN_WAIT2), (FIN_WAIT2, TIME_WAIT)}"
proof (cases "TCP_FLG_ISSET (h_flg h) TCP_FLG_FIN")
  case True
  let ?s = "upd_tcp i (\<lambda>c. c\<lparr>rcv_nxt := rcv_nxt c + 1\<rparr>) s"
  obtain s1 where s1: "tcp_tx_empty ks i (snd_nxt (tcps ?s i)) (rcv_nxt (tcps ?s i)) TCP_FLG_ACK ?s = Inr s1"
    using assms True by (auto simp: tcp_in_fin_def Let_def)
  have "t_state (tcps s1 i) = t_state (tcps s i)" using tcp_tx_empty_state [OF s1, of i] by simp
  then show ?thesis
    using assms True s1 by (auto simp: tcp_in_fin_def Let_def same_nwakeup split: tcp_state.splits)
qed (use assms in \<open>simp add: tcp_in_fin_def\<close>)

lemma tcp_in_syn_rcvd_state:
  assumes "tcp_in_syn_rcvd ks me i h s = Inr (s', go)" "t_state (tcps s i) = SYN_RCVD"
  shows "t_state (tcps s' i) \<in> {SYN_RCVD, ESTABLISHED}"
proof (cases "snd_una (tcps s i) \<le> h_ack h \<and> h_ack h \<le> snd_nxt (tcps s i)")
  case True
  let ?s = "upd_tcp i (\<lambda>c. c\<lparr>t_state := ESTABLISHED\<rparr>) s"
  obtain p where p: "tparent (tcps ?s i) = Some p"
    using assms(1) True by (cases "tparent (tcps ?s i)") (auto simp: tcp_in_syn_rcvd_def Let_def)
  obtain qs q e where q: "queue_push (cb_ptr i) 8268 (backlog (tcps ?s p)) \<lparr>qmem = mm (ntbl ?s), qents = nqents ?s\<rparr> = (qs, q, e)"
    by (metis prod_cases3)
  let ?t = "nwakeup me (ChTcp p) (upd_tcp p (\<lambda>c. c\<lparr>backlog := q\<rparr>)
    (?s\<lparr>ntbl := (ntbl ?s)\<lparr>mm := qmem qs\<rparr>, nqents := qents qs\<rparr>))"
  have "t_state (tcps ?t i) = ESTABLISHED" by (simp add: same_nwakeup upd_tcp_def)
  moreover have "tcp_in_ack_data ks me i h ?t = Inr (s', go)"
    using assms(1) True p q by (simp add: tcp_in_syn_rcvd_def Let_def)
  ultimately show ?thesis using tcp_in_ack_data_state by fastforce
next
  case False
  then show ?thesis using assms by (auto simp: tcp_in_syn_rcvd_def dest!: tcp_tx_empty_state [where j = i])
qed

lemma tcp_in_ack_state:
  assumes "tcp_in_ack ks me i h s = Inr (s', go)"
  shows "t_state (tcps s' i) = t_state (tcps s i) \<or>
    (t_state (tcps s i), t_state (tcps s' i)) \<in> {(SYN_RCVD, ESTABLISHED), (FIN_WAIT1, FIN_WAIT2)} \<or>
    (t_state (tcps s i), t_state (tcps s' i)) \<in> {(CLOSING, TIME_WAIT), (LAST_ACK, CLOSED)} \<and> \<not> go"
proof (cases "t_state (tcps s i)")
  case LAST_ACK
  then show ?thesis using assms by (auto simp: tcp_in_ack_def tcp_cb_clear_def dest!: tcp_cb_clear_state)
next
  case SYN_RCVD
  then show ?thesis using assms tcp_in_syn_rcvd_state [of ks me i h s s' go] by (auto simp: tcp_in_ack_def)
qed (use assms tcp_in_ack_data_state [of ks me i h s s' go] in \<open>auto simp: tcp_in_ack_def\<close>)

lemma tcp_in_first_state:
  "tcp_in_closed ks i h plen s = Inr s' \<Longrightarrow> t_state (tcps s' i) = t_state (tcps s i)"
  "tcp_in_listen ks i h s = Inr s' \<Longrightarrow> t_state (tcps s' i) \<in> {t_state (tcps s i), SYN_RCVD}"
  "tcp_in_syn_sent ks me i h s = Inr s' \<Longrightarrow> t_state (tcps s' i) \<in> {t_state (tcps s i), ESTABLISHED}"
  by (auto simp: tcp_in_closed_def tcp_in_listen_def tcp_in_syn_sent_def Let_def same_nwakeup
      split: if_splits prod.splits dest!: tcp_tx_empty_state [where j = i])

lemma tcp_incoming_late:
  assumes "t_state (tcps s i) \<notin> {CLOSED, LISTEN, SYN_SENT}" "tcp_incoming_event ks me i m hdr len s = Inr s'"
    and h: "h = mb_read m hdr 20 s"
  obtains "s' = s" | "tcp_in_ack ks me i h s = Inr (s', False)"
    | s1 s2 where "tcp_in_ack ks me i h s = Inr (s1, True)"
        "tcp_in_text ks me i m h (len - h_off h * 4) (hdr + uint (h_off h * 4)) s1 = Inr s2" "tcp_in_fin ks me i h s2 = Inr s'"
proof -
  have "tcp_incoming_event ks me i m hdr len s =
      (if h_seq h \<noteq> rcv_nxt (tcps s i) \<or> TCP_FLG_ISSET (h_flg h) (TCP_FLG_RST OR TCP_FLG_SYN) \<or>
          \<not> TCP_FLG_ISSET (h_flg h) TCP_FLG_ACK then Inr s
       else
         ebind (tcp_in_ack ks me i h s) (\<lambda>(s, go).
           if go
           then ebind (tcp_in_text ks me i m h (len - h_off h * 4) (hdr + uint (h_off h * 4)) s) (\<lambda>s. tcp_in_fin ks me i h s)
           else Inr s))"
    using assms(1) unfolding h tcp_incoming_event_def Let_def by (cases "t_state (tcps s i)") simp_all
  from trans [OF this [symmetric] assms(2)] show ?thesis using that by (auto split: if_splits)
qed

text \<open>C24: A connection moves only along the transitions of \<^term>\<open>tcp_edge\<close> when a segment arrives: it is established only by
  a handshake, data is never accepted before, and a closing connection never opens again. The state
  CLOSING, in which a connection whose peer closes at the same time waits for the acknowledgement of its FIN, is never
  entered.\<close>

theorem tcp_state_machine:
  assumes "tcp_incoming_event ks me i m hdr len s = Inr s'"
  shows "tcp_edge (t_state (tcps s i)) (t_state (tcps s' i)) \<and>
    (t_state (tcps s' i) = CLOSING \<longrightarrow> t_state (tcps s i) = CLOSING)"
proof -
  let ?h = "mb_read m hdr 20 s"
  show ?thesis
  proof (cases "t_state (tcps s i) \<in> {CLOSED, LISTEN, SYN_SENT}")
    case True
    then show ?thesis
      using assms by (auto simp: tcp_incoming_event_def Let_def tcp_edge.intros dest!: tcp_in_first_state)
  next
    case False
    then show ?thesis
    proof (rule tcp_incoming_late [OF _ assms refl])
      assume "s' = s"
      then show ?thesis by (simp add: stay)
    next
      assume "tcp_in_ack ks me i ?h s = Inr (s', False)"
      from tcp_in_ack_state [OF this] show ?thesis by (auto intro: tcp_edge.intros)
    next
      fix s1 s2
      assume "tcp_in_ack ks me i ?h s = Inr (s1, True)"
        "tcp_in_text ks me i m ?h (len - h_off ?h * 4) (hdr + uint (h_off ?h * 4)) s1 = Inr s2" "tcp_in_fin ks me i ?h s2 = Inr s'"
      from tcp_in_ack_state [OF this(1)] tcp_in_text_state [OF this(2)] tcp_in_fin_state [OF this(3)]
      show ?thesis by (auto intro: tcp_edge.intros)
    qed
  qed
qed

theorem tcp_state_machine_witness:
  "\<exists>s'. tcp_incoming_event ex_ks None 3 0x80005000 0 20 (ex_net (ex_cb FIN_WAIT2) (ex_seg 0x50 0x04)) = Inr s' \<and>
    tcp_edge FIN_WAIT2 (t_state (tcps s' 3))"
proof -
  let ?s = "ex_net (ex_cb FIN_WAIT2) (ex_seg 0x50 0x04)"
  have h: "mb_read 0x80005000 0 20 ?s = ex_seg 0x50 0x04" by (subst ex_net_read) (simp_all add: ex_seg_def)
  have c: "t_state (tcps ?s 3) = FIN_WAIT2" by (simp add: ex_net_def ex_cb_def)
  have "TCP_FLG_ISSET 0x04 (TCP_FLG_RST OR TCP_FLG_SYN)" by (simp add: TCP_FLG_ISSET_def TCP_FLG_RST_def TCP_FLG_SYN_def)
  then have e: "tcp_incoming_event ex_ks None 3 0x80005000 0 20 ?s = Inr ?s" by (simp add: tcp_incoming_event_def h c)
  show ?thesis using tcp_state_machine [OF e] e c by auto
qed

end
