(* ===== verification/Virtio.thy ===== *)
theory Virtio
  imports Bio Proc
begin

text \<open>
  \<^verbatim>\<open>kernel/virtio_disk.c\<close>: the driver of the disk. Driver and device share the descriptors, the ring of requests
  (\<^verbatim>\<open>avail\<close>) and the ring of completions (\<^verbatim>\<open>used\<close>). An address in a descriptor is that of a command header, of the data
  of a buffer or of a status byte. \<^verbatim>\<open>b->disk\<close> of the buffers is part of this state.
\<close>

section \<open>State\<close>

definition NUM :: nat where "NUM = 8"

datatype daddr = Null | OpAddr nat | DataAddr nat | StatusAddr nat

record vdesc =
  d_addr :: daddr
  d_len :: u32
  d_flags :: u16
  d_next :: u16

definition VRING_DESC_F_NEXT :: u16 where "VRING_DESC_F_NEXT = 1"
definition VRING_DESC_F_WRITE :: u16 where "VRING_DESC_F_WRITE = 2"
definition VIRTIO_BLK_T_IN :: u32 where "VIRTIO_BLK_T_IN = 0"
definition VIRTIO_BLK_T_OUT :: u32 where "VIRTIO_BLK_T_OUT = 1"

record vreq =
  q_type :: u32
  q_reserved :: u32
  q_sector :: "64 word"

record vdisk =
  desc :: "nat \<Rightarrow> vdesc"
  avail_idx :: u16
  avail_ring :: "nat \<Rightarrow> u16"
  used_idx :: u16
  used_ring :: "nat \<Rightarrow> u32"
  vfree :: "nat \<Rightarrow> bool"
  seen_idx :: u16
  info_b :: "nat \<Rightarrow> nat option"
  info_status :: "nat \<Rightarrow> u8"
  ops :: "nat \<Rightarrow> vreq"
  bdisk :: "nat \<Rightarrow> bool"
  vtbl :: ptable
  mmio :: "(u32 \<times> u32) list"

text \<open>
  \<open>used_idx\<close> is the device's \<^verbatim>\<open>used->idx\<close>, \<open>seen_idx\<close> the driver's \<^verbatim>\<open>disk.used_idx\<close>; \<open>mmio\<close> records the writes to the
  registers of the device.
\<close>

definition wreg :: "u32 \<Rightarrow> u32 \<Rightarrow> vdisk \<Rightarrow> vdisk" where
  "wreg r x v = v\<lparr>mmio := mmio v @ [(r, x)]\<rparr>"

section \<open>Initialisation\<close>

text \<open>\<open>rd\<close> gives what the registers of the device read; \<open>pages\<close> is the address of the shared memory.\<close>

definition BLK_FEATURES :: u32 where
  "BLK_FEATURES = NOT (push_bit 5 1 OR push_bit 7 1 OR push_bit 11 1 OR push_bit 12 1 OR push_bit 27 1 OR
     push_bit 29 1 OR push_bit 28 1)"

definition virtio_disk_init :: "(u32 \<Rightarrow> u32) \<Rightarrow> u32 \<Rightarrow> vdisk \<Rightarrow> vdisk res" where
  "virtio_disk_init rd pages v =
    (if rd 0x000 \<noteq> 0x74726976 \<or> rd 0x004 \<noteq> 1 \<or> rd 0x008 \<noteq> 2 \<or> rd 0x00c \<noteq> 0x554d4551
     then Inl (Panic ''could not find virtio disk'')
     else
       let v = wreg 0x070 3 (wreg 0x070 1 v);
           v = wreg 0x020 (rd 0x010 AND BLK_FEATURES) v;
           v = wreg 0x070 15 (wreg 0x070 11 v);
           v = wreg 0x030 0 (wreg 0x028 PGSIZE v)
       in if rd 0x034 = 0 then Inl (Panic ''virtio disk has no queue 0'')
          else if rd 0x034 < of_nat NUM then Inl (Panic ''virtio disk max queue too short'')
          else
            let v = wreg 0x038 (of_nat NUM) v;
                v = v\<lparr>desc := (\<lambda>_. \<lparr>d_addr = Null, d_len = 0, d_flags = 0, d_next = 0\<rparr>), avail_idx := 0,
                  avail_ring := (\<lambda>_. 0), used_idx := 0, used_ring := (\<lambda>_. 0)\<rparr>;
                v = wreg 0x040 (drop_bit 12 pages) v
            in Inr (v\<lparr>vfree := (\<lambda>i. i < NUM \<or> vfree v i)\<rparr>))"

section \<open>Descriptors\<close>

definition alloc_desc :: "vdisk \<Rightarrow> vdisk \<times> nat option" where
  "alloc_desc v =
    (case find (vfree v) [0..<NUM] of
       Some i \<Rightarrow> (v\<lparr>vfree := (vfree v)(i := False)\<rparr>, Some i)
     | None \<Rightarrow> (v, None))"

definition no_desc :: vdesc where "no_desc = \<lparr>d_addr = Null, d_len = 0, d_flags = 0, d_next = 0\<rparr>"

definition free_desc :: "nat option \<Rightarrow> nat \<Rightarrow> vdisk \<Rightarrow> vdisk res" where
  "free_desc me i v =
    (if i \<ge> NUM then Inl (Panic ''free_desc 1'')
     else if vfree v i then Inl (Panic ''free_desc 2'')
     else Inr (v\<lparr>desc := (desc v)(i := no_desc), vfree := (vfree v)(i := True), vtbl := wakeup me ChDesc (vtbl v)\<rparr>))"

text \<open>\<^verbatim>\<open>free_chain\<close> ends since every round frees a descriptor that was not free, or panics.\<close>

definition busy :: "vdisk \<Rightarrow> nat" where "busy v = card {i. i < NUM \<and> \<not> vfree v i}"

lemma free_desc_busy: "free_desc me i v = Inr v' \<Longrightarrow> busy v' < busy v"
proof -
  assume e: "free_desc me i v = Inr v'"
  then have i: "i < NUM" "\<not> vfree v i" and v': "vfree v' = (vfree v)(i := True)"
    by (auto simp: free_desc_def split: if_splits)
  have "{j. j < NUM \<and> \<not> vfree v' j} = {j. j < NUM \<and> \<not> vfree v j} - {i}" using v' by auto
  moreover have "card ({j. j < NUM \<and> \<not> vfree v j} - {i}) < card {j. j < NUM \<and> \<not> vfree v j}"
    using i by (intro card_Diff1_less) auto
  ultimately show ?thesis by (simp add: busy_def)
qed

function free_chain :: "nat option \<Rightarrow> nat \<Rightarrow> vdisk \<Rightarrow> vdisk res" where
  "free_chain me i v =
    (let flag = d_flags (desc v i); nxt = unat (d_next (desc v i))
     in case free_desc me i v of
          Inl e \<Rightarrow> Inl e
        | Inr v \<Rightarrow> if flag AND VRING_DESC_F_NEXT \<noteq> 0 then free_chain me nxt v else Inr v)"
  by pat_completeness auto
termination
  by (relation "measure (\<lambda>(_, _, v). busy v)") (auto dest: free_desc_busy)

declare free_chain.simps [simp del]

fun free_all :: "nat option \<Rightarrow> nat list \<Rightarrow> vdisk \<Rightarrow> vdisk res" where
  "free_all me [] v = Inr v"
| "free_all me (i # is) v = ebind (free_desc me i v) (free_all me is)"

text \<open>The loop of \<^verbatim>\<open>alloc3_desc\<close>, with \<open>n\<close> descriptors still to allocate.\<close>

fun alloc_descs :: "nat option \<Rightarrow> nat \<Rightarrow> nat list \<Rightarrow> vdisk \<Rightarrow> (vdisk \<times> nat list option) res" where
  "alloc_descs me 0 idx v = Inr (v, Some idx)"
| "alloc_descs me (Suc n) idx v =
    (let (v, r) = alloc_desc v
     in case r of
          Some i \<Rightarrow> alloc_descs me n (idx @ [i]) v
        | None \<Rightarrow> ebind (free_all me idx v) (\<lambda>v. Inr (v, None)))"

definition alloc3_desc :: "nat option \<Rightarrow> vdisk \<Rightarrow> (vdisk \<times> nat list option) res" where
  "alloc3_desc me v = alloc_descs me 3 [] v"

section \<open>Requests\<close>

text \<open>
  \<^verbatim>\<open>virtio_disk_rw\<close> up to its first sleep: on the free descriptors if there are not enough of them, and then the loop
  goes on with the same call; else on the buffer, with the head of the chain in \<^verbatim>\<open>idx[0]\<close>. The block number is
  multiplied as a 32-bit number.
\<close>

definition format_chain :: "nat \<Rightarrow> u32 \<Rightarrow> bool \<Rightarrow> nat \<Rightarrow> nat \<Rightarrow> nat \<Rightarrow> vdisk \<Rightarrow> vdisk" where
  "format_chain b blockno write i0 i1 i2 v =
    v\<lparr>ops := (ops v)(i0 := \<lparr>q_type = (if write then VIRTIO_BLK_T_OUT else VIRTIO_BLK_T_IN), q_reserved = 0,
        q_sector = ucast (blockno * 2)\<rparr>),
      desc := (desc v)(
        i0 := \<lparr>d_addr = OpAddr i0, d_len = 16, d_flags = VRING_DESC_F_NEXT, d_next = of_nat i1\<rparr>,
        i1 := \<lparr>d_addr = DataAddr b, d_len = of_nat BSIZE,
          d_flags = (if write then 0 else VRING_DESC_F_WRITE) OR VRING_DESC_F_NEXT, d_next = of_nat i2\<rparr>,
        i2 := \<lparr>d_addr = StatusAddr i0, d_len = 1, d_flags = VRING_DESC_F_WRITE, d_next = 0\<rparr>),
      info_status := (info_status v)(i0 := 0xff)\<rparr>"

definition virtio_submit :: "nat \<Rightarrow> nat \<Rightarrow> vdisk \<Rightarrow> vdisk" where
  "virtio_submit b i0 v =
    (let v = v\<lparr>bdisk := (bdisk v)(b := True), info_b := (info_b v)(i0 := Some b),
           avail_ring := (avail_ring v)(unat (avail_idx v) mod NUM := of_nat i0)\<rparr>
     in wreg 0x050 0 (v\<lparr>avail_idx := avail_idx v + 1\<rparr>))"

definition virtio_rw_start :: "nat \<Rightarrow> nat \<Rightarrow> u32 \<Rightarrow> bool \<Rightarrow> vdisk \<Rightarrow> (vdisk \<times> chan \<times> nat option) res" where
  "virtio_rw_start me b blockno write v =
    ebind (alloc3_desc (Some me) v) (\<lambda>(v, r).
      case r of
        Some [i0, i1, i2] \<Rightarrow>
          let v = virtio_submit b i0 (format_chain b blockno write i0 i1 i2 v)
          in Inr (v\<lparr>vtbl := sleep_on me (ChBuf b) (vtbl v)\<rparr>, ChBuf b, Some i0)
      | _ \<Rightarrow> Inr (v\<lparr>vtbl := sleep_on me ChDesc (vtbl v)\<rparr>, ChDesc, None))"

text \<open>The rest, when the process runs again: it sleeps once more as long as the buffer belongs to the disk.\<close>

definition virtio_rw_woken :: "nat \<Rightarrow> nat \<Rightarrow> nat \<Rightarrow> vdisk \<Rightarrow> (vdisk \<times> unit progress) res" where
  "virtio_rw_woken me b i0 v =
    (let v = v\<lparr>vtbl := sleep_done me (vtbl v)\<rparr>
     in if bdisk v b then Inr (v\<lparr>vtbl := sleep_on me (ChBuf b) (vtbl v)\<rparr>, Sleeps (ChBuf b))
        else
          ebind (free_chain (Some me) i0 (v\<lparr>info_b := (info_b v)(i0 := None)\<rparr>)) (\<lambda>v. Inr (v, Return ())))"

section \<open>Interrupts\<close>

text \<open>
  The loop of \<^verbatim>\<open>virtio_disk_intr\<close>; it ends since \<open>seen_idx\<close> comes nearer to \<open>used_idx\<close>. An entry without a buffer is a
  null pointer. \<open>ist\<close> is what the interrupt status register reads.
\<close>

function virtio_intr_loop :: "nat option \<Rightarrow> vdisk \<Rightarrow> vdisk res" where
  "virtio_intr_loop me v =
    (if seen_idx v \<noteq> used_idx v
     then
       let id = unat (used_ring v (unat (seen_idx v) mod NUM))
       in if info_status v id \<noteq> 0 then Inl (Panic ''virtio_disk_intr status'')
          else
            case info_b v id of
              None \<Rightarrow> Inl (Panic ''kerneltrap'')
            | Some b \<Rightarrow>
                virtio_intr_loop me
                  (v\<lparr>bdisk := (bdisk v)(b := False), vtbl := wakeup me (ChBuf b) (vtbl v), seen_idx := seen_idx v + 1\<rparr>)
     else Inr v)"
  by pat_completeness auto
termination
proof (relation "measure (\<lambda>(_, v). unat (used_idx v - seen_idx v))", goal_cases)
  case (2 me v x b)
  then have "used_idx v - seen_idx v \<noteq> 0" by simp
  then have "unat (used_idx v - seen_idx v - 1) < unat (used_idx v - seen_idx v)"
    by (simp add: unat_minus_one unat_gt_0)
  then show ?case by (simp add: diff_diff_eq add.commute)
qed simp

declare virtio_intr_loop.simps [simp del]

definition virtio_disk_intr :: "nat option \<Rightarrow> u32 \<Rightarrow> vdisk \<Rightarrow> vdisk res" where
  "virtio_disk_intr me ist v = virtio_intr_loop me (wreg 0x064 (ist AND 3) v)"

end
