(* ===== verification/File.thy ===== *)
theory File
  imports Fs Pipe Console Socket Virtio
begin

text \<open>
  \<^verbatim>\<open>kernel/file.c\<close>: the table of open files and the operations that dispatch to pipes, inodes, devices and
  sockets, with \<^verbatim>\<open>pipealloc\<close> of \<^verbatim>\<open>kernel/pipe.c\<close> and \<^verbatim>\<open>socket_alloc\<close> of \<^verbatim>\<open>kernel/socket.c\<close>. The state
  is that of the whole kernel. A pointer to a file is its index in the table. Operations are modelled up to their return
  or to the point where they sleep.
\<close>

section \<open>The state of the kernel\<close>

datatype ftype = FD_NONE | FD_PIPE | FD_INODE | FD_DEVICE | FD_SOCKET

record kfile =
  f_type :: ftype
  f_ref :: int
  f_readable :: bool
  f_writable :: bool
  f_pipe :: u32
  f_ip :: nat
  f_off :: u32
  f_major :: u16
  f_sock :: u32

text \<open>
  The components share the process table, which is \<open>ktbl\<close>: the copies of it that the states of the console, of the
  network and of the disk driver contain are replaced by it before one of their operations runs, and it is taken back from them afterwards. \<open>first\<close> is the
  static variable of \<^verbatim>\<open>forkret\<close>. The file system transfers blocks in one step (see \<open>Bio\<close>); the driver's own state serves its
  interrupts.
\<close>

record kern =
  ktbl :: ptable
  kfs :: fsys
  files :: "nat \<Rightarrow> kfile"
  kpipes :: "u32 \<Rightarrow> pipe"
  kcons :: consys
  ticks :: u32
  knet :: net
  first :: bool
  kdisk :: vdisk

definition NFILE :: nat where "NFILE = 100"
definition NDEV :: int where "NDEV = 10"
definition CONSOLE :: int where "CONSOLE = 1"

definition upd_file :: "nat \<Rightarrow> (kfile \<Rightarrow> kfile) \<Rightarrow> kern \<Rightarrow> kern" where
  "upd_file i f k = k\<lparr>files := (files k)(i := f (files k i))\<rparr>"

definition run_pipe :: "(pipesys \<Rightarrow> (pipesys \<times> 'a) res) \<Rightarrow> kern \<Rightarrow> (kern \<times> 'a) res" where
  "run_pipe f k =
    ebind (f \<lparr>ptbl = ktbl k, pipes = kpipes k\<rparr>) (\<lambda>(s, r). Inr (k\<lparr>ktbl := ptbl s, kpipes := pipes s\<rparr>, r))"

definition run_cons :: "(consys \<Rightarrow> (consys \<times> 'a) res) \<Rightarrow> kern \<Rightarrow> (kern \<times> 'a) res" where
  "run_cons f k =
    ebind (f ((kcons k)\<lparr>ctbl := ktbl k\<rparr>)) (\<lambda>(s, r). Inr (k\<lparr>ktbl := ctbl s, kcons := s\<rparr>, r))"

definition run_disk :: "(vdisk \<Rightarrow> vdisk res) \<Rightarrow> kern \<Rightarrow> kern res" where
  "run_disk f k = ebind (f ((kdisk k)\<lparr>vtbl := ktbl k\<rparr>)) (\<lambda>v. Inr (k\<lparr>ktbl := vtbl v, kdisk := v\<rparr>))"

definition run_net :: "(net \<Rightarrow> (net \<times> 'a) res) \<Rightarrow> kern \<Rightarrow> (kern \<times> 'a) res" where
  "run_net f k = ebind (f ((knet k)\<lparr>ntbl := ktbl k\<rparr>)) (\<lambda>(s, r). Inr (k\<lparr>ktbl := ntbl s, knet := s\<rparr>, r))"

text \<open>The file system run by the process \<open>me\<close>, whose number its sleep locks record.\<close>

definition fs_of :: "nat \<Rightarrow> kern \<Rightarrow> fsys" where
  "fs_of me k = (kfs k)\<lparr>curpid := pid (procs (ktbl k) me)\<rparr>"

definition run_fs :: "nat \<Rightarrow> (fsys \<Rightarrow> fsys res) \<Rightarrow> kern \<Rightarrow> kern res" where
  "run_fs me f k = ebind (f (fs_of me k)) (\<lambda>s. Inr (k\<lparr>kfs := s\<rparr>))"

definition kmem :: "kern \<Rightarrow> kstate" where "kmem k = mm (ktbl k)"

definition set_kmem :: "kstate \<Rightarrow> kern \<Rightarrow> kern" where
  "set_kmem m k = k\<lparr>ktbl := (ktbl k)\<lparr>mm := m\<rparr>\<rparr>"

section \<open>The table of files\<close>

definition filealloc :: "kern \<Rightarrow> kern \<times> nat option" where
  "filealloc k =
    (case find (\<lambda>i. f_ref (files k i) = 0) [0..<NFILE] of
       Some i \<Rightarrow> (upd_file i (\<lambda>f. f\<lparr>f_ref := 1\<rparr>) k, Some i)
     | None \<Rightarrow> (k, None))"

definition filedup :: "nat \<Rightarrow> kern \<Rightarrow> kern res" where
  "filedup i k =
    (if f_ref (files k i) < 1 then Inl (Panic ''filedup'')
     else Inr (upd_file i (\<lambda>f. f\<lparr>f_ref := f_ref f + 1\<rparr>) k))"

definition fileclose :: "ksyms \<Rightarrow> nat \<Rightarrow> nat \<Rightarrow> kern \<Rightarrow> (kern \<times> unit progress) res" where
  "fileclose ks me i k =
    (if f_ref (files k i) < 1 then Inl (Panic ''fileclose'')
     else
       let k = upd_file i (\<lambda>f. f\<lparr>f_ref := f_ref f - 1\<rparr>) k
       in if f_ref (files k i) > 0 then Inr (k, Return ())
          else
            let ff = files k i;
                k = upd_file i (\<lambda>f. f\<lparr>f_type := FD_NONE, f_ref := 0\<rparr>) k
            in case f_type ff of
                 FD_PIPE \<Rightarrow>
                   run_pipe (\<lambda>s. ebind (pipeclose ks me (f_pipe ff) (f_writable ff) s) (\<lambda>s. Inr (s, Return ()))) k
               | FD_SOCKET \<Rightarrow>
                   ebind (run_net (socket_close ks me (f_sock ff)) k) (\<lambda>(k, r).
                     Inr (k, case r of Return _ \<Rightarrow> Return () | Sleeps ch \<Rightarrow> Sleeps ch))
               | FD_NONE \<Rightarrow> Inl (Panic ''fileclose unmatched'')
               | _ \<Rightarrow>
                   ebind (run_fs me (\<lambda>s. ebind (begin_op s) (\<lambda>s. ebind (iput (f_ip ff) s) end_op)) k) (\<lambda>k.
                   Inr (k, Return ())))"

section \<open>Operations on a file\<close>

text \<open>\<^verbatim>\<open>struct stat\<close> in memory: the 64-bit size is aligned to 8 bytes.\<close>

definition stat_bytes :: "stat \<Rightarrow> u8 list" where
  "stat_bytes t =
    put32 (st_dev t) @ put32 (st_ino t) @ put16 (st_type t) @ put16 (st_nlink t) @ [0, 0, 0, 0] @
    put32 (ucast (st_size t)) @ put32 (ucast (drop_bit 32 (st_size t)))"

definition filestat :: "nat \<Rightarrow> nat \<Rightarrow> u32 \<Rightarrow> kern \<Rightarrow> (kern \<times> int) res" where
  "filestat me i addr k =
    (let f = files k i
     in if f_type f = FD_INODE \<or> f_type f = FD_DEVICE
        then
          ebind (ilock (f_ip f) (fs_of me k)) (\<lambda>s.
            let st = stati (itable s (f_ip f))
            in ebind (iunlock (f_ip f) s) (\<lambda>s.
               ebind (copyout_buf (kmem k) (pagetable (procs (ktbl k) me)) addr (stat_bytes st)) (\<lambda>(m, r).
               Inr (set_kmem m (k\<lparr>kfs := s\<rparr>), if r < 0 then - 1 else 0))))
        else Inr (k, - 1))"

text \<open>The destination and the source of \<^verbatim>\<open>readi\<close> and \<^verbatim>\<open>writei\<close> at the address \<open>addr\<close> of the process \<open>p\<close>.\<close>

definition to_user :: "proc \<Rightarrow> u32 \<Rightarrow> kstate copier" where
  "to_user p addr off bs m = either_copyout (pagetable p) m (User (addr + of_nat off)) bs"

definition from_user :: "proc \<Rightarrow> kstate \<Rightarrow> u32 \<Rightarrow> nat \<Rightarrow> nat \<Rightarrow> (u8 list \<times> int) res" where
  "from_user p m addr off len = either_copyin (pagetable p) m (User (addr + of_nat off)) [] len"

definition inode_read :: "nat \<Rightarrow> nat \<Rightarrow> u32 \<Rightarrow> int \<Rightarrow> kern \<Rightarrow> (kern \<times> int) res" where
  "inode_read me i addr n k =
    (let f = files k i
     in ebind (ilock (f_ip f) (fs_of me k)) (\<lambda>s.
        ebind (readi (to_user (procs (ktbl k) me) addr) (f_ip f) (f_off f) (word_of_int n) (kmem k) s) (\<lambda>(m, s, r).
          let k = (if r > 0 then upd_file i (\<lambda>f. f\<lparr>f_off := f_off f + word_of_int r\<rparr>) k else k)
          in ebind (iunlock (f_ip f) s) (\<lambda>s. Inr (set_kmem m (k\<lparr>kfs := s\<rparr>), r)))))"

text \<open>
  Of the table of devices only the console has functions. The result of an operation that sleeps after it has
  transferred a part of the data is its channel; the operation goes on from there when the process runs again.
\<close>

definition fileread :: "ksyms \<Rightarrow> nat \<Rightarrow> nat \<Rightarrow> u32 \<Rightarrow> int \<Rightarrow> kern \<Rightarrow> (kern \<times> int progress) res" where
  "fileread ks me i addr n k =
    (let f = files k i
     in if \<not> f_readable f then Inr (k, Return (- 1))
        else
          case f_type f of
            FD_PIPE \<Rightarrow> run_pipe (piperead me (f_pipe f) addr n) k
          | FD_DEVICE \<Rightarrow>
              if sint (f_major f) < 0 \<or> sint (f_major f) \<ge> NDEV \<or> sint (f_major f) \<noteq> CONSOLE then Inr (k, Return (- 1))
              else run_cons (\<lambda>s. ebind (consoleread me (User addr) n s) (\<lambda>(s, _, r). Inr (s, r))) k
          | FD_INODE \<Rightarrow> ebind (inode_read me i addr n k) (\<lambda>(k, r). Inr (k, Return r))
          | FD_SOCKET \<Rightarrow> run_net (socket_read ks me (f_sock f) addr (word_of_int n)) k
          | FD_NONE \<Rightarrow> Inl (Panic ''fileread''))"

text \<open>One round of the loop of \<^verbatim>\<open>filewrite\<close> for inodes, and the loop. A write takes at most three blocks.\<close>

definition FILEWRITE_MAX :: nat where "FILEWRITE_MAX = (MAXOPBLOCKS - 1 - 1 - 2) div 2 * BSIZE"

definition inode_write :: "nat \<Rightarrow> nat \<Rightarrow> u32 \<Rightarrow> nat \<Rightarrow> kern \<Rightarrow> (kern \<times> int) res" where
  "inode_write me i addr n1 k =
    (let f = files k i
     in ebind (begin_op (fs_of me k)) (\<lambda>s.
        ebind (ilock (f_ip f) s) (\<lambda>s.
        ebind (writei (from_user (procs (ktbl k) me) (kmem k) addr) (f_ip f) (f_off f) (of_nat n1) s) (\<lambda>(s, r).
          let k = (if r > 0 then upd_file i (\<lambda>f. f\<lparr>f_off := f_off f + word_of_int r\<rparr>) k else k)
          in ebind (iunlock (f_ip f) s) (\<lambda>s. ebind (end_op s) (\<lambda>s. Inr (k\<lparr>kfs := s\<rparr>, r)))))))"

function inode_write_loop :: "nat \<Rightarrow> nat \<Rightarrow> u32 \<Rightarrow> nat \<Rightarrow> nat \<Rightarrow> kern \<Rightarrow> (kern \<times> nat) res" where
  "inode_write_loop me i addr n w k =
    (if w < n
     then
       let n1 = min (n - w) FILEWRITE_MAX
       in ebind (inode_write me i (addr + of_nat w) n1 k) (\<lambda>(k, r).
            if r \<noteq> int n1 then Inr (k, w) else inode_write_loop me i addr n (w + n1) k)
     else Inr (k, w))"
  by pat_completeness auto
termination
  by (relation "measure (\<lambda>(_, _, _, n, w, _). n - w)") (auto simp: FILEWRITE_MAX_def MAXOPBLOCKS_def BSIZE_def)

declare inode_write_loop.simps [simp del]

definition filewrite ::
  "ksyms \<Rightarrow> (nat \<Rightarrow> nat) \<Rightarrow> nat \<Rightarrow> nat \<Rightarrow> u32 \<Rightarrow> int \<Rightarrow> kern \<Rightarrow> (kern \<times> int progress) res" where
  "filewrite ks room me i addr n k =
    (let f = files k i
     in if \<not> f_writable f then Inr (k, Return (- 1))
        else
          case f_type f of
            FD_PIPE \<Rightarrow> run_pipe (\<lambda>s. ebind (pipewrite me (f_pipe f) addr n s) (\<lambda>(s, _, r). Inr (s, r))) k
          | FD_DEVICE \<Rightarrow>
              if sint (f_major f) < 0 \<or> sint (f_major f) \<ge> NDEV \<or> sint (f_major f) \<noteq> CONSOLE then Inr (k, Return (- 1))
              else run_cons (\<lambda>s. ebind (consolewrite me room (User addr) n s) (\<lambda>(s, _, r). Inr (s, r))) k
          | FD_INODE \<Rightarrow>
              ebind (inode_write_loop me i addr (nat n) 0 k) (\<lambda>(k, w).
              Inr (k, Return (if int w = n then n else - 1)))
          | FD_SOCKET \<Rightarrow>
              run_net (\<lambda>s. ebind (socket_write ks me (f_sock f) addr (word_of_int n) s) (\<lambda>(s, r). Inr (s, Return r))) k
          | FD_NONE \<Rightarrow> Inl (Panic ''filewrite''))"

section \<open>Pipes and sockets as files\<close>

text \<open>
  \<^verbatim>\<open>pipealloc\<close>: the label \<^verbatim>\<open>bad\<close> closes the files that were allocated. The result is the two files.
\<close>

definition pipe_bad :: "ksyms \<Rightarrow> nat \<Rightarrow> nat option \<Rightarrow> nat option \<Rightarrow> kern \<Rightarrow> (kern \<times> (nat \<times> nat) option) res" where
  "pipe_bad ks me f0 f1 k =
    ebind (case f0 of Some f \<Rightarrow> fileclose ks me f k | None \<Rightarrow> Inr (k, Return ())) (\<lambda>(k, _).
    ebind (case f1 of Some f \<Rightarrow> fileclose ks me f k | None \<Rightarrow> Inr (k, Return ())) (\<lambda>(k, _).
    Inr (k, None)))"

definition pipealloc :: "ksyms \<Rightarrow> nat \<Rightarrow> kern \<Rightarrow> (kern \<times> (nat \<times> nat) option) res" where
  "pipealloc ks me k =
    (let (k, f0) = filealloc k
     in case f0 of
          None \<Rightarrow> pipe_bad ks me None None k
        | Some r \<Rightarrow>
            let (k, f1) = filealloc k
            in case f1 of
                 None \<Rightarrow> pipe_bad ks me f0 None k
               | Some w \<Rightarrow>
                   let (m, pi) = kalloc (kmem k);
                       k = set_kmem m k
                   in if pi = 0 then pipe_bad ks me f0 f1 k
                      else
                        let k = k\<lparr>kpipes := (kpipes k)(pi := pipe_init (kpipes k pi))\<rparr>;
                            k = upd_file r (\<lambda>f. f\<lparr>f_type := FD_PIPE, f_readable := True, f_writable := False, f_pipe := pi\<rparr>) k;
                            k = upd_file w (\<lambda>f. f\<lparr>f_type := FD_PIPE, f_readable := False, f_writable := True, f_pipe := pi\<rparr>) k
                        in Inr (k, Some (r, w)))"

text \<open>\<^verbatim>\<open>socket_alloc\<close>: neither the file nor the page is tested for null.\<close>

definition socket_alloc :: "ksyms \<Rightarrow> nat \<Rightarrow> u32 \<Rightarrow> u16 \<Rightarrow> u8 \<Rightarrow> kern \<Rightarrow> (kern \<times> nat \<times> int progress) res" where
  "socket_alloc ks me ip port type k =
    (let (k, f) = filealloc k
     in ebind (run_net (\<lambda>s. Inr (nkalloc s)) k) (\<lambda>(k, p).
        deref p (
          case f of
            None \<Rightarrow> Inl (Panic ''kerneltrap'')
          | Some i \<Rightarrow>
              let k = upd_file i (\<lambda>f. f\<lparr>f_type := FD_SOCKET, f_readable := True, f_writable := True, f_sock := p\<rparr>) k
              in ebind (run_net (socket_open ks me p ip port type) k) (\<lambda>(k, r). Inr (k, i, r)))))"

end
