(* ===== verification/Frame.thy ===== *)
theory Frame
  imports File
begin

text \<open>
  What the components leave alone in the process table. The operations of pipes, console, disk driver and network
  change the table only by changing the memory and by putting processes to sleep and waking them, so that every predicate
  on the table that is stable under these three is kept by all of them. \<open>ens\<close> is partial correctness of an outcome.
\<close>

section \<open>Partial correctness\<close>

definition ens :: "'a res \<Rightarrow> ('a \<Rightarrow> bool) \<Rightarrow> bool" where
  "ens r Q \<longleftrightarrow> (\<forall>x. r = Inr x \<longrightarrow> Q x)"

lemma ens_simps [simp]: "ens (Inr x) Q = Q x" "ens (Inl e) Q"
  by (simp_all add: ens_def)

lemma ens_ebind [simp]: "ens (ebind r f) Q = ens r (\<lambda>x. ens (f x) Q)"
  by (cases r) (simp_all add: ens_def)

lemma ens_if [simp]: "ens (if b then r else r') Q = (if b then ens r Q else ens r' Q)"
  by simp

lemma ens_prod [simp]: "ens (case p of (a, b) \<Rightarrow> f a b) Q = (case p of (a, b) \<Rightarrow> ens (f a b) Q)"
  by (simp split: prod.split)

lemma ens_option [simp]:
  "ens (case x of None \<Rightarrow> r | Some y \<Rightarrow> f y) Q = (case x of None \<Rightarrow> ens r Q | Some y \<Rightarrow> ens (f y) Q)"
  by (simp split: option.split)

lemma ens_progress [simp]:
  "ens (case x of Return y \<Rightarrow> f y | Sleeps ch \<Rightarrow> g ch) Q =
    (case x of Return y \<Rightarrow> ens (f y) Q | Sleeps ch \<Rightarrow> ens (g ch) Q)"
  by (simp split: progress.split)

lemma ens_deref [simp]: "ens (deref p r) Q = (p \<noteq> 0 \<longrightarrow> ens r Q)"
  by (simp add: deref_def)

lemma ens_acq [simp]: "ens (acq l r) Q = (\<not> l \<longrightarrow> ens r Q)"
  by (simp add: acq_def)

lemma ensD: "ens r Q \<Longrightarrow> r = Inr x \<Longrightarrow> Q x"
  by (simp add: ens_def)

lemma ens_any: "(\<And>x. Q x) \<Longrightarrow> ens r Q"
  by (simp add: ens_def)

lemma ens_weaken: "ens r P \<Longrightarrow> (\<And>x. P x \<Longrightarrow> Q x) \<Longrightarrow> ens r Q"
  by (simp add: ens_def)

lemma ens_copyout: "(\<And>m r. Q (m, r)) \<Longrightarrow> ens (copyout_buf st pt a bs) Q"
  by (auto simp: ens_def)

lemma ens_copyin: "(\<And>bs r. Q (bs, r)) \<Longrightarrow> ens (copyin_buf st pt a n) Q"
  by (auto simp: ens_def)

lemma upd_frame [simp]:
  "ntbl (upd_mbuf a f s) = ntbl s" "ntbl (mb_write a off bs s) = ntbl s" "ntbl (upd_udp i g s) = ntbl s"
  "ntbl (upd_tcp i h s) = ntbl s" "ntbl (upd_sock b k s) = ntbl s"
  by (simp_all add: upd_mbuf_def mb_write_def upd_udp_def upd_tcp_def upd_sock_def)

lemma files_simps [simp]:
  "files (set_kmem m k) = files k" "files (upd_file i f k) = (files k)(i := f (files k i))" "ktbl (upd_file i f k) = ktbl k"
  by (simp_all add: set_kmem_def upd_file_def)

text \<open>The file table up to the offsets of the files.\<close>

definition same_refs :: "(nat \<Rightarrow> kfile) \<Rightarrow> (nat \<Rightarrow> kfile) \<Rightarrow> bool" where
  "same_refs fs fs' \<longleftrightarrow> (\<forall>i. f_ref (fs' i) = f_ref (fs i) \<and> f_type (fs' i) = f_type (fs i))"

lemma same_refs_refl [simp]: "same_refs fs fs"
  by (simp add: same_refs_def)

lemma same_refs_trans: "same_refs a b \<Longrightarrow> same_refs b c \<Longrightarrow> same_refs a c"
  by (simp add: same_refs_def)

text \<open>What \<^verbatim>\<open>fileclose\<close> does to the file table.\<close>

definition close_ref :: "nat \<Rightarrow> (nat \<Rightarrow> kfile) \<Rightarrow> nat \<Rightarrow> kfile" where
  "close_ref i fs =
    (if f_ref (fs i) > 1 then fs(i := (fs i)\<lparr>f_ref := f_ref (fs i) - 1\<rparr>)
     else fs(i := (fs i)\<lparr>f_type := FD_NONE, f_ref := 0\<rparr>))"

section \<open>Predicates stable under memory, sleep and wakeup\<close>

locale table_frame =
  fixes P :: "ptable \<Rightarrow> bool"
  assumes mem: "P t \<Longrightarrow> P (t\<lparr>mm := m\<rparr>)"
    and wake: "P t \<Longrightarrow> P (wakeup who ch t)"
    and slp: "P t \<Longrightarrow> P (sleep_on p ch t)"
begin

lemmas frame = mem wake slp

lemma nkalloc_frame: "nkalloc s = (s', a) \<Longrightarrow> P (ntbl s) \<Longrightarrow> P (ntbl s')"
  by (auto simp: nkalloc_def Let_def frame split: prod.splits if_splits)

lemma nkfree_frame: "P (ntbl s) \<Longrightarrow> (\<And>s'. P (ntbl s') \<Longrightarrow> Q s') \<Longrightarrow> ens (nkfree ks a s) Q"
  by (auto simp: nkfree_def frame intro!: ens_any)

lemma nwakeup_frame: "P (ntbl s) \<Longrightarrow> P (ntbl (nwakeup me ch s))"
  by (simp add: nwakeup_def frame)

lemma nsleep_frame: "P (ntbl s) \<Longrightarrow> P (ntbl (nsleep me ch s))"
  by (simp add: nsleep_def frame)

lemma mbuf_alloc_frame: "mbuf_alloc h s = (s', a) \<Longrightarrow> P (ntbl s) \<Longrightarrow> P (ntbl s')"
  by (auto simp: mbuf_alloc_def Let_def dest: nkalloc_frame split: prod.splits if_splits)

lemma mbuf_frame:
  "P (ntbl s) \<Longrightarrow> (\<And>s' r. P (ntbl s') \<Longrightarrow> Q (s', r)) \<Longrightarrow> ens (mbuf_append m len s) Q"
  "P (ntbl s) \<Longrightarrow> (\<And>s' r. P (ntbl s') \<Longrightarrow> Q (s', r)) \<Longrightarrow> ens (mbuf_prepend m len s) Q"
  "P (ntbl s) \<Longrightarrow> (\<And>s'. P (ntbl s') \<Longrightarrow> R s') \<Longrightarrow> ens (mbuf_free ks m s) R"
  by (auto simp: mbuf_append_def mbuf_prepend_def mbuf_free_def Let_def intro!: nkfree_frame)

lemma e1000_send_frame: "P (ntbl s) \<Longrightarrow> (\<And>s' r. P (ntbl s') \<Longrightarrow> Q (s', r)) \<Longrightarrow> ens (e1000_send ks m s) Q"
  by (auto simp: e1000_send_def Let_def intro!: mbuf_frame)

lemma ethernet_tx_frame: "P (ntbl s) \<Longrightarrow> (\<And>s'. P (ntbl s') \<Longrightarrow> Q s') \<Longrightarrow> ens (ethernet_tx ks m ty mac s) Q"
  by (auto simp: ethernet_tx_def Let_def intro!: mbuf_frame e1000_send_frame)

lemma arp_tx_frame: "P (ntbl s) \<Longrightarrow> (\<And>s' r. P (ntbl s') \<Longrightarrow> Q (s', r)) \<Longrightarrow> ens (arp_tx ks op hw mac ip s) Q"
  by (auto simp: arp_tx_def Let_def intro!: mbuf_frame ethernet_tx_frame dest: mbuf_alloc_frame)

lemma arp_resolve_frame:
  "P (ntbl s) \<Longrightarrow> (\<And>s' r. P (ntbl s') \<Longrightarrow> Q (s', r)) \<Longrightarrow> ens (arp_resolve ks ip s) Q"
  by (auto simp: arp_resolve_def intro!: arp_tx_frame split: option.splits)

lemma ip_tx_frame: "P (ntbl s) \<Longrightarrow> (\<And>s'. P (ntbl s') \<Longrightarrow> Q s') \<Longrightarrow> ens (ip_tx ks m ip pr s) Q"
  by (auto simp: ip_tx_def Let_def intro!: mbuf_frame ethernet_tx_frame arp_resolve_frame)

lemma udp_open_loop_frame: "udp_open_loop ip port is s = (s', r) \<Longrightarrow> P (ntbl s) \<Longrightarrow> P (ntbl s')"
  by (induction ip port "is" s rule: udp_open_loop.induct) (auto split: if_splits)

lemma udp_tx_frame: "P (ntbl s) \<Longrightarrow> (\<And>s'. P (ntbl s') \<Longrightarrow> Q s') \<Longrightarrow> ens (udp_tx ks m i s) Q"
  by (auto simp: udp_tx_def Let_def intro!: mbuf_frame ip_tx_frame)

lemma udp_frame:
  "P (ntbl s) \<Longrightarrow> (\<And>s' r. P (ntbl s') \<Longrightarrow> Q (s', r)) \<Longrightarrow> ens (udp_open ip port s) Q"
  "P (ntbl s) \<Longrightarrow> (\<And>s' r. P (ntbl s') \<Longrightarrow> Q (s', r)) \<Longrightarrow> ens (udp_close soc s) Q"
  "P (ntbl s) \<Longrightarrow> (\<And>s' r. P (ntbl s') \<Longrightarrow> Q (s', r)) \<Longrightarrow> ens (udp_connect soc ip dport s) Q"
  "P (ntbl s) \<Longrightarrow> (\<And>s' r. P (ntbl s') \<Longrightarrow> Q (s', r)) \<Longrightarrow> ens (udp_send ks m soc s) Q"
  by (auto simp: udp_open_def udp_close_def udp_connect_def udp_send_def Let_def intro!: udp_tx_frame
      dest: udp_open_loop_frame split: option.splits) (metis udp_open_loop_frame surj_pair)

lemma udp_read_frame: "P (ntbl s) \<Longrightarrow> (\<And>s' r. P (ntbl s') \<Longrightarrow> Q (s', r)) \<Longrightarrow> ens (udp_read ks me i addr len s) Q"
  by (auto simp: udp_read_def Let_def frame nsleep_frame intro!: ens_copyout mbuf_frame)

lemma tcp_txq_add_frame:
  "P (ntbl s) \<Longrightarrow> (\<And>s' r. P (ntbl s') \<Longrightarrow> Q (s', r)) \<Longrightarrow> ens (tcp_txq_add ks i m hdr len s) Q"
  by (auto simp: tcp_txq_add_def Let_def intro!: nkfree_frame dest!: nkalloc_frame)

lemma tcp_txq_free_frame: "P (ntbl s) \<Longrightarrow> (\<And>s'. P (ntbl s') \<Longrightarrow> Q s') \<Longrightarrow> ens (tcp_txq_free ks es s) Q"
  by (induction es arbitrary: s) (auto intro!: nkfree_frame)

lemma tcp_cb_clear_loop_frame:
  "P (ntbl s) \<Longrightarrow> (\<And>s'. P (ntbl s') \<Longrightarrow> Q s') \<Longrightarrow> ens (tcp_cb_clear_loop n ks i s) Q"
proof (induction n arbitrary: i s Q)
  case (Suc n)
  show ?case
    by (auto simp: Let_def Suc.prems intro!: tcp_txq_free_frame nkfree_frame Suc.IH)
qed simp

lemma tcp_tx_frame: "P (ntbl s) \<Longrightarrow> (\<And>s' r. P (ntbl s') \<Longrightarrow> Q (s', r)) \<Longrightarrow> ens (tcp_tx ks m i sq ak fl len s) Q"
  by (auto simp: tcp_tx_def Let_def intro!: mbuf_frame ip_tx_frame tcp_txq_add_frame)

lemma tcp_tx_empty_frame: "P (ntbl s) \<Longrightarrow> (\<And>s'. P (ntbl s') \<Longrightarrow> Q s') \<Longrightarrow> ens (tcp_tx_empty ks i sq ak fl s) Q"
  by (auto simp: tcp_tx_empty_def Let_def intro!: tcp_tx_frame dest: mbuf_alloc_frame)

lemma tcp_open_loop_frame: "tcp_open_loop ip port is s = (s', r) \<Longrightarrow> P (ntbl s) \<Longrightarrow> P (ntbl s')"
  by (induction ip port "is" s rule: tcp_open_loop.induct) (auto split: if_splits)

lemma tcp_close_frame: "P (ntbl s) \<Longrightarrow> (\<And>s' r. P (ntbl s') \<Longrightarrow> Q (s', r)) \<Longrightarrow> ens (tcp_close ks me soc s) Q"
  by (auto simp: tcp_close_def tcp_close_woken_def tcp_cb_clear_def Let_def nsleep_frame
      intro!: tcp_tx_empty_frame tcp_cb_clear_loop_frame)

lemma tcp_connect_syn_frame:
  "P (ntbl s) \<Longrightarrow> (\<And>s' r. P (ntbl s') \<Longrightarrow> Q (s', r)) \<Longrightarrow> ens (tcp_connect_syn ks me m i ip port s) Q"
  by (auto simp: tcp_connect_syn_def tcp_connect_wait_def Let_def nsleep_frame intro!: tcp_tx_frame)

lemma tcp_frame:
  "P (ntbl s) \<Longrightarrow> (\<And>s' r. P (ntbl s') \<Longrightarrow> Q (s', r)) \<Longrightarrow> ens (tcp_connect ks me m soc ip dport s) Q"
  "P (ntbl s) \<Longrightarrow> (\<And>s' n. P (ntbl s') \<Longrightarrow> R (s', n)) \<Longrightarrow> ens (tcp_send ks m soc len s) R"
  by (auto simp: tcp_connect_def tcp_send_def Let_def intro!: tcp_connect_syn_frame tcp_tx_frame split: option.splits)

lemma tcp_read_frame: "P (ntbl s) \<Longrightarrow> (\<And>s' r. P (ntbl s') \<Longrightarrow> Q (s', r)) \<Longrightarrow> ens (tcp_read me soc addr sz s) Q"
  by (auto simp: tcp_read_def tcp_read_loop_def Let_def frame nsleep_frame intro!: ens_copyout)

lemma socket_unlink_frame: "P (ntbl s) \<Longrightarrow> (\<And>s'. P (ntbl s') \<Longrightarrow> Q s') \<Longrightarrow> ens (socket_unlink n p h s) Q"
  by (induction n arbitrary: h s) (auto simp: Let_def)

lemma socket_finish_frame:
  "P (ntbl s) \<Longrightarrow> (\<And>s' r. P (ntbl s') \<Longrightarrow> Q (s', r)) \<Longrightarrow> ens (socket_finish ks p (s, r)) Q"
  by (auto simp: socket_finish_def socket_remove_def Let_def intro!: socket_unlink_frame nkfree_frame split: progress.splits)

lemma socket_fill_frame:
  "P (ntbl s) \<Longrightarrow> (\<And>s' m. P (ntbl s') \<Longrightarrow> Q (s', m)) \<Longrightarrow> ens (socket_fill ks me h addr len s) Q"
  by (auto simp: socket_fill_def Let_def intro!: mbuf_frame ens_copyin dest: mbuf_alloc_frame)

lemma tcp_open_frame: "P (ntbl s) \<Longrightarrow> (\<And>s' r. P (ntbl s') \<Longrightarrow> Q (s', r)) \<Longrightarrow> ens (tcp_open ip port s) Q"
  by (cases "tcp_open_loop ip port [0..<TCP_CB_TABLE_SIZE] s") (auto simp: tcp_open_def dest: tcp_open_loop_frame)

lemma socket_open_frame:
  "P (ntbl s) \<Longrightarrow> (\<And>s' r. P (ntbl s') \<Longrightarrow> Q (s', r)) \<Longrightarrow> ens (socket_open ks me p ip port type s) Q"
  by (auto simp: socket_open_def Let_def intro!: tcp_open_frame udp_frame tcp_frame dest!: mbuf_alloc_frame)

lemma socket_frame:
  "P (ntbl s) \<Longrightarrow> (\<And>s' r. P (ntbl s') \<Longrightarrow> Q (s', r)) \<Longrightarrow> ens (socket_close ks me p s) Q"
  "P (ntbl s) \<Longrightarrow> (\<And>s' r. P (ntbl s') \<Longrightarrow> Q (s', r)) \<Longrightarrow> ens (socket_read ks me p addr len s) Q"
  "P (ntbl s) \<Longrightarrow> (\<And>s' n. P (ntbl s') \<Longrightarrow> R (s', n)) \<Longrightarrow> ens (socket_write ks me p addr len s) R"
  by (auto simp: socket_close_def socket_read_def socket_write_def Let_def intro!: tcp_close_frame udp_frame tcp_frame
      udp_read_frame tcp_read_frame socket_fill_frame socket_finish_frame)

section \<open>Pipes and console\<close>

lemma pipeclose_frame: "P (ptbl s) \<Longrightarrow> (\<And>s'. P (ptbl s') \<Longrightarrow> Q s') \<Longrightarrow> ens (pipeclose ks me a w s) Q"
  by (auto simp: pipeclose_def Let_def frame intro!: ens_any)

lemma pipewrite_frame:
  "P (ptbl s) \<Longrightarrow> (\<And>s' r. P (ptbl s') \<Longrightarrow> Q (s', r)) \<Longrightarrow> ens (pipewrite_loop me a addr n i s) Q"
proof (induction me a addr n i s rule: pipewrite_loop.induct)
  case (1 me a addr n i s)
  show ?case
    apply (subst pipewrite_loop.simps)
    using 1 by (auto simp: frame ens_def)
qed

lemma piperead_copy_frame:
  "P (ptbl s) \<Longrightarrow> (\<And>s' r. P (ptbl s') \<Longrightarrow> Q (s', r)) \<Longrightarrow> ens (piperead_copy me a addr n i s) Q"
proof (induction me a addr n i s rule: piperead_copy.induct)
  case (1 me a addr n i s)
  show ?case
    apply (subst piperead_copy.simps)
    using 1 by (auto simp: frame ens_def Let_def split: prod.splits)
qed

lemma piperead_frame: "P (ptbl s) \<Longrightarrow> (\<And>s' r. P (ptbl s') \<Longrightarrow> Q (s', r)) \<Longrightarrow> ens (piperead me a addr n s) Q"
  by (auto simp: piperead_def frame intro!: piperead_copy_frame)

lemma uartstart_frame: "P (ctbl s) \<Longrightarrow> P (ctbl (uartstart me room s))"
  by (induction me room s rule: uartstart.induct) (auto simp: Let_def frame split: prod.splits)

lemma consolewrite_frame:
  "P (ctbl s) \<Longrightarrow> (\<And>s' r. P (ctbl s') \<Longrightarrow> Q (s', r)) \<Longrightarrow> ens (consolewrite_loop me room src n i s) Q"
proof (induction me room src n i s rule: consolewrite_loop.induct)
  case (1 me room src n i s)
  show ?case
    apply (subst consolewrite_loop.simps)
    using 1 by (auto simp: frame ens_def uartputc_def uartstart_frame split: if_splits progress.splits)
qed

lemma consoleread_frame:
  "P (ctbl s) \<Longrightarrow> (\<And>s' r. P (ctbl s') \<Longrightarrow> Q (s', r)) \<Longrightarrow> ens (consoleread_loop me dst n i s) Q"
proof (induction me dst n i s rule: consoleread_loop.induct)
  case (1 me dst n i s)
  show ?case
    apply (subst consoleread_loop.simps)
    using 1 by (auto simp: frame ens_def Let_def split: prod.splits)
qed

section \<open>Files\<close>

lemma run_net_frame:
  "P (ktbl k) \<Longrightarrow> (\<And>s. P (ntbl s) \<Longrightarrow> ens (f s) (\<lambda>(s', r). P (ntbl s'))) \<Longrightarrow>
    (\<And>k' r. P (ktbl k') \<Longrightarrow> files k' = files k \<Longrightarrow> Q (k', r)) \<Longrightarrow> ens (run_net f k) Q"
  by (force simp: run_net_def ens_def)

lemma run_pipe_frame:
  "P (ktbl k) \<Longrightarrow> (\<And>s. P (ptbl s) \<Longrightarrow> ens (f s) (\<lambda>(s', r). P (ptbl s'))) \<Longrightarrow>
    (\<And>k' r. P (ktbl k') \<Longrightarrow> files k' = files k \<Longrightarrow> Q (k', r)) \<Longrightarrow> ens (run_pipe f k) Q"
  by (force simp: run_pipe_def ens_def)

lemma run_cons_frame:
  "P (ktbl k) \<Longrightarrow> (\<And>s. P (ctbl s) \<Longrightarrow> ens (f s) (\<lambda>(s', r). P (ctbl s'))) \<Longrightarrow>
    (\<And>k' r. P (ktbl k') \<Longrightarrow> files k' = files k \<Longrightarrow> Q (k', r)) \<Longrightarrow> ens (run_cons f k) Q"
  by (force simp: run_cons_def ens_def)

lemma run_fs_frame:
  "P (ktbl k) \<Longrightarrow> (\<And>k'. P (ktbl k') \<Longrightarrow> files k' = files k \<Longrightarrow> ktbl k' = ktbl k \<Longrightarrow> Q k') \<Longrightarrow> ens (run_fs me f k) Q"
  by (force simp: run_fs_def ens_def)

lemma set_kmem_frame: "P (ktbl k) \<Longrightarrow> P (ktbl (set_kmem m k))"
  by (simp add: set_kmem_def frame)

lemma filestat_frame:
  "P (ktbl k) \<Longrightarrow> (\<And>k' r. P (ktbl k') \<Longrightarrow> files k' = files k \<Longrightarrow> Q (k', r)) \<Longrightarrow> ens (filestat me i addr k) Q"
  by (auto simp: filestat_def Let_def set_kmem_frame intro!: ens_any)

lemma inode_read_frame:
  "P (ktbl k) \<Longrightarrow> (\<And>k' r. P (ktbl k') \<Longrightarrow> same_refs (files k) (files k') \<Longrightarrow> Q (k', r)) \<Longrightarrow>
    ens (inode_read me i addr n k) Q"
  by (auto simp: inode_read_def Let_def same_refs_def set_kmem_frame intro!: ens_any)

lemma fileread_frame:
  "P (ktbl k) \<Longrightarrow> (\<And>k' r. P (ktbl k') \<Longrightarrow> same_refs (files k) (files k') \<Longrightarrow> Q (k', r)) \<Longrightarrow>
    ens (fileread ks me i addr n k) Q"
  by (auto simp: fileread_def consoleread_def Let_def intro!: inode_read_frame run_pipe_frame run_cons_frame run_net_frame
      piperead_frame consoleread_frame socket_frame split: ftype.splits)

lemma inode_write_frame:
  "P (ktbl k) \<Longrightarrow> (\<And>k' r. P (ktbl k') \<Longrightarrow> same_refs (files k) (files k') \<Longrightarrow> Q (k', r)) \<Longrightarrow>
    ens (inode_write me i addr n k) Q"
  by (auto simp: inode_write_def Let_def same_refs_def intro!: ens_any)

lemma inode_write_loop_frame:
  "P (ktbl k) \<Longrightarrow> (\<And>k' r. P (ktbl k') \<Longrightarrow> same_refs (files k) (files k') \<Longrightarrow> Q (k', r)) \<Longrightarrow>
    ens (inode_write_loop me i addr n w k) Q"
proof (induction me i addr n w k rule: inode_write_loop.induct)
  case (1 me i addr n w k)
  note P = "1.prems"(1) and Q = "1.prems"(2)
  show ?case
  proof (cases "w < n")
    case True
    let ?n1 = "min (n - w) FILEWRITE_MAX"
    have "ens (inode_write me i (addr + of_nat w) ?n1 k) (\<lambda>(k', r).
        inode_write me i (addr + of_nat w) ?n1 k = Inr (k', r) \<and> P (ktbl k') \<and> same_refs (files k) (files k'))"
      using inode_write_frame [OF P, of "\<lambda>(k', r). P (ktbl k') \<and> same_refs (files k) (files k')" me i "addr + of_nat w" ?n1]
      by (auto simp: ens_def)
    then show ?thesis using True Q
      by (subst inode_write_loop.simps)
        (auto simp: Let_def elim!: ens_weaken intro!: "1.IH" [OF True refl] dest: same_refs_trans)
  next
    case False
    then show ?thesis using P Q by (subst inode_write_loop.simps) simp
  qed
qed

lemma filewrite_frame:
  "P (ktbl k) \<Longrightarrow> (\<And>k' r. P (ktbl k') \<Longrightarrow> same_refs (files k) (files k') \<Longrightarrow> Q (k', r)) \<Longrightarrow>
    ens (filewrite ks room me i addr n k) Q"
  by (auto simp: filewrite_def consolewrite_def pipewrite_def Let_def intro!: inode_write_loop_frame run_pipe_frame
      run_cons_frame run_net_frame pipewrite_frame consolewrite_frame socket_frame split: ftype.splits)

lemma fileclose_frame:
  assumes "P (ktbl k)" "\<And>k' r. P (ktbl k') \<Longrightarrow> 1 \<le> f_ref (files k i) \<Longrightarrow> files k' = close_ref i (files k) \<Longrightarrow> Q (k', r)"
  shows "ens (fileclose ks me i k) Q"
proof (cases "f_ref (files k i) > 1")
  case True
  then show ?thesis using assms by (simp add: fileclose_def Let_def close_ref_def)
next
  case False
  let ?k = "upd_file i (\<lambda>f. f\<lparr>f_type := FD_NONE, f_ref := 0\<rparr>) (upd_file i (\<lambda>f. f\<lparr>f_ref := f_ref f - 1\<rparr>) k)"
  have "files ?k = close_ref i (files k)" "P (ktbl ?k)" using False assms(1) by (simp_all add: close_ref_def)
  then show ?thesis using False assms(2)
    by (cases "f_type (files k i)") (auto simp: fileclose_def Let_def intro!: run_pipe_frame run_net_frame run_fs_frame
        pipeclose_frame socket_frame)
qed

end

end
