(* ===== verification/Syscall.thy ===== *)
theory Syscall
  imports File
begin

text \<open>
  The arguments of system calls (\<^verbatim>\<open>kernel/syscall.c\<close>). The arguments are in the trapframe of the calling process
  \<open>me\<close>, a page of the memory. A string is fetched into a variable of the kernel (its bytes are the result) or, for
  \<^verbatim>\<open>exec\<close>, into a page.
\<close>

definition MAXPATH :: nat where "MAXPATH = 128"
definition MAXARG :: nat where "MAXARG = 32"

definition cur :: "nat \<Rightarrow> kern \<Rightarrow> proc" where "cur me k = procs (ktbl k) me"

definition upd_cur :: "nat \<Rightarrow> (proc \<Rightarrow> proc) \<Rightarrow> kern \<Rightarrow> kern" where
  "upd_cur me f k = k\<lparr>ktbl := upd_proc me f (ktbl k)\<rparr>"

definition tf_get :: "nat \<Rightarrow> u32 \<Rightarrow> kern \<Rightarrow> u32" where
  "tf_get me off k = load32 (phys (kmem k)) (trapframe (cur me k) + off)"

definition tf_set :: "nat \<Rightarrow> u32 \<Rightarrow> u32 \<Rightarrow> kern \<Rightarrow> kern" where
  "tf_set me off v k =
    set_kmem ((kmem k)\<lparr>phys := store32 (phys (kmem k)) (trapframe (cur me k) + off) v\<rparr>) k"

definition fetchaddr :: "nat \<Rightarrow> u32 \<Rightarrow> kern \<Rightarrow> u32 option res" where
  "fetchaddr me addr k =
    (let p = cur me k
     in if addr \<ge> psz p \<or> addr + 4 > psz p then Inr None
        else ebind (copyin_buf (kmem k) (pagetable p) addr 4) (\<lambda>(bs, r).
          if r \<noteq> 0 then Inr None else Inr (Some (le32 (bs ! 0) (bs ! 1) (bs ! 2) (bs ! 3)))))"

definition fetchstr :: "nat \<Rightarrow> u32 \<Rightarrow> nat \<Rightarrow> kern \<Rightarrow> (u8 list \<times> int) res" where
  "fetchstr me addr mx k =
    ebind (copyinstr_buf (kmem k) (pagetable (cur me k)) addr mx) (\<lambda>(bs, r).
    Inr (bs, if r < 0 then r else int (length bs)))"

definition fetchstr_at :: "nat \<Rightarrow> u32 \<Rightarrow> u32 \<Rightarrow> u32 \<Rightarrow> kern \<Rightarrow> (kern \<times> int) res" where
  "fetchstr_at me addr buf mx k =
    ebind (copyinstr (kmem k) (pagetable (cur me k)) buf addr mx) (\<lambda>(m, r).
      if r < 0 then Inr (set_kmem m k, r)
      else case strlen (phys m) buf of None \<Rightarrow> Inl Diverges | Some n \<Rightarrow> Inr (set_kmem m k, sint n))"

definition argraw :: "int \<Rightarrow> nat \<Rightarrow> kern \<Rightarrow> u32 res" where
  "argraw n me k =
    (if 0 \<le> n \<and> n \<le> 5 then Inr (tf_get me (TF_a0 + 4 * word_of_int n) k) else Inl (Panic ''argraw''))"

definition argint :: "int \<Rightarrow> nat \<Rightarrow> kern \<Rightarrow> int res" where
  "argint n me k = ebind (argraw n me k) (\<lambda>x. Inr (sint x))"

definition argaddr :: "int \<Rightarrow> nat \<Rightarrow> kern \<Rightarrow> u32 res" where
  "argaddr n me k = argraw n me k"

definition argstr :: "int \<Rightarrow> nat \<Rightarrow> nat \<Rightarrow> kern \<Rightarrow> (u8 list \<times> int) res" where
  "argstr n mx me k = ebind (argaddr n me k) (\<lambda>addr. fetchstr me addr mx k)"

end
