(* ===== verification/Sysfile.thy ===== *)
theory Sysfile
  imports Syscall
begin

text \<open>
  \<^verbatim>\<open>kernel/sysfile.c\<close>: the system calls on files, apart from \<^verbatim>\<open>sys_exec\<close>. The result of a call is the word that goes
  to \<^verbatim>\<open>a0\<close>, or the channel the process sleeps on.
\<close>

type_synonym sysres = "(kern \<times> u32 progress) res"

definition ret :: "kern \<Rightarrow> int \<Rightarrow> sysres" where "ret k r = Inr (k, Return (word_of_int r))"

definition ret_fs :: "kern \<Rightarrow> fsys \<Rightarrow> int \<Rightarrow> sysres" where "ret_fs k s r = ret (k\<lparr>kfs := s\<rparr>) r"

definition progress_map :: "('a \<Rightarrow> 'b) \<Rightarrow> 'a progress \<Rightarrow> 'b progress" where
  "progress_map f r = (case r of Return x \<Rightarrow> Return (f x) | Sleeps ch \<Rightarrow> Sleeps ch)"

section \<open>File descriptors\<close>

definition argfd :: "int \<Rightarrow> nat \<Rightarrow> kern \<Rightarrow> (nat \<times> nat) option res" where
  "argfd n me k =
    ebind (argint n me k) (\<lambda>fd.
      if fd < 0 \<or> fd \<ge> int NOFILE then Inr None
      else case ofile (cur me k) (nat fd) of None \<Rightarrow> Inr None | Some f \<Rightarrow> Inr (Some (nat fd, f)))"

definition set_ofile :: "nat \<Rightarrow> nat \<Rightarrow> nat option \<Rightarrow> kern \<Rightarrow> kern" where
  "set_ofile me fd f k = upd_cur me (\<lambda>p. p\<lparr>ofile := (ofile p)(fd := f)\<rparr>) k"

definition fdalloc :: "nat \<Rightarrow> nat \<Rightarrow> kern \<Rightarrow> kern \<times> nat option" where
  "fdalloc me f k =
    (case find (\<lambda>fd. ofile (cur me k) fd = None) [0..<NOFILE] of
       Some fd \<Rightarrow> (set_ofile me fd (Some f) k, Some fd)
     | None \<Rightarrow> (k, None))"

definition sys_dup :: "nat \<Rightarrow> kern \<Rightarrow> sysres" where
  "sys_dup me k =
    ebind (argfd 0 me k) (\<lambda>r.
      case r of
        None \<Rightarrow> ret k (- 1)
      | Some (_, f) \<Rightarrow>
          let (k, fd) = fdalloc me f k
          in case fd of
               None \<Rightarrow> ret k (- 1)
             | Some fd \<Rightarrow> ebind (filedup f k) (\<lambda>k. ret k (int fd)))"

definition sys_read :: "ksyms \<Rightarrow> nat \<Rightarrow> kern \<Rightarrow> sysres" where
  "sys_read ks me k =
    ebind (argfd 0 me k) (\<lambda>r.
      case r of
        None \<Rightarrow> ret k (- 1)
      | Some (_, f) \<Rightarrow>
          ebind (argaddr 1 me k) (\<lambda>p.
          ebind (argint 2 me k) (\<lambda>n.
          ebind (fileread ks me f p n k) (\<lambda>(k, r). Inr (k, progress_map word_of_int r)))))"

definition sys_write :: "ksyms \<Rightarrow> (nat \<Rightarrow> nat) \<Rightarrow> nat \<Rightarrow> kern \<Rightarrow> sysres" where
  "sys_write ks room me k =
    ebind (argfd 0 me k) (\<lambda>r.
      case r of
        None \<Rightarrow> ret k (- 1)
      | Some (_, f) \<Rightarrow>
          ebind (argaddr 1 me k) (\<lambda>p.
          ebind (argint 2 me k) (\<lambda>n.
          ebind (filewrite ks room me f p n k) (\<lambda>(k, r). Inr (k, progress_map word_of_int r)))))"

definition sys_close :: "ksyms \<Rightarrow> nat \<Rightarrow> kern \<Rightarrow> sysres" where
  "sys_close ks me k =
    ebind (argfd 0 me k) (\<lambda>r.
      case r of
        None \<Rightarrow> ret k (- 1)
      | Some (fd, f) \<Rightarrow>
          ebind (fileclose ks me f (set_ofile me fd None k)) (\<lambda>(k, r). Inr (k, progress_map (\<lambda>_. 0) r)))"

definition sys_fstat :: "nat \<Rightarrow> kern \<Rightarrow> sysres" where
  "sys_fstat me k =
    ebind (argfd 0 me k) (\<lambda>r.
      case r of
        None \<Rightarrow> ret k (- 1)
      | Some (_, f) \<Rightarrow> ebind (argaddr 1 me k) (\<lambda>st. ebind (filestat me f st k) (\<lambda>(k, r). ret k r)))"

section \<open>Links\<close>

text \<open>
  The inode from which the walk of a path starts that does not begin with a slash; a process without current directory
  has a null pointer there.
\<close>

definition start_dir :: "proc \<Rightarrow> u8 list \<Rightarrow> nat res" where
  "start_dir p path =
    (case cwd p of
       Some d \<Rightarrow> Inr d
     | None \<Rightarrow> if path \<noteq> [] \<and> hd path = slash then Inr 0 else Inl (Panic ''kerneltrap''))"

definition namei_of :: "proc \<Rightarrow> u8 list \<Rightarrow> fsys \<Rightarrow> (fsys \<times> nat option) res" where
  "namei_of p path s = ebind (start_dir p path) (\<lambda>d. namei d path s)"

definition nameiparent_of :: "proc \<Rightarrow> u8 list \<Rightarrow> fsys \<Rightarrow> (fsys \<times> nat option \<times> u8 list) res" where
  "nameiparent_of p path s = ebind (start_dir p path) (\<lambda>d. nameiparent d path s)"

definition link_bad :: "nat \<Rightarrow> fsys \<Rightarrow> (fsys \<times> int) res" where
  "link_bad ip s =
    ebind (ilock ip s) (\<lambda>s.
    ebind (iupdate ip (upd_inode ip (\<lambda>x. x\<lparr>i_nlink := i_nlink x - 1\<rparr>) s)) (\<lambda>s.
    ebind (iunlockput ip s) (\<lambda>s.
    ebind (end_op s) (\<lambda>s. Inr (s, - 1)))))"

definition link_new :: "proc \<Rightarrow> u8 list \<Rightarrow> nat \<Rightarrow> fsys \<Rightarrow> (fsys \<times> int) res" where
  "link_new p new ip s =
    ebind (nameiparent_of p new s) (\<lambda>(s, dp, name).
      case dp of
        None \<Rightarrow> link_bad ip s
      | Some dp \<Rightarrow>
          ebind (ilock dp s) (\<lambda>s.
            if i_dev (itable s dp) \<noteq> i_dev (itable s ip) then ebind (iunlockput dp s) (link_bad ip)
            else
              ebind (dirlink dp name (i_inum (itable s ip)) s) (\<lambda>(s, r).
                if r < 0 then ebind (iunlockput dp s) (link_bad ip)
                else
                  ebind (iunlockput dp s) (\<lambda>s.
                  ebind (iput ip s) (\<lambda>s.
                  ebind (end_op s) (\<lambda>s. Inr (s, 0)))))))"

definition link_old :: "proc \<Rightarrow> u8 list \<Rightarrow> u8 list \<Rightarrow> fsys \<Rightarrow> (fsys \<times> int) res" where
  "link_old p old new s =
    ebind (begin_op s) (\<lambda>s.
    ebind (namei_of p old s) (\<lambda>(s, ip).
      case ip of
        None \<Rightarrow> ebind (end_op s) (\<lambda>s. Inr (s, - 1))
      | Some ip \<Rightarrow>
          ebind (ilock ip s) (\<lambda>s.
            if i_type (itable s ip) = T_DIR
            then ebind (iunlockput ip s) (\<lambda>s. ebind (end_op s) (\<lambda>s. Inr (s, - 1)))
            else
              ebind (iupdate ip (upd_inode ip (\<lambda>x. x\<lparr>i_nlink := i_nlink x + 1\<rparr>) s)) (\<lambda>s.
              ebind (iunlock ip s) (link_new p new ip)))))"

definition sys_link :: "nat \<Rightarrow> kern \<Rightarrow> sysres" where
  "sys_link me k =
    ebind (argstr 0 MAXPATH me k) (\<lambda>(old, r).
      if r < 0 then ret k (- 1)
      else
        ebind (argstr 1 MAXPATH me k) (\<lambda>(new, r).
          if r < 0 then ret k (- 1)
          else
            ebind (link_old (cur me k) old new (fs_of me k)) (\<lambda>(s, r). ret_fs k s r)))"

text \<open>\<^verbatim>\<open>isdirempty\<close> reads the entries after the first two; \<open>off\<close> is a C \<^verbatim>\<open>int\<close> that is compared as unsigned.\<close>

fun isdirempty_loop :: "nat \<Rightarrow> u32 list \<Rightarrow> fsys \<Rightarrow> (fsys \<times> bool) res" where
  "isdirempty_loop dp [] s = Inr (s, True)"
| "isdirempty_loop dp (off # offs) s =
    ebind (read_dirent ''isdirempty: readi'' dp off s) (\<lambda>(s, de).
      if de_inum de \<noteq> 0 then Inr (s, False) else isdirempty_loop dp offs s)"

definition isdirempty :: "nat \<Rightarrow> fsys \<Rightarrow> (fsys \<times> bool) res" where
  "isdirempty dp s = isdirempty_loop dp (drop 2 (dir_offs dp s)) s"

definition unlink_bad :: "nat \<Rightarrow> fsys \<Rightarrow> (fsys \<times> int) res" where
  "unlink_bad dp s = ebind (iunlockput dp s) (\<lambda>s. ebind (end_op s) (\<lambda>s. Inr (s, - 1)))"

definition unlink_entry :: "nat \<Rightarrow> nat \<Rightarrow> u32 \<Rightarrow> fsys \<Rightarrow> (fsys \<times> int) res" where
  "unlink_entry dp ip off s =
    ebind (writei (from_local (replicate 16 0)) dp off 16 s) (\<lambda>(s, r).
      if r \<noteq> 16 then Inl (Panic ''unlink: writei'')
      else
        ebind (if i_type (itable s ip) = T_DIR
               then iupdate dp (upd_inode dp (\<lambda>x. x\<lparr>i_nlink := i_nlink x - 1\<rparr>) s) else Inr s) (\<lambda>s.
        ebind (iunlockput dp s) (\<lambda>s.
        ebind (iupdate ip (upd_inode ip (\<lambda>x. x\<lparr>i_nlink := i_nlink x - 1\<rparr>) s)) (\<lambda>s.
        ebind (iunlockput ip s) (\<lambda>s.
        ebind (end_op s) (\<lambda>s. Inr (s, 0)))))))"

definition unlink_path :: "proc \<Rightarrow> u8 list \<Rightarrow> fsys \<Rightarrow> (fsys \<times> int) res" where
  "unlink_path p path s =
    ebind (begin_op s) (\<lambda>s.
    ebind (nameiparent_of p path s) (\<lambda>(s, dp, name).
      case dp of
        None \<Rightarrow> ebind (end_op s) (\<lambda>s. Inr (s, - 1))
      | Some dp \<Rightarrow>
          ebind (ilock dp s) (\<lambda>s.
            if namecmp name [46] = 0 \<or> namecmp name [46, 46] = 0 then unlink_bad dp s
            else
              ebind (dirlookup dp name s) (\<lambda>(s, r).
                case r of
                  None \<Rightarrow> unlink_bad dp s
                | Some (ip, off) \<Rightarrow>
                    ebind (ilock ip s) (\<lambda>s.
                      if sint (i_nlink (itable s ip)) < 1 then Inl (Panic ''unlink: nlink < 1'')
                      else
                        ebind (if i_type (itable s ip) = T_DIR then isdirempty ip s else Inr (s, True)) (\<lambda>(s, e).
                          if \<not> e then ebind (iunlockput ip s) (unlink_bad dp)
                          else unlink_entry dp ip off s))))))"

definition sys_unlink :: "nat \<Rightarrow> kern \<Rightarrow> sysres" where
  "sys_unlink me k =
    ebind (argstr 0 MAXPATH me k) (\<lambda>(path, r).
      if r < 0 then ret k (- 1)
      else ebind (unlink_path (cur me k) path (fs_of me k)) (\<lambda>(s, r). ret_fs k s r))"

section \<open>Creation\<close>

text \<open>\<^verbatim>\<open>create\<close>: the result is a locked inode, or null.\<close>

definition create_dots :: "nat \<Rightarrow> nat \<Rightarrow> fsys \<Rightarrow> fsys res" where
  "create_dots dp ip s =
    ebind (iupdate dp (upd_inode dp (\<lambda>x. x\<lparr>i_nlink := i_nlink x + 1\<rparr>) s)) (\<lambda>s.
    ebind (dirlink ip [46] (i_inum (itable s ip)) s) (\<lambda>(s, r).
      if r < 0 then Inl (Panic ''create dots'')
      else
        ebind (dirlink ip [46, 46] (i_inum (itable s dp)) s) (\<lambda>(s, r).
          if r < 0 then Inl (Panic ''create dots'') else Inr s)))"

definition create_new :: "nat \<Rightarrow> u8 list \<Rightarrow> u16 \<Rightarrow> u16 \<Rightarrow> u16 \<Rightarrow> fsys \<Rightarrow> (fsys \<times> nat option) res" where
  "create_new dp name type major minor s =
    ebind (ialloc (i_dev (itable s dp)) type s) (\<lambda>(s, ip).
    ebind (ilock ip s) (\<lambda>s.
    ebind (iupdate ip (upd_inode ip (\<lambda>x. x\<lparr>i_major := major, i_minor := minor, i_nlink := 1\<rparr>) s)) (\<lambda>s.
    ebind (if type = T_DIR then create_dots dp ip s else Inr s) (\<lambda>s.
    ebind (dirlink dp name (i_inum (itable s ip)) s) (\<lambda>(s, r).
      if r < 0 then Inl (Panic ''create: dirlink'')
      else ebind (iunlockput dp s) (\<lambda>s. Inr (s, Some ip)))))))"

definition create :: "proc \<Rightarrow> u8 list \<Rightarrow> u16 \<Rightarrow> u16 \<Rightarrow> u16 \<Rightarrow> fsys \<Rightarrow> (fsys \<times> nat option) res" where
  "create p path type major minor s =
    ebind (nameiparent_of p path s) (\<lambda>(s, dp, name).
      case dp of
        None \<Rightarrow> Inr (s, None)
      | Some dp \<Rightarrow>
          ebind (ilock dp s) (\<lambda>s.
          ebind (dirlookup dp name s) (\<lambda>(s, r).
            case r of
              Some (ip, _) \<Rightarrow>
                ebind (iunlockput dp s) (\<lambda>s.
                ebind (ilock ip s) (\<lambda>s.
                  if type = T_FILE \<and> (i_type (itable s ip) = T_FILE \<or> i_type (itable s ip) = T_DEVICE)
                  then Inr (s, Some ip)
                  else ebind (iunlockput ip s) (\<lambda>s. Inr (s, None))))
            | None \<Rightarrow> create_new dp name type major minor s)))"

definition O_RDONLY :: u32 where "O_RDONLY = 0"
definition O_WRONLY :: u32 where "O_WRONLY = 1"
definition O_RDWR :: u32 where "O_RDWR = 2"
definition O_CREATE :: u32 where "O_CREATE = 0x200"
definition O_TRUNC :: u32 where "O_TRUNC = 0x400"

text \<open>The parts of \<^verbatim>\<open>sys_open\<close>: the inode, locked; the file and its descriptor; the end of the transaction.\<close>

definition open_inode :: "proc \<Rightarrow> u8 list \<Rightarrow> u32 \<Rightarrow> fsys \<Rightarrow> (fsys \<times> nat option) res" where
  "open_inode p path omode s =
    ebind (if omode AND O_CREATE \<noteq> 0 then create p path T_FILE 0 0 s
           else
             ebind (namei_of p path s) (\<lambda>(s, r).
               case r of
                 None \<Rightarrow> Inr (s, None)
               | Some ip \<Rightarrow>
                   ebind (ilock ip s) (\<lambda>s.
                     if i_type (itable s ip) = T_DIR \<and> omode \<noteq> O_RDONLY
                     then ebind (iunlockput ip s) (\<lambda>s. Inr (s, None))
                     else Inr (s, Some ip)))) (\<lambda>(s, r).
      case r of
        None \<Rightarrow> ebind (end_op s) (\<lambda>s. Inr (s, None))
      | Some ip \<Rightarrow>
          let x = itable s ip
          in if i_type x = T_DEVICE \<and> (sint (i_major x) < 0 \<or> sint (i_major x) \<ge> NDEV)
             then ebind (iunlockput ip s) (\<lambda>s. ebind (end_op s) (\<lambda>s. Inr (s, None)))
             else Inr (s, Some ip))"

definition open_fail :: "ksyms \<Rightarrow> nat \<Rightarrow> nat \<Rightarrow> nat option \<Rightarrow> kern \<Rightarrow> sysres" where
  "open_fail ks me ip f k =
    ebind (case f of None \<Rightarrow> Inr (k, Return ()) | Some f \<Rightarrow> fileclose ks me f k) (\<lambda>(k, _).
    ebind (run_fs me (\<lambda>s. ebind (iunlockput ip s) end_op) k) (\<lambda>k. ret k (- 1)))"

definition open_file :: "nat \<Rightarrow> u32 \<Rightarrow> inode \<Rightarrow> kfile \<Rightarrow> kfile" where
  "open_file ip omode x f =
    (let f = (if i_type x = T_DEVICE then f\<lparr>f_type := FD_DEVICE, f_major := i_major x\<rparr>
              else f\<lparr>f_type := FD_INODE, f_off := 0\<rparr>)
     in f\<lparr>f_ip := ip, f_readable := (omode AND O_WRONLY = 0),
          f_writable := (omode AND O_WRONLY \<noteq> 0 \<or> omode AND O_RDWR \<noteq> 0)\<rparr>)"

definition open_finish :: "nat \<Rightarrow> u32 \<Rightarrow> fsys \<Rightarrow> fsys res" where
  "open_finish ip omode s =
    ebind (if omode AND O_TRUNC \<noteq> 0 \<and> i_type (itable s ip) = T_FILE then itrunc ip s else Inr s) (\<lambda>s.
    ebind (iunlock ip s) end_op)"

definition open_fd :: "ksyms \<Rightarrow> nat \<Rightarrow> nat \<Rightarrow> u32 \<Rightarrow> kern \<Rightarrow> sysres" where
  "open_fd ks me ip omode k =
    (let x = itable (kfs k) ip;
         (k, f) = filealloc k
     in case f of
          None \<Rightarrow> open_fail ks me ip None k
        | Some f \<Rightarrow>
            let (k, fd) = fdalloc me f k
            in case fd of
                 None \<Rightarrow> open_fail ks me ip (Some f) k
               | Some fd \<Rightarrow>
                   ebind (run_fs me (open_finish ip omode) (upd_file f (open_file ip omode x) k)) (\<lambda>k. ret k (int fd)))"

definition sys_open :: "ksyms \<Rightarrow> nat \<Rightarrow> kern \<Rightarrow> sysres" where
  "sys_open ks me k =
    ebind (argstr 0 MAXPATH me k) (\<lambda>(path, n).
      if n < 0 then ret k (- 1)
      else
        ebind (argraw 1 me k) (\<lambda>omode.
        ebind (begin_op (fs_of me k)) (\<lambda>s.
        ebind (open_inode (cur me k) path omode s) (\<lambda>(s, r).
          case r of
            None \<Rightarrow> ret_fs k s (- 1)
          | Some ip \<Rightarrow> open_fd ks me ip omode (k\<lparr>kfs := s\<rparr>)))))"

definition make_node :: "nat \<Rightarrow> kern \<Rightarrow> u8 list \<Rightarrow> u16 \<Rightarrow> u16 \<Rightarrow> u16 \<Rightarrow> sysres" where
  "make_node me k path type major minor =
    ebind (begin_op (fs_of me k)) (\<lambda>s.
    ebind (create (cur me k) path type major minor s) (\<lambda>(s, r).
      case r of
        None \<Rightarrow> ebind (end_op s) (\<lambda>s. ret_fs k s (- 1))
      | Some ip \<Rightarrow> ebind (iunlockput ip s) (\<lambda>s. ebind (end_op s) (\<lambda>s. ret_fs k s 0))))"

text \<open>An operation that begins a transaction and fails before it uses the file system.\<close>

definition empty_op :: "nat \<Rightarrow> kern \<Rightarrow> sysres" where
  "empty_op me k = ebind (run_fs me (\<lambda>s. ebind (begin_op s) end_op) k) (\<lambda>k. ret k (- 1))"

definition sys_mkdir :: "nat \<Rightarrow> kern \<Rightarrow> sysres" where
  "sys_mkdir me k =
    ebind (argstr 0 MAXPATH me k) (\<lambda>(path, r).
      if r < 0 then empty_op me k else make_node me k path T_DIR 0 0)"

definition sys_mknod :: "nat \<Rightarrow> kern \<Rightarrow> sysres" where
  "sys_mknod me k =
    ebind (argstr 0 MAXPATH me k) (\<lambda>(path, r).
      if r < 0 then empty_op me k
      else
        ebind (argint 1 me k) (\<lambda>major.
        ebind (argint 2 me k) (\<lambda>minor.
        make_node me k path T_DEVICE (word_of_int major) (word_of_int minor))))"

definition sys_chdir :: "nat \<Rightarrow> kern \<Rightarrow> sysres" where
  "sys_chdir me k =
    ebind (argstr 0 MAXPATH me k) (\<lambda>(path, r).
      if r < 0 then empty_op me k
      else
        ebind (begin_op (fs_of me k)) (\<lambda>s.
        ebind (namei_of (cur me k) path s) (\<lambda>(s, r).
          case r of
            None \<Rightarrow> ebind (end_op s) (\<lambda>s. ret_fs k s (- 1))
          | Some ip \<Rightarrow>
              ebind (ilock ip s) (\<lambda>s.
                if i_type (itable s ip) \<noteq> T_DIR
                then ebind (iunlockput ip s) (\<lambda>s. ebind (end_op s) (\<lambda>s. ret_fs k s (- 1)))
                else
                  ebind (iunlock ip s) (\<lambda>s.
                    case cwd (cur me k) of
                      None \<Rightarrow> Inl (Panic ''kerneltrap'')
                    | Some old \<Rightarrow>
                        ebind (iput old s) (\<lambda>s.
                        ebind (end_op s) (\<lambda>s.
                        ret_fs (upd_cur me (\<lambda>p. p\<lparr>cwd := Some ip\<rparr>) k) s 0)))))))"

section \<open>Pipes and sockets\<close>

definition pipe_undo :: "ksyms \<Rightarrow> nat \<Rightarrow> nat \<Rightarrow> nat \<Rightarrow> kern \<Rightarrow> sysres" where
  "pipe_undo ks me f0 f1 k =
    ebind (fileclose ks me f0 k) (\<lambda>(k, _). ebind (fileclose ks me f1 k) (\<lambda>(k, _). ret k (- 1)))"

definition pipe_fds :: "ksyms \<Rightarrow> nat \<Rightarrow> u32 \<Rightarrow> nat \<Rightarrow> nat \<Rightarrow> kern \<Rightarrow> sysres" where
  "pipe_fds ks me fdarray f0 f1 k =
    (let (k, fd0) = fdalloc me f0 k
     in case fd0 of
          None \<Rightarrow> pipe_undo ks me f0 f1 k
        | Some fd0 \<Rightarrow>
            let (k, fd1) = fdalloc me f1 k
            in case fd1 of
                 None \<Rightarrow> pipe_undo ks me f0 f1 (set_ofile me fd0 None k)
               | Some fd1 \<Rightarrow>
                   let pt = pagetable (cur me k);
                       undo = (\<lambda>m. pipe_undo ks me f0 f1 (set_ofile me fd1 None (set_ofile me fd0 None (set_kmem m k))))
                   in ebind (copyout_buf (kmem k) pt fdarray (put32 (of_nat fd0))) (\<lambda>(m, r).
                        if r < 0 then undo m
                        else
                          ebind (copyout_buf m pt (fdarray + 4) (put32 (of_nat fd1))) (\<lambda>(m, r).
                            if r < 0 then undo m else ret (set_kmem m k) 0)))"

definition sys_pipe :: "ksyms \<Rightarrow> nat \<Rightarrow> kern \<Rightarrow> sysres" where
  "sys_pipe ks me k =
    ebind (argaddr 0 me k) (\<lambda>fdarray.
    ebind (pipealloc ks me k) (\<lambda>(k, r).
      case r of
        None \<Rightarrow> ret k (- 1)
      | Some (f0, f1) \<Rightarrow> pipe_fds ks me fdarray f0 f1 k))"

text \<open>
  \<^verbatim>\<open>sys_connect\<close>: the port and the type are cut to the width of the parameters of \<^verbatim>\<open>socket_alloc\<close>. The descriptor is
  an \<^verbatim>\<open>uint\<close>, so that the test for a negative one never succeeds. After a sleep in \<^verbatim>\<open>tcp_connect\<close> the call goes on with
  \<open>connect_fd\<close>.
\<close>

definition connect_fd :: "nat \<Rightarrow> nat \<Rightarrow> kern \<Rightarrow> sysres" where
  "connect_fd me f k =
    (let (k, fd) = fdalloc me f k in ret k (case fd of Some fd \<Rightarrow> int fd | None \<Rightarrow> - 1))"

definition sys_connect :: "ksyms \<Rightarrow> nat \<Rightarrow> kern \<Rightarrow> sysres" where
  "sys_connect ks me k =
    ebind (argraw 0 me k) (\<lambda>ip.
    ebind (argraw 1 me k) (\<lambda>port.
    ebind (argraw 2 me k) (\<lambda>type.
    ebind (socket_alloc ks me ip (ucast port) (ucast type) k) (\<lambda>(k, f, r).
      case r of
        Sleeps ch \<Rightarrow> Inr (k, Sleeps ch)
      | Return r \<Rightarrow> if r < 0 then ret k (- 1) else connect_fd me f k))))"

end
