(* ===== verification/Proc_Life.thy ===== *)
theory Proc_Life
  imports Sysfile
begin

text \<open>
  The operations of \<^verbatim>\<open>kernel/proc.c\<close> that also need the files and the file system: \<^verbatim>\<open>userinit\<close>, \<^verbatim>\<open>fork\<close> and \<^verbatim>\<open>exit\<close>.
\<close>

text \<open>
  \<^verbatim>\<open>userinit\<close>: \<open>initcode\<close> is the address of the array of that name, which has 51 bytes. The result of \<^verbatim>\<open>allocproc\<close> is
  not tested for null; \<^verbatim>\<open>namei\<close> runs before the file system is initialised, on the absolute path \<^verbatim>\<open>/\<close>, and without a
  current process.
\<close>

definition userinit :: "ksyms \<Rightarrow> u32 \<Rightarrow> kern \<Rightarrow> kern res" where
  "userinit ks initcode k =
    ebind (allocproc ks (ktbl k)) (\<lambda>(t, r).
      let k = k\<lparr>ktbl := t\<lparr>initproc := r\<rparr>\<rparr>
      in case r of
           None \<Rightarrow> Inl (Panic ''kerneltrap'')
         | Some p \<Rightarrow>
             ebind (uvminit (kmem k) (pagetable (cur p k)) initcode 51) (\<lambda>m.
               let k = upd_cur p (\<lambda>x. x\<lparr>psz := PGSIZE\<rparr>) (set_kmem m k);
                   k = tf_set p TF_sp PGSIZE (tf_set p TF_epc 0 k)
               in ebind (namei 0 [slash] (kfs k)) (\<lambda>(s, d).
                    Inr (upd_cur p (\<lambda>x. x\<lparr>pname := ''initcode'', cwd := d, pstate := RUNNABLE\<rparr>) (k\<lparr>kfs := s\<rparr>)))))"

text \<open>The loop of \<^verbatim>\<open>fork\<close> over the descriptors.\<close>

fun fork_files :: "nat \<Rightarrow> nat \<Rightarrow> nat list \<Rightarrow> kern \<Rightarrow> kern res" where
  "fork_files p np [] k = Inr k"
| "fork_files p np (i # is) k =
    (case ofile (cur p k) i of
       None \<Rightarrow> fork_files p np is k
     | Some f \<Rightarrow> ebind (filedup f k) (\<lambda>k. fork_files p np is (set_ofile np i (Some f) k)))"

definition copy_trapframe :: "nat \<Rightarrow> nat \<Rightarrow> kern \<Rightarrow> kern" where
  "copy_trapframe p np k =
    set_kmem ((kmem k)\<lparr>phys :=
      write_bytes (phys (kmem k)) (trapframe (cur np k)) (read_bytes (phys (kmem k)) (trapframe (cur p k)) (unat TF_size))\<rparr>) k"

definition fork :: "ksyms \<Rightarrow> nat \<Rightarrow> kern \<Rightarrow> (kern \<times> int) res" where
  "fork ks p k =
    ebind (allocproc ks (ktbl k)) (\<lambda>(t, r).
      let k = k\<lparr>ktbl := t\<rparr>
      in case r of
           None \<Rightarrow> Inr (k, - 1)
         | Some np \<Rightarrow>
             ebind (uvmcopy (ksym_end ks) (kmem k) (pagetable (cur p k)) (pagetable (cur np k)) (psz (cur p k)))
               (\<lambda>(m, r).
                 let k = set_kmem m k
                 in if r < 0 then ebind (freeproc ks np (ktbl k)) (\<lambda>t. Inr (k\<lparr>ktbl := t\<rparr>, - 1))
                    else
                      let k = upd_cur np (\<lambda>x. x\<lparr>psz := psz (cur p k)\<rparr>) k;
                          k = tf_set np TF_a0 0 (copy_trapframe p np k)
                      in ebind (fork_files p np [0..<NOFILE] k) (\<lambda>k.
                           case cwd (cur p k) of
                             None \<Rightarrow> Inl (Panic ''kerneltrap'')
                           | Some d \<Rightarrow>
                               let k = k\<lparr>kfs := idup d (kfs k)\<rparr>
                               in Inr (upd_cur np (\<lambda>x. x\<lparr>cwd := Some d, pname := take 15 (pname (cur p k)),
                                    parent := Some p, pstate := RUNNABLE\<rparr>) k, sint (pid (cur np k))))))"

text \<open>
  \<^verbatim>\<open>exit\<close>: the loop over the descriptors, which may sleep in \<^verbatim>\<open>fileclose\<close> and then goes on with the next descriptor; the
  current directory; the part under \<^verbatim>\<open>wait_lock\<close>. The process does not run again after it.
\<close>

fun exit_files :: "ksyms \<Rightarrow> nat \<Rightarrow> nat list \<Rightarrow> kern \<Rightarrow> (kern \<times> unit progress) res" where
  "exit_files ks me [] k = Inr (k, Return ())"
| "exit_files ks me (fd # fds) k =
    (case ofile (cur me k) fd of
       None \<Rightarrow> exit_files ks me fds k
     | Some f \<Rightarrow>
         ebind (fileclose ks me f k) (\<lambda>(k, r).
           case r of
             Sleeps ch \<Rightarrow> Inr (k, Sleeps ch)
           | Return _ \<Rightarrow> exit_files ks me fds (set_ofile me fd None k)))"

definition exit_rest :: "nat \<Rightarrow> u32 \<Rightarrow> kern \<Rightarrow> kern res" where
  "exit_rest me status k =
    (case cwd (cur me k) of
       None \<Rightarrow> Inl (Panic ''kerneltrap'')
     | Some d \<Rightarrow>
         ebind (run_fs me (\<lambda>s. ebind (begin_op s) (\<lambda>s. ebind (iput d s) end_op)) k) (\<lambda>k.
           let k = upd_cur me (\<lambda>x. x\<lparr>cwd := None\<rparr>) k
           in Inr (k\<lparr>ktbl := exit_zombie me status (ktbl k)\<rparr>)))"

definition exit :: "ksyms \<Rightarrow> nat \<Rightarrow> u32 \<Rightarrow> kern \<Rightarrow> (kern \<times> unit progress) res" where
  "exit ks me status k =
    (if initproc (ktbl k) = Some me then Inl (Panic ''init exiting'')
     else
       ebind (exit_files ks me [0..<NOFILE] k) (\<lambda>(k, r).
         case r of
           Sleeps ch \<Rightarrow> Inr (k, Sleeps ch)
         | Return _ \<Rightarrow> ebind (exit_rest me status k) (\<lambda>k. Inr (k, Return ()))))"

end
