(* ===== verification/Exec.thy ===== *)
theory Exec
  imports Proc_Life
begin

text \<open>
  \<^verbatim>\<open>kernel/exec.c\<close> and \<^verbatim>\<open>sys_exec\<close> of \<^verbatim>\<open>kernel/sysfile.c\<close>. The headers of the file are read into variables of the kernel,
  the segments into the pages of the new page table. \<open>argv\<close> is the list of the pages with the argument strings.
\<close>

definition ELF_MAGIC :: u32 where "ELF_MAGIC = 0x464C457F"
definition ELF_PROG_LOAD :: u32 where "ELF_PROG_LOAD = 1"

section \<open>Headers\<close>

record elfhdr =
  elf_magic :: u32
  elf_entry :: u32
  elf_phoff :: u32
  elf_phnum :: nat

definition ELFHDR_SIZE :: nat where "ELFHDR_SIZE = 52"

definition get_elfhdr :: "u8 list \<Rightarrow> elfhdr" where
  "get_elfhdr bs = \<lparr>elf_magic = get32 bs 0, elf_entry = get32 bs 24, elf_phoff = get32 bs 28,
     elf_phnum = unat (bs ! 44) + 256 * unat (bs ! 45)\<rparr>"

record proghdr =
  ph_type :: u32
  ph_off :: u32
  ph_vaddr :: u32
  ph_filesz :: u32
  ph_memsz :: u32

definition PROGHDR_SIZE :: nat where "PROGHDR_SIZE = 28"

definition get_proghdr :: "u8 list \<Rightarrow> proghdr" where
  "get_proghdr bs = \<lparr>ph_type = get32 bs 0, ph_off = get32 bs 4, ph_vaddr = get32 bs 8, ph_filesz = get32 bs 16,
     ph_memsz = get32 bs 20\<rparr>"

section \<open>Loading\<close>

definition to_kernel :: "u32 \<Rightarrow> kstate copier" where
  "to_kernel pa off bs m = either_copyout 0 m (Kernel (pa + of_nat off)) bs"

text \<open>
  \<open>i\<close> counts by pages, so that a loop of more than \<open>2 ^ 20\<close> rounds has wrapped around and goes through the same values again.
\<close>

fun loadseg_loop :: "nat \<Rightarrow> u32 \<Rightarrow> u32 \<Rightarrow> nat \<Rightarrow> u32 \<Rightarrow> u32 \<Rightarrow> u32 \<Rightarrow> kstate \<Rightarrow> fsys \<Rightarrow> (kstate \<times> fsys \<times> int) res" where
  "loadseg_loop 0 pt va ip offset sz i m s = Inl Diverges"
| "loadseg_loop (Suc fuel) pt va ip offset sz i m s =
    (if i < sz
     then
       ebind (walkaddr m pt (va + i)) (\<lambda>pa.
         if pa = 0 then Inl (Panic ''loadseg: address should exist'')
         else
           let n = (if sz - i < PGSIZE then sz - i else PGSIZE)
           in ebind (readi (to_kernel pa) ip (offset + i) n m s) (\<lambda>(m, s, r).
                if r \<noteq> uint n then Inr (m, s, - 1) else loadseg_loop fuel pt va ip offset sz (i + PGSIZE) m s))
     else Inr (m, s, 0))"

definition loadseg :: "u32 \<Rightarrow> u32 \<Rightarrow> nat \<Rightarrow> u32 \<Rightarrow> u32 \<Rightarrow> kstate \<Rightarrow> fsys \<Rightarrow> (kstate \<times> fsys \<times> int) res" where
  "loadseg pt va ip offset sz m s =
    (if va mod PGSIZE \<noteq> 0 then Inl (Panic ''loadseg: va must be page aligned'')
     else loadseg_loop (2 ^ 20 + 1) pt va ip offset sz 0 m s)"

text \<open>
  The loop over the program headers. The result is the size so far and whether all went well. \<^verbatim>\<open>readi\<close> fills the
  header from the front; a short read fails.
\<close>

fun exec_load :: "ksyms \<Rightarrow> u32 \<Rightarrow> nat \<Rightarrow> u32 \<Rightarrow> nat \<Rightarrow> u32 \<Rightarrow> kstate \<Rightarrow> fsys \<Rightarrow> (kstate \<times> fsys \<times> u32 \<times> bool) res" where
  "exec_load ks pt ip off 0 sz m s = Inr (m, s, sz, True)"
| "exec_load ks pt ip off (Suc n) sz m s =
    ebind (readi to_local ip off (of_nat PROGHDR_SIZE) [] s) (\<lambda>(bs, s, r).
      let ph = get_proghdr bs; next = off + of_nat PROGHDR_SIZE
      in if r \<noteq> int PROGHDR_SIZE then Inr (m, s, sz, False)
         else if ph_type ph \<noteq> ELF_PROG_LOAD then exec_load ks pt ip next n sz m s
         else if ph_memsz ph < ph_filesz ph then Inr (m, s, sz, False)
         else if ph_vaddr ph + ph_memsz ph < ph_vaddr ph then Inr (m, s, sz, False)
         else
           ebind (uvmalloc (ksym_end ks) m pt sz (ph_vaddr ph + ph_memsz ph)) (\<lambda>(m, sz1).
             if sz1 = 0 then Inr (m, s, sz, False)
             else if ph_vaddr ph mod PGSIZE \<noteq> 0 then Inr (m, s, sz1, False)
             else
               ebind (loadseg pt (ph_vaddr ph) ip (ph_off ph) (ph_filesz ph) m s) (\<lambda>(m, s, r).
                 if r < 0 then Inr (m, s, sz1, False) else exec_load ks pt ip next n sz1 m s)))"

section \<open>The stack\<close>

text \<open>
  The argument strings, pushed from the top of the stack downwards; the result is the stack pointer and the addresses,
  or \<^term>\<open>None\<close> for the failures.
\<close>

definition align16 :: "u32 \<Rightarrow> u32" where "align16 a = a - a mod 16"

fun push_args ::
  "u32 \<Rightarrow> u32 \<Rightarrow> nat \<Rightarrow> u32 list \<Rightarrow> u32 \<Rightarrow> u32 list \<Rightarrow> kstate \<Rightarrow> (kstate \<times> (u32 \<times> u32 list) option) res" where
  "push_args pt stackbase argc [] usp ustack m = Inr (m, Some (usp, ustack))"
| "push_args pt stackbase argc (a # argv) usp ustack m =
    (if argc \<ge> MAXARG then Inr (m, None)
     else
       case strlen (phys m) a of
         None \<Rightarrow> Inl Diverges
       | Some n \<Rightarrow>
           let usp = align16 (usp - (n + 1))
           in if usp < stackbase then Inr (m, None)
              else
                ebind (copyout_buf m pt usp (read_bytes (phys m) a (unat (n + 1)))) (\<lambda>(m, r).
                  if r < 0 then Inr (m, None)
                  else push_args pt stackbase (Suc argc) argv usp (ustack @ [usp]) m))"

definition push_argv :: "u32 \<Rightarrow> u32 \<Rightarrow> u32 list \<Rightarrow> u32 \<Rightarrow> kstate \<Rightarrow> (kstate \<times> (u32 \<times> nat) option) res" where
  "push_argv pt stackbase argv usp m =
    ebind (push_args pt stackbase 0 argv usp [] m) (\<lambda>(m, r).
      case r of
        None \<Rightarrow> Inr (m, None)
      | Some (usp, ustack) \<Rightarrow>
          let argc = length ustack;
              usp = align16 (usp - of_nat ((argc + 1) * 4))
          in if usp < stackbase then Inr (m, None)
             else
               ebind (copyout_buf m pt usp (concat (map put32 (ustack @ [0])))) (\<lambda>(m, r).
                 if r < 0 then Inr (m, None) else Inr (m, Some (usp, argc))))"

section \<open>exec\<close>

definition exec_bad :: "ksyms \<Rightarrow> nat \<Rightarrow> u32 \<Rightarrow> u32 \<Rightarrow> nat option \<Rightarrow> kern \<Rightarrow> (kern \<times> int) res" where
  "exec_bad ks me pt sz ip k =
    ebind (if pt \<noteq> 0 then proc_freepagetable ks (kmem k) pt sz else Inr (kmem k)) (\<lambda>m.
    ebind (case ip of None \<Rightarrow> Inr (kfs k) | Some ip \<Rightarrow> ebind (iunlockput ip (fs_of me k)) end_op) (\<lambda>s.
    Inr (set_kmem m (k\<lparr>kfs := s\<rparr>), - 1)))"

text \<open>What follows the last slash of the path, cut to the 16 bytes of the name.\<close>

definition base_name :: "u8 list \<Rightarrow> string" where
  "base_name path = map (\<lambda>b. char_of (unat b)) (take 15 (rev (takeWhile (\<lambda>c. c \<noteq> slash) (rev path))))"

definition TF_a1 :: u32 where "TF_a1 = 60"

definition exec_commit :: "ksyms \<Rightarrow> nat \<Rightarrow> u8 list \<Rightarrow> u32 \<Rightarrow> u32 \<Rightarrow> u32 \<Rightarrow> u32 \<Rightarrow> kern \<Rightarrow> kern res" where
  "exec_commit ks me path pt sz pc usp k =
    (let oldpt = pagetable (cur me k); oldsz = psz (cur me k);
         k = tf_set me TF_a1 usp k;
         k = upd_cur me (\<lambda>p. p\<lparr>pname := base_name path, pagetable := pt, psz := sz\<rparr>) k;
         k = tf_set me TF_sp usp (tf_set me TF_epc pc k)
     in ebind (proc_freepagetable ks (kmem k) oldpt oldsz) (\<lambda>m. Inr (set_kmem m k)))"

definition exec_stack :: "ksyms \<Rightarrow> nat \<Rightarrow> u8 list \<Rightarrow> u32 list \<Rightarrow> u32 \<Rightarrow> u32 \<Rightarrow> u32 \<Rightarrow> kern \<Rightarrow> (kern \<times> int) res" where
  "exec_stack ks me path argv pt sz pc k =
    (let sz = PGROUNDUP sz
     in ebind (uvmalloc (ksym_end ks) (kmem k) pt sz (sz + 2 * PGSIZE)) (\<lambda>(m, sz1).
          if sz1 = 0 then exec_bad ks me pt sz None (set_kmem m k)
          else
            ebind (uvmclear m pt (sz1 - 2 * PGSIZE)) (\<lambda>m.
            ebind (push_argv pt (sz1 - PGSIZE) argv sz1 m) (\<lambda>(m, r).
              case r of
                None \<Rightarrow> exec_bad ks me pt sz1 None (set_kmem m k)
              | Some (usp, argc) \<Rightarrow>
                  ebind (exec_commit ks me path pt sz1 pc usp (set_kmem m k)) (\<lambda>k. Inr (k, int argc))))))"

definition exec_image :: "ksyms \<Rightarrow> nat \<Rightarrow> u8 list \<Rightarrow> u32 list \<Rightarrow> nat \<Rightarrow> elfhdr \<Rightarrow> kern \<Rightarrow> (kern \<times> int) res" where
  "exec_image ks me path argv ip elf k =
    ebind (proc_pagetable ks (kmem k) (trapframe (cur me k))) (\<lambda>(m, pt).
      let k = set_kmem m k
      in if pt = 0 then exec_bad ks me 0 0 (Some ip) k
         else
           ebind (exec_load ks pt ip (elf_phoff elf) (elf_phnum elf) 0 m (fs_of me k)) (\<lambda>(m, s, sz, ok).
             let k = set_kmem m (k\<lparr>kfs := s\<rparr>)
             in if \<not> ok then exec_bad ks me pt sz (Some ip) k
                else
                  ebind (run_fs me (\<lambda>s. ebind (iunlockput ip s) end_op) k) (\<lambda>k.
                  exec_stack ks me path argv pt sz (elf_entry elf) k)))"

definition exec :: "ksyms \<Rightarrow> nat \<Rightarrow> u8 list \<Rightarrow> u32 list \<Rightarrow> kern \<Rightarrow> (kern \<times> int) res" where
  "exec ks me path argv k =
    ebind (begin_op (fs_of me k)) (\<lambda>s.
    ebind (namei_of (cur me k) path s) (\<lambda>(s, r).
      case r of
        None \<Rightarrow> ebind (end_op s) (\<lambda>s. Inr (k\<lparr>kfs := s\<rparr>, - 1))
      | Some ip \<Rightarrow>
          ebind (ilock ip s) (\<lambda>s.
          ebind (readi to_local ip 0 (of_nat ELFHDR_SIZE) [] s) (\<lambda>(bs, s, r).
            let k = k\<lparr>kfs := s\<rparr>; elf = get_elfhdr bs
            in if r \<noteq> int ELFHDR_SIZE \<or> elf_magic elf \<noteq> ELF_MAGIC then exec_bad ks me 0 0 (Some ip) k
               else exec_image ks me path argv ip elf k))))"

section \<open>sys\_exec\<close>

fun free_args :: "ksyms \<Rightarrow> u32 list \<Rightarrow> kern \<Rightarrow> kern res" where
  "free_args ks [] k = Inr k"
| "free_args ks (a # argv) k =
    ebind (kfree (ksym_end ks) (kmem k) a) (\<lambda>m. free_args ks argv (set_kmem m k))"

text \<open>The loop that fetches the arguments, with \<open>n\<close> entries of the array left; the list is that of the pages allocated.\<close>

fun fetch_args :: "nat \<Rightarrow> nat \<Rightarrow> u32 \<Rightarrow> u32 list \<Rightarrow> kern \<Rightarrow> (kern \<times> u32 list \<times> bool) res" where
  "fetch_args 0 me uargv argv k = Inr (k, argv, False)"
| "fetch_args (Suc n) me uargv argv k =
    ebind (fetchaddr me uargv k) (\<lambda>r.
      case r of
        None \<Rightarrow> Inr (k, argv, False)
      | Some uarg \<Rightarrow>
          if uarg = 0 then Inr (k, argv, True)
          else
            let (m, a) = kalloc (kmem k); k = set_kmem m k
            in if a = 0 then Inr (k, argv, False)
               else
                 ebind (fetchstr_at me uarg a PGSIZE k) (\<lambda>(k, r).
                   if r < 0 then Inr (k, argv @ [a], False)
                   else fetch_args n me (uargv + 4) (argv @ [a]) k))"

definition sys_exec :: "ksyms \<Rightarrow> nat \<Rightarrow> kern \<Rightarrow> sysres" where
  "sys_exec ks me k =
    ebind (argstr 0 MAXPATH me k) (\<lambda>(path, r).
      if r < 0 then ret k (- 1)
      else
        ebind (argaddr 1 me k) (\<lambda>uargv.
        ebind (fetch_args MAXARG me uargv [] k) (\<lambda>(k, argv, ok).
          if \<not> ok then ebind (free_args ks argv k) (\<lambda>k. ret k (- 1))
          else
            ebind (exec ks me path argv k) (\<lambda>(k, r).
            ebind (free_args ks argv k) (\<lambda>k. ret k r)))))"

end
