(* ===== verification/Sysproc.thy ===== *)
theory Sysproc
  imports Exec
begin

text \<open>
  \<^verbatim>\<open>kernel/sysproc.c\<close> and the dispatch of system calls in \<^verbatim>\<open>kernel/syscall.c\<close>.
\<close>

section \<open>System calls on processes\<close>

definition sys_exit :: "ksyms \<Rightarrow> nat \<Rightarrow> kern \<Rightarrow> (kern \<times> unit progress) res" where
  "sys_exit ks me k = ebind (argint 0 me k) (\<lambda>n. exit ks me (word_of_int n) k)"

definition sys_getpid :: "nat \<Rightarrow> kern \<Rightarrow> sysres" where
  "sys_getpid me k = Inr (k, Return (pid (cur me k)))"

definition sys_fork :: "ksyms \<Rightarrow> nat \<Rightarrow> kern \<Rightarrow> sysres" where
  "sys_fork ks me k = ebind (fork ks me k) (\<lambda>(k, r). ret k r)"

definition sys_wait :: "ksyms \<Rightarrow> nat \<Rightarrow> kern \<Rightarrow> sysres" where
  "sys_wait ks me k =
    ebind (argaddr 0 me k) (\<lambda>p.
    ebind (wait ks me p (ktbl k)) (\<lambda>(t, r). Inr (k\<lparr>ktbl := t\<rparr>, r)))"

definition sys_sbrk :: "ksyms \<Rightarrow> nat \<Rightarrow> kern \<Rightarrow> sysres" where
  "sys_sbrk ks me k =
    ebind (argint 0 me k) (\<lambda>n.
      let addr = psz (cur me k)
      in ebind (growproc ks me (word_of_int n) (ktbl k)) (\<lambda>(t, r).
           if r < 0 then ret (k\<lparr>ktbl := t\<rparr>) (- 1) else Inr (k\<lparr>ktbl := t\<rparr>, Return addr)))"

text \<open>One round of the loop of \<^verbatim>\<open>sys_sleep\<close>: the comparison is unsigned.\<close>

definition sleep_round :: "nat \<Rightarrow> u32 \<Rightarrow> u32 \<Rightarrow> kern \<Rightarrow> sysres" where
  "sleep_round me n ticks0 k =
    (if ticks k - ticks0 < n
     then
       if killed (cur me k) then ret k (- 1)
       else Inr (k\<lparr>ktbl := sleep_on me ChTicks (ktbl k)\<rparr>, Sleeps ChTicks)
     else ret k 0)"

definition sys_sleep :: "nat \<Rightarrow> kern \<Rightarrow> sysres" where
  "sys_sleep me k = ebind (argint 0 me k) (\<lambda>n. sleep_round me (word_of_int n) (ticks k) k)"

definition sys_sleep_woken :: "nat \<Rightarrow> u32 \<Rightarrow> u32 \<Rightarrow> kern \<Rightarrow> sysres" where
  "sys_sleep_woken me n ticks0 k = sleep_round me n ticks0 (k\<lparr>ktbl := sleep_done me (ktbl k)\<rparr>)"

definition sys_kill :: "nat \<Rightarrow> kern \<Rightarrow> sysres" where
  "sys_kill me k =
    ebind (argint 0 me k) (\<lambda>n. let (t, r) = kill (word_of_int n) (ktbl k) in ret (k\<lparr>ktbl := t\<rparr>) r)"

definition sys_uptime :: "nat \<Rightarrow> kern \<Rightarrow> sysres" where
  "sys_uptime me k = Inr (k, Return (ticks k))"

section \<open>Dispatch\<close>

text \<open>
  The table of system calls; \<^verbatim>\<open>sys_exit\<close>, which does not return, has the number 2. A call returns to its process, or
  leaves it asleep, or the process is gone.
\<close>

definition syscalls :: "ksyms \<Rightarrow> (nat \<Rightarrow> nat) \<Rightarrow> int \<Rightarrow> (nat \<Rightarrow> kern \<Rightarrow> sysres) option" where
  "syscalls ks room = map_of
    [(1, sys_fork ks), (3, sys_wait ks), (4, sys_pipe ks), (5, sys_read ks), (6, sys_kill), (7, sys_exec ks),
     (8, sys_fstat), (9, sys_chdir), (10, sys_dup), (11, sys_getpid), (12, sys_sbrk ks), (13, sys_sleep),
     (14, sys_uptime), (15, sys_open ks), (16, sys_write ks room), (17, sys_mknod), (18, sys_unlink),
     (19, sys_link), (20, sys_mkdir), (21, sys_close ks), (22, sys_connect ks)]"

definition SYS_exit :: int where "SYS_exit = 2"

datatype sysout = Back | Asleep chan | Gone

definition syscall :: "ksyms \<Rightarrow> (nat \<Rightarrow> nat) \<Rightarrow> nat \<Rightarrow> kern \<Rightarrow> (kern \<times> sysout) res" where
  "syscall ks room me k =
    (let num = sint (tf_get me TF_a7 k)
     in if num = SYS_exit
        then ebind (sys_exit ks me k) (\<lambda>(k, r).
          Inr (k, case r of Return _ \<Rightarrow> Gone | Sleeps ch \<Rightarrow> Asleep ch))
        else
          case syscalls ks room num of
            None \<Rightarrow> Inr (tf_set me TF_a0 (- 1) k, Back)
          | Some f \<Rightarrow>
              ebind (f me k) (\<lambda>(k, r).
                case r of
                  Return x \<Rightarrow> Inr (tf_set me TF_a0 x k, Back)
                | Sleeps ch \<Rightarrow> Inr (k, Asleep ch)))"

end
