(* ===== verification/File_Refs.thy ===== *)
theory File_Refs
  imports Frame Sysproc
begin

text \<open>
  The reference counts of files. \<open>fd_bal b X\<close> says that the count of every file is the number of descriptors that refer
  to it plus \<open>b\<close>, the references that the running code holds in its variables; that the descriptors refer to files of the
  table, which have a type unless they are in \<open>X\<close>; and that a process that is unused or a zombie has no descriptors. No
  system call leaves a reference behind.
\<close>

section \<open>The balance of references\<close>

definition fd_refs :: "ptable \<Rightarrow> nat \<Rightarrow> (nat \<times> nat) set" where
  "fd_refs t i = {(p, fd). p < NPROC \<and> fd < NOFILE \<and> ofile (procs t p) fd = Some i}"

definition idle :: "proc \<Rightarrow> bool" where
  "idle p \<longleftrightarrow> pstate p = UNUSED \<or> pstate p = ZOMBIE"

definition fd_bal :: "(nat \<Rightarrow> int) \<Rightarrow> nat set \<Rightarrow> ptable \<Rightarrow> (nat \<Rightarrow> kfile) \<Rightarrow> bool" where
  "fd_bal b X t fs \<longleftrightarrow>
    (\<forall>i < NFILE. f_ref (fs i) = int (card (fd_refs t i)) + b i) \<and>
    (\<forall>p < NPROC. \<forall>fd < NOFILE. \<forall>i. ofile (procs t p) fd = Some i \<longrightarrow>
      i < NFILE \<and> (i \<in> X \<or> f_type (fs i) \<noteq> FD_NONE)) \<and>
    (\<forall>p < NPROC. \<forall>fd < NOFILE. idle (procs t p) \<longrightarrow> ofile (procs t p) fd = None)"

text \<open>Between system calls nothing is held.\<close>

definition fd_ok :: "kern \<Rightarrow> bool" where
  "fd_ok k \<longleftrightarrow> fd_bal (\<lambda>_. 0) {} (ktbl k) (files k)"

lemma bal_zero [simp]: "(\<lambda>_. 0)(f := 0) = (\<lambda>_. 0 :: int)"
  by auto

lemma fd_refs_finite [simp]: "finite (fd_refs t i)"
  by (rule finite_subset [of _ "{..<NPROC} \<times> {..<NOFILE}"]) (auto simp: fd_refs_def)

lemma fd_bal_cong:
  assumes "fd_bal b X t fs" "\<And>p. p < NPROC \<Longrightarrow> ofile (procs t' p) = ofile (procs t p)"
    "\<And>p. p < NPROC \<Longrightarrow> idle (procs t' p) \<Longrightarrow> idle (procs t p)"
  shows "fd_bal b X t' fs"
proof -
  have "fd_refs t' i = fd_refs t i" for i using assms(2) by (auto simp: fd_refs_def)
  then show ?thesis using assms unfolding fd_bal_def by auto
qed

lemma fd_bal_upd:
  assumes "fd_bal b X t fs" "ofile (f (procs t i)) = ofile (procs t i)" "idle (f (procs t i)) \<Longrightarrow> idle (procs t i)"
  shows "fd_bal b X (upd_proc i f t) fs"
  using assms(1) by (rule fd_bal_cong) (use assms in \<open>auto simp: upd_proc_def split: if_splits\<close>)

text \<open>What stable operations leave of the descriptors.\<close>

definition fds_kept :: "ptable \<Rightarrow> ptable \<Rightarrow> bool" where
  "fds_kept t t' \<longleftrightarrow> (\<forall>p. ofile (procs t' p) = ofile (procs t p) \<and> (idle (procs t' p) \<longrightarrow> idle (procs t p)))"

interpretation fk: table_frame "fds_kept t" for t
  by unfold_locales (auto simp: fds_kept_def wakeup_def sleep_on_def upd_proc_def Let_def idle_def split: if_splits)

lemma fds_kept_refl [simp]: "fds_kept t t"
  by (simp add: fds_kept_def)

lemma fds_kept_trans [trans]: "fds_kept t t' \<Longrightarrow> fds_kept t' t'' \<Longrightarrow> fds_kept t t''"
  by (simp add: fds_kept_def)

lemma fd_bal_kept: "fd_bal b X t fs \<Longrightarrow> fds_kept t t' \<Longrightarrow> fd_bal b X t' fs"
  by (erule fd_bal_cong) (auto simp: fds_kept_def)

text \<open>The table with one descriptor cleared.\<close>

definition clear_fd :: "nat \<Rightarrow> nat \<Rightarrow> ptable \<Rightarrow> ptable" where
  "clear_fd me fd t = upd_proc me (\<lambda>p. p\<lparr>ofile := (ofile p)(fd := None)\<rparr>) t"

lemma clear_fd_kept: "fds_kept t t' \<Longrightarrow> fds_kept (clear_fd me fd t) (clear_fd me fd t')"
  by (auto simp: fds_kept_def clear_fd_def upd_proc_def idle_def)

lemma fd_bal_same_refs: "fd_bal b X t fs \<Longrightarrow> same_refs fs fs' \<Longrightarrow> fd_bal b X t fs'"
  by (auto simp: fd_bal_def same_refs_def)

lemma fd_bal_mono: "fd_bal b X t fs \<Longrightarrow> X \<subseteq> Y \<Longrightarrow> fd_bal b Y t fs"
  unfolding fd_bal_def by blast

lemma fd_bal_type:
  assumes "fd_bal b (insert i X) t fs" "f_ref (g (fs i)) = f_ref (fs i)" "f_type (g (fs i)) \<noteq> FD_NONE"
  shows "fd_bal b X t (fs(i := g (fs i)))"
  using assms unfolding fd_bal_def by auto

section \<open>Files\<close>

lemma filealloc_bal:
  assumes "fd_bal b X (ktbl k) (files k)" "filealloc k = (k', Some i)" "\<forall>j. 0 \<le> b j"
  shows "fd_bal (b(i := 1)) X (ktbl k') (files k')" "i < NFILE" "fd_refs (ktbl k') i = {}" "b i = 0" "ktbl k' = ktbl k"
proof -
  have i: "i < NFILE" "f_ref (files k i) = 0" and k': "k' = upd_file i (\<lambda>f. f\<lparr>f_ref := 1\<rparr>) k"
    using assms(2) by (auto simp: filealloc_def find_Some_iff split: option.splits)
  have "int (card (fd_refs (ktbl k) i)) + b i = 0" using assms(1) i by (simp add: fd_bal_def)
  moreover have "0 \<le> b i" using assms(3) by simp
  ultimately have z: "card (fd_refs (ktbl k) i) = 0" "b i = 0" by linarith+
  show "i < NFILE" "fd_refs (ktbl k') i = {}" "b i = 0" "ktbl k' = ktbl k" using i z k' by auto
  show "fd_bal (b(i := 1)) X (ktbl k') (files k')"
    using assms(1) z k' unfolding fd_bal_def by auto
qed

lemma filealloc_none: "filealloc k = (k', None) \<Longrightarrow> k' = k"
  by (auto simp: filealloc_def split: option.splits)

lemma fd_refs_set:
  assumes "me < NPROC" "fd < NOFILE" "ofile (procs t me) fd = None"
  shows "fd_refs (upd_proc me (\<lambda>p. p\<lparr>ofile := (ofile p)(fd := Some f)\<rparr>) t) i =
    (if i = f then insert (me, fd) (fd_refs t f) else fd_refs t i)" "(me, fd) \<notin> fd_refs t i"
  using assms by (auto simp: fd_refs_def upd_proc_def split: if_splits)

lemma set_ofile_bal:
  assumes "fd_bal b X (ktbl k) (files k)" "me < NPROC" "fd < NOFILE" "ofile (cur me k) fd = None"
    "\<not> idle (cur me k)" "f < NFILE" "f \<in> X \<or> f_type (files k f) \<noteq> FD_NONE"
  shows "fd_bal (b(f := b f - 1)) X (ktbl (set_ofile me fd (Some f) k)) (files (set_ofile me fd (Some f) k))"
proof -
  let ?t = "upd_proc me (\<lambda>p. p\<lparr>ofile := (ofile p)(fd := Some f)\<rparr>) (ktbl k)"
  have r: "fd_refs ?t i = (if i = f then insert (me, fd) (fd_refs (ktbl k) f) else fd_refs (ktbl k) i)" for i
    using fd_refs_set(1) assms by (simp add: cur_def)
  have "(me, fd) \<notin> fd_refs (ktbl k) f" using fd_refs_set(2) assms by (simp add: cur_def)
  then have "\<forall>i < NFILE. f_ref (files k i) = int (card (fd_refs ?t i)) + (b(f := b f - 1)) i"
    using assms(1) unfolding fd_bal_def by (auto simp: r)
  moreover have "\<forall>p < NPROC. \<forall>fd < NOFILE. \<forall>i. ofile (procs ?t p) fd = Some i \<longrightarrow>
      i < NFILE \<and> (i \<in> X \<or> f_type (files k i) \<noteq> FD_NONE)"
    "\<forall>p < NPROC. \<forall>fd < NOFILE. idle (procs ?t p) \<longrightarrow> ofile (procs ?t p) fd = None"
    using assms(1,5-7) unfolding fd_bal_def by (auto simp: upd_proc_def idle_def cur_def)
  ultimately have "fd_bal (b(f := b f - 1)) X ?t (files k)" by (simp add: fd_bal_def)
  then show ?thesis by (simp add: set_ofile_def upd_cur_def)
qed

lemma fdalloc_bal:
  assumes "fd_bal b X (ktbl k) (files k)" "fdalloc me f k = (k', Some fd)" "me < NPROC"
    "\<not> idle (cur me k)" "f < NFILE" "f \<in> X \<or> f_type (files k f) \<noteq> FD_NONE"
  shows "fd_bal (b(f := b f - 1)) X (ktbl k') (files k')" "files k' = files k" "\<not> idle (cur me k')"
    "fd < NOFILE" "ofile (cur me k') fd = Some f"
proof -
  have fd: "fd < NOFILE" "ofile (cur me k) fd = None" and k': "k' = set_ofile me fd (Some f) k"
    using assms(2) by (auto simp: fdalloc_def find_Some_iff split: option.splits)
  show "fd_bal (b(f := b f - 1)) X (ktbl k') (files k')"
    unfolding k' using assms fd by (intro set_ofile_bal) auto
  show "files k' = files k" "\<not> idle (cur me k')" "fd < NOFILE" "ofile (cur me k') fd = Some f"
    using assms(4) fd by (auto simp: k' set_ofile_def upd_cur_def cur_def upd_proc_def idle_def)
qed

lemma fdalloc_none: "fdalloc me f k = (k', None) \<Longrightarrow> k' = k"
  by (auto simp: fdalloc_def split: option.splits)

lemma clear_fd_bal:
  assumes "fd_bal b X t fs" "me < NPROC" "fd < NOFILE" "ofile (procs t me) fd = Some f"
  shows "fd_bal (b(f := b f + 1)) X (clear_fd me fd t) fs"
proof -
  let ?t = "clear_fd me fd t"
  have r: "fd_refs ?t i = (if i = f then fd_refs t f - {(me, fd)} else fd_refs t i)" for i
    using assms by (auto simp: fd_refs_def clear_fd_def upd_proc_def split: if_splits)
  have m: "(me, fd) \<in> fd_refs t f" using assms by (simp add: fd_refs_def)
  then have "card (fd_refs t f) > 0" by (auto simp: card_gt_0_iff)
  then have "int (card (fd_refs ?t f)) = int (card (fd_refs t f)) - 1"
    using m by (simp add: r card_Diff_singleton of_nat_diff)
  then have "\<forall>i < NFILE. f_ref (fs i) = int (card (fd_refs ?t i)) + (b(f := b f + 1)) i"
    using assms(1) unfolding fd_bal_def by (auto simp: r)
  moreover have "\<forall>p < NPROC. \<forall>fd < NOFILE. \<forall>i. ofile (procs ?t p) fd = Some i \<longrightarrow>
      i < NFILE \<and> (i \<in> X \<or> f_type (fs i) \<noteq> FD_NONE)"
    "\<forall>p < NPROC. \<forall>fd < NOFILE. idle (procs ?t p) \<longrightarrow> ofile (procs ?t p) fd = None"
    using assms(1) unfolding fd_bal_def by (auto simp: clear_fd_def upd_proc_def idle_def)
  ultimately show ?thesis by (simp add: fd_bal_def)
qed

lemma set_ofile_none: "ktbl (set_ofile me fd None k) = clear_fd me fd (ktbl k)" "files (set_ofile me fd None k) = files k"
  by (simp_all add: set_ofile_def upd_cur_def clear_fd_def)

lemma fd_bal_ref:
  assumes "fd_bal b X t fs" "f_type (g (fs i)) = f_type (fs i)"
  shows "fd_bal (b(i := b i + f_ref (g (fs i)) - f_ref (fs i))) X t (fs(i := g (fs i)))"
proof -
  have ty: "f_type ((fs(i := g (fs i))) j) = f_type (fs j)" for j using assms(2) by simp
  have "\<forall>j < NFILE. f_ref ((fs(i := g (fs i))) j) =
      int (card (fd_refs t j)) + (b(i := b i + f_ref (g (fs i)) - f_ref (fs i))) j"
    using assms(1) by (simp add: fd_bal_def)
  then show ?thesis using assms(1) unfolding fd_bal_def ty by blast
qed

lemma filedup_bal:
  assumes "fd_bal b X (ktbl k) (files k)" "filedup f k = Inr k'"
  shows "fd_bal (b(f := b f + 1)) X (ktbl k') (files k')" "ktbl k' = ktbl k"
  using fd_bal_ref [OF assms(1), of "\<lambda>x. x\<lparr>f_ref := f_ref x + 1\<rparr>" f] assms(2)
  by (auto simp: filedup_def split: if_splits)

lemma fd_bal_unused:
  assumes bal: "fd_bal b X t fs" and e: "fd_refs t i = {}" and r: "f_ref (g (fs i)) = f_ref (fs i)"
  shows "fd_bal b X t (fs(i := g (fs i)))"
proof -
  have "f_ref ((fs(i := g (fs i))) j) = f_ref (fs j)" for j using r by simp
  moreover have "f_type ((fs(i := g (fs i))) j) = f_type (fs j)"
    if "p < NPROC" "fd < NOFILE" "ofile (procs t p) fd = Some j" for p fd j
    using that e by (auto simp: fd_refs_def)
  ultimately show ?thesis using bal unfolding fd_bal_def by simp
qed

lemma close_ref_bal:
  assumes bal: "fd_bal b X t fs" and f: "f < NFILE" "1 \<le> b f"
  shows "fd_bal (b(f := b f - 1)) X t (close_ref f fs)"
proof (cases "f_ref (fs f) > 1")
  case True
  then show ?thesis using fd_bal_ref [OF bal, of "\<lambda>x. x\<lparr>f_ref := f_ref x - 1\<rparr>" f] by (simp add: close_ref_def)
next
  case False
  have "f_ref (fs f) = int (card (fd_refs t f)) + b f" using bal f by (simp add: fd_bal_def)
  then have "card (fd_refs t f) = 0" and b: "b f = f_ref (fs f)" using False f by linarith+
  then have e: "fd_refs t f = {}" by simp
  have "f_ref (fs f) = 1" using b f False by linarith
  then have "fd_bal (b(f := b f - 1)) X t (fs(f := (fs f)\<lparr>f_ref := 0\<rparr>))"
    using fd_bal_ref [OF bal, of "\<lambda>x. x\<lparr>f_ref := 0\<rparr>" f] by simp
  from fd_bal_unused [OF this e, of "\<lambda>x. x\<lparr>f_type := FD_NONE, f_ref := 0\<rparr>"] show ?thesis
    using False by (simp add: close_ref_def)
qed

lemma fileclose_bal:
  assumes "fd_bal b X (ktbl k) (files k)" "f < NFILE" "1 \<le> b f"
    "\<And>k' r. fd_bal (b(f := b f - 1)) X (ktbl k') (files k') \<Longrightarrow> fds_kept (ktbl k) (ktbl k') \<Longrightarrow> Q (k', r)"
  shows "ens (fileclose ks me f k) Q"
  by (rule fk.fileclose_frame [of "ktbl k"]) (auto intro!: assms(4) close_ref_bal assms fd_bal_kept [OF assms(1)])

section \<open>System calls\<close>

lemma argfd_ens:
  assumes "Q None" "\<And>fd f. fd < NOFILE \<Longrightarrow> ofile (cur me k) fd = Some f \<Longrightarrow> Q (Some (fd, f))"
  shows "ens (argfd n me k) Q"
  using assms by (auto simp: argfd_def intro!: ens_any split: option.splits)

lemma fd_ok_file:
  assumes "fd_ok k" "me < NPROC" "fd < NOFILE" "ofile (cur me k) fd = Some f"
  shows "f < NFILE" "f_type (files k f) \<noteq> FD_NONE"
  using assms unfolding fd_ok_def fd_bal_def cur_def by auto

lemma fd_ok_kept: "fd_ok k \<Longrightarrow> fds_kept (ktbl k) (ktbl k') \<Longrightarrow> same_refs (files k) (files k') \<Longrightarrow> fd_ok k'"
  unfolding fd_ok_def by (blast intro: fd_bal_kept fd_bal_same_refs)

lemma sys_dup_fd_ok:
  assumes ok: "fd_ok k" "me < NPROC" "\<not> idle (cur me k)"
  shows "ens (sys_dup me k) (\<lambda>(k', r). fd_ok k')"
  unfolding sys_dup_def ret_def ens_ebind
proof (rule argfd_ens, goal_cases)
  case (2 fd f)
  note f = fd_ok_file [OF ok(1,2) this]
  show ?case
  proof (cases "fdalloc me f k")
    case (Pair k1 r)
    have "fd_ok k'" if "r = Some fd'" "filedup f k1 = Inr k'" for fd' k'
    proof -
      have "fd_bal ((\<lambda>_. 0)(f := - 1)) {} (ktbl k1) (files k1)"
        using fdalloc_bal(1) [of "\<lambda>_. 0" "{}" k me f k1 fd'] ok f Pair that by (simp add: fd_ok_def)
      from filedup_bal [OF this that(2)] show ?thesis by (simp add: fd_ok_def)
    qed
    then show ?thesis using Pair ok(1) fdalloc_none [of me f k k1] by (auto simp: ens_def split: option.splits)
  qed
qed (use ok in simp)

lemma sys_close_fd_ok:
  assumes ok: "fd_ok k" "me < NPROC"
  shows "ens (sys_close ks me k) (\<lambda>(k', r). fd_ok k')"
  unfolding sys_close_def ret_def ens_ebind
proof (rule argfd_ens, goal_cases)
  case (2 fd f)
  note f = fd_ok_file [OF ok this]
  have "fd_bal ((\<lambda>_. 0)(f := 1)) {} (ktbl (set_ofile me fd None k)) (files (set_ofile me fd None k))"
    unfolding set_ofile_none using clear_fd_bal [of "\<lambda>_. 0" "{}" "ktbl k" "files k" me fd f] ok 2
    by (simp add: fd_ok_def cur_def)
  then show ?case
    by (auto intro!: fileclose_bal f(1) simp: fd_ok_def)
qed (use ok in simp)

lemma open_fail_fd_ok:
  assumes "fd_bal ((\<lambda>_. 0)(i := 1)) {} (ktbl k) (files k)" "i < NFILE"
  shows "ens (open_fail ks me ip (Some i) k) (\<lambda>(k', r). fd_ok k')"
  unfolding open_fail_def ret_def using assms
  by (auto intro!: fileclose_bal [OF assms] fk.run_fs_frame [OF fds_kept_refl] simp: fd_ok_def)

lemma fd_bal_open:
  assumes "fd_bal b {i} t fs"
  shows "fd_bal b {} t (fs(i := open_file ip om x (fs i)))"
  using fd_bal_type [of b i "{}" t fs "open_file ip om x"] assms by (simp add: open_file_def Let_def)

lemma open_fd_found:
  assumes ok: "fd_ok k" "me < NPROC" "\<not> idle (cur me k)" and a: "filealloc k = (k1, Some i)"
  shows "ens (open_fd ks me ip om k) (\<lambda>(k', r). fd_ok k')"
proof -
  note b = filealloc_bal [OF ok(1) [unfolded fd_ok_def] a, simplified]
  have idle: "\<not> idle (cur me k1)" using ok(3) b(5) by (simp add: cur_def)
  obtain k2 r where f: "fdalloc me i k1 = (k2, r)" by fastforce
  show ?thesis
  proof (cases r)
    case None
    then show ?thesis using f fdalloc_none [of me i k1 k2] open_fail_fd_ok [OF b(1,2)] a by (simp add: open_fd_def)
  next
    case (Some fd)
    have "fd_bal ((\<lambda>_. 0)(i := 1)) {i} (ktbl k1) (files k1)" using b(1) by (rule fd_bal_mono) simp
    from fdalloc_bal(1) [OF this, of me i k2 fd] have "fd_bal (\<lambda>_. 0) {i} (ktbl k2) (files k2)"
      using f Some ok(2) idle b(2) by simp
    from fd_bal_open [OF this] have "fd_ok (upd_file i (open_file ip om (itable (kfs k) ip)) k2)" by (simp add: fd_ok_def)
    then show ?thesis using a f Some
      by (auto simp: open_fd_def ret_def fd_ok_def intro!: fk.run_fs_frame [OF fds_kept_refl])
  qed
qed

lemma open_fd_ok:
  assumes ok: "fd_ok k" "me < NPROC" "\<not> idle (cur me k)"
  shows "ens (open_fd ks me ip om k) (\<lambda>(k', r). fd_ok k')"
proof (cases "filealloc k")
  case (Pair k1 r)
  then show ?thesis using open_fd_found [OF ok] filealloc_none [of k k1] ok(1)
    by (cases r) (auto simp: open_fd_def open_fail_def ret_def fd_ok_def intro!: fk.run_fs_frame [OF fds_kept_refl])
qed

lemma fd_ok_kfs [simp]: "fd_ok (k\<lparr>kfs := s\<rparr>) = fd_ok k" "cur me (k\<lparr>kfs := s\<rparr>) = cur me k"
  by (simp_all add: fd_ok_def cur_def)

lemma ens_call: "(\<And>x. r = Inr x \<Longrightarrow> Q x) \<Longrightarrow> ens r Q"
  by (simp add: ens_def)

lemma sys_open_fd_ok:
  assumes ok: "fd_ok k" "me < NPROC" "\<not> idle (cur me k)"
  shows "ens (sys_open ks me k) (\<lambda>(k', r). fd_ok k')"
  unfolding sys_open_def ens_ebind ret_def ret_fs_def
  by (rule ens_any) (use ok in \<open>auto intro!: ens_any [where r = "argraw _ _ _"] ens_any [where r = "begin_op _"]
      ens_any [where r = "open_inode _ _ _ _"] open_fd_ok split: option.splits\<close>)

text \<open>Pipes.\<close>

lemma pipe_undo_fd_ok:
  assumes "fd_bal ((\<lambda>_. 0)(i := 1, j := 1)) {} (ktbl k) (files k)" "i < NFILE" "j < NFILE" "i \<noteq> j"
  shows "ens (pipe_undo ks me i j k) (\<lambda>(k', r). fd_ok k')"
  unfolding pipe_undo_def ret_def ens_ebind
proof (rule fileclose_bal [OF assms(1,2)], goal_cases)
  case (2 k' r)
  then have "fd_bal ((\<lambda>_. 0)(j := 1)) {} (ktbl k') (files k')" using assms(4) by (simp add: fun_upd_twist)
  then show ?case using assms(3) by (auto intro!: fileclose_bal simp: fd_ok_def)
qed (use assms in simp)

lemma pipe_bad_fd_ok:
  assumes "fd_bal ((\<lambda>_. 0)(i := 1, j := 1)) {} (ktbl k) (files k)" "i < NFILE" "j < NFILE" "i \<noteq> j"
  shows "ens (pipe_bad ks me (Some i) (Some j) k) (\<lambda>(k', r). fd_ok k' \<and> r = None \<and> fds_kept (ktbl k) (ktbl k'))"
  unfolding pipe_bad_def ens_ebind option.case
proof (rule fileclose_bal [OF assms(1,2)], goal_cases)
  case (2 k' r)
  then have "fd_bal ((\<lambda>_. 0)(j := 1)) {} (ktbl k') (files k')" using assms(4) by (simp add: fun_upd_twist)
  then show ?case using assms(3) 2(2) by (auto intro!: fileclose_bal simp: fd_ok_def dest: fds_kept_trans)
qed (use assms in simp)

lemma pipe_bad_one_fd_ok:
  assumes "fd_bal ((\<lambda>_. 0)(i := 1)) {} (ktbl k) (files k)" "i < NFILE"
  shows "ens (pipe_bad ks me (Some i) None k) (\<lambda>(k', r). fd_ok k' \<and> r = None \<and> fds_kept (ktbl k) (ktbl k'))"
  unfolding pipe_bad_def ens_ebind option.case
  by (rule fileclose_bal [OF assms]) (auto simp: fd_ok_def)

text \<open>\<^verbatim>\<open>pipealloc\<close> returns with a reference to each of the two files, or with none.\<close>

definition pipe_got :: "ptable \<Rightarrow> kern \<times> (nat \<times> nat) option \<Rightarrow> bool" where
  "pipe_got t = (\<lambda>(k, r). fds_kept t (ktbl k) \<and>
    (case r of
       None \<Rightarrow> fd_ok k
     | Some (i, j) \<Rightarrow> fd_bal ((\<lambda>_. 0)(i := 1, j := 1)) {} (ktbl k) (files k) \<and> i < NFILE \<and> j < NFILE \<and> i \<noteq> j \<and>
         f_type (files k i) \<noteq> FD_NONE \<and> f_type (files k j) \<noteq> FD_NONE))"

lemma pipealloc_fd_ok:
  assumes ok: "fd_ok k"
  shows "ens (pipealloc ks me k) (pipe_got (ktbl k))"
proof -
  obtain k1 f0 where a0: "filealloc k = (k1, f0)" by fastforce
  obtain k2 f1 where a1: "filealloc k1 = (k2, f1)" by fastforce
  obtain m pi where m: "kalloc (kmem k2) = (m, pi)" by fastforce
  show ?thesis
  proof (cases f0)
    case None
    then show ?thesis using a0 ok filealloc_none [of k k1] by (simp add: pipealloc_def pipe_bad_def pipe_got_def)
  next
    case (Some i)
    note b0 = filealloc_bal [OF ok [unfolded fd_ok_def] a0 [unfolded Some], simplified]
    show ?thesis
    proof (cases f1)
      case None
      then show ?thesis using Some a0 a1 filealloc_none [of k1 k2] pipe_bad_one_fd_ok [OF b0(1,2), of ks me] b0(5)
        by (auto simp: pipealloc_def pipe_got_def elim!: ens_weaken)
    next
      case (Some j)
      have "\<forall>x. 0 \<le> ((\<lambda>_. 0 :: int)(i := 1)) x" by simp
      note b1 = filealloc_bal [OF b0(1) a1 [unfolded Some] this]
      have ij: "i \<noteq> j" using b1(4) by (auto split: if_splits)
      let ?k = "set_kmem m k2"
      have t: "fds_kept (ktbl k) (ktbl ?k)" by (rule fk.set_kmem_frame) (simp add: b0(5) b1(5))
      have bal: "fd_bal ((\<lambda>_. 0)(i := 1, j := 1)) {} (ktbl ?k) (files ?k)"
        using fd_bal_kept [OF b1(1), of "ktbl ?k"] fk.set_kmem_frame [of "ktbl k2" k2 m] by (simp add: fun_upd_def)
      show ?thesis
      proof (cases "pi = 0")
        case True
        then show ?thesis
          using \<open>f0 = Some i\<close> Some a0 a1 m pipe_bad_fd_ok [OF bal b0(2) b1(2) ij, of ks me] t
          by (auto simp: pipealloc_def pipe_got_def elim!: ens_weaken dest: fds_kept_trans)
      next
        case False
        let ?g = "\<lambda>w x. x\<lparr>f_type := FD_PIPE, f_readable := \<not> w, f_writable := w, f_pipe := pi\<rparr>"
        have "fd_bal ((\<lambda>_. 0)(i := 1, j := 1)) {} (ktbl ?k) ((files ?k)(i := ?g False (files ?k i)))"
          by (rule fd_bal_type [of _ i "{}" _ _ "?g False"]) (use fd_bal_mono [OF bal] in auto)
        from fd_bal_type [of _ j "{}", OF fd_bal_mono [OF this], of "?g True"]
        have "fd_bal ((\<lambda>_. 0)(i := 1, j := 1)) {} (ktbl ?k)
            ((files ?k)(i := ?g False (files ?k i), j := ?g True (files ?k j)))" using ij by auto
        then show ?thesis using \<open>f0 = Some i\<close> Some a0 a1 m False ij b0(2) b1(2) t
          by (simp add: pipealloc_def pipe_got_def Let_def)
      qed
    qed
  qed
qed

lemma sys_pipe_fds:
  assumes got: "pipe_got t0 (k, Some (i, j))" and me: "me < NPROC" "\<not> idle (cur me k)"
    and f0: "fdalloc me i k = (k1, Some fd0)" and f1: "fdalloc me j k1 = (k2, Some fd1)"
  shows "fd_ok k2" "fd_bal ((\<lambda>_. 0)(i := 1, j := 1)) {} (ktbl (set_ofile me fd1 None (set_ofile me fd0 None (set_kmem m k2))))
    (files (set_ofile me fd1 None (set_ofile me fd0 None (set_kmem m k2))))"
proof -
  have g: "fd_bal ((\<lambda>_. 0)(i := 1, j := 1)) {} (ktbl k) (files k)" "i < NFILE" "j < NFILE" "i \<noteq> j"
    "f_type (files k i) \<noteq> FD_NONE" "f_type (files k j) \<noteq> FD_NONE"
    using got by (auto simp: pipe_got_def)
  note b0 = fdalloc_bal [OF g(1) f0 me g(2)]
  have "fd_bal ((\<lambda>_. 0)(j := 1)) {} (ktbl k1) (files k1)" using b0(1) g by (simp add: fun_upd_twist)
  note b1 = fdalloc_bal [OF this f1 me(1)]
  have idle: "\<not> idle (cur me k1)" using b0(3) g by simp
  show ok: "fd_ok k2" using b1(1) [OF idle g(3)] b0(2) g by (simp add: fd_ok_def)
  have o1: "fd1 < NOFILE" "ofile (cur me k2) fd1 = Some j" using b1(4,5) [OF idle g(3)] b0(2) g by auto
  have "fd0 < NOFILE" "ofile (cur me k1) fd0 = Some i" using b0(4,5) g by auto
  moreover have "ofile (cur me k1) fd1 = None" "k2 = set_ofile me fd1 (Some j) k1"
    using f1 by (auto simp: fdalloc_def find_Some_iff split: option.splits)
  ultimately have o0: "fd0 < NOFILE" "ofile (cur me k2) fd0 = Some i" "fd0 \<noteq> fd1"
    by (auto simp: set_ofile_def upd_cur_def cur_def upd_proc_def)
  have t: "fds_kept (ktbl k2) (ktbl (set_kmem m k2))" by (rule fk.set_kmem_frame) simp
  then have "fd_bal (\<lambda>_. 0) {} (ktbl (set_kmem m k2)) (files k2)" "ofile (procs (ktbl (set_kmem m k2)) me) fd0 = Some i"
    "ofile (procs (ktbl (set_kmem m k2)) me) fd1 = Some j"
    using ok fd_bal_kept o0 o1 by (auto simp: fd_ok_def fds_kept_def cur_def)
  note c = this
  have "fd_bal ((\<lambda>_. 0)(i := 1)) {} (clear_fd me fd0 (ktbl (set_kmem m k2))) (files k2)"
    using clear_fd_bal [OF c(1) me(1) o0(1) c(2)] by simp
  moreover have "ofile (procs (clear_fd me fd0 (ktbl (set_kmem m k2))) me) fd1 = Some j"
    using c(3) o0(3) by (simp add: clear_fd_def upd_proc_def)
  ultimately show "fd_bal ((\<lambda>_. 0)(i := 1, j := 1)) {} (ktbl (set_ofile me fd1 None (set_ofile me fd0 None (set_kmem m k2))))
    (files (set_ofile me fd1 None (set_ofile me fd0 None (set_kmem m k2))))"
    unfolding set_ofile_none using clear_fd_bal [OF _ me(1) o1(1)] g(4) by fastforce
qed

lemma pipe_fds_one:
  assumes got: "pipe_got t (k, Some (i, j))" and me: "me < NPROC" "\<not> idle (cur me k)"
    and f0: "fdalloc me i k = (k1, Some fd0)"
  shows "fd_bal ((\<lambda>_. 0)(i := 1, j := 1)) {} (ktbl (set_ofile me fd0 None k1)) (files (set_ofile me fd0 None k1))"
proof -
  have g: "fd_bal ((\<lambda>_. 0)(i := 1, j := 1)) {} (ktbl k) (files k)" "i < NFILE" "i \<noteq> j" "f_type (files k i) \<noteq> FD_NONE"
    using got by (auto simp: pipe_got_def)
  note b0 = fdalloc_bal [OF g(1) f0 me g(2)]
  have b: "fd_bal ((\<lambda>_. 0)(j := 1)) {} (ktbl k1) (files k1)" using b0(1) g by (simp add: fun_upd_twist)
  have "fd0 < NOFILE" "ofile (procs (ktbl k1) me) fd0 = Some i" using b0(4,5) g by (auto simp: cur_def)
  from clear_fd_bal [OF b me(1) this] show ?thesis
    using g(3) by (simp add: set_ofile_none fun_upd_twist)
qed

lemma pipe_fds_fd_ok:
  assumes got: "pipe_got t (k, Some (i, j))" and me: "me < NPROC" "\<not> idle (cur me k)"
  shows "ens (pipe_fds ks me fdarray i j k) (\<lambda>(k', r). fd_ok k')"
proof -
  have g: "fd_bal ((\<lambda>_. 0)(i := 1, j := 1)) {} (ktbl k) (files k)" "i < NFILE" "j < NFILE" "i \<noteq> j"
    using got by (auto simp: pipe_got_def)
  obtain k1 r0 where f0: "fdalloc me i k = (k1, r0)" by fastforce
  obtain k2 r1 where f1: "fdalloc me j k1 = (k2, r1)" by fastforce
  show ?thesis
  proof (cases r0)
    case None
    then show ?thesis using f0 fdalloc_none [of me i k k1] pipe_undo_fd_ok [OF g] by (simp add: pipe_fds_def)
  next
    case (Some fd0)
    note f0 = f0 [unfolded Some]
    show ?thesis
    proof (cases r1)
      case None
      then show ?thesis using f0 f1 fdalloc_none [of me j k1 k2] pipe_undo_fd_ok [OF pipe_fds_one [OF got me f0] g(2-4)]
        by (simp add: pipe_fds_def)
    next
      case (Some fd1)
      note s = sys_pipe_fds [OF got me f0 f1 [unfolded Some]]
      have "fd_ok (set_kmem m k2)" for m
        by (rule fd_ok_kept [OF s(1)]) (auto intro: fk.set_kmem_frame)
      then show ?thesis using f0 f1 Some pipe_undo_fd_ok [OF s(2) g(2-4)]
        by (auto simp: pipe_fds_def Let_def ret_def intro!: ens_copyout)
    qed
  qed
qed

lemma sys_pipe_fd_ok:
  assumes ok: "fd_ok k" and me: "me < NPROC" "\<not> idle (cur me k)"
  shows "ens (sys_pipe ks me k) (\<lambda>(k', r). fd_ok k')"
  unfolding sys_pipe_def ens_ebind
proof (intro ens_any [where r = "argaddr _ _ _"] ens_weaken [OF pipealloc_fd_ok [OF ok]], goal_cases)
  case (1 a x)
  obtain k1 r where x: "x = (k1, r)" by fastforce
  have "\<not> idle (cur me k1)" using 1 me(2) by (auto simp: x pipe_got_def fds_kept_def cur_def)
  then show ?case using 1 me(1) pipe_fds_fd_ok [of "ktbl k" k1] by (auto simp: x pipe_got_def ret_def split: option.splits)
qed

text \<open>Sockets: a call of \<^verbatim>\<open>sys_connect\<close> that returns a descriptor.\<close>

lemma socket_alloc_bal:
  assumes ok: "fd_ok k"
  shows "ens (socket_alloc ks me ip port type k) (\<lambda>(k', i, r). fds_kept (ktbl k) (ktbl k') \<and> i < NFILE \<and>
    f_type (files k' i) \<noteq> FD_NONE \<and> fd_bal ((\<lambda>_. 0)(i := 1)) {} (ktbl k') (files k'))"
proof -
  obtain k1 f where a: "filealloc k = (k1, f)" by fastforce
  show ?thesis
  proof (cases f)
    case None
    then show ?thesis using a by (auto simp: socket_alloc_def intro!: ens_any)
  next
    case (Some i)
    note b = filealloc_bal [OF ok [unfolded fd_ok_def] a [unfolded Some], simplified]
    have "ens (run_net (\<lambda>s. Inr (nkalloc s)) k1) (\<lambda>(k', p). fds_kept (ktbl k1) (ktbl k') \<and> files k' = files k1)"
      by (rule fk.run_net_frame [of "ktbl k1"]) (auto dest: fk.nkalloc_frame)
    then show ?thesis unfolding socket_alloc_def a Some Let_def prod.case ens_ebind
    proof (rule ens_weaken, goal_cases)
      case (1 x)
      obtain k2 p where x: "x = (k2, p)" by fastforce
      let ?g = "\<lambda>f. f\<lparr>f_type := FD_SOCKET, f_readable := True, f_writable := True, f_sock := p\<rparr>"
      have k: "fds_kept (ktbl k) (ktbl k2)" "files k2 = files k1" using 1 b(5) by (auto simp: x)
      then have "fd_bal ((\<lambda>_. 0)(i := 1)) {} (ktbl k2) (files k2)" using fd_bal_kept [OF b(1)] b(5) by simp
      from fd_bal_type [of _ i "{}", OF fd_bal_mono [OF this], of ?g]
      have bal: "fd_bal ((\<lambda>_. 0)(i := 1)) {} (ktbl k2) ((files k2)(i := ?g (files k2 i)))" by simp
      have "ens (run_net (socket_open ks me p ip port type) (upd_file i ?g k2)) (\<lambda>(k', r).
          fds_kept (ktbl k2) (ktbl k') \<and> files k' = files (upd_file i ?g k2))"
        by (rule fk.run_net_frame [of "ktbl k2"]) (auto intro: fk.socket_open_frame)
      then show ?case using b(2) fd_bal_kept [OF bal] fds_kept_trans [OF k(1)]
        by (auto simp: x elim!: ens_weaken)
    qed
  qed
qed

lemma connect_fd_fd_ok:
  assumes "fd_bal ((\<lambda>_. 0)(i := 1)) {} (ktbl k) (files k)" "i < NFILE" "f_type (files k i) \<noteq> FD_NONE"
    "me < NPROC" "\<not> idle (cur me k)"
  shows "ens (connect_fd me i k) (\<lambda>(k', r). r \<noteq> Return (- 1) \<longrightarrow> fd_ok k')"
proof (cases "fdalloc me i k")
  case (Pair k' r)
  then show ?thesis using fdalloc_bal(1) [OF assms(1), of me i k'] assms
    by (cases r) (auto simp: connect_fd_def ret_def fd_ok_def)
qed

lemma sys_connect_fd_ok:
  assumes ok: "fd_ok k" and me: "me < NPROC" "\<not> idle (cur me k)"
  shows "ens (sys_connect ks me k) (\<lambda>(k', r). (\<exists>x. r = Return x \<and> x \<noteq> - 1) \<longrightarrow> fd_ok k')"
  unfolding sys_connect_def ens_ebind
proof (intro ens_any [where r = "argraw _ _ _"] ens_weaken [OF socket_alloc_bal [OF ok]], goal_cases)
  case (1 a b c x)
  obtain k1 i r where x: "x = (k1, i, r)" by (cases x) auto
  have "\<not> idle (cur me k1)" using 1 me(2) by (auto simp: x fds_kept_def cur_def)
  then show ?case using 1 connect_fd_fd_ok [of i k1 me] me(1)
    by (auto simp: x ret_def split: progress.splits elim!: ens_weaken)
qed

end
