(* ===== verification/File_Life.thy ===== *)
theory File_Life
  imports File_Refs
begin

text \<open>
  The reference counts of files over the life of a process: \<^verbatim>\<open>fork\<close> gives the child a reference to every open file,
  \<^verbatim>\<open>exit\<close> gives up those of the process, and \<^verbatim>\<open>wait\<close> frees slots without descriptors. With the other system calls this
  gives the invariant of the whole dispatcher.
\<close>

section \<open>Allocating and freeing slots\<close>

lemma freeproc_fds:
  assumes "freeproc ks i t = Inr t'"
  shows "procs t' = (procs t)(i := procs t' i)" "ofile (procs t' i) = ofile (procs t i)" "idle (procs t' i)"
  using assms by (auto simp: freeproc_def Let_def upd_proc_def idle_def ebind_def split: if_splits sum.splits)

lemma allocproc_fds:
  assumes "allocproc ks t = Inr (t', r)"
  shows "fds_kept t t'" "r = Some n \<Longrightarrow> n < NPROC \<and> idle (procs t n) \<and> \<not> idle (procs t' n)"
proof -
  have *: "fds_kept t t' \<and> (\<forall>n. r = Some n \<longrightarrow> n < NPROC \<and> idle (procs t n) \<and> \<not> idle (procs t' n))"
  proof (cases "find (\<lambda>i. pstate (procs t i) = UNUSED) [0..<NPROC]")
    case None
    then show ?thesis using assms by (simp add: allocproc_def)
  next
    case (Some i)
    then have i: "i < NPROC" "pstate (procs t i) = UNUSED" by (auto simp: find_Some_iff)
    have fr: "fds_kept t t''" if "freeproc ks i u = Inr t''" "\<And>p. p \<noteq> i \<Longrightarrow> procs u p = procs t p"
      "ofile (procs u i) = ofile (procs t i)" for u t''
    proof -
      have "ofile (procs t'' p) = ofile (procs t p) \<and> (idle (procs t'' p) \<longrightarrow> idle (procs t p))" for p
      proof (cases "p = i")
        case True
        then show ?thesis using freeproc_fds(2) [OF that(1)] that(3) i by (simp add: idle_def)
      next
        case False
        then have "procs t'' p = procs u p" by (subst freeproc_fds(1) [OF that(1)]) simp
        then show ?thesis using that(2) [OF False] by simp
      qed
      then show ?thesis by (simp add: fds_kept_def)
    qed
    show ?thesis using assms Some i
      by (auto simp: allocproc_def allocpid_def Let_def ebind_def upd_proc_def split: prod.splits if_splits sum.splits
          elim!: fr) (auto simp: fds_kept_def idle_def)
  qed
  then show "fds_kept t t'" "r = Some n \<Longrightarrow> n < NPROC \<and> idle (procs t n) \<and> \<not> idle (procs t' n)" by auto
qed

section \<open>fork\<close>

lemma tf_set_frame: "fds_kept (ktbl k) (ktbl (tf_set me off v k))" "files (tf_set me off v k) = files k"
  by (simp_all add: tf_set_def fk.set_kmem_frame)

lemma fork_files_bal:
  assumes "fd_ok k" "p < NPROC" "np < NPROC" "\<not> idle (cur np k)" "p \<noteq> np" "\<forall>i \<in> set is. i < NOFILE \<and> ofile (cur np k) i = None"
    "distinct is" "fork_files p np is k = Inr k'"
  shows "fd_ok k' \<and> \<not> idle (cur np k') \<and> (\<forall>q. q \<noteq> np \<longrightarrow> cur q k' = cur q k)"
  using assms
proof (induction "is" arbitrary: k)
  case (Cons i "is")
  show ?case
  proof (cases "ofile (cur p k) i")
    case None
    then show ?thesis using Cons by auto
  next
    case (Some f)
    then obtain k1 where d: "filedup f k = Inr k1" and r: "fork_files p np is (set_ofile np i (Some f) k1) = Inr k'"
      using Cons.prems(8) by (auto simp: ebind_def split: sum.splits)
    note f = fd_ok_file [OF Cons.prems(1,2) _ Some]
    have i: "i < NOFILE" "ofile (cur np k) i = None" using Cons.prems(6) by auto
    note dup = filedup_bal [OF Cons.prems(1) [unfolded fd_ok_def] d]
    have c: "cur q k1 = cur q k" for q using dup(2) by (simp add: cur_def)
    have ty: "f_type (files k1 f) \<noteq> FD_NONE" using d f(2) i(1) by (auto simp: filedup_def split: if_splits)
    let ?k = "set_ofile np i (Some f) k1"
    have ok: "fd_ok ?k"
      using set_ofile_bal [OF dup(1) Cons.prems(3) i(1), of f] c i Cons.prems(4) f(1) ty by (simp add: fd_ok_def)
    have cq: "cur q ?k = (if q = np then (cur np k)\<lparr>ofile := (ofile (cur np k))(i \<mapsto> f)\<rparr> else cur q k)" for q
      using c by (auto simp: set_ofile_def upd_cur_def cur_def upd_proc_def)
    then have "\<not> idle (cur np ?k)" "\<forall>j \<in> set is. j < NOFILE \<and> ofile (cur np ?k) j = None" "distinct is"
      using Cons.prems(4,6,7) by (auto simp: idle_def)
    from Cons.IH [OF ok Cons.prems(2,3) this(1) Cons.prems(5) this(2,3) r] show ?thesis using cq by auto
  qed
qed simp

lemma upd_cur_kept:
  assumes "ofile (f (cur i k)) = ofile (cur i k)" "idle (f (cur i k)) \<Longrightarrow> idle (cur i k)"
  shows "fds_kept (ktbl k) (ktbl (upd_cur i f k))" "files (upd_cur i f k) = files k"
  using assms by (auto simp: fds_kept_def upd_cur_def upd_proc_def cur_def)

lemma upd_cur_fd_ok:
  assumes "fd_ok k" "ofile (f (cur i k)) = ofile (cur i k)" "idle (f (cur i k)) \<Longrightarrow> idle (cur i k)"
  shows "fd_ok (upd_cur i f k)"
  by (rule fd_ok_kept [OF assms(1)]) (use upd_cur_kept [of f i k] assms in auto)

text \<open>The state in which \<^verbatim>\<open>fork\<close> copies the descriptors.\<close>

lemma fork_prepared:
  "fds_kept (ktbl k) (ktbl (tf_set np TF_a0 0 (copy_trapframe p np (upd_cur np (\<lambda>x. x\<lparr>psz := sz\<rparr>) (set_kmem m k)))))"
  "files (tf_set np TF_a0 0 (copy_trapframe p np (upd_cur np (\<lambda>x. x\<lparr>psz := sz\<rparr>) (set_kmem m k)))) = files k"
proof -
  let ?k1 = "set_kmem m k" let ?k2 = "upd_cur np (\<lambda>x. x\<lparr>psz := sz\<rparr>) ?k1" let ?k3 = "copy_trapframe p np ?k2"
  have "fds_kept (ktbl k) (ktbl ?k1)" by (simp add: fk.set_kmem_frame)
  also have "fds_kept (ktbl ?k1) (ktbl ?k2)" by (rule upd_cur_kept) (auto simp: idle_def)
  also have "fds_kept (ktbl ?k2) (ktbl ?k3)" by (simp add: copy_trapframe_def fk.set_kmem_frame)
  also have "fds_kept (ktbl ?k3) (ktbl (tf_set np TF_a0 0 ?k3))" by (rule tf_set_frame)
  finally show "fds_kept (ktbl k) (ktbl (tf_set np TF_a0 0 ?k3))" .
  show "files (tf_set np TF_a0 0 ?k3) = files k" by (simp add: tf_set_frame copy_trapframe_def upd_cur_def)
qed

lemma fork_made:
  assumes ok: "fd_ok k" and p: "p < NPROC" "np < NPROC" "\<not> idle (cur np k)" "p \<noteq> np"
    and e: "\<And>i. i < NOFILE \<Longrightarrow> ofile (cur np k) i = None"
    and r: "fork_files p np [0..<NOFILE]
      (tf_set np TF_a0 0 (copy_trapframe p np (upd_cur np (\<lambda>x. x\<lparr>psz := sz\<rparr>) (set_kmem m k)))) = Inr k'"
  shows "fd_ok k'" "\<not> idle (cur np k')"
proof -
  let ?k = "tf_set np TF_a0 0 (copy_trapframe p np (upd_cur np (\<lambda>x. x\<lparr>psz := sz\<rparr>) (set_kmem m k)))"
  note kept = fork_prepared [where k = k and np = np and p = p and sz = sz and m = m]
  have "fd_ok ?k" by (rule fd_ok_kept [OF ok]) (simp_all add: kept)
  moreover have "\<not> idle (cur np ?k)" "\<forall>i \<in> set [0..<NOFILE]. i < NOFILE \<and> ofile (cur np ?k) i = None"
    using kept(1) p(3) e by (auto simp: fds_kept_def cur_def)
  ultimately show "fd_ok k'" "\<not> idle (cur np k')" using fork_files_bal [OF _ p(1,2) _ p(4) _ _ r] by auto
qed

lemma fork_freed:
  assumes ok: "fd_ok k" and e: "\<And>i. i < NOFILE \<Longrightarrow> ofile (cur np k) i = None"
    and r: "freeproc ks np (ktbl (set_kmem m k)) = Inr t"
  shows "fd_ok (k'\<lparr>ktbl := t, files := files k\<rparr>)"
proof -
  note f = freeproc_fds [OF r]
  have o: "ofile (procs t p) = ofile (procs (ktbl k) p) \<and> (p \<noteq> np \<longrightarrow> procs t p = procs (ktbl k) p)" for p
    using f(2) by (subst (1 2) f(1)) (auto simp: set_kmem_def)
  then have "fd_refs t i = fd_refs (ktbl k) i" for i by (simp add: fd_refs_def)
  moreover have "\<forall>q < NPROC. \<forall>fd < NOFILE. idle (procs t q) \<longrightarrow> ofile (procs t q) fd = None"
  proof (intro allI impI)
    fix q fd assume "q < NPROC" "fd < NOFILE" "idle (procs t q)"
    then show "ofile (procs t q) fd = None"
      using o [of q] e ok unfolding fd_ok_def fd_bal_def cur_def by (cases "q = np") auto
  qed
  ultimately show ?thesis using ok o unfolding fd_ok_def fd_bal_def by simp
qed

lemma fork_fd_ok:
  assumes ok: "fd_ok k" and p: "p < NPROC" "\<not> idle (cur p k)"
  shows "ens (fork ks p k) (\<lambda>(k', r). fd_ok k')"
  unfolding fork_def ens_ebind
proof (rule ens_call, goal_cases)
  case (1 x)
  obtain t r where x: "x = (t, r)" by fastforce
  note al = allocproc_fds [OF 1 [unfolded x]]
  let ?k = "k\<lparr>ktbl := t\<rparr>"
  have ok1: "fd_ok ?k" using fd_ok_kept [OF ok, of ?k] al(1) by simp
  show ?case
  proof (cases r)
    case None
    then show ?thesis using ok1 by (simp add: x)
  next
    case (Some np)
    note np = al(2) [OF Some]
    have ne: "p \<noteq> np" using np p(2) by (auto simp: cur_def)
    have e: "ofile (cur np ?k) i = None" if "i < NOFILE" for i
      using ok np that al(1) unfolding fd_ok_def fd_bal_def fds_kept_def cur_def by simp
    have f: "fd_ok ((set_kmem m ?k)\<lparr>ktbl := t'\<rparr>)" if "freeproc ks np (ktbl (set_kmem m ?k)) = Inr t'" for m t'
      using fork_freed [OF ok1 e that, of "set_kmem m ?k"] by (simp add: fd_ok_def)
    have "fd_ok (upd_cur np (\<lambda>x. x\<lparr>cwd := c, pname := n, parent := q, pstate := RUNNABLE\<rparr>) (k2\<lparr>kfs := s\<rparr>))"
      if "fork_files p np [0..<NOFILE]
        (tf_set np TF_a0 0 (copy_trapframe p np (upd_cur np (\<lambda>x. x\<lparr>psz := sz\<rparr>) (set_kmem m ?k)))) = Inr k2" for c n q s sz m k2
      using fork_made [OF ok1 p(1) _ _ ne e that] np by (intro upd_cur_fd_ok) (auto simp: cur_def idle_def)
    then show ?thesis using f
      by (auto simp: x Some Let_def cur_def intro!: ens_any [where r = "uvmcopy _ _ _ _ _"] ens_call split: option.splits)
  qed
qed

section \<open>exit\<close>

lemma exit_files_fd_ok:
  assumes "fd_ok k" "me < NPROC" "\<forall>i \<in> set fds. i < NOFILE" "exit_files ks me fds k = Inr (k', Return ())"
  shows "fd_ok k' \<and> (\<forall>i. ofile (cur me k') i = (if i \<in> set fds then None else ofile (cur me k) i))"
  using assms
proof (induction fds arbitrary: k)
  case (Cons fd fds)
  show ?case
  proof (cases "ofile (cur me k) fd")
    case None
    then show ?thesis using Cons by auto
  next
    case (Some f)
    then obtain k1 where c: "fileclose ks me f k = Inr (k1, Return ())" and r: "exit_files ks me fds (set_ofile me fd None k1) = Inr (k', Return ())"
      using Cons.prems(4) by (auto simp: ebind_def split: sum.splits progress.splits)
    have fd: "fd < NOFILE" using Cons.prems(3) by simp
    note f = fd_ok_file [OF Cons.prems(1,2) fd Some]
    have "ens (fileclose ks me f k) (\<lambda>(k', r). fds_kept (ktbl k) (ktbl k') \<and> files k' = close_ref f (files k))"
      by (rule fk.fileclose_frame [of "ktbl k"]) auto
    from ensD [OF this c] have k1: "fds_kept (ktbl k) (ktbl k1)" "files k1 = close_ref f (files k)" by auto
    have "fd_bal ((\<lambda>_. 0)(f := 1)) {} (clear_fd me fd (ktbl k)) (files k)"
      using clear_fd_bal [OF Cons.prems(1) [unfolded fd_ok_def] Cons.prems(2) fd] Some by (simp add: cur_def)
    from close_ref_bal [OF fd_bal_kept [OF this clear_fd_kept [OF k1(1)]] f(1)]
    have ok: "fd_ok (set_ofile me fd None k1)" by (simp add: fd_ok_def set_ofile_none k1(2))
    have "ofile (cur me (set_ofile me fd None k1)) = (ofile (cur me k))(fd := None)"
      using k1(1) by (simp add: set_ofile_def upd_cur_def cur_def upd_proc_def fds_kept_def)
    then show ?thesis using Cons.IH [OF ok Cons.prems(2) _ r] Cons.prems(3) by auto
  qed
qed simp

lemma reparent_loop_kept: "fds_kept t0 t \<Longrightarrow> fds_kept t0 (reparent_loop who p is t)"
proof (induction "is" arbitrary: t)
  case (Cons i "is")
  let ?t = "upd_proc i (\<lambda>q. q\<lparr>parent := initproc t\<rparr>) t"
  have "fds_kept t ?t" by (auto simp: fds_kept_def upd_proc_def idle_def)
  then have "fds_kept t0 (wakeup who ch ?t)" for ch by (intro fk.wake fds_kept_trans [OF Cons.prems])
  then show ?case using Cons by (simp add: Let_def)
qed simp

lemma exit_zombie_fd_ok:
  assumes ok: "fd_ok k" and e: "\<And>i. i < NOFILE \<Longrightarrow> ofile (cur me k) i = None"
  shows "fd_ok (k\<lparr>ktbl := exit_zombie me st (ktbl k)\<rparr>)"
proof -
  define t where "t = wakeup (Some me) (case parent (procs (reparent me (ktbl k)) me) of Some j \<Rightarrow> ChProc j | None \<Rightarrow> ChNone)
    (reparent me (ktbl k))"
  have t: "fds_kept (ktbl k) t" unfolding t_def reparent_def by (intro fk.wake reparent_loop_kept) simp
  have x: "exit_zombie me st (ktbl k) = upd_proc me (\<lambda>q. q\<lparr>xstate := st, pstate := ZOMBIE\<rparr>) t"
    by (simp add: exit_zombie_def t_def Let_def)
  have bal: "fd_bal (\<lambda>_. 0) {} t (files k)" using fd_bal_kept [OF ok [unfolded fd_ok_def] t] .
  have "fd_refs (exit_zombie me st (ktbl k)) i = fd_refs t i" for i by (auto simp: x fd_refs_def upd_proc_def split: if_splits)
  moreover have "ofile (procs t me) i = None" if "i < NOFILE" for i using t e [OF that] by (simp add: fds_kept_def cur_def)
  ultimately show ?thesis using bal unfolding fd_ok_def fd_bal_def by (auto simp: x upd_proc_def)
qed

lemma exit_fd_ok:
  assumes ok: "fd_ok k" "me < NPROC" and r: "exit ks me st k = Inr (k', Return ())"
  shows "fd_ok k'"
proof -
  obtain k1 where f: "exit_files ks me [0..<NOFILE] k = Inr (k1, Return ())" and q: "exit_rest me st k1 = Inr k'"
    using r by (auto simp: exit_def ebind_def split: sum.splits progress.splits if_splits)
  have k1: "fd_ok k1" "\<And>i. i < NOFILE \<Longrightarrow> ofile (cur me k1) i = None"
    using exit_files_fd_ok [OF ok _ f] by auto
  have "ens (exit_rest me st k1) fd_ok"
    unfolding exit_rest_def ens_option
  proof (split option.split, intro conjI allI impI)
    fix d assume "cwd (cur me k1) = Some d"
    show "ens (ebind (run_fs me (\<lambda>s. ebind (begin_op s) (\<lambda>s. ebind (iput d s) end_op)) k1) (\<lambda>k.
        let k = upd_cur me (\<lambda>x. x\<lparr>cwd := None\<rparr>) k in Inr (k\<lparr>ktbl := exit_zombie me st (ktbl k)\<rparr>))) fd_ok"
      unfolding ens_ebind Let_def
    proof (rule fk.run_fs_frame [OF fds_kept_refl], goal_cases)
      case (1 k2)
      have "fd_ok (upd_cur me (\<lambda>x. x\<lparr>cwd := None\<rparr>) k2)"
        using 1 k1(1) by (intro upd_cur_fd_ok) (auto simp: idle_def fd_ok_def)
      moreover have "ofile (cur me (upd_cur me (\<lambda>x. x\<lparr>cwd := None\<rparr>) k2)) i = None" if "i < NOFILE" for i
        using 1 k1(2) [OF that] by (simp add: upd_cur_def cur_def upd_proc_def)
      ultimately show ?case using exit_zombie_fd_ok by simp
    qed
  qed simp
  from ensD [OF this q] show ?thesis .
qed

section \<open>Calls that leave the descriptors alone\<close>

definition quiet_fds :: "kern \<Rightarrow> kern \<Rightarrow> bool" where
  "quiet_fds k k' \<longleftrightarrow> fds_kept (ktbl k) (ktbl k') \<and> same_refs (files k) (files k')"

lemma quiet_fds_simps [simp]:
  "quiet_fds k k" "quiet_fds k (k'\<lparr>kfs := s\<rparr>) = quiet_fds k k'" "quiet_fds (k\<lparr>kfs := s\<rparr>) k' = quiet_fds k k'"
  by (simp_all add: quiet_fds_def)

lemma quiet_fds_ok: "quiet_fds k k' \<Longrightarrow> fd_ok k \<Longrightarrow> fd_ok k'"
  by (auto simp: quiet_fds_def intro: fd_ok_kept)

lemma quiet_fds_mem [simp]: "quiet_fds k k' \<Longrightarrow> quiet_fds k (set_kmem m k')"
  by (simp add: quiet_fds_def fk.set_kmem_frame)

lemma quiet_fds_tf [simp]: "quiet_fds k k' \<Longrightarrow> quiet_fds k (tf_set me off v k')"
  by (simp add: tf_set_def)

lemma quiet_fds_upd:
  assumes "quiet_fds k k'" "ofile (f (cur i k')) = ofile (cur i k')" "idle (f (cur i k')) \<Longrightarrow> idle (cur i k')"
  shows "quiet_fds k (upd_cur i f k')"
  using assms upd_cur_kept [of f i k'] fds_kept_trans by (auto simp: quiet_fds_def)

lemma wait_scan_kept: "fds_kept t0 t \<Longrightarrow> ens (wait_scan ks p addr h is t) (\<lambda>(t', r). fds_kept t0 t')"
proof (induction "is" arbitrary: h t)
  case (Cons i "is")
  have "fds_kept t0 t'" if "freeproc ks i (t\<lparr>mm := m\<rparr>) = Inr t'" "pstate (procs t i) = ZOMBIE" for m t'
  proof -
    have "ofile (procs t' q) = ofile (procs t q) \<and> (idle (procs t' q) \<longrightarrow> idle (procs t q))" for q
      using freeproc_fds(2) [OF that(1)] that(2) by (subst (1 2) freeproc_fds(1) [OF that(1)]) (simp add: idle_def)
    then have "fds_kept t t'" by (simp add: fds_kept_def)
    with Cons.prems show ?thesis by (rule fds_kept_trans)
  qed
  note freed = this
  have "fds_kept t0 t'" if "freeproc ks i t = Inr t'" "pstate (procs t i) = ZOMBIE" for t'
    using freed [of "mm t" t'] that by simp
  then show ?case using Cons freed by (auto simp: Let_def fk.mem intro!: ens_copyout ens_call)
qed simp

lemma sys_wait_quiet: "ens (sys_wait ks me k) (\<lambda>(k', r). quiet_fds k k')"
proof -
  have "ens (wait ks me a (ktbl k)) (\<lambda>(t, r). fds_kept (ktbl k) t)" for a
    unfolding wait_def ens_ebind
    by (rule ens_weaken [OF wait_scan_kept [OF fds_kept_refl]]) (auto intro: fk.slp split: sum.splits)
  then show ?thesis unfolding sys_wait_def ens_ebind
    by (intro ens_any [where r = "argaddr _ _ _"]) (auto simp: quiet_fds_def elim!: ens_weaken)
qed

lemma quiet_fds_table: "quiet_fds k (k\<lparr>ktbl := t\<rparr>) = fds_kept (ktbl k) t"
  by (simp add: quiet_fds_def)

lemma upd_proc_kept:
  assumes "fds_kept t0 t" "ofile (f (procs t i)) = ofile (procs t i)" "idle (f (procs t i)) \<Longrightarrow> idle (procs t i)"
  shows "fds_kept t0 (upd_proc i f t)"
  using assms by (auto simp: fds_kept_def upd_proc_def)

lemma sys_sbrk_quiet: "ens (sys_sbrk ks me k) (\<lambda>(k', r). quiet_fds k k')"
  unfolding sys_sbrk_def growproc_def ret_def
  by (auto simp: Let_def quiet_fds_table fk.mem idle_def intro!: ens_any [where r = "argint _ _ _"]
      ens_any [where r = "uvmalloc _ _ _ _ _"] ens_any [where r = "uvmdealloc _ _ _ _ _"] upd_proc_kept)

lemma sys_kill_quiet: "ens (sys_kill me k) (\<lambda>(k', r). quiet_fds k k')"
  unfolding sys_kill_def kill_def ret_def
  by (auto simp: Let_def quiet_fds_table idle_def intro!: ens_any [where r = "argint _ _ _"] upd_proc_kept
      split: option.splits if_splits)

lemma sys_sleep_quiet: "ens (sys_sleep me k) (\<lambda>(k', r). quiet_fds k k')"
  unfolding sys_sleep_def sleep_round_def ret_def
  by (auto simp: quiet_fds_table fk.slp intro!: ens_any [where r = "argint _ _ _"])

lemma sys_file_quiet:
  "ens (sys_read ks me k) (\<lambda>(k', r). quiet_fds k k')"
  "ens (sys_write ks room me k) (\<lambda>(k', r). quiet_fds k k')"
  "ens (sys_fstat me k) (\<lambda>(k', r). quiet_fds k k')"
  unfolding sys_read_def sys_write_def sys_fstat_def ret_def
  by (auto simp: quiet_fds_def intro!: argfd_ens ens_any [where r = "argint _ _ _"] ens_any [where r = "argaddr _ _ _"]
      fk.fileread_frame [OF fds_kept_refl] fk.filewrite_frame [OF fds_kept_refl] fk.filestat_frame [OF fds_kept_refl])

lemma sys_fs_quiet:
  "ens (sys_link me k) (\<lambda>(k', r). quiet_fds k k')"
  "ens (sys_unlink me k) (\<lambda>(k', r). quiet_fds k k')"
  "ens (sys_mkdir me k) (\<lambda>(k', r). quiet_fds k k')"
  "ens (sys_mknod me k) (\<lambda>(k', r). quiet_fds k k')"
  unfolding sys_link_def sys_unlink_def sys_mkdir_def sys_mknod_def make_node_def empty_op_def run_fs_def ret_def ret_fs_def
  by (auto intro!: ens_any split: option.splits)

lemma sys_chdir_quiet: "ens (sys_chdir me k) (\<lambda>(k', r). quiet_fds k k')"
  unfolding sys_chdir_def empty_op_def run_fs_def ret_def ret_fs_def
  by (auto simp: idle_def intro!: ens_any quiet_fds_upd split: option.splits)

section \<open>exec\<close>

lemma exec_bad_quiet:
  "quiet_fds k0 k \<Longrightarrow> (\<And>k' r. quiet_fds k0 k' \<Longrightarrow> Q (k', r)) \<Longrightarrow> ens (exec_bad ks me pt sz ip k) Q"
  unfolding exec_bad_def by (auto intro!: ens_any split: option.splits)

lemma exec_commit_quiet:
  "quiet_fds k0 k \<Longrightarrow> (\<And>k'. quiet_fds k0 k' \<Longrightarrow> Q k') \<Longrightarrow> ens (exec_commit ks me path pt sz pc usp k) Q"
proof -
  assume a: "quiet_fds k0 k" "\<And>k'. quiet_fds k0 k' \<Longrightarrow> Q k'"
  show ?thesis unfolding exec_commit_def Let_def ens_ebind ens_simps
    by (rule ens_any, rule a(2)) (auto simp: idle_def a(1) intro!: quiet_fds_upd quiet_fds_mem quiet_fds_tf)
qed

lemma exec_stack_quiet:
  "quiet_fds k0 k \<Longrightarrow> (\<And>k' r. quiet_fds k0 k' \<Longrightarrow> Q (k', r)) \<Longrightarrow> ens (exec_stack ks me path argv pt sz pc k) Q"
  unfolding exec_stack_def Let_def
  by (auto intro!: exec_bad_quiet exec_commit_quiet ens_any [where r = "uvmalloc _ _ _ _ _"]
      ens_any [where r = "uvmclear _ _ _"] ens_any [where r = "push_argv _ _ _ _ _"] split: option.splits)

lemma exec_image_quiet:
  "quiet_fds k0 k \<Longrightarrow> (\<And>k' r. quiet_fds k0 k' \<Longrightarrow> Q (k', r)) \<Longrightarrow> ens (exec_image ks me path argv ip elf k) Q"
  unfolding exec_image_def Let_def run_fs_def
  by (auto intro!: exec_bad_quiet exec_stack_quiet ens_any [where r = "proc_pagetable _ _ _"]
      ens_any [where r = "exec_load _ _ _ _ _ _ _ _"] ens_any [where r = "iunlockput _ _"] ens_any [where r = "end_op _"])

lemma exec_quiet:
  "quiet_fds k0 k \<Longrightarrow> (\<And>k' r. quiet_fds k0 k' \<Longrightarrow> Q (k', r)) \<Longrightarrow> ens (exec ks me path argv k) Q"
  unfolding exec_def Let_def
  by (auto intro!: exec_bad_quiet exec_image_quiet ens_any [where r = "begin_op _"] ens_any [where r = "namei_of _ _ _"]
      ens_any [where r = "end_op _"] ens_any [where r = "ilock _ _"] ens_any [where r = "readi _ _ _ _ _ _"] split: option.splits)

lemma free_args_quiet:
  "quiet_fds k0 k \<Longrightarrow> (\<And>k'. quiet_fds k0 k' \<Longrightarrow> Q k') \<Longrightarrow> ens (free_args ks argv k) Q"
  by (induction argv arbitrary: k) (auto intro!: ens_any [where r = "kfree _ _ _"])

lemma fetchstr_at_quiet:
  "quiet_fds k0 k \<Longrightarrow> (\<And>k' r. quiet_fds k0 k' \<Longrightarrow> Q (k', r)) \<Longrightarrow> ens (fetchstr_at me a buf mx k) Q"
  unfolding fetchstr_at_def by (auto intro!: ens_any split: option.splits)

lemma fetch_args_quiet:
  "quiet_fds k0 k \<Longrightarrow> (\<And>k' a r. quiet_fds k0 k' \<Longrightarrow> Q (k', a, r)) \<Longrightarrow> ens (fetch_args n me uargv argv k) Q"
  by (induction n arbitrary: uargv argv k)
    (auto simp: Let_def intro!: fetchstr_at_quiet ens_any [where r = "fetchaddr _ _ _"] split: option.splits prod.splits)

lemma sys_exec_quiet: "ens (sys_exec ks me k) (\<lambda>(k', r). quiet_fds k k')"
  unfolding sys_exec_def ret_def
  by (auto intro!: ens_any [where r = "argstr _ _ _ _"] ens_any [where r = "argaddr _ _ _"] exec_quiet free_args_quiet
      fetch_args_quiet)

section \<open>The dispatcher\<close>

definition SYS_connect :: int where "SYS_connect = 22"

lemma syscalls_cases:
  assumes "syscalls ks room n = Some f"
  shows "f \<in> {sys_fork ks, sys_pipe ks, sys_dup, sys_open ks, sys_close ks} \<or> n = SYS_connect \<and> f = sys_connect ks \<or>
    f \<in> {sys_wait ks, sys_read ks, sys_kill, sys_exec ks, sys_fstat, sys_chdir, sys_getpid, sys_sbrk ks, sys_sleep,
      sys_uptime, sys_write ks room, sys_mknod, sys_unlink, sys_link, sys_mkdir}"
  using assms unfolding syscalls_def SYS_connect_def by (auto split: if_splits)

lemma call_fd_ok:
  assumes ok: "fd_ok k" "me < NPROC" "\<not> idle (cur me k)" and f: "syscalls ks room n = Some f"
    and r: "f me k = Inr (k', Return x)" "n = SYS_connect \<Longrightarrow> x \<noteq> - 1"
  shows "fd_ok k'"
  using syscalls_cases [OF f]
proof (elim disjE)
  assume "f \<in> {sys_fork ks, sys_pipe ks, sys_dup, sys_open ks, sys_close ks}"
  moreover have "ens (sys_fork ks me k) (\<lambda>(k', r). fd_ok k')"
    unfolding sys_fork_def ens_ebind ret_def by (rule ens_weaken [OF fork_fd_ok [OF ok]]) auto
  ultimately show ?thesis using r(1) sys_pipe_fd_ok [OF ok] sys_dup_fd_ok [OF ok] sys_open_fd_ok [OF ok] sys_close_fd_ok [OF ok(1,2)]
    by (auto dest!: ensD)
next
  assume "n = SYS_connect \<and> f = sys_connect ks"
  then show ?thesis using r sys_connect_fd_ok [OF ok, of ks] by (auto dest!: ensD)
next
  assume "f \<in> {sys_wait ks, sys_read ks, sys_kill, sys_exec ks, sys_fstat, sys_chdir, sys_getpid, sys_sbrk ks, sys_sleep,
      sys_uptime, sys_write ks room, sys_mknod, sys_unlink, sys_link, sys_mkdir}"
  moreover have "ens (sys_getpid me k) (\<lambda>(k', r). quiet_fds k k')" "ens (sys_uptime me k) (\<lambda>(k', r). quiet_fds k k')"
    by (simp_all add: sys_getpid_def sys_uptime_def)
  ultimately have "ens (f me k) (\<lambda>(k', r). quiet_fds k k')"
    using sys_wait_quiet sys_file_quiet sys_kill_quiet sys_exec_quiet sys_chdir_quiet sys_sbrk_quiet sys_sleep_quiet sys_fs_quiet
    by auto
  from ensD [OF this r(1)] show ?thesis using quiet_fds_ok [OF _ ok(1)] by simp
qed


lemma tf_get_set [simp]: "tf_get me off (tf_set me off v k) = v"
  by (simp add: tf_get_def tf_set_def kmem_def set_kmem_def cur_def)

lemma quiet_fds_self_tf: "fd_ok k \<Longrightarrow> fd_ok (tf_set me off v k)"
  by (rule quiet_fds_ok [of k]) simp_all

text \<open>C2: Every file's reference count is the number of descriptors that refer to it, every descriptor of every process
  refers to a file of the table that has a type, and processes that are unused or zombies have no descriptors. Every
  system call of a running process that does not sleep keeps this, whether it succeeds or fails, when it returns and when the process ends,
  with one exception: a call of connect keeps it only if it returns a descriptor, and one that returns -1 may not. About a call that
  goes to sleep nothing is said.
\<close>

theorem syscall_keeps_file_refs:
  assumes "fd_ok k" "me < NPROC" "\<not> idle (cur me k)"
    and "syscall ks room me k = Inr (k', out)" "\<forall>ch. out \<noteq> Asleep ch"
    and "sint (tf_get me TF_a7 k) = SYS_connect \<longrightarrow> tf_get me TF_a0 k' \<noteq> - 1"
  shows "fd_ok k'"
proof -
  let ?n = "sint (tf_get me TF_a7 k)"
  show ?thesis
  proof (cases "?n = SYS_exit")
    case True
    then obtain n where "exit ks me (word_of_int n) k = Inr (k', Return ())"
      using assms(4,5) by (auto simp: syscall_def sys_exit_def ebind_def split: sum.splits progress.splits)
    then show ?thesis by (rule exit_fd_ok [OF assms(1,2)])
  next
    case False
    show ?thesis
    proof (cases "syscalls ks room ?n")
      case None
      then show ?thesis using False assms(1,4) quiet_fds_self_tf by (auto simp: syscall_def)
    next
      case (Some f)
      then obtain k1 x where f: "f me k = Inr (k1, Return x)" "k' = tf_set me TF_a0 x k1"
        using False assms(4,5) by (auto simp: syscall_def ebind_def split: sum.splits progress.splits)
      then have "fd_ok k1" using assms(6) call_fd_ok [OF assms(1-3) Some] by simp
      then show ?thesis using f(2) quiet_fds_self_tf by simp
    qed
  qed
qed

text \<open>A process whose descriptor 0 is an open file calls \<^verbatim>\<open>dup(0)\<close>; the third argument is 7.\<close>

definition demo_proc :: proc where
  "demo_proc = \<lparr>pstate = RUNNING, pchan = ChNone, killed = False, xstate = 0, pid = 1, parent = None, kstack = 0, psz = 0,
     pagetable = 0, trapframe = 0x80010000, pcontext = undefined, ofile = (\<lambda>_. None)(0 := Some 0), cwd = Some 0, pname = []\<rparr>"

definition demo_kern :: "u8 \<Rightarrow> kern" where
  "demo_kern num =
    \<lparr>ktbl = \<lparr>mm = \<lparr>phys = (\<lambda>_. 0)(0x80010054 := num, 0x80010040 := 7), freelist = 0\<rparr>,
       procs = (\<lambda>_. demo_proc\<lparr>pstate := UNUSED, ofile := (\<lambda>_. None)\<rparr>)(0 := demo_proc), nextpid = 2, initproc = None\<rparr>,
     kfs = undefined, files = (\<lambda>i. \<lparr>f_type = (if i = 0 then FD_INODE else FD_NONE), f_ref = (if i = 0 then 1 else 0),
       f_readable = True, f_writable = True, f_pipe = 0, f_ip = 0, f_off = 0, f_major = 0, f_sock = 0\<rparr>),
     kpipes = undefined, kcons = undefined, ticks = 0, knet = undefined, first = False, kdisk = undefined\<rparr>"

lemma demo_fd_ok: "fd_ok (demo_kern num)"
proof -
  have "fd_refs (ktbl (demo_kern num)) i = (if i = 0 then {(0, 0)} else {})" for i
    by (auto simp: fd_refs_def demo_kern_def demo_proc_def NPROC_def NOFILE_def split: if_splits)
  then show ?thesis
    by (auto simp: fd_ok_def fd_bal_def demo_kern_def demo_proc_def idle_def NFILE_def split: if_splits)
qed

lemma demo_tf: "tf_get 0 TF_a7 (demo_kern num) = ucast num" "tf_get 0 TF_a0 (demo_kern num) = 0"
  by (simp_all add: tf_get_def demo_kern_def kmem_def cur_def demo_proc_def TF_a7_def TF_a0_def load32_def le32_def)

lemma demo_dup: "\<exists>k'. syscall ks room 0 (demo_kern 10) = Inr (k', Back)"
proof -
  have "argfd 0 0 (demo_kern 10) = Inr (Some (0, 0))"
    using demo_tf(2) [of 10] by (simp add: argfd_def argint_def argraw_def NOFILE_def)
      (simp add: demo_kern_def demo_proc_def cur_def)
  moreover have "fdalloc 0 0 (demo_kern 10) = (set_ofile 0 1 (Some 0) (demo_kern 10), Some 1)"
    by (simp add: fdalloc_def NOFILE_def demo_kern_def demo_proc_def cur_def upt_conv_Cons)
  moreover have "f_ref (files (set_ofile 0 1 (Some 0) (demo_kern 10)) 0) = 1"
    by (simp add: demo_kern_def set_ofile_def upd_cur_def)
  ultimately show ?thesis
    by (simp add: syscall_def demo_tf SYS_exit_def syscalls_def sys_dup_def ret_def filedup_def)
qed

theorem syscall_keeps_file_refs_witness:
  "\<exists>k'. syscall \<lparr>ksym_end = 0, ksym_trampoline = 0, ksym_forkret = 0\<rparr> (\<lambda>_. 0) 0 (demo_kern 10) = Inr (k', Back) \<and> fd_ok k'"
proof -
  obtain k' where k': "syscall \<lparr>ksym_end = 0, ksym_trampoline = 0, ksym_forkret = 0\<rparr> (\<lambda>_. 0) 0 (demo_kern 10) = Inr (k', Back)"
    using demo_dup by blast
  have "\<not> idle (cur 0 (demo_kern 10))" "0 < NPROC"
    by (simp_all add: cur_def demo_kern_def demo_proc_def idle_def NPROC_def)
  then have "fd_ok k'"
    using syscall_keeps_file_refs [OF demo_fd_ok _ _ k'] by (simp add: demo_tf SYS_connect_def)
  then show ?thesis using k' by blast
qed

end
