(* ===== verification/Sys_Errors.thy ===== *)
theory Sys_Errors
  imports File_Life
begin

text \<open>
  Error paths of system calls that do not do what their callers expect: \<^verbatim>\<open>connect\<close> leaks a file, \<^verbatim>\<open>open\<close> and \<^verbatim>\<open>pipe\<close>
  panic when they run out of descriptors, files or memory, and \<^verbatim>\<open>kill(0)\<close> marks a process that does not exist yet.
\<close>

section \<open>connect\<close>

lemma kalloc_some: "freelist m \<noteq> 0 \<Longrightarrow> \<exists>m'. kalloc m = (m', freelist m)"
  by (simp add: kalloc_def Let_def)

lemma socket_alloc_unknown:
  assumes i: "find (\<lambda>i. f_ref (files k i) = 0) [0..<NFILE] = Some i" and m: "freelist (kmem k) \<noteq> 0"
    and ty: "ty \<noteq> SOCKET_TYPE_TCP" "ty \<noteq> SOCKET_TYPE_UDP"
  shows "\<exists>p k'. socket_alloc ks me ip port ty k = Inr (k', i, Return (- 1)) \<and> procs (ktbl k') = procs (ktbl k) \<and>
    files k' = (files k)(i := (files k i)\<lparr>f_ref := 1, f_type := FD_SOCKET, f_readable := True, f_writable := True, f_sock := p\<rparr>)"
proof -
  obtain m' where m': "kalloc (kmem k) = (m', freelist (kmem k))" using kalloc_some [OF m] by blast
  show ?thesis using m ty m'
    by (intro exI [of _ "freelist (kmem k)"]) (simp add: socket_alloc_def filealloc_def i run_net_def nkalloc_def Let_def kmem_def deref_def socket_open_def
        upd_file_def upd_sock_def)
qed

text \<open>C39: A call of connect with a socket type that is neither TCP nor UDP returns -1, but the file that it has allocated
  keeps its reference although no descriptor refers to it: each such call uses up one of the entries of the file table.
\<close>

theorem connect_leaks_file:
  assumes ok: "fd_ok k" and i: "find (\<lambda>i. f_ref (files k i) = 0) [0..<NFILE] = Some i" and m: "freelist (kmem k) \<noteq> 0"
    and ty: "ucast (tf_get me (TF_a0 + 8) k) \<noteq> SOCKET_TYPE_TCP" "ucast (tf_get me (TF_a0 + 8) k) \<noteq> SOCKET_TYPE_UDP"
  shows "\<exists>k'. sys_connect ks me k = Inr (k', Return (- 1)) \<and> f_ref (files k i) = 0 \<and> f_ref (files k' i) = 1 \<and>
    fd_refs (ktbl k') i = {} \<and> (\<forall>j. j \<noteq> i \<longrightarrow> files k' j = files k j)"
proof -
  obtain k' p where a: "socket_alloc ks me (tf_get me TF_a0 k) (ucast (tf_get me (TF_a0 + 4) k)) (ucast (tf_get me (TF_a0 + 8) k)) k
      = Inr (k', i, Return (- 1))"
    and k': "procs (ktbl k') = procs (ktbl k)"
      "files k' = (files k)(i := (files k i)\<lparr>f_ref := 1, f_type := FD_SOCKET, f_readable := True, f_writable := True, f_sock := p\<rparr>)"
    using socket_alloc_unknown [OF i m ty] by blast
  have z: "f_ref (files k i) = 0" "i < NFILE" using i by (auto simp: find_Some_iff)
  then have "card (fd_refs (ktbl k) i) = 0" using ok by (simp add: fd_ok_def fd_bal_def)
  then have "fd_refs (ktbl k) i = {}" by simp
  then have "fd_refs (ktbl k') i = {}" using k'(1) by (simp add: fd_refs_def)
  then show ?thesis using a k' z by (auto simp: sys_connect_def argraw_def ret_def)
qed

theorem connect_leaks_file_witness:
  "\<exists>k'. sys_connect \<lparr>ksym_end = 0, ksym_trampoline = 0, ksym_forkret = 0\<rparr> 0
      (set_kmem ((kmem (demo_kern 22))\<lparr>freelist := 0x80020000\<rparr>) (demo_kern 22)) = Inr (k', Return (- 1)) \<and>
    f_ref (files k' 1) = 1 \<and> fd_refs (ktbl k') 1 = {}"
proof -
  let ?k = "set_kmem ((kmem (demo_kern 22))\<lparr>freelist := 0x80020000\<rparr>) (demo_kern 22)"
  have "fd_ok ?k" by (rule fd_ok_kept [OF demo_fd_ok [of 22]]) (simp_all add: fk.set_kmem_frame)
  moreover have "find (\<lambda>i. f_ref (files ?k i) = 0) [0..<NFILE] = Some 1"
    by (simp add: set_kmem_def demo_kern_def NFILE_def upt_conv_Cons)
  moreover have "freelist (kmem ?k) \<noteq> 0" "tf_get 0 (TF_a0 + 8) ?k = 7"
    by (simp_all add: set_kmem_def kmem_def tf_get_def demo_kern_def cur_def demo_proc_def TF_a0_def load32_def le32_def)
  ultimately show ?thesis
    using connect_leaks_file [of ?k 1 0 "\<lparr>ksym_end = 0, ksym_trampoline = 0, ksym_forkret = 0\<rparr>"]
    by (auto simp: SOCKET_TYPE_TCP_def SOCKET_TYPE_UDP_def)
qed

section \<open>open and pipe\<close>

lemma fileclose_untyped:
  "f_ref (files k i) = 1 \<Longrightarrow> f_type (files k i) = FD_NONE \<Longrightarrow> fileclose ks me i k = Inl (Panic ''fileclose unmatched'')"
  by (simp add: fileclose_def Let_def)

lemma filealloc_found:
  assumes "filealloc k = (k', Some i)"
  shows "k' = upd_file i (\<lambda>f. f\<lparr>f_ref := 1\<rparr>) k" "f_ref (files k i) = 0"
  using assms by (auto simp: filealloc_def find_Some_iff split: option.splits)

text \<open>C38: A file that has just been allocated has no type yet, and fileclose panics on such a file. So the calls open and pipe
  panic the kernel where they mean to clean up and return -1: open when the process has no free descriptor, and pipe when
  there is no second free file or no free page.
\<close>

theorem failed_allocation_panics:
  assumes a: "filealloc k = (k1, Some i)" and ty: "f_type (files k i) = FD_NONE"
  shows "((\<forall>fd < NOFILE. ofile (cur me k) fd \<noteq> None) \<longrightarrow>
      open_fd ks me ip omode k = Inl (Panic ''fileclose unmatched'')) \<and>
    (snd (filealloc k1) = None \<or> freelist (kmem k) = 0 \<longrightarrow> pipealloc ks me k = Inl (Panic ''fileclose unmatched''))"
proof (intro conjI impI)
  note k1 = filealloc_found [OF a]
  have closed: "fileclose ks me i k2 = Inl (Panic ''fileclose unmatched'')" if "files k2 i = files k1 i" for k2
    using ty that by (intro fileclose_untyped) (simp_all add: k1)
  assume "\<forall>fd < NOFILE. ofile (cur me k) fd \<noteq> None"
  then have "fdalloc me i k1 = (k1, None)" by (auto simp: fdalloc_def k1 find_None_iff cur_def split: option.splits)
  then show "open_fd ks me ip omode k = Inl (Panic ''fileclose unmatched'')"
    using a closed by (simp add: open_fd_def open_fail_def)
next
  note k1 = filealloc_found [OF a]
  have closed: "fileclose ks me i k2 = Inl (Panic ''fileclose unmatched'')" if "files k2 i = files k1 i" for k2
    using ty that by (intro fileclose_untyped) (simp_all add: k1)
  assume h: "snd (filealloc k1) = None \<or> freelist (kmem k) = 0"
  obtain k2 r where f: "filealloc k1 = (k2, r)" by fastforce
  show "pipealloc ks me k = Inl (Panic ''fileclose unmatched'')"
  proof (cases r)
    case None
    then show ?thesis using a f closed filealloc_none [of k1 k2] by (simp add: pipealloc_def pipe_bad_def)
  next
    case (Some j)
    note k2 = filealloc_found [OF f [unfolded Some]]
    have "i \<noteq> j" using k1 k2(2) by auto
    moreover have "kmem k2 = kmem k" by (simp add: k1 k2 kmem_def)
    then have "kalloc (kmem k2) = (kmem k, 0)" using h f Some by (simp add: kalloc_def)
    ultimately show ?thesis using a f Some closed [of "set_kmem (kmem k) k2"] k2(1)
      by (simp add: pipealloc_def pipe_bad_def)
  qed
qed

theorem failed_allocation_panics_witness:
  "pipealloc \<lparr>ksym_end = 0, ksym_trampoline = 0, ksym_forkret = 0\<rparr> 0 (demo_kern 4) = Inl (Panic ''fileclose unmatched'')"
proof -
  have "filealloc (demo_kern 4) = (upd_file 1 (\<lambda>f. f\<lparr>f_ref := 1\<rparr>) (demo_kern 4), Some 1)"
    by (simp add: filealloc_def demo_kern_def NFILE_def upt_conv_Cons)
  moreover have "f_type (files (demo_kern 4) 1) = FD_NONE" "freelist (kmem (demo_kern 4)) = 0"
    by (simp_all add: demo_kern_def kmem_def)
  ultimately show ?thesis using failed_allocation_panics by blast
qed

section \<open>kill\<close>

text \<open>C40: Unused slots of the process table have the number 0, and kill looks for the number in all slots. So kill(0) returns
  success without a process, and marks the first unused slot; the process that is next allocated there, by fork, starts
  its life as killed.
\<close>

theorem kill_zero_marks_next_process:
  assumes u: "find (\<lambda>i. pstate (procs t i) = UNUSED) [0..<NPROC] = Some i"
    and z: "find (\<lambda>i. pid (procs t i) = 0) [0..<NPROC] = Some i"
  shows "snd (kill 0 t) = 0 \<and> (\<forall>ks t' n. allocproc ks (fst (kill 0 t)) = Inr (t', Some n) \<longrightarrow> n = i \<and> killed (procs t' n))"
proof -
  have un: "pstate (procs t i) = UNUSED" using u by (auto simp: find_Some_iff)
  let ?t = "upd_proc i (\<lambda>p. p\<lparr>killed := True\<rparr>) t"
  have k: "kill 0 t = (?t, 0)" using z un by (simp add: kill_def upd_proc_def)
  have "(\<lambda>j. pstate (procs ?t j) = UNUSED) = (\<lambda>j. pstate (procs t j) = UNUSED)"
    by (auto simp: upd_proc_def fun_eq_iff)
  then have "find (\<lambda>j. pstate (procs ?t j) = UNUSED) [0..<NPROC] = Some i" using u by simp
  then show ?thesis
    by (auto simp: k allocproc_def allocpid_def Let_def ebind_def upd_proc_def split: prod.splits if_splits sum.splits)
qed

theorem kill_zero_marks_next_process_witness:
  "snd (kill 0 \<lparr>mm = \<lparr>phys = (\<lambda>_. 0), freelist = 0\<rparr>, procs = (\<lambda>_. demo_proc\<lparr>pstate := UNUSED, pid := 0\<rparr>)(0 := demo_proc),
    nextpid = 2, initproc = None\<rparr>) = 0"
proof -
  let ?t = "\<lparr>mm = \<lparr>phys = (\<lambda>_. 0), freelist = 0\<rparr>, procs = (\<lambda>_. demo_proc\<lparr>pstate := UNUSED, pid := 0\<rparr>)(0 := demo_proc),
    nextpid = 2, initproc = None\<rparr>"
  have "find (\<lambda>i. pstate (procs ?t i) = UNUSED) [0..<NPROC] = Some 1" "find (\<lambda>i. pid (procs ?t i) = 0) [0..<NPROC] = Some 1"
    by (simp_all add: NPROC_def demo_proc_def upt_conv_Cons)
  then show ?thesis using kill_zero_marks_next_process by blast
qed

end
