(* ===== verification/Trap.thy ===== *)
theory Trap
  imports Sysproc
begin

text \<open>
  \<^verbatim>\<open>kernel/trap.c\<close>, \<^verbatim>\<open>forkret\<close> of \<^verbatim>\<open>kernel/proc.c\<close> and \<^verbatim>\<open>kernel/plic.c\<close>: traps from user space and from the kernel, and
  interrupts. The control registers of the hart are a record; what the devices offer at the time of an interrupt is
  another one.
\<close>

record csrs =
  sstatus :: u32
  scause :: u32
  sepc :: u32
  stvec :: u32
  satp :: u32
  sip :: u32
  tp :: u32

text \<open>Addresses of code: the assembly entry points and \<^verbatim>\<open>usertrap\<close>.\<close>

record tsyms =
  kernelvec :: u32
  uservec :: u32
  userret :: u32
  usertrap_addr :: u32

definition SSTATUS_SPP :: u32 where "SSTATUS_SPP = push_bit 8 1"
definition SSTATUS_SPIE :: u32 where "SSTATUS_SPIE = push_bit 5 1"
definition SSTATUS_SIE :: u32 where "SSTATUS_SIE = push_bit 1 1"
definition SATP_SV32 :: u32 where "SATP_SV32 = push_bit 31 1"

definition MAKE_SATP :: "u32 \<Rightarrow> u32" where "MAKE_SATP pt = SATP_SV32 OR drop_bit 12 pt"

definition UART0_IRQ :: int where "UART0_IRQ = 10"
definition VIRTIO0_IRQ :: int where "VIRTIO0_IRQ = 1"
definition E1000_IRQ :: int where "E1000_IRQ = 33"

section \<open>The interrupt controller\<close>

text \<open>
  The registers of the PLIC are a memory of words. Reading the claim register of a hart gives the pending interrupt, an
  argument of the model.
\<close>

type_synonym plic = "u32 \<Rightarrow> u32"

definition PLIC_SENABLE :: "u32 \<Rightarrow> u32" where "PLIC_SENABLE hart = PLIC + 0x2080 + hart * 0x100"
definition PLIC_SPRIORITY :: "u32 \<Rightarrow> u32" where "PLIC_SPRIORITY hart = PLIC + 0x201000 + hart * 0x2000"
definition PLIC_SCLAIM :: "u32 \<Rightarrow> u32" where "PLIC_SCLAIM hart = PLIC + 0x201004 + hart * 0x2000"

definition plicinit :: "plic \<Rightarrow> plic" where
  "plicinit r =
    (let r = r(PLIC + word_of_int UART0_IRQ * 4 := 1, PLIC + word_of_int VIRTIO0_IRQ * 4 := 1)
     in fold (\<lambda>irq r. r(PLIC + of_nat irq * 4 := 1)) [1..<0x35] r)"

definition plicinithart :: "u32 \<Rightarrow> plic \<Rightarrow> plic" where
  "plicinithart hart r =
    r(PLIC_SENABLE hart := push_bit (nat UART0_IRQ) 1 OR push_bit (nat VIRTIO0_IRQ) 1,
      PLIC_SENABLE hart + 4 := 0xffffffff, PLIC_SPRIORITY hart := 0)"

definition plic_claim :: "u32 \<Rightarrow> plic \<Rightarrow> int" where
  "plic_claim hart r = sint (r (PLIC_SCLAIM hart))"

definition plic_complete :: "u32 \<Rightarrow> int \<Rightarrow> plic \<Rightarrow> plic" where
  "plic_complete hart irq r = r(PLIC_SCLAIM hart := word_of_int irq)"

section \<open>Interrupts\<close>

text \<open>
  What the devices offer when an interrupt is taken: the registers of the PLIC, the bytes that the UART has received and
  the space in its transmitter, and the interrupt status of the disk.
\<close>

record devices =
  dv_plic :: plic
  dv_uart_in :: "u8 list"
  dv_uart_room :: nat
  dv_disk_ist :: u32

definition clockintr :: "nat option \<Rightarrow> kern \<Rightarrow> kern" where
  "clockintr me k = k\<lparr>ticks := ticks k + 1, ktbl := wakeup me ChTicks (ktbl k)\<rparr>"

definition dispatch_irq :: "ksyms \<Rightarrow> nat option \<Rightarrow> devices \<Rightarrow> int \<Rightarrow> kern \<Rightarrow> kern res" where
  "dispatch_irq ks me dv irq k =
    (if irq = UART0_IRQ
     then ebind (run_cons (\<lambda>s. ebind (uartintr me (dv_uart_room dv) (dv_uart_in dv) s) (\<lambda>s. Inr (s, ()))) k)
       (\<lambda>(k, _). Inr k)
     else if irq = VIRTIO0_IRQ then run_disk (virtio_disk_intr me (dv_disk_ist dv)) k
     else if irq = E1000_IRQ
     then ebind (run_net (\<lambda>s. ebind (e1000_intr ks me s) (\<lambda>s. Inr (s, ()))) k) (\<lambda>(k, _). Inr k)
     else Inr k)"

text \<open>The result is that of \<^verbatim>\<open>devintr\<close>: 2 for the timer, 1 for another device, 0 if the cause is not an interrupt.\<close>

definition devintr ::
  "ksyms \<Rightarrow> nat option \<Rightarrow> devices \<Rightarrow> csrs \<Rightarrow> kern \<Rightarrow> (kern \<times> devices \<times> csrs \<times> int) res" where
  "devintr ks me dv c k =
    (if scause c AND 0x80000000 \<noteq> 0 \<and> scause c AND 0xff = 9
     then
       let irq = plic_claim (tp c) (dv_plic dv)
       in ebind (dispatch_irq ks me dv irq k) (\<lambda>k.
            Inr (k, if irq \<noteq> 0 then dv\<lparr>dv_plic := plic_complete (tp c) irq (dv_plic dv)\<rparr> else dv, c, 1))
     else if scause c = 0x80000001
     then Inr (if tp c = 0 then clockintr me k else k, dv, c\<lparr>sip := sip c AND NOT 2\<rparr>, 2)
     else Inr (k, dv, c, 0))"

section \<open>Traps from user space\<close>

text \<open>The ways in which a trap leaves the kernel's code: to user space with the given \<^verbatim>\<open>satp\<close>, asleep, ended, or yielding.\<close>

datatype trapout = ToUser u32 | Waits chan | Ended | Yields

definition usertrapret :: "ksyms \<Rightarrow> tsyms \<Rightarrow> nat \<Rightarrow> csrs \<Rightarrow> kern \<Rightarrow> kern \<times> csrs \<times> trapout" where
  "usertrapret ks ts me c k =
    (let c = c\<lparr>sstatus := sstatus c AND NOT SSTATUS_SIE\<rparr>;
         c = c\<lparr>stvec := TRAMPOLINE + (uservec ts - ksym_trampoline ks)\<rparr>;
         k = tf_set me TF_kernel_satp (satp c) k;
         k = tf_set me TF_kernel_sp (kstack (cur me k) + PGSIZE) k;
         k = tf_set me TF_kernel_trap (usertrap_addr ts) k;
         k = tf_set me TF_kernel_hartid (tp c) k;
         c = c\<lparr>sstatus := (sstatus c AND NOT SSTATUS_SPP) OR SSTATUS_SPIE, sepc := tf_get me TF_epc k\<rparr>
     in (k, c, ToUser (MAKE_SATP (pagetable (cur me k)))))"

definition trap_exit :: "ksyms \<Rightarrow> nat \<Rightarrow> csrs \<Rightarrow> kern \<Rightarrow> (kern \<times> csrs \<times> trapout) res" where
  "trap_exit ks me c k =
    ebind (exit ks me (- 1) k) (\<lambda>(k, r). Inr (k, c, case r of Return _ \<Rightarrow> Ended | Sleeps ch \<Rightarrow> Waits ch))"

text \<open>
  The end of \<^verbatim>\<open>usertrap\<close>, where it also comes to once a system call that slept returns. A process that yields goes on
  with \<^verbatim>\<open>usertrapret\<close> when it runs again.
\<close>

definition usertrap_end :: "ksyms \<Rightarrow> tsyms \<Rightarrow> nat \<Rightarrow> int \<Rightarrow> csrs \<Rightarrow> kern \<Rightarrow> (kern \<times> csrs \<times> trapout) res" where
  "usertrap_end ks ts me which_dev c k =
    (if killed (cur me k) then trap_exit ks me c k
     else if which_dev = 2 then Inr (upd_cur me (\<lambda>p. p\<lparr>pstate := RUNNABLE\<rparr>) k, c, Yields)
     else Inr (usertrapret ks ts me c k))"

definition usertrap ::
  "ksyms \<Rightarrow> tsyms \<Rightarrow> (nat \<Rightarrow> nat) \<Rightarrow> nat \<Rightarrow> devices \<Rightarrow> csrs \<Rightarrow> kern \<Rightarrow> (kern \<times> csrs \<times> trapout) res" where
  "usertrap ks ts room me dv c k =
    (if sstatus c AND SSTATUS_SPP \<noteq> 0 then Inl (Panic ''usertrap: not from user mode'')
     else
       let c = c\<lparr>stvec := kernelvec ts\<rparr>;
           k = tf_set me TF_epc (sepc c) k
       in if scause c = 8
          then
            if killed (cur me k) then trap_exit ks me c k
            else
              let k = tf_set me TF_epc (tf_get me TF_epc k + 4) k;
                  c = c\<lparr>sstatus := sstatus c OR SSTATUS_SIE\<rparr>
              in ebind (syscall ks room me k) (\<lambda>(k, r).
                   case r of
                     Back \<Rightarrow> usertrap_end ks ts me 0 c k
                   | Asleep ch \<Rightarrow> Inr (k, c, Waits ch)
                   | Gone \<Rightarrow> Inr (k, c, Ended))
          else
            ebind (devintr ks (Some me) dv c k) (\<lambda>(k, dv, c, which_dev).
              usertrap_end ks ts me which_dev c
                (if which_dev = 0 then upd_cur me (\<lambda>p. p\<lparr>killed := True\<rparr>) k else k)))"

text \<open>\<^verbatim>\<open>forkret\<close>, which a new process runs first.\<close>

definition forkret :: "ksyms \<Rightarrow> tsyms \<Rightarrow> nat \<Rightarrow> csrs \<Rightarrow> kern \<Rightarrow> (kern \<times> csrs \<times> trapout) res" where
  "forkret ks ts me c k =
    ebind (if first k then run_fs me (fsinit ROOTDEV) (k\<lparr>first := False\<rparr>) else Inr k) (\<lambda>k.
    Inr (usertrapret ks ts me c k))"

section \<open>Traps from the kernel\<close>

text \<open>\<open>me\<close> is the process that runs on the hart, if any; the result tells whether it yields before the trap returns.\<close>

definition kerneltrap ::
  "ksyms \<Rightarrow> nat option \<Rightarrow> devices \<Rightarrow> csrs \<Rightarrow> kern \<Rightarrow> (kern \<times> csrs \<times> bool) res" where
  "kerneltrap ks me dv c k =
    (if sstatus c AND SSTATUS_SPP = 0 then Inl (Panic ''kerneltrap: not from supervisor mode'')
     else if sstatus c AND SSTATUS_SIE \<noteq> 0 then Inl (Panic ''kerneltrap: interrupts enabled'')
     else
       ebind (devintr ks me dv c k) (\<lambda>(k, dv, c', which_dev).
         if which_dev = 0 then Inl (Panic ''kerneltrap'')
         else
           let c' = c'\<lparr>sepc := sepc c, sstatus := sstatus c\<rparr>
           in case me of
                Some p \<Rightarrow>
                  if which_dev = 2 \<and> pstate (cur p k) = RUNNING
                  then Inr (upd_cur p (\<lambda>x. x\<lparr>pstate := RUNNABLE\<rparr>) k, c', True) else Inr (k, c', False)
              | None \<Rightarrow> Inr (k, c', False)))"

end
