(* ===== verification/Boot.thy ===== *)
theory Boot
  imports Trap File_Life
begin

text \<open>
  The start of the kernel: \<^verbatim>\<open>kernel/start.c\<close> in machine mode with the timer interrupts it asks for (\<^verbatim>\<open>timervec\<close> of
  \<^verbatim>\<open>kernel/kernelvec.S\<close>), \<^verbatim>\<open>kernel/main.c\<close>, which initialises all parts in order, \<^verbatim>\<open>kernel/pci.c\<close>, and the registers of the
  network card (\<^verbatim>\<open>kernel/e1000.c\<close>). The theory shows that the state after the boot satisfies the invariant of the files that
  the system calls keep.
\<close>

section \<open>Machine mode\<close>

record hart = csrs +
  mhartid :: u32
  mstatus :: u32
  mepc :: u32
  medeleg :: u32
  mideleg :: u32
  sie :: u32
  mie :: u32
  mscratch :: u32
  mtvec :: u32

definition MSTATUS_MPP_MASK :: u32 where "MSTATUS_MPP_MASK = push_bit 11 3"
definition MSTATUS_MPP_S :: u32 where "MSTATUS_MPP_S = push_bit 11 1"
definition MSTATUS_MIE :: u32 where "MSTATUS_MIE = push_bit 3 1"
definition SIE_SEIE :: u32 where "SIE_SEIE = push_bit 9 1"
definition SIE_STIE :: u32 where "SIE_STIE = push_bit 5 1"
definition SIE_SSIE :: u32 where "SIE_SSIE = push_bit 1 1"
definition MIE_MTIE :: u32 where "MIE_MTIE = push_bit 7 1"

text \<open>
  The clock and the comparison register of a hart in the CLINT. Both have 64 bits, which the kernel accesses as two
  words, of which it uses the lower ones.
\<close>

record clint =
  mtime_lo :: u32
  mtime_hi :: u32
  mtimecmp_lo :: u32
  mtimecmp_hi :: u32

definition CLINT_MTIMECMP :: "u32 \<Rightarrow> u32" where "CLINT_MTIMECMP hart = 0x2000000 + 0x4000 + 8 * hart"

definition INTERVAL :: u32 where "INTERVAL = 1000000"

text \<open>\<open>timer_scratch\<close> is the array of that name, here the words of the hart; \<open>scratch_addr\<close> is the address of its row.\<close>

definition timerinit :: "u32 \<Rightarrow> u32 \<Rightarrow> hart \<times> clint \<times> (nat \<Rightarrow> u32) \<Rightarrow> hart \<times> clint \<times> (nat \<Rightarrow> u32)" where
  "timerinit scratch_addr timervec = (\<lambda>(h, c, scratch).
    (let c = c\<lparr>mtimecmp_lo := mtime_lo c + INTERVAL\<rparr>;
         scratch = scratch(3 := CLINT_MTIMECMP (mhartid h), 4 := INTERVAL);
         h = h\<lparr>mscratch := scratch_addr, mtvec := timervec, mstatus := mstatus h OR MSTATUS_MIE, mie := mie h OR MIE_MTIE\<rparr>
     in (h, c, scratch)))"

definition start :: "u32 \<Rightarrow> u32 \<Rightarrow> u32 \<Rightarrow> hart \<times> clint \<times> (nat \<Rightarrow> u32) \<Rightarrow> hart \<times> clint \<times> (nat \<Rightarrow> u32)" where
  "start main_addr scratch_addr timervec = (\<lambda>(h, c, scratch).
    (let h = h\<lparr>mstatus := (mstatus h AND NOT MSTATUS_MPP_MASK) OR MSTATUS_MPP_S, mepc := main_addr, satp := 0, medeleg := 0xffff,
           mideleg := 0xffff, sie := sie h OR SIE_SEIE OR SIE_STIE OR SIE_SSIE\<rparr>;
         (h, c, scratch) = timerinit scratch_addr timervec (h, c, scratch)
     in (h\<lparr>tp := mhartid h\<rparr>, c, scratch)))"

text \<open>
  The handler of timer interrupts, without the registers that it saves and restores: it moves the lower word of the
  comparison register and raises a software interrupt.
\<close>

definition timervec :: "(nat \<Rightarrow> u32) \<Rightarrow> hart \<times> clint \<Rightarrow> hart \<times> clint" where
  "timervec scratch = (\<lambda>(h, c). (h\<lparr>sip := 2\<rparr>, c\<lparr>mtimecmp_lo := mtimecmp_lo c + scratch 4\<rparr>))"

definition timer_pending :: "clint \<Rightarrow> bool" where
  "timer_pending c \<longleftrightarrow> mtimecmp_hi c < mtime_hi c \<or> mtimecmp_hi c = mtime_hi c \<and> mtimecmp_lo c \<le> mtime_lo c"

text \<open>
  The upper word of the comparison register stays as it was at reset. Once the clock has passed that value, the interrupt
  is pending again as soon as the handler has returned, however often it runs.
\<close>

lemma timer_storm:
  assumes "mtimecmp_hi c < mtime_hi c"
  shows "timer_pending (snd ((timervec scratch ^^ n) (h, c)))"
proof -
  have "mtimecmp_hi (snd ((timervec scratch ^^ n) (h, c))) = mtimecmp_hi c \<and> mtime_hi (snd ((timervec scratch ^^ n) (h, c))) = mtime_hi c"
    by (induction n) (auto simp: timervec_def split_beta)
  then show ?thesis using assms by (simp add: timer_pending_def)
qed

lemma start_keeps_reset_value:
  "mtimecmp_hi (fst (snd (start m a tv (h, c, sc)))) = mtimecmp_hi c"
  by (simp add: start_def timerinit_def Let_def)

section \<open>The network card\<close>

text \<open>
  The writes of \<^verbatim>\<open>e1000_init\<close> to the registers of the card, in order, by index of the register; \<open>tx\<close> and \<open>rx\<close> are the
  addresses of the rings.
\<close>

definition e1000_regs :: "u32 \<Rightarrow> u32 \<Rightarrow> (nat \<times> u32) list" where
  "e1000_regs tx rx =
    [(0x00d0 div 4, 0),
     (0x3800 div 4, tx), (0x3808 div 4, 256), (0x3818 div 4, 0), (0x3810 div 4, 0),
     (0x2800 div 4, rx), (0x2810 div 4, 0), (0x2818 div 4, 15), (0x2808 div 4, 256),
     (0x5400 div 4, 0x12005452), (0x5404 div 4, 0x5634 OR push_bit 31 1)] @
    map (\<lambda>i. (0x5200 div 4 + i, 0)) [0..<128] @
    [(0x0400 div 4, push_bit 12 0x40 OR push_bit 4 0x10 OR push_bit 3 1 OR push_bit 1 1),
     (0x0410 div 4, push_bit 20 6 OR push_bit 10 8 OR 10),
     (0x0100 div 4, push_bit 24 4 OR push_bit 12 8 OR push_bit 1 1),
     (0x282c div 4, 0), (0x2820 div 4, 0), (0x00d0 div 4, push_bit 7 1)]"

section \<open>Booting\<close>

record boot =
  bkern :: kern
  bhart :: hart
  bplic :: plic
  locking :: bool
  kernel_pagetable :: u32
  pci_writes :: "(u32 \<times> u32) list"
  nic_writes :: "(nat \<times> u32) list"
  started :: bool

text \<open>Addresses of code and data, and what the registers of the devices read.\<close>

record bsyms =
  b_ksyms :: ksyms
  b_etext :: u32
  b_kernelvec :: u32
  b_initcode :: u32
  b_pages :: u32
  b_tx_ring :: u32
  b_rx_ring :: u32

record bdevs =
  pci_id :: "nat \<Rightarrow> u32"
  virtio_reg :: "u32 \<Rightarrow> u32"

definition printfinit :: "boot \<Rightarrow> boot" where
  "printfinit b = b\<lparr>locking := True\<rparr>"

definition kvminit :: "u32 \<Rightarrow> u32 \<Rightarrow> boot \<Rightarrow> boot res" where
  "kvminit etext trampoline b =
    ebind (kvmmake etext trampoline (kmem (bkern b))) (\<lambda>(m, pt). Inr (b\<lparr>bkern := set_kmem m (bkern b), kernel_pagetable := pt\<rparr>))"

definition kvminithart :: "boot \<Rightarrow> boot" where
  "kvminithart b = b\<lparr>bhart := (bhart b)\<lparr>satp := MAKE_SATP (kernel_pagetable b)\<rparr>\<rparr>"

definition trapinithart :: "u32 \<Rightarrow> boot \<Rightarrow> boot" where
  "trapinithart kv b = b\<lparr>bhart := (bhart b)\<lparr>stvec := kv\<rparr>\<rparr>"

definition boot_print :: "u8 list \<Rightarrow> boot \<Rightarrow> boot res" where
  "boot_print bs b = ebind (run_cons (\<lambda>s. ebind (consputs bs s) (\<lambda>s. Inr (s, ()))) (bkern b)) (\<lambda>(k, _). Inr (b\<lparr>bkern := k\<rparr>))"

text \<open>
  \<^verbatim>\<open>panic\<close>, which elsewhere is the outcome \<open>Panic\<close>: what the machine has printed when the hart begins to loop. From then on
  output of any hart loops too.
\<close>

definition panic :: "string \<Rightarrow> boot \<Rightarrow> boot res" where
  "panic str b =
    ebind (boot_print (bytes ''panic: '') (b\<lparr>locking := False\<rparr>)) (\<lambda>b.
    ebind (boot_print (the (printf (bytes str) [])) b) (\<lambda>b.
    ebind (boot_print [10] b) (\<lambda>b.
      Inr (b\<lparr>bkern := (bkern b)\<lparr>kcons := (kcons (bkern b))\<lparr>panicked := True\<rparr>\<rparr>\<rparr>))))"

lemma panic_freezes_output: "panic str b = Inr b' \<Longrightarrow> boot_print (c # bs) b' = Inl Diverges"
  by (auto simp: panic_def boot_print_def run_cons_def consputc_def uartputc_sync_def ebind_def split: sum.splits)

definition E1000_ID :: u32 where "E1000_ID = 0x100e8086"

text \<open>The devices of bus 0; the address of a device's registers is an index of words.\<close>

definition ecam :: "nat \<Rightarrow> u32" where "ecam dev = 0x30000000 + 4 * push_bit 11 (of_nat dev)"

definition pci_device :: "u32 \<Rightarrow> u32 \<Rightarrow> nat \<Rightarrow> boot \<Rightarrow> boot res" where
  "pci_device tx rx dev b =
    ebind (boot_print (bytes ''E1000 found'' @ [10]) b) (\<lambda>b.
      let b = b\<lparr>pci_writes := pci_writes b @ [(ecam dev + 4, 0x7), (ecam dev + 16, 0x40000000)]\<rparr>
      in ebind (run_net (\<lambda>s. ebind (e1000_init s) (\<lambda>s. Inr (s, ()))) (bkern b)) (\<lambda>(k, _).
           Inr (b\<lparr>bkern := k, nic_writes := nic_writes b @ e1000_regs tx rx\<rparr>)))"

fun pci_scan :: "(nat \<Rightarrow> u32) \<Rightarrow> u32 \<Rightarrow> u32 \<Rightarrow> nat list \<Rightarrow> boot \<Rightarrow> boot res" where
  "pci_scan ids tx rx [] b = Inr b"
| "pci_scan ids tx rx (dev # devs) b =
    (if ids dev = E1000_ID then ebind (pci_device tx rx dev b) (pci_scan ids tx rx devs) else pci_scan ids tx rx devs b)"

definition pci_init :: "(nat \<Rightarrow> u32) \<Rightarrow> u32 \<Rightarrow> u32 \<Rightarrow> boot \<Rightarrow> boot res" where
  "pci_init ids tx rx b = pci_scan ids tx rx [0..<32] b"

text \<open>
  \<^verbatim>\<open>main\<close> on the first hart, up to the scheduler. The functions that only initialise a spin lock (\<^verbatim>\<open>trapinit\<close>, \<^verbatim>\<open>fileinit\<close>,
  \<^verbatim>\<open>socket_init\<close>, \<^verbatim>\<open>arp_init\<close>, \<^verbatim>\<open>tcp_init\<close>, \<^verbatim>\<open>udp_init\<close>) have no effect here.
\<close>

definition main_memory :: "bsyms \<Rightarrow> boot \<Rightarrow> boot res" where
  "main_memory y b =
    ebind (kinit (ksym_end (b_ksyms y)) (kmem (bkern b))) (\<lambda>m.
      ebind (kvminit (b_etext y) (ksym_trampoline (b_ksyms y)) (b\<lparr>bkern := set_kmem m (bkern b)\<rparr>)) (\<lambda>b. Inr (kvminithart b)))"

definition main_devices :: "bsyms \<Rightarrow> bdevs \<Rightarrow> boot \<Rightarrow> boot res" where
  "main_devices y d b =
    (let k = bkern b;
         b = b\<lparr>bkern := k\<lparr>ktbl := procinit (ktbl k)\<rparr>\<rparr>;
         b = trapinithart (b_kernelvec y) b;
         b = b\<lparr>bplic := plicinithart (tp (bhart b)) (plicinit (bplic b))\<rparr>;
         b = b\<lparr>bkern := (bkern b)\<lparr>kfs := iinit (binit (kfs (bkern b)))\<rparr>\<rparr>
     in ebind (run_disk (virtio_disk_init (virtio_reg d) (b_pages y)) (bkern b)) (\<lambda>k.
          pci_init (pci_id d) (b_tx_ring y) (b_rx_ring y) (b\<lparr>bkern := k\<rparr>)))"

definition main_first :: "bsyms \<Rightarrow> bdevs \<Rightarrow> boot \<Rightarrow> boot res" where
  "main_first y d b =
    (let b = b\<lparr>bkern := (bkern b)\<lparr>kcons := consoleinit (kcons (bkern b))\<rparr>\<rparr>; b = printfinit b
     in ebind (boot_print [10] b) (\<lambda>b.
        ebind (boot_print (bytes ''xv6 kernel is booting'' @ [10]) b) (\<lambda>b.
        ebind (boot_print [10] b) (\<lambda>b.
        ebind (main_memory y b) (\<lambda>b.
        ebind (main_devices y d b) (\<lambda>b.
        ebind (userinit (b_ksyms y) (b_initcode y) (bkern b)) (\<lambda>k.
        boot_print (bytes ''starting xv6...'' @ [10]) (b\<lparr>bkern := k, started := True\<rparr>))))))))"

text \<open>\<^verbatim>\<open>main\<close> on the other harts, once the first hart has started.\<close>

definition main_other :: "bsyms \<Rightarrow> boot \<Rightarrow> boot res" where
  "main_other y b =
    (if \<not> started b then Inl Blocked
     else
       ebind (boot_print (the (printf (bytes ''hart %d starting'' @ [10]) [VInt (tp (bhart b))])) b) (\<lambda>b.
         let b = trapinithart (b_kernelvec y) (kvminithart b)
         in Inr (b\<lparr>bplic := plicinithart (tp (bhart b)) (bplic b)\<rparr>)))"

definition main :: "bsyms \<Rightarrow> bdevs \<Rightarrow> boot \<Rightarrow> boot res" where
  "main y d b = (if tp (bhart b) = 0 then main_first y d b else main_other y b)"

section \<open>The files after the boot\<close>

text \<open>No step of the boot opens a file.\<close>

definition still :: "kern \<Rightarrow> kern \<Rightarrow> bool" where
  "still k k' \<longleftrightarrow> fds_kept (ktbl k) (ktbl k') \<and> files k' = files k"

lemma still_refl [simp]: "still k k"
  by (simp add: still_def)

lemma still_simps [simp]:
  "still k (k'\<lparr>kfs := s\<rparr>) = still k k'" "still k (k'\<lparr>kcons := c\<rparr>) = still k k'" "still k (k'\<lparr>knet := n\<rparr>) = still k k'"
  "still k (k'\<lparr>kdisk := v\<rparr>) = still k k'" "still k (set_kmem m k') = still k k'"
  "still k (k'\<lparr>ktbl := procinit (ktbl k')\<rparr>) = still k k'"
  by (auto simp: still_def set_kmem_def procinit_def fds_kept_def idle_def)

lemma consputs_tbl: "consputs bs s = Inr s' \<Longrightarrow> ctbl s' = ctbl s"
  by (induction bs arbitrary: s) (auto simp: consputc_def uartputc_sync_def ebind_eq_Inr split: if_splits)

lemma boot_print_still:
  "still k (bkern b) \<Longrightarrow> (\<And>b'. still k (bkern b') \<Longrightarrow> Q b') \<Longrightarrow> ens (boot_print bs b) Q"
  by (auto simp: boot_print_def run_cons_def ens_def still_def dest!: consputs_tbl)

lemma e1000_rx_loop_frame: "e1000_rx_loop is s = Inr s' \<Longrightarrow> fds_kept t (ntbl s) \<Longrightarrow> fds_kept t (ntbl s')"
  by (induction "is" arbitrary: s) (auto split: prod.splits if_splits dest!: fk.mbuf_alloc_frame)

lemma e1000_init_frame: "e1000_init s = Inr s' \<Longrightarrow> fds_kept t (ntbl s) \<Longrightarrow> fds_kept t (ntbl s')"
  by (auto simp: e1000_init_def e1000_rx_init_def e1000_tx_init_def ebind_eq_Inr dest!: e1000_rx_loop_frame)

lemma pci_device_still:
  "still k (bkern b) \<Longrightarrow> (\<And>b'. still k (bkern b') \<Longrightarrow> Q b') \<Longrightarrow> ens (pci_device tx rx dev b) Q"
  unfolding pci_device_def ens_ebind
  by (rule boot_print_still, assumption)
    (auto simp: Let_def run_net_def ens_def still_def dest: e1000_init_frame)

lemma pci_scan_still:
  "still k (bkern b) \<Longrightarrow> (\<And>b'. still k (bkern b') \<Longrightarrow> Q b') \<Longrightarrow> ens (pci_scan ids tx rx devs b) Q"
proof (induction devs arbitrary: b)
  case (Cons dev devs)
  then show ?case by (auto intro: pci_device_still)
qed simp

lemma main_memory_still:
  "still k (bkern b) \<Longrightarrow> (\<And>b'. still k (bkern b') \<Longrightarrow> Q b') \<Longrightarrow> ens (main_memory y b) Q"
  by (auto simp: main_memory_def kvminit_def kvminithart_def intro!: ens_any [where r = "kinit _ _"] ens_any [where r = "kvmmake _ _ _"])

lemma virtio_disk_init_tbl: "virtio_disk_init rd pages v = Inr v' \<Longrightarrow> vtbl v' = vtbl v"
  by (auto simp: virtio_disk_init_def wreg_def Let_def split: if_splits)

lemma disk_init_still:
  "still k k1 \<Longrightarrow> (\<And>k2. still k k2 \<Longrightarrow> Q k2) \<Longrightarrow> ens (run_disk (virtio_disk_init rd pages) k1) Q"
  by (auto simp: run_disk_def ens_def still_def dest!: virtio_disk_init_tbl)

lemma main_devices_still:
  "still k (bkern b) \<Longrightarrow> (\<And>b'. still k (bkern b') \<Longrightarrow> Q b') \<Longrightarrow> ens (main_devices y d b) Q"
  by (simp add: main_devices_def Let_def trapinithart_def pci_init_def) (rule disk_init_still, simp, rule pci_scan_still, simp_all)

lemma userinit_still:
  assumes "still k k1" "\<And>k2. still k k2 \<Longrightarrow> Q k2"
  shows "ens (userinit ks ic k1) Q"
proof -
  have fin: "still k (upd_cur p (\<lambda>x. x\<lparr>pname := a, cwd := d, pstate := RUNNABLE\<rparr>)
      ((tf_set p TF_sp PGSIZE (tf_set p TF_epc 0 (upd_cur p (\<lambda>x. x\<lparr>psz := PGSIZE\<rparr>) (set_kmem m k2))))\<lparr>kfs := s\<rparr>))"
    if "still k k2" for k2 p m a d s
    using that by (auto simp: still_def upd_cur_def tf_set_def set_kmem_def fds_kept_def upd_proc_def idle_def)
  have al: "still k (k1\<lparr>ktbl := t\<lparr>initproc := r\<rparr>\<rparr>)" if "allocproc ks (ktbl k1) = Inr (t, r)" for t r
    using allocproc_fds(1) [OF that] assms(1) by (auto simp: still_def fds_kept_def)
  show ?thesis
    unfolding userinit_def ens_ebind
  proof (rule ens_call, clarify)
    fix t r
    assume "allocproc ks (ktbl k1) = Inr (t, r)"
    note al = al [OF this]
    show "ens (let k = k1\<lparr>ktbl := t\<lparr>initproc := r\<rparr>\<rparr> in case r of None \<Rightarrow> Inl (Panic ''kerneltrap'')
      | Some p \<Rightarrow> ebind (uvminit (kmem k) (pagetable (cur p k)) ic 51) (\<lambda>m.
          let k = upd_cur p (\<lambda>x. x\<lparr>psz := PGSIZE\<rparr>) (set_kmem m k); k = tf_set p TF_sp PGSIZE (tf_set p TF_epc 0 k)
          in ebind (namei 0 [slash] (kfs k)) (\<lambda>(s, d).
               Inr (upd_cur p (\<lambda>x. x\<lparr>pname := ''initcode'', cwd := d, pstate := RUNNABLE\<rparr>) (k\<lparr>kfs := s\<rparr>))))) Q"
      using fin [OF al] assms(2) unfolding Let_def
      by (cases r) (auto intro!: ens_any [where r = "uvminit _ _ _ _"] ens_any [where r = "namei _ _ _"] simp del: still_simps)
  qed
qed

text \<open>
  The boot keeps the invariant of the references to files, which holds of a kernel whose tables are zero; after it, the
  system calls keep it.
\<close>

lemma zero_tables: "\<forall>p fd. ofile (procs (ktbl k) p) fd = None \<Longrightarrow> \<forall>i. f_ref (files k i) = 0 \<Longrightarrow> fd_ok k"
  by (simp add: fd_ok_def fd_bal_def fd_refs_def)

lemma boot_keeps_file_refs:
  assumes "fd_ok (bkern b)"
  shows "ens (main_first y d b) (\<lambda>b'. fd_ok (bkern b'))"
proof -
  have "fd_ok k" if "still (bkern b) k" for k using that fd_ok_kept [OF assms] by (simp add: still_def same_refs_def)
  then show ?thesis
    unfolding main_first_def Let_def ens_ebind
    by (intro boot_print_still [where k = "bkern b"] main_memory_still [where k = "bkern b"] main_devices_still [where k = "bkern b"]
      userinit_still [where k = "bkern b"]) (auto simp: printfinit_def)
qed

end
