(* ===== verification/Virtio_Props.thy ===== *)
theory Virtio_Props
  imports Virtio Ring
begin

text \<open>
  The driver of the disk together with the device. The device follows the virtio specification: it takes the heads of
  chains from the ring of requests, performs them in any order, and reports each in the ring of completions. The local
  variable \<^verbatim>\<open>idx[0]\<close> of each process in \<^verbatim>\<open>virtio_disk_rw\<close>, with its buffer and the kind of its request, is in \<open>reqs\<close>. The
  theory shows that the device performs exactly the transfers that were asked for, each of them once and before the
  process goes on, so that a transfer is one step for the code above the driver.
\<close>

section \<open>Driver and device\<close>

record vsys =
  drv :: vdisk
  dev_idx :: u16
  work :: "nat set"
  plat :: "64 word \<Rightarrow> bdata"
  vdata :: "nat \<Rightarrow> bdata"
  reqs :: "nat \<Rightarrow> (nat \<times> u32 \<times> bool) option"
  served :: "nat set"

definition nxt :: "vdisk \<Rightarrow> nat \<Rightarrow> nat" where
  "nxt v i = unat (d_next (desc v i))"

text \<open>
  The request that the device reads from a chain: the command header, the buffer and the status byte. The device follows the flags: a chain
  goes on as long as \<^verbatim>\<open>VRING_DESC_F_NEXT\<close> is set, it writes only to descriptors with \<^verbatim>\<open>VRING_DESC_F_WRITE\<close> and reads
  only from the others, and it expects 16 bytes of header, a block of data and one byte for the status. It takes no
  other chain.
\<close>

definition dev_request :: "vdisk \<Rightarrow> nat \<Rightarrow> (vreq \<times> nat \<times> nat) option" where
  "dev_request v h =
    (let d0 = desc v h; d1 = desc v (nxt v h); d2 = desc v (nxt v (nxt v h));
         goes_on = (\<lambda>d. d_flags d AND VRING_DESC_F_NEXT \<noteq> 0);
         to_write = (\<lambda>d. d_flags d AND VRING_DESC_F_WRITE \<noteq> 0)
     in case (d_addr d0, d_addr d1, d_addr d2) of
          (OpAddr i, DataAddr b, StatusAddr j) \<Rightarrow>
            if goes_on d0 \<and> goes_on d1 \<and> \<not> goes_on d2 \<and>
              \<not> to_write d0 \<and> (to_write d1 \<longleftrightarrow> q_type (ops v i) = VIRTIO_BLK_T_IN) \<and> to_write d2 \<and>
              d_len d0 = 16 \<and> d_len d1 = of_nat BSIZE \<and> d_len d2 = 1
            then Some (ops v i, b, j) else None
        | _ \<Rightarrow> None)"

definition dev_transfer :: "vreq \<Rightarrow> nat \<Rightarrow> vsys \<Rightarrow> vsys" where
  "dev_transfer q b s =
    (if q_type q = VIRTIO_BLK_T_IN then s\<lparr>vdata := (vdata s)(b := plat s (q_sector q))\<rparr>
     else s\<lparr>plat := (plat s)(q_sector q := vdata s b)\<rparr>)"

definition put_used :: "u32 \<Rightarrow> vsys \<Rightarrow> vsys" where
  "put_used h s =
    s\<lparr>drv := (drv s)\<lparr>used_ring := (used_ring (drv s))(unat (used_idx (drv s)) mod NUM := h),
      used_idx := used_idx (drv s) + 1\<rparr>\<rparr>"

definition dev_serve :: "nat \<Rightarrow> vsys \<Rightarrow> vsys" where
  "dev_serve h s =
    (case dev_request (drv s) h of
       None \<Rightarrow> s
     | Some (q, b, j) \<Rightarrow>
         let s = dev_transfer q b s;
             s = s\<lparr>drv := (drv s)\<lparr>info_status := (info_status (drv s))(j := 0)\<rparr>\<rparr>
         in (put_used (of_nat h) s)\<lparr>work := work s - {h}, served := insert h (served s)\<rparr>)"

definition get_avail :: "vsys \<Rightarrow> u16 \<times> vsys" where
  "get_avail s = (avail_ring (drv s) (unat (dev_idx s) mod NUM), s\<lparr>dev_idx := dev_idx s + 1\<rparr>)"

definition dev_fetch :: "vsys \<Rightarrow> vsys" where
  "dev_fetch s = (let (h, s) = get_avail s in s\<lparr>work := insert (unat h) (work s)\<rparr>)"

text \<open>
  The steps. A process that starts a request holds the lock of its buffer, so that no other request is about the buffer.
\<close>

inductive vstep :: "vsys \<Rightarrow> vsys \<Rightarrow> bool" where
  start: "virtio_rw_start me b blk w (drv s) = Inr (v, ch, Some h) \<Longrightarrow> \<forall>h' x. reqs s h' = Some x \<longrightarrow> fst x \<noteq> b \<Longrightarrow>
    vstep s (s\<lparr>drv := v, reqs := (reqs s)(h := Some (b, blk, w))\<rparr>)"
| no_room: "virtio_rw_start me b blk w (drv s) = Inr (v, ch, None) \<Longrightarrow> vstep s (s\<lparr>drv := v\<rparr>)"
| fetch: "dev_idx s \<noteq> avail_idx (drv s) \<Longrightarrow> vstep s (dev_fetch s)"
| serve: "h \<in> work s \<Longrightarrow> vstep s (dev_serve h s)"
| intr: "virtio_disk_intr me ist (drv s) = Inr v \<Longrightarrow> vstep s (s\<lparr>drv := v\<rparr>)"
| again: "reqs s h = Some (b, x) \<Longrightarrow> virtio_rw_woken me b h (drv s) = Inr (v, Sleeps ch) \<Longrightarrow> vstep s (s\<lparr>drv := v\<rparr>)"
| finish: "reqs s h = Some (b, x) \<Longrightarrow> virtio_rw_woken me b h (drv s) = Inr (v, Return ()) \<Longrightarrow>
    vstep s (s\<lparr>drv := v, reqs := (reqs s)(h := None), served := served s - {h}\<rparr>)"

definition vboot :: "vsys \<Rightarrow> bool" where
  "vboot s \<longleftrightarrow> (\<exists>rd pages v. virtio_disk_init rd pages v = Inr (drv s) \<and> seen_idx v = 0 \<and> (\<forall>b. \<not> bdisk v b)) \<and>
    dev_idx s = 0 \<and> work s = {} \<and> reqs s = (\<lambda>_. None) \<and> served s = {}"

section \<open>The rings\<close>

definition put_avail :: "u16 \<Rightarrow> vsys \<Rightarrow> vsys" where
  "put_avail h s =
    s\<lparr>drv := (drv s)\<lparr>avail_ring := (avail_ring (drv s))(unat (avail_idx (drv s)) mod NUM := h),
      avail_idx := avail_idx (drv s) + 1\<rparr>\<rparr>"

definition get_used :: "vsys \<Rightarrow> u32 \<times> vsys" where
  "get_used s = (used_ring (drv s) (unat (seen_idx (drv s)) mod NUM),
     s\<lparr>drv := (drv s)\<lparr>seen_idx := seen_idx (drv s) + 1\<rparr>\<rparr>)"

interpretation va: ring NUM "\<lambda>s. avail_ring (drv s)" dev_idx "\<lambda>s. avail_idx (drv s)" put_avail get_avail
  by unfold_locales (simp_all add: NUM_def put_avail_def get_avail_def)

interpretation vu: ring NUM "\<lambda>s. used_ring (drv s)" "\<lambda>s. seen_idx (drv s)" "\<lambda>s. used_idx (drv s)" put_used get_used
  by unfold_locales (simp_all add: NUM_def put_used_def get_used_def)

definition avl :: "vsys \<Rightarrow> nat list" where "avl s = map unat (va.contents s)"
definition usd :: "vsys \<Rightarrow> nat list" where "usd s = map unat (vu.contents s)"

lemma avl_cong:
  "avail_ring (drv s') = avail_ring (drv s) \<Longrightarrow> dev_idx s' = dev_idx s \<Longrightarrow> avail_idx (drv s') = avail_idx (drv s) \<Longrightarrow> avl s' = avl s"
  by (simp add: avl_def va.contents_def va.count_def)

lemma usd_cong:
  "used_ring (drv s') = used_ring (drv s) \<Longrightarrow> seen_idx (drv s') = seen_idx (drv s) \<Longrightarrow> used_idx (drv s') = used_idx (drv s) \<Longrightarrow>
    usd s' = usd s"
  by (simp add: usd_def vu.contents_def vu.count_def)

section \<open>The invariant\<close>

declare split_paired_All [simp del] split_paired_Ex [simp del]

definition chain_ok :: "vdisk \<Rightarrow> nat \<Rightarrow> nat \<times> u32 \<times> bool \<Rightarrow> bool" where
  "chain_ok v h = (\<lambda>(b, blk, w).
    (\<exists>i1 i2. h < NUM \<and> i1 < NUM \<and> i2 < NUM \<and> distinct [h, i1, i2] \<and>
      desc v h = \<lparr>d_addr = OpAddr h, d_len = 16, d_flags = VRING_DESC_F_NEXT, d_next = of_nat i1\<rparr> \<and>
      desc v i1 = \<lparr>d_addr = DataAddr b, d_len = of_nat BSIZE,
        d_flags = (if w then 0 else VRING_DESC_F_WRITE) OR VRING_DESC_F_NEXT, d_next = of_nat i2\<rparr> \<and>
      desc v i2 = \<lparr>d_addr = StatusAddr h, d_len = 1, d_flags = VRING_DESC_F_WRITE, d_next = 0\<rparr> \<and>
      ops v h = \<lparr>q_type = (if w then VIRTIO_BLK_T_OUT else VIRTIO_BLK_T_IN), q_reserved = 0, q_sector = ucast (blk * 2)\<rparr>))"

definition chn :: "vdisk \<Rightarrow> nat \<Rightarrow> nat set" where
  "chn v h = {h, nxt v h, nxt v (nxt v h)}"

definition chains_ok :: "vsys \<Rightarrow> bool" where
  "chains_ok s \<longleftrightarrow>
    (\<forall>h x. reqs s h = Some x \<longrightarrow> chain_ok (drv s) h x \<and> info_b (drv s) h = Some (fst x)) \<and>
    (\<forall>i < NUM. vfree (drv s) i \<longleftrightarrow> (\<forall>h \<in> dom (reqs s). i \<notin> chn (drv s) h)) \<and>
    (\<forall>h \<in> dom (reqs s). \<forall>h' \<in> dom (reqs s). h \<noteq> h' \<longrightarrow> chn (drv s) h \<inter> chn (drv s) h' = {}) \<and>
    (\<forall>h h' x x'. reqs s h = Some x \<longrightarrow> reqs s h' = Some x' \<longrightarrow> fst x = fst x' \<longrightarrow> h = h')"

definition phases_ok :: "vsys \<Rightarrow> bool" where
  "phases_ok s \<longleftrightarrow>
    distinct (avl s) \<and> distinct (usd s) \<and> set (avl s) \<inter> work s = {} \<and> set (avl s) \<inter> set (usd s) = {} \<and>
    work s \<inter> set (usd s) = {} \<and>
    (\<forall>h. h \<in> set (avl s) \<union> work s \<union> set (usd s) \<longleftrightarrow> (\<exists>x. reqs s h = Some x \<and> bdisk (drv s) (fst x))) \<and>
    served s = dom (reqs s) - set (avl s) - work s \<and>
    (\<forall>h \<in> set (usd s). info_status (drv s) h = 0)"

definition vinv :: "vsys \<Rightarrow> bool" where
  "vinv s \<longleftrightarrow> chains_ok s \<and> phases_ok s"

lemma unat_idx: "i < NUM \<Longrightarrow> unat (of_nat i :: u16) = i" "i < NUM \<Longrightarrow> unat (of_nat i :: u32) = i"
  by (simp_all add: NUM_def unat_of_nat)

lemma chain_ok_chn:
  assumes "chain_ok v h x"
  shows "chn v h \<subseteq> {..<NUM}" "card (chn v h) = 3" "h \<in> chn v h"
  using assms by (auto simp: chain_ok_def chn_def nxt_def unat_idx)

lemma chains_card:
  assumes "chains_ok s"
  shows "finite (dom (reqs s))" "dom (reqs s) \<subseteq> {..<NUM}" "(\<Union>h \<in> dom (reqs s). chn (drv s) h) \<subseteq> {..<NUM}"
    "card (\<Union>h \<in> dom (reqs s). chn (drv s) h) = 3 * card (dom (reqs s))"
proof -
  have c: "chain_ok (drv s) h (the (reqs s h))" if "h \<in> dom (reqs s)" for h using assms that by (auto simp: chains_ok_def)
  show "dom (reqs s) \<subseteq> {..<NUM}" using c chain_ok_chn(1,3) by blast
  then show fin: "finite (dom (reqs s))" using finite_subset by blast
  show "(\<Union>h \<in> dom (reqs s). chn (drv s) h) \<subseteq> {..<NUM}" using c chain_ok_chn(1) by blast
  have "card (\<Union>h \<in> dom (reqs s). chn (drv s) h) = (\<Sum>h \<in> dom (reqs s). card (chn (drv s) h))"
    using fin assms by (intro card_UN_disjoint) (auto simp: chn_def chains_ok_def)
  also have "\<dots> = (\<Sum>h \<in> dom (reqs s). 3)" using chain_ok_chn(2) [OF c] by (intro sum.cong) simp_all
  finally show "card (\<Union>h \<in> dom (reqs s). chn (drv s) h) = 3 * card (dom (reqs s))" by simp
qed

lemma at_most_two:
  assumes "chains_ok s"
  shows "card (dom (reqs s)) \<le> 2"
  using card_mono [OF _ chains_card(3) [OF assms]] chains_card(4) [OF assms] by (simp add: NUM_def)

lemma ring_short:
  assumes "vinv s"
  shows "length (avl s) \<le> 2" "length (usd s) \<le> 2"
proof -
  have "set (avl s) \<union> set (usd s) \<subseteq> dom (reqs s)" using assms by (auto simp: vinv_def phases_ok_def)
  moreover have "finite (dom (reqs s))" "card (dom (reqs s)) \<le> 2" using chains_card(1) at_most_two assms by (auto simp: vinv_def)
  ultimately have "card (set (avl s)) \<le> 2" "card (set (usd s)) \<le> 2" using card_mono by (meson Un_subset_iff le_trans)+
  then show "length (avl s) \<le> 2" "length (usd s) \<le> 2"
    using assms by (auto simp: vinv_def phases_ok_def distinct_card)
qed

section \<open>Allocation of descriptors\<close>

lemma alloc_desc_some:
  assumes "alloc_desc v = (v', Some i)"
  shows "i < NUM" "vfree v i" "v' = v\<lparr>vfree := (vfree v)(i := False)\<rparr>"
  using assms by (auto simp: alloc_desc_def find_Some_iff split: option.splits)

lemma alloc_desc_none: "alloc_desc v = (v', None) \<Longrightarrow> v' = v"
  by (auto simp: alloc_desc_def split: option.splits)

text \<open>Freeing descriptors that were free before does not change those in use.\<close>

definition same_busy :: "vdisk \<Rightarrow> vdisk \<Rightarrow> bool" where
  "same_busy v v' \<longleftrightarrow> vfree v' = vfree v \<and> (\<forall>i. \<not> vfree v i \<longrightarrow> desc v' i = desc v i) \<and>
    v' = v\<lparr>desc := desc v', vtbl := vtbl v'\<rparr>"

lemma free_all_busy:
  assumes "distinct is" "\<forall>i \<in> set is. i < NUM \<and> vfree v0 i" "vfree v = (\<lambda>i. vfree v0 i \<and> i \<notin> set is)"
    "\<forall>i. \<not> vfree v0 i \<longrightarrow> desc v i = desc v0 i" "v = v0\<lparr>desc := desc v, vfree := vfree v, vtbl := vtbl v\<rparr>"
  shows "\<exists>v'. free_all me is v = Inr v' \<and> same_busy v0 v'"
  using assms
proof (induction "is" arbitrary: v)
  case Nil
  then have "vfree v = vfree v0" by simp
  then show ?case using Nil by (simp add: same_busy_def)
next
  case (Cons i "is")
  define w where "w = v\<lparr>desc := (desc v)(i := no_desc), vfree := (vfree v)(i := True), vtbl := wakeup me ChDesc (vtbl v)\<rparr>"
  have f: "free_desc me i v = Inr w" using Cons.prems by (simp add: free_desc_def w_def)
  have "vfree w = (\<lambda>j. vfree v0 j \<and> j \<notin> set is)" using Cons.prems by (auto simp: fun_eq_iff w_def)
  moreover have "\<forall>j. \<not> vfree v0 j \<longrightarrow> desc w j = desc v0 j" using Cons.prems by (auto simp: w_def)
  moreover have "w = v0\<lparr>desc := desc w, vfree := vfree w, vtbl := vtbl w\<rparr>"
    unfolding w_def by (subst Cons.prems(5)) simp
  ultimately have "\<exists>v'. free_all me is w = Inr v' \<and> same_busy v0 v'" using Cons.IH [of w] Cons.prems(1,2) by simp
  then show ?case using f by simp
qed

lemma alloc_descs_cases:
  assumes "distinct idx" "\<forall>i \<in> set idx. i < NUM \<and> vfree v0 i" "v = v0\<lparr>vfree := (\<lambda>i. vfree v0 i \<and> i \<notin> set idx)\<rparr>"
  shows "(\<exists>v'. alloc_descs me n idx v = Inr (v', None) \<and> same_busy v0 v') \<or>
    (\<exists>idx'. alloc_descs me n idx v = Inr (v0\<lparr>vfree := (\<lambda>i. vfree v0 i \<and> i \<notin> set idx')\<rparr>, Some idx') \<and> distinct idx' \<and>
      length idx' = length idx + n \<and> (\<forall>i \<in> set idx'. i < NUM \<and> vfree v0 i))"
  using assms
proof (induction n arbitrary: idx v)
  case (Suc n)
  obtain v1 r where a: "alloc_desc v = (v1, r)" by fastforce
  show ?case
  proof (cases r)
    case None
    then have "v1 = v" using a alloc_desc_none by simp
    then show ?thesis using None a free_all_busy [of idx v0 v me] Suc.prems by auto
  next
    case (Some i)
    note i = alloc_desc_some [OF a [unfolded Some]]
    have "v1 = v0\<lparr>vfree := (\<lambda>j. vfree v0 j \<and> j \<notin> set (idx @ [i]))\<rparr>" using i Suc.prems by (auto simp: fun_eq_iff)
    then show ?thesis using Suc.IH [of "idx @ [i]" v1] Suc.prems i a Some by simp
  qed
qed auto

lemma alloc3_cases:
  "(\<exists>v'. alloc3_desc me v = Inr (v', None) \<and> same_busy v v') \<or>
    (\<exists>i0 i1 i2. alloc3_desc me v = Inr (v\<lparr>vfree := (\<lambda>i. vfree v i \<and> i \<notin> {i0, i1, i2})\<rparr>, Some [i0, i1, i2]) \<and>
      distinct [i0, i1, i2] \<and> (\<forall>i \<in> {i0, i1, i2}. i < NUM \<and> vfree v i))"
proof -
  have "v = v\<lparr>vfree := (\<lambda>i. vfree v i \<and> i \<notin> set [])\<rparr>" by simp
  from alloc_descs_cases [OF _ _ this, of me 3]
  consider v' where "alloc3_desc me v = Inr (v', None)" "same_busy v v'"
    | idx where "alloc3_desc me v = Inr (v\<lparr>vfree := (\<lambda>i. vfree v i \<and> i \<notin> set idx)\<rparr>, Some idx)" "distinct idx" "length idx = 3"
      "\<forall>i \<in> set idx. i < NUM \<and> vfree v i"
    by (auto simp: alloc3_desc_def)
  then show ?thesis
  proof cases
    case 2
    then obtain i0 i1 i2 where "idx = [i0, i1, i2]" by (auto simp: numeral_3_eq_3 length_Suc_conv)
    then show ?thesis using 2 by auto
  qed auto
qed

section \<open>Steps that keep the requests\<close>

lemma chn_same: "\<forall>i \<in> chn v h. desc v' i = desc v i \<Longrightarrow> chn v' h = chn v h"
  by (simp add: chn_def nxt_def)

lemma chain_ok_same:
  assumes "chain_ok v h x" "\<forall>i \<in> chn v h. desc v' i = desc v i" "ops v' h = ops v h"
  shows "chain_ok v' h x"
  using assms by (fastforce simp: chain_ok_def chn_def nxt_def unat_idx)

lemma chn_busy:
  assumes "chains_ok s" "reqs s h = Some x" "i \<in> chn (drv s) h"
  shows "i < NUM" "\<not> vfree (drv s) i"
proof -
  have "chain_ok (drv s) h x" using assms by (simp add: chains_ok_def)
  then show "i < NUM" using chain_ok_chn(1) assms by blast
  then show "\<not> vfree (drv s) i" using assms by (auto simp: chains_ok_def)
qed

lemma chains_ok_kept:
  assumes "chains_ok s" "reqs s' = reqs s" "vfree (drv s') = vfree (drv s)"
    "\<forall>i. \<not> vfree (drv s) i \<longrightarrow> desc (drv s') i = desc (drv s) i" "ops (drv s') = ops (drv s)" "info_b (drv s') = info_b (drv s)"
  shows "chains_ok s'"
proof -
  have d: "\<forall>i \<in> chn (drv s) h. desc (drv s') i = desc (drv s) i" if "reqs s h = Some x" for h x
    using chn_busy [OF assms(1) that] assms(4) by blast
  then have "chn (drv s') h = chn (drv s) h" if "h \<in> dom (reqs s)" for h using that chn_same by blast
  moreover have "chain_ok (drv s') h x" if "reqs s h = Some x" for h x
    by (rule chain_ok_same [OF _ d [OF that]]) (use assms(1,5) that in \<open>simp_all add: chains_ok_def\<close>)
  ultimately show ?thesis using assms(1,2,3,6) by (simp add: chains_ok_def)
qed

lemma phases_ok_cong:
  "avl s' = avl s \<Longrightarrow> usd s' = usd s \<Longrightarrow> work s' = work s \<Longrightarrow> reqs s' = reqs s \<Longrightarrow> served s' = served s \<Longrightarrow>
    bdisk (drv s') = bdisk (drv s) \<Longrightarrow> info_status (drv s') = info_status (drv s) \<Longrightarrow> phases_ok s' = phases_ok s"
  by (simp add: phases_ok_def)

lemma same_busyD:
  assumes "same_busy v v'"
  shows "vfree v' = vfree v" "\<not> vfree v i \<Longrightarrow> desc v' i = desc v i" "avail_ring v' = avail_ring v" "avail_idx v' = avail_idx v"
    "used_ring v' = used_ring v" "used_idx v' = used_idx v" "seen_idx v' = seen_idx v" "info_b v' = info_b v"
    "info_status v' = info_status v" "ops v' = ops v" "bdisk v' = bdisk v"
proof -
  have e: "v' = v\<lparr>desc := desc v', vtbl := vtbl v'\<rparr>" and *: "vfree v' = vfree v" "\<not> vfree v i \<Longrightarrow> desc v' i = desc v i"
    using assms by (auto simp: same_busy_def)
  show "avail_ring v' = avail_ring v" "avail_idx v' = avail_idx v"
    "used_ring v' = used_ring v" "used_idx v' = used_idx v" "seen_idx v' = seen_idx v" "info_b v' = info_b v"
    "info_status v' = info_status v" "ops v' = ops v" "bdisk v' = bdisk v" by (subst e, simp)+
qed (use assms in \<open>auto simp: same_busy_def\<close>)

lemma vinv_same_busy:
  assumes "vinv s" "same_busy (drv s) v"
  shows "vinv (s\<lparr>drv := v\<lparr>vtbl := t\<rparr>\<rparr>)"
proof -
  note d = same_busyD [OF assms(2)]
  have "avl (s\<lparr>drv := v\<lparr>vtbl := t\<rparr>\<rparr>) = avl s" by (rule avl_cong) (simp_all add: d)
  moreover have "usd (s\<lparr>drv := v\<lparr>vtbl := t\<rparr>\<rparr>) = usd s" by (rule usd_cong) (simp_all add: d)
  ultimately have "phases_ok (s\<lparr>drv := v\<lparr>vtbl := t\<rparr>\<rparr>) = phases_ok s" by (intro phases_ok_cong) (simp_all add: d)
  moreover have "chains_ok (s\<lparr>drv := v\<lparr>vtbl := t\<rparr>\<rparr>)"
    by (rule chains_ok_kept [of s]) (use assms(1) in \<open>simp_all add: d vinv_def\<close>)
  ultimately show ?thesis using assms(1) by (simp add: vinv_def)
qed

lemma rw_start_cases:
  "(\<exists>v' t. virtio_rw_start me b blk w v = Inr (v'\<lparr>vtbl := t\<rparr>, ChDesc, None) \<and> same_busy v v') \<or>
    (\<exists>i0 i1 i2 v' t. virtio_rw_start me b blk w v = Inr (v', ChBuf b, Some i0) \<and> distinct [i0, i1, i2] \<and>
      (\<forall>i \<in> {i0, i1, i2}. i < NUM \<and> vfree v i) \<and>
      v' = (virtio_submit b i0 (format_chain b blk w i0 i1 i2 (v\<lparr>vfree := (\<lambda>i. vfree v i \<and> i \<notin> {i0, i1, i2})\<rparr>)))\<lparr>vtbl := t\<rparr>)"
  using alloc3_cases [of "Some me" v] by (fastforce simp: virtio_rw_start_def Let_def)

section \<open>A new request\<close>

lemma chains_ok_start:
  assumes s: "chains_ok s" and i: "distinct [i0, i1, i2]" "\<forall>i \<in> {i0, i1, i2}. i < NUM \<and> vfree (drv s) i"
    and b: "\<forall>h x. reqs s h = Some x \<longrightarrow> fst x \<noteq> b"
    and v: "vfree v = (\<lambda>i. vfree (drv s) i \<and> i \<notin> {i0, i1, i2})" "\<forall>i. i \<notin> {i0, i1, i2} \<longrightarrow> desc v i = desc (drv s) i"
      "\<forall>i. i \<noteq> i0 \<longrightarrow> ops v i = ops (drv s) i \<and> info_b v i = info_b (drv s) i" "info_b v i0 = Some b" "chain_ok v i0 (b, blk, w)"
      "chn v i0 = {i0, i1, i2}"
  shows "chains_ok (s\<lparr>drv := v, reqs := (reqs s)(i0 := Some (b, blk, w))\<rparr>)"
proof -
  have free: "i \<notin> {i0, i1, i2}" if "reqs s h = Some x" "i \<in> chn (drv s) h" for h x i
    using chn_busy [OF s that] i(2) by blast
  have hd: "h \<noteq> i0" if "reqs s h = Some x" for h x using free [OF that, of h] by (auto simp: chn_def)
  have d: "\<forall>i \<in> chn (drv s) h. desc v i = desc (drv s) i" if "reqs s h = Some x" for h x
    using free [OF that] v(2) by blast
  have c: "chn v h = chn (drv s) h" if "reqs s h = Some x" for h x using d [OF that] chn_same by blast
  have k: "chain_ok v h x \<and> info_b v h = Some (fst x)" if "reqs s h = Some x" for h x
    using chain_ok_same [OF _ d [OF that]] v(3) hd [OF that] that s by (auto simp: chains_ok_def)
  have new: "chn v h \<inter> {i0, i1, i2} = {}" if "h \<in> dom (reqs s)" for h using that free c by blast
  have old: "chn v h \<inter> chn v h' = {}" if "h \<in> dom (reqs s)" "h' \<in> dom (reqs s)" "h \<noteq> h'" for h h'
    using that s c unfolding chains_ok_def by fastforce
  show ?thesis
    unfolding chains_ok_def
  proof (intro conjI)
    show "\<forall>i < NUM. vfree (drv (s\<lparr>drv := v, reqs := (reqs s)(i0 := Some (b, blk, w))\<rparr>)) i \<longleftrightarrow>
        (\<forall>h \<in> dom (reqs (s\<lparr>drv := v, reqs := (reqs s)(i0 := Some (b, blk, w))\<rparr>)).
          i \<notin> chn (drv (s\<lparr>drv := v, reqs := (reqs s)(i0 := Some (b, blk, w))\<rparr>)) h)"
      using s c hd v(1,6) by (auto simp: chains_ok_def dom_def)
    show "\<forall>h \<in> dom (reqs (s\<lparr>drv := v, reqs := (reqs s)(i0 := Some (b, blk, w))\<rparr>)).
        \<forall>h' \<in> dom (reqs (s\<lparr>drv := v, reqs := (reqs s)(i0 := Some (b, blk, w))\<rparr>)). h \<noteq> h' \<longrightarrow>
          chn (drv (s\<lparr>drv := v, reqs := (reqs s)(i0 := Some (b, blk, w))\<rparr>)) h \<inter>
          chn (drv (s\<lparr>drv := v, reqs := (reqs s)(i0 := Some (b, blk, w))\<rparr>)) h' = {}"
      using new old v(6) by (simp add: Int_commute)
    show "\<forall>h x. reqs (s\<lparr>drv := v, reqs := (reqs s)(i0 := Some (b, blk, w))\<rparr>) h = Some x \<longrightarrow>
        chain_ok (drv (s\<lparr>drv := v, reqs := (reqs s)(i0 := Some (b, blk, w))\<rparr>)) h x \<and>
        info_b (drv (s\<lparr>drv := v, reqs := (reqs s)(i0 := Some (b, blk, w))\<rparr>)) h = Some (fst x)"
      using k v(4,5) by simp
  qed (use s b in \<open>auto simp: chains_ok_def\<close>)
qed

lemma avl_put:
  assumes "vinv s" "avail_ring (drv s') = (avail_ring (drv s))(unat (avail_idx (drv s)) mod NUM := of_nat i)"
    "avail_idx (drv s') = avail_idx (drv s) + 1" "dev_idx s' = dev_idx s" "i < NUM"
  shows "avl s' = avl s @ [i]"
proof -
  have "va.count s < NUM" using ring_short(1) [OF assms(1)] NUM_def by (simp add: avl_def)
  then have "va.contents (put_avail (of_nat i) s) = va.contents s @ [of_nat i]" by (rule va.contents_put)
  moreover have "avl s' = avl (put_avail (of_nat i) s)" by (rule avl_cong) (simp_all add: put_avail_def assms)
  ultimately show ?thesis using assms(5) by (simp add: avl_def unat_idx)
qed

lemma vinv_start:
  assumes s: "vinv s" and i: "distinct [i0, i1, i2]" "\<forall>i \<in> {i0, i1, i2}. i < NUM \<and> vfree (drv s) i"
    and b: "\<forall>h x. reqs s h = Some x \<longrightarrow> fst x \<noteq> b"
    and v: "v = (virtio_submit b i0 (format_chain b blk w i0 i1 i2
      ((drv s)\<lparr>vfree := (\<lambda>i. vfree (drv s) i \<and> i \<notin> {i0, i1, i2})\<rparr>)))\<lparr>vtbl := t\<rparr>"
  shows "vinv (s\<lparr>drv := v, reqs := (reqs s)(i0 := Some (b, blk, w))\<rparr>)" (is "vinv ?s")
proof -
  note vd = v [unfolded virtio_submit_def format_chain_def wreg_def Let_def]
  have new: "chain_ok v i0 (b, blk, w)" "chn v i0 = {i0, i1, i2}"
    using i by (auto simp: vd chain_ok_def chn_def nxt_def unat_idx)
  have "chains_ok ?s"
    by (rule chains_ok_start [OF _ i b _ _ _ _ new]) (use s in \<open>auto simp: vd vinv_def\<close>)
  have a: "avl ?s = avl s @ [i0]" by (rule avl_put [OF s]) (use i in \<open>simp_all add: vd\<close>)
  have u: "usd ?s = usd s" by (rule usd_cong) (simp_all add: vd)
  have no: "reqs s i0 = None"
    using chn_busy(2) [of s i0 _ i0] s i(2) by (cases "reqs s i0") (auto simp: vinv_def chn_def)
  have f: "work ?s = work s" "served ?s = served s" "reqs ?s = (reqs s)(i0 := Some (b, blk, w))"
    "bdisk (drv ?s) = (bdisk (drv s))(b := True)" "info_status (drv ?s) = (info_status (drv s))(i0 := 0xff)"
    by (simp_all add: vd)
  have p: "phases_ok s" using s by (simp add: vinv_def)
  have out: "i0 \<notin> set (avl s)" "i0 \<notin> work s" "i0 \<notin> set (usd s)"
    using p no unfolding phases_ok_def by (metis Un_iff option.distinct(1))+
  have iff: "(h \<in> set (avl s @ [i0]) \<union> work s \<union> set (usd s)) =
      (\<exists>x. ((reqs s)(i0 := Some (b, blk, w))) h = Some x \<and> ((bdisk (drv s))(b := True)) (fst x))" for h
    using p b unfolding phases_ok_def by (cases "h = i0") auto
  have "phases_ok ?s"
    unfolding phases_ok_def a u f
  proof (intro conjI)
    show "served s = dom ((reqs s)(i0 := Some (b, blk, w))) - set (avl s @ [i0]) - work s"
      using p no unfolding phases_ok_def by (auto simp: dom_def)
    show "\<forall>h. (h \<in> set (avl s @ [i0]) \<union> work s \<union> set (usd s)) =
        (\<exists>x. ((reqs s)(i0 := Some (b, blk, w))) h = Some x \<and> ((bdisk (drv s))(b := True)) (fst x))"
      using iff by blast
  qed (use p out in \<open>auto simp: phases_ok_def\<close>)
  then show ?thesis using \<open>chains_ok ?s\<close> by (simp add: vinv_def)
qed

section \<open>The device\<close>

lemma vinv_fetch:
  assumes s: "vinv s" and ne: "dev_idx s \<noteq> avail_idx (drv s)"
  shows "vinv (dev_fetch s)"
proof -
  define h where "h = unat (avail_ring (drv s) (unat (dev_idx s) mod NUM))"
  define s' where "s' = s\<lparr>dev_idx := dev_idx s + 1, work := insert h (work s)\<rparr>"
  have g: "snd (get_avail s) = s\<lparr>dev_idx := dev_idx s + 1\<rparr>" "unat (fst (get_avail s)) = h"
    by (simp_all add: get_avail_def h_def)
  have "0 < va.count s" using ne va.empty_iff by auto
  then have "avl s = h # avl (s\<lparr>dev_idx := dev_idx s + 1\<rparr>)" using va.contents_get(1) [of s] g by (simp add: avl_def)
  moreover have "avl s' = avl (s\<lparr>dev_idx := dev_idx s + 1\<rparr>)" by (rule avl_cong) (simp_all add: s'_def)
  ultimately have a: "avl s = h # avl s'" by simp
  have u: "usd s' = usd s" by (rule usd_cong) (simp_all add: s'_def)
  have "chains_ok s'" by (rule chains_ok_kept [of s]) (use s in \<open>simp_all add: s'_def vinv_def\<close>)
  moreover have "phases_ok s'"
    using s unfolding vinv_def phases_ok_def u a by (auto simp: s'_def)
  ultimately show ?thesis by (simp add: vinv_def dev_fetch_def get_avail_def s'_def h_def)
qed

lemma dev_request_chain:
  "chain_ok v h (b, blk, w) \<Longrightarrow> dev_request v h = Some (\<lparr>q_type = (if w then VIRTIO_BLK_T_OUT else VIRTIO_BLK_T_IN),
    q_reserved = 0, q_sector = ucast (blk * 2)\<rparr>, b, h)"
  by (auto simp: chain_ok_def dev_request_def nxt_def unat_idx VRING_DESC_F_NEXT_def VRING_DESC_F_WRITE_def
      VIRTIO_BLK_T_IN_def VIRTIO_BLK_T_OUT_def)

lemma usd_put:
  assumes "vinv s" "used_ring (drv s') = (used_ring (drv s))(unat (used_idx (drv s)) mod NUM := of_nat i)"
    "used_idx (drv s') = used_idx (drv s) + 1" "seen_idx (drv s') = seen_idx (drv s)" "i < NUM"
  shows "usd s' = usd s @ [i]"
proof -
  have "vu.count s < NUM" using ring_short(2) [OF assms(1)] NUM_def by (simp add: usd_def)
  then have "vu.contents (put_used (of_nat i) s) = vu.contents s @ [of_nat i]" by (rule vu.contents_put)
  moreover have "usd s' = usd (put_used (of_nat i) s)" by (rule usd_cong) (simp_all add: put_used_def assms)
  ultimately show ?thesis using assms(5) by (simp add: usd_def unat_idx)
qed

lemma dev_serve_eq:
  assumes "dev_request (drv s) h = Some (q, b, h)"
  shows "drv (dev_serve h s) = (drv s)\<lparr>info_status := (info_status (drv s))(h := 0),
      used_ring := (used_ring (drv s))(unat (used_idx (drv s)) mod NUM := of_nat h), used_idx := used_idx (drv s) + 1\<rparr>"
    "dev_idx (dev_serve h s) = dev_idx s" "work (dev_serve h s) = work s - {h}" "reqs (dev_serve h s) = reqs s"
    "served (dev_serve h s) = insert h (served s)"
    "vdata (dev_serve h s) = (if q_type q = VIRTIO_BLK_T_IN then (vdata s)(b := plat s (q_sector q)) else vdata s)"
    "plat (dev_serve h s) = (if q_type q = VIRTIO_BLK_T_IN then plat s else (plat s)(q_sector q := vdata s b))"
  using assms by (simp_all add: dev_serve_def dev_transfer_def put_used_def Let_def)

lemma work_request:
  assumes "vinv s" "h \<in> work s"
  obtains b blk w where "reqs s h = Some (b, blk, w)" "chain_ok (drv s) h (b, blk, w)" "h < NUM" "bdisk (drv s) b" "h \<notin> served s"
proof -
  obtain b blk w where x: "reqs s h = Some (b, blk, w)" "bdisk (drv s) b"
    using assms unfolding vinv_def phases_ok_def by (metis Un_iff fst_conv prod_cases3)
  then have "chain_ok (drv s) h (b, blk, w)" using assms(1) by (auto simp: vinv_def chains_ok_def)
  moreover have "h < NUM" using calculation chain_ok_chn(1,3) by blast
  moreover have "h \<notin> served s" using assms by (simp add: vinv_def phases_ok_def)
  ultimately show ?thesis using that x by blast
qed

lemma vinv_serve:
  assumes s: "vinv s" and h: "h \<in> work s"
  shows "vinv (dev_serve h s)"
proof -
  obtain b blk w where x: "reqs s h = Some (b, blk, w)" "chain_ok (drv s) h (b, blk, w)" "h < NUM" "bdisk (drv s) b"
    using work_request [OF assms] .
  note e = dev_serve_eq [OF dev_request_chain [OF x(2)]]
  have a: "avl (dev_serve h s) = avl s" by (rule avl_cong) (simp_all add: e)
  have u: "usd (dev_serve h s) = usd s @ [h]" by (rule usd_put [OF s _ _ _ x(3)]) (simp_all add: e)
  have "chains_ok (dev_serve h s)" by (rule chains_ok_kept [of s]) (use s in \<open>simp_all add: e vinv_def\<close>)
  moreover have "phases_ok (dev_serve h s)"
    using s h x(1) unfolding vinv_def phases_ok_def a u e by auto
  ultimately show ?thesis by (simp add: vinv_def)
qed

section \<open>Interrupts\<close>

definition intr_round :: "nat option \<Rightarrow> nat \<Rightarrow> vdisk \<Rightarrow> vdisk" where
  "intr_round me b v = v\<lparr>bdisk := (bdisk v)(b := False), vtbl := wakeup me (ChBuf b) (vtbl v), seen_idx := seen_idx v + 1\<rparr>"

lemma used_head:
  assumes s: "vinv s" and ne: "seen_idx (drv s) \<noteq> used_idx (drv s)" and h: "h = unat (used_ring (drv s) (unat (seen_idx (drv s)) mod NUM))"
    and s': "seen_idx (drv s') = seen_idx (drv s) + 1" "used_ring (drv s') = used_ring (drv s)" "used_idx (drv s') = used_idx (drv s)"
  shows "usd s = h # usd s'"
proof -
  have "0 < vu.count s" using ne vu.empty_iff by auto
  then have "usd s = h # usd (snd (get_used s))"
    using vu.contents_get(1) [of s] by (simp add: usd_def get_used_def h)
  moreover have "usd s' = usd (snd (get_used s))" by (rule usd_cong) (simp_all add: get_used_def s')
  ultimately show ?thesis by simp
qed

lemma vinv_intr_round:
  assumes s: "vinv s" and ne: "seen_idx (drv s) \<noteq> used_idx (drv s)" and h: "h = unat (used_ring (drv s) (unat (seen_idx (drv s)) mod NUM))"
  shows "info_status (drv s) h = 0"
    "\<exists>b. info_b (drv s) h = Some b \<and> vinv (s\<lparr>drv := intr_round me b (drv s)\<rparr>)"
proof -
  have u: "usd s = h # usd (s\<lparr>drv := intr_round me b (drv s)\<rparr>)" for b
    by (rule used_head [OF s ne h]) (simp_all add: intr_round_def)
  have p: "phases_ok s" and c: "chains_ok s" using s by (simp_all add: vinv_def)
  have "h \<in> set (usd s)" by (subst u [of undefined]) simp
  then show "info_status (drv s) h = 0" using p by (simp add: phases_ok_def)
  obtain x where x: "reqs s h = Some x" "bdisk (drv s) (fst x)"
    using p u unfolding phases_ok_def by (metis Un_iff list.set_intros(1))
  define s' where "s' = s\<lparr>drv := intr_round me (fst x) (drv s)\<rparr>"
  have f: "work s' = work s" "reqs s' = reqs s" "served s' = served s" "bdisk (drv s') = (bdisk (drv s))(fst x := False)"
    "info_status (drv s') = info_status (drv s)" by (simp_all add: s'_def intr_round_def)
  have a: "avl s' = avl s" by (rule avl_cong) (simp_all add: s'_def intr_round_def)
  have u': "usd s = h # usd s'" using u by (simp add: s'_def)
  have one: "fst y \<noteq> fst x" if "reqs s g = Some y" "g \<noteq> h" for g y using c x that unfolding chains_ok_def by metis
  have "(g \<in> set (avl s) \<union> work s \<union> set (usd s')) = (\<exists>y. reqs s g = Some y \<and> ((bdisk (drv s))(fst x := False)) (fst y))" for g
  proof (cases "g = h")
    case True
    then show ?thesis using p x unfolding phases_ok_def u' by auto
  next
    case False
    then have "(g \<in> set (avl s) \<union> work s \<union> set (usd s')) \<longleftrightarrow> (\<exists>y. reqs s g = Some y \<and> bdisk (drv s) (fst y))"
      using p unfolding phases_ok_def u' by (metis Un_iff set_ConsD list.set_intros(2))
    also have "\<dots> = (\<exists>y. reqs s g = Some y \<and> ((bdisk (drv s))(fst x := False)) (fst y))" using one [OF _ False] by (metis fun_upd_other fun_upd_same)
    finally show ?thesis .
  qed
  then have "phases_ok s'" using p unfolding phases_ok_def a f u' by auto
  moreover have "chains_ok s'" by (rule chains_ok_kept [OF c]) (simp_all add: s'_def intr_round_def)
  moreover have "info_b (drv s) h = Some (fst x)" using c x by (simp add: chains_ok_def)
  ultimately show "\<exists>b. info_b (drv s) h = Some b \<and> vinv (s\<lparr>drv := intr_round me b (drv s)\<rparr>)" by (simp add: vinv_def s'_def)
qed

lemma vinv_intr_loop:
  "vinv (s\<lparr>drv := v\<rparr>) \<Longrightarrow> \<exists>v'. virtio_intr_loop me v = Inr v' \<and> vinv (s\<lparr>drv := v'\<rparr>) \<and> seen_idx v' = used_idx v'"
proof (induction me v rule: virtio_intr_loop.induct)
  case (1 me v)
  show ?case
  proof (cases "seen_idx v = used_idx v")
    case True
    then show ?thesis using 1 by (subst virtio_intr_loop.simps) auto
  next
    case False
    define h where "h = unat (used_ring v (unat (seen_idx v) mod NUM))"
    obtain b where b: "info_status v h = 0" "info_b v h = Some b" "vinv (s\<lparr>drv := intr_round me b v\<rparr>)"
      using vinv_intr_round(1) [OF "1.prems", of h] vinv_intr_round(2) [OF "1.prems", of h me] False by (auto simp: h_def)
    have "\<exists>v'. virtio_intr_loop me (intr_round me b v) = Inr v' \<and> vinv (s\<lparr>drv := v'\<rparr>) \<and> seen_idx v' = used_idx v'"
      using "1.IH" [OF False h_def _ b(2)] b unfolding intr_round_def by simp
    then show ?thesis using False b by (subst virtio_intr_loop.simps) (simp add: h_def [symmetric] intr_round_def)
  qed
qed

lemma vinv_cong_regs: "vinv s \<Longrightarrow> vinv (s\<lparr>drv := (drv s)\<lparr>vtbl := t, mmio := m\<rparr>\<rparr>)"
  by (simp add: vinv_def chains_ok_def phases_ok_def chain_ok_def chn_def nxt_def avl_def usd_def va.contents_def va.count_def
    vu.contents_def vu.count_def)

lemma vinv_intr:
  assumes "vinv s"
  obtains v' where "virtio_disk_intr me ist (drv s) = Inr v'" "vinv (s\<lparr>drv := v'\<rparr>)" "seen_idx v' = used_idx v'"
  using vinv_intr_loop [where s = s and v = "wreg 0x064 (ist AND 3) (drv s)" and me = me] vinv_cong_regs [OF assms, where t = "vtbl (drv s)"]
  by (auto simp: virtio_disk_intr_def wreg_def)

section \<open>The end of a request\<close>

lemma free_chain_next:
  assumes "i < NUM" "\<not> vfree v i" "d_flags (desc v i) AND VRING_DESC_F_NEXT \<noteq> 0" "d_next (desc v i) = of_nat j" "j < NUM"
  shows "Virtio.free_chain me i v = Virtio.free_chain me j
    (v\<lparr>desc := (desc v)(i := no_desc), vfree := (vfree v)(i := True), vtbl := wakeup me ChDesc (vtbl v)\<rparr>)"
  by (subst free_chain.simps) (use assms in \<open>simp add: free_desc_def Let_def unat_idx\<close>)

lemma free_chain_last:
  assumes "i < NUM" "\<not> vfree v i" "d_flags (desc v i) AND VRING_DESC_F_NEXT = 0"
  shows "Virtio.free_chain me i v =
    Inr (v\<lparr>desc := (desc v)(i := no_desc), vfree := (vfree v)(i := True), vtbl := wakeup me ChDesc (vtbl v)\<rparr>)"
  by (subst free_chain.simps) (use assms in \<open>simp add: free_desc_def Let_def\<close>)

lemma chain_flags:
  "VRING_DESC_F_NEXT \<noteq> 0" "VRING_DESC_F_WRITE AND VRING_DESC_F_NEXT = 0"
  "((if w then 0 else VRING_DESC_F_WRITE) OR VRING_DESC_F_NEXT) AND VRING_DESC_F_NEXT \<noteq> 0"
  by (simp_all add: VRING_DESC_F_NEXT_def VRING_DESC_F_WRITE_def)

lemma free_chain_chain:
  assumes "chain_ok v h x" "\<forall>i \<in> chn v h. \<not> vfree v i"
  shows "\<exists>t. Virtio.free_chain me h v = Inr (v\<lparr>desc := (\<lambda>i. if i \<in> chn v h then no_desc else desc v i),
    vfree := (\<lambda>i. vfree v i \<or> i \<in> chn v h), vtbl := t\<rparr>)"
proof -
  obtain b blk w where "x = (b, blk, w)" by (cases x)
  then obtain i1 i2 where i: "h < NUM" "i1 < NUM" "i2 < NUM" "distinct [h, i1, i2]"
    and d: "d_flags (desc v h) = VRING_DESC_F_NEXT" "d_next (desc v h) = of_nat i1"
      "d_flags (desc v i1) = (if w then 0 else VRING_DESC_F_WRITE) OR VRING_DESC_F_NEXT" "d_next (desc v i1) = of_nat i2"
      "d_flags (desc v i2) = VRING_DESC_F_WRITE"
    using assms(1) by (auto simp: chain_ok_def)
  have c: "chn v h = {h, i1, i2}" using i d by (simp add: chn_def nxt_def unat_idx)
  have e: "(\<lambda>a. if a \<in> {h, i1, i2} then no_desc else desc v a) = (desc v)(h := no_desc, i1 := no_desc, i2 := no_desc)"
    "(\<lambda>a. vfree v a \<or> a \<in> {h, i1, i2}) = (vfree v)(h := True, i1 := True, i2 := True)"
    by (auto simp: fun_eq_iff)
  have f: "\<not> vfree v h" "\<not> vfree v i1" "\<not> vfree v i2" using assms(2) c by auto
  have "\<exists>t. Virtio.free_chain me h v = Inr (v\<lparr>desc := (desc v)(h := no_desc, i1 := no_desc, i2 := no_desc),
      vfree := (vfree v)(h := True, i1 := True, i2 := True), vtbl := t\<rparr>)"
    using i f free_chain_next [of h v i1 me] by (simp add: d chain_flags free_chain_next [of i1 _ i2] free_chain_last) blast
  then show ?thesis unfolding c e .
qed

lemma chains_ok_finish:
  assumes s: "chains_ok s" and h: "reqs s h = Some x"
    and v: "desc v = (\<lambda>i. if i \<in> chn (drv s) h then no_desc else desc (drv s) i)"
      "vfree v = (\<lambda>i. vfree (drv s) i \<or> i \<in> chn (drv s) h)" "ops v = ops (drv s)" "info_b v = (info_b (drv s))(h := None)"
  shows "chains_ok (s\<lparr>drv := v, reqs := (reqs s)(h := None), served := A\<rparr>)"
proof -
  have d: "\<forall>i \<in> chn (drv s) g. desc v i = desc (drv s) i" if "reqs s g = Some y" "g \<noteq> h" for g y
  proof -
    have "chn (drv s) g \<inter> chn (drv s) h = {}" using s h that unfolding chains_ok_def by blast
    then show ?thesis unfolding v(1) by auto
  qed
  have c: "chn v g = chn (drv s) g" if "g \<in> dom ((reqs s)(h := None))" for g
    by (rule chn_same) (use d that in \<open>auto split: if_splits\<close>)
  have k: "chain_ok v g y \<and> info_b v g = Some (fst y)" if "reqs s g = Some y" "g \<noteq> h" for g y
    using chain_ok_same [OF _ d [OF that]] s that v(3,4) by (simp add: chains_ok_def)
  have "vfree v i \<longleftrightarrow> (\<forall>g \<in> dom ((reqs s)(h := None)). i \<notin> chn v g)" if "i < NUM" for i
  proof -
    have "(vfree (drv s) i \<or> i \<in> chn (drv s) h) \<longleftrightarrow> (\<forall>g \<in> dom (reqs s) - {h}. i \<notin> chn (drv s) g)"
      using s that h unfolding chains_ok_def by (metis Diff_iff IntI domI empty_iff insert_iff)
    then show ?thesis using c by (simp add: v(2))
  qed
  then show ?thesis using s k c unfolding chains_ok_def by simp
qed

lemma vinv_woken:
  assumes s: "vinv s" and h: "reqs s h = Some (b, x)"
  obtains v t where "virtio_rw_woken me b h (drv s) = Inr (v, Sleeps (ChBuf b))" "v = (drv s)\<lparr>vtbl := t\<rparr>" "vinv (s\<lparr>drv := v\<rparr>)"
      "bdisk (drv s) b"
    | v where "virtio_rw_woken me b h (drv s) = Inr (v, Return ())" "\<not> bdisk (drv s) b"
      "vinv (s\<lparr>drv := v, reqs := (reqs s)(h := None), served := served s - {h}\<rparr>)"
proof (cases "bdisk (drv s) b")
  case True
  have "vinv (s\<lparr>drv := (drv s)\<lparr>vtbl := t\<rparr>\<rparr>)" for t using vinv_cong_regs [OF s, where m = "mmio (drv s)"] by simp
  moreover have "virtio_rw_woken me b h (drv s) =
      Inr ((drv s)\<lparr>vtbl := sleep_on me (ChBuf b) (sleep_done me (vtbl (drv s)))\<rparr>, Sleeps (ChBuf b))"
    using True by (simp add: virtio_rw_woken_def Let_def)
  ultimately show ?thesis using that(1) [OF _ refl] True by blast
next
  case False
  have p: "phases_ok s" and c: "chains_ok s" using s by (simp_all add: vinv_def)
  define w where "w = (drv s)\<lparr>vtbl := sleep_done me (vtbl (drv s)), info_b := (info_b (drv s))(h := None)\<rparr>"
  have wf: "desc w = desc (drv s)" "vfree w = vfree (drv s)" by (simp_all add: w_def)
  have w: "chn w h = chn (drv s) h" "chain_ok w h (b, x)"
    using c h chn_same [of "drv s" h w] chain_ok_same [of "drv s" h "(b, x)" w] by (simp_all add: w_def chains_ok_def)
  obtain t where t: "Virtio.free_chain (Some me) h w = Inr (w\<lparr>desc := (\<lambda>i. if i \<in> chn w h then no_desc else desc w i),
      vfree := (\<lambda>i. vfree w i \<or> i \<in> chn w h), vtbl := t\<rparr>)" (is "_ = Inr ?v")
    using free_chain_chain [OF w(2), of "Some me"] chn_busy(2) [OF c h] unfolding w(1) wf by blast
  define s' where "s' = s\<lparr>drv := ?v, reqs := (reqs s)(h := None), served := served s - {h}\<rparr>"
  have "chains_ok s'" unfolding s'_def by (rule chains_ok_finish [OF c h]) (unfold w(1) wf, simp_all add: w_def)
  have a: "avl s' = avl s" by (rule avl_cong) (simp_all add: s'_def w_def)
  have u: "usd s' = usd s" by (rule usd_cong) (simp_all add: s'_def w_def)
  have f: "work s' = work s" "served s' = served s - {h}" "reqs s' = (reqs s)(h := None)" "bdisk (drv s') = bdisk (drv s)"
    "info_status (drv s') = info_status (drv s)" by (simp_all add: s'_def w_def)
  have out: "h \<notin> set (avl s) \<union> work s \<union> set (usd s)" using p h False unfolding phases_ok_def by (metis fst_conv option.inject)
  then have "(g \<in> set (avl s) \<union> work s \<union> set (usd s)) = (\<exists>y. ((reqs s)(h := None)) g = Some y \<and> bdisk (drv s) (fst y))" for g
    using p unfolding phases_ok_def by (cases "g = h") auto
  then have "phases_ok s'" using p unfolding phases_ok_def a u f by auto
  then have "vinv s'" using \<open>chains_ok s'\<close> by (simp add: vinv_def)
  moreover have "virtio_rw_woken me b h (drv s) = Inr (?v, Return ())"
    using False t by (simp add: virtio_rw_woken_def Let_def w_def)
  ultimately show ?thesis using that(2) False unfolding s'_def by blast
qed

section \<open>Every transfer is one step\<close>

lemma init_fields:
  assumes "virtio_disk_init rd pages v = Inr v'"
  shows "avail_idx v' = 0" "used_idx v' = 0" "seen_idx v' = seen_idx v" "i < NUM \<Longrightarrow> vfree v' i" "bdisk v' = bdisk v"
  using assms by (auto simp: virtio_disk_init_def wreg_def Let_def split: if_splits)

lemma vinv_boot:
  assumes "vboot s"
  shows "vinv s"
proof -
  obtain rd pages v where i: "virtio_disk_init rd pages v = Inr (drv s)" "seen_idx v = 0" and s: "dev_idx s = 0" "work s = {}"
      "reqs s = (\<lambda>_. None)" "served s = {}"
    using assms by (auto simp: vboot_def)
  note f = init_fields [OF i(1)]
  have "avl s = []" "usd s = []" by (simp_all add: avl_def usd_def va.contents_def va.count_def vu.contents_def vu.count_def f i s)
  then show ?thesis using f(4) s by (simp add: vinv_def chains_ok_def phases_ok_def)
qed

lemma vinv_step:
  assumes "vstep s s'" "vinv s"
  shows "vinv s'"
  using assms(1)
proof cases
  case (start me b blk w v ch h)
  then show ?thesis using rw_start_cases [of me b blk w "drv s"] vinv_start [OF assms(2)] by force
next
  case (no_room me b blk w v ch)
  then show ?thesis using rw_start_cases [of me b blk w "drv s"] vinv_same_busy [OF assms(2)] by force
next
  case fetch
  then show ?thesis using vinv_fetch [OF assms(2)] by simp
next
  case (serve h)
  then show ?thesis using vinv_serve [OF assms(2)] by simp
next
  case (intr me ist v)
  then show ?thesis using vinv_intr [OF assms(2), of me ist] by fastforce
next
  case (again h b x me v ch)
  then show ?thesis using vinv_woken [OF assms(2) again(2), of me] by fastforce
next
  case (finish h b x me v)
  then show ?thesis using vinv_woken [OF assms(2) finish(2), of me] by fastforce
qed

lemma vinv_run: "vstep\<^sup>*\<^sup>* s s' \<Longrightarrow> vinv s \<Longrightarrow> vinv s'"
  by (induction rule: rtranclp_induct) (auto intro: vinv_step)

lemma descriptors_add_up:
  assumes "chains_ok s"
  shows "card {i. i < NUM \<and> vfree (drv s) i} + 3 * card (dom (reqs s)) = NUM"
proof -
  note c = chains_card [OF assms]
  have "{i. i < NUM \<and> vfree (drv s) i} = {..<NUM} - (\<Union>h \<in> dom (reqs s). chn (drv s) h)"
    using assms unfolding chains_ok_def by blast
  then have "card {i. i < NUM \<and> vfree (drv s) i} = NUM - 3 * card (dom (reqs s))"
    using c by (simp add: card_Diff_subset finite_subset)
  then show ?thesis using card_mono [OF _ c(3)] c(4) by simp
qed

lemma serve_exact:
  assumes "vinv s" "h \<in> work s"
  shows "\<exists>b blk w. reqs s h = Some (b, blk, w) \<and> h \<notin> served s \<and> bdisk (drv s) b \<and> served (dev_serve h s) = insert h (served s) \<and>
    vdata (dev_serve h s) = (if w then vdata s else (vdata s)(b := plat s (ucast (blk * 2)))) \<and>
    plat (dev_serve h s) = (if w then (plat s)(ucast (blk * 2) := vdata s b) else plat s)"
proof -
  obtain b blk w where x: "reqs s h = Some (b, blk, w)" "chain_ok (drv s) h (b, blk, w)" "bdisk (drv s) b" "h \<notin> served s"
    using work_request [OF assms] .
  note e = dev_serve_eq [OF dev_request_chain [OF x(2)]]
  show ?thesis
    by (rule exI [of _ b], rule exI [of _ blk], rule exI [of _ w])
      (use x in \<open>simp add: e VIRTIO_BLK_T_IN_def VIRTIO_BLK_T_OUT_def\<close>)
qed

lemma ready_served:
  assumes "vinv s" "reqs s h = Some (b, x)" "\<not> bdisk (drv s) b"
  shows "h \<in> served s"
proof -
  have "\<not> (\<exists>x. reqs s h = Some x \<and> bdisk (drv s) (fst x))" using assms(2,3) by simp
  then have "h \<notin> set (avl s) \<union> work s" using assms(1) unfolding vinv_def phases_ok_def by blast
  then show ?thesis using assms(1,2) unfolding vinv_def phases_ok_def by blast
qed

lemma intr_releases:
  assumes "vinv s"
  shows "\<exists>v. virtio_disk_intr me ist (drv s) = Inr v \<and> (\<forall>h b x. reqs s h = Some (b, x) \<longrightarrow> h \<in> served s \<longrightarrow> \<not> bdisk v b)"
proof -
  obtain v where v: "virtio_disk_intr me ist (drv s) = Inr v" "vinv (s\<lparr>drv := v\<rparr>)" "seen_idx v = used_idx v"
    using vinv_intr [OF assms] .
  have "usd (s\<lparr>drv := v\<rparr>) = []" using v(3) by (simp add: usd_def vu.contents_def vu.count_def)
  then have "\<not> bdisk v b" if "reqs s h = Some (b, x)" "h \<in> served s" for h b x
    using v(2) that unfolding vinv_def phases_ok_def by auto
  then show ?thesis using v(1) by blast
qed

text \<open>A device, a driver that has been initialised on it, and a request to write buffer 3 to block 7.\<close>

definition demo_regs :: "u32 \<Rightarrow> u32" where
  "demo_regs r = (if r = 0x000 then 0x74726976 else if r = 0x004 then 1 else if r = 0x008 then 2
     else if r = 0x00c then 0x554d4551 else if r = 0x034 then 1024 else 0)"

definition demo_vdisk :: "ptable \<Rightarrow> vdisk" where
  "demo_vdisk t = \<lparr>desc = (\<lambda>_. no_desc), avail_idx = 0, avail_ring = (\<lambda>_. 0), used_idx = 0, used_ring = (\<lambda>_. 0),
     vfree = (\<lambda>_. False), seen_idx = 0, info_b = (\<lambda>_. None), info_status = (\<lambda>_. 0),
     ops = (\<lambda>_. \<lparr>q_type = 0, q_reserved = 0, q_sector = 0\<rparr>), bdisk = (\<lambda>_. False), vtbl = t, mmio = []\<rparr>"

definition demo_vsys :: "ptable \<Rightarrow> vsys" where
  "demo_vsys t = \<lparr>drv = (case virtio_disk_init demo_regs 0x80010000 (demo_vdisk t) of Inr v \<Rightarrow> v | Inl _ \<Rightarrow> demo_vdisk t),
     dev_idx = 0, work = {}, plat = (\<lambda>_. zero_block), vdata = (\<lambda>_. zero_block), reqs = (\<lambda>_. None), served = {}\<rparr>"

lemma demo_boot: "vboot (demo_vsys t)"
proof -
  have "\<exists>v. virtio_disk_init demo_regs 0x80010000 (demo_vdisk t) = Inr v"
    by (simp add: virtio_disk_init_def demo_regs_def Let_def NUM_def)
  then have "virtio_disk_init demo_regs 0x80010000 (demo_vdisk t) = Inr (drv (demo_vsys t))"
    by (auto simp: demo_vsys_def)
  moreover have "seen_idx (demo_vdisk t) = 0" "\<forall>b. \<not> bdisk (demo_vdisk t) b" by (simp_all add: demo_vdisk_def)
  ultimately show ?thesis unfolding vboot_def by (intro conjI) (blast | simp add: demo_vsys_def)+
qed

lemma demo_start:
  "\<exists>v. virtio_rw_start 0 3 7 True (drv (demo_vsys t)) = Inr (v, ChBuf 3, Some 0) \<and> avail_idx v = 1 \<and> avail_ring v 0 = 0"
proof -
  have "\<exists>v. virtio_disk_init demo_regs 0x80010000 (demo_vdisk t) = Inr v \<and> vfree v = (\<lambda>i. i < NUM) \<and> avail_idx v = 0"
    by (simp add: virtio_disk_init_def demo_regs_def Let_def wreg_def demo_vdisk_def NUM_def)
  then have d: "vfree (drv (demo_vsys t)) = (\<lambda>i. i < NUM)" "avail_idx (drv (demo_vsys t)) = 0" by (auto simp: demo_vsys_def)
  show ?thesis
    by (simp add: virtio_rw_start_def alloc3_desc_def numeral_3_eq_3 alloc_desc_def upt_conv_Cons NUM_def d virtio_submit_def
      format_chain_def wreg_def Let_def)
qed

lemma demo_run: "\<exists>s. vstep\<^sup>*\<^sup>* (demo_vsys t) s \<and> 0 \<in> work s \<and> reqs s 0 = Some (3, 7, True)"
proof -
  obtain v where v: "virtio_rw_start 0 3 7 True (drv (demo_vsys t)) = Inr (v, ChBuf 3, Some 0)" "avail_idx v = 1" "avail_ring v 0 = 0"
    using demo_start by blast
  let ?s = "(demo_vsys t)\<lparr>drv := v, reqs := (reqs (demo_vsys t))(0 := Some (3, 7, True))\<rparr>"
  have "vstep (demo_vsys t) ?s" by (rule vstep.start [OF v(1)]) (simp add: demo_vsys_def)
  moreover have "vstep ?s (dev_fetch ?s)" by (rule vstep.fetch) (simp add: v demo_vsys_def)
  moreover have "0 \<in> work (dev_fetch ?s)" "reqs (dev_fetch ?s) 0 = Some (3, 7, True)"
    by (simp_all add: dev_fetch_def get_avail_def v demo_vsys_def)
  ultimately show ?thesis by (meson converse_rtranclp_into_rtranclp r_into_rtranclp)
qed

text \<open>C4: in every run of the driver, the processes and the device since the initialisation, the device performs exactly the
  requests that were made: a chain it works on is a request not served yet, and serving it copies the two sectors of its
  block from or to its buffer, as the request says. A process goes on after its request has been served, and not before;
  an interrupt releases the buffers of all requests served so far. The driver never panics on a descriptor, a completion
  or a null buffer, and every descriptor is free or in the chain of one request.
\<close>

theorem disk_requests_exact:
  assumes "vboot s0" "vstep\<^sup>*\<^sup>* s0 s"
  shows "(\<forall>h \<in> work s. \<exists>b blk w. reqs s h = Some (b, blk, w) \<and> h \<notin> served s \<and> bdisk (drv s) b \<and>
        served (dev_serve h s) = insert h (served s) \<and>
        vdata (dev_serve h s) = (if w then vdata s else (vdata s)(b := plat s (ucast (blk * 2)))) \<and>
        plat (dev_serve h s) = (if w then (plat s)(ucast (blk * 2) := vdata s b) else plat s)) \<and>
    (\<forall>h b x me. reqs s h = Some (b, x) \<longrightarrow>
      (if bdisk (drv s) b then \<exists>v. virtio_rw_woken me b h (drv s) = Inr (v, Sleeps (ChBuf b))
       else h \<in> served s \<and> (\<exists>v. virtio_rw_woken me b h (drv s) = Inr (v, Return ())))) \<and>
    (\<exists>v. virtio_disk_intr me ist (drv s) = Inr v \<and> (\<forall>h b x. reqs s h = Some (b, x) \<longrightarrow> h \<in> served s \<longrightarrow> \<not> bdisk v b)) \<and>
    (\<exists>r. virtio_rw_start p b blk w (drv s) = Inr r) \<and>
    card {i. i < NUM \<and> vfree (drv s) i} + 3 * card (dom (reqs s)) = NUM"
proof (intro conjI)
  have s: "vinv s" using assms vinv_boot vinv_run by blast
  show "\<forall>h b x me. reqs s h = Some (b, x) \<longrightarrow>
      (if bdisk (drv s) b then \<exists>v. virtio_rw_woken me b h (drv s) = Inr (v, Sleeps (ChBuf b))
       else h \<in> served s \<and> (\<exists>v. virtio_rw_woken me b h (drv s) = Inr (v, Return ())))"
    using vinv_woken [OF s] ready_served [OF s] by metis
  show "\<exists>r. virtio_rw_start p b blk w (drv s) = Inr r" using rw_start_cases by blast
  show "card {i. i < NUM \<and> vfree (drv s) i} + 3 * card (dom (reqs s)) = NUM"
    using s by (simp add: vinv_def descriptors_add_up)
qed (use assms vinv_boot vinv_run serve_exact intr_releases in blast)+

theorem disk_requests_exact_witness:
  "\<forall>t. \<exists>s. vboot (demo_vsys t) \<and> vstep\<^sup>*\<^sup>* (demo_vsys t) s \<and> 0 \<in> work s \<and> reqs s 0 = Some (3, 7, True) \<and>
    plat (dev_serve 0 s) = (plat s)(14 := vdata s 3) \<and> served (dev_serve 0 s) = insert 0 (served s)"
proof
  fix t
  obtain s where s: "vstep\<^sup>*\<^sup>* (demo_vsys t) s" "0 \<in> work s" "reqs s 0 = Some (3, 7, True)" using demo_run by blast
  from disk_requests_exact [OF demo_boot s(1), THEN conjunct1, THEN bspec, OF s(2)]
  have "\<exists>b blk w. reqs s 0 = Some (b, blk, w) \<and> served (dev_serve 0 s) = insert 0 (served s) \<and>
      plat (dev_serve 0 s) = (if w then (plat s)(ucast (blk * 2) := vdata s b) else plat s)"
    by blast
  then show "\<exists>s. vboot (demo_vsys t) \<and> vstep\<^sup>*\<^sup>* (demo_vsys t) s \<and> 0 \<in> work s \<and> reqs s 0 = Some (3, 7, True) \<and>
      plat (dev_serve 0 s) = (plat s)(14 := vdata s 3) \<and> served (dev_serve 0 s) = insert 0 (served s)"
    using s demo_boot by auto
qed

end
