(* ===== verification/Grep.thy ===== *)
theory Grep
  imports Prelude
begin

text \<open>
  \<^verbatim>\<open>user/grep.c\<close>: the matcher of regular expressions and the loop that reads the input. A C string is the list of its
  characters before the NUL, a pointer into it the rest of the list. The theory shows that the matcher implements the
  language of the pattern, and that the output consists of the lines that match, however the input arrives.
\<close>

section \<open>The matcher\<close>

definition NUL :: char where "NUL = CHR 0x00"

text \<open>The first character of the string, NUL at its end.\<close>

fun chr0 :: "string \<Rightarrow> char" where
  "chr0 [] = NUL"
| "chr0 (c # s) = c"

function matchhere :: "string \<Rightarrow> string \<Rightarrow> bool" and matchstar :: "char \<Rightarrow> string \<Rightarrow> string \<Rightarrow> bool" where
  "matchhere re tx =
    (if re = [] then True
     else if chr0 (tl re) = CHR ''*'' then matchstar (hd re) (tl (tl re)) tx
     else if hd re = CHR ''$'' \<and> tl re = [] then tx = []
     else if tx \<noteq> [] \<and> (hd re = CHR ''.'' \<or> hd re = hd tx) then matchhere (tl re) (tl tx)
     else False)"
| "matchstar c re tx =
    (if matchhere re tx then True
     else if tx \<noteq> [] \<and> (hd tx = c \<or> c = CHR ''.'') then matchstar c re (tl tx)
     else False)"
  by pat_completeness auto
termination
  by (relation "inv_image (less_than <*lex*> less_than)
      (\<lambda>x. case x of Inl (re, tx) \<Rightarrow> (2 * length re, length tx) | Inr (c, re, tx) \<Rightarrow> (2 * length re + 1, length tx))")
    (auto simp flip: length_greater_0_conv)

declare matchhere.simps [simp del] matchstar.simps [simp del]

fun match_from :: "string \<Rightarrow> string \<Rightarrow> bool" where
  "match_from re tx =
    (if matchhere re tx then True
     else case tx of [] \<Rightarrow> False | c # tx \<Rightarrow> match_from re tx)"

declare match_from.simps [simp del]

definition match :: "string \<Rightarrow> string \<Rightarrow> bool" where
  "match re tx = (if chr0 re = CHR ''^'' then matchhere (tl re) tx else match_from re tx)"

section \<open>The input\<close>

text \<open>
  The inner loop of \<^verbatim>\<open>grep\<close> on the characters of the buffer from \<^verbatim>\<open>p\<close>: what it writes, and the characters after the
  last line. \<^verbatim>\<open>strchr\<close> looks for the newline up to the first NUL.
\<close>

definition nl :: char where "nl = CHR 0x0A"

definition line_of :: "string \<Rightarrow> string" where "line_of p = takeWhile (\<lambda>c. c \<noteq> nl \<and> c \<noteq> NUL) p"

function grep_lines :: "string \<Rightarrow> string \<Rightarrow> string \<times> string" where
  "grep_lines re p =
    (let l = line_of p; q = drop (length l) p
     in if q \<noteq> [] \<and> hd q = nl
        then let (out, p) = grep_lines re (tl q) in ((if match re l then l @ [nl] else []) @ out, p)
        else ([], p))"
  by pat_completeness auto
termination
  by (relation "measure (\<lambda>(re, p). length p)") (auto simp flip: length_greater_0_conv)

declare grep_lines.simps [simp del]

text \<open>
  The outer loop: \<open>buf\<close> holds the first \<^verbatim>\<open>m\<close> characters of the buffer, \<open>inp\<close> the input still to come. The \<open>k\<close>-th call
  of \<^verbatim>\<open>read\<close> returns at most \<open>ns k + 1\<close> characters: a pipe or a terminal may have fewer than \<^verbatim>\<open>grep\<close> has room for.
\<close>

definition BUF :: nat where "BUF = 1024"

function grep_loop :: "(nat \<Rightarrow> nat) \<Rightarrow> string \<Rightarrow> nat \<Rightarrow> string \<Rightarrow> string \<Rightarrow> string" where
  "grep_loop ns re k buf inp =
    (let n = min (length inp) (min (BUF - length buf - 1) (Suc (ns k)))
     in if n > 0
        then let (out, buf) = grep_lines re (buf @ take n inp) in out @ grep_loop ns re (Suc k) buf (drop n inp)
        else [])"
  by pat_completeness auto
termination
  by (relation "measure (\<lambda>(ns, re, k, buf, inp). length inp)") auto

declare grep_loop.simps [simp del]

definition grep :: "(nat \<Rightarrow> nat) \<Rightarrow> string \<Rightarrow> string \<Rightarrow> string" where
  "grep ns re inp = grep_loop ns re 0 [] inp"

section \<open>The language of a pattern\<close>

text \<open>
  A pattern is a sequence of characters, each of them possibly repeated; a \<open>$\<close> at its end stands for the end of the
  text. \<open>matched\<close> is the set of texts that the items match from beginning to end.
\<close>

datatype item = One char | Star char

fun items :: "string \<Rightarrow> item list" where
  "items [] = []"
| "items (c # re) =
    (case re of
       [] \<Rightarrow> if c = CHR ''$'' then [] else [One c]
     | d # re' \<Rightarrow> if d = CHR ''*'' then Star c # items re' else One c # items re)"

fun to_end :: "string \<Rightarrow> bool" where
  "to_end [] = False"
| "to_end (c # re) =
    (case re of
       [] \<Rightarrow> c = CHR ''$''
     | d # re' \<Rightarrow> if d = CHR ''*'' then to_end re' else to_end re)"

definition stands_for :: "char \<Rightarrow> char set" where
  "stands_for c = (if c = CHR ''.'' then UNIV else {c})"

fun matched :: "item list \<Rightarrow> string set" where
  "matched [] = {[]}"
| "matched (One c # is) = {x # t |x t. x \<in> stands_for c \<and> t \<in> matched is}"
| "matched (Star c # is) = {s @ t |s t. set s \<subseteq> stands_for c \<and> t \<in> matched is}"

definition matches_here :: "string \<Rightarrow> string \<Rightarrow> bool" where
  "matches_here re tx \<longleftrightarrow> (\<exists>u v. tx = u @ v \<and> u \<in> matched (items re) \<and> (to_end re \<longrightarrow> v = []))"

definition matches :: "string \<Rightarrow> string \<Rightarrow> bool" where
  "matches re tx \<longleftrightarrow>
    (case re of
       [] \<Rightarrow> True
     | c # re' \<Rightarrow> if c = CHR ''^'' then matches_here re' tx else \<exists>u v. tx = u @ v \<and> matches_here re v)"

lemma matched_star:
  "(\<exists>u v. tx = u @ v \<and> u \<in> matched (Star c # is) \<and> Q v) \<longleftrightarrow>
    (\<exists>s w. tx = s @ w \<and> set s \<subseteq> stands_for c \<and> (\<exists>u v. w = u @ v \<and> u \<in> matched is \<and> Q v))"
proof (intro iffI; elim exE conjE)
  fix u v
  assume "tx = u @ v" "u \<in> matched (Star c # is)" "Q v"
  then obtain s t where "u = s @ t" "set s \<subseteq> stands_for c" "t \<in> matched is" by auto
  then show "\<exists>s w. tx = s @ w \<and> set s \<subseteq> stands_for c \<and> (\<exists>u v. w = u @ v \<and> u \<in> matched is \<and> Q v)"
    using \<open>tx = u @ v\<close> \<open>Q v\<close> by (intro exI [of _ s] exI [of _ "t @ v"]) auto
next
  fix s w u v
  assume "tx = s @ w" "set s \<subseteq> stands_for c" "w = u @ v" "u \<in> matched is" "Q v"
  then show "\<exists>u v. tx = u @ v \<and> u \<in> matched (Star c # is) \<and> Q v" by (intro exI [of _ "s @ u"] exI [of _ v]) auto
qed

lemma star_step:
  "(\<exists>s w. tx = s @ w \<and> set s \<subseteq> A \<and> P w) \<longleftrightarrow>
    P tx \<or> (tx \<noteq> [] \<and> hd tx \<in> A \<and> (\<exists>s w. tl tx = s @ w \<and> set s \<subseteq> A \<and> P w))"
proof (intro iffI)
  assume "\<exists>s w. tx = s @ w \<and> set s \<subseteq> A \<and> P w"
  then obtain s w where "tx = s @ w" "set s \<subseteq> A" "P w" by blast
  then show "P tx \<or> (tx \<noteq> [] \<and> hd tx \<in> A \<and> (\<exists>s w. tl tx = s @ w \<and> set s \<subseteq> A \<and> P w))"
    by (cases s) auto
next
  assume "P tx \<or> (tx \<noteq> [] \<and> hd tx \<in> A \<and> (\<exists>s w. tl tx = s @ w \<and> set s \<subseteq> A \<and> P w))"
  then show "\<exists>s w. tx = s @ w \<and> set s \<subseteq> A \<and> P w"
  proof
    assume "P tx"
    then show ?thesis by (intro exI [of _ "[]"] exI [of _ tx]) simp
  next
    assume "tx \<noteq> [] \<and> hd tx \<in> A \<and> (\<exists>s w. tl tx = s @ w \<and> set s \<subseteq> A \<and> P w)"
    then obtain s w where "tx = (hd tx # s) @ w" "set (hd tx # s) \<subseteq> A" "P w" by (cases tx) auto
    then show ?thesis by blast
  qed
qed

lemma matchhere_cases:
  "matchhere [] tx"
  "matchhere (c # CHR ''*'' # re) tx = matchstar c re tx"
  "matchhere ''$'' tx = (tx = [])"
  "chr0 re \<noteq> CHR ''*'' \<Longrightarrow> re \<noteq> [] \<or> c \<noteq> CHR ''$'' \<Longrightarrow>
    matchhere (c # re) tx = (tx \<noteq> [] \<and> (c = CHR ''.'' \<or> c = hd tx) \<and> matchhere re (tl tx))"
  by (auto simp: matchhere.simps [of "[]" tx] matchhere.simps [of "c # CHR ''*'' # re" tx] matchhere.simps [of "''$''" tx]
    matchhere.simps [of "c # re" tx] NUL_def)

lemma pattern_cases:
  obtains "re = []" | c re' where "re = c # CHR ''*'' # re'" | "re = ''$''"
    | c re' where "re = c # re'" "chr0 re' \<noteq> CHR ''*''" "re' \<noteq> [] \<or> c \<noteq> CHR ''$''"
  by (cases re rule: items.cases; cases "tl re") (auto simp: NUL_def)

lemma matches_here_cases:
  "matches_here [] tx"
  "matches_here (c # CHR ''*'' # re) tx \<longleftrightarrow> (\<exists>s w. tx = s @ w \<and> set s \<subseteq> stands_for c \<and> matches_here re w)"
  "matches_here ''$'' tx \<longleftrightarrow> tx = []"
  "chr0 re \<noteq> CHR ''*'' \<Longrightarrow> re \<noteq> [] \<or> c \<noteq> CHR ''$'' \<Longrightarrow>
    matches_here (c # re) tx = (tx \<noteq> [] \<and> hd tx \<in> stands_for c \<and> matches_here re (tl tx))"
proof -
  assume *: "chr0 re \<noteq> CHR ''*''" "re \<noteq> [] \<or> c \<noteq> CHR ''$''"
  then have i: "items (c # re) = One c # items re" "to_end (c # re) = to_end re" by (cases re; simp)+
  show "matches_here (c # re) tx = (tx \<noteq> [] \<and> hd tx \<in> stands_for c \<and> matches_here re (tl tx))"
    unfolding matches_here_def i by (cases tx) (auto simp: Cons_eq_append_conv)
next
  have i: "items (c # CHR ''*'' # re) = Star c # items re" "to_end (c # CHR ''*'' # re) = to_end re" by simp_all
  show "matches_here (c # CHR ''*'' # re) tx \<longleftrightarrow> (\<exists>s w. tx = s @ w \<and> set s \<subseteq> stands_for c \<and> matches_here re w)"
    unfolding matches_here_def i by (rule matched_star)
qed (simp_all add: matches_here_def)

lemma matcher_language:
  "matchhere re tx \<longleftrightarrow> matches_here re tx"
  "matchstar c re tx \<longleftrightarrow> (\<exists>s w. tx = s @ w \<and> set s \<subseteq> stands_for c \<and> matches_here re w)"
proof (induction re tx and c re tx rule: matchhere_matchstar.induct)
  case (1 re tx)
  show ?case
  proof (cases re rule: pattern_cases)
    case (4 c re')
    then have "matchhere re' (tl tx) = matches_here re' (tl tx)" if "tx \<noteq> []" "c = CHR ''.'' \<or> c = hd tx"
      using "1.IH"(2) that 4 by (metis list.distinct(1) list.sel(1,3))
    then show ?thesis using 4 by (auto simp: matchhere_cases matches_here_cases stands_for_def)
  qed (use "1.IH"(1) in \<open>simp_all add: matchhere_cases matches_here_cases\<close>)
next
  case (2 c re tx)
  let ?star = "\<lambda>tx. \<exists>s w. tx = s @ w \<and> set s \<subseteq> stands_for c \<and> matches_here re w"
  have "matchstar c re tx \<longleftrightarrow> matchhere re tx \<or> (tx \<noteq> [] \<and> (hd tx = c \<or> c = CHR ''.'') \<and> matchstar c re (tl tx))"
    by (subst matchstar.simps) simp
  also have "\<dots> \<longleftrightarrow> matches_here re tx \<or> (tx \<noteq> [] \<and> hd tx \<in> stands_for c \<and> ?star (tl tx))"
  proof (cases "matchhere re tx")
    case False
    have "hd tx \<in> stands_for c \<longleftrightarrow> hd tx = c \<or> c = CHR ''.''" by (auto simp: stands_for_def)
    then show ?thesis using "2.IH"(1) "2.IH"(2) [OF False] False by blast
  qed (use 2 in simp)
  finally show ?case by (simp only: star_step [symmetric])
qed

lemma match_from_language: "match_from re tx \<longleftrightarrow> (\<exists>u v. tx = u @ v \<and> matches_here re v)"
proof (induction tx)
  case (Cons c tx)
  have "(\<exists>u v. c # tx = u @ v \<and> matches_here re v) \<longleftrightarrow> matches_here re (c # tx) \<or> (\<exists>u v. tx = u @ v \<and> matches_here re v)"
    by (auto simp: Cons_eq_append_conv)
  then show ?case using Cons by (simp add: match_from.simps [of _ "c # tx"] matcher_language)
qed (simp add: match_from.simps matcher_language)

lemma match_language: "match re tx \<longleftrightarrow> matches re tx"
  by (cases re) (auto simp: match_def matches_def matcher_language match_from_language matches_here_cases NUL_def)

section \<open>The lines of the input\<close>

text \<open>The complete lines of a text, and the rest after the last newline.\<close>

fun lines :: "string \<Rightarrow> string list" where
  "lines [] = []"
| "lines (c # s) = (if c = nl then [] # lines s else case lines s of [] \<Rightarrow> [] | l # ls \<Rightarrow> (c # l) # ls)"

fun rest :: "string \<Rightarrow> string" where
  "rest [] = []"
| "rest (c # s) = (if c = nl then rest s else if lines s = [] then c # rest s else rest s)"

definition printed :: "string \<Rightarrow> string \<Rightarrow> string" where
  "printed re s = concat (map (\<lambda>l. l @ [nl]) (filter (matches re) (lines s)))"

lemma lines_none [simp]: "nl \<notin> set s \<Longrightarrow> lines s = []" "nl \<notin> set s \<Longrightarrow> rest s = s"
  by (induction s) auto

lemma lines_line:
  "nl \<notin> set l \<Longrightarrow> lines (l @ nl # s) = l # lines s" "nl \<notin> set l \<Longrightarrow> rest (l @ nl # s) = rest s"
  by (induction l) auto

lemma line_induct [case_names last line]:
  assumes "\<And>s. nl \<notin> set s \<Longrightarrow> P s" "\<And>l s. nl \<notin> set l \<Longrightarrow> P s \<Longrightarrow> P (l @ nl # s)"
  shows "P s"
proof (induction "length s" arbitrary: s rule: less_induct)
  case less
  show ?case
  proof (cases "nl \<in> set s")
    case True
    then obtain l t where "s = l @ nl # t" "nl \<notin> set l" by (meson split_list_first)
    then show ?thesis using less assms(2) by simp
  qed (use assms(1) in blast)
qed

lemma lines_append: "lines (a @ b) = lines a @ lines (rest a @ b)"
  by (induction a rule: line_induct) (simp_all add: lines_line)

lemma rest_no_nl: "nl \<notin> set (rest s)"
  by (induction s rule: line_induct) (simp_all add: lines_line)

lemma set_rest: "set (rest s) \<subseteq> set s"
  by (induction s rule: line_induct) (auto simp: lines_line)

lemma printed_append: "printed re (a @ b) = printed re a @ printed re (rest a @ b)"
  by (simp add: printed_def lines_append [of a b])

lemma grep_lines_printed:
  "NUL \<notin> set p \<Longrightarrow> grep_lines re p = (printed re p, rest p)"
proof (induction p rule: line_induct)
  case (last s)
  have "line_of s = s" using last by (auto simp: line_of_def takeWhile_eq_all_conv)
  then show ?case using last by (subst grep_lines.simps) (simp add: printed_def)
next
  case (line l s)
  then have "\<forall>c \<in> set l. c \<noteq> nl \<and> c \<noteq> NUL" by auto
  then have "line_of (l @ nl # s) = l" by (simp add: line_of_def takeWhile_append)
  then show ?case
    using line by (subst grep_lines.simps) (simp add: printed_def lines_line match_language)
qed

lemma first_line_longer:
  assumes "nl \<notin> set b" "lines (b @ s) = l # ls"
  shows "length b \<le> length l"
proof -
  have "nl \<in> set s" using assms by (cases "nl \<in> set (b @ s)") auto
  then obtain t u where "s = t @ nl # u" "nl \<notin> set t" by (meson split_list_first)
  then show ?thesis using assms lines_line(1) [of "b @ t" u] by simp
qed

lemma grep_loop_step:
  "n = min (length inp) (min (BUF - length buf - 1) (Suc (ns k))) \<Longrightarrow> grep_loop ns re k buf inp =
    (if n > 0 then case grep_lines re (buf @ take n inp) of (out, buf) \<Rightarrow> out @ grep_loop ns re (Suc k) buf (drop n inp) else [])"
  by (subst grep_loop.simps) (simp only: Let_def)

lemma grep_loop_printed:
  assumes "nl \<notin> set buf" "NUL \<notin> set (buf @ inp)" "\<forall>l \<in> set (lines (buf @ inp)). length l < BUF - 1"
  shows "grep_loop ns re k buf inp = printed re (buf @ inp)"
  using assms
proof (induction ns re k buf inp rule: grep_loop.induct)
  case (1 ns re k buf inp)
  define n where "n = min (length inp) (min (BUF - length buf - 1) (Suc (ns k)))"
  note step = grep_loop_step [where ns = ns and k = k and re = re, OF n_def]
  show ?case
  proof (cases "n > 0")
    case True
    define b where "b = buf @ take n inp"
    have b: "buf @ inp = b @ drop n inp" by (simp add: b_def)
    have "NUL \<notin> set b" using "1.prems"(2) b by (metis Un_iff set_append)
    then have g: "grep_lines re b = (printed re b, rest b)" by (rule grep_lines_printed)
    have "NUL \<notin> set (rest b @ drop n inp)" using "1.prems"(2) set_rest [of b] unfolding b by auto
    moreover have "\<forall>l \<in> set (lines (rest b @ drop n inp)). length l < BUF - 1"
      using "1.prems"(3) unfolding b lines_append [of b] by simp
    ultimately have "grep_loop ns re (Suc k) (rest b) (drop n inp) = printed re (rest b @ drop n inp)"
      using "1.IH" [OF n_def True g [unfolded b_def, symmetric]] rest_no_nl by (simp add: b_def)
    then show ?thesis
      using True g by (simp add: step b_def [symmetric] b printed_append [of re b])
  next
    case False
    have "lines (buf @ inp) = []"
    proof (cases "inp = []")
      case False
      then have "BUF - 1 \<le> length buf" using \<open>\<not> n > 0\<close> by (auto simp: n_def)
      then show ?thesis using first_line_longer [OF "1.prems"(1)] "1.prems"(3) by (cases "lines (buf @ inp)") fastforce+
    qed (use 1 in simp)
    then show ?thesis using False by (simp add: step printed_def)
  qed
qed

text \<open>A line that does not fit in the buffer ends the run: the lines after it are not looked at.\<close>

lemma grep_loop_long:
  assumes "nl \<notin> set (take (BUF - 1) (buf @ inp))" "length buf \<le> BUF - 1" "NUL \<notin> set (buf @ inp)"
  shows "grep_loop ns re k buf inp = []"
  using assms
proof (induction ns re k buf inp rule: grep_loop.induct)
  case (1 ns re k buf inp)
  define n where "n = min (length inp) (min (BUF - length buf - 1) (Suc (ns k)))"
  have n: "length (buf @ take n inp) \<le> BUF - 1" using "1.prems"(2) by (simp add: n_def)
  have "take (BUF - 1) (buf @ inp) = buf @ take n inp @ take (BUF - 1 - length (buf @ take n inp)) (drop n inp)"
    using n by (metis append.assoc append_take_drop_id take_all take_append)
  then have no: "nl \<notin> set (buf @ take n inp)" using "1.prems"(1) by simp
  have "NUL \<notin> set (buf @ take n inp)" using "1.prems"(3) by (auto dest: in_set_takeD)
  then have g: "grep_lines re (buf @ take n inp) = ([], buf @ take n inp)"
    using grep_lines_printed no by (simp add: printed_def)
  have "grep_loop ns re (Suc k) (buf @ take n inp) (drop n inp) = []" if "n > 0"
    using "1.IH" [OF n_def that g [symmetric]] n "1.prems" by simp
  then show ?case using grep_loop_step [where ns = ns and k = k and re = re, OF n_def] g by simp
qed

lemma grep_stops_at_long_line: "nl \<notin> set (take (BUF - 1) inp) \<Longrightarrow> NUL \<notin> set inp \<Longrightarrow> grep ns re inp = []"
  using grep_loop_long [of "[]" inp] by (simp add: grep_def)

text \<open>C31: \<^verbatim>\<open>grep\<close> writes exactly the lines of its input in which some part is in the language of the pattern, in order, no
  matter in which pieces \<^verbatim>\<open>read\<close> delivers the input, if the input has no NUL and every line has fewer than 1023 characters. The rest
  after the last newline is not a line, and is not written even if it matches.
\<close>

theorem grep_prints_matching_lines:
  assumes "NUL \<notin> set inp" "\<forall>l \<in> set (lines inp). length l < BUF - 1"
  shows "grep ns re inp = concat (map (\<lambda>l. l @ [nl]) (filter (matches re) (lines inp)))"
  using grep_loop_printed [of "[]" inp ns re 0] assms by (simp add: grep_def printed_def)

theorem grep_prints_matching_lines_witness:
  "grep (\<lambda>_. 2) ''b.*$'' (''ab'' @ [nl] @ ''ca'' @ [nl] @ ''bcc'' @ [nl]) = ''ab'' @ [nl] @ ''bcc'' @ [nl]"
proof -
  have l: "lines (''ab'' @ [nl] @ ''ca'' @ [nl] @ ''bcc'' @ [nl]) = [''ab'', ''ca'', ''bcc'']" by (simp add: nl_def)
  have "matches ''b.*$'' ''ab''" "\<not> matches ''b.*$'' ''ca''" "matches ''b.*$'' ''bcc''"
    by (simp_all add: match_language [symmetric] match_def match_from.simps matchhere.simps matchstar.simps NUL_def)
  then show ?thesis
    by (subst grep_prints_matching_lines) (simp_all add: l, simp_all add: nl_def NUL_def BUF_def)
qed

end
