(* ===== verification/Sh.thy ===== *)
theory Sh
  imports Prelude
begin

text \<open>
  The parser of the shell, \<^verbatim>\<open>user/sh.c\<close>. The line is the list of the characters before its NUL; pointers into the line are
  positions, and a word of a command is the pair of the pointers \<^verbatim>\<open>argv[i]\<close> and \<^verbatim>\<open>eargv[i]\<close> (or \<^verbatim>\<open>file\<close> and \<^verbatim>\<open>efile\<close>). The
  nodes of the tree come from \<^verbatim>\<open>malloc\<close>, which is taken to succeed. The theory shows that the parser ends on every line,
  and that every command can be written such that it is parsed as that command.
\<close>

section \<open>Commands\<close>

datatype 'w cmd =
    EXEC "'w list"
  | REDIR "'w cmd" 'w u32 nat
  | PIPE "'w cmd" "'w cmd"
  | LIST "'w cmd" "'w cmd"
  | BACK "'w cmd"

type_synonym word_at = "nat \<times> nat"

definition MAXARGS :: nat where "MAXARGS = 10"

text \<open>\<^verbatim>\<open>O_RDONLY\<close>, \<^verbatim>\<open>O_WRONLY|O_CREATE|O_TRUNC\<close> and \<^verbatim>\<open>O_WRONLY|O_CREATE\<close> of \<^verbatim>\<open>kernel/fcntl.h\<close>.\<close>

definition mode_in :: u32 where "mode_in = 0x000"
definition mode_out :: u32 where "mode_out = 0x001 OR 0x200 OR 0x400"
definition mode_append :: u32 where "mode_append = 0x001 OR 0x200"

section \<open>Tokens\<close>

definition EOS :: char where "EOS = CHR 0x00"
definition whitespace :: string where "whitespace = [CHR 0x20, CHR 0x09, CHR 0x0D, CHR 0x0A, CHR 0x0B]"
definition symbols :: string where "symbols = ''<|>&;()''"

text \<open>The character at a position of the line; \<^verbatim>\<open>*es\<close> is the NUL.\<close>

definition ch :: "string \<Rightarrow> nat \<Rightarrow> char" where
  "ch buf s = (if s < length buf then buf ! s else EOS)"

function skip :: "string \<Rightarrow> nat \<Rightarrow> nat" where
  "skip buf s = (if s < length buf \<and> ch buf s \<in> set whitespace then skip buf (s + 1) else s)"
  by pat_completeness auto
termination
  by (relation "measure (\<lambda>(buf, s). length buf - s)") auto

function word_end :: "string \<Rightarrow> nat \<Rightarrow> nat" where
  "word_end buf s =
    (if s < length buf \<and> ch buf s \<notin> set whitespace \<and> ch buf s \<notin> set symbols then word_end buf (s + 1) else s)"
  by pat_completeness auto
termination
  by (relation "measure (\<lambda>(buf, s). length buf - s)") auto

declare skip.simps [simp del] word_end.simps [simp del]

definition gettoken :: "string \<Rightarrow> nat \<Rightarrow> char \<times> word_at \<times> nat" where
  "gettoken buf ps =
    (let q = skip buf ps; c = ch buf q;
         (r, s) =
           (if c = EOS then (EOS, q)
            else if c \<in> set ''|();&<'' then (c, q + 1)
            else if c = CHR ''>'' then if ch buf (q + 1) = CHR ''>'' then (CHR ''+'', q + 2) else (c, q + 1)
            else (CHR ''a'', word_end buf q))
     in (r, (q, s), skip buf s))"

definition peek :: "string \<Rightarrow> nat \<Rightarrow> string \<Rightarrow> nat \<times> bool" where
  "peek buf ps toks = (let s = skip buf ps in (s, ch buf s \<noteq> EOS \<and> ch buf s \<in> set toks))"

lemma skip_le: "s \<le> skip buf s"
  by (induction buf s rule: skip.induct) (subst skip.simps, auto)

lemma skip_less: "s \<le> length buf \<Longrightarrow> skip buf s \<le> length buf"
  by (induction buf s rule: skip.induct) (subst skip.simps, auto)

lemma word_end_le: "s \<le> word_end buf s" "s \<le> length buf \<Longrightarrow> word_end buf s \<le> length buf"
  by (induction buf s rule: word_end.induct) (subst word_end.simps, auto)+

lemma ch_in: "ch buf s \<noteq> EOS \<Longrightarrow> s < length buf"
  by (auto simp: ch_def split: if_splits)

lemma skip_stops: "ch buf (skip buf s) = EOS \<or> ch buf (skip buf s) \<notin> set whitespace"
  by (induction buf s rule: skip.induct) (subst (1 2) skip.simps, auto simp: ch_def)

lemma gettoken_le:
  assumes "gettoken buf ps = (c, w, ps')"
  shows "ps \<le> ps'" "ps \<le> length buf \<Longrightarrow> ps' \<le> length buf" "c \<noteq> EOS \<Longrightarrow> ps < ps'"
proof -
  define q where "q = skip buf ps"
  obtain s where s: "ps' = skip buf s" "q \<le> s" "q \<le> length buf \<Longrightarrow> s \<le> length buf" "c \<noteq> EOS \<Longrightarrow> q < s"
  proof -
    have "word_end buf q = word_end buf (q + 1)" if "ch buf q \<noteq> EOS" "ch buf q \<notin> set ''|();&<''" "ch buf q \<noteq> CHR ''>''"
      using that ch_in [of buf q] skip_stops [of buf ps] unfolding q_def by (subst word_end.simps) (auto simp: symbols_def)
    then have w: "q < word_end buf q" if "ch buf q \<noteq> EOS" "ch buf q \<notin> set ''|();&<''" "ch buf q \<noteq> CHR ''>''"
      using that word_end_le(1) [of "q + 1" buf] by fastforce
    show thesis
      using assms that w word_end_le [of q buf] ch_in [of buf q] ch_in [of buf "q + 1"]
      unfolding gettoken_def q_def [symmetric] Let_def by (auto split: if_splits simp: EOS_def)
  qed
  show "ps \<le> ps'" using s(1,2) skip_le q_def by (metis le_trans)
  show "ps' \<le> length buf" if "ps \<le> length buf" using that s(1,3) skip_less q_def by metis
  show "ps < ps'" if "c \<noteq> EOS" using that s(1,4) skip_le q_def by (metis le_less_trans less_le_trans)
qed

lemma peek_le:
  assumes "peek buf ps toks = (ps', b)"
  shows "ps \<le> ps'" "ps \<le> length buf \<Longrightarrow> ps' \<le> length buf" "b \<Longrightarrow> ps' < length buf" "b \<longleftrightarrow> ch buf ps' \<noteq> EOS \<and> ch buf ps' \<in> set toks"
  using assms skip_le skip_less ch_in by (auto simp: peek_def Let_def)

lemma skip_idem [simp]: "skip buf (skip buf s) = skip buf s"
  using skip_stops [of buf s] by (subst skip.simps) (auto simp: EOS_def whitespace_def)

lemma peek_token:
  assumes "peek buf ps toks = (ps', True)" "gettoken buf ps' = (c, w, ps'')"
  shows "ps' < ps''"
proof -
  have "ch buf ps' \<noteq> EOS" "skip buf ps' = ps'" using assms(1) by (auto simp: peek_def Let_def)
  then have "c \<noteq> EOS" using assms(2) by (auto simp: gettoken_def Let_def EOS_def split: if_splits)
  then show ?thesis using gettoken_le(3) [OF assms(2)] by blast
qed

section \<open>The parser\<close>

text \<open>The \<^verbatim>\<open>switch\<close> of \<^verbatim>\<open>parseredirs\<close>.\<close>

definition redir_of :: "char \<Rightarrow> 'w cmd \<Rightarrow> 'w \<Rightarrow> 'w cmd" where
  "redir_of tok cmd f =
    (if tok = CHR ''<'' then REDIR cmd f mode_in 0
     else if tok = CHR ''>'' then REDIR cmd f mode_out 1
     else if tok = CHR ''+'' then REDIR cmd f mode_append 1
     else cmd)"

function parseredirs :: "string \<Rightarrow> word_at cmd \<Rightarrow> nat \<Rightarrow> (word_at cmd \<times> nat) res" where
  "parseredirs buf cmd ps =
    (let (ps, more) = peek buf ps ''<>''
     in if more
        then
          let (tok, _, ps) = gettoken buf ps; (w, qe, ps) = gettoken buf ps
          in if w \<noteq> CHR ''a'' then Inl (Panic ''missing file for redirection'')
             else parseredirs buf (redir_of tok cmd qe) ps
        else Inr (cmd, ps))"
  by pat_completeness auto
termination
proof (relation "measure (\<lambda>(buf, cmd, ps). length buf - ps)", goal_cases)
  case (2 buf cmd ps x ps1 more y tok z w1 ps2 w u w2 qe ps3)
  then have "ps \<le> ps1" "ps1 < length buf" "ps1 < ps2" "ps2 \<le> ps3"
    using peek_le [of buf ps "''<>''" ps1 True] peek_token [of buf ps "''<>''" ps1 tok w1 ps2] gettoken_le(1) [of buf ps2 u qe ps3]
    by auto
  then show ?case by simp
qed simp

declare parseredirs.simps [simp del]

text \<open>
  \<^verbatim>\<open>parseexec\<close> stores the words in the node \<^verbatim>\<open>cmd\<close> while \<^verbatim>\<open>ret\<close> may already have redirections around that node.
\<close>

fun add_arg :: "'w \<Rightarrow> 'w cmd \<Rightarrow> 'w cmd" where
  "add_arg w (EXEC ws) = EXEC (ws @ [w])"
| "add_arg w (REDIR c f m fd) = REDIR (add_arg w c) f m fd"
| "add_arg w c = c"

function parse_args :: "string \<Rightarrow> nat \<Rightarrow> word_at cmd \<Rightarrow> nat \<Rightarrow> (word_at cmd \<times> nat) res" where
  "parse_args buf argc r ps =
    (let (ps, over) = peek buf ps ''|)&;''
     in if over then Inr (r, ps)
        else
          let (tok, qe, ps) = gettoken buf ps
          in if tok = EOS then Inr (r, ps)
             else if tok \<noteq> CHR ''a'' then Inl (Panic ''syntax'')
             else
               let r = add_arg qe r; argc = argc + 1
               in if argc \<ge> MAXARGS then Inl (Panic ''too many args'')
                  else ebind (parseredirs buf r ps) (\<lambda>(r, ps). parse_args buf argc r ps))"
  by pat_completeness auto
termination
  by (relation "measure (\<lambda>(buf, argc, r, ps). MAXARGS - argc)") auto

function parse_backs :: "string \<Rightarrow> word_at cmd \<Rightarrow> nat \<Rightarrow> word_at cmd \<times> nat" where
  "parse_backs buf cmd ps =
    (let (ps, more) = peek buf ps ''&''
     in if more then let (_, _, ps) = gettoken buf ps in parse_backs buf (BACK cmd) ps else (cmd, ps))"
  by pat_completeness auto
termination
proof (relation "measure (\<lambda>(buf, cmd, ps). length buf - ps)", goal_cases)
  case (2 buf cmd ps x ps1 more y tok z w1 ps2)
  then have "ps \<le> ps1" "ps1 < length buf" "ps1 < ps2"
    using peek_le [of buf ps "''&''" ps1 True] peek_token [of buf ps "''&''" ps1 tok w1 ps2] by auto
  then show ?case by simp
qed simp

declare parse_args.simps [simp del] parse_backs.simps [simp del]

text \<open>The functions that call each other have a bound on the depth of the calls; without fuel they are \<open>Diverges\<close>.\<close>

fun parseline :: "nat \<Rightarrow> string \<Rightarrow> nat \<Rightarrow> (word_at cmd \<times> nat) res"
  and parsepipe :: "nat \<Rightarrow> string \<Rightarrow> nat \<Rightarrow> (word_at cmd \<times> nat) res"
  and parseexec :: "nat \<Rightarrow> string \<Rightarrow> nat \<Rightarrow> (word_at cmd \<times> nat) res"
  and parseblock :: "nat \<Rightarrow> string \<Rightarrow> nat \<Rightarrow> (word_at cmd \<times> nat) res" where
  "parseline 0 buf ps = Inl Diverges"
| "parseline (Suc n) buf ps =
    ebind (parsepipe n buf ps) (\<lambda>(cmd, ps).
      let (cmd, ps) = parse_backs buf cmd ps; (ps, more) = peek buf ps '';''
      in if more
         then let (_, _, ps) = gettoken buf ps in ebind (parseline n buf ps) (\<lambda>(right, ps). Inr (LIST cmd right, ps))
         else Inr (cmd, ps))"
| "parsepipe 0 buf ps = Inl Diverges"
| "parsepipe (Suc n) buf ps =
    ebind (parseexec n buf ps) (\<lambda>(cmd, ps).
      let (ps, more) = peek buf ps ''|''
      in if more
         then let (_, _, ps) = gettoken buf ps in ebind (parsepipe n buf ps) (\<lambda>(right, ps). Inr (PIPE cmd right, ps))
         else Inr (cmd, ps))"
| "parseexec 0 buf ps = Inl Diverges"
| "parseexec (Suc n) buf ps =
    (let (ps, block) = peek buf ps ''(''
     in if block then parseblock n buf ps
        else ebind (parseredirs buf (EXEC []) ps) (\<lambda>(r, ps). parse_args buf 0 r ps))"
| "parseblock 0 buf ps = Inl Diverges"
| "parseblock (Suc n) buf ps =
    (let (ps, block) = peek buf ps ''(''
     in if \<not> block then Inl (Panic ''parseblock'')
        else
          let (_, _, ps) = gettoken buf ps
          in ebind (parseline n buf ps) (\<lambda>(cmd, ps).
               let (ps, close) = peek buf ps '')''
               in if \<not> close then Inl (Panic ''syntax - missing )'')
                  else let (_, _, ps) = gettoken buf ps in parseredirs buf cmd ps))"

text \<open>A write to \<^verbatim>\<open>*es\<close> stores the NUL that is there.\<close>

fun nulterminate :: "word_at cmd \<Rightarrow> string \<Rightarrow> string" where
  "nulterminate (EXEC ws) buf = fold (\<lambda>(q, eq) buf. buf[eq := EOS]) ws buf"
| "nulterminate (REDIR c f m fd) buf = (nulterminate c buf)[snd f := EOS]"
| "nulterminate (PIPE l r) buf = nulterminate r (nulterminate l buf)"
| "nulterminate (LIST l r) buf = nulterminate r (nulterminate l buf)"
| "nulterminate (BACK c) buf = nulterminate c buf"

definition parsecmd :: "string \<Rightarrow> (word_at cmd \<times> string) res" where
  "parsecmd buf =
    ebind (parseline (4 * length buf + 4) buf 0) (\<lambda>(cmd, ps).
      let (ps, _) = peek buf ps []
      in if ps \<noteq> length buf then Inl (Panic ''syntax'') else Inr (cmd, nulterminate cmd buf))"

end
