(* ===== verification/Sh_Props.thy ===== *)
theory Sh_Props
  imports Sh
begin

text \<open>
  Properties of the parser of the shell: it ends on every line, and every command can be written such that it is parsed
  as that command.
\<close>

section \<open>The parser ends\<close>

text \<open>A parser that ends has moved forward within the line, or has given an error in the syntax.\<close>

definition syntax_errors :: "fault set" where
  "syntax_errors = Panic ` {''missing file for redirection'', ''syntax'', ''too many args'', ''syntax - missing )''}"

definition adv :: "string \<Rightarrow> nat \<Rightarrow> ('c \<times> nat) res \<Rightarrow> bool" where
  "adv buf ps r \<longleftrightarrow> (case r of Inl e \<Rightarrow> e \<in> syntax_errors | Inr (c, ps') \<Rightarrow> ps \<le> ps' \<and> ps' \<le> length buf)"

lemma adv_simps [simp]:
  "adv buf ps (Inr (c, ps')) \<longleftrightarrow> ps \<le> ps' \<and> ps' \<le> length buf" "adv buf ps (Inl e) \<longleftrightarrow> e \<in> syntax_errors"
  by (simp_all add: adv_def)

lemma in_syntax_errors [simp]:
  "Panic ''missing file for redirection'' \<in> syntax_errors" "Panic ''syntax'' \<in> syntax_errors"
  "Panic ''too many args'' \<in> syntax_errors" "Panic ''syntax - missing )'' \<in> syntax_errors"
  by (simp_all add: syntax_errors_def)

lemma adv_bind:
  "adv buf ps r \<Longrightarrow> (\<And>c ps'. r = Inr (c, ps') \<Longrightarrow> ps \<le> ps' \<Longrightarrow> ps' \<le> length buf \<Longrightarrow> adv buf ps (f (c, ps'))) \<Longrightarrow> adv buf ps (ebind r f)"
  by (cases r) (auto simp: adv_def)

lemma adv_later: "adv buf ps' r \<Longrightarrow> ps \<le> ps' \<Longrightarrow> adv buf ps r"
  by (auto simp: adv_def split: sum.splits)

lemma peekE:
  assumes "ps \<le> length buf"
  obtains ps' b where "peek buf ps toks = (ps', b)" "ps \<le> ps'" "ps' \<le> length buf" "b \<Longrightarrow> ps' < length buf"
proof -
  obtain ps' b where p: "peek buf ps toks = (ps', b)" by fastforce
  show thesis by (rule that [OF p]) (use peek_le(1,2,3) [OF p] assms in auto)
qed

lemma gettokenE:
  assumes "ps \<le> length buf"
  obtains c w ps' where "gettoken buf ps = (c, w, ps')" "ps \<le> ps'" "ps' \<le> length buf"
proof -
  obtain c w ps' where p: "gettoken buf ps = (c, w, ps')" by (cases "gettoken buf ps") auto
  show thesis by (rule that [OF p]) (use gettoken_le(1,2) [OF p] assms in auto)
qed

lemma parseredirs_adv: "ps \<le> length buf \<Longrightarrow> adv buf ps (parseredirs buf c ps)"
proof (induction buf c ps rule: parseredirs.induct)
  case (1 buf c ps)
  obtain ps1 b where p: "peek buf ps ''<>'' = (ps1, b)" "ps \<le> ps1" "ps1 \<le> length buf" using peekE [OF 1(2)] .
  obtain t w1 ps2 where g: "gettoken buf ps1 = (t, w1, ps2)" "ps1 \<le> ps2" "ps2 \<le> length buf" using gettokenE [OF p(3)] .
  obtain w qe ps3 where h: "gettoken buf ps2 = (w, qe, ps3)" "ps2 \<le> ps3" "ps3 \<le> length buf" using gettokenE [OF g(3)] .
  show ?case
  proof (cases "b \<and> w = CHR ''a''")
    case True
    then have "adv buf ps3 (parseredirs buf (redir_of t c qe) ps3)"
      using "1.IH" [OF p(1) [symmetric] refl _ g(1) [symmetric] refl refl h(1) [symmetric] refl refl] h(3) by auto
    then show ?thesis
      using adv_later [of buf ps3 _ ps] True p g h by (subst parseredirs.simps) simp
  qed (use p g h in \<open>subst parseredirs.simps, auto\<close>)
qed

lemma parse_args_adv: "ps \<le> length buf \<Longrightarrow> adv buf ps (parse_args buf k r ps)"
proof (induction buf k r ps rule: parse_args.induct)
  case (1 buf k r ps)
  obtain ps1 b where p: "peek buf ps ''|)&;'' = (ps1, b)" "ps \<le> ps1" "ps1 \<le> length buf" using peekE [OF 1(2)] .
  obtain t qe ps2 where g: "gettoken buf ps1 = (t, qe, ps2)" "ps1 \<le> ps2" "ps2 \<le> length buf" using gettokenE [OF p(3)] .
  show ?case
  proof (cases "b \<or> t \<noteq> CHR ''a'' \<or> MAXARGS \<le> k + 1")
    case False
    have "adv buf ps2 (ebind (parseredirs buf (add_arg qe r) ps2) (\<lambda>(r, ps). parse_args buf (k + 1) r ps))"
    proof (rule adv_bind [OF parseredirs_adv [OF g(3)]])
      fix c ps'
      assume "parseredirs buf (add_arg qe r) ps2 = Inr (c, ps')" "ps2 \<le> ps'" "ps' \<le> length buf"
      then have "adv buf ps' (parse_args buf (k + 1) c ps')"
        using "1.IH" [OF p(1) [symmetric] refl _ g(1) [symmetric] refl refl _ _ refl refl _ _ refl] False
        by (simp add: EOS_def)
      then show "adv buf ps2 (case (c, ps') of (r, ps) \<Rightarrow> parse_args buf (k + 1) r ps)"
        using adv_later \<open>ps2 \<le> ps'\<close> by simp
    qed
    then show ?thesis using adv_later [of buf ps2 _ ps] False p g by (subst parse_args.simps) (simp add: EOS_def)
  qed (use p g in \<open>subst parse_args.simps, auto\<close>)
qed

lemma parse_backs_adv: "ps \<le> length buf \<Longrightarrow> adv buf ps (Inr (parse_backs buf c ps))"
proof (induction buf c ps rule: parse_backs.induct)
  case (1 buf c ps)
  obtain ps1 b where p: "peek buf ps ''&'' = (ps1, b)" "ps \<le> ps1" "ps1 \<le> length buf" using peekE [OF 1(2)] .
  obtain t w ps2 where g: "gettoken buf ps1 = (t, w, ps2)" "ps1 \<le> ps2" "ps2 \<le> length buf" using gettokenE [OF p(3)] .
  show ?case
  proof (cases b)
    case True
    then have "adv buf ps2 (Inr (parse_backs buf (BACK c) ps2))"
      using "1.IH" [OF p(1) [symmetric] refl True g(1) [symmetric] refl refl] g(3) by blast
    then show ?thesis using adv_later [of buf ps2 _ ps] True p g by (subst parse_backs.simps) simp
  qed (use p in \<open>subst parse_backs.simps, simp\<close>)
qed

text \<open>After the token that \<^verbatim>\<open>peek\<close> has seen the parser is further in the line.\<close>

lemma peek_cases:
  assumes "ps \<le> length buf"
  obtains ps' where "peek buf ps toks = (ps', False)" "ps \<le> ps'" "ps' \<le> length buf"
    | ps' t w ps'' where "peek buf ps toks = (ps', True)" "gettoken buf ps' = (t, w, ps'')" "ps < ps''" "ps \<le> ps'" "ps' \<le> length buf"
      "ps'' \<le> length buf"
proof -
  obtain ps' b where p: "peek buf ps toks = (ps', b)" "ps \<le> ps'" "ps' \<le> length buf" using peekE [OF assms] .
  obtain t w ps'' where g: "gettoken buf ps' = (t, w, ps'')" "ps' \<le> ps''" "ps'' \<le> length buf" using gettokenE [OF p(3)] .
  show thesis
  proof (cases b)
    case True
    then show ?thesis using that(2) [of ps' t w ps''] peek_token [of buf ps toks ps' t w ps''] p g by auto
  qed (use that(1) p in auto)
qed

definition enough :: "nat \<Rightarrow> nat \<Rightarrow> string \<Rightarrow> nat \<Rightarrow> bool" where
  "enough k n buf ps \<longleftrightarrow> ps \<le> length buf \<and> 4 * (length buf - ps) + k \<le> n"

lemma parseline_step:
  assumes n: "enough 4 (Suc n) buf ps"
    and L: "\<And>ps. enough 4 n buf ps \<Longrightarrow> adv buf ps (parseline n buf ps)"
    and P: "\<And>ps. enough 3 n buf ps \<Longrightarrow> adv buf ps (parsepipe n buf ps)"
  shows "adv buf ps (parseline (Suc n) buf ps)"
proof -
  have e: "enough 3 n buf ps" "ps \<le> length buf" using n by (auto simp: enough_def)
  show ?thesis
    unfolding parseline.simps
  proof (rule adv_bind [OF P [OF e(1)]])
    fix c ps1
    assume ps1: "ps \<le> ps1" "ps1 \<le> length buf"
    obtain c' ps2 where b: "parse_backs buf c ps1 = (c', ps2)" "ps1 \<le> ps2" "ps2 \<le> length buf"
      using parse_backs_adv [OF ps1(2), of c] by (cases "parse_backs buf c ps1") auto
    show "adv buf ps (case (c, ps1) of (cmd, ps) \<Rightarrow> let (cmd, ps) = parse_backs buf cmd ps; (ps, more) = peek buf ps '';''
        in if more then let (_, _, ps) = gettoken buf ps in ebind (parseline n buf ps) (\<lambda>(right, ps). Inr (LIST cmd right, ps))
          else Inr (cmd, ps))"
    proof (rule peek_cases [OF b(3), of "'';''"])
      fix ps3 t w ps4
      assume p: "peek buf ps2 '';'' = (ps3, True)" "gettoken buf ps3 = (t, w, ps4)" "ps2 < ps4" "ps4 \<le> length buf"
      then have "enough 4 n buf ps4" using ps1 b n by (auto simp: enough_def)
      then have "adv buf ps4 (ebind (parseline n buf ps4) (\<lambda>(right, ps). Inr (LIST c' right, ps)))"
        by (intro adv_bind L) auto
      then show ?thesis using p b ps1 adv_later [of buf ps4 _ ps] by simp
    qed (use b ps1 in simp)
  qed
qed

lemma parsepipe_step:
  assumes n: "enough 3 (Suc n) buf ps"
    and P: "\<And>ps. enough 3 n buf ps \<Longrightarrow> adv buf ps (parsepipe n buf ps)"
    and E: "\<And>ps. enough 2 n buf ps \<Longrightarrow> adv buf ps (parseexec n buf ps)"
  shows "adv buf ps (parsepipe (Suc n) buf ps)"
proof -
  have e: "enough 2 n buf ps" "ps \<le> length buf" using n by (auto simp: enough_def)
  show ?thesis
    unfolding parsepipe.simps
  proof (rule adv_bind [OF E [OF e(1)]])
    fix c ps1
    assume ps1: "ps \<le> ps1" "ps1 \<le> length buf"
    show "adv buf ps (case (c, ps1) of (cmd, ps) \<Rightarrow> let (ps, more) = peek buf ps ''|''
        in if more then let (_, _, ps) = gettoken buf ps in ebind (parsepipe n buf ps) (\<lambda>(right, ps). Inr (PIPE cmd right, ps))
          else Inr (cmd, ps))"
    proof (rule peek_cases [OF ps1(2), of "''|''"])
      fix ps3 t w ps4
      assume p: "peek buf ps1 ''|'' = (ps3, True)" "gettoken buf ps3 = (t, w, ps4)" "ps1 < ps4" "ps4 \<le> length buf"
      then have "enough 3 n buf ps4" using ps1 n by (auto simp: enough_def)
      then have "adv buf ps4 (ebind (parsepipe n buf ps4) (\<lambda>(right, ps). Inr (PIPE c right, ps)))"
        by (intro adv_bind P) auto
      then show ?thesis using p ps1 adv_later [of buf ps4 _ ps] by simp
    qed (use ps1 in simp)
  qed
qed

lemma parseexec_step:
  assumes n: "enough 2 (Suc n) buf ps"
    and B: "\<And>ps. enough 1 n buf ps \<Longrightarrow> snd (peek buf ps ''('') \<Longrightarrow> adv buf ps (parseblock n buf ps)"
  shows "adv buf ps (parseexec (Suc n) buf ps)"
proof -
  have e: "ps \<le> length buf" using n by (auto simp: enough_def)
  show ?thesis
  proof (rule peek_cases [OF e, of "''(''"])
    fix ps1
    assume p: "peek buf ps ''('' = (ps1, False)" "ps \<le> ps1" "ps1 \<le> length buf"
    have "adv buf ps1 (ebind (parseredirs buf (EXEC []) ps1) (\<lambda>(r, ps). parse_args buf 0 r ps))"
      by (rule adv_bind [OF parseredirs_adv [OF p(3)]]) (simp add: adv_later [OF parse_args_adv])
    then show ?thesis using p adv_later [of buf ps1 _ ps] by simp
  next
    fix ps1 t w ps2
    assume p: "peek buf ps ''('' = (ps1, True)" "ps \<le> ps1" "ps1 \<le> length buf"
    then have "enough 1 n buf ps1" using n by (auto simp: enough_def)
    moreover have "snd (peek buf ps1 ''('')" using p(1) by (auto simp: peek_def Let_def)
    ultimately show ?thesis using adv_later [OF B p(2)] p(1) by simp
  qed
qed

lemma parseblock_step:
  assumes n: "enough 1 (Suc n) buf ps" and block: "snd (peek buf ps ''('')"
    and L: "\<And>ps. enough 4 n buf ps \<Longrightarrow> adv buf ps (parseline n buf ps)"
  shows "adv buf ps (parseblock (Suc n) buf ps)"
proof -
  have e: "ps \<le> length buf" using n by (auto simp: enough_def)
  show ?thesis
  proof (rule peek_cases [OF e, of "''(''"])
    fix ps1 t w ps2
    assume p: "peek buf ps ''('' = (ps1, True)" "gettoken buf ps1 = (t, w, ps2)" "ps < ps2" "ps2 \<le> length buf"
    then have "enough 4 n buf ps2" using n by (auto simp: enough_def)
    note l = L [OF this]
    have "adv buf ps2 (ebind (parseline n buf ps2) (\<lambda>(cmd, ps).
        let (ps, close) = peek buf ps '')''
        in if \<not> close then Inl (Panic ''syntax - missing )'') else let (_, _, ps) = gettoken buf ps in parseredirs buf cmd ps))"
    proof (rule adv_bind [OF l])
      fix c ps3
      assume ps3: "ps2 \<le> ps3" "ps3 \<le> length buf"
      show "adv buf ps2 (case (c, ps3) of (cmd, ps) \<Rightarrow>
        let (ps, close) = peek buf ps '')''
        in if \<not> close then Inl (Panic ''syntax - missing )'') else let (_, _, ps) = gettoken buf ps in parseredirs buf cmd ps)"
      proof (rule peek_cases [OF ps3(2), of "'')''"])
        fix ps4 t w ps5
        assume q: "peek buf ps3 '')'' = (ps4, True)" "gettoken buf ps4 = (t, w, ps5)" "ps3 < ps5" "ps5 \<le> length buf"
        have "adv buf ps5 (parseredirs buf c ps5)" by (rule parseredirs_adv [OF q(4)])
        then show ?thesis using q ps3 adv_later [of buf ps5 _ ps2] by simp
      qed simp
    qed
    then show ?thesis using p adv_later [of buf ps2 _ ps] by simp
  qed (use block in simp)
qed

lemma parser_adv:
  "enough 4 n buf ps \<Longrightarrow> adv buf ps (parseline n buf ps)"
  "enough 3 n buf ps \<Longrightarrow> adv buf ps (parsepipe n buf ps)"
  "enough 2 n buf ps \<Longrightarrow> adv buf ps (parseexec n buf ps)"
  "enough 1 n buf ps \<Longrightarrow> snd (peek buf ps ''('') \<Longrightarrow> adv buf ps (parseblock n buf ps)"
proof (induction n arbitrary: ps)
  case (Suc n)
  {
    case 1
    then show ?case by (rule parseline_step [OF _ Suc(1,2)])
  next
    case 2
    then show ?case by (rule parsepipe_step [OF _ Suc(2,3)])
  next
    case 3
    then show ?case by (rule parseexec_step [OF _ Suc(4)])
  next
    case 4
    then show ?case by (rule parseblock_step [OF _ _ Suc(1)])
  }
qed (simp_all add: enough_def)

text \<open>More fuel does not change a result.\<close>

definition settled :: "'a res \<Rightarrow> 'a res \<Rightarrow> bool" where
  "settled r r' \<longleftrightarrow> (r = Inl Diverges \<or> r' = r)"

lemma settled_refl [simp]: "settled r r" "settled (Inl Diverges) r"
  by (simp_all add: settled_def)

lemma settled_bind: "settled r r' \<Longrightarrow> (\<And>x. settled (f x) (f' x)) \<Longrightarrow> settled (ebind r f) (ebind r' f')"
  by (cases r) (auto simp: settled_def)

lemma settled_split:
  "(\<And>a b. settled (f a b) (f' a b)) \<Longrightarrow> settled (case x of (a, b) \<Rightarrow> f a b) (case x of (a, b) \<Rightarrow> f' a b)"
  by (cases x) simp

lemma settled_if: "settled r r' \<Longrightarrow> settled q q' \<Longrightarrow> settled (if b then r else q) (if b then r' else q')"
  by simp

lemma parser_settled:
  "settled (parseline n buf ps) (parseline (Suc n) buf ps)"
  "settled (parsepipe n buf ps) (parsepipe (Suc n) buf ps)"
  "settled (parseexec n buf ps) (parseexec (Suc n) buf ps)"
  "settled (parseblock n buf ps) (parseblock (Suc n) buf ps)"
proof (induction n arbitrary: ps)
  case (Suc n)
  {
    case 1
    show ?case unfolding parseline.simps(2) [of "Suc n" buf ps] parseline.simps(2) [of n buf ps] Let_def
      by (intro settled_bind settled_split settled_if Suc settled_refl)
  next
    case 2
    show ?case unfolding parsepipe.simps(2) [of "Suc n" buf ps] parsepipe.simps(2) [of n buf ps] Let_def
      by (intro settled_bind settled_split settled_if Suc settled_refl)
  next
    case 3
    show ?case unfolding parseexec.simps(2) [of "Suc n" buf ps] parseexec.simps(2) [of n buf ps] Let_def
      by (intro settled_bind settled_split settled_if Suc settled_refl)
  next
    case 4
    show ?case unfolding parseblock.simps(2) [of "Suc n" buf ps] parseblock.simps(2) [of n buf ps] Let_def
      by (intro settled_bind settled_split settled_if Suc settled_refl)
  }
qed simp_all

lemma settled_mono:
  assumes "\<And>n. settled (f n) (f (Suc n))" "f n \<noteq> Inl Diverges" "n \<le> m"
  shows "f m = f n"
  using assms(3)
proof (induction rule: dec_induct)
  case (step m)
  then show ?case using assms(1) [of m] assms(2) by (simp add: settled_def)
qed simp

lemma parsecmd_ends:
  obtains r where "parsecmd buf = Inr r" | m where "m \<in> syntax_errors" "parsecmd buf = Inl m"
proof -
  have "adv buf 0 (parseline (4 * length buf + 4) buf 0)" by (rule parser_adv) (simp add: enough_def)
  then consider m where "m \<in> syntax_errors" "parseline (4 * length buf + 4) buf 0 = Inl m"
    | c ps where "parseline (4 * length buf + 4) buf 0 = Inr (c, ps)"
    by (auto simp: adv_def split: sum.splits)
  then show thesis
  proof cases
    case (2 c ps)
    show ?thesis
    proof (cases "fst (peek buf ps []) = length buf")
      case True
      then show ?thesis using that(1) 2 by (simp add: parsecmd_def split_beta)
    next
      case False
      then show ?thesis using that(2) [of "Panic ''syntax''"] 2 by (simp add: parsecmd_def split_beta)
    qed
  qed (use that(2) in \<open>auto simp: parsecmd_def\<close>)
qed

section \<open>Commands as texts\<close>

datatype tok = Sym char | App | Word string

fun tok_text :: "tok \<Rightarrow> string" where
  "tok_text (Sym c) = [c]"
| "tok_text App = ''>>''"
| "tok_text (Word w) = w"

fun tok_code :: "tok \<Rightarrow> char" where
  "tok_code (Sym c) = c"
| "tok_code App = CHR ''+''"
| "tok_code (Word w) = CHR ''a''"

definition render :: "tok list \<Rightarrow> string" where
  "render ts = concat (map (\<lambda>t. tok_text t @ '' '') ts)"

definition wordch :: "char \<Rightarrow> bool" where
  "wordch c \<longleftrightarrow> c \<noteq> EOS \<and> c \<notin> set whitespace \<and> c \<notin> set symbols"

definition word_ok :: "string \<Rightarrow> bool" where
  "word_ok w \<longleftrightarrow> w \<noteq> [] \<and> list_all wordch w"

fun tok_ok :: "tok \<Rightarrow> bool" where
  "tok_ok (Sym c) \<longleftrightarrow> c \<in> set symbols"
| "tok_ok App \<longleftrightarrow> True"
| "tok_ok (Word w) \<longleftrightarrow> word_ok w"

text \<open>A command is printed with parentheses around a pipe line, a list or a command in the background where needed.\<close>

definition paren :: "bool \<Rightarrow> tok list \<Rightarrow> tok list" where
  "paren b ts = (if b then Sym CHR ''('' # ts @ [Sym CHR '')''] else ts)"

definition redir_toks :: "string \<Rightarrow> u32 \<Rightarrow> tok list" where
  "redir_toks f m = [if m = mode_in then Sym CHR ''<'' else if m = mode_out then Sym CHR ''>'' else App, Word f]"

fun pr :: "nat \<Rightarrow> string cmd \<Rightarrow> tok list" where
  "pr k (EXEC ws) = map Word ws"
| "pr k (REDIR c f m fd) = pr 3 c @ redir_toks f m"
| "pr k (PIPE l r) = paren (k > 2) (pr 3 l @ Sym CHR ''|'' # pr 2 r)"
| "pr k (BACK c) = paren (k > 1) (pr 1 c @ [Sym CHR ''&''])"
| "pr k (LIST l r) = paren (k > 0) (pr 1 l @ Sym CHR '';'' # pr 0 r)"

definition unparse :: "string cmd \<Rightarrow> string" where
  "unparse c = render (pr 0 c)"

text \<open>The commands of the shell: at most nine words, and redirections of the standard input and output.\<close>

fun shell_cmd :: "string cmd \<Rightarrow> bool" where
  "shell_cmd (EXEC ws) \<longleftrightarrow> length ws < MAXARGS \<and> list_all word_ok ws"
| "shell_cmd (REDIR c f m fd) \<longleftrightarrow> shell_cmd c \<and> word_ok f \<and> (m, fd) \<in> {(mode_in, 0), (mode_out, 1), (mode_append, 1)}"
| "shell_cmd (PIPE l r) \<longleftrightarrow> shell_cmd l \<and> shell_cmd r"
| "shell_cmd (LIST l r) \<longleftrightarrow> shell_cmd l \<and> shell_cmd r"
| "shell_cmd (BACK c) \<longleftrightarrow> shell_cmd c"

section \<open>Tokens of a text\<close>

definition at_toks :: "string \<Rightarrow> nat \<Rightarrow> tok list \<Rightarrow> bool" where
  "at_toks buf ps ts \<longleftrightarrow> dropWhile (\<lambda>c. c \<in> set whitespace) (drop ps buf) = render ts \<and> list_all tok_ok ts"

definition tok_char :: "tok \<Rightarrow> char" where
  "tok_char t = hd (tok_text t)"

lemma tok_ok_text:
  assumes "tok_ok t"
  shows "tok_text t \<noteq> []" "tok_char t \<noteq> EOS" "tok_char t \<notin> set whitespace"
  using assms
  by (cases t; auto simp: word_ok_def wordch_def tok_char_def symbols_def whitespace_def EOS_def list_all_iff dest: hd_in_set)+

lemma drop_skip: "drop (skip buf s) buf = dropWhile (\<lambda>c. c \<in> set whitespace) (drop s buf)"
proof (induction buf s rule: skip.induct)
  case (1 buf s)
  show ?case
  proof (cases "s < length buf")
    case True
    then have "drop s buf = ch buf s # drop (s + 1) buf" by (simp add: ch_def Cons_nth_drop_Suc)
    then show ?thesis using 1 True by (subst skip.simps) auto
  qed (subst skip.simps, simp)
qed

lemma drop_ConsD:
  assumes "drop s buf = x # xs"
  shows "s < length buf" "ch buf s = x" "drop (s + 1) buf = xs"
proof -
  show l: "s < length buf" using assms by (cases "s < length buf") auto
  then show "ch buf s = x" "drop (s + 1) buf = xs" using assms Cons_nth_drop_Suc [OF l] by (auto simp: ch_def)
qed

lemma word_end_eq:
  "drop s buf = w @ c # r \<Longrightarrow> list_all wordch w \<Longrightarrow> c \<in> set whitespace \<Longrightarrow> word_end buf s = s + length w"
proof (induction w arbitrary: s)
  case Nil
  then show ?case using drop_ConsD [of s buf c r] by (subst word_end.simps) simp
next
  case (Cons x w)
  then show ?case using drop_ConsD [of s buf x "w @ c # r"] by (subst word_end.simps) (simp add: wordch_def)
qed

lemma render_simps: "render [] = []" "render (t # ts) = tok_text t @ CHR '' '' # render ts" "render (ts @ us) = render ts @ render us"
  by (simp_all add: render_def)

lemma dropWhile_render:
  assumes "list_all tok_ok ts"
  shows "dropWhile (\<lambda>c. c \<in> set whitespace) (render ts) = render ts"
proof (cases ts)
  case (Cons t us)
  then show ?thesis
    using assms tok_ok_text(1,3) [of t] by (cases "tok_text t") (auto simp: render_simps tok_char_def)
qed (simp add: render_simps)

lemma at_toks_skip: "at_toks buf ps ts \<Longrightarrow> drop (skip buf ps) buf = render ts" "at_toks buf (skip buf ps) ts = at_toks buf ps ts"
  using dropWhile_render by (auto simp: at_toks_def drop_skip)

lemma peek_toks:
  assumes "at_toks buf ps ts"
  shows "\<exists>ps'. peek buf ps toks = (ps', ts \<noteq> [] \<and> tok_char (hd ts) \<in> set toks) \<and> at_toks buf ps' ts"
proof (cases ts)
  case Nil
  then have "ch buf (skip buf ps) = EOS" using at_toks_skip(1) [OF assms] by (simp add: ch_def render_simps)
  then show ?thesis using Nil assms at_toks_skip(2) by (simp add: peek_def Let_def)
next
  case (Cons t us)
  then have t: "tok_ok t" using assms by (simp add: at_toks_def)
  obtain x w where w: "tok_text t = x # w" using tok_ok_text(1) [OF t] by (cases "tok_text t") auto
  then have "ch buf (skip buf ps) = x"
    using at_toks_skip(1) [OF assms] drop_ConsD(2) by (simp add: Cons render_simps)
  then show ?thesis using Cons assms tok_ok_text(2) [OF t] w at_toks_skip(2) by (simp add: peek_def Let_def tok_char_def)
qed

lemma gettoken_end:
  assumes "at_toks buf ps []"
  shows "\<exists>w ps'. gettoken buf ps = (EOS, w, ps') \<and> at_toks buf ps' []"
proof -
  have "ch buf (skip buf ps) = EOS" using at_toks_skip(1) [OF assms] by (simp add: ch_def render_simps)
  then show ?thesis using assms at_toks_skip(2) by (simp add: gettoken_def Let_def)
qed

lemma gettoken_toks:
  assumes "at_toks buf ps (t # ts)"
  shows "\<exists>q ps'. gettoken buf ps = (tok_code t, (q, q + length (tok_text t)), ps') \<and> at_toks buf ps' ts \<and>
    drop q buf = tok_text t @ CHR '' '' # render ts"
proof -
  define q where "q = skip buf ps"
  have q: "drop q buf = tok_text t @ CHR '' '' # render ts" using at_toks_skip(1) [OF assms] by (simp add: q_def render_simps)
  have t: "tok_ok t" "list_all tok_ok ts" using assms by (auto simp: at_toks_def)
  obtain x w where w: "tok_text t = x # w" using tok_ok_text(1) [OF t(1)] by (cases "tok_text t") auto
  have c: "ch buf q = x" "ch buf q \<noteq> EOS"
    using drop_ConsD(2) [of q buf x] q w tok_ok_text(2) [OF t(1)] by (auto simp: tok_char_def)
  have r: "gettoken buf ps = (tok_code t, (q, q + length (tok_text t)), skip buf (q + length (tok_text t)))"
  proof (cases t)
    case (Sym y)
    then have "ch buf (q + 1) = CHR '' ''"
      using q drop_ConsD(3) [of q buf y] drop_ConsD(2) [of "q + 1" buf] by simp
    then show ?thesis
      using Sym t c w unfolding gettoken_def q_def [symmetric] Let_def by (auto simp: symbols_def EOS_def)
  next
    case App
    then have "ch buf (q + 1) = CHR ''>''" using q drop_ConsD(3) [of q buf] drop_ConsD(2) [of "q + 1" buf] by simp
    then show ?thesis using App c w unfolding gettoken_def q_def [symmetric] Let_def by (auto simp: EOS_def)
  next
    case (Word v)
    then have v: "list_all wordch v" "v = x # w" using t w by (auto simp: word_ok_def)
    have "word_end buf q = q + length v" by (rule word_end_eq [of q buf v "CHR '' ''" "render ts"]) (use q v Word in \<open>auto simp: whitespace_def\<close>)
    moreover have "x \<notin> set symbols" using v by (simp add: wordch_def)
    ultimately show ?thesis
      using Word c unfolding gettoken_def q_def [symmetric] Let_def by (auto simp: symbols_def)
  qed
  have "drop (q + length (tok_text t)) buf = CHR '' '' # render ts" using q by (metis append_eq_conv_conj drop_drop add.commute)
  then have "at_toks buf (skip buf (q + length (tok_text t))) ts"
    using t(2) dropWhile_render by (simp add: at_toks_skip(2)) (simp add: at_toks_def whitespace_def)
  then show ?thesis using r q by blast
qed

section \<open>Parsing a printed command\<close>

text \<open>The words of a tree are in the line, each of them followed by a character that is not part of a word.\<close>

definition word_rel :: "string \<Rightarrow> word_at \<Rightarrow> string \<Rightarrow> bool" where
  "word_rel buf x w \<longleftrightarrow> snd x = fst x + length w \<and> word_ok w \<and> (\<exists>c r. drop (fst x) buf = w @ c # r \<and> \<not> wordch c)"

abbreviation reads :: "string \<Rightarrow> word_at cmd \<Rightarrow> string cmd \<Rightarrow> bool" where
  "reads buf \<equiv> rel_cmd (word_rel buf)"

definition parsed :: "string \<Rightarrow> (word_at cmd \<times> nat) res \<Rightarrow> string cmd \<Rightarrow> tok list \<Rightarrow> bool" where
  "parsed buf r c ts \<longleftrightarrow> (\<exists>t ps. r = Inr (t, ps) \<and> reads buf t c \<and> at_toks buf ps ts)"

definition follows :: "string \<Rightarrow> tok list \<Rightarrow> bool" where
  "follows cs ts \<longleftrightarrow> ts = [] \<or> (\<exists>c \<in> set cs. hd ts = Sym c)"

lemma follows_peek: "follows cs ts \<Longrightarrow> ts \<noteq> [] \<and> tok_char (hd ts) \<in> set toks \<longleftrightarrow> ts \<noteq> [] \<and> tok_char (hd ts) \<in> set cs \<inter> set toks"
  by (auto simp: follows_def tok_char_def)

lemma gettoken_word:
  assumes "at_toks buf ps (Word w # ts)"
  shows "\<exists>x ps'. gettoken buf ps = (CHR ''a'', x, ps') \<and> at_toks buf ps' ts \<and> word_rel buf x w"
proof -
  obtain q ps' where g: "gettoken buf ps = (CHR ''a'', (q, q + length w), ps')" "at_toks buf ps' ts" "drop q buf = w @ CHR '' '' # render ts"
    using gettoken_toks [OF assms] by auto
  moreover have "word_ok w" "\<not> wordch (CHR '' '')" using assms by (auto simp: at_toks_def wordch_def whitespace_def)
  ultimately have "word_rel buf (q, q + length w) w" by (auto simp: word_rel_def)
  then show ?thesis using g by blast
qed

lemma gettoken_sym:
  "at_toks buf ps (Sym c # ts) \<Longrightarrow> \<exists>x ps'. gettoken buf ps = (c, x, ps') \<and> at_toks buf ps' ts"
  using gettoken_toks by fastforce

text \<open>Redirections\<close>

type_synonym red = "string \<times> u32 \<times> nat"

definition red_ok :: "red \<Rightarrow> bool" where
  "red_ok = (\<lambda>(f, m, fd). word_ok f \<and> (m, fd) \<in> {(mode_in, 0), (mode_out, 1), (mode_append, 1)})"

definition wrap :: "string cmd \<Rightarrow> red \<Rightarrow> string cmd" where
  "wrap c = (\<lambda>(f, m, fd). REDIR c f m fd)"

definition red_toks :: "red list \<Rightarrow> tok list" where
  "red_toks rs = concat (map (\<lambda>(f, m, fd). redir_toks f m) rs)"

lemma parseredirs_toks:
  assumes "at_toks buf ps (red_toks rs @ ts)" "list_all red_ok rs" "ts = [] \<or> tok_char (hd ts) \<notin> set ''<>''" "reads buf t c"
  shows "parsed buf (parseredirs buf t ps) (foldl wrap c rs) ts"
  using assms
proof (induction rs arbitrary: ps t c)
  case Nil
  then obtain ps' where "peek buf ps ''<>'' = (ps', False)" "at_toks buf ps' ts"
    using peek_toks [of buf ps ts "''<>''"] by (auto simp: red_toks_def)
  then show ?case using Nil by (subst parseredirs.simps) (simp add: parsed_def)
next
  case (Cons r rs)
  obtain f m fd where r: "r = (f, m, fd)" by (cases r)
  define k where "k = hd (redir_toks f m)"
  have k: "red_toks (r # rs) @ ts = k # Word f # red_toks rs @ ts" "tok_char k \<in> set ''<>''"
    "redir_of (tok_code k) t x = REDIR t x m fd" for x
    using Cons.prems(2) by (auto simp: r k_def red_toks_def redir_toks_def tok_char_def redir_of_def red_ok_def
      mode_in_def mode_out_def mode_append_def)
  obtain ps1 where p: "peek buf ps ''<>'' = (ps1, True)" "at_toks buf ps1 (k # Word f # red_toks rs @ ts)"
    using peek_toks [of buf ps _ "''<>''"] Cons.prems(1) k(1,2) by fastforce
  obtain x ps2 where g: "gettoken buf ps1 = (tok_code k, x, ps2)" "at_toks buf ps2 (Word f # red_toks rs @ ts)"
    using gettoken_toks [OF p(2)] by blast
  obtain y ps3 where h: "gettoken buf ps2 = (CHR ''a'', y, ps3)" "at_toks buf ps3 (red_toks rs @ ts)" "word_rel buf y f"
    using gettoken_word [OF g(2)] by blast
  have "parsed buf (parseredirs buf (REDIR t y m fd) ps3) (foldl wrap (REDIR c f m fd) rs) ts"
    using Cons.IH [OF h(2) _ Cons.prems(3), of "REDIR t y m fd" "REDIR c f m fd"] Cons.prems(2,4) h(3) by simp
  then show ?case using p(1) g(1) h(1) k(3) by (subst parseredirs.simps) (simp add: r wrap_def)
qed

text \<open>Words\<close>

lemma parse_args_end:
  assumes "at_toks buf ps ts" "follows ''|)&;'' ts" "reads buf t c"
  shows "parsed buf (parse_args buf k t ps) c ts"
proof -
  obtain ps1 where p: "peek buf ps ''|)&;'' = (ps1, ts \<noteq> [])" "at_toks buf ps1 ts"
    using peek_toks [OF assms(1), of "''|)&;''"] assms(2) by (auto simp: follows_def tok_char_def)
  show ?thesis
  proof (cases "ts = []")
    case True
    then obtain w ps2 where "gettoken buf ps1 = (EOS, w, ps2)" "at_toks buf ps2 []" using gettoken_end p(2) by blast
    then show ?thesis using p True assms(3) by (subst parse_args.simps) (simp add: parsed_def)
  qed (use p assms(3) in \<open>subst parse_args.simps, simp add: parsed_def\<close>)
qed

lemma parse_args_toks:
  assumes "at_toks buf ps (map Word ws @ red_toks rs @ ts)" "ws \<noteq> []" "k + length ws < MAXARGS" "list_all red_ok rs"
    "follows ''|)&;'' ts" "reads buf (EXEC vs) (EXEC us)"
  shows "parsed buf (parse_args buf k (EXEC vs) ps) (foldl wrap (EXEC (us @ ws)) rs) ts"
  using assms
proof (induction ws arbitrary: ps k vs us)
  case (Cons w ws)
  obtain ps1 where p: "peek buf ps ''|)&;'' = (ps1, False)" "at_toks buf ps1 (Word w # map Word ws @ red_toks rs @ ts)"
  proof -
    have "word_ok w" using Cons.prems(1) by (simp add: at_toks_def)
    then have "tok_char (Word w) \<notin> set ''|)&;''" by (cases w) (auto simp: tok_char_def word_ok_def wordch_def symbols_def)
    then show thesis using that peek_toks [OF Cons.prems(1), of "''|)&;''"] by auto
  qed
  obtain x ps2 where g: "gettoken buf ps1 = (CHR ''a'', x, ps2)" "at_toks buf ps2 (map Word ws @ red_toks rs @ ts)" "word_rel buf x w"
    using gettoken_word [OF p(2)] by auto
  have v: "reads buf (EXEC (vs @ [x])) (EXEC (us @ [w]))" using Cons.prems(6) g(3) by (simp add: list_all2_appendI)
  have nr: "ts = [] \<or> tok_char (hd ts) \<notin> set ''<>''" using Cons.prems(5) by (auto simp: follows_def tok_char_def)
  have step: "parse_args buf k (EXEC vs) ps =
      ebind (parseredirs buf (EXEC (vs @ [x])) ps2) (\<lambda>(r, ps). parse_args buf (k + 1) r ps)"
    using p(1) g(1) Cons.prems(3) by (subst parse_args.simps) (simp add: EOS_def)
  show ?case
  proof (cases "ws = []")
    case True
    then have "parsed buf (parseredirs buf (EXEC (vs @ [x])) ps2) (foldl wrap (EXEC (us @ [w])) rs) ts"
      using parseredirs_toks [OF _ Cons.prems(4) nr v] g(2) by simp
    then show ?thesis using step parse_args_end Cons.prems(5) True by (auto simp: parsed_def)
  next
    case False
    have "map Word ws @ red_toks rs @ ts = red_toks [] @ map Word ws @ red_toks rs @ ts" by (simp add: red_toks_def)
    moreover have "tok_char (hd (map Word ws @ red_toks rs @ ts)) \<notin> set ''<>''"
      using False g(2) by (cases ws; cases "hd ws") (auto simp: at_toks_def tok_char_def word_ok_def wordch_def symbols_def)
    ultimately obtain ps3 t where r: "parseredirs buf (EXEC (vs @ [x])) ps2 = Inr (t, ps3)" "at_toks buf ps3 (map Word ws @ red_toks rs @ ts)"
        "reads buf t (EXEC (us @ [w]))"
      using parseredirs_toks [OF _ _ _ v, of ps2 "[]" "map Word ws @ red_toks rs @ ts"] g(2) by (auto simp: parsed_def)
    then obtain vs' where t: "t = EXEC vs'" by (cases t) auto
    then show ?thesis
      using Cons.IH [OF r(2) False, of "k + 1" vs' "us @ [w]"] Cons.prems(3-5) r step by simp
  qed
qed simp

text \<open>The levels of the grammar. In \<open>backs_ok\<close> the loop of \<^verbatim>\<open>parseline\<close> gets to the command after some rounds.\<close>

definition exec_ok :: "string cmd \<Rightarrow> bool" where
  "exec_ok c \<longleftrightarrow> (\<forall>buf ps ts. at_toks buf ps (pr 3 c @ ts) \<longrightarrow> follows ''|)&;'' ts \<longrightarrow> (\<exists>n. parsed buf (parseexec n buf ps) c ts))"

definition pipe_ok :: "string cmd \<Rightarrow> bool" where
  "pipe_ok c \<longleftrightarrow> (\<forall>buf ps ts. at_toks buf ps (pr 2 c @ ts) \<longrightarrow> follows '')&;'' ts \<longrightarrow> (\<exists>n. parsed buf (parsepipe n buf ps) c ts))"

definition backs_ok :: "string cmd \<Rightarrow> bool" where
  "backs_ok c \<longleftrightarrow> (\<forall>buf ps ts. at_toks buf ps (pr 1 c @ ts) \<longrightarrow> follows '')&;'' ts \<longrightarrow>
    (\<exists>n t0 ps0 t ps'. parsepipe n buf ps = Inr (t0, ps0) \<and> parse_backs buf t0 ps0 = parse_backs buf t ps' \<and> reads buf t c \<and>
      at_toks buf ps' ts))"

definition line_ok :: "string cmd \<Rightarrow> bool" where
  "line_ok c \<longleftrightarrow> (\<forall>buf ps ts. at_toks buf ps (pr 0 c @ ts) \<longrightarrow> follows '')'' ts \<longrightarrow> (\<exists>n. parsed buf (parseline n buf ps) c ts))"

lemma exec_okE:
  assumes "exec_ok c" "at_toks buf ps (pr 3 c @ ts)" "follows ''|)&;'' ts"
  obtains n t ps' where "parseexec n buf ps = Inr (t, ps')" "reads buf t c" "at_toks buf ps' ts"
  using assms unfolding exec_ok_def parsed_def by meson

lemma pipe_okE:
  assumes "pipe_ok c" "at_toks buf ps (pr 2 c @ ts)" "follows '')&;'' ts"
  obtains n t ps' where "parsepipe n buf ps = Inr (t, ps')" "reads buf t c" "at_toks buf ps' ts"
  using assms unfolding pipe_ok_def parsed_def by meson

lemma backs_okE:
  assumes "backs_ok c" "at_toks buf ps (pr 1 c @ ts)" "follows '')&;'' ts"
  obtains n t0 ps0 t ps' where "parsepipe n buf ps = Inr (t0, ps0)" "parse_backs buf t0 ps0 = parse_backs buf t ps'"
    "reads buf t c" "at_toks buf ps' ts"
  using assms unfolding backs_ok_def by meson

lemma line_okE:
  assumes "line_ok c" "at_toks buf ps (pr 0 c @ ts)" "follows '')'' ts"
  obtains n t ps' where "parseline n buf ps = Inr (t, ps')" "reads buf t c" "at_toks buf ps' ts"
  using assms unfolding line_ok_def parsed_def by meson

lemma parser_mono:
  "parseline n buf ps = Inr r \<Longrightarrow> n \<le> m \<Longrightarrow> parseline m buf ps = Inr r"
  "parsepipe n buf ps = Inr r \<Longrightarrow> n \<le> m \<Longrightarrow> parsepipe m buf ps = Inr r"
  using settled_mono [of "\<lambda>n. parseline n buf ps" n m] settled_mono [of "\<lambda>n. parsepipe n buf ps" n m]
    parser_settled(1,2) by auto

lemma parseexec_mono: "parseexec n buf ps = Inr r \<Longrightarrow> n \<le> m \<Longrightarrow> parseexec m buf ps = Inr r"
  using settled_mono [of "\<lambda>n. parseexec n buf ps" n m] parser_settled(3) by auto

lemma peek_no:
  assumes "at_toks buf ps ts" "follows cs ts" "set cs \<inter> set toks = {}"
  shows "\<exists>ps'. peek buf ps toks = (ps', False) \<and> at_toks buf ps' ts"
  using peek_toks [OF assms(1), of toks] follows_peek [OF assms(2), of toks] assms(3) by auto

lemma peek_sym:
  assumes "at_toks buf ps (Sym c # ts)"
  shows "\<exists>ps' x ps''. peek buf ps [c] = (ps', True) \<and> gettoken buf ps' = (c, x, ps'') \<and> at_toks buf ps'' ts"
proof -
  obtain ps' where p: "peek buf ps [c] = (ps', True)" "at_toks buf ps' (Sym c # ts)"
    using peek_toks [OF assms, of "[c]"] by (auto simp: tok_char_def)
  then show ?thesis using gettoken_sym by blast
qed

lemma pipe_of_exec:
  assumes "exec_ok c" "pr 2 c = pr 3 c"
  shows "pipe_ok c"
  unfolding pipe_ok_def
proof (intro allI impI)
  fix buf ps ts
  assume a: "at_toks buf ps (pr 2 c @ ts)" "follows '')&;'' ts"
  have "follows ''|)&;'' ts" using a(2) by (auto simp: follows_def)
  then obtain n t ps1 where e: "parseexec n buf ps = Inr (t, ps1)" "reads buf t c" "at_toks buf ps1 ts"
    by (rule exec_okE [OF assms(1) a(1) [unfolded assms(2)]])
  obtain ps2 where "peek buf ps1 ''|'' = (ps2, False)" "at_toks buf ps2 ts" using peek_no [OF e(3) a(2), of "''|''"] by auto
  then have "parsed buf (parsepipe (Suc n) buf ps) c ts" using e by (simp add: parsed_def)
  then show "\<exists>n. parsed buf (parsepipe n buf ps) c ts" by blast
qed

lemma backs_of_pipe: "pipe_ok c \<Longrightarrow> pr 1 c = pr 2 c \<Longrightarrow> backs_ok c"
  unfolding backs_ok_def pipe_ok_def parsed_def by metis

lemma parse_backs_end:
  assumes "at_toks buf ps ts" "follows cs ts" "CHR ''&'' \<notin> set cs"
  shows "\<exists>ps'. parse_backs buf t ps = (t, ps') \<and> at_toks buf ps' ts"
  using peek_no [OF assms(1,2), of "''&''"] assms(3) by (subst parse_backs.simps) auto

lemma line_of_backs:
  assumes "backs_ok c" "pr 0 c = pr 1 c"
  shows "line_ok c"
  unfolding line_ok_def
proof (intro allI impI)
  fix buf ps ts
  assume a: "at_toks buf ps (pr 0 c @ ts)" "follows '')'' ts"
  have "follows '')&;'' ts" using a(2) by (auto simp: follows_def)
  then obtain n t0 ps0 t ps1 where p: "parsepipe n buf ps = Inr (t0, ps0)" "parse_backs buf t0 ps0 = parse_backs buf t ps1"
      "reads buf t c" "at_toks buf ps1 ts"
    by (rule backs_okE [OF assms(1) a(1) [unfolded assms(2)]])
  obtain ps2 where b: "parse_backs buf t ps1 = (t, ps2)" "at_toks buf ps2 ts" using parse_backs_end [OF p(4) a(2)] by auto
  obtain ps3 where "peek buf ps2 '';'' = (ps3, False)" "at_toks buf ps3 ts" using peek_no [OF b(2) a(2), of "'';''"] by auto
  then have "parsed buf (parseline (Suc n) buf ps) c ts" using p b by (simp add: parsed_def)
  then show "\<exists>n. parsed buf (parseline n buf ps) c ts" by blast
qed

lemma pipe_PIPE:
  assumes "exec_ok l" "pipe_ok r"
  shows "pipe_ok (PIPE l r)"
  unfolding pipe_ok_def
proof (intro allI impI)
  fix buf ps ts
  assume a: "at_toks buf ps (pr 2 (PIPE l r) @ ts)" "follows '')&;'' ts"
  have "at_toks buf ps (pr 3 l @ Sym CHR ''|'' # pr 2 r @ ts)" using a(1) by (simp add: paren_def)
  then obtain n t ps1 where e: "parseexec n buf ps = Inr (t, ps1)" "reads buf t l" "at_toks buf ps1 (Sym CHR ''|'' # pr 2 r @ ts)"
    by (rule exec_okE [OF assms(1)]) (simp add: follows_def)
  obtain ps2 x ps3 where p: "peek buf ps1 ''|'' = (ps2, True)" "gettoken buf ps2 = (CHR ''|'', x, ps3)" "at_toks buf ps3 (pr 2 r @ ts)"
    using peek_sym [OF e(3)] by auto
  obtain m u ps4 where r: "parsepipe m buf ps3 = Inr (u, ps4)" "reads buf u r" "at_toks buf ps4 ts"
    by (rule pipe_okE [OF assms(2) p(3) a(2)])
  have "parseexec (max n m) buf ps = Inr (t, ps1)" "parsepipe (max n m) buf ps3 = Inr (u, ps4)"
    using parseexec_mono [OF e(1)] parser_mono(2) [OF r(1)] by auto
  then have "parsed buf (parsepipe (Suc (max n m)) buf ps) (PIPE l r) ts" using p e r by (simp add: parsed_def)
  then show "\<exists>n. parsed buf (parsepipe n buf ps) (PIPE l r) ts" by blast
qed

lemma backs_BACK:
  assumes "backs_ok c"
  shows "backs_ok (BACK c)"
  unfolding backs_ok_def
proof (intro allI impI)
  fix buf ps ts
  assume a: "at_toks buf ps (pr 1 (BACK c) @ ts)" "follows '')&;'' ts"
  have "at_toks buf ps (pr 1 c @ Sym CHR ''&'' # ts)" using a(1) by (simp add: paren_def)
  then obtain n t0 ps0 t ps1 where p: "parsepipe n buf ps = Inr (t0, ps0)" "parse_backs buf t0 ps0 = parse_backs buf t ps1"
      "reads buf t c" "at_toks buf ps1 (Sym CHR ''&'' # ts)"
    by (rule backs_okE [OF assms]) (simp add: follows_def)
  obtain ps2 x ps3 where q: "peek buf ps1 ''&'' = (ps2, True)" "gettoken buf ps2 = (CHR ''&'', x, ps3)" "at_toks buf ps3 ts"
    using peek_sym [OF p(4)] by auto
  have "parse_backs buf t ps1 = parse_backs buf (BACK t) ps3" by (subst parse_backs.simps) (simp add: q)
  then show "\<exists>n t0 ps0 t ps'. parsepipe n buf ps = Inr (t0, ps0) \<and> parse_backs buf t0 ps0 = parse_backs buf t ps' \<and>
      reads buf t (BACK c) \<and> at_toks buf ps' ts"
    using p q(3) by (intro exI [of _ n] exI [of _ t0] exI [of _ ps0] exI [of _ "BACK t"] exI [of _ ps3]) simp
qed

lemma line_LIST:
  assumes "backs_ok l" "line_ok r"
  shows "line_ok (LIST l r)"
  unfolding line_ok_def
proof (intro allI impI)
  fix buf ps ts
  assume a: "at_toks buf ps (pr 0 (LIST l r) @ ts)" "follows '')'' ts"
  have "at_toks buf ps (pr 1 l @ Sym CHR '';'' # pr 0 r @ ts)" using a(1) by (simp add: paren_def)
  then obtain n t0 ps0 t ps1 where p: "parsepipe n buf ps = Inr (t0, ps0)" "parse_backs buf t0 ps0 = parse_backs buf t ps1"
      "reads buf t l" "at_toks buf ps1 (Sym CHR '';'' # pr 0 r @ ts)"
    by (rule backs_okE [OF assms(1)]) (simp add: follows_def)
  obtain ps2 where b: "parse_backs buf t ps1 = (t, ps2)" "at_toks buf ps2 (Sym CHR '';'' # pr 0 r @ ts)"
    using parse_backs_end [OF p(4), of "'';''"] by (auto simp: follows_def)
  obtain ps3 x ps4 where q: "peek buf ps2 '';'' = (ps3, True)" "gettoken buf ps3 = (CHR '';'', x, ps4)" "at_toks buf ps4 (pr 0 r @ ts)"
    using peek_sym [OF b(2)] by auto
  obtain m u ps5 where r: "parseline m buf ps4 = Inr (u, ps5)" "reads buf u r" "at_toks buf ps5 ts"
    by (rule line_okE [OF assms(2) q(3) a(2)])
  have "parsepipe (max n m) buf ps = Inr (t0, ps0)" "parseline (max n m) buf ps4 = Inr (u, ps5)"
    using parser_mono(2) [OF p(1)] parser_mono(1) [OF r(1)] by auto
  then have "parsed buf (parseline (Suc (max n m)) buf ps) (LIST l r) ts" using p b q r by (simp add: parsed_def)
  then show "\<exists>n. parsed buf (parseline n buf ps) (LIST l r) ts" by blast
qed

text \<open>A command that is printed at the level of \<^verbatim>\<open>parseexec\<close>: words or a block, and the redirections around them.\<close>

lemma exec_block:
  assumes "line_ok c" "at_toks buf ps (Sym CHR ''('' # pr 0 c @ Sym CHR '')'' # red_toks rs @ ts)" "list_all red_ok rs" "follows ''|)&;'' ts"
  shows "\<exists>n. parsed buf (parseexec n buf ps) (foldl wrap c rs) ts"
proof -
  obtain ps1 where p: "peek buf ps ''('' = (ps1, True)" "at_toks buf ps1 (Sym CHR ''('' # pr 0 c @ Sym CHR '')'' # red_toks rs @ ts)"
    using peek_toks [OF assms(2), of "''(''"] by (auto simp: tok_char_def)
  obtain ps2 x ps3 where q: "peek buf ps1 ''('' = (ps2, True)" "gettoken buf ps2 = (CHR ''('', x, ps3)"
      "at_toks buf ps3 (pr 0 c @ Sym CHR '')'' # red_toks rs @ ts)"
    using peek_sym [OF p(2)] by auto
  obtain n t ps4 where l: "parseline n buf ps3 = Inr (t, ps4)" "reads buf t c" "at_toks buf ps4 (Sym CHR '')'' # red_toks rs @ ts)"
    by (rule line_okE [OF assms(1) q(3)]) (simp add: follows_def)
  obtain ps5 y ps6 where r: "peek buf ps4 '')'' = (ps5, True)" "gettoken buf ps5 = (CHR '')'', y, ps6)" "at_toks buf ps6 (red_toks rs @ ts)"
    using peek_sym [OF l(3)] by auto
  have "ts = [] \<or> tok_char (hd ts) \<notin> set ''<>''" using assms(4) by (auto simp: follows_def tok_char_def)
  then have "parsed buf (parseredirs buf t ps6) (foldl wrap c rs) ts" using parseredirs_toks [OF r(3) assms(3) _ l(2)] by blast
  then have "parsed buf (parseexec (Suc (Suc n)) buf ps) (foldl wrap c rs) ts" using p(1) q(1,2) l(1) r(1,2) by simp
  then show ?thesis by blast
qed

lemma no_block:
  assumes "at_toks buf ps (map Word ws @ red_toks rs @ ts)" "follows ''|)&;'' ts"
  shows "\<not> (map Word ws @ red_toks rs @ ts \<noteq> [] \<and> tok_char (hd (map Word ws @ red_toks rs @ ts)) \<in> set ''('')"
proof (cases ws)
  case (Cons w ws')
  then have "word_ok w" using assms(1) by (simp add: at_toks_def)
  then show ?thesis using Cons by (cases w) (auto simp: tok_char_def word_ok_def wordch_def symbols_def)
next
  case Nil
  then show ?thesis
  proof (cases rs)
    case (Cons r rs')
    then show ?thesis using Nil by (cases r) (simp add: red_toks_def redir_toks_def tok_char_def)
  qed (use Nil assms(2) in \<open>auto simp: red_toks_def tok_char_def follows_def\<close>)
qed

lemma exec_words:
  assumes "at_toks buf ps (map Word ws @ red_toks rs @ ts)" "length ws < MAXARGS" "list_all red_ok rs" "follows ''|)&;'' ts"
  shows "\<exists>n. parsed buf (parseexec n buf ps) (foldl wrap (EXEC ws) rs) ts"
proof -
  have nr: "ts = [] \<or> tok_char (hd ts) \<notin> set ''<>''" using assms(4) by (auto simp: follows_def tok_char_def)
  have nb: "(map Word ws @ red_toks rs @ ts \<noteq> [] \<and> tok_char (hd (map Word ws @ red_toks rs @ ts)) \<in> set ''('') = False"
    using no_block [OF assms(1,4)] by blast
  obtain ps1 where p: "peek buf ps ''('' = (ps1, False)" "at_toks buf ps1 (map Word ws @ red_toks rs @ ts)"
    using peek_toks [OF assms(1), of "''(''"] unfolding nb by blast
  have "parsed buf (ebind (parseredirs buf (EXEC []) ps1) (\<lambda>(r, ps). parse_args buf 0 r ps)) (foldl wrap (EXEC ws) rs) ts"
  proof (cases "ws = []")
    case True
    have "parsed buf (parseredirs buf (EXEC []) ps1) (foldl wrap (EXEC []) rs) ts"
      by (rule parseredirs_toks [OF _ assms(3) nr]) (use p(2) True in simp_all)
    then show ?thesis using parse_args_end assms(4) True by (auto simp: parsed_def)
  next
    case False
    have "tok_char (hd (map Word ws @ red_toks rs @ ts)) \<notin> set ''<>''"
      using False p(2) by (cases ws; cases "hd ws") (auto simp: at_toks_def tok_char_def word_ok_def wordch_def symbols_def)
    then have "parsed buf (parseredirs buf (EXEC []) ps1) (EXEC []) (map Word ws @ red_toks rs @ ts)"
      using parseredirs_toks [of buf ps1 "[]" "map Word ws @ red_toks rs @ ts" "EXEC []" "EXEC []"] p(2) by (simp add: red_toks_def)
    then obtain t ps2 where r: "parseredirs buf (EXEC []) ps1 = Inr (t, ps2)" "reads buf t (EXEC [])"
        "at_toks buf ps2 (map Word ws @ red_toks rs @ ts)" unfolding parsed_def by blast
    then have "t = EXEC []" by (cases t) auto
    then show ?thesis using parse_args_toks [OF r(3) False _ assms(3,4), of 0 "[]" "[]"] assms(2) r by simp
  qed
  then have "parsed buf (parseexec (Suc 0) buf ps) (foldl wrap (EXEC ws) rs) ts" using p(1) by simp
  then show ?thesis by blast
qed

fun base :: "string cmd \<Rightarrow> string cmd" where
  "base (REDIR c f m fd) = base c"
| "base c = c"

lemma base_redirs:
  "shell_cmd c \<Longrightarrow> shell_cmd (base c) \<and> (\<exists>rs. list_all red_ok rs \<and> c = foldl wrap (base c) rs \<and> pr 3 c = pr 3 (base c) @ red_toks rs)"
proof (induction c)
  case (REDIR c f m fd)
  then obtain rs where rs: "list_all red_ok rs" "c = foldl wrap (base c) rs" "pr 3 c = pr 3 (base c) @ red_toks rs" and b: "shell_cmd (base c)"
    by auto
  have "list_all red_ok (rs @ [(f, m, fd)])" using rs(1) REDIR.prems by (auto simp: red_ok_def)
  moreover have "REDIR c f m fd = foldl wrap (base c) (rs @ [(f, m, fd)])" using rs(2) by (simp add: wrap_def)
  moreover have "pr 3 (REDIR c f m fd) = pr 3 (base c) @ red_toks (rs @ [(f, m, fd)])" using rs(3) by (simp add: red_toks_def)
  ultimately show ?case using b unfolding base.simps by blast
qed (auto intro: exI [of _ "[]"] simp: red_toks_def)

definition block_ok :: "string cmd \<Rightarrow> bool" where
  "block_ok c \<longleftrightarrow> (\<exists>ws. base c = EXEC ws) \<or> line_ok (base c) \<and> pr 3 (base c) = Sym CHR ''('' # pr 0 (base c) @ [Sym CHR '')'']"

lemma exec_of_block:
  assumes "shell_cmd c" "block_ok c"
  shows "exec_ok c"
  unfolding exec_ok_def
proof (intro allI impI)
  fix buf ps ts
  assume a: "at_toks buf ps (pr 3 c @ ts)" "follows ''|)&;'' ts"
  obtain rs where rs: "list_all red_ok rs" "c = foldl wrap (base c) rs" "pr 3 c = pr 3 (base c) @ red_toks rs" and b: "shell_cmd (base c)"
    using base_redirs [OF assms(1)] by auto
  from assms(2) have "\<exists>n. parsed buf (parseexec n buf ps) (foldl wrap (base c) rs) ts"
    unfolding block_ok_def
  proof (elim disjE exE conjE)
    fix ws
    assume "base c = EXEC ws"
    then show ?thesis using exec_words [of buf ps ws rs ts] a rs b by simp
  next
    assume "line_ok (base c)" "pr 3 (base c) = Sym CHR ''('' # pr 0 (base c) @ [Sym CHR '')'']"
    then show ?thesis using exec_block [of "base c" buf ps rs ts] a rs by simp
  qed
  then show "\<exists>n. parsed buf (parseexec n buf ps) c ts" using rs(2) by simp
qed

lemma grammar_ok: "shell_cmd c \<Longrightarrow> exec_ok c \<and> pipe_ok c \<and> backs_ok c \<and> line_ok c \<and> block_ok c"
proof (induction c)
  case (EXEC ws)
  then have "exec_ok (EXEC ws)" by (intro exec_of_block) (simp_all add: block_ok_def)
  then show ?case using pipe_of_exec backs_of_pipe line_of_backs by (simp add: block_ok_def)
next
  case (REDIR c f m fd)
  then have "block_ok (REDIR c f m fd)" by (simp add: block_ok_def)
  then have "exec_ok (REDIR c f m fd)" using REDIR by (intro exec_of_block) simp_all
  then show ?case using pipe_of_exec backs_of_pipe line_of_backs \<open>block_ok (REDIR c f m fd)\<close> by simp
next
  case (PIPE l r)
  then have "pipe_ok (PIPE l r)" by (simp add: pipe_PIPE)
  then have "backs_ok (PIPE l r)" by (rule backs_of_pipe) (simp add: paren_def)
  then have "line_ok (PIPE l r)" by (rule line_of_backs) (simp add: paren_def)
  then have "block_ok (PIPE l r)" by (simp add: block_ok_def paren_def)
  then show ?case using exec_of_block PIPE.prems \<open>pipe_ok (PIPE l r)\<close> \<open>backs_ok (PIPE l r)\<close> \<open>line_ok (PIPE l r)\<close> by blast
next
  case (BACK c)
  then have "backs_ok (BACK c)" by (simp add: backs_BACK)
  then have "line_ok (BACK c)" by (rule line_of_backs) (simp add: paren_def)
  then have "block_ok (BACK c)" by (simp add: block_ok_def paren_def)
  then have "exec_ok (BACK c)" using exec_of_block BACK.prems by blast
  then have "pipe_ok (BACK c)" by (rule pipe_of_exec) (simp add: paren_def)
  then show ?case using \<open>exec_ok (BACK c)\<close> \<open>backs_ok (BACK c)\<close> \<open>line_ok (BACK c)\<close> \<open>block_ok (BACK c)\<close> by blast
next
  case (LIST l r)
  then have "line_ok (LIST l r)" by (simp add: line_LIST)
  then have "block_ok (LIST l r)" by (simp add: block_ok_def paren_def)
  then have "exec_ok (LIST l r)" using exec_of_block LIST.prems by blast
  then have "pipe_ok (LIST l r)" by (rule pipe_of_exec) (simp add: paren_def)
  then have "backs_ok (LIST l r)" by (rule backs_of_pipe) (simp add: paren_def)
  then show ?case using \<open>exec_ok (LIST l r)\<close> \<open>pipe_ok (LIST l r)\<close> \<open>line_ok (LIST l r)\<close> \<open>block_ok (LIST l r)\<close> by blast
qed

section \<open>The words of the result\<close>

definition cstr :: "string \<Rightarrow> nat \<Rightarrow> string" where
  "cstr buf q = takeWhile (\<lambda>c. c \<noteq> EOS) (drop q buf)"

lemma fold_ends:
  "length (fold (\<lambda>(q, eq) buf. buf[eq := EOS]) ws buf) = length buf"
  "i < length buf \<Longrightarrow> fold (\<lambda>(q, eq) buf. buf[eq := EOS]) ws buf ! i = (if i \<in> snd ` set ws then EOS else buf ! i)"
  by (induction ws arbitrary: buf) (simp_all add: nth_list_update split_beta)

lemma nulterminate_nth:
  "length (nulterminate t buf) = length buf"
  "i < length buf \<Longrightarrow> nulterminate t buf ! i = (if i \<in> snd ` set_cmd t then EOS else buf ! i)"
proof (induction t arbitrary: buf)
  case (EXEC ws)
  {
    case 1
    show ?case by (simp add: fold_ends)
  next
    case 2
    then show ?case by (simp add: fold_ends(2))
  }
next
  case (REDIR t f m fd)
  {
    case 1
    show ?case by (simp add: REDIR)
  next
    case 2
    then show ?case by (cases "i = snd f") (simp_all add: REDIR)
  }
qed (simp_all add: image_Un)

lemma word_rel_end:
  assumes "word_rel buf x w"
  shows "snd x < length buf" "\<not> wordch (buf ! snd x)" "i < length w \<Longrightarrow> wordch (buf ! (fst x + i))" "i < length w \<Longrightarrow> buf ! (fst x + i) = w ! i"
proof -
  obtain c r where d: "drop (fst x) buf = w @ c # r" "\<not> wordch c" and e: "snd x = fst x + length w" "list_all wordch w"
    using assms by (auto simp: word_rel_def word_ok_def)
  have "length (drop (fst x) buf) = length (w @ c # r)" using d by simp
  then show l: "snd x < length buf" using e by simp
  have n: "buf ! (fst x + i) = (w @ c # r) ! i" if "i \<le> length w" for i
    using that l e d(1) nth_drop [of "fst x" buf i] by simp
  show "\<not> wordch (buf ! snd x)" using n [of "length w"] d(2) e(1) by simp
  show "buf ! (fst x + i) = w ! i" if "i < length w" using n [of i] that by (simp add: nth_append)
  then show "wordch (buf ! (fst x + i))" if "i < length w" using that e(2) by (simp add: list_all_length)
qed

lemma reads_words: "reads buf t c \<Longrightarrow> x \<in> set_cmd t \<Longrightarrow> \<exists>w. word_rel buf x w"
proof (induction t arbitrary: c)
  case (EXEC ws)
  then show ?case by (cases c) (auto simp: list_all2_conv_all_nth in_set_conv_nth)
next
  case (REDIR t f m fd)
  then show ?case by (cases c) auto
next
  case (PIPE t1 t2)
  then show ?case by (cases c) auto
next
  case (LIST t1 t2)
  then show ?case by (cases c) auto
next
  case (BACK t)
  then show ?case by (cases c) auto
qed

text \<open>The NULs that \<^verbatim>\<open>nulterminate\<close> writes end each word and are inside none.\<close>

lemma cstr_word:
  assumes "reads buf t c" "x \<in> set_cmd t" "word_rel buf x w"
  shows "cstr (nulterminate t buf) (fst x) = w"
proof -
  let ?b = "nulterminate t buf"
  note x = word_rel_end [OF assms(3)]
  have ends: "\<not> wordch (buf ! i)" if "i \<in> snd ` set_cmd t" for i
  proof -
    from that obtain y where y: "y \<in> set_cmd t" "i = snd y" by (rule imageE)
    obtain v where "word_rel buf y v" using reads_words [OF assms(1) y(1)] by blast
    then show ?thesis using word_rel_end(2) y(2) by blast
  qed
  have e: "snd x = fst x + length w" using assms(3) by (simp add: word_rel_def)
  have i: "?b ! (fst x + i) = w ! i \<and> w ! i \<noteq> EOS" if "i < length w" for i
    using that x(1,3,4) e ends [of "fst x + i"] nulterminate_nth(2) [of "fst x + i" buf t] by (auto simp: wordch_def)
  have l: "length ?b = length buf" by (rule nulterminate_nth)
  have "take (length w) (drop (fst x) ?b) = w" by (rule nth_equalityI) (use i x(1) e l in auto)
  moreover have "drop (snd x) ?b = EOS # drop (Suc (snd x)) ?b"
    using nulterminate_nth(2) [OF x(1), of t] assms(2) x(1) l Cons_nth_drop_Suc [of "snd x" ?b] by auto
  ultimately have "drop (fst x) ?b = w @ EOS # drop (Suc (snd x)) ?b"
    using append_take_drop_id [of "length w" "drop (fst x) ?b"] e by (simp add: add.commute)
  moreover have "\<forall>c \<in> set w. c \<noteq> EOS" using i by (auto simp: in_set_conv_nth)
  ultimately show ?thesis by (simp add: cstr_def takeWhile_append)
qed

lemma reads_result:
  assumes "reads buf t c"
  shows "map_cmd (\<lambda>x. cstr (nulterminate t buf) (fst x)) t = c"
proof -
  have "rel_cmd (\<lambda>x w. cstr (nulterminate t buf) (fst x) = w) t c"
    by (rule cmd.rel_mono_strong [OF assms]) (use cstr_word [OF assms] in blast)
  then have "rel_cmd (=) (map_cmd (\<lambda>x. cstr (nulterminate t buf) (fst x)) t) c" by (simp add: cmd.rel_map(1))
  then show ?thesis by (simp add: cmd.rel_eq)
qed

lemma tok_ok_pr: "shell_cmd c \<Longrightarrow> list_all tok_ok (pr k c)"
  by (induction c arbitrary: k) (auto simp: paren_def redir_toks_def symbols_def list_all_iff)

lemma parseline_fuel:
  assumes "parseline n buf 0 = Inr r"
  shows "parseline (4 * length buf + 4) buf 0 = Inr r"
proof -
  let ?m = "4 * length buf + 4"
  have "adv buf 0 (parseline ?m buf 0)" by (rule parser_adv) (simp add: enough_def)
  then have "parseline ?m buf 0 \<noteq> Inl Diverges" by (auto simp: adv_def syntax_errors_def)
  then have "parseline (max n ?m) buf 0 = parseline ?m buf 0"
    by (intro settled_mono parser_settled) simp_all
  moreover have "parseline (max n ?m) buf 0 = Inr r" by (rule parser_mono(1) [OF assms]) simp
  ultimately show ?thesis by simp
qed

section \<open>The properties of the parser\<close>

text \<open>C29: every command of the shell (pipe lines, lists, background and redirections nested in any way, with at most nine
  words each) can be written as a line that \<^verbatim>\<open>parsecmd\<close> parses as that command. After \<^verbatim>\<open>nulterminate\<close> the strings to which
  the nodes of the tree point are the words of the command.
\<close>

theorem sh_parse_roundtrip:
  assumes "shell_cmd c"
  shows "\<exists>t buf. parsecmd (unparse c) = Inr (t, buf) \<and> map_cmd (\<lambda>x. cstr buf (fst x)) t = c"
proof -
  let ?buf = "unparse c"
  have "at_toks ?buf 0 (pr 0 c @ [])"
    using tok_ok_pr [OF assms] dropWhile_render by (simp add: at_toks_def unparse_def)
  then obtain n t ps where "parseline n ?buf 0 = Inr (t, ps)" "reads ?buf t c" and ps: "at_toks ?buf ps []"
    using line_okE [of c ?buf 0 "[]"] grammar_ok [OF assms] by (auto simp: follows_def)
  then have p: "parseline (4 * length ?buf + 4) ?buf 0 = Inr (t, ps)" "reads ?buf t c" by (simp_all add: parseline_fuel)
  have "ps \<le> length ?buf" using parser_adv(1) [of "4 * length ?buf + 4" ?buf 0] p(1) by (simp add: enough_def)
  moreover have "drop (skip ?buf ps) ?buf = []" using at_toks_skip(1) [OF ps] by (simp add: render_simps)
  ultimately have "skip ?buf ps = length ?buf" using skip_less [of ps ?buf] by simp
  then have "parsecmd ?buf = Inr (t, nulterminate t ?buf)" using p(1) by (simp add: parsecmd_def peek_def Let_def)
  then show ?thesis using reads_result [OF p(2)] by blast
qed

theorem sh_parse_roundtrip_witness:
  "shell_cmd (LIST (BACK (PIPE (EXEC [''a'', ''b'']) (REDIR (EXEC [''c'']) ''f'' mode_append 1))) (EXEC [])) \<and>
    unparse (LIST (BACK (PIPE (EXEC [''a'', ''b'']) (REDIR (EXEC [''c'']) ''f'' mode_append 1))) (EXEC [])) = ''a b | c >> f & ; '' \<and>
    (\<exists>t buf. parsecmd ''a b | c >> f & ; '' = Inr (t, buf) \<and>
      map_cmd (\<lambda>x. cstr buf (fst x)) t = LIST (BACK (PIPE (EXEC [''a'', ''b'']) (REDIR (EXEC [''c'']) ''f'' mode_append 1))) (EXEC []))"
proof -
  have s: "shell_cmd (LIST (BACK (PIPE (EXEC [''a'', ''b'']) (REDIR (EXEC [''c'']) ''f'' mode_append 1))) (EXEC []))"
    by (simp add: MAXARGS_def word_ok_def wordch_def whitespace_def symbols_def EOS_def)
  have u: "unparse (LIST (BACK (PIPE (EXEC [''a'', ''b'']) (REDIR (EXEC [''c'']) ''f'' mode_append 1))) (EXEC [])) = ''a b | c >> f & ; ''"
    by (simp add: unparse_def render_def paren_def redir_toks_def mode_append_def mode_in_def mode_out_def)
  show ?thesis using sh_parse_roundtrip [OF s] s u by simp
qed

text \<open>C30: the parser of the shell ends on every line: \<^verbatim>\<open>parsecmd\<close> returns a command, or exits with one of four messages about the
  syntax. The calls of its functions are nested less than \<open>4 n + 4\<close> deep on a line of \<open>n\<close> characters, and a larger bound
  does not change the result.
\<close>

theorem sh_parser_ends:
  "(case parsecmd buf of
      Inr r \<Rightarrow> True
    | Inl e \<Rightarrow> e \<in> Panic ` {''missing file for redirection'', ''syntax'', ''too many args'', ''syntax - missing )''}) \<and>
    parseline (4 * length buf + 4 + k) buf 0 = parseline (4 * length buf + 4) buf 0"
proof (intro conjI)
  have "adv buf 0 (parseline (4 * length buf + 4) buf 0)" by (rule parser_adv) (simp add: enough_def)
  then have "parseline (4 * length buf + 4) buf 0 \<noteq> Inl Diverges" by (auto simp: adv_def syntax_errors_def)
  then show "parseline (4 * length buf + 4 + k) buf 0 = parseline (4 * length buf + 4) buf 0"
    by (intro settled_mono parser_settled) simp_all
qed (rule parsecmd_ends [of buf]; simp add: syntax_errors_def)

end
