(* ===== verification/Spec2Isabelle.thy ===== *)
theory Spec2Isabelle
  imports Utils Proc_Mem Sched_Props Fs_Props Pipe Console Net_Props Tcp_Props Sys_Errors Boot Virtio_Props Grep Sh_Props
begin

text \<open>
  A verification of xv6-rv32im, a Unix-like kernel for 32-bit RISC-V multiprocessors with a network stack, and of two of
  its user programs. The theories follow the files of the sources under \<^verbatim>\<open>src/\<close>.

  \<^bold>\<open>The program and its parts.\<close> The boot code (\<^verbatim>\<open>start.c\<close>, \<^verbatim>\<open>main.c\<close>) initialises the parts in order. The page
  allocator gives pages to page tables, processes, pipes, queues and packet buffers. Processes live in a table; each hart
  runs a scheduler that switches to runnable processes. A process enters the kernel through a trap, which fetches the
  arguments of a system call and dispatches it. The calls on files go through the table of open files to the file system,
  to pipes, to the console or to sockets. The file system stores inodes and directories in blocks, writes blocks through
  a log that makes a system call atomic under crashes, and reads and writes them through a buffer cache on top of the disk
  driver. Sockets run UDP and TCP over IP, ARP and Ethernet on the rings of the network card. Interrupts of the disk, the
  serial port, the card and the timer wake processes that sleep.

  \<^bold>\<open>Conventions.\<close> C integers of a fixed width are words; \<^verbatim>\<open>int\<close> results that serve as codes are integers. Memory is a
  function from addresses to bytes (\<open>mem\<close>), and kernel objects with identity are entries of tables. An operation returns
  \<open>Inr\<close> of its new state and result, or \<open>Inl\<close> of a \<open>fault\<close>: \<open>Panic s\<close> for a call of \<^verbatim>\<open>panic(s)\<close> (and \<open>Panic kerneltrap\<close> for a
  null pointer), \<open>Blocked\<close> for a lock that is never released, \<open>Diverges\<close> for a loop without end, \<open>Overrun\<close> for a write past
  the end of an array. Critical sections under a spin lock are atomic, except in \<open>Spinlock\<close>, where the steps are the
  single accesses to a lock, and in \<open>Sched\<close>, where harts take turns within \<^verbatim>\<open>acquire\<close> and \<^verbatim>\<open>release\<close>, and between a test of an
  entry of the process table and the assignments that follow it. A call of \<^verbatim>\<open>sleep\<close> ends an operation with \<open>Sleeps ch\<close>; a definition named \<open>_woken\<close>
  or \<open>_loop\<close> is the rest of the operation.

  \<^bold>\<open>Foundations.\<close>
  \<^item> \<open>Prelude\<close>: outcomes, words, bytes in memory. \<open>Ring\<close>: a locale for ring buffers with free-running indices, interpreted
    for pipes, the console, the serial port and both rings of the disk. \<open>Frame\<close>: partial correctness (\<open>ens\<close>) and a locale
    \<open>table_frame\<close> for what operations leave alone in the process table.
  \<^item> \<open>Kstring\<close> (\<^verbatim>\<open>string.c\<close>), \<open>Utils\<close> (\<^verbatim>\<open>utils.c\<close>), \<open>Printf\<close> (\<^verbatim>\<open>printf.c\<close>): \<^verbatim>\<open>memmove\<close> is right for overlapping regions,
    \<^verbatim>\<open>safestrcpy\<close> terminates its result, printed numbers read back as the number, byte order and random numbers.
  \<^item> \<open>Spinlock\<close> (\<^verbatim>\<open>spinlock.c\<close>): locks and interrupt nesting of the harts, with the load and the store of \<^verbatim>\<open>test_and_set\<close> as two
    steps. The \<^verbatim>\<open>Makefile\<close> runs one hart (\<^verbatim>\<open>CPUS := 1\<close>), and then the locks work; on several they work in calm runs, those in which
    no hart accesses a lock word between another's load and store of it, and a run that is not calm breaks them. \<open>Sleeplock\<close> (\<^verbatim>\<open>sleeplock.c\<close>). \<open>Queue\<close> (\<^verbatim>\<open>queue.c\<close>): linked queues are
    first-in first-out queues.

  \<^bold>\<open>Memory.\<close> \<open>Memlayout\<close> (\<^verbatim>\<open>memlayout.h\<close>, \<^verbatim>\<open>riscv.h\<close>); \<open>Kalloc\<close> (\<^verbatim>\<open>kalloc.c\<close>): a locale states what a page allocator promises,
  and the free list threaded through the free pages provides it: pages in use and free pages partition the memory.
  \<open>Vm\<close> and \<open>Vm_Buf\<close> (\<^verbatim>\<open>vm.c\<close>) hold the page tables; \<open>Vm_Map\<close>, \<open>Vm_User\<close>, \<open>Vm_Copy\<close>, \<open>Vm_Access\<close> and \<open>Vm_Props\<close> show what they
  do to the translation of addresses and to the pages in use: mapping, growing, shrinking, copying and freeing an address
  space, and the copies between kernel and user memory.

  \<^bold>\<open>Processes.\<close> \<open>Proc\<close> and \<open>Proc_Mem\<close> (\<^verbatim>\<open>proc.c\<close>): the table, allocation, sleeping, waking, waiting, and the memory of a
  process. \<open>Sched\<close>, \<open>Sched_Inv\<close> and \<open>Sched_Props\<close>: the schedulers of all harts, the processes that they switch to
  and their critical sections as a step relation over the locks of \<open>Spinlock\<close>. On one hart and in calm runs, no process runs on two
  harts, the tests of \<^verbatim>\<open>sched\<close> never fail, and every runnable process is switched to in its turn. How the rest of the kernel calls
  them (\<^verbatim>\<open>sleep\<close> with just the lock that it passes, \<^verbatim>\<open>yield\<close> without one) is in the guards of the steps. \<open>Proc_Life\<close> (\<^verbatim>\<open>userinit\<close>, \<^verbatim>\<open>fork\<close>, \<^verbatim>\<open>exit\<close>) and \<open>Exec\<close> (\<^verbatim>\<open>exec.c\<close>) also use files. \<open>Syscall\<close>, \<open>Sysfile\<close> and
  \<open>Sysproc\<close> (\<^verbatim>\<open>syscall.c\<close>, \<^verbatim>\<open>sysfile.c\<close>, \<^verbatim>\<open>sysproc.c\<close>) are the system calls, \<open>Trap\<close> (\<^verbatim>\<open>trap.c\<close>, \<^verbatim>\<open>plic.c\<close>) the ways into and out
  of the kernel, \<open>Boot\<close> (\<^verbatim>\<open>main.c\<close>, \<^verbatim>\<open>start.c\<close>, \<^verbatim>\<open>pci.c\<close>) the start, after which the invariant of the files holds.

  \<^bold>\<open>Files and disk.\<close> \<open>File\<close> (\<^verbatim>\<open>file.c\<close>) has the state \<open>kern\<close> of the whole kernel and the table of open files. \<open>File_Refs\<close> and
  \<open>File_Life\<close> show that the reference count of a file is the number of descriptors that refer to it, and that every system call
  keeps this if it returns without sleeping and is no \<^verbatim>\<open>connect\<close> that fails; \<open>Sys_Errors\<close> shows error paths on which the code
  fails, the leak of a failing \<^verbatim>\<open>connect\<close> among them. \<open>Block\<close>, \<open>Bio\<close> (\<^verbatim>\<open>bio.c\<close>) with
  \<open>Bio_Lru\<close> and \<open>Bio_Cache\<close>: the list of buffers and the coherence of the cache. \<open>Log\<close> (\<^verbatim>\<open>log.c\<close>) and \<open>Log_Crash\<close>: a crash
  between any two writes, and any number of crashes during recovery, leave all or nothing of a transaction. \<open>Fs\<close>
  (\<^verbatim>\<open>fs.c\<close>) is the file system on top of them; \<open>Fs_Alloc\<close>, \<open>Fs_Content\<close>, \<open>Fs_Write\<close> and \<open>Fs_Props\<close> show that the block allocator
  hands out each free block once and zeroed, that \<^verbatim>\<open>bmap\<close> extends a file by fresh blocks, that \<^verbatim>\<open>readi\<close> returns the contents
  of a file, and that \<^verbatim>\<open>writei\<close> replaces the addressed bytes of one file, within the log space that \<^verbatim>\<open>begin_op\<close> reserves
  for \<^verbatim>\<open>filewrite\<close>. They are about the running transaction, whose effect on the disk \<open>Log_Crash\<close> makes atomic. \<open>Virtio\<close>
  (\<^verbatim>\<open>virtio_disk.c\<close>) and \<open>Virtio_Props\<close>: together with a device that follows the virtio specification and works in any order, the
  driver performs exactly the transfers that were asked for; the device follows the flags and lengths of the descriptors. This justifies \<open>virtio_disk_rw\<close> of \<open>Bio\<close>, where a transfer is
  one step.

  \<^bold>\<open>Devices and network.\<close> \<open>Pipe\<close> (\<^verbatim>\<open>pipe.c\<close>): reading and writing refine a queue, and no wake-up is lost. \<open>Uart\<close> and \<open>Console\<close>
  (\<^verbatim>\<open>uart.c\<close>, \<^verbatim>\<open>console.c\<close>): output in order, and a line editor. \<open>Net\<close> (\<^verbatim>\<open>mbuf.c\<close>, \<^verbatim>\<open>ethernet.c\<close>, \<^verbatim>\<open>arp.c\<close>, \<^verbatim>\<open>ip.c\<close>, \<^verbatim>\<open>e1000.c\<close>),
  \<open>Udp\<close>, \<open>Tcp\<close>, \<open>Socket\<close> and their properties \<open>Net_Send\<close>, \<open>Net_Frames\<close>, \<open>Net_Props\<close> and \<open>Tcp_Props\<close>: sending returns and puts the frame on the
  ring of the card, checksums verify as the RFCs demand, datagrams are queued in order, ports are unique, the handshake completes, the
  stream of a connection is appended, acknowledged and read in order, and the edges of the state machine. A segment with options
  makes \<^verbatim>\<open>tcp_rx\<close> pass a wrong length to the handler, which is then shown to write past its buffer.

  \<^bold>\<open>User programs.\<close> \<open>Sh\<close> and \<open>Sh_Props\<close> (\<^verbatim>\<open>user/sh.c\<close>): the parser ends on every line and can produce every command.
  \<open>Grep\<close> (\<^verbatim>\<open>user/grep.c\<close>): the matcher implements the language of a pattern, and the lines that match are printed, for input
  without NUL whose lines are shorter than 1023 characters; what follows the last newline is not printed.

  \<^bold>\<open>Bounds.\<close> Loops that the code bounds have a termination proof. Where the end depends on an invariant, a definition has
  fuel, and running out of it is \<open>Diverges\<close>, which the properties exclude. A loop over pages has \<open>2 ^ 20 + 1\<close> rounds, since a
  32-bit space has \<open>2 ^ 20\<close> pages; \<open>freewalk\<close> has 2 levels, those of Sv32; a walk over the buffer cache has one round more than
  there are buffers, as has the loop that erases a line of the console; a walk over packet buffers or sockets has \<open>2 ^ 20\<close>
  rounds, since each of them has a page; the receive ring is read once around; the parser of the shell has depth
  \<open>4 n + 4\<close> on a line of \<open>n\<close> characters.

  \<^bold>\<open>Parameters.\<close> What lies outside the sources is an argument: the addresses that the linker fixes (\<open>ksyms\<close>, \<open>tsyms\<close>,
  \<open>bsyms\<close>), what the registers of the devices read (\<open>devices\<close>, \<open>bdevs\<close>), the room in the transmitter of the serial port, and
  the length of the pieces in which \<^verbatim>\<open>read\<close> delivers input to \<open>grep\<close>.

  \<^bold>\<open>Not modelled.\<close> Assembly (\<^verbatim>\<open>entry.S\<close>, \<^verbatim>\<open>swtch.S\<close>, \<^verbatim>\<open>trampoline.S\<close>, the register saving of \<^verbatim>\<open>kernelvec.S\<close>) needs a model of the
  processor. Locks that only make a section atomic have no state, apart from those that a failing path leaves locked. The
  RAM disk is not part of the kernel. Running the commands of the shell, the other commands and the user library are
  sequences of system calls or copies of kernel routines; the tests state no contract; \<^verbatim>\<open>mkfs\<close> runs on the host.
\<close>

end
